(* ===== verification/Prelude.thy ===== *)
theory Prelude
  imports Main "HOL-Library.Word"
begin

unbundle bit_operations_syntax

text \<open>
  The vocabulary every component of the kernel model shares.

  A kernel function is a HOL function from its arguments and the kernel state to an outcome
  \<open>('a, 's) res\<close>.  \<open>Ok a s\<close> is a normal return of \<open>a\<close> in state \<open>s\<close>; \<open>Panic msg\<close> is a
  call of \<open>panic(msg)\<close> (console.c), which never returns; \<open>Switch s\<close> means that the thread
  gave up the CPU in \<open>sched()\<close> (proc.c) and the machine is in state \<open>s\<close>; \<open>Spin l s\<close> means
  that it spins in \<open>acquire()\<close> on a lock another CPU holds; \<open>Fault msg\<close> is an access the C
  code leaves undefined (a null pointer, an index out of an array).  A sequence of C statements
  is written \<open>call (f args s) (\<lambda>x s. rest)\<close>: run \<open>f\<close>, bind its result and the new state.
\<close>

type_synonym u8 = "8 word"
type_synonym ushort = "16 word"
type_synonym uint = "32 word"
type_synonym bytes = "u8 list"
type_synonym memory = "uint \<Rightarrow> u8"

named_theorems run_simps \<open>rules that turn a run to its result into facts about its steps\<close>
named_theorems defs_state \<open>definitions of the small state updates\<close>

section \<open>Names of the kernel's locks and sleep channels\<close>

text \<open>
  C uses addresses as names.  Every address the sources pass to \<open>acquire\<close>, \<open>sleep\<close> or
  \<open>wakeup\<close> is one constructor: the sleep lock of a buffer or an inode, the lock of a pipe, and
  so on.
\<close>

datatype slid = BufLk nat | InodeLk nat

datatype chan =
    ChProc nat | ChSleeplock slid | ChLog | ChTicks | ChBuf nat
  | ChPipeRead uint | ChPipeWrite uint | ChConsole

datatype lockid =
    KmemLock | RefcountLock | PtableLock | BcacheLock | IcacheLock | LogLock | FtableLock
  | IdeLock | TicksLock | ConsLock | PipeLock uint | SlkLock slid

section \<open>Outcomes\<close>

datatype ('a, 's) res =
    Ok 'a 's
  | Panic string
  | Switch 's
  | Spin lockid 's
  | Fault string

primrec call :: "('a, 's) res \<Rightarrow> ('a \<Rightarrow> 's \<Rightarrow> ('b, 's) res) \<Rightarrow> ('b, 's) res" where
  "call (Ok a s) f = f a s"
| "call (Panic m) f = Panic m"
| "call (Switch s) f = Switch s"
| "call (Spin l s) f = Spin l s"
| "call (Fault m) f = Fault m"

lemma call_cong [fundef_cong]:
  assumes "m = m'" and "\<And>a s. m' = Ok a s \<Longrightarrow> f a s = g a s"
  shows "call m f = call m' g"
  using assms by (cases m') auto

lemma call_eq_Ok [run_simps]:
  "call m f = Ok b t \<longleftrightarrow> (\<exists>a s. m = Ok a s \<and> f a s = Ok b t)"
  by (cases m) auto

lemma call_assoc: "call (call m f) g = call m (\<lambda>a s. call (f a s) g)"
  by (cases m) auto

lemma call_Ok_right [simp]: "call m Ok = m"
  by (cases m) auto

text \<open>A C call through a pointer that may be null, or into an array.\<close>

definition panic_if :: "bool \<Rightarrow> string \<Rightarrow> 's \<Rightarrow> (unit, 's) res" where
  "panic_if b msg s = (if b then Panic msg else Ok () s)"

definition fault_if :: "bool \<Rightarrow> string \<Rightarrow> 's \<Rightarrow> (unit, 's) res" where
  "fault_if b msg s = (if b then Fault msg else Ok () s)"

lemma panic_if_Ok [run_simps]: "panic_if b msg s = Ok u t \<longleftrightarrow> \<not> b \<and> t = s"
  by (auto simp: panic_if_def)

lemma fault_if_Ok [run_simps]: "fault_if b msg s = Ok u t \<longleftrightarrow> \<not> b \<and> t = s"
  by (auto simp: fault_if_def)

lemma panic_if_simps [simp]:
  "panic_if True msg s = Panic msg" "panic_if False msg s = Ok () s"
  by (simp_all add: panic_if_def)

lemma fault_if_simps [simp]:
  "fault_if True msg s = Fault msg" "fault_if False msg s = Ok () s"
  by (simp_all add: fault_if_def)

text \<open>Loops whose bounds are known before they start: \<open>for(i = 0; i < n; i++) body\<close>.\<close>

fun for_each :: "('x \<Rightarrow> 's \<Rightarrow> (unit, 's) res) \<Rightarrow> 'x list \<Rightarrow> 's \<Rightarrow> (unit, 's) res" where
  "for_each f [] s = Ok () s"
| "for_each f (x # xs) s = call (f x s) (\<lambda>_ s. for_each f xs s)"

lemma for_each_append:
  "for_each f (xs @ ys) s = call (for_each f xs s) (\<lambda>_ s. for_each f ys s)"
proof (induction xs arbitrary: s)
  case (Cons x xs)
  have "for_each f (xs @ ys) = (\<lambda>s. call (for_each f xs s) (\<lambda>_ s. for_each f ys s))"
    by (rule ext) (rule Cons.IH)
  then show ?case by (simp add: call_assoc)
qed simp

lemma for_each_invariant:
  assumes run: "for_each f xs s = Ok u t"
    and step: "\<And>x s u t. x \<in> set xs \<Longrightarrow> f x s = Ok u t \<Longrightarrow> P s \<Longrightarrow> P t"
    and start: "P s"
  shows "P t"
  using assms
proof (induction xs arbitrary: s)
  case Nil
  then show ?case by simp
next
  case (Cons x xs)
  from Cons.prems(1) obtain v r where x: "f x s = Ok v r" and xs: "for_each f xs r = Ok u t"
    by (auto simp: call_eq_Ok)
  have "P r"
    using Cons.prems(2)[OF _ x Cons.prems(3)] by simp
  with xs show ?case
    using Cons.IH Cons.prems(2) by (meson list.set_intros(2))
qed

section \<open>Running a lower component inside a larger state\<close>

text \<open>
  A component's functions take the component's own state.  A caller whose state holds that state
  in the field \<open>get\<close> runs them with \<open>zoom get put\<close>; nothing else of the caller's state changes.
\<close>

definition zoom :: "('s \<Rightarrow> 't) \<Rightarrow> (('t \<Rightarrow> 't) \<Rightarrow> 's \<Rightarrow> 's) \<Rightarrow>
    ('t \<Rightarrow> ('a, 't) res) \<Rightarrow> 's \<Rightarrow> ('a, 's) res" where
  "zoom get put f s =
     (case f (get s) of
        Ok a t \<Rightarrow> Ok a (put (\<lambda>_. t) s)
      | Panic m \<Rightarrow> Panic m
      | Switch t \<Rightarrow> Switch (put (\<lambda>_. t) s)
      | Spin l t \<Rightarrow> Spin l (put (\<lambda>_. t) s)
      | Fault m \<Rightarrow> Fault m)"

lemma zoom_eq_Ok [run_simps]:
  "zoom get put f s = Ok a s' \<longleftrightarrow> (\<exists>t. f (get s) = Ok a t \<and> s' = put (\<lambda>_. t) s)"
  by (auto simp: zoom_def split: res.splits)

lemma zoom_Ok: "f (get s) = Ok a t \<Longrightarrow> zoom get put f s = Ok a (put (\<lambda>_. t) s)"
  by (simp add: zoom_def)

lemma zoom_Panic: "f (get s) = Panic m \<Longrightarrow> zoom get put f s = Panic m"
  by (simp add: zoom_def)

section \<open>Machine words as numbers\<close>

lemma unat_lt32: "unat (x :: uint) < 4294967296"
  using unsigned_less[of x] by simp

lemma unat_of_nat32: "n < 2 ^ 32 \<Longrightarrow> unat (of_nat n :: uint) = n"
  by (simp add: unsigned_of_nat take_bit_nat_eq_self)

section \<open>Bytes, little endian\<close>

definition byte :: "nat \<Rightarrow> 'a::len word \<Rightarrow> u8" where
  "byte k w = ucast (drop_bit (8 * k) w)"

definition le32 :: "uint \<Rightarrow> bytes" where
  "le32 w = [byte 0 w, byte 1 w, byte 2 w, byte 3 w]"

definition of_le32 :: "u8 \<Rightarrow> u8 \<Rightarrow> u8 \<Rightarrow> u8 \<Rightarrow> uint" where
  "of_le32 b0 b1 b2 b3 =
     ucast b0 OR push_bit 8 (ucast b1) OR push_bit 16 (ucast b2) OR push_bit 24 (ucast b3)"

definition le16 :: "ushort \<Rightarrow> bytes" where
  "le16 w = [byte 0 w, byte 1 w]"

definition of_le16 :: "u8 \<Rightarrow> u8 \<Rightarrow> ushort" where
  "of_le16 b0 b1 = ucast b0 OR push_bit 8 (ucast b1)"

lemma of_le32_bytes [simp]:
  "of_le32 (byte 0 w) (byte (Suc 0) w) (byte 2 w) (byte 3 w) = w"
proof (rule bit_word_eqI)
  fix n :: nat
  assume "n < LENGTH(32)"
  then have n: "n < 32" by simp
  consider "n < 8" | "8 \<le> n \<and> n < 16" | "16 \<le> n \<and> n < 24" | "24 \<le> n" by linarith
  then show "bit (of_le32 (byte 0 w) (byte (Suc 0) w) (byte 2 w) (byte 3 w)) n = bit w n"
    using n by cases (auto simp: of_le32_def byte_def bit_simps)
qed

lemma of_le16_bytes [simp]: "of_le16 (byte 0 w) (byte (Suc 0) w) = w"
  unfolding of_le16_def byte_def
  by (rule bit_word_eqI) (auto simp: bit_simps not_less dest!: le_Suc_ex)

lemma byte_of_le32 [simp]:
  "byte 0 (of_le32 a b c d) = a" "byte (Suc 0) (of_le32 a b c d) = b"
  "byte 2 (of_le32 a b c d) = c" "byte 3 (of_le32 a b c d) = d"
  unfolding of_le32_def byte_def
  by (rule bit_word_eqI; auto simp: bit_simps dest: bit_imp_le_length)+

lemma byte_of_le16 [simp]:
  "byte 0 (of_le16 a b) = a" "byte (Suc 0) (of_le16 a b) = b"
  unfolding of_le16_def byte_def
  by (rule bit_word_eqI; auto simp: bit_simps dest: bit_imp_le_length)+

lemma length_le32 [simp]: "length (le32 w) = 4" and length_le16 [simp]: "length (le16 h) = 2"
  by (simp_all add: le32_def le16_def)

lemma word_sub_and_not: "v - (v AND NOT k) = v AND (k :: 'a::len word)"
proof -
  have "NOT v AND (v AND NOT k) = 0" by (rule bit_word_eqI) (auto simp: bit_simps)
  then have "v - (v AND NOT k) = v AND NOT (v AND NOT k)"
    by (rule disjunctive_diff_eq_and_not)
  also have "\<dots> = v AND k" by (rule bit_word_eqI) (auto simp: bit_simps)
  finally show ?thesis .
qed

lemma find_SomeD: "find P xs = Some x \<Longrightarrow> P x \<and> x \<in> set xs"
  by (auto simp: find_Some_iff)

end
