(* ===== verification/Cstring.thy ===== *)
theory Cstring
  imports Prelude
begin

text \<open>
  Byte memory and the string routines of string.c (kernel) and ulib.c (user programs).  Memory
  maps every 32-bit address to a byte; a pointer is an address and pointer arithmetic wraps at
  \<open>2 ^ 32\<close>.  Counts are \<open>nat\<close> where C counts an unsigned or non-negative value down to zero.  Each
  routine is the loop of the C code; the lemmas give its closed form.
\<close>

section \<open>Words in memory\<close>

definition load32 :: "memory \<Rightarrow> uint \<Rightarrow> uint" where
  "load32 m a = of_le32 (m a) (m (a + 1)) (m (a + 2)) (m (a + 3))"

definition store32 :: "uint \<Rightarrow> uint \<Rightarrow> memory \<Rightarrow> memory" where
  "store32 a w m = m(a := byte 0 w, a + 1 := byte 1 w, a + 2 := byte 2 w, a + 3 := byte 3 w)"

definition aligned4 :: "uint \<Rightarrow> bool" where
  "aligned4 a \<longleftrightarrow> unat a mod 4 = 0"

text \<open>\<open>span a n x\<close>: address \<open>x\<close> is one of the \<open>n\<close> bytes from \<open>a\<close> on.\<close>

definition span :: "uint \<Rightarrow> nat \<Rightarrow> uint \<Rightarrow> bool" where
  "span a n x \<longleftrightarrow> unat (x - a) < n"

section \<open>string.c\<close>

text \<open>The string instructions \<open>rep stosb\<close> and \<open>rep stosl\<close> of x86.h.\<close>

fun stosb :: "uint \<Rightarrow> u8 \<Rightarrow> nat \<Rightarrow> memory \<Rightarrow> memory" where
  "stosb a c 0 m = m"
| "stosb a c (Suc n) m = stosb (a + 1) c n (m(a := c))"

fun stosl :: "uint \<Rightarrow> uint \<Rightarrow> nat \<Rightarrow> memory \<Rightarrow> memory" where
  "stosl a w 0 m = m"
| "stosl a w (Suc n) m = stosl (a + 4) w n (store32 a w m)"

definition memset :: "uint \<Rightarrow> uint \<Rightarrow> uint \<Rightarrow> memory \<Rightarrow> memory" where
  "memset dst c n m =
     (if dst mod 4 = 0 \<and> n mod 4 = 0
      then let c = c AND 0xFF in
        stosl dst (push_bit 24 c OR push_bit 16 c OR push_bit 8 c OR c) (unat (n div 4)) m
      else stosb dst (ucast c) (unat n) m)"

fun memcmp :: "uint \<Rightarrow> uint \<Rightarrow> nat \<Rightarrow> memory \<Rightarrow> int" where
  "memcmp s1 s2 0 m = 0"
| "memcmp s1 s2 (Suc n) m =
     (if m s1 \<noteq> m s2 then uint (m s1) - uint (m s2) else memcmp (s1 + 1) (s2 + 1) n m)"

fun copy_up :: "uint \<Rightarrow> uint \<Rightarrow> nat \<Rightarrow> memory \<Rightarrow> memory" where
  "copy_up d s 0 m = m"
| "copy_up d s (Suc n) m = copy_up (d + 1) (s + 1) n (m(d := m s))"

text \<open>The loop \<open>while(n-- > 0) *--d = *--s\<close>, from the ends of both blocks.\<close>

fun copy_down :: "uint \<Rightarrow> uint \<Rightarrow> nat \<Rightarrow> memory \<Rightarrow> memory" where
  "copy_down d s 0 m = m"
| "copy_down d s (Suc n) m = copy_down (d - 1) (s - 1) n (m(d - 1 := m (s - 1)))"

definition memmove :: "uint \<Rightarrow> uint \<Rightarrow> uint \<Rightarrow> memory \<Rightarrow> memory" where
  "memmove dst src n m =
     (if src < dst \<and> src + n > dst
      then copy_down (dst + n) (src + n) (unat n) m
      else copy_up dst src (unat n) m)"

definition memcpy :: "uint \<Rightarrow> uint \<Rightarrow> uint \<Rightarrow> memory \<Rightarrow> memory" where
  "memcpy dst src n m = memmove dst src n m"

fun strncmp :: "uint \<Rightarrow> uint \<Rightarrow> nat \<Rightarrow> memory \<Rightarrow> int" where
  "strncmp p q 0 m = 0"
| "strncmp p q (Suc n) m =
     (if m p \<noteq> 0 \<and> m p = m q then strncmp (p + 1) (q + 1) n m
      else uint (m p) - uint (m q))"

text \<open>The second loop of \<open>strncpy\<close> pads with zeros.\<close>

fun strncpy :: "uint \<Rightarrow> uint \<Rightarrow> nat \<Rightarrow> memory \<Rightarrow> memory" where
  "strncpy s t 0 m = m"
| "strncpy s t (Suc n) m =
     (let c = m t; m = m(s := c) in
      if c \<noteq> 0 then strncpy (s + 1) (t + 1) n m else stosb (s + 1) 0 n m)"

text \<open>\<open>safestrcpy_loop s t k\<close>: the loop with \<open>k\<close> bytes that may still be copied, then \<open>*s = 0\<close>.\<close>

fun safestrcpy_loop :: "uint \<Rightarrow> uint \<Rightarrow> nat \<Rightarrow> memory \<Rightarrow> memory" where
  "safestrcpy_loop s t 0 m = m(s := 0)"
| "safestrcpy_loop s t (Suc k) m =
     (let c = m t; m = m(s := c) in
      if c \<noteq> 0 then safestrcpy_loop (s + 1) (t + 1) k m else m(s + 1 := 0))"

definition safestrcpy :: "uint \<Rightarrow> uint \<Rightarrow> int \<Rightarrow> memory \<Rightarrow> memory" where
  "safestrcpy s t n m = (if n \<le> 0 then m else safestrcpy_loop s t (nat (n - 1)) m)"

text \<open>\<open>strlen\<close> does not return when no byte of memory is zero.\<close>

partial_function (option) strlen_from :: "uint \<Rightarrow> nat \<Rightarrow> memory \<Rightarrow> nat option" where
  "strlen_from s n m = (if m (s + of_nat n) = 0 then Some n else strlen_from s (Suc n) m)"

definition strlen :: "uint \<Rightarrow> memory \<Rightarrow> nat option" where
  "strlen s m = strlen_from s 0 m"

section \<open>ulib.c\<close>

partial_function (option) strcpy :: "uint \<Rightarrow> uint \<Rightarrow> memory \<Rightarrow> memory option" where
  "strcpy s t m =
     (let c = m t; m = m(s := c) in
      if c \<noteq> 0 then strcpy (s + 1) (t + 1) m else Some m)"

partial_function (option) strcmp :: "uint \<Rightarrow> uint \<Rightarrow> memory \<Rightarrow> int option" where
  "strcmp p q m =
     (if m p \<noteq> 0 \<and> m p = m q then strcmp (p + 1) (q + 1) m
      else Some (uint (m p) - uint (m q)))"

text \<open>\<open>Some 0\<close> is the null pointer.\<close>

partial_function (option) strchr :: "uint \<Rightarrow> u8 \<Rightarrow> memory \<Rightarrow> uint option" where
  "strchr s c m =
     (if m s = 0 then Some 0 else if m s = c then Some s else strchr (s + 1) c m)"

partial_function (option) atoi_from :: "uint \<Rightarrow> uint \<Rightarrow> memory \<Rightarrow> uint option" where
  "atoi_from s n m =
     (if 48 \<le> m s \<and> m s \<le> 57 then atoi_from (s + 1) (n * 10 + ucast (m s) - 48) m
      else Some n)"

definition atoi :: "uint \<Rightarrow> memory \<Rightarrow> uint option" where
  "atoi s m = atoi_from s 0 m"

definition umemset :: "uint \<Rightarrow> u8 \<Rightarrow> nat \<Rightarrow> memory \<Rightarrow> memory" where
  "umemset dst c n m = stosb dst c n m"

definition umemmove :: "uint \<Rightarrow> uint \<Rightarrow> int \<Rightarrow> memory \<Rightarrow> memory" where
  "umemmove dst src n m = copy_up dst src (nat n) m"

section \<open>Address arithmetic\<close>

lemma unat_Suc_diff:
  fixes x a :: uint
  assumes "x \<noteq> a"
  shows "unat (x - a) = Suc (unat (x - (a + 1)))"
proof -
  have "x - a \<noteq> 0" using assms by simp
  then have "unat (x - a - 1) = unat (x - a) - 1" and "0 < unat (x - a)"
    by (simp_all add: unat_minus_one unat_gt_0)
  moreover have "x - (a + 1) = x - a - 1" by simp
  ultimately show ?thesis by (metis Suc_pred')
qed

lemma span_0 [simp]: "\<not> span a 0 x"
  by (simp add: span_def)

lemma span_Suc: "span a (Suc n) x \<longleftrightarrow> x = a \<or> x \<noteq> a \<and> span (a + 1) n x"
  by (cases "x = a") (auto simp: span_def unat_Suc_diff)

lemma span_self: "0 < n \<Longrightarrow> span a n a"
  by (simp add: span_def)

lemma unat_add_small:
  fixes a b :: uint
  shows "unat a + unat b < 2 ^ 32 \<Longrightarrow> unat (a + b) = unat a + unat b"
  by (simp add: unat_word_ariths)

lemma aligned4_no_carry:
  assumes "aligned4 a" and "unat k < 4"
  shows "unat (a + k) = unat a + unat k"
proof (rule unat_add_small)
  have "unat a mod 4 = 0"
    using assms(1) by (simp add: aligned4_def)
  moreover have "unat a < 4294967296" using unsigned_less[of a] by simp
  ultimately have "unat a \<le> 4294967292" by presburger
  then show "unat a + unat k < 2 ^ 32" using assms(2) by simp
qed

lemma aligned4_offset_eq:
  assumes a: "aligned4 a" and b: "aligned4 b" and i: "unat i < 4" and j: "unat j < 4"
  shows "a + i = b + j \<longleftrightarrow> a = b \<and> i = j"
proof
  assume e: "a + i = b + j"
  have "unat a mod 4 = 0" "unat b mod 4 = 0"
    using a b by (simp_all add: aligned4_def)
  moreover have "unat a + unat i = unat b + unat j"
    using e aligned4_no_carry[OF a i] aligned4_no_carry[OF b j] by simp
  ultimately have "unat a = unat b \<and> unat i = unat j" using i j by presburger
  then show "a = b \<and> i = j" by (simp add: word_unat_eq_iff)
qed simp

lemma load_store32:
  assumes "aligned4 a" and "aligned4 b"
  shows "load32 (store32 a w m) b = (if a = b then w else load32 m b)"
proof (cases "a = b")
  case True
  then show ?thesis by (simp add: load32_def store32_def)
next
  case False
  have ne: "b + i \<noteq> a + j" if "unat i < 4" "unat j < 4" for i j :: uint
    using aligned4_offset_eq[OF assms(2) assms(1) that] False by simp
  note nes = ne[of 0 0] ne[of 0 1] ne[of 0 2] ne[of 0 3] ne[of 1 0] ne[of 1 1] ne[of 1 2]
    ne[of 1 3] ne[of 2 0] ne[of 2 1] ne[of 2 2] ne[of 2 3] ne[of 3 0] ne[of 3 1] ne[of 3 2]
    ne[of 3 3]
  show ?thesis
    using False nes by (simp add: load32_def store32_def)
qed

lemma store32_outside:
  "\<not> span a 4 x \<Longrightarrow> store32 a w m x = m x"
  by (auto simp: store32_def span_def)

lemma load32_cong: "(\<And>x. span a 4 x \<Longrightarrow> m x = m' x) \<Longrightarrow> load32 m a = load32 m' a"
  by (simp add: load32_def span_def)


section \<open>Closed forms\<close>

lemma stosb_eq: "stosb a c n m x = (if span a n x then c else m x)"
  by (induction n arbitrary: a m) (auto simp: span_Suc)

lemma span_add4: "span a (4 + n) x \<longleftrightarrow> span a 4 x \<or> span (a + 4) n x"
proof -
  have four: "(4::nat) = Suc (Suc (Suc (Suc 0)))" by simp
  show ?thesis unfolding four by (auto simp: span_Suc add.assoc)
qed

lemma store32_span:
  assumes "byte 0 w = c" "byte 1 w = c" "byte 2 w = c" "byte 3 w = c"
  shows "store32 a w m x = (if span a 4 x then c else m x)"
proof -
  have four: "(4::nat) = Suc (Suc (Suc (Suc 0)))" by simp
  show ?thesis using assms unfolding four
    by (auto simp: store32_def span_Suc add.assoc)
qed

lemma stosl_eq:
  assumes "byte 0 w = c" "byte 1 w = c" "byte 2 w = c" "byte 3 w = c"
  shows "stosl a w n m x = (if span a (4 * n) x then c else m x)"
proof (induction n arbitrary: a m)
  case (Suc n)
  have "4 * Suc n = 4 + 4 * n" by simp
  then show ?case
    using Suc store32_span[OF assms, of a m x] by (simp only: stosl.simps span_add4) auto
qed simp

lemma memset_word_bytes:
  fixes c :: uint
  defines "w \<equiv> push_bit 24 (c AND 0xFF) OR push_bit 16 (c AND 0xFF) OR
      push_bit 8 (c AND 0xFF) OR (c AND 0xFF)"
  shows "w = of_le32 (ucast c) (ucast c) (ucast c) (ucast c)"
proof -
  have ff: "(0xFF :: uint) = mask 8" by (simp add: mask_eq_exp_minus_1)
  have "c AND 0xFF = ucast (ucast c :: u8)"
    unfolding ff by (rule bit_word_eqI) (auto simp: bit_simps)
  then show ?thesis
    unfolding w_def of_le32_def by (simp add: or.commute or.left_commute)
qed

lemma memset_eq: "memset dst c n m x = (if span dst (unat n) x then ucast c else m x)"
proof (cases "dst mod 4 = 0 \<and> n mod 4 = 0")
  case True
  have "unat n mod 4 = 0" using True unat_mod[of n 4] by simp
  then have "4 * unat (n div 4) = unat n"
    using unat_div[of n 4] by simp presburger
  moreover have "memset dst c n m x =
      stosl dst (of_le32 (ucast c) (ucast c) (ucast c) (ucast c)) (unat (n div 4)) m x"
    using True by (simp only: memset_def Let_def memset_word_bytes if_True simp_thms)
  ultimately show ?thesis by (simp add: stosl_eq[where c = "ucast c"])
next
  case False
  then show ?thesis by (auto simp: memset_def stosb_eq)
qed

lemma copy_up_eq:
  assumes "unat (d - s) = 0 \<or> n \<le> unat (d - s)"
  shows "copy_up d s n m x = (if span d n x then m (s + (x - d)) else m x)"
  using assms
proof (induction n arbitrary: d s m)
  case (Suc n)
  have shift: "d + 1 - (s + 1) = d - s" by simp
  have IH: "copy_up (d + 1) (s + 1) n (m(d := m s)) x =
      (if span (d + 1) n x then (m(d := m s)) (s + 1 + (x - (d + 1))) else (m(d := m s)) x)"
    by (rule Suc.IH) (use Suc.prems in \<open>unfold shift, auto\<close>)
  have "s + (x - d) \<noteq> d" if "x \<noteq> d" "span (d + 1) n x"
  proof
    assume "s + (x - d) = d"
    then have "x - d = d - s" by (simp add: algebra_simps)
    moreover have "unat (x - d) < Suc n" and "x - d \<noteq> 0"
      using that by (simp_all add: span_def unat_Suc_diff)
    ultimately show False using Suc.prems by (auto simp: unat_eq_0)
  qed
  then show ?case using IH by (auto simp: span_Suc algebra_simps)
qed simp

lemma span_Suc_end:
  assumes "Suc n \<le> 2 ^ 32"
  shows "span a (Suc n) x \<longleftrightarrow> span a n x \<or> x = a + of_nat n"
proof -
  have "unat (x - a) = n \<longleftrightarrow> x = a + of_nat n"
  proof
    assume "unat (x - a) = n"
    then have "of_nat n = x - a" by auto
    then show "x = a + of_nat n" by simp
  qed (use assms in \<open>simp add: unat_of_nat32\<close>)
  then show ?thesis by (auto simp: span_def less_Suc_eq)
qed

lemma copy_down_eq:
  assumes "unat (s - d) = 0 \<or> n \<le> unat (s - d)" and "n \<le> 2 ^ 32"
  shows "copy_down (d + of_nat n) (s + of_nat n) n m x =
    (if span d n x then m (s + (x - d)) else m x)"
  using assms
proof (induction n arbitrary: m)
  case (Suc n)
  let ?m = "m(d + of_nat n := m (s + of_nat n))"
  have IH: "copy_down (d + of_nat n) (s + of_nat n) n ?m x =
      (if span d n x then ?m (s + (x - d)) else ?m x)"
    by (rule Suc.IH) (use Suc.prems in auto)
  have clash: "s + (x - d) \<noteq> d + of_nat n" if "span d n x"
  proof
    assume "s + (x - d) = d + of_nat n"
    then have "s - d = of_nat n - (x - d)" by (simp add: algebra_simps)
    moreover have lt: "unat (x - d) < n" using that by (simp add: span_def)
    moreover have un: "unat (of_nat n :: uint) = n" using Suc.prems(2) by (simp add: unat_of_nat32)
    ultimately have "unat (s - d) = n - unat (x - d)"
      by (metis less_imp_le unat_sub word_le_nat_alt)
    then show False using lt Suc.prems(1) by auto
  qed
  have e: "d + of_nat (Suc n) - 1 = d + of_nat n" "s + of_nat (Suc n) - 1 = s + of_nat n"
    by simp_all
  have same: "x = d + of_nat n \<Longrightarrow> s + (x - d) = s + of_nat n" by simp
  show ?case
    unfolding copy_down.simps e IH span_Suc_end[OF Suc.prems(2)]
    using clash same by (auto simp: span_def)
qed simp

lemma memmove_eq:
  assumes s: "unat src + unat n < 2 ^ 32" and d: "unat dst + unat n < 2 ^ 32"
  shows "memmove dst src n m x =
    (if unat (x - dst) < unat n then m (src + (x - dst)) else m x)"
proof (cases "src < dst \<and> src + n > dst")
  case True
  have sn: "unat (src + n) = unat src + unat n" by (rule unat_add_small[OF s])
  have "unat (src - dst) = 2 ^ 32 + unat src - unat dst"
    using True d by (simp add: unat_sub_if' word_less_nat_alt)
  moreover have "unat src < unat dst" "unat dst < unat src + unat n"
    using True sn by (simp_all add: word_less_nat_alt)
  ultimately have "unat n \<le> unat (src - dst)" using d by simp
  then have "copy_down (dst + of_nat (unat n)) (src + of_nat (unat n)) (unat n) m x =
      (if span dst (unat n) x then m (src + (x - dst)) else m x)"
    by (intro copy_down_eq) (use unat_lt32[of n] in auto)
  then show ?thesis using True by (simp add: memmove_def span_def)
next
  case False
  have sn: "unat (src + n) = unat src + unat n" by (rule unat_add_small[OF s])
  have "unat (dst - src) = 0 \<or> unat n \<le> unat (dst - src)"
  proof (cases "src < dst")
    case True
    then have "unat src + unat n \<le> unat dst"
      using False sn by (simp add: word_less_nat_alt not_less)
    then show ?thesis by (simp add: unat_sub_if') linarith
  next
    case False
    then have "unat dst \<le> unat src" by (simp add: word_less_nat_alt)
    then show ?thesis using s by (auto simp: unat_sub_if')
  qed
  from copy_up_eq[OF this, of m x] show ?thesis
    using False by (simp only: memmove_def span_def if_False)
qed


text \<open>\<open>memmove\<close> copies as if through a temporary buffer: for blocks that do not run past the end
  of the address space, every byte of the destination gets the byte the source held before the
  call, also when the blocks overlap, and no other byte changes.
\<close>

theorem memmove_copies:
  assumes "unat src + unat n < 2 ^ 32" and "unat dst + unat n < 2 ^ 32"
  shows "memmove dst src n m x =
    (if unat (x - dst) < unat n then m (src + (x - dst)) else m x)"
  by (rule memmove_eq[OF assms])

theorem memmove_copies_witness:
  "memmove 11 10 4 (\<lambda>a. ucast a) 13 = (12 :: u8) \<and> memmove 9 10 4 (\<lambda>a. ucast a) 9 = (10 :: u8)"
  using memmove_copies[of 10 4 11 "\<lambda>a. ucast a" 13] memmove_copies[of 10 4 9 "\<lambda>a. ucast a" 9]
  by simp

section \<open>Strings in memory\<close>

text \<open>
  \<open>bytes_at m a n\<close> is the array of \<open>n\<close> bytes at \<open>a\<close>.  The file system model keeps such arrays
  as lists; \<open>strncmp_l\<close> is \<open>strncmp\<close> on two arrays, with a zero after the end of each.
\<close>

definition bytes_at :: "memory \<Rightarrow> uint \<Rightarrow> nat \<Rightarrow> bytes" where
  "bytes_at m a n = map (\<lambda>i. m (a + of_nat i)) [0..<n]"

definition char_at :: "bytes \<Rightarrow> u8" where
  "char_at xs = (case xs of [] \<Rightarrow> 0 | x # _ \<Rightarrow> x)"

fun strncmp_l :: "bytes \<Rightarrow> bytes \<Rightarrow> nat \<Rightarrow> int" where
  "strncmp_l p q 0 = 0"
| "strncmp_l p q (Suc n) =
     (if char_at p \<noteq> 0 \<and> char_at p = char_at q then strncmp_l (tl p) (tl q) n
      else uint (char_at p) - uint (char_at q))"

lemma bytes_at_Suc: "bytes_at m a (Suc n) = m a # bytes_at m (a + 1) n"
  by (simp add: bytes_at_def upt_conv_Cons map_Suc_upt[symmetric] algebra_simps comp_def
      del: upt_Suc)

lemma strncmp_bytes_at: "strncmp p q n m = strncmp_l (bytes_at m p n) (bytes_at m q n) n"
  by (induction n arbitrary: p q) (simp_all add: bytes_at_Suc char_at_def)

text \<open>Two arrays hold the same string when they agree up to the first zero or up to \<open>n\<close> bytes.\<close>

fun same_string :: "bytes \<Rightarrow> bytes \<Rightarrow> nat \<Rightarrow> bool" where
  "same_string p q 0 = True"
| "same_string p q (Suc n) \<longleftrightarrow>
     char_at p = char_at q \<and> (char_at p = 0 \<or> same_string (tl p) (tl q) n)"

lemma uint_diff_zero: "uint (a :: u8) - uint b = 0 \<longleftrightarrow> a = b"
  by (simp add: word_uint_eq_iff)

lemma strncmp_l_zero: "strncmp_l p q n = 0 \<longleftrightarrow> same_string p q n"
  by (induction n arbitrary: p q) (auto simp: uint_diff_zero simp del: right_minus_eq)

lemma same_string_sym: "same_string p q n \<longleftrightarrow> same_string q p n"
  by (induction n arbitrary: p q) auto

lemma same_string_refl [simp]: "same_string p p n"
  by (induction n arbitrary: p) auto

lemma strlen_from_sound:
  assumes "strlen_from s n m = Some k"
  shows "n \<le> k \<and> m (s + of_nat k) = 0 \<and> (\<forall>j. n \<le> j \<and> j < k \<longrightarrow> m (s + of_nat j) \<noteq> 0)"
proof (rule strlen_from.raw_induct[where P = "\<lambda>s n m k. n \<le> k \<and> m (s + of_nat k) = 0 \<and>
      (\<forall>j. n \<le> j \<and> j < k \<longrightarrow> m (s + of_nat j) \<noteq> 0)", OF _ assms])
  fix f s n m k
  assume IH: "\<And>s n m k. f s n m = Some k \<Longrightarrow>
      n \<le> k \<and> m (s + of_nat k) = 0 \<and> (\<forall>j. n \<le> j \<and> j < k \<longrightarrow> m (s + of_nat j) \<noteq> 0)"
    and eq: "(if m (s + of_nat n) = 0 then Some n else f s (Suc n) m) = Some k"
  show "n \<le> k \<and> m (s + of_nat k) = 0 \<and> (\<forall>j. n \<le> j \<and> j < k \<longrightarrow> m (s + of_nat j) \<noteq> 0)"
  proof (cases "m (s + of_nat n) = 0")
    case False
    with eq IH[of s "Suc n" m k] show ?thesis by (metis Suc_leI Suc_leD le_neq_implies_less)
  qed (use eq in auto)
qed

lemma strlen_from_complete:
  assumes "n \<le> k" and "m (s + of_nat k) = 0" and "\<And>j. n \<le> j \<Longrightarrow> j < k \<Longrightarrow> m (s + of_nat j) \<noteq> 0"
  shows "strlen_from s n m = Some k"
  using assms
proof (induction "k - n" arbitrary: n)
  case 0
  then show ?case by (simp add: strlen_from.simps)
next
  case (Suc d)
  then have "m (s + of_nat n) \<noteq> 0" by simp
  moreover have "strlen_from s (Suc n) m = Some k" by (rule Suc.hyps(1)) (use Suc in auto)
  ultimately show ?case by (simp add: strlen_from.simps[of s n])
qed

text \<open>\<open>strlen\<close> returns \<open>k\<close> exactly when the byte at offset \<open>k\<close> is the first zero of the string;
  in particular it returns whenever the string is terminated.
\<close>

theorem strlen_first_zero:
  "strlen s m = Some k \<longleftrightarrow> m (s + of_nat k) = 0 \<and> (\<nexists>j. j < k \<and> m (s + of_nat j) = 0)"
proof
  assume "strlen s m = Some k"
  then have "strlen_from s 0 m = Some k" by (simp add: strlen_def)
  from strlen_from_sound[OF this] show
    "m (s + of_nat k) = 0 \<and> (\<nexists>j. j < k \<and> m (s + of_nat j) = 0)" by blast
next
  assume "m (s + of_nat k) = 0 \<and> (\<nexists>j. j < k \<and> m (s + of_nat j) = 0)"
  then have "strlen_from s 0 m = Some k" by (intro strlen_from_complete) auto
  then show "strlen s m = Some k" by (simp add: strlen_def)
qed

lemma safestrcpy_loop_outside:
  "\<not> span s (Suc k) x \<Longrightarrow> safestrcpy_loop s t k m x = m x"
proof (induction k arbitrary: s t m)
  case 0
  then show ?case by (simp add: span_Suc)
next
  case (Suc k)
  from Suc.prems have "x \<noteq> s" and out: "\<not> span (s + 1) (Suc k) x"
    using span_Suc[of s "Suc k" x] by auto
  moreover have "x \<noteq> s + 1" using out span_Suc[of "s + 1" k x] by auto
  ultimately show ?case using Suc.IH[OF out] by (simp add: Let_def)
qed

lemma safestrcpy_loop_terminated:
  "Suc k \<le> 2 ^ 32 \<Longrightarrow> \<exists>j. j \<le> k \<and> safestrcpy_loop s t k m (s + of_nat j) = 0"
proof (induction k arbitrary: s t m)
  case (Suc k)
  show ?case
  proof (cases "m t = 0")
    case True
    then show ?thesis
      by (intro exI[of _ 1]) (simp add: Let_def)
  next
    case False
    obtain j where "j \<le> k" "safestrcpy_loop (s + 1) (t + 1) k (m(s := m t)) (s + 1 + of_nat j) = 0"
      using Suc.IH[of "s + 1" "t + 1" "m(s := m t)"] Suc.prems
      by (metis Suc_leD)
    then show ?thesis
      using False by (intro exI[of _ "Suc j"]) (simp add: Let_def add.assoc del: fun_upd_apply)
  qed
qed auto

text \<open>\<open>safestrcpy\<close> with a positive size always leaves a terminated string inside the destination
  block and writes nothing outside it.
\<close>

theorem safestrcpy_terminates_string:
  assumes "0 < n" and "n \<le> 2 ^ 31"
  shows "(\<exists>j. j < nat n \<and> safestrcpy s t n m (s + of_nat j) = 0) \<and>
    (\<forall>x. unat (x - s) < nat n \<or> safestrcpy s t n m x = m x)"
proof -
  have k: "Suc (nat (n - 1)) = nat n" using assms by simp
  have "Suc (nat (n - 1)) \<le> 2 ^ 32" unfolding k using assms by simp
  from safestrcpy_loop_terminated[OF this, of s t m] k
  have "\<exists>j. j < nat n \<and> safestrcpy s t n m (s + of_nat j) = 0"
    using assms by (auto simp: safestrcpy_def less_Suc_eq_le simp flip: k)
  moreover have "unat (x - s) < nat n \<or> safestrcpy s t n m x = m x" for x
    using safestrcpy_loop_outside[of s "nat (n - 1)" x t m] assms k
    by (auto simp: safestrcpy_def span_def)
  ultimately show ?thesis by blast
qed

theorem safestrcpy_terminates_string_witness:
  "\<exists>j. j < (4::nat) \<and> safestrcpy 100 200 4 (\<lambda>_. 65) (100 + of_nat j) = 0"
  using safestrcpy_terminates_string[of 4 100 200 "\<lambda>_. 65"] by simp

end
