(* ===== verification/Machine.thy ===== *)
theory Machine
  imports Prelude
begin

text \<open>
  CPUs, spin locks, the process table, sleep and wakeup, sleep locks: spinlock.c, sleeplock.c,
  proc.h and the part of proc.c every layer above calls (\<open>mycpu\<close>, \<open>myproc\<close>, \<open>sched\<close>,
  \<open>sleep\<close>, \<open>wakeup\<close>).  The state \<open>mach\<close> is what one CPU sees while it runs kernel code: the
  table \<open>cpus[]\<close>, its own LAPIC id and interrupt flag, every spin lock, every sleep lock and
  \<open>ptable\<close>.  The recorded call stacks \<open>pcs[]\<close> of a spin lock, which only serve debugging, are
  not modelled.
\<close>

section \<open>State\<close>

text \<open>\<open>struct trapframe\<close>, without the padding.\<close>

record trapframe =
  tf_edi :: uint
  tf_esi :: uint
  tf_ebp :: uint
  tf_oesp :: uint
  tf_ebx :: uint
  tf_edx :: uint
  tf_ecx :: uint
  tf_eax :: uint
  tf_gs :: ushort
  tf_fs :: ushort
  tf_es :: ushort
  tf_ds :: ushort
  tf_trapno :: uint
  tf_err :: uint
  tf_eip :: uint
  tf_cs :: ushort
  tf_eflags :: uint
  tf_esp :: uint
  tf_ss :: ushort

definition zero_tf :: trapframe where
  "zero_tf = \<lparr>tf_edi = 0, tf_esi = 0, tf_ebp = 0, tf_oesp = 0, tf_ebx = 0, tf_edx = 0,
     tf_ecx = 0, tf_eax = 0, tf_gs = 0, tf_fs = 0, tf_es = 0, tf_ds = 0, tf_trapno = 0,
     tf_err = 0, tf_eip = 0, tf_cs = 0, tf_eflags = 0, tf_esp = 0, tf_ss = 0\<rparr>"

text \<open>\<open>struct context\<close>; the saved \<open>eip\<close> is a label of the kernel's code.\<close>

datatype label = NoLabel | Forkret | Trapret | SwtchReturn

record kcontext =
  c_edi :: uint
  c_esi :: uint
  c_ebx :: uint
  c_ebp :: uint
  c_eip :: label

datatype procstate = UNUSED | EMBRYO | SLEEPING | RUNNABLE | RUNNING | ZOMBIE

text \<open>
  \<open>struct proc\<close>.  Pointers to other processes, files and inodes are indices into \<open>ptable.proc\<close>,
  \<open>ftable.file\<close> and \<open>icache.inode\<close>, with \<open>None\<close> for the null pointer; \<open>p_pgdir\<close> and \<open>kstack\<close> are
  kernel addresses.
\<close>

record proc =
  p_sz :: uint
  p_pgdir :: uint
  kstack :: uint
  pstate :: procstate
  pid :: int
  parent :: "nat option"
  p_tf :: trapframe
  p_context :: kcontext
  pchan :: "chan option"
  killed :: bool
  ofile :: "nat option list"
  cwd :: "nat option"
  pname :: string

record cpu =
  apicid :: nat
  ncli :: int
  intena :: bool
  cproc :: "nat option"

record spinlock =
  lk_name :: string
  locked :: bool
  lk_cpu :: "nat option"

record sleeplock =
  slk_name :: string
  slocked :: bool
  slk_pid :: int

record mach =
  cpus :: "cpu list"
  lapicid :: nat
  eflags_if :: bool
  locks :: "lockid \<Rightarrow> spinlock"
  slocks :: "slid \<Rightarrow> sleeplock"
  ptable :: "proc list"
  nextpid :: int
  initproc :: "nat option"

definition NPROC :: nat where "NPROC = 64"
definition NOFILE :: nat where "NOFILE = 16"
definition NCPU :: nat where "NCPU = 8"

definition set_cpu :: "nat \<Rightarrow> (cpu \<Rightarrow> cpu) \<Rightarrow> mach \<Rightarrow> mach" where
  "set_cpu c f m = m\<lparr>cpus := (cpus m)[c := f (cpus m ! c)]\<rparr>"

definition set_lock :: "lockid \<Rightarrow> (spinlock \<Rightarrow> spinlock) \<Rightarrow> mach \<Rightarrow> mach" where
  "set_lock l f m = m\<lparr>locks := (locks m)(l := f (locks m l))\<rparr>"

definition set_slock :: "slid \<Rightarrow> (sleeplock \<Rightarrow> sleeplock) \<Rightarrow> mach \<Rightarrow> mach" where
  "set_slock l f m = m\<lparr>slocks := (slocks m)(l := f (slocks m l))\<rparr>"

definition set_proc :: "nat \<Rightarrow> (proc \<Rightarrow> proc) \<Rightarrow> mach \<Rightarrow> mach" where
  "set_proc p f m = m\<lparr>ptable := (ptable m)[p := f (ptable m ! p)]\<rparr>"

section \<open>CPUs\<close>

text \<open>\<open>mycpu\<close> searches \<open>cpus[]\<close> for the LAPIC id of the CPU it runs on.\<close>

fun find_apic :: "nat \<Rightarrow> nat list \<Rightarrow> nat option" where
  "find_apic a [] = None"
| "find_apic a (b # bs) = (if b = a then Some 0 else map_option Suc (find_apic a bs))"

definition cpu_index :: "mach \<Rightarrow> nat option" where
  "cpu_index m = find_apic (lapicid m) (map apicid (cpus m))"

definition mycpu :: "mach \<Rightarrow> (nat, mach) res" where
  "mycpu m =
     (if eflags_if m then Panic ''mycpu called with interrupts enabled''
      else (case cpu_index m of Some c \<Rightarrow> Ok c m | None \<Rightarrow> Panic ''unknown apicid''))"

definition cpuid :: "mach \<Rightarrow> (nat, mach) res" where
  "cpuid m = mycpu m"

section \<open>Spin locks\<close>

definition pushcli :: "mach \<Rightarrow> (unit, mach) res" where
  "pushcli m =
     (let eflags = eflags_if m; m = m\<lparr>eflags_if := False\<rparr> in
      call (mycpu m) (\<lambda>c m.
      let m = (if ncli (cpus m ! c) = 0
               then set_cpu c (\<lambda>k. k\<lparr>intena := eflags\<rparr>) m else m) in
      Ok () (set_cpu c (\<lambda>k. k\<lparr>ncli := ncli k + 1\<rparr>) m)))"

definition popcli :: "mach \<Rightarrow> (unit, mach) res" where
  "popcli m =
     (if eflags_if m then Panic ''popcli - interruptible''
      else call (mycpu m) (\<lambda>c m.
        let m = set_cpu c (\<lambda>k. k\<lparr>ncli := ncli k - 1\<rparr>) m in
        if ncli (cpus m ! c) < 0 then Panic ''popcli''
        else if ncli (cpus m ! c) = 0 \<and> intena (cpus m ! c)
        then Ok () (m\<lparr>eflags_if := True\<rparr>)
        else Ok () m))"

definition initlock :: "lockid \<Rightarrow> string \<Rightarrow> mach \<Rightarrow> (unit, mach) res" where
  "initlock l nm m =
     Ok () (set_lock l (\<lambda>k. k\<lparr>lk_name := nm, locked := False, lk_cpu := None\<rparr>) m)"

definition holding :: "lockid \<Rightarrow> mach \<Rightarrow> (bool, mach) res" where
  "holding l m =
     call (pushcli m) (\<lambda>_ m.
     call (mycpu m) (\<lambda>c m.
     let r = (locked (locks m l) \<and> lk_cpu (locks m l) = Some c) in
     call (popcli m) (\<lambda>_ m. Ok r m)))"

text \<open>
  The loop \<open>while(xchg(&lk->locked, 1) != 0)\<close> leaves at its first test when the lock is free;
  when another CPU holds it, this CPU spins.
\<close>

definition acquire :: "lockid \<Rightarrow> mach \<Rightarrow> (unit, mach) res" where
  "acquire l m =
     call (pushcli m) (\<lambda>_ m.
     call (holding l m) (\<lambda>h m.
     if h then Panic ''acquire''
     else if locked (locks m l) then Spin l m
     else let m = set_lock l (\<lambda>k. k\<lparr>locked := True\<rparr>) m in
       call (mycpu m) (\<lambda>c m. Ok () (set_lock l (\<lambda>k. k\<lparr>lk_cpu := Some c\<rparr>) m))))"

definition release :: "lockid \<Rightarrow> mach \<Rightarrow> (unit, mach) res" where
  "release l m =
     call (holding l m) (\<lambda>h m.
     if \<not> h then Panic ''release''
     else let m = set_lock l (\<lambda>k. k\<lparr>lk_cpu := None\<rparr>) m;
              m = set_lock l (\<lambda>k. k\<lparr>locked := False\<rparr>) m in
       popcli m)"

section \<open>Processes: current process, sleep and wakeup\<close>

definition myproc :: "mach \<Rightarrow> (nat option, mach) res" where
  "myproc m =
     call (pushcli m) (\<lambda>_ m.
     call (mycpu m) (\<lambda>c m.
     let p = cproc (cpus m ! c) in
     call (popcli m) (\<lambda>_ m. Ok p m)))"

text \<open>\<open>myproc()->field\<close>: the access faults when no process runs on this CPU.\<close>

definition curproc :: "mach \<Rightarrow> (nat, mach) res" where
  "curproc m = call (myproc m) (\<lambda>p m.
     case p of None \<Rightarrow> Fault ''myproc() is null'' | Some i \<Rightarrow> Ok i m)"

definition sched :: "mach \<Rightarrow> (unit, mach) res" where
  "sched m =
     call (myproc m) (\<lambda>p m.
     call (holding PtableLock m) (\<lambda>h m.
     if \<not> h then Panic ''sched ptable.lock''
     else call (mycpu m) (\<lambda>c m.
       if ncli (cpus m ! c) \<noteq> 1 then Panic ''sched locks''
       else case p of None \<Rightarrow> Fault ''sched: no process'' | Some i \<Rightarrow>
         if pstate (ptable m ! i) = RUNNING then Panic ''sched running''
         else if eflags_if m then Panic ''sched interruptible''
         else Switch m)))"

text \<open>
  \<open>sleep\<close> never returns in the run that calls it: it ends in \<open>Switch\<close>.  What follows
  \<open>sched()\<close> once the scheduler resumes the process is \<open>sleep_resume\<close>.
\<close>

definition sleep :: "chan \<Rightarrow> lockid option \<Rightarrow> mach \<Rightarrow> (unit, mach) res" where
  "sleep ch lk m =
     call (myproc m) (\<lambda>p m.
     case p of None \<Rightarrow> Panic ''sleep'' | Some i \<Rightarrow>
     case lk of None \<Rightarrow> Panic ''sleep without lk'' | Some l \<Rightarrow>
     call (if l \<noteq> PtableLock
           then call (acquire PtableLock m) (\<lambda>_ m. release l m)
           else Ok () m) (\<lambda>_ m.
     sched (set_proc i (\<lambda>q. q\<lparr>pchan := Some ch, pstate := SLEEPING\<rparr>) m)))"

definition sleep_resume :: "lockid \<Rightarrow> nat \<Rightarrow> mach \<Rightarrow> (unit, mach) res" where
  "sleep_resume l i m =
     (let m = set_proc i (\<lambda>q. q\<lparr>pchan := None\<rparr>) m in
      if l \<noteq> PtableLock
      then call (release PtableLock m) (\<lambda>_ m. acquire l m)
      else Ok () m)"

definition wakeup1 :: "chan \<Rightarrow> mach \<Rightarrow> mach" where
  "wakeup1 ch m = m\<lparr>ptable := map (\<lambda>p. if pstate p = SLEEPING \<and> pchan p = Some ch
     then p\<lparr>pstate := RUNNABLE\<rparr> else p) (ptable m)\<rparr>"

definition wakeup :: "chan \<Rightarrow> mach \<Rightarrow> (unit, mach) res" where
  "wakeup ch m =
     call (acquire PtableLock m) (\<lambda>_ m. release PtableLock (wakeup1 ch m))"

section \<open>Sleep locks\<close>

definition initsleeplock :: "slid \<Rightarrow> string \<Rightarrow> mach \<Rightarrow> (unit, mach) res" where
  "initsleeplock l nm m =
     call (initlock (SlkLock l) ''sleep lock'' m) (\<lambda>_ m.
     Ok () (set_slock l (\<lambda>k. k\<lparr>slk_name := nm, slocked := False, slk_pid := 0\<rparr>) m))"

text \<open>
  A process that finds the lock taken sleeps; when it is resumed it holds \<open>lk->lk\<close> again and
  tests \<open>locked\<close> again, so the run that takes the lock is the one that finds it free.
\<close>

definition acquiresleep :: "slid \<Rightarrow> mach \<Rightarrow> (unit, mach) res" where
  "acquiresleep l m =
     call (acquire (SlkLock l) m) (\<lambda>_ m.
     if slocked (slocks m l) then sleep (ChSleeplock l) (Some (SlkLock l)) m
     else call (curproc (set_slock l (\<lambda>k. k\<lparr>slocked := True\<rparr>) m)) (\<lambda>i m.
       release (SlkLock l) (set_slock l (\<lambda>k. k\<lparr>slk_pid := pid (ptable m ! i)\<rparr>) m)))"

definition releasesleep :: "slid \<Rightarrow> mach \<Rightarrow> (unit, mach) res" where
  "releasesleep l m =
     call (acquire (SlkLock l) m) (\<lambda>_ m.
     call (wakeup (ChSleeplock l)
            (set_slock l (\<lambda>k. k\<lparr>slocked := False, slk_pid := 0\<rparr>) m)) (\<lambda>_ m.
     release (SlkLock l) m))"

definition holdingsleep :: "slid \<Rightarrow> mach \<Rightarrow> (bool, mach) res" where
  "holdingsleep l m =
     call (acquire (SlkLock l) m) (\<lambda>_ m.
     call (if slocked (slocks m l)
           then call (curproc m) (\<lambda>i m. Ok (slk_pid (slocks m l) = pid (ptable m ! i)) m)
           else Ok False m) (\<lambda>r m.
     call (release (SlkLock l) m) (\<lambda>_ m. Ok r m)))"


section \<open>Lock operations in closed form\<close>

text \<open>
  \<open>on_cpu c m\<close>: the code runs on the CPU with index \<open>c\<close>, whose nesting counter and interrupt
  flag agree (interrupts are off while \<open>ncli\<close> is positive, and \<open>intena\<close> is what the flag was
  when the outermost \<open>pushcli\<close> read it).  Every lock operation keeps it.
\<close>

definition on_cpu :: "nat \<Rightarrow> mach \<Rightarrow> bool" where
  "on_cpu c m \<longleftrightarrow> cpu_index m = Some c \<and> c < length (cpus m) \<and> 0 \<le> ncli (cpus m ! c) \<and>
     (if ncli (cpus m ! c) = 0 then intena (cpus m ! c) = eflags_if m else \<not> eflags_if m)"

definition lock_free :: "lockid \<Rightarrow> mach \<Rightarrow> bool" where
  "lock_free l m \<longleftrightarrow> \<not> locked (locks m l) \<and> lk_cpu (locks m l) = None"

definition held_by :: "nat \<Rightarrow> lockid \<Rightarrow> mach \<Rightarrow> bool" where
  "held_by c l m \<longleftrightarrow> locked (locks m l) \<and> lk_cpu (locks m l) = Some c"

definition running :: "nat \<Rightarrow> nat \<Rightarrow> mach \<Rightarrow> bool" where
  "running c i m \<longleftrightarrow> on_cpu c m \<and> cproc (cpus m ! c) = Some i \<and> i < length (ptable m)"

text \<open>What \<open>pushcli\<close> and \<open>popcli\<close> leave behind.\<close>

definition pushed :: "nat \<Rightarrow> mach \<Rightarrow> mach" where
  "pushed c m = m\<lparr>eflags_if := False,
     cpus := (cpus m)[c := (cpus m ! c)\<lparr>
       intena := (if ncli (cpus m ! c) = 0 then eflags_if m else intena (cpus m ! c)),
       ncli := ncli (cpus m ! c) + 1\<rparr>]\<rparr>"

definition popped :: "nat \<Rightarrow> mach \<Rightarrow> mach" where
  "popped c m = m\<lparr>eflags_if := (ncli (cpus m ! c) = 1 \<and> intena (cpus m ! c)),
     cpus := (cpus m)[c := (cpus m ! c)\<lparr>ncli := ncli (cpus m ! c) - 1\<rparr>]\<rparr>"

definition take_lock :: "nat \<Rightarrow> lockid \<Rightarrow> mach \<Rightarrow> mach" where
  "take_lock c l m = set_lock l (\<lambda>k. k\<lparr>locked := True, lk_cpu := Some c\<rparr>) (pushed c m)"

definition drop_lock :: "nat \<Rightarrow> lockid \<Rightarrow> mach \<Rightarrow> mach" where
  "drop_lock c l m = popped c (set_lock l (\<lambda>k. k\<lparr>lk_cpu := None, locked := False\<rparr>) m)"

lemmas set_defs = set_cpu_def set_lock_def set_slock_def set_proc_def

lemma map_update_same [simp]: "(map f xs)[i := f (xs ! i)] = map f xs"
  by (cases "i < length xs") (metis list_update_id nth_map, simp add: list_update_beyond)

lemma cpu_index_cpus [simp]:
  "apicid k = apicid (cpus m ! c) \<Longrightarrow> cpu_index (m\<lparr>cpus := (cpus m)[c := k]\<rparr>) = cpu_index m"
  by (simp add: cpu_index_def map_update)

lemma cpu_index_other [simp]:
  "cpu_index (m\<lparr>eflags_if := b\<rparr>) = cpu_index m"
  "cpu_index (m\<lparr>locks := ls\<rparr>) = cpu_index m"
  "cpu_index (m\<lparr>slocks := ss\<rparr>) = cpu_index m"
  "cpu_index (m\<lparr>ptable := ps\<rparr>) = cpu_index m"
  "cpu_index (m\<lparr>nextpid := n\<rparr>) = cpu_index m"
  "cpu_index (m\<lparr>initproc := q\<rparr>) = cpu_index m"
  by (simp_all add: cpu_index_def)

lemma cpu_index_pushed [simp]:
  "cpu_index (pushed c m) = cpu_index m" "cpu_index (popped c m) = cpu_index m"
  by (simp_all add: pushed_def popped_def cpu_index_def map_update)

lemma pushcli_eq: "cpu_index m = Some c \<Longrightarrow> c < length (cpus m) \<Longrightarrow> pushcli m = Ok () (pushed c m)"
  by (simp add: pushcli_def mycpu_def pushed_def set_cpu_def Let_def)

lemma popcli_eq:
  "on_cpu c m \<Longrightarrow> 0 < ncli (cpus m ! c) \<Longrightarrow> popcli m = Ok () (popped c m)"
  by (simp add: popcli_def mycpu_def popped_def set_cpu_def Let_def on_cpu_def)

lemma on_cpu_pushed: "on_cpu c m \<Longrightarrow> on_cpu c (pushed c m)"
  by (auto simp: on_cpu_def pushed_def cpu_index_def map_update)

lemma on_cpu_popped: "on_cpu c m \<Longrightarrow> 0 < ncli (cpus m ! c) \<Longrightarrow> on_cpu c (popped c m)"
  by (auto simp: on_cpu_def popped_def cpu_index_def map_update)

lemma on_cpu_other [simp]:
  "on_cpu c (m\<lparr>locks := ls\<rparr>) = on_cpu c m"
  "on_cpu c (m\<lparr>slocks := ss\<rparr>) = on_cpu c m"
  "on_cpu c (m\<lparr>ptable := ps\<rparr>) = on_cpu c m"
  "on_cpu c (m\<lparr>nextpid := n\<rparr>) = on_cpu c m"
  by (simp_all add: on_cpu_def)

lemma on_cpu_set [simp]:
  "on_cpu c (set_lock l f m) = on_cpu c m"
  "on_cpu c (set_slock s g m) = on_cpu c m"
  "on_cpu c (set_proc i h m) = on_cpu c m"
  "on_cpu c (wakeup1 ch m) = on_cpu c m"
  by (simp_all add: set_defs wakeup1_def)

lemma pushed_fields [simp]:
  "locks (pushed c m) = locks m" "slocks (pushed c m) = slocks m"
  "ptable (pushed c m) = ptable m"
  "c < length (cpus m) \<Longrightarrow> cproc (cpus (pushed c m) ! c) = cproc (cpus m ! c)"
  "c < length (cpus m) \<Longrightarrow> ncli (cpus (pushed c m) ! c) = ncli (cpus m ! c) + 1"
  by (simp_all add: pushed_def)

lemma intena_same: "intena k = b \<Longrightarrow> k\<lparr>intena := b\<rparr> = k"
  by (cases k) simp

lemma eflags_same: "eflags_if m = b \<Longrightarrow> m\<lparr>eflags_if := b\<rparr> = m"
  by (cases m) simp

lemma popped_pushed: "on_cpu c m \<Longrightarrow> popped c (pushed c m) = m"
  by (auto simp: on_cpu_def pushed_def popped_def intena_same intro!: eflags_same split: if_splits)

lemma popcli_pushed: "on_cpu c m \<Longrightarrow> popcli (pushed c m) = Ok () m"
  using popcli_eq[OF on_cpu_pushed] popped_pushed by (simp add: on_cpu_def)

lemma on_cpuD: "on_cpu c m \<Longrightarrow> cpu_index m = Some c \<and> c < length (cpus m)"
  by (simp add: on_cpu_def)

lemma mycpu_pushed: "on_cpu c m \<Longrightarrow> mycpu (pushed c m) = Ok c (pushed c m)"
  by (simp add: mycpu_def on_cpu_def) (simp add: pushed_def)

lemma holding_eq: "on_cpu c m \<Longrightarrow> holding l m = Ok (held_by c l m) m"
  by (simp add: holding_def pushcli_eq on_cpuD mycpu_pushed popcli_pushed held_by_def Let_def)

lemma myproc_eq: "on_cpu c m \<Longrightarrow> myproc m = Ok (cproc (cpus m ! c)) m"
  by (simp add: myproc_def pushcli_eq on_cpuD mycpu_pushed popcli_pushed Let_def)

lemma curproc_eq: "running c i m \<Longrightarrow> curproc m = Ok i m"
  by (auto simp: curproc_def running_def myproc_eq)

lemma acquire_eq:
  assumes c: "on_cpu c m" and free: "\<not> locked (locks m l)"
  shows "acquire l m = Ok () (take_lock c l m)"
proof -
  have h: "holding l (pushed c m) = Ok False (pushed c m)"
    using holding_eq[OF on_cpu_pushed[OF c], of l] free by (simp add: held_by_def)
  have my: "mycpu (set_lock l (\<lambda>k. k\<lparr>locked := True\<rparr>) (pushed c m)) =
      Ok c (set_lock l (\<lambda>k. k\<lparr>locked := True\<rparr>) (pushed c m))"
    using c by (simp add: mycpu_def set_lock_def on_cpu_def) (simp add: pushed_def)
  show ?thesis
    using c free h my
    by (simp add: acquire_def pushcli_eq on_cpuD Let_def take_lock_def)
      (simp add: set_lock_def)
qed

lemma release_eq:
  assumes c: "on_cpu c m" and h: "held_by c l m" and n: "0 < ncli (cpus m ! c)"
  shows "release l m = Ok () (drop_lock c l m)"
proof -
  have u: "set_lock l (\<lambda>k. k\<lparr>locked := False\<rparr>) (set_lock l (\<lambda>k. k\<lparr>lk_cpu := None\<rparr>) m) =
      set_lock l (\<lambda>k. k\<lparr>lk_cpu := None, locked := False\<rparr>) m"
    by (simp add: set_lock_def)
  show ?thesis
    using c h n popcli_eq[of c "set_lock l (\<lambda>k. k\<lparr>lk_cpu := None, locked := False\<rparr>) m"]
    by (simp add: release_def holding_eq Let_def u drop_lock_def) (simp add: set_lock_def)
qed

lemma take_lock_fields [simp]:
  "slocks (take_lock c l m) = slocks m" "ptable (take_lock c l m) = ptable m"
  "l' \<noteq> l \<Longrightarrow> locks (take_lock c l m) l' = locks m l'"
  "nextpid (take_lock c l m) = nextpid m"
  by (simp_all add: take_lock_def set_lock_def pushed_def)

lemma take_lock_held [simp]: "held_by c l (take_lock c l m)"
  by (simp add: held_by_def take_lock_def set_lock_def)

lemma on_cpu_take_lock: "on_cpu c m \<Longrightarrow> on_cpu c (take_lock c l m)"
  by (simp add: take_lock_def on_cpu_pushed)

lemma cpus_take_lock [simp]: "cpus (take_lock c l m) = cpus (pushed c m)"
  by (simp add: take_lock_def set_lock_def)

lemma drop_take_lock:
  assumes "on_cpu c m" and "lock_free l m"
  shows "drop_lock c l (take_lock c l m) = m"
proof -
  have "locks m l\<lparr>lk_cpu := None, locked := False\<rparr> = locks m l"
    using assms(2) by (simp add: lock_free_def)
  then have "set_lock l (\<lambda>k. k\<lparr>lk_cpu := None, locked := False\<rparr>) (take_lock c l m) = pushed c m"
    by (simp add: take_lock_def set_lock_def)
  then show ?thesis
    using popped_pushed[OF assms(1)] by (simp add: drop_lock_def)
qed

lemma release_take_lock:
  assumes c: "on_cpu c m" and f: "lock_free l m"
  shows "release l (take_lock c l m) = Ok () m"
proof -
  have "0 < ncli (cpus (take_lock c l m) ! c)"
    using c by (auto simp: on_cpu_def)
  then show ?thesis
    using release_eq[OF on_cpu_take_lock[OF c] take_lock_held] drop_take_lock[OF c f] by simp
qed

text \<open>A critical section that changes only the process table and the sleep locks.\<close>

lemma release_take_lock_upd:
  assumes c: "on_cpu c m" and f: "lock_free l m"
    and upd: "m' = (take_lock c l m)\<lparr>ptable := ps, slocks := ss\<rparr>"
  shows "release l m' = Ok () (m\<lparr>ptable := ps, slocks := ss\<rparr>)"
proof -
  have e: "m' = take_lock c l (m\<lparr>ptable := ps, slocks := ss\<rparr>)"
    by (simp add: upd take_lock_def set_lock_def pushed_def)
  show ?thesis
    unfolding e by (rule release_take_lock) (use c f in \<open>simp_all add: lock_free_def\<close>)
qed

lemma wakeup_eq:
  assumes c: "on_cpu c m" and f: "lock_free PtableLock m"
  shows "wakeup ch m = Ok () (wakeup1 ch m)"
proof -
  have "wakeup1 ch (take_lock c PtableLock m) =
      (take_lock c PtableLock m)\<lparr>ptable := ptable (wakeup1 ch m), slocks := slocks m\<rparr>"
    by (simp add: wakeup1_def)
  from release_take_lock_upd[OF c f this] show ?thesis
    using c f by (simp add: wakeup_def acquire_eq lock_free_def) (simp add: wakeup1_def)
qed

lemma running_take_lock: "running c i m \<Longrightarrow> running c i (take_lock c l m)"
  by (simp add: running_def on_cpu_take_lock on_cpuD)

lemma running_other [simp]:
  "running c i (m\<lparr>slocks := ss\<rparr>) = running c i m"
  "running c i (set_slock s g m) = running c i m"
  "running c i (wakeup1 ch m) = running c i m"
  by (simp_all add: running_def set_slock_def wakeup1_def)

lemma acquiresleep_eq:
  assumes r: "running c i m" and f: "lock_free (SlkLock l) m" and u: "\<not> slocked (slocks m l)"
  shows "acquiresleep l m =
    Ok () (set_slock l (\<lambda>k. k\<lparr>slocked := True, slk_pid := pid (ptable m ! i)\<rparr>) m)"
proof -
  let ?t = "take_lock c (SlkLock l) m"
  let ?m = "set_slock l (\<lambda>k. k\<lparr>slocked := True\<rparr>) ?t"
  have c: "on_cpu c m" using r by (simp add: running_def)
  have cur: "curproc ?m = Ok i ?m"
    by (rule curproc_eq[of c]) (simp add: running_take_lock[OF r])
  have "set_slock l (\<lambda>k. k\<lparr>slk_pid := pid (ptable m ! i)\<rparr>) ?m =
      ?t\<lparr>ptable := ptable m, slocks := slocks
        (set_slock l (\<lambda>k. k\<lparr>slocked := True, slk_pid := pid (ptable m ! i)\<rparr>) m)\<rparr>"
    by (simp add: set_slock_def take_lock_def set_lock_def pushed_def)
  from release_take_lock_upd[OF c f this] show ?thesis
    using c f u cur
    by (simp add: acquiresleep_def acquire_eq lock_free_def) (simp add: set_slock_def)
qed

lemma releasesleep_eq:
  assumes c: "on_cpu c m" and f: "lock_free (SlkLock l) m" and p: "lock_free PtableLock m"
  shows "releasesleep l m = Ok () (wakeup1 (ChSleeplock l)
    (set_slock l (\<lambda>k. k\<lparr>slocked := False, slk_pid := 0\<rparr>) m))"
proof -
  let ?t = "take_lock c (SlkLock l) m"
  let ?m = "set_slock l (\<lambda>k. k\<lparr>slocked := False, slk_pid := 0\<rparr>) ?t"
  have w: "wakeup (ChSleeplock l) ?m = Ok () (wakeup1 (ChSleeplock l) ?m)"
    by (rule wakeup_eq[of c])
      (use c p in \<open>simp_all add: on_cpu_take_lock lock_free_def set_slock_def\<close>)
  have "wakeup1 (ChSleeplock l) ?m = ?t\<lparr>
      ptable := ptable (wakeup1 (ChSleeplock l)
        (set_slock l (\<lambda>k. k\<lparr>slocked := False, slk_pid := 0\<rparr>) m)),
      slocks := slocks (set_slock l (\<lambda>k. k\<lparr>slocked := False, slk_pid := 0\<rparr>) m)\<rparr>"
    by (simp add: set_slock_def wakeup1_def)
  from release_take_lock_upd[OF c f this] show ?thesis
    using c f w by (simp add: releasesleep_def acquire_eq lock_free_def)
      (simp add: set_slock_def wakeup1_def)
qed

lemma holdingsleep_eq:
  assumes r: "running c i m" and f: "lock_free (SlkLock l) m"
  shows "holdingsleep l m =
    Ok (slocked (slocks m l) \<and> slk_pid (slocks m l) = pid (ptable m ! i)) m"
proof -
  have c: "on_cpu c m" using r by (simp add: running_def)
  show ?thesis
    using c f curproc_eq[OF running_take_lock[OF r, of "SlkLock l"]] release_take_lock[OF c f]
    by (simp add: holdingsleep_def acquire_eq lock_free_def)
qed

section \<open>Nested critical sections\<close>

datatype lop = Acq lockid | Rel lockid

fun lop_run :: "lop list \<Rightarrow> mach \<Rightarrow> (unit, mach) res" where
  "lop_run [] m = Ok () m"
| "lop_run (Acq l # ops) m = call (acquire l m) (\<lambda>_ m. lop_run ops m)"
| "lop_run (Rel l # ops) m = call (release l m) (\<lambda>_ m. lop_run ops m)"

text \<open>CPU \<open>c\<close> holds the locks \<open>H\<close> and \<open>b\<close> was the interrupt flag outside all of them.\<close>

definition holds_locks :: "nat \<Rightarrow> lockid set \<Rightarrow> bool \<Rightarrow> mach \<Rightarrow> bool" where
  "holds_locks c H b m \<longleftrightarrow> on_cpu c m \<and> finite H \<and> (\<forall>l. held_by c l m \<longleftrightarrow> l \<in> H) \<and>
     ncli (cpus m ! c) = int (card H) \<and> intena (cpus m ! c) = b"

lemma holds_locks_flag: "holds_locks c H b m \<Longrightarrow> eflags_if m = (H = {} \<and> b)"
  by (auto simp: holds_locks_def on_cpu_def split: if_splits)

lemma acquire_held_panics:
  assumes c: "on_cpu c m" and h: "held_by c l m"
  shows "acquire l m = Panic ''acquire''"
proof -
  have "held_by c l (pushed c m)" using h by (simp add: held_by_def)
  then show ?thesis
    using c holding_eq[OF on_cpu_pushed[OF c], of l] by (simp add: acquire_def pushcli_eq on_cpuD)
qed

lemma release_free_panics: "on_cpu c m \<Longrightarrow> \<not> held_by c l m \<Longrightarrow> release l m = Panic ''release''"
  by (simp add: release_def holding_eq)

lemma acquire_locked_spins:
  assumes c: "on_cpu c m" and l: "locked (locks m l)" and h: "\<not> held_by c l m"
  shows "acquire l m = Spin l (pushed c m)"
proof -
  have "\<not> held_by c l (pushed c m)" using h by (simp add: held_by_def)
  then show ?thesis
    using c l holding_eq[OF on_cpu_pushed[OF c], of l] by (simp add: acquire_def pushcli_eq on_cpuD)
qed

lemma acquire_holds:
  assumes H: "holds_locks c H b m" and a: "acquire l m = Ok u m'"
  shows "l \<notin> H \<and> holds_locks c (insert l H) b m'"
proof -
  have c: "on_cpu c m" using H by (simp add: holds_locks_def)
  have free: "\<not> locked (locks m l)"
    using a acquire_held_panics[OF c] acquire_locked_spins[OF c] by fastforce
  have m': "m' = take_lock c l m" using acquire_eq[OF c free] a by simp
  have out: "l \<notin> H" using H free by (auto simp: holds_locks_def held_by_def)
  have held: "held_by c k m' \<longleftrightarrow> k \<in> insert l H" for k
  proof (cases "k = l")
    case False
    then have "held_by c k m' = held_by c k m" by (simp add: m' held_by_def)
    then show ?thesis using H False by (simp add: holds_locks_def)
  qed (simp add: m')
  have "intena (cpus m' ! c) = b"
    using H c m' by (auto simp: holds_locks_def pushed_def on_cpu_def split: if_splits)
  then show ?thesis
    using H c m' out held on_cpu_take_lock[OF c]
    by (simp add: holds_locks_def on_cpuD card_insert_if)
qed

lemma release_holds:
  assumes H: "holds_locks c H b m" and a: "release l m = Ok u m'"
  shows "l \<in> H \<and> holds_locks c (H - {l}) b m'"
proof -
  have c: "on_cpu c m" using H by (simp add: holds_locks_def)
  have h: "held_by c l m" using a release_free_panics[OF c] by fastforce
  then have inn: "l \<in> H" using H by (simp add: holds_locks_def)
  then have pos: "0 < card H" using H by (auto simp: holds_locks_def card_gt_0_iff)
  then have n: "0 < ncli (cpus m ! c)" using H by (simp add: holds_locks_def)
  have m': "m' = drop_lock c l m" using release_eq[OF c h n] a by simp
  let ?k = "set_lock l (\<lambda>k. k\<lparr>lk_cpu := None, locked := False\<rparr>) m"
  have oc: "on_cpu c m'"
    unfolding m' drop_lock_def using c n by (intro on_cpu_popped) (simp_all add: set_lock_def)
  have held: "held_by c k m' \<longleftrightarrow> k \<in> H - {l}" for k
  proof (cases "k = l")
    case False
    then have "held_by c k m' = held_by c k m"
      by (simp add: m' drop_lock_def held_by_def popped_def set_lock_def)
    then show ?thesis using H False by (simp add: holds_locks_def)
  qed (simp add: m' drop_lock_def held_by_def popped_def set_lock_def)
  have "ncli (cpus m' ! c) = ncli (cpus m ! c) - 1" "intena (cpus m' ! c) = intena (cpus m ! c)"
    unfolding m' drop_lock_def using c by (simp_all add: popped_def set_lock_def on_cpuD)
  then show ?thesis
    using H oc held inn pos by (simp add: holds_locks_def card_Diff_singleton)
qed

lemma lop_run_holds:
  assumes "holds_locks c H b m" and "lop_run ops m = Ok u m'"
  shows "\<exists>H'. holds_locks c H' b m'"
  using assms
proof (induction ops arbitrary: m H)
  case (Cons op ops)
  then show ?case
  proof (cases op)
    case (Acq l)
    then obtain v k where "acquire l m = Ok v k" "lop_run ops k = Ok u m'"
      using Cons.prems(2) by (auto simp: call_eq_Ok)
    then show ?thesis using Cons.IH acquire_holds[OF Cons.prems(1)] by blast
  next
    case (Rel l)
    then obtain v k where "release l m = Ok v k" "lop_run ops k = Ok u m'"
      using Cons.prems(2) by (auto simp: call_eq_Ok)
    then show ?thesis using Cons.IH release_holds[OF Cons.prems(1)] by blast
  qed
qed auto

text \<open>C28: Whatever sequence of \<open>acquire\<close> and \<open>release\<close> calls a CPU completes, its nesting counter
  \<open>ncli\<close> is the number of spin locks it holds, and interrupts are enabled exactly when it holds
  none and they were enabled before the first one.\<close>

theorem interrupts_off_while_locked:
  assumes "on_cpu c m" and "ncli (cpus m ! c) = 0" and "\<And>l. \<not> held_by c l m"
    and "lop_run ops m = Ok u m'"
  shows "finite {l. held_by c l m'} \<and> ncli (cpus m' ! c) = int (card {l. held_by c l m'}) \<and>
    eflags_if m' = ({l. held_by c l m'} = {} \<and> eflags_if m)"
proof -
  have "holds_locks c {} (eflags_if m) m"
    using assms(1-3) by (simp add: holds_locks_def on_cpu_def)
  then obtain H where H: "holds_locks c H (eflags_if m) m'"
    using lop_run_holds[OF _ assms(4)] by blast
  then have "{l. held_by c l m'} = H" by (auto simp: holds_locks_def)
  then show ?thesis using H holds_locks_flag[OF H] by (auto simp: holds_locks_def)
qed

definition boot_cpu :: "nat \<Rightarrow> cpu" where
  "boot_cpu a = \<lparr>apicid = a, ncli = 0, intena = False, cproc = None\<rparr>"

definition boot_mach :: mach where
  "boot_mach = \<lparr>cpus = [boot_cpu 0], lapicid = 0, eflags_if = False,
     locks = (\<lambda>_. \<lparr>lk_name = [], locked = False, lk_cpu = None\<rparr>),
     slocks = (\<lambda>_. \<lparr>slk_name = [], slocked = False, slk_pid = 0\<rparr>),
     ptable = [], nextpid = 1, initproc = None\<rparr>"

lemma boot_mach_on_cpu: "on_cpu 0 boot_mach"
  by (simp add: on_cpu_def boot_mach_def boot_cpu_def cpu_index_def)

lemma boot_mach_free: "lock_free l boot_mach" "\<not> held_by c l boot_mach"
  by (simp_all add: lock_free_def held_by_def boot_mach_def)

theorem interrupts_off_while_locked_witness:
  "\<exists>m'. lop_run [Acq IcacheLock, Acq PtableLock, Rel IcacheLock] boot_mach = Ok () m' \<and>
    ncli (cpus m' ! 0) = int (card {l. held_by 0 l m'}) \<and> \<not> eflags_if m'"
proof -
  have "\<exists>m'. lop_run [Acq IcacheLock, Acq PtableLock, Rel IcacheLock] boot_mach = Ok () m'"
  proof -
    let ?a = "take_lock 0 IcacheLock boot_mach"
    let ?b = "take_lock 0 PtableLock ?a"
    have c: "on_cpu 0 ?b" by (intro on_cpu_take_lock boot_mach_on_cpu)
    have h: "held_by 0 IcacheLock ?b"
      using take_lock_held[of 0 IcacheLock boot_mach] by (simp add: held_by_def)
    have n: "0 < ncli (cpus ?b ! 0)" by (simp add: boot_mach_def boot_cpu_def pushed_def)
    have "\<not> locked (locks boot_mach IcacheLock)" "\<not> locked (locks ?a PtableLock)"
      using boot_mach_free(1) by (simp_all add: lock_free_def)
    then show ?thesis
      using acquire_eq[OF boot_mach_on_cpu] acquire_eq[OF on_cpu_take_lock[OF boot_mach_on_cpu]]
        release_eq[OF c h n] by simp
  qed
  then obtain m' where m': "lop_run [Acq IcacheLock, Acq PtableLock, Rel IcacheLock] boot_mach = Ok () m'"
    by blast
  have "ncli (cpus boot_mach ! 0) = 0" "\<not> eflags_if boot_mach"
    by (simp_all add: boot_mach_def boot_cpu_def)
  with interrupts_off_while_locked[OF boot_mach_on_cpu _ boot_mach_free(2) m'] m' show ?thesis
    by auto
qed

section \<open>Sleep and wakeup\<close>

lemma sleep_switches:
  assumes r: "running c i m" and h: "held_by c l m" and ne: "l \<noteq> PtableLock"
    and n: "ncli (cpus m ! c) = 1" and p: "lock_free PtableLock m"
  shows "\<exists>m'. sleep ch (Some l) m = Switch m' \<and>
    ptable m' = (ptable m)[i := (ptable m ! i)\<lparr>pchan := Some ch, pstate := SLEEPING\<rparr>] \<and>
    lock_free l m' \<and> held_by c PtableLock m'"
proof -
  have c: "on_cpu c m" and pc: "cproc (cpus m ! c) = Some i" and i: "i < length (ptable m)"
    using r by (simp_all add: running_def)
  let ?a = "take_lock c PtableLock m"
  have acq: "acquire PtableLock m = Ok () ?a" using acquire_eq[OF c] p by (simp add: lock_free_def)
  have ha: "held_by c l ?a" using h ne by (simp add: held_by_def)
  have na: "ncli (cpus ?a ! c) = 2" using n c by (simp add: on_cpuD)
  let ?d = "drop_lock c l ?a"
  have rel: "release l ?a = Ok () ?d"
    by (rule release_eq[OF on_cpu_take_lock[OF c] ha]) (use na in simp)
  let ?b = "set_lock l (\<lambda>k. k\<lparr>lk_cpu := None, locked := False\<rparr>) ?a"
  have oca: "on_cpu c ?a" by (rule on_cpu_take_lock[OF c])
  have ocd: "on_cpu c ?d"
    unfolding drop_lock_def using na oca by (intro on_cpu_popped) (simp_all add: set_lock_def)
  have nd: "ncli (cpus ?d ! c) = 1" and cd: "cproc (cpus ?d ! c) = Some i"
    unfolding drop_lock_def using na c pc by (simp_all add: popped_def set_lock_def on_cpuD pushed_def)
  have fl: "\<not> eflags_if ?d" using ocd nd by (auto simp: on_cpu_def split: if_splits)
  have pd: "ptable ?d = ptable m" and hd: "held_by c PtableLock ?d" and ld: "lock_free l ?d"
    using ne by (auto simp: drop_lock_def popped_def set_lock_def held_by_def lock_free_def
        take_lock_def pushed_def)
  let ?e = "set_proc i (\<lambda>q. q\<lparr>pchan := Some ch, pstate := SLEEPING\<rparr>) ?d"
  have oce: "on_cpu c ?e" using ocd by simp
  have "sched ?e = Switch ?e"
    using myproc_eq[OF oce] holding_eq[OF oce, of PtableLock] hd nd cd i pd fl ocd
    by (simp add: sched_def held_by_def mycpu_def on_cpuD set_proc_def)
  then have "sleep ch (Some l) m = Switch ?e"
    using myproc_eq[OF c] pc ne acq rel by (simp add: sleep_def)
  then show ?thesis
    using pd hd ld by (auto simp: set_proc_def held_by_def lock_free_def)
qed


definition zero_proc :: proc where
  "zero_proc = \<lparr>p_sz = 0, p_pgdir = 0, kstack = 0, pstate = UNUSED, pid = 0, parent = None,
     p_tf = zero_tf, p_context = \<lparr>c_edi = 0, c_esi = 0, c_ebx = 0, c_ebp = 0, c_eip = NoLabel\<rparr>,
     pchan = None, killed = False, ofile = replicate NOFILE None, cwd = None, pname = []\<rparr>"

definition one_mach :: mach where
  "one_mach = boot_mach\<lparr>cpus := [(boot_cpu 0)\<lparr>cproc := Some 0\<rparr>],
     ptable := [zero_proc\<lparr>pid := 1, pstate := RUNNING\<rparr>]\<rparr>"

lemma one_mach_running: "running 0 0 one_mach"
  by (simp add: running_def one_mach_def on_cpu_def boot_mach_def boot_cpu_def cpu_index_def)

lemma one_mach_free: "lock_free l one_mach"
  by (simp add: lock_free_def one_mach_def boot_mach_def)


lemma wakeup1_procs: "pstate (ptable m ! j) = SLEEPING \<Longrightarrow> pchan (ptable m ! j) = Some ch \<Longrightarrow>
    j < length (ptable m) \<Longrightarrow> pstate (ptable (wakeup1 ch m) ! j) = RUNNABLE"
  by (simp add: wakeup1_def)

lemma wakeup1_fields [simp]:
  "locks (wakeup1 ch m) = locks m" "slocks (wakeup1 ch m) = slocks m" "cpus (wakeup1 ch m) = cpus m"
  by (simp_all add: wakeup1_def)



section \<open>What a wakeup may change\<close>

text \<open>
  \<open>woken m m'\<close>: \<open>m'\<close> differs from \<open>m\<close> only in sleep locks and in sleeping processes that have
  become runnable, which is all the file system's locking leaves behind.
\<close>

definition wake_proc :: "proc \<Rightarrow> proc \<Rightarrow> bool" where
  "wake_proc p q \<longleftrightarrow> q = p \<or> pstate p = SLEEPING \<and> q = p\<lparr>pstate := RUNNABLE\<rparr>"

definition woken :: "mach \<Rightarrow> mach \<Rightarrow> bool" where
  "woken m m' \<longleftrightarrow> (\<exists>ps ss. m' = m\<lparr>ptable := ps, slocks := ss\<rparr> \<and>
     list_all2 wake_proc (ptable m) ps)"

definition all_free :: "mach \<Rightarrow> bool" where
  "all_free m \<longleftrightarrow> (\<forall>l. lock_free l m)"

lemma all_freeD: "all_free m \<Longrightarrow> lock_free l m"
  by (simp add: all_free_def)

lemma wake_proc_pid [simp]: "wake_proc p q \<Longrightarrow> pid q = pid p"
  by (auto simp: wake_proc_def)

lemma wake_proc_fields: "wake_proc p q \<Longrightarrow> q = p\<lparr>pstate := pstate q\<rparr>"
  by (auto simp: wake_proc_def)

lemma woken_refl [simp]: "woken m m"
proof -
  have "m = m\<lparr>ptable := ptable m, slocks := slocks m\<rparr>" by (cases m) simp
  moreover have "list_all2 wake_proc ps ps" for ps
    by (rule list_all2_refl) (simp add: wake_proc_def)
  ultimately show ?thesis unfolding woken_def by blast
qed

lemma woken_trans:
  assumes "woken m1 m2" and "woken m2 m3"
  shows "woken m1 m3"
proof -
  obtain ps ss qs ts where m2: "m2 = m1\<lparr>ptable := ps, slocks := ss\<rparr>"
      "list_all2 wake_proc (ptable m1) ps"
    and m3: "m3 = m2\<lparr>ptable := qs, slocks := ts\<rparr>" "list_all2 wake_proc (ptable m2) qs"
    using assms by (auto simp: woken_def)
  have "list_all2 wake_proc (ptable m1) qs"
  proof (rule list_all2_trans[OF _ m2(2)])
    show "wake_proc p q \<Longrightarrow> wake_proc q r \<Longrightarrow> wake_proc p r" for p q r
      unfolding wake_proc_def by (elim disjE conjE) simp_all
    show "list_all2 wake_proc ps qs" using m2 m3 by simp
  qed
  then show ?thesis using m2 m3 by (auto simp: woken_def)
qed

lemma woken_slocks: "woken m (m\<lparr>slocks := ss\<rparr>)"
proof -
  have "m\<lparr>slocks := ss\<rparr> = m\<lparr>ptable := ptable m, slocks := ss\<rparr>" by (cases m) simp
  moreover have "list_all2 wake_proc ps ps" for ps
    by (rule list_all2_refl) (simp add: wake_proc_def)
  ultimately show ?thesis unfolding woken_def by blast
qed

lemma woken_set_slock: "woken m (set_slock l f m)"
  by (simp add: set_slock_def woken_slocks)

lemma woken_wakeup1: "woken m (wakeup1 ch m)"
proof -
  have "wakeup1 ch m = m\<lparr>ptable := ptable (wakeup1 ch m), slocks := slocks m\<rparr>"
    by (simp add: wakeup1_def)
  moreover have "list_all2 wake_proc (ptable m) (ptable (wakeup1 ch m))"
    by (auto simp: wakeup1_def list_all2_conv_all_nth wake_proc_def)
  ultimately show ?thesis unfolding woken_def by blast
qed

lemma woken_running: "woken m m' \<Longrightarrow> running c i m \<Longrightarrow> running c i m'"
  by (auto simp: woken_def running_def dest: list_all2_lengthD)

lemma woken_all_free: "woken m m' \<Longrightarrow> all_free m' = all_free m"
  by (auto simp: woken_def all_free_def lock_free_def)

lemma woken_on_cpu: "woken m m' \<Longrightarrow> on_cpu c m' = on_cpu c m"
  by (auto simp: woken_def)

lemma woken_pid: "woken m m' \<Longrightarrow> i < length (ptable m) \<Longrightarrow> pid (ptable m' ! i) = pid (ptable m ! i)"
  by (auto simp: woken_def list_all2_conv_all_nth)

lemma woken_length: "woken m m' \<Longrightarrow> length (ptable m') = length (ptable m)"
  by (auto simp: woken_def dest: list_all2_lengthD)

end
