(* ===== verification/Kalloc.thy ===== *)
theory Kalloc
  imports Machine Cstring
begin

unbundle bit_operations_syntax

text \<open>
  The physical page allocator with reference counts (kalloc.c), and the address macros of
  memlayout.h and mmu.h it uses.  The free list is the linked list of the C code, threaded
  through the first word of each free page in \<open>mem\<close>; the lemmas relate it to a HOL list of
  pages.
\<close>

section \<open>memlayout.h and mmu.h\<close>

definition EXTMEM :: uint where "EXTMEM = 0x100000"
definition PHYSTOP :: uint where "PHYSTOP = 0xE000000"
definition DEVSPACE :: uint where "DEVSPACE = 0xFE000000"
definition KERNBASE :: uint where "KERNBASE = 0x80000000"
definition KERNLINK :: uint where "KERNLINK = KERNBASE + EXTMEM"
definition PGSIZE :: uint where "PGSIZE = 4096"

definition V2P :: "uint \<Rightarrow> uint" where "V2P a = a - KERNBASE"
definition P2V :: "uint \<Rightarrow> uint" where "P2V a = a + KERNBASE"

definition PGROUNDUP :: "uint \<Rightarrow> uint" where
  "PGROUNDUP n = (n + PGSIZE - 1) AND NOT (PGSIZE - 1)"

definition PGROUNDDOWN :: "uint \<Rightarrow> uint" where
  "PGROUNDDOWN a = a AND NOT (PGSIZE - 1)"

lemmas mem_consts = EXTMEM_def PHYSTOP_def DEVSPACE_def KERNBASE_def KERNLINK_def PGSIZE_def
lemmas addr_defs = V2P_def P2V_def mem_consts

section \<open>State\<close>

text \<open>
  \<open>kmem\<close>, \<open>refcount\<close> and the memory they manage; \<open>kend\<close> is the address \<open>end\<close> that the linker
  gives the first byte after the kernel.
\<close>

record kst =
  km :: mach
  mem :: memory
  kend :: uint
  kuse :: bool
  freelist :: uint
  ruse :: bool
  rcount :: "nat \<Rightarrow> int"

abbreviation on_km :: "(mach \<Rightarrow> ('a, mach) res) \<Rightarrow> kst \<Rightarrow> ('a, kst) res" where
  "on_km \<equiv> zoom km km_update"

definition page_index :: "uint \<Rightarrow> nat" where
  "page_index v = unat (V2P v div PGSIZE)"

section \<open>kalloc.c\<close>

definition kfree_insert :: "uint \<Rightarrow> kst \<Rightarrow> (unit, kst) res" where
  "kfree_insert v s =
     (let s = s\<lparr>mem := memset v 1 PGSIZE (mem s)\<rparr>;
          s = s\<lparr>mem := store32 v (freelist s) (mem s)\<rparr>;
          s = s\<lparr>freelist := v\<rparr> in
      if kuse s then on_km (release KmemLock) s else Ok () s)"

definition kfree :: "uint \<Rightarrow> kst \<Rightarrow> (unit, kst) res" where
  "kfree v s =
     (if v mod PGSIZE \<noteq> 0 \<or> v < kend s \<or> PHYSTOP \<le> V2P v then Panic ''kfree''
      else call (if kuse s then on_km (acquire KmemLock) s else Ok () s) (\<lambda>_ s.
        if ruse s then
          call (on_km (acquire RefcountLock) s) (\<lambda>_ s.
          if PHYSTOP div PGSIZE \<le> V2P v div PGSIZE then Panic ''kfree: refcount''
          else let i = page_index v; s = s\<lparr>rcount := (rcount s)(i := rcount s i - 1)\<rparr> in
            if rcount s i < 0 then Panic ''kfree: refcount < 0''
            else if rcount s i \<noteq> 0 then
              call (on_km (release RefcountLock) s) (\<lambda>_ s.
              if kuse s then on_km (release KmemLock) s else Ok () s)
            else call (on_km (release RefcountLock) s) (\<lambda>_ s. kfree_insert v s))
        else kfree_insert v s))"

definition kalloc :: "kst \<Rightarrow> (uint, kst) res" where
  "kalloc s =
     call (if kuse s then on_km (acquire KmemLock) s else Ok () s) (\<lambda>_ s.
     let r = freelist s in
     call (if r \<noteq> 0 then
             let s = s\<lparr>freelist := load32 (mem s) r\<rparr> in
             if ruse s then
               call (on_km (acquire RefcountLock) s) (\<lambda>_ s.
               if PHYSTOP div PGSIZE \<le> V2P r div PGSIZE then Panic ''kalloc: refcount''
               else on_km (release RefcountLock) (s\<lparr>rcount := (rcount s)(page_index r := 1)\<rparr>))
             else Ok () s
           else Ok () s) (\<lambda>_ s.
     call (if kuse s then on_km (release KmemLock) s else Ok () s) (\<lambda>_ s. Ok r s)))"

definition incrementRefCount :: "uint \<Rightarrow> kst \<Rightarrow> (unit, kst) res" where
  "incrementRefCount v s =
     (if v mod PGSIZE \<noteq> 0 \<or> v < kend s \<or> PHYSTOP \<le> V2P v then Panic ''incrementRefCount''
      else if ruse s then
        call (on_km (acquire RefcountLock) s) (\<lambda>_ s.
        let i = page_index v in
        if rcount s i = 0 then Panic ''incrementRefCount: refcount == 0''
        else on_km (release RefcountLock) (s\<lparr>rcount := (rcount s)(i := rcount s i + 1)\<rparr>))
      else Ok () s)"

text \<open>
  The loop of \<open>getNumFreePages\<close>; the comparison \<open>(int)r >= PHYSTOP\<close> is signed.  A cyclic list
  would never end, which is the value \<open>None\<close>.
\<close>

partial_function (option) count_pages :: "memory \<Rightarrow> uint \<Rightarrow> int \<Rightarrow> int option" where
  "count_pages m r count =
     (if r = 0 then Some count
      else let r' = load32 m r in
        if sint PHYSTOP \<le> sint r' then Some (count + 1) else count_pages m r' (count + 1))"

definition getNumFreePages :: "kst \<Rightarrow> (int, kst) res" where
  "getNumFreePages s =
     call (if kuse s then on_km (acquire KmemLock) s else Ok () s) (\<lambda>_ s.
     case count_pages (mem s) (freelist s) 0 of
       None \<Rightarrow> Fault ''getNumFreePages does not return''
     | Some count \<Rightarrow>
         call (if kuse s then on_km (release KmemLock) s else Ok () s) (\<lambda>_ s. Ok count s))"

lemma kfree_Ok_bound: "kfree p s = Ok u t \<Longrightarrow> V2P p < PHYSTOP"
  by (auto simp: kfree_def not_le split: if_splits)

lemma kernel_page_bounds:
  assumes "V2P p < PHYSTOP"
  shows "unat KERNBASE \<le> unat p \<and> unat p < unat KERNBASE + unat PHYSTOP"
proof -
  have "unat (p - 0x80000000) < 234881024"
    using assms by (simp add: V2P_def mem_consts word_less_nat_alt)
  then show ?thesis
    using unat_lt32[of p] by (auto simp: unat_sub_if' mem_consts split: if_splits)
qed

text \<open>
  The loop of \<open>freerange\<close>.  \<open>kfree\<close> panics on an address past the end of physical memory, so
  \<open>p\<close> never wraps around while the loop runs.
\<close>

function freerange_from :: "uint \<Rightarrow> uint \<Rightarrow> kst \<Rightarrow> (unit, kst) res" where
  "freerange_from p vend s =
     (if p + PGSIZE \<le> vend
      then call (kfree p s) (\<lambda>_ s. freerange_from (p + PGSIZE) vend s)
      else Ok () s)"
  by pat_completeness auto
termination
proof (relation "measure (\<lambda>(p, vend, s). 2 ^ 32 - unat p)")
  fix p vend :: uint and s :: kst and u t
  assume "kfree p s = Ok u t"
  then have b: "unat p < unat KERNBASE + unat PHYSTOP"
    using kfree_Ok_bound kernel_page_bounds by blast
  then have "unat (p + PGSIZE) = unat p + unat PGSIZE"
    by (intro unat_add_small) (simp add: mem_consts)
  then show "((p + PGSIZE, vend, t), p, vend, s) \<in> measure (\<lambda>(p, vend, s). 2 ^ 32 - unat p)"
    using b by (simp add: mem_consts)
qed simp

declare freerange_from.simps [simp del]

definition freerange :: "uint \<Rightarrow> uint \<Rightarrow> kst \<Rightarrow> (unit, kst) res" where
  "freerange vstart vend s = freerange_from (PGROUNDUP vstart) vend s"

definition kinit1 :: "uint \<Rightarrow> uint \<Rightarrow> kst \<Rightarrow> (unit, kst) res" where
  "kinit1 vstart vend s =
     call (on_km (initlock KmemLock ''kmem'') s) (\<lambda>_ s.
     let s = s\<lparr>kuse := False\<rparr> in
     call (on_km (initlock RefcountLock ''refcount'') s) (\<lambda>_ s.
     let s = s\<lparr>ruse := False\<rparr>;
         s = s\<lparr>rcount := (\<lambda>i. if i < unat (PHYSTOP div PGSIZE) then 0 else rcount s i)\<rparr> in
     freerange vstart vend s))"

definition kinit2 :: "uint \<Rightarrow> uint \<Rightarrow> kst \<Rightarrow> (unit, kst) res" where
  "kinit2 vstart vend s =
     call (freerange vstart vend s) (\<lambda>_ s. Ok () (s\<lparr>kuse := True, ruse := True\<rparr>))"

section \<open>Pages and the free list\<close>

definition page_ok :: "uint \<Rightarrow> uint \<Rightarrow> bool" where
  "page_ok e v \<longleftrightarrow> v mod PGSIZE = 0 \<and> e \<le> v \<and> V2P v < PHYSTOP"

fun chain :: "memory \<Rightarrow> uint \<Rightarrow> uint list \<Rightarrow> bool" where
  "chain m x [] \<longleftrightarrow> x = 0"
| "chain m x (p # ps) \<longleftrightarrow> x = p \<and> p \<noteq> 0 \<and> chain m (load32 m p) ps"

text \<open>
  The allocator's invariant: the free list is a chain of distinct pages, no page on it has a
  reference, and no count is negative.
\<close>

definition pool_inv :: "uint list \<Rightarrow> kst \<Rightarrow> bool" where
  "pool_inv ps s \<longleftrightarrow> chain (mem s) (freelist s) ps \<and> distinct ps \<and>
     (\<forall>p\<in>set ps. page_ok (kend s) p \<and> rcount s (page_index p) = 0) \<and>
     (\<forall>i. 0 \<le> rcount s i)"

text \<open>The machine is in kernel code on CPU \<open>c\<close> and both locks of the allocator are free.\<close>

definition kquiet :: "nat \<Rightarrow> kst \<Rightarrow> bool" where
  "kquiet c s \<longleftrightarrow> on_cpu c (km s) \<and> lock_free KmemLock (km s) \<and> lock_free RefcountLock (km s)"

lemma page_nonzero: "page_ok e v \<Longrightarrow> v \<noteq> 0"
  using kernel_page_bounds[of v] by (auto simp: page_ok_def mem_consts)

lemma page_aligned4: "page_ok e v \<Longrightarrow> aligned4 v"
proof -
  assume "page_ok e v"
  then have "unat v mod 4096 = 0"
    using unat_mod[of v 4096] by (simp add: page_ok_def PGSIZE_def)
  then show ?thesis
    using mod_mod_cancel[of 4 4096 "unat v"] by (simp add: aligned4_def)
qed

lemma unat_V2P: "V2P v < PHYSTOP \<Longrightarrow> unat (V2P v) = unat v - unat KERNBASE"
  using kernel_page_bounds[of v]
  by (simp add: V2P_def unat_sub_if')

lemma page_index_eq:
  assumes "page_ok e v"
  shows "unat v = unat KERNBASE + 4096 * page_index v" and "page_index v < 57344"
proof -
  have b: "unat KERNBASE \<le> unat v" "unat v < unat KERNBASE + unat PHYSTOP"
    and lo: "V2P v < PHYSTOP"
    using assms kernel_page_bounds[of v] by (auto simp: page_ok_def)
  have i: "page_index v = (unat v - 2147483648) div 4096"
    using unat_V2P[OF lo] by (simp add: page_index_def unat_div PGSIZE_def KERNBASE_def)
  have "4096 dvd unat v"
    using assms unat_mod[of v 4096] by (simp add: page_ok_def PGSIZE_def mod_eq_0_iff_dvd)
  then have "4096 dvd unat v - 2147483648" by (intro dvd_diff_nat) auto
  then have "4096 * ((unat v - 2147483648) div 4096) = unat v - 2147483648" by simp
  then show "unat v = unat KERNBASE + 4096 * page_index v"
    using b i by (simp add: KERNBASE_def)
  then show "page_index v < 57344"
    using b by (simp add: mem_consts)
qed

lemma page_index_inj: "page_ok e v \<Longrightarrow> page_ok e' w \<Longrightarrow> page_index v = page_index w \<longleftrightarrow> v = w"
  using page_index_eq(1)[of e v] page_index_eq(1)[of e' w] by (auto simp: word_unat_eq_iff)

lemma page_frame_check: "page_ok e v \<Longrightarrow> \<not> PHYSTOP div PGSIZE \<le> V2P v div PGSIZE"
  using page_index_eq(2)[of e v]
  by (simp add: page_index_def word_le_nat_alt unat_div mem_consts)

text \<open>Different pages do not overlap.\<close>

definition in_page :: "uint \<Rightarrow> uint \<Rightarrow> bool" where
  "in_page p x \<longleftrightarrow> span p 4096 x"

lemma unat_diff_add:
  fixes a p x :: uint
  assumes "unat (x - p) = k" and "unat p + k < 2 ^ 32"
  shows "unat x = unat p + k"
proof -
  have "x = p + (x - p)" by simp
  also have "unat \<dots> = unat p + k"
    using unat_add_small[of p "x - p"] assms by simp
  finally show ?thesis .
qed

lemma page_offset:
  assumes "page_ok e p" and "in_page p x"
  shows "unat x = unat p + unat (x - p)" and "unat (x - p) < 4096"
proof -
  show lt: "unat (x - p) < 4096" using assms(2) by (simp add: in_page_def span_def)
  have "unat p < unat KERNBASE + unat PHYSTOP"
    using assms(1) kernel_page_bounds by (auto simp: page_ok_def)
  then show "unat x = unat p + unat (x - p)"
    using lt by (intro unat_diff_add[of x p]) (simp_all add: mem_consts)
qed

lemma pages_disjoint:
  assumes "page_ok e p" "page_ok e' q" "in_page p x" "in_page q x"
  shows "p = q"
proof -
  have e: "4096 * page_index p + unat (x - p) = 4096 * page_index q + unat (x - q)"
    using page_offset(1)[OF assms(1,3)] page_offset(1)[OF assms(2,4)]
      page_index_eq(1)[OF assms(1)] page_index_eq(1)[OF assms(2)] by simp
  have "unat (x - p) < 4096" "unat (x - q) < 4096"
    using page_offset(2) assms by auto
  then have "(4096 * page_index p + unat (x - p)) div 4096 = page_index p"
    "(4096 * page_index q + unat (x - q)) div 4096 = page_index q" by simp_all
  then have "page_index p = page_index q" using e by simp
  then show ?thesis using page_index_inj[OF assms(1,2)] by simp
qed

lemma span4_in_page: "span p 4 x \<Longrightarrow> in_page p x"
  by (simp add: in_page_def span_def)

text \<open>A write inside one page leaves the links of the others alone.\<close>

lemma chain_cong:
  assumes "chain m x ps" and "\<And>p. p \<in> set ps \<Longrightarrow> load32 m' p = load32 m p"
  shows "chain m' x ps"
  using assms by (induction ps arbitrary: x) auto

lemma chain_unique: "chain m x ps \<Longrightarrow> chain m x qs \<Longrightarrow> ps = qs"
proof (induction ps arbitrary: x qs)
  case Nil
  then show ?case by (cases qs) auto
next
  case (Cons p ps)
  then show ?case by (cases qs) auto
qed

lemma chain_other_page:
  assumes c: "chain m x ps" and ok: "\<And>p. p \<in> set ps \<Longrightarrow> page_ok e p" and v: "page_ok e' v"
    and out: "v \<notin> set ps" and same: "\<And>y. \<not> in_page v y \<Longrightarrow> m' y = m y"
  shows "chain m' x ps"
proof (rule chain_cong[OF c])
  fix p assume p: "p \<in> set ps"
  show "load32 m' p = load32 m p"
  proof (rule load32_cong)
    fix y assume "span p 4 y"
    then have "\<not> in_page v y"
      using pages_disjoint[OF ok[OF p] v] span4_in_page out p by blast
    then show "m' y = m y" by (rule same)
  qed
qed


section \<open>The operations in closed form\<close>

lemma km_acquire:
  "on_cpu c (km s) \<Longrightarrow> lock_free l (km s) \<Longrightarrow>
     on_km (acquire l) s = Ok () (s\<lparr>km := take_lock c l (km s)\<rparr>)"
  by (simp add: zoom_Ok acquire_eq lock_free_def)

lemma km_release:
  "km s = take_lock c l m \<Longrightarrow> on_cpu c m \<Longrightarrow> lock_free l m \<Longrightarrow>
     on_km (release l) s = Ok () (s\<lparr>km := m\<rparr>)"
  by (simp add: zoom_Ok release_take_lock)

lemma lock_free_take [simp]: "l \<noteq> l' \<Longrightarrow> lock_free l (take_lock c l' m) = lock_free l m"
  by (simp add: lock_free_def)

lemma km_same: "s\<lparr>km := km s\<rparr> = s"
  by (cases s) simp

lemmas klocks = km_acquire km_release on_cpu_take_lock

definition popped_page :: "kst \<Rightarrow> kst" where
  "popped_page s = s\<lparr>freelist := load32 (mem s) (freelist s),
     rcount := (if ruse s then (rcount s)(page_index (freelist s) := 1) else rcount s)\<rparr>"

definition pushed_page :: "uint \<Rightarrow> kst \<Rightarrow> kst" where
  "pushed_page v s = s\<lparr>mem := store32 v (freelist s) (memset v 1 PGSIZE (mem s)), freelist := v,
     rcount := (if ruse s then (rcount s)(page_index v := 0) else rcount s)\<rparr>"

lemma kalloc_eq:
  assumes q: "kquiet c s" and ok: "freelist s \<noteq> 0 \<Longrightarrow> page_ok e (freelist s)"
  shows "kalloc s = (if freelist s = 0 then Ok 0 s else Ok (freelist s) (popped_page s))"
proof -
  have q': "on_cpu c (km s)" "lock_free KmemLock (km s)" "lock_free RefcountLock (km s)"
    using q by (simp_all add: kquiet_def)
  show ?thesis
  proof (cases "freelist s = 0")
    case True
    then show ?thesis
      using q' by (simp add: kalloc_def klocks[where c = c] km_same)
  next
    case False
    then have f: "\<not> PHYSTOP div PGSIZE \<le> V2P (freelist s) div PGSIZE"
      using page_frame_check[OF ok] by simp
    show ?thesis
    proof (cases "kuse s")
      case True
      then show ?thesis
        using q' False f by (simp add: kalloc_def klocks[where c = c] km_same popped_page_def Let_def)
    next
      case nouse: False
      then show ?thesis
        using q' False f by (simp add: kalloc_def klocks[where c = c] km_same popped_page_def Let_def)
    qed
  qed
qed

lemma kfree_eq:
  assumes q: "kquiet c s" and ok: "page_ok (kend s) v" and ne: "\<And>i. 0 \<le> rcount s i"
  shows "kfree v s =
    (if ruse s \<and> rcount s (page_index v) = 0 then Panic ''kfree: refcount < 0''
     else if ruse s \<and> rcount s (page_index v) \<noteq> 1
     then Ok () (s\<lparr>rcount := (rcount s)(page_index v := rcount s (page_index v) - 1)\<rparr>)
     else Ok () (pushed_page v s))"
proof -
  have q': "on_cpu c (km s)" "lock_free KmemLock (km s)" "lock_free RefcountLock (km s)"
    using q by (simp_all add: kquiet_def)
  have ok': "v mod PGSIZE = 0" "\<not> v < kend s" "\<not> PHYSTOP \<le> V2P v"
    "\<not> PHYSTOP div PGSIZE \<le> V2P v div PGSIZE"
    using ok page_frame_check[OF ok] by (auto simp: page_ok_def)
  have "rcount s (page_index v) = 0 \<or> rcount s (page_index v) = 1 \<or> 1 < rcount s (page_index v)"
    using ne[of "page_index v"] by arith
  then show ?thesis
    by (elim disjE; cases "kuse s"; cases "ruse s")
      (use q' ok' in \<open>simp_all add: kfree_def kfree_insert_def klocks[where c = c] km_same pushed_page_def Let_def\<close>)
qed

lemma incrementRefCount_eq:
  assumes q: "kquiet c s" and ok: "page_ok (kend s) v"
  shows "incrementRefCount v s =
    (if \<not> ruse s then Ok () s
     else if rcount s (page_index v) = 0 then Panic ''incrementRefCount: refcount == 0''
     else Ok () (s\<lparr>rcount := (rcount s)(page_index v := rcount s (page_index v) + 1)\<rparr>))"
proof -
  have q': "on_cpu c (km s)" "lock_free RefcountLock (km s)"
    using q by (simp_all add: kquiet_def)
  have ok': "v mod PGSIZE = 0" "\<not> v < kend s" "\<not> PHYSTOP \<le> V2P v"
    using ok by (auto simp: page_ok_def)
  show ?thesis
    using q' ok' by (simp add: incrementRefCount_def klocks[where c = c] km_same Let_def)
qed

section \<open>The free list against an abstract pool of pages\<close>

text \<open>
  The specification: a pool is the sequence of free pages and a reference count per page.
  Allocation takes the first free page, with one reference; freeing drops a reference and puts
  the page in front when none is left.
\<close>

record pool =
  pfree :: "uint list"
  pref :: "nat \<Rightarrow> int"

definition pool_alloc :: "pool \<Rightarrow> uint \<times> pool" where
  "pool_alloc p = (case pfree p of [] \<Rightarrow> (0, p)
     | v # vs \<Rightarrow> (v, p\<lparr>pfree := vs, pref := (pref p)(page_index v := 1)\<rparr>))"

definition pool_free :: "uint \<Rightarrow> pool \<Rightarrow> pool option" where
  "pool_free v p =
     (let n = pref p (page_index v) in
      if n = 0 then None
      else if n = 1 then Some (p\<lparr>pfree := v # pfree p, pref := (pref p)(page_index v := 0)\<rparr>)
      else Some (p\<lparr>pref := (pref p)(page_index v := n - 1)\<rparr>))"

definition pool_of :: "uint list \<Rightarrow> kst \<Rightarrow> pool" where
  "pool_of ps s = \<lparr>pfree = ps, pref = rcount s\<rparr>"

lemma pool_inv_head:
  assumes "pool_inv ps s"
  shows "freelist s = (case ps of [] \<Rightarrow> 0 | p # _ \<Rightarrow> p)"
    and "freelist s \<noteq> 0 \<Longrightarrow> page_ok (kend s) (freelist s)"
    and "freelist s \<noteq> 0 \<Longrightarrow> rcount s (page_index (freelist s)) = 0"
  using assms by (cases ps; auto simp: pool_inv_def)+

lemma popped_page_inv:
  assumes "pool_inv (p # ps) s"
  shows "pool_inv ps (popped_page s)"
proof -
  have "page_index q \<noteq> page_index p" if "q \<in> set ps" for q
    using assms that page_index_inj[of "kend s" q "kend s" p] by (auto simp: pool_inv_def)
  then show ?thesis
    using assms by (auto simp: pool_inv_def popped_page_def)
qed

lemma junk_outside_page:
  assumes "\<not> in_page v y"
  shows "store32 v w (memset v 1 PGSIZE m) y = m y"
proof -
  have "\<not> span v 4 y" using assms span4_in_page by blast
  then show ?thesis
    using assms by (simp add: store32_outside memset_eq in_page_def PGSIZE_def)
qed

lemma pushed_page_inv:
  assumes inv: "pool_inv ps s" and ok: "page_ok (kend s) v" and out: "v \<notin> set ps"
    and unused: "\<not> ruse s \<Longrightarrow> rcount s (page_index v) = 0"
  shows "pool_inv (v # ps) (pushed_page v s)"
proof -
  let ?m = "store32 v (freelist s) (memset v 1 PGSIZE (mem s))"
  have a: "aligned4 v" by (rule page_aligned4[OF ok])
  have link: "load32 ?m v = freelist s" by (simp add: load_store32[OF a a])
  have same: "?m y = mem s y" if "\<not> in_page v y" for y
    by (rule junk_outside_page[OF that])
  have c: "chain ?m (freelist s) ps"
    by (rule chain_other_page[where e = "kend s", OF _ _ ok out same])
      (use inv in \<open>auto simp: pool_inv_def\<close>)
  show ?thesis
    using inv ok out unused c link page_nonzero[OF ok]
    by (auto simp: pool_inv_def pushed_page_def)
qed

lemma kalloc_pool:
  assumes q: "kquiet c s" and inv: "pool_inv ps s" and ru: "ruse s"
  shows "\<exists>s'. kalloc s = Ok (fst (pool_alloc (pool_of ps s))) s' \<and>
      pool_of (tl ps) s' = snd (pool_alloc (pool_of ps s)) \<and> pool_inv (tl ps) s' \<and>
      km s' = km s \<and> mem s' = mem s \<and> kend s' = kend s \<and> ruse s' = ruse s \<and> kuse s' = kuse s"
proof (cases ps)
  case Nil
  then have "freelist s = 0" using pool_inv_head(1)[OF inv] by simp
  then show ?thesis
    using Nil inv kalloc_eq[OF q pool_inv_head(2)[OF inv]]
    by (simp add: pool_alloc_def pool_of_def)
next
  case (Cons p qs)
  then have f: "freelist s = p" "p \<noteq> 0" using inv by (auto simp: pool_inv_def)
  show ?thesis
    using Cons f kalloc_eq[OF q pool_inv_head(2)[OF inv]] popped_page_inv[of p qs s] inv ru
    by (auto simp: pool_alloc_def pool_of_def popped_page_def)
qed

lemma kfree_pool:
  assumes q: "kquiet c s" and inv: "pool_inv ps s" and ru: "ruse s" and ok: "page_ok (kend s) v"
  shows "case pool_free v (pool_of ps s) of
      None \<Rightarrow> kfree v s = Panic ''kfree: refcount < 0''
    | Some p \<Rightarrow> \<exists>s'. kfree v s = Ok () s' \<and> pool_of (pfree p) s' = p \<and> pool_inv (pfree p) s' \<and>
        km s' = km s \<and> kend s' = kend s \<and> ruse s' = ruse s \<and> kuse s' = kuse s \<and>
        (\<forall>x. in_page v x \<or> mem s' x = mem s x)"
proof -
  have ne: "0 \<le> rcount s i" for i using inv by (simp add: pool_inv_def)
  note eq = kfree_eq[OF q ok ne]
  have free0: "v \<in> set ps \<Longrightarrow> rcount s (page_index v) = 0"
    using inv by (simp add: pool_inv_def)
  consider (zero) "rcount s (page_index v) = 0" | (one) "rcount s (page_index v) = 1"
    | (more) "1 < rcount s (page_index v)"
    using ne[of "page_index v"] by arith
  then show ?thesis
  proof cases
    case zero
    then show ?thesis using eq ru by (simp add: pool_free_def pool_of_def)
  next
    case one
    then have "v \<notin> set ps" using free0 by auto
    then have "pool_inv (v # ps) (pushed_page v s)" 
      by (rule pushed_page_inv[OF inv ok]) (use ru \<open>v \<notin> set ps\<close> in simp_all)
    moreover have "in_page v x \<or> mem (pushed_page v s) x = mem s x" for x
      using junk_outside_page[of v x] by (auto simp: pushed_page_def)
    ultimately show ?thesis
      using eq ru one by (simp add: pool_free_def pool_of_def) (simp add: pushed_page_def)
  next
    case more
    then have "v \<notin> set ps" using free0 by auto
    then have "page_index p \<noteq> page_index v" if "p \<in> set ps" for p
      using that inv page_index_inj[of "kend s" p "kend s" v] ok by (auto simp: pool_inv_def)
    then have "pool_inv ps (s\<lparr>rcount := (rcount s)(page_index v := rcount s (page_index v) - 1)\<rparr>)"
      using inv more by (auto simp: pool_inv_def)
    then show ?thesis
      using eq ru more by (simp add: pool_free_def pool_of_def Let_def)
  qed
qed

section \<open>Sequences of calls\<close>

datatype kop = KAlloc | KFree uint | KShare uint

fun kop_run :: "kop list \<Rightarrow> kst \<Rightarrow> (uint list, kst) res" where
  "kop_run [] s = Ok [] s"
| "kop_run (KAlloc # ks) s =
     call (kalloc s) (\<lambda>v s. call (kop_run ks s) (\<lambda>vs s. Ok (v # vs) s))"
| "kop_run (KFree v # ks) s = call (kfree v s) (\<lambda>_ s. kop_run ks s)"
| "kop_run (KShare v # ks) s = call (incrementRefCount v s) (\<lambda>_ s. kop_run ks s)"

fun pool_run :: "kop list \<Rightarrow> pool \<Rightarrow> (uint list \<times> pool) option" where
  "pool_run [] p = Some ([], p)"
| "pool_run (KAlloc # ks) p =
     (let (v, p') = pool_alloc p in map_option (\<lambda>(vs, p). (v # vs, p)) (pool_run ks p'))"
| "pool_run (KFree v # ks) p = (case pool_free v p of None \<Rightarrow> None | Some p' \<Rightarrow> pool_run ks p')"
| "pool_run (KShare v # ks) p =
     (if pref p (page_index v) = 0 then None
      else pool_run ks (p\<lparr>pref := (pref p)(page_index v := pref p (page_index v) + 1)\<rparr>))"

fun kop_page_ok :: "uint \<Rightarrow> kop \<Rightarrow> bool" where
  "kop_page_ok e KAlloc = True"
| "kop_page_ok e (KFree v) = page_ok e v"
| "kop_page_ok e (KShare v) = page_ok e v"

definition kop_match :: "(uint list \<times> pool) option \<Rightarrow> kst \<Rightarrow> (uint list, kst) res \<Rightarrow> bool" where
  "kop_match a s r = (case a of
     None \<Rightarrow> \<exists>msg. r = Panic msg
   | Some (vs, p) \<Rightarrow> \<exists>s'. r = Ok vs s' \<and> pool_of (pfree p) s' = p \<and> pool_inv (pfree p) s' \<and>
       km s' = km s)"

lemma kop_match_None [simp]: "kop_match None s r \<longleftrightarrow> (\<exists>msg. r = Panic msg)"
  and kop_match_Some [simp]: "kop_match (Some (vs, p)) s r \<longleftrightarrow>
    (\<exists>s'. r = Ok vs s' \<and> pool_of (pfree p) s' = p \<and> pool_inv (pfree p) s' \<and> km s' = km s)"
  by (simp_all add: kop_match_def)

lemma share_pool:
  assumes "pool_inv ps s" and "rcount s (page_index v) \<noteq> 0"
  shows "pool_inv ps (s\<lparr>rcount := (rcount s)(page_index v := rcount s (page_index v) + 1)\<rparr>)"
  using assms by (auto simp: pool_inv_def intro: add_nonneg_nonneg)

lemma pool_alloc_free: "pfree (snd (pool_alloc (pool_of ps s))) = tl ps"
  by (cases ps) (simp_all add: pool_alloc_def pool_of_def)

lemma kop_run_pool:
  assumes "kquiet c s" and "pool_inv ps s" and "ruse s" and "list_all (kop_page_ok (kend s)) ks"
  shows "kop_match (pool_run ks (pool_of ps s)) s (kop_run ks s)"
  using assms
proof (induction ks arbitrary: s ps)
  case Nil
  then show ?case by (simp add: pool_of_def)
next
  case (Cons k ks)
  note q = Cons.prems(1) and inv = Cons.prems(2) and ru = Cons.prems(3)
  have rest: "kop_match (pool_run ks (pool_of qs t)) s (kop_run ks t)"
    if "pool_inv qs t" "km t = km s" "kend t = kend s" "ruse t = ruse s" for qs t
    using Cons.IH[of t qs] that Cons.prems
    by (cases "pool_run ks (pool_of qs t)") (auto simp: kquiet_def)
  show ?case
  proof (cases k)
    case KAlloc
    obtain s' where s': "kalloc s = Ok (fst (pool_alloc (pool_of ps s))) s'"
      "pool_of (tl ps) s' = snd (pool_alloc (pool_of ps s))" "pool_inv (tl ps) s'"
      "km s' = km s" "kend s' = kend s" "ruse s' = ruse s"
      using kalloc_pool[OF q inv ru] by blast
    then show ?thesis
      using rest[OF s'(3-6)] KAlloc
      by (cases "pool_run ks (pool_of (tl ps) s')") (auto simp: Let_def split_beta)
  next
    case (KFree v)
    then have ok: "page_ok (kend s) v" using Cons.prems(4) by simp
    show ?thesis
    proof (cases "pool_free v (pool_of ps s)")
      case None
      then show ?thesis using kfree_pool[OF q inv ru ok] KFree by simp
    next
      case (Some p)
      obtain s' where s': "kfree v s = Ok () s'" "pool_of (pfree p) s' = p" "pool_inv (pfree p) s'"
        "km s' = km s" "kend s' = kend s" "ruse s' = ruse s"
        using kfree_pool[OF q inv ru ok] unfolding Some by auto
      then show ?thesis using rest[OF s'(3-6)] KFree Some by simp
    qed
  next
    case (KShare v)
    then have ok: "page_ok (kend s) v" using Cons.prems(4) by simp
    show ?thesis
    proof (cases "rcount s (page_index v) = 0")
      case True
      then show ?thesis using incrementRefCount_eq[OF q ok] ru KShare by (simp add: pool_of_def)
    next
      case False
      let ?t = "s\<lparr>rcount := (rcount s)(page_index v := rcount s (page_index v) + 1)\<rparr>"
      have "kop_match (pool_run ks (pool_of ps ?t)) s (kop_run ks ?t)"
        by (rule rest[OF share_pool[OF inv False]]) simp_all
      moreover have "pool_of ps ?t =
          pool_of ps s\<lparr>pref := (pref (pool_of ps s))(page_index v := rcount s (page_index v) + 1)\<rparr>"
        by (simp add: pool_of_def)
      ultimately show ?thesis
        using incrementRefCount_eq[OF q ok] ru KShare False by (simp add: pool_of_def)
    qed
  qed
qed

text \<open>C7: Any sequence of calls of \<open>kalloc\<close>, \<open>kfree\<close> and \<open>incrementRefCount\<close> on page addresses
  refines the abstract pool: it returns exactly the pages the pool hands out, the free list in
  memory stays the pool's list and the counts its counts, both locks are free again at the end,
  and the kernel panics exactly when the pool has no answer, which is when a page without
  references is freed or shared.\<close>

theorem kalloc_refines_pool:
  assumes "kquiet c s" and "pool_inv ps s" and "ruse s" and "list_all (kop_page_ok (kend s)) ks"
  shows "case pool_run ks (pool_of ps s) of
      None \<Rightarrow> \<exists>msg. kop_run ks s = Panic msg
    | Some (vs, p) \<Rightarrow> \<exists>s'. kop_run ks s = Ok vs s' \<and> pool_of (pfree p) s' = p \<and>
        pool_inv (pfree p) s' \<and> km s' = km s"
  using kop_run_pool[OF assms] by (simp add: kop_match_def)

definition boot_pool :: kst where
  "boot_pool = \<lparr>km = boot_mach, mem = store32 0x80400000 0x80401000 (\<lambda>_. 0), kend = 0x80200000,
     kuse = True, freelist = 0x80400000, ruse = True, rcount = (\<lambda>_. 0)\<rparr>"

lemma boot_pool_quiet: "kquiet 0 boot_pool"
  using boot_mach_on_cpu boot_mach_free by (simp add: kquiet_def boot_pool_def)

lemma boot_pool_page: "page_ok 0x80200000 0x80400000" "page_ok 0x80200000 0x80401000"
  by (simp_all add: page_ok_def addr_defs)

lemma boot_pool_inv: "pool_inv [0x80400000, 0x80401000] boot_pool"
proof -
  have a: "aligned4 0x80400000" "aligned4 0x80401000"
    using boot_pool_page page_aligned4 by blast+
  show ?thesis
    using a boot_pool_page load_store32[OF a(1) a(1)] load_store32[OF a(1) a(2)]
    by (simp add: pool_inv_def boot_pool_def load32_def of_le32_def)
qed

theorem kalloc_refines_pool_witness:
  "\<exists>s'. kop_run [KAlloc, KShare 0x80400000, KFree 0x80400000, KAlloc, KAlloc] boot_pool =
     Ok [0x80400000, 0x80401000, 0] s' \<and> pool_inv [] s' \<and> km s' = km boot_pool"
proof -
  have i: "page_index 0x80400000 = 1024" "page_index 0x80401000 = 1025"
    by (simp_all add: page_index_def addr_defs)
  have r: "pool_run [KAlloc, KShare 0x80400000, KFree 0x80400000, KAlloc, KAlloc]
      (pool_of [0x80400000, 0x80401000] boot_pool) = Some ([0x80400000, 0x80401000, 0],
        \<lparr>pfree = [], pref = (\<lambda>_. 0)(1024 := 1, 1025 := 1)\<rparr>)"
    by (simp add: pool_of_def pool_alloc_def pool_free_def i boot_pool_def)
  show ?thesis
    using kalloc_refines_pool[OF boot_pool_quiet boot_pool_inv,
        of "[KAlloc, KShare 0x80400000, KFree 0x80400000, KAlloc, KAlloc]"] boot_pool_page
    unfolding r by (auto simp: boot_pool_def)
qed

text \<open>Freeing the same page twice is caught: after a \<open>kfree\<close> that put the page back on the
  free list, a second \<open>kfree\<close> of it panics in place of corrupting the list.\<close>

theorem kfree_double_free_panics:
  assumes q: "kquiet c s" and inv: "pool_inv ps s" and ru: "ruse s" and ok: "page_ok (kend s) v"
    and one: "rcount s (page_index v) = 1"
  shows "call (kfree v s) (\<lambda>_ s. kfree v s) = Panic ''kfree: refcount < 0''"
proof -
  have f: "pool_free v (pool_of ps s) =
      Some \<lparr>pfree = v # ps, pref = (rcount s)(page_index v := 0)\<rparr>"
    using one by (simp add: pool_free_def pool_of_def)
  obtain s' where s': "kfree v s = Ok () s'" and p:
      "pool_of (v # ps) s' = \<lparr>pfree = v # ps, pref = (rcount s)(page_index v := 0)\<rparr>"
      "pool_inv (v # ps) s'" "km s' = km s" "kend s' = kend s" "ruse s' = ruse s"
    using kfree_pool[OF q inv ru ok] unfolding f by auto
  have "kquiet c s'" "page_ok (kend s') v" using q ok p by (simp_all add: kquiet_def)
  from kfree_pool[OF this(1) p(2) _ this(2)] have "kfree v s' = Panic ''kfree: refcount < 0''"
    using p ru by (simp add: pool_free_def)
  then show ?thesis using s' by simp
qed

theorem kfree_double_free_panics_witness:
  "call (kfree 0x80402000 (boot_pool\<lparr>rcount := (\<lambda>_. 0)(1026 := 1)\<rparr>)) (\<lambda>_ s. kfree 0x80402000 s) =
     Panic ''kfree: refcount < 0''"
proof (rule kfree_double_free_panics[where c = 0 and ps = "[0x80400000, 0x80401000]"])
  have i: "page_index 0x80400000 = 1024" "page_index 0x80401000 = 1025" "page_index 0x80402000 = 1026"
    by (simp_all add: page_index_def addr_defs)
  show "kquiet 0 (boot_pool\<lparr>rcount := (\<lambda>_. 0)(1026 := 1)\<rparr>)"
    using boot_pool_quiet by (simp add: kquiet_def)
  show "pool_inv [0x80400000, 0x80401000] (boot_pool\<lparr>rcount := (\<lambda>_. 0)(1026 := 1)\<rparr>)"
    using boot_pool_inv by (simp add: pool_inv_def i)
  show "ruse (boot_pool\<lparr>rcount := (\<lambda>_. 0)(1026 := 1)\<rparr>)" by (simp add: boot_pool_def)
  show "page_ok (kend (boot_pool\<lparr>rcount := (\<lambda>_. 0)(1026 := 1)\<rparr>)) 0x80402000"
    by (simp add: boot_pool_def page_ok_def addr_defs)
  show "rcount (boot_pool\<lparr>rcount := (\<lambda>_. 0)(1026 := 1)\<rparr>) (page_index 0x80402000) = 1"
    by (simp add: i)
qed

section \<open>Building the free list at boot\<close>

definition pages_from :: "uint \<Rightarrow> nat \<Rightarrow> uint list" where
  "pages_from p n = map (\<lambda>k. p + of_nat k * PGSIZE) [0..<n]"

lemma pages_from_Suc: "pages_from p (Suc n) = p # pages_from (p + PGSIZE) n"
proof -
  have "[0..<Suc n] = 0 # map Suc [0..<n]" by (simp add: upt_conv_Cons map_Suc_upt del: upt_Suc)
  then show ?thesis by (simp add: pages_from_def algebra_simps del: upt_Suc)
qed

lemma pages_from_bounds:
  assumes "x \<in> set (pages_from p n)" and "unat p + n * 4096 < 2 ^ 32"
  shows "unat p \<le> unat x"
proof -
  obtain k where k: "k < n" "x = p + of_nat k * PGSIZE"
    using assms(1) by (auto simp: pages_from_def)
  have kn: "k * 4096 < 2 ^ 32" "unat p + k * 4096 < 2 ^ 32"
    using k(1) assms(2) by simp_all
  have "(of_nat k * PGSIZE :: uint) = of_nat (k * 4096)" by (simp add: PGSIZE_def)
  then have "unat (of_nat k * PGSIZE :: uint) = k * 4096"
    using unat_of_nat32[OF kn(1)] by simp
  then show ?thesis
    using k(2) unat_add_small[of p "of_nat k * PGSIZE"] kn by simp
qed

definition range_pages :: "uint \<Rightarrow> uint \<Rightarrow> nat" where
  "range_pages p vend = (unat vend - unat p) div 4096"

lemma freerange_from_inv:
  assumes "pool_inv ps s" and "\<not> ruse s" "\<not> kuse s" "\<And>i. rcount s i = 0"
    and "p mod PGSIZE = 0" "kend s \<le> p" "unat KERNBASE \<le> unat p"
    and "unat vend \<le> unat KERNBASE + unat PHYSTOP" and "unat p \<le> unat vend"
    and "\<And>x. x \<in> set ps \<Longrightarrow> unat x < unat p"
    and "n = range_pages p vend" and "kquiet c s"
  shows "\<exists>s'. freerange_from p vend s = Ok () s' \<and> pool_inv (rev (pages_from p n) @ ps) s' \<and>
    km s' = km s \<and> kend s' = kend s"
  using assms
proof (induction n arbitrary: p ps s)
  case 0
  have lt: "unat vend < unat p + 4096"
    using "0.prems"(9,11) by (simp add: range_pages_def div_eq_0_iff)
  have "unat p + unat PGSIZE < 2 ^ 32"
    using "0.prems"(8,9) by (simp add: mem_consts)
  then have "unat (p + PGSIZE) = unat p + 4096"
    using unat_add_small[of p PGSIZE] by (simp add: PGSIZE_def)
  then have "\<not> p + PGSIZE \<le> vend"
    using lt by (simp add: word_le_nat_alt)
  then show ?case
    using "0.prems" by (simp add: freerange_from.simps pages_from_def)
next
  case (Suc n)
  note prems = Suc.prems
  have ge: "unat p + 4096 \<le> unat vend"
    using prems(9,11) by (simp add: range_pages_def)
  have bnd: "unat p + unat PGSIZE < 2 ^ 32"
    using prems(8,9) by (simp add: mem_consts)
  then have up: "unat (p + PGSIZE) = unat p + 4096"
    using unat_add_small[of p PGSIZE] by (simp add: PGSIZE_def)
  have ok: "page_ok (kend s) p"
    using prems(5,6,7,8) ge
    by (simp add: page_ok_def V2P_def word_less_nat_alt unat_sub_if' mem_consts)
  have ne: "\<And>i. 0 \<le> rcount s i" using prems(4) by simp
  have free: "kfree p s = Ok () (pushed_page p s)"
    using kfree_eq[OF prems(12) ok ne] prems(2) by simp
  have out: "p \<notin> set ps" using prems(10) by blast
  have inv: "pool_inv (p # ps) (pushed_page p s)"
    by (rule pushed_page_inv[OF prems(1) ok out]) (simp add: prems(4))
  have al: "(p + PGSIZE) mod PGSIZE = 0"
  proof -
    have "4096 dvd unat p"
      using prems(5) unat_mod[of p 4096] by (simp add: PGSIZE_def mod_eq_0_iff_dvd)
    then have "unat (p + PGSIZE) mod 4096 = 0" using up by simp
    then show ?thesis by (simp add: PGSIZE_def word_unat_eq_iff unat_mod)
  qed
  have "kend s \<le> p + PGSIZE" "unat KERNBASE \<le> unat (p + PGSIZE)"
    using prems(6,7) up by (simp_all add: word_le_nat_alt)
  moreover have "n = range_pages (p + PGSIZE) vend"
  proof -
    have "Suc n = (unat vend - unat p) div 4096" using prems(11) by (simp add: range_pages_def)
    also have "\<dots> = (4096 + (unat vend - (unat p + 4096))) div 4096" using ge by simp
    also have "\<dots> = Suc ((unat vend - (unat p + 4096)) div 4096)" by simp
    finally show ?thesis using up by (simp add: range_pages_def)
  qed
  moreover have "kquiet c (pushed_page p s)"
    using prems(12) by (simp add: kquiet_def pushed_page_def)
  moreover have "unat x < unat (p + PGSIZE)" if "x \<in> set (p # ps)" for x
    using that prems(10)[of x] up by auto
  ultimately obtain s' where s': "freerange_from (p + PGSIZE) vend (pushed_page p s) = Ok () s'"
    "pool_inv (rev (pages_from (p + PGSIZE) n) @ p # ps) s'" "km s' = km s" "kend s' = kend s"
    using Suc.IH[of "p # ps" "pushed_page p s" "p + PGSIZE"] inv prems(2,3,4,8) ge up al
    by (auto simp: pushed_page_def)
  have "p + PGSIZE \<le> vend" using ge up by (simp add: word_le_nat_alt)
  then have "freerange_from p vend s = freerange_from (p + PGSIZE) vend (pushed_page p s)"
    using free by (subst freerange_from.simps) simp
  then show ?case using s' by (simp add: pages_from_Suc)
qed

lemma getNumFreePages_count:
  assumes "chain m x ps" and "\<And>p. p \<in> set ps \<Longrightarrow> sint p < 0"
  shows "count_pages m x k = Some (k + int (length ps))"
  using assms
proof (induction ps arbitrary: x k)
  case Nil
  then show ?case by (simp add: count_pages.simps)
next
  case (Cons p ps)
  have c: "x = p" "p \<noteq> 0" "chain m (load32 m p) ps" using Cons.prems by auto
  have "sint (load32 m p) < sint PHYSTOP"
    using Cons.prems(2) c(3) by (cases ps) (fastforce simp: mem_consts)+
  then show ?case
    using c Cons.IH[OF c(3)] Cons.prems(2) by (simp add: count_pages.simps[of m p] Let_def)
qed

lemma page_negative: "page_ok e v \<Longrightarrow> sint v < 0"
proof -
  assume "page_ok e v"
  then have "unat KERNBASE \<le> unat v" using kernel_page_bounds by (simp add: page_ok_def)
  then have "2147483648 \<le> unat v" by (simp add: KERNBASE_def)
  then have "unat v div 2 ^ 31 = 1"
    using unat_lt32[of v] by (intro div_nat_eqI) simp_all
  then have "bit (unat v) 31" by (simp only: bit_iff_odd) simp
  then have "bit v (LENGTH(32) - Suc 0)" by (simp only: bit_unsigned_iff) simp
  then show "sint v < 0" using bit_last_iff[of v] by simp
qed

lemma getNumFreePages_eq:
  assumes q: "kquiet c s" and inv: "pool_inv ps s"
  shows "getNumFreePages s = Ok (int (length ps)) s"
proof -
  have q': "on_cpu c (km s)" "lock_free KmemLock (km s)"
    using q by (simp_all add: kquiet_def)
  have "count_pages (mem s) (freelist s) 0 = Some (int (length ps))"
    using getNumFreePages_count[of "mem s" "freelist s" ps 0] inv page_negative
    by (auto simp: pool_inv_def)
  then show ?thesis
    using q' by (simp add: getNumFreePages_def klocks[where c = c] km_same)
qed

lemma kalloc_drain:
  assumes "kquiet c s" and "pool_inv ps s" and "ruse s"
  shows "\<exists>s'. kop_run (replicate (length ps) KAlloc) s = Ok ps s' \<and> freelist s' = 0 \<and> kquiet c s'"
  using assms
proof (induction ps arbitrary: s)
  case Nil
  then show ?case by (simp add: pool_inv_def)
next
  case (Cons p ps)
  obtain s' where s': "kalloc s = Ok p s'" "pool_inv ps s'" "km s' = km s" "ruse s' = ruse s"
    using kalloc_pool[OF Cons.prems] by (auto simp: pool_alloc_def pool_of_def)
  then have "kquiet c s'" using Cons.prems(1) by (simp add: kquiet_def)
  from Cons.IH[OF this s'(2)] show ?case using s' Cons.prems(3) by auto
qed

text \<open>\<open>getNumFreePages\<close> returns, and its result is the number of pages \<open>kalloc\<close> can still hand
  out: that many calls of \<open>kalloc\<close> in a row return distinct pages of the free list, in its order,
  and the next one returns 0.\<close>

theorem getNumFreePages_counts_pool:
  assumes "kquiet c s" and "pool_inv ps s" and "ruse s"
  shows "getNumFreePages s = Ok (int (length ps)) s \<and> distinct ps \<and>
    call (kop_run (replicate (length ps) KAlloc) s) (\<lambda>vs s. call (kalloc s) (\<lambda>v s. Ok (vs, v) s)) =
    call (kop_run (replicate (length ps) KAlloc) s) (\<lambda>_ s. Ok (ps, 0) s)"
proof (intro conjI)
  show "getNumFreePages s = Ok (int (length ps)) s" by (rule getNumFreePages_eq[OF assms(1,2)])
  show "distinct ps" using assms(2) by (simp add: pool_inv_def)
  obtain s' where s': "kop_run (replicate (length ps) KAlloc) s = Ok ps s'" "freelist s' = 0" "kquiet c s'"
    using kalloc_drain[OF assms] by blast
  then show "call (kop_run (replicate (length ps) KAlloc) s) (\<lambda>vs s. call (kalloc s) (\<lambda>v s. Ok (vs, v) s)) =
      call (kop_run (replicate (length ps) KAlloc) s) (\<lambda>_ s. Ok (ps, 0) s)"
    using kalloc_eq[OF s'(3)] by simp
qed

theorem getNumFreePages_counts_pool_witness:
  "getNumFreePages boot_pool = Ok 2 boot_pool"
  using getNumFreePages_counts_pool[OF boot_pool_quiet boot_pool_inv] by (simp add: boot_pool_def)

lemma freerange_inv:
  assumes "\<not> ruse s" "\<not> kuse s" "\<And>i. rcount s i = 0" "pool_inv ps s" "kquiet c s"
    and "PGROUNDUP vstart mod PGSIZE = 0" "kend s \<le> PGROUNDUP vstart" "KERNBASE \<le> PGROUNDUP vstart"
    and "PGROUNDUP vstart \<le> vend" "vend \<le> P2V PHYSTOP" "\<And>x. x \<in> set ps \<Longrightarrow> x < PGROUNDUP vstart"
  shows "\<exists>s'. freerange vstart vend s = Ok () s' \<and>
    pool_inv (rev (pages_from (PGROUNDUP vstart) (range_pages (PGROUNDUP vstart) vend)) @ ps) s' \<and>
    km s' = km s \<and> kend s' = kend s"
  unfolding freerange_def
  by (rule freerange_from_inv[OF assms(4,1,2,3,6,7) _ _ _ _ refl assms(5)])
    (use assms in \<open>simp_all add: word_le_nat_alt word_less_nat_alt P2V_def mem_consts\<close>)

lemma PGROUNDUP_aligned: "PGROUNDUP v mod PGSIZE = 0"
proof -
  have "PGROUNDUP v AND 4095 = 0"
    by (rule bit_word_eqI) (auto simp: PGROUNDUP_def PGSIZE_def bit_simps)
  moreover have "(4095 :: uint) = mask 12" by (simp add: mask_eq_exp_minus_1)
  ultimately have "take_bit 12 (PGROUNDUP v) = 0" by (simp add: take_bit_eq_mask)
  then show ?thesis by (simp add: take_bit_eq_mod PGSIZE_def)
qed

text \<open>\<open>kinit1\<close> builds the free list at boot: starting from an empty list it returns with a free
  list that holds exactly the whole pages between the rounded-up start and the end of the range,
  each once, the highest first, and it fills no page twice.\<close>

theorem kinit1_builds_pool:
  assumes q: "on_cpu c (km s)" and z: "freelist s = 0" and r: "\<And>i. 57344 \<le> i \<Longrightarrow> rcount s i = 0"
    and lo: "kend s \<le> PGROUNDUP vstart" "KERNBASE \<le> PGROUNDUP vstart"
    and hi: "PGROUNDUP vstart \<le> vend" "vend \<le> P2V PHYSTOP"
  shows "\<exists>s'. kinit1 vstart vend s = Ok () s' \<and> pool_inv
    (rev (pages_from (PGROUNDUP vstart) ((unat vend - unat (PGROUNDUP vstart)) div 4096))) s'"
proof -
  let ?m = "set_lock RefcountLock (\<lambda>k. k\<lparr>lk_name := ''refcount'', locked := False, lk_cpu := None\<rparr>)
    (set_lock KmemLock (\<lambda>k. k\<lparr>lk_name := ''kmem'', locked := False, lk_cpu := None\<rparr>) (km s))"
  let ?s = "s\<lparr>kuse := False, km := ?m, ruse := False, rcount := \<lambda>_. 0\<rparr>"
  have rc: "(\<lambda>i. if i < unat (PHYSTOP div PGSIZE) then 0 else rcount s i) = (\<lambda>_. 0)"
    using r by (auto simp: fun_eq_iff mem_consts)
  have k: "kinit1 vstart vend s = freerange vstart vend ?s"
    using rc by (simp add: kinit1_def initlock_def zoom_def Let_def cong: if_cong)
  have "kquiet c ?s" using q by (simp add: kquiet_def lock_free_def set_lock_def)
  moreover have "pool_inv [] ?s" using z by (simp add: pool_inv_def)
  ultimately obtain s' where "freerange vstart vend ?s = Ok () s'"
    "pool_inv (rev (pages_from (PGROUNDUP vstart) (range_pages (PGROUNDUP vstart) vend)) @ []) s'"
    using freerange_inv[of ?s "[]" c vstart vend] lo hi PGROUNDUP_aligned by auto
  then show ?thesis using k by (simp add: range_pages_def)
qed

theorem kinit1_builds_pool_witness:
  "\<exists>s'. kinit1 0x803FF010 0x80402fff (boot_pool\<lparr>freelist := 0\<rparr>) = Ok () s' \<and>
    pool_inv [0x80401000, 0x80400000] s'"
proof -
  have r: "PGROUNDUP 0x803FF010 = 0x80400000" by (simp add: PGROUNDUP_def PGSIZE_def)
  have p: "rev (pages_from 0x80400000 2) = [0x80401000, 0x80400000]"
    by (simp add: pages_from_def PGSIZE_def upt_rec numeral_2_eq_2)
  show ?thesis
    using kinit1_builds_pool[of 0 "boot_pool\<lparr>freelist := 0\<rparr>" "0x803FF010" "0x80402fff"]
      boot_mach_on_cpu p
    by (simp add: r boot_pool_def addr_defs)
qed

end
