(* ===== verification/Vm.thy ===== *)
theory Vm
  imports Kalloc
begin

unbundle bit_operations_syntax

text \<open>
  Page tables: vm.c and the parts of mmu.h it uses.  A page directory and its page tables are
  pages of \<open>mem\<close>, read and written word by word as the C code does; the copy-on-write fork is
  \<open>copyuvm\<close> and \<open>handle_pgflt_helper\<close>.  The kernel's own accesses go through the direct map
  \<open>P2V\<close>; \<open>walk_hw\<close> is what the processor's page walk does for a user address.  Diagnostic output
  (\<open>cprintf\<close>) is left out.
\<close>

section \<open>mmu.h\<close>

definition PTE_P :: uint where "PTE_P = 0x001"
definition PTE_W :: uint where "PTE_W = 0x002"
definition PTE_U :: uint where "PTE_U = 0x004"
definition PTE_COW_W :: uint where "PTE_COW_W = 0x100"

definition PDX :: "uint \<Rightarrow> uint" where "PDX va = drop_bit 22 va AND 0x3FF"
definition PTX :: "uint \<Rightarrow> uint" where "PTX va = drop_bit 12 va AND 0x3FF"

definition PGADDR :: "uint \<Rightarrow> uint \<Rightarrow> uint \<Rightarrow> uint" where
  "PGADDR d t off = push_bit 22 d OR push_bit 12 t OR off"

definition PTE_ADDR :: "uint \<Rightarrow> uint" where "PTE_ADDR pte = pte AND NOT 0xFFF"
definition PTE_FLAGS :: "uint \<Rightarrow> uint" where "PTE_FLAGS pte = pte AND 0xFFF"

lemmas pte_consts = PTE_P_def PTE_W_def PTE_U_def PTE_COW_W_def

definition pte_has :: "uint \<Rightarrow> uint \<Rightarrow> bool" where
  "pte_has pte flag \<longleftrightarrow> pte AND flag \<noteq> 0"

record segdesc =
  lim_15_0 :: uint
  base_15_0 :: uint
  base_23_16 :: uint
  sd_type :: uint
  sd_s :: uint
  sd_dpl :: uint
  sd_p :: uint
  lim_19_16 :: uint
  sd_avl :: uint
  sd_rsv1 :: uint
  sd_db :: uint
  sd_g :: uint
  base_31_24 :: uint

definition SEG :: "uint \<Rightarrow> uint \<Rightarrow> uint \<Rightarrow> uint \<Rightarrow> segdesc" where
  "SEG ty base lim dpl =
     \<lparr>lim_15_0 = drop_bit 12 lim AND 0xffff, base_15_0 = base AND 0xffff,
      base_23_16 = drop_bit 16 base AND 0xff, sd_type = ty, sd_s = 1, sd_dpl = dpl, sd_p = 1,
      lim_19_16 = drop_bit 28 lim, sd_avl = 0, sd_rsv1 = 0, sd_db = 1, sd_g = 1,
      base_31_24 = drop_bit 24 base\<rparr>"

definition SEG16 :: "uint \<Rightarrow> uint \<Rightarrow> uint \<Rightarrow> uint \<Rightarrow> segdesc" where
  "SEG16 ty base lim dpl =
     \<lparr>lim_15_0 = lim AND 0xffff, base_15_0 = base AND 0xffff,
      base_23_16 = drop_bit 16 base AND 0xff, sd_type = ty, sd_s = 1, sd_dpl = dpl, sd_p = 1,
      lim_19_16 = drop_bit 16 lim, sd_avl = 0, sd_rsv1 = 0, sd_db = 1, sd_g = 0,
      base_31_24 = drop_bit 24 base\<rparr>"

section \<open>State\<close>

text \<open>
  The kernel page table, the page table register, the address \<open>data\<close> of the linker script, and
  per CPU the segment table and the fields of the task state segment the code sets; \<open>ts_base c\<close>
  is the address of \<open>cpus[c].ts\<close>.
\<close>

record cpuseg =
  gdt :: "segdesc list"
  ss0 :: uint
  esp0 :: uint
  iomb :: uint
  task_reg :: uint

record vst =
  vk :: kst
  kpgdir :: uint
  cr3 :: uint
  kdata :: uint
  segs :: "cpuseg list"
  ts_base :: "nat \<Rightarrow> uint"

definition KSTACKSIZE :: uint where "KSTACKSIZE = 4096"

abbreviation on_vk :: "(kst \<Rightarrow> ('a, kst) res) \<Rightarrow> vst \<Rightarrow> ('a, vst) res" where
  "on_vk \<equiv> zoom vk vk_update"

abbreviation on_vm :: "(mach \<Rightarrow> ('a, mach) res) \<Rightarrow> vst \<Rightarrow> ('a, vst) res" where
  "on_vm f \<equiv> on_vk (on_km f)"

definition vmem :: "vst \<Rightarrow> memory" where
  "vmem s = mem (vk s)"

definition set_mem :: "(memory \<Rightarrow> memory) \<Rightarrow> vst \<Rightarrow> vst" where
  "set_mem f s = s\<lparr>vk := (vk s)\<lparr>mem := f (mem (vk s))\<rparr>\<rparr>"

definition rd32 :: "uint \<Rightarrow> vst \<Rightarrow> uint" where
  "rd32 a s = load32 (vmem s) a"

definition wr32 :: "uint \<Rightarrow> uint \<Rightarrow> vst \<Rightarrow> vst" where
  "wr32 a w = set_mem (store32 a w)"

definition lcr3 :: "uint \<Rightarrow> vst \<Rightarrow> vst" where
  "lcr3 a s = s\<lparr>cr3 := a\<rparr>"

section \<open>vm.c\<close>

definition seginit :: "vst \<Rightarrow> (unit, vst) res" where
  "seginit s =
     call (on_vm cpuid s) (\<lambda>c s.
     let g = gdt (segs s ! c);
         g = g[1 := SEG (0x8 OR 0x2) 0 0xffffffff 0];
         g = g[2 := SEG 0x2 0 0xffffffff 0];
         g = g[3 := SEG (0x8 OR 0x2) 0 0xffffffff 3];
         g = g[4 := SEG 0x2 0 0xffffffff 3] in
     Ok () (s\<lparr>segs := (segs s)[c := (segs s ! c)\<lparr>gdt := g\<rparr>]\<rparr>))"

text \<open>\<open>walkpgdir\<close> returns the address of an entry, 0 for the null pointer.\<close>

definition walkpgdir :: "uint \<Rightarrow> uint \<Rightarrow> bool \<Rightarrow> vst \<Rightarrow> (uint, vst) res" where
  "walkpgdir pgdir va alloc s =
     (let pde = pgdir + 4 * PDX va in
      if pte_has (rd32 pde s) PTE_P
      then Ok (P2V (PTE_ADDR (rd32 pde s)) + 4 * PTX va) s
      else if \<not> alloc then Ok 0 s
      else call (on_vk kalloc s) (\<lambda>pgtab s.
        if pgtab = 0 then Ok 0 s
        else let s = set_mem (memset pgtab 0 PGSIZE) s;
                 s = wr32 pde (V2P pgtab OR PTE_P OR PTE_W OR PTE_U) s in
          Ok (pgtab + 4 * PTX va) s))"

text \<open>
  The loop of \<open>mappages\<close> ends when \<open>a == last\<close>; as \<open>a\<close> moves by a page and both are page
  aligned it makes \<open>(last - a) div PGSIZE\<close> more rounds.
\<close>

fun mappages_from :: "nat \<Rightarrow> uint \<Rightarrow> uint \<Rightarrow> uint \<Rightarrow> uint \<Rightarrow> vst \<Rightarrow> (int, vst) res" where
  "mappages_from n pgdir a pa perm s =
     call (walkpgdir pgdir a True s) (\<lambda>pte s.
     if pte = 0 then Ok (-1) s
     else if pte_has (rd32 pte s) PTE_P then Panic ''remap''
     else let s = wr32 pte (pa OR perm OR PTE_P) s in
       (case n of 0 \<Rightarrow> Ok 0 s
        | Suc k \<Rightarrow> mappages_from k pgdir (a + PGSIZE) (pa + PGSIZE) perm s))"

declare mappages_from.simps [simp del]

definition mappages :: "uint \<Rightarrow> uint \<Rightarrow> uint \<Rightarrow> uint \<Rightarrow> uint \<Rightarrow> vst \<Rightarrow> (int, vst) res" where
  "mappages pgdir va sz pa perm s =
     (let a = PGROUNDDOWN va; last = PGROUNDDOWN (va + sz - 1) in
      mappages_from (unat ((last - a) div PGSIZE)) pgdir a pa perm s)"

text \<open>
  The loop of \<open>deallocuvm\<close>.  An \<open>a\<close> that wraps around would start over at the bottom of the
  address space and never reach \<open>oldsz\<close>.
\<close>

function deallocuvm_from :: "uint \<Rightarrow> uint \<Rightarrow> uint \<Rightarrow> vst \<Rightarrow> (unit, vst) res" where
  "deallocuvm_from pgdir a oldsz s =
     (if \<not> a < oldsz then Ok () s
      else call (walkpgdir pgdir a False s) (\<lambda>pte s.
        call (if pte = 0 then Ok (PGADDR (PDX a + 1) 0 0 - PGSIZE) s
              else if pte_has (rd32 pte s) PTE_P
              then let pa = PTE_ADDR (rd32 pte s) in
                if pa = 0 then Panic ''kfree''
                else call (on_vk (kfree (P2V pa)) s) (\<lambda>_ s. Ok a (wr32 pte 0 s))
              else Ok a s) (\<lambda>a' s.
        if a' + PGSIZE \<le> a then Fault ''deallocuvm never returns''
        else deallocuvm_from pgdir (a' + PGSIZE) oldsz s)))"
  by pat_completeness auto
termination
  by (relation "measure (\<lambda>(pgdir, a, oldsz, s). 2 ^ 32 - unat a)")
    (auto simp: not_le word_less_nat_alt unat_lt32 intro!: diff_less_mono2)

declare deallocuvm_from.simps [simp del]

definition deallocuvm :: "uint \<Rightarrow> uint \<Rightarrow> uint \<Rightarrow> vst \<Rightarrow> (uint, vst) res" where
  "deallocuvm pgdir oldsz newsz s =
     (if oldsz \<le> newsz then Ok oldsz s
      else call (deallocuvm_from pgdir (PGROUNDUP newsz) oldsz s) (\<lambda>_ s. Ok newsz s))"

definition freevm :: "uint \<Rightarrow> vst \<Rightarrow> (unit, vst) res" where
  "freevm pgdir s =
     (if pgdir = 0 then Panic ''freevm: no pgdir''
      else call (deallocuvm pgdir KERNBASE 0 s) (\<lambda>_ s.
        call (for_each (\<lambda>i s.
                let pde = rd32 (pgdir + 4 * of_nat i) s in
                if pte_has pde PTE_P then on_vk (kfree (P2V (PTE_ADDR pde))) s
                else Ok () s) [0..<1024] s) (\<lambda>_ s.
        on_vk (kfree pgdir) s)))"

text \<open>The table \<open>kmap\<close>: first virtual address, first and last physical address, permissions.\<close>

definition kmap :: "vst \<Rightarrow> (uint \<times> uint \<times> uint \<times> uint) list" where
  "kmap s =
     [(KERNBASE, 0, EXTMEM, PTE_W),
      (KERNLINK, V2P KERNLINK, V2P (kdata s), 0),
      (kdata s, V2P (kdata s), PHYSTOP, PTE_W),
      (DEVSPACE, DEVSPACE, 0, PTE_W)]"

fun setupkvm_from :: "uint \<Rightarrow> (uint \<times> uint \<times> uint \<times> uint) list \<Rightarrow> vst \<Rightarrow> (uint, vst) res" where
  "setupkvm_from pgdir [] s = Ok pgdir s"
| "setupkvm_from pgdir ((virt, phys_start, phys_end, perm) # ks) s =
     call (mappages pgdir virt (phys_end - phys_start) phys_start perm s) (\<lambda>r s.
     if r < 0 then call (freevm pgdir s) (\<lambda>_ s. Ok 0 s)
     else setupkvm_from pgdir ks s)"

definition setupkvm :: "vst \<Rightarrow> (uint, vst) res" where
  "setupkvm s =
     call (on_vk kalloc s) (\<lambda>pgdir s.
     if pgdir = 0 then Ok 0 s
     else let s = set_mem (memset pgdir 0 PGSIZE) s in
       if DEVSPACE < P2V PHYSTOP then Panic ''PHYSTOP too high''
       else setupkvm_from pgdir (kmap s) s)"

definition switchkvm :: "vst \<Rightarrow> (unit, vst) res" where
  "switchkvm s = Ok () (lcr3 (V2P (kpgdir s)) s)"

definition kvmalloc :: "vst \<Rightarrow> (unit, vst) res" where
  "kvmalloc s = call (setupkvm s) (\<lambda>d s. switchkvm (s\<lparr>kpgdir := d\<rparr>))"

definition switchuvm :: "proc option \<Rightarrow> vst \<Rightarrow> (unit, vst) res" where
  "switchuvm po s =
     (case po of None \<Rightarrow> Panic ''switchuvm: no process'' | Some p \<Rightarrow>
      if kstack p = 0 then Panic ''switchuvm: no kstack''
      else if p_pgdir p = 0 then Panic ''switchuvm: no pgdir''
      else call (on_vm pushcli s) (\<lambda>_ s.
        call (on_vm mycpu s) (\<lambda>c s.
        let k = segs s ! c;
            d = SEG16 0x9 (ts_base s c) 103 0;
            k = k\<lparr>gdt := (gdt k)[5 := d\<lparr>sd_s := 0\<rparr>], ss0 := push_bit 3 2,
              esp0 := kstack p + KSTACKSIZE, iomb := 0xFFFF, task_reg := push_bit 3 5\<rparr>;
            s = s\<lparr>segs := (segs s)[c := k]\<rparr>;
            s = lcr3 (V2P (p_pgdir p)) s in
        on_vm popcli s)))"

text \<open>\<open>inituvm\<close> copies the embedded \<open>initcode\<close> from kernel memory at \<open>init\<close>.\<close>

definition inituvm :: "uint \<Rightarrow> uint \<Rightarrow> uint \<Rightarrow> vst \<Rightarrow> (unit, vst) res" where
  "inituvm pgdir init sz s =
     (if PGSIZE \<le> sz then Panic ''inituvm: more than a page''
      else call (on_vk kalloc s) (\<lambda>v s.
        let s = set_mem (memset v 0 PGSIZE) s in
        call (mappages pgdir 0 PGSIZE (V2P v) (PTE_W OR PTE_U) s) (\<lambda>_ s.
        Ok () (set_mem (memmove v init sz) s))))"

text \<open>The loop of \<open>allocuvm\<close> stays below \<open>KERNBASE\<close>, so \<open>a\<close> does not wrap around.\<close>

function allocuvm_from :: "uint \<Rightarrow> uint \<Rightarrow> uint \<Rightarrow> uint \<Rightarrow> vst \<Rightarrow> (uint, vst) res" where
  "allocuvm_from pgdir a oldsz newsz s =
     (if KERNBASE \<le> newsz then Fault ''allocuvm: newsz was checked before the loop''
      else if \<not> a < newsz then Ok newsz s
      else call (on_vk kalloc s) (\<lambda>v s.
        if v = 0 then call (deallocuvm pgdir newsz oldsz s) (\<lambda>_ s. Ok 0 s)
        else let s = set_mem (memset v 0 PGSIZE) s in
          call (mappages pgdir a PGSIZE (V2P v) (PTE_W OR PTE_U) s) (\<lambda>r s.
          if r < 0
          then call (deallocuvm pgdir newsz oldsz s) (\<lambda>_ s.
               call (on_vk (kfree v) s) (\<lambda>_ s. Ok 0 s))
          else allocuvm_from pgdir (a + PGSIZE) oldsz newsz s)))"
  by pat_completeness auto
termination
proof (relation "measure (\<lambda>(pgdir, a, oldsz, newsz, s). 2 ^ 32 - unat a)")
  fix pgdir a oldsz newsz r s t v and x :: int and z :: vst
  assume "\<not> KERNBASE \<le> newsz" and "\<not> \<not> a < newsz"
  then have b: "unat a < unat KERNBASE" by (simp add: word_less_nat_alt word_le_nat_alt)
  then have "unat (a + PGSIZE) = unat a + unat PGSIZE"
    by (intro unat_add_small) (simp add: mem_consts)
  then show "((pgdir, a + PGSIZE, oldsz, newsz, z), pgdir, a, oldsz, newsz, s)
      \<in> measure (\<lambda>(pgdir, a, oldsz, newsz, s). 2 ^ 32 - unat a)"
    using b by (simp add: mem_consts)
qed simp

declare allocuvm_from.simps [simp del]

definition allocuvm :: "uint \<Rightarrow> uint \<Rightarrow> uint \<Rightarrow> vst \<Rightarrow> (uint, vst) res" where
  "allocuvm pgdir oldsz newsz s =
     (if KERNBASE \<le> newsz then Ok 0 s
      else if newsz < oldsz then Ok oldsz s
      else allocuvm_from pgdir (PGROUNDUP oldsz) oldsz newsz s)"

definition clearpteu :: "uint \<Rightarrow> uint \<Rightarrow> vst \<Rightarrow> (unit, vst) res" where
  "clearpteu pgdir uva s =
     call (walkpgdir pgdir uva False s) (\<lambda>pte s.
     if pte = 0 then Panic ''clearpteu''
     else Ok () (wr32 pte (rd32 pte s AND NOT PTE_U) s))"

text \<open>
  \<open>copyuvm\<close> shares every page with the child: the parent's entry loses \<open>PTE_W\<close> and gains
  \<open>PTE_COW_W\<close>, the page gains a reference, and the child's entry is a copy of the parent's.
\<close>

function copyuvm_from :: "uint \<Rightarrow> uint \<Rightarrow> uint \<Rightarrow> uint \<Rightarrow> vst \<Rightarrow> (uint, vst) res" where
  "copyuvm_from d pgdir i sz s =
     (if \<not> i < sz then Ok d s
      else call (walkpgdir pgdir i False s) (\<lambda>pte s.
        if pte = 0 then Panic ''copyuvm: pte should exist''
        else if \<not> pte_has (rd32 pte s) PTE_P then Panic ''copyuvm: page not present''
        else
          let pa = PTE_ADDR (rd32 pte s);
              s = wr32 pte (rd32 pte s AND NOT PTE_W) s;
              s = wr32 pte (rd32 pte s OR PTE_COW_W) s;
              flags = PTE_FLAGS (rd32 pte s) in
          call (on_vk (incrementRefCount (P2V pa)) s) (\<lambda>_ s.
          let s = lcr3 (V2P pgdir) s in
          call (mappages d i PGSIZE pa flags s) (\<lambda>r s.
          if r < 0
          then call (on_vk (kfree (P2V pa)) s) (\<lambda>_ s. call (freevm d s) (\<lambda>_ s. Ok 0 s))
          else if i + PGSIZE \<le> i then Fault ''copyuvm: the loop wraps around''
          else copyuvm_from d pgdir (i + PGSIZE) sz s))))"
  by pat_completeness auto
termination
  by (relation "measure (\<lambda>(d, pgdir, i, sz, s). 2 ^ 32 - unat i)")
    (auto simp: not_le word_less_nat_alt unat_lt32 intro!: diff_less_mono2)

declare copyuvm_from.simps [simp del]

definition copyuvm :: "uint \<Rightarrow> uint \<Rightarrow> vst \<Rightarrow> (uint, vst) res" where
  "copyuvm pgdir sz s =
     call (setupkvm s) (\<lambda>d s.
     if d = 0 then Ok 0 s else copyuvm_from d pgdir 0 sz s)"

text \<open>\<open>uva2ka\<close> reads through the result of \<open>walkpgdir\<close> without testing it for null.\<close>

definition uva2ka :: "uint \<Rightarrow> uint \<Rightarrow> vst \<Rightarrow> (uint, vst) res" where
  "uva2ka pgdir uva s =
     call (walkpgdir pgdir uva False s) (\<lambda>pte s.
     if pte = 0 then Fault ''uva2ka: null pte''
     else if \<not> pte_has (rd32 pte s) PTE_P then Ok 0 s
     else if \<not> pte_has (rd32 pte s) PTE_U then Ok 0 s
     else Ok (P2V (PTE_ADDR (rd32 pte s))) s)"

text \<open>
  The loop of \<open>copyout\<close>; each round copies at least one byte because \<open>va - va0\<close> is an offset in
  a page.
\<close>

lemma page_rest_pos: "0 < unat (PGSIZE - (va - PGROUNDDOWN va))"
proof -
  have "va - PGROUNDDOWN va = va AND 4095"
    unfolding PGROUNDDOWN_def word_sub_and_not by (simp add: PGSIZE_def)
  moreover have "unat (va AND 4095) < 4096"
    by (rule le_less_trans[of _ "unat (4095 :: uint)"])
      (simp_all only: word_le_nat_alt[symmetric] word_and_le1, simp)
  ultimately show ?thesis by (simp add: PGSIZE_def unat_sub_if')
qed

function copyout :: "uint \<Rightarrow> uint \<Rightarrow> uint \<Rightarrow> uint \<Rightarrow> vst \<Rightarrow> (int, vst) res" where
  "copyout pgdir va p len s =
     (if len = 0 then Ok 0 s
      else let va0 = PGROUNDDOWN va in
        call (uva2ka pgdir va0 s) (\<lambda>pa0 s.
        if pa0 = 0 then Ok (-1) s
        else let n = PGSIZE - (va - va0);
                 n = (if len < n then len else n);
                 s = set_mem (memmove (pa0 + (va - va0)) p n) s in
          copyout pgdir (va0 + PGSIZE) (p + n) (len - n) s))"
  by pat_completeness auto
termination
proof (relation "measure (\<lambda>(pgdir, va, p, len, s). unat len)")
  fix pgdir va p len n :: uint and s s' s'' :: vst and va0 x xa xb
  assume "len \<noteq> 0" "va0 = PGROUNDDOWN va" "xa = PGSIZE - (va - va0)"
    "xb = (if len < xa then len else xa)"
  then have "0 < unat xb" "unat xb \<le> unat len"
    using page_rest_pos[of va] by (auto simp: word_less_nat_alt unat_gt_0)
  then have "unat (len - xb) < unat len"
    by (simp add: unat_sub_if')
  then show "((pgdir, va0 + PGSIZE, p + xb, len - xb, s''), pgdir, va, p, len, s)
      \<in> measure (\<lambda>(pgdir, va, p, len, s). unat len)" by simp
qed simp

declare copyout.simps [simp del]

text \<open>The page fault handler: \<open>p\<close> is the process that faulted on the address \<open>addr\<close>.\<close>

definition handle_pgflt_helper :: "proc \<Rightarrow> uint \<Rightarrow> vst \<Rightarrow> (int, vst) res" where
  "handle_pgflt_helper p addr s =
     call (walkpgdir (p_pgdir p) addr False s) (\<lambda>pte s.
     if pte = 0 then Panic ''pagefault handler : pte unmapped''
     else if \<not> pte_has (rd32 pte s) PTE_U then Panic ''pagefault handler''
     else if \<not> pte_has (rd32 pte s) PTE_P then Panic ''pagefault handler''
     else if \<not> pte_has (rd32 pte s) PTE_W \<and> \<not> pte_has (rd32 pte s) PTE_COW_W
     then Panic ''pagefault handler''
     else let pa = PTE_ADDR (rd32 pte s) in
       call (on_vk kalloc s) (\<lambda>v s.
       if v = 0 then Panic ''pagefault handler''
       else let s = set_mem (memmove v (P2V pa) PGSIZE) s in
         call (on_vk (kfree (P2V pa)) s) (\<lambda>_ s.
         let s = (if pte_has (rd32 pte s) PTE_U
                  then wr32 pte (V2P v OR PTE_P OR PTE_W OR PTE_U) s
                  else wr32 pte (V2P v OR PTE_P OR PTE_W) s) in
         call (switchuvm (Some p) s) (\<lambda>_ s. Ok 0 s))))"

definition handle_pgflt :: "uint \<Rightarrow> vst \<Rightarrow> (int, vst) res" where
  "handle_pgflt addr s =
     call (on_vm curproc s) (\<lambda>i s.
     handle_pgflt_helper (ptable (km (vk s)) ! i) addr s)"

section \<open>What the processor does with a page table\<close>

text \<open>
  The page walk of the processor for a user-mode access, through the directory at the kernel
  address \<open>pgdir\<close>: both levels must be present and allow user access, and a store needs
  \<open>PTE_W\<close> in both.
\<close>

definition walk_hw :: "memory \<Rightarrow> uint \<Rightarrow> uint \<Rightarrow> uint option" where
  "walk_hw m pgdir va =
     (let pde = load32 m (pgdir + 4 * PDX va) in
      if pte_has pde PTE_P \<and> pte_has pde PTE_U
      then let pte = load32 m (P2V (PTE_ADDR pde) + 4 * PTX va) in
        (if pte_has pte PTE_P \<and> pte_has pte PTE_U then Some pte else None)
      else None)"

definition page_off :: "uint \<Rightarrow> uint" where "page_off va = va AND 0xFFF"

definition user_load :: "memory \<Rightarrow> uint \<Rightarrow> uint \<Rightarrow> u8 option" where
  "user_load m pgdir va =
     map_option (\<lambda>pte. m (P2V (PTE_ADDR pte) + page_off va)) (walk_hw m pgdir va)"

definition user_store :: "memory \<Rightarrow> uint \<Rightarrow> uint \<Rightarrow> u8 \<Rightarrow> memory option" where
  "user_store m pgdir va b =
     (case walk_hw m pgdir va of
        None \<Rightarrow> None
      | Some pte \<Rightarrow>
          if pte_has pte PTE_W \<and> pte_has (load32 m (pgdir + 4 * PDX va)) PTE_W
          then Some (m(P2V (PTE_ADDR pte) + page_off va := b)) else None)"

section \<open>Entries and addresses\<close>

lemma page_low_bits: "page_ok e v \<Longrightarrow> v AND 0xFFF = 0"
proof -
  assume "page_ok e v"
  then have "take_bit 12 v = 0" by (simp add: page_ok_def PGSIZE_def take_bit_eq_mod)
  then show ?thesis by (simp add: take_bit_eq_mask mask_eq_exp_minus_1)
qed

lemma low_bits_mod: "(v :: uint) AND 0xFFF = 0 \<longleftrightarrow> uint v mod 4096 = 0"
proof -
  have "uint (v AND 0xFFF) = uint v mod 4096"
    using take_bit_eq_mask[of 12 "uint v"]
    by (simp add: take_bit_eq_mod mask_eq_exp_minus_1 unsigned_and_eq)
  then show ?thesis by (metis unsigned_0 uint_0_iff)
qed

lemma low_bits_sub: "(v :: uint) AND 0xFFF = 0 \<Longrightarrow> (v - KERNBASE) AND 0xFFF = 0"
proof -
  assume "v AND 0xFFF = 0"
  then have "4096 dvd uint v" by (simp add: low_bits_mod mod_eq_0_iff_dvd)
  then have "4096 dvd (uint v - 2147483648) mod 4294967296"
    by (simp add: dvd_mod_iff)
  then have "4096 dvd uint (v - KERNBASE)"
    by (simp add: uint_word_ariths KERNBASE_def)
  then show ?thesis by (simp add: low_bits_mod mod_eq_0_iff_dvd)
qed

lemma pte_addr_or: "v AND 0xFFF = 0 \<Longrightarrow> f AND NOT 0xFFF = 0 \<Longrightarrow> PTE_ADDR (v OR f) = v"
proof -
  assume a: "v AND 0xFFF = 0" "f AND NOT 0xFFF = 0"
  have "v AND NOT 0xFFF = v"
    using word_sub_and_not[of v "0xFFF"] unfolding a(1) by (metis eq_iff_diff_eq_0)
  moreover have "PTE_ADDR (v OR f) = (v AND NOT 0xFFF) OR (f AND NOT 0xFFF)"
    unfolding PTE_ADDR_def by (rule bit.conj_disj_distrib2)
  ultimately show ?thesis unfolding a(2) by simp
qed

lemma pte_addr_page:
  assumes "page_ok e v" and "f AND NOT 0xFFF = 0"
  shows "P2V (PTE_ADDR (V2P v OR f)) = v"
  using pte_addr_or[OF low_bits_sub[OF page_low_bits[OF assms(1)]] assms(2)]
  by (simp add: V2P_def P2V_def)

lemma PTX_bound: "unat (PTX va) < 1024" and PDX_bound: "unat (PDX va) < 1024"
proof -
  have b: "unat (x AND 0x3FF) < 1024" for x :: uint
    by (rule le_less_trans[of _ "unat (0x3FF :: uint)"])
      (simp_all only: word_le_nat_alt[symmetric] word_and_le1, simp)
  show "unat (PTX va) < 1024" "unat (PDX va) < 1024"
    unfolding PTX_def PDX_def by (rule b)+
qed

lemma slot_offset: "unat i < 1024 \<Longrightarrow> unat (4 * i :: uint) = 4 * unat i"
  by (simp add: unat_mult_lem[THEN iffD1])

lemma slot_in_page:
  assumes "unat i < 1024" and "span (tab + 4 * i) 4 x"
  shows "in_page tab x"
proof -
  have lt: "unat (x - (tab + 4 * i)) < 4" using assms(2) by (simp add: span_def)
  have "x - tab = (x - (tab + 4 * i)) + 4 * i" by simp
  moreover have "unat (x - (tab + 4 * i)) + unat (4 * i) < 2 ^ 32"
    using lt slot_offset[OF assms(1)] assms(1) by simp
  ultimately have "unat (x - tab) = unat (x - (tab + 4 * i)) + unat (4 * i)"
    using unat_add_small by metis
  then show ?thesis
    using lt slot_offset[OF assms(1)] assms(1) by (simp add: in_page_def span_def)
qed

lemma slot_aligned:
  assumes "page_ok e tab" and "unat i < 1024"
  shows "aligned4 (tab + 4 * i)"
proof -
  have "unat tab + unat (4 * i) < 2 ^ 32"
    using page_index_eq(1,2)[OF assms(1)] slot_offset[OF assms(2)] assms(2) by (simp add: mem_consts)
  then have "unat (tab + 4 * i) = unat tab + 4 * unat i"
    using unat_add_small[of tab "4 * i"] slot_offset[OF assms(2)] by simp
  then show ?thesis using page_aligned4[OF assms(1)] by (simp add: aligned4_def)
qed

lemma slot_nonzero:
  assumes ok: "page_ok e tab" and i: "unat i < 1024"
  shows "tab + 4 * i \<noteq> 0"
proof
  assume "tab + 4 * i = 0"
  then have "in_page tab 0" using slot_in_page[OF i, of tab 0] by (simp add: span_def)
  from page_offset(1)[OF ok this] page_index_eq(1)[OF ok] show False by (simp add: mem_consts)
qed

lemma load32_other_page:
  assumes "page_ok e tab" "page_ok e' p" "p \<noteq> tab" "unat i < 1024"
    and "\<And>x. \<not> in_page p x \<Longrightarrow> m' x = m x"
  shows "load32 m' (tab + 4 * i) = load32 m (tab + 4 * i)"
proof (rule load32_cong)
  fix x assume "span (tab + 4 * i) 4 x"
  then have "in_page tab x" by (rule slot_in_page[OF assms(4)])
  then show "m' x = m x" using assms(5) pages_disjoint[OF assms(1,2)] assms(3) by blast
qed

lemma switchuvm_eq:
  assumes c: "on_cpu c (km (vk s))" and p: "kstack p \<noteq> 0" "p_pgdir p \<noteq> 0"
  shows "\<exists>s'. switchuvm (Some p) s = Ok () s' \<and> vk s' = vk s \<and> cr3 s' = V2P (p_pgdir p) \<and>
    kpgdir s' = kpgdir s \<and> kdata s' = kdata s"
proof -
  have same: "(vk s)\<lparr>km := km (vk s)\<rparr> = vk s" by (rule km_same)
  show ?thesis
    using c p popcli_pushed[OF c] mycpu_pushed[OF c]
    by (simp add: switchuvm_def zoom_def pushcli_eq on_cpuD Let_def lcr3_def same)
qed

text \<open>A copy of one page onto another.\<close>

lemma memmove_page:
  assumes "page_ok e f" "page_ok e' v"
  shows "memmove f v PGSIZE m x = (if in_page f x then m (v + (x - f)) else m x)"
proof -
  have "unat f + unat PGSIZE < 2 ^ 32" "unat v + unat PGSIZE < 2 ^ 32"
    using page_index_eq(1,2)[OF assms(1)] page_index_eq(1,2)[OF assms(2)] by (simp_all add: mem_consts)
  from memmove_eq[OF this(2,1)] show ?thesis by (simp add: in_page_def span_def PGSIZE_def)
qed

lemma in_page_offset: "page_ok e v \<Longrightarrow> in_page f x \<Longrightarrow> in_page v (v + (x - f))"
  by (simp add: in_page_def span_def)

text \<open>
  What the fault handler finds: \<open>addr\<close> is mapped through the page table \<open>tab\<close> to the page \<open>v\<close>,
  and \<open>e\<close> is the entry.
\<close>

definition cow_page :: "uint \<Rightarrow> uint \<Rightarrow> uint \<Rightarrow> uint \<Rightarrow> uint \<Rightarrow> vst \<Rightarrow> bool" where
  "cow_page pgdir addr tab e v s \<longleftrightarrow>
     (let pde = rd32 (pgdir + 4 * PDX addr) s in
      pte_has pde PTE_P \<and> tab = P2V (PTE_ADDR pde) \<and> e = rd32 (tab + 4 * PTX addr) s \<and>
      pte_has e PTE_P \<and> pte_has e PTE_U \<and> (pte_has e PTE_W \<or> pte_has e PTE_COW_W) \<and>
      v = P2V (PTE_ADDR e) \<and> page_ok (kend (vk s)) tab \<and> page_ok (kend (vk s)) v \<and> v \<noteq> tab \<and>
      0 < rcount (vk s) (page_index v))"

definition frame_same :: "uint \<Rightarrow> uint \<Rightarrow> uint \<Rightarrow> bool \<Rightarrow> memory \<Rightarrow> memory \<Rightarrow> bool" where
  "frame_same f pte v lone m m' \<longleftrightarrow>
     (\<forall>x. in_page f x \<or> span pte 4 x \<or> (lone \<and> in_page v x) \<or> m' x = m x)"

lemma set_mem_simps [simp]:
  "vk (set_mem f s) = (vk s)\<lparr>mem := f (mem (vk s))\<rparr>"
  "vmem (set_mem f s) = f (vmem s)"
  by (simp_all add: set_mem_def vmem_def)

lemma handle_pgflt_copies:
  assumes q: "kquiet c (vk s)" and inv: "pool_inv (f # fs) (vk s)" and ru: "ruse (vk s)"
    and cow: "cow_page (p_pgdir p) addr tab e v s"
    and tf: "tab \<notin> set (f # fs)" and p: "kstack p \<noteq> 0" "p_pgdir p \<noteq> 0"
  shows "\<exists>s'. handle_pgflt_helper p addr s = Ok 0 s' \<and>
    rd32 (tab + 4 * PTX addr) s' = V2P f OR PTE_P OR PTE_W OR PTE_U \<and>
    (\<forall>x. in_page f x \<longrightarrow> vmem s' x = vmem s (v + (x - f))) \<and>
    frame_same f (tab + 4 * PTX addr) v (rcount (vk s) (page_index v) = 1) (vmem s) (vmem s') \<and>
    rcount (vk s') = (rcount (vk s))(page_index f := 1,
      page_index v := rcount (vk s) (page_index v) - 1) \<and>
    pool_inv (if rcount (vk s) (page_index v) = 1 then v # fs else fs) (vk s') \<and>
    kquiet c (vk s') \<and> cr3 s' = V2P (p_pgdir p)"
proof -
  let ?k = "vk s" and ?pte = "tab + 4 * PTX addr" and ?E = "kend (vk s)"
  let ?n = "rcount ?k (page_index v)"
  note d = cow[unfolded cow_page_def Let_def]
  have okf: "page_ok ?E f" and f0: "f \<noteq> 0" and fl: "freelist ?k = f"
    using inv by (auto simp: pool_inv_def)
  have vf: "v \<notin> set (f # fs)"
    using d inv by (auto simp: pool_inv_def)
  have tne: "tab \<noteq> f" using tf by auto
  have tv: "v \<noteq> tab" and okt: "page_ok ?E tab" and okv: "page_ok ?E v" using d by auto
  have ptnz: "?pte \<noteq> 0" by (rule slot_nonzero[OF okt PTX_bound])
  have walk: "walkpgdir (p_pgdir p) addr False s = Ok ?pte s"
    using d by (simp add: walkpgdir_def Let_def)
  obtain k1 where k1: "kalloc ?k = Ok f k1" "pool_inv fs k1" "km k1 = km ?k" "mem k1 = mem ?k"
      "kend k1 = ?E" "ruse k1 = ruse ?k" "rcount k1 = (rcount ?k)(page_index f := 1)"
    using kalloc_pool[OF q inv ru] by (auto simp: pool_alloc_def pool_of_def)
  have nvf: "page_index v \<noteq> page_index f"
    using page_index_inj[OF okv okf] vf by auto
  let ?m1 = "memmove f v PGSIZE (mem ?k)"
  let ?k2 = "k1\<lparr>mem := ?m1\<rparr>"
  have m1: "?m1 x = (if in_page f x then mem ?k (v + (x - f)) else mem ?k x)" for x
    by (rule memmove_page[OF okf okv])
  have m1out: "\<not> in_page f x \<Longrightarrow> ?m1 x = mem ?k x" for x by (simp add: m1)
  have c2: "chain ?m1 (freelist k1) fs"
    by (rule chain_other_page[where m = "mem k1" and e = ?E and v = f and e' = ?E])
      (use k1 inv okf m1out in \<open>auto simp: pool_inv_def\<close>)
  have inv2: "pool_inv fs ?k2" using k1(2) c2 by (simp add: pool_inv_def)
  have q2: "kquiet c ?k2" using q k1(3) by (simp add: kquiet_def)
  have okv2: "page_ok (kend ?k2) v" using okv k1(5) by simp
  have r2: "rcount ?k2 (page_index v) = ?n" using k1(7) nvf by simp
  have pos: "0 < ?n" using d by blast
  let ?qs = "if ?n = 1 then v # fs else fs"
  have pf: "pool_free v (pool_of fs ?k2) = Some \<lparr>pfree = ?qs,
      pref = (rcount ?k)(page_index f := 1, page_index v := ?n - 1)\<rparr>"
    using pos r2 k1(7) by (auto simp: pool_free_def pool_of_def Let_def)
  have "ruse ?k2" using ru k1(6) by simp
  from kfree_pool[OF q2 inv2 this okv2] pf
  obtain k3 where k3: "kfree v ?k2 = Ok () k3"
      "rcount k3 = (rcount ?k)(page_index f := 1, page_index v := ?n - 1)" "pool_inv ?qs k3"
      "km k3 = km k1" "kend k3 = ?E" "\<And>x. in_page v x \<or> mem k3 x = ?m1 x"
    using k1(5) by (auto simp: pool_of_def)
  have same_more: "mem k3 = ?m1" if "?n \<noteq> 1"
  proof -
    have "\<And>i. 0 \<le> rcount ?k2 i" using inv2 by (simp add: pool_inv_def)
    from kfree_eq[OF q2 okv2 this] show ?thesis
      using k3(1) r2 pos that ru k1(6) by (auto split: if_splits)
  qed
  have e3: "load32 (mem k3) ?pte = e"
  proof -
    have "load32 (mem k3) ?pte = load32 ?m1 ?pte"
      by (rule load32_other_page[OF okt okv2 tv PTX_bound]) (use k3(6) in blast)
    also have "\<dots> = load32 (mem ?k) ?pte"
      by (rule load32_other_page[OF okt okf tne[symmetric] PTX_bound m1out])
    finally show ?thesis using d by (simp add: rd32_def vmem_def)
  qed
  let ?w = "V2P f OR PTE_P OR PTE_W OR PTE_U"
  let ?s3 = "s\<lparr>vk := k3\<lparr>mem := store32 ?pte ?w (mem k3)\<rparr>\<rparr>"
  have q3: "on_cpu c (km (vk ?s3))" using q k1(3) k3(4) by (simp add: kquiet_def)
  obtain s4 where s4: "switchuvm (Some p) ?s3 = Ok () s4" "vk s4 = vk ?s3" "cr3 s4 = V2P (p_pgdir p)"
    using switchuvm_eq[OF q3 p] by blast
  have e0: "load32 (mem ?k) ?pte = e" "pte_has e PTE_P" "pte_has e PTE_U"
      "pte_has e PTE_W \<or> pte_has e PTE_COW_W" "P2V (PTE_ADDR e) = v"
    using d by (auto simp: rd32_def vmem_def)
  have run: "handle_pgflt_helper p addr s = Ok 0 s4"
    using p k1(1,4) k3(1) walk e0 f0 ptnz e3 s4(1)
    by (auto simp: handle_pgflt_helper_def zoom_def rd32_def wr32_def vmem_def set_mem_def Let_def)
  have al: "aligned4 ?pte" by (rule slot_aligned[OF okt PTX_bound])
  have out: "\<not> span ?pte 4 x" if "in_page f x" for x
    using that slot_in_page[OF PTX_bound] pages_disjoint[OF okt okf] tne by blast
  have m4: "vmem s4 = store32 ?pte ?w (mem k3)" "mem (vk s4) = store32 ?pte ?w (mem k3)"
    using s4(2) by (simp_all add: vmem_def)
  have A: "rd32 ?pte s4 = ?w" by (simp add: rd32_def m4 load_store32[OF al al])
  have B: "vmem s4 x = vmem s (v + (x - f))" if "in_page f x" for x
  proof -
    have "\<not> in_page v x" using that pages_disjoint[OF okf okv] vf by auto
    then have "mem k3 x = ?m1 x" using k3(6) by blast
    then show ?thesis using that out[OF that] by (simp add: m4 store32_outside m1 vmem_def)
  qed
  have C: "frame_same f ?pte v (?n = 1) (vmem s) (vmem s4)"
    unfolding frame_same_def
  proof
    fix x
    have "mem k3 x = ?m1 x \<or> ?n = 1 \<and> in_page v x" using same_more k3(6) by metis
    then show "in_page f x \<or> span ?pte 4 x \<or> ?n = 1 \<and> in_page v x \<or> vmem s4 x = vmem s x"
      by (auto simp: m4 store32_outside m1 vmem_def)
  qed
  have tq: "tab \<notin> set ?qs" using tf tv by auto
  have D: "pool_inv ?qs (vk s4)"
  proof -
    have "chain (store32 ?pte ?w (mem k3)) (freelist k3) ?qs"
      by (rule chain_other_page[where m = "mem k3" and e = ?E and v = tab and e' = ?E])
        (use k3(3,5) okt tq slot_in_page[OF PTX_bound] in \<open>auto simp: pool_inv_def intro!: store32_outside\<close>)
    then show ?thesis using k3(3) s4(2) by (simp add: pool_inv_def)
  qed
  have "kquiet c (vk s4)" using q k1(3) k3(4) s4(2) by (simp add: kquiet_def)
  with run A B C D s4(2,3) k3(2) show ?thesis by (intro exI[of _ s4]) simp
qed

section \<open>Copy on write keeps processes apart\<close>

text \<open>
  \<open>mapped free d va t e v s\<close>: in the address space of the directory \<open>d\<close>, the user address \<open>va\<close>
  lies in the page \<open>v\<close>, through the entry \<open>e\<close> of the table \<open>t\<close>, and none of the three pages is
  in the list \<open>free\<close>.
\<close>

definition mapped :: "uint list \<Rightarrow> uint \<Rightarrow> uint \<Rightarrow> uint \<Rightarrow> uint \<Rightarrow> uint \<Rightarrow> vst \<Rightarrow> bool" where
  "mapped free d va t e v s \<longleftrightarrow>
     (let pde = rd32 (d + 4 * PDX va) s in
      pte_has pde PTE_P \<and> pte_has pde PTE_U \<and> pte_has pde PTE_W \<and> t = P2V (PTE_ADDR pde)) \<and>
     e = rd32 (t + 4 * PTX va) s \<and> pte_has e PTE_P \<and> pte_has e PTE_U \<and> v = P2V (PTE_ADDR e) \<and>
     list_all (page_ok (kend (vk s))) [d, t, v] \<and> set [d, t, v] \<inter> set free = {} \<and> distinct [d, t, v]"

lemma page_off_in_page: "in_page v (v + page_off va)"
proof -
  have "unat (va AND 0xFFF) < 4096"
    by (rule le_less_trans[of _ "unat (0xFFF :: uint)"])
      (simp_all only: word_le_nat_alt[symmetric] word_and_le1, simp)
  then show ?thesis by (simp add: in_page_def span_def page_off_def)
qed

lemma user_load_mapped:
  "mapped free d va t e v s \<Longrightarrow> user_load (vmem s) d va = Some (vmem s (v + page_off va))"
  by (auto simp: mapped_def user_load_def walk_hw_def rd32_def Let_def)

text \<open>A change confined to a page \<open>f\<close> and a table \<open>tab\<close> that the walk does not use is not seen.\<close>

lemma user_load_frame:
  assumes m: "mapped free d va t e v s" and f: "page_ok e1 f" "f \<notin> set [d, t, v]"
    and tab: "page_ok e2 tab" "tab \<notin> set [d, t, v]"
    and same: "\<And>x. \<not> in_page f x \<Longrightarrow> \<not> in_page tab x \<Longrightarrow> m' x = vmem s x"
  shows "user_load m' d va = user_load (vmem s) d va"
proof -
  let ?E = "kend (vk s)"
  have ok: "page_ok ?E d" "page_ok ?E t" "page_ok ?E v" using m by (auto simp: mapped_def)
  have other: "m' x = vmem s x" if "in_page q x" "page_ok ?E q" "q \<in> set [d, t, v]" for q x
    using same[of x] that f tab pages_disjoint[OF that(2) f(1) that(1)]
      pages_disjoint[OF that(2) tab(1) that(1)] by metis
  have ld: "load32 m' (q + 4 * i) = rd32 (q + 4 * i) s"
    if "q \<in> set [d, t, v]" "page_ok ?E q" "unat i < 1024" for q i
    unfolding rd32_def
    by (rule load32_cong) (use that slot_in_page[OF that(3)] other in blast)
  have "m' (v + page_off va) = vmem s (v + page_off va)"
    using other[OF page_off_in_page ok(3)] by simp
  moreover have "load32 m' (d + 4 * PDX va) = rd32 (d + 4 * PDX va) s"
    "load32 m' (t + 4 * PTX va) = rd32 (t + 4 * PTX va) s"
    using ld[of d "PDX va"] ld[of t "PTX va"] ok PDX_bound PTX_bound by simp_all
  ultimately have "user_load m' d va = Some (vmem s (v + page_off va))"
    using m by (auto simp: mapped_def user_load_def walk_hw_def Let_def)
  then show ?thesis by (simp add: user_load_mapped[OF m])
qed

lemma cow_fault_isolation:
  assumes q: "kquiet c (vk s)" and inv: "pool_inv (f # fs) (vk s)" and ru: "ruse (vk s)"
    and A: "mapped (f # fs) (p_pgdir p) addr tab e v s" and cow: "pte_has e PTE_COW_W"
    and shared: "2 \<le> rcount (vk s) (page_index v)" and p: "kstack p \<noteq> 0"
    and B: "mapped (f # fs) d va tab2 e2 v2 s" and sep: "tab \<notin> set [d, tab2, v2]"
  shows "\<exists>s' m'. handle_pgflt_helper p addr s = Ok 0 s' \<and>
    user_load (vmem s') (p_pgdir p) addr = user_load (vmem s) (p_pgdir p) addr \<and>
    user_store (vmem s') (p_pgdir p) addr b = Some m' \<and>
    user_load m' (p_pgdir p) addr = Some b \<and>
    user_load m' d va = user_load (vmem s) d va"
proof -
  let ?E = "kend (vk s)" and ?d = "p_pgdir p" and ?pte = "tab + 4 * PTX addr"
  let ?w = "V2P f OR PTE_P OR PTE_W OR PTE_U"
  have okA: "page_ok ?E ?d" "page_ok ?E tab" "page_ok ?E v" "distinct [?d, tab, v]"
    and outA: "set [?d, tab, v] \<inter> set (f # fs) = {}"
    and pdA: "tab = P2V (PTE_ADDR (rd32 (?d + 4 * PDX addr) s))"
      "pte_has (rd32 (?d + 4 * PDX addr) s) PTE_P" "pte_has (rd32 (?d + 4 * PDX addr) s) PTE_U"
      "pte_has (rd32 (?d + 4 * PDX addr) s) PTE_W"
    using A by (auto simp: mapped_def Let_def)
  have okf: "page_ok ?E f" using inv by (auto simp: pool_inv_def)
  have "cow_page ?d addr tab e v s"
    using A cow shared by (auto simp: cow_page_def mapped_def Let_def)
  from handle_pgflt_copies[OF q inv ru this _ p page_nonzero[OF okA(1)]] outA shared
  obtain s' where s': "handle_pgflt_helper p addr s = Ok 0 s'" "rd32 ?pte s' = ?w"
      "\<And>x. in_page f x \<Longrightarrow> vmem s' x = vmem s (v + (x - f))"
      "frame_same f ?pte v False (vmem s) (vmem s')"
    by auto
  have sameT: "vmem s' x = vmem s x" if "\<not> in_page f x" "\<not> in_page tab x" for x
    using s'(4) that slot_in_page[OF PTX_bound] by (auto simp: frame_same_def)
  have pde: "load32 M (?d + 4 * PDX addr) = rd32 (?d + 4 * PDX addr) s"
    if "\<And>x. \<not> in_page f x \<Longrightarrow> M x = vmem s' x" for M
    unfolding rd32_def
  proof (rule load32_cong)
    fix x assume "span (?d + 4 * PDX addr) 4 x"
    then have x: "in_page ?d x" by (rule slot_in_page[OF PDX_bound])
    have "\<not> in_page f x" "\<not> in_page tab x"
      using pages_disjoint[OF okA(1) okf x] pages_disjoint[OF okA(1,2) x] okA(4) outA by auto
    then show "M x = vmem s x" using that sameT by simp
  qed
  have pte: "load32 M ?pte = ?w" if M: "\<And>x. \<not> in_page f x \<Longrightarrow> M x = vmem s' x" for M
    using load32_other_page[OF okA(2) okf _ PTX_bound M] s'(2) outA by (auto simp: rd32_def)
  have w: "P2V (PTE_ADDR ?w) = f" "pte_has ?w PTE_P" "pte_has ?w PTE_U" "pte_has ?w PTE_W"
  proof -
    show "P2V (PTE_ADDR ?w) = f"
      using pte_addr_page[OF okf, of "PTE_P OR PTE_W OR PTE_U"] by (simp add: pte_consts ac_simps)
    show "pte_has ?w PTE_P" "pte_has ?w PTE_U" "pte_has ?w PTE_W"
      by (simp_all add: pte_has_def pte_consts bit.conj_disj_distrib2)
  qed
  have walk: "walk_hw M ?d addr = Some ?w" if M: "\<And>x. \<not> in_page f x \<Longrightarrow> M x = vmem s' x" for M
    using pde[OF M] pte[OF M] pdA w by (simp add: walk_hw_def Let_def)
  let ?a = "f + page_off addr"
  let ?m = "(vmem s')(?a := b)"
  have m: "?m x = vmem s' x" if "\<not> in_page f x" for x
    using that page_off_in_page[of f addr] by auto
  have "user_load (vmem s') ?d addr = user_load (vmem s) ?d addr"
  proof -
    have "user_load (vmem s') ?d addr = Some (vmem s' ?a)"
      using walk[of "vmem s'"] w(1) by (simp add: user_load_def)
    then show ?thesis using s'(3)[OF page_off_in_page] by (simp add: user_load_mapped[OF A])
  qed
  moreover have "user_store (vmem s') ?d addr b = Some ?m"
    using walk[of "vmem s'"] w(1,4) pde[of "vmem s'"] pdA(4) by (simp add: user_store_def)
  moreover have "user_load ?m ?d addr = Some b"
  proof -
    have "walk_hw ?m ?d addr = Some ?w" by (rule walk[OF m])
    then show ?thesis using w(1) by (simp add: user_load_def del: fun_upd_apply) simp
  qed
  moreover have "user_load ?m d va = user_load (vmem s) d va"
    by (rule user_load_frame[OF B okf _ okA(2) sep]) (use B m sameT in \<open>auto simp: mapped_def\<close>)
  ultimately show ?thesis using s'(1) by blast
qed

text \<open>
  The state of the witnesses: two address spaces whose directories 0x80500000 and 0x80501000 map
  the address 0 through the tables 0x80502000 and 0x80503000 to the same page 0x80504000, copy on
  write, after a fork.
\<close>

definition forked_mem :: memory where
  "forked_mem = store32 0x80503000 0x504105 (store32 0x80502000 0x504105
     (store32 0x80501000 0x503007 (store32 0x80500000 0x502007
     (store32 0x80400000 0x80401000 (\<lambda>_. 0)))))"

definition forked_state :: vst where
  "forked_state = \<lparr>vk = boot_pool\<lparr>mem := forked_mem, rcount := (\<lambda>_. 0)(0x504 := 2)\<rparr>,
     kpgdir = 0, cr3 = 0x500000, kdata = 0x80108000, segs = [], ts_base = (\<lambda>_. 0)\<rparr>"

definition forked_proc :: proc where
  "forked_proc = \<lparr>p_sz = 4096, p_pgdir = 0x80500000, kstack = 0x80505000, pstate = RUNNING, pid = 3,
     parent = None, p_tf = zero_tf, p_context = \<lparr>c_edi = 0, c_esi = 0, c_ebx = 0, c_ebp = 0,
     c_eip = NoLabel\<rparr>, pchan = None, killed = False, ofile = [], cwd = None, pname = []\<rparr>"

lemma forked_ok: "list_all (page_ok 0x80200000) [0x80400000, 0x80401000, 0x80500000, 0x80501000,
    0x80502000, 0x80503000, 0x80504000]"
  by (simp add: page_ok_def addr_defs)

lemma forked_aligned: "list_all aligned4 [0x80400000, 0x80401000, 0x80500000, 0x80501000,
    0x80502000, 0x80503000, 0x80504000]"
  by (simp add: aligned4_def)

lemma forked_loads: "load32 forked_mem 0x80400000 = 0x80401000" "load32 forked_mem 0x80401000 = 0"
  "load32 forked_mem 0x80500000 = 0x502007" "load32 forked_mem 0x80501000 = 0x503007"
  "load32 forked_mem 0x80502000 = 0x504105" "load32 forked_mem 0x80503000 = 0x504105"
  using forked_aligned
  by (simp_all add: forked_mem_def load_store32) (simp add: load32_def of_le32_def)

lemma forked_quiet: "kquiet 0 (vk forked_state)"
  using boot_pool_quiet by (simp add: forked_state_def kquiet_def)

lemma forked_inv: "pool_inv [0x80400000, 0x80401000] (vk forked_state)"
proof -
  have i: "page_index 0x80400000 = 1024" "page_index 0x80401000 = 1025"
    by (simp_all add: page_index_def addr_defs)
  show ?thesis
    using boot_pool_page
    by (simp add: pool_inv_def forked_state_def forked_loads i) (simp add: boot_pool_def)
qed

lemma forked_ruse: "ruse (vk forked_state)" and forked_shared: "rcount (vk forked_state) 0x504 = 2"
  by (simp_all add: forked_state_def boot_pool_def)

lemma forked_mapped:
  "mapped [0x80400000, 0x80401000] 0x80500000 0 0x80502000 0x504105 0x80504000 forked_state"
  "mapped [0x80400000, 0x80401000] 0x80501000 0 0x80503000 0x504105 0x80504000 forked_state"
  using forked_ok
  by (simp_all add: mapped_def rd32_def vmem_def forked_state_def boot_pool_def PDX_def PTX_def
      forked_loads PTE_ADDR_def pte_has_def pte_consts P2V_def KERNBASE_def)

text \<open>C6: Copy on write keeps a process's private copy private.  When a process faults on a page
  it shares after a fork, the handler returns 0; the process then reads the same byte at the
  address as before, its store to the address succeeds and is read back, and every address of any
  other address space whose page tables are not the process's own reads the same byte after the
  store as before the fault.\<close>

theorem cow_fault_isolates_processes:
  assumes "kquiet c (vk s)" and "pool_inv (f # fs) (vk s)" and "ruse (vk s)"
    and "mapped (f # fs) (p_pgdir p) addr tab e v s" and "pte_has e PTE_COW_W"
    and "2 \<le> rcount (vk s) (page_index v)" and "kstack p \<noteq> 0"
    and "mapped (f # fs) d va tab2 e2 v2 s" and "tab \<notin> set [d, tab2, v2]"
  shows "\<exists>s' m'. handle_pgflt_helper p addr s = Ok 0 s' \<and>
    user_load (vmem s') (p_pgdir p) addr = user_load (vmem s) (p_pgdir p) addr \<and>
    user_store (vmem s') (p_pgdir p) addr b = Some m' \<and>
    user_load m' (p_pgdir p) addr = Some b \<and>
    user_load m' d va = user_load (vmem s) d va"
  by (rule cow_fault_isolation[OF assms])

theorem cow_fault_isolates_processes_witness:
  "\<exists>s' m'. handle_pgflt_helper forked_proc 0 forked_state = Ok 0 s' \<and>
    user_store (vmem s') 0x80500000 0 7 = Some m' \<and>
    user_load m' 0x80500000 0 = Some 7 \<and> user_load m' 0x80501000 0 = Some 0"
proof -
  have i: "page_index 0x80504000 = 0x504" by (simp add: page_index_def addr_defs)
  have z: "user_load (vmem forked_state) 0x80501000 0 = Some 0"
    using user_load_mapped[OF forked_mapped(2)]
    by (simp add: vmem_def forked_state_def forked_mem_def store32_def page_off_def)
  have d: "p_pgdir forked_proc = 0x80500000" "kstack forked_proc \<noteq> 0"
    by (simp_all add: forked_proc_def)
  have c: "pte_has 0x504105 PTE_COW_W" by (simp add: pte_has_def pte_consts)
  show ?thesis
    using cow_fault_isolates_processes[OF forked_quiet forked_inv forked_ruse, of forked_proc 0
        "0x80502000" "0x504105" "0x80504000" "0x80501000" 0 "0x80503000" "0x504105" "0x80504000" 7]
      forked_mapped z c forked_shared unfolding i d(1) by (auto simp: d(2))
qed

text \<open>C17: The page fault handler on a copy-on-write page replaces the entry by a present, writable
  user entry for the first free page, which holds a copy of the old page; the old page loses one
  reference and goes back to the free list exactly when it was the last one.  No other byte of
  memory changes, and the allocator's invariant is kept.\<close>

theorem handle_pgflt_private_copy:
  assumes "kquiet c (vk s)" and "pool_inv (f # fs) (vk s)" and "ruse (vk s)"
    and "cow_page (p_pgdir p) addr tab e v s"
    and "tab \<notin> set (f # fs)" and "kstack p \<noteq> 0" and "p_pgdir p \<noteq> 0"
  shows "\<exists>s'. handle_pgflt_helper p addr s = Ok 0 s' \<and>
    rd32 (tab + 4 * PTX addr) s' = V2P f OR PTE_P OR PTE_W OR PTE_U \<and>
    (\<forall>x. in_page f x \<longrightarrow> vmem s' x = vmem s (v + (x - f))) \<and>
    frame_same f (tab + 4 * PTX addr) v (rcount (vk s) (page_index v) = 1) (vmem s) (vmem s') \<and>
    rcount (vk s') = (rcount (vk s))(page_index f := 1,
      page_index v := rcount (vk s) (page_index v) - 1) \<and>
    pool_inv (if rcount (vk s) (page_index v) = 1 then v # fs else fs) (vk s') \<and>
    kquiet c (vk s') \<and> cr3 s' = V2P (p_pgdir p)"
  by (rule handle_pgflt_copies[OF assms])

theorem handle_pgflt_private_copy_witness:
  "\<exists>s'. handle_pgflt_helper forked_proc 0 forked_state = Ok 0 s' \<and>
    rd32 0x80502000 s' = 0x400007 \<and> rcount (vk s') 0x504 = 1 \<and> pool_inv [0x80401000] (vk s')"
proof -
  have i: "page_index 0x80504000 = 0x504" by (simp add: page_index_def addr_defs)
  note r = forked_shared and d = forked_proc_def
  have "cow_page 0x80500000 0 0x80502000 0x504105 0x80504000 forked_state"
    using forked_mapped(1) r by (simp add: cow_page_def mapped_def Let_def i pte_has_def pte_consts)
  then show ?thesis
    using handle_pgflt_private_copy[OF forked_quiet forked_inv, of forked_proc 0 "0x80502000"
        "0x504105" "0x80504000"] r forked_ruse
    unfolding i by (auto simp: d PTX_def pte_consts V2P_def KERNBASE_def)
qed

end
