(* ===== verification/Bytes.thy ===== *)
theory Bytes
  imports Prelude
begin

text \<open>
  Bytes of a disk block as a list: the C code casts \<open>b->data\<close> to a struct and reads or writes its
  fields.  \<open>get32 k bs\<close> and \<open>put32 k w bs\<close> are the 32-bit field at byte \<open>k\<close>, \<open>get16\<close> and
  \<open>put16\<close> the 16-bit one, and \<open>splice k xs bs\<close> is \<open>memmove(bs + k, xs, n)\<close>.
\<close>

definition BSIZE :: nat where "BSIZE = 512"

definition zero_block :: bytes where "zero_block = replicate BSIZE 0"

definition splice :: "nat \<Rightarrow> 'a list \<Rightarrow> 'a list \<Rightarrow> 'a list" where
  "splice k xs bs = take k bs @ xs @ drop (k + length xs) bs"

definition get32 :: "nat \<Rightarrow> bytes \<Rightarrow> uint" where
  "get32 k bs = of_le32 (bs ! k) (bs ! (k + 1)) (bs ! (k + 2)) (bs ! (k + 3))"

definition put32 :: "nat \<Rightarrow> uint \<Rightarrow> bytes \<Rightarrow> bytes" where
  "put32 k w bs = splice k (le32 w) bs"

definition get16 :: "nat \<Rightarrow> bytes \<Rightarrow> ushort" where
  "get16 k bs = of_le16 (bs ! k) (bs ! (k + 1))"

definition put16 :: "nat \<Rightarrow> ushort \<Rightarrow> bytes \<Rightarrow> bytes" where
  "put16 k w bs = splice k (le16 w) bs"

lemma length_splice [simp]:
  "k + length xs \<le> length bs \<Longrightarrow> length (splice k xs bs) = length bs"
  by (simp add: splice_def)

lemma nth_splice:
  assumes "k + length xs \<le> length bs" and "i < length bs"
  shows "splice k xs bs ! i =
    (if k \<le> i \<and> i < k + length xs then xs ! (i - k) else bs ! i)"
  using assms by (auto simp: splice_def nth_append min_def)

lemma take_drop_splice [simp]:
  "k + length xs \<le> length bs \<Longrightarrow> take (length xs) (drop k (splice k xs bs)) = xs"
  by (simp add: splice_def)

lemma splice_Nil [simp]: "splice k [] bs = bs"
  by (simp add: splice_def)

lemma splice_whole: "length xs = length bs \<Longrightarrow> splice 0 xs bs = xs"
  by (simp add: splice_def)

lemma splice_append:
  assumes "k + length xs + length ys \<le> length bs"
  shows "splice k (xs @ ys) bs = splice (k + length xs) ys (splice k xs bs)"
  using assms
  by (intro nth_equalityI) (auto simp: nth_splice nth_append)

lemma length_put32 [simp]: "k + 4 \<le> length bs \<Longrightarrow> length (put32 k w bs) = length bs"
  and length_put16 [simp]: "k + 2 \<le> length bs \<Longrightarrow> length (put16 k h bs) = length bs"
  by (simp_all add: put32_def put16_def)

lemma le32_nth: "le32 w ! 0 = byte 0 w" "le32 w ! Suc 0 = byte (Suc 0) w"
  "le32 w ! 2 = byte 2 w" "le32 w ! 3 = byte 3 w"
  by (simp_all add: le32_def)

lemma get32_put32 [simp]:
  assumes "k + 4 \<le> length bs"
  shows "get32 k (put32 k w bs) = w"
  using assms by (simp add: get32_def put32_def nth_splice le32_nth)

lemma get32_put32_other:
  assumes "j + 4 \<le> length bs" and "k + 4 \<le> length bs" and "k + 4 \<le> j \<or> j + 4 \<le> k"
  shows "get32 k (put32 j w bs) = get32 k bs"
  using assms by (auto simp: get32_def put32_def nth_splice)

lemma get16_put16 [simp]:
  assumes "k + 2 \<le> length bs"
  shows "get16 k (put16 k w bs) = w"
  using assms by (simp add: get16_def put16_def nth_splice le16_def)

lemma get16_put16_other:
  assumes "j + 2 \<le> length bs" and "k + 2 \<le> length bs" and "k + 2 \<le> j \<or> j + 2 \<le> k"
  shows "get16 k (put16 j w bs) = get16 k bs"
  using assms by (auto simp: get16_def put16_def nth_splice)

lemma length_zero_block [simp]: "length zero_block = BSIZE"
  by (simp add: zero_block_def)

end
