(* ===== verification/Bio.thy ===== *)
theory Bio
  imports Machine Bytes
begin

text \<open>
  The disk and the buffer cache: memide.c (the synchronous disk, an array of blocks), buf.h and
  bio.c.  The flags \<open>B_VALID\<close> and \<open>B_DIRTY\<close> of a buffer are two booleans, the doubly linked
  list through \<open>bcache.head\<close> is the list \<open>mru\<close> of buffer indices, most recently used first.
\<close>

section \<open>State\<close>

record buf =
  bvalid :: bool
  bdirty :: bool
  bdev :: uint
  bblockno :: uint
  brefcnt :: uint
  bdata :: bytes

text \<open>
  \<open>disk\<close> is the disk image; \<open>writes\<close> is a history variable, the block writes so far, oldest
  first, which no operation reads.
\<close>

record bst =
  bm :: mach
  bufs :: "buf list"
  mru :: "nat list"
  disk :: "bytes list"
  writes :: "(nat \<times> bytes) list"

definition NBUF :: nat where "NBUF = 30"

abbreviation on_bm :: "(mach \<Rightarrow> ('a, mach) res) \<Rightarrow> bst \<Rightarrow> ('a, bst) res" where
  "on_bm \<equiv> zoom bm bm_update"

definition set_buf :: "nat \<Rightarrow> (buf \<Rightarrow> buf) \<Rightarrow> bst \<Rightarrow> bst" where
  "set_buf i f s = s\<lparr>bufs := (bufs s)[i := f (bufs s ! i)]\<rparr>"

section \<open>memide.c\<close>

definition iderw :: "nat \<Rightarrow> bst \<Rightarrow> (unit, bst) res" where
  "iderw i s =
     call (on_bm (holdingsleep (BufLk i)) s) (\<lambda>h s.
     let b = bufs s ! i; n = unat (bblockno b) in
     if \<not> h then Panic ''iderw: buf not locked''
     else if bvalid b \<and> \<not> bdirty b then Panic ''iderw: nothing to do''
     else if bdev b \<noteq> 1 then Panic ''iderw: request not for disk 1''
     else if length (disk s) \<le> n then Panic ''iderw: block out of range''
     else if bdirty b
     then let s = set_buf i (\<lambda>b. b\<lparr>bdirty := False\<rparr>) s;
              s = s\<lparr>disk := (disk s)[n := bdata b], writes := writes s @ [(n, bdata b)]\<rparr> in
          Ok () (set_buf i (\<lambda>b. b\<lparr>bvalid := True\<rparr>) s)
     else Ok () (set_buf i (\<lambda>b. b\<lparr>bdata := disk s ! n, bvalid := True\<rparr>) s))"

section \<open>bio.c\<close>

definition binit :: "bst \<Rightarrow> (unit, bst) res" where
  "binit s =
     call (on_bm (initlock BcacheLock ''bcache'') s) (\<lambda>_ s.
     for_each (\<lambda>i s.
       call (on_bm (initsleeplock (BufLk i) ''buffer'') s) (\<lambda>_ s. Ok () (s\<lparr>mru := i # mru s\<rparr>)))
       [0..<NBUF] (s\<lparr>mru := []\<rparr>))"

definition bget :: "uint \<Rightarrow> uint \<Rightarrow> bst \<Rightarrow> (nat, bst) res" where
  "bget dev blockno s =
     call (on_bm (acquire BcacheLock) s) (\<lambda>_ s.
     case find (\<lambda>i. bdev (bufs s ! i) = dev \<and> bblockno (bufs s ! i) = blockno) (mru s) of
       Some i \<Rightarrow>
         let s = set_buf i (\<lambda>b. b\<lparr>brefcnt := brefcnt b + 1\<rparr>) s in
         call (on_bm (release BcacheLock) s) (\<lambda>_ s.
         call (on_bm (acquiresleep (BufLk i)) s) (\<lambda>_ s. Ok i s))
     | None \<Rightarrow>
         (case find (\<lambda>i. brefcnt (bufs s ! i) = 0 \<and> \<not> bdirty (bufs s ! i)) (rev (mru s)) of
            Some i \<Rightarrow>
              let s = set_buf i (\<lambda>b. b\<lparr>bdev := dev, bblockno := blockno, bvalid := False,
                        bdirty := False, brefcnt := 1\<rparr>) s in
              call (on_bm (release BcacheLock) s) (\<lambda>_ s.
              call (on_bm (acquiresleep (BufLk i)) s) (\<lambda>_ s. Ok i s))
          | None \<Rightarrow> Panic ''bget: no buffers''))"

definition bread :: "uint \<Rightarrow> uint \<Rightarrow> bst \<Rightarrow> (nat, bst) res" where
  "bread dev blockno s =
     call (bget dev blockno s) (\<lambda>i s.
     call (if bvalid (bufs s ! i) then Ok () s else iderw i s) (\<lambda>_ s. Ok i s))"

definition bwrite :: "nat \<Rightarrow> bst \<Rightarrow> (unit, bst) res" where
  "bwrite i s =
     call (on_bm (holdingsleep (BufLk i)) s) (\<lambda>h s.
     if \<not> h then Panic ''bwrite''
     else iderw i (set_buf i (\<lambda>b. b\<lparr>bdirty := True\<rparr>) s))"

definition brelse :: "nat \<Rightarrow> bst \<Rightarrow> (unit, bst) res" where
  "brelse i s =
     call (on_bm (holdingsleep (BufLk i)) s) (\<lambda>h s.
     if \<not> h then Panic ''brelse''
     else call (on_bm (releasesleep (BufLk i)) s) (\<lambda>_ s.
     call (on_bm (acquire BcacheLock) s) (\<lambda>_ s.
     let s = set_buf i (\<lambda>b. b\<lparr>brefcnt := brefcnt b - 1\<rparr>) s;
         s = (if brefcnt (bufs s ! i) = 0 then s\<lparr>mru := i # removeAll i (mru s)\<rparr> else s) in
     on_bm (release BcacheLock) s)))"

section \<open>The operations in closed form\<close>

lemma bm_acquire:
  "on_cpu c (bm s) \<Longrightarrow> all_free (bm s) \<Longrightarrow>
     on_bm (acquire l) s = Ok () (s\<lparr>bm := take_lock c l (bm s)\<rparr>)"
  by (simp add: zoom_Ok acquire_eq all_free_def lock_free_def)

lemma bm_release:
  "bm s = take_lock c l m \<Longrightarrow> on_cpu c m \<Longrightarrow> all_free m \<Longrightarrow>
     on_bm (release l) s = Ok () (s\<lparr>bm := m\<rparr>)"
  by (simp add: zoom_Ok release_take_lock all_free_def)

lemma bm_acquiresleep:
  "running c p (bm s) \<Longrightarrow> all_free (bm s) \<Longrightarrow> \<not> slocked (slocks (bm s) l) \<Longrightarrow>
     on_bm (acquiresleep l) s =
     Ok () (s\<lparr>bm := set_slock l (\<lambda>k. k\<lparr>slocked := True, slk_pid := pid (ptable (bm s) ! p)\<rparr>) (bm s)\<rparr>)"
  by (simp add: zoom_Ok acquiresleep_eq all_free_def)

lemma bm_same: "s\<lparr>bm := bm s\<rparr> = s"
  by (cases s) simp

lemma bm_holdingsleep:
  "running c p (bm s) \<Longrightarrow> all_free (bm s) \<Longrightarrow> slocked (slocks (bm s) l) \<Longrightarrow>
     slk_pid (slocks (bm s) l) = pid (ptable (bm s) ! p) \<Longrightarrow>
     on_bm (holdingsleep l) s = Ok True s"
  using bm_same[of s] by (simp add: zoom_Ok holdingsleep_eq all_free_def)

lemma bm_releasesleep:
  "on_cpu c (bm s) \<Longrightarrow> all_free (bm s) \<Longrightarrow>
     on_bm (releasesleep l) s = Ok () (s\<lparr>bm := wakeup1 (ChSleeplock l)
       (set_slock l (\<lambda>k. k\<lparr>slocked := False, slk_pid := 0\<rparr>) (bm s))\<rparr>)"
  by (simp add: zoom_Ok releasesleep_eq all_free_def)

lemma set_buf_fields [simp]:
  "bm (set_buf i f s) = bm s" "mru (set_buf i f s) = mru s" "disk (set_buf i f s) = disk s"
  "writes (set_buf i f s) = writes s" "length (bufs (set_buf i f s)) = length (bufs s)"
  "i < length (bufs s) \<Longrightarrow> bufs (set_buf i f s) ! j = (if j = i then f (bufs s ! i) else bufs s ! j)"
  by (simp_all add: set_buf_def)

definition grab :: "nat \<Rightarrow> int \<Rightarrow> bst \<Rightarrow> bst" where
  "grab i k s = s\<lparr>bm := set_slock (BufLk i) (\<lambda>l. l\<lparr>slocked := True, slk_pid := k\<rparr>) (bm s)\<rparr>"

lemma grab_fields [simp]:
  "bufs (grab i k s) = bufs s" "mru (grab i k s) = mru s" "disk (grab i k s) = disk s"
  "writes (grab i k s) = writes s" "ptable (bm (grab i k s)) = ptable (bm s)"
  "slocked (slocks (bm (grab i k s)) l) = (l = BufLk i \<or> slocked (slocks (bm s) l))"
  "slk_pid (slocks (bm (grab i k s)) l) = (if l = BufLk i then k else slk_pid (slocks (bm s) l))"
  by (simp_all add: grab_def set_slock_def)

lemma bget_hit:
  assumes r: "running c p (bm s)" and f: "all_free (bm s)"
    and h: "find (\<lambda>i. bdev (bufs s ! i) = dev \<and> bblockno (bufs s ! i) = blk) (mru s) = Some i"
    and u: "\<not> slocked (slocks (bm s) (BufLk i))"
  shows "bget dev blk s = Ok i (grab i (pid (ptable (bm s) ! p))
    (set_buf i (\<lambda>b. b\<lparr>brefcnt := brefcnt b + 1\<rparr>) s))"
proof -
  have c: "on_cpu c (bm s)" using r by (simp add: running_def)
  let ?m = "bm s" and ?s = "s\<lparr>bm := take_lock c BcacheLock (bm s)\<rparr>"
  have rel: "on_bm (release BcacheLock) (set_buf i g ?s) = Ok () (set_buf i g s)" for g
    using bm_release[of "set_buf i g ?s", OF _ c f]
    by (simp add: set_buf_def bm_same)
  show ?thesis
    using bm_acquire[OF c f] h rel
      bm_acquiresleep[of c p "set_buf i (\<lambda>b. b\<lparr>brefcnt := brefcnt b + 1\<rparr>) s" "BufLk i"] r f u
    by (simp add: bget_def grab_def)
qed

lemma bget_miss:
  assumes r: "running c p (bm s)" and f: "all_free (bm s)"
    and h: "find (\<lambda>i. bdev (bufs s ! i) = dev \<and> bblockno (bufs s ! i) = blk) (mru s) = None"
    and e: "find (\<lambda>i. brefcnt (bufs s ! i) = 0 \<and> \<not> bdirty (bufs s ! i)) (rev (mru s)) = Some i"
    and u: "\<not> slocked (slocks (bm s) (BufLk i))"
  shows "bget dev blk s = Ok i (grab i (pid (ptable (bm s) ! p))
    (set_buf i (\<lambda>b. b\<lparr>bdev := dev, bblockno := blk, bvalid := False, bdirty := False, brefcnt := 1\<rparr>) s))"
proof -
  have c: "on_cpu c (bm s)" using r by (simp add: running_def)
  let ?s = "s\<lparr>bm := take_lock c BcacheLock (bm s)\<rparr>"
  have rel: "on_bm (release BcacheLock) (set_buf i g ?s) = Ok () (set_buf i g s)" for g
    using bm_release[of "set_buf i g ?s", OF _ c f]
    by (simp add: set_buf_def bm_same)
  show ?thesis
    using bm_acquire[OF c f] h e rel
      bm_acquiresleep[of c p "set_buf i (\<lambda>b. b\<lparr>bdev := dev, bblockno := blk, bvalid := False,
        bdirty := False, brefcnt := 1\<rparr>) s" "BufLk i"] r f u
    by (simp add: bget_def grab_def)
qed

text \<open>Process \<open>p\<close> on CPU \<open>c\<close> uses the cache alone and holds the buffers \<open>H\<close>.\<close>

definition bready :: "nat \<Rightarrow> nat \<Rightarrow> nat set \<Rightarrow> bst \<Rightarrow> bool" where
  "bready c p H s \<longleftrightarrow> running c p (bm s) \<and> all_free (bm s) \<and>
     (\<forall>i. slocked (slocks (bm s) (BufLk i)) \<longleftrightarrow> i \<in> H) \<and>
     (\<forall>i\<in>H. slk_pid (slocks (bm s) (BufLk i)) = pid (ptable (bm s) ! p)) \<and>
     (\<forall>i<NBUF. brefcnt (bufs s ! i) = (if i \<in> H then 1 else 0))"

text \<open>
  The cache's invariant: the list holds every buffer once, no disk block has two buffers, and a
  buffer that is valid and not dirty holds what is on disk.
\<close>

definition binv :: "bst \<Rightarrow> bool" where
  "binv s \<longleftrightarrow> length (bufs s) = NBUF \<and> distinct (mru s) \<and> set (mru s) = {..<NBUF} \<and>
     length (disk s) \<le> 2 ^ 32 \<and> list_all (\<lambda>d. length d = BSIZE) (disk s) \<and>
     (\<forall>i<NBUF. length (bdata (bufs s ! i)) = BSIZE) \<and>
     (\<forall>i<NBUF. bdirty (bufs s ! i) \<longrightarrow> bvalid (bufs s ! i)) \<and>
     (\<forall>i<NBUF. bvalid (bufs s ! i) \<longrightarrow> bdev (bufs s ! i) = 1 \<and>
        unat (bblockno (bufs s ! i)) < length (disk s)) \<and>
     (\<forall>i<NBUF. bvalid (bufs s ! i) \<and> \<not> bdirty (bufs s ! i) \<longrightarrow>
        bdata (bufs s ! i) = disk s ! unat (bblockno (bufs s ! i))) \<and>
     (\<forall>i<NBUF. \<forall>j<NBUF. bdev (bufs s ! i) = 1 \<and> bdev (bufs s ! j) = 1 \<and>
        bblockno (bufs s ! i) = bblockno (bufs s ! j) \<longrightarrow> i = j)"

text \<open>What the cache promises: the contents of block \<open>n\<close> as its clients see them.\<close>

definition bufs_of :: "bst \<Rightarrow> nat \<Rightarrow> nat option" where
  "bufs_of s n = find (\<lambda>i. bvalid (bufs s ! i) \<and> unat (bblockno (bufs s ! i)) = n) [0..<NBUF]"

definition bview :: "bst \<Rightarrow> nat \<Rightarrow> bytes" where
  "bview s n = (case bufs_of s n of Some i \<Rightarrow> bdata (bufs s ! i) | None \<Rightarrow> disk s ! n)"

definition dirty_block :: "bst \<Rightarrow> nat \<Rightarrow> bool" where
  "dirty_block s n \<longleftrightarrow> (\<exists>i<NBUF. bdirty (bufs s ! i) \<and> unat (bblockno (bufs s ! i)) = n)"

lemma bufs_of_Some:
  assumes "binv s" and "i < NBUF" and "bvalid (bufs s ! i)" and "unat (bblockno (bufs s ! i)) = n"
  shows "bufs_of s n = Some i"
proof -
  have "bufs_of s n \<noteq> None" using assms(2-4) by (auto simp: bufs_of_def find_None_iff)
  then obtain j where j: "bufs_of s n = Some j" by auto
  then have "j < NBUF" "bvalid (bufs s ! j)" "unat (bblockno (bufs s ! j)) = n"
    by (auto simp: bufs_of_def find_Some_iff)
  moreover from this have "bblockno (bufs s ! i) = bblockno (bufs s ! j)"
    using assms(4) by (simp add: word_unat_eq_iff)
  ultimately have "i = j" using assms by (auto simp: binv_def)
  then show ?thesis using j by simp
qed

lemma bview_cached:
  "binv s \<Longrightarrow> i < NBUF \<Longrightarrow> bvalid (bufs s ! i) \<Longrightarrow> unat (bblockno (bufs s ! i)) = n \<Longrightarrow>
     bview s n = bdata (bufs s ! i)"
  by (simp add: bview_def bufs_of_Some)

lemma bview_clean:
  assumes b: "binv s" and d: "\<not> dirty_block s n"
  shows "bview s n = disk s ! n"
proof (cases "bufs_of s n")
  case (Some i)
  then have "i < NBUF" "bvalid (bufs s ! i)" "unat (bblockno (bufs s ! i)) = n"
    by (auto simp: bufs_of_def find_Some_iff)
  then show ?thesis using Some b d by (auto simp: bview_def binv_def dirty_block_def)
qed (simp add: bview_def)

text \<open>The block's contents do not depend on which buffer holds it, nor on clean buffers.\<close>

lemma bview_eqI:
  assumes "binv s" and "binv s'" and "disk s' ! n = disk s ! n"
    and "dirty_block s' n \<longleftrightarrow> dirty_block s n"
    and "\<And>i. i < NBUF \<Longrightarrow> bdirty (bufs s ! i) \<Longrightarrow> unat (bblockno (bufs s ! i)) = n \<Longrightarrow>
      bvalid (bufs s' ! i) \<and> bblockno (bufs s' ! i) = bblockno (bufs s ! i) \<and>
      bdata (bufs s' ! i) = bdata (bufs s ! i)"
  shows "bview s' n = bview s n"
proof (cases "dirty_block s n")
  case True
  then obtain i where i: "i < NBUF" "bdirty (bufs s ! i)" "unat (bblockno (bufs s ! i)) = n"
    by (auto simp: dirty_block_def)
  moreover from i have "bvalid (bufs s ! i)" using assms(1) by (simp add: binv_def)
  ultimately show ?thesis
    using assms(5)[OF i] bview_cached[OF assms(1), of i n] bview_cached[OF assms(2), of i n] by simp
next
  case False
  then show ?thesis using assms(3,4) bview_clean[OF assms(1)] bview_clean[OF assms(2)] by simp
qed

definition same_blocks :: "bst \<Rightarrow> bst \<Rightarrow> bool" where
  "same_blocks s s' \<longleftrightarrow> disk s' = disk s \<and> writes s' = writes s \<and>
     (\<forall>n. bview s' n = bview s n) \<and> (\<forall>n. dirty_block s' n = dirty_block s n) \<and>
     woken (bm s) (bm s') \<and> (\<forall>j. slocks (bm s') (InodeLk j) = slocks (bm s) (InodeLk j))"

lemma same_blocks_refl [simp]: "same_blocks s s"
  by (simp add: same_blocks_def)

lemma same_blocks_trans: "same_blocks s t \<Longrightarrow> same_blocks t u \<Longrightarrow> same_blocks s u"
  by (auto simp: same_blocks_def intro: woken_trans)

lemma binvD:
  assumes "binv s" and "i < NBUF"
  shows "i < length (bufs s)" "length (bdata (bufs s ! i)) = BSIZE"
    "bdirty (bufs s ! i) \<Longrightarrow> bvalid (bufs s ! i)"
    "bvalid (bufs s ! i) \<Longrightarrow> bdev (bufs s ! i) = 1"
    "bvalid (bufs s ! i) \<Longrightarrow> unat (bblockno (bufs s ! i)) < length (disk s)"
    "bvalid (bufs s ! i) \<Longrightarrow> \<not> bdirty (bufs s ! i) \<Longrightarrow>
       bdata (bufs s ! i) = disk s ! unat (bblockno (bufs s ! i))"
  using assms by (simp_all add: binv_def)

lemma bview_length: "binv s \<Longrightarrow> n < length (disk s) \<Longrightarrow> length (bview s n) = BSIZE"
  by (auto simp: bview_def bufs_of_def binv_def list_all_length find_Some_iff split: option.splits)

lemma put_buf_binv:
  assumes b: "binv s" and i: "i < NBUF" and v: "bvalid B" "bdev B = 1" "unat (bblockno B) = n"
    and n: "n < length (disk s)" and d: "bdata B = bview s n" "bdirty B = dirty_block s n"
    and uniq: "\<And>j. j < NBUF \<Longrightarrow> j \<noteq> i \<Longrightarrow> bdev (bufs s ! j) = 1 \<Longrightarrow> unat (bblockno (bufs s ! j)) \<noteq> n"
  shows "binv (set_buf i (\<lambda>_. B) s)"
proof -
  have il: "i < length (bufs s)" using b i by (simp add: binv_def)
  have len: "length (bdata B) = BSIZE" using d n bview_length[OF b] by simp
  have clean: "\<not> bdirty B \<Longrightarrow> bdata B = disk s ! unat (bblockno B)"
    using d v bview_clean[OF b] by simp
  have uq: "bblockno (bufs s ! j) \<noteq> bblockno B" if "j < NBUF" "j \<noteq> i" "bdev (bufs s ! j) = 1" for j
    using uniq[OF that] v by auto
  show ?thesis
    using b il len clean uq v n by (auto simp: binv_def eq_commute[of "bblockno B"])
qed

lemma grab_binv [simp]: "binv (grab i k s) = binv s"
  by (simp add: binv_def)

lemma bview_same_bufs: "bufs s' = bufs s \<Longrightarrow> disk s' = disk s \<Longrightarrow> bview s' n = bview s n"
  by (simp add: bview_def bufs_of_def split: option.splits)

lemma dirty_same_bufs: "bufs s' = bufs s \<Longrightarrow> dirty_block s' n = dirty_block s n"
  by (simp add: dirty_block_def)

lemma put_buf_same:
  assumes b: "binv s" and i: "i < NBUF" and v: "bvalid B" "bdev B = 1" "unat (bblockno B) = n"
    and n: "n < length (disk s)" and d: "bdata B = bview s n" "bdirty B = dirty_block s n"
    and uniq: "\<And>j. j < NBUF \<Longrightarrow> j \<noteq> i \<Longrightarrow> bdev (bufs s ! j) = 1 \<Longrightarrow> unat (bblockno (bufs s ! j)) \<noteq> n"
    and old: "bdirty (bufs s ! i) \<Longrightarrow> unat (bblockno (bufs s ! i)) = n"
  shows "same_blocks s (grab i k (set_buf i (\<lambda>_. B) s))"
proof -
  let ?t = "set_buf i (\<lambda>_. B) s"
  have il: "i < length (bufs s)" using b i by (simp add: binv_def)
  have bt: "binv ?t" by (rule put_buf_binv[OF b i v n d uniq])
  have dev: "bdirty (bufs s ! j) \<Longrightarrow> j < NBUF \<Longrightarrow> bdev (bufs s ! j) = 1" for j
    using binvD(3,4)[OF b, of j] by simp
  have dirty: "dirty_block ?t m = dirty_block s m" for m
  proof
    assume "dirty_block ?t m"
    then obtain j where j: "j < NBUF" "bdirty (bufs ?t ! j)" "unat (bblockno (bufs ?t ! j)) = m"
      by (auto simp: dirty_block_def)
    then show "dirty_block s m"
      using il d(2) v(3) by (cases "j = i") (auto simp: dirty_block_def)
  next
    assume "dirty_block s m"
    then obtain j where j: "j < NBUF" "bdirty (bufs s ! j)" "unat (bblockno (bufs s ! j)) = m"
      by (auto simp: dirty_block_def)
    show "dirty_block ?t m"
    proof (cases "j = i")
      case True
      then have "m = n" using old j by simp
      then have "dirty_block s n" using j by (auto simp: dirty_block_def)
      then show ?thesis using il i v d(2) \<open>m = n\<close> by (auto simp: dirty_block_def intro!: exI[of _ i])
    next
      case False
      then show ?thesis using il j by (auto simp: dirty_block_def)
    qed
  qed
  have view: "bview ?t m = bview s m" for m
  proof (rule bview_eqI[OF b bt _ dirty])
    fix j assume j: "j < NBUF" "bdirty (bufs s ! j)" "unat (bblockno (bufs s ! j)) = m"
    show "bvalid (bufs ?t ! j) \<and> bblockno (bufs ?t ! j) = bblockno (bufs s ! j) \<and>
        bdata (bufs ?t ! j) = bdata (bufs s ! j)"
    proof (cases "j = i")
      case True
      then have "m = n" using old j by simp
      moreover have "bview s n = bdata (bufs s ! j)"
        using bview_cached[OF b j(1) _ j(3)] binvD(3)[OF b j(1)] j(2) \<open>m = n\<close> by simp
      moreover have "bblockno B = bblockno (bufs s ! j)"
        using v(3) j(3) \<open>m = n\<close> by (simp add: word_unat_eq_iff)
      ultimately show ?thesis using True il v d by simp
    next
      case False
      then show ?thesis using il j binvD(3)[OF b j(1)] by simp
    qed
  qed simp
  have g: "bufs (grab i k ?t) = bufs ?t" "disk (grab i k ?t) = disk ?t" by simp_all
  have "bview (grab i k ?t) m = bview s m" "dirty_block (grab i k ?t) m = dirty_block s m" for m
    using view[of m] dirty[of m] bview_same_bufs[OF g] dirty_same_bufs[OF g(1)] by simp_all
  moreover have "woken (bm s) (bm (grab i k ?t))" by (simp add: grab_def woken_set_slock)
  moreover have "slocks (bm (grab i k ?t)) (InodeLk j) = slocks (bm s) (InodeLk j)" for j
    by (simp add: grab_def set_slock_def)
  ultimately show ?thesis unfolding same_blocks_def by simp
qed

lemma put_buf_bready:
  assumes b: "binv s" and r: "bready c p H s" and i: "i < NBUF" and B: "brefcnt B = 1"
  shows "bready c p (insert i H) (grab i (pid (ptable (bm s) ! p)) (set_buf i (\<lambda>_. B) s))"
proof -
  have "running c p (bm (grab i k t)) = running c p (bm t)"
    "all_free (bm (grab i k t)) = all_free (bm t)" for k t
    by (simp_all add: grab_def all_free_def lock_free_def set_slock_def)
  then show ?thesis
    using r i B binvD(1)[OF b i] by (auto simp: bready_def)
qed

lemma iderw_read:
  assumes r: "running c p (bm s)" and f: "all_free (bm s)"
    and h: "slocked (slocks (bm s) (BufLk i))" "slk_pid (slocks (bm s) (BufLk i)) = pid (ptable (bm s) ! p)"
    and b: "\<not> bvalid (bufs s ! i)" "\<not> bdirty (bufs s ! i)" "bdev (bufs s ! i) = 1"
    and n: "unat (bblockno (bufs s ! i)) < length (disk s)"
  shows "iderw i s = Ok () (set_buf i (\<lambda>b. b\<lparr>bdata := disk s ! unat (bblockno (bufs s ! i)),
    bvalid := True\<rparr>) s)"
  using bm_holdingsleep[OF r f h] b n by (simp add: iderw_def Let_def)

lemma iderw_write:
  assumes r: "running c p (bm s)" and f: "all_free (bm s)"
    and h: "slocked (slocks (bm s) (BufLk i))" "slk_pid (slocks (bm s) (BufLk i)) = pid (ptable (bm s) ! p)"
    and b: "bdirty (bufs s ! i)" "bdev (bufs s ! i) = 1" and i: "i < length (bufs s)"
    and n: "unat (bblockno (bufs s ! i)) < length (disk s)"
  shows "iderw i s = Ok () (set_buf i (\<lambda>b. b\<lparr>bdirty := False, bvalid := True\<rparr>)
    (s\<lparr>disk := (disk s)[unat (bblockno (bufs s ! i)) := bdata (bufs s ! i)],
       writes := writes s @ [(unat (bblockno (bufs s ! i)), bdata (bufs s ! i))]\<rparr>))"
  using bm_holdingsleep[OF r f h] b n i by (simp add: iderw_def Let_def set_buf_def)

lemma set_buf_grab: "set_buf i f (grab i k s) = grab i k (set_buf i f s)"
  by (simp add: set_buf_def grab_def)

lemma set_buf_set_buf:
  "i < length (bufs s) \<Longrightarrow> set_buf i f (set_buf i g s) = set_buf i (\<lambda>b. f (g b)) s"
  by (simp add: set_buf_def)

lemma set_buf_const: "set_buf i f s = set_buf i (\<lambda>_. f (bufs s ! i)) s"
  by (simp add: set_buf_def)

text \<open>What \<open>bread\<close> returns, for a block whose buffer is not held yet.\<close>

definition got_block :: "nat \<Rightarrow> nat \<Rightarrow> nat set \<Rightarrow> bst \<Rightarrow> nat \<Rightarrow> nat \<Rightarrow> bst \<Rightarrow> bool" where
  "got_block c p H s n i s' \<longleftrightarrow> i < NBUF \<and> i \<notin> H \<and> binv s' \<and> bready c p (insert i H) s' \<and>
     same_blocks s s' \<and> bvalid (bufs s' ! i) \<and> bdev (bufs s' ! i) = 1 \<and>
     unat (bblockno (bufs s' ! i)) = n \<and> bdata (bufs s' ! i) = bview s n \<and>
     bdirty (bufs s' ! i) = dirty_block s n \<and> (\<forall>j. j \<noteq> i \<longrightarrow> bufs s' ! j = bufs s ! j)"

lemma put_buf_got:
  assumes b: "binv s" and r: "bready c p H s" and i: "i < NBUF" "i \<notin> H"
    and v: "bvalid B" "bdev B = 1" "unat (bblockno B) = n" "brefcnt B = 1"
    and n: "n < length (disk s)" and d: "bdata B = bview s n" "bdirty B = dirty_block s n"
    and uniq: "\<And>j. j < NBUF \<Longrightarrow> j \<noteq> i \<Longrightarrow> bdev (bufs s ! j) = 1 \<Longrightarrow> unat (bblockno (bufs s ! j)) \<noteq> n"
    and old: "bdirty (bufs s ! i) \<Longrightarrow> unat (bblockno (bufs s ! i)) = n"
  shows "got_block c p H s n i (grab i (pid (ptable (bm s) ! p)) (set_buf i (\<lambda>_. B) s))"
proof -
  have "binv (set_buf i (\<lambda>_. B) s)" by (rule put_buf_binv[OF b i(1) v(1-3) n d uniq])
  moreover have "same_blocks s (grab i (pid (ptable (bm s) ! p)) (set_buf i (\<lambda>_. B) s))"
    by (rule put_buf_same[OF b i(1) v(1-3) n d uniq old])
  ultimately show ?thesis
    using put_buf_bready[OF b r i(1) v(4)] i v d binvD(1)[OF b i(1)] by (simp add: got_block_def)
qed

lemma dirty_unique:
  assumes b: "binv s" and i: "i < NBUF" "bdev (bufs s ! i) = 1" "unat (bblockno (bufs s ! i)) = n"
  shows "dirty_block s n = bdirty (bufs s ! i)"
proof
  assume "dirty_block s n"
  then obtain j where j: "j < NBUF" "bdirty (bufs s ! j)" "unat (bblockno (bufs s ! j)) = n"
    by (auto simp: dirty_block_def)
  then have "bdev (bufs s ! j) = 1" using binvD(3,4)[OF b] by simp
  moreover have "bblockno (bufs s ! j) = bblockno (bufs s ! i)"
    using i j by (simp add: word_unat_eq_iff)
  ultimately have "j = i" using b i j by (auto simp: binv_def)
  then show "bdirty (bufs s ! i)" using j by simp
qed (use i in \<open>auto simp: dirty_block_def\<close>)

lemma buf_other_block:
  assumes b: "binv s" and i: "i < NBUF" "bdev (bufs s ! i) = 1" "unat (bblockno (bufs s ! i)) = n"
    and j: "j < NBUF" "j \<noteq> i" "bdev (bufs s ! j) = 1"
  shows "unat (bblockno (bufs s ! j)) \<noteq> n"
  using assms by (auto simp: binv_def word_unat_eq_iff)

lemma bread_spec:
  assumes b: "binv s" and r: "bready c p H s" and n: "n < length (disk s)"
    and nh: "\<And>i. i \<in> H \<Longrightarrow> unat (bblockno (bufs s ! i)) \<noteq> n"
    and room: "dirty_block s n \<or> (\<exists>i<NBUF. i \<notin> H \<and> \<not> bdirty (bufs s ! i))"
  shows "\<exists>i s'. bread 1 (of_nat n) s = Ok i s' \<and> got_block c p H s n i s'"
proof -
  have run: "running c p (bm s)" and af: "all_free (bm s)" using r by (simp_all add: bready_def)
  have n32: "n < 2 ^ 32" using b n by (simp add: binv_def)
  then have un: "unat (of_nat n :: uint) = n" by (rule unat_of_nat32)
  have ref: "brefcnt (bufs s ! j) = (if j \<in> H then 1 else 0)" if "j < NBUF" for j
    using r that by (simp add: bready_def)
  have mru: "j \<in> set (mru s) \<longleftrightarrow> j < NBUF" for j using b by (simp add: binv_def)
  let ?k = "pid (ptable (bm s) ! p)"
  have io: "iderw i (grab i ?k (set_buf i (\<lambda>_. B) s)) =
      Ok () (grab i ?k (set_buf i (\<lambda>_. B\<lparr>bdata := disk s ! n, bvalid := True\<rparr>) s))"
    if i: "i < NBUF" and B: "\<not> bvalid B" "\<not> bdirty B" "bdev B = 1" "unat (bblockno B) = n" "brefcnt B = 1"
    for i B
  proof -
    let ?g = "grab i ?k (set_buf i (\<lambda>_. B) s)"
    have il: "i < length (bufs s)" by (rule binvD(1)[OF b i])
    have "bready c p (insert i H) ?g" by (rule put_buf_bready[OF b r i B(5)])
    then have "running c p (bm ?g)" "all_free (bm ?g)" by (simp_all add: bready_def)
    from iderw_read[OF this, of i] show ?thesis
      using il B n by (simp add: set_buf_grab set_buf_set_buf)
  qed
  show ?thesis
  proof (cases "find (\<lambda>i. bdev (bufs s ! i) = 1 \<and> bblockno (bufs s ! i) = of_nat n) (mru s)")
    case (Some i)
    then have i: "i < NBUF" "bdev (bufs s ! i) = 1" "bblockno (bufs s ! i) = of_nat n"
      using mru find_SomeD[OF Some] by auto
    then have ni: "unat (bblockno (bufs s ! i)) = n" using un by simp
    have out: "i \<notin> H" using nh ni by auto
    then have u: "\<not> slocked (slocks (bm s) (BufLk i))" using r by (simp add: bready_def)
    let ?B = "(bufs s ! i)\<lparr>brefcnt := 1\<rparr>"
    have get: "bget 1 (of_nat n) s = Ok i (grab i ?k (set_buf i (\<lambda>_. ?B) s))"
    proof -
      have "set_buf i (\<lambda>b. b\<lparr>brefcnt := brefcnt b + 1\<rparr>) s = set_buf i (\<lambda>_. ?B) s"
        unfolding set_buf_def using ref[OF i(1)] out by simp
      then show ?thesis using bget_hit[OF run af Some u] by (simp only:)
    qed
    note il = binvD(1)[OF b i(1)]
    show ?thesis
    proof (cases "bvalid (bufs s ! i)")
      case True
      have "bview s n = bdata (bufs s ! i)" by (rule bview_cached[OF b i(1) True ni])
      then have "got_block c p H s n i (grab i ?k (set_buf i (\<lambda>_. ?B) s))"
        by (intro put_buf_got[OF b r i(1) out _ _ _ _ n])
          (use True i ni dirty_unique[OF b i(1,2) ni] buf_other_block[OF b i(1,2) ni] in simp_all)
      then show ?thesis using get True il by (simp add: bread_def)
    next
      case False
      then have nd: "\<not> bdirty (bufs s ! i)" using binvD(3)[OF b i(1)] by blast
      then have "\<not> dirty_block s n" using dirty_unique[OF b i(1,2) ni] by simp
      then have v: "bview s n = disk s ! n" by (rule bview_clean[OF b])
      let ?C = "?B\<lparr>bdata := disk s ! n, bvalid := True\<rparr>"
      have "got_block c p H s n i (grab i ?k (set_buf i (\<lambda>_. ?C) s))"
        by (intro put_buf_got[OF b r i(1) out _ _ _ _ n])
          (use i ni nd v dirty_unique[OF b i(1,2) ni] buf_other_block[OF b i(1,2) ni] in simp_all)
      moreover have "iderw i (grab i ?k (set_buf i (\<lambda>_. ?B) s)) =
          Ok () (grab i ?k (set_buf i (\<lambda>_. ?C) s))"
        by (rule io[OF i(1)]) (use False nd i ni in simp_all)
      ultimately show ?thesis using get False il by (simp add: bread_def)
    qed
  next
    case None
    then have none: "\<not> (bdev (bufs s ! j) = 1 \<and> unat (bblockno (bufs s ! j)) = n)" if "j < NBUF" for j
      using mru un that by (auto simp: find_None_iff word_unat_eq_iff)
    have nd: "\<not> dirty_block s n"
      using none binvD(3,4)[OF b] by (auto simp: dirty_block_def)
    then have v: "bview s n = disk s ! n" by (rule bview_clean[OF b])
    have "find (\<lambda>i. brefcnt (bufs s ! i) = 0 \<and> \<not> bdirty (bufs s ! i)) (rev (mru s)) \<noteq> None"
    proof -
      obtain k where k: "k < NBUF" "k \<notin> H" "\<not> bdirty (bufs s ! k)" using room nd by blast
      then show ?thesis using mru[of k] ref[of k] by (auto simp: find_None_iff)
    qed
    then obtain i where e: "find (\<lambda>i. brefcnt (bufs s ! i) = 0 \<and> \<not> bdirty (bufs s ! i)) (rev (mru s)) = Some i"
      by auto
    have i: "i < NBUF" "i \<notin> H" "\<not> bdirty (bufs s ! i)"
      using mru ref find_SomeD[OF e] by (auto split: if_splits)
    have u: "\<not> slocked (slocks (bm s) (BufLk i))" using r i(2) by (simp add: bready_def)
    let ?B = "(bufs s ! i)\<lparr>bdev := 1, bblockno := of_nat n, bvalid := False, bdirty := False, brefcnt := 1\<rparr>"
    let ?C = "?B\<lparr>bdata := disk s ! n, bvalid := True\<rparr>"
    have get: "bget 1 (of_nat n) s = Ok i (grab i ?k (set_buf i (\<lambda>_. ?B) s))"
      unfolding bget_miss[OF run af None e u] by (simp add: set_buf_def)
    have "got_block c p H s n i (grab i ?k (set_buf i (\<lambda>_. ?C) s))"
      by (intro put_buf_got[OF b r i(1,2) _ _ _ _ n]) (use i un v nd none in auto)
    moreover have "iderw i (grab i ?k (set_buf i (\<lambda>_. ?B) s)) = Ok () (grab i ?k (set_buf i (\<lambda>_. ?C) s))"
      by (rule io[OF i(1)]) (use un in simp_all)
    ultimately show ?thesis using get binvD(1)[OF b i(1)] by (simp add: bread_def)
  qed
qed

text \<open>Releasing a buffer, writing it through, or leaving it dirty for the log.\<close>

lemma refcnt_fields:
  assumes bf: "bufs s' = (bufs s)[i := (bufs s ! i)\<lparr>brefcnt := k\<rparr>]"
  shows "bvalid (bufs s' ! q) = bvalid (bufs s ! q)" "bdirty (bufs s' ! q) = bdirty (bufs s ! q)"
    "bblockno (bufs s' ! q) = bblockno (bufs s ! q)" "bdata (bufs s' ! q) = bdata (bufs s ! q)"
    "bdev (bufs s' ! q) = bdev (bufs s ! q)"
proof -
  have "bufs s' ! q = (if q = i \<and> i < length (bufs s) then (bufs s ! q)\<lparr>brefcnt := k\<rparr> else bufs s ! q)"
    unfolding bf by (cases "i < length (bufs s)"; cases "q = i") (simp_all add: list_update_beyond)
  then show "bvalid (bufs s' ! q) = bvalid (bufs s ! q)" "bdirty (bufs s' ! q) = bdirty (bufs s ! q)"
    "bblockno (bufs s' ! q) = bblockno (bufs s ! q)" "bdata (bufs s' ! q) = bdata (bufs s ! q)"
    "bdev (bufs s' ! q) = bdev (bufs s ! q)"
    by simp_all
qed

lemma refcnt_same_blocks:
  assumes bf: "bufs s' = (bufs s)[i := (bufs s ! i)\<lparr>brefcnt := k\<rparr>]"
    and d: "disk s' = disk s" "writes s' = writes s" and m: "woken (bm s) (bm s')"
    and j: "\<And>j. slocks (bm s') (InodeLk j) = slocks (bm s) (InodeLk j)"
  shows "same_blocks s s'"
proof -
  note f = refcnt_fields[OF bf]
  have "bufs_of s' n = bufs_of s n" for n by (simp add: bufs_of_def f)
  then have "bview s' n = bview s n" for n
    by (simp add: bview_def f d split: option.splits)
  moreover have "dirty_block s' n = dirty_block s n" for n by (simp add: dirty_block_def f)
  ultimately show ?thesis using d m j by (simp add: same_blocks_def)
qed

lemma brelse_spec:
  assumes b: "binv s" and r: "bready c p H s" and i: "i \<in> H" "i < NBUF"
  shows "\<exists>s'. brelse i s = Ok () s' \<and> binv s' \<and> bready c p (H - {i}) s' \<and> same_blocks s s' \<and>
    bufs s' = (bufs s)[i := (bufs s ! i)\<lparr>brefcnt := 0\<rparr>]"
proof -
  have run: "running c p (bm s)" and af: "all_free (bm s)" and c: "on_cpu c (bm s)"
    using r by (simp_all add: bready_def running_def)
  have h: "slocked (slocks (bm s) (BufLk i))" "slk_pid (slocks (bm s) (BufLk i)) = pid (ptable (bm s) ! p)"
    and ref: "brefcnt (bufs s ! i) = 1"
    using r i by (simp_all add: bready_def)
  let ?m = "wakeup1 (ChSleeplock (BufLk i)) (set_slock (BufLk i) (\<lambda>k. k\<lparr>slocked := False, slk_pid := 0\<rparr>) (bm s))"
  let ?bf = "(bufs s)[i := (bufs s ! i)\<lparr>brefcnt := 0\<rparr>]"
  let ?s = "s\<lparr>bm := ?m, bufs := ?bf, mru := i # removeAll i (mru s)\<rparr>"
  have wk: "woken (bm s) ?m" using woken_trans[OF woken_set_slock woken_wakeup1] .
  have cm: "on_cpu c ?m" "all_free ?m" using woken_on_cpu[OF wk] woken_all_free[OF wk] c af by simp_all
  have il: "i < length (bufs s)" by (rule binvD(1)[OF b i(2)])
  have run_eq: "brelse i s = Ok () ?s"
    using bm_holdingsleep[OF run af h] bm_releasesleep[OF c af, of "BufLk i"]
      bm_acquire[of c "s\<lparr>bm := ?m\<rparr>" BcacheLock] cm il ref
      bm_release[of "s\<lparr>bm := take_lock c BcacheLock ?m, bufs := ?bf, mru := i # removeAll i (mru s)\<rparr>", OF _ cm]
    by (simp add: brelse_def set_buf_def Let_def)
  have same: "same_blocks s ?s"
    by (rule refcnt_same_blocks) (use wk in \<open>simp_all add: set_slock_def\<close>)
  have f: "bufs ?s = (bufs s)[i := (bufs s ! i)\<lparr>brefcnt := 0\<rparr>]" by simp
  have m: "distinct (mru ?s)" "set (mru ?s) = {..<NBUF}"
    using b i by (auto simp: binv_def distinct_removeAll)
  have "binv ?s"
    using b m unfolding binv_def refcnt_fields[OF f] by simp
  moreover have "bready c p (H - {i}) ?s"
  proof -
    have "pid (ptable ?m ! p) = pid (ptable (bm s) ! p)"
      using woken_pid[OF wk] run by (simp add: running_def)
    moreover have "brefcnt (?bf ! j) = (if j \<in> H - {i} then 1 else 0)" if "j < NBUF" for j
      using r that il by (cases "j = i") (simp_all add: bready_def)
    moreover have "slocks ?m (BufLk j) = (if j = i then (slocks (bm s) (BufLk i))\<lparr>slocked := False, slk_pid := 0\<rparr>
        else slocks (bm s) (BufLk j))" for j
      by (simp add: set_slock_def)
    ultimately show ?thesis
      using r woken_running[OF wk run] cm(2) by (simp add: bready_def)
  qed
  ultimately show ?thesis using run_eq same by (intro exI[of _ ?s]) simp
qed

lemma write_buf:
  assumes b: "binv s" and i: "i < NBUF" "bvalid (bufs s ! i)" and n: "n = unat (bblockno (bufs s ! i))"
    and d: "length d = BSIZE"
    and s': "bufs s' = (bufs s)[i := (bufs s ! i)\<lparr>bdata := d, bdirty := dd\<rparr>]" "mru s' = mru s"
      "disk s' = (if dd then disk s else (disk s)[n := d])"
  shows "binv s'" and "bview s' m = (if m = n then d else bview s m)"
    and "dirty_block s' m = (if m = n then dd else dirty_block s m)"
proof -
  have il: "i < length (bufs s)" and dev: "bdev (bufs s ! i) = 1" and nl: "n < length (disk s)"
    using binvD[OF b i(1)] i n by auto
  have bf: "bufs s' ! j = (if j = i then (bufs s ! i)\<lparr>bdata := d, bdirty := dd\<rparr> else bufs s ! j)" for j
    using il by (simp add: s')
  have len: "length (bufs s') = length (bufs s)" by (simp add: s')
  have other: "unat (bblockno (bufs s ! j)) \<noteq> n" if "j < NBUF" "j \<noteq> i" "bvalid (bufs s ! j)" for j
    using buf_other_block[OF b i(1) dev n[symmetric] that(1,2)] binvD(4)[OF b that(1,3)] by blast
  have dk: "list_all (\<lambda>d. length d = BSIZE) (disk s')" "length (disk s') = length (disk s)"
    using b d nl by (auto simp: s' binv_def list_all_length nth_list_update)
  have dn: "disk s' ! n = d" if "\<not> dd" using that nl by (simp add: s')
  have do: "disk s' ! k = disk s ! k" if "k \<noteq> n" for k using that by (simp add: s')
  have fields: "length (bdata (bufs s' ! j)) = BSIZE" "bdirty (bufs s' ! j) \<Longrightarrow> bvalid (bufs s' ! j)"
    "bvalid (bufs s' ! j) = bvalid (bufs s ! j)" "bdev (bufs s' ! j) = bdev (bufs s ! j)"
    "bblockno (bufs s' ! j) = bblockno (bufs s ! j)" if "j < NBUF" for j
    using binvD(2,3)[OF b that] d i(2) by (simp_all add: bf split: if_splits)
  have coh: "bdata (bufs s' ! j) = disk s' ! unat (bblockno (bufs s' ! j))"
    if j: "j < NBUF" "bvalid (bufs s' ! j) \<and> \<not> bdirty (bufs s' ! j)" for j
  proof (cases "j = i")
    case True
    then show ?thesis using j dn n by (simp add: bf)
  next
    case False
    then show ?thesis using j do[OF other[OF j(1) False]] binvD(6)[OF b j(1)] by (simp add: bf)
  qed
  show b': "binv s'"
    using b coh dk len s'(2) fields(1,2) by (simp add: binv_def fields(3-5))
  have dirty: "dirty_block s' m = (if m = n then dd else dirty_block s m)" for m
  proof (cases "m = n")
    case True
    then show ?thesis using dirty_unique[OF b' i(1), of n] dev n by (simp add: bf)
  next
    case False
    have "bdirty (bufs s' ! j) \<and> unat (bblockno (bufs s' ! j)) = m \<longleftrightarrow>
        bdirty (bufs s ! j) \<and> unat (bblockno (bufs s ! j)) = m" for j
      using False n by (simp add: bf)
    then show ?thesis using False by (simp add: dirty_block_def)
  qed
  show "dirty_block s' m = (if m = n then dd else dirty_block s m)" by (rule dirty)
  show "bview s' m = (if m = n then d else bview s m)"
  proof (cases "m = n")
    case True
    then show ?thesis using bview_cached[OF b' i(1), of n] i(2) n by (simp add: bf)
  next
    case False
    have "bview s' m = bview s m"
      by (rule bview_eqI[OF b b'])
        (use False do dirty n binvD(3)[OF b] in \<open>auto simp add: bf\<close>)
    then show ?thesis using False by simp
  qed
qed

lemma bwrite_spec:
  assumes b: "binv s" and r: "bready c p H s" and i: "i \<in> H" "i < NBUF" "bvalid (bufs s ! i)"
    and n: "n = unat (bblockno (bufs s ! i))" and d: "length d = BSIZE"
  shows "\<exists>s'. bwrite i (set_buf i (\<lambda>b. b\<lparr>bdata := d\<rparr>) s) = Ok () s' \<and> binv s' \<and> bready c p H s' \<and>
    disk s' = (disk s)[n := d] \<and> writes s' = writes s @ [(n, d)] \<and>
    (\<forall>m. bview s' m = (if m = n then d else bview s m)) \<and>
    (\<forall>m. dirty_block s' m = (m \<noteq> n \<and> dirty_block s m)) \<and> bm s' = bm s \<and>
    bufs s' = (bufs s)[i := (bufs s ! i)\<lparr>bdata := d, bdirty := False\<rparr>]"
proof -
  have run: "running c p (bm s)" and af: "all_free (bm s)"
    using r by (simp_all add: bready_def)
  have h: "slocked (slocks (bm s) (BufLk i))" "slk_pid (slocks (bm s) (BufLk i)) = pid (ptable (bm s) ! p)"
    using r i by (simp_all add: bready_def)
  have il: "i < length (bufs s)" and dev: "bdev (bufs s ! i) = 1" and nl: "n < length (disk s)"
    using binvD[OF b i(2)] i n by auto
  let ?t = "set_buf i (\<lambda>b. b\<lparr>bdata := d, bdirty := True\<rparr>) s"
  let ?s = "s\<lparr>bufs := (bufs s)[i := (bufs s ! i)\<lparr>bdata := d, bdirty := False\<rparr>],
    disk := (disk s)[n := d], writes := writes s @ [(n, d)]\<rparr>"
  have v: "(bufs s ! i)\<lparr>bdata := d, bdirty := False, bvalid := True\<rparr> = (bufs s ! i)\<lparr>bdata := d, bdirty := False\<rparr>"
    using i(3) by (cases "bufs s ! i") simp
  have t: "set_buf i (\<lambda>b. b\<lparr>bdirty := True\<rparr>) (set_buf i (\<lambda>b. b\<lparr>bdata := d\<rparr>) s) = ?t"
    using il by (simp add: set_buf_def)
  have "iderw i ?t = Ok () ?s"
    using iderw_write[of c p ?t i] run af h il dev nl n v
    by (simp add: set_buf_def)
  then have eq: "bwrite i (set_buf i (\<lambda>b. b\<lparr>bdata := d\<rparr>) s) = Ok () ?s"
    using bm_holdingsleep[of c p "set_buf i (\<lambda>b. b\<lparr>bdata := d\<rparr>) s" "BufLk i"] run af h
    unfolding bwrite_def by (simp add: t)
  have W: "binv ?s" "bview ?s m = (if m = n then d else bview s m)"
      "dirty_block ?s m = (if m = n then False else dirty_block s m)" for m
    by (rule write_buf[OF b i(2,3) n d, where dd = False]; simp)+
  have "bready c p H ?s" using r il by (auto simp: bready_def nth_list_update)
  then show ?thesis using eq W by (intro exI[of _ ?s]) simp
qed

text \<open>There is a buffer to recycle as long as fewer blocks are dirty than there are buffers.\<close>

lemma dirty_bufs_card:
  assumes b: "binv s" and D: "finite D" "\<And>n. dirty_block s n \<Longrightarrow> n \<in> D"
  shows "card {i. i < NBUF \<and> bdirty (bufs s ! i)} \<le> card D"
proof (rule card_inj_on_le[OF _ _ D(1)])
  show "(\<lambda>i. unat (bblockno (bufs s ! i))) ` {i. i < NBUF \<and> bdirty (bufs s ! i)} \<subseteq> D"
    using D(2) by (auto simp: dirty_block_def)
  show "inj_on (\<lambda>i. unat (bblockno (bufs s ! i))) {i. i < NBUF \<and> bdirty (bufs s ! i)}"
    using binvD(3,4)[OF b] b by (auto simp: inj_on_def binv_def word_unat_eq_iff)
qed

lemma free_buf_exists:
  assumes b: "binv s" and D: "finite D" "\<And>n. dirty_block s n \<Longrightarrow> n \<in> D"
    and H: "finite H" "card D + card H < NBUF"
  shows "\<exists>i<NBUF. i \<notin> H \<and> \<not> bdirty (bufs s ! i)"
proof (rule ccontr)
  assume "\<not> ?thesis"
  then have "{..<NBUF} \<subseteq> {i. i < NBUF \<and> bdirty (bufs s ! i)} \<union> H" by auto
  then have "NBUF \<le> card ({i. i < NBUF \<and> bdirty (bufs s ! i)} \<union> H)"
    using card_mono[of "{i. i < NBUF \<and> bdirty (bufs s ! i)} \<union> H" "{..<NBUF}"] H(1) by simp
  also have "\<dots> \<le> card D + card H"
    using card_Un_le[of "{i. i < NBUF \<and> bdirty (bufs s ! i)}" H] dirty_bufs_card[OF b D] by linarith
  finally show False using H(2) by simp
qed

text \<open>Reading one block, changing another that is written through, and releasing both.\<close>

definition wrote :: "nat \<Rightarrow> bytes \<Rightarrow> bst \<Rightarrow> bst \<Rightarrow> bool" where
  "wrote n d s s' \<longleftrightarrow> disk s' = (disk s)[n := d] \<and> writes s' = writes s @ [(n, d)] \<and>
     (\<forall>m. bview s' m = (if m = n then d else bview s m)) \<and>
     (\<forall>m. dirty_block s' m = (m \<noteq> n \<and> dirty_block s m)) \<and>
     woken (bm s) (bm s') \<and> (\<forall>j. slocks (bm s') (InodeLk j) = slocks (bm s) (InodeLk j))"

lemma wrote_same: "same_blocks s t \<Longrightarrow> wrote n d t u \<Longrightarrow> same_blocks u v \<Longrightarrow> wrote n d s v"
  unfolding same_blocks_def wrote_def by (auto intro: woken_trans)

lemma got_release:
  assumes g: "got_block c p H s n i s'" and i: "i \<in> H'" "H' = insert i H"
  shows "\<exists>t. brelse i s' = Ok () t \<and> binv t \<and> bready c p H t \<and> same_blocks s t \<and>
    (\<forall>j. j \<noteq> i \<longrightarrow> bufs t ! j = bufs s ! j)"
proof -
  have b: "binv s'" and r: "bready c p (insert i H) s'" and l: "i < NBUF" "i \<notin> H"
    and sb: "same_blocks s s'" and o: "\<And>j. j \<noteq> i \<Longrightarrow> bufs s' ! j = bufs s ! j"
    using g by (simp_all add: got_block_def)
  obtain t where "brelse i s' = Ok () t" "binv t" "bready c p (insert i H - {i}) t" "same_blocks s' t"
    "bufs t = (bufs s')[i := (bufs s' ! i)\<lparr>brefcnt := 0\<rparr>]"
    using brelse_spec[OF b r _ l(1)] by blast
  then show ?thesis using l sb o same_blocks_trans[OF sb] by (intro exI[of _ t]) simp
qed

lemma bwrite_got:
  assumes g: "got_block c p H s n i s'" and d: "length d = BSIZE"
  shows "\<exists>t. bwrite i (set_buf i (\<lambda>b. b\<lparr>bdata := d\<rparr>) s') = Ok () t \<and> binv t \<and>
    bready c p (insert i H) t \<and> wrote n d s t \<and> bvalid (bufs t ! i) \<and>
    unat (bblockno (bufs t ! i)) = n \<and> (\<forall>j. j \<noteq> i \<longrightarrow> bufs t ! j = bufs s' ! j)"
proof -
  have b: "binv s'" and r: "bready c p (insert i H) s'" and l: "i < NBUF" and v: "bvalid (bufs s' ! i)"
    and n: "n = unat (bblockno (bufs s' ! i))" and sb: "same_blocks s s'"
    using g by (simp_all add: got_block_def)
  have il: "i < length (bufs s')" by (rule binvD(1)[OF b l])
  from bwrite_spec[OF b r _ l v n d] obtain t where
    t: "bwrite i (set_buf i (\<lambda>b. b\<lparr>bdata := d\<rparr>) s') = Ok () t" "binv t" "bready c p (insert i H) t"
      "disk t = (disk s')[n := d]" "writes t = writes s' @ [(n, d)]"
      "\<forall>m. bview t m = (if m = n then d else bview s' m)"
      "\<forall>m. dirty_block t m = (m \<noteq> n \<and> dirty_block s' m)" "bm t = bm s'"
      "bufs t = (bufs s')[i := (bufs s' ! i)\<lparr>bdata := d, bdirty := False\<rparr>]"
    by auto
  then have "wrote n d s' t" by (simp add: wrote_def)
  then have "wrote n d s t" using wrote_same[OF sb] by simp
  then show ?thesis using t(1-3,9) v n il by (intro exI[of _ t]) simp
qed

definition copy_dst_first :: "uint \<Rightarrow> uint \<Rightarrow> bst \<Rightarrow> (unit, bst) res" where
  "copy_dst_first d a s =
     call (bread 1 d s) (\<lambda>i s. call (bread 1 a s) (\<lambda>j s.
     let s = set_buf i (\<lambda>b. b\<lparr>bdata := bdata (bufs s ! j)\<rparr>) s in
     call (bwrite i s) (\<lambda>_ s. call (brelse j s) (\<lambda>_ s. brelse i s))))"

definition copy_src_first :: "uint \<Rightarrow> uint \<Rightarrow> bst \<Rightarrow> (unit, bst) res" where
  "copy_src_first d a s =
     call (bread 1 a s) (\<lambda>j s. call (bread 1 d s) (\<lambda>i s.
     let s = set_buf i (\<lambda>b. b\<lparr>bdata := bdata (bufs s ! j)\<rparr>) s in
     call (bwrite i s) (\<lambda>_ s. call (brelse j s) (\<lambda>_ s. brelse i s))))"

text \<open>The last three steps, once both buffers are held.\<close>

lemma copy_tail:
  assumes b: "binv s" and r: "bready c p {i, j} s" and ij: "i < NBUF" "j < NBUF" "i \<noteq> j"
    and v: "bvalid (bufs s ! i)" and n: "n = unat (bblockno (bufs s ! i))" and d: "length d = BSIZE"
    and s0: "same_blocks s0 s"
  shows "\<exists>t. call (bwrite i (set_buf i (\<lambda>b. b\<lparr>bdata := d\<rparr>) s))
      (\<lambda>_ s. call (brelse j s) (\<lambda>_ s. brelse i s)) = Ok () t \<and>
    binv t \<and> bready c p {} t \<and> wrote n d s0 t"
proof -
  from bwrite_spec[OF b r _ ij(1) v n d] obtain t where
    t: "bwrite i (set_buf i (\<lambda>b. b\<lparr>bdata := d\<rparr>) s) = Ok () t" "binv t" "bready c p {i, j} t"
      "wrote n d s t"
    by (auto simp: wrote_def)
  from brelse_spec[OF t(2,3) _ ij(2)] ij(3) obtain u where
    u: "brelse j t = Ok () u" "binv u" "bready c p {i} u" "same_blocks t u"
    by (auto simp: insert_Diff_if)
  from brelse_spec[OF u(2,3) _ ij(1)] obtain w where
    w: "brelse i u = Ok () w" "binv w" "bready c p {} w" "same_blocks u w"
    by auto
  have "wrote n d s0 w"
    by (rule wrote_same[OF s0 t(4) same_blocks_trans[OF u(4) w(4)]])
  then show ?thesis using t(1) u(1) w(1-3) by simp
qed

definition few_dirty :: "nat \<Rightarrow> bst \<Rightarrow> bool" where
  "few_dirty h s \<longleftrightarrow> (\<exists>D. finite D \<and> (\<forall>n. dirty_block s n \<longrightarrow> n \<in> D) \<and> card D + h < NBUF)"

lemma few_dirty_room:
  "binv s \<Longrightarrow> few_dirty (card H) s \<Longrightarrow> finite H \<Longrightarrow> \<exists>i<NBUF. i \<notin> H \<and> \<not> bdirty (bufs s ! i)"
  unfolding few_dirty_def by (metis free_buf_exists)

lemma few_dirty_same: "same_blocks s t \<Longrightarrow> few_dirty h t = few_dirty h s"
  by (simp add: few_dirty_def same_blocks_def)

lemma few_dirty_mono: "few_dirty h s \<Longrightarrow> h' \<le> h \<Longrightarrow> few_dirty h' s"
  unfolding few_dirty_def by (metis add_le_mono1 le_less_trans add.commute)

lemma two_blocks:
  assumes b: "binv s" and r: "bready c p {} s" and n: "x < length (disk s)" "y < length (disk s)" "x \<noteq> y"
    and room: "few_dirty 0 s" "dirty_block s y \<or> few_dirty 1 s"
  obtains i j s1 s2 where "bread 1 (of_nat x) s = Ok i s1" "bread 1 (of_nat y) s1 = Ok j s2"
    "binv s2" "bready c p {i, j} s2" "i < NBUF" "j < NBUF" "i \<noteq> j" "same_blocks s s2"
    "bvalid (bufs s2 ! i)" "unat (bblockno (bufs s2 ! i)) = x" "bdata (bufs s2 ! i) = bview s x"
    "bvalid (bufs s2 ! j)" "unat (bblockno (bufs s2 ! j)) = y" "bdata (bufs s2 ! j) = bview s y"
proof -
  obtain i s1 where 1: "bread 1 (of_nat x) s = Ok i s1" and g1: "got_block c p {} s x i s1"
    using bread_spec[OF b r n(1)] few_dirty_room[OF b, of "{}"] room(1) by auto
  have b1: "binv s1" and r1: "bready c p {i} s1" and sb: "same_blocks s s1"
    and i: "i < NBUF" "bvalid (bufs s1 ! i)" "unat (bblockno (bufs s1 ! i)) = x" "bdata (bufs s1 ! i) = bview s x"
    using g1 by (simp_all add: got_block_def)
  have "dirty_block s1 y \<or> few_dirty 1 s1"
    using room(2) sb few_dirty_same[OF sb] by (simp add: same_blocks_def)
  then have "dirty_block s1 y \<or> (\<exists>k<NBUF. k \<notin> {i} \<and> \<not> bdirty (bufs s1 ! k))"
    using few_dirty_room[OF b1, of "{i}"] by auto
  moreover have "y < length (disk s1)" using n(2) sb by (simp add: same_blocks_def)
  ultimately obtain j s2 where 2: "bread 1 (of_nat y) s1 = Ok j s2" and g2: "got_block c p {i} s1 y j s2"
    using bread_spec[OF b1 r1, of y] i(3) n(3) by auto
  have "bufs s2 ! i = bufs s1 ! i" "bview s1 y = bview s y"
    using g2 sb by (auto simp: got_block_def same_blocks_def)
  with g2 have "binv s2" "bready c p {i, j} s2" "j < NBUF" "i \<noteq> j" "same_blocks s s2"
    "bvalid (bufs s2 ! i)" "unat (bblockno (bufs s2 ! i)) = x" "bdata (bufs s2 ! i) = bview s x"
    "bvalid (bufs s2 ! j)" "unat (bblockno (bufs s2 ! j)) = y" "bdata (bufs s2 ! j) = bview s y"
    using i same_blocks_trans[OF sb] by (auto simp: got_block_def insert_commute)
  with 1 2 i(1) that show thesis by blast
qed

lemma copy_dst_first_spec:
  assumes b: "binv s" and r: "bready c p {} s" and n: "n < length (disk s)" "k < length (disk s)" "n \<noteq> k"
    and room: "few_dirty 0 s" "dirty_block s k \<or> few_dirty 1 s"
  shows "\<exists>t. copy_dst_first (of_nat n) (of_nat k) s = Ok () t \<and> binv t \<and> bready c p {} t \<and>
    wrote n (bview s k) s t"
proof -
  obtain i j s1 s2 where 1: "bread 1 (of_nat n) s = Ok i s1" "bread 1 (of_nat k) s1 = Ok j s2"
    and s2: "binv s2" "bready c p {i, j} s2" and ij: "i < NBUF" "j < NBUF" "i \<noteq> j"
    and sb: "same_blocks s s2" and v: "bvalid (bufs s2 ! i)" "unat (bblockno (bufs s2 ! i)) = n"
    and d: "bdata (bufs s2 ! j) = bview s k"
    by (rule two_blocks[OF b r n room])
  have len: "length (bview s k) = BSIZE" by (rule bview_length[OF b n(2)])
  from copy_tail[OF s2 ij v(1) v(2)[symmetric] len sb] show ?thesis
    using 1 d by (simp add: copy_dst_first_def)
qed

lemma copy_src_first_spec:
  assumes b: "binv s" and r: "bready c p {} s" and n: "n < length (disk s)" "k < length (disk s)" "n \<noteq> k"
    and room: "few_dirty 0 s" "dirty_block s n \<or> few_dirty 1 s"
  shows "\<exists>t. copy_src_first (of_nat n) (of_nat k) s = Ok () t \<and> binv t \<and> bready c p {} t \<and>
    wrote n (bview s k) s t"
proof -
  obtain j i s1 s2 where 1: "bread 1 (of_nat k) s = Ok j s1" "bread 1 (of_nat n) s1 = Ok i s2"
    and s2: "binv s2" "bready c p {j, i} s2" and ij: "j < NBUF" "i < NBUF" "j \<noteq> i"
    and sb: "same_blocks s s2" and d: "bdata (bufs s2 ! j) = bview s k"
    and v: "bvalid (bufs s2 ! i)" "unat (bblockno (bufs s2 ! i)) = n"
    by (rule two_blocks[OF b r n(2,1) n(3)[symmetric] room])
  have len: "length (bview s k) = BSIZE" by (rule bview_length[OF b n(2)])
  have r2: "bready c p {i, j} s2" using s2(2) by (simp add: insert_commute)
  from copy_tail[OF s2(1) r2 ij(2,1) ij(3)[symmetric] v(1) v(2)[symmetric] len sb] show ?thesis
    using 1 d by (simp add: copy_src_first_def)
qed

text \<open>Reading one block, and changing one block that is written through.\<close>

lemma read_block:
  assumes b: "binv s" and r: "bready c p {} s" and n: "n < length (disk s)" and room: "few_dirty 0 s"
  obtains i s1 s2 where "bread 1 (of_nat n) s = Ok i s1" "got_block c p {} s n i s1"
    "brelse i s1 = Ok () s2" "binv s2" "bready c p {} s2" "same_blocks s s2"
proof -
  obtain i s1 where 1: "bread 1 (of_nat n) s = Ok i s1" and g: "got_block c p {} s n i s1"
    using bread_spec[OF b r n] few_dirty_room[OF b, of "{}"] room by auto
  have "binv s1" "bready c p {i} s1" "i < NBUF" "same_blocks s s1" using g by (simp_all add: got_block_def)
  with brelse_spec[of s1 c p "{i}" i] same_blocks_trans[of s s1] 1 g that show thesis by auto
qed

lemma update_block:
  assumes b: "binv s" and r: "bready c p {} s" and n: "n < length (disk s)" and room: "few_dirty 0 s"
    and f: "\<And>d. length d = BSIZE \<Longrightarrow> length (f d) = BSIZE"
  shows "\<exists>t. call (bread 1 (of_nat n) s) (\<lambda>i s.
      call (bwrite i (set_buf i (\<lambda>b. b\<lparr>bdata := f (bdata (bufs s ! i))\<rparr>) s)) (\<lambda>_ s. brelse i s)) = Ok () t \<and>
    binv t \<and> bready c p {} t \<and> wrote n (f (bview s n)) s t"
proof -
  obtain i s1 where 1: "bread 1 (of_nat n) s = Ok i s1" and g: "got_block c p {} s n i s1"
    using bread_spec[OF b r n] few_dirty_room[OF b, of "{}"] room by auto
  have d: "bdata (bufs s1 ! i) = bview s n" using g by (simp add: got_block_def)
  have len: "length (f (bview s n)) = BSIZE" by (rule f[OF bview_length[OF b n]])
  obtain t where t: "bwrite i (set_buf i (\<lambda>b. b\<lparr>bdata := f (bview s n)\<rparr>) s1) = Ok () t" "binv t"
      "bready c p {i} t" "wrote n (f (bview s n)) s t"
    using bwrite_got[OF g len] by auto
  have "i < NBUF" using g by (simp add: got_block_def)
  with brelse_spec[OF t(2,3)] obtain u where
    u: "brelse i t = Ok () u" "binv u" "bready c p {} u" "same_blocks t u" by auto
  then show ?thesis using 1 d t(1,4) wrote_same[OF same_blocks_refl] by auto
qed

section \<open>A freshly started cache\<close>

definition empty_buf :: buf where
  "empty_buf = \<lparr>bvalid = False, bdirty = False, bdev = 0, bblockno = 0, brefcnt = 0, bdata = zero_block\<rparr>"

definition boot_bst :: "bytes list \<Rightarrow> bst" where
  "boot_bst D = \<lparr>bm = one_mach, bufs = replicate NBUF empty_buf, mru = [0..<NBUF], disk = D, writes = []\<rparr>"

definition good_disk :: "bytes list \<Rightarrow> bool" where
  "good_disk D \<longleftrightarrow> length D \<le> 2 ^ 32 \<and> list_all (\<lambda>d. length d = BSIZE) D"

lemma one_mach_slocks: "\<not> slocked (slocks one_mach l)"
  by (simp add: one_mach_def boot_mach_def)

lemma boot_bst_binv: "good_disk D \<Longrightarrow> binv (boot_bst D)"
  by (auto simp: binv_def boot_bst_def good_disk_def empty_buf_def)

lemma boot_bst_ready: "bready 0 0 {} (boot_bst D)"
  using one_mach_running one_mach_free one_mach_slocks
  by (simp add: bready_def boot_bst_def all_free_def empty_buf_def)

lemma boot_bst_clean: "\<not> dirty_block (boot_bst D) n"
  by (auto simp: dirty_block_def boot_bst_def empty_buf_def)

text \<open>The same cache with one dirty buffer.\<close>

definition dirty_bst :: "bytes list \<Rightarrow> nat \<Rightarrow> bytes \<Rightarrow> bst" where
  "dirty_bst D n d = (boot_bst D)\<lparr>bufs := (replicate NBUF empty_buf)[0 :=
     \<lparr>bvalid = True, bdirty = True, bdev = 1, bblockno = of_nat n, brefcnt = 0, bdata = d\<rparr>]\<rparr>"

lemma dirty_bst_buf: "i < NBUF \<Longrightarrow> bufs (dirty_bst D n d) ! i = (if i = 0 then
    \<lparr>bvalid = True, bdirty = True, bdev = 1, bblockno = of_nat n, brefcnt = 0, bdata = d\<rparr> else empty_buf)"
  by (simp add: dirty_bst_def nth_list_update)

lemma dirty_bst_binv:
  assumes "good_disk D" and "n < length D" and "length d = BSIZE"
  shows "binv (dirty_bst D n d)"
proof -
  have "unat (of_nat n :: uint) = n" using assms by (intro unat_of_nat32) (simp add: good_disk_def)
  moreover have "length (bufs (dirty_bst D n d)) = NBUF" "mru (dirty_bst D n d) = [0..<NBUF]"
    "disk (dirty_bst D n d) = D" by (simp_all add: dirty_bst_def boot_bst_def)
  ultimately show ?thesis
    using assms by (auto simp: binv_def dirty_bst_buf good_disk_def empty_buf_def split: if_splits)
qed

lemma dirty_bst_ready: "bready 0 0 {} (dirty_bst D n d)"
  using boot_bst_ready[of D] by (auto simp: bready_def dirty_bst_buf empty_buf_def) (simp_all add: dirty_bst_def)

lemma dirty_bst_dirty:
  assumes "n < 2 ^ 32"
  shows "dirty_block (dirty_bst D n d) m \<longleftrightarrow> m = n"
proof -
  have "0 < NBUF" by (simp add: NBUF_def)
  then show ?thesis
    using unat_of_nat32[OF assms] dirty_bst_buf[of 0 D n d]
    by (auto simp: dirty_block_def dirty_bst_buf empty_buf_def split: if_splits)
qed

end
