(* ===== verification/Log.thy ===== *)
theory Log
  imports Bio
begin

text \<open>
  The write-ahead log: log.c, with \<open>readsb\<close> of fs.c, which it calls.  A logged block stays dirty in
  the buffer cache until \<open>commit\<close> copies it to the log, writes the header and installs it.
\<close>

section \<open>State\<close>

record superblock =
  sb_size :: uint
  nblocks :: uint
  ninodes :: uint
  nlog :: uint
  logstart :: uint
  inodestart :: uint
  bmapstart :: uint

record lst =
  lb :: bst
  lstart :: uint
  lsize :: int
  outstanding :: int
  committing :: bool
  ldev :: uint
  lhn :: int
  lhblock :: "uint list"

definition LOGSIZE :: nat where "LOGSIZE = 30"
definition MAXOPBLOCKS :: int where "MAXOPBLOCKS = 10"

abbreviation on_lb :: "(bst \<Rightarrow> ('a, bst) res) \<Rightarrow> lst \<Rightarrow> ('a, lst) res" where
  "on_lb \<equiv> zoom lb lb_update"

abbreviation on_lm :: "(mach \<Rightarrow> ('a, mach) res) \<Rightarrow> lst \<Rightarrow> ('a, lst) res" where
  "on_lm f \<equiv> on_lb (on_bm f)"

definition lbuf :: "lst \<Rightarrow> nat \<Rightarrow> buf" where "lbuf s i = bufs (lb s) ! i"

definition set_data :: "nat \<Rightarrow> bytes \<Rightarrow> lst \<Rightarrow> lst" where
  "set_data i d s = s\<lparr>lb := set_buf i (\<lambda>b. b\<lparr>bdata := d\<rparr>) (lb s)\<rparr>"

section \<open>The superblock\<close>

definition sb_decode :: "bytes \<Rightarrow> superblock" where
  "sb_decode d = \<lparr>sb_size = get32 0 d, nblocks = get32 4 d, ninodes = get32 8 d, nlog = get32 12 d,
     logstart = get32 16 d, inodestart = get32 20 d, bmapstart = get32 24 d\<rparr>"

definition readsb :: "uint \<Rightarrow> bst \<Rightarrow> (superblock, bst) res" where
  "readsb dev s =
     call (bread dev 1 s) (\<lambda>bp s.
     let sb = sb_decode (bdata (bufs s ! bp)) in
     call (brelse bp s) (\<lambda>_ s. Ok sb s))"

section \<open>Moving blocks between the log and their homes\<close>

definition install_block :: "nat \<Rightarrow> lst \<Rightarrow> (unit, lst) res" where
  "install_block tail s =
     call (on_lb (bread (ldev s) (lstart s + of_nat tail + 1)) s) (\<lambda>lbuf s.
     call (on_lb (bread (ldev s) (lhblock s ! tail)) s) (\<lambda>dbuf s.
     let s = set_data dbuf (bdata (bufs (lb s) ! lbuf)) s in
     call (on_lb (bwrite dbuf) s) (\<lambda>_ s.
     call (on_lb (brelse lbuf) s) (\<lambda>_ s. on_lb (brelse dbuf) s))))"

definition install_trans :: "lst \<Rightarrow> (unit, lst) res" where
  "install_trans s = for_each install_block [0..<nat (lhn s)] s"

definition read_head :: "lst \<Rightarrow> (unit, lst) res" where
  "read_head s =
     call (on_lb (bread (ldev s) (lstart s)) s) (\<lambda>i s.
     let lh = bdata (lbuf s i); s = s\<lparr>lhn := sint (get32 0 lh)\<rparr> in
     call (fault_if (int LOGSIZE < lhn s) ''read_head: log.lh.block overflows'' s) (\<lambda>_ s.
     let s = s\<lparr>lhblock := map (\<lambda>j. if int j < lhn s then get32 (4 + 4 * j) lh else lhblock s ! j)
                           [0..<LOGSIZE]\<rparr> in
     on_lb (brelse i) s))"

definition put_head :: "lst \<Rightarrow> bytes \<Rightarrow> bytes" where
  "put_head s d =
     fold (\<lambda>j d. put32 (4 + 4 * j) (lhblock s ! j) d) [0..<nat (lhn s)] (put32 0 (of_int (lhn s)) d)"

definition write_head :: "lst \<Rightarrow> (unit, lst) res" where
  "write_head s =
     call (on_lb (bread (ldev s) (lstart s)) s) (\<lambda>i s.
     let s = set_data i (put_head s (bdata (lbuf s i))) s in
     call (on_lb (bwrite i) s) (\<lambda>_ s. on_lb (brelse i) s))"

definition recover_from_log :: "lst \<Rightarrow> (unit, lst) res" where
  "recover_from_log s =
     call (read_head s) (\<lambda>_ s.
     call (install_trans s) (\<lambda>_ s.
     write_head (s\<lparr>lhn := 0\<rparr>)))"

definition initlog :: "uint \<Rightarrow> lst \<Rightarrow> (unit, lst) res" where
  "initlog dev s =
     (if BSIZE \<le> 4 + 4 * LOGSIZE then Panic ''initlog: too big logheader''
      else call (on_lm (initlock LogLock ''log'') s) (\<lambda>_ s.
        call (on_lb (readsb dev) s) (\<lambda>sb s.
        recover_from_log (s\<lparr>lstart := logstart sb, lsize := sint (nlog sb), ldev := dev\<rparr>))))"

definition log_block :: "nat \<Rightarrow> lst \<Rightarrow> (unit, lst) res" where
  "log_block tail s =
     call (on_lb (bread (ldev s) (lstart s + of_nat tail + 1)) s) (\<lambda>to s.
     call (on_lb (bread (ldev s) (lhblock s ! tail)) s) (\<lambda>from s.
     let s = set_data to (bdata (lbuf s from)) s in
     call (on_lb (bwrite to) s) (\<lambda>_ s.
     call (on_lb (brelse from) s) (\<lambda>_ s. on_lb (brelse to) s))))"

definition write_log :: "lst \<Rightarrow> (unit, lst) res" where
  "write_log s = for_each log_block [0..<nat (lhn s)] s"

definition commit :: "lst \<Rightarrow> (unit, lst) res" where
  "commit s =
     (if 0 < lhn s
      then call (write_log s) (\<lambda>_ s.
           call (write_head s) (\<lambda>_ s.
           call (install_trans s) (\<lambda>_ s.
           write_head (s\<lparr>lhn := 0\<rparr>))))
      else Ok () s)"

section \<open>Transactions\<close>

text \<open>
  The loop of \<open>begin_op\<close> tests again after every \<open>sleep\<close>; a run that sleeps ends in \<open>Switch\<close>, and
  the process tests from the top, holding the lock again, when it is resumed.
\<close>

definition begin_op_test :: "lst \<Rightarrow> (unit, lst) res" where
  "begin_op_test s =
     (if committing s then on_lm (sleep ChLog (Some LogLock)) s
      else if int LOGSIZE < lhn s + (outstanding s + 1) * MAXOPBLOCKS
      then on_lm (sleep ChLog (Some LogLock)) s
      else on_lm (release LogLock) (s\<lparr>outstanding := outstanding s + 1\<rparr>))"

definition begin_op :: "lst \<Rightarrow> (unit, lst) res" where
  "begin_op s = call (on_lm (acquire LogLock) s) (\<lambda>_ s. begin_op_test s)"

definition end_op :: "lst \<Rightarrow> (unit, lst) res" where
  "end_op s =
     call (on_lm (acquire LogLock) s) (\<lambda>_ s.
     let s = s\<lparr>outstanding := outstanding s - 1\<rparr> in
     if committing s then Panic ''log.committing''
     else if outstanding s = 0
     then let s = s\<lparr>committing := True\<rparr> in
       call (on_lm (release LogLock) s) (\<lambda>_ s.
       call (commit s) (\<lambda>_ s.
       call (on_lm (acquire LogLock) s) (\<lambda>_ s.
       let s = s\<lparr>committing := False\<rparr> in
       call (on_lm (wakeup ChLog) s) (\<lambda>_ s. on_lm (release LogLock) s))))
     else call (on_lm (wakeup ChLog) s) (\<lambda>_ s. on_lm (release LogLock) s))"

definition log_slot :: "uint \<Rightarrow> lst \<Rightarrow> nat" where
  "log_slot n s = (case find (\<lambda>j. lhblock s ! j = n) [0..<nat (lhn s)] of
     Some j \<Rightarrow> j | None \<Rightarrow> nat (lhn s))"

definition log_write :: "nat \<Rightarrow> lst \<Rightarrow> (unit, lst) res" where
  "log_write b s =
     (if int LOGSIZE \<le> lhn s \<or> lsize s - 1 \<le> lhn s then Panic ''too big a transaction''
      else if outstanding s < 1 then Panic ''log_write outside of trans''
      else call (on_lm (acquire LogLock) s) (\<lambda>_ s.
        let i = log_slot (bblockno (lbuf s b)) s;
            s = s\<lparr>lhblock := (lhblock s)[i := bblockno (lbuf s b)]\<rparr>;
            s = (if int i = lhn s then s\<lparr>lhn := lhn s + 1\<rparr> else s);
            s = s\<lparr>lb := set_buf b (\<lambda>b. b\<lparr>bdirty := True\<rparr>) (lb s)\<rparr> in
        on_lm (release LogLock) s))"

end
