(* ===== verification/LogCrash.thy ===== *)
theory LogCrash
  imports Log
begin

text \<open>
  Crash safety of the log: what \<open>commit\<close> and \<open>recover_from_log\<close> write to the disk, in which order,
  and what a crash between any two of the writes leaves after recovery.
\<close>

section \<open>Sequences of disk writes\<close>

definition apply_writes :: "(nat \<times> bytes) list \<Rightarrow> bytes list \<Rightarrow> bytes list" where
  "apply_writes ws dk = fold (\<lambda>(n, d) dk. dk[n := d]) ws dk"

lemma apply_writes_simps [simp]:
  "apply_writes [] dk = dk" "apply_writes ((n, d) # ws) dk = apply_writes ws (dk[n := d])"
  "apply_writes (ws @ vs) dk = apply_writes vs (apply_writes ws dk)"
  by (simp_all add: apply_writes_def)

lemma length_apply_writes [simp]: "length (apply_writes ws dk) = length dk"
  by (induction ws arbitrary: dk) (auto simp: split_paired_all)

lemma apply_writes_other: "n \<notin> fst ` set ws \<Longrightarrow> apply_writes ws dk ! n = dk ! n"
proof (induction ws arbitrary: dk)
  case (Cons w ws)
  then show ?case by (cases w) simp
qed simp

lemma apply_writes_nth:
  "distinct (map fst ws) \<Longrightarrow> (n, d) \<in> set ws \<Longrightarrow> n < length dk \<Longrightarrow> apply_writes ws dk ! n = d"
proof (induction ws arbitrary: dk)
  case (Cons w ws)
  show ?case
  proof (cases "w = (n, d)")
    case True
    then have "n \<notin> fst ` set ws" using Cons.prems(1) by simp
    then show ?thesis using True Cons.prems(3) by (simp add: apply_writes_other)
  next
    case False
    obtain m e where w: "w = (m, e)" by fastforce
    have "(n, d) \<in> set ws" using False Cons.prems(2) by auto
    then show ?thesis using Cons.IH[of "dk[m := e]"] Cons.prems w by simp
  qed
qed simp

text \<open>\<open>s'\<close> is reached from \<open>s\<close> by writing through the blocks \<open>ws\<close>, in this order.\<close>

definition wrote_all :: "(nat \<times> bytes) list \<Rightarrow> bst \<Rightarrow> bst \<Rightarrow> bool" where
  "wrote_all ws s s' \<longleftrightarrow> disk s' = apply_writes ws (disk s) \<and> writes s' = writes s @ ws \<and>
     (\<forall>m. m \<notin> fst ` set ws \<longrightarrow> bview s' m = bview s m) \<and>
     (\<forall>m. dirty_block s' m = (m \<notin> fst ` set ws \<and> dirty_block s m)) \<and>
     woken (bm s) (bm s') \<and> (\<forall>j. slocks (bm s') (InodeLk j) = slocks (bm s) (InodeLk j))"

lemma wrote_all_Nil: "same_blocks s s' \<Longrightarrow> wrote_all [] s s'"
  by (simp add: wrote_all_def same_blocks_def)

lemma wrote_all_one: "wrote n d s t \<Longrightarrow> wrote_all [(n, d)] s t"
  by (simp add: wrote_all_def wrote_def)

lemma wrote_all_append: "wrote_all ws s t \<Longrightarrow> wrote_all vs t u \<Longrightarrow> wrote_all (ws @ vs) s u"
  unfolding wrote_all_def by (auto intro: woken_trans simp: image_Un)

lemma wrote_all_Cons: "wrote n d s t \<Longrightarrow> wrote_all ws t u \<Longrightarrow> wrote_all ((n, d) # ws) s u"
  using wrote_all_append[OF wrote_all_one] by fastforce

lemma wrote_few_dirty: "wrote n d s t \<Longrightarrow> few_dirty h s \<Longrightarrow> few_dirty h t"
  unfolding few_dirty_def wrote_def by auto

lemma wrote_all_few_dirty: "wrote_all ws s t \<Longrightarrow> few_dirty h s \<Longrightarrow> few_dirty h t"
  unfolding few_dirty_def wrote_all_def by auto

lemma wrote_all_length: "wrote_all ws s t \<Longrightarrow> length (disk t) = length (disk s)"
  by (simp add: wrote_all_def)

text \<open>A loop that copies blocks; \<open>sel\<close> says which of the two blocks of a step is already cached.\<close>

lemma copies_spec:
  assumes step: "\<And>n k s. binv s \<Longrightarrow> bready c p {} s \<Longrightarrow> n < length (disk s) \<Longrightarrow> k < length (disk s) \<Longrightarrow>
      n \<noteq> k \<Longrightarrow> few_dirty 0 s \<Longrightarrow> dirty_block s (sel n k) \<or> few_dirty 1 s \<Longrightarrow>
      \<exists>t. F (of_nat n) (of_nat k) s = Ok () t \<and> binv t \<and> bready c p {} t \<and> wrote n (bview s k) s t"
    and sel: "\<And>n k. sel n k = n \<or> sel n k = k"
    and b: "binv s" and r: "bready c p {} s" and few: "few_dirty 0 s"
    and ps: "\<And>n k. (n, k) \<in> set ps \<Longrightarrow> n < length (disk s) \<and> k < length (disk s) \<and>
      (dirty_block s (sel n k) \<or> few_dirty 1 s)"
    and d: "distinct (map fst ps)" and sep: "fst ` set ps \<inter> snd ` set ps = {}"
  shows "\<exists>t. for_each (\<lambda>(n, k). F (of_nat n) (of_nat k)) ps s = Ok () t \<and> binv t \<and> bready c p {} t \<and>
    wrote_all (map (\<lambda>(n, k). (n, bview s k)) ps) s t"
  using b r few ps d sep
proof (induction ps arbitrary: s)
  case Nil
  then show ?case by (simp add: wrote_all_Nil)
next
  case (Cons q ps)
  obtain n k where q: "q = (n, k)" by fastforce
  have nk: "n < length (disk s)" "k < length (disk s)" "dirty_block s (sel n k) \<or> few_dirty 1 s"
    using Cons.prems(4)[of n k] q by auto
  have ne: "n \<noteq> k" using Cons.prems(6) q by auto
  obtain t where t: "F (of_nat n) (of_nat k) s = Ok () t" "binv t" "bready c p {} t"
      "wrote n (bview s k) s t"
    using step[OF Cons.prems(1,2) nk(1,2) ne Cons.prems(3) nk(3)] by blast
  have len: "length (disk t) = length (disk s)" using t(4) by (simp add: wrote_def)
  have ps: "n' < length (disk t) \<and> k' < length (disk t) \<and> (dirty_block t (sel n' k') \<or> few_dirty 1 t)"
    if m: "(n', k') \<in> set ps" for n' k'
  proof -
    have "sel n' k' \<noteq> n"
      using sel[of n' k'] Cons.prems(5,6) m q by (auto simp: image_iff)
    moreover have "dirty_block s (sel n' k') \<or> few_dirty 1 s" "n' < length (disk s)" "k' < length (disk s)"
      using Cons.prems(4)[of n' k'] m by auto
    ultimately show ?thesis
      using len t(4) wrote_few_dirty[OF t(4)] by (auto simp: wrote_def)
  qed
  have "distinct (map fst ps)" "fst ` set ps \<inter> snd ` set ps = {}" using Cons.prems(5,6) by auto
  from Cons.IH[OF t(2,3) wrote_few_dirty[OF t(4) Cons.prems(3)] ps this] obtain u where
    u: "for_each (\<lambda>(n, k). F (of_nat n) (of_nat k)) ps t = Ok () u" "binv u" "bready c p {} u"
      "wrote_all (map (\<lambda>(n, k). (n, bview t k)) ps) t u"
    by blast
  have "map (\<lambda>(n, k). (n, bview t k)) ps = map (\<lambda>(n, k). (n, bview s k)) ps"
  proof (rule map_cong[OF refl])
    fix x assume x: "x \<in> set ps"
    then have "snd x \<noteq> n" using Cons.prems(6) q by auto
    then show "(case x of (n, k) \<Rightarrow> (n, bview t k)) = (case x of (n, k) \<Rightarrow> (n, bview s k))"
      using t(4) by (auto simp: wrote_def split: prod.split)
  qed
  then have "wrote_all ((n, bview s k) # map (\<lambda>(n, k). (n, bview s k)) ps) s u"
    using wrote_all_Cons[OF t(4) u(4)] by (simp only:)
  then show ?case using t(1) u(1-3) q by simp
qed

section \<open>The header block\<close>

definition put_blocks :: "uint list \<Rightarrow> nat \<Rightarrow> bytes \<Rightarrow> bytes" where
  "put_blocks L k d = fold (\<lambda>j d. put32 (4 + 4 * j) (L ! j) d) [0..<k] d"

lemma put_blocks_props:
  assumes "length d = BSIZE" and "k \<le> LOGSIZE"
  shows "length (put_blocks L k d) = BSIZE" and "get32 0 (put_blocks L k d) = get32 0 d"
    and "j < k \<Longrightarrow> get32 (4 + 4 * j) (put_blocks L k d) = L ! j"
proof -
  have all: "length (put_blocks L k d) = BSIZE \<and> get32 0 (put_blocks L k d) = get32 0 d \<and>
      (\<forall>j<k. get32 (4 + 4 * j) (put_blocks L k d) = L ! j)"
    using assms(2)
  proof (induction k)
    case 0
    then show ?case using assms(1) by (simp add: put_blocks_def)
  next
    case (Suc k)
    let ?e = "put_blocks L k d"
    have e: "put_blocks L (Suc k) d = put32 (4 + 4 * k) (L ! k) ?e" by (simp add: put_blocks_def)
    have b: "4 + 4 * k + 4 \<le> length ?e" using Suc by (simp add: LOGSIZE_def BSIZE_def)
    have l: "length ?e = BSIZE" using Suc by simp
    have "get32 (4 + 4 * j) (put32 (4 + 4 * k) (L ! k) ?e) = L ! j" if "j < Suc k" for j
    proof (cases "j = k")
      case True
      then show ?thesis using get32_put32[OF b] by simp
    next
      case False
      then have "j < k" using that by simp
      then have "get32 (4 + 4 * j) ?e = L ! j" "4 + 4 * j + 4 \<le> length ?e" using Suc b by simp_all
      then show ?thesis using get32_put32_other[OF b, of "4 + 4 * j"] \<open>j < k\<close> by simp
    qed
    moreover have "get32 0 (put32 (4 + 4 * k) (L ! k) ?e) = get32 0 d"
      using get32_put32_other[OF b, of 0] b Suc by simp
    ultimately show ?case using e b l by simp
  qed
  then show "length (put_blocks L k d) = BSIZE" "get32 0 (put_blocks L k d) = get32 0 d"
    "j < k \<Longrightarrow> get32 (4 + 4 * j) (put_blocks L k d) = L ! j" by simp_all
qed

lemma put_head_props:
  assumes "length d = BSIZE" and "nat (lhn s) \<le> LOGSIZE"
  shows "length (put_head s d) = BSIZE" and "get32 0 (put_head s d) = of_int (lhn s)"
    and "j < nat (lhn s) \<Longrightarrow> get32 (4 + 4 * j) (put_head s d) = lhblock s ! j"
proof -
  have l: "length (put32 0 (of_int (lhn s)) d) = BSIZE" "0 + 4 \<le> length d"
    using assms(1) by (simp_all add: BSIZE_def)
  show "length (put_head s d) = BSIZE" "get32 0 (put_head s d) = of_int (lhn s)"
    "j < nat (lhn s) \<Longrightarrow> get32 (4 + 4 * j) (put_head s d) = lhblock s ! j"
    using put_blocks_props[OF l(1) assms(2), where L = "lhblock s"] get32_put32[OF l(2)]
    by (simp_all add: put_head_def put_blocks_def)
qed

section \<open>The log's loops on the cache\<close>

lemma log_addr: "lstart s + of_nat t + 1 = of_nat (unat (lstart s) + t + 1)"
  by (simp add: ac_simps)

lemma log_block_Ok:
  assumes "ldev s = 1" and "copy_dst_first (lstart s + of_nat t + 1) (lhblock s ! t) (lb s) = Ok () u"
  shows "log_block t s = Ok () (s\<lparr>lb := u\<rparr>)"
  using assms
  by (auto simp: log_block_def copy_dst_first_def run_simps zoom_def set_data_def lbuf_def Let_def)

lemma install_block_Ok:
  assumes "ldev s = 1" and "copy_src_first (lhblock s ! t) (lstart s + of_nat t + 1) (lb s) = Ok () u"
  shows "install_block t s = Ok () (s\<lparr>lb := u\<rparr>)"
  using assms
  by (auto simp: install_block_def copy_src_first_def run_simps zoom_def set_data_def Let_def)

lemma lb_loop:
  assumes step: "\<And>t s u. ldev s = 1 \<Longrightarrow> G t s (lb s) = Ok () u \<Longrightarrow> B t s = Ok () (s\<lparr>lb := u\<rparr>)"
    and same: "\<And>t s u. G t (s\<lparr>lb := u\<rparr>) = G t s"
    and d: "ldev s = 1" and run: "for_each (\<lambda>t. G t s) ts (lb s) = Ok () u"
  shows "for_each B ts s = Ok () (s\<lparr>lb := u\<rparr>)"
  using d run
proof (induction ts arbitrary: s)
  case Nil
  then show ?case by (cases s) simp
next
  case (Cons t ts)
  then obtain v where v: "G t s (lb s) = Ok () v" "for_each (\<lambda>t. G t s) ts v = Ok () u"
    by (auto simp: call_eq_Ok)
  have "for_each B ts (s\<lparr>lb := v\<rparr>) = Ok () (s\<lparr>lb := v\<rparr>\<lparr>lb := u\<rparr>)"
    by (rule Cons.IH) (use Cons.prems(1) v(2) same in simp_all)
  then show ?case using step[OF Cons.prems(1) v(1)] by simp
qed

lemma for_each_map: "for_each f (map g xs) s = for_each (\<lambda>x. f (g x)) xs s"
proof (induction xs arbitrary: s)
  case (Cons x xs)
  have "for_each f (map g xs) = for_each (\<lambda>x. f (g x)) xs" by (rule ext) (rule Cons.IH)
  then show ?case by simp
qed simp

definition log_pairs :: "lst \<Rightarrow> (nat \<times> nat) list" where
  "log_pairs s = map (\<lambda>t. (unat (lstart s) + t + 1, unat (lhblock s ! t))) [0..<nat (lhn s)]"

definition home_pairs :: "lst \<Rightarrow> (nat \<times> nat) list" where
  "home_pairs s = map (\<lambda>t. (unat (lhblock s ! t), unat (lstart s) + t + 1)) [0..<nat (lhn s)]"

lemma write_log_Ok:
  assumes "ldev s = 1"
    and "for_each (\<lambda>(n, k). copy_dst_first (of_nat n) (of_nat k)) (log_pairs s) (lb s) = Ok () u"
  shows "write_log s = Ok () (s\<lparr>lb := u\<rparr>)"
  unfolding write_log_def
proof (rule lb_loop[where G = "\<lambda>t s. copy_dst_first (lstart s + of_nat t + 1) (lhblock s ! t)"])
  show "for_each (\<lambda>t. copy_dst_first (lstart s + of_nat t + 1) (lhblock s ! t)) [0..<nat (lhn s)] (lb s) = Ok () u"
    using assms(2) by (simp add: log_pairs_def for_each_map log_addr)
qed (use assms(1) log_block_Ok in auto)

lemma install_trans_Ok:
  assumes "ldev s = 1"
    and "for_each (\<lambda>(n, k). copy_src_first (of_nat n) (of_nat k)) (home_pairs s) (lb s) = Ok () u"
  shows "install_trans s = Ok () (s\<lparr>lb := u\<rparr>)"
  unfolding install_trans_def
proof (rule lb_loop[where G = "\<lambda>t s. copy_src_first (lhblock s ! t) (lstart s + of_nat t + 1)"])
  show "for_each (\<lambda>t. copy_src_first (lhblock s ! t) (lstart s + of_nat t + 1)) [0..<nat (lhn s)] (lb s) = Ok () u"
    using assms(2) by (simp add: home_pairs_def for_each_map log_addr)
qed (use assms(1) install_block_Ok in auto)

lemma write_head_Ok:
  assumes "ldev s = 1" and n: "nat (lhn s) \<le> LOGSIZE" and b: "binv (lb s)" "bready c p {} (lb s)"
    and l: "unat (lstart s) < length (disk (lb s))" and few: "few_dirty 0 (lb s)"
  shows "\<exists>u. write_head s = Ok () (s\<lparr>lb := u\<rparr>) \<and> binv u \<and> bready c p {} u \<and>
    wrote (unat (lstart s)) (put_head s (bview (lb s) (unat (lstart s)))) (lb s) u"
proof -
  have "put_head (s\<lparr>lb := t\<rparr>) = put_head s" for t by (simp add: put_head_def fun_eq_iff)
  moreover obtain u where "call (bread 1 (lstart s) (lb s)) (\<lambda>i t.
      call (bwrite i (set_buf i (\<lambda>b. b\<lparr>bdata := put_head s (bdata (bufs t ! i))\<rparr>) t)) (\<lambda>_ t. brelse i t)) = Ok () u"
    "binv u" "bready c p {} u" "wrote (unat (lstart s)) (put_head s (bview (lb s) (unat (lstart s)))) (lb s) u"
    using update_block[OF b l few, of "put_head s"] put_head_props(1)[OF _ n] by auto
  ultimately show ?thesis
    using assms(1) by (auto simp: write_head_def run_simps zoom_def set_data_def lbuf_def Let_def)
qed

lemma read_head_Ok:
  assumes "ldev s = 1" and b: "binv (lb s)" "bready c p {} (lb s)"
    and l: "unat (lstart s) < length (disk (lb s))" and few: "few_dirty 0 (lb s)"
    and h: "h = bview (lb s) (unat (lstart s))" "sint (get32 0 h) \<le> int LOGSIZE" and len: "length (lhblock s) = LOGSIZE"
  shows "\<exists>u L. read_head s = Ok () (s\<lparr>lhn := sint (get32 0 h), lhblock := L, lb := u\<rparr>) \<and> binv u \<and>
    bready c p {} u \<and> same_blocks (lb s) u \<and> length L = LOGSIZE \<and>
    (\<forall>j < nat (sint (get32 0 h)). L ! j = get32 (4 + 4 * j) h)"
proof -
  obtain i s1 s2 where s1: "bread 1 (of_nat (unat (lstart s))) (lb s) = Ok i s1"
    "got_block c p {} (lb s) (unat (lstart s)) i s1" "brelse i s1 = Ok () s2" "binv s2" "bready c p {} s2"
    "same_blocks (lb s) s2"
    by (rule read_block[OF b l few])
  have d: "bdata (bufs s1 ! i) = h" using s1(2) h(1) by (simp add: got_block_def)
  let ?L = "map (\<lambda>j. if int j < sint (get32 0 h) then get32 (4 + 4 * j) h else lhblock s ! j) [0..<LOGSIZE]"
  have "read_head s = Ok () (s\<lparr>lhn := sint (get32 0 h), lhblock := ?L, lb := s2\<rparr>)"
    using s1(1,3) assms(1) d h(2) by (simp add: read_head_def zoom_def lbuf_def Let_def cong: if_cong)
  moreover have "\<forall>j < nat (sint (get32 0 h)). ?L ! j = get32 (4 + 4 * j) h"
    using h(2) by auto
  ultimately show ?thesis using s1(4-6) by (intro exI[of _ s2] exI[of _ ?L]) simp
qed

section \<open>A transaction in memory, and its commit\<close>

definition logged :: "lst \<Rightarrow> nat list" where
  "logged s = map (\<lambda>t. unat (lhblock s ! t)) [0..<nat (lhn s)]"

definition in_log :: "lst \<Rightarrow> nat \<Rightarrow> bool" where
  "in_log s n \<longleftrightarrow> unat (lstart s) \<le> n \<and> n < unat (lstart s) + nat (lsize s)"

text \<open>
  The log's invariant: the dirty blocks are exactly the logged ones, none of them in the log area,
  they fit in the log, and the header on disk says that the log is empty.
\<close>

definition log_ok :: "lst \<Rightarrow> bool" where
  "log_ok s \<longleftrightarrow> binv (lb s) \<and> ldev s = 1 \<and> 0 \<le> lhn s \<and> lhn s < lsize s \<and> lhn s < int LOGSIZE \<and>
     length (lhblock s) = LOGSIZE \<and> unat (lstart s) + nat (lsize s) \<le> length (disk (lb s)) \<and>
     distinct (logged s) \<and> (\<forall>n\<in>set (logged s). n < length (disk (lb s)) \<and> \<not> in_log s n) \<and>
     (\<forall>n. dirty_block (lb s) n \<longleftrightarrow> n \<in> set (logged s)) \<and>
     sint (get32 0 (disk (lb s) ! unat (lstart s))) = 0"

lemma log_ok_few:
  assumes "log_ok s"
  shows "few_dirty 0 (lb s)"
proof -
  have "card (set (logged s)) \<le> length (logged s)" by (rule card_length)
  also have "\<dots> < 30"
  proof -
    have "lhn s < 30" using assms by (simp add: log_ok_def LOGSIZE_def)
    then have "nat (lhn s) < 30" by arith
    then show ?thesis by (simp add: logged_def)
  qed
  finally show ?thesis
    using assms unfolding few_dirty_def log_ok_def NBUF_def
    by (intro exI[of _ "set (logged s)"]) simp
qed

lemma sint_of_small: "0 \<le> n \<Longrightarrow> n \<le> 30 \<Longrightarrow> sint (of_int n :: uint) = n"
  by (simp add: signed_of_int signed_take_bit_int_eq_self)

text \<open>The header that \<open>write_head\<close> puts on top of the old header block \<open>d\<close>.\<close>

definition header_for :: "lst \<Rightarrow> bytes \<Rightarrow> bytes \<Rightarrow> bool" where
  "header_for s d h \<longleftrightarrow> length h = BSIZE \<and> sint (get32 0 h) = lhn s \<and>
     (\<forall>j < nat (lhn s). get32 (4 + 4 * j) h = lhblock s ! j)"

lemma put_head_header:
  assumes "length d = BSIZE" "0 \<le> lhn s" "lhn s \<le> int LOGSIZE"
  shows "header_for s d (put_head s d)"
  using put_head_props[of d s] assms sint_of_small[of "lhn s"]
  by (simp add: header_for_def LOGSIZE_def)

definition data_writes :: "(nat \<times> nat) list \<Rightarrow> bst \<Rightarrow> (nat \<times> bytes) list" where
  "data_writes ps s = map (\<lambda>(n, k). (n, bview s k)) ps"

lemma map_fst_pairs: "map fst (home_pairs s) = logged s"
  "map snd (log_pairs s) = logged s"
  "map fst (log_pairs s) = map (\<lambda>t. unat (lstart s) + t + 1) [0..<nat (lhn s)]"
  "map snd (home_pairs s) = map fst (log_pairs s)"
  by (simp_all add: home_pairs_def log_pairs_def logged_def)

lemma fst_data_writes: "fst ` set (data_writes ps b) = fst ` set ps"
  "map fst (data_writes ps b) = map fst ps"
  by (simp_all add: data_writes_def image_image split_beta comp_def)

lemma log_pairs_in_log:
  assumes "lhn s < lsize s"
  shows "n \<in> set (map fst (log_pairs s)) \<Longrightarrow> in_log s n \<and> n \<noteq> unat (lstart s)"
  using assms by (auto simp: map_fst_pairs in_log_def)

lemma log_pairs_distinct: "distinct (map fst (log_pairs s))"
  by (simp add: map_fst_pairs distinct_map inj_on_def)

lemma pairs_apart:
  assumes "lhn s < lsize s" and "\<forall>n\<in>set (logged s). \<not> in_log s n"
  shows "fst ` set (log_pairs s) \<inter> snd ` set (log_pairs s) = {}"
    and "fst ` set (home_pairs s) \<inter> snd ` set (home_pairs s) = {}"
  using log_pairs_in_log[OF assms(1)] assms(2) map_fst_pairs[of s]
  by (metis disjoint_iff set_map)+

lemma commit_spec:
  assumes ok: "log_ok s" and r: "bready c p {} (lb s)" and n: "0 < lhn s"
  shows "\<exists>u h1 h2. commit s = Ok () (s\<lparr>lb := u, lhn := 0\<rparr>) \<and> binv u \<and> bready c p {} u \<and>
    header_for s (disk (lb s) ! unat (lstart s)) h1 \<and> sint (get32 0 h2) = 0 \<and> length h2 = BSIZE \<and>
    wrote_all (data_writes (log_pairs s) (lb s) @ [(unat (lstart s), h1)] @
      data_writes (map (\<lambda>n. (n, n)) (logged s)) (lb s) @ [(unat (lstart s), h2)]) (lb s) u"
proof -
  let ?b = "lb s" and ?h = "unat (lstart s)" and ?L = "log_pairs s" and ?H = "home_pairs s"
  have b: "binv ?b" and dev: "ldev s = 1" and fit: "lhn s < lsize s" "lhn s < int LOGSIZE"
    and area: "unat (lstart s) + nat (lsize s) \<le> length (disk ?b)"
    and L: "distinct (logged s)" "\<forall>n\<in>set (logged s). n < length (disk ?b) \<and> \<not> in_log s n"
    and dirty: "\<And>n. dirty_block ?b n \<longleftrightarrow> n \<in> set (logged s)"
    using ok by (simp_all add: log_ok_def)
  have few: "few_dirty 0 ?b" by (rule log_ok_few[OF ok])
  have fl: "nat (lhn s) \<le> LOGSIZE" using fit(2) by simp
  have hl: "?h < length (disk ?b)" using area fit n by simp
  have nL: "\<forall>n\<in>set (logged s). \<not> in_log s n" using L(2) by blast
  have inl: "x < length (disk ?b)" if "x \<in> set (map fst ?L)" for x
    using log_pairs_in_log[OF fit(1) that] area by (auto simp: in_log_def)
  have pL: "a < length (disk ?b) \<and> k < length (disk ?b) \<and> (dirty_block ?b k \<or> few_dirty 1 ?b)"
    if "(a, k) \<in> set ?L" for a k
  proof -
    have "a \<in> set (map fst ?L)" "k \<in> set (map snd ?L)" using that by force+
    then show ?thesis using inl L(2) dirty map_fst_pairs(2)[of s] by metis
  qed
  obtain u1 where u1: "for_each (\<lambda>(n, k). copy_dst_first (of_nat n) (of_nat k)) ?L ?b = Ok () u1"
      "binv u1" "bready c p {} u1" "wrote_all (data_writes ?L ?b) ?b u1"
    using copies_spec[where F = copy_dst_first and sel = "\<lambda>n k. k",
        OF copy_dst_first_spec _ b r few pL log_pairs_distinct pairs_apart(1)[OF fit(1) nL]]
    unfolding data_writes_def by blast
  let ?s1 = "s\<lparr>lb := u1\<rparr>"
  have W1: "write_log s = Ok () ?s1" by (rule write_log_Ok[OF dev u1(1)])
  have len1: "length (disk u1) = length (disk ?b)" by (rule wrote_all_length[OF u1(4)])
  obtain u2 where u2: "write_head ?s1 = Ok () (?s1\<lparr>lb := u2\<rparr>)" "binv u2" "bready c p {} u2"
      "wrote ?h (put_head ?s1 (bview u1 ?h)) u1 u2"
    using write_head_Ok[of ?s1 c p] dev fl u1 hl len1 wrote_all_few_dirty[OF u1(4) few] by auto
  let ?h1 = "put_head ?s1 (bview u1 ?h)" and ?s2 = "?s1\<lparr>lb := u2\<rparr>"
  have H1: "header_for s (disk ?b ! ?h) ?h1"
    using put_head_header[of "bview u1 ?h" ?s1] bview_length[OF u1(2)] hl len1 fit n
    by (simp add: header_for_def)
  have w2: "wrote_all (data_writes ?L ?b @ [(?h, ?h1)]) ?b u2"
    by (rule wrote_all_append[OF u1(4) wrote_all_one[OF u2(4)]])
  have len2: "length (disk u2) = length (disk ?b)" by (rule wrote_all_length[OF w2])
  have notlog: "x \<notin> fst ` set (data_writes ?L ?b @ [(?h, ?h1)])" if "x \<in> set (logged s)" for x
    using that nL log_pairs_in_log[OF fit(1)] fit n
    by (auto simp: fst_data_writes in_log_def)
  have d2: "dirty_block u2 x" if "x \<in> set (logged s)" for x
    using w2 notlog[OF that] dirty that unfolding wrote_all_def by blast
  have pH: "a < length (disk u2) \<and> k < length (disk u2) \<and> (dirty_block u2 a \<or> few_dirty 1 u2)"
    if "(a, k) \<in> set (home_pairs ?s2)" for a k
  proof -
    have "home_pairs ?s2 = ?H" by (simp add: home_pairs_def)
    then have "a \<in> set (map fst ?H)" "k \<in> set (map snd ?H)" using that by force+
    then show ?thesis using inl L(2) d2 len2 map_fst_pairs[of s] by metis
  qed
  have H2: "home_pairs ?s2 = ?H" by (simp add: home_pairs_def)
  have dH: "distinct (map fst (home_pairs ?s2))" "fst ` set (home_pairs ?s2) \<inter> snd ` set (home_pairs ?s2) = {}"
    using L(1) pairs_apart(2)[OF fit(1) nL] unfolding H2 by (simp_all add: map_fst_pairs)
  obtain u3 where u3: "for_each (\<lambda>(n, k). copy_src_first (of_nat n) (of_nat k)) (home_pairs ?s2) u2 = Ok () u3"
      "binv u3" "bready c p {} u3" "wrote_all (data_writes (home_pairs ?s2) u2) u2 u3"
    using copies_spec[where F = copy_src_first and sel = "\<lambda>n k. n",
        OF copy_src_first_spec _ u2(2,3) wrote_all_few_dirty[OF w2 few] pH dH]
    unfolding data_writes_def by blast
  have W3: "install_trans ?s2 = Ok () (?s2\<lparr>lb := u3\<rparr>)"
    using install_trans_Ok[of ?s2 u3] dev u3(1) by simp
  have dw: "data_writes (home_pairs ?s2) u2 = data_writes (map (\<lambda>n. (n, n)) (logged s)) ?b"
  proof -
    have "bview u2 (?h + t + 1) = bview ?b (unat (lhblock s ! t))" if t: "t < nat (lhn s)" for t
    proof -
      have m: "(?h + t + 1, bview ?b (unat (lhblock s ! t))) \<in> set (data_writes ?L ?b)"
        using t by (force simp: data_writes_def log_pairs_def)
      then have "?h + t + 1 \<in> fst ` set (data_writes ?L ?b @ [(?h, ?h1)])" by force
      then have "bview u2 (?h + t + 1) = disk u2 ! (?h + t + 1)"
        using w2 by (intro bview_clean[OF u2(2)]) (auto simp: wrote_all_def)
      also have "\<dots> = apply_writes (data_writes ?L ?b) (disk ?b) ! (?h + t + 1)"
        using w2 by (simp add: wrote_all_def)
      also have "\<dots> = bview ?b (unat (lhblock s ! t))"
        by (rule apply_writes_nth[OF _ m])
          (use log_pairs_distinct t fit(1) area in \<open>simp_all add: fst_data_writes\<close>)
      finally show ?thesis .
    qed
    then show ?thesis
      unfolding H2 by (simp add: data_writes_def home_pairs_def logged_def)
  qed
  have w3: "wrote_all (data_writes ?L ?b @ [(?h, ?h1)] @
      data_writes (map (\<lambda>n. (n, n)) (logged s)) ?b) ?b u3"
    using wrote_all_append[OF w2 u3(4)] unfolding dw by simp
  have len3: "length (disk u3) = length (disk ?b)" by (rule wrote_all_length[OF w3])
  let ?s3 = "s\<lparr>lb := u3, lhn := 0\<rparr>"
  obtain u4 where u4: "write_head ?s3 = Ok () (?s3\<lparr>lb := u4\<rparr>)" "binv u4" "bready c p {} u4"
      "wrote ?h (put_head ?s3 (bview u3 ?h)) u3 u4"
    using write_head_Ok[of ?s3 c p] dev u3 hl len3 wrote_all_few_dirty[OF w3 few] by auto
  have H2': "header_for ?s3 (bview u3 ?h) (put_head ?s3 (bview u3 ?h))"
    using put_head_header[of "bview u3 ?h" ?s3] bview_length[OF u3(2)] hl len3 by simp
  have "commit s = Ok () (s\<lparr>lb := u4, lhn := 0\<rparr>)"
    using n W1 u2(1) W3 u4(1) by (simp add: commit_def)
  then show ?thesis
    using u4(2,3) H1 H2' wrote_all_append[OF w3 wrote_all_one[OF u4(4)]]
    by (intro exI[of _ u4] exI[of _ ?h1] exI[of _ "put_head ?s3 (bview u3 ?h)"]) (simp add: header_for_def)
qed

section \<open>Recovery after a crash\<close>

text \<open>The kernel has restarted on the disk \<open>D\<close>: empty buffers, the log's location read back.\<close>

definition rebooted :: "nat \<Rightarrow> nat \<Rightarrow> lst \<Rightarrow> bytes list \<Rightarrow> lst \<Rightarrow> bool" where
  "rebooted c p s D r \<longleftrightarrow> binv (lb r) \<and> bready c p {} (lb r) \<and> (\<forall>n. \<not> dirty_block (lb r) n) \<and>
     disk (lb r) = D \<and> ldev r = 1 \<and> lstart r = lstart s \<and> lsize r = lsize s \<and>
     length (lhblock r) = LOGSIZE"

definition head_blocks :: "bytes \<Rightarrow> nat list" where
  "head_blocks h = map (\<lambda>j. unat (get32 (4 + 4 * j) h)) [0..<nat (sint (get32 0 h))]"

lemma recover_spec:
  assumes rb: "rebooted c p s D r" and h: "h = D ! unat (lstart s)"
    and n: "0 \<le> sint (get32 0 h)" "sint (get32 0 h) < lsize s" "sint (get32 0 h) < int LOGSIZE"
    and area: "unat (lstart s) + nat (lsize s) \<le> length D"
    and L: "distinct (head_blocks h)" "\<forall>m\<in>set (head_blocks h). m < length D \<and> \<not> in_log s m"
  shows "\<exists>r'. recover_from_log r = Ok () r' \<and> log_ok r' \<and> bready c p {} (lb r') \<and>
    (\<forall>m. \<not> in_log s m \<longrightarrow> m \<notin> set (head_blocks h) \<longrightarrow> disk (lb r') ! m = D ! m) \<and>
    (\<forall>j < length (head_blocks h). disk (lb r') ! (head_blocks h ! j) = D ! (unat (lstart s) + j + 1))"
proof -
  let ?h = "unat (lstart s)" and ?n = "sint (get32 0 h)"
  have b: "binv (lb r)" "bready c p {} (lb r)" and nd: "\<And>n. \<not> dirty_block (lb r) n"
    and D: "disk (lb r) = D" and dev: "ldev r = 1" and st: "lstart r = lstart s" "lsize r = lsize s"
    and len: "length (lhblock r) = LOGSIZE"
    using rb by (simp_all add: rebooted_def)
  have few1: "few_dirty 1 (lb r)" "few_dirty 0 (lb r)"
    unfolding few_dirty_def NBUF_def by (intro exI[of _ "{}"]; simp add: nd)+
  have view: "bview (lb r) m = D ! m" for m using bview_clean[OF b(1) nd] D by simp
  have hl: "?h < length D" using area n by linarith
  obtain u L where rh: "read_head r = Ok () (r\<lparr>lhn := ?n, lhblock := L, lb := u\<rparr>)" "binv u" "bready c p {} u"
      "same_blocks (lb r) u" "length L = LOGSIZE" "\<forall>j < nat ?n. L ! j = get32 (4 + 4 * j) h"
    using read_head_Ok[OF dev b _ few1(2), of h] hl view D st h n(3) len by auto
  let ?r1 = "r\<lparr>lhn := ?n, lhblock := L, lb := u\<rparr>"
  have lg: "logged ?r1 = head_blocks h" using rh(6) by (simp add: logged_def head_blocks_def)
  have il: "in_log ?r1 = in_log s" using st by (simp add: in_log_def fun_eq_iff)
  have u: "disk u = D" "\<And>m. bview u m = D ! m" "\<And>m. \<not> dirty_block u m"
    using rh(4) D view nd by (simp_all add: same_blocks_def)
  have fewu: "few_dirty 1 u" "few_dirty 0 u" using few_dirty_same[OF rh(4)] few1 by simp_all
  have fit: "lhn ?r1 < lsize ?r1" using n(2) st by simp
  have pH: "a < length (disk u) \<and> k < length (disk u) \<and> (dirty_block u a \<or> few_dirty 1 u)"
    if "(a, k) \<in> set (home_pairs ?r1)" for a k
  proof -
    have m: "a \<in> set (map fst (home_pairs ?r1))" "k \<in> set (map snd (home_pairs ?r1))"
      using that by force+
    have "a < length D" using m(1) L(2) by (simp only: map_fst_pairs lg)
    moreover have "in_log s k" using log_pairs_in_log[OF fit] m(2) il unfolding map_fst_pairs by metis
    ultimately show ?thesis using fewu(1) u(1) area by (simp add: in_log_def)
  qed
  have nL: "\<forall>n\<in>set (logged ?r1). \<not> in_log ?r1 n" using L(2) unfolding lg il by blast
  have dH: "distinct (map fst (home_pairs ?r1))" using L(1) by (simp only: map_fst_pairs lg)
  obtain v where v: "for_each (\<lambda>(n, k). copy_src_first (of_nat n) (of_nat k)) (home_pairs ?r1) u = Ok () v"
      "binv v" "bready c p {} v" "wrote_all (data_writes (home_pairs ?r1) u) u v"
    using copies_spec[where F = copy_src_first and sel = "\<lambda>n k. n",
        OF copy_src_first_spec _ rh(2,3) fewu(2) pH dH pairs_apart(2)[OF fit nL]]
    unfolding data_writes_def by blast
  have it: "install_trans ?r1 = Ok () (?r1\<lparr>lb := v\<rparr>)"
    using install_trans_Ok[of ?r1 v] dev v(1) by simp
  let ?r2 = "r\<lparr>lhblock := L, lb := v, lhn := 0\<rparr>"
  have lenv: "length (disk v) = length D" using wrote_all_length[OF v(4)] u(1) by simp
  obtain w where w: "write_head ?r2 = Ok () (?r2\<lparr>lb := w\<rparr>)" "binv w" "bready c p {} w"
      "wrote ?h (put_head ?r2 (bview v ?h)) v w"
    using write_head_Ok[of ?r2 c p] dev st v(2,3) hl lenv wrote_all_few_dirty[OF v(4) fewu(2)] by auto
  have H0: "header_for ?r2 (bview v ?h) (put_head ?r2 (bview v ?h))"
    using put_head_header[of "bview v ?h" ?r2] bview_length[OF v(2)] hl lenv by simp
  have run: "recover_from_log r = Ok () (?r2\<lparr>lb := w\<rparr>)"
    using rh(1) it w(1) by (simp add: recover_from_log_def)
  have dw: "disk w = (apply_writes (data_writes (home_pairs ?r1) u) D)[?h := put_head ?r2 (bview v ?h)]"
    using w(4) v(4) u(1) by (simp add: wrote_def wrote_all_def)
  have hlog: "in_log s ?h" using n by (simp add: in_log_def) 
  have out: "disk w ! m = D ! m" if "\<not> in_log s m" "m \<notin> set (head_blocks h)" for m
  proof -
    have "m \<noteq> ?h" using that(1) hlog by blast
    moreover have "m \<notin> fst ` set (data_writes (home_pairs ?r1) u)"
      using that(2) map_fst_pairs(1)[of ?r1] lg by (metis fst_data_writes(1) set_map)
    ultimately show ?thesis unfolding dw by (simp add: apply_writes_other)
  qed
  have inn: "disk w ! (head_blocks h ! j) = D ! (?h + j + 1)" if j: "j < length (head_blocks h)" for j
  proof -
    have jn: "j < nat ?n" using j by (simp add: head_blocks_def)
    have m: "(head_blocks h ! j, D ! (?h + j + 1)) \<in> set (data_writes (home_pairs ?r1) u)"
      using jn rh(6) st by (force simp: data_writes_def home_pairs_def u head_blocks_def image_iff)
    have "head_blocks h ! j \<in> set (head_blocks h)" using j by simp
    then have ne: "head_blocks h ! j \<noteq> ?h" "head_blocks h ! j < length D" using L(2) hlog by auto
    then have "disk w ! (head_blocks h ! j) = apply_writes (data_writes (home_pairs ?r1) u) D ! (head_blocks h ! j)"
      unfolding dw by simp
    also have "\<dots> = D ! (?h + j + 1)"
      by (rule apply_writes_nth[OF _ m ne(2)]) (use dH in \<open>simp add: fst_data_writes\<close>)
    finally show ?thesis .
  qed
  have "\<not> dirty_block w m" for m
    using w(4) v(4) u(3) by (simp add: wrote_def wrote_all_def)
  moreover have "length (disk w) = length D" "disk w ! ?h = put_head ?r2 (bview v ?h)"
    using hl unfolding dw by simp_all
  ultimately have "log_ok (?r2\<lparr>lb := w\<rparr>)"
    using w(2) dev rh(5) st area n H0 by (simp add: log_ok_def logged_def header_for_def LOGSIZE_def)
  then show ?thesis using run w(3) out inn by (intro exI[of _ "?r2\<lparr>lb := w\<rparr>"]) simp
qed

section \<open>Crash atomicity\<close>

lemma apply_writes_in_log:
  assumes "\<And>m. m \<in> fst ` set ws \<Longrightarrow> in_log s m" and "\<not> in_log s n"
  shows "apply_writes ws D ! n = D ! n"
  using assms by (intro apply_writes_other) blast

lemma take_fst_subset: "m \<in> fst ` set (take k ws) \<Longrightarrow> m \<in> fst ` set ws"
  using set_take_subset[of k ws] by auto

lemma header_blocks:
  assumes "header_for s d h" and "0 \<le> lhn s"
  shows "head_blocks h = logged s"
  using assms by (simp add: header_for_def head_blocks_def logged_def)

text \<open>What recovery makes of the disk after the first \<open>k\<close> writes of a commit.\<close>

lemma crash_recovery:
  assumes ok: "log_ok s" and n: "0 < lhn s"
    and h1: "header_for s d h1" and h2: "sint (get32 0 h2) = 0"
    and ws: "ws = data_writes (log_pairs s) (lb s) @ [(unat (lstart s), h1)] @
      data_writes (map (\<lambda>n. (n, n)) (logged s)) (lb s) @ [(unat (lstart s), h2)]"
    and k: "k \<le> length ws" and rb: "rebooted c p s (apply_writes (take k ws) (disk (lb s))) r"
  shows "\<exists>r'. recover_from_log r = Ok () r' \<and> log_ok r' \<and> bready c p {} (lb r') \<and>
    (if k \<le> nat (lhn s) then \<forall>m. \<not> in_log s m \<longrightarrow> disk (lb r') ! m = disk (lb s) ! m
     else \<forall>m. \<not> in_log s m \<longrightarrow> disk (lb r') ! m = bview (lb s) m)"
proof -
  let ?b = "lb s" and ?h = "unat (lstart s)"
  let ?A = "data_writes (log_pairs s) (lb s)" and ?B = "data_writes (map (\<lambda>n. (n, n)) (logged s)) (lb s)"
  let ?D = "apply_writes (take k ws) (disk ?b)"
  have b: "binv ?b" and fit: "lhn s < lsize s" "lhn s < int LOGSIZE"
    and area: "?h + nat (lsize s) \<le> length (disk ?b)"
    and L: "distinct (logged s)" "\<forall>n\<in>set (logged s). n < length (disk ?b) \<and> \<not> in_log s n"
    and dirty: "\<And>n. dirty_block ?b n \<longleftrightarrow> n \<in> set (logged s)"
    and h0: "sint (get32 0 (disk ?b ! ?h)) = 0"
    using ok by (simp_all add: log_ok_def)
  have hl: "?h < length (disk ?b)" and hin: "in_log s ?h" using area fit n by (auto simp: in_log_def)
  have lenA: "length ?A = nat (lhn s)" by (simp add: data_writes_def log_pairs_def)
  have lenB: "length ?B = nat (lhn s)" by (simp add: data_writes_def logged_def)
  have Ain: "in_log s m \<and> m \<noteq> ?h" if "m \<in> fst ` set ?A" for m
    using that log_pairs_in_log[OF fit(1), of m] by (simp add: fst_data_writes)
  have fB: "fst ` set ?B = set (logged s)" by (simp add: fst_data_writes image_image)
  have Bout: "\<not> in_log s m" if "m \<in> fst ` set ?B" for m using that L(2) unfolding fB by blast
  have clean: "bview ?b m = disk ?b ! m" if "m \<notin> set (logged s)" for m
    using bview_clean[OF b] dirty that by blast
  have area': "?h + nat (lsize s) \<le> length ?D" using area by simp
  have s0: "0 < lsize s" using fit n by simp
  have empty: ?thesis
    if hd: "sint (get32 0 (?D ! ?h)) = 0"
      and data: "\<And>m. \<not> in_log s m \<Longrightarrow> ?D ! m = (if k \<le> nat (lhn s) then disk ?b ! m else bview ?b m)"
  proof -
    have "head_blocks (?D ! ?h) = []" using hd by (simp add: head_blocks_def)
    with recover_spec[OF rb refl, of] hd s0 area' obtain r' where
      "recover_from_log r = Ok () r'" "log_ok r'" "bready c p {} (lb r')"
      "\<forall>m. \<not> in_log s m \<longrightarrow> disk (lb r') ! m = ?D ! m"
      by (auto simp: LOGSIZE_def)
    then show ?thesis using data by (intro exI[of _ r']) simp
  qed
  consider (before) "k \<le> nat (lhn s)" | (mid) "nat (lhn s) < k" "k < length ws" | (after) "k = length ws"
    using k by linarith
  then show ?thesis
  proof cases
    case before
    then have tk: "take k ws = take k ?A" using lenA by (simp add: ws)
    have tA: "in_log s m \<and> m \<noteq> ?h" if "m \<in> fst ` set (take k ?A)" for m
      by (rule Ain[OF take_fst_subset[OF that]])
    have "?h \<notin> fst ` set (take k ?A)" using tA[of ?h] by argo
    then have "?D ! ?h = disk ?b ! ?h"
      unfolding tk by (rule apply_writes_other)
    moreover have "?D ! m = disk ?b ! m" if "\<not> in_log s m" for m
      unfolding tk by (rule apply_writes_in_log[OF tA[THEN conjunct1] that])
    ultimately show ?thesis using empty h0 before by simp
  next
    case mid
    let ?j = "k - nat (lhn s) - 1"
    have tk: "take k ws = ?A @ [(?h, h1)] @ take ?j ?B"
    proof -
      have "k = nat (lhn s) + Suc ?j" "?j \<le> nat (lhn s)" using mid lenA lenB by (simp_all add: ws)
      then have "take k ws = take (length ?A + Suc ?j) (?A @ [(?h, h1)] @ ?B @ [(?h, h2)])"
        using lenA ws by simp
      then show ?thesis using \<open>?j \<le> nat (lhn s)\<close> lenB by simp
    qed
    have notB: "m \<notin> fst ` set (take ?j ?B)" if "in_log s m" for m
      using that Bout[OF take_fst_subset[of m ?j ?B]] by argo
    have hd: "?D ! ?h = h1"
      unfolding tk using apply_writes_other[OF notB[OF hin]] hl by simp
    have hb: "head_blocks h1 = logged s" using header_blocks[OF h1] n by simp
    have lg: "?D ! (?h + j + 1) = bview ?b (logged s ! j)" if j: "j < length (logged s)" for j
    proof -
      have jn: "j < nat (lhn s)" using j by (simp add: logged_def)
      have m: "(?h + j + 1, bview ?b (logged s ! j)) \<in> set ?A"
        using jn by (force simp: data_writes_def log_pairs_def logged_def)
      then have "in_log s (?h + j + 1)" using Ain by force
      from apply_writes_other[OF notB[OF this]]
      have "?D ! (?h + j + 1) = apply_writes ?A (disk ?b) ! (?h + j + 1)" unfolding tk by simp
      also have "\<dots> = bview ?b (logged s ! j)"
        by (rule apply_writes_nth[OF _ m])
          (use log_pairs_distinct jn fit(1) area in \<open>simp_all add: fst_data_writes\<close>)
      finally show ?thesis .
    qed
    have oth: "?D ! m = disk ?b ! m" if "\<not> in_log s m" "m \<notin> set (logged s)" for m
    proof -
      have "m \<notin> fst ` set (take k ws)"
        using that Ain hin take_fst_subset[of m ?j ?B] fB unfolding tk by auto
      then show ?thesis by (rule apply_writes_other)
    qed
    have h1n: "sint (get32 0 h1) = lhn s" using h1 by (simp add: header_for_def)
    from recover_spec[OF rb hd[symmetric]] obtain r' where r':
      "recover_from_log r = Ok () r'" "log_ok r'" "bready c p {} (lb r')"
      "\<forall>m. \<not> in_log s m \<longrightarrow> m \<notin> set (logged s) \<longrightarrow> disk (lb r') ! m = ?D ! m"
      "\<forall>j < length (logged s). disk (lb r') ! (logged s ! j) = ?D ! (?h + j + 1)"
      using h1n n fit area' L unfolding hb by auto
    have "disk (lb r') ! m = bview ?b m" if "\<not> in_log s m" for m
    proof (cases "m \<in> set (logged s)")
      case True
      then obtain j where "j < length (logged s)" "m = logged s ! j" by (auto simp: in_set_conv_nth)
      then show ?thesis using r'(5) lg by simp
    next
      case False
      then show ?thesis using r'(4) oth clean that by simp
    qed
    then show ?thesis using r'(1-3) mid(1) by (intro exI[of _ r']) simp
  next
    case after
    then have tk: "take k ws = ?A @ [(?h, h1)] @ ?B @ [(?h, h2)]" by (simp add: ws)
    have "?D ! ?h = h2" unfolding tk using hl by simp
    moreover have "?D ! m = bview ?b m" if m: "\<not> in_log s m" for m
    proof -
      have ne: "m \<noteq> ?h" using m hin by blast
      have e: "apply_writes (?A @ [(?h, h1)]) (disk ?b) ! m = disk ?b ! m"
        by (rule apply_writes_in_log[OF _ m]) (use Ain hin in auto)
      have "?D ! m = apply_writes ?B (apply_writes (?A @ [(?h, h1)]) (disk ?b)) ! m"
        unfolding tk using ne by simp
      also have "\<dots> = bview ?b m"
      proof (cases "m \<in> set (logged s)")
        case True
        then have i: "(m, bview ?b m) \<in> set ?B" by (force simp: data_writes_def)
        show ?thesis
          by (rule apply_writes_nth[OF _ i])
            (use L True in \<open>simp_all add: fst_data_writes comp_def\<close>)
      next
        case False
        then show ?thesis using apply_writes_other[of m ?B] fB e clean by simp
      qed
      finally show ?thesis .
    qed
    moreover have "nat (lhn s) < k" using after lenA by (simp add: ws)
    ultimately show ?thesis using empty h2 by simp
  qed
qed

lemma commit_writes_ok:
  assumes ok: "log_ok s" and n: "0 < lhn s" and h: "length h1 = BSIZE" "length h2 = BSIZE"
  shows "list_all (\<lambda>(n, d). n < length (disk (lb s)) \<and> length d = BSIZE)
    (data_writes (log_pairs s) (lb s) @ [(unat (lstart s), h1)] @
     data_writes (map (\<lambda>n. (n, n)) (logged s)) (lb s) @ [(unat (lstart s), h2)])"
proof -
  have b: "binv (lb s)" and area: "unat (lstart s) + nat (lsize s) \<le> length (disk (lb s))"
    and fit: "lhn s < lsize s" and L: "\<forall>n\<in>set (logged s). n < length (disk (lb s))"
    using ok by (simp_all add: log_ok_def)
  have "n < length (disk (lb s)) \<and> k < length (disk (lb s))" if "(n, k) \<in> set (log_pairs s)" for n k
  proof -
    have m: "n \<in> set (map fst (log_pairs s))" "k \<in> set (map snd (log_pairs s))" using that by force+
    then have "in_log s n" using log_pairs_in_log[OF fit] by blast
    then show ?thesis using m(2) L area by (simp only: map_fst_pairs) (simp add: in_log_def)
  qed
  moreover have "unat (lstart s) < length (disk (lb s))" using area fit n by linarith
  ultimately show ?thesis
    using h L bview_length[OF b] by (auto simp: list_all_iff data_writes_def)
qed

lemma good_disk_apply:
  assumes "good_disk D" and "list_all (\<lambda>(n, d). n < length D \<and> length d = BSIZE) ws"
  shows "good_disk (apply_writes ws D)"
  using assms
proof (induction ws arbitrary: D)
  case (Cons w ws)
  obtain n d where w: "w = (n, d)" by fastforce
  have "good_disk (D[n := d])"
    using Cons.prems w by (auto simp: good_disk_def list_all_length nth_list_update)
  then show ?case using Cons.IH[of "D[n := d]"] Cons.prems(2) w by simp
qed simp

text \<open>C5: A commit is atomic with respect to crashes.  From any state in which a transaction has
  logged its blocks, \<open>commit\<close> returns, having written some sequence of blocks to the disk.  If the
  machine stops after any number \<open>k\<close> of these writes, the kernel started on that disk recovers with
  \<open>recover_from_log\<close>, and then, outside the log area, the disk holds either exactly the contents
  from before the transaction (when the header had not been written) or exactly the contents the
  transaction gave it, and never a mixture.\<close>

theorem commit_crash_atomic:
  assumes ok: "log_ok s" and r: "bready c p {} (lb s)" and n: "0 < lhn s"
  shows "\<exists>s' ws. commit s = Ok () s' \<and> writes (lb s') = writes (lb s) @ ws \<and>
    list_all (\<lambda>(n, d). n < length (disk (lb s)) \<and> length d = BSIZE) ws \<and>
    (\<forall>k q c' p'. k \<le> length ws \<longrightarrow> rebooted c' p' s (apply_writes (take k ws) (disk (lb s))) q \<longrightarrow>
      (\<exists>q'. recover_from_log q = Ok () q' \<and> log_ok q' \<and>
        ((\<forall>m. \<not> in_log s m \<longrightarrow> disk (lb q') ! m = disk (lb s) ! m) \<and> k \<le> nat (lhn s) \<or>
         (\<forall>m. \<not> in_log s m \<longrightarrow> disk (lb q') ! m = bview (lb s) m) \<and> nat (lhn s) < k)))"
proof -
  obtain u h1 h2 where u: "commit s = Ok () (s\<lparr>lb := u, lhn := 0\<rparr>)"
    "header_for s (disk (lb s) ! unat (lstart s)) h1" "sint (get32 0 h2) = 0" "length h2 = BSIZE"
    "wrote_all (data_writes (log_pairs s) (lb s) @ [(unat (lstart s), h1)] @
      data_writes (map (\<lambda>n. (n, n)) (logged s)) (lb s) @ [(unat (lstart s), h2)]) (lb s) u"
    using commit_spec[OF assms] by blast
  define ws where ws: "ws = data_writes (log_pairs s) (lb s) @ [(unat (lstart s), h1)] @
      data_writes (map (\<lambda>n. (n, n)) (logged s)) (lb s) @ [(unat (lstart s), h2)]"
  have "\<exists>q'. recover_from_log q = Ok () q' \<and> log_ok q' \<and>
      ((\<forall>m. \<not> in_log s m \<longrightarrow> disk (lb q') ! m = disk (lb s) ! m) \<and> k \<le> nat (lhn s) \<or>
       (\<forall>m. \<not> in_log s m \<longrightarrow> disk (lb q') ! m = bview (lb s) m) \<and> nat (lhn s) < k)"
    if "k \<le> length ws" "rebooted c' p' s (apply_writes (take k ws) (disk (lb s))) q" for k q c' p'
    using crash_recovery[OF ok n u(2,3) ws that] by (cases "k \<le> nat (lhn s)") auto
  moreover have "writes u = writes (lb s) @ ws" using u(5) unfolding ws wrote_all_def by blast
  moreover have "list_all (\<lambda>(n, d). n < length (disk (lb s)) \<and> length d = BSIZE) ws"
    unfolding ws by (rule commit_writes_ok[OF ok n]) (use u(2,4) in \<open>simp_all add: header_for_def\<close>)
  ultimately show ?thesis using u(1) by (intro exI[of _ "s\<lparr>lb := u, lhn := 0\<rparr>"] exI[of _ ws]) simp
qed

text \<open>The witness: a disk of eight blocks with a log of three blocks at block 2; block 6 is logged.\<close>

definition small_disk :: "bytes list" where "small_disk = replicate 8 zero_block"

definition one_block_txn :: lst where
  "one_block_txn = \<lparr>lb = dirty_bst small_disk 6 (replicate BSIZE 1), lstart = 2, lsize = 3,
     outstanding = 0, committing = True, ldev = 1, lhn = 1, lhblock = replicate LOGSIZE 6\<rparr>"

definition rebooted_on :: "bytes list \<Rightarrow> lst" where
  "rebooted_on D = \<lparr>lb = boot_bst D, lstart = 2, lsize = 3, outstanding = 0, committing = False,
     ldev = 1, lhn = 0, lhblock = replicate LOGSIZE 0\<rparr>"

lemma small_disk_good: "good_disk small_disk"
  by (simp add: good_disk_def small_disk_def list_all_length)

lemma get32_zero_block: "get32 0 zero_block = 0"
  by (simp add: get32_def zero_block_def BSIZE_def of_le32_def)

lemma one_block_log_ok: "log_ok one_block_txn"
  using dirty_bst_binv[OF small_disk_good, of 6 "replicate BSIZE 1"] dirty_bst_dirty[of 6 small_disk]
  by (simp add: log_ok_def one_block_txn_def logged_def in_log_def LOGSIZE_def dirty_bst_def boot_bst_def
      small_disk_def get32_zero_block)

theorem commit_crash_atomic_witness:
  "\<exists>s' ws. commit one_block_txn = Ok () s' \<and> writes (lb s') = ws \<and>
    (\<forall>k \<le> length ws. \<exists>q'. recover_from_log (rebooted_on (apply_writes (take k ws) small_disk)) = Ok () q' \<and>
      (disk (lb q') ! 6 = zero_block \<and> k \<le> 1 \<or> disk (lb q') ! 6 = replicate BSIZE 1 \<and> 1 < k))"
proof -
  let ?s = one_block_txn
  have lb: "lb ?s = dirty_bst small_disk 6 (replicate BSIZE 1)" "disk (lb ?s) = small_disk" "writes (lb ?s) = []"
    "lhn ?s = 1" "\<not> in_log ?s 6" "small_disk ! 6 = zero_block"
    by (simp_all add: one_block_txn_def dirty_bst_def boot_bst_def in_log_def small_disk_def)
  have b: "binv (lb ?s)" using one_block_log_ok by (simp add: log_ok_def)
  have v: "bview (lb ?s) 6 = replicate BSIZE 1"
    using bview_cached[OF b, of 0 6] by (simp add: lb dirty_bst_buf NBUF_def)
  have r: "bready 0 0 {} (lb ?s)" unfolding lb by (rule dirty_bst_ready)
  obtain s' ws where s': "commit ?s = Ok () s'" "writes (lb s') = ws"
    and wok: "list_all (\<lambda>(n, d). n < length small_disk \<and> length d = BSIZE) ws"
    and rec: "\<And>k q. k \<le> length ws \<Longrightarrow> rebooted 0 0 ?s (apply_writes (take k ws) small_disk) q \<Longrightarrow>
      \<exists>q'. recover_from_log q = Ok () q' \<and>
        ((\<forall>m. \<not> in_log ?s m \<longrightarrow> disk (lb q') ! m = small_disk ! m) \<and> k \<le> 1 \<or>
         (\<forall>m. \<not> in_log ?s m \<longrightarrow> disk (lb q') ! m = bview (lb ?s) m) \<and> 1 < k)"
    using commit_crash_atomic[OF one_block_log_ok r] unfolding lb(2,3,4) by force
  have "rebooted 0 0 ?s D (rebooted_on D)" if "good_disk D" for D
    using boot_bst_binv[OF that] boot_bst_ready[of D] boot_bst_clean[of D]
    by (simp add: rebooted_def rebooted_on_def one_block_txn_def) (simp add: boot_bst_def)
  then have "rebooted 0 0 ?s (apply_writes (take k ws) small_disk)
      (rebooted_on (apply_writes (take k ws) small_disk))" for k
    using good_disk_apply[OF small_disk_good, of "take k ws"] wok
    by (metis append_take_drop_id list_all_append)
  with rec have "\<exists>q'. recover_from_log (rebooted_on (apply_writes (take k ws) small_disk)) = Ok () q' \<and>
      (disk (lb q') ! 6 = zero_block \<and> k \<le> 1 \<or> disk (lb q') ! 6 = replicate BSIZE 1 \<and> 1 < k)"
    if "k \<le> length ws" for k
    using that lb(5,6) v by metis
  then show ?thesis using s' by blast
qed

end
