(* ===== verification/BlockStore.thy ===== *)
theory BlockStore
  imports LogCrash
begin

text \<open>
  The interface the file system uses: read a block, change its bytes, record the change, release
  the buffer.  The locale \<open>block_store\<close> states the contract over an abstract view of the blocks;
  the buffer cache provides it twice, with \<open>bwrite\<close> (write through) and with \<open>log_write\<close>
  (deferred to the commit).
\<close>

text \<open>
  \<open>ok k s\<close>: no buffer is held and \<open>k\<close> more changes fit; \<open>held k i n s\<close>: the buffer \<open>i\<close> is held and
  holds block \<open>n\<close>.
\<close>

locale block_store =
  fixes rd :: "nat \<Rightarrow> 's \<Rightarrow> (nat, 's) res"
    and content :: "nat \<Rightarrow> 's \<Rightarrow> bytes"
    and wr :: "nat \<Rightarrow> bytes \<Rightarrow> 's \<Rightarrow> (unit, 's) res"
    and rel :: "nat \<Rightarrow> 's \<Rightarrow> (unit, 's) res"
    and ok :: "nat \<Rightarrow> 's \<Rightarrow> bool"
    and held :: "nat \<Rightarrow> nat \<Rightarrow> nat \<Rightarrow> 's \<Rightarrow> bool"
    and view :: "'s \<Rightarrow> nat \<Rightarrow> bytes"
    and blocks :: "'s \<Rightarrow> nat set"
  assumes rd: "ok k s \<Longrightarrow> n \<in> blocks s \<Longrightarrow> \<exists>i s'. rd n s = Ok i s' \<and> held k i n s' \<and>
      content i s' = view s n \<and> view s' = view s \<and> blocks s' = blocks s"
    and wr: "held (Suc k) i n s \<Longrightarrow> n \<in> blocks s \<Longrightarrow> length d = BSIZE \<Longrightarrow>
      \<exists>s'. wr i d s = Ok () s' \<and> held k i n s' \<and> content i s' = d \<and> view s' = (view s)(n := d) \<and>
        blocks s' = blocks s"
    and rel: "held k i n s \<Longrightarrow> \<exists>s'. rel i s = Ok () s' \<and> ok k s' \<and> view s' = view s \<and> blocks s' = blocks s"
    and view_length: "ok k s \<Longrightarrow> n \<in> blocks s \<Longrightarrow> length (view s n) = BSIZE"
begin

text \<open>The client's way to change one block.\<close>

definition update :: "nat \<Rightarrow> (bytes \<Rightarrow> bytes) \<Rightarrow> 's \<Rightarrow> (unit, 's) res" where
  "update n f s = call (rd n s) (\<lambda>i s. call (wr i (f (content i s)) s) (\<lambda>_ s. rel i s))"

lemma update_view:
  assumes "ok (Suc k) s" and "n \<in> blocks s" and "\<And>d. length d = BSIZE \<Longrightarrow> length (f d) = BSIZE"
  shows "\<exists>s'. update n f s = Ok () s' \<and> ok k s' \<and> view s' = (view s)(n := f (view s n)) \<and>
    blocks s' = blocks s"
proof -
  obtain i s1 where 1: "rd n s = Ok i s1" "held (Suc k) i n s1" "content i s1 = view s n"
    "view s1 = view s" "blocks s1 = blocks s"
    using rd[OF assms(1,2)] by blast
  have "length (f (view s n)) = BSIZE" by (rule assms(3)[OF view_length[OF assms(1,2)]])
  then obtain s2 where 2: "wr i (f (view s n)) s1 = Ok () s2" "held k i n s2"
    "view s2 = (view s1)(n := f (view s n))" "blocks s2 = blocks s1"
    using wr[OF 1(2)] 1(5) assms(2) by blast
  obtain s3 where "rel i s2 = Ok () s3" "ok k s3" "view s3 = view s2" "blocks s3 = blocks s2"
    using rel[OF 2(2)] by blast
  then show ?thesis using 1 2 by (simp add: update_def)
qed

text \<open>Reading does not change any block.\<close>

definition fetch :: "nat \<Rightarrow> 's \<Rightarrow> (bytes, 's) res" where
  "fetch n s = call (rd n s) (\<lambda>i s. let d = content i s in call (rel i s) (\<lambda>_ s. Ok d s))"

lemma fetch_view:
  assumes "ok k s" and "n \<in> blocks s"
  shows "\<exists>s'. fetch n s = Ok (view s n) s' \<and> ok k s' \<and> view s' = view s \<and> blocks s' = blocks s"
proof -
  obtain i s1 where 1: "rd n s = Ok i s1" "held k i n s1" "content i s1 = view s n"
    "view s1 = view s" "blocks s1 = blocks s"
    using rd[OF assms] by blast
  obtain s2 where "rel i s1 = Ok () s2" "ok k s2" "view s2 = view s1" "blocks s2 = blocks s1"
    using rel[OF 1(2)] by blast
  then show ?thesis using 1 by (simp add: fetch_def Let_def)
qed

text \<open>A sequence of changes composes like function updates.\<close>

fun updates :: "(nat \<times> (bytes \<Rightarrow> bytes)) list \<Rightarrow> 's \<Rightarrow> (unit, 's) res" where
  "updates [] s = Ok () s"
| "updates ((n, f) # us) s = call (update n f s) (\<lambda>_ s. updates us s)"

lemma updates_view:
  assumes "ok (length us + k) s" and "\<And>n f. (n, f) \<in> set us \<Longrightarrow> n \<in> blocks s"
    and "\<And>n f d. (n, f) \<in> set us \<Longrightarrow> length d = BSIZE \<Longrightarrow> length (f d) = BSIZE"
  shows "\<exists>s'. updates us s = Ok () s' \<and> ok k s' \<and>
    view s' = fold (\<lambda>(n, f) v. v(n := f (v n))) us (view s) \<and> blocks s' = blocks s"
  using assms
proof (induction us arbitrary: s)
  case (Cons u us)
  obtain n f where u: "u = (n, f)" by fastforce
  have o: "ok (Suc (length us + k)) s" "n \<in> blocks s"
    using Cons.prems(1) Cons.prems(2)[of n f] u by simp_all
  have l: "\<And>d. length d = BSIZE \<Longrightarrow> length (f d) = BSIZE" using Cons.prems(3)[of n f] u by simp
  obtain s1 where s1: "update n f s = Ok () s1" "ok (length us + k) s1"
    "view s1 = (view s)(n := f (view s n))" "blocks s1 = blocks s"
    using update_view[of "length us + k" s n f] o l by blast
  have "\<exists>s'. updates us s1 = Ok () s' \<and> ok k s' \<and>
      view s' = fold (\<lambda>(n, f) v. v(n := f (v n))) us (view s1) \<and> blocks s' = blocks s1"
  proof (rule Cons.IH[OF s1(2)])
    fix n' f' assume m: "(n', f') \<in> set us"
    then show "n' \<in> blocks s1" using Cons.prems(2)[of n' f'] s1(4) by simp
    show "length (f' d) = BSIZE" if "length d = BSIZE" for d
      using Cons.prems(3)[of n' f' d] m that by simp
  qed
  then show ?case using s1 u by (auto simp del: fun_upd_apply)
qed simp

end

section \<open>The cache, written through\<close>

definition cache_ok :: "nat \<Rightarrow> bst \<Rightarrow> bool" where
  "cache_ok k s \<longleftrightarrow> binv s \<and> few_dirty 0 s \<and> (\<exists>c p. bready c p {} s)"

definition cache_held :: "nat \<Rightarrow> nat \<Rightarrow> nat \<Rightarrow> bst \<Rightarrow> bool" where
  "cache_held k i n s \<longleftrightarrow> binv s \<and> few_dirty 0 s \<and> (\<exists>c p. bready c p {i} s) \<and> i < NBUF \<and>
     bvalid (bufs s ! i) \<and> unat (bblockno (bufs s ! i)) = n"

definition write_through :: "nat \<Rightarrow> bytes \<Rightarrow> bst \<Rightarrow> (unit, bst) res" where
  "write_through i d s = bwrite i (set_buf i (\<lambda>b. b\<lparr>bdata := d\<rparr>) s)"

interpretation through: block_store "\<lambda>n. bread 1 (of_nat n)" "\<lambda>i s. bdata (bufs s ! i)" write_through brelse
  cache_ok cache_held bview "\<lambda>s. {..<length (disk s)}"
proof
  fix k n :: nat and s :: bst
  assume o: "cache_ok k s" and n: "n \<in> {..<length (disk s)}"
  then obtain c p where b: "binv s" "few_dirty 0 s" "bready c p {} s" by (auto simp: cache_ok_def)
  obtain i s' where i: "bread 1 (of_nat n) s = Ok i s'" "got_block c p {} s n i s'"
    using read_block[OF b(1,3) _ b(2)] n by (metis lessThan_iff)
  then show "\<exists>i s'. bread 1 (of_nat n) s = Ok i s' \<and> cache_held k i n s' \<and> bdata (bufs s' ! i) = bview s n \<and>
      bview s' = bview s \<and> {..<length (disk s')} = {..<length (disk s)}"
    using few_dirty_same[of s s'] b(2)
    by (fastforce simp: got_block_def cache_held_def same_blocks_def fun_eq_iff)
  show "length (bview s n) = BSIZE" using bview_length[OF b(1)] n by simp
next
  fix k i n :: nat and s :: bst and d :: bytes
  assume h: "cache_held (Suc k) i n s" and d: "length d = BSIZE"
  then obtain c p where b: "binv s" "few_dirty 0 s" "bready c p {i} s" "i < NBUF" "bvalid (bufs s ! i)"
    "n = unat (bblockno (bufs s ! i))" by (auto simp: cache_held_def)
  obtain t where t: "bwrite i (set_buf i (\<lambda>b. b\<lparr>bdata := d\<rparr>) s) = Ok () t" "binv t" "bready c p {i} t"
    "disk t = (disk s)[n := d]" "\<forall>m. bview t m = (if m = n then d else bview s m)"
    "\<forall>m. dirty_block t m = (m \<noteq> n \<and> dirty_block s m)"
    "bufs t = (bufs s)[i := (bufs s ! i)\<lparr>bdata := d, bdirty := False\<rparr>]"
    using bwrite_spec[OF b(1,3) _ b(4,5,6) d] by auto
  have "few_dirty 0 t" using b(2) t(6) unfolding few_dirty_def by auto
  then show "\<exists>s'. write_through i d s = Ok () s' \<and> cache_held k i n s' \<and> bdata (bufs s' ! i) = d \<and>
      bview s' = (bview s)(n := d) \<and> {..<length (disk s')} = {..<length (disk s)}"
    using t b binvD(1)[OF b(1,4)] by (intro exI[of _ t]) (auto simp: write_through_def cache_held_def fun_eq_iff)
next
  fix k i n :: nat and s :: bst
  assume "cache_held k i n s"
  then obtain c p where b: "binv s" "few_dirty 0 s" "bready c p {i} s" "i < NBUF" by (auto simp: cache_held_def)
  obtain t where "brelse i s = Ok () t" "binv t" "bready c p {} t" "same_blocks s t"
    using brelse_spec[OF b(1,3) _ b(4)] by auto
  then show "\<exists>s'. brelse i s = Ok () s' \<and> cache_ok k s' \<and> bview s' = bview s \<and>
      {..<length (disk s')} = {..<length (disk s)}"
    using b(2) few_dirty_same[of s t] by (auto simp: cache_ok_def same_blocks_def fun_eq_iff)
qed

section \<open>The cache, through the log\<close>

definition write_logged :: "nat \<Rightarrow> bytes \<Rightarrow> lst \<Rightarrow> (unit, lst) res" where
  "write_logged i d s = log_write i (set_data i d s)"

definition in_txn :: "nat \<Rightarrow> lst \<Rightarrow> bool" where
  "in_txn k s \<longleftrightarrow> log_ok s \<and> outstanding s = 1 \<and> \<not> committing s \<and> lhn s + int k < lsize s \<and> lhn s + int k < int LOGSIZE"

definition logged_ok :: "nat \<Rightarrow> lst \<Rightarrow> bool" where
  "logged_ok k s \<longleftrightarrow> in_txn k s \<and> (\<exists>c p. bready c p {} (lb s))"

definition logged_held :: "nat \<Rightarrow> nat \<Rightarrow> nat \<Rightarrow> lst \<Rightarrow> bool" where
  "logged_held k i n s \<longleftrightarrow> in_txn k s \<and> (\<exists>c p. bready c p {i} (lb s)) \<and> i < NBUF \<and>
     bvalid (bufs (lb s) ! i) \<and> unat (bblockno (bufs (lb s) ! i)) = n"

definition data_blocks :: "lst \<Rightarrow> nat set" where
  "data_blocks s = {n. n < length (disk (lb s)) \<and> \<not> in_log s n}"

lemma log_ok_same:
  assumes "log_ok s" and "same_blocks (lb s) t" and "binv t"
  shows "log_ok (s\<lparr>lb := t\<rparr>)"
  using assms by (simp add: log_ok_def same_blocks_def logged_def in_log_def)

lemma lb_same: "s\<lparr>lb := lb s\<rparr> = s"
  by (cases s) simp

text \<open>The list of logged blocks after \<open>log_write\<close> of a block with number \<open>n\<close>.\<close>

definition log_add :: "uint \<Rightarrow> lst \<Rightarrow> lst" where
  "log_add n s = (let i = log_slot n s; s = s\<lparr>lhblock := (lhblock s)[i := n]\<rparr> in
     if int i = lhn s then s\<lparr>lhn := lhn s + 1\<rparr> else s)"

lemma log_add_logged:
  assumes n: "0 \<le> lhn s" "lhn s < int LOGSIZE" "length (lhblock s) = LOGSIZE"
  shows "logged (log_add n s) = (if unat n \<in> set (logged s) then logged s else logged s @ [unat n])"
    and "lhn (log_add n s) = (if unat n \<in> set (logged s) then lhn s else lhn s + 1)"
    and "length (lhblock (log_add n s)) = LOGSIZE" "lb (log_add n s) = lb s" "ldev (log_add n s) = ldev s"
    "lstart (log_add n s) = lstart s" "lsize (log_add n s) = lsize s" "outstanding (log_add n s) = outstanding s"
    "committing (log_add n s) = committing s"
proof -
  let ?f = "find (\<lambda>j. lhblock s ! j = n) [0..<nat (lhn s)]"
  have all: "logged (log_add n s) = (if unat n \<in> set (logged s) then logged s else logged s @ [unat n]) \<and>
      lhn (log_add n s) = (if unat n \<in> set (logged s) then lhn s else lhn s + 1)"
  proof (cases ?f)
    case None
    then have nin: "unat n \<notin> set (logged s)"
      by (auto simp: find_None_iff logged_def word_unat_eq_iff)
    have slot: "log_slot n s = nat (lhn s)" using None by (simp add: log_slot_def)
    have up: "nat (lhn s + 1) = Suc (nat (lhn s))" using n(1) by simp
    show ?thesis
      using nin n slot up by (auto simp: log_add_def Let_def logged_def)
  next
    case (Some j)
    then have j: "j < nat (lhn s)" "lhblock s ! j = n" using find_SomeD[OF Some] by auto
    then have "unat n \<in> set (logged s)" by (auto simp: logged_def)
    moreover have "(lhblock s)[j := n] = lhblock s" using j(2) by (metis list_update_id)
    ultimately show ?thesis
      using Some j(1) by (simp add: log_add_def log_slot_def Let_def logged_def)
  qed
  then show "logged (log_add n s) = (if unat n \<in> set (logged s) then logged s else logged s @ [unat n])"
    "lhn (log_add n s) = (if unat n \<in> set (logged s) then lhn s else lhn s + 1)" by blast+
qed (use assms in \<open>simp_all add: log_add_def Let_def\<close>)

lemma log_write_eq:
  assumes c: "on_cpu c (bm (lb s))" "all_free (bm (lb s))"
    and o: "1 \<le> outstanding s" and n: "lhn s < int LOGSIZE" "lhn s < lsize s - 1"
  shows "log_write i s = Ok () ((log_add (bblockno (lbuf s i)) s)
    \<lparr>lb := set_buf i (\<lambda>b. b\<lparr>bdirty := True\<rparr>) (lb s)\<rparr>)"
proof -
  let ?a = "s\<lparr>lb := (lb s)\<lparr>bm := take_lock c LogLock (bm (lb s))\<rparr>\<rparr>"
  have acq: "on_lm (acquire LogLock) s = Ok () ?a"
    by (rule zoom_Ok[of "on_bm (acquire LogLock)" lb]) (rule bm_acquire[OF c])
  have rel: "on_lm (release LogLock) t = Ok () (t\<lparr>lb := (lb t)\<lparr>bm := bm (lb s)\<rparr>\<rparr>)"
    if "bm (lb t) = take_lock c LogLock (bm (lb s))" for t
    by (rule zoom_Ok[of "on_bm (release LogLock)" lb]) (rule bm_release[OF that c])
  have same: "(set_buf i f (lb s))\<lparr>bm := bm (lb s)\<rparr> = set_buf i f (lb s)" for f
    by (simp add: set_buf_def)
  have slot: "log_slot k (s\<lparr>lb := x\<rparr>) = log_slot k s" for k x
    by (simp add: log_slot_def split: option.splits)
  show ?thesis
    using o n by (simp add: log_write_def acq rel Let_def lbuf_def slot log_add_def)
      (simp add: set_buf_def)
qed

lemma logged_write_ok:
  assumes L: "log_ok s" and fit: "lhn s + 1 < lsize s" "lhn s + 1 < int LOGSIZE" and o: "1 \<le> outstanding s"
    and r: "bready c p {i} (lb s)" and i: "i < NBUF" "bvalid (bufs (lb s) ! i)"
    and n: "unat (bblockno (bufs (lb s) ! i)) = n" "\<not> in_log s n" and d: "length d = BSIZE"
  shows "\<exists>s'. write_logged i d s = Ok () s' \<and> log_ok s' \<and> lhn s' \<le> lhn s + 1 \<and> 
    bready c p {i} (lb s') \<and> bvalid (bufs (lb s') ! i) \<and> unat (bblockno (bufs (lb s') ! i)) = n \<and>
    bdata (bufs (lb s') ! i) = d \<and> bview (lb s') = (bview (lb s))(n := d) \<and> disk (lb s') = disk (lb s) \<and>
    writes (lb s') = writes (lb s) \<and> bm (lb s') = bm (lb s) \<and>
    lstart s' = lstart s \<and> lsize s' = lsize s \<and> outstanding s' = outstanding s \<and> committing s' = committing s"
proof -
  let ?t = "set_data i d s" and ?bn = "bblockno (bufs (lb s) ! i)"
  have b: "binv (lb s)" and ln: "0 \<le> lhn s" "length (lhblock s) = LOGSIZE"
    using L by (simp_all add: log_ok_def)
  have il: "i < length (bufs (lb s))" by (rule binvD(1)[OF b i(1)])
  have nl: "n < length (disk (lb s))" using binvD(5)[OF b i] n(1) by simp
  let ?B = "(bufs (lb s) ! i)\<lparr>bdata := d, bdirty := True\<rparr>"
  let ?u = "(lb s)\<lparr>bufs := (bufs (lb s))[i := ?B]\<rparr>"
  have W: "binv ?u" "bview ?u m = (if m = n then d else bview (lb s) m)"
      "dirty_block ?u m = (if m = n then True else dirty_block (lb s) m)" for m
    by (rule write_buf[OF b i n(1)[symmetric] d, where dd = True]; simp)+
  have c: "on_cpu c (bm (lb ?t))" "all_free (bm (lb ?t))"
    using r by (simp_all add: bready_def running_def set_data_def)
  let ?s' = "(log_add ?bn s)\<lparr>lb := ?u\<rparr>"
  have add_t: "log_add k (s\<lparr>lb := x\<rparr>) = (log_add k s)\<lparr>lb := x\<rparr>" for k x
    by (simp add: log_add_def log_slot_def Let_def cong: option.case_cong)
  have "write_logged i d s = Ok () ((log_add (bblockno (lbuf ?t i)) ?t)
      \<lparr>lb := set_buf i (\<lambda>b. b\<lparr>bdirty := True\<rparr>) (lb ?t)\<rparr>)"
    unfolding write_logged_def by (rule log_write_eq[OF c]) (use o fit in \<open>simp_all add: set_data_def\<close>)
  also have "\<dots> = Ok () ?s'"
    using il by (simp add: set_data_def lbuf_def add_t) (simp add: set_buf_def)
  finally have run: "write_logged i d s = Ok () ?s'" .
  note A = log_add_logged[OF ln(1) _ ln(2), of ?bn]
  have fl: "lhn s < int LOGSIZE" using fit by simp
  have lg: "logged ?s' = (if n \<in> set (logged s) then logged s else logged s @ [n])"
    using A(1)[OF fl] n(1) by (simp add: logged_def)
  have il': "in_log ?s' m = in_log s m" for m using A[OF fl] by (simp add: in_log_def)
  have "log_ok ?s'"
    using L W A[OF fl] fit lg il' n nl by (auto simp: log_ok_def)
  moreover have "bready c p {i} ?u" using r il by (auto simp: bready_def nth_list_update)
  ultimately show ?thesis
    using run W A[OF fl] il i n by (intro exI[of _ ?s']) (auto simp: fun_eq_iff)
qed

interpretation logged: block_store "\<lambda>n. on_lb (bread 1 (of_nat n))" "\<lambda>i s. bdata (bufs (lb s) ! i)" write_logged
  "\<lambda>i. on_lb (brelse i)" logged_ok logged_held "\<lambda>s. bview (lb s)" data_blocks
proof
  fix k n :: nat and s :: lst
  assume o: "logged_ok k s" and n: "n \<in> data_blocks s"
  then obtain c p where t: "in_txn k s" "bready c p {} (lb s)" by (auto simp: logged_ok_def)
  have b: "binv (lb s)" "few_dirty 0 (lb s)"
    using t(1) log_ok_few by (simp_all add: in_txn_def log_ok_def)
  have nl: "n < length (disk (lb s))" using n by (simp add: data_blocks_def)
  obtain i u where u: "bread 1 (of_nat n) (lb s) = Ok i u" "got_block c p {} (lb s) n i u"
    using read_block[OF b(1) t(2) nl b(2)] by metis
  then have g: "same_blocks (lb s) u" "binv u" "bready c p {i} u" by (simp_all add: got_block_def)
  have "in_txn k (s\<lparr>lb := u\<rparr>)" using log_ok_same[OF _ g(1,2)] t(1) by (simp add: in_txn_def)
  then show "\<exists>i s'. on_lb (bread 1 (of_nat n)) s = Ok i s' \<and> logged_held k i n s' \<and>
      bdata (bufs (lb s') ! i) = bview (lb s) n \<and> bview (lb s') = bview (lb s) \<and> data_blocks s' = data_blocks s"
    using u g zoom_Ok[of "bread 1 (of_nat n)" lb s i u lb_update]
    by (intro exI[of _ i] exI[of _ "s\<lparr>lb := u\<rparr>"])
      (auto simp: logged_held_def got_block_def same_blocks_def data_blocks_def in_log_def fun_eq_iff)
  show "length (bview (lb s) n) = BSIZE" by (rule bview_length[OF b(1) nl])
next
  fix k i n :: nat and s :: lst and d :: bytes
  assume h: "logged_held (Suc k) i n s" and n: "n \<in> data_blocks s" and d: "length d = BSIZE"
  then obtain c p where t: "in_txn (Suc k) s" "bready c p {i} (lb s)" "i < NBUF"
    "bvalid (bufs (lb s) ! i)" "unat (bblockno (bufs (lb s) ! i)) = n" by (auto simp: logged_held_def)
  have f: "log_ok s" "lhn s + 1 < lsize s" "lhn s + 1 < int LOGSIZE" "1 \<le> outstanding s"
    using t(1) by (simp_all add: in_txn_def)
  have nl: "\<not> in_log s n" using n by (simp add: data_blocks_def)
  obtain s' where s': "write_logged i d s = Ok () s'" "log_ok s'" "lhn s' \<le> lhn s + 1"
    "bready c p {i} (lb s')" "bvalid (bufs (lb s') ! i)" "unat (bblockno (bufs (lb s') ! i)) = n"
    "bdata (bufs (lb s') ! i) = d" "bview (lb s') = (bview (lb s))(n := d)" "disk (lb s') = disk (lb s)"
    "lstart s' = lstart s" "lsize s' = lsize s" "outstanding s' = outstanding s" "committing s' = committing s"
    using logged_write_ok[OF f t(2-5) nl d] by blast
  then have "in_txn k s'" using t(1) by (simp add: in_txn_def)
  then show "\<exists>s'. write_logged i d s = Ok () s' \<and> logged_held k i n s' \<and> bdata (bufs (lb s') ! i) = d \<and>
      bview (lb s') = (bview (lb s))(n := d) \<and> data_blocks s' = data_blocks s"
    using s' t(3) by (intro exI[of _ s']) (auto simp: logged_held_def data_blocks_def in_log_def)
next
  fix k i n :: nat and s :: lst
  assume "logged_held k i n s"
  then obtain c p where t: "in_txn k s" "bready c p {i} (lb s)" "i < NBUF" by (auto simp: logged_held_def)
  have b: "binv (lb s)" using t(1) by (simp add: in_txn_def log_ok_def)
  obtain u where u: "brelse i (lb s) = Ok () u" "binv u" "bready c p {} u" "same_blocks (lb s) u"
    using brelse_spec[OF b t(2) _ t(3)] by auto
  have "in_txn k (s\<lparr>lb := u\<rparr>)" using log_ok_same[OF _ u(4,2)] t(1) by (simp add: in_txn_def)
  then show "\<exists>s'. on_lb (brelse i) s = Ok () s' \<and> logged_ok k s' \<and> bview (lb s') = bview (lb s) \<and>
      data_blocks s' = data_blocks s"
    using u zoom_Ok[of "brelse i" lb s "()" u lb_update]
    by (intro exI[of _ "s\<lparr>lb := u\<rparr>"])
      (auto simp: logged_ok_def same_blocks_def data_blocks_def in_log_def fun_eq_iff)
qed

section \<open>A whole transaction\<close>

definition change_block :: "nat \<Rightarrow> (bytes \<Rightarrow> bytes) \<Rightarrow> lst \<Rightarrow> (unit, lst) res" where
  "change_block n f s =
     call (on_lb (bread 1 (of_nat n)) s) (\<lambda>i s.
     call (log_write i (set_data i (f (bdata (lbuf s i))) s)) (\<lambda>_ s. on_lb (brelse i) s))"

fun change_blocks :: "(nat \<times> (bytes \<Rightarrow> bytes)) list \<Rightarrow> lst \<Rightarrow> (unit, lst) res" where
  "change_blocks [] s = Ok () s"
| "change_blocks ((n, f) # us) s = call (change_block n f s) (\<lambda>_ s. change_blocks us s)"

lemma change_block_update: "change_block n f s = logged.update n f s"
  by (simp add: change_block_def logged.update_def write_logged_def lbuf_def)

lemma change_blocks_updates: "change_blocks us s = logged.updates us s"
proof (induction us arbitrary: s)
  case (Cons u us)
  obtain n f where "u = (n, f)" by fastforce
  moreover have "change_blocks us = logged.updates us" by (rule ext) (rule Cons.IH)
  ultimately show ?case by (simp add: change_block_update)
qed simp

lemma begin_op_Ok:
  assumes c: "on_cpu c (bm (lb s))" "all_free (bm (lb s))" and nc: "\<not> committing s"
    and fit: "lhn s + (outstanding s + 1) * MAXOPBLOCKS \<le> int LOGSIZE"
  shows "begin_op s = Ok () (s\<lparr>outstanding := outstanding s + 1\<rparr>)"
proof -
  let ?a = "s\<lparr>lb := (lb s)\<lparr>bm := take_lock c LogLock (bm (lb s))\<rparr>\<rparr>"
  have acq: "on_lm (acquire LogLock) s = Ok () ?a"
    by (rule zoom_Ok[of "on_bm (acquire LogLock)" lb]) (rule bm_acquire[OF c])
  have rel: "on_lm (release LogLock) t = Ok () (t\<lparr>lb := (lb t)\<lparr>bm := bm (lb s)\<rparr>\<rparr>)"
    if "bm (lb t) = take_lock c LogLock (bm (lb s))" for t
    by (rule zoom_Ok[of "on_bm (release LogLock)" lb]) (rule bm_release[OF that c])
  have "(s\<lparr>outstanding := k, lb := (lb s)\<lparr>bm := bm (lb s)\<rparr>\<rparr>) = s\<lparr>outstanding := k\<rparr>" for k
    by (cases s) (simp add: bm_same)
  then show ?thesis
    using nc fit rel[of "?a\<lparr>outstanding := outstanding s + 1\<rparr>"]
    by (simp add: begin_op_def begin_op_test_def acq)
qed

lemma lm_wakeup:
  assumes c: "on_cpu c m" "all_free m" and s: "bm (lb s) = take_lock c LogLock m"
  shows "call (on_lm (wakeup ch) s) (\<lambda>_ s. on_lm (release LogLock) s) =
    Ok () (s\<lparr>lb := (lb s)\<lparr>bm := wakeup1 ch m\<rparr>\<rparr>)"
proof -
  let ?t = "take_lock c LogLock m"
  have "lock_free PtableLock ?t" using c(2) by (simp add: all_free_def lock_free_def)
  then have w: "wakeup ch ?t = Ok () (wakeup1 ch ?t)" by (rule wakeup_eq[OF on_cpu_take_lock[OF c(1)]])
  have u: "wakeup1 ch ?t = ?t\<lparr>ptable := ptable (wakeup1 ch m), slocks := slocks m\<rparr>"
    by (simp add: wakeup1_def)
  have "release LogLock (wakeup1 ch ?t) = Ok () (m\<lparr>ptable := ptable (wakeup1 ch m), slocks := slocks m\<rparr>)"
    using release_take_lock_upd[OF c(1) all_freeD[OF c(2)] u] .
  moreover have "m\<lparr>ptable := ptable (wakeup1 ch m), slocks := slocks m\<rparr> = wakeup1 ch m"
    by (simp add: wakeup1_def)
  ultimately show ?thesis using w s by (simp add: zoom_def)
qed

lemma end_op_last:
  assumes ok: "log_ok s" and r: "bready c p {} (lb s)" and o: "outstanding s = 1" "\<not> committing s"
  shows "\<exists>s'. end_op s = Ok () s' \<and> log_ok s' \<and> bready c p {} (lb s') \<and> outstanding s' = 0 \<and>
    \<not> committing s' \<and> lhn s' = 0 \<and> lstart s' = lstart s \<and> lsize s' = lsize s \<and>
    (\<forall>n. \<not> in_log s n \<longrightarrow> disk (lb s') ! n = bview (lb s) n) \<and> length (disk (lb s')) = length (disk (lb s))"
proof -
  let ?m = "bm (lb s)"
  have c: "on_cpu c ?m" "all_free ?m" and run: "running c p ?m" using r by (simp_all add: bready_def running_def)
  let ?s1 = "s\<lparr>outstanding := 0, committing := True\<rparr>"
  have same: "x\<lparr>lb := (lb x)\<lparr>bm := bm (lb x)\<rparr>\<rparr> = x" for x :: lst by (cases x) (simp add: bm_same)
  have acq: "on_lm (acquire LogLock) x = Ok () (x\<lparr>lb := (lb x)\<lparr>bm := take_lock c LogLock (bm (lb x))\<rparr>\<rparr>)"
    if "on_cpu c (bm (lb x))" "all_free (bm (lb x))" for x
    by (rule zoom_Ok[of "on_bm (acquire LogLock)" lb]) (rule bm_acquire[OF that])
  have rel: "on_lm (release LogLock) (s\<lparr>lb := (lb s)\<lparr>bm := take_lock c LogLock ?m\<rparr>, outstanding := 0, committing := True\<rparr>)
      = Ok () ?s1"
    using zoom_Ok[of "on_bm (release LogLock)" lb "s\<lparr>lb := (lb s)\<lparr>bm := take_lock c LogLock ?m\<rparr>, outstanding := 0,
        committing := True\<rparr>" "()" "lb s" lb_update] bm_release[of "(lb s)\<lparr>bm := take_lock c LogLock ?m\<rparr>", OF _ c]
    by (simp add: bm_same)
  have ok1: "log_ok ?s1" using ok by (simp add: log_ok_def logged_def in_log_def)
  have "\<exists>u. commit ?s1 = Ok () (?s1\<lparr>lb := u, lhn := 0\<rparr>) \<and> log_ok (?s1\<lparr>lb := u, lhn := 0\<rparr>) \<and>
      bready c p {} u \<and> (\<forall>n. \<not> in_log s n \<longrightarrow> disk u ! n = bview (lb s) n) \<and> length (disk u) = length (disk (lb s))"
  proof (cases "0 < lhn s")
    case False
    then have z: "lhn s = 0" using ok by (simp add: log_ok_def)
    then have "\<not> dirty_block (lb s) n" for n using ok by (simp add: log_ok_def logged_def)
    then have "bview (lb s) n = disk (lb s) ! n" for n using ok by (intro bview_clean) (simp_all add: log_ok_def)
    moreover have "log_ok (s\<lparr>outstanding := 0, committing := True, lhn := 0\<rparr>)"
      using ok z by (simp add: log_ok_def logged_def in_log_def)
    moreover have "commit ?s1 = Ok () (s\<lparr>outstanding := 0, committing := True, lhn := 0\<rparr>)"
      using z by (cases s) (simp add: commit_def)
    ultimately show ?thesis using r by (intro exI[of _ "lb s"]) simp
  next
    case True
    then obtain u h1 h2 where u: "commit ?s1 = Ok () (?s1\<lparr>lb := u, lhn := 0\<rparr>)" "binv u" "bready c p {} u"
      "sint (get32 0 h2) = 0" "length h2 = BSIZE"
      "wrote_all (data_writes (log_pairs s) (lb s) @ [(unat (lstart s), h1)] @
        data_writes (map (\<lambda>n. (n, n)) (logged s)) (lb s) @ [(unat (lstart s), h2)]) (lb s) u"
      using commit_spec[OF ok1, of c p] r by (auto simp: log_pairs_def logged_def)
    let ?h = "unat (lstart s)"
    let ?A = "data_writes (log_pairs s) (lb s)" and ?B = "data_writes (map (\<lambda>n. (n, n)) (logged s)) (lb s)"
    have fit: "lhn s < lsize s" and area: "?h + nat (lsize s) \<le> length (disk (lb s))"
      and L: "distinct (logged s)" "\<forall>n\<in>set (logged s). n < length (disk (lb s)) \<and> \<not> in_log s n"
      and dirty: "\<And>n. dirty_block (lb s) n \<longleftrightarrow> n \<in> set (logged s)" and b: "binv (lb s)"
      using ok by (simp_all add: log_ok_def)
    have hl: "?h < length (disk (lb s))" "in_log s ?h" using area fit True by (auto simp: in_log_def)
    have du: "disk u = (apply_writes ?B (apply_writes (?A @ [(?h, h1)]) (disk (lb s))))[?h := h2]"
      using u(6) by (simp add: wrote_all_def)
    have fB: "fst ` set ?B = set (logged s)" by (simp add: fst_data_writes image_image)
    have out: "disk u ! n = bview (lb s) n" if n: "\<not> in_log s n" for n
    proof -
      have ne: "n \<noteq> ?h" using n hl(2) by blast
      have nA: "n \<notin> fst ` set (?A @ [(?h, h1)])"
        using n ne log_pairs_in_log[OF fit, of n] by (auto simp: fst_data_writes)
      show ?thesis
      proof (cases "n \<in> set (logged s)")
        case True
        then have i: "(n, bview (lb s) n) \<in> set ?B" by (force simp: data_writes_def)
        have "apply_writes ?B (apply_writes (?A @ [(?h, h1)]) (disk (lb s))) ! n = bview (lb s) n"
          by (rule apply_writes_nth[OF _ i]) (use L True in \<open>simp_all add: fst_data_writes comp_def\<close>)
        then show ?thesis using ne unfolding du by simp
      next
        case False
        then have "disk u ! n = disk (lb s) ! n"
          using ne apply_writes_other[of n ?B] apply_writes_other[OF nA] fB unfolding du by simp
        then show ?thesis using bview_clean[OF b, of n] dirty False by simp
      qed
    qed
    have "\<not> dirty_block u n" for n using u(6) dirty fB by (auto simp: wrote_all_def image_Un)
    moreover have lu: "length (disk u) = length (disk (lb s))" by (rule wrote_all_length[OF u(6)])
    moreover have "disk u ! ?h = h2" using hl unfolding du by simp
    ultimately have "log_ok (?s1\<lparr>lb := u, lhn := 0\<rparr>)"
      using ok u(2,4) fit True by (simp add: log_ok_def logged_def)
    then show ?thesis using u(1,3) out lu by blast
  qed
  then obtain u where u: "commit ?s1 = Ok () (?s1\<lparr>lb := u, lhn := 0\<rparr>)" "log_ok (?s1\<lparr>lb := u, lhn := 0\<rparr>)"
      "bready c p {} u" "\<forall>n. \<not> in_log s n \<longrightarrow> disk u ! n = bview (lb s) n" "length (disk u) = length (disk (lb s))"
    by blast
  let ?s2 = "?s1\<lparr>lb := u, lhn := 0\<rparr>"
  have cu: "on_cpu c (bm u)" "all_free (bm u)" "running c p (bm u)" using u(3) by (simp_all add: bready_def running_def)
  let ?t = "s\<lparr>outstanding := 0, lhn := 0, lb := u\<lparr>bm := take_lock c LogLock (bm u)\<rparr>, committing := False\<rparr>"
  let ?s3 = "?t\<lparr>lb := u\<lparr>bm := wakeup1 ChLog (bm u)\<rparr>\<rparr>"
  have run_eq: "end_op s = Ok () ?s3"
    using o acq[OF c] rel u(1) acq[of ?s2] cu lm_wakeup[OF cu(1,2), of ?t ChLog]
    by (simp add: end_op_def)
  have wk: "woken (bm u) (wakeup1 ChLog (bm u))" by (rule woken_wakeup1)
  have "same_blocks u (u\<lparr>bm := wakeup1 ChLog (bm u)\<rparr>)"
    using wk bview_same_bufs[of "u\<lparr>bm := wakeup1 ChLog (bm u)\<rparr>" u]
      dirty_same_bufs[of "u\<lparr>bm := wakeup1 ChLog (bm u)\<rparr>" u] by (simp add: same_blocks_def)
  moreover have bu: "binv u" using u(2) by (simp add: log_ok_def)
  then have "binv (u\<lparr>bm := wakeup1 ChLog (bm u)\<rparr>)" by (simp add: binv_def)
  moreover have "log_ok (s\<lparr>lb := u, lhn := 0\<rparr>)" using u(2) by (simp add: log_ok_def logged_def in_log_def)
  ultimately have "log_ok ((s\<lparr>lb := u, lhn := 0\<rparr>)\<lparr>lb := u\<lparr>bm := wakeup1 ChLog (bm u)\<rparr>\<rparr>)"
    by (intro log_ok_same) simp_all
  then have "log_ok ?s3" by (simp add: log_ok_def logged_def in_log_def)
  moreover have "bready c p {} (u\<lparr>bm := wakeup1 ChLog (bm u)\<rparr>)"
    using u(3) woken_running[OF wk cu(3)] woken_all_free[OF wk] by (simp add: bready_def)
  ultimately show ?thesis using run_eq u(4,5) by (intro exI[of _ ?s3]) simp
qed

definition keeps_size :: "(bytes \<Rightarrow> bytes) \<Rightarrow> bool" where
  "keeps_size f \<longleftrightarrow> (\<forall>d. length d = BSIZE \<longrightarrow> length (f d) = BSIZE)"

text \<open>C8: A transaction of at most \<open>MAXOPBLOCKS\<close> block changes does all of them and nothing else.
  Run alone from a quiet log, \<open>begin_op\<close>, the changes (each \<open>bread\<close>, change of the bytes,
  \<open>log_write\<close>, \<open>brelse\<close>) and \<open>end_op\<close> return; the log is then empty and open again, and the disk
  outside the log area is the old disk with the changes applied in order.\<close>

theorem transaction_applies_changes:
  assumes ok: "log_ok s" and r: "bready c p {} (lb s)" and q: "lhn s = 0" "outstanding s = 0" "\<not> committing s"
    and len: "int (length us) \<le> MAXOPBLOCKS" "int (length us) < lsize s"
    and us: "\<forall>(n, f) \<in> set us. n \<in> data_blocks s \<and> keeps_size f"
  shows "\<exists>s'. call (begin_op s) (\<lambda>_ s. call (change_blocks us s) (\<lambda>_ s. end_op s)) = Ok () s' \<and>
    log_ok s' \<and> lhn s' = 0 \<and> outstanding s' = 0 \<and> \<not> committing s' \<and>
    (\<forall>n \<in> data_blocks s. disk (lb s') ! n = fold (\<lambda>(n, f) v. v(n := f (v n))) us (\<lambda>n. disk (lb s) ! n) n)"
proof -
  let ?s1 = "s\<lparr>outstanding := 1\<rparr>"
  have c: "on_cpu c (bm (lb s))" "all_free (bm (lb s))" using r by (simp_all add: bready_def running_def)
  have b: "begin_op s = Ok () ?s1"
    using begin_op_Ok[OF c q(3)] q by (simp add: MAXOPBLOCKS_def LOGSIZE_def)
  have "log_ok ?s1" using ok by (simp add: log_ok_def logged_def in_log_def)
  then have lo: "logged_ok (length us + 0) ?s1"
    using r q len by (auto simp: logged_ok_def in_txn_def MAXOPBLOCKS_def LOGSIZE_def)
  have db: "data_blocks ?s1 = data_blocks s" by (simp add: data_blocks_def in_log_def)
  obtain s2 where s2: "change_blocks us ?s1 = Ok () s2" "logged_ok 0 s2"
    "bview (lb s2) = fold (\<lambda>(n, f) v. v(n := f (v n))) us (bview (lb ?s1))" "data_blocks s2 = data_blocks ?s1"
    using logged.updates_view[OF lo] us unfolding db change_blocks_updates keeps_size_def by blast
  obtain c' p' where r2: "bready c' p' {} (lb s2)" "log_ok s2" "outstanding s2 = 1" "\<not> committing s2"
    using s2(2) by (auto simp: logged_ok_def in_txn_def)
  obtain s3 where s3: "end_op s2 = Ok () s3" "log_ok s3" "outstanding s3 = 0" "\<not> committing s3" "lhn s3 = 0"
    "\<forall>n. \<not> in_log s2 n \<longrightarrow> disk (lb s3) ! n = bview (lb s2) n"
    using end_op_last[OF r2(2,1,3,4)] by blast
  have "\<not> dirty_block (lb s) n" for n using ok q(1) by (simp add: log_ok_def logged_def)
  then have "bview (lb s) = (\<lambda>n. disk (lb s) ! n)" using ok by (auto simp: log_ok_def bview_clean)
  then have "bview (lb s2) = fold (\<lambda>(n, f) v. v(n := f (v n))) us (\<lambda>n. disk (lb s) ! n)"
    using s2(3) by simp
  moreover have "\<not> in_log s2 n" if "n \<in> data_blocks s" for n
    using that s2(4) db by (auto simp: data_blocks_def)
  ultimately show ?thesis using b s2(1) s3 by simp
qed

definition quiet_log :: lst where
  "quiet_log = \<lparr>lb = boot_bst small_disk, lstart = 2, lsize = 3, outstanding = 0, committing = False,
     ldev = 1, lhn = 0, lhblock = replicate LOGSIZE 0\<rparr>"

lemma quiet_log_ok: "log_ok quiet_log"
  using boot_bst_binv[OF small_disk_good] boot_bst_clean[of small_disk]
  by (simp add: log_ok_def quiet_log_def logged_def in_log_def LOGSIZE_def)
    (simp add: boot_bst_def small_disk_def get32_zero_block)

theorem transaction_applies_changes_witness:
  "\<exists>s'. call (begin_op quiet_log) (\<lambda>_ s. call (change_blocks [(6, put32 0 7), (6, put32 4 9)] s) (\<lambda>_ s. end_op s)) = Ok () s' \<and>
    disk (lb s') ! 6 = put32 4 9 (put32 0 7 zero_block)"
proof -
  have d: "6 \<in> data_blocks quiet_log" "disk (lb quiet_log) ! 6 = zero_block"
    by (simp_all add: data_blocks_def quiet_log_def boot_bst_def small_disk_def in_log_def)
  have r: "bready 0 0 {} (lb quiet_log)" using boot_bst_ready by (simp add: quiet_log_def)
  have q: "lhn quiet_log = 0" "outstanding quiet_log = 0" "\<not> committing quiet_log" "lsize quiet_log = 3"
    by (simp_all add: quiet_log_def)
  let ?us = "[(6 :: nat, put32 0 7), (6, put32 4 9)]"
  have us: "\<forall>(n, f) \<in> set ?us. n \<in> data_blocks quiet_log \<and> keeps_size f"
    using d(1) by (auto simp: keeps_size_def BSIZE_def)
  have len: "int (length ?us) \<le> MAXOPBLOCKS" "int (length ?us) < lsize quiet_log"
    using q(4) by (simp_all add: MAXOPBLOCKS_def)
  show ?thesis
    using transaction_applies_changes[OF quiet_log_ok r q(1,2,3) len us] d by auto
qed

end
