(* ===== verification/Fs.thy ===== *)
theory Fs
  imports BlockStore Cstring
begin

unbundle bit_operations_syntax

text \<open>
  The file system: fs.c up to reading and writing the bytes of an inode.  On-disk structures are
  the bytes of a block; \<open>icache\<close> is the list \<open>inodes\<close> and a \<open>struct inode *\<close> is an index into it.
  The device switch \<open>devsw\<close> of file.c is an argument of \<open>readi\<close> and \<open>writei\<close>; the bytes \<open>readi\<close>
  copies to its caller's buffer are part of its result.
\<close>

section \<open>State\<close>

record inode =
  idev :: uint
  inum :: uint
  iref :: int
  ivalid :: bool
  itype :: ushort
  imajor :: ushort
  iminor :: ushort
  inlink :: ushort
  isize :: uint
  iaddrs :: "uint list"

record dinode =
  di_type :: ushort
  di_major :: ushort
  di_minor :: ushort
  di_nlink :: ushort
  di_size :: uint
  di_addrs :: "uint list"

text \<open>
  The console of console.c and kbd.c, which device files read and write (see Console): the input
  ring, the flags \<open>panicked\<close> and \<open>cons.locking\<close>, the keyboard's \<open>shift\<close>, whether there is a serial
  port and what was sent to it, and the screen's cursor and cells.
\<close>

record console =
  con_buf :: bytes
  con_r :: uint
  con_w :: uint
  con_e :: uint
  panicked :: bool
  con_locking :: bool
  kbd_shift :: uint
  uart_on :: bool
  uart_out :: bytes
  crt_pos :: int
  crt :: "ushort list"

record fss =
  fl :: lst
  sb :: superblock
  inodes :: "inode list"
  con :: console

abbreviation on_fl :: "(lst \<Rightarrow> ('a, lst) res) \<Rightarrow> fss \<Rightarrow> ('a, fss) res" where
  "on_fl \<equiv> zoom fl fl_update"

abbreviation on_fb :: "(bst \<Rightarrow> ('a, bst) res) \<Rightarrow> fss \<Rightarrow> ('a, fss) res" where
  "on_fb f \<equiv> on_fl (on_lb f)"

abbreviation on_fm :: "(mach \<Rightarrow> ('a, mach) res) \<Rightarrow> fss \<Rightarrow> ('a, fss) res" where
  "on_fm f \<equiv> on_fb (on_bm f)"

definition NINODE :: nat where "NINODE = 50"
definition NDIRECT :: nat where "NDIRECT = 12"
definition NINDIRECT :: nat where "NINDIRECT = BSIZE div 4"
definition MAXFILE :: nat where "MAXFILE = NDIRECT + NINDIRECT"
definition IPB :: nat where "IPB = 8"
definition BPB :: nat where "BPB = BSIZE * 8"
definition DIRSIZ :: nat where "DIRSIZ = 14"
definition NDEV :: nat where "NDEV = 10"
definition ROOTDEV :: uint where "ROOTDEV = 1"
definition ROOTINO :: uint where "ROOTINO = 1"
definition T_DIR :: ushort where "T_DIR = 1"
definition T_FILE :: ushort where "T_FILE = 2"
definition T_DEV :: ushort where "T_DEV = 3"

lemmas fs_consts = NDIRECT_def NINDIRECT_def MAXFILE_def IPB_def BPB_def DIRSIZ_def BSIZE_def

definition IBLOCK :: "uint \<Rightarrow> superblock \<Rightarrow> uint" where
  "IBLOCK i sblk = i div of_nat IPB + inodestart sblk"

definition BBLOCK :: "uint \<Rightarrow> superblock \<Rightarrow> uint" where
  "BBLOCK b sblk = b div of_nat BPB + bmapstart sblk"

definition fdata :: "fss \<Rightarrow> nat \<Rightarrow> bytes" where "fdata s bp = bdata (bufs (lb (fl s)) ! bp)"

definition set_fdata :: "nat \<Rightarrow> bytes \<Rightarrow> fss \<Rightarrow> fss" where
  "set_fdata bp d s = s\<lparr>fl := set_data bp d (fl s)\<rparr>"

definition set_inode :: "nat \<Rightarrow> (inode \<Rightarrow> inode) \<Rightarrow> fss \<Rightarrow> fss" where
  "set_inode i f s = s\<lparr>inodes := (inodes s)[i := f (inodes s ! i)]\<rparr>"

section \<open>Blocks\<close>

definition bzero :: "uint \<Rightarrow> uint \<Rightarrow> fss \<Rightarrow> (unit, fss) res" where
  "bzero dev bno s =
     call (on_fb (bread dev bno) s) (\<lambda>bp s.
     let s = set_fdata bp (replicate BSIZE 0) s in
     call (on_fl (log_write bp) s) (\<lambda>_ s. on_fb (brelse bp) s))"

definition bit_set :: "bytes \<Rightarrow> nat \<Rightarrow> bool" where
  "bit_set d bi \<longleftrightarrow> d ! (bi div 8) AND push_bit (bi mod 8) 1 \<noteq> 0"

definition set_bit8 :: "nat \<Rightarrow> bytes \<Rightarrow> bytes" where
  "set_bit8 bi d = d[bi div 8 := d ! (bi div 8) OR push_bit (bi mod 8) 1]"

definition clear_bit8 :: "nat \<Rightarrow> bytes \<Rightarrow> bytes" where
  "clear_bit8 bi d = d[bi div 8 := d ! (bi div 8) AND NOT (push_bit (bi mod 8) 1)]"

text \<open>The outer loop of \<open>balloc\<close>, over the first block numbers \<open>b\<close> of the bitmap blocks.\<close>

fun balloc_from :: "uint \<Rightarrow> nat list \<Rightarrow> fss \<Rightarrow> (uint, fss) res" where
  "balloc_from dev [] s = Panic ''balloc: out of blocks''"
| "balloc_from dev (b # bs) s =
     call (on_fb (bread dev (BBLOCK (of_nat b) (sb s))) s) (\<lambda>bp s.
     case find (\<lambda>bi. \<not> bit_set (fdata s bp) bi) [0..<min BPB (unat (sb_size (sb s)) - b)] of
       Some bi \<Rightarrow>
         let s = set_fdata bp (set_bit8 bi (fdata s bp)) s in
         call (on_fl (log_write bp) s) (\<lambda>_ s.
         call (on_fb (brelse bp) s) (\<lambda>_ s.
         call (bzero dev (of_nat (b + bi)) s) (\<lambda>_ s. Ok (of_nat (b + bi)) s)))
     | None \<Rightarrow> call (on_fb (brelse bp) s) (\<lambda>_ s. balloc_from dev bs s))"

definition bitmap_starts :: "nat \<Rightarrow> nat list" where
  "bitmap_starts n = map (\<lambda>k. k * BPB) [0..<(n + BPB - 1) div BPB]"

definition balloc :: "uint \<Rightarrow> fss \<Rightarrow> (uint, fss) res" where
  "balloc dev s = balloc_from dev (bitmap_starts (unat (sb_size (sb s)))) s"

definition bfree :: "uint \<Rightarrow> uint \<Rightarrow> fss \<Rightarrow> (unit, fss) res" where
  "bfree dev b s =
     call (on_fb (bread dev (BBLOCK b (sb s))) s) (\<lambda>bp s.
     let bi = unat b mod BPB in
     if \<not> bit_set (fdata s bp) bi then Panic ''freeing free block''
     else let s = set_fdata bp (clear_bit8 bi (fdata s bp)) s in
       call (on_fl (log_write bp) s) (\<lambda>_ s. on_fb (brelse bp) s))"

section \<open>Inodes on disk\<close>

definition dinode_decode :: "nat \<Rightarrow> bytes \<Rightarrow> dinode" where
  "dinode_decode k d =
     \<lparr>di_type = get16 k d, di_major = get16 (k + 2) d, di_minor = get16 (k + 4) d,
      di_nlink = get16 (k + 6) d, di_size = get32 (k + 8) d,
      di_addrs = map (\<lambda>j. get32 (k + 12 + 4 * j) d) [0..<NDIRECT + 1]\<rparr>"

definition dinode_bytes :: "dinode \<Rightarrow> bytes" where
  "dinode_bytes x = le16 (di_type x) @ le16 (di_major x) @ le16 (di_minor x) @ le16 (di_nlink x) @
     le32 (di_size x) @ concat (map le32 (di_addrs x))"

definition dinode_encode :: "nat \<Rightarrow> dinode \<Rightarrow> bytes \<Rightarrow> bytes" where
  "dinode_encode k x d = splice k (dinode_bytes x) d"

definition dinode_of :: "inode \<Rightarrow> dinode" where
  "dinode_of x = \<lparr>di_type = itype x, di_major = imajor x, di_minor = iminor x, di_nlink = inlink x,
     di_size = isize x, di_addrs = iaddrs x\<rparr>"

definition load_dinode :: "dinode \<Rightarrow> inode \<Rightarrow> inode" where
  "load_dinode x ip = ip\<lparr>itype := di_type x, imajor := di_major x, iminor := di_minor x,
     inlink := di_nlink x, isize := di_size x, iaddrs := di_addrs x\<rparr>"

section \<open>The inode cache\<close>

definition iinit :: "uint \<Rightarrow> fss \<Rightarrow> (unit, fss) res" where
  "iinit dev s =
     call (on_fm (initlock IcacheLock ''icache'') s) (\<lambda>_ s.
     call (for_each (\<lambda>i. on_fm (initsleeplock (InodeLk i) ''inode'')) [0..<NINODE] s) (\<lambda>_ s.
     call (on_fb (readsb dev) s) (\<lambda>b s. Ok () (s\<lparr>sb := b\<rparr>))))"

definition iget :: "uint \<Rightarrow> uint \<Rightarrow> fss \<Rightarrow> (nat, fss) res" where
  "iget dev n s =
     call (on_fm (acquire IcacheLock) s) (\<lambda>_ s.
     let ixs = [0..<length (inodes s)] in
     case find (\<lambda>i. 0 < iref (inodes s ! i) \<and> idev (inodes s ! i) = dev \<and> inum (inodes s ! i) = n) ixs of
       Some i \<Rightarrow>
         let s = set_inode i (\<lambda>x. x\<lparr>iref := iref x + 1\<rparr>) s in
         call (on_fm (release IcacheLock) s) (\<lambda>_ s. Ok i s)
     | None \<Rightarrow>
         (case find (\<lambda>i. iref (inodes s ! i) = 0) ixs of
            None \<Rightarrow> Panic ''iget: no inodes''
          | Some i \<Rightarrow>
              let s = set_inode i (\<lambda>x. x\<lparr>idev := dev, inum := n, iref := 1, ivalid := False\<rparr>) s in
              call (on_fm (release IcacheLock) s) (\<lambda>_ s. Ok i s)))"

fun ialloc_from :: "uint \<Rightarrow> ushort \<Rightarrow> nat list \<Rightarrow> fss \<Rightarrow> (nat, fss) res" where
  "ialloc_from dev ty [] s = Panic ''ialloc: no inodes''"
| "ialloc_from dev ty (n # ns) s =
     call (on_fb (bread dev (IBLOCK (of_nat n) (sb s))) s) (\<lambda>bp s.
     let k = 64 * (n mod IPB) in
     if di_type (dinode_decode k (fdata s bp)) = 0
     then let s = set_fdata bp (put16 k ty (splice k (replicate 64 0) (fdata s bp))) s in
       call (on_fl (log_write bp) s) (\<lambda>_ s.
       call (on_fb (brelse bp) s) (\<lambda>_ s. iget dev (of_nat n) s))
     else call (on_fb (brelse bp) s) (\<lambda>_ s. ialloc_from dev ty ns s))"

definition ialloc :: "uint \<Rightarrow> ushort \<Rightarrow> fss \<Rightarrow> (nat, fss) res" where
  "ialloc dev ty s = ialloc_from dev ty [1..<unat (ninodes (sb s))] s"

definition iupdate :: "nat \<Rightarrow> fss \<Rightarrow> (unit, fss) res" where
  "iupdate i s =
     (let ip = inodes s ! i in
      call (on_fb (bread (idev ip) (IBLOCK (inum ip) (sb s))) s) (\<lambda>bp s.
      let s = set_fdata bp (dinode_encode (64 * (unat (inum ip) mod IPB)) (dinode_of ip) (fdata s bp)) s in
      call (on_fl (log_write bp) s) (\<lambda>_ s. on_fb (brelse bp) s)))"

definition idup :: "nat \<Rightarrow> fss \<Rightarrow> (nat, fss) res" where
  "idup i s =
     call (on_fm (acquire IcacheLock) s) (\<lambda>_ s.
     let s = set_inode i (\<lambda>x. x\<lparr>iref := iref x + 1\<rparr>) s in
     call (on_fm (release IcacheLock) s) (\<lambda>_ s. Ok i s))"

definition ilock :: "nat \<Rightarrow> fss \<Rightarrow> (unit, fss) res" where
  "ilock i s =
     (if iref (inodes s ! i) < 1 then Panic ''ilock''
      else call (on_fm (acquiresleep (InodeLk i)) s) (\<lambda>_ s.
        let ip = inodes s ! i in
        if ivalid ip then Ok () s
        else call (on_fb (bread (idev ip) (IBLOCK (inum ip) (sb s))) s) (\<lambda>bp s.
          let dip = dinode_decode (64 * (unat (inum ip) mod IPB)) (fdata s bp);
              s = set_inode i (load_dinode dip) s in
          call (on_fb (brelse bp) s) (\<lambda>_ s.
          let s = set_inode i (\<lambda>x. x\<lparr>ivalid := True\<rparr>) s in
          if itype (inodes s ! i) = 0 then Panic ''ilock: no type'' else Ok () s))))"

definition iunlock :: "nat \<Rightarrow> fss \<Rightarrow> (unit, fss) res" where
  "iunlock i s =
     call (on_fm (holdingsleep (InodeLk i)) s) (\<lambda>h s.
     if \<not> h \<or> iref (inodes s ! i) < 1 then Panic ''iunlock''
     else on_fm (releasesleep (InodeLk i)) s)"

section \<open>Inode content\<close>

definition bmap :: "nat \<Rightarrow> uint \<Rightarrow> fss \<Rightarrow> (uint, fss) res" where
  "bmap i bn s =
     (let dev = idev (inodes s ! i) in
      if unat bn < NDIRECT
      then let addr = iaddrs (inodes s ! i) ! unat bn in
        if addr = 0
        then call (balloc dev s) (\<lambda>addr s.
          Ok addr (set_inode i (\<lambda>x. x\<lparr>iaddrs := (iaddrs x)[unat bn := addr]\<rparr>) s))
        else Ok addr s
      else let k = unat bn - NDIRECT in
        if k < NINDIRECT
        then call (let addr = iaddrs (inodes s ! i) ! NDIRECT in
                   if addr = 0
                   then call (balloc dev s) (\<lambda>addr s.
                     Ok addr (set_inode i (\<lambda>x. x\<lparr>iaddrs := (iaddrs x)[NDIRECT := addr]\<rparr>) s))
                   else Ok addr s) (\<lambda>addr s.
          call (on_fb (bread dev addr) s) (\<lambda>bp s.
          let addr = get32 (4 * k) (fdata s bp) in
          call (if addr = 0
                then call (balloc dev s) (\<lambda>addr s.
                  let s = set_fdata bp (put32 (4 * k) addr (fdata s bp)) s in
                  call (on_fl (log_write bp) s) (\<lambda>_ s. Ok addr s))
                else Ok addr s) (\<lambda>addr s.
          call (on_fb (brelse bp) s) (\<lambda>_ s. Ok addr s))))
        else Panic ''bmap: out of range'')"

definition itrunc :: "nat \<Rightarrow> fss \<Rightarrow> (unit, fss) res" where
  "itrunc i s =
     (let dev = idev (inodes s ! i) in
      call (for_each (\<lambda>j s.
              let a = iaddrs (inodes s ! i) ! j in
              if a \<noteq> 0
              then call (bfree dev a s) (\<lambda>_ s. Ok () (set_inode i (\<lambda>x. x\<lparr>iaddrs := (iaddrs x)[j := 0]\<rparr>) s))
              else Ok () s) [0..<NDIRECT] s) (\<lambda>_ s.
      call (let ind = iaddrs (inodes s ! i) ! NDIRECT in
            if ind \<noteq> 0
            then call (on_fb (bread dev ind) s) (\<lambda>bp s.
              call (for_each (\<lambda>j s.
                      let a = get32 (4 * j) (fdata s bp) in
                      if a \<noteq> 0 then bfree dev a s else Ok () s) [0..<NINDIRECT] s) (\<lambda>_ s.
              call (on_fb (brelse bp) s) (\<lambda>_ s.
              call (bfree dev (iaddrs (inodes s ! i) ! NDIRECT) s) (\<lambda>_ s.
              Ok () (set_inode i (\<lambda>x. x\<lparr>iaddrs := (iaddrs x)[NDIRECT := 0]\<rparr>) s)))))
            else Ok () s) (\<lambda>_ s.
      iupdate i (set_inode i (\<lambda>x. x\<lparr>isize := 0\<rparr>) s))))"

definition iput :: "nat \<Rightarrow> fss \<Rightarrow> (unit, fss) res" where
  "iput i s =
     call (on_fm (acquiresleep (InodeLk i)) s) (\<lambda>_ s.
     call (if ivalid (inodes s ! i) \<and> inlink (inodes s ! i) = 0
           then call (on_fm (acquire IcacheLock) s) (\<lambda>_ s.
             let r = iref (inodes s ! i) in
             call (on_fm (release IcacheLock) s) (\<lambda>_ s.
             if r = 1
             then call (itrunc i s) (\<lambda>_ s.
               call (iupdate i (set_inode i (\<lambda>x. x\<lparr>itype := 0\<rparr>) s)) (\<lambda>_ s.
               Ok () (set_inode i (\<lambda>x. x\<lparr>ivalid := False\<rparr>) s)))
             else Ok () s))
           else Ok () s) (\<lambda>_ s.
     call (on_fm (releasesleep (InodeLk i)) s) (\<lambda>_ s.
     call (on_fm (acquire IcacheLock) s) (\<lambda>_ s.
     on_fm (release IcacheLock) (set_inode i (\<lambda>x. x\<lparr>iref := iref x - 1\<rparr>) s)))))"

definition iunlockput :: "nat \<Rightarrow> fss \<Rightarrow> (unit, fss) res" where
  "iunlockput i s = call (iunlock i s) (\<lambda>_ s. iput i s)"

record stat =
  st_type :: ushort
  st_dev :: uint
  st_ino :: uint
  st_nlink :: ushort
  st_size :: uint

definition stati :: "nat \<Rightarrow> fss \<Rightarrow> stat" where
  "stati i s = (let ip = inodes s ! i in
     \<lparr>st_type = itype ip, st_dev = idev ip, st_ino = inum ip, st_nlink = inlink ip, st_size = isize ip\<rparr>)"

section \<open>Reading and writing file content\<close>

text \<open>
  An entry of \<open>devsw\<close>: the functions a device registered.  A device's read takes the inode, a
  count and the state and returns the count it read and the bytes.
\<close>

record devops =
  dev_read :: "(nat \<Rightarrow> int \<Rightarrow> fss \<Rightarrow> (int \<times> bytes, fss) res) option"
  dev_write :: "(nat \<Rightarrow> bytes \<Rightarrow> int \<Rightarrow> fss \<Rightarrow> (int, fss) res) option"

type_synonym devsw = "nat \<Rightarrow> devops"

text \<open>
  The loop of \<open>readi\<close> from the file offset \<open>off\<close> with \<open>left\<close> bytes (\<open>n - tot\<close>) to go; every
  round moves at least one byte.
\<close>

function readi_loop :: "nat \<Rightarrow> nat \<Rightarrow> nat \<Rightarrow> bytes \<Rightarrow> fss \<Rightarrow> (bytes, fss) res" where
  "readi_loop i off left acc s =
     (if left = 0 then Ok acc s
      else call (bmap i (of_nat (off div BSIZE)) s) (\<lambda>addr s.
        call (on_fb (bread (idev (inodes s ! i)) addr) s) (\<lambda>bp s.
        let m = min left (BSIZE - off mod BSIZE);
            acc = acc @ take m (drop (off mod BSIZE) (fdata s bp)) in
        call (on_fb (brelse bp) s) (\<lambda>_ s. readi_loop i (off + m) (left - m) acc s))))"
  by pat_completeness auto
termination
  by (relation "measure (\<lambda>(i, off, left, acc, s). left)") (auto simp: BSIZE_def)

declare readi_loop.simps [simp del]

definition readi :: "devsw \<Rightarrow> nat \<Rightarrow> uint \<Rightarrow> uint \<Rightarrow> fss \<Rightarrow> (int \<times> bytes, fss) res" where
  "readi devs i off n s =
     (let ip = inodes s ! i in
      if itype ip = T_DEV
      then if sint (imajor ip) < 0 \<or> int NDEV \<le> sint (imajor ip) then Ok (-1, []) s
        else (case dev_read (devs (unat (imajor ip))) of
                None \<Rightarrow> Ok (-1, []) s
              | Some f \<Rightarrow> f i (sint n) s)
      else if isize ip < off \<or> off + n < off then Ok (-1, []) s
      else let n = (if isize ip < off + n then isize ip - off else n) in
        call (readi_loop i (unat off) (unat n) [] s) (\<lambda>bs s. Ok (sint n, bs) s))"

function writei_loop :: "nat \<Rightarrow> bytes \<Rightarrow> nat \<Rightarrow> nat \<Rightarrow> fss \<Rightarrow> (unit, fss) res" where
  "writei_loop i src off left s =
     (if left = 0 then Ok () s
      else call (bmap i (of_nat (off div BSIZE)) s) (\<lambda>addr s.
        call (on_fb (bread (idev (inodes s ! i)) addr) s) (\<lambda>bp s.
        let m = min left (BSIZE - off mod BSIZE);
            s = set_fdata bp (splice (off mod BSIZE) (take m src) (fdata s bp)) s in
        call (on_fl (log_write bp) s) (\<lambda>_ s.
        call (on_fb (brelse bp) s) (\<lambda>_ s. writei_loop i (drop m src) (off + m) (left - m) s)))))"
  by pat_completeness auto
termination
  by (relation "measure (\<lambda>(i, src, off, left, s). left)") (auto simp: BSIZE_def)

declare writei_loop.simps [simp del]

definition writei :: "devsw \<Rightarrow> nat \<Rightarrow> bytes \<Rightarrow> uint \<Rightarrow> uint \<Rightarrow> fss \<Rightarrow> (int, fss) res" where
  "writei devs i src off n s =
     (let ip = inodes s ! i in
      if itype ip = T_DEV
      then if sint (imajor ip) < 0 \<or> int NDEV \<le> sint (imajor ip) then Ok (-1) s
        else (case dev_write (devs (unat (imajor ip))) of
                None \<Rightarrow> Ok (-1) s
              | Some f \<Rightarrow> f i src (sint n) s)
      else if isize ip < off \<or> off + n < off then Ok (-1) s
      else if of_nat (MAXFILE * BSIZE) < off + n then Ok (-1) s
      else call (writei_loop i src (unat off) (unat n) s) (\<lambda>_ s.
        call (if 0 < n \<and> isize (inodes s ! i) < off + n
              then iupdate i (set_inode i (\<lambda>x. x\<lparr>isize := off + n\<rparr>) s)
              else Ok () s) (\<lambda>_ s. Ok (sint n) s)))"

end
