(* ===== verification/Dir.thy ===== *)
theory Dir
  imports Fs
begin

text \<open>
  Directories and path names: the last third of fs.c.  A path or a name is the list of its bytes
  before the terminating zero; the 14-byte name of a directory entry is a list of 14 bytes.
\<close>

section \<open>Directory entries\<close>

record dirent =
  de_inum :: ushort
  de_name :: bytes

definition dirent_decode :: "bytes \<Rightarrow> dirent" where
  "dirent_decode d = \<lparr>de_inum = get16 0 d, de_name = take DIRSIZ (drop 2 d)\<rparr>"

definition dirent_encode :: "dirent \<Rightarrow> bytes" where
  "dirent_encode de = le16 (de_inum de) @ de_name de"

text \<open>What \<open>strncpy(de.name, name, DIRSIZ)\<close> leaves in the entry.\<close>

definition name_field :: "bytes \<Rightarrow> bytes" where
  "name_field nm = take DIRSIZ (takeWhile (\<lambda>c. c \<noteq> 0) nm @ replicate DIRSIZ 0)"

definition namecmp :: "bytes \<Rightarrow> bytes \<Rightarrow> int" where
  "namecmp s t = strncmp_l s t DIRSIZ"

definition dir_offsets :: "uint \<Rightarrow> nat list" where
  "dir_offsets sz = map (\<lambda>k. 16 * k) [0..<(unat sz + 15) div 16]"

text \<open>The result of \<open>dirlookup\<close>: the inode and the offset stored through \<open>poff\<close>.\<close>

fun dirlookup_from :: "devsw \<Rightarrow> nat \<Rightarrow> bytes \<Rightarrow> nat list \<Rightarrow> fss \<Rightarrow> ((nat \<times> uint) option, fss) res" where
  "dirlookup_from devs dp nm [] s = Ok None s"
| "dirlookup_from devs dp nm (off # offs) s =
     call (readi devs dp (of_nat off) 16 s) (\<lambda>(r, d) s.
     if r \<noteq> 16 then Panic ''dirlookup read''
     else let de = dirent_decode d in
       if de_inum de = 0 then dirlookup_from devs dp nm offs s
       else if namecmp nm (de_name de) = 0
       then call (iget (idev (inodes s ! dp)) (ucast (de_inum de)) s) (\<lambda>i s. Ok (Some (i, of_nat off)) s)
       else dirlookup_from devs dp nm offs s)"

definition dirlookup :: "devsw \<Rightarrow> nat \<Rightarrow> bytes \<Rightarrow> fss \<Rightarrow> ((nat \<times> uint) option, fss) res" where
  "dirlookup devs dp nm s =
     (if itype (inodes s ! dp) \<noteq> T_DIR then Panic ''dirlookup not DIR''
      else dirlookup_from devs dp nm (dir_offsets (isize (inodes s ! dp))) s)"

text \<open>The search of \<open>dirlink\<close> for an entry that is not in use.\<close>

fun empty_dirent :: "devsw \<Rightarrow> nat \<Rightarrow> nat list \<Rightarrow> nat \<Rightarrow> fss \<Rightarrow> (nat, fss) res" where
  "empty_dirent devs dp [] fin s = Ok fin s"
| "empty_dirent devs dp (off # offs) fin s =
     call (readi devs dp (of_nat off) 16 s) (\<lambda>(r, d) s.
     if r \<noteq> 16 then Panic ''dirlink read''
     else if de_inum (dirent_decode d) = 0 then Ok off s
     else empty_dirent devs dp offs fin s)"

definition dirlink :: "devsw \<Rightarrow> nat \<Rightarrow> bytes \<Rightarrow> uint \<Rightarrow> fss \<Rightarrow> (int, fss) res" where
  "dirlink devs dp nm n s =
     call (dirlookup devs dp nm s) (\<lambda>found s.
     case found of
       Some (ip, _) \<Rightarrow> call (iput ip s) (\<lambda>_ s. Ok (-1) s)
     | None \<Rightarrow>
         let offs = dir_offsets (isize (inodes s ! dp)) in
         call (empty_dirent devs dp offs (16 * length offs) s) (\<lambda>off s.
         let de = \<lparr>de_inum = ucast n, de_name = name_field nm\<rparr> in
         call (writei devs dp (dirent_encode de) (of_nat off) 16 s) (\<lambda>r s.
         if r \<noteq> 16 then Panic ''dirlink'' else Ok 0 s)))"

section \<open>Paths\<close>

definition slash :: u8 where "slash = 47"

text \<open>The element and the rest of the path, \<open>None\<close> for the null pointer.\<close>

definition skipelem :: "bytes \<Rightarrow> (bytes \<times> bytes) option" where
  "skipelem path =
     (let path = dropWhile (\<lambda>c. c = slash) path in
      if path = [] then None
      else let s = takeWhile (\<lambda>c. c \<noteq> slash) path;
               path = dropWhile (\<lambda>c. c \<noteq> slash) path;
               name = (if DIRSIZ \<le> length s then take DIRSIZ s else s) in
        Some (name, dropWhile (\<lambda>c. c = slash) path))"

lemma skipelem_shorter: "skipelem path = Some (nm, rest) \<Longrightarrow> length rest < length path"
proof -
  let ?p = "dropWhile (\<lambda>c. c = slash) path"
  assume "skipelem path = Some (nm, rest)"
  then have ne: "?p \<noteq> []" and r: "rest = dropWhile (\<lambda>c. c = slash) (dropWhile (\<lambda>c. c \<noteq> slash) ?p)"
    by (auto simp: skipelem_def Let_def split: if_splits)
  obtain c q where p: "?p = c # q" using ne by (cases ?p) simp_all
  have "c \<noteq> slash" using hd_dropWhile[OF ne] p by simp
  then have "rest = dropWhile (\<lambda>c. c = slash) (dropWhile (\<lambda>c. c \<noteq> slash) q)"
    unfolding r p by simp
  then have "length rest \<le> length q"
    using length_dropWhile_le le_trans by blast
  also have "length q < length ?p" unfolding p by simp
  also have "length ?p \<le> length path" by (rule length_dropWhile_le)
  finally show ?thesis .
qed

text \<open>The loop of \<open>namex\<close>; the result carries the last element, which the C code leaves in \<open>name\<close>.\<close>

function namex_loop :: "devsw \<Rightarrow> bytes \<Rightarrow> bool \<Rightarrow> bytes \<Rightarrow> nat \<Rightarrow> fss \<Rightarrow> (nat option \<times> bytes, fss) res" where
  "namex_loop devs path nameiparent nm ip s =
     (case skipelem path of
        None \<Rightarrow>
          if nameiparent then call (iput ip s) (\<lambda>_ s. Ok (None, nm) s) else Ok (Some ip, nm) s
      | Some (nm, path) \<Rightarrow>
          call (ilock ip s) (\<lambda>_ s.
          if itype (inodes s ! ip) \<noteq> T_DIR then call (iunlockput ip s) (\<lambda>_ s. Ok (None, nm) s)
          else if nameiparent \<and> path = [] then call (iunlock ip s) (\<lambda>_ s. Ok (Some ip, nm) s)
          else call (dirlookup devs ip nm s) (\<lambda>found s.
            case found of
              None \<Rightarrow> call (iunlockput ip s) (\<lambda>_ s. Ok (None, nm) s)
            | Some (nxt, _) \<Rightarrow>
                call (iunlockput ip s) (\<lambda>_ s. namex_loop devs path nameiparent nm nxt s))))"
  by pat_completeness auto
termination
  by (relation "measure (\<lambda>(devs, path, npar, nm, ip, s). length path)") (auto dest: skipelem_shorter)

declare namex_loop.simps [simp del]

definition namex :: "devsw \<Rightarrow> bytes \<Rightarrow> bool \<Rightarrow> fss \<Rightarrow> (nat option \<times> bytes, fss) res" where
  "namex devs path npar s =
     (if path \<noteq> [] \<and> hd path = slash
      then call (iget ROOTDEV ROOTINO s) (\<lambda>ip s. namex_loop devs path npar [] ip s)
      else call (on_fm curproc s) (\<lambda>p s.
        case cwd (ptable (bm (lb (fl s))) ! p) of
          None \<Rightarrow> Fault ''namex: no current directory''
        | Some d \<Rightarrow> call (idup d s) (\<lambda>ip s. namex_loop devs path npar [] ip s)))"

definition namei :: "devsw \<Rightarrow> bytes \<Rightarrow> fss \<Rightarrow> (nat option, fss) res" where
  "namei devs path s = call (namex devs path False s) (\<lambda>(ip, _) s. Ok ip s)"

definition nameiparent :: "devsw \<Rightarrow> bytes \<Rightarrow> fss \<Rightarrow> (nat option \<times> bytes, fss) res" where
  "nameiparent devs path s = namex devs path True s"

end
