(* ===== verification/Ring.thy ===== *)
theory Ring
  imports Prelude
begin

text \<open>
  Circular buffers with free-running 32-bit counters, as pipe.c (\<open>data[nwrite++ % PIPESIZE]\<close>)
  and console.c (\<open>input.buf[input.e++ % INPUT_BUF]\<close>) keep them.  The counters wrap around at
  \<open>2 ^ 32\<close>, which is harmless because the capacity divides it; the locale \<open>ring\<close> has that as its
  law and both components interpret it.
\<close>

locale ring =
  fixes cap :: nat
  assumes cap_pos: "0 < cap" and cap_divides: "cap dvd 2 ^ 32" and cap_less: "cap < 2 ^ 32"
begin

definition slot :: "uint \<Rightarrow> nat" where
  "slot k = unat k mod cap"

text \<open>The elements between the counters \<open>r\<close> and \<open>w\<close>, oldest first.\<close>

definition between :: "bytes \<Rightarrow> uint \<Rightarrow> uint \<Rightarrow> bytes" where
  "between d r w = map (\<lambda>k. d ! slot (r + of_nat k)) [0..<unat (w - r)]"

lemma slot_less [simp]: "slot k < cap"
  using cap_pos by (simp add: slot_def)

lemma slot_add: "slot (r + of_nat k) = (slot r + k) mod cap"
proof -
  have "unat (r + of_nat k) mod cap = (unat r + k) mod 2 ^ 32 mod cap"
    by (simp add: unat_word_ariths unsigned_of_nat take_bit_eq_mod mod_add_right_eq)
  also have "\<dots> = (unat r + k) mod cap"
    using cap_divides by (simp add: mod_mod_cancel)
  finally show ?thesis by (simp add: slot_def mod_add_left_eq)
qed

lemma slot_inj:
  assumes "j < cap" and "k < cap" and "slot (r + of_nat j) = slot (r + of_nat k)"
  shows "j = k"
  using assms
proof (induction j k rule: linorder_wlog)
  case (le j k)
  have "(slot r + k) mod cap = (slot r + j) mod cap" using le(4) by (simp add: slot_add)
  then have "cap dvd k - j" using le(1) by (simp add: mod_eq_dvd_iff_nat)
  then have "k - j = 0" using le(3) by (meson dvd_imp_le less_imp_diff_less not_less not_gr0)
  then show ?case using le(1) by simp
next
  case (sym j k)
  then show ?case by simp
qed

lemma length_between [simp]: "length (between d r w) = unat (w - r)"
  by (simp add: between_def)

lemma between_empty [simp]: "between d r r = []"
  by (simp add: between_def)

lemma between_empty_iff: "between d r w = [] \<longleftrightarrow> w = r"
proof -
  have "between d r w = [] \<longleftrightarrow> unat (w - r) = 0" by (metis length_between length_0_conv)
  then show ?thesis by (simp add: unat_eq_0)
qed

lemma between_snoc:
  assumes room: "unat (w - r) < cap" and len: "length d = cap"
  shows "between (d[slot w := b]) r (w + 1) = between d r w @ [b]"
proof -
  let ?n = "unat (w - r)"
  have w: "w = r + of_nat ?n" by simp
  have n1: "unat (w + 1 - r) = Suc ?n"
  proof -
    have "unat ((w - r) + 1) = unat (w - r) + unat (1 :: uint)"
      by (rule unat_add_lem[THEN iffD1]) (use room cap_less in simp)
    moreover have "w + 1 - r = (w - r) + 1" by simp
    ultimately show ?thesis by (simp only: unat_1)
  qed
  have old: "d[slot w := b] ! slot (r + of_nat k) = d ! slot (r + of_nat k)" if "k < ?n" for k
  proof -
    have "slot (r + of_nat k) \<noteq> slot w"
      using slot_inj[of k ?n r] that room w by auto
    then show ?thesis by simp
  qed
  have new: "d[slot w := b] ! slot (r + of_nat ?n) = b"
    using len w by simp
  show ?thesis
    unfolding between_def n1 using old new by simp
qed

lemma between_Cons:
  assumes "w \<noteq> r"
  shows "between d r w = d ! slot r # between d (r + 1) w"
proof -
  have p: "unat (w - r) = Suc (unat (w - (r + 1)))"
  proof -
    have "w - r \<noteq> 0" using assms by simp
    then have "unat (w - r - 1) = unat (w - r) - 1" and "0 < unat (w - r)"
      by (simp_all add: unat_minus_one unat_gt_0)
    moreover have "w - (r + 1) = w - r - 1" by simp
    ultimately show ?thesis by (metis Suc_pred')
  qed
  show ?thesis
    unfolding between_def p by (simp add: upt_conv_Cons map_Suc_upt[symmetric] algebra_simps comp_def
        del: upt_Suc map_Suc_upt)
qed

lemma between_other:
  assumes "unat (w - r) \<le> cap" and "unat (w - r) \<le> unat (e - r)" and "unat (e - r) < cap" 
  shows "between (d[slot e := b]) r w = between d r w"
proof -
  have e: "e = r + of_nat (unat (e - r))" by simp
  have "slot (r + of_nat k) \<noteq> slot e" if "k < unat (w - r)" for k
    using slot_inj[of k "unat (e - r)" r] that assms e by auto
  then have "d[slot e := b] ! slot (r + of_nat k) = d ! slot (r + of_nat k)" if "k < unat (w - r)" for k
    using that by (metis nth_list_update_neq)
  then show ?thesis by (simp add: between_def)
qed

lemma between_last:
  assumes "e \<noteq> w"
  shows "between d w e = between d w (e - 1) @ [d ! slot (e - 1)]"
    and "unat (e - w) = Suc (unat (e - 1 - w))"
proof -
  have "e - w \<noteq> 0" using assms by simp
  then have "unat (e - w - 1) = unat (e - w) - 1" "0 < unat (e - w)"
    by (simp_all add: unat_minus_one unat_gt_0)
  moreover have "e - 1 - w = e - w - 1" by simp
  ultimately show n: "unat (e - w) = Suc (unat (e - 1 - w))" by (metis Suc_pred')
  have "e - 1 = w + of_nat (unat (e - 1 - w))" by simp
  then show "between d w e = between d w (e - 1) @ [d ! slot (e - 1)]"
    unfolding between_def n by simp
qed

text \<open>A counter between the two ends splits the ring.\<close>

lemma unat_between:
  fixes r w e :: uint
  assumes "unat (w - r) \<le> unat (e - r)"
  shows "unat (e - w) = unat (e - r) - unat (w - r)"
proof -
  have "e - w = (e - r) - (w - r)" by simp
  then show ?thesis using assms by (simp only: unat_sub word_le_nat_alt)
qed

lemma between_append:
  assumes "unat (w - r) \<le> unat (e - r)"
  shows "between d r e = between d r w @ between d w e"
proof (rule nth_equalityI)
  have n: "unat (e - w) = unat (e - r) - unat (w - r)" by (rule unat_between[OF assms])
  then show "length (between d r e) = length (between d r w @ between d w e)" using assms by simp
  fix k assume "k < length (between d r e)"
  then have k: "k < unat (e - r)" by simp
  show "between d r e ! k = (between d r w @ between d w e) ! k"
  proof (cases "k < unat (w - r)")
    case True
    then show ?thesis using k by (simp add: nth_append) (simp add: between_def)
  next
    case False
    then have "w + of_nat (k - unat (w - r)) = r + of_nat k" by (simp add: of_nat_diff)
    moreover have "k - unat (w - r) < unat (e - w)" using False k n by simp
    ultimately show ?thesis using False k by (simp add: nth_append) (simp add: between_def add.commute)
  qed
qed

end

end
