(* ===== verification/Pipe.thy ===== *)
theory Pipe
  imports Kalloc Ring
begin

text \<open>
  Pipes: pipe.c without \<open>pipealloc\<close>, which needs the file table.  A pipe lives in a page of its own,
  so its address names it; \<open>pipes\<close> maps the address to the fields.  The bytes a writer passes are an
  argument and the bytes a reader receives are part of the result.
\<close>

section \<open>State\<close>

record pipe =
  pdata :: bytes
  nread :: uint
  nwrite :: uint
  readopen :: bool
  writeopen :: bool

record pst =
  pk :: kst
  pipes :: "uint \<Rightarrow> pipe"

definition PIPESIZE :: nat where "PIPESIZE = 512"

abbreviation on_pm :: "(mach \<Rightarrow> ('a, mach) res) \<Rightarrow> pst \<Rightarrow> ('a, pst) res" where
  "on_pm f \<equiv> zoom pk pk_update (on_km f)"

abbreviation pmach :: "pst \<Rightarrow> mach" where "pmach s \<equiv> km (pk s)"

definition set_pipe :: "uint \<Rightarrow> (pipe \<Rightarrow> pipe) \<Rightarrow> pst \<Rightarrow> pst" where
  "set_pipe p f s = s\<lparr>pipes := (pipes s)(p := f (pipes s p))\<rparr>"

definition proc_killed :: "pst \<Rightarrow> (bool, pst) res" where
  "proc_killed s = call (on_pm curproc s) (\<lambda>i s. Ok (killed (ptable (pmach s) ! i)) s)"

section \<open>pipe.c\<close>

definition pipeclose :: "uint \<Rightarrow> bool \<Rightarrow> pst \<Rightarrow> (unit, pst) res" where
  "pipeclose p writable s =
     call (on_pm (acquire (PipeLock p)) s) (\<lambda>_ s.
     call (if writable
           then on_pm (wakeup (ChPipeRead p)) (set_pipe p (\<lambda>x. x\<lparr>writeopen := False\<rparr>) s)
           else on_pm (wakeup (ChPipeWrite p)) (set_pipe p (\<lambda>x. x\<lparr>readopen := False\<rparr>) s)) (\<lambda>_ s.
     if \<not> readopen (pipes s p) \<and> \<not> writeopen (pipes s p)
     then call (on_pm (release (PipeLock p)) s) (\<lambda>_ s. zoom pk pk_update (kfree p) s)
     else on_pm (release (PipeLock p)) s))"

text \<open>
  \<open>pipewrite_loop p bs n\<close> is the loop of \<open>pipewrite\<close> with the bytes \<open>bs\<close> still to write.  A full
  pipe puts the writer to sleep, which ends the run; \<open>pipewrite_resume\<close> is how it goes on.
\<close>

fun pipewrite_loop :: "uint \<Rightarrow> bytes \<Rightarrow> int \<Rightarrow> pst \<Rightarrow> (int, pst) res" where
  "pipewrite_loop p [] n s =
     call (on_pm (wakeup (ChPipeRead p)) s) (\<lambda>_ s.
     call (on_pm (release (PipeLock p)) s) (\<lambda>_ s. Ok n s))"
| "pipewrite_loop p (b # bs) n s =
     (if nwrite (pipes s p) = nread (pipes s p) + of_nat PIPESIZE
      then call (if \<not> readopen (pipes s p) then Ok True s else proc_killed s) (\<lambda>dead s.
        if dead then call (on_pm (release (PipeLock p)) s) (\<lambda>_ s. Ok (-1) s)
        else call (on_pm (wakeup (ChPipeRead p)) s) (\<lambda>_ s.
          call (on_pm (sleep (ChPipeWrite p) (Some (PipeLock p))) s) (\<lambda>_ s. Ok n s)))
      else pipewrite_loop p bs n (set_pipe p (\<lambda>x. x\<lparr>pdata := (pdata x)[unat (nwrite x) mod PIPESIZE := b],
             nwrite := nwrite x + 1\<rparr>) s))"

definition pipewrite :: "uint \<Rightarrow> bytes \<Rightarrow> int \<Rightarrow> pst \<Rightarrow> (int, pst) res" where
  "pipewrite p addr n s =
     call (on_pm (acquire (PipeLock p)) s) (\<lambda>_ s. pipewrite_loop p (take (nat n) addr) n s)"

definition pipewrite_resume :: "nat \<Rightarrow> uint \<Rightarrow> bytes \<Rightarrow> int \<Rightarrow> pst \<Rightarrow> (int, pst) res" where
  "pipewrite_resume i p rest n s =
     call (on_pm (sleep_resume (PipeLock p) i) s) (\<lambda>_ s. pipewrite_loop p rest n s)"

text \<open>The copying loop of \<open>piperead\<close>, at most \<open>k\<close> more bytes.\<close>

fun piperead_copy :: "uint \<Rightarrow> nat \<Rightarrow> bytes \<Rightarrow> pst \<Rightarrow> bytes \<times> pst" where
  "piperead_copy p 0 acc s = (acc, s)"
| "piperead_copy p (Suc k) acc s =
     (if nread (pipes s p) = nwrite (pipes s p) then (acc, s)
      else piperead_copy p k (acc @ [pdata (pipes s p) ! (unat (nread (pipes s p)) mod PIPESIZE)])
             (set_pipe p (\<lambda>x. x\<lparr>nread := nread x + 1\<rparr>) s))"

definition piperead_loop :: "uint \<Rightarrow> int \<Rightarrow> pst \<Rightarrow> (int \<times> bytes, pst) res" where
  "piperead_loop p n s =
     (if nread (pipes s p) = nwrite (pipes s p) \<and> writeopen (pipes s p)
      then call (proc_killed s) (\<lambda>dead s.
        if dead then call (on_pm (release (PipeLock p)) s) (\<lambda>_ s. Ok (-1, []) s)
        else call (on_pm (sleep (ChPipeRead p) (Some (PipeLock p))) s) (\<lambda>_ s. Ok (0, []) s))
      else let (bs, s) = piperead_copy p (nat n) [] s in
        call (on_pm (wakeup (ChPipeWrite p)) s) (\<lambda>_ s.
        call (on_pm (release (PipeLock p)) s) (\<lambda>_ s. Ok (int (length bs), bs) s)))"

definition piperead :: "uint \<Rightarrow> int \<Rightarrow> pst \<Rightarrow> (int \<times> bytes, pst) res" where
  "piperead p n s = call (on_pm (acquire (PipeLock p)) s) (\<lambda>_ s. piperead_loop p n s)"

definition piperead_resume :: "nat \<Rightarrow> uint \<Rightarrow> int \<Rightarrow> pst \<Rightarrow> (int \<times> bytes, pst) res" where
  "piperead_resume i p n s =
     call (on_pm (sleep_resume (PipeLock p) i) s) (\<lambda>_ s. piperead_loop p n s)"

section \<open>The bytes in a pipe\<close>

interpretation pr: ring PIPESIZE
  by unfold_locales (simp_all add: PIPESIZE_def)

definition pipe_ok :: "pipe \<Rightarrow> bool" where
  "pipe_ok x \<longleftrightarrow> length (pdata x) = PIPESIZE \<and> unat (nwrite x - nread x) \<le> PIPESIZE"

definition queued :: "pipe \<Rightarrow> bytes" where
  "queued x = map (\<lambda>k. pdata x ! (unat (nread x + of_nat k) mod PIPESIZE)) [0..<unat (nwrite x - nread x)]"

lemma queued_between: "queued x = pr.between (pdata x) (nread x) (nwrite x)"
  by (simp add: queued_def pr.between_def pr.slot_def)

lemma pipe_full:
  assumes "pipe_ok x"
  shows "nwrite x = nread x + of_nat PIPESIZE \<longleftrightarrow> length (queued x) = PIPESIZE"
proof
  assume "nwrite x = nread x + of_nat PIPESIZE"
  then show "length (queued x) = PIPESIZE"
    by (simp add: queued_def PIPESIZE_def unsigned_of_nat)
next
  assume "length (queued x) = PIPESIZE"
  then have "unat (nwrite x - nread x) = PIPESIZE" by (simp add: queued_def)
  then have "nwrite x - nread x = of_nat PIPESIZE"
    by (simp add: word_unat_eq_iff PIPESIZE_def)
  then show "nwrite x = nread x + of_nat PIPESIZE" by (simp add: algebra_simps)
qed

text \<open>Storing one byte and taking one, as the abstract queue sees them.\<close>

definition push_byte :: "u8 \<Rightarrow> pipe \<Rightarrow> pipe" where
  "push_byte b x = x\<lparr>pdata := (pdata x)[unat (nwrite x) mod PIPESIZE := b], nwrite := nwrite x + 1\<rparr>"

lemma push_byte_queued:
  assumes ok: "pipe_ok x" and room: "length (queued x) < PIPESIZE"
  shows "queued (push_byte b x) = queued x @ [b] \<and> pipe_ok (push_byte b x)"
proof -
  have r: "unat (nwrite x - nread x) < PIPESIZE" using room by (simp add: queued_def)
  have l: "length (pdata x) = PIPESIZE" using ok by (simp add: pipe_ok_def)
  have q: "queued (push_byte b x) = queued x @ [b]"
    using pr.between_snoc[OF r l, of b]
    by (simp add: queued_between push_byte_def pr.slot_def)
  then have "length (queued (push_byte b x)) \<le> PIPESIZE" using room by simp
  then show ?thesis using q l by (simp add: pipe_ok_def queued_def push_byte_def)
qed

definition pop_byte :: "pipe \<Rightarrow> pipe" where
  "pop_byte x = x\<lparr>nread := nread x + 1\<rparr>"

lemma pop_byte_queued:
  assumes ok: "pipe_ok x" and ne: "nread x \<noteq> nwrite x"
  shows "queued x = pdata x ! (unat (nread x) mod PIPESIZE) # queued (pop_byte x) \<and> pipe_ok (pop_byte x)"
proof -
  have q: "queued x = pdata x ! (unat (nread x) mod PIPESIZE) # queued (pop_byte x)"
    using pr.between_Cons[of "nwrite x" "nread x" "pdata x"] ne
    by (simp add: queued_between pop_byte_def pr.slot_def)
  then have "length (queued (pop_byte x)) \<le> length (queued x)" by simp
  then show ?thesis using q ok by (simp add: pipe_ok_def queued_def pop_byte_def)
qed

lemma queued_empty: "nread x = nwrite x \<longleftrightarrow> queued x = []"
  using pr.between_empty_iff[of "pdata x" "nread x" "nwrite x"] by (auto simp: queued_between)

section \<open>What a write does\<close>

lemma fold_push_queued:
  "pipe_ok x \<Longrightarrow> length (queued x) + length bs \<le> PIPESIZE \<Longrightarrow>
     queued (fold push_byte bs x) = queued x @ bs \<and> pipe_ok (fold push_byte bs x)"
proof (induction bs arbitrary: x)
  case (Cons b bs)
  then have "queued (push_byte b x) = queued x @ [b]" "pipe_ok (push_byte b x)"
    using push_byte_queued[of x b] by simp_all
  then show ?case using Cons by simp
qed simp

lemma fold_push_open [simp]:
  "readopen (fold push_byte bs x) = readopen x" "writeopen (fold push_byte bs x) = writeopen x"
  by (induction bs arbitrary: x) (simp_all add: push_byte_def)

lemma set_pipe_fields [simp]:
  "pk (set_pipe p f s) = pk s" "pipes (set_pipe p f s) q = (if q = p then f (pipes s p) else pipes s q)"
  by (simp_all add: set_pipe_def)

lemma set_pipe_twice [simp]: "set_pipe p f (set_pipe p g s) = set_pipe p (\<lambda>x. f (g x)) s"
  by (simp add: set_pipe_def)

lemma set_pipe_id [simp]: "set_pipe p (\<lambda>x. x) s = s"
  by (simp add: set_pipe_def)

lemma pipewrite_loop_pushes:
  assumes "pipe_ok (pipes s p)" and "length (queued (pipes s p)) + length bs \<le> PIPESIZE"
  shows "pipewrite_loop p (bs @ rest) n s = pipewrite_loop p rest n (set_pipe p (fold push_byte bs) s)"
  using assms
proof (induction bs arbitrary: s)
  case Nil
  then show ?case by (simp add: id_def)
next
  case (Cons b bs)
  let ?s = "set_pipe p (push_byte b) s"
  have nf: "nwrite (pipes s p) \<noteq> nread (pipes s p) + of_nat PIPESIZE"
    using pipe_full[OF Cons.prems(1)] Cons.prems(2) by auto
  have "queued (pipes ?s p) = queued (pipes s p) @ [b]" "pipe_ok (pipes ?s p)"
    using push_byte_queued[OF Cons.prems(1), of b] Cons.prems(2) by simp_all
  then have "pipewrite_loop p (bs @ rest) n ?s = pipewrite_loop p rest n (set_pipe p (fold push_byte bs) ?s)"
    using Cons.prems(2) by (intro Cons.IH) simp_all
  moreover have "pipewrite_loop p ((b # bs) @ rest) n s = pipewrite_loop p (bs @ rest) n ?s"
    using nf by (simp add: push_byte_def[abs_def])
  ultimately show ?case by (simp add: comp_def)
qed

definition with_mach :: "mach \<Rightarrow> pst \<Rightarrow> pst" where
  "with_mach m s = s\<lparr>pk := (pk s)\<lparr>km := m\<rparr>\<rparr>"

lemma with_mach_fields [simp]:
  "pmach (with_mach m s) = m" "pipes (with_mach m s) = pipes s"
  "with_mach m (with_mach m' s) = with_mach m s"
  "set_pipe p f (with_mach m s) = with_mach m (set_pipe p f s)"
  by (simp_all add: with_mach_def set_pipe_def)

lemma on_pm_Ok: "f (pmach s) = Ok a m \<Longrightarrow> on_pm f s = Ok a (with_mach m s)"
  by (simp add: zoom_def with_mach_def)

lemma on_pm_Switch: "f (pmach s) = Switch m \<Longrightarrow> on_pm f s = Switch (with_mach m s)"
  by (simp add: zoom_def with_mach_def)

lemma with_mach_same [simp]: "with_mach (pmach s) s = s"
  by (simp add: with_mach_def)

lemma pm_acquire:
  "on_cpu c (pmach s) \<Longrightarrow> all_free (pmach s) \<Longrightarrow>
     on_pm (acquire l) s = Ok () (with_mach (take_lock c l (pmach s)) s)"
  by (rule on_pm_Ok) (simp add: acquire_eq all_free_def lock_free_def)

lemma pm_release:
  "pmach s = take_lock c l m \<Longrightarrow> on_cpu c m \<Longrightarrow> all_free m \<Longrightarrow> on_pm (release l) s = Ok () (with_mach m s)"
  by (rule on_pm_Ok) (simp add: release_take_lock all_free_def)

lemma wakeup1_take_lock: "wakeup1 ch (take_lock c l m) = take_lock c l (wakeup1 ch m)"
  by (simp add: wakeup1_def take_lock_def set_lock_def pushed_def)

lemma pm_wakeup_locked:
  assumes m: "pmach s = take_lock c l m" and c: "on_cpu c m" "all_free m" and l: "l \<noteq> PtableLock"
  shows "on_pm (wakeup ch) s = Ok () (with_mach (take_lock c l (wakeup1 ch m)) s)"
proof (rule on_pm_Ok)
  have "lock_free PtableLock (take_lock c l m)"
    using all_freeD[OF c(2), of PtableLock] l by (simp add: lock_free_def)
  then show "wakeup ch (pmach s) = Ok () (take_lock c l (wakeup1 ch m))"
    unfolding m using wakeup_eq[OF on_cpu_take_lock[OF c(1)]] by (simp add: wakeup1_take_lock)
qed

lemma all_free_wakeup1 [simp]: "all_free (wakeup1 ch m) = all_free m"
  by (simp add: all_free_def lock_free_def)

lemma pipewrite_loop_done:
  assumes m: "pmach s = take_lock c (PipeLock p) m" and c: "on_cpu c m" "all_free m"
  shows "pipewrite_loop p [] n s = Ok n (with_mach (wakeup1 (ChPipeRead p) m) s)"
  using pm_wakeup_locked[OF m c] c
    pm_release[of "with_mach (take_lock c (PipeLock p) (wakeup1 (ChPipeRead p) m)) s" c "PipeLock p"]
  by simp

lemma proc_killed_eq:
  assumes m: "pmach s = take_lock c l m" and r: "running c i m"
  shows "proc_killed s = Ok (killed (ptable m ! i)) s"
proof -
  have "on_pm curproc s = Ok i (with_mach (pmach s) s)"
    by (rule on_pm_Ok) (use curproc_eq[OF running_take_lock[OF r, of l]] m in simp)
  moreover have "killed (ptable (pmach s) ! i) = killed (ptable m ! i)" unfolding m by simp
  ultimately show ?thesis unfolding proc_killed_def by simp
qed

lemma sleep_locked:
  assumes m: "pmach s = take_lock c l m" and r: "running c i m" and f: "all_free m"
    and l: "l \<noteq> PtableLock" and n: "ncli (cpus m ! c) = 0"
  shows "\<exists>m'. on_pm (sleep ch (Some l)) s = Switch (with_mach m' s) \<and> lock_free l m' \<and>
    ptable m' = (ptable m)[i := (ptable m ! i)\<lparr>pchan := Some ch, pstate := SLEEPING\<rparr>]"
proof -
  have c: "on_cpu c m" using r by (simp add: running_def)
  have "ncli (cpus (take_lock c l m) ! c) = 1" using n c by (simp add: on_cpuD)
  moreover have "lock_free PtableLock (take_lock c l m)"
    using all_freeD[OF f, of PtableLock] l by (simp add: lock_free_def)
  ultimately obtain m' where "sleep ch (Some l) (take_lock c l m) = Switch m'" "lock_free l m'"
    "ptable m' = (ptable m)[i := (ptable m ! i)\<lparr>pchan := Some ch, pstate := SLEEPING\<rparr>]"
    using sleep_switches[OF running_take_lock[OF r] take_lock_held l, of ch] by auto
  then show ?thesis using on_pm_Switch[of "sleep ch (Some l)" s m'] m by auto
qed

lemma pipewrite_loop_full:
  assumes m: "pmach s = take_lock c (PipeLock p) m" and r: "running c i m" and f: "all_free m"
    and n: "ncli (cpus m ! c) = 0"
    and full: "pipe_ok (pipes s p)" "length (queued (pipes s p)) = PIPESIZE"
  shows "if readopen (pipes s p) \<and> \<not> killed (ptable m ! i)
    then \<exists>m'. pipewrite_loop p (b # bs) k s = Switch (with_mach m' s) \<and> lock_free (PipeLock p) m' \<and>
      ptable m' = (ptable (wakeup1 (ChPipeRead p) m))[i :=
        (ptable (wakeup1 (ChPipeRead p) m) ! i)\<lparr>pchan := Some (ChPipeWrite p), pstate := SLEEPING\<rparr>]
    else pipewrite_loop p (b # bs) k s = Ok (-1) (with_mach m s)"
proof -
  have c: "on_cpu c m" using r by (simp add: running_def)
  have nw: "nwrite (pipes s p) = nread (pipes s p) + of_nat PIPESIZE" using pipe_full[OF full(1)] full(2) by simp
  let ?w = "wakeup1 (ChPipeRead p) m"
  let ?s = "with_mach (take_lock c (PipeLock p) ?w) s"
  have w: "on_pm (wakeup (ChPipeRead p)) s = Ok () ?s" by (rule pm_wakeup_locked[OF m c f]) simp
  have "\<exists>m'. on_pm (sleep (ChPipeWrite p) (Some (PipeLock p))) ?s = Switch (with_mach m' ?s) \<and>
      lock_free (PipeLock p) m' \<and>
      ptable m' = (ptable ?w)[i := (ptable ?w ! i)\<lparr>pchan := Some (ChPipeWrite p), pstate := SLEEPING\<rparr>]"
    by (rule sleep_locked) (use r f n in simp_all)
  then show ?thesis
    using nw w proc_killed_eq[OF m r] pm_release[OF m c f] by auto
qed

definition readers_woken :: "uint \<Rightarrow> nat \<Rightarrow> mach \<Rightarrow> mach \<Rightarrow> bool" where
  "readers_woken p i m m' \<longleftrightarrow> (\<forall>j < length (ptable m). j \<noteq> i \<and> pstate (ptable m ! j) = SLEEPING \<and>
     pchan (ptable m ! j) = Some (ChPipeRead p) \<longrightarrow> pstate (ptable m' ! j) = RUNNABLE)"

lemma readers_woken_wakeup1: "readers_woken p i m (wakeup1 (ChPipeRead p) m)"
  by (simp add: readers_woken_def wakeup1_procs)

text \<open>C26: Writing to a pipe appends to its queue of bytes, exactly and in order, whatever the values of the
  wrapping 32-bit counters.  If the bytes fit, all are appended, the waiting readers become
  \<open>RUNNABLE\<close> and \<open>n\<close> is returned.  If they do not fit, the bytes that do are appended; then the
  call fails with -1 when no reader is left or the writer was killed, and otherwise the writer
  goes to sleep on a full pipe, having woken the readers and freed the pipe's lock.\<close>

theorem pipewrite_appends:
  assumes "running c i (pmach s)" and "all_free (pmach s)" and "ncli (cpus (pmach s) ! c) = 0"
    and "pipe_ok (pipes s p)" and "n = int (length bs)"
  shows "let q = queued (pipes s p); room = PIPESIZE - length q in
    if length bs \<le> room
    then \<exists>s'. pipewrite p bs n s = Ok n s' \<and> queued (pipes s' p) = q @ bs \<and> pipe_ok (pipes s' p) \<and>
      readers_woken p i (pmach s) (pmach s')
    else if readopen (pipes s p) \<and> \<not> killed (ptable (pmach s) ! i)
    then \<exists>s'. pipewrite p bs n s = Switch s' \<and> queued (pipes s' p) = q @ take room bs \<and>
      length (queued (pipes s' p)) = PIPESIZE \<and> pipe_ok (pipes s' p) \<and>
      pstate (ptable (pmach s') ! i) = SLEEPING \<and> pchan (ptable (pmach s') ! i) = Some (ChPipeWrite p) \<and>
      readers_woken p i (pmach s) (pmach s') \<and> lock_free (PipeLock p) (pmach s')
    else \<exists>s'. pipewrite p bs n s = Ok (-1) s' \<and> queued (pipes s' p) = q @ take room bs \<and>
      pipe_ok (pipes s' p) \<and> pmach s' = pmach s"
proof -
  let ?m = "pmach s" and ?q = "queued (pipes s p)"
  let ?r = "PIPESIZE - length ?q"
  let ?s = "with_mach (take_lock c (PipeLock p) ?m) s"
  have c: "on_cpu c ?m" using assms(1) by (simp add: running_def)
  have le: "length ?q \<le> PIPESIZE" using assms(4) by (simp add: pipe_ok_def queued_def)
  have start: "pipewrite p bs n s = pipewrite_loop p bs n ?s"
    using assms(5) pm_acquire[OF c assms(2)] by (simp add: pipewrite_def)
  show ?thesis
  proof (cases "length bs \<le> ?r")
    case True
    then have fit: "length ?q + length bs \<le> PIPESIZE" using le by simp
    let ?t = "set_pipe p (fold push_byte bs) ?s"
    have "pipewrite_loop p (bs @ []) n ?s = pipewrite_loop p [] n ?t"
      by (rule pipewrite_loop_pushes) (use assms(4) fit in simp_all)
    then have "pipewrite p bs n s = Ok n (with_mach (wakeup1 (ChPipeRead p) ?m) ?t)"
      using start pipewrite_loop_done[of ?t c p ?m, OF _ c assms(2)] by simp
    then show ?thesis
      using True fold_push_queued[OF assms(4) fit] by (simp add: readers_woken_wakeup1)
  next
    case False
    let ?a = "take ?r bs" and ?b = "drop ?r bs"
    let ?t = "set_pipe p (fold push_byte ?a) ?s"
    have fit: "length ?q + length ?a \<le> PIPESIZE" using le by simp
    have "pipewrite_loop p (?a @ ?b) n ?s = pipewrite_loop p ?b n ?t"
      by (rule pipewrite_loop_pushes) (use assms(4) fit in simp_all)
    then have run: "pipewrite p bs n s = pipewrite_loop p ?b n ?t" using start by simp
    have q: "queued (pipes ?t p) = ?q @ ?a" "pipe_ok (pipes ?t p)"
      using fold_push_queued[OF assms(4) fit] by simp_all
    then have full: "length (queued (pipes ?t p)) = PIPESIZE" using le False by simp
    obtain b rest where b: "?b = b # rest" using False by (cases ?b) simp_all
    have m: "pmach ?t = take_lock c (PipeLock p) ?m" by simp
    note L = pipewrite_loop_full[OF m assms(1-3) q(2) full, of b rest n]
    show ?thesis
    proof (cases "readopen (pipes s p) \<and> \<not> killed (ptable ?m ! i)")
      case True
      let ?w = "wakeup1 (ChPipeRead p) ?m"
      obtain m' where m': "pipewrite_loop p ?b n ?t = Switch (with_mach m' ?t)" "lock_free (PipeLock p) m'"
        "ptable m' = (ptable ?w)[i := (ptable ?w ! i)\<lparr>pchan := Some (ChPipeWrite p), pstate := SLEEPING\<rparr>]"
        using L True unfolding b by (auto simp del: pipewrite_loop.simps)
      have i: "i < length (ptable ?w)" using assms(1) by (simp add: running_def wakeup1_def)
      have "readers_woken p i ?m m'"
        using readers_woken_wakeup1[of p i ?m] unfolding readers_woken_def m'(3) by simp
      then show ?thesis using False True run m' q full i by (simp del: pipewrite_loop.simps)
    next
      case no: False
      have "readopen (pipes ?t p) = readopen (pipes s p)" by simp
      then have "pipewrite_loop p (b # rest) n ?t = Ok (-1) (with_mach ?m ?t)"
        using L no by (auto simp del: pipewrite_loop.simps)
      then have "pipewrite p bs n s = Ok (-1) (with_mach ?m ?t)" using run unfolding b by simp
      then show ?thesis using False no q by (auto simp del: pipewrite_loop.simps)
    qed
  qed
qed

section \<open>What a read does\<close>

lemma piperead_copy_queued:
  assumes "pipe_ok (pipes s p)"
  shows "\<exists>x. piperead_copy p k acc s = (acc @ take k (queued (pipes s p)), set_pipe p (\<lambda>_. x) s) \<and>
    queued x = drop k (queued (pipes s p)) \<and> pipe_ok x"
  using assms
proof (induction k arbitrary: acc s)
  case 0
  have "set_pipe p (\<lambda>_. pipes s p) s = s" by (simp add: set_pipe_def)
  then show ?case using 0 by (intro exI[of _ "pipes s p"]) simp
next
  case (Suc k)
  show ?case
  proof (cases "nread (pipes s p) = nwrite (pipes s p)")
    case True
    have "set_pipe p (\<lambda>_. pipes s p) s = s" by (simp add: set_pipe_def)
    then show ?thesis using True Suc.prems queued_empty[of "pipes s p"] by (intro exI[of _ "pipes s p"]) simp
  next
    case False
    let ?s = "set_pipe p pop_byte s"
    have q: "queued (pipes s p) = pdata (pipes s p) ! (unat (nread (pipes s p)) mod PIPESIZE) # queued (pipes ?s p)"
      "pipe_ok (pipes ?s p)"
      using pop_byte_queued[OF Suc.prems False] by simp_all
    show ?thesis
      using Suc.IH[OF q(2), of "acc @ [pdata (pipes s p) ! (unat (nread (pipes s p)) mod PIPESIZE)]"] False q(1)
      by (auto simp: pop_byte_def[abs_def])
  qed
qed

text \<open>C27: Reading from a pipe takes a prefix of its queue: of a pipe that holds bytes, or whose
  writers are gone, it returns the first \<open>min n (length queue)\<close> bytes, leaves the rest in order and
  wakes the writers.  On an empty pipe with a writer it fails with -1 if the reader was killed,
  and otherwise puts the reader to sleep with the pipe unchanged and its lock free.\<close>

theorem piperead_takes_prefix:
  assumes "running c i (pmach s)" and "all_free (pmach s)" and "ncli (cpus (pmach s) ! c) = 0"
    and "pipe_ok (pipes s p)"
  shows "let q = queued (pipes s p) in
    if q \<noteq> [] \<or> \<not> writeopen (pipes s p)
    then \<exists>s'. piperead p n s = Ok (int (length (take (nat n) q)), take (nat n) q) s' \<and>
      queued (pipes s' p) = drop (nat n) q \<and> pipe_ok (pipes s' p) \<and>
      pmach s' = wakeup1 (ChPipeWrite p) (pmach s)
    else if killed (ptable (pmach s) ! i)
    then piperead p n s = Ok (-1, []) s
    else \<exists>s'. piperead p n s = Switch s' \<and> pipes s' = pipes s \<and> lock_free (PipeLock p) (pmach s') \<and>
      pstate (ptable (pmach s') ! i) = SLEEPING \<and> pchan (ptable (pmach s') ! i) = Some (ChPipeRead p)"
proof -
  let ?m = "pmach s" and ?q = "queued (pipes s p)"
  let ?s = "with_mach (take_lock c (PipeLock p) ?m) s"
  have c: "on_cpu c ?m" using assms(1) by (simp add: running_def)
  have start: "piperead p n s = piperead_loop p n ?s"
    using pm_acquire[OF c assms(2)] by (simp add: piperead_def)
  have m: "pmach ?s = take_lock c (PipeLock p) ?m" by simp
  show ?thesis
  proof (cases "?q \<noteq> [] \<or> \<not> writeopen (pipes s p)")
    case True
    obtain x where x: "piperead_copy p (nat n) [] ?s = (take (nat n) ?q, set_pipe p (\<lambda>_. x) ?s)"
      "queued x = drop (nat n) ?q" "pipe_ok x"
      using piperead_copy_queued[of ?s p "nat n" "[]"] assms(4) by auto
    let ?w = "wakeup1 (ChPipeWrite p) ?m"
    let ?t = "with_mach (take_lock c (PipeLock p) ?w) (set_pipe p (\<lambda>_. x) s)"
    have w: "on_pm (wakeup (ChPipeWrite p)) (set_pipe p (\<lambda>_. x) ?s) = Ok () ?t"
      using pm_wakeup_locked[of "set_pipe p (\<lambda>_. x) ?s" c "PipeLock p" ?m "ChPipeWrite p"] c assms(2) by simp
    have "on_pm (release (PipeLock p)) ?t = Ok () (with_mach ?w ?t)"
      by (rule pm_release) (use c assms(2) in simp_all)
    then show ?thesis
      using True start x w queued_empty[of "pipes s p"] by (auto simp: piperead_loop_def)
  next
    case False
    then have e: "nread (pipes s p) = nwrite (pipes s p)" "writeopen (pipes s p)"
      using queued_empty[of "pipes s p"] by auto
    have sl: "\<exists>m'. on_pm (sleep (ChPipeRead p) (Some (PipeLock p))) ?s = Switch (with_mach m' ?s) \<and>
        lock_free (PipeLock p) m' \<and>
        ptable m' = (ptable ?m)[i := (ptable ?m ! i)\<lparr>pchan := Some (ChPipeRead p), pstate := SLEEPING\<rparr>]"
      by (rule sleep_locked[OF m assms(1,2) _ assms(3)]) simp
    have i: "i < length (ptable ?m)" using assms(1) by (simp add: running_def)
    have rel: "on_pm (release (PipeLock p)) ?s = Ok () s"
      using pm_release[OF m c assms(2)] by simp
    show ?thesis
      using False e start rel sl i proc_killed_eq[OF m assms(1)]
      by (auto simp: piperead_loop_def)
  qed
qed

definition empty_pipe :: pipe where
  "empty_pipe = \<lparr>pdata = replicate PIPESIZE 0, nread = 0xFFFFFFFF, nwrite = 0xFFFFFFFF,
     readopen = True, writeopen = True\<rparr>"

definition pipe_world :: pst where
  "pipe_world = \<lparr>pk = boot_pool\<lparr>km := one_mach\<rparr>, pipes = (\<lambda>_. empty_pipe)\<rparr>"

lemma pipe_world_ok:
  "running 0 0 (pmach pipe_world)" "all_free (pmach pipe_world)" "ncli (cpus (pmach pipe_world) ! 0) = 0"
  "pipe_ok (pipes pipe_world p)" "queued (pipes pipe_world p) = []"
  using one_mach_running one_mach_free
  by (simp_all add: pipe_world_def all_free_def pipe_ok_def empty_pipe_def queued_def)
    (simp_all add: one_mach_def boot_cpu_def)

theorem pipewrite_appends_witness:
  "\<exists>s'. pipewrite 0 [1, 2, 3] 3 pipe_world = Ok 3 s' \<and> queued (pipes s' 0) = [1, 2, 3]"
  using pipewrite_appends[OF pipe_world_ok(1,2,3,4), of 3 "[1, 2, 3]" 0] pipe_world_ok(5)[of 0]
  by (auto simp: PIPESIZE_def)

theorem piperead_takes_prefix_witness:
  "\<exists>s'. piperead 0 10 pipe_world = Switch s' \<and> pstate (ptable (pmach s') ! 0) = SLEEPING"
proof -
  have "\<not> killed (ptable (pmach pipe_world) ! 0)" "writeopen (pipes pipe_world 0)"
    by (simp_all add: pipe_world_def one_mach_def empty_pipe_def zero_proc_def)
  then show ?thesis
    using piperead_takes_prefix[OF pipe_world_ok(1,2,3,4), of 0 10] pipe_world_ok(5)[of 0] by auto
qed

end
