(* ===== verification/Printf.thy ===== *)
theory Printf
  imports Cstring
begin

text \<open>
  Formatted output: printf.c of the user library, and \<open>printint\<close> and the formatting loop of
  \<open>cprintf\<close> of the kernel's console.c.  The model computes the characters in the order the code
  writes them.  \<open>str a\<close> is the zero-terminated string at the address \<open>a\<close>; reading past the
  arguments that were passed is \<open>None\<close>.
\<close>

section \<open>printint\<close>

text \<open>
  The digits of \<open>x\<close>, least significant first, as the \<open>do\<close>-\<open>while\<close> loop stores them in \<open>buf\<close>.  The
  callers' bases are 10 and 16; with a base below 2 the C loop would fault or never end.
\<close>

function int_digits :: "(nat \<Rightarrow> u8) \<Rightarrow> uint \<Rightarrow> uint \<Rightarrow> bytes" where
  "int_digits digits x base =
     digits (unat (x mod base)) # (if base < 2 \<or> x div base = 0 then [] else int_digits digits (x div base) base)"
  by pat_completeness auto
termination
proof (relation "measure (\<lambda>(digits, x, base). unat x)")
  fix digits :: "nat \<Rightarrow> u8" and x base :: uint
  assume "\<not> (base < 2 \<or> x div base = 0)"
  then have b: "2 \<le> unat base" and nz: "x div base \<noteq> 0" by (auto simp: word_less_nat_alt)
  have "x \<noteq> 0" using nz by auto
  then have "0 < unat x" by (simp add: unat_gt_0)
  then have "unat x div unat base < unat x" using b by simp
  then show "((digits, x div base, base), digits, x, base) \<in> measure (\<lambda>(digits, x, base). unat x)"
    by (simp add: unat_div)
qed simp

declare int_digits.simps [simp del]

definition hex_upper :: "nat \<Rightarrow> u8" where
  "hex_upper d = (if d < 10 then of_nat (48 + d) else of_nat (55 + d))"

definition hex_lower :: "nat \<Rightarrow> u8" where
  "hex_lower d = (if d < 10 then of_nat (48 + d) else of_nat (87 + d))"

text \<open>What is in \<open>buf\<close> after the digits and the sign; it is written out from its end.\<close>

definition int_buf :: "(nat \<Rightarrow> u8) \<Rightarrow> uint \<Rightarrow> uint \<Rightarrow> bool \<Rightarrow> bytes" where
  "int_buf digits xx base sg =
     (if sg \<and> sint xx < 0 then int_digits digits (- xx) base @ [45] else int_digits digits xx base)"

definition printint :: "uint \<Rightarrow> uint \<Rightarrow> bool \<Rightarrow> bytes" where
  "printint xx base sg = rev (int_buf hex_upper xx base sg)"

definition kprintint :: "uint \<Rightarrow> uint \<Rightarrow> bool \<Rightarrow> bytes" where
  "kprintint xx base sg = rev (int_buf hex_lower xx base sg)"

section \<open>printf\<close>

definition null_string :: bytes where
  "null_string = [40, 110, 117, 108, 108, 41]"

definition string_arg :: "(uint \<Rightarrow> bytes) \<Rightarrow> uint \<Rightarrow> bytes" where
  "string_arg str a = (if a = 0 then null_string else str a)"

text \<open>The loop over the format; the flag is the C variable \<open>state\<close> (a \<open>%\<close> was just read).\<close>

fun printf_loop :: "(uint \<Rightarrow> bytes) \<Rightarrow> bool \<Rightarrow> bytes \<Rightarrow> uint list \<Rightarrow> bytes option" where
  "printf_loop str pct [] ap = Some []"
| "printf_loop str False (c # fmt) ap =
     (if c = 37 then printf_loop str True fmt ap
      else map_option ((#) c) (printf_loop str False fmt ap))"
| "printf_loop str True (c # fmt) ap =
     (if c = 100 then
        (case ap of [] \<Rightarrow> None | a # ap \<Rightarrow> map_option ((@) (printint a 10 True)) (printf_loop str False fmt ap))
      else if c = 120 \<or> c = 112 then
        (case ap of [] \<Rightarrow> None | a # ap \<Rightarrow> map_option ((@) (printint a 16 False)) (printf_loop str False fmt ap))
      else if c = 115 then
        (case ap of [] \<Rightarrow> None | a # ap \<Rightarrow> map_option ((@) (string_arg str a)) (printf_loop str False fmt ap))
      else if c = 99 then
        (case ap of [] \<Rightarrow> None | a # ap \<Rightarrow> map_option ((#) (ucast a)) (printf_loop str False fmt ap))
      else if c = 37 then map_option ((#) c) (printf_loop str False fmt ap)
      else map_option ((@) [37, c]) (printf_loop str False fmt ap))"

definition printf :: "(uint \<Rightarrow> bytes) \<Rightarrow> bytes \<Rightarrow> uint list \<Rightarrow> bytes option" where
  "printf str fmt args = printf_loop str False (takeWhile (\<lambda>c. c \<noteq> 0) fmt) args"

text \<open>The loop of the kernel's \<open>cprintf\<close>, which knows no \<open>%c\<close> and stops at a final \<open>%\<close>.\<close>

fun cprintf_loop :: "(uint \<Rightarrow> bytes) \<Rightarrow> bytes \<Rightarrow> uint list \<Rightarrow> bytes option" where
  "cprintf_loop str [] ap = Some []"
| "cprintf_loop str [c] ap = (if c \<noteq> 37 then Some [c] else Some [])"
| "cprintf_loop str (c # d # fmt) ap =
     (if c \<noteq> 37 then map_option ((#) c) (cprintf_loop str (d # fmt) ap)
      else if d = 100 then
        (case ap of [] \<Rightarrow> None | a # ap \<Rightarrow> map_option ((@) (kprintint a 10 True)) (cprintf_loop str fmt ap))
      else if d = 120 \<or> d = 112 then
        (case ap of [] \<Rightarrow> None | a # ap \<Rightarrow> map_option ((@) (kprintint a 16 False)) (cprintf_loop str fmt ap))
      else if d = 115 then
        (case ap of [] \<Rightarrow> None | a # ap \<Rightarrow> map_option ((@) (string_arg str a)) (cprintf_loop str fmt ap))
      else if d = 37 then map_option ((#) 37) (cprintf_loop str fmt ap)
      else map_option ((@) [37, d]) (cprintf_loop str fmt ap))"

section \<open>Numbers and their digits\<close>

text \<open>The number a list of digits, least significant first, stands for.\<close>

fun digits_value :: "nat \<Rightarrow> (u8 \<Rightarrow> nat) \<Rightarrow> bytes \<Rightarrow> nat" where
  "digits_value b val [] = 0"
| "digits_value b val (d # ds) = val d + b * digits_value b val ds"

lemma int_digits_value:
  assumes "2 \<le> base" and "\<And>d. d < unat base \<Longrightarrow> val (digits d) = d"
  shows "digits_value (unat base) val (int_digits digits x base) = unat x"
proof (induction "unat x" arbitrary: x rule: less_induct)
  case less
  have b: "2 \<le> unat base" using assms(1) by (simp add: word_le_nat_alt)
  have d: "val (digits (unat (x mod base))) = unat x mod unat base"
    using assms(2)[of "unat (x mod base)"] b by (simp add: unat_mod)
  show ?case
  proof (cases "x div base = 0")
    case True
    then have "unat x div unat base = 0" by (metis unat_0 unat_div)
    then have "unat x < unat base" using b by (simp add: div_eq_0_iff)
    then show ?thesis using True d by (subst int_digits.simps) simp
  next
    case False
    then have "unat x div unat base \<noteq> 0" by (metis unat_div unat_eq_0)
    then have "0 < unat x" by (cases "unat x") auto
    then have "unat (x div base) < unat x" using b by (simp add: unat_div)
    then have "digits_value (unat base) val (int_digits digits (x div base) base) = unat x div unat base"
      using less by (simp add: unat_div)
    moreover have "\<not> base < 2" using assms(1) by (simp add: not_less)
    ultimately show ?thesis using False d by (subst int_digits.simps) simp
  qed
qed

lemma int_digits_length:
  assumes "2 \<le> base" and "unat x < unat base ^ Suc n"
  shows "length (int_digits digits x base) \<le> Suc n"
  using assms(2)
proof (induction n arbitrary: x)
  case 0
  then have "x div base = 0" by (simp add: unat_eq_0[symmetric] unat_div div_eq_0_iff)
  then show ?case by (subst int_digits.simps) simp
next
  case (Suc n)
  have "unat (x div base) < unat base ^ Suc n"
    using Suc.prems by (simp add: unat_div less_mult_imp_div_less mult.commute)
  then have "length (int_digits digits (x div base) base) \<le> Suc n" by (rule Suc.IH)
  then show ?case by (subst int_digits.simps) simp
qed

text \<open>The digits in base 10 are the characters \<open>0\<close> to \<open>9\<close>.\<close>

definition dec_digit :: "u8 \<Rightarrow> bool" where
  "dec_digit d \<longleftrightarrow> 48 \<le> d \<and> d \<le> 57"

definition dec_val :: "u8 \<Rightarrow> nat" where
  "dec_val d = unat d - 48"

lemma hex_upper_digit: "d < 10 \<Longrightarrow> dec_digit (hex_upper d) \<and> dec_val (hex_upper d) = d"
proof -
  assume "d < 10"
  then have "unat (48 + of_nat d :: u8) = 48 + d"
    by (simp add: unat_word_ariths unsigned_of_nat take_bit_eq_mod)
  then show ?thesis
    using \<open>d < 10\<close> by (simp add: dec_digit_def dec_val_def hex_upper_def word_le_nat_alt)
qed

lemma hex_lower_digit: "d < 10 \<Longrightarrow> hex_lower d = hex_upper d"
  by (simp add: hex_upper_def hex_lower_def)

lemma int_digits_decimal: "\<forall>d \<in> set (int_digits hex_upper x 10). dec_digit d"
proof (induction "unat x" arbitrary: x rule: less_induct)
  case less
  have "unat (x mod 10) < 10" by (simp add: unat_mod)
  then have d: "dec_digit (hex_upper (unat (x mod 10)))" using hex_upper_digit by simp
  show ?case
  proof (cases "x div 10 = 0")
    case False
    then have "unat (x div 10) \<noteq> 0" by (simp add: unat_eq_0)
    then have "unat x div 10 \<noteq> 0" by (simp add: unat_div)
    then have "unat (x div 10) < unat x" by (simp add: unat_div)
    then show ?thesis using less d by (subst int_digits.simps) simp
  qed (use d in \<open>subst int_digits.simps, simp\<close>)
qed

lemma atoi_from_digits:
  "\<forall>d \<in> set ds. dec_digit d \<Longrightarrow> \<forall>k < length ds. m (s + of_nat k) = ds ! k \<Longrightarrow>
   \<not> dec_digit (m (s + of_nat (length ds))) \<Longrightarrow>
   atoi_from s n m = Some (fold (\<lambda>d n. n * 10 + ucast d - 48) ds n)"
proof (induction ds arbitrary: s n)
  case Nil
  then show ?case by (subst atoi_from.simps) (auto simp: dec_digit_def)
next
  case (Cons d ds)
  have d: "m s = d" using Cons.prems(2) by force
  have "m (s + 1 + of_nat k) = ds ! k" if "k < length ds" for k
    using Cons.prems(2)[rule_format, of "Suc k"] that by (simp add: add.assoc)
  moreover have "\<not> dec_digit (m (s + 1 + of_nat (length ds)))"
    using Cons.prems(3) by (simp add: add.assoc)
  ultimately have "atoi_from (s + 1) (n * 10 + ucast d - 48) m =
      Some (fold (\<lambda>d n. n * 10 + ucast d - 48) ds (n * 10 + ucast d - 48))"
    using Cons.prems(1) by (intro Cons.IH) simp_all
  then show ?case using Cons.prems(1) d by (subst atoi_from.simps) (simp add: dec_digit_def)
qed

lemma fold_digits_value:
  "\<forall>d \<in> set ds. dec_digit d \<Longrightarrow>
     foldr (\<lambda>d n. n * 10 + ucast d - 48) ds 0 = (of_nat (digits_value 10 dec_val ds) :: uint)"
proof (induction ds)
  case (Cons d ds)
  have "48 \<le> unat d" using Cons.prems by (simp add: dec_digit_def word_le_nat_alt)
  then have "(of_nat (dec_val d) :: uint) = ucast d - 48" by (simp add: dec_val_def)
  then show ?case using Cons by (simp add: algebra_simps)
qed simp

text \<open>Printing and reading decimal numbers are inverse: when memory holds the characters that
  \<open>printint(x, 10, 1)\<close> writes for a non-negative \<open>int\<close>, followed by a character that is no digit,
  \<open>atoi\<close> returns \<open>x\<close>.\<close>

theorem atoi_printint:
  assumes "0 \<le> sint x" and "\<forall>k < length (printint x 10 True). m (s + of_nat k) = printint x 10 True ! k"
    and "\<not> dec_digit (m (s + of_nat (length (printint x 10 True))))"
  shows "atoi s m = Some x"
proof -
  let ?ds = "int_digits hex_upper x 10"
  have p: "printint x 10 True = rev ?ds" using assms(1) by (simp add: printint_def int_buf_def)
  have "atoi_from s 0 m = Some (fold (\<lambda>d n. n * 10 + ucast d - 48) (rev ?ds) 0)"
    using assms(2,3) int_digits_decimal[of x] unfolding p by (intro atoi_from_digits) simp_all
  also have "\<dots> = Some (of_nat (digits_value 10 dec_val ?ds))"
    using fold_digits_value[OF int_digits_decimal[of x]] by (simp add: foldr_conv_fold)
  also have "digits_value 10 dec_val ?ds = unat x"
    using int_digits_value[of 10 dec_val hex_upper x] hex_upper_digit by (simp add: word_le_nat_alt)
  finally show ?thesis by (simp add: atoi_def)
qed

text \<open>\<open>printint\<close> never writes past its 16-byte buffer: for the two bases its callers pass, the
  digits and the sign take at most 11 bytes in base 10 and 9 in base 16, for every argument.\<close>

theorem int_buf_fits:
  "length (int_buf hex_upper x 10 sg) \<le> 11 \<and> length (int_buf hex_upper x 16 sg) \<le> 9 \<and>
   length (int_buf hex_lower x 10 sg) \<le> 11 \<and> length (int_buf hex_lower x 16 sg) \<le> 9"
proof -
  have "length (int_digits digits y 10) \<le> 10" for digits y
    using int_digits_length[of 10 y 9 digits] unat_lt32[of y] by (simp add: word_le_nat_alt)
  moreover have "length (int_digits digits y 16) \<le> 8" for digits y
    using int_digits_length[of 16 y 7 digits] unat_lt32[of y] by (simp add: word_le_nat_alt)
  ultimately have "length (int_buf digits x 10 sg) \<le> 11 \<and> length (int_buf digits x 16 sg) \<le> 9" for digits
    by (auto simp: int_buf_def intro: le_SucI order_trans[of _ 10 11] order_trans[of _ 8 9])
  then show ?thesis by blast
qed

theorem atoi_printint_witness:
  "atoi 100 (\<lambda>a. if a = 100 then 52 else if a = 101 then 50 else 0) = Some 42"
proof -
  have p: "printint 42 10 True = [52, 50]"
    by (simp add: printint_def int_buf_def int_digits.simps hex_upper_def)
  have "\<forall>k < length (printint 42 10 True).
      (\<lambda>a :: uint. if a = 100 then 52 else if a = 101 then 50 else 0) (100 + of_nat k) = printint 42 10 True ! k"
    unfolding p by (auto simp: less_Suc_eq)
  moreover have "\<not> dec_digit ((\<lambda>a :: uint. if a = 100 then 52 else if a = 101 then 50 else 0)
      (100 + of_nat (length (printint 42 10 True))))"
    unfolding p by (simp add: dec_digit_def)
  moreover have "0 \<le> sint (42 :: uint)" by simp
  ultimately show ?thesis by (intro atoi_printint)
qed

end
