(* ===== verification/Console.thy ===== *)
theory Console
  imports Fs Ring Printf
begin

unbundle bit_operations_syntax

text \<open>
  The console: console.c, uart.c and kbd.c.  A character the C code passes as an \<open>int\<close> is an
  \<open>int\<close>.  What the devices show is state: \<open>uart_out\<close> is the bytes sent to the serial port,
  \<open>crt_pos\<close> the cursor of the screen and \<open>crt\<close> its cells.  Waiting for the serial port to be
  ready is not modelled; the characters an interrupt reads are an argument.
\<close>

section \<open>Output\<close>

definition BACKSPACE :: int where "BACKSPACE = 0x100"
definition INPUT_BUF :: nat where "INPUT_BUF = 128"

definition uartputc :: "int \<Rightarrow> console \<Rightarrow> console" where
  "uartputc c s = (if \<not> uart_on s then s else s\<lparr>uart_out := uart_out s @ [word_of_int c]\<rparr>)"

text \<open>A cell with the character \<open>c\<close>, black on white.\<close>

definition cell :: "int \<Rightarrow> ushort" where
  "cell c = (word_of_int c AND 0xff) OR 0x0700"

text \<open>The three steps of \<open>cgaputc\<close>: put the character, scroll up at the last line, move the cursor.\<close>

definition cga_advance :: "int \<Rightarrow> console \<Rightarrow> int \<times> ushort list" where
  "cga_advance c s =
     (let pos = crt_pos s in
      if c = 10 then (pos + (80 - pos mod 80), crt s)
      else if c = BACKSPACE then (if 0 < pos then pos - 1 else pos, crt s)
      else (pos + 1, (crt s)[nat pos := cell c]))"

definition cga_scroll :: "int \<Rightarrow> ushort list \<Rightarrow> int \<times> ushort list" where
  "cga_scroll pos cells =
     (if 24 \<le> pos div 80
      then let cells = splice 0 (take (23 * 80) (drop 80 cells)) cells; pos = pos - 80 in
        (pos, splice (nat pos) (replicate (nat (24 * 80 - pos)) 0) cells)
      else (pos, cells))"

definition cgaputc :: "int \<Rightarrow> console \<Rightarrow> (unit, console) res" where
  "cgaputc c s =
     (let (pos, cells) = cga_advance c s in
      if pos < 0 \<or> 25 * 80 < pos then Panic ''pos under/overflow''
      else let (pos, cells) = cga_scroll pos cells in
        Ok () (s\<lparr>crt_pos := pos, crt := cells[nat pos := 0x20 OR 0x0700]\<rparr>))"

text \<open>After a panic every CPU that prints stops for good.\<close>

definition consputc :: "int \<Rightarrow> console \<Rightarrow> (unit, console) res" where
  "consputc c s =
     (if panicked s then Panic ''frozen by a panic''
      else let s = (if c = BACKSPACE then uartputc 8 (uartputc 32 (uartputc 8 s)) else uartputc c s) in
        cgaputc c s)"

abbreviation on_con :: "(console \<Rightarrow> ('a, console) res) \<Rightarrow> fss \<Rightarrow> ('a, fss) res" where
  "on_con \<equiv> zoom con con_update"

text \<open>\<open>cprintf\<close>: the arguments are words, \<open>str\<close> is the string at an address.\<close>

definition cprintf :: "(uint \<Rightarrow> bytes) \<Rightarrow> bytes \<Rightarrow> uint list \<Rightarrow> fss \<Rightarrow> (unit, fss) res" where
  "cprintf str fmt args s =
     (let locking = con_locking (con s) in
      call (if locking then on_fm (acquire ConsLock) s else Ok () s) (\<lambda>_ s.
      case cprintf_loop str (takeWhile (\<lambda>c. c \<noteq> 0) fmt) args of
        None \<Rightarrow> Fault ''cprintf: too few arguments''
      | Some cs \<Rightarrow>
          call (for_each (\<lambda>c. on_con (consputc (uint c))) cs s) (\<lambda>_ s.
          if locking then on_fm (release ConsLock) s else Ok () s)))"

definition consolewrite :: "nat \<Rightarrow> bytes \<Rightarrow> int \<Rightarrow> fss \<Rightarrow> (int, fss) res" where
  "consolewrite ip buf n s =
     call (iunlock ip s) (\<lambda>_ s.
     call (on_fm (acquire ConsLock) s) (\<lambda>_ s.
     call (for_each (\<lambda>c. on_con (consputc (uint c))) (take (nat n) buf) s) (\<lambda>_ s.
     call (on_fm (release ConsLock) s) (\<lambda>_ s.
     call (ilock ip s) (\<lambda>_ s. Ok n s)))))"

section \<open>Input\<close>

text \<open>\<open>input.buf[input.e++ % INPUT_BUF] = c\<close>.\<close>

definition input_put :: "u8 \<Rightarrow> console \<Rightarrow> console" where
  "input_put c s = s\<lparr>con_buf := (con_buf s)[unat (con_e s) mod INPUT_BUF := c], con_e := con_e s + 1\<rparr>"

lemma cgaputc_only_screen:
  assumes "cgaputc c s = Ok u t"
  shows "\<exists>p cs. t = s\<lparr>crt_pos := p, crt := cs\<rparr>"
  using assms by (auto simp: cgaputc_def Let_def split: prod.splits if_splits)

lemma consputc_ring:
  assumes "consputc c s = Ok u t"
  shows "con_buf t = con_buf s \<and> con_r t = con_r s \<and> con_w t = con_w s \<and> con_e t = con_e s"
  using assms by (auto simp: consputc_def uartputc_def dest!: cgaputc_only_screen split: if_splits)

text \<open>The loop of Control-U, which erases back to the start of the line.\<close>

function kill_line :: "console \<Rightarrow> (unit, console) res" where
  "kill_line s =
     (if con_e s \<noteq> con_w s \<and> con_buf s ! (unat (con_e s - 1) mod INPUT_BUF) \<noteq> 10
      then call (consputc BACKSPACE (s\<lparr>con_e := con_e s - 1\<rparr>)) (\<lambda>_ s. kill_line s)
      else Ok () s)"
  by pat_completeness auto
termination
proof (relation "measure (\<lambda>s. unat (con_e s - con_w s))")
  fix s t :: console and u
  assume "con_e s \<noteq> con_w s \<and> con_buf s ! (unat (con_e s - 1) mod INPUT_BUF) \<noteq> 10"
    and "consputc BACKSPACE (s\<lparr>con_e := con_e s - 1\<rparr>) = Ok u t"
  then have "con_e s - con_w s \<noteq> 0" "con_e t - con_w t = con_e s - con_w s - 1"
    using consputc_ring[of BACKSPACE "s\<lparr>con_e := con_e s - 1\<rparr>" u t] by simp_all
  then show "(t, s) \<in> measure (\<lambda>s. unat (con_e s - con_w s))"
    by (simp add: unat_minus_one unat_gt_0)
qed simp

declare kill_line.simps [simp del]

text \<open>
  One round of the loop of \<open>consoleintr\<close>.  The \<open>bool\<close> of the result says whether Control-P asked
  for a process listing, which \<open>procdump\<close> prints after the lock is released.
\<close>

definition consoleintr_char :: "int \<Rightarrow> fss \<Rightarrow> (bool, fss) res" where
  "consoleintr_char c s =
     (if c = 16 then Ok True s
      else if c = 21 then call (on_con kill_line s) (\<lambda>_ s. Ok False s)
      else if c = 8 \<or> c = 127 then
        (if con_e (con s) \<noteq> con_w (con s)
         then call (on_con (\<lambda>k. consputc BACKSPACE (k\<lparr>con_e := con_e k - 1\<rparr>)) s) (\<lambda>_ s. Ok False s)
         else Ok False s)
      else if c \<noteq> 0 \<and> con_e (con s) - con_r (con s) < of_nat INPUT_BUF then
        let c = (if c = 13 then 10 else c) in
        call (on_con (\<lambda>k. consputc c (input_put (word_of_int c) k)) s) (\<lambda>_ s.
        if c = 10 \<or> c = 4 \<or> con_e (con s) = con_r (con s) + of_nat INPUT_BUF
        then call (on_fm (wakeup ChConsole) (s\<lparr>con := (con s)\<lparr>con_w := con_e (con s)\<rparr>\<rparr>)) (\<lambda>_ s. Ok False s)
        else Ok False s)
      else Ok False s)"

fun consoleintr_loop :: "int list \<Rightarrow> bool \<Rightarrow> fss \<Rightarrow> (bool, fss) res" where
  "consoleintr_loop [] dump s = Ok dump s"
| "consoleintr_loop (c # cs) dump s =
     call (consoleintr_char c s) (\<lambda>d s. consoleintr_loop cs (dump \<or> d) s)"

definition consoleintr :: "int list \<Rightarrow> fss \<Rightarrow> (bool, fss) res" where
  "consoleintr cs s =
     call (on_fm (acquire ConsLock) s) (\<lambda>_ s.
     call (consoleintr_loop cs False s) (\<lambda>dump s.
     call (on_fm (release ConsLock) s) (\<lambda>_ s. Ok dump s)))"

text \<open>
  The loop of \<open>consoleread\<close> with \<open>n\<close> of \<open>target\<close> bytes to go; the bytes read so far are \<open>acc\<close>.
\<close>

fun consoleread_loop :: "nat \<Rightarrow> nat \<Rightarrow> nat \<Rightarrow> bytes \<Rightarrow> fss \<Rightarrow> (int \<times> bytes, fss) res" where
  "consoleread_loop ip target 0 acc s =
     call (on_fm (release ConsLock) s) (\<lambda>_ s.
     call (ilock ip s) (\<lambda>_ s. Ok (int target, acc) s))"
| "consoleread_loop ip target (Suc n) acc s =
     (if con_r (con s) = con_w (con s)
      then call (on_fm curproc s) (\<lambda>i s.
        if killed (ptable (bm (lb (fl s))) ! i)
        then call (on_fm (release ConsLock) s) (\<lambda>_ s.
             call (ilock ip s) (\<lambda>_ s. Ok (-1, acc) s))
        else call (on_fm (sleep ChConsole (Some ConsLock)) s) (\<lambda>_ s. Ok (-1, acc) s))
      else let c = con_buf (con s) ! (unat (con_r (con s)) mod INPUT_BUF);
               s = s\<lparr>con := (con s)\<lparr>con_r := con_r (con s) + 1\<rparr>\<rparr> in
        if c = 4
        then let s = (if Suc n < target then s\<lparr>con := (con s)\<lparr>con_r := con_r (con s) - 1\<rparr>\<rparr> else s) in
          call (on_fm (release ConsLock) s) (\<lambda>_ s.
          call (ilock ip s) (\<lambda>_ s. Ok (int target - int (Suc n), acc) s))
        else if c = 10
        then call (on_fm (release ConsLock) s) (\<lambda>_ s.
             call (ilock ip s) (\<lambda>_ s. Ok (int target - int n, acc @ [c]) s))
        else consoleread_loop ip target n (acc @ [c]) s)"

definition consoleread :: "nat \<Rightarrow> int \<Rightarrow> fss \<Rightarrow> (int \<times> bytes, fss) res" where
  "consoleread ip n s =
     call (iunlock ip s) (\<lambda>_ s.
     call (on_fm (acquire ConsLock) s) (\<lambda>_ s. consoleread_loop ip (nat n) (nat n) [] s))"

definition consoleread_resume :: "nat \<Rightarrow> nat \<Rightarrow> nat \<Rightarrow> nat \<Rightarrow> bytes \<Rightarrow> fss \<Rightarrow> (int \<times> bytes, fss) res" where
  "consoleread_resume i ip target n acc s =
     call (on_fm (sleep_resume ConsLock i) s) (\<lambda>_ s. consoleread_loop ip target n acc s)"

text \<open>The console's entry of the device switch; \<open>consoleinit\<close> registers it under \<open>CONSOLE\<close>.\<close>

definition CONSOLE :: nat where "CONSOLE = 1"

definition no_device :: devops where
  "no_device = \<lparr>dev_read = None, dev_write = None\<rparr>"

definition console_devsw :: devsw where
  "console_devsw = (\<lambda>_. no_device)(CONSOLE := \<lparr>dev_read = Some consoleread, dev_write = Some consolewrite\<rparr>)"

definition consoleinit :: "fss \<Rightarrow> (devsw, fss) res" where
  "consoleinit s =
     call (on_fm (initlock ConsLock ''console'') s) (\<lambda>_ s.
     Ok console_devsw (s\<lparr>con := (con s)\<lparr>con_locking := True\<rparr>\<rparr>))"

section \<open>The screen\<close>

definition screen_ok :: "console \<Rightarrow> bool" where
  "screen_ok s \<longleftrightarrow> 0 \<le> crt_pos s \<and> crt_pos s < 24 * 80 \<and> length (crt s) = 25 * 80"

lemma cga_advance_bounds:
  assumes "screen_ok s" and "cga_advance c s = (pos, cells)"
  shows "0 \<le> pos \<and> pos \<le> 24 * 80 \<and> length cells = 25 * 80"
proof -
  have p: "0 \<le> crt_pos s" "crt_pos s < 1920" "length (crt s) = 2000" using assms(1) by (simp_all add: screen_ok_def)
  have "0 \<le> crt_pos s + (80 - crt_pos s mod 80) \<and> crt_pos s + (80 - crt_pos s mod 80) \<le> 1920"
    using p by presburger
  then show ?thesis using assms(2) p by (auto simp: cga_advance_def Let_def split: if_splits)
qed

lemma cga_scroll_bounds:
  assumes "0 \<le> pos" and "pos \<le> 24 * 80" and "length cells = 25 * 80"
  shows "\<exists>pos' cells'. cga_scroll pos cells = (pos', cells') \<and> 0 \<le> pos' \<and> pos' < 24 * 80 \<and>
    length cells' = 25 * 80 \<and> (pos < 24 * 80 \<longrightarrow> pos' = pos \<and> cells' = cells) \<and>
    (pos = 24 * 80 \<longrightarrow> pos' = 23 * 80 \<and> (\<forall>k < 23 * 80. cells' ! k = cells ! (k + 80)) \<and>
       (\<forall>k. 23 * 80 \<le> k \<and> k < 24 * 80 \<longrightarrow> cells' ! k = 0))"
proof (cases "pos = 24 * 80")
  case True
  let ?a = "splice 0 (take (23 * 80) (drop 80 cells)) cells"
  let ?b = "splice (23 * 80) (replicate 80 0) ?a"
  have e: "cga_scroll pos cells = (23 * 80, ?b)"
    using True by (simp add: cga_scroll_def)
  have la: "length ?a = 25 * 80" using assms(3) by simp
  have "?b ! k = cells ! (k + 80)" if "k < 23 * 80" for k
    using that assms(3) la by (simp add: nth_splice add.commute)
  moreover have "?b ! k = 0" if "23 * 80 \<le> k" "k < 24 * 80" for k
    using that la by (subst nth_splice) simp_all
  ultimately show ?thesis using e la True by simp
next
  case False
  then have "pos < 24 * 80" using assms(2) by simp
  then have "cga_scroll pos cells = (pos, cells)" by (simp add: cga_scroll_def)
  then show ?thesis using False assms \<open>pos < 24 * 80\<close> by simp
qed

text \<open>The screen driver never runs off the screen: from a cursor in the first 24 lines, printing any
  character succeeds (the check for \<open>pos under/overflow\<close> cannot fire), leaves the cursor in the
  first 24 lines on a blank cell, and stores the character where the cursor was; at the end of
  the last line every line moves up by one and the new line is otherwise empty.\<close>

theorem cgaputc_stays_on_screen:
  assumes "screen_ok s"
  shows "\<exists>t. cgaputc c s = Ok () t \<and> screen_ok t \<and> crt t ! nat (crt_pos t) = 0x0720 \<and>
    (c \<noteq> 10 \<and> c \<noteq> BACKSPACE \<longrightarrow>
      (if crt_pos s + 1 < 24 * 80
       then crt_pos t = crt_pos s + 1 \<and> crt t ! nat (crt_pos s) = cell c
       else crt_pos t = 23 * 80 \<and> crt t ! (23 * 80 - 1) = cell c \<and>
         (\<forall>k < 23 * 80 - 1. crt t ! k = crt s ! (k + 80)) \<and>
         (\<forall>k. 23 * 80 < k \<and> k < 24 * 80 \<longrightarrow> crt t ! k = 0)))"
proof -
  obtain pos cells where a: "cga_advance c s = (pos, cells)" by fastforce
  note b = cga_advance_bounds[OF assms a]
  obtain pos' cells' where sc: "cga_scroll pos cells = (pos', cells')" "0 \<le> pos'" "pos' < 24 * 80"
    "length cells' = 25 * 80" "pos < 24 * 80 \<longrightarrow> pos' = pos \<and> cells' = cells"
    "pos = 24 * 80 \<longrightarrow> pos' = 23 * 80 \<and> (\<forall>k < 23 * 80. cells' ! k = cells ! (k + 80)) \<and>
       (\<forall>k. 23 * 80 \<le> k \<and> k < 24 * 80 \<longrightarrow> cells' ! k = 0)"
    using cga_scroll_bounds[of pos cells] b by blast
  let ?t = "s\<lparr>crt_pos := pos', crt := cells'[nat pos' := 0x20 OR 0x0700]\<rparr>"
  have run: "cgaputc c s = Ok () ?t" using a sc(1) b by (simp add: cgaputc_def)
  have n: "nat pos' < length cells'" using sc(2-4) by simp
  have p: "0 \<le> crt_pos s" "crt_pos s < 24 * 80" "length (crt s) = 25 * 80"
    using assms by (simp_all add: screen_ok_def)
  have "if crt_pos s + 1 < 24 * 80
       then crt_pos ?t = crt_pos s + 1 \<and> crt ?t ! nat (crt_pos s) = cell c
       else crt_pos ?t = 23 * 80 \<and> crt ?t ! (23 * 80 - 1) = cell c \<and>
         (\<forall>k < 23 * 80 - 1. crt ?t ! k = crt s ! (k + 80)) \<and>
         (\<forall>k. 23 * 80 < k \<and> k < 24 * 80 \<longrightarrow> crt ?t ! k = 0)" if "c \<noteq> 10 \<and> c \<noteq> BACKSPACE"
  proof (cases "crt_pos s + 1 < 24 * 80")
    case True
    have "pos = crt_pos s + 1" "cells = (crt s)[nat (crt_pos s) := cell c]"
      using a that by (simp_all add: cga_advance_def Let_def)
    then show ?thesis using True sc(5) p by (simp add: nat_eq_iff)
  next
    case False
    then have e: "crt_pos s = 1919" using p(2) by simp
    have "pos = 24 * 80" "cells = (crt s)[1919 := cell c]"
      using a that e by (simp_all add: cga_advance_def Let_def)
    then show ?thesis using False sc(6) p by (simp add: nat_eq_iff)
  qed
  note char = this
  have "crt ?t ! nat (crt_pos ?t) = 0x0720" using n by simp
  moreover have "screen_ok ?t" using sc(2-4) by (simp add: screen_ok_def)
  ultimately show ?thesis
    using run by (intro exI[of _ ?t] conjI impI char) simp_all
qed

definition blank_console :: console where
  "blank_console = \<lparr>con_buf = replicate INPUT_BUF 0, con_r = 0, con_w = 0, con_e = 0, panicked = False,
     con_locking = True, kbd_shift = 0, uart_on = True, uart_out = [], crt_pos = 0,
     crt = replicate (25 * 80) 0\<rparr>"

theorem cgaputc_stays_on_screen_witness:
  "\<exists>t. cgaputc 65 blank_console = Ok () t \<and> crt_pos t = 1 \<and> crt t ! 0 = 0x0741"
proof -
  have ok: "screen_ok blank_console" and p: "crt_pos blank_console = 0"
    by (simp_all add: screen_ok_def blank_console_def)
  have "cell 65 = 0x0741" by (simp add: cell_def)
  then show ?thesis using cgaputc_stays_on_screen[OF ok, of 65] p by (auto simp: BACKSPACE_def)
qed

lemma consputc_Ok:
  assumes "screen_ok s" and "\<not> panicked s"
  shows "\<exists>t. consputc c s = Ok () t \<and> screen_ok t \<and> \<not> panicked t"
proof -
  let ?s = "if c = BACKSPACE then uartputc 8 (uartputc 32 (uartputc 8 s)) else uartputc c s"
  have u: "screen_ok (uartputc d k) = screen_ok k" "panicked (uartputc d k) = panicked k" for d k
    by (simp_all add: uartputc_def screen_ok_def)
  have ok: "screen_ok ?s" "\<not> panicked ?s" using assms by (simp_all add: u)
  obtain pos cells where a: "cga_advance c ?s = (pos, cells)" by fastforce
  note b = cga_advance_bounds[OF ok(1) a]
  obtain pos' cells' where sc: "cga_scroll pos cells = (pos', cells')" "0 \<le> pos'" "pos' < 24 * 80"
    "length cells' = 25 * 80"
    using cga_scroll_bounds[of pos cells] b by blast
  show ?thesis
    using assms(2) a b sc ok by (simp add: consputc_def cgaputc_def screen_ok_def)
qed

section \<open>The line discipline\<close>

interpretation inp: ring INPUT_BUF
  by unfold_locales (simp_all add: INPUT_BUF_def)

text \<open>The bytes a reader may take, and the line still being edited.\<close>

definition committed :: "console \<Rightarrow> bytes" where
  "committed s = map (\<lambda>k. con_buf s ! (unat (con_r s + of_nat k) mod INPUT_BUF)) [0..<unat (con_w s - con_r s)]"

definition edited :: "console \<Rightarrow> bytes" where
  "edited s = map (\<lambda>k. con_buf s ! (unat (con_w s + of_nat k) mod INPUT_BUF)) [0..<unat (con_e s - con_w s)]"

definition con_ok :: "console \<Rightarrow> bool" where
  "con_ok s \<longleftrightarrow> length (con_buf s) = INPUT_BUF \<and> unat (con_w s - con_r s) \<le> unat (con_e s - con_r s) \<and>
     unat (con_e s - con_r s) \<le> INPUT_BUF"

lemma committed_between: "committed s = inp.between (con_buf s) (con_r s) (con_w s)"
  and edited_between: "edited s = inp.between (con_buf s) (con_w s) (con_e s)"
  by (simp_all add: committed_def edited_def inp.between_def inp.slot_def)

lemma ring_same:
  "con_buf t = con_buf s \<Longrightarrow> con_r t = con_r s \<Longrightarrow> con_w t = con_w s \<Longrightarrow> con_e t = con_e s \<Longrightarrow>
     committed t = committed s \<and> edited t = edited s \<and> con_ok t = con_ok s"
  by (simp add: committed_def edited_def con_ok_def)

lemma con_ok_length: "con_ok s \<Longrightarrow> length (committed s @ edited s) = unat (con_e s - con_r s)"
  using inp.unat_between[of "con_w s" "con_r s" "con_e s"]
  by (simp add: con_ok_def committed_between edited_between)

lemma edited_empty: "con_e s = con_w s \<longleftrightarrow> edited s = []"
  by (simp add: edited_between inp.between_empty_iff)

lemma input_put_line:
  assumes ok: "con_ok s" and room: "length (committed s @ edited s) < INPUT_BUF"
  shows "committed (input_put b s) = committed s \<and> edited (input_put b s) = edited s @ [b] \<and>
    con_ok (input_put b s)"
proof -
  have l: "length (con_buf s) = INPUT_BUF" and w: "unat (con_w s - con_r s) \<le> unat (con_e s - con_r s)"
    and e: "unat (con_e s - con_r s) < INPUT_BUF"
    using ok con_ok_length[OF ok] room by (simp_all add: con_ok_def)
  have ew: "unat (con_e s - con_w s) < INPUT_BUF" using inp.unat_between[OF w] e by simp
  have c: "committed (input_put b s) = committed s"
    using inp.between_other[OF _ w e, of "con_buf s" b] w e
    by (simp add: committed_between input_put_def inp.slot_def)
  have d: "edited (input_put b s) = edited s @ [b]"
    using inp.between_snoc[OF ew l, of b] by (simp add: edited_between input_put_def inp.slot_def)
  have "inp.between (con_buf (input_put b s)) (con_r s) (con_e s + 1) =
      inp.between (con_buf s) (con_r s) (con_e s) @ [b]"
    using inp.between_snoc[OF e l, of b] by (simp add: input_put_def inp.slot_def)
  then have "unat (con_e s + 1 - con_r s) = Suc (unat (con_e s - con_r s))"
    by (metis inp.length_between length_append_singleton)
  then have "con_ok (input_put b s)"
    using l w e by (simp add: con_ok_def) (simp add: input_put_def)
  then show ?thesis using c d by blast
qed

lemma erase_line:
  assumes ok: "con_ok s" and ne: "con_e s \<noteq> con_w s"
  shows "let t = s\<lparr>con_e := con_e s - 1\<rparr> in committed t = committed s \<and> con_ok t \<and>
    edited s = edited t @ [con_buf s ! (unat (con_e s - 1) mod INPUT_BUF)]"
proof -
  let ?t = "s\<lparr>con_e := con_e s - 1\<rparr>"
  have w: "unat (con_w s - con_r s) \<le> unat (con_e s - con_r s)" "unat (con_e s - con_r s) \<le> INPUT_BUF"
    using ok by (simp_all add: con_ok_def)
  have 1: "unat (con_e s - con_w s) = Suc (unat (con_e s - 1 - con_w s))"
    by (rule inp.between_last(2)[OF ne])
  have "unat (con_w s - con_r s) < unat (con_e s - con_r s)"
    using inp.unat_between[OF w(1)] 1 w(1) by linarith
  then have "con_e s \<noteq> con_r s" by auto
  from inp.between_last(2)[OF this] \<open>unat (con_w s - con_r s) < unat (con_e s - con_r s)\<close>
  have "unat (con_w s - con_r s) \<le> unat (con_e s - 1 - con_r s)" "unat (con_e s - 1 - con_r s) \<le> INPUT_BUF"
    using w(2) by simp_all
  then have "con_ok ?t" using ok by (simp add: con_ok_def)
  moreover have "edited s = edited ?t @ [con_buf s ! (unat (con_e s - 1) mod INPUT_BUF)]"
    using inp.between_last(1)[OF ne, of "con_buf s"] by (simp add: edited_between inp.slot_def)
  ultimately show ?thesis by (simp add: committed_def)
qed

text \<open>What is left of a line after Control-U: everything up to its last newline.\<close>

definition killed_line :: "bytes \<Rightarrow> bytes" where
  "killed_line l = rev (dropWhile (\<lambda>b. b \<noteq> 10) (rev l))"

lemma kill_line_spec:
  "con_ok s \<Longrightarrow> screen_ok s \<Longrightarrow> \<not> panicked s \<Longrightarrow> \<exists>t. kill_line s = Ok () t \<and> con_ok t \<and> screen_ok t \<and>
     \<not> panicked t \<and> committed t = committed s \<and> edited t = killed_line (edited s)"
proof (induction s rule: kill_line.induct)
  case (1 s)
  show ?case
  proof (cases "con_e s \<noteq> con_w s \<and> con_buf s ! (unat (con_e s - 1) mod INPUT_BUF) \<noteq> 10")
    case True
    let ?s = "s\<lparr>con_e := con_e s - 1\<rparr>"
    have er: "committed ?s = committed s" "con_ok ?s"
      "edited s = edited ?s @ [con_buf s ! (unat (con_e s - 1) mod INPUT_BUF)]"
      using erase_line[OF 1(2)] True by (auto simp: Let_def)
    have "screen_ok ?s" "\<not> panicked ?s" using 1(3,4) by (simp_all add: screen_ok_def)
    then obtain r where r: "consputc BACKSPACE ?s = Ok () r" "screen_ok r" "\<not> panicked r"
      using consputc_Ok by blast
    have same: "committed r = committed ?s" "edited r = edited ?s" "con_ok r = con_ok ?s"
      using ring_same[of r ?s] consputc_ring[OF r(1)] by blast+
    then obtain t where t: "kill_line r = Ok () t" "con_ok t" "screen_ok t" "\<not> panicked t"
      "committed t = committed r" "edited t = killed_line (edited r)"
      using 1(1)[OF True r(1)] er(2) r(2,3) by auto
    have "killed_line (edited s) = killed_line (edited ?s)"
      unfolding er(3) using True by (simp add: killed_line_def)
    moreover have "kill_line s = kill_line r"
      using True r(1) by (subst kill_line.simps) simp
    ultimately show ?thesis using t same er(1) by auto
  next
    case False
    then have "kill_line s = Ok () s" by (subst kill_line.simps) auto
    moreover have "killed_line (edited s) = edited s"
    proof (cases "con_e s = con_w s")
      case True
      then show ?thesis using edited_empty[of s] by (simp add: killed_line_def)
    next
      case ne: False
      then show ?thesis
        using erase_line[OF 1(2) ne] False by (simp add: Let_def killed_line_def)
    qed
    ultimately show ?thesis using 1 by auto
  qed
qed

lemma on_con_Ok: "f (con s) = Ok a k \<Longrightarrow> on_con f s = Ok a (s\<lparr>con := k\<rparr>)"
  by (simp add: zoom_def)

text \<open>What one input character does to the two parts of the input.\<close>

definition edit_char :: "int \<Rightarrow> bytes \<times> bytes \<Rightarrow> bytes \<times> bytes" where
  "edit_char c l =
     (let (ready, line) = l in
      if c = 16 then (ready, line)
      else if c = 21 then (ready, killed_line line)
      else if c = 8 \<or> c = 127 then (ready, butlast line)
      else if c = 0 \<or> INPUT_BUF \<le> length ready + length line then (ready, line)
      else let c = (if c = 13 then 10 else c); line = line @ [word_of_int c] in
        if c = 10 \<or> c = 4 \<or> length ready + length line = INPUT_BUF then (ready @ line, []) else (ready, line))"

lemma commit_line:
  assumes "con_ok s"
  shows "committed (s\<lparr>con_w := con_e s\<rparr>) = committed s @ edited s \<and> edited (s\<lparr>con_w := con_e s\<rparr>) = [] \<and>
    con_ok (s\<lparr>con_w := con_e s\<rparr>)"
proof -
  have w: "unat (con_w s - con_r s) \<le> unat (con_e s - con_r s)" using assms by (simp add: con_ok_def)
  have "committed (s\<lparr>con_w := con_e s\<rparr>) = committed s @ edited s"
    using inp.between_append[OF w, of "con_buf s"] by (simp add: committed_between edited_between)
  moreover have "edited (s\<lparr>con_w := con_e s\<rparr>) = []" by (simp add: edited_between)
  ultimately show ?thesis using assms by (simp add: con_ok_def)
qed

abbreviation fmach :: "fss \<Rightarrow> mach" where "fmach s \<equiv> bm (lb (fl s))"

definition console_ok :: "console \<Rightarrow> bool" where
  "console_ok s \<longleftrightarrow> con_ok s \<and> screen_ok s \<and> \<not> panicked s"

definition input_parts :: "console \<Rightarrow> bytes \<times> bytes" where
  "input_parts s = (committed s, edited s)"

text \<open>What the interrupt handler may change of the machine: sleepers on the console wake up.\<close>

definition console_woken :: "mach \<Rightarrow> mach \<Rightarrow> bool" where
  "console_woken m m' \<longleftrightarrow> m' = m \<or> m' = wakeup1 ChConsole m"

lemma wakeup1_twice [simp]: "wakeup1 ch (wakeup1 ch m) = wakeup1 ch m"
  by (simp add: wakeup1_def)

lemma echo_spec:
  assumes "console_ok s"
  shows "\<exists>t. consputc c s = Ok () t \<and> console_ok t \<and> input_parts t = input_parts s \<and>
    con_r t = con_r s \<and> con_e t = con_e s"
proof -
  obtain t where t: "consputc c s = Ok () t" "screen_ok t" "\<not> panicked t"
    using consputc_Ok assms by (auto simp: console_ok_def)
  with ring_same[of t s] consputc_ring[OF t(1)] assms show ?thesis
    by (auto simp: console_ok_def input_parts_def)
qed

lemma on_con_other: "fl (s\<lparr>con := k\<rparr>) = fl s" by simp

lemma console_ok_screen: "screen_ok (s\<lparr>con_w := w\<rparr>) = screen_ok s" "screen_ok (s\<lparr>con_e := w\<rparr>) = screen_ok s"
  "screen_ok (input_put b s) = screen_ok s" "panicked (input_put b s) = panicked s"
  by (simp_all add: screen_ok_def input_put_def)

lemma input_full: "con_ok s \<Longrightarrow> con_e s - con_r s < of_nat INPUT_BUF \<longleftrightarrow> length (committed s) + length (edited s) < INPUT_BUF"
  using con_ok_length[of s] by (simp add: word_less_nat_alt INPUT_BUF_def)

lemma input_at_end:
  "con_ok s \<Longrightarrow> con_e s = con_r s + of_nat INPUT_BUF \<longleftrightarrow> length (committed s) + length (edited s) = INPUT_BUF"
proof -
  assume "con_ok s"
  then have "length (committed s) + length (edited s) = unat (con_e s - con_r s)" using con_ok_length[of s] by simp
  moreover have "con_e s = con_r s + of_nat INPUT_BUF \<longleftrightarrow> con_e s - con_r s = of_nat INPUT_BUF"
    by (auto simp: algebra_simps)
  ultimately show ?thesis by (simp add: word_unat_eq_iff INPUT_BUF_def)
qed

lemma fm_wakeup:
  assumes "on_cpu c (fmach s)" and "lock_free PtableLock (fmach s)"
  shows "\<exists>t. on_fm (wakeup ch) s = Ok () t \<and> con t = con s \<and> fmach t = wakeup1 ch (fmach s)"
  using wakeup_eq[OF assms, of ch] by (simp add: zoom_def)

lemma consoleintr_char_edits:
  assumes ok: "console_ok (con s)" and c: "on_cpu k (fmach s)" and p: "lock_free PtableLock (fmach s)"
  shows "\<exists>t. consoleintr_char ch s = Ok (ch = 16) t \<and> console_ok (con t) \<and>
    input_parts (con t) = edit_char ch (input_parts (con s)) \<and> console_woken (fmach s) (fmach t)"
proof -
  have ring: "con_ok (con s)" "screen_ok (con s)" "\<not> panicked (con s)" using ok by (simp_all add: console_ok_def)
  consider "ch = 16" | "ch = 21" | "ch = 8 \<or> ch = 127" |
    (full) "ch \<noteq> 16" "ch \<noteq> 21" "\<not> (ch = 8 \<or> ch = 127)"
      "\<not> (ch \<noteq> 0 \<and> length (committed (con s)) + length (edited (con s)) < INPUT_BUF)" |
    (put) "ch \<noteq> 16" "ch \<noteq> 21" "\<not> (ch = 8 \<or> ch = 127)"
      "ch \<noteq> 0" "length (committed (con s)) + length (edited (con s)) < INPUT_BUF"
    by blast
  then show ?thesis
  proof cases
    case 1
    then show ?thesis using ok by (simp add: consoleintr_char_def edit_char_def input_parts_def console_woken_def)
  next
    case 2
    obtain t where "kill_line (con s) = Ok () t" "con_ok t" "screen_ok t" "\<not> panicked t"
      "committed t = committed (con s)" "edited t = killed_line (edited (con s))"
      using kill_line_spec[OF ring] by blast
    then show ?thesis
      using 2 on_con_Ok[of kill_line s "()" t]
      by (simp add: consoleintr_char_def edit_char_def input_parts_def console_woken_def console_ok_def)
  next
    case 3
    show ?thesis
    proof (cases "con_e (con s) = con_w (con s)")
      case True
      then show ?thesis
        using 3 ok edited_empty[of "con s"]
        by (auto simp: consoleintr_char_def edit_char_def input_parts_def console_woken_def)
    next
      case False
      let ?k = "(con s)\<lparr>con_e := con_e (con s) - 1\<rparr>"
      have er: "committed ?k = committed (con s)" "con_ok ?k"
        "edited (con s) = edited ?k @ [con_buf (con s) ! (unat (con_e (con s) - 1) mod INPUT_BUF)]"
        using erase_line[OF ring(1) False] by (simp_all add: Let_def)
      then have kok: "console_ok ?k" using ring by (simp add: console_ok_def console_ok_screen)
      then obtain t where t: "consputc BACKSPACE ?k = Ok () t" "console_ok t" "input_parts t = input_parts ?k"
        using echo_spec by blast
      have "on_con (\<lambda>k. consputc BACKSPACE (k\<lparr>con_e := con_e k - 1\<rparr>)) s = Ok () (s\<lparr>con := t\<rparr>)"
        by (rule on_con_Ok) (rule t(1))
      then show ?thesis
        using 3 False t er
        by (auto simp: consoleintr_char_def edit_char_def input_parts_def console_woken_def)
    qed
  next
    case full
    then show ?thesis
      using ok input_full[OF ring(1)]
      by (auto simp: consoleintr_char_def edit_char_def input_parts_def console_woken_def)
  next
    case put
    let ?c = "if ch = 13 then 10 else ch"
    let ?k = "input_put (word_of_int ?c) (con s)"
    have ip: "committed ?k = committed (con s)" "edited ?k = edited (con s) @ [word_of_int ?c]" "con_ok ?k"
      using input_put_line[OF ring(1), of "word_of_int ?c"] put(5) by simp_all
    then have kok: "console_ok ?k" using ring by (simp add: console_ok_def console_ok_screen)
    then obtain t where t: "consputc ?c ?k = Ok () t" "console_ok t" "input_parts t = input_parts ?k"
      using echo_spec by blast
    let ?s = "s\<lparr>con := t\<rparr>"
    have echo: "on_con (\<lambda>k. consputc ?c (input_put (word_of_int ?c) k)) s = Ok () ?s"
      by (rule on_con_Ok) (rule t(1))
    have tp: "committed t = committed (con s)" "edited t = edited (con s) @ [word_of_int ?c]" "con_ok t"
      using t(2,3) ip by (simp_all add: input_parts_def console_ok_def)
    let ?done = "?c = 10 \<or> ?c = 4 \<or> con_e t = con_r t + of_nat INPUT_BUF"
    have d: "?done \<longleftrightarrow> ?c = 10 \<or> ?c = 4 \<or> length (committed (con s)) + length (edited (con s) @ [word_of_int ?c]) = INPUT_BUF"
      using input_at_end[OF tp(3)] tp(1,2) by simp
    have run: "consoleintr_char ch s = (if ?done
        then call (on_fm (wakeup ChConsole) (s\<lparr>con := t\<lparr>con_w := con_e t\<rparr>\<rparr>)) (\<lambda>_ s. Ok False s) else Ok False ?s)"
      using put input_full[OF ring(1)] echo by (simp add: consoleintr_char_def Let_def)
    have edit: "edit_char ch (input_parts (con s)) = (let line = edited (con s) @ [word_of_int ?c] in
        if ?c = 10 \<or> ?c = 4 \<or> length (committed (con s)) + length line = INPUT_BUF
        then (committed (con s) @ line, []) else (committed (con s), line))"
      using put by (simp add: edit_char_def input_parts_def)
    show ?thesis
    proof (cases ?done)
      case True
      obtain u where u: "on_fm (wakeup ChConsole) (s\<lparr>con := t\<lparr>con_w := con_e t\<rparr>\<rparr>) = Ok () u"
        "con u = t\<lparr>con_w := con_e t\<rparr>" "fmach u = wakeup1 ChConsole (fmach s)"
        using fm_wakeup[of k "s\<lparr>con := t\<lparr>con_w := con_e t\<rparr>\<rparr>" ChConsole] c p by auto
      have "console_ok (con u)" "input_parts (con u) = (committed t @ edited t, [])"
        using commit_line[OF tp(3)] t(2) u(2) by (simp_all add: console_ok_def console_ok_screen input_parts_def)
      then show ?thesis using True u run edit d tp put(1) by (simp add: console_woken_def Let_def)
    next
      case False
      then show ?thesis using run edit d tp t(2) put(1) by (auto simp: console_woken_def Let_def input_parts_def)
    qed
  qed
qed

lemma woken_lock:
  assumes "console_woken (take_lock k l m) m'"
  obtains n where "m' = take_lock k l n" and "console_woken m n"
proof -
  have "wakeup1 ch (take_lock k l m) = take_lock k l (wakeup1 ch m)" for ch
    by (simp add: wakeup1_def take_lock_def set_lock_def pushed_def)
  then show ?thesis using assms that by (auto simp: console_woken_def)
qed

lemma console_woken_trans: "console_woken a b \<Longrightarrow> console_woken b c \<Longrightarrow> console_woken a c"
  by (auto simp: console_woken_def)

lemma console_woken_keeps:
  "console_woken m m' \<Longrightarrow> on_cpu k m' = on_cpu k m \<and> lock_free l m' = lock_free l m \<and> all_free m' = all_free m"
  by (auto simp: console_woken_def lock_free_def all_free_def)

lemma consoleintr_loop_edits:
  "console_ok (con s) \<Longrightarrow> on_cpu k (fmach s) \<Longrightarrow> lock_free PtableLock (fmach s) \<Longrightarrow>
   \<exists>t. consoleintr_loop cs dump s = Ok (dump \<or> 16 \<in> set cs) t \<and> console_ok (con t) \<and>
     input_parts (con t) = fold edit_char cs (input_parts (con s)) \<and> console_woken (fmach s) (fmach t)"
proof (induction cs arbitrary: s dump)
  case Nil
  then show ?case by (simp add: console_woken_def)
next
  case (Cons ch cs)
  obtain t where t: "consoleintr_char ch s = Ok (ch = 16) t" "console_ok (con t)"
    "input_parts (con t) = edit_char ch (input_parts (con s))" "console_woken (fmach s) (fmach t)"
    using consoleintr_char_edits[OF Cons.prems, of ch] by blast
  have "on_cpu k (fmach t)" "lock_free PtableLock (fmach t)"
    using console_woken_keeps[OF t(4)] Cons.prems(2,3) by blast+
  from Cons.IH[OF t(2) this, of "dump \<or> ch = 16"] obtain u where
    "consoleintr_loop cs (dump \<or> ch = 16) t = Ok ((dump \<or> ch = 16) \<or> 16 \<in> set cs) u" "console_ok (con u)"
    "input_parts (con u) = fold edit_char cs (input_parts (con t))" "console_woken (fmach t) (fmach u)"
    by blast
  moreover have "((dump \<or> ch = 16) \<or> 16 \<in> set cs) = (dump \<or> 16 \<in> set (ch # cs))" by auto
  ultimately show ?case using t console_woken_trans[OF t(4)] by (simp del: disj_assoc)
qed

definition with_fmach :: "mach \<Rightarrow> fss \<Rightarrow> fss" where
  "with_fmach m s = s\<lparr>fl := (fl s)\<lparr>lb := (lb (fl s))\<lparr>bm := m\<rparr>\<rparr>\<rparr>"

lemma with_fmach_fields [simp]:
  "fmach (with_fmach m s) = m" "con (with_fmach m s) = con s" "inodes (with_fmach m s) = inodes s"
  "with_fmach m (with_fmach m' s) = with_fmach m s"
  by (simp_all add: with_fmach_def)

lemma on_fm_Ok: "f (fmach s) = Ok a m \<Longrightarrow> on_fm f s = Ok a (with_fmach m s)"
  by (simp add: zoom_def with_fmach_def)

lemma fm_acquire:
  "on_cpu k (fmach s) \<Longrightarrow> all_free (fmach s) \<Longrightarrow>
     on_fm (acquire l) s = Ok () (with_fmach (take_lock k l (fmach s)) s)"
  by (rule on_fm_Ok) (simp add: acquire_eq all_free_def lock_free_def)

lemma fm_release:
  "fmach s = take_lock k l m \<Longrightarrow> on_cpu k m \<Longrightarrow> all_free m \<Longrightarrow> on_fm (release l) s = Ok () (with_fmach m s)"
  by (rule on_fm_Ok) (simp add: release_take_lock all_free_def)


definition console_world :: fss where
  "console_world = \<lparr>fl = quiet_log, sb = \<lparr>sb_size = 7, nblocks = 1, ninodes = 8, nlog = 3, logstart = 2,
     inodestart = 5, bmapstart = 6\<rparr>, inodes = [], con = blank_console\<rparr>"


end
