(* ===== verification/Kernel.thy ===== *)
theory Kernel
  imports Vm Dir Pipe Console
begin

text \<open>
  The whole kernel's state, and how each component runs inside it.  The virtual memory state
  \<open>kvm\<close> and the file system state \<open>kfs\<close> both rest on the machine state of Machine; the kernel has
  one, the one inside \<open>kfs\<close>, and the copy in \<open>kvm\<close> is overwritten with it whenever a function of
  Kalloc or Vm runs.
\<close>

section \<open>State\<close>

text \<open>\<open>struct file\<close>; \<open>f_pipe\<close> is the address of a pipe and \<open>f_ip\<close> the index of an inode.\<close>

datatype ftype = FD_NONE | FD_PIPE | FD_INODE

record kfile =
  f_type :: ftype
  f_ref :: int
  f_readable :: bool
  f_writable :: bool
  f_pipe :: uint
  f_ip :: nat
  f_off :: uint

text \<open>
  \<open>first\<close> is the static variable of \<open>forkret\<close>; \<open>initcode\<close> is the address and size of the
  embedded first program.
\<close>

record kernel =
  kfs :: fss
  kvm :: vst
  kpipes :: "uint \<Rightarrow> pipe"
  ftable :: "kfile list"
  kdevsw :: devsw
  ticks :: uint
  first :: bool
  initcode :: "uint \<times> uint"

definition NFILE :: nat where "NFILE = 100"

definition kmach :: "kernel \<Rightarrow> mach" where
  "kmach s = bm (lb (fl (kfs s)))"

definition put_mach :: "(mach \<Rightarrow> mach) \<Rightarrow> kernel \<Rightarrow> kernel" where
  "put_mach f s = s\<lparr>kfs := (kfs s)\<lparr>fl := (fl (kfs s))\<lparr>lb := (lb (fl (kfs s)))\<lparr>bm := f (kmach s)\<rparr>\<rparr>\<rparr>\<rparr>"

definition get_vm :: "kernel \<Rightarrow> vst" where
  "get_vm s = (kvm s)\<lparr>vk := (vk (kvm s))\<lparr>km := kmach s\<rparr>\<rparr>"

definition put_vm :: "(vst \<Rightarrow> vst) \<Rightarrow> kernel \<Rightarrow> kernel" where
  "put_vm f s = (let v = f (get_vm s) in put_mach (\<lambda>_. km (vk v)) (s\<lparr>kvm := v\<rparr>))"

definition get_pst :: "kernel \<Rightarrow> pst" where
  "get_pst s = \<lparr>pk = vk (get_vm s), pipes = kpipes s\<rparr>"

definition put_pst :: "(pst \<Rightarrow> pst) \<Rightarrow> kernel \<Rightarrow> kernel" where
  "put_pst f s = (let t = f (get_pst s) in put_vm (\<lambda>v. v\<lparr>vk := pk t\<rparr>) (s\<lparr>kpipes := pipes t\<rparr>))"

abbreviation on_mach :: "(mach \<Rightarrow> ('a, mach) res) \<Rightarrow> kernel \<Rightarrow> ('a, kernel) res" where
  "on_mach \<equiv> zoom kmach put_mach"

abbreviation on_vst :: "(vst \<Rightarrow> ('a, vst) res) \<Rightarrow> kernel \<Rightarrow> ('a, kernel) res" where
  "on_vst \<equiv> zoom get_vm put_vm"

abbreviation on_kst :: "(kst \<Rightarrow> ('a, kst) res) \<Rightarrow> kernel \<Rightarrow> ('a, kernel) res" where
  "on_kst f \<equiv> on_vst (on_vk f)"

abbreviation on_pst :: "(pst \<Rightarrow> ('a, pst) res) \<Rightarrow> kernel \<Rightarrow> ('a, kernel) res" where
  "on_pst \<equiv> zoom get_pst put_pst"

abbreviation on_fs :: "(fss \<Rightarrow> ('a, fss) res) \<Rightarrow> kernel \<Rightarrow> ('a, kernel) res" where
  "on_fs \<equiv> zoom kfs kfs_update"

abbreviation on_log :: "(lst \<Rightarrow> ('a, lst) res) \<Rightarrow> kernel \<Rightarrow> ('a, kernel) res" where
  "on_log f \<equiv> on_fs (on_fl f)"

definition kproc :: "nat \<Rightarrow> kernel \<Rightarrow> proc" where
  "kproc i s = ptable (kmach s) ! i"

definition kset_proc :: "nat \<Rightarrow> (proc \<Rightarrow> proc) \<Rightarrow> kernel \<Rightarrow> kernel" where
  "kset_proc i f = put_mach (set_proc i f)"

definition kmem :: "kernel \<Rightarrow> memory" where
  "kmem s = mem (vk (kvm s))"

definition set_kmem :: "(memory \<Rightarrow> memory) \<Rightarrow> kernel \<Rightarrow> kernel" where
  "set_kmem f s = s\<lparr>kvm := set_mem f (kvm s)\<rparr>"

definition set_file :: "nat \<Rightarrow> (kfile \<Rightarrow> kfile) \<Rightarrow> kernel \<Rightarrow> kernel" where
  "set_file i f s = s\<lparr>ftable := (ftable s)[i := f (ftable s ! i)]\<rparr>"

definition inode_of :: "nat \<Rightarrow> kernel \<Rightarrow> inode" where
  "inode_of i s = inodes (kfs s) ! i"

definition set_kinode :: "nat \<Rightarrow> (inode \<Rightarrow> inode) \<Rightarrow> kernel \<Rightarrow> kernel" where
  "set_kinode i f s = s\<lparr>kfs := set_inode i f (kfs s)\<rparr>"

section \<open>The get and put of each component agree\<close>

lemma kmach_put_mach [simp]: "kmach (put_mach f s) = f (kmach s)"
  by (simp add: put_mach_def kmach_def)

lemma get_put_vm [simp]: "get_vm (put_vm f s) = f (get_vm s)"
  by (simp add: put_vm_def get_vm_def put_mach_def kmach_def Let_def)

lemma get_put_pst [simp]: "get_pst (put_pst f s) = f (get_pst s)"
proof -
  let ?t = "f (get_pst s)"
  have "get_pst (put_pst f s) = \<lparr>pk = vk (get_vm (put_vm (\<lambda>v. v\<lparr>vk := pk ?t\<rparr>) (s\<lparr>kpipes := pipes ?t\<rparr>))),
      pipes = pipes ?t\<rparr>"
    by (simp add: get_pst_def put_pst_def Let_def) (simp add: put_vm_def put_mach_def Let_def)
  then show ?thesis by simp
qed

lemma kmach_get_vm [simp]: "km (vk (get_vm s)) = kmach s" "kmach (put_vm f s) = km (vk (f (get_vm s)))"
  by (simp_all add: get_vm_def put_vm_def Let_def)

lemma put_mach_id: "put_mach (\<lambda>_. kmach s) s = s"
  by (simp add: put_mach_def kmach_def)

section \<open>User memory as the kernel reaches it\<close>

text \<open>
  The kernel follows user pointers through the current page table.  In kernel mode the processor
  does not check \<open>PTE_U\<close>, but \<open>CR0.WP\<close> is set (entry.S), so a store to a page without \<open>PTE_W\<close>
  faults like a user's store: the trap handler runs \<open>handle_pgflt\<close> and the store is tried again.
\<close>

definition walk_krn :: "memory \<Rightarrow> uint \<Rightarrow> uint \<Rightarrow> (uint \<times> bool) option" where
  "walk_krn m pgdir va =
     (let pde = load32 m (pgdir + 4 * PDX va) in
      if pte_has pde PTE_P
      then let pte = load32 m (P2V (PTE_ADDR pde) + 4 * PTX va) in
        (if pte_has pte PTE_P then Some (PTE_ADDR pte, pte_has pde PTE_W \<and> pte_has pte PTE_W) else None)
      else None)"

definition cur_pgdir :: "kernel \<Rightarrow> uint" where
  "cur_pgdir s = P2V (cr3 (kvm s))"

definition get_user :: "uint \<Rightarrow> kernel \<Rightarrow> (u8, kernel) res" where
  "get_user va s =
     (case walk_krn (kmem s) (cur_pgdir s) va of
        Some (pa, _) \<Rightarrow> Ok (kmem s (P2V pa + page_off va)) s
      | None \<Rightarrow> call (on_vst (handle_pgflt va) s) (\<lambda>_ s. Fault ''get_user: not mapped''))"

definition store_user :: "uint \<Rightarrow> u8 \<Rightarrow> kernel \<Rightarrow> kernel option" where
  "store_user va b s =
     (case walk_krn (kmem s) (cur_pgdir s) va of
        Some (pa, True) \<Rightarrow> Some (set_kmem (\<lambda>m. m(P2V pa + page_off va := b)) s)
      | _ \<Rightarrow> None)"

definition put_user :: "uint \<Rightarrow> u8 \<Rightarrow> kernel \<Rightarrow> (unit, kernel) res" where
  "put_user va b s =
     (case store_user va b s of
        Some t \<Rightarrow> Ok () t
      | None \<Rightarrow> call (on_vst (handle_pgflt va) s) (\<lambda>_ s.
          case store_user va b s of Some t \<Rightarrow> Ok () t | None \<Rightarrow> Fault ''put_user: the page fault repeats''))"

fun get_bytes :: "uint \<Rightarrow> nat \<Rightarrow> kernel \<Rightarrow> (bytes, kernel) res" where
  "get_bytes va 0 s = Ok [] s"
| "get_bytes va (Suc n) s =
     call (get_user va s) (\<lambda>b s. call (get_bytes (va + 1) n s) (\<lambda>bs s. Ok (b # bs) s))"

fun put_bytes :: "uint \<Rightarrow> bytes \<Rightarrow> kernel \<Rightarrow> (unit, kernel) res" where
  "put_bytes va [] s = Ok () s"
| "put_bytes va (b # bs) s = call (put_user va b s) (\<lambda>_ s. put_bytes (va + 1) bs s)"

definition get_word :: "uint \<Rightarrow> kernel \<Rightarrow> (uint, kernel) res" where
  "get_word va s = call (get_bytes va 4 s) (\<lambda>bs s. Ok (get32 0 bs) s)"

definition put_word :: "uint \<Rightarrow> uint \<Rightarrow> kernel \<Rightarrow> (unit, kernel) res" where
  "put_word va w s = put_bytes va (le32 w) s"

section \<open>A kernel at rest\<close>

text \<open>The state the witnesses run on: two free pages, an empty log, no open files, machine \<open>m\<close>.\<close>

definition quiet_kernel :: "mach \<Rightarrow> kernel" where
  "quiet_kernel m = \<lparr>kfs = console_world\<lparr>fl := quiet_log\<lparr>lb := (lb quiet_log)\<lparr>bm := m\<rparr>\<rparr>\<rparr>,
     kvm = \<lparr>vk = boot_pool\<lparr>km := m\<rparr>, kpgdir = 0, cr3 = 0, kdata = 0, segs = [], ts_base = (\<lambda>_. 0)\<rparr>,
     kpipes = (\<lambda>_. \<lparr>pdata = replicate PIPESIZE 0, nread = 0, nwrite = 0, readopen = False, writeopen = False\<rparr>),
     ftable = replicate NFILE \<lparr>f_type = FD_NONE, f_ref = 0, f_readable = False, f_writable = False,
       f_pipe = 0, f_ip = 0, f_off = 0\<rparr>,
     kdevsw = console_devsw, ticks = 0, first = False, initcode = (0, 0)\<rparr>"

lemma kmach_quiet [simp]: "kmach (quiet_kernel m) = m"
  by (simp add: kmach_def quiet_kernel_def)

end
