(* ===== verification/File.thy ===== *)
theory File
  imports Kernel
begin

text \<open>
  Open files: file.c, and \<open>pipealloc\<close> of pipe.c, which needs the file table.  A \<open>struct file *\<close> is an
  index into \<open>ftable\<close>.  A read returns the bytes it would store through \<open>addr\<close>; a write gets the
  bytes at \<open>addr\<close>.
\<close>

section \<open>The file table\<close>

definition fileinit :: "kernel \<Rightarrow> (unit, kernel) res" where
  "fileinit s = on_mach (initlock FtableLock ''ftable'') s"

definition filealloc :: "kernel \<Rightarrow> (nat option, kernel) res" where
  "filealloc s =
     call (on_mach (acquire FtableLock) s) (\<lambda>_ s.
     case find (\<lambda>i. f_ref (ftable s ! i) = 0) [0..<length (ftable s)] of
       Some i \<Rightarrow> call (on_mach (release FtableLock) (set_file i (\<lambda>f. f\<lparr>f_ref := 1\<rparr>) s)) (\<lambda>_ s. Ok (Some i) s)
     | None \<Rightarrow> call (on_mach (release FtableLock) s) (\<lambda>_ s. Ok None s))"

definition filedup :: "nat \<Rightarrow> kernel \<Rightarrow> (nat, kernel) res" where
  "filedup i s =
     call (on_mach (acquire FtableLock) s) (\<lambda>_ s.
     if f_ref (ftable s ! i) < 1 then Panic ''filedup''
     else call (on_mach (release FtableLock) (set_file i (\<lambda>f. f\<lparr>f_ref := f_ref f + 1\<rparr>) s)) (\<lambda>_ s. Ok i s))"

definition fileclose :: "nat \<Rightarrow> kernel \<Rightarrow> (unit, kernel) res" where
  "fileclose i s =
     call (on_mach (acquire FtableLock) s) (\<lambda>_ s.
     if f_ref (ftable s ! i) < 1 then Panic ''fileclose''
     else let s = set_file i (\<lambda>f. f\<lparr>f_ref := f_ref f - 1\<rparr>) s in
       if 0 < f_ref (ftable s ! i) then on_mach (release FtableLock) s
       else let ff = ftable s ! i;
                s = set_file i (\<lambda>f. f\<lparr>f_ref := 0, f_type := FD_NONE\<rparr>) s in
         call (on_mach (release FtableLock) s) (\<lambda>_ s.
         if f_type ff = FD_PIPE then on_pst (pipeclose (f_pipe ff) (f_writable ff)) s
         else if f_type ff = FD_INODE
         then call (on_log begin_op s) (\<lambda>_ s. call (on_fs (iput (f_ip ff)) s) (\<lambda>_ s. on_log end_op s))
         else Ok () s))"

section \<open>Metadata, reading and writing\<close>

definition filestat :: "nat \<Rightarrow> kernel \<Rightarrow> (stat option, kernel) res" where
  "filestat i s =
     (let f = ftable s ! i in
      if f_type f = FD_INODE
      then call (on_fs (ilock (f_ip f)) s) (\<lambda>_ s.
        let st = stati (f_ip f) (kfs s) in
        call (on_fs (iunlock (f_ip f)) s) (\<lambda>_ s. Ok (Some st) s))
      else Ok None s)"

definition fileread :: "nat \<Rightarrow> int \<Rightarrow> kernel \<Rightarrow> (int \<times> bytes, kernel) res" where
  "fileread i n s =
     (let f = ftable s ! i in
      if \<not> f_readable f then Ok (-1, []) s
      else if f_type f = FD_PIPE then on_pst (piperead (f_pipe f) n) s
      else if f_type f = FD_INODE
      then call (on_fs (ilock (f_ip f)) s) (\<lambda>_ s.
        call (on_fs (readi (kdevsw s) (f_ip f) (f_off (ftable s ! i)) (of_int n)) s) (\<lambda>(r, bs) s.
        let s = (if 0 < r then set_file i (\<lambda>f. f\<lparr>f_off := f_off f + of_int r\<rparr>) s else s) in
        call (on_fs (iunlock (f_ip f)) s) (\<lambda>_ s. Ok (r, bs) s)))
      else Panic ''fileread'')"

text \<open>
  The loop of \<open>filewrite\<close>, which writes at most \<open>max_write\<close> bytes in one transaction; \<open>bs\<close> is what
  is left to write.  The result is the number of bytes written.
\<close>

definition max_write :: nat where
  "max_write = (nat MAXOPBLOCKS - 1 - 1 - 2) div 2 * 512"

function filewrite_loop :: "nat \<Rightarrow> nat \<Rightarrow> bytes \<Rightarrow> int \<Rightarrow> kernel \<Rightarrow> (int, kernel) res" where
  "filewrite_loop i ip bs done s =
     (if bs = [] then Ok done s
      else let n1 = min (length bs) max_write in
        call (on_log begin_op s) (\<lambda>_ s.
        call (on_fs (ilock ip) s) (\<lambda>_ s.
        call (on_fs (writei (kdevsw s) ip bs (f_off (ftable s ! i)) (of_nat n1)) s) (\<lambda>r s.
        let s = (if 0 < r then set_file i (\<lambda>f. f\<lparr>f_off := f_off f + of_int r\<rparr>) s else s) in
        call (on_fs (iunlock ip) s) (\<lambda>_ s.
        call (on_log end_op s) (\<lambda>_ s.
        if r < 0 then Ok done s
        else if r \<noteq> int n1 then Panic ''short filewrite''
        else filewrite_loop i ip (drop n1 bs) (done + r) s))))))"
  by pat_completeness auto
termination
  by (relation "measure (\<lambda>(i, ip, bs, d, s). length bs)") (auto simp: max_write_def MAXOPBLOCKS_def)

declare filewrite_loop.simps [simp del]

definition filewrite :: "nat \<Rightarrow> bytes \<Rightarrow> int \<Rightarrow> kernel \<Rightarrow> (int, kernel) res" where
  "filewrite i addr n s =
     (let f = ftable s ! i in
      if \<not> f_writable f then Ok (-1) s
      else if f_type f = FD_PIPE then on_pst (pipewrite (f_pipe f) addr n) s
      else if f_type f = FD_INODE
      then call (filewrite_loop i (f_ip f) (take (nat n) addr) 0 s) (\<lambda>r s. Ok (if r = n then n else -1) s)
      else Panic ''filewrite'')"

section \<open>Pipes as files\<close>

definition close_some :: "nat option \<Rightarrow> kernel \<Rightarrow> (unit, kernel) res" where
  "close_some f s = (case f of None \<Rightarrow> Ok () s | Some i \<Rightarrow> fileclose i s)"

text \<open>The \<open>bad\<close> exit: \<open>p\<close> is always null there, so only the files are given back.\<close>

definition pipealloc_bad :: "nat option \<Rightarrow> nat option \<Rightarrow> kernel \<Rightarrow> ((nat \<times> nat) option, kernel) res" where
  "pipealloc_bad f0 f1 s =
     call (close_some f0 s) (\<lambda>_ s. call (close_some f1 s) (\<lambda>_ s. Ok None s))"

definition pipealloc :: "kernel \<Rightarrow> ((nat \<times> nat) option, kernel) res" where
  "pipealloc s =
     call (filealloc s) (\<lambda>f0 s.
     case f0 of None \<Rightarrow> pipealloc_bad None None s
     | Some r \<Rightarrow>
     call (filealloc s) (\<lambda>f1 s.
     case f1 of None \<Rightarrow> pipealloc_bad (Some r) None s
     | Some w \<Rightarrow>
     call (on_kst kalloc s) (\<lambda>p s.
     if p = 0 then pipealloc_bad (Some r) (Some w) s
     else let s = s\<lparr>kpipes := (kpipes s)(p := (kpipes s p)\<lparr>readopen := True, writeopen := True,
                      nwrite := 0, nread := 0\<rparr>)\<rparr> in
       call (on_mach (initlock (PipeLock p) ''pipe'') s) (\<lambda>_ s.
       let s = set_file r (\<lambda>f. f\<lparr>f_type := FD_PIPE, f_readable := True, f_writable := False, f_pipe := p\<rparr>) s;
           s = set_file w (\<lambda>f. f\<lparr>f_type := FD_PIPE, f_readable := False, f_writable := True, f_pipe := p\<rparr>) s in
       Ok (Some (r, w)) s))))"

end
