(* ===== verification/Proc.thy ===== *)
theory Proc
  imports File
begin

unbundle bit_operations_syntax

text \<open>
  Processes: proc.c.  A process is an index into \<open>ptable\<close>; its trap frame and context are fields of
  the process, not bytes of its kernel stack.  \<open>sched()\<close> ends the run of the thread that calls it
  with \<open>Switch\<close>; a function with code behind the call has a \<open>_resume\<close> definition for it.  The
  debug listing \<open>procdump\<close> is not modelled.
\<close>

definition SEG_UCODE :: ushort where "SEG_UCODE = 3"
definition SEG_UDATA :: ushort where "SEG_UDATA = 4"
definition DPL_USER :: ushort where "DPL_USER = 3"
definition FL_IF :: uint where "FL_IF = 0x200"

definition procs :: "kernel \<Rightarrow> proc list" where
  "procs s = ptable (kmach s)"

section \<open>Creating processes\<close>

definition pinit :: "kernel \<Rightarrow> (unit, kernel) res" where
  "pinit s = on_mach (initlock PtableLock ''ptable'') s"

definition allocproc :: "kernel \<Rightarrow> (nat option, kernel) res" where
  "allocproc s =
     call (on_mach (acquire PtableLock) s) (\<lambda>_ s.
     case find (\<lambda>i. pstate (kproc i s) = UNUSED) [0..<length (procs s)] of
       None \<Rightarrow> call (on_mach (release PtableLock) s) (\<lambda>_ s. Ok None s)
     | Some i \<Rightarrow>
         let s = kset_proc i (\<lambda>p. p\<lparr>pstate := EMBRYO, pid := nextpid (kmach s)\<rparr>) s;
             s = put_mach (\<lambda>m. m\<lparr>nextpid := nextpid m + 1\<rparr>) s in
         call (on_mach (release PtableLock) s) (\<lambda>_ s.
         call (on_kst kalloc s) (\<lambda>stack s.
         let s = kset_proc i (\<lambda>p. p\<lparr>kstack := stack\<rparr>) s in
         if stack = 0 then Ok None (kset_proc i (\<lambda>p. p\<lparr>pstate := UNUSED\<rparr>) s)
         else Ok (Some i) (kset_proc i (\<lambda>p. p\<lparr>p_context :=
                \<lparr>c_edi = 0, c_esi = 0, c_ebx = 0, c_ebp = 0, c_eip = Forkret\<rparr>\<rparr>) s))))"

definition userinit :: "kernel \<Rightarrow> (unit, kernel) res" where
  "userinit s =
     call (allocproc s) (\<lambda>po s.
     case po of None \<Rightarrow> Fault ''userinit: no process'' | Some i \<Rightarrow>
     let s = put_mach (\<lambda>m. m\<lparr>initproc := Some i\<rparr>) s in
     call (on_vst setupkvm s) (\<lambda>d s.
     let s = kset_proc i (\<lambda>p. p\<lparr>p_pgdir := d\<rparr>) s in
     if d = 0 then Panic ''userinit: out of memory?''
     else call (on_vst (inituvm d (fst (initcode s)) (snd (initcode s))) s) (\<lambda>_ s.
       let ds = push_bit 3 SEG_UDATA OR DPL_USER;
           tf = zero_tf\<lparr>tf_cs := push_bit 3 SEG_UCODE OR DPL_USER, tf_ds := ds, tf_es := ds, tf_ss := ds,
                  tf_eflags := FL_IF, tf_esp := PGSIZE, tf_eip := 0\<rparr>;
           s = kset_proc i (\<lambda>p. p\<lparr>p_sz := PGSIZE, p_tf := tf, pname := ''initcode''\<rparr>) s in
       call (on_fs (namei (kdevsw s) [slash]) s) (\<lambda>d s.
       let s = kset_proc i (\<lambda>p. p\<lparr>cwd := d\<rparr>) s in
       call (on_mach (acquire PtableLock) s) (\<lambda>_ s.
       on_mach (release PtableLock) (kset_proc i (\<lambda>p. p\<lparr>pstate := RUNNABLE\<rparr>) s))))))"

definition growproc :: "int \<Rightarrow> kernel \<Rightarrow> (int, kernel) res" where
  "growproc n s =
     call (on_mach curproc s) (\<lambda>i s.
     let p = kproc i s; sz = p_sz p in
     call (if 0 < n then on_vst (allocuvm (p_pgdir p) sz (sz + of_int n)) s
           else if n < 0 then on_vst (deallocuvm (p_pgdir p) sz (sz + of_int n)) s
           else Ok sz s) (\<lambda>sz s.
     if n \<noteq> 0 \<and> sz = 0 then Ok (-1) s
     else let s = kset_proc i (\<lambda>p. p\<lparr>p_sz := sz\<rparr>) s in
       call (on_vst (switchuvm (Some (kproc i s))) s) (\<lambda>_ s. Ok 0 s)))"

text \<open>The loop of \<open>fork\<close> over the open files.\<close>

definition fork_file :: "nat \<Rightarrow> nat \<Rightarrow> nat \<Rightarrow> kernel \<Rightarrow> (unit, kernel) res" where
  "fork_file cur np fd s =
     (case ofile (kproc cur s) ! fd of
        None \<Rightarrow> Ok () s
      | Some f \<Rightarrow> call (filedup f s) (\<lambda>f s.
          Ok () (kset_proc np (\<lambda>p. p\<lparr>ofile := (ofile p)[fd := Some f]\<rparr>) s)))"

definition fork :: "kernel \<Rightarrow> (int, kernel) res" where
  "fork s =
     call (on_mach curproc s) (\<lambda>cur s.
     call (allocproc s) (\<lambda>po s.
     case po of None \<Rightarrow> Ok (-1) s | Some np \<Rightarrow>
     call (on_vst (copyuvm (p_pgdir (kproc cur s)) (p_sz (kproc cur s))) s) (\<lambda>d s.
     let s = kset_proc np (\<lambda>p. p\<lparr>p_pgdir := d\<rparr>) s in
     if d = 0
     then call (on_kst (kfree (kstack (kproc np s))) s) (\<lambda>_ s.
       Ok (-1) (kset_proc np (\<lambda>p. p\<lparr>kstack := 0, pstate := UNUSED\<rparr>) s))
     else
       let s = kset_proc np (\<lambda>p. p\<lparr>p_sz := p_sz (kproc cur s), parent := Some cur,
                 p_tf := (p_tf (kproc cur s))\<lparr>tf_eax := 0\<rparr>\<rparr>) s in
       call (for_each (fork_file cur np) [0..<NOFILE] s) (\<lambda>_ s.
       case cwd (kproc cur s) of None \<Rightarrow> Fault ''fork: no current directory'' | Some d \<Rightarrow>
       call (on_fs (idup d) s) (\<lambda>d s.
       let s = kset_proc np (\<lambda>p. p\<lparr>cwd := Some d, pname := take 15 (pname (kproc cur s))\<rparr>) s;
           pid = pid (kproc np s) in
       call (on_mach (acquire PtableLock) s) (\<lambda>_ s.
       let s = kset_proc np (\<lambda>p. p\<lparr>pstate := RUNNABLE\<rparr>) s in
       call (on_mach (release PtableLock) s) (\<lambda>_ s. Ok pid s)))))))"

section \<open>Exit and wait\<close>

definition exit_file :: "nat \<Rightarrow> nat \<Rightarrow> kernel \<Rightarrow> (unit, kernel) res" where
  "exit_file cur fd s =
     (case ofile (kproc cur s) ! fd of
        None \<Rightarrow> Ok () s
      | Some f \<Rightarrow> call (fileclose f s) (\<lambda>_ s.
          Ok () (kset_proc cur (\<lambda>p. p\<lparr>ofile := (ofile p)[fd := None]\<rparr>) s)))"

text \<open>A wakeup on a null channel wakes nobody: sleepers have a channel.\<close>

definition wakeup1_proc :: "nat option \<Rightarrow> mach \<Rightarrow> mach" where
  "wakeup1_proc p m = (case p of None \<Rightarrow> m | Some i \<Rightarrow> wakeup1 (ChProc i) m)"

text \<open>One round of the loop that passes abandoned children to \<open>initproc\<close>.\<close>

definition reparent :: "nat \<Rightarrow> nat \<Rightarrow> mach \<Rightarrow> mach" where
  "reparent cur j m =
     (if parent (ptable m ! j) = Some cur
      then let m = set_proc j (\<lambda>p. p\<lparr>parent := initproc m\<rparr>) m in
        if pstate (ptable m ! j) = ZOMBIE then wakeup1_proc (initproc m) m else m
      else m)"

text \<open>The end of \<open>exit\<close>, from taking the table's lock to the last \<open>sched\<close>.\<close>

definition exit_zombie :: "nat \<Rightarrow> kernel \<Rightarrow> (unit, kernel) res" where
  "exit_zombie cur s =
     call (on_mach (acquire PtableLock) s) (\<lambda>_ s.
     let s = put_mach (wakeup1_proc (parent (kproc cur s))) s;
         s = put_mach (fold (reparent cur) [0..<length (procs s)]) s;
         s = kset_proc cur (\<lambda>p. p\<lparr>pstate := ZOMBIE\<rparr>) s in
     call (on_mach sched s) (\<lambda>_ s. Panic ''zombie exit''))"

definition exit :: "kernel \<Rightarrow> (unit, kernel) res" where
  "exit s =
     call (on_mach curproc s) (\<lambda>cur s.
     if Some cur = initproc (kmach s) then Panic ''init exiting''
     else call (for_each (exit_file cur) [0..<NOFILE] s) (\<lambda>_ s.
     call (on_log begin_op s) (\<lambda>_ s.
     case cwd (kproc cur s) of None \<Rightarrow> Fault ''exit: no current directory'' | Some d \<Rightarrow>
     call (on_fs (iput d) s) (\<lambda>_ s.
     call (on_log end_op s) (\<lambda>_ s.
     exit_zombie cur (kset_proc cur (\<lambda>p. p\<lparr>cwd := None\<rparr>) s))))))"

text \<open>The part of \<open>wait\<close> that gives a zombie's resources back.\<close>

definition reap :: "nat \<Rightarrow> kernel \<Rightarrow> (int, kernel) res" where
  "reap j s =
     (let pid = pid (kproc j s) in
      call (on_kst (kfree (kstack (kproc j s))) s) (\<lambda>_ s.
      let s = kset_proc j (\<lambda>p. p\<lparr>kstack := 0\<rparr>) s in
      call (on_vst (freevm (p_pgdir (kproc j s))) s) (\<lambda>_ s.
      let s = kset_proc j (\<lambda>p. p\<lparr>pid := 0, parent := None, pname := [], killed := False, pstate := UNUSED\<rparr>) s in
      call (on_mach (release PtableLock) s) (\<lambda>_ s. Ok pid s))))"

definition wait_loop :: "nat \<Rightarrow> kernel \<Rightarrow> (int, kernel) res" where
  "wait_loop cur s =
     (let kids = filter (\<lambda>j. parent (kproc j s) = Some cur) [0..<length (procs s)] in
      case find (\<lambda>j. pstate (kproc j s) = ZOMBIE) kids of
        Some j \<Rightarrow> reap j s
      | None \<Rightarrow>
          if kids = [] \<or> killed (kproc cur s) then call (on_mach (release PtableLock) s) (\<lambda>_ s. Ok (-1) s)
          else call (on_mach (sleep (ChProc cur) (Some PtableLock)) s) (\<lambda>_ s. Ok (-1) s))"

definition wait :: "kernel \<Rightarrow> (int, kernel) res" where
  "wait s =
     call (on_mach curproc s) (\<lambda>cur s.
     call (on_mach (acquire PtableLock) s) (\<lambda>_ s. wait_loop cur s))"

definition wait_resume :: "nat \<Rightarrow> kernel \<Rightarrow> (int, kernel) res" where
  "wait_resume cur s = call (on_mach (sleep_resume PtableLock cur) s) (\<lambda>_ s. wait_loop cur s)"

section \<open>Scheduling\<close>

text \<open>
  One round of the outer loop of \<open>scheduler\<close> on CPU \<open>c\<close>, cut at \<open>swtch\<close>.  \<open>scheduler_scan\<close> goes on
  with the table from slot \<open>j\<close>: it ends when it switches to the process \<open>i\<close>, with \<open>Some i\<close>, or
  at the end of the table.  \<open>scheduler_back\<close> is what follows when process \<open>i\<close> has called \<open>sched\<close>.
\<close>

definition scheduler_scan :: "nat \<Rightarrow> nat \<Rightarrow> kernel \<Rightarrow> (nat option, kernel) res" where
  "scheduler_scan c j s =
     (case find (\<lambda>i. pstate (kproc i s) = RUNNABLE) [j..<length (procs s)] of
        None \<Rightarrow> call (on_mach (release PtableLock) s) (\<lambda>_ s. Ok None s)
      | Some i \<Rightarrow>
          let s = put_mach (set_cpu c (\<lambda>k. k\<lparr>cproc := Some i\<rparr>)) s in
          call (on_vst (switchuvm (Some (kproc i s))) s) (\<lambda>_ s.
          Ok (Some i) (kset_proc i (\<lambda>p. p\<lparr>pstate := RUNNING\<rparr>) s)))"

definition scheduler_back :: "nat \<Rightarrow> nat \<Rightarrow> kernel \<Rightarrow> (nat option, kernel) res" where
  "scheduler_back c i s =
     call (on_vst switchkvm s) (\<lambda>_ s.
     scheduler_scan c (Suc i) (put_mach (set_cpu c (\<lambda>k. k\<lparr>cproc := None\<rparr>)) s))"

definition scheduler_round :: "nat \<Rightarrow> kernel \<Rightarrow> (nat option, kernel) res" where
  "scheduler_round c s =
     (let s = put_mach (\<lambda>m. m\<lparr>eflags_if := True\<rparr>) s in
      call (on_mach (acquire PtableLock) s) (\<lambda>_ s. scheduler_scan c 0 s))"

definition scheduler :: "kernel \<Rightarrow> (nat option, kernel) res" where
  "scheduler s =
     call (on_mach mycpu s) (\<lambda>c s.
     scheduler_round c (put_mach (set_cpu c (\<lambda>k. k\<lparr>cproc := None\<rparr>)) s))"

definition yield :: "kernel \<Rightarrow> (unit, kernel) res" where
  "yield s =
     call (on_mach (acquire PtableLock) s) (\<lambda>_ s.
     call (on_mach curproc s) (\<lambda>i s.
     on_mach sched (kset_proc i (\<lambda>p. p\<lparr>pstate := RUNNABLE\<rparr>) s)))"

definition yield_resume :: "kernel \<Rightarrow> (unit, kernel) res" where
  "yield_resume s = on_mach (release PtableLock) s"

definition forkret :: "kernel \<Rightarrow> (unit, kernel) res" where
  "forkret s =
     call (on_mach (release PtableLock) s) (\<lambda>_ s.
     if first s
     then call (on_fs (iinit ROOTDEV) (s\<lparr>first := False\<rparr>)) (\<lambda>_ s. on_log (initlog ROOTDEV) s)
     else Ok () s)"

definition kill :: "int \<Rightarrow> kernel \<Rightarrow> (int, kernel) res" where
  "kill k s =
     call (on_mach (acquire PtableLock) s) (\<lambda>_ s.
     case find (\<lambda>i. pid (kproc i s) = k) [0..<length (procs s)] of
       None \<Rightarrow> call (on_mach (release PtableLock) s) (\<lambda>_ s. Ok (-1) s)
     | Some i \<Rightarrow>
         let s = kset_proc i (\<lambda>p. p\<lparr>killed := True,
                   pstate := (if pstate p = SLEEPING then RUNNABLE else pstate p)\<rparr>) s in
         call (on_mach (release PtableLock) s) (\<lambda>_ s. Ok 0 s))"

end
