(* ===== verification/Exec.thy ===== *)
theory Exec
  imports Proc
begin

unbundle bit_operations_syntax

text \<open>
  Program loading: exec.c, elf.h and \<open>loaduvm\<close> of vm.c.  The path and the argument strings are
  byte lists, as \<open>sys_exec\<close> fetched them from the caller's memory.
\<close>

section \<open>elf.h\<close>

record elfhdr =
  e_magic :: uint
  e_entry :: uint
  e_phoff :: uint
  e_phnum :: ushort

record proghdr =
  ph_type :: uint
  ph_off :: uint
  ph_vaddr :: uint
  ph_filesz :: uint
  ph_memsz :: uint

definition ELF_MAGIC :: uint where "ELF_MAGIC = 0x464C457F"
definition ELF_PROG_LOAD :: uint where "ELF_PROG_LOAD = 1"
definition MAXARG :: nat where "MAXARG = 32"

definition elf_decode :: "bytes \<Rightarrow> elfhdr" where
  "elf_decode d = \<lparr>e_magic = get32 0 d, e_entry = get32 24 d, e_phoff = get32 28 d, e_phnum = get16 44 d\<rparr>"

definition ph_decode :: "bytes \<Rightarrow> proghdr" where
  "ph_decode d = \<lparr>ph_type = get32 0 d, ph_off = get32 4 d, ph_vaddr = get32 8 d, ph_filesz = get32 16 d,
     ph_memsz = get32 20 d\<rparr>"

section \<open>Copying into an address space\<close>

definition store_bytes :: "uint \<Rightarrow> bytes \<Rightarrow> memory \<Rightarrow> memory" where
  "store_bytes a bs m = (\<lambda>x. let k = unat (x - a) in if k < length bs then bs ! k else m x)"

text \<open>
  \<open>loaduvm\<close>: one round for each page offset \<open>i\<close>.  The inode's bytes go straight to the page.
\<close>

fun loaduvm_pages :: "uint \<Rightarrow> uint \<Rightarrow> nat \<Rightarrow> uint \<Rightarrow> uint \<Rightarrow> uint list \<Rightarrow> kernel \<Rightarrow> (int, kernel) res" where
  "loaduvm_pages pgdir addr ip off sz [] s = Ok 0 s"
| "loaduvm_pages pgdir addr ip off sz (i # is) s =
     call (on_vst (walkpgdir pgdir (addr + i) False) s) (\<lambda>pte s.
     if pte = 0 then Panic ''loaduvm: address should exist''
     else let pa = PTE_ADDR (load32 (kmem s) pte);
              n = (if sz - i < PGSIZE then sz - i else PGSIZE) in
       call (on_fs (readi (kdevsw s) ip (off + i) n) s) (\<lambda>(r, bs) s.
       let s = set_kmem (store_bytes (P2V pa) bs) s in
       if r \<noteq> sint n then Ok (-1) s else loaduvm_pages pgdir addr ip off sz is s))"

definition page_offsets :: "uint \<Rightarrow> uint list" where
  "page_offsets sz = map (\<lambda>k. of_nat k * PGSIZE) [0..<(unat sz + 4095) div 4096]"

definition loaduvm :: "uint \<Rightarrow> uint \<Rightarrow> nat \<Rightarrow> uint \<Rightarrow> uint \<Rightarrow> kernel \<Rightarrow> (int, kernel) res" where
  "loaduvm pgdir addr ip off sz s =
     (if addr mod PGSIZE \<noteq> 0 then Panic ''loaduvm: addr must be page aligned''
      else loaduvm_pages pgdir addr ip off sz (page_offsets sz) s)"

text \<open>\<open>copyout\<close> of bytes that are not kernel memory: a local array, or another user address.\<close>

function copyout_bytes :: "uint \<Rightarrow> uint \<Rightarrow> bytes \<Rightarrow> kernel \<Rightarrow> (int, kernel) res" where
  "copyout_bytes pgdir va bs s =
     (if bs = [] then Ok 0 s
      else let va0 = PGROUNDDOWN va in
        call (on_vst (uva2ka pgdir va0) s) (\<lambda>pa0 s.
        if pa0 = 0 then Ok (-1) s
        else let n = min (length bs) (unat (PGSIZE - (va - va0)));
                 s = set_kmem (store_bytes (pa0 + (va - va0)) (take n bs)) s in
          copyout_bytes pgdir (va0 + PGSIZE) (drop n bs) s))"
  by pat_completeness auto
termination
proof (relation "measure (\<lambda>(pgdir, va, bs, s). length bs)")
  fix pgdir va va0 :: uint and bs :: bytes and n s s' s'' x
  assume "bs \<noteq> []" "va0 = PGROUNDDOWN va" "n = min (length bs) (unat (PGSIZE - (va - va0)))"
  then have "0 < n" using page_rest_pos[of va] by simp
  then show "((pgdir, va0 + PGSIZE, drop n bs, s''), pgdir, va, bs, s)
      \<in> measure (\<lambda>(pgdir, va, bs, s). length bs)"
    using \<open>bs \<noteq> []\<close> by (simp add: diff_less)
qed simp

declare copyout_bytes.simps [simp del]

section \<open>exec\<close>

text \<open>
  The loop over the program headers, \<open>k\<close> of them to go; the result is the size of the image, or
  \<open>None\<close> for \<open>goto bad\<close>.
\<close>

fun exec_load :: "nat \<Rightarrow> uint \<Rightarrow> nat \<Rightarrow> uint \<Rightarrow> uint \<Rightarrow> kernel \<Rightarrow> (uint option, kernel) res" where
  "exec_load 0 pgdir ip off sz s = Ok (Some sz) s"
| "exec_load (Suc k) pgdir ip off sz s =
     call (on_fs (readi (kdevsw s) ip off 32) s) (\<lambda>(r, d) s.
     if r \<noteq> 32 then Ok None s
     else let ph = ph_decode d in
       if ph_type ph \<noteq> ELF_PROG_LOAD then exec_load k pgdir ip (off + 32) sz s
       else if ph_memsz ph < ph_filesz ph then Ok None s
       else if ph_vaddr ph + ph_memsz ph < ph_vaddr ph then Ok None s
       else call (on_vst (allocuvm pgdir sz (ph_vaddr ph + ph_memsz ph)) s) (\<lambda>sz s.
         if sz = 0 then Ok None s
         else if ph_vaddr ph mod PGSIZE \<noteq> 0 then Ok None s
         else call (loaduvm pgdir (ph_vaddr ph) ip (ph_off ph) (ph_filesz ph) s) (\<lambda>r s.
           if r < 0 then Ok None s else exec_load k pgdir ip (off + 32) sz s)))"

text \<open>The loop that pushes the argument strings; the result is the stack pointer and the pointers.\<close>

fun exec_args :: "uint \<Rightarrow> nat \<Rightarrow> bytes list \<Rightarrow> uint \<Rightarrow> uint list \<Rightarrow> kernel \<Rightarrow> ((uint \<times> uint list) option, kernel) res" where
  "exec_args pgdir argc [] sp us s = Ok (Some (sp, us)) s"
| "exec_args pgdir argc (a # as) sp us s =
     (if MAXARG \<le> argc then Ok None s
      else let sp = (sp - (of_nat (length a) + 1)) AND NOT 3 in
        call (copyout_bytes pgdir sp (a @ [0]) s) (\<lambda>r s.
        if r < 0 then Ok None s else exec_args pgdir (Suc argc) as sp (us @ [sp]) s))"

text \<open>The initial stack below the strings: return address, \<open>argc\<close>, \<open>argv\<close>, the pointers, null.\<close>

definition exec_ustack :: "uint \<Rightarrow> uint list \<Rightarrow> uint list" where
  "exec_ustack sp us = [0xffffffff, of_nat (length us), sp - (of_nat (length us) + 1) * 4] @ us @ [0]"

definition exec_name :: "bytes \<Rightarrow> string" where
  "exec_name path = take 15 (map (\<lambda>b. char_of (unat b)) (rev (takeWhile (\<lambda>c. c \<noteq> slash) (rev path))))"

definition exec_bad :: "uint \<Rightarrow> nat option \<Rightarrow> kernel \<Rightarrow> (int, kernel) res" where
  "exec_bad pgdir ip s =
     call (if pgdir \<noteq> 0 then on_vst (freevm pgdir) s else Ok () s) (\<lambda>_ s.
     call (case ip of None \<Rightarrow> Ok () s
           | Some i \<Rightarrow> call (on_fs (iunlockput i) s) (\<lambda>_ s. on_log end_op s)) (\<lambda>_ s. Ok (-1) s))"

text \<open>From the user stack on, when the file is closed.\<close>

definition exec_stack :: "nat \<Rightarrow> bytes \<Rightarrow> bytes list \<Rightarrow> uint \<Rightarrow> uint \<Rightarrow> uint \<Rightarrow> kernel \<Rightarrow> (int, kernel) res" where
  "exec_stack cur path argv entry pgdir sz s =
     (let sz = PGROUNDUP sz in
      call (on_vst (allocuvm pgdir sz (sz + 2 * PGSIZE)) s) (\<lambda>sz s.
      if sz = 0 then exec_bad pgdir None s
      else call (on_vst (clearpteu pgdir (sz - 2 * PGSIZE)) s) (\<lambda>_ s.
        call (exec_args pgdir 0 argv sz [] s) (\<lambda>args s.
        case args of None \<Rightarrow> exec_bad pgdir None s
        | Some (sp, us) \<Rightarrow>
            let ustack = exec_ustack sp us; sp = sp - of_nat (length ustack) * 4 in
            call (copyout_bytes pgdir sp (concat (map le32 ustack)) s) (\<lambda>r s.
            if r < 0 then exec_bad pgdir None s
            else let old = p_pgdir (kproc cur s);
                     s = kset_proc cur (\<lambda>p. p\<lparr>pname := exec_name path, p_pgdir := pgdir, p_sz := sz,
                           p_tf := (p_tf p)\<lparr>tf_eip := entry, tf_esp := sp\<rparr>\<rparr>) s in
              call (on_vst (switchuvm (Some (kproc cur s))) s) (\<lambda>_ s.
              call (on_vst (freevm old) s) (\<lambda>_ s. Ok 0 s)))))))"

definition exec :: "bytes \<Rightarrow> bytes list \<Rightarrow> kernel \<Rightarrow> (int, kernel) res" where
  "exec path argv s =
     call (on_mach curproc s) (\<lambda>cur s.
     call (on_log begin_op s) (\<lambda>_ s.
     call (on_fs (namei (kdevsw s) path) s) (\<lambda>ipo s.
     case ipo of None \<Rightarrow> call (on_log end_op s) (\<lambda>_ s. Ok (-1) s)
     | Some ip \<Rightarrow>
     call (on_fs (ilock ip) s) (\<lambda>_ s.
     call (on_fs (readi (kdevsw s) ip 0 52) s) (\<lambda>(r, d) s.
     let elf = elf_decode d in
     if r \<noteq> 52 then exec_bad 0 (Some ip) s
     else if e_magic elf \<noteq> ELF_MAGIC then exec_bad 0 (Some ip) s
     else call (on_vst setupkvm s) (\<lambda>pgdir s.
       if pgdir = 0 then exec_bad 0 (Some ip) s
       else call (exec_load (unat (e_phnum elf)) pgdir ip (e_phoff elf) 0 s) (\<lambda>szo s.
         case szo of None \<Rightarrow> exec_bad pgdir (Some ip) s
         | Some sz \<Rightarrow>
             call (on_fs (iunlockput ip) s) (\<lambda>_ s.
             call (on_log end_op s) (\<lambda>_ s.
             exec_stack cur path argv (e_entry elf) pgdir sz s)))))))))"

end
