(* ===== verification/Sysarg.thy ===== *)
theory Sysarg
  imports Exec
begin

text \<open>
  System call arguments: the first half of syscall.c, and \<open>argfd\<close> and \<open>fdalloc\<close> of sysfile.c.  A C
  function that returns -1 or stores through a pointer is a function to an option; \<open>None\<close> is -1.
\<close>

definition fetchint :: "uint \<Rightarrow> kernel \<Rightarrow> (uint option, kernel) res" where
  "fetchint addr s =
     call (on_mach curproc s) (\<lambda>i s.
     let sz = p_sz (kproc i s) in
     if sz \<le> addr \<or> sz < addr + 4 then Ok None s
     else call (get_word addr s) (\<lambda>w s. Ok (Some w) s))"

text \<open>The loop of \<open>fetchstr\<close>, with \<open>k\<close> bytes up to the end of the process.\<close>

fun fetchstr_loop :: "uint \<Rightarrow> nat \<Rightarrow> bytes \<Rightarrow> kernel \<Rightarrow> (bytes option, kernel) res" where
  "fetchstr_loop a 0 acc s = Ok None s"
| "fetchstr_loop a (Suc k) acc s =
     call (get_user a s) (\<lambda>b s.
     if b = 0 then Ok (Some acc) s else fetchstr_loop (a + 1) k (acc @ [b]) s)"

definition fetchstr :: "uint \<Rightarrow> kernel \<Rightarrow> (bytes option, kernel) res" where
  "fetchstr addr s =
     call (on_mach curproc s) (\<lambda>i s.
     let sz = p_sz (kproc i s) in
     if sz \<le> addr then Ok None s else fetchstr_loop addr (unat (sz - addr)) [] s)"

definition argint :: "nat \<Rightarrow> kernel \<Rightarrow> (uint option, kernel) res" where
  "argint n s =
     call (on_mach curproc s) (\<lambda>i s. fetchint (tf_esp (p_tf (kproc i s)) + 4 + 4 * of_nat n) s)"

definition argptr :: "nat \<Rightarrow> int \<Rightarrow> kernel \<Rightarrow> (uint option, kernel) res" where
  "argptr n nb s =
     call (on_mach curproc s) (\<lambda>cur s.
     call (argint n s) (\<lambda>io s.
     case io of None \<Rightarrow> Ok None s
     | Some i \<Rightarrow>
         let sz = p_sz (kproc cur s) in
         if nb < 0 \<or> sz \<le> i \<or> sz < i + of_int nb then Ok None s else Ok (Some i) s))"

definition argstr :: "nat \<Rightarrow> kernel \<Rightarrow> (bytes option, kernel) res" where
  "argstr n s =
     call (argint n s) (\<lambda>ao s. case ao of None \<Rightarrow> Ok None s | Some a \<Rightarrow> fetchstr a s)"

text \<open>The descriptor and the file.\<close>

definition argfd :: "nat \<Rightarrow> kernel \<Rightarrow> ((nat \<times> nat) option, kernel) res" where
  "argfd n s =
     call (argint n s) (\<lambda>fo s.
     case fo of None \<Rightarrow> Ok None s
     | Some w \<Rightarrow>
         let fd = sint w in
         if fd < 0 \<or> int NOFILE \<le> fd then Ok None s
         else call (on_mach curproc s) (\<lambda>i s.
           case ofile (kproc i s) ! nat fd of
             None \<Rightarrow> Ok None s
           | Some f \<Rightarrow> Ok (Some (nat fd, f)) s))"

definition fdalloc :: "nat \<Rightarrow> kernel \<Rightarrow> (nat option, kernel) res" where
  "fdalloc f s =
     call (on_mach curproc s) (\<lambda>i s.
     case find (\<lambda>fd. ofile (kproc i s) ! fd = None) [0..<NOFILE] of
       None \<Rightarrow> Ok None s
     | Some fd \<Rightarrow> Ok (Some fd) (kset_proc i (\<lambda>p. p\<lparr>ofile := (ofile p)[fd := Some f]\<rparr>) s))"

definition close_fd :: "nat \<Rightarrow> kernel \<Rightarrow> (unit, kernel) res" where
  "close_fd fd s =
     call (on_mach curproc s) (\<lambda>i s. Ok () (kset_proc i (\<lambda>p. p\<lparr>ofile := (ofile p)[fd := None]\<rparr>) s))"

text \<open>Early returns: go on with the value, or return -1.\<close>

definition or_fail :: "('a option, kernel) res \<Rightarrow> ('a \<Rightarrow> kernel \<Rightarrow> (int, kernel) res) \<Rightarrow> (int, kernel) res" where
  "or_fail r f = call r (\<lambda>x s. case x of None \<Rightarrow> Ok (-1) s | Some a \<Rightarrow> f a s)"

text \<open>The same inside a transaction: the failing branch ends it first.\<close>

definition or_end :: "('a option, kernel) res \<Rightarrow> ('a \<Rightarrow> kernel \<Rightarrow> (int, kernel) res) \<Rightarrow> (int, kernel) res" where
  "or_end r f = call r (\<lambda>x s.
     case x of None \<Rightarrow> call (on_log end_op s) (\<lambda>_ s. Ok (-1) s) | Some a \<Rightarrow> f a s)"

end
