(* ===== verification/Sysfile.thy ===== *)
theory Sysfile
  imports Sysarg
begin

unbundle bit_operations_syntax

text \<open>
  The file system calls: sysfile.c.  Each is a function of the kernel state that reads its arguments
  from the calling process and returns the value for \<open>%eax\<close>.
\<close>

definition O_RDONLY :: uint where "O_RDONLY = 0x000"
definition O_WRONLY :: uint where "O_WRONLY = 0x001"
definition O_RDWR :: uint where "O_RDWR = 0x002"
definition O_CREATE :: uint where "O_CREATE = 0x200"

abbreviation k_iunlockput :: "nat \<Rightarrow> kernel \<Rightarrow> (unit, kernel) res" where
  "k_iunlockput ip \<equiv> on_fs (iunlockput ip)"

definition fail_end :: "kernel \<Rightarrow> (int, kernel) res" where
  "fail_end s = call (on_log end_op s) (\<lambda>_ s. Ok (-1) s)"

definition put_fail_end :: "nat \<Rightarrow> kernel \<Rightarrow> (int, kernel) res" where
  "put_fail_end ip s = call (k_iunlockput ip s) (\<lambda>_ s. fail_end s)"

section \<open>Descriptors\<close>

definition sys_dup :: "kernel \<Rightarrow> (int, kernel) res" where
  "sys_dup s =
     or_fail (argfd 0 s) (\<lambda>(_, f) s.
     or_fail (fdalloc f s) (\<lambda>fd s.
     call (filedup f s) (\<lambda>_ s. Ok (int fd) s)))"

definition sys_read :: "kernel \<Rightarrow> (int, kernel) res" where
  "sys_read s =
     or_fail (argfd 0 s) (\<lambda>(_, f) s.
     or_fail (argint 2 s) (\<lambda>n s.
     or_fail (argptr 1 (sint n) s) (\<lambda>p s.
     call (fileread f (sint n) s) (\<lambda>(r, bs) s.
     call (put_bytes p bs s) (\<lambda>_ s. Ok r s)))))"

definition sys_write :: "kernel \<Rightarrow> (int, kernel) res" where
  "sys_write s =
     or_fail (argfd 0 s) (\<lambda>(_, f) s.
     or_fail (argint 2 s) (\<lambda>n s.
     or_fail (argptr 1 (sint n) s) (\<lambda>p s.
     call (get_bytes p (nat (sint n)) s) (\<lambda>bs s. filewrite f bs (sint n) s))))"

definition sys_close :: "kernel \<Rightarrow> (int, kernel) res" where
  "sys_close s =
     or_fail (argfd 0 s) (\<lambda>(fd, f) s.
     call (close_fd fd s) (\<lambda>_ s.
     call (fileclose f s) (\<lambda>_ s. Ok 0 s)))"

text \<open>\<open>stati\<close> stores the fields of \<open>struct stat\<close>; the two bytes of padding behind each short stay.\<close>

definition put_stat :: "uint \<Rightarrow> stat \<Rightarrow> kernel \<Rightarrow> (unit, kernel) res" where
  "put_stat p st s =
     call (put_word (p + 4) (st_dev st) s) (\<lambda>_ s.
     call (put_word (p + 8) (st_ino st) s) (\<lambda>_ s.
     call (put_bytes p (le16 (st_type st)) s) (\<lambda>_ s.
     call (put_bytes (p + 12) (le16 (st_nlink st)) s) (\<lambda>_ s.
     put_word (p + 16) (st_size st) s))))"

definition sys_fstat :: "kernel \<Rightarrow> (int, kernel) res" where
  "sys_fstat s =
     or_fail (argfd 0 s) (\<lambda>(_, f) s.
     or_fail (argptr 1 20 s) (\<lambda>p s.
     or_fail (filestat f s) (\<lambda>st s.
     call (put_stat p st s) (\<lambda>_ s. Ok 0 s))))"

section \<open>Links\<close>

text \<open>The exit \<open>bad\<close> of \<open>sys_link\<close>, which takes the link count back.\<close>

definition link_bad :: "nat \<Rightarrow> kernel \<Rightarrow> (int, kernel) res" where
  "link_bad ip s =
     call (on_fs (ilock ip) s) (\<lambda>_ s.
     call (on_fs (iupdate ip) (set_kinode ip (\<lambda>x. x\<lparr>inlink := inlink x - 1\<rparr>) s)) (\<lambda>_ s.
     put_fail_end ip s))"

definition sys_link :: "kernel \<Rightarrow> (int, kernel) res" where
  "sys_link s =
     or_fail (argstr 0 s) (\<lambda>old s.
     or_fail (argstr 1 s) (\<lambda>new s.
     call (on_log begin_op s) (\<lambda>_ s.
     or_end (on_fs (namei (kdevsw s) old) s) (\<lambda>ip s.
     call (on_fs (ilock ip) s) (\<lambda>_ s.
     if itype (inode_of ip s) = T_DIR then put_fail_end ip s
     else call (on_fs (iupdate ip) (set_kinode ip (\<lambda>x. x\<lparr>inlink := inlink x + 1\<rparr>) s)) (\<lambda>_ s.
       call (on_fs (iunlock ip) s) (\<lambda>_ s.
       call (on_fs (nameiparent (kdevsw s) new) s) (\<lambda>(dpo, nm) s.
       case dpo of None \<Rightarrow> link_bad ip s
       | Some dp \<Rightarrow>
           call (on_fs (ilock dp) s) (\<lambda>_ s.
           call (if idev (inode_of dp s) \<noteq> idev (inode_of ip s) then Ok (-1) s
                 else on_fs (dirlink (kdevsw s) dp nm (inum (inode_of ip s))) s) (\<lambda>r s.
           if r < 0 then call (k_iunlockput dp s) (\<lambda>_ s. link_bad ip s)
           else call (k_iunlockput dp s) (\<lambda>_ s.
             call (on_fs (iput ip) s) (\<lambda>_ s.
             call (on_log end_op s) (\<lambda>_ s. Ok 0 s)))))))))))))"

text \<open>The loop of \<open>isdirempty\<close>, over the offsets behind the first two entries.\<close>

fun isdirempty_from :: "nat \<Rightarrow> nat list \<Rightarrow> kernel \<Rightarrow> (bool, kernel) res" where
  "isdirempty_from dp [] s = Ok True s"
| "isdirempty_from dp (off # offs) s =
     call (on_fs (readi (kdevsw s) dp (of_nat off) 16) s) (\<lambda>(r, d) s.
     if r \<noteq> 16 then Panic ''isdirempty: readi''
     else if de_inum (dirent_decode d) \<noteq> 0 then Ok False s
     else isdirempty_from dp offs s)"

definition isdirempty :: "nat \<Rightarrow> kernel \<Rightarrow> (bool, kernel) res" where
  "isdirempty dp s = isdirempty_from dp (drop 2 (dir_offsets (isize (inode_of dp s)))) s"

definition dot :: bytes where "dot = [46]"
definition dotdot :: bytes where "dotdot = [46, 46]"

definition unlink_inode :: "nat \<Rightarrow> nat \<Rightarrow> uint \<Rightarrow> kernel \<Rightarrow> (int, kernel) res" where
  "unlink_inode dp ip off s =
     call (on_fs (writei (kdevsw s) dp (replicate 16 0) off 16) s) (\<lambda>r s.
     if r \<noteq> 16 then Panic ''unlink: writei''
     else call (if itype (inode_of ip s) = T_DIR
                then on_fs (iupdate dp) (set_kinode dp (\<lambda>x. x\<lparr>inlink := inlink x - 1\<rparr>) s)
                else Ok () s) (\<lambda>_ s.
       call (k_iunlockput dp s) (\<lambda>_ s.
       call (on_fs (iupdate ip) (set_kinode ip (\<lambda>x. x\<lparr>inlink := inlink x - 1\<rparr>) s)) (\<lambda>_ s.
       call (k_iunlockput ip s) (\<lambda>_ s.
       call (on_log end_op s) (\<lambda>_ s. Ok 0 s))))))"

definition sys_unlink :: "kernel \<Rightarrow> (int, kernel) res" where
  "sys_unlink s =
     or_fail (argstr 0 s) (\<lambda>path s.
     call (on_log begin_op s) (\<lambda>_ s.
     call (on_fs (nameiparent (kdevsw s) path) s) (\<lambda>(dpo, nm) s.
     case dpo of None \<Rightarrow> fail_end s
     | Some dp \<Rightarrow>
     call (on_fs (ilock dp) s) (\<lambda>_ s.
     if namecmp nm dot = 0 \<or> namecmp nm dotdot = 0 then put_fail_end dp s
     else call (on_fs (dirlookup (kdevsw s) dp nm) s) (\<lambda>found s.
       case found of None \<Rightarrow> put_fail_end dp s
       | Some (ip, off) \<Rightarrow>
           call (on_fs (ilock ip) s) (\<lambda>_ s.
           if sint (inlink (inode_of ip s)) < 1 then Panic ''unlink: nlink < 1''
           else call (if itype (inode_of ip s) = T_DIR then isdirempty ip s else Ok True s) (\<lambda>empty s.
             if \<not> empty then call (k_iunlockput ip s) (\<lambda>_ s. put_fail_end dp s)
             else unlink_inode dp ip off s)))))))"

section \<open>Creating and opening\<close>

definition create_dots :: "nat \<Rightarrow> nat \<Rightarrow> kernel \<Rightarrow> (unit, kernel) res" where
  "create_dots dp ip s =
     call (on_fs (iupdate dp) (set_kinode dp (\<lambda>x. x\<lparr>inlink := inlink x + 1\<rparr>) s)) (\<lambda>_ s.
     call (on_fs (dirlink (kdevsw s) ip dot (inum (inode_of ip s))) s) (\<lambda>r s.
     if r < 0 then Panic ''create dots''
     else call (on_fs (dirlink (kdevsw s) ip dotdot (inum (inode_of dp s))) s) (\<lambda>r s.
       if r < 0 then Panic ''create dots'' else Ok () s)))"

definition create :: "bytes \<Rightarrow> ushort \<Rightarrow> ushort \<Rightarrow> ushort \<Rightarrow> kernel \<Rightarrow> (nat option, kernel) res" where
  "create path ty major minor s =
     call (on_fs (nameiparent (kdevsw s) path) s) (\<lambda>(dpo, nm) s.
     case dpo of None \<Rightarrow> Ok None s
     | Some dp \<Rightarrow>
     call (on_fs (ilock dp) s) (\<lambda>_ s.
     call (on_fs (dirlookup (kdevsw s) dp nm) s) (\<lambda>found s.
     case found of
       Some (ip, _) \<Rightarrow>
         call (k_iunlockput dp s) (\<lambda>_ s.
         call (on_fs (ilock ip) s) (\<lambda>_ s.
         if ty = T_FILE \<and> itype (inode_of ip s) = T_FILE then Ok (Some ip) s
         else call (k_iunlockput ip s) (\<lambda>_ s. Ok None s)))
     | None \<Rightarrow>
         call (on_fs (ialloc (idev (inode_of dp s)) ty) s) (\<lambda>ip s.
         call (on_fs (ilock ip) s) (\<lambda>_ s.
         call (on_fs (iupdate ip)
                (set_kinode ip (\<lambda>x. x\<lparr>imajor := major, iminor := minor, inlink := 1\<rparr>) s)) (\<lambda>_ s.
         call (if ty = T_DIR then create_dots dp ip s else Ok () s) (\<lambda>_ s.
         call (on_fs (dirlink (kdevsw s) dp nm (inum (inode_of ip s))) s) (\<lambda>r s.
         if r < 0 then Panic ''create: dirlink''
         else call (k_iunlockput dp s) (\<lambda>_ s. Ok (Some ip) s)))))))))"

text \<open>The second half of \<open>sys_open\<close>: a file and a descriptor for the locked inode \<open>ip\<close>.\<close>

definition open_file :: "nat \<Rightarrow> uint \<Rightarrow> kernel \<Rightarrow> (int, kernel) res" where
  "open_file ip omode s =
     call (filealloc s) (\<lambda>fo s.
     case fo of None \<Rightarrow> put_fail_end ip s
     | Some f \<Rightarrow>
     call (fdalloc f s) (\<lambda>fdo s.
     case fdo of None \<Rightarrow> call (fileclose f s) (\<lambda>_ s. put_fail_end ip s)
     | Some fd \<Rightarrow>
     call (on_fs (iunlock ip) s) (\<lambda>_ s.
     call (on_log end_op s) (\<lambda>_ s.
     Ok (int fd) (set_file f (\<lambda>x. x\<lparr>f_type := FD_INODE, f_ip := ip, f_off := 0,
       f_readable := (omode AND O_WRONLY = 0),
       f_writable := (omode AND O_WRONLY \<noteq> 0 \<or> omode AND O_RDWR \<noteq> 0)\<rparr>) s)))))"

definition sys_open :: "kernel \<Rightarrow> (int, kernel) res" where
  "sys_open s =
     or_fail (argstr 0 s) (\<lambda>path s.
     or_fail (argint 1 s) (\<lambda>omode s.
     call (on_log begin_op s) (\<lambda>_ s.
     if omode AND O_CREATE \<noteq> 0
     then or_end (create path T_FILE 0 0 s) (\<lambda>ip s. open_file ip omode s)
     else or_end (on_fs (namei (kdevsw s) path) s) (\<lambda>ip s.
       call (on_fs (ilock ip) s) (\<lambda>_ s.
       if itype (inode_of ip s) = T_DIR \<and> omode \<noteq> O_RDONLY then put_fail_end ip s
       else open_file ip omode s)))))"

definition put_ok_end :: "nat \<Rightarrow> kernel \<Rightarrow> (int, kernel) res" where
  "put_ok_end ip s = call (k_iunlockput ip s) (\<lambda>_ s. call (on_log end_op s) (\<lambda>_ s. Ok 0 s))"

definition sys_mkdir :: "kernel \<Rightarrow> (int, kernel) res" where
  "sys_mkdir s =
     call (on_log begin_op s) (\<lambda>_ s.
     or_end (argstr 0 s) (\<lambda>path s.
     or_end (create path T_DIR 0 0 s) (\<lambda>ip s. put_ok_end ip s)))"

definition sys_mknod :: "kernel \<Rightarrow> (int, kernel) res" where
  "sys_mknod s =
     call (on_log begin_op s) (\<lambda>_ s.
     or_end (argstr 0 s) (\<lambda>path s.
     or_end (argint 1 s) (\<lambda>major s.
     or_end (argint 2 s) (\<lambda>minor s.
     or_end (create path T_DEV (ucast major) (ucast minor) s) (\<lambda>ip s. put_ok_end ip s)))))"

definition sys_chdir :: "kernel \<Rightarrow> (int, kernel) res" where
  "sys_chdir s =
     call (on_mach curproc s) (\<lambda>cur s.
     call (on_log begin_op s) (\<lambda>_ s.
     or_end (argstr 0 s) (\<lambda>path s.
     or_end (on_fs (namei (kdevsw s) path) s) (\<lambda>ip s.
     call (on_fs (ilock ip) s) (\<lambda>_ s.
     if itype (inode_of ip s) \<noteq> T_DIR then put_fail_end ip s
     else call (on_fs (iunlock ip) s) (\<lambda>_ s.
       case cwd (kproc cur s) of None \<Rightarrow> Fault ''chdir: no current directory'' | Some d \<Rightarrow>
       call (on_fs (iput d) s) (\<lambda>_ s.
       call (on_log end_op s) (\<lambda>_ s.
       Ok 0 (kset_proc cur (\<lambda>p. p\<lparr>cwd := Some ip\<rparr>) s)))))))))"

section \<open>exec and pipe\<close>

text \<open>The loop of \<open>sys_exec\<close> that fetches the argument vector, at most \<open>MAXARG\<close> words.\<close>

fun fetch_argv :: "uint \<Rightarrow> nat \<Rightarrow> bytes list \<Rightarrow> kernel \<Rightarrow> (bytes list option, kernel) res" where
  "fetch_argv a 0 acc s = Ok None s"
| "fetch_argv a (Suc k) acc s =
     call (fetchint a s) (\<lambda>wo s.
     case wo of None \<Rightarrow> Ok None s
     | Some w \<Rightarrow>
         if w = 0 then Ok (Some acc) s
         else call (fetchstr w s) (\<lambda>so s.
           case so of None \<Rightarrow> Ok None s | Some str \<Rightarrow> fetch_argv (a + 4) k (acc @ [str]) s))"

definition sys_exec :: "kernel \<Rightarrow> (int, kernel) res" where
  "sys_exec s =
     or_fail (argstr 0 s) (\<lambda>path s.
     or_fail (argint 1 s) (\<lambda>uargv s.
     or_fail (fetch_argv uargv MAXARG [] s) (\<lambda>argv s. exec path argv s)))"

definition close_both :: "nat \<Rightarrow> nat \<Rightarrow> kernel \<Rightarrow> (int, kernel) res" where
  "close_both r w s = call (fileclose r s) (\<lambda>_ s. call (fileclose w s) (\<lambda>_ s. Ok (-1) s))"

definition sys_pipe :: "kernel \<Rightarrow> (int, kernel) res" where
  "sys_pipe s =
     or_fail (argptr 0 8 s) (\<lambda>p s.
     or_fail (pipealloc s) (\<lambda>(r, w) s.
     call (fdalloc r s) (\<lambda>fd0 s.
     case fd0 of None \<Rightarrow> close_both r w s
     | Some fd0 \<Rightarrow>
     call (fdalloc w s) (\<lambda>fd1 s.
     case fd1 of None \<Rightarrow> call (close_fd fd0 s) (\<lambda>_ s. close_both r w s)
     | Some fd1 \<Rightarrow>
     call (put_word p (of_nat fd0) s) (\<lambda>_ s.
     call (put_word (p + 4) (of_nat fd1) s) (\<lambda>_ s. Ok 0 s))))))"

end
