(* ===== verification/Trap.thy ===== *)
theory Trap
  imports Sysfile
begin

unbundle bit_operations_syntax

text \<open>
  The way into the kernel: sysproc.c, the dispatcher \<open>syscall\<close> of syscall.c, and trap.c.  An
  interrupt's data (the characters from the keyboard or the serial port, the completion of a disk
  request) is the device's state; the acknowledgement \<open>lapiceoi\<close> has no effect on the model.
\<close>

section \<open>sysproc.c\<close>

text \<open>\<open>exit\<close> never returns; the \<open>return 0\<close> behind it is not reached.\<close>

definition sys_exit :: "kernel \<Rightarrow> (int, kernel) res" where
  "sys_exit s = call (exit s) (\<lambda>_ s. Ok 0 s)"

definition sys_kill :: "kernel \<Rightarrow> (int, kernel) res" where
  "sys_kill s = or_fail (argint 0 s) (\<lambda>k s. kill (sint k) s)"

definition sys_getpid :: "kernel \<Rightarrow> (int, kernel) res" where
  "sys_getpid s = call (on_mach curproc s) (\<lambda>i s. Ok (pid (kproc i s)) s)"

definition sys_sbrk :: "kernel \<Rightarrow> (int, kernel) res" where
  "sys_sbrk s =
     or_fail (argint 0 s) (\<lambda>n s.
     call (on_mach curproc s) (\<lambda>i s.
     let addr = sint (p_sz (kproc i s)) in
     call (growproc (sint n) s) (\<lambda>r s. if r < 0 then Ok (-1) s else Ok addr s)))"

text \<open>The loop of \<open>sys_sleep\<close>; \<open>n\<close> is converted to \<open>unsigned\<close> by the comparison.\<close>

definition sleep_loop :: "uint \<Rightarrow> uint \<Rightarrow> kernel \<Rightarrow> (int, kernel) res" where
  "sleep_loop n ticks0 s =
     (if ticks s - ticks0 < n
      then call (on_mach curproc s) (\<lambda>i s.
        if killed (kproc i s) then call (on_mach (release TicksLock) s) (\<lambda>_ s. Ok (-1) s)
        else call (on_mach (sleep ChTicks (Some TicksLock)) s) (\<lambda>_ s. Ok 0 s))
      else call (on_mach (release TicksLock) s) (\<lambda>_ s. Ok 0 s))"

definition sys_sleep :: "kernel \<Rightarrow> (int, kernel) res" where
  "sys_sleep s =
     or_fail (argint 0 s) (\<lambda>n s.
     call (on_mach (acquire TicksLock) s) (\<lambda>_ s. sleep_loop n (ticks s) s))"

definition sys_sleep_resume :: "nat \<Rightarrow> uint \<Rightarrow> uint \<Rightarrow> kernel \<Rightarrow> (int, kernel) res" where
  "sys_sleep_resume i n ticks0 s =
     call (on_mach (sleep_resume TicksLock i) s) (\<lambda>_ s. sleep_loop n ticks0 s)"

definition sys_uptime :: "kernel \<Rightarrow> (int, kernel) res" where
  "sys_uptime s =
     call (on_mach (acquire TicksLock) s) (\<lambda>_ s.
     let xticks = ticks s in
     call (on_mach (release TicksLock) s) (\<lambda>_ s. Ok (sint xticks) s))"

definition sys_getNumFreePages :: "kernel \<Rightarrow> (int, kernel) res" where
  "sys_getNumFreePages s = on_kst getNumFreePages s"

section \<open>syscall\<close>

definition syscalls :: "int \<Rightarrow> (kernel \<Rightarrow> (int, kernel) res) option" where
  "syscalls num =
     (if num = 1 then Some fork else if num = 2 then Some sys_exit else if num = 3 then Some wait
      else if num = 4 then Some sys_pipe else if num = 5 then Some sys_read
      else if num = 6 then Some sys_kill else if num = 7 then Some sys_exec
      else if num = 8 then Some sys_fstat else if num = 9 then Some sys_chdir
      else if num = 10 then Some sys_dup else if num = 11 then Some sys_getpid
      else if num = 12 then Some sys_sbrk else if num = 13 then Some sys_sleep
      else if num = 14 then Some sys_uptime else if num = 15 then Some sys_open
      else if num = 16 then Some sys_write else if num = 17 then Some sys_mknod
      else if num = 18 then Some sys_unlink else if num = 19 then Some sys_link
      else if num = 20 then Some sys_mkdir else if num = 21 then Some sys_close
      else if num = 22 then Some sys_getNumFreePages else None)"

definition set_eax :: "nat \<Rightarrow> int \<Rightarrow> kernel \<Rightarrow> kernel" where
  "set_eax i r = kset_proc i (\<lambda>p. p\<lparr>p_tf := (p_tf p)\<lparr>tf_eax := of_int r\<rparr>\<rparr>)"

definition syscall :: "kernel \<Rightarrow> (unit, kernel) res" where
  "syscall s =
     call (on_mach curproc s) (\<lambda>i s.
     case syscalls (sint (tf_eax (p_tf (kproc i s)))) of
       Some f \<Rightarrow> call (f s) (\<lambda>r s. Ok () (set_eax i r s))
     | None \<Rightarrow> Ok () (set_eax i (-1) s))"

section \<open>trap\<close>

definition T_PGFLT :: nat where "T_PGFLT = 14"
definition T_SYSCALL :: nat where "T_SYSCALL = 64"
definition T_IRQ0 :: nat where "T_IRQ0 = 32"
definition IRQ_TIMER :: nat where "IRQ_TIMER = 0"
definition IRQ_KBD :: nat where "IRQ_KBD = 1"
definition IRQ_COM1 :: nat where "IRQ_COM1 = 4"
definition IRQ_IDE :: nat where "IRQ_IDE = 14"
definition IRQ_SPURIOUS :: nat where "IRQ_SPURIOUS = 31"

text \<open>
  What the hardware gives a trap: the faulting address \<open>rcr2()\<close>, the characters the keyboard and
  the serial port have, and the disk interrupt handler (\<open>ideintr\<close> does nothing in memide.c).
\<close>

record trapdata =
  td_cr2 :: uint
  td_kbd :: "int list"
  td_uart :: "int list"

definition proc_or_null :: "kernel \<Rightarrow> (nat option, kernel) res" where
  "proc_or_null s = on_mach myproc s"

definition exit_if_killed :: "kernel \<Rightarrow> (unit, kernel) res" where
  "exit_if_killed s =
     call (on_mach curproc s) (\<lambda>i s. if killed (kproc i s) then exit s else Ok () s)"

definition user_mode :: "trapframe \<Rightarrow> bool" where
  "user_mode tf \<longleftrightarrow> tf_cs tf AND 3 = DPL_USER"

definition exit_if_killed_in_user :: "trapframe \<Rightarrow> kernel \<Rightarrow> (unit, kernel) res" where
  "exit_if_killed_in_user tf s =
     call (proc_or_null s) (\<lambda>po s.
     case po of None \<Rightarrow> Ok () s
     | Some i \<Rightarrow> if killed (kproc i s) \<and> user_mode tf then exit s else Ok () s)"

definition timer_tick :: "kernel \<Rightarrow> (unit, kernel) res" where
  "timer_tick s =
     call (on_mach cpuid s) (\<lambda>c s.
     if c = 0
     then call (on_mach (acquire TicksLock) s) (\<lambda>_ s.
       call (on_mach (wakeup ChTicks) (s\<lparr>ticks := ticks s + 1\<rparr>)) (\<lambda>_ s.
       on_mach (release TicksLock) s))
     else Ok () s)"

text \<open>The listing that Control-P asks for is not modelled.\<close>

definition console_interrupt :: "int list \<Rightarrow> kernel \<Rightarrow> (unit, kernel) res" where
  "console_interrupt cs s = call (on_fs (consoleintr cs) s) (\<lambda>_ s. Ok () s)"

definition trap_switch :: "trapdata \<Rightarrow> trapframe \<Rightarrow> kernel \<Rightarrow> (unit, kernel) res" where
  "trap_switch td tf s =
     (let no = unat (tf_trapno tf) in
      if no = T_IRQ0 + IRQ_TIMER then timer_tick s
      else if no = T_IRQ0 + IRQ_IDE then Ok () s
      else if no = T_IRQ0 + IRQ_IDE + 1 then Ok () s
      else if no = T_IRQ0 + IRQ_KBD then console_interrupt (td_kbd td) s
      else if no = T_IRQ0 + IRQ_COM1 then console_interrupt (td_uart td) s
      else if no = T_IRQ0 + 7 \<or> no = T_IRQ0 + IRQ_SPURIOUS then Ok () s
      else if no = T_PGFLT then call (on_vst (handle_pgflt (td_cr2 td)) s) (\<lambda>_ s. Ok () s)
      else call (proc_or_null s) (\<lambda>po s.
        case po of None \<Rightarrow> Panic ''trap''
        | Some i \<Rightarrow> if tf_cs tf AND 3 = 0 then Panic ''trap''
                    else Ok () (kset_proc i (\<lambda>p. p\<lparr>killed := True\<rparr>) s)))"

text \<open>
  After the switch; \<open>yield\<close> gives up the CPU, and the process goes on with \<open>trap_resume\<close> when it
  is scheduled again.
\<close>

definition trap_end :: "trapframe \<Rightarrow> kernel \<Rightarrow> (unit, kernel) res" where
  "trap_end tf s =
     call (exit_if_killed_in_user tf s) (\<lambda>_ s.
     call (proc_or_null s) (\<lambda>po s.
     call (case po of None \<Rightarrow> Ok () s
           | Some i \<Rightarrow> if pstate (kproc i s) = RUNNING \<and> unat (tf_trapno tf) = T_IRQ0 + IRQ_TIMER
                       then yield s else Ok () s) (\<lambda>_ s.
     exit_if_killed_in_user tf s)))"

definition trap_resume :: "trapframe \<Rightarrow> kernel \<Rightarrow> (unit, kernel) res" where
  "trap_resume tf s = call (yield_resume s) (\<lambda>_ s. exit_if_killed_in_user tf s)"

definition trap :: "trapdata \<Rightarrow> trapframe \<Rightarrow> kernel \<Rightarrow> (unit, kernel) res" where
  "trap td tf s =
     (if unat (tf_trapno tf) = T_SYSCALL
      then call (exit_if_killed s) (\<lambda>_ s.
        call (on_mach curproc s) (\<lambda>i s.
        call (syscall (kset_proc i (\<lambda>p. p\<lparr>p_tf := tf\<rparr>) s)) (\<lambda>_ s.
        exit_if_killed s)))
      else call (trap_switch td tf s) (\<lambda>_ s. trap_end tf s))"

text \<open>The gates \<open>tvinit\<close> sets: only the system call gate may be entered from user mode.\<close>

record gatedesc =
  gd_off :: uint
  gd_cs :: uint
  gd_trap :: bool
  gd_dpl :: uint

definition SETGATE :: "bool \<Rightarrow> uint \<Rightarrow> uint \<Rightarrow> uint \<Rightarrow> gatedesc" where
  "SETGATE istrap sel off d = \<lparr>gd_off = off, gd_cs = sel, gd_trap = istrap, gd_dpl = d\<rparr>"

definition tvinit :: "uint list \<Rightarrow> kernel \<Rightarrow> (gatedesc list, kernel) res" where
  "tvinit vectors s =
     (let idt = map (\<lambda>i. SETGATE False (push_bit 3 1) (vectors ! i) 0) [0..<256];
          idt = idt[T_SYSCALL := SETGATE True (push_bit 3 1) (vectors ! T_SYSCALL) 3] in
      call (on_mach (initlock TicksLock ''time'') s) (\<lambda>_ s. Ok idt s))"

end
