(* ===== verification/ProcFacts.thy ===== *)
theory ProcFacts
  imports Proc
begin

text \<open>
  Properties of the process table: \<open>kill\<close>, \<open>exit\<close>'s handling of children, \<open>wait\<close>, and the scheduler.
\<close>

section \<open>The machine inside the kernel\<close>

abbreviation set_kmach :: "mach \<Rightarrow> kernel \<Rightarrow> kernel" where
  "set_kmach m \<equiv> put_mach (\<lambda>_. m)"

lemma put_mach_set: "put_mach f s = set_kmach (f (kmach s)) s"
  by (simp add: put_mach_def)

lemma set_kmach_twice [simp]: "put_mach f (set_kmach m s) = set_kmach (f m) s"
  by (simp add: put_mach_def kmach_def)

lemma set_kmach_same [simp]: "set_kmach (kmach s) s = s"
  by (rule put_mach_id)

lemma on_mach_Ok: "f (kmach s) = Ok a m \<Longrightarrow> on_mach f s = Ok a (set_kmach m s)"
  by (rule zoom_Ok)

lemma on_mach_Switch: "f (kmach s) = Switch m \<Longrightarrow> on_mach f s = Switch (set_kmach m s)"
  by (simp add: zoom_def)

lemma k_acquire:
  "on_cpu c (kmach s) \<Longrightarrow> lock_free l (kmach s) \<Longrightarrow>
     on_mach (acquire l) s = Ok () (set_kmach (take_lock c l (kmach s)) s)"
  by (rule on_mach_Ok) (simp add: acquire_eq lock_free_def)

lemma k_release:
  "kmach s = take_lock c l m \<Longrightarrow> on_cpu c m \<Longrightarrow> lock_free l m \<Longrightarrow> on_mach (release l) s = Ok () (set_kmach m s)"
  by (rule on_mach_Ok) (simp add: release_take_lock)

lemma k_curproc: "running c i (kmach s) \<Longrightarrow> on_mach curproc s = Ok i s"
  using on_mach_Ok[of curproc s i "kmach s"] curproc_eq[of c i "kmach s"] by simp

lemma set_proc_take_lock: "set_proc i f (take_lock c l m) = take_lock c l (set_proc i f m)"
  by (simp add: set_proc_def take_lock_def set_lock_def pushed_def)

lemma set_proc_ptable [simp]: "ptable (set_proc i f m) = (ptable m)[i := f (ptable m ! i)]"
  "lock_free l (set_proc i f m) = lock_free l m"
  by (simp_all add: set_proc_def lock_free_def)

lemma kset_proc_set: "kset_proc i f s = set_kmach (set_proc i f (kmach s)) s"
  unfolding kset_proc_def by (rule put_mach_set)

section \<open>kill\<close>

definition kill_proc :: "proc \<Rightarrow> proc" where
  "kill_proc p = p\<lparr>killed := True, pstate := (if pstate p = SLEEPING then RUNNABLE else pstate p)\<rparr>"

lemma kill_eq:
  assumes c: "on_cpu c (kmach s)" and f: "lock_free PtableLock (kmach s)"
  shows "kill k s = (case find (\<lambda>i. pid (procs s ! i) = k) [0..<length (procs s)] of
      None \<Rightarrow> Ok (-1) s
    | Some i \<Rightarrow> Ok 0 (set_kmach (set_proc i kill_proc (kmach s)) s))"
proof -
  let ?m = "kmach s"
  let ?a = "set_kmach (take_lock c PtableLock ?m) s"
  have acq: "on_mach (acquire PtableLock) s = Ok () ?a" by (rule k_acquire[OF c f])
  have tab: "procs ?a = procs s" "\<And>i. kproc i ?a = procs s ! i" by (simp_all add: procs_def kproc_def)
  have rel: "on_mach (release PtableLock) ?a = Ok () s"
    using k_release[of ?a c PtableLock ?m] c f by simp
  have upd: "on_mach (release PtableLock) (kset_proc i kill_proc ?a) =
      Ok () (set_kmach (set_proc i kill_proc ?m) s)" for i
    using k_release[of "kset_proc i kill_proc ?a" c PtableLock "set_proc i kill_proc ?m"] c f
    by (simp add: kset_proc_set set_proc_take_lock)
  show ?thesis
    using acq tab rel upd unfolding kill_proc_def[abs_def]
    by (simp add: kill_def split: option.splits)
qed

text \<open>\<open>kill\<close> marks exactly the first process with the given pid, waking it if it sleeps, leaves every
  other process and all locks as they were, and fails with -1, changing nothing, when no process
  has the pid.\<close>

theorem kill_marks_process:
  assumes "on_cpu c (kmach s)" and "lock_free PtableLock (kmach s)"
  shows "if \<exists>i < length (procs s). pid (procs s ! i) = k
    then \<exists>i s'. kill k s = Ok 0 s' \<and> i < length (procs s) \<and> pid (procs s ! i) = k \<and>
      killed (procs s' ! i) \<and> pstate (procs s' ! i) \<noteq> SLEEPING \<and>
      (pstate (procs s ! i) \<noteq> SLEEPING \<longrightarrow> pstate (procs s' ! i) = pstate (procs s ! i)) \<and>
      (\<forall>j. j \<noteq> i \<longrightarrow> procs s' ! j = procs s ! j) \<and> locks (kmach s') = locks (kmach s)
    else kill k s = Ok (-1) s"
proof (cases "find (\<lambda>i. pid (procs s ! i) = k) [0..<length (procs s)]")
  case None
  then have "\<not> (\<exists>i < length (procs s). pid (procs s ! i) = k)" by (simp add: find_None_iff)
  then show ?thesis using kill_eq[OF assms, of k] None by simp
next
  case (Some i)
  then have i: "i < length (procs s)" "pid (procs s ! i) = k" by (auto dest: find_SomeD)
  let ?s = "set_kmach (set_proc i kill_proc (kmach s)) s"
  have p: "procs ?s = (procs s)[i := kill_proc (procs s ! i)]" by (simp add: procs_def)
  have "locks (kmach ?s) = locks (kmach s)" by (simp add: set_proc_def)
  then have "kill k s = Ok 0 ?s \<and> i < length (procs s) \<and> pid (procs s ! i) = k \<and>
      killed (procs ?s ! i) \<and> pstate (procs ?s ! i) \<noteq> SLEEPING \<and>
      (pstate (procs s ! i) \<noteq> SLEEPING \<longrightarrow> pstate (procs ?s ! i) = pstate (procs s ! i)) \<and>
      (\<forall>j. j \<noteq> i \<longrightarrow> procs ?s ! j = procs s ! j) \<and> locks (kmach ?s) = locks (kmach s)"
    using kill_eq[OF assms, of k] Some i p by (simp add: kill_proc_def)
  then show ?thesis using i by auto
qed

text \<open>Process 0 is \<open>initproc\<close> and sleeps in \<open>wait\<close>; 1 is its child and runs; 2 is a zombie child of 1.\<close>

definition family_mach :: mach where
  "family_mach = one_mach\<lparr>cpus := [(boot_cpu 0)\<lparr>cproc := Some 1\<rparr>], initproc := Some 0, nextpid := 4,
     ptable := [zero_proc\<lparr>pid := 1, pstate := SLEEPING, pchan := Some (ChProc 0)\<rparr>,
                zero_proc\<lparr>pid := 2, pstate := RUNNING, parent := Some 0\<rparr>,
                zero_proc\<lparr>pid := 3, pstate := ZOMBIE, parent := Some 1\<rparr>]\<rparr>"

lemma family_running: "running 0 1 family_mach" "on_cpu 0 family_mach" "lock_free l family_mach"
  by (simp_all add: running_def family_mach_def on_cpu_def one_mach_def boot_mach_def boot_cpu_def cpu_index_def
      lock_free_def)

lemma family_table:
  "ptable family_mach = [zero_proc\<lparr>pid := 1, pstate := SLEEPING, pchan := Some (ChProc 0)\<rparr>,
     zero_proc\<lparr>pid := 2, pstate := RUNNING, parent := Some 0\<rparr>,
     zero_proc\<lparr>pid := 3, pstate := ZOMBIE, parent := Some 1\<rparr>]"
  "initproc family_mach = Some 0" "ncli (cpus family_mach ! 0) = 0"
  by (simp_all add: family_mach_def boot_cpu_def)

theorem kill_marks_process_witness:
  "\<exists>s'. kill 1 (quiet_kernel family_mach) = Ok 0 s' \<and> pstate (procs s' ! 0) \<noteq> SLEEPING \<and> killed (procs s' ! 0)"
proof -
  let ?s = "quiet_kernel family_mach"
  have "procs ?s = ptable family_mach" by (simp add: procs_def)
  then have e: "\<exists>i < length (procs ?s). pid (procs ?s ! i) = 1"
    by (intro exI[of _ 0]) (simp add: family_table)
  have "on_cpu 0 (kmach ?s)" "lock_free PtableLock (kmach ?s)" by (simp_all add: family_running)
  from kill_marks_process[OF this, of 1] obtain i s' where s': "kill 1 ?s = Ok 0 s'" "i < length (procs ?s)"
      "pid (procs ?s ! i) = 1" "killed (procs s' ! i)" "pstate (procs s' ! i) \<noteq> SLEEPING"
    unfolding if_P[OF e] by blast
  have "i = 0" using s'(2,3) by (auto simp: procs_def family_table zero_proc_def less_Suc_eq)
  then show ?thesis using s' by blast
qed

section \<open>Abandoned children\<close>

lemma reparent_keeps:
  "initproc (reparent cur j m) = initproc m" "length (ptable (reparent cur j m)) = length (ptable m)"
  by (auto simp: reparent_def Let_def set_proc_def wakeup1_proc_def wakeup1_def split: option.splits)

text \<open>What one process becomes when every slot in \<open>J\<close> has been looked at.\<close>

definition adopted :: "nat \<Rightarrow> nat option \<Rightarrow> bool \<Rightarrow> bool \<Rightarrow> proc \<Rightarrow> proc" where
  "adopted cur ini seen zomb p = p\<lparr>
     pstate := (if zomb \<and> ini \<noteq> None \<and> pstate p = SLEEPING \<and> pchan p = map_option ChProc ini
                then RUNNABLE else pstate p),
     parent := (if seen \<and> parent p = Some cur then ini else parent p)\<rparr>"

lemma adopted_same [simp]: "adopted cur ini False False p = p"
  by (simp add: adopted_def)

lemma reparent_one:
  assumes "k < length (ptable m)" and "j < length (ptable m)"
  shows "ptable (reparent cur j m) ! k = adopted cur (initproc m) (k = j)
    (parent (ptable m ! j) = Some cur \<and> pstate (ptable m ! j) = ZOMBIE) (ptable m ! k)"
  using assms
  by (auto simp: reparent_def adopted_def Let_def set_proc_def wakeup1_proc_def wakeup1_def nth_list_update
      split: option.splits)

lemma adopted_fields:
  "parent (adopted cur ini b z p) = (if b \<and> parent p = Some cur then ini else parent p)"
  "pstate (adopted cur ini b z p) = ZOMBIE \<longleftrightarrow> pstate p = ZOMBIE"
  "pchan (adopted cur ini b z p) = pchan p"
  by (simp_all add: adopted_def)

lemma adopted_twice:
  assumes "ini \<noteq> Some cur"
  shows "adopted cur ini b z (adopted cur ini b' z' p) = adopted cur ini (b \<or> b') (z \<or> z') p"
proof (cases p)
  case (fields sz pgdir ks st k par tf ctx ch kl of cw nm)
  let ?w = "\<lambda>z st. if z \<and> ini \<noteq> None \<and> st = SLEEPING \<and> ch = map_option ChProc ini then RUNNABLE else st"
  let ?a = "\<lambda>b par. if b \<and> par = Some cur then ini else par"
  have "?w z (?w z' st) = ?w (z \<or> z') st" by (cases z; cases z'; simp)
  moreover have "?a b (?a b' par) = ?a (b \<or> b') par" using assms by (cases b; cases b'; simp)
  ultimately show ?thesis
    unfolding fields adopted_def proc.update_convs proc.select_convs by (simp only:)
qed

lemma reparent_all:
  assumes "initproc m \<noteq> Some cur" and "n \<le> length (ptable m)" and "k < length (ptable m)"
  shows "ptable (fold (reparent cur) [0..<n] m) ! k = adopted cur (initproc m) (k < n)
      (\<exists>j < n. parent (ptable m ! j) = Some cur \<and> pstate (ptable m ! j) = ZOMBIE) (ptable m ! k) \<and>
    initproc (fold (reparent cur) [0..<n] m) = initproc m \<and>
    length (ptable (fold (reparent cur) [0..<n] m)) = length (ptable m)"
  using assms(2,3)
proof (induction n arbitrary: k)
  case 0
  then show ?case by simp
next
  case (Suc n)
  let ?m = "fold (reparent cur) [0..<n] m"
  have n: "n < length (ptable m)" using Suc.prems(1) by simp
  note IHk = Suc.IH[OF less_imp_le[OF n] Suc.prems(2)] and IHn = Suc.IH[OF less_imp_le[OF n] n]
  have z: "parent (ptable ?m ! n) = Some cur \<and> pstate (ptable ?m ! n) = ZOMBIE \<longleftrightarrow>
      parent (ptable m ! n) = Some cur \<and> pstate (ptable m ! n) = ZOMBIE"
    using IHn by (simp add: adopted_fields)
  have "ptable (reparent cur n ?m) ! k = adopted cur (initproc m) (k = n)
      (parent (ptable m ! n) = Some cur \<and> pstate (ptable m ! n) = ZOMBIE) (ptable ?m ! k)"
    using reparent_one[of k ?m n cur] IHk n Suc.prems(2) z by simp
  also have "\<dots> = adopted cur (initproc m) (k = n \<or> k < n)
      ((parent (ptable m ! n) = Some cur \<and> pstate (ptable m ! n) = ZOMBIE) \<or>
       (\<exists>j < n. parent (ptable m ! j) = Some cur \<and> pstate (ptable m ! j) = ZOMBIE)) (ptable m ! k)"
    using IHk adopted_twice[OF assms(1)] by simp
  also have "(k = n \<or> k < n) = (k < Suc n)" by auto
  also have "((parent (ptable m ! n) = Some cur \<and> pstate (ptable m ! n) = ZOMBIE) \<or>
       (\<exists>j < n. parent (ptable m ! j) = Some cur \<and> pstate (ptable m ! j) = ZOMBIE)) =
     (\<exists>j < Suc n. parent (ptable m ! j) = Some cur \<and> pstate (ptable m ! j) = ZOMBIE)"
    by (auto simp: less_Suc_eq)
  finally show ?case using IHk by (simp add: reparent_keeps)
qed

section \<open>exit\<close>

lemma sched_switches:
  assumes r: "running c i m" and h: "held_by c PtableLock m" and n: "ncli (cpus m ! c) = 1"
    and s: "pstate (ptable m ! i) \<noteq> RUNNING"
  shows "sched m = Switch m"
proof -
  have c: "on_cpu c m" and pc: "cproc (cpus m ! c) = Some i" using r by (simp_all add: running_def)
  have "\<not> eflags_if m" using c n by (auto simp: on_cpu_def split: if_splits)
  then show ?thesis
    using myproc_eq[OF c] holding_eq[OF c, of PtableLock] h n pc s c
    by (simp add: sched_def held_by_def mycpu_def on_cpuD)
qed

lemma reparent_machine:
  "cpus (fold (reparent cur) js m) = cpus m \<and> locks (fold (reparent cur) js m) = locks m \<and>
   on_cpu c (fold (reparent cur) js m) = on_cpu c m"
proof (induction js arbitrary: m)
  case (Cons j js)
  have "cpus (reparent cur j m) = cpus m \<and> locks (reparent cur j m) = locks m \<and>
      on_cpu c (reparent cur j m) = on_cpu c m"
    by (auto simp: reparent_def Let_def set_proc_def wakeup1_proc_def wakeup1_def split: option.splits)
  then show ?case using Cons.IH[of "reparent cur j m"] by simp
qed simp

lemma wakeup1_proc_machine:
  "cpus (wakeup1_proc p m) = cpus m \<and> locks (wakeup1_proc p m) = locks m \<and> initproc (wakeup1_proc p m) = initproc m \<and>
   length (ptable (wakeup1_proc p m)) = length (ptable m) \<and> on_cpu c (wakeup1_proc p m) = on_cpu c m"
  by (simp add: wakeup1_proc_def split: option.splits) (simp add: wakeup1_def)

lemma wakeup1_proc_nth:
  assumes "j < length (ptable m)"
  shows "ptable (wakeup1_proc p m) ! j = adopted cur p False True (ptable m ! j)"
  using assms by (cases p) (simp_all add: wakeup1_proc_def wakeup1_def adopted_def)

text \<open>The machine at the moment \<open>exit\<close> gives up the CPU.\<close>

definition exited :: "nat \<Rightarrow> nat \<Rightarrow> mach \<Rightarrow> mach" where
  "exited c cur m = set_proc cur (\<lambda>p. p\<lparr>pstate := ZOMBIE\<rparr>)
     (fold (reparent cur) [0..<length (ptable m)]
        (wakeup1_proc (parent (ptable m ! cur)) (take_lock c PtableLock m)))"

lemma exited_nth:
  assumes i: "initproc m = Some ini" "ini \<noteq> cur" and j: "j < length (ptable m)" and cur: "cur < length (ptable m)"
  shows "ptable (exited c cur m) ! j = (let p = adopted cur (Some ini) True
      (\<exists>k < length (ptable m). parent (ptable m ! k) = Some cur \<and> pstate (ptable m ! k) = ZOMBIE)
      (adopted cur (parent (ptable m ! cur)) False True (ptable m ! j))
     in if j = cur then p\<lparr>pstate := ZOMBIE\<rparr> else p)"
proof -
  let ?p = "parent (ptable m ! cur)" and ?n = "length (ptable m)"
  let ?b = "wakeup1_proc ?p (take_lock c PtableLock m)"
  have tb: "ptable (take_lock c PtableLock m) = ptable m" by simp
  note W = wakeup1_proc_machine[of ?p "take_lock c PtableLock m" c]
  have ini: "initproc ?b = Some ini" "initproc ?b \<noteq> Some cur"
    using W i by (simp_all add: take_lock_def set_lock_def pushed_def)
  have len: "length (ptable ?b) = ?n" using W tb by simp
  have b: "ptable ?b ! k = adopted cur ?p False True (ptable m ! k)" if "k < ?n" for k
    using wakeup1_proc_nth[of k "take_lock c PtableLock m" ?p cur] that tb by simp
  have "ptable (fold (reparent cur) [0..<?n] ?b) ! j = adopted cur (Some ini) True
      (\<exists>k < ?n. parent (ptable m ! k) = Some cur \<and> pstate (ptable m ! k) = ZOMBIE)
      (adopted cur ?p False True (ptable m ! j))"
    using reparent_all[OF ini(2), of ?n j] len j ini(1) b by (simp add: adopted_fields cong: conj_cong)
  moreover have "length (ptable (fold (reparent cur) [0..<?n] ?b)) = ?n"
    using reparent_all[OF ini(2), of ?n cur] len cur by simp
  ultimately show ?thesis using cur unfolding exited_def Let_def
    by (cases "j = cur") (simp_all add: nth_list_update)
qed

lemma exited_sched:
  assumes r: "running c cur m" and n: "ncli (cpus m ! c) = 0"
  shows "sched (exited c cur m) = Switch (exited c cur m)" and "held_by c PtableLock (exited c cur m)"
proof -
  let ?b = "wakeup1_proc (parent (ptable m ! cur)) (take_lock c PtableLock m)"
  have c: "on_cpu c m" and cur: "cur < length (ptable m)" "cproc (cpus m ! c) = Some cur"
    using r by (simp_all add: running_def)
  note W = wakeup1_proc_machine[of "parent (ptable m ! cur)" "take_lock c PtableLock m" c]
  note R = reparent_machine[of cur "[0..<length (ptable m)]" ?b c]
  have len: "length (ptable (fold (reparent cur) js ?b)) = length (ptable m)" for js
  proof -
    have "length (ptable (fold (reparent cur) js x)) = length (ptable x)" for x
      by (induction js arbitrary: x) (simp_all add: reparent_keeps)
    then show ?thesis using W by simp
  qed
  have "running c cur (exited c cur m)"
    using c cur W R len on_cpu_take_lock[OF c, of PtableLock]
    by (simp add: exited_def running_def on_cpuD) (simp add: set_proc_def on_cpuD)
  moreover show h: "held_by c PtableLock (exited c cur m)"
    using W R take_lock_held[of c PtableLock m] by (simp add: exited_def held_by_def set_proc_def)
  moreover have "ncli (cpus (exited c cur m) ! c) = 1"
    using W R c n by (simp add: exited_def set_proc_def on_cpuD)
  moreover have "pstate (ptable (exited c cur m) ! cur) \<noteq> RUNNING"
    using cur len by (simp add: exited_def nth_list_update)
  ultimately show "sched (exited c cur m) = Switch (exited c cur m)" by (rule sched_switches)
qed

lemma exit_zombie_eq:
  assumes "running c cur (kmach s)" and "lock_free PtableLock (kmach s)" and "ncli (cpus (kmach s) ! c) = 0"
  shows "exit_zombie cur s = Switch (set_kmach (exited c cur (kmach s)) s)"
proof -
  have c: "on_cpu c (kmach s)" using assms(1) by (simp add: running_def)
  let ?z = "exited c cur (kmach s)"
  have "on_mach sched (set_kmach ?z s) = Switch (set_kmach ?z s)"
    using on_mach_Switch[of sched "set_kmach ?z s" ?z] exited_sched(1)[OF assms(1,3)] by simp
  then show ?thesis
    using k_acquire[OF c assms(2)] wakeup1_proc_machine[of "parent (procs s ! cur)" "take_lock c PtableLock (kmach s)" c]
    unfolding exited_def by (simp add: exit_zombie_def procs_def kproc_def kset_proc_def Let_def)
qed

text \<open>C25: An exiting process leaves a consistent process tree: it ends as a zombie that has given up the CPU
  for good, every child it had belongs to \<open>initproc\<close> and no other parent link changed, its own
  parent is awake if it was sleeping in \<open>wait\<close>, and so is \<open>initproc\<close> if it was handed a zombie.\<close>

theorem exit_hands_children_to_init:
  assumes "running c cur (kmach s)" and "lock_free PtableLock (kmach s)" and "ncli (cpus (kmach s) ! c) = 0"
    and "initproc (kmach s) = Some ini" and "ini \<noteq> cur" and "ini < length (procs s)"
  shows "\<exists>s'. exit_zombie cur s = Switch s' \<and> pstate (procs s' ! cur) = ZOMBIE \<and>
    held_by c PtableLock (kmach s') \<and>
    (\<forall>j < length (procs s). parent (procs s' ! j) =
       (if parent (procs s ! j) = Some cur then Some ini else parent (procs s ! j))) \<and>
    (\<forall>j < length (procs s). j \<noteq> cur \<and> parent (procs s ! cur) = Some j \<and> pchan (procs s ! j) = Some (ChProc j) \<longrightarrow>
       pstate (procs s' ! j) \<noteq> SLEEPING) \<and>
    ((\<exists>j < length (procs s). parent (procs s ! j) = Some cur \<and> pstate (procs s ! j) = ZOMBIE) \<and>
       pchan (procs s ! ini) = Some (ChProc ini) \<longrightarrow> pstate (procs s' ! ini) \<noteq> SLEEPING)"
proof -
  let ?z = "exited c cur (kmach s)"
  have cur: "cur < length (procs s)" using assms(1) by (simp add: running_def procs_def)
  have t: "ptable ?z ! j = (let p = adopted cur (Some ini) True
      (\<exists>k < length (procs s). parent (procs s ! k) = Some cur \<and> pstate (procs s ! k) = ZOMBIE)
      (adopted cur (parent (procs s ! cur)) False True (procs s ! j))
     in if j = cur then p\<lparr>pstate := ZOMBIE\<rparr> else p)" if "j < length (procs s)" for j
    using exited_nth[OF assms(4,5)] that cur by (simp add: procs_def)
  have "pstate (ptable ?z ! cur) = ZOMBIE" unfolding t[OF cur] Let_def by simp
  moreover have "parent (ptable ?z ! j) = (if parent (procs s ! j) = Some cur then Some ini else parent (procs s ! j))"
    if "j < length (procs s)" for j
    unfolding t[OF that] Let_def by (simp add: adopted_fields)
  moreover have "pstate (ptable ?z ! j) \<noteq> SLEEPING" if "j < length (procs s)" "j \<noteq> cur"
    "parent (procs s ! cur) = Some j" "pchan (procs s ! j) = Some (ChProc j)" for j
    unfolding t[OF that(1)] Let_def using that(2-) by (simp add: adopted_def)
  moreover have "pstate (ptable ?z ! ini) \<noteq> SLEEPING"
    if "\<exists>k < length (procs s). parent (procs s ! k) = Some cur \<and> pstate (procs s ! k) = ZOMBIE"
      "pchan (procs s ! ini) = Some (ChProc ini)"
    unfolding t[OF assms(6)] Let_def using that assms(5) by (simp add: adopted_def)
  moreover have "procs (set_kmach ?z s) = ptable ?z" by (simp add: procs_def)
  ultimately show ?thesis
    using exit_zombie_eq[OF assms(1-3)] exited_sched(2)[OF assms(1,3)]
    by (intro exI[of _ "set_kmach ?z s"]) auto
qed

theorem exit_hands_children_to_init_witness:
  "\<exists>s'. exit_zombie 1 (quiet_kernel family_mach) = Switch s' \<and> pstate (procs s' ! 1) = ZOMBIE \<and>
     parent (procs s' ! 2) = Some 0 \<and> pstate (procs s' ! 0) \<noteq> SLEEPING"
proof -
  let ?s = "quiet_kernel family_mach"
  have p: "procs ?s = ptable family_mach" by (simp add: procs_def)
  have "running 0 1 (kmach ?s)" "lock_free PtableLock (kmach ?s)" "ncli (cpus (kmach ?s) ! 0) = 0"
    "initproc (kmach ?s) = Some 0" "(0 :: nat) \<noteq> 1" "0 < length (procs ?s)"
    using family_running by (simp_all add: family_table p)
  from exit_hands_children_to_init[OF this] obtain s' where s': "exit_zombie 1 ?s = Switch s'"
      "pstate (procs s' ! 1) = ZOMBIE"
      "\<forall>j < length (procs ?s). parent (procs s' ! j) =
         (if parent (procs ?s ! j) = Some 1 then Some 0 else parent (procs ?s ! j))"
      "(\<exists>j < length (procs ?s). parent (procs ?s ! j) = Some 1 \<and> pstate (procs ?s ! j) = ZOMBIE) \<and>
         pchan (procs ?s ! 0) = Some (ChProc 0) \<longrightarrow> pstate (procs s' ! 0) \<noteq> SLEEPING"
    by blast
  moreover have "\<exists>j < length (procs ?s). parent (procs ?s ! j) = Some 1 \<and> pstate (procs ?s ! j) = ZOMBIE"
    unfolding p by (intro exI[of _ 2]) (simp add: family_table)
  ultimately show ?thesis by (simp add: p family_table)
qed

end
