(* ===== verification/Post.thy ===== *)
theory Post
  imports Vm
begin

text \<open>
  Postconditions.  \<open>post P r\<close> says that the outcome \<open>r\<close>, if it has a state, has one with \<open>P\<close>.  The
  rules follow the shape of the code, so that an invariant is proved for a function by looking only
  at the steps that could break it.  The locale \<open>lock_inv\<close> is the contract of an observation of the
  machine that locks and the interrupt flag do not touch; every lock operation, the page allocator
  and every page table operation keep it.
\<close>

definition post :: "('s \<Rightarrow> bool) \<Rightarrow> ('a, 's) res \<Rightarrow> bool" where
  "post P r \<longleftrightarrow> (case r of Ok a t \<Rightarrow> P t | Panic m \<Rightarrow> True | Switch t \<Rightarrow> P t | Spin l t \<Rightarrow> P t | Fault m \<Rightarrow> True)"

named_theorems post_intro \<open>rules for the shape of a program\<close>
named_theorems post_ops \<open>operations that keep the invariant\<close>

lemma post_simps [simp]:
  "post P (Ok a t) \<longleftrightarrow> P t" "post P (Panic m)" "post P (Switch t) \<longleftrightarrow> P t"
  "post P (Spin l t) \<longleftrightarrow> P t" "post P (Fault m)"
  by (simp_all add: post_def)

lemma postD: "post P r \<Longrightarrow> r = Ok a t \<Longrightarrow> P t" "post P r \<Longrightarrow> r = Switch t \<Longrightarrow> P t"
  by auto

lemma post_mono: "post P r \<Longrightarrow> (\<And>t. P t \<Longrightarrow> Q t) \<Longrightarrow> post Q r"
  by (cases r) auto

lemma post_call [post_intro]:
  "post P r \<Longrightarrow> (\<And>a s. P s \<Longrightarrow> post P (f a s)) \<Longrightarrow> post P (call r f)"
  by (cases r) auto

lemma post_if [post_intro]:
  "(b \<Longrightarrow> post P r) \<Longrightarrow> (\<not> b \<Longrightarrow> post P r') \<Longrightarrow> post P (if b then r else r')"
  by simp

lemma post_option [post_intro]:
  "(y = None \<Longrightarrow> post P r) \<Longrightarrow> (\<And>i. y = Some i \<Longrightarrow> post P (f i)) \<Longrightarrow> post P (case y of None \<Rightarrow> r | Some i \<Rightarrow> f i)"
  by (cases y) auto

lemma post_prod [post_intro]:
  "(\<And>a b. y = (a, b) \<Longrightarrow> post P (f a b)) \<Longrightarrow> post P (case y of (a, b) \<Rightarrow> f a b)"
  by (cases y) auto

lemma post_prod_state [post_intro]:
  "(\<And>a b. y = (a, b) \<Longrightarrow> post P (f a b s)) \<Longrightarrow> post P ((case y of (a, b) \<Rightarrow> f a b) s)"
  by (cases y) auto

lemma post_nat [post_intro]:
  "post P r \<Longrightarrow> (\<And>k. n = Suc k \<Longrightarrow> post P (f k)) \<Longrightarrow> post P (case n of 0 \<Rightarrow> r | Suc k \<Rightarrow> f k)"
  by (cases n) auto

lemma post_for_each [post_intro]:
  "(\<And>y s. P s \<Longrightarrow> post P (f y s)) \<Longrightarrow> P s \<Longrightarrow> post P (for_each f ys s)"
  by (induction ys arbitrary: s) (auto intro: post_call)

lemma post_zoom:
  assumes "post Q (f (get s))" and "\<And>t. Q t \<Longrightarrow> P (put (\<lambda>_. t) s)"
  shows "post P (zoom get put f s)"
  using assms by (cases "f (get s)") (simp_all add: zoom_def)

section \<open>Invariants that do not depend on locks\<close>

locale lock_inv =
  fixes P :: "mach \<Rightarrow> bool"
  assumes cpu [simp]: "P (set_cpu c f m) = P m"
    and lock [simp]: "P (set_lock l g m) = P m"
    and slock [simp]: "P (set_slock k h m) = P m"
    and flag [simp]: "P (m\<lparr>eflags_if := b\<rparr>) = P m"
begin

lemma mycpu_post [post_ops]: "P m \<Longrightarrow> post P (mycpu m)"
  by (auto simp: mycpu_def intro!: post_intro)

lemma cpuid_post [post_ops]: "P m \<Longrightarrow> post P (cpuid m)"
  by (auto simp: cpuid_def intro!: post_ops)

lemma pushcli_post [post_ops]: "P m \<Longrightarrow> post P (pushcli m)"
  by (auto simp: pushcli_def Let_def intro!: post_intro post_ops)

lemma popcli_post [post_ops]: "P m \<Longrightarrow> post P (popcli m)"
  by (auto simp: popcli_def Let_def intro!: post_intro post_ops)

lemma holding_post [post_ops]: "P m \<Longrightarrow> post P (holding l m)"
  by (auto simp: holding_def Let_def intro!: post_intro post_ops)

lemma acquire_post [post_ops]: "P m \<Longrightarrow> post P (acquire l m)"
  by (auto simp: acquire_def Let_def intro!: post_intro post_ops)

lemma release_post [post_ops]: "P m \<Longrightarrow> post P (release l m)"
  by (auto simp: release_def Let_def intro!: post_intro post_ops)

lemma initlock_post [post_ops]: "P m \<Longrightarrow> post P (initlock l n m)"
  by (simp add: initlock_def)

lemma initsleeplock_post [post_ops]: "P m \<Longrightarrow> post P (initsleeplock l n m)"
  by (auto simp: initsleeplock_def intro!: post_intro post_ops)

lemma myproc_post [post_ops]: "P m \<Longrightarrow> post P (myproc m)"
  by (auto simp: myproc_def Let_def intro!: post_intro post_ops)

lemma curproc_post [post_ops]: "P m \<Longrightarrow> post P (curproc m)"
  by (auto simp: curproc_def intro!: post_intro post_ops)

lemma sched_post [post_ops]: "P m \<Longrightarrow> post P (sched m)"
  by (auto simp: sched_def intro!: post_intro post_ops)

lemma holdingsleep_post [post_ops]: "P m \<Longrightarrow> post P (holdingsleep l m)"
  by (auto simp: holdingsleep_def Let_def intro!: post_intro post_ops)

text \<open>The allocator.\<close>

lemma on_km_post [post_intro]: "post P (f (km s)) \<Longrightarrow> post (\<lambda>s. P (km s)) (on_km f s)"
  by (rule post_zoom) auto

lemma kfree_post [post_ops]: "P (km s) \<Longrightarrow> post (\<lambda>s. P (km s)) (kfree v s)"
  by (auto simp: kfree_def kfree_insert_def Let_def intro!: post_intro post_ops)

lemma kalloc_post [post_ops]: "P (km s) \<Longrightarrow> post (\<lambda>s. P (km s)) (kalloc s)"
  by (auto simp: kalloc_def Let_def intro!: post_intro post_ops)

lemma incrementRefCount_post [post_ops]: "P (km s) \<Longrightarrow> post (\<lambda>s. P (km s)) (incrementRefCount v s)"
  by (auto simp: incrementRefCount_def Let_def intro!: post_intro post_ops)

lemma getNumFreePages_post [post_ops]: "P (km s) \<Longrightarrow> post (\<lambda>s. P (km s)) (getNumFreePages s)"
  by (auto simp: getNumFreePages_def intro!: post_intro post_ops)

text \<open>Page tables.\<close>

abbreviation V :: "vst \<Rightarrow> bool" where "V s \<equiv> P (km (vk s))"

lemma V_set [simp]: "V (set_mem f s) = V s" "V (wr32 a w s) = V s" "V (lcr3 a s) = V s"
  by (simp_all add: set_mem_def wr32_def lcr3_def)

lemma on_vk_post [post_intro]: "post (\<lambda>s. P (km s)) (f (vk s)) \<Longrightarrow> post V (on_vk f s)"
  by (rule post_zoom) auto

lemma walkpgdir_post [post_ops]: "V s \<Longrightarrow> post V (walkpgdir d va b s)"
  by (auto simp: walkpgdir_def Let_def intro!: post_intro post_ops)

lemma mappages_from_post: "V s \<Longrightarrow> post V (mappages_from n d a pa perm s)"
proof (induction n arbitrary: a pa s)
  case 0
  then show ?case by (subst mappages_from.simps) (auto simp: Let_def intro!: post_intro post_ops)
next
  case (Suc n)
  then show ?case by (subst mappages_from.simps) (auto simp: Let_def intro!: post_intro post_ops)
qed

lemma mappages_post [post_ops]: "V s \<Longrightarrow> post V (mappages d va sz pa perm s)"
  by (simp add: mappages_def Let_def mappages_from_post)

lemma deallocuvm_from_post: "V s \<Longrightarrow> post V (deallocuvm_from d a oldsz s)"
proof (induction "2 ^ 32 - unat a" arbitrary: a s rule: less_induct)
  case less
  have "2 ^ 32 - unat (a' + PGSIZE) < 2 ^ 32 - unat a" if "\<not> a' + PGSIZE \<le> a" for a'
    using that unat_lt32[of a] by (auto simp: not_le word_less_nat_alt intro!: diff_less_mono2)
  then show ?case
    using less by (subst deallocuvm_from.simps) (auto simp: Let_def intro!: post_intro post_ops)
qed

lemma deallocuvm_post [post_ops]: "V s \<Longrightarrow> post V (deallocuvm d oldsz newsz s)"
  by (auto simp: deallocuvm_def intro!: post_intro deallocuvm_from_post)

lemma freevm_post [post_ops]: "V s \<Longrightarrow> post V (freevm d s)"
  by (auto simp: freevm_def Let_def intro!: post_intro post_ops)

lemma setupkvm_from_post: "V s \<Longrightarrow> post V (setupkvm_from d ks s)"
proof (induction ks arbitrary: s)
  case (Cons k ks)
  then show ?case by (cases k) (auto intro!: post_intro post_ops)
qed simp

lemma setupkvm_post [post_ops]: "V s \<Longrightarrow> post V (setupkvm s)"
  by (auto simp: setupkvm_def Let_def intro!: post_intro post_ops setupkvm_from_post)

lemma copyuvm_from_post: "V s \<Longrightarrow> post V (copyuvm_from d pgdir i sz s)"
proof (induction "2 ^ 32 - unat i" arbitrary: i s rule: less_induct)
  case less
  have "2 ^ 32 - unat (i + PGSIZE) < 2 ^ 32 - unat i" if "\<not> i + PGSIZE \<le> i"
    using that unat_lt32[of i] by (auto simp: not_le word_less_nat_alt intro!: diff_less_mono2)
  then show ?case
    using less by (subst copyuvm_from.simps) (auto simp: Let_def intro!: post_intro post_ops)
qed

lemma copyuvm_post [post_ops]: "V s \<Longrightarrow> post V (copyuvm d sz s)"
  by (auto simp: copyuvm_def intro!: post_intro post_ops copyuvm_from_post)

lemma allocuvm_from_post: "V s \<Longrightarrow> post V (allocuvm_from d a oldsz newsz s)"
proof (induction "2 ^ 32 - unat a" arbitrary: a s rule: less_induct)
  case less
  have "2 ^ 32 - unat (a + PGSIZE) < 2 ^ 32 - unat a" if "\<not> KERNBASE \<le> newsz" "a < newsz"
  proof -
    have b: "unat a < unat KERNBASE" using that by (simp add: word_less_nat_alt word_le_nat_alt)
    then have "unat (a + PGSIZE) = unat a + unat PGSIZE"
      by (intro unat_add_small) (simp add: mem_consts)
    then show ?thesis using b by (simp add: mem_consts)
  qed
  then show ?case
    using less by (subst allocuvm_from.simps) (auto simp: Let_def intro!: post_intro post_ops)
qed

lemma allocuvm_post [post_ops]: "V s \<Longrightarrow> post V (allocuvm d oldsz newsz s)"
  by (auto simp: allocuvm_def intro!: allocuvm_from_post)

lemma inituvm_post [post_ops]: "V s \<Longrightarrow> post V (inituvm d i sz s)"
  by (auto simp: inituvm_def Let_def intro!: post_intro post_ops)

lemma clearpteu_post [post_ops]: "V s \<Longrightarrow> post V (clearpteu d va s)"
  by (auto simp: clearpteu_def intro!: post_intro post_ops)

lemma uva2ka_post [post_ops]: "V s \<Longrightarrow> post V (uva2ka d va s)"
  by (auto simp: uva2ka_def intro!: post_intro post_ops)

lemma switchuvm_post [post_ops]: "V s \<Longrightarrow> post V (switchuvm p s)"
  by (auto simp: switchuvm_def Let_def intro!: post_intro post_ops)

lemma switchkvm_post [post_ops]: "V s \<Longrightarrow> post V (switchkvm s)"
  by (simp add: switchkvm_def)

lemma handle_pgflt_post [post_ops]: "V s \<Longrightarrow> post V (handle_pgflt a s)"
  by (auto simp: handle_pgflt_def handle_pgflt_helper_def Let_def intro!: post_intro post_ops)

end

text \<open>The process table, the next pid and \<open>initproc\<close>: locks do not touch them.\<close>

definition tab :: "mach \<Rightarrow> proc list \<times> int \<times> nat option" where
  "tab m = (ptable m, nextpid m, initproc m)"

interpretation tab_inv: lock_inv "\<lambda>m. tab m = x" for x
  by unfold_locales (simp_all add: tab_def set_defs)

end
