(* ===== verification/ProcInv.thy ===== *)
theory ProcInv
  imports Trap Post ProcFacts
begin

text \<open>
  Invariants of the process table over the whole kernel.  The locale \<open>proc_inv\<close> extends \<open>lock_inv\<close> by
  what the code of proc.c may do to the table: change fields other than the pid, wake sleepers, give
  a slot the next pid, and free a slot.  Every function of the kernel keeps such an invariant, up to
  \<open>trap\<close>, the way in.
\<close>

section \<open>The contract\<close>

text \<open>Device drivers are functions the device switch holds; these keep the invariant.\<close>

definition devs_keep :: "(mach \<Rightarrow> bool) \<Rightarrow> devsw \<Rightarrow> bool" where
  "devs_keep P devs \<longleftrightarrow> (\<forall>n s. P (bm (lb (fl s))) \<longrightarrow>
     (\<forall>f. dev_read (devs n) = Some f \<longrightarrow> (\<forall>i k. post (\<lambda>s. P (bm (lb (fl s)))) (f i k s))) \<and>
     (\<forall>f. dev_write (devs n) = Some f \<longrightarrow> (\<forall>i b k. post (\<lambda>s. P (bm (lb (fl s)))) (f i b k s))))"

locale proc_inv = lock_inv +
  assumes wake: "P m \<Longrightarrow> P (wakeup1 ch m)"
    and field: "(\<And>p. pid (f p) = pid p) \<Longrightarrow> P m \<Longrightarrow> P (set_proc i f m)"
    and fresh: "i < length (ptable m) \<Longrightarrow> P m \<Longrightarrow>
      P ((set_proc i (\<lambda>p. p\<lparr>pstate := EMBRYO, pid := nextpid m\<rparr>) m)\<lparr>nextpid := nextpid m + 1\<rparr>)"
    and freed: "P m \<Longrightarrow> P (set_proc i (\<lambda>p. p\<lparr>pid := 0, parent := None, pname := [], killed := False, pstate := UNUSED\<rparr>) m)"
    and inits: "P m \<Longrightarrow> P (m\<lparr>initproc := y\<rparr>)"

section \<open>Sleeping, waking and the disk\<close>

context proc_inv
begin

lemma sleep_post [post_ops]: "P m \<Longrightarrow> post P (sleep ch l m)"
  by (auto simp: sleep_def intro!: post_intro post_ops field)

lemma sleep_resume_post [post_ops]: "P m \<Longrightarrow> post P (sleep_resume l i m)"
  by (auto simp: sleep_resume_def Let_def intro!: post_intro post_ops field)

lemma wakeup_post [post_ops]: "P m \<Longrightarrow> post P (wakeup ch m)"
  by (auto simp: wakeup_def intro!: post_intro post_ops wake)

lemma acquiresleep_post [post_ops]: "P m \<Longrightarrow> post P (acquiresleep l m)"
  by (auto simp: acquiresleep_def intro!: post_intro post_ops)

lemma releasesleep_post [post_ops]: "P m \<Longrightarrow> post P (releasesleep l m)"
  by (auto simp: releasesleep_def intro!: post_intro post_ops)

abbreviation B :: "bst \<Rightarrow> bool" where "B s \<equiv> P (bm s)"
abbreviation L :: "lst \<Rightarrow> bool" where "L s \<equiv> P (bm (lb s))"
abbreviation F :: "fss \<Rightarrow> bool" where "F s \<equiv> P (bm (lb (fl s)))"

lemma on_bm_post [post_intro]: "post P (f (bm s)) \<Longrightarrow> post B (on_bm f s)"
  by (rule post_zoom) auto

lemma on_lb_post [post_intro]: "post B (f (lb s)) \<Longrightarrow> post L (on_lb f s)"
  by (rule post_zoom) auto

lemma on_fl_post [post_intro]: "post L (f (fl s)) \<Longrightarrow> post F (on_fl f s)"
  by (rule post_zoom) auto

lemma B_set [simp]: "B (set_buf i f s) = B s" "L (set_data i d l) = L l" "F (set_fdata i d t) = F t"
    "F (set_inode i g t) = F t"
  by (simp_all add: set_buf_def set_data_def set_fdata_def set_inode_def)

lemma iderw_post [post_ops]: "B s \<Longrightarrow> post B (iderw i s)"
  by (auto simp: iderw_def Let_def intro!: post_intro post_ops)

lemma bget_post [post_ops]: "B s \<Longrightarrow> post B (bget d n s)"
  by (auto simp: bget_def Let_def intro!: post_intro post_ops)

lemma bread_post [post_ops]: "B s \<Longrightarrow> post B (bread d n s)"
  by (auto simp: bread_def intro!: post_intro post_ops)

lemma bwrite_post [post_ops]: "B s \<Longrightarrow> post B (bwrite i s)"
  by (auto simp: bwrite_def intro!: post_intro post_ops)

lemma brelse_post [post_ops]: "B s \<Longrightarrow> post B (brelse i s)"
  by (auto simp: brelse_def Let_def intro!: post_intro post_ops)

lemma readsb_post [post_ops]: "B s \<Longrightarrow> post B (readsb d s)"
  by (auto simp: readsb_def Let_def intro!: post_intro post_ops)

section \<open>The log\<close>

lemma install_trans_post [post_ops]: "L s \<Longrightarrow> post L (install_trans s)"
  by (auto simp: install_trans_def install_block_def Let_def intro!: post_intro post_ops)

lemma read_head_post [post_ops]: "L s \<Longrightarrow> post L (read_head s)"
  by (auto simp: read_head_def Let_def fault_if_def intro!: post_intro post_ops)

lemma write_head_post [post_ops]: "L s \<Longrightarrow> post L (write_head s)"
  by (auto simp: write_head_def Let_def intro!: post_intro post_ops)

lemma write_log_post [post_ops]: "L s \<Longrightarrow> post L (write_log s)"
  by (auto simp: write_log_def log_block_def Let_def intro!: post_intro post_ops)

lemma recover_from_log_post [post_ops]: "L s \<Longrightarrow> post L (recover_from_log s)"
  by (auto simp: recover_from_log_def intro!: post_intro post_ops)

lemma initlog_post [post_ops]: "L s \<Longrightarrow> post L (initlog d s)"
  by (auto simp: initlog_def intro!: post_intro post_ops)

lemma commit_post [post_ops]: "L s \<Longrightarrow> post L (commit s)"
  by (auto simp: commit_def intro!: post_intro post_ops)

lemma begin_op_post [post_ops]: "L s \<Longrightarrow> post L (begin_op s)"
  by (auto simp: begin_op_def begin_op_test_def intro!: post_intro post_ops)

lemma end_op_post [post_ops]: "L s \<Longrightarrow> post L (end_op s)"
  by (auto simp: end_op_def Let_def intro!: post_intro post_ops)

lemma log_write_post [post_ops]: "L s \<Longrightarrow> post L (log_write b s)"
  by (auto simp: log_write_def Let_def intro!: post_intro post_ops)

section \<open>The file system\<close>

lemma bzero_post [post_ops]: "F s \<Longrightarrow> post F (bzero d n s)"
  by (auto simp: bzero_def Let_def intro!: post_intro post_ops)

lemma balloc_from_post: "F s \<Longrightarrow> post F (balloc_from d bs s)"
  by (induction bs arbitrary: s) (auto simp: Let_def intro!: post_intro post_ops)

lemma balloc_post [post_ops]: "F s \<Longrightarrow> post F (balloc d s)"
  by (simp add: balloc_def balloc_from_post)

lemma bfree_post [post_ops]: "F s \<Longrightarrow> post F (bfree d b s)"
  by (auto simp: bfree_def Let_def intro!: post_intro post_ops)

lemma iinit_post [post_ops]: "F s \<Longrightarrow> post F (iinit d s)"
  by (auto simp: iinit_def intro!: post_intro post_ops)

lemma iget_post [post_ops]: "F s \<Longrightarrow> post F (iget d n s)"
  by (auto simp: iget_def Let_def intro!: post_intro post_ops)

lemma ialloc_from_post: "F s \<Longrightarrow> post F (ialloc_from d ty ns s)"
  by (induction ns arbitrary: s) (auto simp: Let_def intro!: post_intro post_ops)

lemma ialloc_post [post_ops]: "F s \<Longrightarrow> post F (ialloc d ty s)"
  by (simp add: ialloc_def ialloc_from_post)

lemma iupdate_post [post_ops]: "F s \<Longrightarrow> post F (iupdate i s)"
  by (auto simp: iupdate_def Let_def intro!: post_intro post_ops)

lemma idup_post [post_ops]: "F s \<Longrightarrow> post F (idup i s)"
  by (auto simp: idup_def Let_def intro!: post_intro post_ops)

lemma ilock_post [post_ops]: "F s \<Longrightarrow> post F (ilock i s)"
  by (auto simp: ilock_def Let_def intro!: post_intro post_ops)

lemma iunlock_post [post_ops]: "F s \<Longrightarrow> post F (iunlock i s)"
  by (auto simp: iunlock_def intro!: post_intro post_ops)

lemma bmap_post [post_ops]: "F s \<Longrightarrow> post F (bmap i n s)"
  by (auto simp: bmap_def Let_def intro!: post_intro post_ops)

lemma itrunc_post [post_ops]: "F s \<Longrightarrow> post F (itrunc i s)"
  by (auto simp: itrunc_def Let_def intro!: post_intro post_ops)

lemma iput_post [post_ops]: "F s \<Longrightarrow> post F (iput i s)"
  by (auto simp: iput_def Let_def intro!: post_intro post_ops)

lemma iunlockput_post [post_ops]: "F s \<Longrightarrow> post F (iunlockput i s)"
  by (auto simp: iunlockput_def intro!: post_intro post_ops)

lemma readi_loop_post: "F s \<Longrightarrow> post F (readi_loop i off left acc s)"
proof (induction left arbitrary: off acc s rule: less_induct)
  case (less left)
  then show ?case by (subst readi_loop.simps) (auto simp: Let_def BSIZE_def intro!: post_intro post_ops)
qed

lemma readi_post [post_ops]: "devs_keep P devs \<Longrightarrow> F s \<Longrightarrow> post F (readi devs i off n s)"
  by (auto simp: readi_def Let_def devs_keep_def intro!: post_intro readi_loop_post)

lemma writei_loop_post: "F s \<Longrightarrow> post F (writei_loop i src off left s)"
proof (induction left arbitrary: src off s rule: less_induct)
  case (less left)
  then show ?case by (subst writei_loop.simps) (auto simp: Let_def BSIZE_def intro!: post_intro post_ops)
qed

lemma writei_post [post_ops]: "devs_keep P devs \<Longrightarrow> F s \<Longrightarrow> post F (writei devs i src off n s)"
  by (auto simp: writei_def Let_def devs_keep_def intro!: post_intro post_ops writei_loop_post)

lemma dirlookup_from_post: "devs_keep P devs \<Longrightarrow> F s \<Longrightarrow> post F (dirlookup_from devs dp nm offs s)"
  by (induction offs arbitrary: s) (auto simp: Let_def intro!: post_intro post_ops)

lemma dirlookup_post [post_ops]: "devs_keep P devs \<Longrightarrow> F s \<Longrightarrow> post F (dirlookup devs dp nm s)"
  by (auto simp: dirlookup_def intro!: dirlookup_from_post)

lemma empty_dirent_post: "devs_keep P devs \<Longrightarrow> F s \<Longrightarrow> post F (empty_dirent devs dp offs fin s)"
  by (induction offs arbitrary: s) (auto simp: Let_def intro!: post_intro post_ops)

lemma dirlink_post [post_ops]: "devs_keep P devs \<Longrightarrow> F s \<Longrightarrow> post F (dirlink devs dp nm n s)"
  by (auto simp: dirlink_def Let_def intro!: post_intro post_ops empty_dirent_post)

lemma namex_loop_post: "devs_keep P devs \<Longrightarrow> F s \<Longrightarrow> post F (namex_loop devs path npar nm ip s)"
proof (induction "length path" arbitrary: path nm ip s rule: less_induct)
  case less
  then show ?case
    by (subst namex_loop.simps) (auto intro!: post_intro post_ops dest!: skipelem_shorter)
qed

lemma namex_post [post_ops]: "devs_keep P devs \<Longrightarrow> F s \<Longrightarrow> post F (namex devs path npar s)"
  by (auto simp: namex_def intro!: post_intro post_ops namex_loop_post)

lemma namei_post [post_ops]: "devs_keep P devs \<Longrightarrow> F s \<Longrightarrow> post F (namei devs path s)"
  by (auto simp: namei_def intro!: post_intro post_ops)

lemma nameiparent_post [post_ops]: "devs_keep P devs \<Longrightarrow> F s \<Longrightarrow> post F (nameiparent devs path s)"
  by (auto simp: nameiparent_def intro!: post_intro post_ops)

section \<open>Pipes and the console\<close>

abbreviation Q :: "pst \<Rightarrow> bool" where "Q s \<equiv> P (km (pk s))"

lemma on_pk_post [post_intro]: "post (\<lambda>s. P (km s)) (f (pk s)) \<Longrightarrow> post Q (zoom pk pk_update f s)"
  by (rule post_zoom) auto

lemma Q_set [simp]: "Q (set_pipe p f s) = Q s"
  by (simp add: set_pipe_def)

lemma pipeclose_post [post_ops]: "Q s \<Longrightarrow> post Q (pipeclose p w s)"
  by (auto simp: pipeclose_def intro!: post_intro post_ops)

lemma proc_killed_post [post_ops]: "Q s \<Longrightarrow> post Q (proc_killed s)"
  by (auto simp: proc_killed_def intro!: post_intro post_ops)

lemma pipewrite_loop_post: "Q s \<Longrightarrow> post Q (pipewrite_loop p bs n s)"
  by (induction bs arbitrary: s) (auto intro!: post_intro post_ops)

lemma pipewrite_post [post_ops]: "Q s \<Longrightarrow> post Q (pipewrite p b n s)"
  by (auto simp: pipewrite_def intro!: post_intro post_ops pipewrite_loop_post)

lemma piperead_copy_Q: "piperead_copy p k acc s = (bs, t) \<Longrightarrow> Q s \<Longrightarrow> Q t"
  by (induction p k acc s rule: piperead_copy.induct) (auto split: if_splits)

lemma piperead_post [post_ops]: "Q s \<Longrightarrow> post Q (piperead p n s)"
  by (auto simp: piperead_def piperead_loop_def intro!: post_intro post_ops dest: piperead_copy_Q)

lemma on_con_post [post_ops]: "F s \<Longrightarrow> post F (on_con f s)"
  by (cases "f (con s)") (simp_all add: zoom_def)

lemma consolewrite_post [post_ops]: "F s \<Longrightarrow> post F (consolewrite ip b n s)"
  by (auto simp: consolewrite_def intro!: post_intro post_ops)

lemma consoleread_loop_post: "F s \<Longrightarrow> post F (consoleread_loop ip tg n acc s)"
  by (induction n arbitrary: acc s) (auto simp: Let_def intro!: post_intro post_ops)

lemma consoleread_post [post_ops]: "F s \<Longrightarrow> post F (consoleread ip n s)"
  by (auto simp: consoleread_def intro!: post_intro post_ops consoleread_loop_post)

lemma consoleintr_loop_post: "F s \<Longrightarrow> post F (consoleintr_loop cs d s)"
  by (induction cs arbitrary: d s) (auto simp: consoleintr_char_def Let_def intro!: post_intro post_ops)

lemma consoleintr_post [post_ops]: "F s \<Longrightarrow> post F (consoleintr cs s)"
  by (auto simp: consoleintr_def intro!: post_intro post_ops consoleintr_loop_post)

lemma console_devsw_keeps: "devs_keep P console_devsw"
  by (auto simp: devs_keep_def console_devsw_def no_device_def intro: consoleread_post consolewrite_post)

end

section \<open>Files, processes and programs\<close>

context proc_inv
begin

abbreviation K :: "kernel \<Rightarrow> bool" where "K s \<equiv> P (kmach s) \<and> devs_keep P (kdevsw s)"

lemma kdevsw_put [simp]: "kdevsw (put_mach f s) = kdevsw s" "kdevsw (put_vm g s) = kdevsw s"
    "kdevsw (put_pst h s) = kdevsw s"
  by (simp_all add: put_mach_def put_vm_def put_pst_def Let_def)

lemma kmach_set [simp]: "kmach (set_kmem f s) = kmach s" "kmach (set_file i g s) = kmach s"
    "kmach (set_kinode i h s) = kmach s" "kdevsw (set_kmem f s) = kdevsw s" "kdevsw (set_file i g s) = kdevsw s"
    "kdevsw (set_kinode i h s) = kdevsw s" "kdevsw (kset_proc i k s) = kdevsw s"
  by (simp_all add: kmach_def set_kmem_def set_file_def set_kinode_def set_inode_def kset_proc_def)

lemma kmach_upd [simp]: "kmach (s\<lparr>ticks := t\<rparr>) = kmach s" "kmach (s\<lparr>first := b\<rparr>) = kmach s"
    "kmach (s\<lparr>kpipes := p\<rparr>) = kmach s"
  by (simp_all add: kmach_def)

lemma on_mach_post [post_intro]: "post P (f (kmach s)) \<Longrightarrow> K s \<Longrightarrow> post K (on_mach f s)"
  by (rule post_zoom) auto

lemma on_vst_post [post_intro]: "post V (f (get_vm s)) \<Longrightarrow> K s \<Longrightarrow> post K (on_vst f s)"
  by (rule post_zoom) auto

lemma on_fs_post [post_intro]: "post F (f (kfs s)) \<Longrightarrow> K s \<Longrightarrow> post K (on_fs f s)"
  by (rule post_zoom) (auto simp: kmach_def)

lemma kmach_put_pst: "kmach (put_pst (\<lambda>_. t) s) = km (pk t)"
  by (simp add: put_pst_def Let_def)

lemma on_pst_post [post_intro]: "post Q (f (get_pst s)) \<Longrightarrow> K s \<Longrightarrow> post K (on_pst f s)"
  by (rule post_zoom) (auto simp: kmach_put_pst)

lemma kmach_parts [simp]: "bm (lb (fl (kfs s))) = kmach s" "km (pk (get_pst s)) = kmach s"
  by (simp_all add: kmach_def get_pst_def)

lemma P_field [simp]: "(\<And>p. pid (f p) = pid p) \<Longrightarrow> P (kmach s) \<Longrightarrow> P (kmach (kset_proc i f s))"
  by (simp add: kset_proc_def field)

lemma get_user_post [post_ops]: "K s \<Longrightarrow> post K (get_user va s)"
  by (auto simp: get_user_def intro!: post_intro post_ops)

lemma store_user_K: "store_user va b s = Some t \<Longrightarrow> K s \<Longrightarrow> K t"
  by (auto simp: store_user_def split: option.splits prod.splits bool.splits)

lemma put_user_post [post_ops]: "K s \<Longrightarrow> post K (put_user va b s)"
  by (auto simp: put_user_def intro!: post_intro post_ops dest: store_user_K)

lemma get_bytes_post [post_ops]: "K s \<Longrightarrow> post K (get_bytes va n s)"
  by (induction n arbitrary: va s) (auto intro!: post_intro post_ops)

lemma put_bytes_post [post_ops]: "K s \<Longrightarrow> post K (put_bytes va bs s)"
  by (induction bs arbitrary: va s) (auto intro!: post_intro post_ops)

lemma get_word_post [post_ops]: "K s \<Longrightarrow> post K (get_word va s)"
  by (auto simp: get_word_def intro!: post_intro post_ops)

lemma put_word_post [post_ops]: "K s \<Longrightarrow> post K (put_word va w s)"
  by (auto simp: put_word_def intro!: post_ops)

text \<open>file.c\<close>

lemma filealloc_post [post_ops]: "K s \<Longrightarrow> post K (filealloc s)"
  by (auto simp: filealloc_def intro!: post_intro post_ops)

lemma filedup_post [post_ops]: "K s \<Longrightarrow> post K (filedup i s)"
  by (auto simp: filedup_def intro!: post_intro post_ops)

lemma fileclose_post [post_ops]: "K s \<Longrightarrow> post K (fileclose i s)"
  by (auto simp: fileclose_def Let_def intro!: post_intro post_ops)

lemma filestat_post [post_ops]: "K s \<Longrightarrow> post K (filestat i s)"
  by (auto simp: filestat_def Let_def intro!: post_intro post_ops)

lemma fileread_post [post_ops]: "K s \<Longrightarrow> post K (fileread i n s)"
  by (auto simp: fileread_def Let_def intro!: post_intro post_ops)

lemma filewrite_loop_post: "K s \<Longrightarrow> post K (filewrite_loop i ip bs d s)"
proof (induction "length bs" arbitrary: bs d s rule: less_induct)
  case less
  then show ?case
    by (subst filewrite_loop.simps)
      (auto simp: Let_def max_write_def MAXOPBLOCKS_def intro!: post_intro post_ops)
qed

lemma filewrite_post [post_ops]: "K s \<Longrightarrow> post K (filewrite i b n s)"
  by (auto simp: filewrite_def Let_def intro!: post_intro post_ops filewrite_loop_post)

lemma pipealloc_post [post_ops]: "K s \<Longrightarrow> post K (pipealloc s)"
  by (auto simp: pipealloc_def pipealloc_bad_def close_some_def Let_def intro!: post_intro post_ops)

text \<open>proc.c\<close>

lemma find_lt: "find R [0..<n] = Some i \<Longrightarrow> i < n"
  by (auto dest: find_SomeD)

lemma allocproc_fresh:
  assumes "K s" and "i < length (procs s)"
  shows "P ((kmach (kset_proc i (\<lambda>p. p\<lparr>pstate := EMBRYO, pid := nextpid (kmach s)\<rparr>) s))
    \<lparr>nextpid := nextpid (kmach (kset_proc i (\<lambda>p. p\<lparr>pstate := EMBRYO, pid := nextpid (kmach s)\<rparr>) s)) + 1\<rparr>)"
  using fresh[of i "kmach s"] assms by (simp add: procs_def kset_proc_def set_proc_def)

lemma allocproc_post [post_ops]: "K s \<Longrightarrow> post K (allocproc s)"
  by (auto simp: allocproc_def Let_def intro!: post_intro post_ops allocproc_fresh dest!: find_lt)

lemma growproc_post [post_ops]: "K s \<Longrightarrow> post K (growproc n s)"
  by (auto simp: growproc_def Let_def intro!: post_intro post_ops)

lemma fork_post [post_ops]: "K s \<Longrightarrow> post K (fork s)"
  by (auto simp: fork_def fork_file_def Let_def intro!: post_intro post_ops)

lemma wakeup1_proc_P: "P m \<Longrightarrow> P (wakeup1_proc p m)"
  by (auto simp: wakeup1_proc_def wake split: option.splits)

lemma reparent_P: "P m \<Longrightarrow> P (reparent cur j m)"
  by (auto simp: reparent_def Let_def field intro!: wakeup1_proc_P)

lemma fold_reparent_P: "P m \<Longrightarrow> P (fold (reparent cur) js m)"
  by (induction js arbitrary: m) (auto intro: reparent_P)

lemma exit_zombie_post [post_ops]: "K s \<Longrightarrow> post K (exit_zombie cur s)"
  by (auto simp: exit_zombie_def Let_def fold_reparent_P wakeup1_proc_P intro!: post_intro post_ops)

lemma exit_post [post_ops]: "K s \<Longrightarrow> post K (exit s)"
  by (auto simp: exit_def exit_file_def intro!: post_intro post_ops)

lemma reap_post [post_ops]: "K s \<Longrightarrow> post K (reap j s)"
  by (auto simp: reap_def Let_def kset_proc_def intro!: post_intro post_ops freed field)

lemma wait_post [post_ops]: "K s \<Longrightarrow> post K (wait s)"
  by (auto simp: wait_def wait_loop_def Let_def intro!: post_intro post_ops)

lemma yield_post [post_ops]: "K s \<Longrightarrow> post K (yield s)"
  by (auto simp: yield_def intro!: post_intro post_ops)

lemma kill_post [post_ops]: "K s \<Longrightarrow> post K (kill k s)"
  by (auto simp: kill_def Let_def intro!: post_intro post_ops)

text \<open>exec.c\<close>

lemma loaduvm_pages_post: "K s \<Longrightarrow> post K (loaduvm_pages d a ip off sz is s)"
  by (induction "is" arbitrary: s) (auto simp: Let_def intro!: post_intro post_ops)

lemma loaduvm_post [post_ops]: "K s \<Longrightarrow> post K (loaduvm d a ip off sz s)"
  by (auto simp: loaduvm_def intro!: loaduvm_pages_post)

lemma copyout_bytes_post [post_ops]: "K s \<Longrightarrow> post K (copyout_bytes d va bs s)"
proof (induction "length bs" arbitrary: va bs s rule: less_induct)
  case less
  then show ?case
    using page_rest_pos[of va]
    by (subst copyout_bytes.simps) (auto simp: Let_def intro!: post_intro post_ops)
qed

lemma exec_load_post [post_ops]: "K s \<Longrightarrow> post K (exec_load k d ip off sz s)"
  by (induction k arbitrary: off sz s) (auto simp: Let_def intro!: post_intro post_ops)

lemma exec_args_post [post_ops]: "K s \<Longrightarrow> post K (exec_args d n as sp us s)"
  by (induction as arbitrary: n sp us s) (auto simp: Let_def intro!: post_intro post_ops)

lemma exec_bad_post [post_ops]: "K s \<Longrightarrow> post K (exec_bad d ip s)"
  by (auto simp: exec_bad_def intro!: post_intro post_ops)

lemma exec_stack_post [post_ops]: "K s \<Longrightarrow> post K (exec_stack cur path argv e d sz s)"
  by (auto simp: exec_stack_def Let_def intro!: post_intro post_ops)

lemma exec_post [post_ops]: "K s \<Longrightarrow> post K (exec path argv s)"
  by (auto simp: exec_def Let_def intro!: post_intro post_ops)

end

section \<open>System calls and traps\<close>

context proc_inv
begin

lemma or_fail_post [post_intro]: "post K r \<Longrightarrow> (\<And>a s. K s \<Longrightarrow> post K (f a s)) \<Longrightarrow> post K (or_fail r f)"
  unfolding or_fail_def by (rule post_call) (auto intro!: post_intro)

lemma or_end_post [post_intro]: "post K r \<Longrightarrow> (\<And>a s. K s \<Longrightarrow> post K (f a s)) \<Longrightarrow> post K (or_end r f)"
  unfolding or_end_def by (rule post_call) (auto intro!: post_intro post_ops)

lemma fetchint_post [post_ops]: "K s \<Longrightarrow> post K (fetchint a s)"
  by (auto simp: fetchint_def Let_def intro!: post_intro post_ops)

lemma fetchstr_loop_post: "K s \<Longrightarrow> post K (fetchstr_loop a k acc s)"
  by (induction k arbitrary: a acc s) (auto intro!: post_intro post_ops)

lemma fetchstr_post [post_ops]: "K s \<Longrightarrow> post K (fetchstr a s)"
  by (auto simp: fetchstr_def Let_def intro!: post_intro post_ops fetchstr_loop_post)

lemma argint_post [post_ops]: "K s \<Longrightarrow> post K (argint n s)"
  by (auto simp: argint_def intro!: post_intro post_ops)

lemma argptr_post [post_ops]: "K s \<Longrightarrow> post K (argptr n k s)"
  by (auto simp: argptr_def Let_def intro!: post_intro post_ops)

lemma argstr_post [post_ops]: "K s \<Longrightarrow> post K (argstr n s)"
  by (auto simp: argstr_def intro!: post_intro post_ops)

lemma argfd_post [post_ops]: "K s \<Longrightarrow> post K (argfd n s)"
  by (auto simp: argfd_def Let_def intro!: post_intro post_ops)

lemma fdalloc_post [post_ops]: "K s \<Longrightarrow> post K (fdalloc f s)"
  by (auto simp: fdalloc_def intro!: post_intro post_ops)

lemma close_fd_post [post_ops]: "K s \<Longrightarrow> post K (close_fd fd s)"
  by (auto simp: close_fd_def intro!: post_intro post_ops)

lemma fail_end_post [post_ops]: "K s \<Longrightarrow> post K (fail_end s)"
  by (auto simp: fail_end_def intro!: post_intro post_ops)

lemma put_fail_end_post [post_ops]: "K s \<Longrightarrow> post K (put_fail_end ip s)"
  by (auto simp: put_fail_end_def intro!: post_intro post_ops)

lemma sys_fd_post [post_ops]: "K s \<Longrightarrow> post K (sys_dup s)" "K s \<Longrightarrow> post K (sys_read s)"
    "K s \<Longrightarrow> post K (sys_write s)" "K s \<Longrightarrow> post K (sys_close s)" "K s \<Longrightarrow> post K (sys_fstat s)"
  by (auto simp: sys_dup_def sys_read_def sys_write_def sys_close_def sys_fstat_def put_stat_def
      intro!: post_intro post_ops)

lemma link_bad_post [post_ops]: "K s \<Longrightarrow> post K (link_bad ip s)"
  by (auto simp: link_bad_def intro!: post_intro post_ops)

lemma sys_link_post [post_ops]: "K s \<Longrightarrow> post K (sys_link s)"
  by (auto simp: sys_link_def intro!: post_intro post_ops)

lemma isdirempty_from_post: "K s \<Longrightarrow> post K (isdirempty_from dp offs s)"
  by (induction offs arbitrary: s) (auto intro!: post_intro post_ops)

lemma isdirempty_post [post_ops]: "K s \<Longrightarrow> post K (isdirempty dp s)"
  by (auto simp: isdirempty_def intro!: isdirempty_from_post)

lemma unlink_inode_post [post_ops]: "K s \<Longrightarrow> post K (unlink_inode dp ip off s)"
  by (auto simp: unlink_inode_def intro!: post_intro post_ops)

lemma sys_unlink_post [post_ops]: "K s \<Longrightarrow> post K (sys_unlink s)"
  by (auto simp: sys_unlink_def intro!: post_intro post_ops)

lemma create_dots_post [post_ops]: "K s \<Longrightarrow> post K (create_dots dp ip s)"
  by (auto simp: create_dots_def intro!: post_intro post_ops)

lemma create_post [post_ops]: "K s \<Longrightarrow> post K (create path ty mj mn s)"
  by (auto simp: create_def intro!: post_intro post_ops)

lemma open_file_post [post_ops]: "K s \<Longrightarrow> post K (open_file ip om s)"
  by (auto simp: open_file_def intro!: post_intro post_ops)

lemma put_ok_end_post [post_ops]: "K s \<Longrightarrow> post K (put_ok_end ip s)"
  by (auto simp: put_ok_end_def intro!: post_intro post_ops)

lemma sys_open_post [post_ops]: "K s \<Longrightarrow> post K (sys_open s)"
  by (auto simp: sys_open_def intro!: post_intro post_ops)

lemma sys_mk_post [post_ops]: "K s \<Longrightarrow> post K (sys_mkdir s)" "K s \<Longrightarrow> post K (sys_mknod s)"
    "K s \<Longrightarrow> post K (sys_chdir s)"
  by (auto simp: sys_mkdir_def sys_mknod_def sys_chdir_def intro!: post_intro post_ops)

lemma fetch_argv_post: "K s \<Longrightarrow> post K (fetch_argv a k acc s)"
  by (induction k arbitrary: a acc s) (auto intro!: post_intro post_ops)

lemma sys_exec_post [post_ops]: "K s \<Longrightarrow> post K (sys_exec s)"
  by (auto simp: sys_exec_def intro!: post_intro post_ops fetch_argv_post)

lemma sys_pipe_post [post_ops]: "K s \<Longrightarrow> post K (sys_pipe s)"
  by (auto simp: sys_pipe_def close_both_def intro!: post_intro post_ops)

text \<open>sysproc.c and syscall.c\<close>

lemma sleep_loop_post [post_ops]: "K s \<Longrightarrow> post K (sleep_loop n t0 s)"
  by (auto simp: sleep_loop_def intro!: post_intro post_ops)

lemma sys_proc_post [post_ops]: "K s \<Longrightarrow> post K (sys_exit s)" "K s \<Longrightarrow> post K (sys_kill s)"
    "K s \<Longrightarrow> post K (sys_getpid s)" "K s \<Longrightarrow> post K (sys_sbrk s)" "K s \<Longrightarrow> post K (sys_sleep s)"
    "K s \<Longrightarrow> post K (sys_uptime s)" "K s \<Longrightarrow> post K (sys_getNumFreePages s)"
  by (auto simp: sys_exit_def sys_kill_def sys_getpid_def sys_sbrk_def sys_sleep_def sys_uptime_def
      sys_getNumFreePages_def Let_def intro!: post_intro post_ops)

lemma syscalls_post: "syscalls n = Some f \<Longrightarrow> K s \<Longrightarrow> post K (f s)"
  by (auto simp: syscalls_def intro: post_ops split: if_splits)

lemma syscall_post [post_ops]: "K s \<Longrightarrow> post K (syscall s)"
  unfolding syscall_def set_eax_def
  by (intro post_intro syscalls_post) (auto intro!: post_intro post_ops)

text \<open>trap.c\<close>

lemma exit_if_killed_post [post_ops]: "K s \<Longrightarrow> post K (exit_if_killed s)"
    "K s \<Longrightarrow> post K (exit_if_killed_in_user tf s)"
  by (auto simp: exit_if_killed_def exit_if_killed_in_user_def proc_or_null_def intro!: post_intro post_ops)

lemma trap_switch_post [post_ops]: "K s \<Longrightarrow> post K (trap_switch td tf s)"
  by (auto simp: trap_switch_def timer_tick_def console_interrupt_def proc_or_null_def Let_def
      intro!: post_intro post_ops)

lemma trap_end_post [post_ops]: "K s \<Longrightarrow> post K (trap_end tf s)"
  by (auto simp: trap_end_def proc_or_null_def intro!: post_intro post_ops)

lemma trap_post: "K s \<Longrightarrow> post K (trap td tf s)"
  by (auto simp: trap_def intro!: post_intro post_ops)

end

section \<open>Pids are unique\<close>

text \<open>No two slots have the same pid, except 0 for slots that were freed, and the next pid is new.\<close>

definition pid_list_ok :: "int list \<Rightarrow> int \<Rightarrow> bool" where
  "pid_list_ok ps n \<longleftrightarrow> 0 < n \<and> (\<forall>i < length ps. ps ! i < n) \<and>
     (\<forall>i < length ps. \<forall>j < length ps. i \<noteq> j \<and> ps ! i \<noteq> 0 \<longrightarrow> ps ! i \<noteq> ps ! j)"

definition pids_ok :: "mach \<Rightarrow> bool" where
  "pids_ok m \<longleftrightarrow> pid_list_ok (map pid (ptable m)) (nextpid m)"

lemma pid_list_update:
  assumes "pid_list_ok ps n" and "n \<le> n'" and "x < n'" and "n \<le> x \<or> x = 0"
  shows "pid_list_ok (ps[i := x]) n'"
proof -
  have "ps[i := x] ! k < n'" if "k < length ps" for k
    using that assms(1-3) by (cases "k = i") (fastforce simp: pid_list_ok_def)+
  moreover have "ps[i := x] ! j \<noteq> ps[i := x] ! k"
    if "j < length ps" "k < length ps" "j \<noteq> k" "ps[i := x] ! j \<noteq> 0" for j k
  proof -
    have "ps ! j < n" "ps ! k < n" "ps ! j \<noteq> 0 \<longrightarrow> ps ! j \<noteq> ps ! k" "ps ! k \<noteq> 0 \<longrightarrow> ps ! k \<noteq> ps ! j"
      using assms(1) that(1-3) by (auto simp: pid_list_ok_def)
    then show ?thesis using that assms(4) by (cases "j = i"; cases "k = i") auto
  qed
  ultimately show ?thesis using assms(1,2) by (simp add: pid_list_ok_def)
qed

interpretation pids: proc_inv pids_ok
proof (unfold_locales, goal_cases)
  case (6 f m i)
  have "map pid (ptable (set_proc i f m)) = map pid (ptable m)"
  proof (rule nth_equalityI)
    show "map pid (ptable (set_proc i f m)) ! k = map pid (ptable m) ! k"
      if "k < length (map pid (ptable (set_proc i f m)))" for k
      using that 6(1) by (cases "k = i") (simp_all add: set_proc_def)
  qed (simp add: set_proc_def)
  then show ?case using 6(2) by (simp add: pids_ok_def) (simp add: set_proc_def)
next
  case (7 i m)
  then show ?case
    using pid_list_update[of "map pid (ptable m)" "nextpid m" "nextpid m + 1" "nextpid m" i]
    by (simp add: pids_ok_def set_proc_def map_update)
next
  case (8 m i)
  then show ?case
    using pid_list_update[of "map pid (ptable m)" "nextpid m" "nextpid m" 0 i]
    by (simp add: pids_ok_def set_proc_def map_update pid_list_ok_def)
next
  case (5 m ch)
  have "map pid (ptable (wakeup1 ch m)) = map pid (ptable m)"
    by (simp add: wakeup1_def)
  then show ?case using 5 by (simp add: pids_ok_def) (simp add: wakeup1_def)
qed (simp_all add: pids_ok_def set_cpu_def set_lock_def set_slock_def)


lemma running_set_proc [simp]: "running c i (set_proc j f m) = running c i m"
  by (simp add: running_def) (simp add: set_proc_def)

lemma getpid_trap:
  assumes r: "running c i (kmach s)" and k: "\<not> killed (procs s ! i)"
  shows "trap td (zero_tf\<lparr>tf_trapno := 64, tf_eax := 11\<rparr>) s = Ok ()
    (set_eax i (pid (procs s ! i)) (kset_proc i (\<lambda>p. p\<lparr>p_tf := zero_tf\<lparr>tf_trapno := 64, tf_eax := 11\<rparr>\<rparr>) s))"
proof -
  let ?tf = "zero_tf\<lparr>tf_trapno := 64, tf_eax := 11\<rparr>"
  let ?s = "kset_proc i (\<lambda>p. p\<lparr>p_tf := ?tf\<rparr>) s"
  let ?t = "set_eax i (pid (procs s ! i)) ?s"
  have i: "i < length (procs s)" using r by (simp add: running_def procs_def)
  have m: "kmach ?s = set_proc i (\<lambda>p. p\<lparr>p_tf := ?tf\<rparr>) (kmach s)" "kmach ?t =
      set_proc i (\<lambda>p. p\<lparr>p_tf := (p_tf p)\<lparr>tf_eax := of_int (pid (procs s ! i))\<rparr>\<rparr>) (kmach ?s)"
    by (simp_all add: set_eax_def kset_proc_set)
  have "on_mach curproc s = Ok i s" "on_mach curproc ?s = Ok i ?s" "on_mach curproc ?t = Ok i ?t"
    using r m by (auto intro!: k_curproc[of c])
  moreover have "kproc i s = procs s ! i" "kproc i ?s = (procs s ! i)\<lparr>p_tf := ?tf\<rparr>"
      "\<not> killed (kproc i ?t)"
    using i k m by (simp_all add: kproc_def procs_def)
  moreover have "syscalls 11 = Some sys_getpid" by (simp add: syscalls_def)
  ultimately show ?thesis
    using k by (simp add: trap_def T_SYSCALL_def exit_if_killed_def syscall_def sys_getpid_def)
qed


end
