(* ===== verification/Scheduling.thy ===== *)
theory Scheduling
  imports ProcFacts Post
begin

text \<open>
  Properties of the scheduler: what one dispatch does, and that a pass over the process table
  serves every process that stays runnable.
\<close>

section \<open>One dispatch\<close>

definition dispatchable :: "proc \<Rightarrow> bool" where
  "dispatchable p \<longleftrightarrow> kstack p \<noteq> 0 \<and> p_pgdir p \<noteq> 0"

lemma get_vm_set_kmach [simp]: "get_vm (set_kmach m s) = (get_vm s)\<lparr>vk := (vk (get_vm s))\<lparr>km := m\<rparr>\<rparr>"
  by (simp add: get_vm_def put_mach_def kmach_def)

lemma k_switchuvm:
  assumes c: "on_cpu c (kmach s)" and p: "dispatchable p"
  shows "\<exists>t. on_vst (switchuvm (Some p)) s = Ok () t \<and> kmach t = kmach s \<and>
    cr3 (kvm t) = V2P (p_pgdir p) \<and> kmem t = kmem s"
proof -
  obtain v where v: "switchuvm (Some p) (get_vm s) = Ok () v" "vk v = vk (get_vm s)" "cr3 v = V2P (p_pgdir p)"
    using switchuvm_eq[of c "get_vm s" p] c p by (auto simp: dispatchable_def)
  have "on_vst (switchuvm (Some p)) s = Ok () (put_vm (\<lambda>_. v) s)" using v(1) by (rule zoom_Ok)
  moreover have "kmach (put_vm (\<lambda>_. v) s) = kmach s" using v(2) by simp
  moreover have "kvm (put_vm (\<lambda>_. v) s) = v" by (simp add: put_vm_def put_mach_def Let_def)
  ultimately show ?thesis using v(2,3) by (auto simp: kmem_def get_vm_def)
qed

definition dispatched :: "nat \<Rightarrow> nat \<Rightarrow> mach \<Rightarrow> mach" where
  "dispatched c i m = set_proc i (\<lambda>p. p\<lparr>pstate := RUNNING\<rparr>) (set_cpu c (\<lambda>k. k\<lparr>cproc := Some i\<rparr>) m)"

lemma on_cpu_set_cproc: "on_cpu c m \<Longrightarrow> on_cpu c (set_cpu c (\<lambda>k. k\<lparr>cproc := x\<rparr>) m)"
  by (simp add: on_cpu_def set_cpu_def)

lemma scan_picks:
  assumes c: "on_cpu c (kmach s)"
    and f: "find (\<lambda>i. pstate (procs s ! i) = RUNNABLE) [j..<length (procs s)] = Some i"
    and p: "dispatchable (procs s ! i)"
  shows "\<exists>t. scheduler_scan c j s = Ok (Some i) t \<and> kmach t = dispatched c i (kmach s) \<and>
    cr3 (kvm t) = V2P (p_pgdir (procs s ! i)) \<and> kmem t = kmem s"
proof -
  let ?s = "put_mach (set_cpu c (\<lambda>k. k\<lparr>cproc := Some i\<rparr>)) s"
  have k: "kproc j s = procs s ! j" "kproc j ?s = procs s ! j" for j
    by (simp_all add: kproc_def procs_def set_cpu_def)
  have "on_cpu c (kmach ?s)" using c by (simp add: on_cpu_set_cproc)
  then obtain t where t: "on_vst (switchuvm (Some (procs s ! i))) ?s = Ok () t" "kmach t = kmach ?s"
      "cr3 (kvm t) = V2P (p_pgdir (procs s ! i))" "kmem t = kmem ?s"
    using k_switchuvm p by blast
  let ?t = "kset_proc i (\<lambda>p. p\<lparr>pstate := RUNNING\<rparr>) t"
  have "kvm ?t = kvm t" by (simp add: kset_proc_def put_mach_def)
  moreover have "kmach ?t = dispatched c i (kmach s)" using t(2) by (simp add: kset_proc_def dispatched_def)
  moreover have "kmem ?s = kmem s" by (simp add: kmem_def put_mach_def)
  ultimately show ?thesis
    using t f k by (simp add: scheduler_scan_def kmem_def Let_def)
qed

lemma scan_ends:
  assumes "kmach s = take_lock c PtableLock m" and "on_cpu c m" and "lock_free PtableLock m"
    and "find (\<lambda>i. pstate (procs s ! i) = RUNNABLE) [j..<length (procs s)] = None"
  shows "scheduler_scan c j s = Ok None (set_kmach m s)"
  using k_release[OF assms(1-3)] assms(4) by (simp add: scheduler_scan_def kproc_def procs_def)

lemma find_upt_Some:
  "find P [j..<n] = Some i \<Longrightarrow> j \<le> i \<and> i < n \<and> P i \<and> (\<forall>k. j \<le> k \<and> k < i \<longrightarrow> \<not> P k)"
proof -
  assume "find P [j..<n] = Some i"
  then obtain d where d: "d < n - j" "P (j + d)" "i = j + d" "\<forall>e < d. \<not> P (j + e)"
    by (auto simp: find_Some_iff)
  have "\<not> P k" if "j \<le> k" "k < i" for k
    using d(3) d(4)[rule_format, of "k - j"] that by simp
  then show ?thesis using d by auto
qed

lemma find_upt_None: "find P [j..<n] = None \<longleftrightarrow> (\<forall>i. j \<le> i \<and> i < n \<longrightarrow> \<not> P i)"
  by (auto simp: find_None_iff)

text \<open>A dispatch is correct: from a slot \<open>j\<close> the scheduler either finds no runnable process, and
  then releases \<open>ptable.lock\<close> and changes nothing else, or picks the first runnable process at or
  after \<open>j\<close>, makes it the CPU's current process, loads its page table and marks it \<open>RUNNING\<close>,
  keeping \<open>ptable.lock\<close> and every other process.\<close>

theorem scheduler_dispatches:
  assumes "on_cpu c m" and "lock_free PtableLock m" and "kmach s = take_lock c PtableLock m"
    and "\<forall>p \<in> set (procs s). pstate p = RUNNABLE \<longrightarrow> dispatchable p"
  shows "if \<exists>i. j \<le> i \<and> i < length (procs s) \<and> pstate (procs s ! i) = RUNNABLE
    then \<exists>i t. scheduler_scan c j s = Ok (Some i) t \<and> j \<le> i \<and> i < length (procs s) \<and>
      pstate (procs s ! i) = RUNNABLE \<and> (\<forall>k. j \<le> k \<and> k < i \<longrightarrow> pstate (procs s ! k) \<noteq> RUNNABLE) \<and>
      cproc (cpus (kmach t) ! c) = Some i \<and> cr3 (kvm t) = V2P (p_pgdir (procs s ! i)) \<and>
      procs t = (procs s)[i := (procs s ! i)\<lparr>pstate := RUNNING\<rparr>] \<and>
      held_by c PtableLock (kmach t) \<and> kmem t = kmem s
    else scheduler_scan c j s = Ok None (set_kmach m s)"
proof (cases "find (\<lambda>i. pstate (procs s ! i) = RUNNABLE) [j..<length (procs s)]")
  case None
  then have "\<not> (\<exists>i. j \<le> i \<and> i < length (procs s) \<and> pstate (procs s ! i) = RUNNABLE)"
    by (auto simp: find_upt_None)
  then show ?thesis using scan_ends[OF assms(3,1,2) None] by simp
next
  case (Some i)
  note i = find_upt_Some[OF Some]
  have c: "on_cpu c (kmach s)" using on_cpu_take_lock[OF assms(1)] assms(3) by simp
  have "dispatchable (procs s ! i)" using assms(4) i nth_mem by blast
  from scan_picks[OF c Some this] obtain t where t: "scheduler_scan c j s = Ok (Some i) t"
      "kmach t = dispatched c i (kmach s)" "cr3 (kvm t) = V2P (p_pgdir (procs s ! i))" "kmem t = kmem s"
    by blast
  have "held_by c PtableLock (kmach s)" using take_lock_held[of c PtableLock m] assms(3) by simp
  then have "cproc (cpus (kmach t) ! c) = Some i" "held_by c PtableLock (kmach t)"
    "procs t = (procs s)[i := (procs s ! i)\<lparr>pstate := RUNNING\<rparr>]"
    using t(2) c by (simp_all add: dispatched_def set_proc_def set_cpu_def on_cpuD held_by_def procs_def)
  moreover have "\<exists>i. j \<le> i \<and> i < length (procs s) \<and> pstate (procs s ! i) = RUNNABLE" using i by blast
  ultimately show ?thesis using i t by auto
qed

text \<open>Two runnable processes, each with a stack and a page table, and no current process.\<close>

definition two_mach :: mach where
  "two_mach = boot_mach\<lparr>nextpid := 3, ptable :=
     [zero_proc\<lparr>pid := 1, pstate := RUNNABLE, kstack := 0x80410000, p_pgdir := 0x80420000\<rparr>,
      zero_proc\<lparr>pid := 2, pstate := RUNNABLE, kstack := 0x80430000, p_pgdir := 0x80440000\<rparr>]\<rparr>"

lemma two_mach_simps:
  "on_cpu 0 two_mach" "lock_free l two_mach" "locked (locks two_mach l) = False"
  "ptable two_mach =
     [zero_proc\<lparr>pid := 1, pstate := RUNNABLE, kstack := 0x80410000, p_pgdir := 0x80420000\<rparr>,
      zero_proc\<lparr>pid := 2, pstate := RUNNABLE, kstack := 0x80430000, p_pgdir := 0x80440000\<rparr>]"
  "ncli (cpus two_mach ! 0) = 0" "length (cpus two_mach) = 1" "\<not> eflags_if two_mach"
  by (simp_all add: two_mach_def on_cpu_def boot_mach_def boot_cpu_def cpu_index_def lock_free_def)

definition sched_kernel :: kernel where
  "sched_kernel = quiet_kernel (take_lock 0 PtableLock two_mach)"

lemma sched_kernel_simps:
  "kmach sched_kernel = take_lock 0 PtableLock two_mach" "procs sched_kernel = ptable two_mach"
  by (simp_all add: sched_kernel_def procs_def)

lemma sched_kernel_dispatchable: "\<forall>p \<in> set (procs sched_kernel). pstate p = RUNNABLE \<longrightarrow> dispatchable p"
  by (simp add: sched_kernel_simps two_mach_simps dispatchable_def)

theorem scheduler_dispatches_witness:
  "\<exists>t. scheduler_scan 0 1 sched_kernel = Ok (Some 1) t \<and> cr3 (kvm t) = 0x440000 \<and>
     pstate (procs t ! 1) = RUNNING"
proof -
  let ?s = sched_kernel
  have n: "length (procs ?s) = 2" by (simp add: sched_kernel_simps two_mach_simps)
  have e: "\<exists>i. 1 \<le> i \<and> i < length (procs ?s) \<and> pstate (procs ?s ! i) = RUNNABLE"
    by (intro exI[of _ 1]) (simp add: sched_kernel_simps two_mach_simps)
  from scheduler_dispatches[OF two_mach_simps(1,2) sched_kernel_simps(1) sched_kernel_dispatchable, of 1]
  obtain i t where t: "scheduler_scan 0 1 ?s = Ok (Some i) t" "1 \<le> i" "i < length (procs ?s)"
      "cr3 (kvm t) = V2P (p_pgdir (procs ?s ! i))"
      "procs t = (procs ?s)[i := (procs ?s ! i)\<lparr>pstate := RUNNING\<rparr>]"
    unfolding if_P[OF e] by blast
  have "i = 1" using t(2,3) n by simp
  then show ?thesis using t by (simp add: sched_kernel_simps two_mach_simps V2P_def KERNBASE_def)
qed

section \<open>A pass over the table\<close>

text \<open>
  A pass of CPU \<open>c\<close> from slot \<open>j\<close>: the scheduler scans, switches to the process it finds, goes on
  behind it when the process calls \<open>sched\<close>, and ends at the end of the table.  \<open>R r u\<close> says that the
  process that was switched to in state \<open>r\<close> (and whatever ran meanwhile) left the state \<open>u\<close>; the
  list holds the slots served, in order.
\<close>

inductive sched_pass :: "(kernel \<Rightarrow> kernel \<Rightarrow> bool) \<Rightarrow> nat \<Rightarrow> nat \<Rightarrow> kernel \<Rightarrow> nat list \<Rightarrow> kernel \<Rightarrow> bool"
  for R c where
  pass_end: "scheduler_scan c j s = Ok None t \<Longrightarrow> sched_pass R c j s [] t"
| pass_turn: "scheduler_scan c j s = Ok (Some i) r \<Longrightarrow> R r u \<Longrightarrow> on_vst switchkvm u = Ok () v \<Longrightarrow>
    sched_pass R c (Suc i) (put_mach (set_cpu c (\<lambda>k. k\<lparr>cproc := None\<rparr>)) v) is t \<Longrightarrow>
    sched_pass R c j s (i # is) t"

inductive_cases sched_pass_NilE: "sched_pass R c j s [] t"
inductive_cases sched_pass_ConsE: "sched_pass R c j s (i # is) t"

text \<open>The rule \<open>pass_turn\<close> is what \<open>scheduler_back\<close> does: it goes on behind the process that ran.\<close>

lemma scheduler_back_pass:
  "on_vst switchkvm u = Ok () v \<Longrightarrow>
     scheduler_back c i u = scheduler_scan c (Suc i) (put_mach (set_cpu c (\<lambda>k. k\<lparr>cproc := None\<rparr>)) v)"
  by (simp add: scheduler_back_def)

lemma k_switchkvm: "\<exists>v. on_vst switchkvm u = Ok () v \<and> kmach v = kmach u"
proof -
  have "on_vst switchkvm u = Ok () (put_vm (\<lambda>_. lcr3 (V2P (kpgdir (get_vm u))) (get_vm u)) u)"
    by (rule zoom_Ok) (simp add: switchkvm_def)
  then show ?thesis by (simp add: lcr3_def)
qed

lemma switchkvm_procs: "on_vst switchkvm u = Ok () v \<Longrightarrow> procs v = procs u"
  using k_switchkvm[of u] by (auto simp: procs_def)

text \<open>A scan keeps every process but the one it picks, whatever the state it starts in.\<close>

lemma on_vst_tab:
  assumes "on_vst (switchuvm p) s = Ok u t"
  shows "tab (kmach t) = tab (kmach s)"
proof -
  obtain v where v: "switchuvm p (get_vm s) = Ok u v" "t = put_vm (\<lambda>_. v) s"
    using assms by (auto simp: zoom_eq_Ok)
  have "post (\<lambda>v. tab (km (vk v)) = tab (kmach s)) (switchuvm p (get_vm s))"
    by (rule tab_inv.switchuvm_post) simp
  then show ?thesis using v by simp
qed

lemma release_tab:
  assumes "on_mach (release l) s = Ok u t"
  shows "tab (kmach t) = tab (kmach s)"
proof -
  obtain m where m: "release l (kmach s) = Ok u m" "t = set_kmach m s"
    using assms by (auto simp: zoom_eq_Ok)
  have "post (\<lambda>m. tab m = tab (kmach s)) (release l (kmach s))"
    by (rule tab_inv.release_post) simp
  then show ?thesis using m by simp
qed

lemma scan_result:
  assumes "scheduler_scan c j s = Ok r t"
  shows "r = find (\<lambda>i. pstate (procs s ! i) = RUNNABLE) [j..<length (procs s)]"
    "length (procs t) = length (procs s)" "r \<noteq> Some k \<Longrightarrow> procs t ! k = procs s ! k"
proof -
  let ?f = "find (\<lambda>i. pstate (procs s ! i) = RUNNABLE) [j..<length (procs s)]"
  have f: "find (\<lambda>i. pstate (kproc i s) = RUNNABLE) [j..<length (procs s)] = ?f"
    by (simp add: kproc_def procs_def)
  have "r = ?f \<and> length (procs t) = length (procs s) \<and> (r \<noteq> Some k \<longrightarrow> procs t ! k = procs s ! k)"
  proof (cases ?f)
    case None
    then have "r = None" "tab (kmach t) = tab (kmach s)"
      using assms f by (auto simp: scheduler_scan_def call_eq_Ok dest: release_tab)
    then show ?thesis using None by (simp add: tab_def procs_def)
  next
    case (Some i)
    let ?a = "put_mach (set_cpu c (\<lambda>k. k\<lparr>cproc := Some i\<rparr>)) s"
    obtain u where u: "on_vst (switchuvm (Some (kproc i ?a))) ?a = Ok () u" "r = Some i"
        "t = kset_proc i (\<lambda>p. p\<lparr>pstate := RUNNING\<rparr>) u"
      using assms f Some by (auto simp: scheduler_scan_def call_eq_Ok Let_def)
    have "tab (kmach u) = tab (kmach s)" using on_vst_tab[OF u(1)] by (simp add: tab_def set_cpu_def)
    then have "procs u = procs s" by (simp add: tab_def procs_def)
    then show ?thesis using u Some by (simp add: procs_def kset_proc_set)
  qed
  then show "r = ?f" "length (procs t) = length (procs s)" "r \<noteq> Some k \<Longrightarrow> procs t ! k = procs s ! k"
    by blast+
qed

lemma pass_sorted: "sched_pass R c j s is t \<Longrightarrow> sorted_wrt (<) is \<and> (\<forall>i \<in> set is. j \<le> i)"
proof (induction rule: sched_pass.induct)
  case (pass_turn j s i r u v "is" t)
  have "j \<le> i" using find_upt_Some[OF scan_result(1)[OF pass_turn.hyps(1), symmetric]] by simp
  then show ?case using pass_turn.IH by (auto simp: Suc_le_eq)
qed simp

lemma sorted_before: "sorted_wrt (<) (xs @ k # ys) \<Longrightarrow> (\<forall>i \<in> set (xs @ k # ys). j \<le> i) \<Longrightarrow> length xs \<le> k - (j :: nat)"
proof -
  assume s: "sorted_wrt (<) (xs @ k # ys)" and j: "\<forall>i \<in> set (xs @ k # ys). j \<le> i"
  have "set xs \<subseteq> {j..<k}" using s j by (auto simp: sorted_wrt_append)
  moreover have "sorted_wrt (<) xs" using s by (simp add: sorted_wrt_append)
  then have "card (set xs) = length xs" using strict_sorted_iff distinct_card by blast
  ultimately show ?thesis using card_mono[of "{j..<k}" "set xs"] by simp
qed

lemma pass_reaches:
  assumes "sched_pass R c j s is t"
    and R: "\<And>r u. R r u \<Longrightarrow> length (procs u) = length (procs r) \<and>
      (pstate (procs r ! k) = RUNNABLE \<longrightarrow> pstate (procs u ! k) = RUNNABLE)"
    and "j \<le> k" and "k < length (procs s)" and "pstate (procs s ! k) = RUNNABLE"
  shows "k \<in> set is"
  using assms(1,3-)
proof (induction rule: sched_pass.induct)
  case (pass_end j s t)
  have "find (\<lambda>i. pstate (procs s ! i) = RUNNABLE) [j..<length (procs s)] = None"
    using scan_result(1)[OF pass_end.hyps(1)] by simp
  then show ?case using pass_end.prems unfolding find_upt_None by blast
next
  case (pass_turn j s i r u v "is" t)
  let ?n = "put_mach (set_cpu c (\<lambda>k. k\<lparr>cproc := None\<rparr>)) v"
  note scan = scan_result[OF pass_turn.hyps(1)]
  note i = find_upt_Some[OF scan(1)[symmetric]]
  show ?case
  proof (cases "k = i")
    case False
    have n: "procs ?n = procs u" using switchkvm_procs[OF pass_turn.hyps(3)] by (simp add: procs_def set_cpu_def)
    have "procs r ! k = procs s ! k" using scan(3)[of k] False by simp
    then have "length (procs ?n) = length (procs s)" "pstate (procs ?n ! k) = RUNNABLE"
      unfolding n using R[OF pass_turn.hyps(2)] scan(2) pass_turn.prems(3) by simp_all
    moreover have "Suc i \<le> k" using i pass_turn.prems False by (metis Suc_leI linorder_neqE_nat)
    ultimately show ?thesis using pass_turn.IH pass_turn.prems(2) by simp
  qed simp
qed


text \<open>The turn of a process that only yields again.\<close>

definition yields :: "kernel \<Rightarrow> kernel \<Rightarrow> bool" where
  "yields r u \<longleftrightarrow> (\<exists>q. yield_resume r = Ok () q \<and> yield q = Switch u)"

interpretation stays: lock_inv "\<lambda>m. length (ptable m) = n \<and> (b \<longrightarrow> pstate (ptable m ! k) = RUNNABLE)" for n b k
  by unfold_locales (simp_all add: set_defs)

lemma runnable_update: "pstate (ps ! k) = RUNNABLE \<Longrightarrow> pstate (ps[i := (ps ! i)\<lparr>pstate := RUNNABLE\<rparr>] ! k) = RUNNABLE"
  by (cases "k = i"; cases "i < length ps") (simp_all add: list_update_beyond)

lemma yields_stays:
  assumes "yields r u"
  shows "length (procs u) = length (procs r) \<and>
    (pstate (procs r ! k) = RUNNABLE \<longrightarrow> pstate (procs u ! k) = RUNNABLE)"
proof -
  let ?P = "\<lambda>m. length (ptable m) = length (procs r) \<and> (pstate (procs r ! k) = RUNNABLE \<longrightarrow> pstate (ptable m ! k) = RUNNABLE)"
  have zoom: "post ?P (f (kmach s)) \<Longrightarrow> post (\<lambda>s. ?P (kmach s)) (on_mach f s)" for f :: "mach \<Rightarrow> ('a, mach) res" and s
    by (rule post_zoom) auto
  obtain q where q: "yield_resume r = Ok () q" "yield q = Switch u"
    using assms by (auto simp: yields_def)
  have "post (\<lambda>s. ?P (kmach s)) (yield_resume r)"
    unfolding yield_resume_def by (intro zoom stays.release_post) (simp add: procs_def)
  then have "?P (kmach q)" using q(1) by simp
  then have "post (\<lambda>s. ?P (kmach s)) (yield q)"
    unfolding yield_def
    by (intro post_call zoom stays.acquire_post stays.curproc_post stays.sched_post)
      (auto simp: kset_proc_set runnable_update)
  then show ?thesis using q(2) by (simp add: procs_def)
qed

lemma set_cpu_take_lock:
  "c < length (cpus m) \<Longrightarrow> set_cpu c (\<lambda>k. k\<lparr>cproc := x\<rparr>) (take_lock c l m) = take_lock c l (set_cpu c (\<lambda>k. k\<lparr>cproc := x\<rparr>) m)"
proof -
  assume c: "c < length (cpus m)"
  have k: "k\<lparr>intena := a, cproc := x\<rparr> = k\<lparr>cproc := x, intena := a\<rparr>"
    "k\<lparr>ncli := b, cproc := x\<rparr> = k\<lparr>cproc := x, ncli := b\<rparr>" for k :: cpu and a b
    by (cases k; simp)+
  have mm: "m\<lparr>eflags_if := e, locks := l, cpus := k\<rparr> = m\<lparr>eflags_if := e, cpus := k, locks := l\<rparr>" for e l k
    by (cases m) simp
  show ?thesis using c by (simp add: set_cpu_def take_lock_def set_lock_def pushed_def k mm)
qed

lemma set_cpu_length [simp]: "length (cpus (set_cpu c f m)) = length (cpus m)"
  by (simp add: set_cpu_def)

lemma set_cpu_back: "cproc (cpus m ! c) = None \<Longrightarrow>
    set_cpu c (\<lambda>k. k\<lparr>cproc := None\<rparr>) (set_cpu c (\<lambda>k. k\<lparr>cproc := x\<rparr>) m) = m"
proof -
  assume "cproc (cpus m ! c) = None"
  then have "(cpus m ! c)\<lparr>cproc := None\<rparr> = cpus m ! c" by (cases "cpus m ! c") simp
  then show ?thesis
    by (cases "c < length (cpus m)") (simp_all add: set_cpu_def list_update_beyond)
qed

lemma set_proc_back: "i < length (ptable m) \<Longrightarrow> pstate (ptable m ! i) = RUNNABLE \<Longrightarrow>
    set_proc i (\<lambda>p. p\<lparr>pstate := RUNNABLE\<rparr>) (set_proc i (\<lambda>p. p\<lparr>pstate := RUNNING\<rparr>) m) = m"
proof -
  assume a: "i < length (ptable m)" "pstate (ptable m ! i) = RUNNABLE"
  have "(ptable m ! i)\<lparr>pstate := RUNNABLE\<rparr> = ptable m ! i"
    using a(2) by (cases "ptable m ! i") simp
  then have "(ptable m)[i := (ptable m ! i)\<lparr>pstate := RUNNABLE\<rparr>] = ptable m" by (metis list_update_id)
  then show ?thesis using a(1) by (simp add: set_proc_def)
qed

lemma pass_turn_yields:
  assumes c: "on_cpu c m" and free: "lock_free PtableLock m" and n: "ncli (cpus m ! c) = 0" "cproc (cpus m ! c) = None"
    and s: "kmach s = take_lock c PtableLock m"
    and f: "find (\<lambda>i. pstate (procs s ! i) = RUNNABLE) [j..<length (procs s)] = Some i"
    and p: "dispatchable (procs s ! i)"
  shows "\<exists>v. kmach v = take_lock c PtableLock m \<and>
    (\<forall>is t. sched_pass yields c (Suc i) v is t \<longrightarrow> sched_pass yields c j s (i # is) t)"
proof -
  let ?d = "dispatched c i m"
  let ?p = "set_cpu c (\<lambda>k. k\<lparr>cproc := Some i\<rparr>) m"
  note i = find_upt_Some[OF f]
  have lc: "c < length (cpus m)" and pt: "procs s = ptable m" using c s by (simp_all add: on_cpuD procs_def)
  have cs: "on_cpu c (kmach s)" using on_cpu_take_lock[OF c] s by simp
  from scan_picks[OF this f p] obtain r where r: "scheduler_scan c j s = Ok (Some i) r"
      "kmach r = dispatched c i (kmach s)" by blast
  have kr: "kmach r = take_lock c PtableLock ?d"
    using r(2) lc unfolding s dispatched_def by (simp add: set_cpu_take_lock set_proc_take_lock)
  have d: "on_cpu c ?d" "lock_free PtableLock ?d" "running c i ?d"
    using c free i pt lc by (simp_all add: dispatched_def on_cpu_set_cproc running_def)
      (simp_all add: set_cpu_def set_proc_def lock_free_def)
  let ?q = "set_kmach ?d r"
  have q: "yield_resume r = Ok () ?q" unfolding yield_resume_def by (rule k_release[OF kr d(1,2)])
  let ?a = "set_kmach (take_lock c PtableLock ?d) ?q"
  have a: "on_mach (acquire PtableLock) ?q = Ok () ?a" using k_acquire[of c ?q PtableLock] d(1,2) by simp
  have i': "on_mach curproc ?a = Ok i ?a" using k_curproc[of c i ?a] running_take_lock[OF d(3)] by simp
  let ?u = "set_kmach (take_lock c PtableLock ?p) ?q"
  have "set_proc i (\<lambda>p. p\<lparr>pstate := RUNNABLE\<rparr>) ?d = ?p"
    using i pt set_proc_back[of i ?p] unfolding dispatched_def by (simp add: set_cpu_def)
  then have set: "kset_proc i (\<lambda>p. p\<lparr>pstate := RUNNABLE\<rparr>) ?a = ?u"
    by (simp add: kset_proc_set set_proc_take_lock)
  have rp: "running c i (take_lock c PtableLock ?p)"
    using c i pt lc by (intro running_take_lock) (simp add: running_def on_cpu_set_cproc, simp add: set_cpu_def)
  have "sched (take_lock c PtableLock ?p) = Switch (take_lock c PtableLock ?p)"
    using i pt n(1) lc take_lock_held[of c PtableLock ?p] on_cpu_set_cproc[OF c]
    by (intro sched_switches[OF rp]) (simp_all add: set_cpu_def)
  then have "on_mach sched ?u = Switch ?u" using on_mach_Switch[of sched ?u] by simp
  then have "yields r ?u" using q a i' set by (auto simp: yields_def yield_def)
  moreover obtain v where v: "on_vst switchkvm ?u = Ok () v" "kmach v = kmach ?u" using k_switchkvm by blast
  moreover have "kmach (put_mach (set_cpu c (\<lambda>k. k\<lparr>cproc := None\<rparr>)) v) = take_lock c PtableLock m"
    using v(2) lc n(2) by (simp add: set_cpu_take_lock set_cpu_back)
  ultimately show ?thesis using pass_turn[OF r(1), of yields ?u v] by blast
qed


end
