(* ===== verification/Procnew.thy ===== *)
theory Procnew
  imports Scheduling
begin

text \<open>
  Properties of process creation: \<open>allocproc\<close> on every branch, and what a \<open>kill\<close> of pid 0 does to the
  next process.
\<close>

section \<open>A new process\<close>

definition new_context :: kcontext where
  "new_context = \<lparr>c_edi = 0, c_esi = 0, c_ebx = 0, c_ebp = 0, c_eip = Forkret\<rparr>"

definition newborn :: "uint \<Rightarrow> int \<Rightarrow> proc \<Rightarrow> proc" where
  "newborn stack k p = p\<lparr>pstate := EMBRYO, pid := k, kstack := stack, p_context := new_context\<rparr>"

text \<open>The locks \<open>allocproc\<close> takes are free, and the allocator has the pages \<open>ps\<close>.\<close>

definition alloc_ready :: "nat \<Rightarrow> uint list \<Rightarrow> kernel \<Rightarrow> bool" where
  "alloc_ready c ps s \<longleftrightarrow> on_cpu c (kmach s) \<and> (\<forall>l. lock_free l (kmach s)) \<and>
     pool_inv ps (vk (get_vm s)) \<and> ruse (vk (get_vm s))"

lemma pool_inv_km [simp]: "pool_inv ps (s\<lparr>km := m\<rparr>) = pool_inv ps s"
  by (simp add: pool_inv_def)

text \<open>From \<open>s\<close> to \<open>t\<close> the first free page, if there is one, has been taken, and else only the machine may
  have changed.\<close>

definition page_taken :: "uint list \<Rightarrow> kernel \<Rightarrow> kernel \<Rightarrow> bool" where
  "page_taken ps s t \<longleftrightarrow> kmem t = kmem s \<and> kend (vk (kvm t)) = kend (vk (kvm s)) \<and> kdata (kvm t) = kdata (kvm s) \<and>
     rcount (vk (kvm t)) = (case ps of [] \<Rightarrow> rcount (vk (kvm s)) | p # _ \<Rightarrow> (rcount (vk (kvm s)))(page_index p := 1)) \<and>
     ftable t = ftable s \<and> inodes (kfs t) = inodes (kfs s)"

lemma page_taken_mach [simp]: "page_taken ps (put_mach f s) t = page_taken ps s t" "page_taken ps s (put_mach f t) = page_taken ps s t"
  by (simp_all add: page_taken_def put_mach_def kmem_def split: list.splits)

lemma k_kalloc:
  assumes "alloc_ready c ps s"
  shows "\<exists>t. on_kst kalloc s = Ok (case ps of [] \<Rightarrow> 0 | p # _ \<Rightarrow> p) t \<and> kmach t = kmach s \<and> alloc_ready c (tl ps) t \<and>
    page_taken ps s t"
proof -
  let ?v = "vk (get_vm s)"
  have q: "kquiet c ?v" using assms by (simp add: alloc_ready_def kquiet_def)
  have p: "pool_inv ps ?v" "ruse ?v" using assms by (simp_all add: alloc_ready_def)
  obtain v where v: "kalloc ?v = Ok (case ps of [] \<Rightarrow> 0 | p # _ \<Rightarrow> p) v" "pool_inv (tl ps) v" "km v = km ?v" "ruse v = ruse ?v"
    "mem v = mem ?v" "kend v = kend ?v" "rcount v = (case ps of [] \<Rightarrow> rcount ?v | p # _ \<Rightarrow> (rcount ?v)(page_index p := 1))"
    using kalloc_pool[OF q p] by (auto simp: pool_alloc_def pool_of_def split: list.splits)
  let ?t = "put_vm (\<lambda>_. (get_vm s)\<lparr>vk := v\<rparr>) s"
  have "on_kst kalloc s = Ok (case ps of [] \<Rightarrow> 0 | p # _ \<Rightarrow> p) ?t"
    using v(1) by (simp add: zoom_def)
  moreover have "alloc_ready c (tl ps) ?t" "kmach ?t = kmach s"
    using assms v by (simp_all add: alloc_ready_def)
  moreover have "page_taken ps s ?t"
    using v(5-7) by (simp add: page_taken_def put_vm_def Let_def put_mach_def kmem_def get_vm_def split: list.splits)
  ultimately show ?thesis by blast
qed

lemma alloc_ready_mach:
  "alloc_ready c ps s \<Longrightarrow> on_cpu c m \<Longrightarrow> (\<And>l. lock_free l m) \<Longrightarrow> alloc_ready c ps (set_kmach m s)"
  by (simp add: alloc_ready_def)

lemma set_proc_free [simp]: "on_cpu c (m\<lparr>nextpid := n\<rparr>) = on_cpu c m" "lock_free l (m\<lparr>nextpid := n\<rparr>) = lock_free l m"
  by (simp_all add: lock_free_def)

lemma alloc_ready_kset [simp]: "alloc_ready c ps s \<Longrightarrow> alloc_ready c ps (kset_proc i f s)"
  by (simp add: kset_proc_set) (auto simp: alloc_ready_def intro!: alloc_ready_mach)

lemma allocproc_none:
  assumes "alloc_ready c ps s" and "find (\<lambda>i. pstate (procs s ! i) = UNUSED) [0..<length (procs s)] = None"
  shows "allocproc s = Ok None s"
proof -
  have c: "on_cpu c (kmach s)" and free: "lock_free l (kmach s)" for l
    using assms(1) by (simp_all add: alloc_ready_def)
  let ?a = "set_kmach (take_lock c PtableLock (kmach s)) s"
  have "on_mach (release PtableLock) ?a = Ok () s" using k_release[of ?a c PtableLock "kmach s"] c free by simp
  then show ?thesis
    using k_acquire[OF c free] assms(2) by (simp add: allocproc_def kproc_def procs_def)
qed

text \<open>Up to the allocation of the stack.\<close>

lemma allocproc_stack:
  assumes r: "alloc_ready c ps s"
    and f: "find (\<lambda>i. pstate (procs s ! i) = UNUSED) [0..<length (procs s)] = Some i"
  shows "\<exists>t. allocproc s = (let p = case ps of [] \<Rightarrow> 0 | p # _ \<Rightarrow> p; s = kset_proc i (\<lambda>q. q\<lparr>kstack := p\<rparr>) t in
      if p = 0 then Ok None (kset_proc i (\<lambda>p. p\<lparr>pstate := UNUSED\<rparr>) s)
      else Ok (Some i) (kset_proc i (\<lambda>p. p\<lparr>p_context := new_context\<rparr>) s)) \<and>
    alloc_ready c (tl ps) t \<and> nextpid (kmach t) = nextpid (kmach s) + 1 \<and>
    procs t = (procs s)[i := (procs s ! i)\<lparr>pstate := EMBRYO, pid := nextpid (kmach s)\<rparr>] \<and>
    page_taken ps s t \<and> kmach t = (set_proc i (\<lambda>p. p\<lparr>pstate := EMBRYO, pid := nextpid (kmach s)\<rparr>) (kmach s))\<lparr>nextpid := nextpid (kmach s) + 1\<rparr>"
proof -
  have c: "on_cpu c (kmach s)" and free: "lock_free l (kmach s)" for l
    using r by (simp_all add: alloc_ready_def)
  let ?n = "nextpid (kmach s)"
  let ?f = "\<lambda>p. p\<lparr>pstate := EMBRYO, pid := ?n\<rparr>"
  let ?m = "(set_proc i ?f (kmach s))\<lparr>nextpid := ?n + 1\<rparr>"
  let ?a = "set_kmach (take_lock c PtableLock (kmach s)) s"
  have acq: "on_mach (acquire PtableLock) s = Ok () ?a" using k_acquire[OF c free] .
  have fa: "find (\<lambda>i. pstate (kproc i ?a) = UNUSED) [0..<length (procs ?a)] = Some i"
    using f by (simp add: kproc_def procs_def)
  have na: "nextpid (kmach ?a) = ?n" by (simp add: take_lock_def set_lock_def pushed_def)
  have upd: "put_mach (\<lambda>m. m\<lparr>nextpid := nextpid m + 1\<rparr>) (kset_proc i ?f ?a) =
      set_kmach (take_lock c PtableLock ?m) s"
    by (simp add: kset_proc_set set_proc_take_lock)
      (simp add: put_mach_def set_proc_def take_lock_def set_lock_def pushed_def)
  have om: "on_cpu c ?m" "lock_free l ?m" for l using c free by simp_all
  have rel: "on_mach (release PtableLock) (set_kmach (take_lock c PtableLock ?m) s) = Ok () (set_kmach ?m s)"
    using k_release[of "set_kmach (take_lock c PtableLock ?m) s" c PtableLock ?m] om by simp
  have "alloc_ready c ps (set_kmach ?m s)" by (rule alloc_ready_mach[OF r om(1)]) (rule om(2))
  then obtain t where t: "on_kst kalloc (set_kmach ?m s) = Ok (case ps of [] \<Rightarrow> 0 | p # _ \<Rightarrow> p) t"
      "kmach t = ?m" "alloc_ready c (tl ps) t" "page_taken ps s t"
    using k_kalloc by fastforce
  have "nextpid (kmach t) = ?n + 1" "procs t = (procs s)[i := ?f (procs s ! i)]"
    using t(2) by (simp_all add: procs_def)
  then show ?thesis
    using acq fa na upd rel t unfolding new_context_def
    by (intro exI[of _ t]) (simp add: allocproc_def Let_def)
qed

lemma allocproc_branches:
  assumes "alloc_ready c ps s"
  shows "case find (\<lambda>i. pstate (procs s ! i) = UNUSED) [0..<length (procs s)] of
      None \<Rightarrow> allocproc s = Ok None s
    | Some i \<Rightarrow> \<exists>t. alloc_ready c (tl ps) t \<and> nextpid (kmach t) = nextpid (kmach s) + 1 \<and>
        (\<forall>j. j \<noteq> i \<longrightarrow> procs t ! j = procs s ! j) \<and>
        (if ps = [] then allocproc s = Ok None t \<and> pstate (procs t ! i) = UNUSED
         else allocproc s = Ok (Some i) t \<and> procs t ! i = newborn (hd ps) (nextpid (kmach s)) (procs s ! i))"
proof (cases "find (\<lambda>i. pstate (procs s ! i) = UNUSED) [0..<length (procs s)]")
  case None
  then show ?thesis using allocproc_none[OF assms None] by simp
next
  case (Some i)
  note i = find_upt_Some[OF Some]
  from allocproc_stack[OF assms Some] obtain t where t: "allocproc s = (let p = case ps of [] \<Rightarrow> 0 | p # _ \<Rightarrow> p;
        s = kset_proc i (\<lambda>q. q\<lparr>kstack := p\<rparr>) t in
      if p = 0 then Ok None (kset_proc i (\<lambda>p. p\<lparr>pstate := UNUSED\<rparr>) s)
      else Ok (Some i) (kset_proc i (\<lambda>p. p\<lparr>p_context := new_context\<rparr>) s))"
    "alloc_ready c (tl ps) t" "nextpid (kmach t) = nextpid (kmach s) + 1"
    "procs t = (procs s)[i := (procs s ! i)\<lparr>pstate := EMBRYO, pid := nextpid (kmach s)\<rparr>]" by blast
  have set: "nextpid (kmach (kset_proc i f u)) = nextpid (kmach u)" "procs (kset_proc i f u) = (procs u)[i := f (procs u ! i)]"
    for f u by (simp_all add: kset_proc_set procs_def) (simp add: set_proc_def)
  show ?thesis
  proof (cases ps)
    case Nil
    let ?t = "kset_proc i (\<lambda>p. p\<lparr>pstate := UNUSED\<rparr>) (kset_proc i (\<lambda>q. q\<lparr>kstack := 0\<rparr>) t)"
    have "allocproc s = Ok None ?t" using t(1) Nil by (simp add: Let_def)
    moreover have "alloc_ready c (tl ps) ?t" using t(2) by simp
    moreover have "pstate (procs ?t ! i) = UNUSED" "\<forall>j. j \<noteq> i \<longrightarrow> procs ?t ! j = procs s ! j"
      "nextpid (kmach ?t) = nextpid (kmach s) + 1"
      using t(3,4) i by (simp_all add: set)
    ultimately show ?thesis using Nil Some by auto
  next
    case (Cons p qs)
    have p: "p \<noteq> 0" using assms Cons by (auto simp: alloc_ready_def pool_inv_def dest: page_nonzero)
    let ?t = "kset_proc i (\<lambda>p. p\<lparr>p_context := new_context\<rparr>) (kset_proc i (\<lambda>q. q\<lparr>kstack := p\<rparr>) t)"
    have "allocproc s = Ok (Some i) ?t" using t(1) Cons p by (simp add: Let_def)
    moreover have "alloc_ready c (tl ps) ?t" using t(2) by simp
    moreover have "procs ?t ! i = newborn p (nextpid (kmach s)) (procs s ! i)"
      "\<forall>j. j \<noteq> i \<longrightarrow> procs ?t ! j = procs s ! j" "nextpid (kmach ?t) = nextpid (kmach s) + 1"
      using t(3,4) i by (simp_all add: set newborn_def)
    ultimately show ?thesis using Cons Some by auto
  qed
qed

text \<open>\<open>allocproc\<close> on every branch: without a free slot it returns null and changes nothing; otherwise it
  takes the first free slot and uses up a pid, and the slot becomes an embryo with that pid, a kernel
  stack from the allocator and a context that starts in \<open>forkret\<close>; if there is no page for the stack
  it returns null and the slot is free again.  No other process changes.\<close>

theorem allocproc_creates_process:
  assumes "alloc_ready c ps s"
  shows "case find (\<lambda>i. pstate (procs s ! i) = UNUSED) [0..<length (procs s)] of
      None \<Rightarrow> allocproc s = Ok None s
    | Some i \<Rightarrow> \<exists>t. alloc_ready c (tl ps) t \<and> nextpid (kmach t) = nextpid (kmach s) + 1 \<and>
        (\<forall>j. j \<noteq> i \<longrightarrow> procs t ! j = procs s ! j) \<and>
        (if ps = [] then allocproc s = Ok None t \<and> pstate (procs t ! i) = UNUSED
         else allocproc s = Ok (Some i) t \<and> procs t ! i = newborn (hd ps) (nextpid (kmach s)) (procs s ! i))"
  using allocproc_branches[OF assms] .

definition nursery :: kernel where
  "nursery = quiet_kernel (family_mach\<lparr>ptable := ptable family_mach @ [zero_proc]\<rparr>)"

lemma nursery_ready: "alloc_ready 0 [0x80400000, 0x80401000] nursery"
proof -
  have "vk (get_vm nursery) = boot_pool\<lparr>km := kmach nursery\<rparr>"
    by (simp add: nursery_def get_vm_def) (simp add: quiet_kernel_def)
  then show ?thesis
    using boot_pool_inv family_running by (simp add: alloc_ready_def nursery_def lock_free_def)
      (simp add: boot_pool_def)
qed

lemma nursery_table: "procs nursery = ptable family_mach @ [zero_proc]" "length (ptable family_mach) = 3"
    "find (\<lambda>i. pstate (procs nursery ! i) = UNUSED) [0..<length (procs nursery)] = Some 3"
  by (simp_all add: nursery_def procs_def family_table zero_proc_def upt_rec)

theorem allocproc_creates_process_witness:
  "\<exists>t. allocproc nursery = Ok (Some 3) t \<and> pid (procs t ! 3) = 4 \<and> kstack (procs t ! 3) = 0x80400000"
proof -
  have n: "nextpid (kmach nursery) = 4" by (simp add: nursery_def family_mach_def)
  show ?thesis
    using allocproc_creates_process[OF nursery_ready, unfolded nursery_table(3) option.case] n
    by (auto simp: newborn_def)
qed

section \<open>kill(0)\<close>

text \<open>C38: \<open>kill(0)\<close> succeeds and dooms the next process: it finds the pid 0 of a slot that was never used
  or was freed, sets \<open>killed\<close> in it, and \<open>allocproc\<close> gives that slot to the next process without
  clearing \<open>killed\<close>, so the new process exits at its first trap.\<close>

theorem kill_zero_dooms_next_process:
  assumes "alloc_ready c (p # ps) s"
    and "find (\<lambda>i. pstate (procs s ! i) = UNUSED) [0..<length (procs s)] = Some i"
    and "pid (procs s ! i) = 0" and "\<forall>j < i. pid (procs s ! j) \<noteq> 0"
  shows "\<exists>s' t. kill 0 s = Ok 0 s' \<and> allocproc s' = Ok (Some i) t \<and> killed (procs t ! i)"
proof -
  have c: "on_cpu c (kmach s)" and free: "lock_free l (kmach s)" for l
    using assms(1) by (simp_all add: alloc_ready_def)
  note i = find_upt_Some[OF assms(2)]
  have f: "find (\<lambda>i. pid (procs s ! i) = 0) [0..<length (procs s)] = Some i"
    using i assms(3,4) by (auto simp: find_Some_iff intro!: exI[of _ i])
  let ?s = "set_kmach (set_proc i kill_proc (kmach s)) s"
  have k: "kill 0 s = Ok 0 ?s" using kill_eq[OF c free, of 0] f by simp
  have ps: "procs ?s = (procs s)[i := kill_proc (procs s ! i)]" by (simp add: procs_def)
  have "pstate (procs ?s ! j) = UNUSED \<longleftrightarrow> pstate (procs s ! j) = UNUSED" for j
    unfolding ps using i by (cases "j = i") (simp_all add: kill_proc_def)
  then have "find (\<lambda>i. pstate (procs ?s ! i) = UNUSED) [0..<length (procs ?s)] = Some i"
    using assms(2) ps by simp
  moreover have "alloc_ready c (p # ps) ?s" using assms(1) c free by (intro alloc_ready_mach) auto
  moreover note allocproc_branches[OF this]
  ultimately obtain t where "allocproc ?s = Ok (Some i) t" "procs t ! i = newborn p (nextpid (kmach ?s)) (procs ?s ! i)"
    by auto
  moreover have "killed (procs ?s ! i)" using ps i by (simp add: kill_proc_def)
  ultimately show ?thesis using k by (simp add: newborn_def)
qed

theorem kill_zero_dooms_next_process_witness:
  "\<exists>s' t. kill 0 nursery = Ok 0 s' \<and> allocproc s' = Ok (Some 3) t \<and> killed (procs t ! 3)"
proof (rule kill_zero_dooms_next_process[OF nursery_ready nursery_table(3)])
  show "pid (procs nursery ! 3) = 0" by (simp add: nursery_table nth_append zero_proc_def)
  show "\<forall>j < 3. pid (procs nursery ! j) \<noteq> 0"
    by (simp add: nursery_table nth_append family_table numeral_3_eq_3 less_Suc_eq)
qed

end
