(* ===== verification/FsFacts.thy ===== *)
theory FsFacts
  imports Dir
begin

text \<open>
  Properties of the file system's data formats: path names, directory entries and on-disk inodes.
\<close>

section \<open>Path names\<close>

text \<open>The elements \<open>namex\<close> walks: \<open>skipelem\<close> until it returns the null pointer.\<close>

function path_names :: "bytes \<Rightarrow> bytes list" where
  "path_names path = (case skipelem path of None \<Rightarrow> [] | Some (nm, rest) \<Rightarrow> nm # path_names rest)"
  by pat_completeness auto
termination
  by (relation "measure length") (auto dest: skipelem_shorter)

declare path_names.simps [simp del]

text \<open>The reference: split at every slash and drop the empty pieces.\<close>

fun split_slash :: "bytes \<Rightarrow> bytes list" where
  "split_slash [] = [[]]"
| "split_slash (c # cs) =
     (if c = slash then [] # split_slash cs
      else (case split_slash cs of [] \<Rightarrow> [[c]] | p # ps \<Rightarrow> (c # p) # ps))"

definition path_parts :: "bytes \<Rightarrow> bytes list" where
  "path_parts path = filter (\<lambda>p. p \<noteq> []) (split_slash path)"

lemma split_slash_span:
  "split_slash path = takeWhile (\<lambda>c. c \<noteq> slash) path #
     (case dropWhile (\<lambda>c. c \<noteq> slash) path of [] \<Rightarrow> [] | _ # rest \<Rightarrow> split_slash rest)"
  by (induction path) auto

lemma path_parts_slash: "path_parts (slash # path) = path_parts path"
  by (simp add: path_parts_def)

lemma path_parts_skip: "path_parts (dropWhile (\<lambda>c. c = slash) path) = path_parts path"
  by (induction path) (auto simp: path_parts_slash)

lemma path_parts_cons:
  assumes "path \<noteq> []" and "hd path \<noteq> slash"
  shows "path_parts path = takeWhile (\<lambda>c. c \<noteq> slash) path # path_parts (dropWhile (\<lambda>c. c \<noteq> slash) path)"
proof -
  let ?d = "dropWhile (\<lambda>c. c \<noteq> slash) path"
  have t: "takeWhile (\<lambda>c. c \<noteq> slash) path \<noteq> []" using assms by (cases path) auto
  show ?thesis
  proof (cases ?d)
    case Nil
    then show ?thesis using t split_slash_span[of path] unfolding path_parts_def Nil by simp
  next
    case (Cons c rest)
    then have "c = slash" using hd_dropWhile[of "\<lambda>c. c \<noteq> slash" path] by auto
    then show ?thesis using t split_slash_span[of path] unfolding path_parts_def Cons by simp
  qed
qed

text \<open>C37: The path parser agrees with splitting: the elements \<open>skipelem\<close> yields one after the other are
  the non-empty pieces of the path between slashes, each cut to the 14 bytes of a directory name.\<close>

theorem skipelem_splits_path: "path_names path = map (take DIRSIZ) (path_parts path)"
proof (induction path rule: path_names.induct)
  case (1 path)
  let ?p = "dropWhile (\<lambda>c. c = slash) path"
  show ?case
  proof (cases "?p = []")
    case True
    then have "path_parts path = []" using path_parts_skip[of path] unfolding True by (simp add: path_parts_def)
    then show ?thesis using True by (subst path_names.simps) (simp add: skipelem_def)
  next
    case False
    let ?e = "takeWhile (\<lambda>c. c \<noteq> slash) ?p" and ?r = "dropWhile (\<lambda>c. c \<noteq> slash) ?p"
    have s: "skipelem path = Some (take DIRSIZ ?e, dropWhile (\<lambda>c. c = slash) ?r)"
      using False by (simp add: skipelem_def Let_def not_le)
    have "path_parts path = ?e # path_parts (dropWhile (\<lambda>c. c = slash) ?r)"
      using path_parts_skip[of path] path_parts_skip[of ?r] path_parts_cons[OF False] hd_dropWhile[OF False]
      by simp
    then show ?thesis using "1.IH"[OF s refl] s by (subst path_names.simps) simp
  qed
qed

section \<open>Directory entries\<close>

definition cstr :: "bytes \<Rightarrow> bytes" where
  "cstr p = takeWhile (\<lambda>c. c \<noteq> 0) p"

lemma same_string_take: "same_string p q n \<longleftrightarrow> take n (cstr p) = take n (cstr q)"
proof (induction n arbitrary: p q)
  case (Suc n)
  then show ?case by (cases p; cases q) (auto simp: char_at_def cstr_def)
qed simp

lemma namecmp_zero: "namecmp p q = 0 \<longleftrightarrow> take DIRSIZ (cstr p) = take DIRSIZ (cstr q)"
  by (simp add: namecmp_def strncmp_l_zero same_string_take)

lemma takeWhile_take: "takeWhile P (take n xs) = take n (takeWhile P xs)"
  by (induction xs arbitrary: n) (auto simp: take_Cons split: nat.splits)

lemma takeWhile_padded: "takeWhile (\<lambda>c. c \<noteq> 0) (takeWhile (\<lambda>c. c \<noteq> 0) x @ replicate n 0) = takeWhile (\<lambda>c. c \<noteq> 0) x"
  by (induction x) (auto simp: takeWhile_eq_Nil_iff hd_replicate)

lemma cstr_name_field: "cstr (name_field x) = take DIRSIZ (cstr x)"
  unfolding cstr_def name_field_def takeWhile_take takeWhile_padded ..

lemma length_name_field [simp]: "length (name_field x) = DIRSIZ"
  by (simp add: name_field_def)

lemma dirent_decode_encode: "length (de_name de) = DIRSIZ \<Longrightarrow> dirent_decode (dirent_encode de) = de"
  by (cases de) (simp add: dirent_decode_def dirent_encode_def get16_def le16_def)

text \<open>A directory entry survives the disk: the 16 bytes \<open>dirlink\<close> writes for the name \<open>x\<close> read back
  as an entry with the same inode number, and \<open>dirlookup\<close>'s comparison takes it for the name \<open>y\<close>
  exactly when the two names agree up to their first zero byte or their 14th byte.\<close>

theorem dirent_matches_its_name:
  "length (dirent_encode \<lparr>de_inum = n, de_name = name_field x\<rparr>) = 16 \<and>
   de_inum (dirent_decode (dirent_encode \<lparr>de_inum = n, de_name = name_field x\<rparr>)) = n \<and>
   (namecmp y (de_name (dirent_decode (dirent_encode \<lparr>de_inum = n, de_name = name_field x\<rparr>))) = 0 \<longleftrightarrow>
      take DIRSIZ (cstr y) = take DIRSIZ (cstr x))"
  by (simp add: dirent_decode_encode namecmp_zero cstr_name_field min_def) (simp add: dirent_encode_def DIRSIZ_def)

section \<open>Inodes on disk\<close>

lemma get32_splice:
  assumes "j + 4 \<le> length ys" and "k + length ys \<le> length bs"
  shows "get32 (k + j) (splice k ys bs) = get32 j ys"
  using assms by (simp add: get32_def nth_splice)

lemma get16_splice:
  assumes "j + 2 \<le> length ys" and "k + length ys \<le> length bs"
  shows "get16 (k + j) (splice k ys bs) = get16 j ys"
  using assms by (simp add: get16_def nth_splice)

lemma get_splice_other:
  assumes "k + length ys \<le> length bs"
  shows "j + 4 \<le> length bs \<Longrightarrow> j + 4 \<le> k \<or> k + length ys \<le> j \<Longrightarrow> get32 j (splice k ys bs) = get32 j bs"
    and "j + 2 \<le> length bs \<Longrightarrow> j + 2 \<le> k \<or> k + length ys \<le> j \<Longrightarrow> get16 j (splice k ys bs) = get16 j bs"
  using assms by (auto simp: get32_def get16_def nth_splice)

lemma length_words [simp]: "length (concat (map le32 ws)) = 4 * length ws"
  by (induction ws) simp_all

lemma get32_append: "get32 (length xs + j) (xs @ ys) = get32 j ys"
  by (simp add: get32_def nth_append)

lemma get32_words: "j < length ws \<Longrightarrow> get32 (4 * j) (concat (map le32 ws) @ ys) = ws ! j"
proof (induction ws arbitrary: j)
  case (Cons w ws)
  show ?case
  proof (cases j)
    case 0
    then show ?thesis by (simp add: get32_def le32_def nth_append)
  next
    case (Suc i)
    then have "get32 (4 * j) (concat (map le32 (w # ws)) @ ys) = get32 (4 * i) (concat (map le32 ws) @ ys)"
      using get32_append[of "le32 w" "4 * i"] by (simp add: add.commute)
    then show ?thesis using Cons Suc by simp
  qed
qed simp

definition dinode_ok :: "dinode \<Rightarrow> bool" where
  "dinode_ok x \<longleftrightarrow> length (di_addrs x) = NDIRECT + 1"

lemma length_dinode_bytes: "dinode_ok x \<Longrightarrow> length (dinode_bytes x) = 64"
  by (simp add: dinode_ok_def dinode_bytes_def NDIRECT_def)

lemma decode_dinode_bytes:
  assumes "dinode_ok x"
  shows "dinode_decode 0 (dinode_bytes x) = x"
proof -
  let ?h = "le16 (di_type x) @ le16 (di_major x) @ le16 (di_minor x) @ le16 (di_nlink x) @ le32 (di_size x)"
  have b: "dinode_bytes x = ?h @ concat (map le32 (di_addrs x))" by (simp add: dinode_bytes_def)
  have "get32 (12 + 4 * j) (dinode_bytes x) = di_addrs x ! j" if "j < length (di_addrs x)" for j
    using get32_append[of ?h "4 * j"] get32_words[OF that, of "[]"] unfolding b by simp
  then have "map (\<lambda>j. get32 (0 + 12 + 4 * j) (dinode_bytes x)) [0..<NDIRECT + 1] = di_addrs x"
    using assms by (intro nth_equalityI) (auto simp: dinode_ok_def simp del: upt_Suc)
  moreover have "get16 0 (dinode_bytes x) = di_type x" "get16 2 (dinode_bytes x) = di_major x"
    "get16 4 (dinode_bytes x) = di_minor x" "get16 6 (dinode_bytes x) = di_nlink x"
    "get32 8 (dinode_bytes x) = di_size x"
    by (simp_all add: dinode_bytes_def get16_def get32_def le16_def le32_def)
  ultimately show ?thesis unfolding dinode_decode_def by (cases x) (simp del: add_2_eq_Suc')
qed

lemma dinode_decode_same:
  assumes "k + 64 \<le> length d" and "dinode_ok x"
  shows "dinode_decode k (dinode_encode k x d) = x"
proof -
  note l = length_dinode_bytes[OF assms(2)]
  have "dinode_decode k (dinode_encode k x d) = dinode_decode 0 (dinode_bytes x)"
    using assms(1) l get32_splice[of _ "dinode_bytes x" k d] get16_splice[of _ "dinode_bytes x" k d]
      get16_splice[of 0 "dinode_bytes x" k d]
    by (simp add: dinode_decode_def dinode_encode_def add.assoc NDIRECT_def del: add_2_eq_Suc')
  then show ?thesis using decode_dinode_bytes[OF assms(2)] by simp
qed

text \<open>An inode survives the disk: what \<open>iupdate\<close> stores in the \<open>k\<close>-th slot of an inode block is
  what \<open>ilock\<close> reads back from it, field by field with all 13 block addresses, and the other seven
  inodes of the block are untouched.\<close>

theorem dinode_roundtrip:
  assumes "length d = BSIZE" and "k < IPB" and "length (di_addrs x) = NDIRECT + 1"
  shows "dinode_decode (64 * k) (dinode_encode (64 * k) x d) = x \<and>
    length (dinode_encode (64 * k) x d) = BSIZE \<and>
    (\<forall>j < IPB. j \<noteq> k \<longrightarrow> dinode_decode (64 * j) (dinode_encode (64 * k) x d) = dinode_decode (64 * j) d)"
proof -
  have ok: "dinode_ok x" using assms(3) by (simp add: dinode_ok_def)
  note l = length_dinode_bytes[OF ok]
  have k: "64 * k + 64 \<le> length d" using assms(1,2) by (simp add: BSIZE_def IPB_def)
  have "dinode_decode (64 * j) (dinode_encode (64 * k) x d) = dinode_decode (64 * j) d"
    if "j < IPB" "j \<noteq> k" for j
  proof -
    have j: "64 * j + 64 \<le> length d" using that(1) assms(1) by (simp add: BSIZE_def IPB_def)
    have a: "64 * j + 64 \<le> 64 * k \<or> 64 * k + 64 \<le> 64 * j" using that(2) by arith
    have e: "64 * k + length (dinode_bytes x) \<le> length d" using l k by simp
    have g: "get32 (64 * j + i) (splice (64 * k) (dinode_bytes x) d) = get32 (64 * j + i) d" if "i + 4 \<le> 64" for i
      using that j a l by (intro get_splice_other(1)[OF e]) auto
    have h: "get16 (64 * j + i) (splice (64 * k) (dinode_bytes x) d) = get16 (64 * j + i) d" if "i + 2 \<le> 64" for i
      using that j a l by (intro get_splice_other(2)[OF e]) auto
    show ?thesis
      using g h h[of 0] by (simp add: dinode_decode_def dinode_encode_def add.assoc NDIRECT_def del: add_2_eq_Suc')
  qed
  then show ?thesis using dinode_decode_same[OF k ok] k l assms(1) by (simp add: dinode_encode_def)
qed

theorem dinode_roundtrip_witness:
  "dinode_decode 128 (dinode_encode 128 \<lparr>di_type = 1, di_major = 0, di_minor = 0, di_nlink = 2, di_size = 512,
     di_addrs = 29 # replicate 12 0\<rparr> zero_block) = \<lparr>di_type = 1, di_major = 0, di_minor = 0, di_nlink = 2,
     di_size = 512, di_addrs = 29 # replicate 12 0\<rparr>"
  using dinode_roundtrip[of zero_block 2 "\<lparr>di_type = 1, di_major = 0, di_minor = 0, di_nlink = 2, di_size = 512,
     di_addrs = 29 # replicate 12 0\<rparr>"] by (simp add: IPB_def NDIRECT_def)

end
