(* ===== verification/SysFacts.thy ===== *)
theory SysFacts
  imports Sysarg ProcFacts Post
begin

text \<open>
  Properties of system call arguments: the kernel only follows pointers into the calling process, and
  reading an argument does not disturb the process table.
\<close>

section \<open>Reading user memory keeps the process table\<close>

abbreviation ktab :: "kernel \<Rightarrow> proc list \<times> int \<times> nat option" where "ktab s \<equiv> tab (kmach s)"

lemma on_mach_ktab: "post (\<lambda>m. tab m = x) (f (kmach s)) \<Longrightarrow> post (\<lambda>s. ktab s = x) (on_mach f s)"
  by (rule post_zoom) auto

lemma on_vst_ktab: "post (\<lambda>v. tab (km (vk v)) = x) (f (get_vm s)) \<Longrightarrow> post (\<lambda>s. ktab s = x) (on_vst f s)"
  by (rule post_zoom) auto

lemma kmach_set_kmem [simp]: "kmach (set_kmem f s) = kmach s"
  by (simp add: kmach_def set_kmem_def)

lemma get_user_tab: "ktab s = x \<Longrightarrow> post (\<lambda>s. ktab s = x) (get_user va s)"
  by (auto simp: get_user_def intro!: post_intro on_vst_ktab tab_inv.handle_pgflt_post)

lemma get_bytes_tab: "ktab s = x \<Longrightarrow> post (\<lambda>s. ktab s = x) (get_bytes va n s)"
  by (induction n arbitrary: va s) (auto intro!: post_intro get_user_tab)

lemma get_word_tab: "ktab s = x \<Longrightarrow> post (\<lambda>s. ktab s = x) (get_word va s)"
  by (auto simp: get_word_def intro!: post_intro get_bytes_tab)

lemma fetchint_tab: "ktab s = x \<Longrightarrow> post (\<lambda>s. ktab s = x) (fetchint a s)"
  by (auto simp: fetchint_def Let_def intro!: post_intro on_mach_ktab tab_inv.curproc_post get_word_tab)

lemma argint_tab: "ktab s = x \<Longrightarrow> post (\<lambda>s. ktab s = x) (argint n s)"
  by (auto simp: argint_def intro!: post_intro on_mach_ktab tab_inv.curproc_post fetchint_tab)

lemma tab_procs: "ktab t = ktab s \<Longrightarrow> procs t = procs s"
  by (simp add: tab_def procs_def)

section \<open>Pointers\<close>

lemma buffer_in_process:
  assumes "a < sz" and "\<not> sz < a + of_int n" and "0 \<le> n" and "n < 2 ^ 31" and "sz \<le> KERNBASE"
  shows "uint a + n \<le> uint (sz :: uint)"
proof -
  have a: "uint a < uint sz" "uint sz \<le> 2 ^ 31"
    using assms(1,5) by (simp_all add: word_less_def word_le_def KERNBASE_def)
  have n: "uint (of_int n :: uint) = n"
    using assms(3,4) by (simp add: unsigned_of_int take_bit_int_eq_self)
  then have "uint (a + of_int n) = uint a + n"
    using a assms(3,4) by (subst uint_add_lem[THEN iffD1]) simp_all
  then show ?thesis using assms(2) by (simp add: word_less_def)
qed

text \<open>C39: A buffer the kernel accepts lies in the calling process: when \<open>argptr\<close> takes an argument \<open>a\<close> as a
  pointer to \<open>n\<close> bytes, then \<open>n\<close> is not negative and \<open>a + n\<close>, computed without wrapping around,
  is at most the process's size.  Reading the argument leaves the process table as it was.\<close>

theorem argptr_inside_process:
  assumes "running c i (kmach s)" and "p_sz (procs s ! i) \<le> KERNBASE" and "nb < 2 ^ 31"
    and "argptr n nb s = Ok (Some a) t"
  shows "0 \<le> nb \<and> uint a + nb \<le> uint (p_sz (procs s ! i)) \<and> procs t = procs s"
proof -
  obtain u where u: "argint n s = Ok (Some a) u" "t = u" "\<not> nb < 0" "\<not> p_sz (kproc i u) \<le> a"
      "\<not> p_sz (kproc i u) < a + of_int nb"
    using assms(4) k_curproc[OF assms(1)]
    by (auto simp: argptr_def call_eq_Ok Let_def split: option.splits if_splits)
  have "ktab u = ktab s" using argint_tab[of s "ktab s" n] u(1) by simp
  then have p: "procs t = procs s" "kproc i u = procs s ! i"
    using u(2) tab_procs[of u s] by (simp_all add: kproc_def procs_def)
  show ?thesis
    using buffer_in_process[of a "p_sz (procs s ! i)" nb] u(3-) assms(2,3) p by auto
qed

text \<open>A process of one page, whose page table maps the address 0.\<close>

definition page_kernel :: kernel where
  "page_kernel = (quiet_kernel (one_mach\<lparr>ptable := [forked_proc]\<rparr>))\<lparr>kvm := forked_state\<rparr>"

lemma page_kernel_running: "running 0 0 (kmach page_kernel)"
  by (simp add: page_kernel_def kmach_def quiet_kernel_def running_def on_cpu_def cpu_index_def)
    (simp add: one_mach_def boot_mach_def boot_cpu_def)

lemma page_kernel_table: "procs page_kernel = [forked_proc]"
  by (simp add: page_kernel_def procs_def kmach_def quiet_kernel_def)

lemma page_kernel_walk:
  assumes "va < 4096"
  shows "walk_krn (kmem page_kernel) (cur_pgdir page_kernel) va = Some (0x504000, False)"
proof -
  have "unat va < 4096" using assms by (simp add: word_less_nat_alt)
  then have "drop_bit 12 va = 0" "drop_bit 22 va = 0"
    by (simp_all add: word_unat_eq_iff unat_drop_bit_eq drop_bit_eq_div unat_div)
  then have "PDX va = 0" "PTX va = 0" by (simp_all add: PDX_def PTX_def)
  moreover have "kmem page_kernel = forked_mem" "cur_pgdir page_kernel = 0x80500000"
    by (simp_all add: page_kernel_def kmem_def cur_pgdir_def forked_state_def P2V_def KERNBASE_def)
  ultimately show ?thesis
    by (simp add: walk_krn_def forked_loads pte_has_def pte_consts PTE_ADDR_def P2V_def KERNBASE_def)
qed

lemma page_kernel_byte:
  assumes "va < 4096"
  shows "get_user va page_kernel = Ok (forked_mem (0x80504000 + page_off va)) page_kernel"
  using page_kernel_walk[OF assms]
  by (simp add: get_user_def P2V_def KERNBASE_def) (simp add: page_kernel_def kmem_def forked_state_def)

lemma page_kernel_word: "get_word 4 page_kernel = Ok 0 page_kernel"
proof -
  have z: "forked_mem 0x80504004 = 0" "forked_mem 0x80504005 = 0" "forked_mem 0x80504006 = 0" "forked_mem 0x80504007 = 0"
    by (simp_all add: forked_mem_def store32_def)
  have "get_user 4 page_kernel = Ok 0 page_kernel" "get_user 5 page_kernel = Ok 0 page_kernel"
    "get_user 6 page_kernel = Ok 0 page_kernel" "get_user 7 page_kernel = Ok 0 page_kernel"
    using page_kernel_byte[of 4] page_kernel_byte[of 5] page_kernel_byte[of 6] page_kernel_byte[of 7] z
    by (simp_all add: page_off_def)
  then have "get_bytes 4 (Suc (Suc (Suc (Suc 0)))) page_kernel = Ok [0, 0, 0, 0] page_kernel" by simp
  then show ?thesis
    by (simp add: get_word_def numeral_eq_Suc[of "num.Bit0 (num.Bit0 num.One)"] get32_def of_le32_def
        eval_nat_numeral)
qed

theorem argptr_inside_process_witness:
  "argptr 0 100 page_kernel = Ok (Some 0) page_kernel \<and> uint (0 :: uint) + 100 \<le> 4096"
proof -
  have p: "kproc 0 page_kernel = forked_proc" using page_kernel_table by (simp add: kproc_def procs_def)
  note c = k_curproc[OF page_kernel_running]
  have "argptr 0 100 page_kernel = Ok (Some 0) page_kernel"
    using c p page_kernel_word
    by (simp add: argptr_def argint_def fetchint_def forked_proc_def zero_tf_def)
  then show ?thesis
    using argptr_inside_process[OF page_kernel_running, of 100 0 0 page_kernel] page_kernel_table
    by (simp add: forked_proc_def KERNBASE_def)
qed

end
