(* ===== verification/FileFacts.thy ===== *)
theory FileFacts
  imports ProcFacts
begin

text \<open>Properties of the open file table: references of \<open>struct file\<close>.\<close>

lemma set_file_simps [simp]:
  "kmach (set_file i f s) = kmach s" "ftable (set_file i f s) = (ftable s)[i := f (ftable s ! i)]"
  "ftable (set_kmach m s) = ftable s"
  by (simp_all add: set_file_def kmach_def put_mach_def)

lemma set_file_kmach: "set_file i f (set_kmach m s) = set_kmach m (set_file i f s)"
  by (simp add: set_file_def put_mach_def kmach_def)

lemma set_file_twice: "set_file i g (set_file i f s) = set_file i (\<lambda>x. g (f x)) s"
  by (cases "i < length (ftable s)") (simp_all add: set_file_def list_update_beyond)

lemma set_file_same: "f (ftable s ! i) = ftable s ! i \<Longrightarrow> set_file i f s = s"
  by (cases s) (simp add: set_file_def)

lemma f_ref_back: "(x :: kfile)\<lparr>f_ref := f_ref x\<rparr> = x"
  by (cases x) simp

lemma filedup_eq:
  assumes "on_cpu c (kmach s)" and "lock_free FtableLock (kmach s)" and "1 \<le> f_ref (ftable s ! i)"
  shows "filedup i s = Ok i (set_file i (\<lambda>f. f\<lparr>f_ref := f_ref f + 1\<rparr>) s)"
proof -
  let ?t = "set_file i (\<lambda>f. f\<lparr>f_ref := f_ref f + 1\<rparr>) s"
  have "on_mach (release FtableLock) (set_kmach (take_lock c FtableLock (kmach s)) ?t) = Ok () ?t"
    using k_release[of "set_kmach (take_lock c FtableLock (kmach s)) ?t" c FtableLock "kmach s"] assms
      put_mach_id[of ?t] by simp
  then show ?thesis
    using k_acquire[OF assms(1,2)] assms(3) by (simp add: filedup_def set_file_kmach)
qed

lemma fileclose_shared:
  assumes "on_cpu c (kmach s)" and "lock_free FtableLock (kmach s)" and "2 \<le> f_ref (ftable s ! i)"
    and "i < length (ftable s)"
  shows "fileclose i s = Ok () (set_file i (\<lambda>f. f\<lparr>f_ref := f_ref f - 1\<rparr>) s)"
proof -
  let ?t = "set_file i (\<lambda>f. f\<lparr>f_ref := f_ref f - 1\<rparr>) s"
  have "on_mach (release FtableLock) (set_kmach (take_lock c FtableLock (kmach s)) ?t) = Ok () ?t"
    using k_release[of "set_kmach (take_lock c FtableLock (kmach s)) ?t" c FtableLock "kmach s"] assms
      put_mach_id[of ?t] by simp
  then show ?thesis
    using k_acquire[OF assms(1,2)] assms(3,4) by (simp add: fileclose_def set_file_kmach)
qed

text \<open>\<open>fileclose\<close> undoes \<open>filedup\<close>: duplicating an open file and closing the duplicate leaves the whole
  kernel state as it was, so a descriptor that was duplicated and closed keeps its file open.\<close>

theorem filedup_fileclose_inverse:
  assumes "on_cpu c (kmach s)" and "lock_free FtableLock (kmach s)" and "i < length (ftable s)"
    and "1 \<le> f_ref (ftable s ! i)"
  shows "call (filedup i s) (\<lambda>j s. fileclose j s) = Ok () s"
proof -
  let ?t = "set_file i (\<lambda>f. f\<lparr>f_ref := f_ref f + 1\<rparr>) s"
  have "fileclose i ?t = Ok () (set_file i (\<lambda>f. f\<lparr>f_ref := f_ref f - 1\<rparr>) ?t)"
    using assms by (intro fileclose_shared) simp_all
  also have "set_file i (\<lambda>f. f\<lparr>f_ref := f_ref f - 1\<rparr>) ?t = s"
    by (simp add: set_file_twice f_ref_back set_file_same)
  finally show ?thesis using filedup_eq[OF assms(1,2,4)] by simp
qed

definition open_kernel :: kernel where
  "open_kernel = set_file 0 (\<lambda>f. f\<lparr>f_ref := 1, f_readable := True\<rparr>) (quiet_kernel family_mach)"

theorem filedup_fileclose_inverse_witness:
  "call (filedup 0 open_kernel) (\<lambda>j s. fileclose j s) = Ok () open_kernel"
proof (rule filedup_fileclose_inverse[where c = 0])
  have t: "ftable (quiet_kernel family_mach) ! 0 = \<lparr>f_type = FD_NONE, f_ref = 0, f_readable = False,
      f_writable = False, f_pipe = 0, f_ip = 0, f_off = 0\<rparr>" "0 < length (ftable (quiet_kernel family_mach))"
    by (simp_all add: quiet_kernel_def NFILE_def)
  then show "0 < length (ftable open_kernel)" "1 \<le> f_ref (ftable open_kernel ! 0)"
    by (simp_all add: open_kernel_def)
qed (simp_all add: open_kernel_def family_running)

end
