(* ===== verification/Kbd.thy ===== *)
theory Kbd
  imports Console
begin

unbundle bit_operations_syntax

text \<open>
  The keyboard driver: kbd.c and kbd.h.  What the controller's ports give is an argument: the status
  byte and the data byte.  The static variable \<open>shift\<close> is \<open>kbd_shift\<close> of the console's state.
\<close>

section \<open>The tables of kbd.h\<close>

definition KBS_DIB :: uint where "KBS_DIB = 0x01"
definition SHIFT :: uint where "SHIFT = 0x01"
definition CTL :: uint where "CTL = 0x02"
definition ALT :: uint where "ALT = 0x04"
definition CAPSLOCK :: uint where "CAPSLOCK = 0x08"
definition NUMLOCK :: uint where "NUMLOCK = 0x10"
definition SCROLLLOCK :: uint where "SCROLLLOCK = 0x20"
definition E0ESC :: uint where "E0ESC = 0x40"

lemmas shift_bits = SHIFT_def CTL_def ALT_def CAPSLOCK_def NUMLOCK_def SCROLLLOCK_def E0ESC_def

text \<open>An array of 256 bytes from its leading elements and its designated ones.\<close>

definition table :: "u8 list \<Rightarrow> (nat \<times> u8) list \<Rightarrow> nat \<Rightarrow> u8" where
  "table xs ys i = (case map_of ys i of Some c \<Rightarrow> c | None \<Rightarrow> if i < length xs then xs ! i else 0)"

definition chars :: "string \<Rightarrow> u8 list" where "chars s = map of_char s"

definition shiftcode :: "nat \<Rightarrow> uint" where
  "shiftcode i = (if i = 0x1D \<or> i = 0x9D then CTL else if i = 0x2A \<or> i = 0x36 then SHIFT
     else if i = 0x38 \<or> i = 0xB8 then ALT else 0)"

definition togglecode :: "nat \<Rightarrow> uint" where
  "togglecode i = (if i = 0x3A then CAPSLOCK else if i = 0x45 then NUMLOCK
     else if i = 0x46 then SCROLLLOCK else 0)"

definition keypad :: "(nat \<times> u8) list" where
  "keypad = [(0xC8, 0xE2), (0xD0, 0xE3), (0xC9, 0xE6), (0xD1, 0xE7), (0xCB, 0xE4), (0xCD, 0xE5),
     (0x97, 0xE0), (0xCF, 0xE1), (0xD2, 0xE8), (0xD3, 0xE9)]"

definition pad_digits :: "u8 list" where
  "pad_digits = replicate 13 0 @ chars ''789-456+1230.'' @ replicate 4 0"

definition normalmap :: "nat \<Rightarrow> u8" where
  "normalmap = table ([0, 0x1B] @ chars ''1234567890-='' @ [8, 9] @ chars ''qwertyuiop[]'' @ [10, 0] @
     chars ''asdfghjkl;'' @ [39] @ chars ''`'' @ [0, 92] @ chars ''zxcvbnm,./'' @ [0] @ chars ''*'' @
     [0, 32] @ pad_digits) ((0x9C, 10) # (0xB5, 47) # keypad)"

definition shiftmap :: "nat \<Rightarrow> u8" where
  "shiftmap = table ([0, 0x1B] @ chars ''!@#$%^&*()_+'' @ [8, 9] @ chars ''QWERTYUIOP{}'' @ [10, 0] @
     chars ''ASDFGHJKL:'' @ [34] @ chars ''~'' @ [0] @ chars ''|'' @ chars ''ZXCVBNM<>?'' @ [0] @ chars ''*'' @
     [0, 32] @ pad_digits) ((0x9C, 10) # (0xB5, 47) # keypad)"

text \<open>\<open>C(x)\<close> is \<open>x - '@'\<close>.\<close>

definition ctlmap :: "nat \<Rightarrow> u8" where
  "ctlmap = table (replicate 16 0 @ map (\<lambda>c. c - 64) (chars ''QWERTYUIOP'') @ [0, 0, 13, 0] @
     map (\<lambda>c. c - 64) (chars ''ASDFGHJKL'') @ [0, 0, 0, 0, 92 - 64] @
     map (\<lambda>c. c - 64) (chars ''ZXCVBNM'') @ [0, 0, 47 - 64, 0, 0]) ((0x9C, 13) # (0xB5, 47 - 64) # keypad)"

definition charcode :: "uint \<Rightarrow> nat \<Rightarrow> u8" where
  "charcode k = (if k = 0 then normalmap else if k = 1 then shiftmap else ctlmap)"

section \<open>kbd.c\<close>

definition caps_char :: "uint \<Rightarrow> uint" where
  "caps_char c = (if 97 \<le> c \<and> c \<le> 122 then c - 32 else if 65 \<le> c \<and> c \<le> 90 then c + 32 else c)"

text \<open>The status and data ports and \<open>shift\<close>; the result and the new \<open>shift\<close>.\<close>

definition kbdgetc :: "uint \<Rightarrow> uint \<Rightarrow> uint \<Rightarrow> int \<times> uint" where
  "kbdgetc st data shift =
     (if st AND KBS_DIB = 0 then (-1, shift)
      else if data = 0xE0 then (0, shift OR E0ESC)
      else if data AND 0x80 \<noteq> 0
      then let data = (if shift AND E0ESC \<noteq> 0 then data else data AND 0x7F) in
        (0, shift AND NOT (shiftcode (unat data) OR E0ESC))
      else let (data, shift) = (if shift AND E0ESC \<noteq> 0 then (data OR 0x80, shift AND NOT E0ESC) else (data, shift));
               shift = shift OR shiftcode (unat data);
               shift = shift XOR togglecode (unat data);
               c = ucast (charcode (shift AND (CTL OR SHIFT)) (unat data));
               c = (if shift AND CAPSLOCK \<noteq> 0 then caps_char c else c) in
        (sint c, shift))"

text \<open>The bytes the controller has, one after the other.\<close>

fun kbd_chars :: "uint list \<Rightarrow> uint \<Rightarrow> int list \<times> uint" where
  "kbd_chars [] shift = ([], shift)"
| "kbd_chars (d # ds) shift =
     (let (c, shift) = kbdgetc KBS_DIB d shift; (cs, shift) = kbd_chars ds shift in (c # cs, shift))"

text \<open>\<open>kbdintr\<close> gives \<open>consoleintr\<close> the characters until the controller has no more.\<close>

definition kbdintr :: "uint list \<Rightarrow> fss \<Rightarrow> (bool, fss) res" where
  "kbdintr ds s =
     (let (cs, shift) = kbd_chars ds (kbd_shift (con s)) in
      consoleintr cs (s\<lparr>con := (con s)\<lparr>kbd_shift := shift\<rparr>\<rparr>))"

section \<open>Letters\<close>

text \<open>The scan codes of the letters.\<close>

definition letter_keys :: "(nat \<times> char) list" where
  "letter_keys = zip [0x10..<0x1A] ''qwertyuiop'' @ zip [0x1E..<0x27] ''asdfghjkl'' @ zip [0x2C..<0x33] ''zxcvbnm''"

definition key_ok :: "nat \<times> char \<Rightarrow> bool" where
  "key_ok = (\<lambda>(k, c). (of_nat k :: uint) AND 0x80 = 0 \<and> (of_nat k :: uint) \<noteq> 0xE0 \<and> shiftcode k = 0 \<and> togglecode k = 0 \<and> normalmap k = of_char c \<and>
     shiftmap k = of_char c - 32 \<and> ctlmap k = of_char c - 96)"

lemma letter_keys_ok: "list_all key_ok letter_keys"
  by (simp add: letter_keys_def key_ok_def shiftcode_def togglecode_def normalmap_def shiftmap_def ctlmap_def
      table_def keypad_def pad_digits_def chars_def upt_rec of_char_def nth_append)

lemma letter_key:
  assumes "(k, c) \<in> set letter_keys"
  shows "(of_nat k :: uint) AND 0x80 = 0" "(of_nat k :: uint) \<noteq> 0xE0" "shiftcode k = 0" "togglecode k = 0"
    "normalmap k = of_char c" "shiftmap k = of_char c - 32" "ctlmap k = of_char c - 96"
  using letter_keys_ok assms by (auto simp: list_all_iff key_ok_def)

lemma letter_range:
  assumes "(k, c) \<in> set letter_keys"
  shows "k < 128" "97 \<le> (of_char c :: nat)" "of_char c \<le> (122 :: nat)"
proof -
  have "list_all (\<lambda>(k, c). k < 128 \<and> 97 \<le> (of_char c :: nat) \<and> of_char c \<le> (122 :: nat)) letter_keys"
    by (simp add: letter_keys_def upt_rec of_char_def)
  then show "k < 128" "97 \<le> (of_char c :: nat)" "of_char c \<le> (122 :: nat)"
    using assms by (auto simp: list_all_iff)
qed

text \<open>What a letter key gives in the shift state \<open>shift\<close>.\<close>

definition letter_char :: "uint \<Rightarrow> char \<Rightarrow> int" where
  "letter_char shift c =
     (if shift AND CTL \<noteq> 0 then of_char c - 96
      else if (shift AND SHIFT \<noteq> 0) \<noteq> (shift AND CAPSLOCK \<noteq> 0) then of_char c - 32
      else of_char c)"

lemma bit_tests: "shift AND SHIFT = 0 \<longleftrightarrow> \<not> bit shift 0" "shift AND CTL = 0 \<longleftrightarrow> \<not> bit shift 1"
  using and_exp_eq_0_iff_not_bit[of shift 0] and_exp_eq_0_iff_not_bit[of shift 1]
  by (simp_all add: SHIFT_def CTL_def)

lemma low_bits_cases:
  "shift AND (CTL OR SHIFT) = (if bit shift 1 then if bit shift 0 then 3 else 2 else if bit shift 0 then 1 else 0)"
proof -
  have "shift AND (CTL OR SHIFT) = take_bit 2 shift"
    by (simp add: CTL_def SHIFT_def take_bit_eq_mask mask_eq_exp_minus_1)
  also have "\<dots> = of_bool (bit shift 0) + 2 * of_bool (bit shift 1)"
    by (rule bit_word_eqI) (auto simp: bit_take_bit_iff less_Suc_eq numeral_2_eq_2 bit_simps)
  finally show ?thesis by simp
qed

lemma byte_uint: "n < 256 \<Longrightarrow> (ucast (of_nat n :: u8) :: uint) = of_nat n"
  by (simp add: word_unat_eq_iff unsigned_ucast_eq unsigned_of_nat take_bit_nat_eq_self)

lemma sint_small: "n < 2 ^ 31 \<Longrightarrow> sint (of_nat n :: uint) = int n"
  by (simp add: signed_of_nat signed_take_bit_int_eq_self)

definition caps_nat :: "nat \<Rightarrow> nat" where
  "caps_nat n = (if 97 \<le> n \<and> n \<le> 122 then n - 32 else if 65 \<le> n \<and> n \<le> 90 then n + 32 else n)"

lemma caps_nat_less: "n < 256 \<Longrightarrow> caps_nat n < 2 ^ 31"
  unfolding caps_nat_def by (simp split: if_split) arith?

lemma caps_char_of_nat: "n < 256 \<Longrightarrow> caps_char (of_nat n) = of_nat (caps_nat n)"
  by (simp add: caps_nat_def caps_char_def word_le_nat_alt unsigned_of_nat take_bit_nat_eq_self of_nat_diff)

text \<open>The three maps at a letter, as numbers.\<close>

definition mapped_char :: "uint \<Rightarrow> nat \<Rightarrow> nat" where
  "mapped_char shift n = (if bit shift 1 then n - 96 else if bit shift 0 then n - 32 else n)"

lemma mapped_char_less:
  assumes "(k, c) \<in> set letter_keys"
  shows "mapped_char shift (of_char c) < 256"
proof -
  have "mapped_char shift (of_char c) \<le> of_char c" by (simp add: mapped_char_def)
  also have "\<dots> < 256" using letter_range(3)[OF assms] by linarith
  finally show ?thesis .
qed

lemma charcode_letter:
  assumes "(k, c) \<in> set letter_keys"
  shows "charcode (shift AND (CTL OR SHIFT)) k = of_nat (mapped_char shift (of_char c))"
proof -
  note r = letter_range[OF assms]
  have "(of_char c :: u8) = of_nat (of_char c)" by (simp add: of_char_def horner_sum_of_bool_2_less)
  then show ?thesis
    using letter_key(5-7)[OF assms] r
    by (simp add: low_bits_cases charcode_def mapped_char_def of_nat_diff)
qed

text \<open>Letter keys obey the modifiers: with no escape pending, the scan code of the key of the letter \<open>c\<close>
  gives the control character while Control is down, and otherwise the upper case letter when exactly
  one of Shift and Caps Lock is on and the lower case letter when both or neither are; the modifiers
  stay as they are.\<close>

theorem kbdgetc_letters:
  assumes "(k, c) \<in> set letter_keys" and "st AND KBS_DIB \<noteq> 0" and "shift AND E0ESC = 0"
  shows "kbdgetc st (of_nat k) shift = (letter_char shift c, shift)"
proof -
  note key = letter_key(1-4)[OF assms(1)] and r = letter_range[OF assms(1)]
  let ?n = "of_char c :: nat"
  have u: "unat (of_nat k :: uint) = k" using r(1) by (intro unat_of_nat32) simp
  have mc: "(ucast (of_nat (mapped_char shift ?n) :: u8) :: uint) = of_nat (mapped_char shift ?n)"
    by (rule byte_uint) (rule mapped_char_less[OF assms(1)])
  have "kbdgetc st (of_nat k) shift =
      (sint (let c = of_nat (mapped_char shift ?n) in if shift AND CAPSLOCK \<noteq> 0 then caps_char c else c), shift)"
    using assms(2,3) key u mc by (simp add: kbdgetc_def charcode_letter[OF assms(1)] Let_def)
  also have "sint (let c = of_nat (mapped_char shift ?n) in if shift AND CAPSLOCK \<noteq> 0 then caps_char c else c) =
      int (if shift AND CAPSLOCK \<noteq> 0 then caps_nat (mapped_char shift ?n) else mapped_char shift ?n)"
  proof -
    have "mapped_char shift ?n < 256" "caps_nat (mapped_char shift ?n) < 2 ^ 31"
      using mapped_char_less[OF assms(1), of shift] caps_nat_less by blast+
    then show ?thesis by (simp add: caps_char_of_nat sint_small)
  qed
  also have "\<dots> = letter_char shift c"
    using r of_nat_of_char[of c, where 'a = int]
    by (auto simp: mapped_char_def letter_char_def bit_tests caps_nat_def simp del: of_nat_of_char)
  finally show ?thesis .
qed

theorem kbdgetc_letters_witness:
  "kbdgetc 1 0x1E 9 = (97, 9) \<and> kbdgetc 1 0x1E 1 = (65, 1) \<and> kbdgetc 1 0x2E 2 = (3, 2)"
proof -
  have k: "(0x1E, CHR ''a'') \<in> set letter_keys" "(0x2E, CHR ''c'') \<in> set letter_keys"
    by (simp_all add: letter_keys_def upt_rec)
  show ?thesis
    using kbdgetc_letters[OF k(1), of 1 9] kbdgetc_letters[OF k(1), of 1 1] kbdgetc_letters[OF k(2), of 1 2]
    by (simp add: letter_char_def shift_bits KBS_DIB_def of_char_def)
qed

end
