(* ===== verification/Shell.thy ===== *)
theory Shell
  imports Prelude
begin

text \<open>
  The command parser of the shell: sh.c.  A C string is the list of its bytes before the zero, and a
  pointer into the line is the rest of the line from there on.  A counted string (\<open>q\<close> and \<open>eq\<close>) is
  its bytes, which is what \<open>nulterminate\<close> turns it into.  A parse result is the outcome with the
  rest of the line as its state; \<open>panic\<close> prints and exits.
\<close>

section \<open>Commands\<close>

datatype cmd =
    EXEC "bytes list"
  | REDIR cmd bytes uint nat
  | PIPE cmd cmd
  | LIST cmd cmd
  | BACK cmd

definition MAXARGS :: nat where "MAXARGS = 10"

definition whitespace :: bytes where "whitespace = [32, 9, 13, 10, 11]"
definition symbols :: bytes where "symbols = [60, 124, 62, 38, 59, 40, 41]"

definition RDONLY :: uint where "RDONLY = 0x000"
definition WRCREATE :: uint where "WRCREATE = 0x201"

section \<open>Tokens\<close>

abbreviation is_space :: "u8 \<Rightarrow> bool" where "is_space c \<equiv> c \<in> set whitespace"
abbreviation is_symbol :: "u8 \<Rightarrow> bool" where "is_symbol c \<equiv> c \<in> set symbols"

definition skip_space :: "bytes \<Rightarrow> bytes" where
  "skip_space s = dropWhile is_space s"

text \<open>The result is the token's kind, 0 at the end of the line, its text, and the rest of the line.\<close>

definition gettoken :: "bytes \<Rightarrow> u8 \<times> bytes \<times> bytes" where
  "gettoken ps =
     (case skip_space ps of
        [] \<Rightarrow> (0, [], [])
      | c # s \<Rightarrow>
          if c = 62
          then (case s of
              d # s' \<Rightarrow> if d = 62 then (43, [c, d], skip_space s') else (c, [c], skip_space s)
            | [] \<Rightarrow> (c, [c], skip_space s))
          else if is_symbol c then (c, [c], skip_space s)
          else let w = takeWhile (\<lambda>c. \<not> is_space c \<and> \<not> is_symbol c) (c # s);
                   r = dropWhile (\<lambda>c. \<not> is_space c \<and> \<not> is_symbol c) (c # s) in
            (97, w, skip_space r))"

definition peek :: "bytes \<Rightarrow> bytes \<Rightarrow> bool" where
  "peek toks ps = (case skip_space ps of [] \<Rightarrow> False | c # _ \<Rightarrow> c \<in> set toks)"

text \<open>Steps that a parser takes on the line: skip a token, and \<open>peek\<close>'s side effect.\<close>

definition drop_token :: "bytes \<Rightarrow> bytes" where
  "drop_token ps = snd (snd (gettoken ps))"

section \<open>The parser\<close>

text \<open>
  \<open>parseredirs\<close>: the redirections to wrap around the command, in order.  The recursion is on fuel;
  \<open>parse_fuel\<close> below is always enough.
\<close>

type_synonym redir = "bytes \<times> uint \<times> nat"

definition wrap :: "cmd \<Rightarrow> redir list \<Rightarrow> cmd" where
  "wrap c rs = fold (\<lambda>(f, mode, fd) c. REDIR c f mode fd) rs c"

definition redir_of :: "u8 \<Rightarrow> bytes \<Rightarrow> redir" where
  "redir_of tok f = (if tok = 60 then (f, RDONLY, 0) else (f, WRCREATE, 1))"

fun parseredirs :: "nat \<Rightarrow> bytes \<Rightarrow> (redir list, bytes) res" where
  "parseredirs 0 ps = Fault ''fuel''"
| "parseredirs (Suc n) ps =
     (if peek [60, 62] ps
      then let (tok, _, ps) = gettoken ps; (kind, f, ps) = gettoken ps in
        if kind \<noteq> 97 then Panic ''missing file for redirection''
        else call (parseredirs n ps) (\<lambda>rs ps. Ok (redir_of tok f # rs) ps)
      else Ok [] (skip_space ps))"

text \<open>The loop of \<open>parseexec\<close>: \<open>args\<close> so far, and the redirections so far.\<close>

fun parseargs :: "nat \<Rightarrow> bytes list \<Rightarrow> redir list \<Rightarrow> bytes \<Rightarrow> (cmd, bytes) res" where
  "parseargs 0 args rs ps = Fault ''fuel''"
| "parseargs (Suc n) args rs ps =
     (if peek [124, 41, 38, 59] ps then Ok (wrap (EXEC args) rs) (skip_space ps)
      else let (tok, w, ps) = gettoken ps in
        if tok = 0 then Ok (wrap (EXEC args) rs) ps
        else if tok \<noteq> 97 then Panic ''syntax''
        else if MAXARGS \<le> length args + 1 then Panic ''too many args''
        else call (parseredirs n ps) (\<lambda>rs' ps. parseargs n (args @ [w]) (rs @ rs') ps))"

text \<open>The ampersands of \<open>parseline\<close>.\<close>

fun parseback :: "nat \<Rightarrow> cmd \<Rightarrow> bytes \<Rightarrow> (cmd, bytes) res" where
  "parseback 0 c ps = Fault ''fuel''"
| "parseback (Suc n) c ps =
     (if peek [38] ps then parseback n (BACK c) (drop_token ps) else Ok c (skip_space ps))"

fun parseline :: "nat \<Rightarrow> bytes \<Rightarrow> (cmd, bytes) res"
  and parsepipe :: "nat \<Rightarrow> bytes \<Rightarrow> (cmd, bytes) res"
  and parseexec :: "nat \<Rightarrow> bytes \<Rightarrow> (cmd, bytes) res"
  and parseblock :: "nat \<Rightarrow> bytes \<Rightarrow> (cmd, bytes) res" where
  "parseline 0 ps = Fault ''fuel''"
| "parseline (Suc n) ps =
     call (parsepipe n ps) (\<lambda>c ps.
     call (parseback n c ps) (\<lambda>c ps.
     if peek [59] ps
     then call (parseline n (drop_token ps)) (\<lambda>r ps. Ok (LIST c r) ps)
     else Ok c (skip_space ps)))"
| "parsepipe 0 ps = Fault ''fuel''"
| "parsepipe (Suc n) ps =
     call (parseexec n ps) (\<lambda>c ps.
     if peek [124] ps
     then call (parsepipe n (drop_token ps)) (\<lambda>r ps. Ok (PIPE c r) ps)
     else Ok c (skip_space ps))"
| "parseexec 0 ps = Fault ''fuel''"
| "parseexec (Suc n) ps =
     (if peek [40] ps then parseblock n ps
      else call (parseredirs n ps) (\<lambda>rs ps. parseargs n [] rs ps))"
| "parseblock 0 ps = Fault ''fuel''"
| "parseblock (Suc n) ps =
     (if \<not> peek [40] ps then Panic ''parseblock''
      else call (parseline n (drop_token ps)) (\<lambda>c ps.
        if \<not> peek [41] ps then Panic ''syntax - missing )''
        else call (parseredirs n (drop_token ps)) (\<lambda>rs ps. Ok (wrap c rs) ps)))"

definition parse_fuel :: "bytes \<Rightarrow> nat" where
  "parse_fuel s = 4 * length s + 5"

definition parsecmd :: "bytes \<Rightarrow> (cmd, bytes) res" where
  "parsecmd s =
     call (parseline (parse_fuel s) s) (\<lambda>c ps.
     if skip_space ps \<noteq> [] then Panic ''syntax'' else Ok c (skip_space ps))"

section \<open>Printing\<close>

text \<open>The reference: the text of a command, with parentheses around everything that is not a word list.\<close>

definition word_ok :: "bytes \<Rightarrow> bool" where
  "word_ok w \<longleftrightarrow> w \<noteq> [] \<and> (\<forall>c \<in> set w. \<not> is_space c \<and> \<not> is_symbol c)"

fun cmd_ok :: "cmd \<Rightarrow> bool" where
  "cmd_ok (EXEC args) \<longleftrightarrow> length args < MAXARGS \<and> (\<forall>w \<in> set args. word_ok w)"
| "cmd_ok (REDIR c f mode fd) \<longleftrightarrow> cmd_ok c \<and> word_ok f \<and> ((mode, fd) = (RDONLY, 0) \<or> (mode, fd) = (WRCREATE, 1))"
| "cmd_ok (PIPE a b) \<longleftrightarrow> cmd_ok a \<and> cmd_ok b"
| "cmd_ok (LIST a b) \<longleftrightarrow> cmd_ok a \<and> cmd_ok b"
| "cmd_ok (BACK c) \<longleftrightarrow> cmd_ok c"

definition print_word :: "bytes \<Rightarrow> bytes" where
  "print_word w = w @ [32]"

definition print_redir :: "redir \<Rightarrow> bytes" where
  "print_redir = (\<lambda>(f, mode, fd). (if fd = 0 then 60 else 62) # print_word f)"

fun print_atom :: "cmd \<Rightarrow> bytes" where
  "print_atom (EXEC args) = concat (map print_word args)"
| "print_atom (REDIR c f mode fd) = print_atom c @ print_redir (f, mode, fd)"
| "print_atom (PIPE a b) = 40 # print_atom a @ 124 # print_atom b @ [41]"
| "print_atom (LIST a b) = 40 # print_atom a @ 59 # print_atom b @ [41]"
| "print_atom (BACK c) = 40 # print_atom c @ [38, 41]"

definition print_line :: "cmd \<Rightarrow> bytes" where
  "print_line c =
     (case c of PIPE a b \<Rightarrow> print_atom a @ 124 # print_atom b
      | LIST a b \<Rightarrow> print_atom a @ 59 # print_atom b
      | BACK c \<Rightarrow> print_atom c @ [38]
      | _ \<Rightarrow> print_atom c)"

section \<open>Scanning\<close>

lemma skip_space_simps [simp]:
  "skip_space [] = []" "skip_space (c # s) = (if is_space c then skip_space s else c # s)"
  "skip_space (skip_space s) = skip_space s" "length (skip_space s) \<le> length s"
  by (simp_all add: skip_space_def dropWhile_idem length_dropWhile_le)

lemma skip_space_cases: "skip_space s = c # r \<Longrightarrow> \<not> is_space c \<and> length r < length s"
proof (induction s)
  case (Cons d s)
  then show ?case by (cases "is_space d") auto
qed simp

lemma space_symbols [simp]: "is_space c \<Longrightarrow> \<not> is_symbol c"
  by (auto simp: whitespace_def symbols_def)

lemma gettoken_skip [simp]: "gettoken (skip_space s) = gettoken s" "peek t (skip_space s) = peek t s"
    "drop_token (skip_space s) = drop_token s"
  by (simp_all add: gettoken_def peek_def drop_token_def)

lemma skip_space_less: "length x < n \<Longrightarrow> length (skip_space x) < n"
  using le_less_trans[OF skip_space_simps(4)] by blast

lemma gettoken_shorter:
  assumes "gettoken s = (t, w, r)"
  shows "length r \<le> length s" "skip_space s \<noteq> [] \<Longrightarrow> length r < length s" "t \<noteq> 0 \<Longrightarrow> length r < length s"
proof -
  have e: "skip_space s = [] \<Longrightarrow> r = [] \<and> t = 0" using assms by (simp add: gettoken_def)
  have l: "length r < length s" if ne: "skip_space s \<noteq> []"
  proof -
    obtain c q where cq: "skip_space s = c # q" using ne by (cases "skip_space s") auto
    have c: "\<not> is_space c" and q: "length q < length s" using skip_space_cases[OF cq] by blast+
    let ?P = "\<lambda>c. \<not> is_space c \<and> \<not> is_symbol c"
    have q': "length (tl q) < length s" using q by simp
    show ?thesis
    proof (cases "is_symbol c")
      case True
      then show ?thesis
        using assms skip_space_less[OF q] skip_space_less[OF q']
        by (auto simp: gettoken_def cq split: list.splits if_splits)
    next
      case False
      have "length (dropWhile ?P (c # q)) \<le> length q"
        using c False length_dropWhile_le[of ?P q] by simp
      then have "length (skip_space (dropWhile ?P (c # q))) < length s"
        using q skip_space_less le_less_trans by blast
      moreover have "c \<noteq> 62" using False by (auto simp: symbols_def)
      ultimately show ?thesis using assms False by (auto simp: gettoken_def cq Let_def)
    qed
  qed
  show "length r \<le> length s" using e l by (cases "skip_space s = []") auto
  show "skip_space s \<noteq> [] \<Longrightarrow> length r < length s" by (rule l)
  show "t \<noteq> 0 \<Longrightarrow> length r < length s" using e l by blast
qed

lemma peek_nonempty: "peek t s \<Longrightarrow> skip_space s \<noteq> []"
  by (auto simp: peek_def)

lemma drop_token_shorter: "peek t s \<Longrightarrow> length (drop_token s) < length s"
  using gettoken_shorter(2)[of s] peek_nonempty[of t s] by (cases "gettoken s") (auto simp: drop_token_def)

section \<open>The fuel is enough\<close>

text \<open>A parser run that comes to an end, with at most \<open>k\<close> bytes of the line left, or in a syntax error.\<close>

definition halts :: "nat \<Rightarrow> ('a, bytes) res \<Rightarrow> bool" where
  "halts k r \<longleftrightarrow> (case r of Ok _ s \<Rightarrow> length s \<le> k | Panic _ \<Rightarrow> True | _ \<Rightarrow> False)"

lemma halts_simps [simp]: "halts k (Ok a s) \<longleftrightarrow> length s \<le> k" "halts k (Panic e)"
  by (simp_all add: halts_def)

lemma halts_call:
  assumes "halts k r" and "\<And>a s. length s \<le> k \<Longrightarrow> halts j (f a s)"
  shows "halts j (call r f)"
  using assms by (cases r) (simp_all add: halts_def)

lemma halts_mono: "halts k r \<Longrightarrow> k \<le> j \<Longrightarrow> halts j r"
  by (cases r) (simp_all add: halts_def)

lemma parseredirs_halts: "length ps < n \<Longrightarrow> halts (length ps) (parseredirs n ps)"
proof (induction n arbitrary: ps)
  case (Suc n)
  show ?case
  proof (cases "peek [60, 62] ps")
    case True
    obtain t w r where 1: "gettoken ps = (t, w, r)" by (cases "gettoken ps") auto
    obtain k f r' where 2: "gettoken r = (k, f, r')" by (cases "gettoken r") auto
    have l: "length r' < length ps"
      using gettoken_shorter(2)[OF 1 peek_nonempty[OF True]] gettoken_shorter(1)[OF 2] by simp
    then have "halts (length r') (parseredirs n r')" using Suc by simp
    then show ?thesis using True l by (auto simp: 1 2 intro!: halts_call)
  qed simp
qed simp

lemma parseargs_halts: "length ps < n \<Longrightarrow> halts (length ps) (parseargs n args rs ps)"
proof (induction n arbitrary: args rs ps)
  case (Suc n)
  show ?case
  proof (cases "peek [124, 41, 38, 59] ps")
    case False
    obtain t w r where g: "gettoken ps = (t, w, r)" by (cases "gettoken ps") auto
    show ?thesis
    proof (cases "t = 97")
      case True
      have r: "length r < length ps" using gettoken_shorter(3)[OF g] True by simp
      have "halts (length ps) (parseargs n (args @ [w]) (rs @ rs') s)" if "length s \<le> length r" for rs' s
        by (rule halts_mono[OF Suc.IH]) (use that r Suc.prems in simp_all)
      moreover have "halts (length r) (parseredirs n r)" using parseredirs_halts r Suc.prems by simp
      ultimately show ?thesis using False True by (auto simp: g intro!: halts_call)
    qed (use False gettoken_shorter(1)[OF g] in \<open>auto simp: g\<close>)
  qed simp
qed simp

lemma parseback_halts: "length ps < n \<Longrightarrow> halts (length ps) (parseback n c ps)"
proof (induction n arbitrary: c ps)
  case (Suc n)
  show ?case
  proof (cases "peek [38] ps")
    case True
    have "halts (length ps) (parseback n (BACK c) (drop_token ps))"
      by (rule halts_mono[OF Suc.IH]) (use drop_token_shorter[OF True] Suc.prems in simp_all)
    then show ?thesis using True by simp
  qed simp
qed simp

lemma parsers_halt:
  "4 * length ps + 4 \<le> n \<Longrightarrow> halts (length ps) (parseline n ps)"
  "4 * length ps + 3 \<le> n \<Longrightarrow> halts (length ps) (parsepipe n ps)"
  "4 * length ps + 2 \<le> n \<Longrightarrow> halts (length ps) (parseexec n ps)"
  "4 * length ps + 1 \<le> n \<Longrightarrow> halts (length ps) (parseblock n ps)"
proof (induction n arbitrary: ps)
  case (Suc n)
  note drop = drop_token_shorter
  {
    case 1
    have line: "halts (length ps) (call (parseline n (drop_token s)) (\<lambda>r s. Ok (LIST c r) s))"
      if "peek [59] s" "length s \<le> length ps" for c s
      by (rule halts_call[OF Suc.IH(1)]) (use drop[OF that(1)] that 1 in simp_all)
    have amp: "halts (length ps) (parseback n c s)" if "length s \<le> length ps" for c s
      by (rule halts_mono[OF parseback_halts]) (use that 1 in simp_all)
    show ?case unfolding parseline.simps
      by (rule halts_call[OF Suc.IH(2)], use 1 in simp, rule halts_call[OF amp])
        (auto simp: line intro: order_trans[OF skip_space_simps(4)])
  next
    case 2
    have pipe: "halts (length ps) (call (parsepipe n (drop_token s)) (\<lambda>r s. Ok (PIPE c r) s))"
      if "peek [124] s" "length s \<le> length ps" for c s
      by (rule halts_call[OF Suc.IH(2)]) (use drop[OF that(1)] that 2 in simp_all)
    show ?case unfolding parsepipe.simps
      by (rule halts_call[OF Suc.IH(3)]) (use 2 in \<open>auto simp: pipe intro: order_trans[OF skip_space_simps(4)]\<close>)
  next
    case 3
    have args: "halts (length ps) (parseargs n [] rs s)" if "length s \<le> length ps" for rs s
      by (rule halts_mono[OF parseargs_halts]) (use that 3 in simp_all)
    show ?case using 3 by (auto intro!: Suc.IH(4) halts_call[OF parseredirs_halts] args)
  next
    case 4
    have redirs: "halts (length ps) (call (parseredirs n (drop_token s)) (\<lambda>rs s. Ok (wrap c rs) s))"
      if "peek [41] s" "length s \<le> length ps" for c s
      by (rule halts_call[OF parseredirs_halts]) (use drop[OF that(1)] that 4 in simp_all)
    have "halts (length ps) (call (parseline n (drop_token ps)) (\<lambda>c s. if \<not> peek [41] s then Panic ''syntax - missing )''
        else call (parseredirs n (drop_token s)) (\<lambda>rs s. Ok (wrap c rs) s)))" if "peek [40] ps"
      by (rule halts_call[OF Suc.IH(1)]) (use drop[OF that] 4 in \<open>auto simp: redirs\<close>)
    then show ?case by simp
  }
qed simp_all

text \<open>C36: The shell's parser comes to an end on every line a user types: \<open>parsecmd\<close> returns a command
  with the whole line read, or exits with a syntax error, and it never recurses or loops for ever; the
  fuel that bounds the model's recursion is never used up.\<close>

theorem parsecmd_terminates:
  "(\<exists>c. parsecmd s = Ok c []) \<or> (\<exists>e. parsecmd s = Panic e)"
proof -
  have "halts (length s) (parseline (parse_fuel s) s)"
    by (rule parsers_halt(1)) (simp add: parse_fuel_def)
  then show ?thesis by (cases "parseline (parse_fuel s) s") (simp_all add: parsecmd_def halts_def)
qed

section \<open>Parsing what is printed\<close>

definition starts :: "bytes \<Rightarrow> bytes \<Rightarrow> bool" where
  "starts t s \<longleftrightarrow> (case skip_space s of [] \<Rightarrow> True | c # _ \<Rightarrow> c \<in> set t)"

lemma starts_not_peek: "starts t s \<Longrightarrow> set t \<inter> set u = {} \<Longrightarrow> \<not> peek u s"
  by (auto simp: starts_def peek_def split: list.splits)

lemma parseredirs_skip [simp]: "parseredirs n (skip_space s) = parseredirs n s"
  by (cases n) simp_all

lemma parseargs_skip [simp]: "parseargs n args rs (skip_space s) = parseargs n args rs s"
  by (cases n) simp_all

lemma parseexec_skip [simp]: "parseexec n (skip_space s) = parseexec n s"
proof (cases n)
  case (Suc k)
  then show ?thesis by (cases k) simp_all
qed simp

lemma parsepipe_skip [simp]: "parsepipe n (skip_space s) = parsepipe n s"
  by (cases n) simp_all

lemma parseline_skip [simp]: "parseline n (skip_space s) = parseline n s"
  by (cases n) simp_all

lemma word_chars: "word_ok w \<Longrightarrow> \<exists>c v. w = c # v \<and> \<not> is_space c \<and> \<not> is_symbol c"
  by (cases w) (auto simp: word_ok_def)

lemma gettoken_word:
  assumes "word_ok w"
  shows "gettoken (print_word w @ s) = (97, w, skip_space s)"
proof -
  let ?P = "\<lambda>c. \<not> is_space c \<and> \<not> is_symbol c"
  obtain c v where w: "w = c # v" "?P c" using word_chars[OF assms] by blast
  have sp: "is_space 32" by (simp add: whitespace_def)
  have "\<forall>c \<in> set w. ?P c" using assms by (simp add: word_ok_def)
  then have "takeWhile ?P (w @ 32 # s) = w" "dropWhile ?P (w @ 32 # s) = 32 # s"
    using sp by (simp_all add: takeWhile_append2 dropWhile_append2)
  moreover have "c \<noteq> 62" using w by (auto simp: symbols_def)
  ultimately show ?thesis using w sp by (simp add: gettoken_def print_word_def Let_def)
qed

definition redir_ok :: "redir \<Rightarrow> bool" where
  "redir_ok = (\<lambda>(f, mode, fd). word_ok f \<and> ((mode, fd) = (RDONLY, 0) \<or> (mode, fd) = (WRCREATE, 1)))"

definition print_redirs :: "redir list \<Rightarrow> bytes" where
  "print_redirs rs = concat (map print_redir rs)"

lemma print_redirs_simps [simp]:
  "print_redirs [] = []" "print_redirs (r # rs) = print_redir r @ print_redirs rs"
  by (simp_all add: print_redirs_def)

lemma length_print_redirs: "length rs \<le> length (print_redirs rs)"
  by (induction rs) (auto simp: print_redir_def split: prod.splits)

lemma symbol_not_space: "is_symbol c \<Longrightarrow> \<not> is_space c"
  using space_symbols by blast

lemma drop_symbol: "is_symbol c \<Longrightarrow> c \<noteq> 62 \<Longrightarrow> drop_token (c # s) = skip_space s"
  by (simp add: drop_token_def gettoken_def symbol_not_space)

lemma symbols_list [simp]: "is_symbol 60" "is_symbol 124" "is_symbol 62" "is_symbol 38" "is_symbol 59"
    "is_symbol 40" "is_symbol 41"
  by (simp_all add: symbols_def)

lemma peek_symbol: "is_symbol c \<Longrightarrow> peek t (c # s) \<longleftrightarrow> c \<in> set t"
  by (simp add: peek_def symbol_not_space)

lemma peek_word: "word_ok w \<Longrightarrow> set t \<subseteq> set symbols \<Longrightarrow> \<not> peek t (print_word w @ s)"
  using word_chars[of w] by (auto simp: peek_def print_word_def)

lemma gettoken_redir:
  assumes "redir_ok r" and "r = (f, mode, fd)"
  shows "gettoken (print_redir r @ s) = (if fd = 0 then 60 else 62, [if fd = 0 then 60 else 62], print_word f @ s)"
proof -
  obtain c v where f: "f = c # v" "\<not> is_space c" "\<not> is_symbol c"
    using word_chars[of f] assms by (auto simp: redir_ok_def)
  then have "c \<noteq> 62" by auto
  then show ?thesis using f assms(2) symbol_not_space
    by (simp add: print_redir_def print_word_def gettoken_def)
qed

lemma peek_redir: "peek t (print_redir r @ s) \<longleftrightarrow> (if snd (snd r) = 0 then 60 else 62) \<in> set t"
  by (cases r) (simp add: print_redir_def peek_symbol)

lemma parseredirs_print:
  assumes "\<forall>r \<in> set rs. redir_ok r" and "\<not> peek [60, 62] t" and "length rs < n"
  shows "parseredirs n (print_redirs rs @ t) = Ok rs (skip_space t)"
  using assms
proof (induction rs arbitrary: n)
  case Nil
  then show ?case by (cases n) simp_all
next
  case (Cons r rs)
  obtain f mode fd where r: "r = (f, mode, fd)" by (cases r)
  have ok: "redir_ok r" "word_ok f" using Cons.prems r by (auto simp: redir_ok_def)
  then have of: "redir_of (if fd = 0 then 60 else 62) f = r" by (auto simp: redir_of_def redir_ok_def r)
  obtain k where n: "n = Suc k" "length rs < k" using Cons.prems(3) by (cases n) auto
  have "parseredirs k (print_redirs rs @ t) = Ok rs (skip_space t)"
    using Cons.IH n Cons.prems by simp
  then show ?case
    using of ok n by (simp add: peek_redir gettoken_redir[OF ok(1) r] gettoken_word[OF ok(2)])
qed

text \<open>The words of a command with its redirections after them.\<close>

lemma parsewords_print:
  assumes "\<forall>w \<in> set ws. word_ok w" and "\<forall>r \<in> set rs. redir_ok r" and "starts [124, 41, 38, 59] t"
    and "length args + length ws < MAXARGS" and "length ws + length rs < m" and "length ws + length rs < n"
  shows "call (parseredirs m (concat (map print_word ws) @ print_redirs rs @ t))
      (\<lambda>rs' s. parseargs n args (rs0 @ rs') s) = Ok (wrap (EXEC (args @ ws)) (rs0 @ rs)) (skip_space t)"
  using assms
proof (induction ws arbitrary: args m n rs0)
  case Nil
  have "\<not> peek [60, 62] t" by (rule starts_not_peek[OF Nil.prems(3)]) simp
  then have r: "parseredirs m (print_redirs rs @ t) = Ok rs (skip_space t)"
    using parseredirs_print Nil.prems by simp
  obtain k where n: "n = Suc k" using Nil.prems by (cases n) auto
  have "skip_space t = [] \<or> peek [124, 41, 38, 59] t"
    using Nil.prems(3) by (auto simp: starts_def peek_def split: list.splits)
  then show ?case using r by (auto simp: n gettoken_def)
next
  case (Cons w ws)
  obtain j where m: "m = Suc j" using Cons.prems by (cases m) auto
  obtain k where n: "n = Suc k" using Cons.prems by (cases n) auto
  have w: "word_ok w" using Cons.prems by simp
  have p: "\<not> peek [60, 62] (print_word w @ s)" "\<not> peek [124, 41, 38, 59] (print_word w @ s)" for s
    using peek_word[OF w] by (simp_all add: symbols_def)
  show ?case
    using Cons.IH[of "args @ [w]" k k rs0] Cons.prems p
    by (simp add: m n gettoken_word[OF w])
qed

lemma wrap_simps [simp]: "wrap c [] = c" "wrap c ((f, mode, fd) # rs) = wrap (REDIR c f mode fd) rs"
  by (simp_all add: wrap_def)

text \<open>What an atom and a line promise to the parsers that call for one.\<close>

definition atom_parses :: "cmd \<Rightarrow> bool" where
  "atom_parses c \<longleftrightarrow> (\<forall>n rs t. (\<forall>r \<in> set rs. redir_ok r) \<longrightarrow> starts [124, 41, 38, 59] t \<longrightarrow>
     4 * length (print_atom c @ print_redirs rs @ t) + 2 \<le> n \<longrightarrow>
     parseexec n (print_atom c @ print_redirs rs @ t) = Ok (wrap c rs) (skip_space t))"

definition line_parses :: "cmd \<Rightarrow> bool" where
  "line_parses c \<longleftrightarrow> (\<forall>n t. starts [41] t \<longrightarrow> 4 * length (print_line c @ t) + 4 \<le> n \<longrightarrow>
     parseline n (print_line c @ t) = Ok c (skip_space t))"

lemma atom_parses_redirsD:
  assumes "atom_parses c" and "\<forall>r \<in> set rs. redir_ok r" and "starts [124, 41, 38, 59] t"
    and "4 * length (print_atom c @ print_redirs rs @ t) + 2 \<le> n"
  shows "parseexec n (print_atom c @ print_redirs rs @ t) = Ok (wrap c rs) (skip_space t)"
  using assms unfolding atom_parses_def by blast

lemma atom_parsesD:
  assumes "atom_parses c" and "starts [124, 41, 38, 59] t" and "4 * length (print_atom c @ t) + 2 \<le> n"
  shows "parseexec n (print_atom c @ t) = Ok c (skip_space t)"
  using assms(1)[unfolded atom_parses_def, rule_format, of "[]" t n] assms(2,3) by simp

lemma parsepipe_atom:
  assumes "atom_parses c" and "starts [41, 38, 59] t" and "4 * length (print_atom c @ t) + 3 \<le> n"
  shows "parsepipe n (print_atom c @ t) = Ok c (skip_space t)"
proof -
  obtain k where n: "n = Suc k" using assms(3) by (cases n) auto
  have s: "starts [124, 41, 38, 59] t" using assms(2) by (auto simp: starts_def split: list.splits)
  have "\<not> peek [124] t" by (rule starts_not_peek[OF assms(2)]) simp
  then show ?thesis using atom_parsesD[OF assms(1) s, of k] assms(3) by (simp add: n)
qed

lemma starts_symbol: "is_symbol c \<Longrightarrow> starts t (c # s) \<longleftrightarrow> c \<in> set t"
  by (simp add: starts_def symbol_not_space)

lemma skip_symbol: "is_symbol c \<Longrightarrow> skip_space (c # s) = c # s"
  by (simp add: symbol_not_space)

lemma parseline_atom:
  assumes a: "atom_parses c" and t: "starts [41] t" and f: "4 * length (print_atom c @ t) + 4 \<le> n"
  shows "parseline n (print_atom c @ t) = Ok c (skip_space t)"
proof -
  have n: "n = Suc (Suc (n - 2))" using f by simp
  obtain k where n: "n = Suc (Suc k)" using n by blast
  have s: "starts [41, 38, 59] t" using t by (auto simp: starts_def split: list.splits)
  have "\<not> peek [38] t" "\<not> peek [59] t" by (rule starts_not_peek[OF t], simp)+
  then show ?thesis
    using parsepipe_atom[OF a s, of "Suc k"] f by (simp add: n del: parsepipe.simps)
qed

lemma line_atom: "atom_parses c \<Longrightarrow> print_line c = print_atom c \<Longrightarrow> line_parses c"
  by (simp add: line_parses_def parseline_atom)

lemma line_pipe:
  assumes a: "atom_parses a" and b: "atom_parses b"
  shows "line_parses (PIPE a b)"
  unfolding line_parses_def
proof (intro allI impI)
  fix n t assume t: "starts [41] t" and f: "4 * length (print_line (PIPE a b) @ t) + 4 \<le> n"
  have "n = Suc (Suc (Suc (n - 3)))" using f by simp
  then obtain k where n: "n = Suc (Suc (Suc k))" by blast
  have s: "starts [41, 38, 59] t" using t by (auto simp: starts_def split: list.splits)
  have "\<not> peek [38] t" "\<not> peek [59] t" by (rule starts_not_peek[OF t], simp)+
  moreover have "parseexec (Suc k) (print_atom a @ 124 # print_atom b @ t) = Ok a (124 # print_atom b @ t)"
    using atom_parsesD[OF a, of "124 # print_atom b @ t" "Suc k"] f
    by (simp add: n print_line_def starts_symbol skip_symbol del: parseexec.simps skip_space_simps(2))
  moreover have "parsepipe (Suc k) (print_atom b @ t) = Ok b (skip_space t)"
    using parsepipe_atom[OF b s, of "Suc k"] f by (simp add: n print_line_def)
  ultimately show "parseline n (print_line (PIPE a b) @ t) = Ok (PIPE a b) (skip_space t)"
    by (simp add: n print_line_def peek_symbol drop_symbol del: parseexec.simps parsepipe.simps(2))
       (simp add: parsepipe.simps(2) peek_symbol drop_symbol del: parseexec.simps)
qed

lemma line_list:
  assumes a: "atom_parses a" and b: "atom_parses b"
  shows "line_parses (LIST a b)"
  unfolding line_parses_def
proof (intro allI impI)
  fix n t assume t: "starts [41] t" and f: "4 * length (print_line (LIST a b) @ t) + 4 \<le> n"
  have "n = Suc (Suc (n - 2))" using f by simp
  then obtain k where n: "n = Suc (Suc k)" by blast
  have "parsepipe (Suc k) (print_atom a @ 59 # print_atom b @ t) = Ok a (59 # print_atom b @ t)"
    using parsepipe_atom[OF a, of "59 # print_atom b @ t" "Suc k"] f
    by (simp add: n print_line_def starts_symbol skip_symbol del: parsepipe.simps skip_space_simps(2))
  moreover have "parseline (Suc k) (print_atom b @ t) = Ok b (skip_space t)"
    by (rule parseline_atom[OF b t]) (use f in \<open>simp add: n print_line_def\<close>)
  ultimately show "parseline n (print_line (LIST a b) @ t) = Ok (LIST a b) (skip_space t)"
    by (simp add: n parseline.simps(2)[of "Suc k"] print_line_def peek_symbol drop_symbol skip_symbol
        del: parsepipe.simps parseline.simps skip_space_simps(2))
qed

lemma line_back:
  assumes c: "atom_parses c"
  shows "line_parses (BACK c)"
  unfolding line_parses_def
proof (intro allI impI)
  fix n t assume t: "starts [41] t" and f: "4 * length (print_line (BACK c) @ t) + 4 \<le> n"
  have "n = Suc (Suc (Suc (n - 3)))" using f by simp
  then obtain k where n: "n = Suc (Suc (Suc k))" by blast
  have "\<not> peek [38] t" "\<not> peek [59] t" by (rule starts_not_peek[OF t], simp)+
  moreover have "parsepipe (Suc (Suc k)) (print_atom c @ 38 # t) = Ok c (38 # t)"
    using parsepipe_atom[OF c, of "38 # t" "Suc (Suc k)"] f
    by (simp add: n print_line_def starts_symbol skip_symbol del: parsepipe.simps skip_space_simps(2))
  ultimately show "parseline n (print_line (BACK c) @ t) = Ok (BACK c) (skip_space t)"
    by (simp add: n print_line_def peek_symbol drop_symbol skip_symbol del: parsepipe.simps skip_space_simps(2))
qed

text \<open>A line between parentheses is an atom.\<close>

lemma block_atom:
  assumes l: "line_parses c" and p: "print_atom c = 40 # print_line c @ [41]"
  shows "atom_parses c"
  unfolding atom_parses_def
proof (intro allI impI)
  fix n rs t assume rs: "\<forall>r \<in> set rs. redir_ok r" and t: "starts [124, 41, 38, 59] t"
    and f: "4 * length (print_atom c @ print_redirs rs @ t) + 2 \<le> n"
  have "n = Suc (Suc (n - 2))" using f by simp
  then obtain k where n: "n = Suc (Suc k)" by blast
  let ?r = "print_redirs rs @ t"
  have "parseline k (print_line c @ 41 # ?r) = Ok c (41 # ?r)"
    using l[unfolded line_parses_def, rule_format, of "41 # ?r" k] f
    by (simp add: n p starts_symbol skip_symbol del: skip_space_simps(2))
  moreover have "\<not> peek [60, 62] t" by (rule starts_not_peek[OF t]) simp
  then have "parseredirs k ?r = Ok rs (skip_space t)"
    by (rule parseredirs_print[OF rs]) (use f length_print_redirs[of rs] in \<open>simp add: n p\<close>)
  ultimately show "parseexec n (print_atom c @ ?r) = Ok (wrap c rs) (skip_space t)"
    by (simp add: n p peek_symbol drop_symbol)
qed

lemma exec_atom:
  assumes "cmd_ok (EXEC args)"
  shows "atom_parses (EXEC args)"
  unfolding atom_parses_def
proof (intro allI impI)
  fix n rs t assume rs: "\<forall>r \<in> set rs. redir_ok r" and t: "starts [124, 41, 38, 59] t"
    and f: "4 * length (print_atom (EXEC args) @ print_redirs rs @ t) + 2 \<le> n"
  obtain k where n: "n = Suc k" using f by (cases n) auto
  have "length args \<le> length (concat (map print_word args))"
    by (induction args) (simp_all add: print_word_def)
  then have l: "length args + length rs < k" using f length_print_redirs[of rs] by (simp add: n)
  have ok: "\<forall>w \<in> set args. word_ok w" "length ([] :: bytes list) + length args < MAXARGS"
    using assms by simp_all
  have "\<not> peek [40] (print_atom (EXEC args) @ print_redirs rs @ t)"
  proof (cases args)
    case Nil
    have "\<not> peek [40] t" by (rule starts_not_peek[OF t]) simp
    then show ?thesis using Nil by (cases rs) (simp_all add: peek_redir)
  next
    case (Cons w ws)
    then have "word_ok w" using ok by simp
    then show ?thesis using Cons peek_word[of w "[40]"] by (simp add: symbols_def)
  qed
  then show "parseexec n (print_atom (EXEC args) @ print_redirs rs @ t) = Ok (wrap (EXEC args) rs) (skip_space t)"
    using parsewords_print[OF ok(1) rs t ok(2) l l, of "[]"] by (simp add: n)
qed

lemma redir_atom:
  assumes "atom_parses c" and "redir_ok (f, mode, fd)"
  shows "atom_parses (REDIR c f mode fd)"
  unfolding atom_parses_def
proof (intro allI impI)
  fix n rs t assume "\<forall>r \<in> set rs. redir_ok r" and t: "starts [124, 41, 38, 59] t"
    and f: "4 * length (print_atom (REDIR c f mode fd) @ print_redirs rs @ t) + 2 \<le> n"
  then have rs: "\<forall>r \<in> set ((f, mode, fd) # rs). redir_ok r" using assms(2) by simp
  have "parseexec n (print_atom c @ print_redirs ((f, mode, fd) # rs) @ t) = Ok (wrap c ((f, mode, fd) # rs)) (skip_space t)"
    by (rule atom_parses_redirsD[OF assms(1) rs t]) (use f in simp)
  then show "parseexec n (print_atom (REDIR c f mode fd) @ print_redirs rs @ t)
      = Ok (wrap (REDIR c f mode fd) rs) (skip_space t)"
    by simp
qed

lemma all_atoms: "cmd_ok c \<Longrightarrow> atom_parses c"
  by (induction c)
    (auto intro: exec_atom redir_atom block_atom line_pipe line_list line_back simp: redir_ok_def print_line_def
      simp del: cmd_ok.simps(1))

text \<open>C22: Every command the shell can represent has a text the parser reads back as exactly that
  command: printing it, parenthesised and with its redirections after it, and parsing the line with
  \<open>parsecmd\<close> gives the command and leaves nothing of the line over.\<close>

theorem parsecmd_print_line:
  assumes "cmd_ok c"
  shows "parsecmd (print_line c) = Ok c []"
proof -
  have "line_parses c" using assms
    by (cases c) (auto intro!: line_atom line_pipe line_list line_back all_atoms simp: print_line_def
      simp del: cmd_ok.simps(1,2))
  then have "parseline (parse_fuel (print_line c)) (print_line c @ []) = Ok c (skip_space [])"
    unfolding line_parses_def by (elim allE[of _ "parse_fuel (print_line c)"] allE[of _ "[]"] impE)
      (simp_all add: starts_def parse_fuel_def)
  then show ?thesis by (simp add: parsecmd_def)
qed

text \<open>\<open>(ls -l > f) | (wc ; cat &)\<close>.\<close>

definition sample_cmd :: cmd where
  "sample_cmd = PIPE (REDIR (EXEC [[108, 115], [45, 108]]) [102] WRCREATE 1) (LIST (EXEC [[119, 99]]) (BACK (EXEC [[99, 97, 116]])))"

lemma parsecmd_print_line_witness: "parsecmd (print_line sample_cmd) = Ok sample_cmd []"
  by (rule parsecmd_print_line)
    (simp add: sample_cmd_def word_ok_def whitespace_def symbols_def MAXARGS_def)

end
