(* ===== verification/AddrSpace.thy ===== *)
theory AddrSpace
  imports Vm
begin

unbundle bit_operations_syntax

text \<open>
  Address spaces as functions: what the page tables of a directory say for every address
  (\<open>pte_at\<close>), what \<open>mappages\<close>, \<open>setupkvm\<close> and \<open>copyuvm\<close> make of it, and the theorem that a
  forked child sees its parent's memory through the same frames, copy on write.
\<close>

section \<open>The indices of an address\<close>

definition pageno :: "uint \<Rightarrow> nat" where
  "pageno va = unat va div 4096"

lemma unat_and_1023: "unat ((w :: uint) AND 0x3FF) = unat w mod 1024"
proof -
  have "w AND 0x3FF = take_bit 10 w" by (simp add: take_bit_eq_mask mask_eq_exp_minus_1)
  then show ?thesis by (simp add: take_bit_eq_mod unat_mod)
qed

lemma unat_PTX: "unat (PTX va) = pageno va mod 1024"
  by (simp add: PTX_def pageno_def unat_and_1023 drop_bit_eq_div unat_div)

lemma unat_PDX: "unat (PDX va) = pageno va div 1024"
proof -
  have "unat va div 4194304 < 1024" using unat_lt32[of va] by simp
  moreover have "pageno va div 1024 = unat va div 4194304" by (simp add: pageno_def div_mult2_eq[symmetric])
  ultimately show ?thesis
    by (simp add: PDX_def unat_and_1023 drop_bit_eq_div unat_div)
qed

lemma pageno_same: "PDX a = PDX b \<and> PTX a = PTX b \<longleftrightarrow> pageno a = pageno b"
proof
  assume "PDX a = PDX b \<and> PTX a = PTX b"
  then have "pageno a div 1024 = pageno b div 1024" "pageno a mod 1024 = pageno b mod 1024"
    by (simp_all add: unat_PDX[symmetric] unat_PTX[symmetric])
  then show "pageno a = pageno b" by (metis div_mult_mod_eq)
qed (simp add: word_unat_eq_iff unat_PDX unat_PTX)

section \<open>What the page tables say\<close>

text \<open>
  \<open>has_table m d i\<close> and \<open>table_of m d i\<close>: the page table that entry \<open>i\<close> of the directory \<open>d\<close> points
  to.  \<open>pte_at m d va\<close>: the entry of the page of \<open>va\<close>, 0 where there is no table.
\<close>

definition has_table :: "memory \<Rightarrow> uint \<Rightarrow> uint \<Rightarrow> bool" where
  "has_table m d i \<longleftrightarrow> pte_has (load32 m (d + 4 * i)) PTE_P"

definition table_of :: "memory \<Rightarrow> uint \<Rightarrow> uint \<Rightarrow> uint" where
  "table_of m d i = P2V (PTE_ADDR (load32 m (d + 4 * i)))"

definition pte_at :: "memory \<Rightarrow> uint \<Rightarrow> uint \<Rightarrow> uint" where
  "pte_at m d va = (if has_table m d (PDX va) then load32 m (table_of m d (PDX va) + 4 * PTX va) else 0)"

definition dir_pages :: "memory \<Rightarrow> uint \<Rightarrow> uint set" where
  "dir_pages m d = insert d (table_of m d ` {i. unat i < 1024 \<and> has_table m d i})"

text \<open>A directory whose tables are pages of its own, different from each other.\<close>

definition dir_ok :: "uint \<Rightarrow> memory \<Rightarrow> uint \<Rightarrow> bool" where
  "dir_ok e m d \<longleftrightarrow> (\<forall>p \<in> dir_pages m d. page_ok e p) \<and>
     (\<forall>i. unat i < 1024 \<longrightarrow> has_table m d i \<longrightarrow> table_of m d i \<noteq> d \<and>
        pte_has (load32 m (d + 4 * i)) PTE_U \<and> pte_has (load32 m (d + 4 * i)) PTE_W) \<and>
     inj_on (table_of m d) {i. unat i < 1024 \<and> has_table m d i}"

lemma dir_pages_simps:
  "d \<in> dir_pages m d"
  "unat i < 1024 \<Longrightarrow> has_table m d i \<Longrightarrow> table_of m d i \<in> dir_pages m d"
  by (auto simp: dir_pages_def)

lemma dir_okD:
  assumes "dir_ok e m d"
  shows "page_ok e d"
    and "\<And>p. p \<in> dir_pages m d \<Longrightarrow> page_ok e p"
    and "\<And>i. unat i < 1024 \<Longrightarrow> has_table m d i \<Longrightarrow> page_ok e (table_of m d i) \<and> table_of m d i \<noteq> d"
    and "\<And>i j. unat i < 1024 \<Longrightarrow> unat j < 1024 \<Longrightarrow> has_table m d i \<Longrightarrow> has_table m d j \<Longrightarrow>
      table_of m d i = table_of m d j \<longleftrightarrow> i = j"
  using assms dir_pages_simps unfolding dir_ok_def inj_on_def by blast+

text \<open>Writes to other pages are not seen.\<close>

lemma load32_page_cong:
  assumes "unat i < 1024" and "\<And>x. in_page p x \<Longrightarrow> m' x = m x"
  shows "load32 m' (p + 4 * i) = load32 m (p + 4 * i)"
  by (rule load32_cong) (use assms slot_in_page in blast)

lemma dir_cong:
  assumes same: "\<And>p x. p \<in> dir_pages m d \<Longrightarrow> in_page p x \<Longrightarrow> m' x = m x"
  shows "unat i < 1024 \<Longrightarrow> has_table m' d i \<longleftrightarrow> has_table m d i"
    and "unat i < 1024 \<Longrightarrow> table_of m' d i = table_of m d i"
    and "dir_pages m' d = dir_pages m d"
    and "pte_at m' d va = pte_at m d va"
    and "dir_ok e m' d \<longleftrightarrow> dir_ok e m d"
proof -
  have d: "load32 m' (d + 4 * i) = load32 m (d + 4 * i)" if "unat i < 1024" for i
    using load32_page_cong[OF that] same dir_pages_simps(1) by blast
  then show t: "unat i < 1024 \<Longrightarrow> has_table m' d i \<longleftrightarrow> has_table m d i"
    "unat i < 1024 \<Longrightarrow> table_of m' d i = table_of m d i" for i
    by (simp_all add: has_table_def table_of_def)
  have s: "{i. unat i < 1024 \<and> has_table m' d i} = {i. unat i < 1024 \<and> has_table m d i}"
    using t by auto
  show p: "dir_pages m' d = dir_pages m d"
    unfolding dir_pages_def s using t(2) by (auto intro!: image_cong)
  have "load32 m' (table_of m d (PDX va) + 4 * PTX va) = load32 m (table_of m d (PDX va) + 4 * PTX va)"
    if "has_table m d (PDX va)"
    using load32_page_cong[OF PTX_bound] same dir_pages_simps(2)[OF PDX_bound that] by blast
  then show "pte_at m' d va = pte_at m d va" using t PDX_bound by (simp add: pte_at_def)
  have "inj_on (table_of m' d) {i. unat i < 1024 \<and> has_table m' d i} \<longleftrightarrow>
      inj_on (table_of m d) {i. unat i < 1024 \<and> has_table m d i}"
    unfolding s using t(2) by (intro inj_on_cong) auto
  then show "dir_ok e m' d \<longleftrightarrow> dir_ok e m d" using p t d by (simp add: dir_ok_def)
qed

text \<open>An entry written in place.\<close>

definition pte_slot :: "memory \<Rightarrow> uint \<Rightarrow> uint \<Rightarrow> uint" where
  "pte_slot m d va = table_of m d (PDX va) + 4 * PTX va"

lemma slot_eq: "unat i < 1024 \<Longrightarrow> unat j < 1024 \<Longrightarrow> (p :: uint) + 4 * i = p + 4 * j \<longleftrightarrow> i = j"
  by (metis add_left_cancel nat_mult_eq_cancel1 slot_offset unsigned_word_eqI zero_less_numeral)

lemma store_pte:
  fixes w :: uint
  assumes ok: "dir_ok e m d" and t: "has_table m d (PDX va)"
  defines "m' \<equiv> store32 (pte_slot m d va) w m"
  shows "unat i < 1024 \<Longrightarrow> has_table m' d i \<longleftrightarrow> has_table m d i"
    and "unat i < 1024 \<Longrightarrow> table_of m' d i = table_of m d i"
    and "dir_pages m' d = dir_pages m d"
    and "dir_ok e m' d"
    and "pte_at m' d va' = (if pageno va' = pageno va then w else pte_at m d va')"
    and "\<not> in_page (table_of m d (PDX va)) x \<Longrightarrow> m' x = m x"
proof -
  let ?t = "table_of m d (PDX va)"
  have okt: "page_ok e ?t" "?t \<noteq> d" and okd: "page_ok e d"
    using dir_okD(1,3)[OF ok] PDX_bound t by auto
  show out: "\<not> in_page ?t x \<Longrightarrow> m' x = m x" for x
    using slot_in_page[OF PTX_bound] store32_outside unfolding m'_def pte_slot_def by blast
  have d: "load32 m' (d + 4 * i) = load32 m (d + 4 * i)" if "unat i < 1024" for i
    by (rule load32_page_cong[OF that]) (use out pages_disjoint[OF okt(1) okd] okt(2) in blast)
  then show tb: "unat i < 1024 \<Longrightarrow> has_table m' d i \<longleftrightarrow> has_table m d i"
    "unat i < 1024 \<Longrightarrow> table_of m' d i = table_of m d i" for i
    by (simp_all add: has_table_def table_of_def)
  have s: "{i. unat i < 1024 \<and> has_table m' d i} = {i. unat i < 1024 \<and> has_table m d i}"
    using tb by auto
  show p: "dir_pages m' d = dir_pages m d"
    unfolding dir_pages_def s using tb(2) by (auto intro!: image_cong)
  have "inj_on (table_of m' d) {i. unat i < 1024 \<and> has_table m' d i} \<longleftrightarrow>
      inj_on (table_of m d) {i. unat i < 1024 \<and> has_table m d i}"
    unfolding s using tb(2) by (intro inj_on_cong) auto
  then show "dir_ok e m' d" using ok p tb d by (simp add: dir_ok_def)
  show "pte_at m' d va' = (if pageno va' = pageno va then w else pte_at m d va')"
  proof (cases "has_table m d (PDX va')")
    case False
    then have "pageno va' \<noteq> pageno va" using t pageno_same by metis
    then show ?thesis using False tb PDX_bound by (simp add: pte_at_def)
  next
    case True
    let ?t' = "table_of m d (PDX va')"
    have okt': "page_ok e ?t'" using dir_okD(3)[OF ok PDX_bound True] by simp
    have "load32 m' (?t' + 4 * PTX va') = (if ?t' + 4 * PTX va' = ?t + 4 * PTX va then w else load32 m (?t' + 4 * PTX va'))"
      unfolding m'_def pte_slot_def
      using load_store32[OF slot_aligned[OF okt(1) PTX_bound] slot_aligned[OF okt' PTX_bound]] by auto
    moreover have "?t' + 4 * PTX va' = ?t + 4 * PTX va \<longleftrightarrow> pageno va' = pageno va"
    proof
      assume e: "?t' + 4 * PTX va' = ?t + 4 * PTX va"
      have s0: "span x 4 x" for x by (simp add: span_def)
      have "in_page ?t' (?t' + 4 * PTX va')" "in_page ?t (?t + 4 * PTX va)"
        using slot_in_page[OF PTX_bound] s0 by blast+
      then have tt: "?t' = ?t" using pages_disjoint[OF okt' okt(1)] e by simp
      then have "PTX va' = PTX va" using e slot_eq PTX_bound by simp
      moreover have "PDX va' = PDX va" using dir_okD(4)[OF ok PDX_bound PDX_bound True t] tt by simp
      ultimately show "pageno va' = pageno va" using pageno_same by blast
    next
      assume "pageno va' = pageno va"
      then show "?t' + 4 * PTX va' = ?t + 4 * PTX va" using pageno_same by metis
    qed
    ultimately show ?thesis using True tb PDX_bound by (simp add: pte_at_def)
  qed
qed

section \<open>Directories that grow from the pool\<close>

definition vgood :: "nat \<Rightarrow> uint list \<Rightarrow> vst \<Rightarrow> bool" where
  "vgood c ps s \<longleftrightarrow> kquiet c (vk s) \<and> pool_inv ps (vk s) \<and> ruse (vk s)"

definition missing :: "memory \<Rightarrow> uint \<Rightarrow> uint set \<Rightarrow> uint set" where
  "missing m d S = {i \<in> S. \<not> has_table m d i}"

text \<open>
  \<open>dirs c k S d ps s\<close>: the allocator is in order with the free pages \<open>ps\<close>, the directory \<open>d\<close> and its
  tables are in order and not free, and there are enough free pages for the tables that \<open>d\<close> still
  lacks among the entries \<open>S\<close>, and for \<open>k\<close> more.
\<close>

definition dirs :: "nat \<Rightarrow> nat \<Rightarrow> uint set \<Rightarrow> uint \<Rightarrow> uint list \<Rightarrow> vst \<Rightarrow> bool" where
  "dirs c k S d ps s \<longleftrightarrow> vgood c ps s \<and> dir_ok (kend (vk s)) (vmem s) d \<and>
     dir_pages (vmem s) d \<inter> set ps = {} \<and> finite S \<and> (\<forall>i \<in> S. unat i < 1024) \<and>
     k + card (missing (vmem s) d S) \<le> length ps"

text \<open>
  \<open>grows d ps s ps' s'\<close>: from \<open>s\<close> to \<open>s'\<close> the directory \<open>d\<close> has gained the pages that have left the
  pool as tables, with one reference each, and apart from the pages of \<open>d\<close> no byte of memory has changed,
  nor any count of a page not in the pool.
\<close>

definition one_each :: "uint list \<Rightarrow> (nat \<Rightarrow> int) \<Rightarrow> uint list \<Rightarrow> (nat \<Rightarrow> int) \<Rightarrow> bool" where
  "one_each ps r ps' r' \<longleftrightarrow> (\<forall>i. (\<forall>p\<in>set ps'. page_index p \<noteq> i) \<longrightarrow>
     r' i = (if \<exists>p\<in>set ps. page_index p = i then 1 else r i))"

lemma one_each_refl: "one_each ps r ps r"
  by (auto simp: one_each_def)

lemma one_each_trans: "one_each ps r ps' r' \<Longrightarrow> one_each ps' r' ps'' r'' \<Longrightarrow> set ps' \<subseteq> set ps \<Longrightarrow> one_each ps r ps'' r''"
  unfolding one_each_def
proof (intro allI impI)
  fix i
  assume a: "\<forall>i. (\<forall>p\<in>set ps'. page_index p \<noteq> i) \<longrightarrow> r' i = (if \<exists>p\<in>set ps. page_index p = i then 1 else r i)"
    and b: "\<forall>i. (\<forall>p\<in>set ps''. page_index p \<noteq> i) \<longrightarrow> r'' i = (if \<exists>p\<in>set ps'. page_index p = i then 1 else r' i)"
    and sub: "set ps' \<subseteq> set ps" and n: "\<forall>p\<in>set ps''. page_index p \<noteq> i"
  show "r'' i = (if \<exists>p\<in>set ps. page_index p = i then 1 else r i)"
  proof (cases "\<exists>p\<in>set ps'. page_index p = i")
    case True
    then show ?thesis using b[rule_format, OF n[rule_format]] sub by auto
  next
    case False
    then show ?thesis using b[rule_format, OF n[rule_format]] a[rule_format, of i] by auto
  qed
qed

lemma one_each_out: "one_each ps r ps' r' \<Longrightarrow> set ps' \<subseteq> set ps \<Longrightarrow> (\<And>p. p \<in> set ps \<Longrightarrow> page_index p \<noteq> i) \<Longrightarrow> r' i = r i"
  unfolding one_each_def by (metis subsetD)

lemma one_each_in:
  "one_each ps r ps' r' \<Longrightarrow> (\<And>q. q \<in> set ps' \<Longrightarrow> page_index q \<noteq> page_index p) \<Longrightarrow> p \<in> set ps \<Longrightarrow> r' (page_index p) = 1"
  unfolding one_each_def by auto

definition grows :: "uint \<Rightarrow> uint list \<Rightarrow> vst \<Rightarrow> uint list \<Rightarrow> vst \<Rightarrow> bool" where
  "grows d ps s ps' s' \<longleftrightarrow>
     dir_pages (vmem s) d \<subseteq> dir_pages (vmem s') d \<and>
     dir_pages (vmem s') d \<subseteq> dir_pages (vmem s) d \<union> (set ps - set ps') \<and> set ps' \<subseteq> set ps \<and>
     (\<forall>x. (\<forall>p \<in> dir_pages (vmem s') d. \<not> in_page p x) \<longrightarrow> vmem s' x = vmem s x) \<and>
     set ps - set ps' \<subseteq> dir_pages (vmem s') d \<and> one_each ps (rcount (vk s)) ps' (rcount (vk s')) \<and>
     kend (vk s') = kend (vk s) \<and> km (vk s') = km (vk s) \<and> kdata s' = kdata s \<and> kpgdir s' = kpgdir s"

lemma grows_refl: "grows d ps s ps s"
  by (simp add: grows_def one_each_refl)

lemma grows_trans:
  assumes "grows d ps s ps' s'" "grows d ps' s' ps'' s''"
  shows "grows d ps s ps'' s''"
proof -
  have "one_each ps (rcount (vk s)) ps'' (rcount (vk s''))"
    using one_each_trans[of ps "rcount (vk s)" ps' "rcount (vk s')" ps'' "rcount (vk s'')"] assms by (simp add: grows_def)
  then show ?thesis using assms unfolding grows_def by (auto simp: subset_iff)
qed

lemma grows_rcount:
  "grows d ps s ps' s' \<Longrightarrow> (\<And>p. p \<in> set ps \<Longrightarrow> page_index p \<noteq> i) \<Longrightarrow> rcount (vk s') i = rcount (vk s) i"
  using one_each_out[of ps "rcount (vk s)" ps'] by (simp add: grows_def)

lemma pool_inv_mem:
  assumes inv: "pool_inv ps k" and same: "\<And>p x. p \<in> set ps \<Longrightarrow> in_page p x \<Longrightarrow> m' x = mem k x"
  shows "pool_inv ps (k\<lparr>mem := m'\<rparr>)"
proof -
  have "chain m' (freelist k) ps"
  proof (rule chain_cong)
    show "chain (mem k) (freelist k) ps" using inv by (simp add: pool_inv_def)
    show "load32 m' p = load32 (mem k) p" if "p \<in> set ps" for p
      by (rule load32_cong) (use same[OF that] span4_in_page in blast)
  qed
  then show ?thesis using inv by (simp add: pool_inv_def)
qed

lemma set_mem_fields [simp]: "kdata (set_mem f s) = kdata s" "kpgdir (set_mem f s) = kpgdir s"
  by (simp_all add: set_mem_def)

lemma vgood_mem:
  assumes "vgood c ps s" and "\<And>p x. p \<in> set ps \<Longrightarrow> in_page p x \<Longrightarrow> f (vmem s) x = vmem s x"
  shows "vgood c ps (set_mem f s)"
  using assms pool_inv_mem[of ps "vk s" "f (mem (vk s))"]
  by (simp add: vgood_def kquiet_def vmem_def)

lemma dirs_frame:
  "dirs c k S d ps s \<Longrightarrow> vgood c ps s' \<Longrightarrow> vmem s' = vmem s \<Longrightarrow> kend (vk s') = kend (vk s) \<Longrightarrow> dirs c k S d ps s'"
  by (simp add: dirs_def)

text \<open>\<open>walkpgdir\<close> of an address whose table exists, and writing the entry it returns.\<close>

lemma walk_present:
  "has_table (vmem s) d (PDX va) \<Longrightarrow> walkpgdir d va alloc s = Ok (pte_slot (vmem s) d va) s"
  by (simp add: walkpgdir_def has_table_def pte_slot_def table_of_def rd32_def Let_def)

lemma rd32_slot: "has_table (vmem s) d (PDX va) \<Longrightarrow> rd32 (pte_slot (vmem s) d va) s = pte_at (vmem s) d va"
  by (simp add: rd32_def pte_slot_def pte_at_def)

lemma write_pte:
  fixes w :: uint
  assumes D: "dirs c k S d ps s" and t: "has_table (vmem s) d (PDX va)"
  defines "s' \<equiv> wr32 (pte_slot (vmem s) d va) w s"
  shows "dirs c k S d ps s'" and "grows d ps s ps s'"
    and "pte_at (vmem s') d va' = (if pageno va' = pageno va then w else pte_at (vmem s) d va')"
    and "unat i < 1024 \<Longrightarrow> has_table (vmem s') d i \<longleftrightarrow> has_table (vmem s) d i"
    and "unat i < 1024 \<Longrightarrow> table_of (vmem s') d i = table_of (vmem s) d i"
    and "dir_pages (vmem s') d = dir_pages (vmem s) d"
    and "rcount (vk s') = rcount (vk s)"
proof -
  have m: "vmem s' = store32 (pte_slot (vmem s) d va) w (vmem s)" by (simp add: s'_def wr32_def)
  have ok: "dir_ok (kend (vk s)) (vmem s) d" using D by (simp add: dirs_def)
  note st = store_pte[OF ok t, where w = w, folded m]
  have tp: "table_of (vmem s) d (PDX va) \<in> dir_pages (vmem s) d" by (rule dir_pages_simps(2)[OF PDX_bound t])
  have out: "vmem s' x = vmem s x" if "p \<in> set ps" "in_page p x" for p x
  proof (rule st(6))
    have "page_ok (kend (vk s)) p" using D that(1) by (auto simp: dirs_def vgood_def pool_inv_def)
    moreover have "p \<noteq> table_of (vmem s) d (PDX va)" using D tp that(1) by (auto simp: dirs_def)
    ultimately show "\<not> in_page (table_of (vmem s) d (PDX va)) x"
      using pages_disjoint dir_okD(2)[OF ok tp] that(2) by blast
  qed
  have "vgood c ps s'" unfolding s'_def wr32_def
    by (rule vgood_mem) (use D out m in \<open>auto simp: dirs_def\<close>)
  moreover have "missing (vmem s') d S = missing (vmem s) d S"
    using D st(1) by (auto simp: missing_def dirs_def)
  ultimately show "dirs c k S d ps s'" using D st(3,4) by (simp add: dirs_def s'_def wr32_def)
  show "grows d ps s ps s'" using st(3,6) tp by (auto simp: grows_def s'_def wr32_def one_each_refl)
  show "pte_at (vmem s') d va' = (if pageno va' = pageno va then w else pte_at (vmem s) d va')"
    "unat i < 1024 \<Longrightarrow> has_table (vmem s') d i \<longleftrightarrow> has_table (vmem s) d i"
    "unat i < 1024 \<Longrightarrow> table_of (vmem s') d i = table_of (vmem s) d i"
    "dir_pages (vmem s') d = dir_pages (vmem s) d" by (rule st; assumption?)+
  show "rcount (vk s') = rcount (vk s)" by (simp add: s'_def wr32_def)
qed

text \<open>\<open>walkpgdir\<close> of an address whose table has to be made: the first free page becomes the table.\<close>

definition table_pde :: "uint \<Rightarrow> uint" where
  "table_pde p = V2P p OR PTE_P OR PTE_W OR PTE_U"

lemma table_pde_simps:
  assumes "page_ok e p"
  shows "P2V (PTE_ADDR (table_pde p)) = p" "pte_has (table_pde p) PTE_P" "pte_has (table_pde p) PTE_W"
    "pte_has (table_pde p) PTE_U"
proof -
  show "P2V (PTE_ADDR (table_pde p)) = p"
    using pte_addr_page[OF assms, of "PTE_P OR PTE_W OR PTE_U"]
    by (simp add: table_pde_def pte_consts ac_simps)
  show "pte_has (table_pde p) PTE_P" "pte_has (table_pde p) PTE_W" "pte_has (table_pde p) PTE_U"
    by (simp_all add: table_pde_def pte_has_def pte_consts bit.conj_disj_distrib2)
qed

definition new_table :: "uint \<Rightarrow> uint \<Rightarrow> uint \<Rightarrow> memory \<Rightarrow> memory" where
  "new_table d va p m = store32 (d + 4 * PDX va) (table_pde p) (memset p 0 PGSIZE m)"

lemma memset_page: "memset p 0 PGSIZE m x = (if in_page p x then 0 else m x)"
  by (simp add: memset_eq in_page_def PGSIZE_def)

lemma new_table_dir:
  assumes ok: "dir_ok e m d" and no: "\<not> has_table m d (PDX va)" and p: "page_ok e p" "p \<notin> dir_pages m d"
  defines "m' \<equiv> new_table d va p m"
  shows "unat i < 1024 \<Longrightarrow> has_table m' d i \<longleftrightarrow> i = PDX va \<or> has_table m d i"
    and "table_of m' d (PDX va) = p"
    and "unat i < 1024 \<Longrightarrow> i \<noteq> PDX va \<Longrightarrow> table_of m' d i = table_of m d i"
    and "dir_pages m' d = insert p (dir_pages m d)"
    and "dir_ok e m' d"
    and "pte_at m' d va' = pte_at m d va'"
    and "\<not> in_page p x \<Longrightarrow> \<not> in_page d x \<Longrightarrow> m' x = m x"
proof -
  note okd = dir_okD(1)[OF ok] and simps = table_pde_simps[OF p(1)]
  have dp: "p \<noteq> d" using p(2) dir_pages_simps(1) by blast
  let ?m = "memset p 0 PGSIZE m"
  have ld: "load32 ?m (q + 4 * i) = load32 m (q + 4 * i)" if "page_ok e q" "q \<noteq> p" "unat i < 1024" for q i
    by (rule load32_page_cong[OF that(3)]) (use memset_page pages_disjoint[OF that(1) p(1)] that(2) in auto)
  have d: "load32 m' (d + 4 * i) = (if i = PDX va then table_pde p else load32 m (d + 4 * i))" if "unat i < 1024" for i
    unfolding m'_def new_table_def
    using load_store32[OF slot_aligned[OF okd PDX_bound] slot_aligned[OF okd that]] slot_eq[OF PDX_bound that]
      ld[OF okd dp[symmetric] that] by auto
  have out: "m' x = m x" if "\<not> in_page p x" "\<not> in_page d x" for x
  proof -
    have "\<not> span (d + 4 * PDX va) 4 x" using that slot_in_page[OF PDX_bound] by blast
    then show ?thesis using that by (simp add: m'_def new_table_def store32_outside memset_page)
  qed
  then show "\<not> in_page p x \<Longrightarrow> \<not> in_page d x \<Longrightarrow> m' x = m x" .
  have h: "has_table m' d i \<longleftrightarrow> i = PDX va \<or> has_table m d i" if "unat i < 1024" for i
    using d[OF that] simps by (auto simp: has_table_def)
  then show "unat i < 1024 \<Longrightarrow> has_table m' d i \<longleftrightarrow> i = PDX va \<or> has_table m d i" .
  show tp: "table_of m' d (PDX va) = p" using d[OF PDX_bound] simps by (simp add: table_of_def)
  have tq: "table_of m' d i = table_of m d i" if "unat i < 1024" "i \<noteq> PDX va" for i
    using d[OF that(1)] that by (simp add: table_of_def)
  then show "unat i < 1024 \<Longrightarrow> i \<noteq> PDX va \<Longrightarrow> table_of m' d i = table_of m d i" .
  have s: "{i. unat i < 1024 \<and> has_table m' d i} = insert (PDX va) {i. unat i < 1024 \<and> has_table m d i}"
    using h PDX_bound by auto
  have im: "table_of m' d ` {i. unat i < 1024 \<and> has_table m d i} = table_of m d ` {i. unat i < 1024 \<and> has_table m d i}"
    using tq no by (intro image_cong) auto
  show dpg: "dir_pages m' d = insert p (dir_pages m d)"
    unfolding dir_pages_def s using tp im by auto
  have inj: "inj_on (table_of m' d) {i. unat i < 1024 \<and> has_table m' d i}"
    unfolding s
  proof (rule inj_on_insert[THEN iffD2], rule conjI)
    show "inj_on (table_of m' d) {i. unat i < 1024 \<and> has_table m d i}"
      using ok tq no by (subst inj_on_cong[of _ _ "table_of m d"]) (auto simp: dir_ok_def)
    have "p \<notin> table_of m d ` {i. unat i < 1024 \<and> has_table m d i}" using p(2) by (simp add: dir_pages_def)
    then show "table_of m' d (PDX va) \<notin> table_of m' d ` ({i. unat i < 1024 \<and> has_table m d i} - {PDX va})"
      using tp im by auto
  qed
  show "dir_ok e m' d"
    unfolding dir_ok_def dpg
  proof (intro conjI ballI allI impI inj)
    show "page_ok e q" if "q \<in> insert p (dir_pages m d)" for q
      using that p(1) dir_okD(2)[OF ok] by blast
    fix i assume i: "unat i < 1024" "has_table m' d i"
    show "table_of m' d i \<noteq> d" "pte_has (load32 m' (d + 4 * i)) PTE_U" "pte_has (load32 m' (d + 4 * i)) PTE_W"
      using i h[OF i(1)] d[OF i(1)] tp tq[OF i(1)] simps dp ok
      by (cases "i = PDX va"; simp add: dir_ok_def)+
  qed
  show "pte_at m' d va' = pte_at m d va'"
  proof (cases "PDX va' = PDX va")
    case True
    have "load32 ?m (p + 4 * PTX va') = 0"
    proof -
      have "load32 ?m (p + 4 * PTX va') = load32 (\<lambda>_. 0) (p + 4 * PTX va')"
        by (rule load32_cong) (use slot_in_page[OF PTX_bound] memset_page in auto)
      then show ?thesis by (simp add: load32_def of_le32_def)
    qed
    moreover have "load32 m' (p + 4 * PTX va') = load32 ?m (p + 4 * PTX va')"
      by (rule load32_page_cong[OF PTX_bound])
        (use store32_outside slot_in_page[OF PDX_bound] pages_disjoint[OF p(1) okd] dp in \<open>unfold m'_def new_table_def, blast\<close>)
    ultimately show ?thesis using True h[OF PDX_bound] tp no by (simp add: pte_at_def)
  next
    case False
    have "load32 m' (table_of m d (PDX va') + 4 * PTX va') = load32 m (table_of m d (PDX va') + 4 * PTX va')"
      if t: "has_table m d (PDX va')"
    proof (rule load32_page_cong[OF PTX_bound], rule out)
      fix x assume x: "in_page (table_of m d (PDX va')) x"
      have "table_of m d (PDX va') \<noteq> p" using dir_pages_simps(2)[OF PDX_bound t] p(2) by blast
      then show "\<not> in_page p x" "\<not> in_page d x"
        using pages_disjoint[OF _ p(1) x] pages_disjoint[OF _ okd x] dir_okD(3)[OF ok PDX_bound t] by auto
    qed
    then show ?thesis using False h[OF PDX_bound] tq[OF PDX_bound] by (simp add: pte_at_def)
  qed
qed

lemma popped_page_rcount: "i \<noteq> page_index (freelist k) \<Longrightarrow> rcount (popped_page k) i = rcount k i"
  by (simp add: popped_page_def)

lemma walk_new:
  assumes D: "dirs c k S d ps s" and i: "PDX va \<in> S" and no: "\<not> has_table (vmem s) d (PDX va)"
  shows "\<exists>ps' s'. walkpgdir d va True s = Ok (pte_slot (vmem s') d va) s' \<and> has_table (vmem s') d (PDX va) \<and>
    (\<forall>va'. pte_at (vmem s') d va' = pte_at (vmem s) d va') \<and> dirs c k S d ps' s' \<and> grows d ps s ps' s'"
proof -
  let ?e = "kend (vk s)"
  have q: "kquiet c (vk s)" and inv: "pool_inv ps (vk s)" and ru: "ruse (vk s)" and ok: "dir_ok ?e (vmem s) d"
    and out: "dir_pages (vmem s) d \<inter> set ps = {}" and S: "finite S" "\<forall>i \<in> S. unat i < 1024"
    and room: "k + card (missing (vmem s) d S) \<le> length ps"
    using D by (simp_all add: dirs_def vgood_def)
  have im: "PDX va \<in> missing (vmem s) d S" using i no by (simp add: missing_def)
  have fin: "finite (missing (vmem s) d S)" using S(1) by (simp add: missing_def)
  obtain p qs where ps: "ps = p # qs"
    using room im fin card_gt_0_iff[of "missing (vmem s) d S"] by (cases ps) auto
  have f: "freelist (vk s) = p" "p \<noteq> 0" and p: "page_ok ?e p" "p \<notin> dir_pages (vmem s) d" "p \<notin> set qs"
    using inv out by (auto simp: ps pool_inv_def)
  let ?s = "s\<lparr>vk := popped_page (vk s)\<rparr>"
  let ?t = "set_mem (new_table d va p) ?s"
  have vm: "vmem ?s = vmem s" by (simp add: vmem_def popped_page_def)
  note nt = new_table_dir[OF ok no p(1,2)]
  have w: "walkpgdir d va True s = Ok (p + 4 * PTX va) ?t"
    using no kalloc_eq[OF q, of ?e] f p(1)
    by (simp add: walkpgdir_def has_table_def rd32_def zoom_Ok Let_def set_mem_def new_table_def table_pde_def wr32_def)
  have g: "vgood c qs ?s"
    using popped_page_inv[of p qs "vk s"] inv q ru by (simp add: ps vgood_def kquiet_def popped_page_def)
  have gt: "vgood c qs ?t"
  proof (rule vgood_mem[OF g])
    fix r x assume r: "r \<in> set qs" and x: "in_page r x"
    have "page_ok ?e r" "r \<noteq> p" "r \<noteq> d" using inv r p(3) out dir_pages_simps(1) by (auto simp: ps pool_inv_def)
    then show "new_table d va p (vmem ?s) x = vmem ?s x"
      unfolding vm by (intro nt(7)) (use pages_disjoint[OF _ p(1) x] pages_disjoint[OF _ dir_okD(1)[OF ok] x] in auto)
  qed
  have vt: "vmem ?t = new_table d va p (vmem s)" by (simp add: vm)
  have ke: "kend (popped_page (vk s)) = ?e" "km (popped_page (vk s)) = km (vk s)" by (simp_all add: popped_page_def)
  have "missing (vmem ?t) d S = missing (vmem s) d S - {PDX va}"
    using nt(1) S(2) by (auto simp: missing_def vm)
  moreover have "0 < card (missing (vmem s) d S)" using im fin by (auto simp: card_gt_0_iff)
  ultimately have "k + card (missing (vmem ?t) d S) \<le> length qs" using room im fin by (simp add: ps)
  then have "dirs c k S d qs ?t"
    using gt nt(4,5) out p(3) S by (simp add: dirs_def ke vm ps)
  moreover have "grows d ps s qs ?t"
  proof -
    have "vmem ?t x = vmem s x" if "\<forall>r \<in> dir_pages (vmem ?t) d. \<not> in_page r x" for x
      using that dir_pages_simps(1)[of d "vmem s"] unfolding vt nt(4) by (intro nt(7)) auto
    moreover have "one_each ps (rcount (vk s)) qs (rcount (vk ?t))"
      using f(1) ru by (auto simp: one_each_def ps popped_page_def)
    ultimately show ?thesis unfolding grows_def vt nt(4) by (simp add: ps p(3) ke) blast
  qed
  moreover have "pte_slot (vmem ?t) d va = p + 4 * PTX va" "has_table (vmem ?t) d (PDX va)"
    "\<forall>va'. pte_at (vmem ?t) d va' = pte_at (vmem s) d va'"
    using nt(1)[OF PDX_bound] nt(2,6) by (simp_all add: pte_slot_def vm)
  ultimately show ?thesis using w by (intro exI[of _ qs] exI[of _ ?t]) simp
qed

lemma walk_alloc:
  assumes D: "dirs c k S d ps s" and i: "PDX va \<in> S"
  shows "\<exists>ps' s'. walkpgdir d va True s = Ok (pte_slot (vmem s') d va) s' \<and> has_table (vmem s') d (PDX va) \<and>
    (\<forall>va'. pte_at (vmem s') d va' = pte_at (vmem s) d va') \<and> dirs c k S d ps' s' \<and> grows d ps s ps' s'"
proof (cases "has_table (vmem s) d (PDX va)")
  case True
  then show ?thesis using walk_present[OF True] D grows_refl by blast
qed (rule walk_new[OF D i])

section \<open>mappages\<close>

lemma pte_has_0 [simp]: "\<not> pte_has 0 f"
  by (simp add: pte_has_def)

lemma map_one:
  assumes D: "dirs c k S d ps s" and i: "PDX va \<in> S" and free: "\<not> pte_has (pte_at (vmem s) d va) PTE_P"
  shows "\<exists>ps' s'. (\<forall>n. mappages_from n d va pa perm s = (case n of 0 \<Rightarrow> Ok 0 s'
        | Suc k \<Rightarrow> mappages_from k d (va + PGSIZE) (pa + PGSIZE) perm s')) \<and>
    (\<forall>va'. pte_at (vmem s') d va' = (if pageno va' = pageno va then pa OR perm OR PTE_P else pte_at (vmem s) d va')) \<and>
    dirs c k S d ps' s' \<and> grows d ps s ps' s'"
proof -
  obtain ps' t where w: "walkpgdir d va True s = Ok (pte_slot (vmem t) d va) t" "has_table (vmem t) d (PDX va)"
    "\<forall>va'. pte_at (vmem t) d va' = pte_at (vmem s) d va'" "dirs c k S d ps' t" "grows d ps s ps' t"
    using walk_alloc[OF D i] by blast
  let ?s = "wr32 (pte_slot (vmem t) d va) (pa OR perm OR PTE_P) t"
  note wp = write_pte[OF w(4,2), where w = "pa OR perm OR PTE_P"]
  have "page_ok (kend (vk t)) (table_of (vmem t) d (PDX va))"
    using w(4) dir_okD(3)[OF _ PDX_bound w(2)] by (simp add: dirs_def)
  then have nz: "pte_slot (vmem t) d va \<noteq> 0" using slot_nonzero[OF _ PTX_bound] by (simp add: pte_slot_def)
  have "mappages_from n d va pa perm s = (case n of 0 \<Rightarrow> Ok 0 ?s
        | Suc k \<Rightarrow> mappages_from k d (va + PGSIZE) (pa + PGSIZE) perm ?s)" for n
    using w(1,3) nz free rd32_slot[OF w(2)] by (subst mappages_from.simps) (simp add: Let_def)
  then show ?thesis
    using wp(1,3) w(3) grows_trans[OF w(5) wp(2)] by (intro exI[of _ ps'] exI[of _ ?s]) simp
qed

lemma pageno_next:
  assumes "unat va + n * 4096 < 2 ^ 32"
  shows "pageno (va + of_nat n * PGSIZE) = pageno va + n"
proof -
  have "unat (of_nat (n * 4096) :: uint) = n * 4096"
    using assms by (simp add: unsigned_of_nat take_bit_nat_eq_self del: of_nat_mult)
  then have "unat (of_nat n * PGSIZE) = n * 4096" by (simp add: PGSIZE_def)
  then have "unat (va + of_nat n * PGSIZE) = unat va + n * 4096" using assms unat_add_small by simp
  then show ?thesis by (simp add: pageno_def)
qed

text \<open>The entries of a run of pages that starts with page \<open>a\<close> at \<open>pa\<close>.\<close>

definition run_pte :: "uint \<Rightarrow> uint \<Rightarrow> nat \<Rightarrow> nat \<Rightarrow> uint" where
  "run_pte pa perm a x = (pa + of_nat (x - a) * PGSIZE) OR perm OR PTE_P"

lemma run_pte_simps:
  "run_pte pa perm a a = pa OR perm OR PTE_P"
  "a + 1 \<le> x \<Longrightarrow> run_pte (pa + PGSIZE) perm (a + 1) x = run_pte pa perm a x"
proof -
  show "run_pte pa perm a a = pa OR perm OR PTE_P" by (simp add: run_pte_def)
  assume "a + 1 \<le> x"
  then have "pa + PGSIZE + of_nat (x - (a + 1)) * PGSIZE = pa + of_nat (x - a) * PGSIZE"
    by (simp add: algebra_simps of_nat_diff)
  then show "run_pte (pa + PGSIZE) perm (a + 1) x = run_pte pa perm a x" by (simp only: run_pte_def)
qed

lemma mappages_from_eq:
  assumes "dirs c k S d ps s" and "unat va + n * 4096 < 2 ^ 32"
    and "\<And>x. pageno va \<le> pageno x \<Longrightarrow> pageno x \<le> pageno va + n \<Longrightarrow> PDX x \<in> S \<and> \<not> pte_has (pte_at (vmem s) d x) PTE_P"
  shows "\<exists>ps' s'. mappages_from n d va pa perm s = Ok 0 s' \<and>
    (\<forall>x. pte_at (vmem s') d x = (if pageno va \<le> pageno x \<and> pageno x \<le> pageno va + n
       then run_pte pa perm (pageno va) (pageno x) else pte_at (vmem s) d x)) \<and>
    dirs c k S d ps' s' \<and> grows d ps s ps' s'"
  using assms
proof (induction n arbitrary: va pa ps s)
  case 0
  obtain ps' s' where one: "\<forall>k. mappages_from k d va pa perm s = (case k of 0 \<Rightarrow> Ok 0 s'
        | Suc k \<Rightarrow> mappages_from k d (va + PGSIZE) (pa + PGSIZE) perm s')"
    "\<forall>x. pte_at (vmem s') d x = (if pageno x = pageno va then pa OR perm OR PTE_P else pte_at (vmem s) d x)"
    "dirs c k S d ps' s'" "grows d ps s ps' s'"
    using map_one[OF 0(1), of va pa perm] 0(3)[of va] by auto
  have "mappages_from 0 d va pa perm s = Ok 0 s'" using one(1) by simp
  then show ?case using one(2-) run_pte_simps(1) by (intro exI[of _ ps'] exI[of _ s']) auto
next
  case (Suc n)
  obtain ps1 s1 where one: "\<forall>k. mappages_from k d va pa perm s = (case k of 0 \<Rightarrow> Ok 0 s1
        | Suc k \<Rightarrow> mappages_from k d (va + PGSIZE) (pa + PGSIZE) perm s1)"
    "\<forall>x. pte_at (vmem s1) d x = (if pageno x = pageno va then pa OR perm OR PTE_P else pte_at (vmem s) d x)"
    "dirs c k S d ps1 s1" "grows d ps s ps1 s1"
    using map_one[OF Suc.prems(1), of va pa perm] Suc.prems(3)[of va] by auto
  have nx: "pageno (va + PGSIZE) = pageno va + 1" "unat (va + PGSIZE) = unat va + 4096"
    using pageno_next[of va 1] unat_add_small[of va PGSIZE] Suc.prems(2) by (simp_all add: PGSIZE_def)
  obtain ps2 s2 where rest: "mappages_from n d (va + PGSIZE) (pa + PGSIZE) perm s1 = Ok 0 s2"
    "\<forall>x. pte_at (vmem s2) d x = (if pageno va + 1 \<le> pageno x \<and> pageno x \<le> pageno va + 1 + n
       then run_pte (pa + PGSIZE) perm (pageno va + 1) (pageno x) else pte_at (vmem s1) d x)"
    "dirs c k S d ps2 s2" "grows d ps1 s1 ps2 s2"
    using Suc.IH[OF one(3), of "va + PGSIZE" "pa + PGSIZE"] Suc.prems(2,3) one(2) unfolding nx by auto
  have "\<forall>x. pte_at (vmem s2) d x = (if pageno va \<le> pageno x \<and> pageno x \<le> pageno va + Suc n
       then run_pte pa perm (pageno va) (pageno x) else pte_at (vmem s) d x)"
    using rest(2) one(2) run_pte_simps by auto
  then show ?case using one(1) rest(1,3) grows_trans[OF one(4) rest(4)]
    by (intro exI[of _ ps2] exI[of _ s2]) simp
qed

lemma unat_PGROUNDDOWN: "unat (PGROUNDDOWN x) = unat x div 4096 * 4096"
proof -
  have m: "unat (x AND 0xFFF) = unat x mod 4096"
  proof -
    have "x AND 0xFFF = take_bit 12 x" by (simp add: take_bit_eq_mask mask_eq_exp_minus_1)
    then show ?thesis by (simp add: take_bit_eq_mod unat_mod)
  qed
  have "x - PGROUNDDOWN x = x AND 0xFFF"
    unfolding PGROUNDDOWN_def word_sub_and_not by (simp add: PGSIZE_def)
  then have "PGROUNDDOWN x = x - (x AND 0xFFF)" by (metis diff_eq_eq add_diff_cancel_left')
  then have "unat (PGROUNDDOWN x) = unat x - unat x mod 4096" using m word_and_le1 by (simp add: unat_sub_if' m)
  then show ?thesis by (simp add: minus_mod_eq_div_mult)
qed

lemma mappages_pages:
  assumes "unat va mod 4096 = 0" and "unat sz = Suc n * 4096" and "unat va + unat sz \<le> 2 ^ 32"
  shows "mappages d va sz pa perm s = mappages_from n d va pa perm s"
proof -
  have l: "unat (va + (sz - 1)) = unat va + n * 4096 + 4095"
  proof -
    have "unat (sz - 1) = n * 4096 + 4095" using assms(2) by (simp add: unat_sub_if')
    then show ?thesis using assms(2,3) unat_add_small[of va "sz - 1"] by simp
  qed
  have vd: "PGROUNDDOWN va = va"
    using assms(1) div_mult_mod_eq[of "unat va" 4096] by (simp add: word_unat_eq_iff unat_PGROUNDDOWN)
  have last: "unat (PGROUNDDOWN (va + sz - 1)) = unat va + n * 4096"
  proof -
    obtain k where k: "unat va = 4096 * k" using assms(1) by (auto simp: mod_eq_0_iff_dvd elim: dvdE)
    have "(4095 + (k + n) * 4096) div 4096 = k + n" by (subst div_mult_self1) simp_all
    moreover have "unat va + n * 4096 + 4095 = 4095 + (k + n) * 4096" by (simp add: k)
    ultimately have "(unat va + n * 4096 + 4095) div 4096 * 4096 = (k + n) * 4096" by (simp only:)
    also have "\<dots> = unat va + n * 4096" by (simp add: k)
    finally have "(unat va + n * 4096 + 4095) div 4096 * 4096 = unat va + n * 4096" .
    moreover have "va + sz - 1 = va + (sz - 1)" by (rule add_diff_eq[symmetric])
    ultimately show ?thesis unfolding unat_PGROUNDDOWN l by (simp only: l)
  qed
  have "unat (PGROUNDDOWN (va + sz - 1) - va) = n * 4096"
    using last by (simp add: unat_sub word_le_nat_alt)
  then have "unat ((PGROUNDDOWN (va + sz - 1) - va) div PGSIZE) = n"
    by (simp add: unat_div PGSIZE_def)
  then show ?thesis unfolding mappages_def vd by (simp only: Let_def)
qed

lemma mappages_eq:
  assumes D: "dirs c k S d ps s" and va: "unat va mod 4096 = 0" and sz: "unat sz mod 4096 = 0" "sz \<noteq> 0"
    and room: "unat va + unat sz \<le> 2 ^ 32"
    and free: "\<And>x. pageno va \<le> pageno x \<Longrightarrow> pageno x < pageno va + unat sz div 4096 \<Longrightarrow>
      PDX x \<in> S \<and> \<not> pte_has (pte_at (vmem s) d x) PTE_P"
  shows "\<exists>ps' s'. mappages d va sz pa perm s = Ok 0 s' \<and>
    (\<forall>x. pte_at (vmem s') d x = (if pageno va \<le> pageno x \<and> pageno x < pageno va + unat sz div 4096
       then run_pte pa perm (pageno va) (pageno x) else pte_at (vmem s) d x)) \<and>
    dirs c k S d ps' s' \<and> grows d ps s ps' s'"
proof -
  have "unat sz \<noteq> 0" using sz(2) by (simp add: unat_eq_0)
  then obtain n where n: "unat sz = Suc n * 4096"
    using sz(1) by (metis div_mult_mod_eq add.right_neutral mult_0 not0_implies_Suc)
  then have q: "unat sz div 4096 = Suc n" by simp
  show ?thesis
    using mappages_from_eq[OF D, of va n pa perm] free room n
    unfolding mappages_pages[OF va n room] q by (simp add: less_Suc_eq_le)
qed

section \<open>setupkvm\<close>

text \<open>
  What the kernel part of every address space is: the first megabyte and the data up to \<open>PHYSTOP\<close>
  writable, the kernel's text read only, the devices, all of it without \<open>PTE_U\<close>.
\<close>

definition kernel_pte :: "nat \<Rightarrow> nat \<Rightarrow> uint" where
  "kernel_pte dat x =
     (if 0x80000 \<le> x \<and> x < 0x80100 \<or> dat \<le> x \<and> x < 0x8E000 then run_pte 0 PTE_W 0x80000 x
      else if 0x80100 \<le> x \<and> x < dat then run_pte 0 0 0x80000 x
      else if 0xFE000 \<le> x then run_pte DEVSPACE PTE_W 0xFE000 x
      else 0)"

definition kernel_slots :: "uint set" where
  "kernel_slots = {i. 512 \<le> unat i \<and> unat i < 568 \<or> 1016 \<le> unat i \<and> unat i < 1024}"

definition data_ok :: "vst \<Rightarrow> bool" where
  "data_ok s \<longleftrightarrow> unat (kdata s) mod 4096 = 0 \<and> KERNLINK < kdata s \<and> kdata s < P2V PHYSTOP"

text \<open>A new directory with pages from the pool only.\<close>

definition made :: "uint \<Rightarrow> uint list \<Rightarrow> vst \<Rightarrow> uint list \<Rightarrow> vst \<Rightarrow> bool" where
  "made d ps s ps' s' \<longleftrightarrow>
     dir_pages (vmem s') d \<subseteq> set ps - set ps' \<and> set ps' \<subseteq> set ps \<and>
     (\<forall>x. (\<forall>p \<in> dir_pages (vmem s') d. \<not> in_page p x) \<longrightarrow> vmem s' x = vmem s x) \<and>
     set ps - set ps' \<subseteq> dir_pages (vmem s') d \<and> one_each ps (rcount (vk s)) ps' (rcount (vk s')) \<and>
     kend (vk s') = kend (vk s) \<and> km (vk s') = km (vk s) \<and> kdata s' = kdata s \<and> kpgdir s' = kpgdir s"

lemma made_grows:
  assumes M: "made d ps s ps' s'" and G: "grows d ps' s' ps'' s''"
  shows "made d ps s ps'' s''"
proof -
  note m = M[unfolded made_def] and g = G[unfolded grows_def]
  have s: "dir_pages (vmem s') d \<subseteq> set ps - set ps'" "set ps' \<subseteq> set ps" "set ps - set ps' \<subseteq> dir_pages (vmem s') d"
    "dir_pages (vmem s') d \<subseteq> dir_pages (vmem s'') d" "set ps'' \<subseteq> set ps'" "set ps' - set ps'' \<subseteq> dir_pages (vmem s'') d"
    "dir_pages (vmem s'') d \<subseteq> dir_pages (vmem s') d \<union> (set ps' - set ps'')"
    using m g by simp_all
  have "one_each ps (rcount (vk s)) ps'' (rcount (vk s''))"
    by (rule one_each_trans[of _ _ ps' "rcount (vk s')"]) (use m g in blast)+
  moreover have "vmem s'' x = vmem s x" if out: "\<forall>p \<in> dir_pages (vmem s'') d. \<not> in_page p x" for x
  proof -
    have "vmem s'' x = vmem s' x" using out g by blast
    moreover have "\<forall>p \<in> dir_pages (vmem s') d. \<not> in_page p x" using out s(4) by blast
    then have "vmem s' x = vmem s x" using m by blast
    ultimately show ?thesis by simp
  qed
  moreover have "dir_pages (vmem s'') d \<subseteq> set ps - set ps''" "set ps - set ps'' \<subseteq> dir_pages (vmem s'') d" "set ps'' \<subseteq> set ps"
    using s by blast+
  moreover have "kend (vk s'') = kend (vk s') \<and> km (vk s'') = km (vk s') \<and> kdata s'' = kdata s' \<and> kpgdir s'' = kpgdir s'"
    "kend (vk s') = kend (vk s) \<and> km (vk s') = km (vk s) \<and> kdata s' = kdata s \<and> kpgdir s' = kpgdir s"
    using m g by blast+
  ultimately show ?thesis unfolding made_def by simp
qed

lemma run_pte_from:
  assumes "a \<le> b" "b \<le> x"
  shows "run_pte (pa + of_nat (b - a) * PGSIZE) perm b x = run_pte pa perm a x"
proof -
  have "x - a = (b - a) + (x - b)" using assms by simp
  then have "pa + of_nat (b - a) * PGSIZE + of_nat (x - b) * PGSIZE = pa + of_nat (x - a) * PGSIZE"
    by (simp only: of_nat_add) (simp add: algebra_simps)
  then show ?thesis by (simp only: run_pte_def)
qed

lemma pageno_bound: "pageno x < 0x100000"
  using unat_lt32[of x] by (simp add: pageno_def)

lemma PDX_slots: "PDX x \<in> kernel_slots \<longleftrightarrow> 0x80000 \<le> pageno x \<and> pageno x < 0x8E000 \<or> 0xFE000 \<le> pageno x"
  using pageno_bound[of x] by (auto simp: kernel_slots_def unat_PDX div_le_mono2)

lemma data_sizes:
  assumes "data_ok s"
  defines "D \<equiv> pageno (kdata s)"
  shows "unat (kdata s) = D * 4096" "0x80100 < D" "D < 0x8E000"
    and "unat (V2P (kdata s) - V2P KERNLINK) = (D - 0x80100) * 4096"
    and "unat (PHYSTOP - V2P (kdata s)) = (0x8E000 - D) * 4096"
    and "V2P (kdata s) = of_nat (D - 0x80000) * PGSIZE"
proof -
  have a: "unat (kdata s) mod 4096 = 0" "0x80100000 < unat (kdata s)" "unat (kdata s) < 0x8E000000"
    using assms by (simp_all add: data_ok_def word_less_nat_alt addr_defs)
  show D: "unat (kdata s) = D * 4096"
    using div_mult_mod_eq[of "unat (kdata s)" 4096] a(1) by (simp add: D_def pageno_def)
  show b: "0x80100 < D" "D < 0x8E000" using a(2,3) D by simp_all
  have "V2P (kdata s) - V2P KERNLINK = kdata s - KERNLINK" by (simp add: V2P_def)
  moreover have "unat (kdata s - KERNLINK) = unat (kdata s) - 0x80100000"
    using a by (subst unat_sub) (simp_all add: word_le_nat_alt addr_defs)
  ultimately show "unat (V2P (kdata s) - V2P KERNLINK) = (D - 0x80100) * 4096" using D b by simp
  have "PHYSTOP - V2P (kdata s) = P2V PHYSTOP - kdata s" by (simp add: addr_defs)
  moreover have "unat (P2V PHYSTOP - kdata s) = 0x8E000000 - unat (kdata s)"
    using a by (subst unat_sub) (simp_all add: word_le_nat_alt addr_defs)
  ultimately show "unat (PHYSTOP - V2P (kdata s)) = (0x8E000 - D) * 4096" using D b by simp
  have "of_nat (unat (kdata s)) = kdata s" by simp
  then have "kdata s = of_nat (D * 4096)" unfolding D by (rule sym)
  then show "V2P (kdata s) = of_nat (D - 0x80000) * PGSIZE"
    using b by (simp add: V2P_def of_nat_diff addr_defs)
qed

lemma setupkvm_from_step:
  "mappages d virt (e - st) st perm s = Ok 0 s' \<Longrightarrow>
    setupkvm_from d ((virt, st, e, perm) # ks) s = setupkvm_from d ks s'"
  by simp

lemma setupkvm_from_eq:
  assumes D: "dirs c k S d ps s" and ok: "data_ok s" and S: "kernel_slots \<subseteq> S"
    and empty: "\<And>x. pte_at (vmem s) d x = 0"
  shows "\<exists>ps' s'. setupkvm_from d (kmap s) s = Ok d s' \<and>
    (\<forall>x. pte_at (vmem s') d x = kernel_pte (pageno (kdata s)) (pageno x)) \<and>
    dirs c k S d ps' s' \<and> grows d ps s ps' s'"
proof -
  define D where "D = pageno (kdata s)"
  note dat = data_sizes[OF ok, folded D_def]
  have pn: "pageno KERNBASE = 0x80000" "pageno KERNLINK = 0x80100" "pageno DEVSPACE = 0xFE000"
    by (simp_all add: pageno_def addr_defs)
  have slots: "PDX x \<in> S" if "0x80000 \<le> pageno x \<and> pageno x < 0x8E000 \<or> 0xFE000 \<le> pageno x" for x
    using S PDX_slots that by blast
  obtain ps1 s1 where 1: "mappages d KERNBASE (EXTMEM - 0) 0 PTE_W s = Ok 0 s1"
    "\<And>x. pte_at (vmem s1) d x = (if 0x80000 \<le> pageno x \<and> pageno x < 0x80100 then run_pte 0 PTE_W 0x80000 (pageno x) else 0)"
    "dirs c k S d ps1 s1" "grows d ps s ps1 s1"
    using mappages_eq[OF D, of KERNBASE "EXTMEM - 0" 0 PTE_W] slots empty unfolding pn by (auto simp: mem_consts)
  obtain ps2 s2 where 2: "mappages d KERNLINK (V2P (kdata s) - V2P KERNLINK) (V2P KERNLINK) 0 s1 = Ok 0 s2"
    "\<And>x. pte_at (vmem s2) d x = (if 0x80100 \<le> pageno x \<and> pageno x < D
       then run_pte (V2P KERNLINK) 0 0x80100 (pageno x) else pte_at (vmem s1) d x)"
    "dirs c k S d ps2 s2" "grows d ps1 s1 ps2 s2"
  proof -
    have ne: "V2P (kdata s) - V2P KERNLINK \<noteq> 0" using dat(2,4) by (metis mult_is_0 unat_0 zero_less_diff not_less0 zero_neq_numeral)
    have e: "0x80100 + (D - 0x80100) * 4096 div 4096 = D" "D - 0x80100 \<le> 0x7FF00" using dat(2,3) by simp_all
    show thesis
      using mappages_eq[OF 1(3), of KERNLINK "V2P (kdata s) - V2P KERNLINK" "V2P KERNLINK" 0]
        slots 1(2) ne dat(2,3) that e(2) unfolding pn dat(4) e(1) by (auto simp: mem_consts)
  qed
  obtain ps3 s3 where 3: "mappages d (kdata s) (PHYSTOP - V2P (kdata s)) (V2P (kdata s)) PTE_W s2 = Ok 0 s3"
    "\<And>x. pte_at (vmem s3) d x = (if D \<le> pageno x \<and> pageno x < 0x8E000
       then run_pte (V2P (kdata s)) PTE_W D (pageno x) else pte_at (vmem s2) d x)"
    "dirs c k S d ps3 s3" "grows d ps2 s2 ps3 s3"
  proof -
    have ne: "PHYSTOP - V2P (kdata s) \<noteq> 0" using dat(3,5) by (metis mult_is_0 unat_0 zero_less_diff not_less0 zero_neq_numeral)
    have e: "D + (0x8E000 - D) * 4096 div 4096 = 0x8E000" "D * 4096 + (0x8E000 - D) * 4096 \<le> 4294967296"
      using dat(3) by simp_all
    show thesis
      using mappages_eq[OF 2(3), of "kdata s" "PHYSTOP - V2P (kdata s)" "V2P (kdata s)" PTE_W]
        slots 1(2) 2(2) ne dat(1,2,3) that e(2) unfolding D_def[symmetric] dat(5) e(1) by auto
  qed
  obtain ps4 s4 where 4: "mappages d DEVSPACE (0 - DEVSPACE) DEVSPACE PTE_W s3 = Ok 0 s4"
    "\<And>x. pte_at (vmem s4) d x = (if 0xFE000 \<le> pageno x then run_pte DEVSPACE PTE_W 0xFE000 (pageno x)
       else pte_at (vmem s3) d x)"
    "dirs c k S d ps4 s4" "grows d ps3 s3 ps4 s4"
    using mappages_eq[OF 3(3), of DEVSPACE "0 - DEVSPACE" DEVSPACE PTE_W] slots 1(2) 2(2) 3(2) dat(3) pageno_bound
    unfolding pn by (auto simp: mem_consts)
  have "setupkvm_from d (kmap s) s = Ok d s4"
    unfolding kmap_def setupkvm_from_step[OF 1(1)] setupkvm_from_step[OF 2(1)] setupkvm_from_step[OF 3(1)]
      setupkvm_from_step[OF 4(1)] by simp
  moreover have "pte_at (vmem s4) d x = kernel_pte D (pageno x)" for x
  proof -
    have r: "run_pte (V2P KERNLINK) 0 0x80100 (pageno x) = run_pte 0 0 0x80000 (pageno x)" if "0x80100 \<le> pageno x"
      using run_pte_from[of "0x80000" "0x80100" "pageno x" 0 0] that by (simp add: addr_defs)
    have w: "run_pte (V2P (kdata s)) PTE_W D (pageno x) = run_pte 0 PTE_W 0x80000 (pageno x)" if "D \<le> pageno x"
      using run_pte_from[of "0x80000" D "pageno x" 0 PTE_W] that dat(2) by (simp add: dat(6))
    show ?thesis using 1(2) 2(2) 3(2) 4(2) r w dat(2,3) by (auto simp: kernel_pte_def)
  qed
  ultimately show ?thesis using 4(3) grows_trans[OF grows_trans[OF grows_trans[OF 1(4) 2(4)] 3(4)] 4(4)]
    unfolding D_def by blast
qed

text \<open>A fresh page as an empty directory.\<close>

lemma empty_dir:
  assumes "page_ok e p" and "\<And>x. in_page p x \<Longrightarrow> m x = 0"
  shows "\<not> has_table m p (PDX va)" "unat i < 1024 \<Longrightarrow> \<not> has_table m p i" "dir_pages m p = {p}" "dir_ok e m p"
    "pte_at m p va = 0"
proof -
  have "load32 m (p + 4 * i) = 0" if "unat i < 1024" for i
  proof -
    have "load32 m (p + 4 * i) = load32 (\<lambda>_. 0) (p + 4 * i)"
      by (rule load32_cong) (use slot_in_page[OF that] assms(2) in auto)
    then show ?thesis by (simp add: load32_def of_le32_def)
  qed
  then have no: "\<not> has_table m p i" if "unat i < 1024" for i using that by (simp add: has_table_def)
  then show "unat i < 1024 \<Longrightarrow> \<not> has_table m p i" "\<not> has_table m p (PDX va)" for i by (simp_all add: PDX_bound)
  show "dir_pages m p = {p}" using no by (auto simp: dir_pages_def)
  then show "dir_ok e m p" using no assms(1) by (auto simp: dir_ok_def inj_on_def)
  show "pte_at m p va = 0" using no[OF PDX_bound] by (simp add: pte_at_def)
qed

lemma setupkvm_eq:
  assumes g: "vgood c ps s" and ok: "data_ok s" and S: "finite S" "\<And>i. i \<in> S \<Longrightarrow> unat i < 1024" "kernel_slots \<subseteq> S"
    and room: "k + card S < length ps"
  shows "\<exists>d ps' s'. setupkvm s = Ok d s' \<and> d \<noteq> 0 \<and> d \<in> set ps \<and>
    (\<forall>x. pte_at (vmem s') d x = kernel_pte (pageno (kdata s)) (pageno x)) \<and>
    dirs c k S d ps' s' \<and> made d ps s ps' s'"
proof -
  let ?e = "kend (vk s)"
  have q: "kquiet c (vk s)" and inv: "pool_inv ps (vk s)" and ru: "ruse (vk s)" using g by (simp_all add: vgood_def)
  obtain p qs where ps: "ps = p # qs" using room by (cases ps) auto
  have f: "freelist (vk s) = p" "p \<noteq> 0" and p: "page_ok ?e p" "p \<notin> set qs"
    using inv by (auto simp: ps pool_inv_def)
  let ?s = "s\<lparr>vk := popped_page (vk s)\<rparr>"
  let ?t = "set_mem (memset p 0 PGSIZE) ?s"
  have vm: "vmem ?s = vmem s" by (simp add: vmem_def popped_page_def)
  have ke: "kend (popped_page (vk s)) = ?e" "km (popped_page (vk s)) = km (vk s)" by (simp_all add: popped_page_def)
  have zero: "vmem ?t x = 0" if "in_page p x" for x using that by (simp add: vm memset_page)
  note em = empty_dir[OF p(1), where m = "vmem ?t", OF zero]
  have gs: "vgood c qs ?s"
    using popped_page_inv[of p qs "vk s"] inv q ru by (simp add: ps vgood_def kquiet_def popped_page_def)
  have gt: "vgood c qs ?t"
  proof (rule vgood_mem[OF gs])
    fix r x assume r: "r \<in> set qs" and x: "in_page r x"
    have "page_ok ?e r" "r \<noteq> p" using inv r p(2) by (auto simp: ps pool_inv_def)
    then have "\<not> in_page p x" using pages_disjoint[OF _ p(1) x] by blast
    then show "memset p 0 PGSIZE (vmem ?s) x = vmem ?s x" by (simp add: memset_page)
  qed
  have "card (missing (vmem ?t) p S) \<le> card S" using S(1) by (auto simp: missing_def intro: card_mono)
  then have "dirs c k S p qs ?t"
    using gt em(3,4) p(2) S(1,2) room unfolding dirs_def by (simp add: ke ps)
  moreover have "data_ok ?t" using ok by (simp add: data_ok_def)
  ultimately obtain ps' s' where s': "setupkvm_from p (kmap ?t) ?t = Ok p s'"
    "\<forall>x. pte_at (vmem s') p x = kernel_pte (pageno (kdata ?t)) (pageno x)" "dirs c k S p ps' s'" "grows p qs ?t ps' s'"
    using setupkvm_from_eq[of c k S p qs ?t] S(3) em(5) by blast
  have "setupkvm s = Ok p s'"
    using kalloc_eq[OF q, of ?e] f p(1) s'(1)
    by (simp add: setupkvm_def zoom_Ok addr_defs)
  moreover have "made p ps s qs ?t"
  proof -
    have "vmem ?t x = vmem s x" if "\<not> in_page p x" for x using that by (simp add: vm memset_page)
    moreover have "one_each ps (rcount (vk s)) qs (rcount (vk ?t))"
      using f(1) ru by (auto simp: one_each_def ps popped_page_def)
    moreover have "dir_pages (memset p 0 PGSIZE (vmem ?s)) p = {p}" using em(3) by simp
    ultimately show ?thesis unfolding made_def by (auto simp: ps p(2) ke)
  qed
  ultimately show ?thesis
    using made_grows[OF _ s'(4)] s'(2,3) f(2) by (intro exI[of _ p] exI[of _ ps'] exI[of _ s']) (simp add: ps)
qed

end
