(* ===== verification/CowFork.thy ===== *)
theory CowFork
  imports AddrSpace
begin

unbundle bit_operations_syntax

text \<open>
  Copy-on-write fork: \<open>copyuvm\<close> gives the child the parent's memory through the same frames, write
  protected on both sides, with one more reference on each; a later write fault of either process
  is then invisible to the other.
\<close>

section \<open>Shared entries\<close>

definition share :: "uint \<Rightarrow> uint" where
  "share e = (e AND NOT PTE_W) OR PTE_COW_W"

definition frame_at :: "memory \<Rightarrow> uint \<Rightarrow> uint \<Rightarrow> uint" where
  "frame_at m d va = P2V (PTE_ADDR (pte_at m d va))"

lemma share_simps:
  "PTE_ADDR (share e) = PTE_ADDR e"
  "pte_has (share e) PTE_P \<longleftrightarrow> pte_has e PTE_P" "pte_has (share e) PTE_U \<longleftrightarrow> pte_has e PTE_U"
  "\<not> pte_has (share e) PTE_W" "pte_has (share e) PTE_COW_W"
proof -
  have b: "(x OR y) AND z = (x AND z) OR (y AND z)" "(x AND NOT y) AND z = x AND (NOT y AND z)" for x y z :: uint
    by (rule bit.conj_disj_distrib2) (rule and.assoc)
  have k: "NOT PTE_W AND NOT 0xFFF = NOT 0xFFF" "PTE_COW_W AND NOT 0xFFF = 0"
    "NOT PTE_W AND PTE_P = PTE_P" "PTE_COW_W AND PTE_P = 0" "NOT PTE_W AND PTE_U = PTE_U" "PTE_COW_W AND PTE_U = 0"
    "NOT PTE_W AND PTE_W = 0" "PTE_COW_W AND PTE_W = 0" "NOT PTE_W AND PTE_COW_W = PTE_COW_W"
    by (simp_all add: pte_consts)
  show "PTE_ADDR (share e) = PTE_ADDR e" unfolding PTE_ADDR_def share_def b k by simp
  show "pte_has (share e) PTE_P \<longleftrightarrow> pte_has e PTE_P" "pte_has (share e) PTE_U \<longleftrightarrow> pte_has e PTE_U"
    "\<not> pte_has (share e) PTE_W" unfolding pte_has_def share_def b k by simp_all
  have "bit (share e) 8" by (simp add: share_def bit_or_iff PTE_COW_W_def)
  then have "bit (share e AND PTE_COW_W) 8" by (simp add: bit_and_iff PTE_COW_W_def)
  then show "pte_has (share e) PTE_COW_W" by (auto simp: pte_has_def)
qed

lemma share_parts: "pte_has e PTE_P \<Longrightarrow> PTE_ADDR e OR PTE_FLAGS (share e) OR PTE_P = share e"
proof -
  assume p: "pte_has e PTE_P"
  have "(share e AND NOT 0xFFF) OR (share e AND 0xFFF) = share e"
    by (simp add: bit.conj_disj_distrib[symmetric])
  then have "PTE_ADDR e OR PTE_FLAGS (share e) = share e"
    using share_simps(1)[of e] by (simp add: PTE_ADDR_def PTE_FLAGS_def)
  moreover have "share e OR PTE_P = share e"
  proof -
    have "share e AND 1 \<noteq> 0" using p share_simps(2)[of e] by (simp add: pte_has_def PTE_P_def)
    then have "odd (share e)" by (simp add: and_one_eq odd_iff_mod_2_eq_one)
    then show ?thesis by (simp add: PTE_P_def or_one_eq)
  qed
  ultimately show ?thesis by (simp add: or.assoc[symmetric])
qed

text \<open>The two writes of \<open>copyuvm\<close> to the parent's entry.\<close>

definition share_entry :: "uint \<Rightarrow> uint \<Rightarrow> vst \<Rightarrow> vst" where
  "share_entry pg va s =
     (let pte = pte_slot (vmem s) pg va;
          s = wr32 pte (rd32 pte s AND NOT PTE_W) s in
      wr32 pte (rd32 pte s OR PTE_COW_W) s)"

lemma share_entry:
  assumes P: "dirs c k S pg ps s" and t: "has_table (vmem s) pg (PDX va)"
  shows "dirs c k S pg ps (share_entry pg va s)" and "grows pg ps s ps (share_entry pg va s)"
    and "rcount (vk (share_entry pg va s)) = rcount (vk s)"
    and "pte_at (vmem (share_entry pg va s)) pg x =
      (if pageno x = pageno va then share (pte_at (vmem s) pg va) else pte_at (vmem s) pg x)"
    and "dir_pages (vmem (share_entry pg va s)) pg = dir_pages (vmem s) pg"
    and "rd32 (pte_slot (vmem s) pg va) (share_entry pg va s) = share (pte_at (vmem s) pg va)"
proof -
  define pte where "pte = pte_slot (vmem s) pg va"
  define s1 where "s1 = wr32 pte (rd32 pte s AND NOT PTE_W) s"
  have s2: "share_entry pg va s = wr32 pte (rd32 pte s1 OR PTE_COW_W) s1"
    by (simp add: share_entry_def Let_def pte_def s1_def)
  note w1 = write_pte[OF P t, where w = "rd32 pte s AND NOT PTE_W", folded pte_def, folded s1_def]
  have t1: "has_table (vmem s1) pg (PDX va)" using w1(4)[OF PDX_bound] t by simp
  have e1: "pte_slot (vmem s1) pg va = pte" using w1(5)[OF PDX_bound] by (simp add: pte_slot_def pte_def)
  have r1: "rd32 pte s1 = pte_at (vmem s) pg va AND NOT PTE_W"
    using rd32_slot[OF t1] w1(3)[of va] rd32_slot[OF t] by (simp add: e1 pte_def)
  note w2 = write_pte[OF w1(1) t1, where w = "rd32 pte s1 OR PTE_COW_W", unfolded e1, folded s2]
  show "dirs c k S pg ps (share_entry pg va s)" "grows pg ps s ps (share_entry pg va s)"
    "rcount (vk (share_entry pg va s)) = rcount (vk s)"
    "dir_pages (vmem (share_entry pg va s)) pg = dir_pages (vmem s) pg"
    using w2(1,6,7) w1(6,7) grows_trans[OF w1(2) w2(2)] by simp_all
  show p: "pte_at (vmem (share_entry pg va s)) pg x =
      (if pageno x = pageno va then share (pte_at (vmem s) pg va) else pte_at (vmem s) pg x)" for x
    using w2(3)[of x] w1(3)[of x] r1 by (simp add: share_def)
  have "has_table (vmem (share_entry pg va s)) pg (PDX va)" "pte_slot (vmem (share_entry pg va s)) pg va = pte"
    using w2(4,5)[OF PDX_bound] t1 e1 by (simp_all add: pte_slot_def)
  then show "rd32 (pte_slot (vmem s) pg va) (share_entry pg va s) = share (pte_at (vmem s) pg va)"
    using rd32_slot[of "share_entry pg va s" pg va] p[of va] by (simp add: pte_def)
qed

section \<open>The loop of copyuvm\<close>

text \<open>
  A parent that can be copied: its first \<open>n\<close> pages are present, in frames of their own that the
  allocator counts, and its directory and tables are in order and not free.
\<close>

definition user_pages :: "uint \<Rightarrow> nat \<Rightarrow> uint list \<Rightarrow> vst \<Rightarrow> bool" where
  "user_pages pg n ps s \<longleftrightarrow>
     dir_ok (kend (vk s)) (vmem s) pg \<and> dir_pages (vmem s) pg \<inter> set ps = {} \<and>
     (\<forall>va. pageno va < n \<longrightarrow>
        pte_has (pte_at (vmem s) pg va) PTE_P \<and> page_ok (kend (vk s)) (frame_at (vmem s) pg va) \<and>
        frame_at (vmem s) pg va \<notin> dir_pages (vmem s) pg \<and>
        0 < rcount (vk s) (page_index (frame_at (vmem s) pg va))) \<and>
     (\<forall>va va'. pageno va < n \<longrightarrow> pageno va' < n \<longrightarrow>
        frame_at (vmem s) pg va = frame_at (vmem s) pg va' \<longrightarrow> pageno va = pageno va')"

definition one_more :: "memory \<Rightarrow> uint \<Rightarrow> nat \<Rightarrow> nat \<Rightarrow> int" where
  "one_more m pg j i = (if \<exists>va. pageno va < j \<and> page_index (frame_at m pg va) = i then 1 else 0)"

text \<open>After \<open>j\<close> pages: the state \<open>s\<close> against the state \<open>s0\<close> and the pool \<open>ps0\<close> before \<open>copyuvm\<close>.\<close>

definition copied :: "nat \<Rightarrow> nat \<Rightarrow> uint set \<Rightarrow> uint \<Rightarrow> uint \<Rightarrow> uint list \<Rightarrow> vst \<Rightarrow> nat \<Rightarrow> uint list \<Rightarrow> vst \<Rightarrow> bool" where
  "copied c k S d pg ps0 s0 j ps s \<longleftrightarrow>
     dirs c k S d ps s \<and> dirs c k {} pg ps s \<and> dir_pages (vmem s) d \<subseteq> set ps0 \<and> set ps \<subseteq> set ps0 \<and>
     dir_pages (vmem s) pg = dir_pages (vmem s0) pg \<and> kend (vk s) = kend (vk s0) \<and> km (vk s) = km (vk s0) \<and>
     (\<forall>x. pte_at (vmem s) pg x = (if pageno x < j then share (pte_at (vmem s0) pg x) else pte_at (vmem s0) pg x)) \<and>
     (\<forall>x. pte_at (vmem s) d x = (if pageno x < j then share (pte_at (vmem s0) pg x)
        else kernel_pte (pageno (kdata s0)) (pageno x))) \<and>
     (\<forall>x. (\<forall>p \<in> dir_pages (vmem s0) pg \<union> set ps0. \<not> in_page p x) \<longrightarrow> vmem s x = vmem s0 x) \<and>
     (\<forall>i. (\<forall>p \<in> set ps0. page_index p \<noteq> i) \<longrightarrow> rcount (vk s) i = rcount (vk s0) i + one_more (vmem s0) pg j i) \<and>
     (\<forall>p \<in> set ps0 - set ps. p \<in> dir_pages (vmem s) d \<and> rcount (vk s) (page_index p) = 1)"

lemma kernel_pte_user: "x < 0x80000 \<Longrightarrow> dat \<ge> 0x80000 \<Longrightarrow> kernel_pte dat x = 0"
  by (simp add: kernel_pte_def)

lemma page_addr:
  assumes "j < 0x80000"
  shows "unat (of_nat j * PGSIZE) = j * 4096" "pageno (of_nat j * PGSIZE) = j"
proof -
  have "unat (of_nat (j * 4096) :: uint) = j * 4096"
    using assms by (simp add: unsigned_of_nat take_bit_nat_eq_self del: of_nat_mult)
  then show u: "unat (of_nat j * PGSIZE) = j * 4096" by (simp add: PGSIZE_def)
  show "pageno (of_nat j * PGSIZE) = j" unfolding pageno_def u by simp
qed

lemma one_more_Suc:
  assumes inj: "\<And>va va'. pageno va < n \<Longrightarrow> pageno va' < n \<Longrightarrow> frame_at m pg va = frame_at m pg va' \<Longrightarrow> pageno va = pageno va'"
    and ok: "\<And>va. pageno va < n \<Longrightarrow> page_ok e (frame_at m pg va)" and va: "pageno va < n"
  shows "one_more m pg (Suc (pageno va)) i = one_more m pg (pageno va) i + (if i = page_index (frame_at m pg va) then 1 else 0)"
proof -
  let ?j = "pageno va" and ?idx = "\<lambda>va. page_index (frame_at m pg va)"
  have fr: "?idx va' = ?idx va" if "pageno va' = ?j" for va'
    using that pageno_same by (metis frame_at_def pte_at_def)
  have no: "\<not> (\<exists>va'. pageno va' < ?j \<and> ?idx va' = ?idx va)"
  proof
    assume "\<exists>va'. pageno va' < ?j \<and> ?idx va' = ?idx va"
    then obtain va' where v: "pageno va' < ?j" "?idx va' = ?idx va" by blast
    have "page_ok e (frame_at m pg va')" "page_ok e (frame_at m pg va)" using ok v(1) va by simp_all
    then have "frame_at m pg va' = frame_at m pg va" using page_index_inj v(2) by blast
    then show False using inj[of va' va] v(1) va by simp
  qed
  have "(\<exists>va'. pageno va' < Suc ?j \<and> ?idx va' = i) \<longleftrightarrow> (\<exists>va'. pageno va' < ?j \<and> ?idx va' = i) \<or> i = ?idx va"
    using fr less_Suc_eq by blast
  then show ?thesis using no unfolding one_more_def by (cases "i = ?idx va") simp_all
qed

lemma rcount_vgood:
  assumes "vgood c ps s" and "\<And>p. p \<in> set ps \<Longrightarrow> f (page_index p) = 0" and "\<And>i. 0 \<le> f i"
  shows "vgood c ps (s\<lparr>vk := (vk s)\<lparr>rcount := f\<rparr>\<rparr>)"
  using assms by (simp add: vgood_def kquiet_def pool_inv_def)

lemma dirsD:
  assumes "dirs c k S d ps s"
  shows "vgood c ps s" "dir_ok (kend (vk s)) (vmem s) d" "dir_pages (vmem s) d \<inter> set ps = {}"
    and "p \<in> set ps \<Longrightarrow> page_ok (kend (vk s)) p \<and> rcount (vk s) (page_index p) = 0" "0 \<le> rcount (vk s) i"
  using assms by (auto simp: dirs_def vgood_def pool_inv_def)

lemma copiedD:
  assumes "copied c k S d pg ps0 s0 j ps s"
  shows "dirs c k S d ps s" "dirs c k {} pg ps s" "dir_pages (vmem s) d \<subseteq> set ps0" "set ps \<subseteq> set ps0"
    "dir_pages (vmem s) pg = dir_pages (vmem s0) pg" "kend (vk s) = kend (vk s0)"
    "\<And>x. pte_at (vmem s) pg x = (if pageno x < j then share (pte_at (vmem s0) pg x) else pte_at (vmem s0) pg x)"
    "\<And>x. pte_at (vmem s) d x = (if pageno x < j then share (pte_at (vmem s0) pg x)
        else kernel_pte (pageno (kdata s0)) (pageno x))"
    "\<And>x. (\<And>p. p \<in> dir_pages (vmem s0) pg \<union> set ps0 \<Longrightarrow> \<not> in_page p x) \<Longrightarrow> vmem s x = vmem s0 x"
    "\<And>i. (\<And>p. p \<in> set ps0 \<Longrightarrow> page_index p \<noteq> i) \<Longrightarrow>
      rcount (vk s) i = rcount (vk s0) i + one_more (vmem s0) pg j i"
    "km (vk s) = km (vk s0)"
    "\<And>p. p \<in> set ps0 \<Longrightarrow> p \<notin> set ps \<Longrightarrow> p \<in> dir_pages (vmem s) d \<and> rcount (vk s) (page_index p) = 1"
  using assms unfolding copied_def by blast+

lemma other_dir:
  assumes D: "dirs c k S d ps s" and g: "vgood c ps' s'" and p: "set ps' \<subseteq> set ps" "S = {} \<and> k \<le> length ps' \<or> ps' = ps"
    and e: "kend (vk s') = kend (vk s)"
    and same: "\<And>p x. p \<in> dir_pages (vmem s) d \<Longrightarrow> in_page p x \<Longrightarrow> vmem s' x = vmem s x"
  shows "dirs c k S d ps' s'" and "pte_at (vmem s') d va = pte_at (vmem s) d va"
    and "dir_pages (vmem s') d = dir_pages (vmem s) d"
proof -
  note cong = dir_cong[of "vmem s" d "vmem s'", OF same]
  show "pte_at (vmem s') d va = pte_at (vmem s) d va" "dir_pages (vmem s') d = dir_pages (vmem s) d"
    by (rule cong; assumption)+
  moreover have "missing (vmem s') d S = missing (vmem s) d S"
    using D cong(1) by (auto simp: missing_def dirs_def)
  moreover have "k + card (missing (vmem s) d S) \<le> length ps'"
    using D p(2) by (auto simp: dirs_def missing_def)
  ultimately show "dirs c k S d ps' s'" using D g p(1) cong(5) by (auto simp: dirs_def e)
qed

lemma grows_other:
  assumes G: "grows d ps s ps' s'" and D: "dirs c k S d ps' s'" and ok: "dir_ok (kend (vk s)) (vmem s) d2"
    and dis: "dir_pages (vmem s') d \<inter> dir_pages (vmem s) d2 = {}" and p: "p \<in> dir_pages (vmem s) d2" "in_page p x"
  shows "vmem s' x = vmem s x"
proof -
  have "\<not> in_page q x" if q: "q \<in> dir_pages (vmem s') d" for q
  proof
    assume x: "in_page q x"
    have "page_ok (kend (vk s')) q" using D dir_okD(2)[OF _ q] by (simp add: dirs_def)
    then have "q = p" using pages_disjoint[OF _ dir_okD(2)[OF ok p(1)] x p(2)] by blast
    then show False using q p(1) dis by blast
  qed
  then show ?thesis using G by (simp add: grows_def)
qed

text \<open>What one round finds: the parent's page \<open>va\<close> as it was before the copy.\<close>

lemma copied_next:
  assumes U: "user_pages pg n ps0 s0" and I: "copied c k S d pg ps0 s0 j ps s" and va: "pageno va = j" "j < n"
    and pool: "\<And>p. p \<in> set ps0 \<Longrightarrow> page_ok (kend (vk s0)) p \<and> rcount (vk s0) (page_index p) = 0"
  defines "v \<equiv> frame_at (vmem s0) pg va"
  shows "pte_at (vmem s) pg va = pte_at (vmem s0) pg va" "pte_has (pte_at (vmem s0) pg va) PTE_P"
    "has_table (vmem s) pg (PDX va)" "pte_slot (vmem s) pg va \<noteq> 0" "page_ok (kend (vk s)) v"
    "\<And>p. p \<in> set ps0 \<Longrightarrow> page_index p \<noteq> page_index v" "0 < rcount (vk s) (page_index v)"
proof -
  have u: "pte_has (pte_at (vmem s0) pg va) PTE_P" "page_ok (kend (vk s0)) v" "0 < rcount (vk s0) (page_index v)"
    using U va by (simp_all add: user_pages_def v_def)
  show e: "pte_at (vmem s) pg va = pte_at (vmem s0) pg va" using I va(1) by (simp add: copied_def)
  show "pte_has (pte_at (vmem s0) pg va) PTE_P" by (rule u)
  then have "pte_at (vmem s) pg va \<noteq> 0" using e by auto
  then show t: "has_table (vmem s) pg (PDX va)" by (auto simp: pte_at_def split: if_splits)
  have "dir_ok (kend (vk s)) (vmem s) pg" using copiedD(2)[OF I] dirsD(2) by blast
  then have "page_ok (kend (vk s)) (table_of (vmem s) pg (PDX va))" using dir_okD(3)[OF _ PDX_bound t] by blast
  then show "pte_slot (vmem s) pg va \<noteq> 0" using slot_nonzero[OF _ PTX_bound] by (simp add: pte_slot_def)
  show "page_ok (kend (vk s)) v" using u(2) I by (simp add: copied_def)
  show ni: "page_index p \<noteq> page_index v" if "p \<in> set ps0" for p using pool[OF that] u(3) by auto
  then have "rcount (vk s) (page_index v) = rcount (vk s0) (page_index v) + one_more (vmem s0) pg j (page_index v)"
    using I by (simp add: copied_def)
  moreover have "0 \<le> one_more (vmem s0) pg j (page_index v)" by (simp add: one_more_def)
  ultimately show "0 < rcount (vk s) (page_index v)" using u(3) by simp
qed

text \<open>The parent's side of one round: the shared entry, the reference and the reload of the page table.\<close>

definition count_frame :: "uint \<Rightarrow> vst \<Rightarrow> vst" where
  "count_frame v s = s\<lparr>vk := (vk s)\<lparr>rcount := (rcount (vk s))(page_index v := rcount (vk s) (page_index v) + 1)\<rparr>\<rparr>"

definition share_page :: "uint \<Rightarrow> uint \<Rightarrow> uint \<Rightarrow> vst \<Rightarrow> vst" where
  "share_page pg va v s = lcr3 (V2P pg) (count_frame v (share_entry pg va s))"

lemma share_page:
  assumes U: "user_pages pg n ps0 s0" and I: "copied c k S d pg ps0 s0 j ps s" and va: "pageno va = j" "j < n"
    and pool: "\<And>p. p \<in> set ps0 \<Longrightarrow> page_ok (kend (vk s0)) p \<and> rcount (vk s0) (page_index p) = 0"
  defines "v \<equiv> frame_at (vmem s0) pg va"
  defines "t \<equiv> share_page pg va v s"
  shows "dirs c k S d ps t" "dirs c k {} pg ps t" "pte_at (vmem t) d x = pte_at (vmem s) d x"
    "dir_pages (vmem t) d = dir_pages (vmem s) d" "dir_pages (vmem t) pg = dir_pages (vmem s) pg"
    "pte_at (vmem t) pg x = (if pageno x < Suc j then share (pte_at (vmem s0) pg x) else pte_at (vmem s0) pg x)"
    "rcount (vk t) = (rcount (vk s))(page_index v := rcount (vk s) (page_index v) + 1)"
    "kend (vk t) = kend (vk s)" "(\<And>p. p \<in> dir_pages (vmem s) pg \<Longrightarrow> \<not> in_page p x) \<Longrightarrow> vmem t x = vmem s x"
    "km (vk t) = km (vk s)"
proof -
  note cp = copiedD[OF I]
  have nx: "pte_at (vmem s) pg va = pte_at (vmem s0) pg va" "has_table (vmem s) pg (PDX va)"
    "\<And>p. p \<in> set ps0 \<Longrightarrow> page_index p \<noteq> page_index v"
    using copied_next(1,3,6)[OF U I va] pool unfolding v_def by blast+
  define s2 where "s2 = share_entry pg va s"
  note sh = share_entry[OF cp(2) nx(2), unfolded nx(1), folded s2_def]
  have dis0: "dir_pages (vmem s0) pg \<inter> set ps0 = {}" using U by (simp add: user_pages_def)
  have ke: "kend (vk s2) = kend (vk s)" using sh(2) by (simp add: grows_def)
  have same: "vmem s2 x = vmem s x" if "p \<in> dir_pages (vmem s) d" "in_page p x" for p x
    by (rule grows_other[OF sh(2,1) dirsD(2)[OF cp(1)] _ that]) (use sh(5) cp(3,5) dis0 in auto)
  have D2: "dirs c k S d ps s2" "pte_at (vmem s2) d x = pte_at (vmem s) d x" "dir_pages (vmem s2) d = dir_pages (vmem s) d" for x
    by (rule other_dir[OF cp(1) dirsD(1)[OF sh(1)] _ _ ke same]; simp)+
  have tv: "vmem t = vmem s2" and tk: "kend (vk t) = kend (vk s2)" and
    vt: "vk t = (vk s2)\<lparr>rcount := (rcount (vk s2))(page_index v := rcount (vk s2) (page_index v) + 1)\<rparr>"
    by (simp_all add: t_def share_page_def lcr3_def count_frame_def vmem_def s2_def)
  have "vgood c ps (count_frame v s2)" unfolding count_frame_def
    by (rule rcount_vgood[OF dirsD(1)[OF sh(1)]])
      (use dirsD(4,5)[OF sh(1)] nx(3) cp(4) in \<open>auto simp: sh(3) intro: add_nonneg_nonneg\<close>)
  then have g: "vgood c ps t" by (simp add: t_def share_page_def vgood_def lcr3_def s2_def)
  show "dirs c k S d ps t" "dirs c k {} pg ps t" using dirs_frame[OF _ g tv tk] D2(1) sh(1) by blast+
  show "pte_at (vmem t) d x = pte_at (vmem s) d x" "dir_pages (vmem t) d = dir_pages (vmem s) d"
    "dir_pages (vmem t) pg = dir_pages (vmem s) pg" using D2(2,3) sh(5) by (simp_all add: tv)
  show "kend (vk t) = kend (vk s)" using tk ke by simp
  show "km (vk t) = km (vk s)" using sh(2) by (simp add: vt grows_def)
  show "rcount (vk t) = (rcount (vk s))(page_index v := rcount (vk s) (page_index v) + 1)" by (simp add: vt sh(3))
  show "pte_at (vmem t) pg x = (if pageno x < Suc j then share (pte_at (vmem s0) pg x) else pte_at (vmem s0) pg x)"
  proof (cases "pageno x = j")
    case True
    then have "pte_at (vmem s0) pg x = pte_at (vmem s0) pg va"
      using va(1) pageno_same[of x va] by (auto simp: pte_at_def)
    then show ?thesis using True sh(4)[of x] va(1) by (simp add: tv)
  next
    case False
    then show ?thesis using sh(4)[of x] cp(7)[of x] va(1) by (simp add: tv less_Suc_eq)
  qed
  show "vmem t x = vmem s x" if "\<And>p. p \<in> dir_pages (vmem s) pg \<Longrightarrow> \<not> in_page p x"
    using sh(2,5) that by (simp add: grows_def tv)
qed

lemma copyuvm_round:
  assumes t: "has_table (vmem s) pg (PDX va)" "pte_slot (vmem s) pg va \<noteq> 0" and p: "pte_has (pte_at (vmem s) pg va) PTE_P"
    and P: "dirs c k S pg ps s" and v: "v = frame_at (vmem s) pg va" "page_ok (kend (vk s)) v" "0 < rcount (vk s) (page_index v)"
    and M: "mappages d va PGSIZE (PTE_ADDR (pte_at (vmem s) pg va)) (PTE_FLAGS (share (pte_at (vmem s) pg va))) (share_page pg va v s) = Ok 0 s'"
    and lt: "va < sz" "\<not> va + PGSIZE \<le> va"
  shows "copyuvm_from d pg va sz s = copyuvm_from d pg (va + PGSIZE) sz s'"
proof -
  define s2 where "s2 = share_entry pg va s"
  note sh = share_entry[OF P t(1), folded s2_def]
  have ke: "kend (vk s2) = kend (vk s)" using sh(2) by (simp add: grows_def)
  have g: "kquiet c (vk s2)" "ruse (vk s2)" using dirsD(1)[OF sh(1)] by (simp_all add: vgood_def)
  have "incrementRefCount v (vk s2) =
      Ok () ((vk s2)\<lparr>rcount := (rcount (vk s2))(page_index v := rcount (vk s2) (page_index v) + 1)\<rparr>)"
    using incrementRefCount_eq[OF g(1), of v] v(2,3) g(2) by (simp add: ke sh(3))
  then have inc: "on_vk (incrementRefCount (P2V (PTE_ADDR (pte_at (vmem s) pg va)))) s2 = Ok () (count_frame v s2)"
    by (simp add: zoom_Ok count_frame_def v(1) frame_at_def)
  have s2: "share_entry pg va s = s2" by (simp add: s2_def)
  show ?thesis
    using M lt p t(2) inc sh(6) unfolding share_page_def s2
    by (subst copyuvm_from.simps)
      (simp add: walk_present[OF t(1)] rd32_slot[OF t(1)] Let_def s2[unfolded share_entry_def Let_def, unfolded rd32_slot[OF t(1)]])
qed

text \<open>The invariant after one more page.\<close>

lemma copied_Suc:
  assumes U: "user_pages pg n ps0 s0" and I: "copied c k S d pg ps0 s0 j ps s" and va: "pageno va = j" "j < n"
    and pool: "\<And>p. p \<in> set ps0 \<Longrightarrow> page_ok (kend (vk s0)) p \<and> rcount (vk s0) (page_index p) = 0"
    and t: "dirs c k {} pg ps t" "\<And>x. pte_at (vmem t) d x = pte_at (vmem s) d x"
      "dir_pages (vmem t) d = dir_pages (vmem s) d" "dir_pages (vmem t) pg = dir_pages (vmem s) pg"
      "\<And>x. pte_at (vmem t) pg x = (if pageno x < Suc j then share (pte_at (vmem s0) pg x) else pte_at (vmem s0) pg x)"
      "rcount (vk t) = (rcount (vk s))(page_index (frame_at (vmem s0) pg va) := rcount (vk s) (page_index (frame_at (vmem s0) pg va)) + 1)"
      "kend (vk t) = kend (vk s)" "\<And>x. (\<And>p. p \<in> dir_pages (vmem s) pg \<Longrightarrow> \<not> in_page p x) \<Longrightarrow> vmem t x = vmem s x"
      "km (vk t) = km (vk s)"
    and M: "\<And>x. pte_at (vmem s') d x = (if pageno x = j
        then run_pte (PTE_ADDR (pte_at (vmem s0) pg va)) (PTE_FLAGS (share (pte_at (vmem s0) pg va))) j j else pte_at (vmem t) d x)"
      "dirs c k S d ps' s'" "grows d ps t ps' s'"
  shows "copied c k S d pg ps0 s0 (Suc j) ps' s'"
proof -
  note cp = copiedD[OF I]
  let ?v = "frame_at (vmem s0) pg va"
  have dis0: "dir_pages (vmem s0) pg \<inter> set ps0 = {}" using U by (simp add: user_pages_def)
  have sub: "set ps' \<subseteq> set ps" "dir_pages (vmem s') d \<subseteq> set ps0" and ke: "kend (vk s') = kend (vk t)"
    and km: "km (vk s') = km (vk s0)"
    using t(9) cp(11) M(3) cp(3,4) t(3) by (auto simp: grows_def)
  have same: "vmem s' x = vmem t x" if "p \<in> dir_pages (vmem t) pg" "in_page p x" for p x
    by (rule grows_other[OF M(3,2) dirsD(2)[OF t(1)] _ that]) (use sub(2) t(4) cp(5) dis0 in auto)
  have P: "dirs c k {} pg ps' s'" "pte_at (vmem s') pg x = pte_at (vmem t) pg x" "dir_pages (vmem s') pg = dir_pages (vmem t) pg" for x
    by (rule other_dir[OF t(1) dirsD(1)[OF M(2)] sub(1) _ ke same]; use M(2) in \<open>simp add: dirs_def\<close>)+
  have child: "pte_at (vmem s') d x = (if pageno x < Suc j then share (pte_at (vmem s0) pg x)
      else kernel_pte (pageno (kdata s0)) (pageno x))" for x
  proof (cases "pageno x = j")
    case True
    then have "pte_at (vmem s0) pg x = pte_at (vmem s0) pg va"
      using va(1) pageno_same[of x va] by (auto simp: pte_at_def)
    moreover have "pte_has (pte_at (vmem s0) pg va) PTE_P" using U va by (simp add: user_pages_def)
    ultimately show ?thesis using M(1)[of x] True share_parts by (simp add: run_pte_simps(1))
  next
    case False
    then show ?thesis using M(1)[of x] t(2)[of x] cp(8)[of x] by (simp add: less_Suc_eq)
  qed
  have mem: "vmem s' x = vmem s0 x" if out: "\<And>p. p \<in> dir_pages (vmem s0) pg \<union> set ps0 \<Longrightarrow> \<not> in_page p x" for x
  proof -
    have "\<forall>p \<in> dir_pages (vmem s') d. \<not> in_page p x" using out sub(2) by blast
    then have "vmem s' x = vmem t x" using M(3) by (simp add: grows_def)
    also have "\<dots> = vmem s x" by (rule t(8)) (use out cp(5) in simp)
    also have "\<dots> = vmem s0 x" by (rule cp(9)) (rule out)
    finally show ?thesis .
  qed
  have rc: "rcount (vk s') i = rcount (vk s0) i + one_more (vmem s0) pg (Suc j) i"
    if out: "\<And>p. p \<in> set ps0 \<Longrightarrow> page_index p \<noteq> i" for i
  proof -
    have "\<forall>p \<in> set ps. page_index p \<noteq> i" using out cp(4) by blast
    then have "rcount (vk s') i = rcount (vk t) i" using grows_rcount[OF M(3)] by simp
    moreover have "rcount (vk s) i = rcount (vk s0) i + one_more (vmem s0) pg j i" by (rule cp(10)) (rule out)
    moreover have "one_more (vmem s0) pg (Suc j) i = one_more (vmem s0) pg j i + (if i = page_index ?v then 1 else 0)"
      using one_more_Suc[of n "vmem s0" pg "kend (vk s0)" va i] U va by (simp add: user_pages_def)
    ultimately show ?thesis by (cases "i = page_index ?v") (simp_all add: t(6))
  qed
  have new: "p \<in> dir_pages (vmem s') d \<and> rcount (vk s') (page_index p) = 1" if p: "p \<in> set ps0" "p \<notin> set ps'" for p
  proof -
    have g: "set ps - set ps' \<subseteq> dir_pages (vmem s') d" "dir_pages (vmem s) d \<subseteq> dir_pages (vmem s') d"
      "one_each ps (rcount (vk t)) ps' (rcount (vk s'))"
      using M(3) t(3) by (simp_all add: grows_def)
    have other: "page_index q \<noteq> page_index p" if "q \<in> set ps0" "q \<noteq> p" for q
      using page_index_inj[of "kend (vk s0)" q "kend (vk s0)" p] pool[OF p(1)] pool[OF that(1)] that(2) by simp
    have ni: "page_index q \<noteq> page_index p" if "q \<in> set ps'" for q
      by (rule other) (use that p(2) sub(1) cp(4) in blast)+
    show ?thesis
    proof (cases "p \<in> set ps")
      case True
      then show ?thesis using one_each_in[OF g(3) ni True] g(1) p(2) by blast
    next
      case False
      then have old: "p \<in> dir_pages (vmem s) d" "rcount (vk s) (page_index p) = 1" using cp(12) p(1) by blast+
      have nv: "page_index p \<noteq> page_index ?v" using pool[OF p(1)] U va by (auto simp: user_pages_def)
      have "page_index q \<noteq> page_index p" if "q \<in> set ps" for q
        by (rule other) (use that False cp(4) in blast)+
      then have "rcount (vk s') (page_index p) = rcount (vk t) (page_index p)" using grows_rcount[OF M(3)] by blast
      then show ?thesis using old nv g(2) by (simp add: t(6) subset_iff)
    qed
  qed
  have "\<forall>p \<in> set ps0 - set ps'. p \<in> dir_pages (vmem s') d \<and> rcount (vk s') (page_index p) = 1" using new by blast
  moreover have "\<forall>i. (\<forall>p \<in> set ps0. page_index p \<noteq> i) \<longrightarrow> rcount (vk s') i = rcount (vk s0) i + one_more (vmem s0) pg (Suc j) i"
    using rc by blast
  moreover have "\<forall>x. (\<forall>p \<in> dir_pages (vmem s0) pg \<union> set ps0. \<not> in_page p x) \<longrightarrow> vmem s' x = vmem s0 x" using mem by blast
  moreover have "set ps' \<subseteq> set ps0" using sub(1) cp(4) by blast
  ultimately show ?thesis
    using M(2) P(1) P(2) P(3) sub(2) cp(5,6) t(4,5,7) ke km child unfolding copied_def by simp
qed

lemma copy_step:
  assumes U: "user_pages pg n ps0 s0" and I: "copied c k S d pg ps0 s0 j ps s" and j: "j < n" "n \<le> 0x80000"
    and S: "\<And>x. pageno x < n \<Longrightarrow> PDX x \<in> S" and dat: "0x80000 \<le> pageno (kdata s0)"
    and pool: "\<And>p. p \<in> set ps0 \<Longrightarrow> page_ok (kend (vk s0)) p \<and> rcount (vk s0) (page_index p) = 0"
    and sz: "j * 4096 < unat sz"
  shows "\<exists>ps' s'. copyuvm_from d pg (of_nat j * PGSIZE) sz s = copyuvm_from d pg (of_nat (Suc j) * PGSIZE) sz s' \<and>
    copied c k S d pg ps0 s0 (Suc j) ps' s'"
proof -
  define va where "va = (of_nat j * PGSIZE :: uint)"
  define E where "E = pte_at (vmem s0) pg va"
  define v where "v = frame_at (vmem s0) pg va"
  define t where "t = share_page pg va v s"
  have va: "unat va = j * 4096" "pageno va = j" using page_addr[of j] j by (simp_all add: va_def)
  note cp = copiedD[OF I]
  have nx: "pte_at (vmem s) pg va = E" "pte_has E PTE_P" "has_table (vmem s) pg (PDX va)" "pte_slot (vmem s) pg va \<noteq> 0"
    "page_ok (kend (vk s)) v" "0 < rcount (vk s) (page_index v)"
    using copied_next[OF U I va(2) j(1)] pool unfolding v_def E_def by blast+
  have tp: "dirs c k S d ps t" "dirs c k {} pg ps t" "pte_at (vmem t) d x = pte_at (vmem s) d x"
    "dir_pages (vmem t) d = dir_pages (vmem s) d" "dir_pages (vmem t) pg = dir_pages (vmem s) pg"
    "pte_at (vmem t) pg x = (if pageno x < Suc j then share (pte_at (vmem s0) pg x) else pte_at (vmem s0) pg x)"
    "rcount (vk t) = (rcount (vk s))(page_index v := rcount (vk s) (page_index v) + 1)"
    "kend (vk t) = kend (vk s)" "(\<And>p. p \<in> dir_pages (vmem s) pg \<Longrightarrow> \<not> in_page p y) \<Longrightarrow> vmem t y = vmem s y"
    "km (vk t) = km (vk s)" for x y
    using share_page[OF U I va(2) j(1) pool] unfolding t_def v_def by blast+
  have one: "pageno va + unat PGSIZE div 4096 = Suc j" unfolding va(2) by (simp add: PGSIZE_def)
  obtain ps' s' where M: "mappages d va PGSIZE (PTE_ADDR E) (PTE_FLAGS (share E)) t = Ok 0 s'"
    "\<And>x. pte_at (vmem s') d x = (if j \<le> pageno x \<and> pageno x < Suc j
        then run_pte (PTE_ADDR E) (PTE_FLAGS (share E)) j (pageno x) else pte_at (vmem t) d x)"
    "dirs c k S d ps' s'" "grows d ps t ps' s'"
  proof -
    have "PDX x \<in> S \<and> \<not> pte_has (pte_at (vmem t) d x) PTE_P" if "j \<le> pageno x" "pageno x < Suc j" for x
      using that S[of x] j cp(8)[of x] dat by (simp add: tp(3) kernel_pte_user)
    then show thesis
      using mappages_eq[OF tp(1), of va PGSIZE "PTE_ADDR E" "PTE_FLAGS (share E)", unfolded one va(2)] va j that
      by (auto simp: PGSIZE_def)
  qed
  have "v = frame_at (vmem s) pg va" by (simp add: v_def frame_at_def nx(1) E_def)
  moreover have "va < sz" "\<not> va + PGSIZE \<le> va"
    using sz va j unat_add_small[of va PGSIZE] by (simp_all add: word_less_nat_alt word_le_nat_alt PGSIZE_def)
  ultimately have "copyuvm_from d pg va sz s = copyuvm_from d pg (va + PGSIZE) sz s'"
    using copyuvm_round[OF nx(3,4) _ cp(2) _ nx(5,6)] nx(1,2) M(1) by (simp add: t_def)
  moreover have "copied c k S d pg ps0 s0 (Suc j) ps' s'"
  proof (rule copied_Suc[OF U I va(2) j(1) pool tp(2-6)])
    show "pte_at (vmem s') d x = (if pageno x = j
        then run_pte (PTE_ADDR (pte_at (vmem s0) pg va)) (PTE_FLAGS (share (pte_at (vmem s0) pg va))) j j
        else pte_at (vmem t) d x)" for x
      using M(2)[of x] by (auto simp: E_def)
  qed (use tp(7-10) M(3,4) in \<open>simp_all add: v_def\<close>)
  ultimately show ?thesis unfolding va_def by (auto simp: algebra_simps)
qed

section \<open>copyuvm\<close>

definition pages_of :: "uint \<Rightarrow> nat" where
  "pages_of sz = (unat sz + 4095) div 4096"

lemma pages_of_less: "j * 4096 < unat sz \<longleftrightarrow> j < pages_of sz"
  unfolding pages_of_def by (simp add: less_eq_div_iff_mult_less_eq Suc_le_eq[symmetric])

lemma pages_of_pageno: "va < sz \<Longrightarrow> pageno va < pages_of sz"
proof -
  assume "va < sz"
  then have "unat va < unat sz" by (simp add: word_less_nat_alt)
  moreover have "pageno va * 4096 \<le> unat va" by (simp add: pageno_def)
  ultimately show ?thesis using pages_of_less by (metis le_less_trans)
qed

lemma copy_loop:
  assumes U: "user_pages pg (pages_of sz) ps0 s0" and n: "pages_of sz \<le> 0x80000"
    and S: "\<And>x. pageno x < pages_of sz \<Longrightarrow> PDX x \<in> S" and dat: "0x80000 \<le> pageno (kdata s0)"
    and pool: "\<And>p. p \<in> set ps0 \<Longrightarrow> page_ok (kend (vk s0)) p \<and> rcount (vk s0) (page_index p) = 0"
  shows "copied c k S d pg ps0 s0 j ps s \<Longrightarrow> j \<le> pages_of sz \<Longrightarrow>
    \<exists>ps' s'. copyuvm_from d pg (of_nat j * PGSIZE) sz s = Ok d s' \<and> copied c k S d pg ps0 s0 (pages_of sz) ps' s'"
proof (induction "pages_of sz - j" arbitrary: j ps s)
  case 0
  then have j: "j = pages_of sz" by simp
  have "\<not> of_nat j * PGSIZE < sz"
  proof (cases "j < 0x80000")
    case True
    then show ?thesis using page_addr(1)[of j] pages_of_less[of j sz] j by (simp add: word_less_nat_alt)
  next
    case False
    then have "j = 0x80000" using n j by simp
    then show ?thesis using pages_of_less[of j sz] j by (simp add: word_less_nat_alt PGSIZE_def)
  qed
  then show ?case using 0(2) j by (subst copyuvm_from.simps) auto
next
  case (Suc m)
  then have j: "j < pages_of sz" by simp
  obtain ps' s' where "copyuvm_from d pg (of_nat j * PGSIZE) sz s = copyuvm_from d pg (of_nat (Suc j) * PGSIZE) sz s'"
    "copied c k S d pg ps0 s0 (Suc j) ps' s'"
    using copy_step[OF U Suc.prems(1) j n S dat pool] pages_of_less[of j sz] j by blast
  then show ?case using Suc.hyps(1)[of "Suc j" ps' s'] Suc.hyps(2) j by auto
qed

text \<open>The slots of the directory that a copy of \<open>n\<close> pages needs, and their number.\<close>

definition copy_slots :: "nat \<Rightarrow> uint set" where
  "copy_slots n = kernel_slots \<union> of_nat ` {..< (n + 1023) div 1024}"

lemma kernel_slots_eq: "kernel_slots = of_nat ` ({512..<568} \<union> {1016..<1024})"
proof (intro equalityI subsetI)
  fix i :: uint assume "i \<in> kernel_slots"
  then have "unat i \<in> {512..<568} \<union> {1016..<1024}" by (auto simp: kernel_slots_def)
  then have "of_nat (unat i) \<in> (of_nat ` ({512..<568} \<union> {1016..<1024}) :: uint set)" by (rule imageI)
  then show "i \<in> of_nat ` ({512..<568} \<union> {1016..<1024})" by simp
next
  fix i :: uint assume "i \<in> of_nat ` ({512..<568} \<union> {1016..<1024})"
  then obtain m where "m \<in> {512..<568} \<union> {1016..<1024}" "i = of_nat m" by blast
  then show "i \<in> kernel_slots" by (auto simp: kernel_slots_def unsigned_of_nat take_bit_nat_eq_self)
qed

lemma copy_slots:
  assumes "n \<le> 0x80000"
  shows "finite (copy_slots n)" "card (copy_slots n) \<le> 64 + (n + 1023) div 1024" "i \<in> copy_slots n \<Longrightarrow> unat i < 1024"
    "kernel_slots \<subseteq> copy_slots n" "pageno x < n \<Longrightarrow> PDX x \<in> copy_slots n"
proof -
  show "finite (copy_slots n)" "kernel_slots \<subseteq> copy_slots n" by (simp_all add: copy_slots_def kernel_slots_eq)
  have "card kernel_slots \<le> card ({512..<568} \<union> {1016..<1024 :: nat})" unfolding kernel_slots_eq by (rule card_image_le) simp
  also have "\<dots> \<le> 64" using card_Un_le[of "{512..<568 :: nat}" "{1016..<1024}"] by simp
  finally have "card kernel_slots \<le> 64" .
  moreover have "card (of_nat ` {..< (n + 1023) div 1024} :: uint set) \<le> (n + 1023) div 1024"
    using card_image_le[of "{..< (n + 1023) div 1024}" "of_nat :: nat \<Rightarrow> uint"] by simp
  ultimately show "card (copy_slots n) \<le> 64 + (n + 1023) div 1024"
    unfolding copy_slots_def using card_Un_le[of kernel_slots "of_nat ` {..< (n + 1023) div 1024}"] by linarith
  show "unat i < 1024" if "i \<in> copy_slots n"
    using that assms by (auto simp: copy_slots_def kernel_slots_def unsigned_of_nat take_bit_nat_eq_self)
  show "PDX x \<in> copy_slots n" if "pageno x < n"
  proof -
    have "pageno x div 1024 \<le> (n - 1) div 1024" using that by (intro div_le_mono) simp
    moreover have "(n - 1 + 1024) div 1024 = (n - 1) div 1024 + 1" by (rule div_add_self2) simp
    moreover have "n + 1023 = n - 1 + 1024" using that by simp
    ultimately have "pageno x div 1024 < (n + 1023) div 1024" by simp
    then have "of_nat (unat (PDX x)) \<in> (of_nat ` {..< (n + 1023) div 1024} :: uint set)" unfolding unat_PDX by blast
    then show ?thesis by (simp add: copy_slots_def)
  qed
qed

lemma copied_start:
  assumes U: "user_pages pg n ps0 s0" and D: "dirs c k S d ps s" and G: "made d ps0 s0 ps s"
    and K: "\<And>x. pte_at (vmem s) d x = kernel_pte (pageno (kdata s0)) (pageno x)"
    and pool: "\<And>p. p \<in> set ps0 \<Longrightarrow> page_ok (kend (vk s0)) p"
  shows "copied c k S d pg ps0 s0 0 ps s"
proof -
  have ok: "dir_ok (kend (vk s0)) (vmem s0) pg" and dis: "dir_pages (vmem s0) pg \<inter> set ps0 = {}"
    using U by (simp_all add: user_pages_def)
  have sub: "dir_pages (vmem s) d \<subseteq> set ps0" "set ps \<subseteq> set ps0" and ke: "kend (vk s) = kend (vk s0)" "km (vk s) = km (vk s0)"
    and mem: "\<And>x. (\<forall>p \<in> dir_pages (vmem s) d. \<not> in_page p x) \<Longrightarrow> vmem s x = vmem s0 x"
    using G by (auto simp: made_def)
  have rc: "rcount (vk s) i = rcount (vk s0) i" if "\<forall>p \<in> set ps0. page_index p \<noteq> i" for i
    by (rule one_each_out[of ps0 _ ps]) (use G that in \<open>auto simp: made_def\<close>)
  have new: "p \<in> dir_pages (vmem s) d \<and> rcount (vk s) (page_index p) = 1" if p: "p \<in> set ps0" "p \<notin> set ps" for p
  proof -
    have "page_index q \<noteq> page_index p" if q: "q \<in> set ps" for q
      using page_index_inj[of "kend (vk s0)" q "kend (vk s0)" p] pool[OF p(1)] pool[of q] p(2) q sub(2) by blast
    then show ?thesis using one_each_in[of ps0 _ ps _ p] G p by (auto simp: made_def)
  qed
  have same: "vmem s x = vmem s0 x" if "p \<in> dir_pages (vmem s0) pg" "in_page p x" for p x
    by (rule mem) (use pages_disjoint[OF pool dir_okD(2)[OF ok that(1)] _ that(2)] that(1) sub(1) dis in blast)
  note cong = dir_cong[of "vmem s0" pg "vmem s", OF same]
  have "pte_at (vmem s) pg x = pte_at (vmem s0) pg x" "dir_pages (vmem s) pg = dir_pages (vmem s0) pg"
    "dir_ok (kend (vk s)) (vmem s) pg" for x
    using cong(3,4) cong(5)[where e = "kend (vk s0)"] ok by (simp_all add: ke)
  moreover have "one_more (vmem s0) pg 0 i = 0" for i by (simp add: one_more_def)
  moreover have "vmem s x = vmem s0 x" if "\<forall>p \<in> dir_pages (vmem s0) pg \<union> set ps0. \<not> in_page p x" for x
    by (rule mem) (use that sub(1) in blast)
  ultimately show ?thesis
    using D K sub ke dis rc new unfolding copied_def dirs_def by (auto simp: missing_def)
qed

lemma copyuvm_eq:
  assumes g: "vgood c ps0 s0" and dat: "data_ok s0" and sz: "sz \<le> KERNBASE"
    and U: "user_pages pg (pages_of sz) ps0 s0" and room: "65 + k + (pages_of sz + 1023) div 1024 \<le> length ps0"
  shows "\<exists>d ps' s'. copyuvm pg sz s0 = Ok d s' \<and> d \<in> set ps0 \<and>
    copied c k (copy_slots (pages_of sz)) d pg ps0 s0 (pages_of sz) ps' s'"
proof -
  have n: "pages_of sz \<le> 0x80000" using sz by (simp add: pages_of_def word_le_nat_alt KERNBASE_def)
  note cs = copy_slots[OF n]
  have pool: "page_ok (kend (vk s0)) p \<and> rcount (vk s0) (page_index p) = 0" if "p \<in> set ps0" for p
    using g that by (simp add: vgood_def pool_inv_def)
  have "k + card (copy_slots (pages_of sz)) < length ps0" using cs(2) room by linarith
  from setupkvm_eq[OF g dat cs(1,3,4) this] obtain d ps1 s1 where s1: "setupkvm s0 = Ok d s1" "d \<noteq> 0" "d \<in> set ps0"
    "\<forall>x. pte_at (vmem s1) d x = kernel_pte (pageno (kdata s0)) (pageno x)"
    "dirs c k (copy_slots (pages_of sz)) d ps1 s1" "made d ps0 s0 ps1 s1" by blast
  have "copied c k (copy_slots (pages_of sz)) d pg ps0 s0 0 ps1 s1"
    by (rule copied_start[OF U s1(5,6)]) (use s1(4) pool in auto)
  moreover have "0x80000 \<le> pageno (kdata s0)" using data_sizes(2)[OF dat] by simp
  ultimately have "\<exists>ps' s'. copyuvm_from d pg (of_nat 0 * PGSIZE) sz s1 = Ok d s' \<and>
      copied c k (copy_slots (pages_of sz)) d pg ps0 s0 (pages_of sz) ps' s'"
    by (intro copy_loop[OF U n cs(5) _ pool]) simp_all
  then show ?thesis using s1(1-3) by (auto simp: copyuvm_def)
qed

section \<open>What the processes see\<close>

lemma user_load_pte:
  assumes "dir_ok e m d"
  shows "user_load m d va = (if pte_has (pte_at m d va) PTE_P \<and> pte_has (pte_at m d va) PTE_U
    then Some (m (frame_at m d va + page_off va)) else None)"
  using assms PDX_bound
  by (auto simp: user_load_def walk_hw_def pte_at_def has_table_def table_of_def dir_ok_def frame_at_def Let_def)

lemma user_store_pte:
  assumes "dir_ok e m d" and "\<not> pte_has (pte_at m d va) PTE_W"
  shows "user_store m d va b = None"
  using assms PDX_bound
  by (auto simp: user_store_def walk_hw_def pte_at_def has_table_def table_of_def dir_ok_def Let_def)

lemma mapped_pte:
  assumes ok: "dir_ok (kend (vk s)) (vmem s) d" and e: "pte_has (pte_at (vmem s) d va) PTE_P" "pte_has (pte_at (vmem s) d va) PTE_U"
    and v: "page_ok (kend (vk s)) (frame_at (vmem s) d va)" "frame_at (vmem s) d va \<notin> dir_pages (vmem s) d \<union> set ps"
    and dis: "dir_pages (vmem s) d \<inter> set ps = {}"
  shows "mapped ps d va (table_of (vmem s) d (PDX va)) (pte_at (vmem s) d va) (frame_at (vmem s) d va) s"
    and "table_of (vmem s) d (PDX va) \<in> dir_pages (vmem s) d"
proof -
  have t: "has_table (vmem s) d (PDX va)" using e by (auto simp: pte_at_def split: if_splits)
  show tp: "table_of (vmem s) d (PDX va) \<in> dir_pages (vmem s) d" by (rule dir_pages_simps(2)[OF PDX_bound t])
  have "pte_has (rd32 (d + 4 * PDX va) s) PTE_U" "pte_has (rd32 (d + 4 * PDX va) s) PTE_W"
    using ok t PDX_bound by (simp_all add: dir_ok_def rd32_def)
  then show "mapped ps d va (table_of (vmem s) d (PDX va)) (pte_at (vmem s) d va) (frame_at (vmem s) d va) s"
    using t tp e v dis dir_okD(1)[OF ok] dir_okD(3)[OF ok PDX_bound t] dir_pages_simps(1)[of d "vmem s"]
    by (auto simp: mapped_def Let_def has_table_def table_of_def rd32_def pte_at_def frame_at_def)
qed

text \<open>
  When \<open>copyuvm\<close> succeeds: the parent's pages are in order, the kernel's data starts where the linker
  script puts it, and there are free pages for the child's directory and tables and one more.
\<close>

definition fork_ready :: "nat \<Rightarrow> uint \<Rightarrow> uint \<Rightarrow> uint list \<Rightarrow> vst \<Rightarrow> bool" where
  "fork_ready c pg sz ps s \<longleftrightarrow> vgood c ps s \<and> data_ok s \<and> sz \<le> KERNBASE \<and>
     user_pages pg (pages_of sz) ps s \<and> 66 + (pages_of sz + 1023) div 1024 \<le> length ps"

text \<open>The two address spaces after the copy.\<close>

lemma copied_views:
  assumes U: "user_pages pg n ps0 s0" and I: "copied c k S d pg ps0 s0 n ps s" and va: "pageno va < n"
    and pool: "\<And>p. p \<in> set ps0 \<Longrightarrow> page_ok (kend (vk s0)) p \<and> rcount (vk s0) (page_index p) = 0"
    and q: "q = d \<or> q = pg"
  shows "dir_ok (kend (vk s)) (vmem s) q" "dir_pages (vmem s) q \<inter> set ps = {}"
    "pte_at (vmem s) q va = share (pte_at (vmem s0) pg va)" "frame_at (vmem s) q va = frame_at (vmem s0) pg va"
    "frame_at (vmem s0) pg va \<notin> dir_pages (vmem s) q \<union> set ps0"
    "user_load (vmem s) q va = user_load (vmem s0) pg va" "user_store (vmem s) q va b = None"
proof -
  note cp = copiedD[OF I]
  let ?v = "frame_at (vmem s0) pg va"
  have ok0: "dir_ok (kend (vk s0)) (vmem s0) pg" and v: "page_ok (kend (vk s0)) ?v" "?v \<notin> dir_pages (vmem s0) pg"
    "0 < rcount (vk s0) (page_index ?v)"
    using U va by (simp_all add: user_pages_def)
  show ok: "dir_ok (kend (vk s)) (vmem s) q" "dir_pages (vmem s) q \<inter> set ps = {}"
    using q dirsD(2,3)[OF cp(1)] dirsD(2,3)[OF cp(2)] by auto
  show e: "pte_at (vmem s) q va = share (pte_at (vmem s0) pg va)" using q cp(7,8)[of va] va by auto
  show f: "frame_at (vmem s) q va = ?v" by (simp add: frame_at_def e share_simps(1))
  have out: "?v \<notin> set ps0" using pool[of ?v] v(3) by auto
  then show "?v \<notin> dir_pages (vmem s) q \<union> set ps0" using q v(2) cp(3,5) by auto
  have "\<not> in_page p (?v + page_off va)" if p: "p \<in> dir_pages (vmem s0) pg \<union> set ps0" for p
  proof
    assume x: "in_page p (?v + page_off va)"
    have "page_ok (kend (vk s0)) p" using p dir_okD(2)[OF ok0] pool by auto
    then have "p = ?v" using pages_disjoint[OF _ v(1) x page_off_in_page] by blast
    then show False using p out v(2) by blast
  qed
  then have "vmem s (?v + page_off va) = vmem s0 (?v + page_off va)" by (rule cp(9))
  then show "user_load (vmem s) q va = user_load (vmem s0) pg va"
    by (simp add: user_load_pte[OF ok(1)] user_load_pte[OF ok0] f e share_simps)
  show "user_store (vmem s) q va b = None" by (rule user_store_pte[OF ok(1)]) (simp add: e share_simps)
qed

lemma copied_counts:
  assumes U: "user_pages pg n ps0 s0" and I: "copied c k S d pg ps0 s0 n ps s"
    and pool: "\<And>p. p \<in> set ps0 \<Longrightarrow> page_ok (kend (vk s0)) p \<and> rcount (vk s0) (page_index p) = 0"
    and p: "page_ok (kend (vk s0)) p" "p \<notin> set ps0"
  shows "rcount (vk s) (page_index p) = rcount (vk s0) (page_index p) +
    (if \<exists>va. pageno va < n \<and> frame_at (vmem s0) pg va = p then 1 else 0)"
proof -
  have "page_index q \<noteq> page_index p" if "q \<in> set ps0" for q
    using page_index_inj[of "kend (vk s0)" q "kend (vk s0)" p] pool[OF that] p that by auto
  then have "rcount (vk s) (page_index p) = rcount (vk s0) (page_index p) + one_more (vmem s0) pg n (page_index p)"
    using copiedD(10)[OF I] by blast
  moreover have "page_index (frame_at (vmem s0) pg va) = page_index p \<longleftrightarrow> frame_at (vmem s0) pg va = p" if "pageno va < n" for va
    using page_index_inj[of "kend (vk s0)" _ "kend (vk s0)" p] U p(1) that by (simp add: user_pages_def)
  ultimately show ?thesis by (auto simp: one_more_def)
qed

lemma fork_readyD:
  assumes "fork_ready c pg sz ps s"
  shows "vgood c ps s" "user_pages pg (pages_of sz) ps s"
    "\<And>p. p \<in> set ps \<Longrightarrow> page_ok (kend (vk s)) p \<and> rcount (vk s) (page_index p) = 0"
    "\<exists>d ps' s'. copyuvm pg sz s = Ok d s' \<and> d \<in> set ps \<and>
      copied c 1 (copy_slots (pages_of sz)) d pg ps s (pages_of sz) ps' s'"
proof -
  show "vgood c ps s" "user_pages pg (pages_of sz) ps s" using assms by (simp_all add: fork_ready_def)
  show "page_ok (kend (vk s)) p \<and> rcount (vk s) (page_index p) = 0" if "p \<in> set ps" for p
    using assms that by (simp add: fork_ready_def vgood_def pool_inv_def)
  show "\<exists>d ps' s'. copyuvm pg sz s = Ok d s' \<and> d \<in> set ps \<and>
      copied c 1 (copy_slots (pages_of sz)) d pg ps s (pages_of sz) ps' s'"
    by (rule copyuvm_eq) (use assms in \<open>simp_all add: fork_ready_def\<close>)
qed

text \<open>After the copy each of the two can take its own copy of a page without the other noticing.\<close>

lemma copied_fault:
  assumes U: "user_pages pg n ps0 s0" and I: "copied c 1 S d pg ps0 s0 n ps s"
    and pool: "\<And>p. p \<in> set ps0 \<Longrightarrow> page_ok (kend (vk s0)) p \<and> rcount (vk s0) (page_index p) = 0"
    and q: "p_pgdir p = d \<and> r = pg \<or> p_pgdir p = pg \<and> r = d" and ks: "kstack p \<noteq> 0"
    and va: "pageno va < n" "user_load (vmem s0) pg va = Some x"
  shows "\<exists>s' m. handle_pgflt_helper p va s = Ok 0 s' \<and> user_load (vmem s') (p_pgdir p) va = Some x \<and>
    user_store (vmem s') (p_pgdir p) va b = Some m \<and> user_load m (p_pgdir p) va = Some b \<and>
    (\<forall>va'. pageno va' < n \<longrightarrow> user_load (vmem s0) pg va' \<noteq> None \<longrightarrow> user_load m r va' = user_load (vmem s0) pg va')"
proof -
  let ?a = "p_pgdir p"
  note cp = copiedD[OF I]
  obtain f fs where ps: "ps = f # fs" using cp(1) by (cases ps) (auto simp: dirs_def)
  have good: "kquiet c (vk s)" "pool_inv (f # fs) (vk s)" "ruse (vk s)"
    using dirsD(1)[OF cp(1)] by (simp_all add: vgood_def ps)
  have view: "dir_ok (kend (vk s)) (vmem s) y" "dir_pages (vmem s) y \<inter> set ps = {}"
    "pte_at (vmem s) y w = share (pte_at (vmem s0) pg w)" "frame_at (vmem s) y w = frame_at (vmem s0) pg w"
    "frame_at (vmem s0) pg w \<notin> dir_pages (vmem s) y \<union> set ps0" "user_load (vmem s) y w = user_load (vmem s0) pg w"
    if "y = d \<or> y = pg" "pageno w < n" for y w
    using copied_views(1-6)[OF U I that(2) pool that(1)] by blast+
  have ok0: "dir_ok (kend (vk s0)) (vmem s0) pg" using U by (simp add: user_pages_def)
  have user: "mapped (f # fs) y w (table_of (vmem s) y (PDX w)) (pte_at (vmem s) y w) (frame_at (vmem s0) pg w) s"
      "table_of (vmem s) y (PDX w) \<in> dir_pages (vmem s) y"
    if y: "y = d \<or> y = pg" and w: "pageno w < n" "user_load (vmem s0) pg w \<noteq> None" for y w
  proof -
    have e: "pte_has (pte_at (vmem s) y w) PTE_P" "pte_has (pte_at (vmem s) y w) PTE_U"
      using w(2) by (simp_all add: view(3)[OF y w(1)] share_simps user_load_pte[OF ok0] split: if_splits)
    have v: "page_ok (kend (vk s)) (frame_at (vmem s) y w)" "frame_at (vmem s) y w \<notin> dir_pages (vmem s) y \<union> set ps"
      using U w(1) view(5)[OF y w(1)] cp(4,6) by (auto simp: user_pages_def view(4)[OF y w(1)])
    show "mapped (f # fs) y w (table_of (vmem s) y (PDX w)) (pte_at (vmem s) y w) (frame_at (vmem s0) pg w) s"
      "table_of (vmem s) y (PDX w) \<in> dir_pages (vmem s) y"
      using mapped_pte[OF view(1)[OF y w(1)] e v view(2)[OF y w(1)]] by (simp_all add: ps view(4)[OF y w(1)])
  qed
  have ya: "?a = d \<or> ?a = pg" and yr: "r = d \<or> r = pg" using q by auto
  have dis: "dir_pages (vmem s) ?a \<inter> dir_pages (vmem s) r = {}"
    using q cp(3,5) U by (auto simp: user_pages_def)
  have cow: "pte_has (pte_at (vmem s) ?a va) PTE_COW_W" by (simp add: view(3)[OF ya va(1)] share_simps)
  have shared: "2 \<le> rcount (vk s) (page_index (frame_at (vmem s0) pg va))"
    using copied_counts[OF U I pool, of "frame_at (vmem s0) pg va"] U va(1) view(5)[OF ya va(1)]
    by (auto simp: user_pages_def)
  have some: "user_load (vmem s0) pg va \<noteq> None" using va(2) by simp
  have iso: "\<exists>s' m. handle_pgflt_helper p va s = Ok 0 s' \<and>
      user_load (vmem s') ?a va = user_load (vmem s) ?a va \<and> user_store (vmem s') ?a va b = Some m \<and>
      user_load m ?a va = Some b \<and> user_load m r w = user_load (vmem s) r w"
    if w: "pageno w < n" "user_load (vmem s0) pg w \<noteq> None" for w
  proof (rule cow_fault_isolation[OF good user(1)[OF ya va(1) some] cow shared ks user(1)[OF yr w]])
    show "table_of (vmem s) ?a (PDX va) \<notin> set [r, table_of (vmem s) r (PDX w), frame_at (vmem s0) pg w]"
      using user(2)[OF ya va(1) some] user(2)[OF yr w] dis dir_pages_simps(1)[of r "vmem s"] view(5)[OF ya w(1)] by auto
  qed
  obtain s' m where h: "handle_pgflt_helper p va s = Ok 0 s'" "user_load (vmem s') ?a va = user_load (vmem s) ?a va"
    "user_store (vmem s') ?a va b = Some m" "user_load m ?a va = Some b"
    using iso[OF va(1) some] by blast
  moreover have "user_load m r w = user_load (vmem s0) pg w" if w: "pageno w < n" "user_load (vmem s0) pg w \<noteq> None" for w
    using iso[OF w] h(1,3) view(6)[OF yr w(1)] by auto
  ultimately show ?thesis using view(6)[OF ya va(1)] va(2) by auto
qed

section \<open>A parent with one page\<close>

text \<open>Pages linked into a free list.\<close>

fun linked :: "uint list \<Rightarrow> memory \<Rightarrow> memory" where
  "linked [] m = m"
| "linked (p # ps) m = store32 p (if ps = [] then 0 else hd ps) (linked ps m)"

lemma load_linked:
  "list_all aligned4 (a # ps) \<Longrightarrow> a \<notin> set ps \<Longrightarrow> load32 (linked ps m) a = load32 m a"
  by (induction ps) (auto simp: load_store32)

lemma chain_linked:
  assumes "list_all aligned4 ps" and "distinct ps" and "0 \<notin> set ps"
  shows "chain (linked ps m) (if ps = [] then 0 else hd ps) ps"
  using assms
proof (induction ps)
  case (Cons p ps)
  have "chain (linked (p # ps) m) (if ps = [] then 0 else hd ps) ps"
  proof (rule chain_cong)
    show "chain (linked ps m) (if ps = [] then 0 else hd ps) ps" using Cons by simp
    show "load32 (linked (p # ps) m) q = load32 (linked ps m) q" if "q \<in> set ps" for q
      using that Cons.prems by (auto simp: list_all_iff load_store32)
  qed
  then show ?case using Cons.prems by (auto simp: list_all_iff load_store32)
qed simp

text \<open>
  The parent's directory is 0x80500000, its only table 0x80502000 and its only page 0x80504000; 70
  pages from 0x80400000 on are free.
\<close>

definition free_pages :: "uint list" where
  "free_pages = pages_from 0x80400000 70"

definition parent_mem :: memory where
  "parent_mem = linked free_pages (store32 0x80502000 0x504007 (store32 0x80500000 0x502007 (\<lambda>_. 0)))"

definition parent_state :: vst where
  "parent_state = \<lparr>vk = boot_pool\<lparr>mem := parent_mem, rcount := (\<lambda>_. 0)(0x504 := 1)\<rparr>,
     kpgdir = 0, cr3 = 0x500000, kdata = 0x80108000, segs = [], ts_base = (\<lambda>_. 0)\<rparr>"

lemma free_page:
  assumes "p \<in> set free_pages"
  obtains j where "j < 70" "unat p = 0x80400000 + j * 4096"
proof -
  obtain j where j: "j < 70" "p = 0x80400000 + of_nat j * PGSIZE"
    using assms by (auto simp: free_pages_def pages_from_def)
  have u: "unat (of_nat j * PGSIZE) = j * 4096" using page_addr(1)[of j] j(1) by simp
  have "unat p = 0x80400000 + j * 4096" using j unat_add_small[of "0x80400000" "of_nat j * PGSIZE"] by (simp add: u)
  then show thesis using that j(1) by blast
qed

lemma page_ok_at:
  assumes "unat p = 0x80000000 + i * 4096" and "512 \<le> i" and "i < 57344"
  shows "page_ok 0x80200000 p" and "page_index p = i" and "aligned4 p"
proof -
  have v: "unat (V2P p) = i * 4096"
    using assms by (simp add: V2P_def KERNBASE_def unat_sub word_le_nat_alt)
  have "unat (p mod PGSIZE) = 0" using assms(1) by (simp add: unat_mod PGSIZE_def)
  then have "p mod PGSIZE = 0" by (simp add: unat_eq_0)
  then show ok: "page_ok 0x80200000 p"
    using assms v by (simp add: page_ok_def word_le_nat_alt word_less_nat_alt PHYSTOP_def)
  show "page_index p = i" using page_index_eq(1)[OF ok] assms(1) by (simp add: KERNBASE_def)
  show "aligned4 p" by (rule page_aligned4[OF ok])
qed

lemma free_pages_ok:
  "\<And>p. p \<in> set free_pages \<Longrightarrow> page_ok 0x80200000 p \<and> 1024 \<le> page_index p \<and> page_index p < 1094"
  "distinct free_pages" "list_all aligned4 free_pages" "length free_pages = 70" "hd free_pages = 0x80400000"
proof -
  show ok: "page_ok 0x80200000 p \<and> 1024 \<le> page_index p \<and> page_index p < 1094" if p: "p \<in> set free_pages" for p
  proof -
    obtain j where "j < 70" "unat p = 0x80400000 + j * 4096" using free_page[OF p] .
    then show ?thesis using page_ok_at[of p "1024 + j"] by simp
  qed
  show "list_all aligned4 free_pages" using ok page_aligned4 by (auto simp: list_all_iff)
  show "length free_pages = 70" by (simp add: free_pages_def pages_from_def)
  have "inj_on (\<lambda>j. 0x80400000 + of_nat j * PGSIZE :: uint) {0..<70}"
  proof (rule inj_onI)
    fix i j :: nat assume "i \<in> {0..<70}" "j \<in> {0..<70}"
      and e: "0x80400000 + of_nat i * PGSIZE = (0x80400000 + of_nat j * PGSIZE :: uint)"
    then have "unat (of_nat i * PGSIZE) = unat (of_nat j * PGSIZE)" by simp
    then show "i = j" using page_addr(1)[of i] page_addr(1)[of j] \<open>i \<in> _\<close> \<open>j \<in> _\<close> by simp
  qed
  then show "distinct free_pages" by (simp add: free_pages_def pages_from_def distinct_map)
  show "hd free_pages = 0x80400000" by (simp add: free_pages_def pages_from_def upt_conv_Cons)
qed

lemma parent_pages_ok: "page_ok 0x80200000 0x80500000" "page_ok 0x80200000 0x80502000" "page_ok 0x80200000 0x80504000"
  "page_index 0x80500000 = 0x500" "page_index 0x80502000 = 0x502" "page_index 0x80504000 = 0x504"
  using page_ok_at[of "0x80500000" "0x500"] page_ok_at[of "0x80502000" "0x502"] page_ok_at[of "0x80504000" "0x504"]
  by simp_all

lemma parent_not_free: "p \<in> {0x80500000, 0x80502000, 0x80504000} \<Longrightarrow> p \<notin> set free_pages"
  using free_pages_ok(1) parent_pages_ok(4-6) by force

lemma parent_load:
  assumes "p \<in> {0x80500000, 0x80502000}" and "unat i < 1024"
  shows "load32 parent_mem (p + 4 * i) = (if i = 0 then if p = 0x80500000 then 0x502007 else 0x504007 else 0)"
proof -
  have ok: "page_ok 0x80200000 p" using assms(1) parent_pages_ok by auto
  have al: "aligned4 (p + 4 * i)" "aligned4 0x80500000" "aligned4 0x80502000"
    using slot_aligned[OF ok assms(2)] parent_pages_ok page_aligned4 by blast+
  have inp: "in_page p (p + 4 * i)" using slot_in_page[OF assms(2)] by (simp add: span_def)
  have start: "q = p" "i = 0" if "p + 4 * i = q" "page_ok 0x80200000 q" for q
  proof -
    have "in_page q q" by (simp add: in_page_def span_def)
    then show "q = p" using pages_disjoint[OF ok that(2) inp] that(1) by simp
    then show "i = 0" using that(1) slot_eq[OF assms(2), of 0 p] by simp
  qed
  have "p + 4 * i \<notin> set free_pages"
    using start(1) free_pages_ok(1) parent_not_free assms(1) by blast
  then have "load32 parent_mem (p + 4 * i) =
      load32 (store32 0x80502000 0x504007 (store32 0x80500000 0x502007 (\<lambda>_. 0))) (p + 4 * i)"
    unfolding parent_mem_def by (intro load_linked) (use al free_pages_ok(3) in simp_all)
  also have "\<dots> = (if 0x80502000 = p + 4 * i then 0x504007 else if 0x80500000 = p + 4 * i then 0x502007 else 0)"
    using al by (simp add: load_store32) (simp add: load32_def of_le32_def)
  also have "\<dots> = (if i = 0 then if p = 0x80500000 then 0x502007 else 0x504007 else 0)"
    using start[of "0x80502000"] start[of "0x80500000"] parent_pages_ok(1,2) assms(1) by auto
  finally show ?thesis .
qed

lemma parent_dir:
  "unat i < 1024 \<Longrightarrow> has_table parent_mem 0x80500000 i \<longleftrightarrow> i = 0" "table_of parent_mem 0x80500000 0 = 0x80502000"
  "dir_pages parent_mem 0x80500000 = {0x80500000, 0x80502000}" "dir_ok 0x80200000 parent_mem 0x80500000"
  "pageno va < 1 \<Longrightarrow> pte_at parent_mem 0x80500000 va = 0x504007"
proof -
  have ld: "load32 parent_mem (0x80500000 + 4 * i) = (if i = 0 then 0x502007 else 0)" if "unat i < 1024" for i
    using parent_load[of "0x80500000" i] that by simp
  show h: "has_table parent_mem 0x80500000 i \<longleftrightarrow> i = 0" if "unat i < 1024" for i
    using ld[OF that] by (simp add: has_table_def pte_has_def pte_consts)
  show t: "table_of parent_mem 0x80500000 0 = 0x80502000"
    using ld[of 0] by (simp add: table_of_def PTE_ADDR_def P2V_def KERNBASE_def)
  have s: "{i. unat i < 1024 \<and> has_table parent_mem 0x80500000 i} = {0}" using h by auto
  show d: "dir_pages parent_mem 0x80500000 = {0x80500000, 0x80502000}"
    unfolding dir_pages_def s by (simp add: t insert_commute)
  show "dir_ok 0x80200000 parent_mem 0x80500000"
    using parent_pages_ok h t ld[of 0] unfolding dir_ok_def d s by (auto simp: pte_has_def pte_consts)
  show "pte_at parent_mem 0x80500000 va = 0x504007" if "pageno va < 1"
  proof -
    have "PDX va = 0" "PTX va = 0" using that by (simp_all add: word_unat_eq_iff unat_PDX unat_PTX)
    then show ?thesis using h[of 0] t parent_load[of "0x80502000" 0] by (simp add: pte_at_def)
  qed
qed

lemma parent_ready: "fork_ready 0 0x80500000 4096 free_pages parent_state"
proof -
  let ?s = parent_state
  have k: "mem (vk ?s) = parent_mem" "vmem ?s = parent_mem" "kend (vk ?s) = 0x80200000" "freelist (vk ?s) = 0x80400000"
    "rcount (vk ?s) = (\<lambda>_. 0)(0x504 := 1)" "ruse (vk ?s)"
    by (simp_all add: parent_state_def boot_pool_def vmem_def)
  have n: "pages_of 4096 = 1" by (simp add: pages_of_def)
  have "kquiet 0 (vk ?s)" using boot_pool_quiet by (simp add: parent_state_def kquiet_def)
  moreover have "pool_inv free_pages (vk ?s)"
  proof -
    have ne: "free_pages \<noteq> []" using free_pages_ok(4) by auto
    have "0 \<notin> set free_pages" using free_pages_ok(1) page_nonzero by blast
    then have "chain parent_mem (freelist (vk ?s)) free_pages"
      using chain_linked[OF free_pages_ok(3,2)] ne free_pages_ok(5) by (simp add: parent_mem_def k)
    moreover have "page_index p \<noteq> 0x504" if "p \<in> set free_pages" for p using free_pages_ok(1)[OF that] by auto
    ultimately show ?thesis using free_pages_ok(1,2) unfolding pool_inv_def by (simp add: k)
  qed
  moreover have "data_ok ?s" by (simp add: data_ok_def parent_state_def addr_defs)
  moreover have "user_pages 0x80500000 1 free_pages ?s"
  proof -
    have f: "frame_at parent_mem 0x80500000 va = 0x80504000" if "pageno va < 1" for va
      using parent_dir(5)[OF that] by (simp add: frame_at_def PTE_ADDR_def P2V_def KERNBASE_def)
    have p: "pte_has 0x504007 PTE_P" by (simp add: pte_has_def pte_consts)
    show ?thesis unfolding user_pages_def
      using parent_dir(3-5) f p parent_pages_ok parent_not_free by (simp add: k)
  qed
  ultimately show ?thesis using free_pages_ok(4) k(6) by (simp add: fork_ready_def vgood_def n KERNBASE_def)
qed

lemma parent_view: "user_load parent_mem 0x80500000 8 \<noteq> None" "vmem parent_state = parent_mem"
  using user_load_pte[OF parent_dir(4)] parent_dir(5)[of 8]
  by (simp_all add: pageno_def pte_has_def pte_consts parent_state_def vmem_def)

text \<open>C3: A copy-on-write fork shares every page.  When the parent's page table is in order and there
  are free pages for the child's tables, \<open>copyuvm\<close> returns a new directory; in both address spaces
  each of the parent's pages is the same frame as before, read only and marked copy on write, every
  byte a process could read before is read by both afterwards, and neither can write one without a
  fault.  Above the parent's pages the child has exactly the kernel's mapping and the parent what it
  had; each shared frame has one more reference and no other page outside the pool has.\<close>

theorem copyuvm_shares_pages:
  assumes "fork_ready c pg sz ps s"
  shows "\<exists>d ps' s'. copyuvm pg sz s = Ok d s' \<and> d \<in> set ps \<and> vgood c ps' s' \<and>
    (\<forall>va. if pageno va < pages_of sz
       then pte_at (vmem s') d va = share (pte_at (vmem s) pg va) \<and> pte_at (vmem s') pg va = share (pte_at (vmem s) pg va) \<and>
         user_load (vmem s') d va = user_load (vmem s) pg va \<and> user_load (vmem s') pg va = user_load (vmem s) pg va \<and>
         user_store (vmem s') d va b = None \<and> user_store (vmem s') pg va b = None
       else pte_at (vmem s') d va = kernel_pte (pageno (kdata s)) (pageno va) \<and> pte_at (vmem s') pg va = pte_at (vmem s) pg va) \<and>
    (\<forall>p. page_ok (kend (vk s)) p \<and> p \<notin> set ps \<longrightarrow>
       rcount (vk s') (page_index p) = rcount (vk s) (page_index p) +
         (if \<exists>va. pageno va < pages_of sz \<and> frame_at (vmem s) pg va = p then 1 else 0))"
proof -
  note U = fork_readyD(2)[OF assms] and pool = fork_readyD(3)[OF assms]
  obtain d ps' s' where r: "copyuvm pg sz s = Ok d s'" "d \<in> set ps"
    "copied c 1 (copy_slots (pages_of sz)) d pg ps s (pages_of sz) ps' s'"
    using fork_readyD(4)[OF assms] by blast
  note view = copied_views[OF U r(3) _ pool] and cp = copiedD[OF r(3)]
  show ?thesis
    using r(1,2) dirsD(1)[OF cp(1)] view(3,6,7) cp(7,8) copied_counts[OF U r(3) pool]
    by (intro exI[of _ d] exI[of _ ps'] exI[of _ s']) auto
qed

theorem copyuvm_shares_pages_witness:
  "\<exists>d s'. copyuvm 0x80500000 4096 parent_state = Ok d s' \<and> pte_at (vmem s') d 8 = 0x504105 \<and>
    user_load (vmem s') d 8 = user_load parent_mem 0x80500000 8 \<and> user_store (vmem s') 0x80500000 8 1 = None \<and>
    rcount (vk s') 0x504 = 2"
proof -
  have n: "pageno 8 < pages_of 4096" by (simp add: pageno_def pages_of_def)
  have e: "pte_at (vmem parent_state) 0x80500000 8 = 0x504007"
    using parent_dir(5)[of 8] by (simp add: pageno_def parent_view(2))
  then have f: "frame_at (vmem parent_state) 0x80500000 8 = 0x80504000"
    by (simp add: frame_at_def PTE_ADDR_def P2V_def KERNBASE_def)
  have sh: "share 0x504007 = 0x504105" by (simp add: share_def pte_consts)
  obtain d ps' s' where r: "copyuvm 0x80500000 4096 parent_state = Ok d s'"
    "\<forall>va. if pageno va < pages_of 4096
       then pte_at (vmem s') d va = share (pte_at (vmem parent_state) 0x80500000 va) \<and>
         pte_at (vmem s') 0x80500000 va = share (pte_at (vmem parent_state) 0x80500000 va) \<and>
         user_load (vmem s') d va = user_load (vmem parent_state) 0x80500000 va \<and>
         user_load (vmem s') 0x80500000 va = user_load (vmem parent_state) 0x80500000 va \<and>
         user_store (vmem s') d va 1 = None \<and> user_store (vmem s') 0x80500000 va 1 = None
       else pte_at (vmem s') d va = kernel_pte (pageno (kdata parent_state)) (pageno va) \<and>
         pte_at (vmem s') 0x80500000 va = pte_at (vmem parent_state) 0x80500000 va"
    "\<forall>p. page_ok (kend (vk parent_state)) p \<and> p \<notin> set free_pages \<longrightarrow>
       rcount (vk s') (page_index p) = rcount (vk parent_state) (page_index p) +
         (if \<exists>va. pageno va < pages_of 4096 \<and> frame_at (vmem parent_state) 0x80500000 va = p then 1 else 0)"
    using copyuvm_shares_pages[OF parent_ready, of 1] by blast
  have "rcount (vk s') (page_index 0x80504000) = rcount (vk parent_state) (page_index 0x80504000) + 1"
  proof -
    have out: "page_ok (kend (vk parent_state)) 0x80504000 \<and> 0x80504000 \<notin> set free_pages"
      using parent_pages_ok(3) parent_not_free by (simp add: parent_state_def boot_pool_def)
    have ex: "\<exists>va. pageno va < pages_of 4096 \<and> frame_at (vmem parent_state) 0x80500000 va = 0x80504000"
      using n f by blast
    show ?thesis using r(3)[rule_format, OF out] unfolding if_P[OF ex] .
  qed
  then have "rcount (vk s') 0x504 = 2" unfolding parent_pages_ok(6) by (simp add: parent_state_def)
  then show ?thesis using r(1) r(2)[rule_format, of 8] n e sh by (auto simp: parent_view(2))
qed

text \<open>C2: Fork, then write, from end to end.  After \<open>copyuvm\<close> either of the two processes may fault on any
  user page: the handler returns 0, the process reads the byte that was there before the fork, its
  store succeeds and is read back, and the other process still reads at every user address the byte
  that was there before the fork.\<close>

theorem forked_processes_isolated:
  assumes "fork_ready c pg sz ps s"
  shows "\<exists>d s'. copyuvm pg sz s = Ok d s' \<and>
    (\<forall>p r va x b. (p_pgdir p = d \<and> r = pg \<or> p_pgdir p = pg \<and> r = d) \<and> kstack p \<noteq> 0 \<and> va < sz \<and>
       user_load (vmem s) pg va = Some x \<longrightarrow>
       (\<exists>s'' m. handle_pgflt_helper p va s' = Ok 0 s'' \<and> user_load (vmem s'') (p_pgdir p) va = Some x \<and>
          user_store (vmem s'') (p_pgdir p) va b = Some m \<and> user_load m (p_pgdir p) va = Some b \<and>
          (\<forall>va' y. va' < sz \<and> user_load (vmem s) pg va' = Some y \<longrightarrow> user_load m r va' = Some y)))"
proof -
  note U = fork_readyD(2)[OF assms] and pool = fork_readyD(3)[OF assms]
  obtain d ps' s' where r: "copyuvm pg sz s = Ok d s'" "copied c 1 (copy_slots (pages_of sz)) d pg ps s (pages_of sz) ps' s'"
    using fork_readyD(4)[OF assms] by blast
  have "\<exists>s'' m. handle_pgflt_helper p va s' = Ok 0 s'' \<and> user_load (vmem s'') (p_pgdir p) va = Some x \<and>
      user_store (vmem s'') (p_pgdir p) va b = Some m \<and> user_load m (p_pgdir p) va = Some b \<and>
      (\<forall>va' y. va' < sz \<and> user_load (vmem s) pg va' = Some y \<longrightarrow> user_load m q va' = Some y)"
    if h: "p_pgdir p = d \<and> q = pg \<or> p_pgdir p = pg \<and> q = d" "kstack p \<noteq> 0" "va < sz" "user_load (vmem s) pg va = Some x"
    for p q va x b
  proof -
    obtain s'' m where "handle_pgflt_helper p va s' = Ok 0 s''" "user_load (vmem s'') (p_pgdir p) va = Some x"
      "user_store (vmem s'') (p_pgdir p) va b = Some m" "user_load m (p_pgdir p) va = Some b"
      "\<forall>va'. pageno va' < pages_of sz \<longrightarrow> user_load (vmem s) pg va' \<noteq> None \<longrightarrow> user_load m q va' = user_load (vmem s) pg va'"
      using copied_fault[OF U r(2) pool h(1,2) pages_of_pageno[OF h(3)] h(4), of b] by blast
    then show ?thesis using pages_of_pageno by (intro exI[of _ s''] exI[of _ m]) simp
  qed
  then show ?thesis using r(1) by blast
qed

theorem forked_processes_isolated_witness:
  "\<exists>d s' s'' m. copyuvm 0x80500000 4096 parent_state = Ok d s' \<and>
    handle_pgflt_helper (forked_proc\<lparr>p_pgdir := d\<rparr>) 8 s' = Ok 0 s'' \<and> user_store (vmem s'') d 8 7 = Some m \<and>
    user_load m d 8 = Some 7 \<and> user_load m 0x80500000 8 = user_load parent_mem 0x80500000 8"
proof -
  obtain x where x: "user_load (vmem parent_state) 0x80500000 8 = Some x" using parent_view by auto
  obtain d s' where r: "copyuvm 0x80500000 4096 parent_state = Ok d s'"
    "\<forall>p r va x b. (p_pgdir p = d \<and> r = 0x80500000 \<or> p_pgdir p = 0x80500000 \<and> r = d) \<and> kstack p \<noteq> 0 \<and> va < 4096 \<and>
       user_load (vmem parent_state) 0x80500000 va = Some x \<longrightarrow>
       (\<exists>s'' m. handle_pgflt_helper p va s' = Ok 0 s'' \<and> user_load (vmem s'') (p_pgdir p) va = Some x \<and>
          user_store (vmem s'') (p_pgdir p) va b = Some m \<and> user_load m (p_pgdir p) va = Some b \<and>
          (\<forall>va' y. va' < 4096 \<and> user_load (vmem parent_state) 0x80500000 va' = Some y \<longrightarrow> user_load m r va' = Some y))"
    using forked_processes_isolated[OF parent_ready] by blast
  have "kstack (forked_proc\<lparr>p_pgdir := d\<rparr>) \<noteq> 0" by (simp add: forked_proc_def)
  then obtain s'' m where "handle_pgflt_helper (forked_proc\<lparr>p_pgdir := d\<rparr>) 8 s' = Ok 0 s''"
    "user_store (vmem s'') d 8 7 = Some m" "user_load m d 8 = Some 7" "user_load m 0x80500000 8 = Some x"
    using r(2)[rule_format, of "forked_proc\<lparr>p_pgdir := d\<rparr>" "0x80500000" 8 x 7] x by auto
  then show ?thesis using r(1) x parent_view(2) by auto
qed

end
