(* ===== verification/Threads.thy ===== *)
theory Threads
  imports Main
begin

text \<open>
  Threads that share a lock: how many of them are at given program points.  Almost all threads are at
  the idle point \<open>z\<close>, where they have not called any function.
\<close>

definition at :: "(nat \<Rightarrow> 'p) \<Rightarrow> 'p set \<Rightarrow> int" where
  "at pc A = int (card {t. pc t \<in> A})"

lemma finite_at: "finite {t. pc t \<noteq> z} \<Longrightarrow> z \<notin> A \<Longrightarrow> finite {t. pc t \<in> A}"
  by (rule finite_subset[of _ "{t. pc t \<noteq> z}"]) auto

lemma at_upd:
  assumes fin: "finite {t. pc t \<noteq> z}" and A: "z \<notin> A"
  shows "at (pc(t := p)) A = at pc A + (if p \<in> A then 1 else 0) - (if pc t \<in> A then 1 else 0)"
proof -
  note f = finite_at[OF assms]
  have "{u. (pc(t := p)) u \<in> A} = (if p \<in> A then insert t {u. pc u \<in> A} else {u. pc u \<in> A} - {t})" by auto
  moreover have "0 < card {u. pc u \<in> A}" if "pc t \<in> A" using f that by (auto simp: card_gt_0_iff)
  ultimately show ?thesis using f by (auto simp: at_def card_insert_if of_nat_diff)
qed

lemma finite_upd: "finite {t. pc t \<noteq> z} \<Longrightarrow> finite {u. (pc(t := p)) u \<noteq> z}"
  by (rule finite_subset[of _ "insert t {t. pc t \<noteq> z}"]) auto

lemma at_pos: "finite {t. pc t \<noteq> z} \<Longrightarrow> z \<notin> A \<Longrightarrow> pc t \<in> A \<Longrightarrow> 0 < at pc A"
  using finite_at[of pc z A] by (force simp: at_def card_gt_0_iff)

lemma at_nonneg [simp]: "0 \<le> at pc A"
  by (simp add: at_def)

lemma at_idle: "z \<notin> A \<Longrightarrow> at (\<lambda>_. z) A = 0"
  by (simp add: at_def)

lemma at_none: "(\<And>t. pc t \<notin> A) \<Longrightarrow> at pc A = 0"
  by (simp add: at_def)

end
