(* ===== verification/Rwlock.thy ===== *)
theory Rwlock
  imports Threads
begin

text \<open>
  The two read-write locks: rwlock-reader-pref.cpp and rwlock-writer-pref.cpp, for any number of
  threads that lock and unlock in any order.  Each C++ function is the list of its atomic steps, one
  per access to the shared lock: \<open>f t p l\<close> is what thread \<open>t\<close> at the program point \<open>p\<close> does to the lock
  \<open>l\<close>, \<open>None\<close> where it has to wait or \<open>p\<close> is not a point of \<open>f\<close>.  Memory is sequentially consistent
  and the struct has the fields the code uses; \<open>pthread_mutex_t\<close> is its owner.
\<close>

section \<open>The lock and the program points\<close>

record rwl =
  thing :: "nat option"
  numRead :: int
  numWrit :: int

datatype point =
    Idle
  | RL_lock | RL_test | RL_back | RL_while | RL_leave | RL_inc | RL_unlock | Reading
  | RU_lock | RU_dec | RU_unlock
  | WL_lock | WL_inc | WL_test | WL_back | WL_while_read | WL_while_writ | WL_relock | WL_retest | WL_reback
  | Writing | WU_dec | WU_unlock

definition InitalizeReadWriteLock :: rwl where
  "InitalizeReadWriteLock = \<lparr>thing = None, numRead = 0, numWrit = 0\<rparr>"

definition mutex_lock :: "nat \<Rightarrow> point \<Rightarrow> rwl \<Rightarrow> (point \<times> rwl) option" where
  "mutex_lock t p l = (if thing l = None then Some (p, l\<lparr>thing := Some t\<rparr>) else None)"

definition mutex_unlock :: "point \<Rightarrow> rwl \<Rightarrow> (point \<times> rwl) option" where
  "mutex_unlock p l = Some (p, l\<lparr>thing := None\<rparr>)"

section \<open>rwlock-reader-pref.cpp\<close>

definition ReaderLock :: "nat \<Rightarrow> point \<Rightarrow> rwl \<Rightarrow> (point \<times> rwl) option" where
  "ReaderLock t p l =
     (case p of
        RL_lock \<Rightarrow> mutex_lock t RL_inc l
      | RL_inc \<Rightarrow> Some (RL_unlock, l\<lparr>numRead := numRead l + 1\<rparr>)
      | RL_unlock \<Rightarrow> mutex_unlock Reading l
      | _ \<Rightarrow> None)"

definition ReaderUnlock :: "nat \<Rightarrow> point \<Rightarrow> rwl \<Rightarrow> (point \<times> rwl) option" where
  "ReaderUnlock t p l =
     (case p of
        RU_lock \<Rightarrow> mutex_lock t RU_dec l
      | RU_dec \<Rightarrow> Some (RU_unlock, l\<lparr>numRead := numRead l - 1\<rparr>)
      | RU_unlock \<Rightarrow> mutex_unlock Idle l
      | _ \<Rightarrow> None)"

definition WriterLock :: "nat \<Rightarrow> point \<Rightarrow> rwl \<Rightarrow> (point \<times> rwl) option" where
  "WriterLock t p l =
     (case p of
        WL_lock \<Rightarrow> mutex_lock t WL_inc l
      | WL_inc \<Rightarrow> Some (WL_test, l\<lparr>numWrit := numWrit l + 1\<rparr>)
      | WL_test \<Rightarrow> Some (if 0 < numRead l then WL_back else Writing, l)
      | WL_back \<Rightarrow> mutex_unlock WL_while_read l
      | WL_while_read \<Rightarrow> Some (if 0 < numRead l then WL_relock else WL_while_writ, l)
      | WL_while_writ \<Rightarrow> Some (if 0 < numWrit l then WL_relock else Writing, l)
      | WL_relock \<Rightarrow> mutex_lock t WL_retest l
      | WL_retest \<Rightarrow> Some (if 0 < numRead l then WL_reback else Writing, l)
      | WL_reback \<Rightarrow> mutex_unlock WL_while_read l
      | _ \<Rightarrow> None)"

definition WriterUnlock :: "nat \<Rightarrow> point \<Rightarrow> rwl \<Rightarrow> (point \<times> rwl) option" where
  "WriterUnlock t p l =
     (case p of
        WU_dec \<Rightarrow> Some (WU_unlock, l\<lparr>numWrit := numWrit l - 1\<rparr>)
      | WU_unlock \<Rightarrow> mutex_unlock Idle l
      | _ \<Rightarrow> None)"

section \<open>rwlock-writer-pref.cpp\<close>

text \<open>\<open>WriterLock\<close> and \<open>WriterUnlock\<close> are the same text in both files.\<close>

definition ReaderLock_wp :: "nat \<Rightarrow> point \<Rightarrow> rwl \<Rightarrow> (point \<times> rwl) option" where
  "ReaderLock_wp t p l =
     (case p of
        RL_lock \<Rightarrow> mutex_lock t RL_test l
      | RL_test \<Rightarrow> Some (if 0 < numWrit l then RL_back else RL_leave, l)
      | RL_back \<Rightarrow> mutex_unlock RL_while l
      | RL_leave \<Rightarrow> mutex_unlock RL_inc l
      | RL_while \<Rightarrow> Some (if 0 < numWrit l then RL_while else RL_inc, l)
      | RL_inc \<Rightarrow> Some (Reading, l\<lparr>numRead := numRead l + 1\<rparr>)
      | _ \<Rightarrow> None)"

definition ReaderUnlock_wp :: "nat \<Rightarrow> point \<Rightarrow> rwl \<Rightarrow> (point \<times> rwl) option" where
  "ReaderUnlock_wp t p l =
     (case p of
        RU_dec \<Rightarrow> Some (Idle, l\<lparr>numRead := numRead l - 1\<rparr>)
      | RU_lock \<Rightarrow> Some (RU_dec, l)
      | _ \<Rightarrow> None)"

lemmas lock_code = ReaderLock_def ReaderUnlock_def WriterLock_def WriterUnlock_def ReaderLock_wp_def ReaderUnlock_wp_def

section \<open>Threads\<close>

text \<open>
  A system is the lock and the program point of every thread.  A thread may call a lock function when
  it is idle and the unlock function when it is in its critical section; otherwise it takes a step of
  the function it is in.
\<close>

type_synonym code = "nat \<Rightarrow> point \<Rightarrow> rwl \<Rightarrow> (point \<times> rwl) option"
type_synonym system = "rwl \<times> (nat \<Rightarrow> point)"

inductive run :: "code list \<Rightarrow> system \<Rightarrow> system \<Rightarrow> bool" for fs where
  call_read: "pc t = Idle \<Longrightarrow> run fs (l, pc) (l, pc(t := RL_lock))"
| call_write: "pc t = Idle \<Longrightarrow> run fs (l, pc) (l, pc(t := WL_lock))"
| done_read: "pc t = Reading \<Longrightarrow> run fs (l, pc) (l, pc(t := RU_lock))"
| done_write: "pc t = Writing \<Longrightarrow> run fs (l, pc) (l, pc(t := WU_dec))"
| step: "f \<in> set fs \<Longrightarrow> f t (pc t) l = Some (p, l') \<Longrightarrow> run fs (l, pc) (l', pc(t := p))"

inductive_cases run_cases: "run fs (l, pc) (l', pc')"

definition reader_pref :: "code list" where
  "reader_pref = [ReaderLock, ReaderUnlock, WriterLock, WriterUnlock]"

definition writer_pref :: "code list" where
  "writer_pref = [ReaderLock_wp, ReaderUnlock_wp, WriterLock, WriterUnlock]"

definition init_system :: system where
  "init_system = (InitalizeReadWriteLock, \<lambda>_. Idle)"

section \<open>The reader-preference lock excludes\<close>

definition holders :: "point set" where
  "holders = {RL_inc, RL_unlock, RU_dec, RU_unlock, WL_inc, WL_test, WL_back, WL_retest, WL_reback, Writing, WU_dec, WU_unlock}"

definition readers :: "point set" where
  "readers = {RL_unlock, Reading, RU_lock, RU_dec}"

definition writers :: "point set" where
  "writers = {WL_test, WL_back, WL_while_read, WL_while_writ, WL_relock, WL_retest, WL_reback, Writing, WU_dec}"

text \<open>
  The invariant: the mutex is held by the thread that is at a point that holds it, the counters count
  the readers and the writers, and there is no reader while a writer is in its critical section.
\<close>

definition inv :: "system \<Rightarrow> bool" where
  "inv = (\<lambda>(l, pc). finite {t. pc t \<noteq> Idle} \<and> (\<forall>t. thing l = Some t \<longleftrightarrow> pc t \<in> holders) \<and>
     numRead l = at pc readers \<and> numWrit l = at pc writers \<and> (\<forall>t. pc t = Writing \<longrightarrow> numRead l = 0))"

lemma invI:
  assumes "finite {t. pc t \<noteq> Idle}" "\<And>t. thing l = Some t \<longleftrightarrow> pc t \<in> holders" "numRead l = at pc readers"
    "numWrit l = at pc writers" "\<And>t. pc t = Writing \<Longrightarrow> numRead l = 0"
  shows "inv (l, pc)"
  using assms unfolding inv_def by blast

lemma invD:
  assumes "inv (l, pc)"
  shows "finite {t. pc t \<noteq> Idle}" "\<And>t. thing l = Some t \<longleftrightarrow> pc t \<in> holders" "numRead l = at pc readers"
    "numWrit l = at pc writers" "\<And>t. pc t = Writing \<Longrightarrow> numRead l = 0"
  using assms unfolding inv_def by blast+

lemmas points = holders_def readers_def writers_def

text \<open>What one step does to the lock, by the classes of the points it connects.\<close>

lemma lock_steps:
  "ReaderLock t q l = Some (p, l') \<longleftrightarrow>
     q = RL_lock \<and> thing l = None \<and> p = RL_inc \<and> l' = l\<lparr>thing := Some t\<rparr> \<or>
     q = RL_inc \<and> p = RL_unlock \<and> l' = l\<lparr>numRead := numRead l + 1\<rparr> \<or>
     q = RL_unlock \<and> p = Reading \<and> l' = l\<lparr>thing := None\<rparr>"
  "ReaderUnlock t q l = Some (p, l') \<longleftrightarrow>
     q = RU_lock \<and> thing l = None \<and> p = RU_dec \<and> l' = l\<lparr>thing := Some t\<rparr> \<or>
     q = RU_dec \<and> p = RU_unlock \<and> l' = l\<lparr>numRead := numRead l - 1\<rparr> \<or>
     q = RU_unlock \<and> p = Idle \<and> l' = l\<lparr>thing := None\<rparr>"
  "WriterUnlock t q l = Some (p, l') \<longleftrightarrow>
     q = WU_dec \<and> p = WU_unlock \<and> l' = l\<lparr>numWrit := numWrit l - 1\<rparr> \<or>
     q = WU_unlock \<and> p = Idle \<and> l' = l\<lparr>thing := None\<rparr>"
  by (cases q; simp add: lock_code mutex_lock_def mutex_unlock_def; metis)+

lemma writer_steps:
  "WriterLock t q l = Some (p, l') \<longleftrightarrow>
     q = WL_lock \<and> thing l = None \<and> p = WL_inc \<and> l' = l\<lparr>thing := Some t\<rparr> \<or>
     q = WL_inc \<and> p = WL_test \<and> l' = l\<lparr>numWrit := numWrit l + 1\<rparr> \<or>
     q = WL_test \<and> p = (if 0 < numRead l then WL_back else Writing) \<and> l' = l \<or>
     q = WL_back \<and> p = WL_while_read \<and> l' = l\<lparr>thing := None\<rparr> \<or>
     q = WL_while_read \<and> p = (if 0 < numRead l then WL_relock else WL_while_writ) \<and> l' = l \<or>
     q = WL_while_writ \<and> p = (if 0 < numWrit l then WL_relock else Writing) \<and> l' = l \<or>
     q = WL_relock \<and> thing l = None \<and> p = WL_retest \<and> l' = l\<lparr>thing := Some t\<rparr> \<or>
     q = WL_retest \<and> p = (if 0 < numRead l then WL_reback else Writing) \<and> l' = l \<or>
     q = WL_reback \<and> p = WL_while_read \<and> l' = l\<lparr>thing := None\<rparr>"
  by (cases q; simp add: WriterLock_def mutex_lock_def mutex_unlock_def; metis)

definition step_ok :: "nat \<Rightarrow> point \<Rightarrow> point \<Rightarrow> rwl \<Rightarrow> rwl \<Rightarrow> bool" where
  "step_ok t q p l l' \<longleftrightarrow>
     (q \<notin> holders \<longrightarrow> p \<in> holders \<longrightarrow> thing l = None \<and> thing l' = Some t) \<and>
     (q \<in> holders \<longrightarrow> p \<notin> holders \<longrightarrow> thing l' = None) \<and>
     ((q \<in> holders \<longleftrightarrow> p \<in> holders) \<longrightarrow> thing l' = thing l) \<and>
     numRead l' = numRead l + (if p \<in> readers then 1 else 0) - (if q \<in> readers then 1 else 0) \<and>
     numWrit l' = numWrit l + (if p \<in> writers then 1 else 0) - (if q \<in> writers then 1 else 0) \<and>
     (p = Writing \<longrightarrow> numRead l' \<le> 0) \<and> (numRead l' \<noteq> numRead l \<longrightarrow> q \<in> holders)"

lemma step_okD:
  assumes "step_ok t q p l l'"
  shows "q \<notin> holders \<Longrightarrow> p \<in> holders \<Longrightarrow> thing l = None \<and> thing l' = Some t"
    and "q \<in> holders \<Longrightarrow> p \<notin> holders \<Longrightarrow> thing l' = None"
    and "q \<in> holders \<longleftrightarrow> p \<in> holders \<Longrightarrow> thing l' = thing l"
    and "numRead l' = numRead l + (if p \<in> readers then 1 else 0) - (if q \<in> readers then 1 else 0)"
    and "numWrit l' = numWrit l + (if p \<in> writers then 1 else 0) - (if q \<in> writers then 1 else 0)"
    and "p = Writing \<Longrightarrow> numRead l' \<le> 0"
    and "numRead l' \<noteq> numRead l \<Longrightarrow> q \<in> holders"
  using assms unfolding step_ok_def by blast+

lemma step_facts:
  assumes "f \<in> set reader_pref" and "f t q l = Some (p, l')" and "q \<in> writers \<Longrightarrow> 0 < numWrit l"
  shows "step_ok t q p l l'"
proof -
  consider "f = ReaderLock" | "f = ReaderUnlock" | "f = WriterUnlock" | "f = WriterLock"
    using assms(1) by (auto simp: reader_pref_def)
  then show ?thesis
  proof cases
    case 1
    then have "ReaderLock t q l = Some (p, l')" using assms(2) by simp
    then show ?thesis unfolding lock_steps by (elim disjE conjE) (simp_all add: step_ok_def points)
  next
    case 2
    then have "ReaderUnlock t q l = Some (p, l')" using assms(2) by simp
    then show ?thesis unfolding lock_steps by (elim disjE conjE) (simp_all add: step_ok_def points)
  next
    case 3
    then have "WriterUnlock t q l = Some (p, l')" using assms(2) by simp
    then show ?thesis unfolding lock_steps by (elim disjE conjE) (simp_all add: step_ok_def points)
  next
    case 4
    then have "WriterLock t q l = Some (p, l')" using assms(2) by simp
    then show ?thesis unfolding writer_steps
      by (elim disjE conjE) (use assms(3) in \<open>simp_all add: step_ok_def points\<close>)
  qed
qed

lemma inv_step:
  assumes "inv (l, pc)" and "f \<in> set reader_pref" and "f t (pc t) l = Some (p, l')"
  shows "inv (l', pc(t := p))"
proof -
  have fin: "finite {t. pc t \<noteq> Idle}" and own: "\<And>u. thing l = Some u \<longleftrightarrow> pc u \<in> holders"
    and nr: "numRead l = at pc readers" and nw: "numWrit l = at pc writers" and wr: "\<And>u. pc u = Writing \<Longrightarrow> numRead l = 0"
    using invD[OF assms(1)] by blast+
  have idle: "Idle \<notin> readers" "Idle \<notin> writers" by (simp_all add: points)
  have pos: "pc t \<in> writers \<Longrightarrow> 0 < numWrit l" using at_pos[OF fin idle(2)] nw by simp
  note st = step_okD[OF step_facts[OF assms(2,3) pos]]
  have own': "thing l' = Some u \<longleftrightarrow> (pc(t := p)) u \<in> holders" for u
    using own[of u] own[of t] st(1-3) by (cases "u = t"; cases "pc t \<in> holders"; cases "p \<in> holders") auto
  have nr': "numRead l' = at (pc(t := p)) readers" and nw': "numWrit l' = at (pc(t := p)) writers"
    using st(4,5) at_upd[OF fin idle(1), of t p] at_upd[OF fin idle(2), of t p] nr nw by simp_all
  have "numRead l' = 0" if w: "(pc(t := p)) u = Writing" for u
  proof (cases "u = t")
    case True
    then have "numRead l' \<le> 0" using w st(6) by simp
    moreover have "0 \<le> numRead l'" unfolding nr' by (simp add: at_def)
    ultimately show ?thesis by simp
  next
    case False
    then have u: "pc u = Writing" using w by simp
    then have "thing l = Some u" using own by (simp add: holders_def)
    then have "pc t \<notin> holders" using own[of t] False by auto
    then show ?thesis using st(7) wr[OF u] by auto
  qed
  then show ?thesis by (rule invI[OF finite_upd[OF fin] own' nr' nw'])
qed

text \<open>A call moves a thread between points that mean the same to the invariant.\<close>

lemma inv_call:
  assumes "inv (l, pc)" and "q \<in> holders \<longleftrightarrow> pc t \<in> holders" "q \<in> readers \<longleftrightarrow> pc t \<in> readers"
    "q \<in> writers \<longleftrightarrow> pc t \<in> writers" "q \<noteq> Writing"
  shows "inv (l, pc(t := q))"
proof -
  have fin: "finite {t. pc t \<noteq> Idle}" using assms(1) by (simp add: inv_def)
  have "at (pc(t := q)) readers = at pc readers" "at (pc(t := q)) writers = at pc writers"
    using assms(3,4) by (subst at_upd[OF fin]; simp add: readers_def writers_def)+
  moreover have "thing l = Some u \<longleftrightarrow> (pc(t := q)) u \<in> holders" for u using invD(2)[OF assms(1)] assms(2) by simp
  moreover have "numRead l = 0" if "(pc(t := q)) u = Writing" for u
    using invD(5)[OF assms(1), of u] assms(5) that by (simp split: if_splits)
  ultimately show ?thesis using invD(3,4)[OF assms(1)] by (intro invI[OF finite_upd[OF fin]]) (simp_all del: fun_upd_apply)
qed

lemma inv_run: "run reader_pref s s' \<Longrightarrow> inv s \<Longrightarrow> inv s'"
proof (induction rule: run.induct)
  case (step f t pc l p l')
  show ?case by (rule inv_step[OF step(3,1,2)])
qed (simp_all add: inv_call points)

lemma inv_reachable: "(run reader_pref)\<^sup>*\<^sup>* init_system s \<Longrightarrow> inv s"
proof (induction rule: rtranclp_induct)
  case base
  show ?case by (simp add: inv_def init_system_def InitalizeReadWriteLock_def points at_def)
next
  case (step s s')
  show ?case by (rule inv_run[OF step(2,3)])
qed

text \<open>C14: The reader-preference lock excludes.  However many threads call its functions and however their
  steps interleave, while a writer is in its critical section every other thread is outside both
  kinds of critical section.\<close>

theorem reader_pref_excludes:
  assumes "(run reader_pref)\<^sup>*\<^sup>* init_system (l, pc)" and "pc t = Writing" and "u \<noteq> t"
  shows "pc u \<noteq> Reading \<and> pc u \<noteq> Writing"
proof -
  have "inv (l, pc)" by (rule inv_reachable[OF assms(1)])
  then have own: "\<And>u. thing l = Some u \<longleftrightarrow> pc u \<in> holders" and fin: "finite {t. pc t \<noteq> Idle}"
    and "numRead l = at pc readers" "numRead l = 0"
    using assms(2) by (auto simp: inv_def)
  then have "pc u \<notin> readers" using at_pos[OF fin, of readers u] by (auto simp: points)
  moreover have "pc u \<notin> holders" using own[of u] own[of t] assms(2,3) by (auto simp: holders_def)
  ultimately show ?thesis by (auto simp: points)
qed

text \<open>A run in which thread 0 reads and leaves and thread 1 then writes.\<close>

lemma run_step: "f \<in> set fs \<Longrightarrow> f t (pc t) l = Some (p, l') \<Longrightarrow> q = pc(t := p) \<Longrightarrow> (run fs)\<^sup>*\<^sup>* (l, pc) (l', q)"
  using run.step by (metis r_into_rtranclp)

definition two :: "point \<Rightarrow> point \<Rightarrow> nat \<Rightarrow> point" where
  "two p q = (\<lambda>_. Idle)(0 := p, 1 := q)"

lemma two_simps [simp]:
  "two p q 0 = p" "two p q (Suc 0) = q" "(two p q)(0 := p') = two p' q" "(two p q)(Suc 0 := q') = two p q'"
  by (auto simp: two_def)

text \<open>The lock's values: nothing held, held by a thread, with so many readers and writers.\<close>

definition rw :: "nat option \<Rightarrow> int \<Rightarrow> int \<Rightarrow> rwl" where
  "rw h r w = \<lparr>thing = h, numRead = r, numWrit = w\<rparr>"

lemma rw_simps [simp]:
  "thing (rw h r w) = h" "numRead (rw h r w) = r" "numWrit (rw h r w) = w"
  "(rw h r w)\<lparr>thing := h'\<rparr> = rw h' r w" "(rw h r w)\<lparr>numRead := r'\<rparr> = rw h r' w" "(rw h r w)\<lparr>numWrit := w'\<rparr> = rw h r w'"
  "init_system = (rw None 0 0, two Idle Idle)"
  by (auto simp: rw_def init_system_def InitalizeReadWriteLock_def two_def)

lemma run_calls:
  "(run fs)\<^sup>*\<^sup>* (l, two Idle q) (l, two RL_lock q)" "(run fs)\<^sup>*\<^sup>* (l, two p Idle) (l, two p WL_lock)"
  using run.call_read[of "two Idle q" 0 fs l] run.call_write[of "two p Idle" 1 fs l] by (simp_all add: r_into_rtranclp)

lemma writer_enters:
  assumes "WriterLock \<in> set fs"
  shows "(run fs)\<^sup>*\<^sup>* (rw None 0 0, two p Idle) (rw (Some 1) 0 1, two p Writing)"
proof -
  have "(run fs)\<^sup>*\<^sup>* (rw None 0 0, two p Idle) (rw None 0 0, two p WL_lock)" by (rule run_calls)
  also have "(run fs)\<^sup>*\<^sup>* (rw None 0 0, two p WL_lock) (rw (Some 1) 0 0, two p WL_inc)"
    by (rule run_step[OF assms, of 1 _ _ WL_inc]) (simp_all add: lock_code mutex_lock_def)
  also have "(run fs)\<^sup>*\<^sup>* (rw (Some 1) 0 0, two p WL_inc) (rw (Some 1) 0 1, two p WL_test)"
    by (rule run_step[OF assms, of 1 _ _ WL_test]) (simp_all add: lock_code)
  also have "(run fs)\<^sup>*\<^sup>* (rw (Some 1) 0 1, two p WL_test) (rw (Some 1) 0 1, two p Writing)"
    by (rule run_step[OF assms, of 1 _ _ Writing]) (simp_all add: lock_code)
  finally show ?thesis .
qed

theorem reader_pref_excludes_witness:
  "(run reader_pref)\<^sup>*\<^sup>* init_system (rw (Some 1) 0 1, two RL_lock Writing) \<and> two RL_lock Writing 0 \<noteq> Writing"
proof -
  have "(run reader_pref)\<^sup>*\<^sup>* init_system (rw None 0 0, two RL_lock Idle)" using run_calls(1)[of _ _ Idle] by simp
  also have "(run reader_pref)\<^sup>*\<^sup>* (rw None 0 0, two RL_lock Idle) (rw (Some 1) 0 1, two RL_lock Writing)"
    by (rule writer_enters) (simp add: reader_pref_def)
  finally have r: "(run reader_pref)\<^sup>*\<^sup>* init_system (rw (Some 1) 0 1, two RL_lock Writing)" .
  have "two RL_lock Writing 1 = Writing" "(0 :: nat) \<noteq> 1" by simp_all
  from reader_pref_excludes[OF r this] show ?thesis using r by blast
qed

section \<open>The writer-preference lock does not\<close>

text \<open>C33: The writer-preference lock lets a reader and a writer into their critical sections together:
  \<open>ReaderLock\<close> frees the mutex after it has seen no writer and counts itself only afterwards, and a
  writer that comes in between sees no reader.\<close>

theorem writer_pref_fails:
  "\<exists>l pc. (run writer_pref)\<^sup>*\<^sup>* init_system (l, pc) \<and> pc 0 = Reading \<and> pc 1 = Writing"
proof -
  have r: "ReaderLock_wp \<in> set writer_pref" and w: "WriterLock \<in> set writer_pref" by (simp_all add: writer_pref_def)
  have "(run writer_pref)\<^sup>*\<^sup>* init_system (rw None 0 0, two RL_lock Idle)" using run_calls(1)[of _ _ Idle] by simp
  also have "(run writer_pref)\<^sup>*\<^sup>* (rw None 0 0, two RL_lock Idle) (rw (Some 0) 0 0, two RL_test Idle)"
    by (rule run_step[OF r, of 0 _ _ RL_test]) (simp_all add: lock_code mutex_lock_def)
  also have "(run writer_pref)\<^sup>*\<^sup>* (rw (Some 0) 0 0, two RL_test Idle) (rw (Some 0) 0 0, two RL_leave Idle)"
    by (rule run_step[OF r, of 0 _ _ RL_leave]) (simp_all add: lock_code)
  also have "(run writer_pref)\<^sup>*\<^sup>* (rw (Some 0) 0 0, two RL_leave Idle) (rw None 0 0, two RL_inc Idle)"
    by (rule run_step[OF r, of 0 _ _ RL_inc]) (simp_all add: lock_code mutex_unlock_def)
  also note writer_enters[OF w, of RL_inc]
  also have "(run writer_pref)\<^sup>*\<^sup>* (rw (Some 1) 0 1, two RL_inc Writing) (rw (Some 1) 1 1, two Reading Writing)"
    by (rule run_step[OF r, of 0 _ _ Reading]) (simp_all add: lock_code)
  finally show ?thesis by (intro exI[of _ "rw (Some 1) 1 1"] exI[of _ "two Reading Writing"]) simp
qed

end
