(* ===== verification/Heap.thy ===== *)
theory Heap
  imports "HOL-Library.Multiset"
begin

text \<open>
  The binary max heap of dsa/heap/heap.cpp.  The class declaration (heap.h) is not in the repository:
  the fields are those the code uses, and its \<open>append\<close> is a parameter of \<open>insert\<close>.  \<open>store\<close> is an
  array of integers of which the first \<open>sz\<close> are the heap; an index past the array is an error,
  \<open>None\<close>.
\<close>

record heap =
  store :: "int list"
  sz :: nat
  swap_count :: nat

section \<open>The operations\<close>

definition parent :: "int \<Rightarrow> int" where
  "parent i = (if i mod 2 = 0 then (i - 2) div 2 else (i - 1) div 2)"

definition left :: "nat \<Rightarrow> nat" where
  "left i = 2 * i + 1"

definition right :: "nat \<Rightarrow> nat" where
  "right i = 2 * i + 2"

definition max_elem :: "heap \<Rightarrow> int option" where
  "max_elem h = (if store h = [] then None else Some (store h ! 0))"

definition swap_elems :: "nat \<Rightarrow> nat \<Rightarrow> heap \<Rightarrow> heap option" where
  "swap_elems i j h =
     (if i < length (store h) \<and> j < length (store h)
      then Some (h\<lparr>store := (store h)[i := store h ! j, j := store h ! i]\<rparr>) else None)"

definition count_swap :: "heap \<Rightarrow> heap" where
  "count_swap h = h\<lparr>swap_count := swap_count h + 1\<rparr>"

lemma parent_div: "0 < t \<Longrightarrow> nat (parent (int t)) = (t - 1) div 2"
  by (cases "even t") (auto simp: parent_def nat_diff_distrib nat_div_distrib elim!: oddE evenE)

text \<open>The loop of \<open>insert\<close>: the element at \<open>t\<close> rises while its parent is smaller.\<close>

function (sequential) sift_up :: "nat \<Rightarrow> heap \<Rightarrow> heap option" where
  "sift_up t h =
     (if t = 0 then Some h
      else if t < length (store h) then
        let p = nat (parent (int t)) in
        if store h ! p < store h ! t then
          case swap_elems p t h of None \<Rightarrow> None | Some h \<Rightarrow> sift_up p (count_swap h)
        else Some h
      else None)"
  by pat_completeness auto

termination
  by (relation "measure fst") (auto simp: parent_div)

definition insert_elem :: "(int \<Rightarrow> heap \<Rightarrow> heap) \<Rightarrow> int \<Rightarrow> heap \<Rightarrow> heap option" where
  "insert_elem app v h = (let h = app v h in sift_up (sz h - 1) h)"

text \<open>The child \<open>heapify\<close> looks at next: the larger of \<open>i\<close> and its children below \<open>sz\<close>.\<close>

definition largest :: "nat \<Rightarrow> heap \<Rightarrow> nat" where
  "largest i h =
     (let l = i;
          l = (if left i < sz h \<and> store h ! l < store h ! left i then left i else l) in
      if right i < sz h \<and> store h ! l < store h ! right i then right i else l)"

lemma largest_bound: "largest i h \<noteq> i \<Longrightarrow> i < largest i h \<and> largest i h < sz h"
  by (auto simp: largest_def left_def right_def Let_def split: if_splits)

lemma swap_elems_sz: "swap_elems i j h = Some h' \<Longrightarrow> sz h' = sz h"
  by (auto simp: swap_elems_def split: if_splits)

function (sequential) heapify :: "nat \<Rightarrow> heap \<Rightarrow> heap option" where
  "heapify i h =
     (if sz h = 0 then Some h
      else if length (store h) < sz h then None
      else if largest i h = i then Some h
      else case swap_elems (largest i h) i h of
             None \<Rightarrow> None
           | Some h' \<Rightarrow> heapify (largest i h) (count_swap h'))"
  by pat_completeness auto

termination
proof (relation "measure (\<lambda>(i, h). sz h - i)", goal_cases)
  case (2 i h h')
  then show ?case using largest_bound[of i h] swap_elems_sz[of "largest i h" i h h'] by (simp add: count_swap_def) linarith
qed simp

definition deleteMax :: "heap \<Rightarrow> heap option" where
  "deleteMax h =
     (if sz h = 0 then None
      else case swap_elems 0 (sz h - 1) h of
             None \<Rightarrow> None
           | Some h \<Rightarrow> heapify 0 ((count_swap h)\<lparr>sz := sz h - 1\<rparr>))"

text \<open>The loop of \<open>buildHeap\<close>, with \<open>n\<close> positions left to visit, the last one first.\<close>

primrec build_from :: "nat \<Rightarrow> heap \<Rightarrow> heap option" where
  "build_from 0 h = Some h"
| "build_from (Suc i) h = (case heapify i h of None \<Rightarrow> None | Some h \<Rightarrow> build_from i h)"

definition buildHeap :: "heap \<Rightarrow> heap option" where
  "buildHeap h = build_from (sz h) h"

declare sift_up.simps [simp del] heapify.simps [simp del]

lemma heapify_sz: "heapify i h = Some h' \<Longrightarrow> sz h' = sz h"
proof (induction i h arbitrary: h' rule: heapify.induct)
  case (1 i h)
  show ?case
  proof (cases "sz h = 0 \<or> length (store h) < sz h \<or> largest i h = i")
    case True
    then show ?thesis using "1.prems" by (auto simp: heapify.simps[of i h] split: if_splits)
  next
    case False
    then obtain h1 where h1: "swap_elems (largest i h) i h = Some h1"
      using "1.prems" by (cases "swap_elems (largest i h) i h") (simp_all add: heapify.simps[of i h])
    then have "heapify (largest i h) (count_swap h1) = Some h'"
      using "1.prems" False by (simp add: heapify.simps[of i h])
    then have "sz h' = sz (count_swap h1)" using "1.IH"[OF _ _ _ h1] False by blast
    then show ?thesis using swap_elems_sz[OF h1] by (simp add: count_swap_def)
  qed
qed

lemma deleteMax_sz: "deleteMax h = Some h' \<Longrightarrow> sz h' = sz h - 1 \<and> sz h \<noteq> 0"
  by (auto simp: deleteMax_def dest!: heapify_sz swap_elems_sz split: if_splits option.splits)

text \<open>The loop \<open>while (sz > 0) deleteMax()\<close>.\<close>

function (sequential) drain :: "heap \<Rightarrow> heap option" where
  "drain h = (if sz h = 0 then Some h else case deleteMax h of None \<Rightarrow> None | Some h \<Rightarrow> drain h)"
  by pat_completeness auto

termination
  by (relation "measure sz") (auto dest!: deleteMax_sz)

declare drain.simps [simp del]

definition heapSort :: "heap \<Rightarrow> heap option" where
  "heapSort h = (case buildHeap h of None \<Rightarrow> None | Some h \<Rightarrow> drain h)"

section \<open>The heap order\<close>

definition kids :: "nat \<Rightarrow> nat set" where
  "kids i = {left i, right i}"

text \<open>
  \<open>heap_from k n xs\<close>: every position from \<open>k\<close> on is at least its children below \<open>n\<close>.  \<open>near\<close> is
  the same with the position \<open>x\<close> possibly too small, but not too large for its own parent's sake.
\<close>

definition heap_from :: "nat \<Rightarrow> nat \<Rightarrow> int list \<Rightarrow> bool" where
  "heap_from k n xs \<longleftrightarrow> (\<forall>j\<ge>k. \<forall>c\<in>kids j. c < n \<longrightarrow> xs ! c \<le> xs ! j)"

definition near :: "nat \<Rightarrow> nat \<Rightarrow> nat \<Rightarrow> int list \<Rightarrow> bool" where
  "near k n x xs \<longleftrightarrow>
     (\<forall>j\<ge>k. \<forall>c\<in>kids j. j \<noteq> x \<longrightarrow> c < n \<longrightarrow> xs ! c \<le> xs ! j) \<and>
     (\<forall>j\<ge>k. x \<in> kids j \<longrightarrow> (\<forall>c\<in>kids x. c < n \<longrightarrow> xs ! c \<le> xs ! j))"

text \<open>The same array with the same elements, unchanged from \<open>n\<close> on.\<close>

definition permuted :: "nat \<Rightarrow> int list \<Rightarrow> int list \<Rightarrow> bool" where
  "permuted n xs ys \<longleftrightarrow> length ys = length xs \<and> drop n ys = drop n xs \<and> mset (take n ys) = mset (take n xs)"

lemma permuted_refl [simp]: "permuted n xs xs"
  by (simp add: permuted_def)

lemma permuted_trans: "permuted n xs ys \<Longrightarrow> permuted n ys zs \<Longrightarrow> permuted n xs zs"
  by (simp add: permuted_def)

lemma permuted_swap:
  assumes "i < n" "j < n" "n \<le> length xs"
  shows "permuted n xs (xs[i := xs ! j, j := xs ! i])"
proof -
  have "take n (xs[i := xs ! j, j := xs ! i]) = (take n xs)[i := take n xs ! j, j := take n xs ! i]"
    using assms by (simp add: take_update_swap)
  then show ?thesis using assms mset_swap[of i "take n xs" j]
    by (cases "i = j") (simp_all add: permuted_def list_update_swap)
qed

lemma permuted_mono: "permuted m xs ys \<Longrightarrow> m \<le> n \<Longrightarrow> permuted n xs ys"
proof -
  assume a: "permuted m xs ys" and mn: "m \<le> n"
  obtain k where k: "n = m + k" using mn le_Suc_ex by blast
  have "take n zs = take m zs @ take k (drop m zs)" "drop n zs = drop k (drop m zs)" for zs :: "int list"
    unfolding k by (simp_all add: take_add drop_drop add.commute[of k] del: take_drop)
  then show ?thesis using a unfolding permuted_def by (metis mset_append)
qed

lemma largest_kid: "largest i h = i \<or> largest i h \<in> kids i \<and> largest i h < sz h \<and> store h ! i < store h ! largest i h"
  by (auto simp: largest_def kids_def Let_def)

lemma largest_max: "c \<in> insert i (kids i) \<Longrightarrow> c < sz h \<Longrightarrow> store h ! c \<le> store h ! largest i h"
  by (auto simp: largest_def kids_def Let_def)

lemma kids_inj: "c \<in> kids i \<Longrightarrow> c \<in> kids j \<Longrightarrow> i = j"
  by (auto simp: kids_def left_def right_def; presburger)

lemma kids_less: "c \<in> kids i \<Longrightarrow> i < c"
  by (auto simp: kids_def left_def right_def)

lemma near_done: "near k n i xs \<Longrightarrow> (\<And>c. c \<in> kids i \<Longrightarrow> c < n \<Longrightarrow> xs ! c \<le> xs ! i) \<Longrightarrow> heap_from k n xs"
  unfolding near_def heap_from_def by blast

lemma near_step:
  assumes "near k n i xs" "k \<le> i" and l: "l \<in> kids i" "l < n" "n \<le> length xs" "xs ! i < xs ! l"
    and top: "\<And>c. c \<in> kids i \<Longrightarrow> c < n \<Longrightarrow> xs ! c \<le> xs ! l"
  shows "near k n l (xs[l := xs ! i, i := xs ! l])" (is "near k n l ?ys")
  unfolding near_def
proof (intro conjI allI ballI impI)
  have il: "i < l" using l(1) by (rule kids_less)
  have ys: "?ys ! i = xs ! l" "?ys ! l = xs ! i" "\<And>c. c \<noteq> i \<Longrightarrow> c \<noteq> l \<Longrightarrow> ?ys ! c = xs ! c"
    using il l(2,3) by auto
  {
    fix j c assume a: "k \<le> j" "c \<in> kids j" "j \<noteq> l" "c < n"
    show "?ys ! c \<le> ?ys ! j"
    proof (cases "j = i")
      case True
      then have "c \<noteq> i" using a(2) kids_less by blast
      then have "?ys ! c \<le> xs ! l" using True a top[of c] ys l(4) by (cases "c = l") auto
      then show ?thesis using True ys(1) by simp
    next
      case False
      then have "c \<noteq> l" using kids_inj[OF _ l(1)] a(2) by blast
      then show ?thesis using False a assms(1) l(1,2) ys unfolding near_def by (cases "c = i") auto
    qed
  next
    fix j c assume a: "k \<le> j" "l \<in> kids j" "c \<in> kids l" "c < n"
    have "j = i" using a(2) l(1) kids_inj by blast
    moreover have "l < c" using a(3) by (rule kids_less)
    moreover have "xs ! c \<le> xs ! l" using assms(1,2) a il unfolding near_def by auto
    ultimately show "?ys ! c \<le> ?ys ! j" using ys il by simp
  }
qed

section \<open>heapify\<close>

lemma swap_largest:
  assumes "largest i h \<noteq> i" "sz h \<le> length (store h)"
  shows "swap_elems (largest i h) i h =
    Some (h\<lparr>store := (store h)[largest i h := store h ! i, i := store h ! largest i h]\<rparr>)"
  using assms largest_bound[OF assms(1)] by (simp add: swap_elems_def)

lemma heapify_near:
  assumes "near k (sz h) i (store h)" "k \<le> i" "sz h \<le> length (store h)"
  shows "\<exists>h'. heapify i h = Some h' \<and> sz h' = sz h \<and> heap_from k (sz h) (store h') \<and> permuted (sz h) (store h) (store h')"
  using assms
proof (induction i h rule: heapify.induct)
  case (1 i h)
  let ?l = "largest i h"
  consider "sz h = 0" | "sz h \<noteq> 0" "?l = i" | "?l \<noteq> i" by blast
  then show ?case
  proof cases
    case 1
    then show ?thesis by (simp add: heapify.simps heap_from_def)
  next
    case 2
    have "heap_from k (sz h) (store h)"
      by (rule near_done[OF "1.prems"(1)]) (use largest_max[of _ i h] 2 in auto)
    then show ?thesis using 2 "1.prems"(3) by (simp add: heapify.simps)
  next
    case 3
    let ?xs = "(store h)[?l := store h ! i, i := store h ! ?l]"
    let ?h = "count_swap (h\<lparr>store := ?xs\<rparr>)"
    have b: "i < ?l" "?l < sz h" using largest_bound[OF 3] by auto
    have e: "heapify i h = heapify ?l ?h"
      using b "1.prems"(3) 3 swap_largest[OF 3 "1.prems"(3)] by (simp add: heapify.simps[of i h])
    have n: "near k (sz h) ?l ?xs"
      by (rule near_step[OF "1.prems"(1,2)]) (use largest_kid[of i h] largest_max[of _ i h] 3 "1.prems"(3) in auto)
    have "\<exists>h'. heapify ?l ?h = Some h' \<and> sz h' = sz ?h \<and> heap_from k (sz ?h) (store h') \<and> permuted (sz ?h) (store ?h) (store h')"
      by (rule "1.IH"[OF _ _ 3 swap_largest[OF 3 "1.prems"(3)]])
        (use b n "1.prems"(2,3) in \<open>simp_all add: count_swap_def\<close>)
    moreover have "permuted (sz h) (store h) ?xs"
      by (rule permuted_swap[OF b(2) _ "1.prems"(3)]) (use b in simp)
    ultimately show ?thesis unfolding e by (auto simp: count_swap_def intro: permuted_trans)
  qed
qed

lemma near_from_Suc: "heap_from (Suc i) n xs \<Longrightarrow> near i n i xs"
  unfolding heap_from_def near_def by (metis Suc_le_eq kids_less le_eq_less_or_eq not_less)

lemma build_from_heap:
  assumes "heap_from i (sz h) (store h)" "sz h \<le> length (store h)"
  shows "\<exists>h'. build_from i h = Some h' \<and> sz h' = sz h \<and> heap_from 0 (sz h) (store h') \<and> permuted (sz h) (store h) (store h')"
  using assms
proof (induction i arbitrary: h)
  case (Suc i)
  obtain h1 where h1: "heapify i h = Some h1" "sz h1 = sz h" "heap_from i (sz h) (store h1)" "permuted (sz h) (store h) (store h1)"
    using heapify_near[OF near_from_Suc[OF Suc.prems(1)] _ Suc.prems(2)] by auto
  have "length (store h1) = length (store h)" using h1(4) by (simp add: permuted_def)
  then show ?case using Suc.IH[of h1] h1 Suc.prems(2) by (auto intro: permuted_trans)
qed simp

lemma heap_from_top: "heap_from n n xs"
  by (auto simp: heap_from_def dest: kids_less)

lemma buildHeap_heap:
  assumes "sz h \<le> length (store h)"
  shows "\<exists>h'. buildHeap h = Some h' \<and> sz h' = sz h \<and> heap_from 0 (sz h) (store h') \<and> permuted (sz h) (store h) (store h')"
  unfolding buildHeap_def by (rule build_from_heap[OF heap_from_top assms])

lemma heap_root: "heap_from 0 n xs \<Longrightarrow> c < n \<Longrightarrow> xs ! c \<le> xs ! 0"
proof (induction c rule: less_induct)
  case (less c)
  show ?case
  proof (cases "c = 0")
    case False
    let ?p = "(c - 1) div 2"
    have "?p < c" "c \<in> kids ?p" using False by (auto simp: kids_def left_def right_def)
    then show ?thesis using less by (fastforce simp: heap_from_def)
  qed simp
qed

section \<open>Sorting\<close>

text \<open>\<open>deleteMax\<close> moves the maximum behind the heap.\<close>

lemma deleteMax_heap:
  assumes heap: "heap_from 0 (sz h) (store h)" and m: "sz h \<noteq> 0" "sz h \<le> length (store h)"
  shows "\<exists>h'. deleteMax h = Some h' \<and> sz h' = sz h - 1 \<and> heap_from 0 (sz h - 1) (store h') \<and>
    permuted (sz h) (store h) (store h') \<and> drop (sz h - 1) (store h') = store h ! 0 # drop (sz h) (store h)"
proof -
  let ?m = "sz h - 1" and ?xs = "store h"
  let ?ys = "?xs[0 := ?xs ! ?m, ?m := ?xs ! 0]"
  let ?h = "(count_swap (h\<lparr>store := ?ys\<rparr>))\<lparr>sz := ?m\<rparr>"
  have "?xs \<noteq> []" "?m < length ?xs" using m by auto
  then have e: "deleteMax h = heapify 0 ?h" using m by (simp add: deleteMax_def swap_elems_def count_swap_def)
  have "near 0 ?m 0 ?ys"
    using heap m unfolding near_def heap_from_def kids_def left_def right_def by (auto simp: nth_list_update)
  then obtain h' where h': "heapify 0 ?h = Some h'" "sz h' = ?m" "heap_from 0 ?m (store h')" "permuted ?m ?ys (store h')"
    using heapify_near[of 0 ?h 0] \<open>?m < length ?xs\<close> by (auto simp: count_swap_def)
  have "permuted (sz h) ?xs ?ys" by (rule permuted_swap) (use m in auto)
  then have p: "permuted (sz h) ?xs (store h')" using permuted_mono[OF h'(4)] permuted_trans by simp
  have "drop ?m ?ys = ?ys ! ?m # drop (Suc ?m) ?ys" by (rule Cons_nth_drop_Suc[symmetric]) (use \<open>?m < length ?xs\<close> in simp)
  then have "drop ?m ?ys = ?xs ! 0 # drop (sz h) ?xs" using m by (simp del: drop_update_swap)
  then have "drop ?m (store h') = ?xs ! 0 # drop (sz h) ?xs" using h'(4) by (simp add: permuted_def)
  then show ?thesis unfolding e using h' p by blast
qed

lemma drain_sorts:
  assumes "heap_from 0 (sz h) (store h)" "sz h \<le> n" "n \<le> length (store h)"
    and "sorted (drop (sz h) (take n (store h)))"
    and "\<And>x y. x \<in> set (take (sz h) (store h)) \<Longrightarrow> y \<in> set (drop (sz h) (take n (store h))) \<Longrightarrow> x \<le> y"
  shows "\<exists>h'. drain h = Some h' \<and> sz h' = 0 \<and> permuted n (store h) (store h') \<and> sorted (take n (store h'))"
  using assms
proof (induction "sz h" arbitrary: h)
  case 0
  then show ?case by (simp add: drain.simps[of h])
next
  case (Suc m)
  let ?xs = "store h"
  have m: "sz h = Suc m" "sz h - 1 = m" using Suc.hyps(2) by simp_all
  obtain h' where h': "deleteMax h = Some h'" "sz h' = m" "heap_from 0 m (store h')" "permuted (Suc m) ?xs (store h')"
    "drop m (store h') = ?xs ! 0 # drop (Suc m) ?xs"
    using deleteMax_heap[OF Suc.prems(1)] Suc.prems(2,3) m by auto
  have len: "length (store h') = length ?xs" and ms: "mset (take (Suc m) (store h')) = mset (take (Suc m) ?xs)"
    using h'(4) by (simp_all add: permuted_def)
  have mn: "m < n" using Suc.prems(2) m(1) by simp
  then obtain k where k: "n = m + Suc k" by (metis less_imp_Suc_add add_Suc_right)
  have d: "drop m (take n (store h')) = ?xs ! 0 # drop (Suc m) (take n ?xs)"
    by (simp only: drop_take h'(5)) (simp add: k)
  have "set (take m (store h')) \<subseteq> set (take (Suc m) (store h'))" by (rule set_take_subset_set_take) simp
  also have "\<dots> = set (take (Suc m) ?xs)" using ms by (metis set_mset_mset)
  finally have sub: "set (take m (store h')) \<subseteq> set (take (Suc m) ?xs)" .
  have root: "x \<le> ?xs ! 0" if "x \<in> set (take (Suc m) ?xs)" for x
    using that heap_root[OF Suc.prems(1)] m(1) by (auto simp: in_set_conv_nth)
  have x0: "?xs ! 0 \<in> set (take (Suc m) ?xs)" using Suc.prems(2,3) m(1) by (cases ?xs) auto
  have le: "x \<le> y" if "x \<in> set (take (Suc m) ?xs)" "y \<in> set (drop (Suc m) (take n ?xs))" for x y
    using Suc.prems(5) that unfolding m(1) by blast
  have "\<exists>h''. drain h' = Some h'' \<and> sz h'' = 0 \<and> permuted n (store h') (store h'') \<and> sorted (take n (store h''))"
  proof (rule Suc.hyps(1))
    show "sorted (drop (sz h') (take n (store h')))" using Suc.prems(4) le[OF x0] unfolding h'(2) d m(1) by simp
    show "x \<le> y" if "x \<in> set (take (sz h') (store h'))" "y \<in> set (drop (sz h') (take n (store h')))" for x y
      using that sub le root unfolding h'(2) d by auto
  qed (use h' len mn Suc.prems(3) in auto)
  moreover have "permuted n ?xs (store h')" using permuted_mono[OF h'(4)] mn by simp
  moreover have "drain h = drain h'" using m h'(1) by (simp add: drain.simps[of h])
  ultimately show ?case using permuted_trans by fastforce
qed

text \<open>C32: \<open>heapSort\<close> always ends, empties the heap, leaves its elements in the array in ascending order
  and does not touch the rest of the array.\<close>

theorem heapSort_sorts:
  assumes "sz h \<le> length (store h)"
  shows "\<exists>h'. heapSort h = Some h' \<and> sz h' = 0 \<and>
    store h' = sort (take (sz h) (store h)) @ drop (sz h) (store h)"
proof -
  obtain h1 where h1: "buildHeap h = Some h1" "sz h1 = sz h" "heap_from 0 (sz h) (store h1)" "permuted (sz h) (store h) (store h1)"
    using buildHeap_heap[OF assms] by blast
  have len: "length (store h1) = length (store h)" using h1(4) by (simp add: permuted_def)
  obtain h' where h': "drain h1 = Some h'" "sz h' = 0" "permuted (sz h) (store h1) (store h')" "sorted (take (sz h) (store h'))"
    using drain_sorts[of h1 "sz h"] h1(2,3) len assms by auto
  have p: "permuted (sz h) (store h) (store h')" using permuted_trans[OF h1(4) h'(3)] .
  then have "take (sz h) (store h') = sort (take (sz h) (store h))"
    using h'(4) by (intro properties_for_sort[symmetric]) (simp_all add: permuted_def)
  moreover have "store h' = take (sz h) (store h') @ drop (sz h) (store h')" by simp
  ultimately show ?thesis using h1(1) h' p by (auto simp: heapSort_def permuted_def)
qed

theorem heapSort_sorts_witness:
  "\<exists>h'. heapSort \<lparr>store = [3, 1, 4, 1, 5, 9], sz = 5, swap_count = 0\<rparr> = Some h' \<and> store h' = [1, 1, 3, 4, 5, 9]"
  using heapSort_sorts[of "\<lparr>store = [3, 1, 4, 1, 5, 9], sz = 5, swap_count = 0\<rparr>"] by (auto simp: eval_nat_numeral)

section \<open>Insertion\<close>

text \<open>The heap order except that \<open>t\<close> may be larger than its parent, though not too small for its
  grandparent's sake.\<close>

definition rising :: "nat \<Rightarrow> nat \<Rightarrow> int list \<Rightarrow> bool" where
  "rising n t xs \<longleftrightarrow>
     (\<forall>j. \<forall>c\<in>kids j. c \<noteq> t \<longrightarrow> c < n \<longrightarrow> xs ! c \<le> xs ! j) \<and>
     (\<forall>j. t \<in> kids j \<longrightarrow> (\<forall>c\<in>kids t. c < n \<longrightarrow> xs ! c \<le> xs ! j))"

lemma sift_up_heap:
  assumes "rising (sz h) t (store h)" "t < sz h" "sz h \<le> length (store h)"
  shows "\<exists>h'. sift_up t h = Some h' \<and> sz h' = sz h \<and> heap_from 0 (sz h) (store h') \<and> permuted (sz h) (store h) (store h')"
  using assms
proof (induction t h rule: sift_up.induct)
  case (1 t h)
  let ?xs = "store h" and ?p = "(t - 1) div 2"
  show ?case
  proof (cases "t = 0")
    case True
    then have "heap_from 0 (sz h) ?xs"
      using "1.prems"(1) kids_less unfolding rising_def heap_from_def by (metis less_nat_zero_code)
    then show ?thesis using True by (simp add: sift_up.simps[of 0 h])
  next
    case t: False
    have p: "nat (parent (int t)) = ?p" using parent_div t by simp
    have pt: "?p < t" "t \<in> kids ?p" using t by (auto simp: kids_def left_def right_def)
    show ?thesis
    proof (cases "?xs ! ?p < ?xs ! t")
      case False
      have "heap_from 0 (sz h) ?xs"
        using "1.prems"(1) False pt(2) kids_inj unfolding rising_def heap_from_def by (metis linorder_not_less)
      then show ?thesis using "1.prems" False t p by (simp add: sift_up.simps[of t h] Let_def)
    next
      case True
      let ?ys = "?xs[?p := ?xs ! t, t := ?xs ! ?p]"
      let ?h = "count_swap (h\<lparr>store := ?ys\<rparr>)"
      have s: "swap_elems ?p t h = Some (h\<lparr>store := ?ys\<rparr>)" using pt "1.prems"(2,3) by (simp add: swap_elems_def)
      have ys: "?ys ! ?p = ?xs ! t" "?ys ! t = ?xs ! ?p" "\<And>c. c \<noteq> ?p \<Longrightarrow> c \<noteq> t \<Longrightarrow> ?ys ! c = ?xs ! c"
        using pt(1) "1.prems"(2,3) by auto
      note r = "1.prems"(1)[unfolded rising_def]
      have "rising (sz h) ?p ?ys"
        unfolding rising_def
      proof (intro conjI allI ballI impI)
        fix j c assume a: "c \<in> kids j" "c \<noteq> ?p" "c < sz h"
        show "?ys ! c \<le> ?ys ! j"
        proof (cases "j = ?p")
          case j: True
          then have "?ys ! c \<le> ?xs ! t"
          proof (cases "c = t")
            case False
            then have "?xs ! c \<le> ?xs ! ?p" using r a j by blast
            then show ?thesis using ys(3)[of c] a(2) False True by simp
          qed (use ys(2) True in simp)
          then show ?thesis using j ys(1) by simp
        next
          case False
          then have "c \<noteq> t" using a(1) pt(2) kids_inj by blast
          then show ?thesis using a r False ys pt(2) by (cases "j = t") auto
        qed
      next
        fix j c assume a: "?p \<in> kids j" "c \<in> kids ?p" "c < sz h"
        have "j < ?p" "?p < c" using a(1,2) kids_less by blast+
        have g: "?xs ! ?p \<le> ?xs ! j" using r a(1) pt(1) "1.prems"(2) by fastforce
        have "?ys ! c \<le> ?xs ! ?p"
        proof (cases "c = t")
          case False
          then have "?xs ! c \<le> ?xs ! ?p" using r a(2,3) by blast
          then show ?thesis using ys(3)[of c] False \<open>?p < c\<close> by simp
        qed (use ys(2) in simp)
        moreover have "?ys ! j = ?xs ! j" using ys(3)[of j] \<open>j < ?p\<close> pt(1) by simp
        ultimately show "?ys ! c \<le> ?ys ! j" using g by simp
      qed
      then have "\<exists>h'. sift_up ?p ?h = Some h' \<and> sz h' = sz ?h \<and> heap_from 0 (sz ?h) (store h') \<and> permuted (sz ?h) (store ?h) (store h')"
        using "1.IH"[OF t _ p[symmetric], of "h\<lparr>store := ?ys\<rparr>"] s True pt "1.prems"(2,3) by (simp add: count_swap_def)
      moreover have "sift_up t h = sift_up ?p ?h"
        using s True t p "1.prems"(2,3) by (simp add: sift_up.simps[of t h] Let_def)
      moreover have "permuted (sz h) ?xs ?ys" by (rule permuted_swap) (use pt "1.prems"(2,3) in auto)
      ultimately show ?thesis by (auto simp: count_swap_def intro: permuted_trans)
    qed
  qed
qed


text \<open>With an \<open>append\<close> that puts the element behind the heap, \<open>insert\<close> keeps the heap order.\<close>

lemma insert_keeps_heap:
  assumes heap: "heap_from 0 (sz h) (store h)" and "sz h \<le> length (store h)"
    and app: "\<And>v h. app v h = h\<lparr>store := take (sz h) (store h) @ [v], sz := sz h + 1\<rparr>"
  shows "\<exists>h'. insert_elem app v h = Some h' \<and> sz h' = sz h + 1 \<and> heap_from 0 (sz h + 1) (store h') \<and>
    mset (store h') = mset (take (sz h) (store h)) + {#v#}"
proof -
  let ?h = "app v h"
  have h: "sz ?h = sz h + 1" "length (store ?h) = sz h + 1" using assms(2) by (simp_all add: app)
  have nth: "store ?h ! c = store h ! c" if "c < sz h" for c using that assms(2) by (simp add: app nth_append)
  have "rising (sz ?h) (sz h) (store ?h)"
    unfolding rising_def h
  proof (intro conjI allI ballI impI)
    fix j c assume "c \<in> kids j" "c \<noteq> sz h" "c < sz h + 1"
    then show "store ?h ! c \<le> store ?h ! j"
      using heap nth[of c] nth[of j] kids_less[of c j] unfolding heap_from_def by simp
  qed (use kids_less in fastforce)
  then obtain h' where h': "sift_up (sz h) ?h = Some h'" "sz h' = sz h + 1" "heap_from 0 (sz h + 1) (store h')"
    "permuted (sz h + 1) (store ?h) (store h')"
    using sift_up_heap[of ?h "sz h"] h by auto
  then have "mset (store h') = mset (store ?h)" using h(2) by (metis permuted_def take_all order_refl)
  then show ?thesis using h' h by (auto simp: insert_elem_def Let_def app)
qed

end
