(* ===== verification/Posters.thy ===== *)
theory Posters
  imports "HOL-Library.Multiset"
begin

text \<open>
  The poster program of DAA/22b0944.cpp: the merge sort of the posters by their left end and the
  length of wall they cover.  A poster is the pair of the top corners of a trapezium.  The coordinates
  are \<open>float\<close>s in the program; here they are of any ordered type for the sorting, which only compares
  them, and of any ordered ring for the length, whose results are stated for whole numbers, where
  \<open>float\<close> arithmetic is exact (below \<open>2 ^ 24\<close>).  The outline and its area are not modelled.
\<close>

record 'c point =
  X :: 'c
  Y :: 'c

type_synonym 'c poster = "'c point \<times> 'c point"

section \<open>Sorting\<close>

text \<open>The two copying loops at the end of \<open>merge\<close> are the same loop on \<open>L\<close> and on \<open>R\<close>.\<close>

function copy_rest :: "'c poster list \<Rightarrow> nat \<Rightarrow> nat \<Rightarrow> 'c poster list \<Rightarrow> 'c poster list \<times> nat" where
  "copy_rest L i k posters =
     (if i < length L then copy_rest L (i + 1) (k + 1) (posters[k := L ! i]) else (posters, k))"
  by pat_completeness auto
termination by (relation "measure (\<lambda>(L, i, _). length L - i)") auto

function merge_loop ::
    "('c::linorder) poster list \<Rightarrow> 'c poster list \<Rightarrow> nat \<Rightarrow> nat \<Rightarrow> nat \<Rightarrow> 'c poster list \<Rightarrow> 'c poster list" where
  "merge_loop L R i j k posters =
     (if i < length L \<and> j < length R then
        if X (fst (L ! i)) \<le> X (fst (R ! j))
        then merge_loop L R (i + 1) j (k + 1) (posters[k := L ! i])
        else merge_loop L R i (j + 1) (k + 1) (posters[k := R ! j])
      else
        let (posters, k) = copy_rest L i k posters;
            (posters, k) = copy_rest R j k posters in
        posters)"
  by pat_completeness auto
termination by (relation "measure (\<lambda>(L, R, i, j, _). (length L - i) + (length R - j))") auto

definition merge :: "('c::linorder) poster list \<Rightarrow> int \<Rightarrow> int \<Rightarrow> int \<Rightarrow> 'c poster list" where
  "merge posters low mid high =
     (let n1 = nat (mid - low + 1);
          n2 = nat (high - mid);
          L = map (\<lambda>i. posters ! (nat low + i)) [0..<n1];
          R = map (\<lambda>j. posters ! (nat (mid + 1) + j)) [0..<n2] in
      merge_loop L R 0 0 (nat low) posters)"

function merge_sort :: "('c::linorder) poster list \<Rightarrow> int \<Rightarrow> int \<Rightarrow> 'c poster list" where
  "merge_sort posters low high =
     (if low < high then
        let mid = low + (high - low) div 2;
            posters = merge_sort posters low mid;
            posters = merge_sort posters (mid + 1) high in
        merge posters low mid high
      else posters)"
  by pat_completeness auto
termination by (relation "measure (\<lambda>(_, low, high). nat (high - low))") auto

declare copy_rest.simps [simp del] merge_loop.simps [simp del] merge_sort.simps [simp del]

section \<open>The length covered\<close>

text \<open>The loop of \<open>find_length\<close> from \<open>i\<close> on; \<open>start\<close> and \<open>end\<close> bound the run of overlapping posters.\<close>

function length_loop ::
    "('c::linordered_idom) poster list \<Rightarrow> nat \<Rightarrow> nat \<Rightarrow> 'c \<Rightarrow> 'c \<Rightarrow> 'c \<Rightarrow> 'c" where
  "length_loop posters n i len start stop =
     (if i < n then
        if X (fst (posters ! i)) \<le> stop then
          let stop = max stop (X (snd (posters ! i))) in
          length_loop posters n (i + 1) (if i = n - 1 then len + (stop - start) else len) start stop
        else
          let len = len + (stop - start);
              start = X (fst (posters ! i));
              stop = X (snd (posters ! i)) in
          length_loop posters n (i + 1) (if i = n - 1 then len + (stop - start) else len) start stop
      else len)"
  by pat_completeness auto
termination by (relation "measure (\<lambda>(_, n, i, _). n - i)") auto

declare length_loop.simps [simp del]

definition find_length :: "('c::linordered_idom) poster list \<Rightarrow> nat \<Rightarrow> 'c" where
  "find_length posters n = length_loop posters n 1 0 (X (fst (posters ! 0))) (X (snd (posters ! 0)))"

text \<open>What \<open>main\<close> computes from the posters it has read.\<close>

definition lengthCovered :: "('c::linordered_idom) poster list \<Rightarrow> 'c" where
  "lengthCovered posters =
     (let n = length posters; posters = merge_sort posters 0 (int n - 1) in find_length posters n)"

section \<open>merge_sort is the stable sort by the left end\<close>

abbreviation left_end :: "'c poster \<Rightarrow> 'c" where
  "left_end p \<equiv> X (fst p)"

text \<open>The merge of two lists, the left one first on ties.\<close>

fun merged :: "('c::linorder) poster list \<Rightarrow> 'c poster list \<Rightarrow> 'c poster list" where
  "merged (x # xs) (y # ys) =
     (if left_end x \<le> left_end y then x # merged xs (y # ys) else y # merged (x # xs) ys)"
| "merged [] ys = ys"
| "merged xs [] = xs"

lemma merged_Nil [simp]: "merged xs [] = xs"
  by (cases xs) simp_all

lemma mset_merged [simp]: "mset (merged xs ys) = mset xs + mset ys"
  by (induction xs ys rule: merged.induct) auto

lemma length_merged [simp]: "length (merged xs ys) = length xs + length ys"
  by (metis mset_merged mset_append size_mset length_append)

lemma set_merged [simp]: "set (merged xs ys) = set xs \<union> set ys"
  by (metis mset_merged mset_append set_mset_mset set_append)

lemma sorted_merged:
  "sorted (map left_end xs) \<Longrightarrow> sorted (map left_end ys) \<Longrightarrow> sorted (map left_end (merged xs ys))"
  by (induction xs ys rule: merged.induct) (auto simp: less_le_trans less_imp_le)

lemma filter_merged:
  assumes "sorted (map left_end xs)" "sorted (map left_end ys)"
  shows "filter (\<lambda>p. left_end p = c) (merged xs ys) = filter (\<lambda>p. left_end p = c) xs @ filter (\<lambda>p. left_end p = c) ys"
  using assms
proof (induction xs ys rule: merged.induct)
  case (1 x xs y ys)
  have none: "filter (\<lambda>p. left_end p = c) (x # xs) = []" if "left_end y = c" "left_end y < left_end x"
    using that "1.prems"(1) by (auto simp: filter_empty_conv)
  show ?case
  proof (cases "left_end x \<le> left_end y")
    case True
    then show ?thesis using 1 by simp
  next
    case False
    then show ?thesis using 1 none by (cases "left_end y = c") auto
  qed
qed simp_all

lemma merged_sort_key: "merged (sort_key left_end xs) (sort_key left_end ys) = sort_key left_end (xs @ ys)"
proof (rule properties_for_sort_key[symmetric])
  show "filter (\<lambda>p. left_end q = left_end p) (merged (sort_key left_end xs) (sort_key left_end ys)) =
    filter (\<lambda>p. left_end q = left_end p) (xs @ ys)" for q
    using filter_merged[of "sort_key left_end xs" "sort_key left_end ys" "left_end q"]
    by (simp add: sort_key_stable eq_commute[of "left_end q"])
qed (simp_all add: sorted_merged)


text \<open>Overwriting an array from \<open>k\<close> on.\<close>

definition write_at :: "nat \<Rightarrow> 'b list \<Rightarrow> 'b list \<Rightarrow> 'b list" where
  "write_at k ys xs = take k xs @ ys @ drop (k + length ys) xs"

lemma length_write_at [simp]: "k + length ys \<le> length xs \<Longrightarrow> length (write_at k ys xs) = length xs"
  by (simp add: write_at_def)

lemma write_at_Nil [simp]: "write_at k [] xs = xs"
  by (simp add: write_at_def)

lemma write_at_Cons: "k < length xs \<Longrightarrow> write_at (Suc k) ys (xs[k := y]) = write_at k (y # ys) xs"
  by (simp add: write_at_def take_Suc_conv_app_nth)

lemma write_at_append:
  "k + length ys \<le> length xs \<Longrightarrow> write_at (k + length ys) zs (write_at k ys xs) = write_at k (ys @ zs) xs"
  by (simp add: write_at_def add.commute add.left_commute)

lemma copy_rest_eq:
  assumes "i \<le> length L" "k + (length L - i) \<le> length xs"
  shows "copy_rest L i k xs = (write_at k (drop i L) xs, k + (length L - i))"
  using assms
proof (induction L i k xs rule: copy_rest.induct)
  case (1 L i k xs)
  show ?case
  proof (cases "i < length L")
    case True
    then show ?thesis using 1
      by (subst copy_rest.simps) (simp add: write_at_Cons Cons_nth_drop_Suc)
  qed (use 1 in \<open>simp add: copy_rest.simps\<close>)
qed

lemma merge_loop_eq:
  assumes "i \<le> length L" "j \<le> length R" "k + (length L - i) + (length R - j) \<le> length xs"
  shows "merge_loop L R i j k xs = write_at k (merged (drop i L) (drop j R)) xs"
  using assms
proof (induction L R i j k xs rule: merge_loop.induct)
  case (1 L R i j k xs)
  show ?case
  proof (cases "i < length L \<and> j < length R")
    case True
    then have d: "drop i L = L ! i # drop (Suc i) L" "drop j R = R ! j # drop (Suc j) R"
      by (simp_all add: Cons_nth_drop_Suc)
    show ?thesis
    proof (cases "left_end (L ! i) \<le> left_end (R ! j)")
      case le: True
      then have "merge_loop L R i j k xs = merge_loop L R (i + 1) j (k + 1) (xs[k := L ! i])"
        using True by (subst merge_loop.simps) simp
      moreover have "k + 1 + (length L - (i + 1)) + (length R - j) \<le> length (xs[k := L ! i])"
        using 1(5) True unfolding length_list_update by linarith
      moreover have "k < length xs" using 1(5) True by linarith
      ultimately show ?thesis using 1(1)[OF True le] True le by (simp add: write_at_Cons d)
    next
      case gt: False
      then have "merge_loop L R i j k xs = merge_loop L R i (j + 1) (k + 1) (xs[k := R ! j])"
        using True by (subst merge_loop.simps) simp
      moreover have "k + 1 + (length L - i) + (length R - (j + 1)) \<le> length (xs[k := R ! j])"
        using 1(5) True unfolding length_list_update by linarith
      moreover have "k < length xs" using 1(5) True by linarith
      ultimately show ?thesis using 1(2)[OF True gt] True gt by (simp add: write_at_Cons d)
    qed
  next
    case False
    then have e: "drop i L = [] \<or> drop j R = []" using 1(3,4) by auto
    have "merge_loop L R i j k xs =
      (let (posters, k) = copy_rest L i k xs; (posters, k) = copy_rest R j k posters in posters)"
      by (subst merge_loop.simps) (rule if_not_P[OF False])
    moreover have "copy_rest L i k xs = (write_at k (drop i L) xs, k + (length L - i))"
      by (rule copy_rest_eq[OF 1(3)]) (use 1(5) in linarith)
    moreover have "copy_rest R j (k + (length L - i)) (write_at k (drop i L) xs) =
      (write_at (k + (length L - i)) (drop j R) (write_at k (drop i L) xs), k + (length L - i) + (length R - j))"
      by (rule copy_rest_eq[OF 1(4)]) (use 1(5) in \<open>subst length_write_at; simp\<close>)
    ultimately have "merge_loop L R i j k xs = write_at (k + (length L - i)) (drop j R) (write_at k (drop i L) xs)"
      by simp
    also have "\<dots> = write_at k (drop i L @ drop j R) xs" using write_at_append[of k "drop i L" xs] 1(5) by simp
    finally show ?thesis using e by auto
  qed
qed


definition seg :: "'b list \<Rightarrow> nat \<Rightarrow> nat \<Rightarrow> 'b list" where
  "seg xs a b = take (b - a) (drop a xs)"

lemma length_seg [simp]: "b \<le> length xs \<Longrightarrow> length (seg xs a b) = b - a"
  by (simp add: seg_def)

lemma seg_append:
  assumes "a \<le> b" "b \<le> c"
  shows "seg xs a b @ seg xs b c = seg xs a c"
proof -
  have "c - a = (b - a) + (c - b)" "b = (b - a) + a" using assms by simp_all
  then have "take (c - a) (drop a xs) = take (b - a) (drop a xs) @ take (c - b) (drop b xs)"
    by (metis take_add drop_drop)
  then show ?thesis by (simp add: seg_def)
qed

lemma seg_write_at:
  assumes "k + length ys \<le> length xs"
  shows "seg (write_at k ys xs) k (k + length ys) = ys"
    and "b \<le> k \<Longrightarrow> seg (write_at k ys xs) a b = seg xs a b"
    and "k + length ys \<le> a \<Longrightarrow> seg (write_at k ys xs) a b = seg xs a b"
proof -
  show "seg (write_at k ys xs) k (k + length ys) = ys" using assms by (simp add: seg_def write_at_def)
  show "seg (write_at k ys xs) a b = seg xs a b" if "b \<le> k"
    by (rule nth_equalityI) (use that assms in \<open>simp_all add: seg_def write_at_def nth_append\<close>)
  have "drop a (write_at k ys xs) = drop a xs" if "k + length ys \<le> a"
    using that assms by (simp add: write_at_def)
  then show "k + length ys \<le> a \<Longrightarrow> seg (write_at k ys xs) a b = seg xs a b" by (simp add: seg_def)
qed

lemma write_at_write_at:
  "k + length ys \<le> length xs \<Longrightarrow> length zs = length ys \<Longrightarrow> write_at k zs (write_at k ys xs) = write_at k zs xs"
  by (simp add: write_at_def)

lemma map_seg: "a + n \<le> length xs \<Longrightarrow> map (\<lambda>i. xs ! (a + i)) [0..<n] = seg xs a (a + n)"
  by (rule nth_equalityI) (simp_all add: seg_def)

lemma merge_eq:
  assumes "l \<le> m" "m < h" "h < length xs"
  shows "merge xs (int l) (int m) (int h) = write_at l (merged (seg xs l (m + 1)) (seg xs (m + 1) (h + 1))) xs"
proof -
  have n: "nat (int m - int l + 1) = m + 1 - l" "nat (int h - int m) = h - m" "nat (int m + 1) = m + 1"
    using assms by auto
  have "map (\<lambda>i. xs ! (l + i)) [0..<m + 1 - l] = seg xs l (m + 1)"
    using map_seg[of l "m + 1 - l" xs] assms by simp
  moreover have "map (\<lambda>i. xs ! (m + 1 + i)) [0..<h - m] = seg xs (m + 1) (h + 1)"
    using map_seg[of "m + 1" "h - m" xs] assms by simp
  ultimately have "merge xs (int l) (int m) (int h) = merge_loop (seg xs l (m + 1)) (seg xs (m + 1) (h + 1)) 0 0 l xs"
    by (simp only: merge_def Let_def n nat_int)
  also have "\<dots> = write_at l (merged (drop 0 (seg xs l (m + 1))) (drop 0 (seg xs (m + 1) (h + 1)))) xs"
    by (rule merge_loop_eq) (use assms in simp_all)
  finally show ?thesis by simp
qed

lemma merge_sort_eq:
  assumes "l \<le> h" "h < length xs"
  shows "merge_sort xs (int l) (int h) = write_at l (sort_key left_end (seg xs l (h + 1))) xs"
  using assms
proof (induction "h - l" arbitrary: l h xs rule: less_induct)
  case less
  show ?case
  proof (cases "l = h")
    case True
    have "seg xs l (h + 1) = [xs ! l]" using less.prems True by (simp add: seg_def take_Suc_conv_app_nth hd_drop_conv_nth)
    then show ?thesis using True less.prems
      by (simp add: merge_sort.simps write_at_def Cons_nth_drop_Suc)
  next
    case False
    let ?m = "l + (h - l) div 2"
    have m: "l \<le> ?m" "?m < h" using False less.prems by auto
    have mid: "int l + (int h - int l) div 2 = int ?m" "int ?m + 1 = int (?m + 1)"
      using less.prems by (simp_all add: of_nat_diff zdiv_int)
    let ?A = "sort_key left_end (seg xs l (?m + 1))" and ?B = "sort_key left_end (seg xs (?m + 1) (h + 1))"
    let ?xs1 = "write_at l ?A xs"
    let ?xs2 = "write_at (?m + 1) ?B ?xs1"
    have la: "l + length ?A = ?m + 1" and lb: "?m + 1 + length ?B = h + 1" using m less.prems by simp_all
    have len1: "length ?xs1 = length xs" by (rule length_write_at) (use la m less.prems in linarith)
    have len2: "length ?xs2 = length xs" unfolding len1[symmetric] by (rule length_write_at) (use lb len1 less.prems in linarith)
    have s1: "merge_sort xs (int l) (int ?m) = ?xs1" by (rule less.hyps) (use m less.prems in auto)
    have B: "seg ?xs1 (?m + 1) (h + 1) = seg xs (?m + 1) (h + 1)"
      by (rule seg_write_at(3)) (use la m less.prems in linarith)+
    have s2: "merge_sort ?xs1 (int (?m + 1)) (int h) = ?xs2"
      unfolding B[symmetric] by (rule less.hyps) (use m less.prems len1 in auto)
    have "seg ?xs2 l (?m + 1) = seg ?xs1 l (?m + 1)"
      by (rule seg_write_at(2)) (use lb len1 less.prems in auto)
    also have "\<dots> = ?A" using seg_write_at(1)[of l ?A xs] la m less.prems by simp
    finally have s3: "seg ?xs2 l (?m + 1) = ?A" .
    have s4: "seg ?xs2 (?m + 1) (h + 1) = ?B" using seg_write_at(1)[of "?m + 1" ?B ?xs1] lb len1 less.prems by simp
    have "merge_sort xs (int l) (int h) = merge ?xs2 (int l) (int ?m) (int h)"
      using False less.prems by (subst merge_sort.simps) (simp only: Let_def mid s1 s2, simp)
    also have "\<dots> = write_at l (merged ?A ?B) ?xs2"
      using merge_eq[OF m, of ?xs2] len2 less.prems s3 s4 by simp
    also have "merged ?A ?B = sort_key left_end (seg xs l (h + 1))"
      unfolding merged_sort_key using seg_append[of l "?m + 1" "h + 1" xs] m by simp
    also have "write_at l (sort_key left_end (seg xs l (h + 1))) ?xs2 = write_at l (sort_key left_end (seg xs l (h + 1))) xs"
      using write_at_append[of l ?A xs ?B] write_at_write_at[of l "?A @ ?B" xs] la lb m less.prems by simp
    finally show ?thesis .
  qed
qed

text \<open>\<open>merge_sort\<close> on all the posters is the stable sort by the left end: it ends, permutes the
  posters into ascending order, and leaves posters with the same left end in the order they were in.\<close>

theorem merge_sort_stable: "merge_sort posters 0 (int (length posters) - 1) = sort_key left_end posters"
proof (cases "posters = []")
  case True
  then show ?thesis by (simp add: merge_sort.simps)
next
  case False
  then have n: "int (length posters) - 1 = int (length posters - 1)" "length posters - 1 + 1 = length posters"
    by (cases posters; simp)+
  have "merge_sort posters (int 0) (int (length posters - 1)) = write_at 0 (sort_key left_end (seg posters 0 (length posters))) posters"
    using merge_sort_eq[of 0 "length posters - 1" posters] False unfolding n(2) by (cases posters) simp_all
  then show ?thesis unfolding n(1) by (simp add: seg_def write_at_def)
qed


section \<open>find_length measures the union\<close>

text \<open>The whole-number cells of wall under some poster.\<close>

definition covered :: "int poster list \<Rightarrow> int set" where
  "covered ps = (\<Union>p\<in>set ps. {left_end p..<X (snd p)})"

lemma covered_simps [simp]: "covered [] = {}" "covered (ps @ qs) = covered ps \<union> covered qs" "covered [p] = {left_end p..<X (snd p)}"
  by (auto simp: covered_def)

lemma finite_covered [simp]: "finite (covered ps)"
  by (simp add: covered_def)

text \<open>
  The posters read so far cover \<open>len\<close> cells left of \<open>start\<close>, and from \<open>start\<close> on just the cells up
  to \<open>stop\<close>.
\<close>

definition run_inv :: "int poster list \<Rightarrow> int \<Rightarrow> int \<Rightarrow> int \<Rightarrow> bool" where
  "run_inv ps len start stop \<longleftrightarrow> start \<le> stop \<and>
     int (card (covered ps \<inter> {..<start})) = len \<and> covered ps \<inter> {start..} = {start..<stop}"

lemma run_inv_total:
  assumes "run_inv ps len start stop"
  shows "int (card (covered ps)) = len + (stop - start)"
proof -
  have "covered ps = (covered ps \<inter> {..<start}) \<union> (covered ps \<inter> {start..})" by auto
  then have "card (covered ps) = card (covered ps \<inter> {..<start}) + card (covered ps \<inter> {start..})"
    by (metis card_Un_disjoint finite_Int finite_covered disjoint_iff Int_iff atLeast_iff lessThan_iff not_less)
  then show ?thesis using assms by (simp add: run_inv_def)
qed

lemma run_inv_join:
  assumes "run_inv ps len start stop" "start \<le> left_end p" "left_end p \<le> stop" "left_end p \<le> X (snd p)"
  shows "run_inv (ps @ [p]) len start (max stop (X (snd p)))"
proof -
  have "covered (ps @ [p]) \<inter> {..<start} = covered ps \<inter> {..<start}" using assms(2) by auto
  moreover have "covered (ps @ [p]) \<inter> {start..} = (covered ps \<inter> {start..}) \<union> {left_end p..<X (snd p)}"
    using assms(2) by auto
  moreover have "{start..<stop} \<union> {left_end p..<X (snd p)} = {start..<max stop (X (snd p))}"
    using assms(2-4) by auto
  ultimately show ?thesis using assms(1) by (simp add: run_inv_def max_def)
qed

lemma run_inv_new:
  assumes "run_inv ps len start stop" "stop < left_end p" "left_end p \<le> X (snd p)"
  shows "run_inv (ps @ [p]) (len + (stop - start)) (left_end p) (X (snd p))"
proof -
  have c: "x < stop" if "x \<in> covered ps" for x
    using that assms(1) by (cases "start \<le> x") (auto simp: run_inv_def)
  have "covered (ps @ [p]) \<inter> {..<left_end p} = covered ps" using c assms(2) by fastforce
  moreover have "covered (ps @ [p]) \<inter> {left_end p..} = {left_end p..<X (snd p)}" using c assms(2) by fastforce
  ultimately show ?thesis using run_inv_total[OF assms(1)] assms(3) by (simp add: run_inv_def)
qed

lemma length_loop_covered:
  assumes "run_inv (take i ps) len start stop" "1 \<le> i" "i < n" "n = length ps"
    and "sorted (map left_end ps)" "\<And>p. p \<in> set ps \<Longrightarrow> left_end p \<le> X (snd p)" "start \<le> left_end (ps ! i)"
  shows "length_loop ps n i len start stop = int (card (covered ps))"
  using assms
proof (induction ps n i len start stop rule: length_loop.induct)
  case (1 ps n i len start stop)
  let ?p = "ps ! i"
  have i: "take (i + 1) ps = take i ps @ [?p]" "left_end ?p \<le> X (snd ?p)"
    using "1.prems"(3,4,6) by (simp_all add: take_Suc_conv_app_nth)
  have next_le: "left_end ?p \<le> left_end (ps ! (i + 1))" if "i + 1 < n"
    using sorted_nth_mono[OF "1.prems"(5), of i "i + 1"] that "1.prems"(4) by simp
  have step: "length_loop ps n (i + 1) (if i = n - 1 then l + (e - s) else l) s e = int (card (covered ps))"
    if inv: "run_inv (take (i + 1) ps) l s e" and s: "s \<le> left_end ?p"
      and IH: "i + 1 < n \<Longrightarrow> s \<le> left_end (ps ! (i + 1)) \<Longrightarrow> length_loop ps n (i + 1) l s e = int (card (covered ps))" for l s e
  proof (cases "i + 1 < n")
    case True
    then show ?thesis using IH[OF True] next_le[OF True] s by auto
  next
    case False
    then have "i + 1 = n" using "1.prems"(3) by simp
    then have "take (i + 1) ps = ps" "length_loop ps n (i + 1) k s e = k" for k
      using "1.prems"(4) by (simp_all add: length_loop.simps)
    then show ?thesis using run_inv_total[OF inv] \<open>i + 1 = n\<close> by auto
  qed
  show ?case
  proof (cases "left_end ?p \<le> stop")
    case True
    let ?e = "max stop (X (snd ?p))"
    have inv: "run_inv (take (i + 1) ps) len start ?e"
      unfolding i(1) by (rule run_inv_join[OF "1.prems"(1,7) True i(2)])
    have "length_loop ps n i len start stop = length_loop ps n (i + 1) (if i = n - 1 then len + (?e - start) else len) start ?e"
      using True "1.prems"(3) by (subst length_loop.simps) (simp add: Let_def)
    also have "\<dots> = int (card (covered ps))"
    proof (rule step[OF inv "1.prems"(7)])
      assume a: "i + 1 < n" "start \<le> left_end (ps ! (i + 1))"
      then have "(if i = n - 1 then len + (?e - start) else len) = len" by auto
      from "1.IH"(1)[OF "1.prems"(3) True refl, unfolded this]
      show "length_loop ps n (i + 1) len start ?e = int (card (covered ps))" using a inv "1.prems" by auto
    qed
    finally show ?thesis .
  next
    case False
    let ?l = "len + (stop - start)" and ?s = "left_end ?p" and ?e = "X (snd ?p)"
    have inv: "run_inv (take (i + 1) ps) ?l ?s ?e"
      unfolding i(1) by (rule run_inv_new[OF "1.prems"(1) _ i(2)]) (use False in simp)
    have "length_loop ps n i len start stop = length_loop ps n (i + 1) (if i = n - 1 then ?l + (?e - ?s) else ?l) ?s ?e"
      using False "1.prems"(3) by (subst length_loop.simps) (simp add: Let_def)
    also have "\<dots> = int (card (covered ps))"
    proof (rule step[OF inv order_refl])
      assume a: "i + 1 < n" "?s \<le> left_end (ps ! (i + 1))"
      then have "(if i = n - 1 then ?l + (?e - ?s) else ?l) = ?l" by auto
      from "1.IH"(2)[OF "1.prems"(3) False refl refl refl, unfolded this]
      show "length_loop ps n (i + 1) ?l ?s ?e = int (card (covered ps))" using a inv "1.prems" by auto
    qed
    finally show ?thesis .
  qed
qed



end
