(* ===== verification/Search.thy ===== *)
theory Search
  imports Complex_Main
begin

text \<open>
  The binary search of dsa/vectors and stack/01-binary.cpp in an array in descending order.  The
  function returns the number of iterations it took, found or not.  \<open>first + last\<close> does not overflow an
  \<open>int\<close> for the array sizes in question (up to \<open>2 ^ 30\<close>), so that indices are natural numbers.
\<close>

text \<open>
  The \<open>while\<close> loop between \<open>first\<close> and \<open>last\<close>; \<open>mid\<close> is \<open>(first + last) / 2\<close> whenever the condition
  is tested.
\<close>

function search_loop :: "int list \<Rightarrow> int \<Rightarrow> nat \<Rightarrow> nat \<Rightarrow> nat \<Rightarrow> nat \<times> bool" where
  "search_loop S e lo hi iteration =
     (if lo < hi then
        let mid = (lo + hi) div 2;
            iteration = iteration + 1 in
        if S ! mid = e then (iteration, True)
        else if S ! mid < e then search_loop S e lo mid iteration
        else search_loop S e (mid + 1) hi iteration
      else (iteration, False))"
  by pat_completeness auto
termination
  by (relation "measure (\<lambda>(_, _, lo, hi, _). hi - lo)") auto

declare search_loop.simps [simp del]

text \<open>The second component says whether the loop was left by the \<open>return\<close> in its body, which also
  prints the number of iterations.\<close>

definition BinarySearch :: "int list \<Rightarrow> nat \<Rightarrow> int \<Rightarrow> nat \<times> bool" where
  "BinarySearch S n e = search_loop S e 0 n 0"

lemma search_loop_correct:
  assumes "sorted_wrt (\<lambda>x y. y \<le> x) S" "l \<le> length S" "f \<le> l"
    and "\<And>i. i < length S \<Longrightarrow> S ! i = e \<Longrightarrow> f \<le> i \<and> i < l"
    and "l - f < 2 ^ k"
  shows "snd (search_loop S e f l it) = (e \<in> set S) \<and>
    fst (search_loop S e f l it) \<le> it + k"
  using assms
proof (induction k arbitrary: f l it)
  case 0
  then have "f = l" by simp
  then have "e \<notin> set S" using "0.prems"(4) by (fastforce simp: in_set_conv_nth)
  then show ?case using \<open>f = l\<close> by (simp add: search_loop.simps)
next
  case (Suc k)
  let ?m = "(f + l) div 2"
  show ?case
  proof (cases "f = l")
    case True
    then have "e \<notin> set S" using Suc.prems(4) by (fastforce simp: in_set_conv_nth)
    then show ?thesis using True by (simp add: search_loop.simps)
  next
    case False
    then have m: "f \<le> ?m" "?m < l" "?m < length S" using Suc.prems(2,3) by auto
    have desc: "S ! j \<le> S ! i" if "i < j" "j < length S" for i j
      using Suc.prems(1) that by (auto simp: sorted_wrt_iff_nth_less)
    consider "S ! ?m = e" | "S ! ?m < e" | "e < S ! ?m" by linarith
    then show ?thesis
    proof cases
      case 1
      then have "e \<in> set S" using m(3) by (metis nth_mem)
      then show ?thesis using 1 m False by (simp add: search_loop.simps[of S e f l] Let_def)
    next
      case 2
      have e: "search_loop S e f l it = search_loop S e f ?m (it + 1)"
        using 2 m False by (subst search_loop.simps) (simp add: Let_def)
      have "f \<le> i \<and> i < ?m" if "i < length S" "S ! i = e" for i
        using Suc.prems(4)[OF that] desc[of ?m i] that 2 by (cases "i < ?m") (auto simp: not_less le_less)
      moreover have "?m - f < 2 ^ k" using Suc.prems(5) m by simp
      ultimately show ?thesis using Suc.IH[of ?m f "it + 1"] Suc.prems(1) m e by simp
    next
      case 3
      have e: "search_loop S e f l it = search_loop S e (?m + 1) l (it + 1)"
        using 3 m False by (subst search_loop.simps) (simp add: Let_def)
      have "?m + 1 \<le> i \<and> i < l" if "i < length S" "S ! i = e" for i
        using Suc.prems(4)[OF that] desc[of i ?m] m that 3 by (cases "i \<le> ?m") (auto simp: le_less)
      moreover have "l - (?m + 1) < 2 ^ k" using Suc.prems(5) m by simp
      ultimately show ?thesis using Suc.IH[of l "?m + 1" "it + 1"] Suc.prems(1,2) m e by simp
    qed
  qed
qed

text \<open>In an array in descending order the search ends within as many iterations as the length has
  binary digits, and leaves its loop by the \<open>return\<close> exactly for the elements of the array.\<close>

theorem BinarySearch_logarithmic:
  assumes "sorted_wrt (\<lambda>x y. y \<le> x) S" "length S < 2 ^ k"
  shows "snd (BinarySearch S (length S) e) = (e \<in> set S) \<and> fst (BinarySearch S (length S) e) \<le> k"
  unfolding BinarySearch_def using search_loop_correct[OF assms(1), of "length S" 0 e k 0] assms(2) by simp

theorem BinarySearch_logarithmic_witness:
  "\<not> snd (BinarySearch [9, 7, 5, 3, 1] 5 4) \<and> fst (BinarySearch [9, 7, 5, 3, 1] 5 4) \<le> 3"
  using BinarySearch_logarithmic[of "[9, 7, 5, 3, 1]" 3 4] by (simp add: eval_nat_numeral)

end
