(* ===== verification/Queues.thy ===== *)
theory Queues
  imports "HOL-Library.Word"
begin

text \<open>
  The two array queues of dsa/queues: linearQueue.cpp and circularQueue.cpp, over the class of
  queue.h.  Indices are \<open>unsigned int\<close>.  The contents of a new array are unspecified in C++; they
  are the parameter \<open>fresh\<close>.  An access outside the array is \<open>None\<close>.
\<close>

section \<open>The class\<close>

record 'a dynamic_queue =
  A :: "'a list"
  N :: "32 word"
  head :: "32 word"
  tail :: "32 word"

definition CONST_GROWTH :: "32 word" where "CONST_GROWTH = 1000"
definition INIT_SIZE :: nat where "INIT_SIZE = 1000"

definition new_array :: "(nat \<Rightarrow> 'a) \<Rightarrow> nat \<Rightarrow> 'a list" where
  "new_array fresh n = map fresh [0..<n]"

definition DynamicQueue :: "(nat \<Rightarrow> 'a) \<Rightarrow> 'a dynamic_queue" where
  "DynamicQueue fresh = \<lparr>A = new_array fresh INIT_SIZE, N = of_nat INIT_SIZE, head = 0, tail = 0\<rparr>"

definition nextSize :: "'a dynamic_queue \<Rightarrow> 32 word" where
  "nextSize q = N q + CONST_GROWTH"

definition put_at :: "32 word \<Rightarrow> 'a \<Rightarrow> 'a list \<Rightarrow> 'a list option" where
  "put_at i x xs = (if unat i < length xs then Some (xs[unat i := x]) else None)"

definition get_at :: "32 word \<Rightarrow> 'a list \<Rightarrow> 'a option" where
  "get_at i xs = (if unat i < length xs then Some (xs ! unat i) else None)"

section \<open>linearQueue.cpp\<close>

definition lin_size :: "'a dynamic_queue \<Rightarrow> 32 word" where
  "lin_size q = tail q - head q"

definition lin_isEmpty :: "'a dynamic_queue \<Rightarrow> bool" where
  "lin_isEmpty q = (lin_size q = 0)"

definition lin_isFull :: "'a dynamic_queue \<Rightarrow> bool" where
  "lin_isFull q = (tail q = N q)"

definition lin_grow :: "(nat \<Rightarrow> 'a) \<Rightarrow> 'a dynamic_queue \<Rightarrow> 'a dynamic_queue option" where
  "lin_grow fresh q =
     (if lin_isFull q then
        let old_size = N q;
            q = q\<lparr>N := nextSize q\<rparr>;
            new_queue = new_array fresh (unat (N q)) in
        if unat old_size \<le> length new_queue \<and> unat old_size \<le> length (A q)
        then Some (q\<lparr>A := take (unat old_size) (A q) @ drop (unat old_size) new_queue\<rparr>) else None
      else Some q)"

definition lin_QInsert :: "(nat \<Rightarrow> 'a) \<Rightarrow> 'a \<Rightarrow> 'a dynamic_queue \<Rightarrow> 'a dynamic_queue option" where
  "lin_QInsert fresh x q =
     (case if lin_isFull q then lin_grow fresh q else Some q of
        None \<Rightarrow> None
      | Some q \<Rightarrow>
          case put_at (tail q) x (A q) of
            None \<Rightarrow> None
          | Some B \<Rightarrow> Some (q\<lparr>A := B, tail := tail q + 1\<rparr>))"

text \<open>\<open>QDelete\<close> returns whether there was an element, and the element.\<close>

definition lin_QDelete :: "'a dynamic_queue \<Rightarrow> ('a option \<times> 'a dynamic_queue) option" where
  "lin_QDelete q =
     (if lin_isEmpty q then Some (None, q)
      else case get_at (head q) (A q) of
             None \<Rightarrow> None
           | Some x \<Rightarrow> Some (Some x, q\<lparr>head := head q + 1\<rparr>))"

section \<open>circularQueue.cpp\<close>

text \<open>\<open>tail\<close> is \<open>-1\<close>, the largest \<open>unsigned int\<close>, when the array is full.\<close>

definition circ_size :: "'a dynamic_queue \<Rightarrow> 32 word" where
  "circ_size q = (if tail q = -1 then N q else (tail q - head q + N q) mod N q)"

definition circ_isEmpty :: "'a dynamic_queue \<Rightarrow> bool" where
  "circ_isEmpty q = (circ_size q = 0)"

definition circ_isFull :: "'a dynamic_queue \<Rightarrow> bool" where
  "circ_isFull q = (circ_size q = N q)"

text \<open>
  The copying loop of \<open>grow\<close>: its test reads \<open>tail\<close>, which its first round sets to \<open>head\<close>.  The fuel
  bounds the number of rounds.
\<close>

fun circ_copy ::
    "nat \<Rightarrow> 32 word \<Rightarrow> nat \<Rightarrow> 32 word \<Rightarrow> 32 word \<Rightarrow> 32 word \<Rightarrow> 'a list \<Rightarrow> 'a list \<Rightarrow> (nat \<times> 32 word \<times> 'a list) option"
where
  "circ_copy 0 old i j hd0 tl0 B p = None"
| "circ_copy (Suc fuel) old i j hd0 tl0 B p =
     (if (j + 1) mod old \<noteq> tl0 then
        let tl0 = (if tl0 = -1 then hd0 else tl0) in
        if i < length p \<and> unat j < length B
        then circ_copy fuel old (i + 1) ((j + 1) mod old) hd0 tl0 B (p[i := B ! unat j])
        else None
      else Some (i, tl0, p))"

definition circ_grow :: "(nat \<Rightarrow> 'a) \<Rightarrow> 'a dynamic_queue \<Rightarrow> 'a dynamic_queue option" where
  "circ_grow fresh q =
     (if circ_isFull q then
        let old = N q;
            q = q\<lparr>N := nextSize q\<rparr>;
            p = new_array fresh (unat (N q)) in
        case circ_copy (unat old + 1) old 0 (head q) (head q) (tail q) (A q) p of
          None \<Rightarrow> None
        | Some (i, _, p) \<Rightarrow> Some (q\<lparr>head := 0, tail := of_nat (i + 1), A := p\<rparr>)
      else Some q)"

definition circ_QInsert :: "(nat \<Rightarrow> 'a) \<Rightarrow> 'a \<Rightarrow> 'a dynamic_queue \<Rightarrow> 'a dynamic_queue option" where
  "circ_QInsert fresh x q =
     (case if circ_isFull q then circ_grow fresh q else Some q of
        None \<Rightarrow> None
      | Some q \<Rightarrow>
          case put_at (tail q) x (A q) of
            None \<Rightarrow> None
          | Some B \<Rightarrow>
              let q = q\<lparr>A := B, tail := (tail q + 1) mod N q\<rparr> in
              Some (if tail q = head q then q\<lparr>tail := -1\<rparr> else q))"

definition circ_QDelete :: "'a dynamic_queue \<Rightarrow> ('a option \<times> 'a dynamic_queue) option" where
  "circ_QDelete q =
     (if circ_isEmpty q then Some (None, q)
      else case get_at (head q) (A q) of
             None \<Rightarrow> None
           | Some x \<Rightarrow>
               let q = (if tail q = -1 then q\<lparr>tail := head q\<rparr> else q) in
               Some (Some x, q\<lparr>head := (head q + 1) mod N q\<rparr>))"

section \<open>Queues as an interface\<close>

text \<open>A client inserts and deletes in any order and collects what it gets.\<close>

datatype 'a op = Put 'a | Get

fun run_ops ::
    "('a \<Rightarrow> 'q \<Rightarrow> 'q option) \<Rightarrow> ('q \<Rightarrow> ('a option \<times> 'q) option) \<Rightarrow> 'a op list \<Rightarrow> 'q \<Rightarrow> ('a option list \<times> 'q) option"
where
  "run_ops ins del [] q = Some ([], q)"
| "run_ops ins del (Put x # ops) q = (case ins x q of None \<Rightarrow> None | Some q \<Rightarrow> run_ops ins del ops q)"
| "run_ops ins del (Get # ops) q =
     (case del q of
        None \<Rightarrow> None
      | Some (r, q) \<Rightarrow> (case run_ops ins del ops q of None \<Rightarrow> None | Some (rs, q) \<Rightarrow> Some (r # rs, q)))"

text \<open>The queue everybody has in mind: a list.\<close>

fun fifo_ops :: "'a op list \<Rightarrow> 'a list \<Rightarrow> 'a option list \<times> 'a list" where
  "fifo_ops [] xs = ([], xs)"
| "fifo_ops (Put x # ops) xs = fifo_ops ops (xs @ [x])"
| "fifo_ops (Get # ops) xs = (case xs of
     [] \<Rightarrow> apfst ((#) None) (fifo_ops ops [])
   | x # xs \<Rightarrow> apfst ((#) (Some x)) (fifo_ops ops xs))"

text \<open>Room for the insertions: \<open>r\<close> are possible now, and each element deleted gives back \<open>g\<close>.\<close>

fun room_for :: "nat \<Rightarrow> 'a op list \<Rightarrow> nat \<Rightarrow> nat \<Rightarrow> bool" where
  "room_for g [] r n = True"
| "room_for g (Put x # ops) r n = (0 < r \<and> room_for g ops (r - 1) (Suc n))"
| "room_for g (Get # ops) r n = (if n = 0 then room_for g ops r 0 else room_for g ops (r + g) (n - 1))"

lemma room_for_mono: "room_for g ops r n \<Longrightarrow> r \<le> r' \<Longrightarrow> room_for g ops r' n"
  by (induction g ops r n arbitrary: r' rule: room_for.induct) (auto split: if_splits)

locale fifo =
  fixes insert_elem :: "'a \<Rightarrow> 'q \<Rightarrow> 'q option" and delete_elem :: "'q \<Rightarrow> ('a option \<times> 'q) option"
    and elems :: "'q \<Rightarrow> 'a list" and ok :: "'q \<Rightarrow> bool" and room :: "'q \<Rightarrow> nat" and gain :: nat
  assumes insert_law: "ok q \<Longrightarrow> 0 < room q \<Longrightarrow>
      \<exists>q'. insert_elem x q = Some q' \<and> ok q' \<and> elems q' = elems q @ [x] \<and> room q \<le> Suc (room q')"
    and delete_empty: "ok q \<Longrightarrow> elems q = [] \<Longrightarrow> delete_elem q = Some (None, q)"
    and delete_law: "ok q \<Longrightarrow> elems q = x # xs \<Longrightarrow>
      \<exists>q'. delete_elem q = Some (Some x, q') \<and> ok q' \<and> elems q' = xs \<and> room q + gain \<le> room q'"
begin

lemma run_fifo:
  assumes "ok q" "room_for gain ops (room q) (length (elems q))"
  shows "\<exists>q'. run_ops insert_elem delete_elem ops q = Some (fst (fifo_ops ops (elems q)), q') \<and> ok q' \<and>
    elems q' = snd (fifo_ops ops (elems q))"
  using assms
proof (induction ops arbitrary: q)
  case Nil
  then show ?case by simp
next
  case (Cons a ops)
  show ?case
  proof (cases a)
    case (Put x)
    then obtain q' where q': "insert_elem x q = Some q'" "ok q'" "elems q' = elems q @ [x]" "room q \<le> Suc (room q')"
      using insert_law[OF Cons.prems(1), of x] Cons.prems(2) by auto
    moreover have "room_for gain ops (room q') (length (elems q'))"
      using Cons.prems(2) Put q'(3,4) by (auto intro: room_for_mono)
    ultimately show ?thesis using Cons.IH[of q'] Put by auto
  next
    case Get
    show ?thesis
    proof (cases "elems q")
      case Nil
      then show ?thesis using Cons.IH[OF Cons.prems(1)] Cons.prems(2) Get delete_empty[OF Cons.prems(1) Nil] by auto
    next
      case (Cons x xs)
      obtain q' where q': "delete_elem q = Some (Some x, q')" "ok q'" "elems q' = xs" "room q + gain \<le> room q'"
        using delete_law[OF Cons.prems(1) Cons] by blast
      moreover have "room_for gain ops (room q') (length (elems q'))"
        using Cons.prems(2) Get q'(3,4) Cons by (auto intro: room_for_mono)
      ultimately show ?thesis using Cons.IH[of q'] Get Cons by auto
    qed
  qed
qed

end

section \<open>The linear queue\<close>

definition lin_elems :: "'a dynamic_queue \<Rightarrow> 'a list" where
  "lin_elems q = take (unat (tail q) - unat (head q)) (drop (unat (head q)) (A q))"

definition lin_ok :: "'a dynamic_queue \<Rightarrow> bool" where
  "lin_ok q \<longleftrightarrow> unat (head q) \<le> unat (tail q) \<and> unat (tail q) \<le> unat (N q) \<and> length (A q) = unat (N q)"

definition lin_room :: "'a dynamic_queue \<Rightarrow> nat" where
  "lin_room q = 2 ^ 32 - 1000 - unat (tail q)"

lemma unat_inj: "unat x = unat y \<Longrightarrow> x = (y :: 32 word)"
  by (rule unsigned_word_eqI)

lemma unat_bound: "unat (x :: 32 word) < 2 ^ 32"
  using unsigned_less[of x] by simp

lemma unat_inc: "unat (x :: 32 word) < 2 ^ 32 - 1 \<Longrightarrow> unat (x + 1) = unat x + 1"
  by (simp add: unat_word_ariths)

lemma length_new_array [simp]: "length (new_array fresh n) = n"
  by (simp add: new_array_def)

lemma lin_elems_put:
  assumes "h \<le> t" "t < length B"
  shows "take (Suc t - h) (drop h (B[t := x])) = take (t - h) (drop h B) @ [x]"
proof -
  have "Suc t - h = Suc (t - h)" "t - h < length (drop h (B[t := x]))" using assms by auto
  then have "take (Suc t - h) (drop h (B[t := x])) = take (t - h) (drop h (B[t := x])) @ [drop h (B[t := x]) ! (t - h)]"
    by (simp add: take_Suc_conv_app_nth)
  then show ?thesis using assms by (simp add: drop_update_swap)
qed

text \<open>\<open>grow\<close> makes a free place behind the last element and keeps the elements.\<close>

lemma lin_make_room:
  assumes "lin_ok q" "0 < lin_room q"
  shows "\<exists>q1. (if lin_isFull q then lin_grow fresh q else Some q) = Some q1 \<and>
    lin_ok q1 \<and> head q1 = head q \<and> tail q1 = tail q \<and> lin_elems q1 = lin_elems q \<and> unat (tail q) < length (A q1)"
proof (cases "lin_isFull q")
  case True
  then have t: "tail q = N q" by (simp add: lin_isFull_def)
  have n: "unat (N q + 1000) = unat (N q) + 1000"
    using assms(2) t by (simp add: lin_room_def unat_word_ariths)
  let ?n = "new_array fresh (unat (N q + 1000))"
  let ?q = "q\<lparr>N := N q + 1000, A := A q @ drop (unat (N q)) ?n\<rparr>"
  have a: "length (A q) = unat (N q)" "unat (head q) \<le> unat (N q)" using assms(1) t by (simp_all add: lin_ok_def)
  have "lin_grow fresh q = Some ?q"
    using True a by (simp add: lin_grow_def nextSize_def CONST_GROWTH_def Let_def n)
  moreover have "lin_ok ?q" using assms(1) a t by (simp add: lin_ok_def n)
  moreover have "lin_elems ?q = lin_elems q" using a t by (simp add: lin_elems_def)
  ultimately show ?thesis using True a t n by auto
next
  case False
  then have "unat (tail q) < length (A q)"
    using assms(1) unat_inj[of "tail q" "N q"] by (auto simp: lin_ok_def lin_isFull_def le_less)
  then show ?thesis using False assms(1) by simp
qed

lemma lin_insert:
  assumes "lin_ok q" "0 < lin_room q"
  shows "\<exists>q'. lin_QInsert fresh x q = Some q' \<and> lin_ok q' \<and> lin_elems q' = lin_elems q @ [x] \<and> lin_room q \<le> Suc (lin_room q')"
proof -
  obtain q1 where q1: "(if lin_isFull q then lin_grow fresh q else Some q) = Some q1" "lin_ok q1"
    "head q1 = head q" "tail q1 = tail q" "lin_elems q1 = lin_elems q" "unat (tail q) < length (A q1)"
    using lin_make_room[OF assms, of fresh] by blast
  have t: "unat (tail q + 1) = unat (tail q) + 1" by (rule unat_inc) (use assms(2) in \<open>simp add: lin_room_def\<close>)
  let ?q = "q1\<lparr>A := (A q1)[unat (tail q) := x], tail := tail q + 1\<rparr>"
  have "lin_QInsert fresh x q = Some ?q" using q1 by (simp add: lin_QInsert_def put_at_def)
  moreover have "lin_ok ?q" using q1 t by (simp add: lin_ok_def)
  moreover have "lin_elems ?q = lin_elems q @ [x]"
    using lin_elems_put[of "unat (head q)" "unat (tail q)" "A q1" x] q1 t by (simp add: lin_elems_def lin_ok_def)
  moreover have "lin_room q \<le> Suc (lin_room ?q)" using t by (simp add: lin_room_def)
  ultimately show ?thesis by blast
qed

lemma lin_empty:
  assumes "lin_ok q"
  shows "(lin_elems q = []) = (tail q = head q)"
proof -
  have "length (lin_elems q) = unat (tail q) - unat (head q)" using assms by (auto simp: lin_elems_def lin_ok_def)
  moreover have "unat (head q) \<le> unat (tail q)" using assms by (simp add: lin_ok_def)
  ultimately show ?thesis using unat_inj[of "tail q" "head q"] by (metis diff_is_0_eq diff_self_eq_0 le_antisym length_0_conv)
qed

lemma lin_delete:
  assumes "lin_ok q" "lin_elems q = x # xs"
  shows "\<exists>q'. lin_QDelete q = Some (Some x, q') \<and> lin_ok q' \<and> lin_elems q' = xs \<and> lin_room q + 0 \<le> lin_room q'"
proof -
  have ne: "tail q \<noteq> head q" using assms lin_empty[OF assms(1)] by auto
  then have ht: "unat (head q) < unat (tail q)" using assms(1) unat_inj[of "head q" "tail q"] by (auto simp: lin_ok_def le_less)
  then have h: "unat (head q + 1) = unat (head q) + 1" and hA: "unat (head q) < length (A q)"
    using unat_inc[of "head q"] unat_bound[of "tail q"] assms(1) by (simp_all add: lin_ok_def)
  have "drop (unat (head q)) (A q) = A q ! unat (head q) # drop (unat (head q) + 1) (A q)"
    using hA by (simp add: Cons_nth_drop_Suc)
  moreover have "unat (tail q) - unat (head q) = Suc (unat (tail q) - (unat (head q) + 1))" using ht by simp
  ultimately have e: "x = A q ! unat (head q)" "xs = take (unat (tail q) - (unat (head q) + 1)) (drop (unat (head q) + 1) (A q))"
    using assms(2) by (simp_all add: lin_elems_def)
  have "lin_QDelete q = Some (Some x, q\<lparr>head := head q + 1\<rparr>)"
    using ne hA e by (simp add: lin_QDelete_def lin_isEmpty_def lin_size_def get_at_def)
  moreover have "lin_ok (q\<lparr>head := head q + 1\<rparr>)" using assms(1) h ht by (simp add: lin_ok_def)
  ultimately show ?thesis using e h by (simp add: lin_elems_def lin_room_def)
qed

interpretation lin: fifo "lin_QInsert fresh" lin_QDelete lin_elems lin_ok lin_room 0 for fresh
proof unfold_locales
  fix q :: "'a dynamic_queue" and x xs
  show "\<exists>q'. lin_QInsert fresh x q = Some q' \<and> lin_ok q' \<and> lin_elems q' = lin_elems q @ [x] \<and> lin_room q \<le> Suc (lin_room q')"
    if "lin_ok q" "0 < lin_room q" by (rule lin_insert[OF that])
  show "lin_QDelete q = Some (None, q)" if "lin_ok q" "lin_elems q = []"
    using that lin_empty[of q] by (simp add: lin_QDelete_def lin_isEmpty_def lin_size_def)
  show "\<exists>q'. lin_QDelete q = Some (Some x, q') \<and> lin_ok q' \<and> lin_elems q' = xs \<and> lin_room q + 0 \<le> lin_room q'"
    if "lin_ok q" "lin_elems q = x # xs" by (rule lin_delete[OF that])
qed

lemma room_for_0: "length ops \<le> r \<Longrightarrow> room_for 0 ops r n"
  by (induction ops arbitrary: r n; simp; case_tac a; force)

text \<open>The linear queue is a first-in first-out queue: any sequence of insertions and deletions on a
  new queue, of fewer than \<open>2 ^ 32 - 1000\<close> operations, stays inside the array and returns what the
  list of the elements would.\<close>

theorem linear_queue_fifo:
  assumes "length ops \<le> 2 ^ 32 - 1000"
  shows "\<exists>q. run_ops (lin_QInsert fresh) lin_QDelete ops (DynamicQueue fresh) = Some (fst (fifo_ops ops []), q)"
proof -
  let ?q = "DynamicQueue fresh"
  have q: "lin_ok ?q" "lin_elems ?q = []" "lin_room ?q = 2 ^ 32 - 1000"
    by (simp_all add: DynamicQueue_def lin_ok_def lin_elems_def lin_room_def INIT_SIZE_def)
  show ?thesis using lin.run_fifo[OF q(1), of ops fresh] room_for_0[of ops] assms unfolding q(2,3) by auto
qed

theorem linear_queue_fifo_witness:
  "\<exists>q. run_ops (lin_QInsert (\<lambda>_. 0)) lin_QDelete [Put (5 :: int), Put 6, Get, Get, Get] (DynamicQueue (\<lambda>_. 0)) =
    Some ([Some 5, Some 6, None], q)"
  using linear_queue_fifo[of "[Put (5 :: int), Put 6, Get, Get, Get]" "\<lambda>_. 0"] by simp

section \<open>The circular queue\<close>

definition circ_count :: "'a dynamic_queue \<Rightarrow> nat" where
  "circ_count q = (if tail q = -1 then unat (N q) else (unat (tail q) + unat (N q) - unat (head q)) mod unat (N q))"

definition circ_elems :: "'a dynamic_queue \<Rightarrow> 'a list" where
  "circ_elems q = map (\<lambda>i. A q ! ((unat (head q) + i) mod unat (N q))) [0..<circ_count q]"

definition circ_ok :: "'a dynamic_queue \<Rightarrow> bool" where
  "circ_ok q \<longleftrightarrow> 1 < unat (N q) \<and> unat (N q) < 2 ^ 31 \<and> length (A q) = unat (N q) \<and>
     unat (head q) < unat (N q) \<and> (tail q = -1 \<or> unat (tail q) < unat (N q))"

definition circ_room :: "'a dynamic_queue \<Rightarrow> nat" where
  "circ_room q = unat (N q) - circ_count q"

lemma unat_mod [simp]: "unat (x mod y :: 32 word) = unat x mod unat y"
  by (simp add: unat_mod_distrib)

lemma unat_minus_one: "unat (-1 :: 32 word) = 2 ^ 32 - 1"
  by (simp add: unsigned_minus_1_eq_mask mask_eq_exp_minus_1)

lemma circ_size_count:
  assumes "circ_ok q"
  shows "unat (circ_size q) = circ_count q"
proof (cases "tail q = -1")
  case False
  then have b: "unat (tail q) < unat (N q)" "unat (head q) < unat (N q)" "unat (N q) < 2 ^ 31"
    using assms by (auto simp: circ_ok_def)
  have "tail q - head q + N q = of_nat (unat (tail q) + unat (N q) - unat (head q))"
    using b by (simp add: of_nat_diff)
  then have "unat (tail q - head q + N q) = unat (tail q) + unat (N q) - unat (head q)"
    unfolding \<open>tail q - head q + N q = _\<close> unat_of_nat using b by simp
  then show ?thesis using False by (simp add: circ_size_def circ_count_def)
qed (simp add: circ_size_def circ_count_def)

text \<open>While there is room, the tail is the place after the last element.\<close>

lemma circ_tail:
  assumes "circ_ok q" "0 < circ_room q"
  shows "tail q \<noteq> -1" "unat (tail q) = (unat (head q) + circ_count q) mod unat (N q)"
proof -
  show t: "tail q \<noteq> -1" using assms(2) by (auto simp: circ_room_def circ_count_def)
  have b: "unat (tail q) < unat (N q)" "unat (head q) < unat (N q)" using assms(1) t by (auto simp: circ_ok_def)
  have "(unat (head q) + circ_count q) mod unat (N q) = (unat (head q) + (unat (tail q) + unat (N q) - unat (head q))) mod unat (N q)"
    using t by (simp add: circ_count_def mod_add_right_eq)
  also have "unat (head q) + (unat (tail q) + unat (N q) - unat (head q)) = unat (tail q) + unat (N q)" using b by simp
  finally show "unat (tail q) = (unat (head q) + circ_count q) mod unat (N q)" using b by simp
qed

lemma circ_count_less: "circ_ok q \<Longrightarrow> tail q \<noteq> -1 \<Longrightarrow> circ_count q < unat (N q)"
  by (simp add: circ_count_def circ_ok_def)

lemma mod_shift_less:
  assumes "i < j" "j < n"
  shows "(h + i) mod n \<noteq> (h + j) mod (n :: nat)"
proof
  assume "(h + i) mod n = (h + j) mod n"
  then have "n dvd (h + j) - (h + i)" using assms by (subst mod_eq_dvd_iff_nat[symmetric]) auto
  then show False using assms by (auto dest: dvd_imp_le)
qed

lemma mod_suc: "(x mod n + 1) mod n = (x + 1) mod (n :: nat)"
  by (simp add: mod_Suc_eq)

text \<open>The increment of an index, modulo the size of the array.\<close>

lemma unat_next:
  assumes "unat i < unat n" "unat n < 2 ^ 31"
  shows "unat ((i + 1) mod n) = (unat i + 1) mod unat (n :: 32 word)"
proof -
  have "unat (i + 1) = unat i + 1" by (rule unat_inc) (use assms in simp)
  then show ?thesis by simp
qed

lemma circ_delete:
  assumes ok: "circ_ok q" and e: "circ_elems q = x # xs"
  shows "\<exists>q'. circ_QDelete q = Some (Some x, q') \<and> circ_ok q' \<and> circ_elems q' = xs \<and> circ_room q + 1 \<le> circ_room q'"
proof -
  let ?n = "unat (N q)" and ?h = "unat (head q)" and ?c = "circ_count q"
  have b: "1 < ?n" "?n < 2 ^ 31" "length (A q) = ?n" "?h < ?n" "tail q = -1 \<or> unat (tail q) < ?n"
    using ok by (simp_all add: circ_ok_def)
  obtain c where c: "?c = Suc c" using e by (cases ?c) (simp_all add: circ_elems_def)
  have cn: "?c \<le> ?n" using b(1) by (simp add: circ_count_def)
  let ?q = "q\<lparr>tail := (if tail q = -1 then head q else tail q), head := (head q + 1) mod N q\<rparr>"
  have ne: "\<not> circ_isEmpty q" using circ_size_count[OF ok] c by (auto simp: circ_isEmpty_def)
  have "upt 0 ?c = 0 # map Suc [0..<c]" unfolding c by (simp add: map_Suc_upt upt_conv_Cons)
  then have x: "x = A q ! ?h" "xs = map (\<lambda>i. A q ! ((?h + Suc i) mod ?n)) [0..<c]"
    using e b(4) by (auto simp: circ_elems_def o_def)
  have d: "circ_QDelete q = Some (Some x, ?q)"
    using ne x b by (auto simp: circ_QDelete_def get_at_def Let_def)
  have h': "unat (head ?q) = (?h + 1) mod ?n" using unat_next[OF b(4,2)] by simp
  have t': "unat (tail ?q) = (?h + ?c) mod ?n"
  proof (cases "tail q = -1")
    case True
    then show ?thesis using b(4) by (simp add: circ_count_def)
  next
    case False
    then have "0 < circ_room q" using circ_count_less[OF ok] by (simp add: circ_room_def)
    from circ_tail(2)[OF ok this] show ?thesis using False by simp
  qed
  have ok': "circ_ok ?q"
    using b h' t' unat_minus_one by (auto simp: circ_ok_def)
  have tn: "tail ?q \<noteq> -1"
  proof
    assume "tail ?q = -1"
    then show False using ok' unat_minus_one b by (auto simp: circ_ok_def split: if_splits)
  qed
  have count: "circ_count ?q = c"
  proof (cases "?h + 1 < ?n")
    case True
    then show ?thesis
    proof (cases "?h + ?c < ?n")
      case True
      then show ?thesis using tn h' t' \<open>?h + 1 < ?n\<close> c by (simp add: circ_count_def)
    next
      case False
      then have "(?h + ?c) mod ?n = ?h + ?c - ?n" using cn b(4) by (simp add: mod_if)
      then show ?thesis using tn h' t' True False c cn b(4) by (simp add: circ_count_def)
    qed
  next
    case False
    then have h: "?h + 1 = ?n" using b(4) by simp
    then have hc: "?h + ?c = ?n + c" using c by linarith
    have "(?h + ?c) mod ?n = c" unfolding hc using c cn by simp
    then show ?thesis using tn h' t' h c cn by (simp add: circ_count_def)
  qed
  have "circ_elems ?q = xs"
    unfolding circ_elems_def count h' x(2) by (simp add: mod_add_left_eq)
  moreover have "circ_room q + 1 \<le> circ_room ?q" using count c cn by (simp add: circ_room_def)
  ultimately show ?thesis using d ok' by blast
qed


lemma mod_back: "k < n \<Longrightarrow> h < n \<Longrightarrow> ((h + k) mod n + n - h) mod n = k" for n :: nat
  by (cases "h + k < n") (simp_all add: mod_if)

lemma circ_put:
  assumes ok: "circ_ok q" and room: "0 < circ_room q"
  shows "\<exists>q'. circ_QInsert fresh x q = Some q' \<and> circ_ok q' \<and> circ_elems q' = circ_elems q @ [x] \<and> circ_room q \<le> Suc (circ_room q')"
proof -
  let ?n = "unat (N q)" and ?h = "unat (head q)" and ?c = "circ_count q" and ?t = "unat (tail q)"
  have b: "1 < ?n" "?n < 2 ^ 31" "length (A q) = ?n" "?h < ?n" using ok by (simp_all add: circ_ok_def)
  have c: "?c < ?n" using room by (simp add: circ_room_def)
  have t: "tail q \<noteq> -1" "?t = (?h + ?c) mod ?n" "?t < ?n" using circ_tail[OF ok room] b by simp_all
  have nf: "\<not> circ_isFull q" using circ_size_count[OF ok] c by (auto simp: circ_isFull_def)
  have t': "unat ((tail q + 1) mod N q) = (?h + (?c + 1)) mod ?n"
    using unat_next[OF t(3) b(2)] t(2) mod_suc[of "?h + ?c" ?n] by simp
  let ?q = "q\<lparr>A := (A q)[?t := x], tail := (if ?c + 1 = ?n then -1 else (tail q + 1) mod N q)\<rparr>"
  have full: "((tail q + 1) mod N q = head q) = (?c + 1 = ?n)"
  proof
    assume "(tail q + 1) mod N q = head q"
    then have "(?h + (?c + 1)) mod ?n = (?h + 0) mod ?n" using t' b(4) by simp
    then show "?c + 1 = ?n" using mod_shift_less[of 0 "?c + 1" ?n ?h] c by fastforce
  next
    assume "?c + 1 = ?n"
    then have "unat ((tail q + 1) mod N q) = ?h" using t' b(4) by simp
    then show "(tail q + 1) mod N q = head q" by (rule unat_inj)
  qed
  have ins: "circ_QInsert fresh x q = Some ?q"
    using nf t(3) b(3) full by (simp add: circ_QInsert_def put_at_def Let_def)
  have ok': "circ_ok ?q" using ok b t' by (simp add: circ_ok_def)
  have t1: "(tail q + 1) mod N q \<noteq> -1"
  proof
    assume "(tail q + 1) mod N q = -1"
    then have "(?h + (?c + 1)) mod ?n = 2 ^ 32 - 1" using t' unat_minus_one by simp
    moreover have "(?h + (?c + 1)) mod ?n < ?n" using b(1) by simp
    ultimately show False using b(2) by simp
  qed
  have count: "circ_count ?q = ?c + 1"
  proof (cases "?c + 1 = ?n")
    case True
    then show ?thesis by (simp add: circ_count_def)
  next
    case False
    then show ?thesis using mod_back[of "?c + 1" ?n ?h] c b(4) t1 t' by (simp add: circ_count_def)
  qed
  have "circ_elems ?q = map (\<lambda>i. (A q)[?t := x] ! ((?h + i) mod ?n)) ([0..<?c] @ [?c])"
    unfolding circ_elems_def count by simp
  also have "\<dots> = circ_elems q @ [x]"
  proof -
    have "(A q)[?t := x] ! ((?h + i) mod ?n) = A q ! ((?h + i) mod ?n)" if "i < ?c" for i
      using mod_shift_less[OF that c, of ?h] t(2) by simp
    moreover have "(A q)[?t := x] ! ((?h + ?c) mod ?n) = x" using t(2,3) b(3) by simp
    ultimately show ?thesis by (simp add: circ_elems_def)
  qed
  finally show ?thesis using ins ok' count by (auto simp: circ_room_def)
qed

interpretation circ: fifo "circ_QInsert fresh" circ_QDelete circ_elems circ_ok circ_room 1 for fresh
proof unfold_locales
  fix q :: "'a dynamic_queue" and x xs
  show "\<exists>q'. circ_QInsert fresh x q = Some q' \<and> circ_ok q' \<and> circ_elems q' = circ_elems q @ [x] \<and> circ_room q \<le> Suc (circ_room q')"
    if "circ_ok q" "0 < circ_room q" by (rule circ_put[OF that])
  show "circ_QDelete q = Some (None, q)" if "circ_ok q" "circ_elems q = []"
    using that circ_size_count[of q] unat_inj[of "circ_size q" 0]
    by (simp add: circ_QDelete_def circ_isEmpty_def circ_elems_def)
  show "\<exists>q'. circ_QDelete q = Some (Some x, q') \<and> circ_ok q' \<and> circ_elems q' = xs \<and> circ_room q + 1 \<le> circ_room q'"
    if "circ_ok q" "circ_elems q = x # xs" by (rule circ_delete[OF that])
qed

text \<open>The circular queue is a first-in first-out queue for any sequence of operations, however
  long, that never holds more than the initial 1000 elements.\<close>

theorem circular_queue_fifo:
  assumes "room_for 1 ops 1000 0"
  shows "\<exists>q. run_ops (circ_QInsert fresh) circ_QDelete ops (DynamicQueue fresh) = Some (fst (fifo_ops ops []), q)"
proof -
  let ?q = "DynamicQueue fresh"
  have q: "circ_ok ?q" "circ_elems ?q = []" "circ_room ?q = 1000"
    by (simp_all add: DynamicQueue_def circ_ok_def circ_elems_def circ_room_def circ_count_def INIT_SIZE_def)
  show ?thesis using circ.run_fifo[OF q(1), of ops fresh] assms unfolding q(2,3) by auto
qed

theorem circular_queue_fifo_witness:
  "\<exists>q. run_ops (circ_QInsert (\<lambda>_. 0)) circ_QDelete [Put (5 :: int), Get, Get, Put 6, Get] (DynamicQueue (\<lambda>_. 0)) =
    Some ([Some 5, None, Some 6], q)"
  using circular_queue_fifo[of "[Put (5 :: int), Get, Get, Put 6, Get]" "\<lambda>_. 0"] by simp


text \<open>
  Growing: the copying loop stops one element early, because its test looks at the element after the
  next one.  From round \<open>i\<close> on it copies the elements \<open>i\<close> to \<open>n - 2\<close>.
\<close>

lemma circ_copy_eq:
  assumes "unat old = n" "1 < n" "n < 2 ^ 31" "length B = n" "n \<le> length p" "unat hd0 < n"
    and "unat j = (unat hd0 + i) mod n" "i < n" "n \<le> fuel + i" "if i = 0 then tl0 = -1 else tl0 = hd0"
  shows "circ_copy fuel old i j hd0 tl0 B p =
    Some (n - 1, hd0, map (\<lambda>k. if i \<le> k \<and> k < n - 1 then B ! ((unat hd0 + k) mod n) else p ! k) [0..<length p])"
  using assms
proof (induction fuel arbitrary: i j tl0 p)
  case 0
  then show ?case by simp
next
  case (Suc fuel)
  have jn: "unat j < n" using Suc.prems(2,7) by simp
  have j': "unat ((j + 1) mod old) = (unat hd0 + (i + 1)) mod n"
    using unat_next[of j old] jn Suc.prems(1,3,7) mod_suc[of "unat hd0 + i" n] by simp
  have h: "unat hd0 = (unat hd0 + n) mod n" using Suc.prems(6) by simp
  show ?case
  proof (cases "i = n - 1")
    case True
    then have "(j + 1) mod old = hd0" using j' h Suc.prems(2) by (intro unat_inj) simp
    moreover have "tl0 = hd0" using Suc.prems(2,10) True by auto
    ultimately show ?thesis using True by (auto intro!: nth_equalityI)
  next
    case False
    then have i: "i + 1 < n" using Suc.prems(8) by simp
    have ne: "(j + 1) mod old \<noteq> tl0"
    proof (cases "i = 0")
      case True
      have "unat ((j + 1) mod old) < n" unfolding j' using Suc.prems(2) by simp
      then have "unat ((j + 1) mod old) \<noteq> unat (-1 :: 32 word)" 
        unfolding unat_minus_one using Suc.prems(3) by simp
      then have "(j + 1) mod old \<noteq> -1" by metis
      then show ?thesis using True Suc.prems(10) by auto
    next
      case i0: False
      have "(unat hd0 + (i + 1)) mod n \<noteq> (unat hd0 + n) mod n"
        using mod_shift_less[of 0 "i + 1" n "unat hd0"] i by simp
      then have "(j + 1) mod old \<noteq> hd0" using j' h by metis
      then show ?thesis using i0 Suc.prems(10) by simp
    qed
    have t: "(if tl0 = -1 then hd0 else tl0) = hd0" using Suc.prems(10) by (auto split: if_splits)
    have "circ_copy (Suc fuel) old i j hd0 tl0 B p = circ_copy fuel old (i + 1) ((j + 1) mod old) hd0 hd0 B (p[i := B ! unat j])"
      using ne t jn i Suc.prems(4,5) by simp
    also have "\<dots> = Some (n - 1, hd0, map (\<lambda>k. if i + 1 \<le> k \<and> k < n - 1 then B ! ((unat hd0 + k) mod n)
        else p[i := B ! unat j] ! k) [0..<length (p[i := B ! unat j])])"
      by (rule Suc.IH) (use Suc.prems i j' in simp_all)
    also have "\<dots> = Some (n - 1, hd0, map (\<lambda>k. if i \<le> k \<and> k < n - 1 then B ! ((unat hd0 + k) mod n) else p ! k) [0..<length p])"
      using i Suc.prems(5,7) by (auto simp: nth_list_update)
    finally show ?thesis .
  qed
qed


text \<open>C40: An insertion into a full circular queue grows the array and loses the newest element: its place
  in the queue is taken by whatever the new array held there.\<close>

theorem circular_queue_grow_loses_newest:
  assumes ok: "circ_ok q" and full: "tail q = -1" and room: "unat (N q) + 1000 < 2 ^ 31"
  shows "\<exists>q'. circ_QInsert fresh x q = Some q' \<and> circ_ok q' \<and>
    circ_elems q' = butlast (circ_elems q) @ [fresh (unat (N q) - 1), x]"
proof -
  let ?n = "unat (N q)" and ?h = "unat (head q)"
  have b: "1 < ?n" "?n < 2 ^ 31" "length (A q) = ?n" "?h < ?n" using ok by (simp_all add: circ_ok_def)
  have n': "unat (N q + 1000) = ?n + 1000" using room by (simp add: unat_word_ariths)
  have c: "circ_count q = ?n" using full by (simp add: circ_count_def)
  let ?p = "map (\<lambda>k. if k < ?n - 1 then A q ! ((?h + k) mod ?n) else fresh k) [0..<?n + 1000]"
  let ?q = "\<lparr>A = ?p, N = N q + 1000, head = 0, tail = of_nat ?n\<rparr>"
  have "circ_copy (?n + 1) (N q) 0 (head q) (head q) (-1) (A q) (new_array fresh (?n + 1000)) = Some (?n - 1, head q, ?p)"
    by (subst circ_copy_eq[of _ ?n]) (use b in \<open>auto simp: new_array_def\<close>)
  then have g: "circ_grow fresh q = Some (q\<lparr>A := ?p, N := N q + 1000, head := 0, tail := of_nat ?n\<rparr>)"
    using b full by (simp add: circ_grow_def circ_isFull_def circ_size_def nextSize_def CONST_GROWTH_def Let_def n' del: circ_copy.simps)
  have eq: "q\<lparr>A := ?p, N := N q + 1000, head := 0, tail := of_nat ?n\<rparr> = ?q" by (cases q) simp
  have t: "unat (of_nat ?n :: 32 word) = ?n" by simp
  have tn: "(of_nat ?n :: 32 word) \<noteq> -1"
  proof
    assume "(of_nat ?n :: 32 word) = -1"
    then have "?n = 2 ^ 32 - 1" using t unat_minus_one by metis
    then show False using b(2) by simp
  qed
  have ok': "circ_ok ?q" using b room n' t by (simp add: circ_ok_def)
  have c': "circ_count ?q = ?n" using mod_back[of ?n "?n + 1000" 0] tn n' by (simp add: circ_count_def)
  have e: "circ_elems ?q = butlast (circ_elems q) @ [fresh (?n - 1)]"
  proof -
    obtain m where m: "?n = Suc m" using b(1) by (cases ?n) auto
    have "circ_elems ?q = map (\<lambda>i. ?p ! i) [0..<?n]" unfolding circ_elems_def c' using n' by simp
    also have "\<dots> = map (\<lambda>i. A q ! ((?h + i) mod ?n)) [0..<m] @ [fresh m]" using m by simp
    also have "\<dots> = butlast (circ_elems q) @ [fresh (?n - 1)]"
      unfolding circ_elems_def c using m by (simp add: map_butlast[symmetric])
    finally show ?thesis .
  qed
  have r: "0 < circ_room ?q" using c' n' by (simp add: circ_room_def)
  have "unat (circ_size ?q) \<noteq> unat (N ?q)" unfolding circ_size_count[OF ok'] c' using n' by simp
  then have nf: "circ_isFull ?q = False" unfolding circ_isFull_def by metis
  have f: "circ_isFull q = True" using full by (simp add: circ_isFull_def circ_size_def)
  have "circ_QInsert fresh x q = circ_QInsert fresh x ?q"
    unfolding circ_QInsert_def f nf g eq by simp
  then show ?thesis using circ_put[OF ok' r, of fresh x] e by auto
qed

theorem circular_queue_grow_loses_newest_witness:
  "\<exists>q'. circ_QInsert (\<lambda>_. 0) (7 :: int) \<lparr>A = [4, 5, 6], N = 3, head = 1, tail = -1\<rparr> = Some q' \<and> circ_elems q' = [5, 6, 0, 7]"
proof -
  let ?q = "\<lparr>A = [4, 5, 6 :: int], N = 3, head = 1, tail = -1\<rparr>"
  have "circ_ok ?q" "circ_elems ?q = [5, 6, 4]"
    by (simp_all add: circ_ok_def circ_elems_def circ_count_def upt_conv_Cons)
  then show ?thesis using circular_queue_grow_loses_newest[of ?q "\<lambda>_. 0" 7] by auto
qed

end
