(* ===== verification/BestFit.thy ===== *)
theory BestFit
  imports Main
begin

text \<open>
  The allocator of allocation-assignment/alloc.cpp: one page from \<open>mmap\<close>, a bitmap with one bit per
  block of \<open>MINALLOC\<close> bytes (true is free) and the sizes of the blocks handed out.  The page's
  address is a parameter of \<open>init_alloc\<close>; \<open>NULL\<close> is \<open>None\<close>.
\<close>

definition PAGESIZE :: nat where "PAGESIZE = 4096"
definition MINALLOC :: nat where "MINALLOC = 8"
definition NUM_ELEM :: nat where "NUM_ELEM = PAGESIZE div MINALLOC"
definition INT32_MAX :: int where "INT32_MAX = 2 ^ 31 - 1"

record arena =
  mem :: nat
  bytes :: "nat \<Rightarrow> nat"
  bitmap :: "bool list"
  ptr_to_sz :: "nat \<rightharpoonup> int"

definition init_alloc :: "nat \<Rightarrow> arena" where
  "init_alloc page = \<lparr>mem = page, bytes = (\<lambda>_. 0), bitmap = replicate NUM_ELEM True, ptr_to_sz = Map.empty\<rparr>"

definition cleanup :: "arena \<Rightarrow> arena" where
  "cleanup a = a\<lparr>ptr_to_sz := Map.empty, bitmap := replicate NUM_ELEM True\<rparr>"

section \<open>alloc\<close>

text \<open>The local variables of the search.\<close>

record search =
  minsz :: int
  tmpminsz :: int
  tmpoff :: int
  off :: int
  flag :: bool

definition start_search :: search where
  "start_search = \<lparr>minsz = INT32_MAX, tmpminsz = -1, tmpoff = -1, off = -1, flag = False\<rparr>"

definition fits :: "int \<Rightarrow> search \<Rightarrow> bool" where
  "fits req v \<longleftrightarrow> minsz v \<ge> tmpminsz v \<and> tmpminsz v \<ge> req"

text \<open>The body of the loop over the bitmap, for the bit \<open>b\<close> of block \<open>i\<close>.\<close>

definition search_step :: "int \<Rightarrow> search \<Rightarrow> nat \<times> bool \<Rightarrow> search" where
  "search_step req v ib =
     (case ib of (i, b) \<Rightarrow>
        if \<not> flag v then
          if b then v\<lparr>flag := True, tmpoff := int i, tmpminsz := 1\<rparr> else v
        else if b then v\<lparr>tmpminsz := tmpminsz v + 1\<rparr>
        else if fits req v then v\<lparr>minsz := tmpminsz v, off := tmpoff v, flag := False\<rparr>
        else v)"

definition search_end :: "int \<Rightarrow> search \<Rightarrow> search" where
  "search_end req v = (if fits req v then v\<lparr>minsz := tmpminsz v, off := tmpoff v\<rparr> else v)"

definition find_blocks :: "int \<Rightarrow> bool list \<Rightarrow> int" where
  "find_blocks req bits = off (search_end req (foldl (search_step req) start_search (enumerate 0 bits)))"

text \<open>The loop that sets the bits from \<open>i\<close> to \<open>i + n\<close>.\<close>

definition set_bits :: "nat \<Rightarrow> nat \<Rightarrow> bool \<Rightarrow> bool list \<Rightarrow> bool list" where
  "set_bits i n b bits = foldl (\<lambda>bits k. bits[k := b]) bits [i..<i + n]"

definition alloc :: "int \<Rightarrow> arena \<Rightarrow> nat option \<times> arena" where
  "alloc sz a =
     (if sz mod int MINALLOC \<noteq> 0 then (None, a)
      else
        let req = sz div int MINALLOC;
            p = find_blocks req (bitmap a) in
        if p = -1 then (None, a)
        else
          let ptr = mem a + nat p * MINALLOC in
          (Some ptr, a\<lparr>ptr_to_sz := (ptr_to_sz a)(ptr \<mapsto> req), bitmap := set_bits (nat p) (nat req) False (bitmap a)\<rparr>))"

section \<open>dealloc\<close>

definition dealloc :: "nat \<Rightarrow> arena \<Rightarrow> arena" where
  "dealloc ptr a =
     (case ptr_to_sz a ptr of
        None \<Rightarrow> a
      | Some num_blocks \<Rightarrow>
          let i = (ptr - mem a) mod 4096 div MINALLOC in
          a\<lparr>bitmap := set_bits i (nat num_blocks) True (bitmap a),
            ptr_to_sz := (ptr_to_sz a)(ptr := None),
            bytes := (\<lambda>x. if ptr \<le> x \<and> x < ptr + nat num_blocks * MINALLOC then 0 else bytes a x)\<rparr>)"

section \<open>What the search finds\<close>

lemma set_bits_Suc: "set_bits i (Suc n) b bits = (set_bits i n b bits)[i + n := b]"
  by (simp add: set_bits_def)

lemma length_set_bits [simp]: "length (set_bits i n b bits) = length bits"
  by (induction n) (simp_all add: set_bits_Suc, simp add: set_bits_def)

lemma nth_set_bits: "k < length bits \<Longrightarrow> set_bits i n b bits ! k = (if i \<le> k \<and> k < i + n then b else bits ! k)"
proof (induction n)
  case 0
  then show ?case by (auto simp: set_bits_def)
next
  case (Suc n)
  then show ?case by (cases "k = i + n") (simp_all add: set_bits_Suc)
qed

lemma set_bits_back:
  assumes "\<And>k. i \<le> k \<Longrightarrow> k < i + n \<Longrightarrow> k < length bits \<Longrightarrow> bits ! k = b"
  shows "set_bits i n b (set_bits i n c bits) = bits"
  by (rule nth_equalityI) (use assms in \<open>auto simp: nth_set_bits\<close>)

text \<open>A free run is \<open>short\<close> if it ends at a used block before it has \<open>req\<close> blocks.\<close>

definition free :: "bool list \<Rightarrow> nat \<Rightarrow> nat \<Rightarrow> bool" where
  "free bits i j \<longleftrightarrow> j \<le> length bits \<and> (\<forall>k. i \<le> k \<and> k < j \<longrightarrow> bits ! k)"

definition no_short_run :: "int \<Rightarrow> bool list \<Rightarrow> bool" where
  "no_short_run req bits \<longleftrightarrow>
     (\<forall>i j. i < j \<and> j < length bits \<and> free bits i j \<and> (i = 0 \<or> \<not> bits ! (i - 1)) \<and> \<not> bits ! j \<longrightarrow> req \<le> int (j - i))"

text \<open>
  The invariant of the search after \<open>i\<close> blocks: the best run so far is free and large enough.  A run
  that is being counted either is the one that ends here, or is already longer than the best.
\<close>

definition good :: "int \<Rightarrow> bool list \<Rightarrow> int \<Rightarrow> int \<Rightarrow> bool" where
  "good req bits p n \<longleftrightarrow> 0 \<le> p \<and> 0 \<le> n \<and> req \<le> n \<and> free bits (nat p) (nat (p + n))"

definition search_inv :: "int \<Rightarrow> bool list \<Rightarrow> nat \<Rightarrow> search \<Rightarrow> bool" where
  "search_inv req bits i v \<longleftrightarrow>
     (off v = -1 \<and> minsz v = INT32_MAX \<or> good req bits (off v) (minsz v)) \<and>
     (if flag v then
        minsz v < tmpminsz v \<or>
        0 \<le> tmpoff v \<and> tmpoff v + tmpminsz v = int i \<and> 0 < tmpminsz v \<and> free bits (nat (tmpoff v)) i \<and>
          (tmpoff v = 0 \<or> \<not> bits ! (nat (tmpoff v) - 1))
      else
        (i = 0 \<or> \<not> bits ! (i - 1)) \<and>
        (tmpminsz v = -1 \<and> tmpoff v = -1 \<and> off v = -1 \<or> good req bits (tmpoff v) (tmpminsz v)))"


lemma free_Suc: "free bits i j \<Longrightarrow> j < length bits \<Longrightarrow> bits ! j \<Longrightarrow> free bits i (Suc j)"
  by (auto simp: free_def less_Suc_eq)

lemma search_step_inv:
  assumes inv: "search_inv req bits i v" and i: "i < length bits" and req: "0 < req" and ok: "no_short_run req bits"
  shows "search_inv req bits (Suc i) (search_step req v (i, bits ! i))"
proof (cases "flag v")
  case False
  then show ?thesis
  proof (cases "bits ! i")
    case True
    have "free bits i (Suc i)" using True i by (auto simp: free_def less_Suc_eq)
    then show ?thesis using False True inv by (auto simp: search_inv_def search_step_def)
  next
    case f: False
    then show ?thesis using False inv by (auto simp: search_inv_def search_step_def)
  qed
next
  case True
  note inv' = inv[unfolded search_inv_def if_P[OF True]]
  show ?thesis
  proof (cases "bits ! i")
    case b: True
    then have "free bits (nat (tmpoff v)) (Suc i)" if "free bits (nat (tmpoff v)) i" using that free_Suc i by blast
    then show ?thesis using True b inv' by (auto simp: search_inv_def search_step_def)
  next
    case b: False
    show ?thesis
    proof (cases "minsz v < tmpminsz v")
      case m: True
      then have "search_step req v (i, bits ! i) = v" using True b by (simp add: search_step_def fits_def)
      then show ?thesis using True m inv' by (simp add: search_inv_def)
    next
      case m: False
      then have r: "0 \<le> tmpoff v" "tmpoff v + tmpminsz v = int i" "0 < tmpminsz v" "free bits (nat (tmpoff v)) i"
        "tmpoff v = 0 \<or> \<not> bits ! (nat (tmpoff v) - 1)"
        using inv' by auto
      have "nat (tmpoff v) < i" using r(1-3) by simp
      then have "req \<le> int (i - nat (tmpoff v))"
        using ok i b r(4,5) unfolding no_short_run_def by (metis nat_0)
      moreover have "int (i - nat (tmpoff v)) = tmpminsz v" using r(1,2) \<open>nat (tmpoff v) < i\<close> by simp
      ultimately have "req \<le> tmpminsz v" by simp
      then have "fits req v" "good req bits (tmpoff v) (tmpminsz v)" using m r by (simp_all add: fits_def good_def)
      then show ?thesis using True b by (simp add: search_inv_def search_step_def)
    qed
  qed
qed

lemma search_all_inv:
  assumes "0 < req" "no_short_run req bits" "n \<le> length bits"
  shows "search_inv req bits n (foldl (search_step req) start_search (enumerate 0 (take n bits)))"
  using assms(3)
proof (induction n)
  case 0
  show ?case by (simp add: search_inv_def start_search_def)
next
  case (Suc n)
  then have "enumerate 0 (take (Suc n) bits) = enumerate 0 (take n bits) @ [(n, bits ! n)]"
    by (simp add: take_Suc_conv_app_nth enumerate_append_eq)
  then show ?case using search_step_inv[OF Suc.IH _ assms(1,2)] Suc.prems by simp
qed

lemma find_blocks_good:
  assumes "0 < req" "no_short_run req bits" "find_blocks req bits \<noteq> -1"
  shows "\<exists>n. good req bits (find_blocks req bits) n"
proof -
  let ?v = "foldl (search_step req) start_search (enumerate 0 bits)"
  have inv: "search_inv req bits (length bits) ?v" using search_all_inv[OF assms(1,2) order_refl] by simp
  have p: "off (search_end req ?v) \<noteq> -1" using assms(3) by (simp add: find_blocks_def)
  show ?thesis
  proof (cases "fits req ?v")
    case True
    then have "good req bits (tmpoff ?v) (tmpminsz ?v)"
      using inv assms(1) by (auto simp: search_inv_def fits_def good_def split: if_splits)
    then show ?thesis using True by (auto simp: find_blocks_def search_end_def)
  next
    case False
    then show ?thesis using inv p by (auto simp: find_blocks_def search_end_def search_inv_def)
  qed
qed

text \<open>While no free run before a used block is too short for the request, \<open>alloc\<close> hands out blocks
  of the page that were all free, marks exactly those, and \<open>dealloc\<close> of its result makes the bitmap
  what it was.\<close>

theorem alloc_gives_free_blocks:
  assumes "alloc sz a = (Some ptr, a')" and "0 < sz" and "no_short_run (sz div int MINALLOC) (bitmap a)"
    and "length (bitmap a) = NUM_ELEM"
  shows "\<exists>p. ptr = mem a + p * MINALLOC \<and> p * MINALLOC + nat sz \<le> PAGESIZE \<and>
    (\<forall>k<NUM_ELEM. bitmap a' ! k = (bitmap a ! k \<and> \<not> (p \<le> k \<and> k * MINALLOC < p * MINALLOC + nat sz))) \<and>
    (\<forall>k. p \<le> k \<longrightarrow> k * MINALLOC < p * MINALLOC + nat sz \<longrightarrow> bitmap a ! k) \<and>
    bitmap (dealloc ptr a') = bitmap a"
proof -
  let ?req = "sz div int MINALLOC"
  let ?p = "find_blocks ?req (bitmap a)"
  have m: "sz mod 8 = 0" "?p \<noteq> -1" using assms(1) by (auto simp: alloc_def MINALLOC_def Let_def split: if_splits)
  then have req: "0 < ?req" "sz = 8 * ?req" using assms(2) by (auto simp: MINALLOC_def)
  obtain n where n: "good ?req (bitmap a) ?p n" using find_blocks_good[OF req(1) assms(3) m(2)] by blast
  then have p: "0 \<le> ?p" "?req \<le> n" "nat (?p + n) \<le> NUM_ELEM" "\<And>k. nat ?p \<le> k \<Longrightarrow> k < nat (?p + n) \<Longrightarrow> bitmap a ! k"
    using assms(4) by (auto simp: good_def free_def)
  have range: "nat ?p + nat ?req \<le> nat (?p + n)" using p(1,2) req(1) by simp
  have fr: "bitmap a ! k" if "nat ?p \<le> k" "k < nat ?p + nat ?req" for k using p(4) that range by simp
  have ptr: "ptr = mem a + nat ?p * MINALLOC"
    and a': "a' = a\<lparr>ptr_to_sz := (ptr_to_sz a)(ptr \<mapsto> ?req), bitmap := set_bits (nat ?p) (nat ?req) False (bitmap a)\<rparr>"
    using assms(1) m by (auto simp: alloc_def Let_def MINALLOC_def)
  have "0 < nat ?req" "NUM_ELEM = 512" using req(1) by (simp_all add: MINALLOC_def NUM_ELEM_def PAGESIZE_def)
  then have "nat ?p < 512" using p(3) range by linarith
  then have i: "(ptr - mem a') mod 4096 div MINALLOC = nat ?p"
    using ptr a' by (simp add: MINALLOC_def)
  have d: "bitmap (dealloc ptr a') = set_bits (nat ?p) (nat ?req) True (bitmap a')"
    unfolding dealloc_def using i a' by (simp add: Let_def)
  have restored: "bitmap (dealloc ptr a') = bitmap a"
    unfolding d using a' fr by (simp add: set_bits_back)
  have nsz: "nat sz = nat ?req * 8" using req by simp
  have iff: "k * MINALLOC < nat ?p * MINALLOC + nat sz \<longleftrightarrow> k < nat ?p + nat ?req" for k
    unfolding nsz MINALLOC_def by linarith
  have "nat ?p * MINALLOC + nat sz \<le> PAGESIZE"
    unfolding nsz using range p(3) \<open>NUM_ELEM = 512\<close> by (simp add: MINALLOC_def PAGESIZE_def)
  moreover have "bitmap a' ! k = (bitmap a ! k \<and> \<not> (nat ?p \<le> k \<and> k < nat ?p + nat ?req))" if "k < NUM_ELEM" for k
    using that assms(4) a' by (auto simp: nth_set_bits)
  ultimately show ?thesis using ptr fr restored by (intro exI[of _ "nat ?p"]) (simp add: iff)
qed


section \<open>A short run\<close>

text \<open>While a run is counted, a free block makes it longer, and a used one ends it only if it fits.\<close>

lemma search_free_run:
  "flag v \<Longrightarrow> foldl (search_step req) v (enumerate i (replicate n True)) = v\<lparr>tmpminsz := tmpminsz v + int n\<rparr>"
  by (induction n arbitrary: v i) (simp_all add: search_step_def)

lemma find_blocks_fresh: "0 < n \<Longrightarrow> req \<le> int n \<Longrightarrow> int n \<le> INT32_MAX \<Longrightarrow> find_blocks req (replicate n True) = 0"
  by (cases n) (simp_all add: find_blocks_def search_step_def start_search_def search_free_run search_end_def fits_def)

lemma find_blocks_used_front:
  "0 < n \<Longrightarrow> req \<le> int n \<Longrightarrow> int n \<le> INT32_MAX \<Longrightarrow> find_blocks req (False # replicate n True) = 1"
  by (cases n) (simp_all add: find_blocks_def search_step_def start_search_def search_free_run search_end_def fits_def)

lemma find_blocks_short_run:
  "1 < req \<Longrightarrow> req \<le> int n + 1 \<Longrightarrow> int n < INT32_MAX \<Longrightarrow> find_blocks req (True # False # replicate n True) = 0"
  by (simp add: find_blocks_def search_step_def start_search_def search_free_run search_end_def fits_def)

theorem alloc_gives_free_blocks_witness:
  "fst (alloc 8 (init_alloc 4096)) = Some 4096 \<and>
   bitmap (dealloc 4096 (snd (alloc 8 (init_alloc 4096)))) = bitmap (init_alloc 4096)"
proof -
  have n: "NUM_ELEM = 512" by (simp add: NUM_ELEM_def PAGESIZE_def MINALLOC_def)
  have s: "no_short_run (8 div int MINALLOC) (bitmap (init_alloc 4096))" "length (bitmap (init_alloc 4096)) = NUM_ELEM"
    by (auto simp: no_short_run_def MINALLOC_def init_alloc_def)
  have "find_blocks 1 (replicate 512 True) = 0" by (rule find_blocks_fresh) (simp_all add: INT32_MAX_def)
  then have "fst (alloc 8 (init_alloc 4096)) = Some 4096"
    by (simp add: alloc_def MINALLOC_def Let_def init_alloc_def n)
  moreover from this have "alloc 8 (init_alloc 4096) = (Some 4096, snd (alloc 8 (init_alloc 4096)))"
    by (simp add: prod_eq_iff)
  from alloc_gives_free_blocks[OF this _ s] have "bitmap (dealloc 4096 (snd (alloc 8 (init_alloc 4096)))) = bitmap (init_alloc 4096)"
    by auto
  ultimately show ?thesis by blast
qed

text \<open>C34: After \<open>p1 = alloc(8); p2 = alloc(8); dealloc(p1)\<close> the call \<open>alloc(16)\<close> returns \<open>p1\<close>, whose 16 bytes
  contain the block \<open>p2\<close> that is still in use: the search does not restart after a free run that is too
  short.\<close>

theorem alloc_overlaps:
  "let a0 = init_alloc page;
       (p1, a1) = alloc 8 a0;
       (p2, a2) = alloc 8 a1;
       a3 = dealloc page a2;
       (p3, a4) = alloc 16 a3 in
   p1 = Some page \<and> p2 = Some (page + 8) \<and> p3 = Some page \<and> ptr_to_sz a4 (page + 8) = Some 1 \<and> ptr_to_sz a4 page = Some 2"
proof -
  have n: "NUM_ELEM = 512" by (simp add: NUM_ELEM_def PAGESIZE_def MINALLOC_def)
  have sb: "set_bits 0 (Suc 0) False (replicate 512 True) = False # replicate 511 True"
    "set_bits (Suc 0) (Suc 0) False (False # replicate 511 True) = False # False # replicate 510 True"
    "set_bits 0 (Suc 0) True (False # False # replicate 510 True) = True # False # replicate 510 True"
    by (simp_all add: set_bits_def numeral_eq_Suc)
  have f: "find_blocks 1 (replicate 512 True) = 0" by (rule find_blocks_fresh) (simp_all add: INT32_MAX_def)
  have f1: "find_blocks 1 (False # replicate 511 True) = 1" by (rule find_blocks_used_front) (simp_all add: INT32_MAX_def)
  have f2: "find_blocks 2 (True # False # replicate 510 True) = 0" by (rule find_blocks_short_run) (simp_all add: INT32_MAX_def)
  show ?thesis
    by (simp add: alloc_def dealloc_def init_alloc_def n MINALLOC_def Let_def f f1 f2 sb)
qed

end
