(* ===== verification/FileIO.thy ===== *)
theory FileIO
  imports Fs
begin

text \<open>
  The contents of files: what \<open>readi\<close> and \<open>writei\<close> do, inside a transaction, to the bytes of an inode
  whose blocks are allocated.  The blocks are seen through the buffer cache and the log, by the
  interface of BlockStore.
\<close>

section \<open>Blocks as the file system sees them\<close>

definition vw :: "fss \<Rightarrow> nat \<Rightarrow> bytes" where "vw s = bview (lb (fl s))"
definition blks :: "fss \<Rightarrow> nat set" where "blks s = data_blocks (fl s)"

text \<open>\<open>fs_ok k s\<close>: a transaction is open, with room for \<open>k\<close> more changes, and no buffer is held.\<close>

definition fs_ok :: "nat \<Rightarrow> fss \<Rightarrow> bool" where "fs_ok k s = logged_ok k (fl s)"
definition fs_held :: "nat \<Rightarrow> nat \<Rightarrow> nat \<Rightarrow> fss \<Rightarrow> bool" where "fs_held k i n s = logged_held k i n (fl s)"

definition same_rest :: "fss \<Rightarrow> fss \<Rightarrow> bool" where
  "same_rest s s' \<longleftrightarrow> blks s' = blks s \<and> inodes s' = inodes s \<and> sb s' = sb s \<and> con s' = con s"

definition same_fs :: "fss \<Rightarrow> fss \<Rightarrow> bool" where
  "same_fs s s' \<longleftrightarrow> vw s' = vw s \<and> same_rest s s'"

lemma same_rest_refl [simp]: "same_rest s s"
  by (simp add: same_rest_def)

lemma same_fs_refl [simp]: "same_fs s s"
  by (simp add: same_fs_def)

lemma same_rest_trans: "same_rest s t \<Longrightarrow> same_rest t u \<Longrightarrow> same_rest s u"
  by (simp add: same_rest_def)

lemma same_fs_trans: "same_fs s t \<Longrightarrow> same_fs t u \<Longrightarrow> same_fs s u"
  by (auto simp: same_fs_def intro: same_rest_trans)

lemma same_fsD:
  assumes "same_fs s s'"
  shows "vw s' = vw s" "blks s' = blks s" "inodes s' = inodes s" "sb s' = sb s"
  using assms by (simp_all add: same_fs_def same_rest_def)

lemma fs_bread:
  assumes "fs_ok k s" "n \<in> blks s"
  shows "\<exists>bp s'. on_fb (bread 1 (of_nat n)) s = Ok bp s' \<and> fs_held k bp n s' \<and> fdata s' bp = vw s n \<and> same_fs s s'"
proof -
  obtain bp t where t: "on_lb (bread 1 (of_nat n)) (fl s) = Ok bp t" "logged_held k bp n t"
    "bdata (bufs (lb t) ! bp) = bview (lb (fl s)) n" "bview (lb t) = bview (lb (fl s))" "data_blocks t = data_blocks (fl s)"
    using logged.rd[of k "fl s" n] assms by (auto simp: fs_ok_def blks_def)
  from zoom_Ok[of "on_lb (bread 1 (of_nat n))" fl s bp t fl_update, OF t(1)] show ?thesis
    using t by (intro exI[of _ bp] exI[of _ "s\<lparr>fl := t\<rparr>"])
      (simp add: fs_held_def fdata_def vw_def same_fs_def same_rest_def blks_def)
qed

lemma fs_write:
  assumes "fs_held (Suc k) bp n s" "n \<in> blks s" "length d = BSIZE"
  shows "\<exists>s'. on_fl (log_write bp) (set_fdata bp d s) = Ok () s' \<and> fs_held k bp n s' \<and> vw s' = (vw s)(n := d) \<and> same_rest s s'"
proof -
  obtain t where t: "write_logged bp d (fl s) = Ok () t" "logged_held k bp n t" "bview (lb t) = (bview (lb (fl s)))(n := d)"
    "data_blocks t = data_blocks (fl s)"
    using logged.wr[of k bp n "fl s" d] assms by (auto simp: fs_held_def blks_def)
  have "log_write bp (fl (set_fdata bp d s)) = Ok () t" using t(1) by (simp add: write_logged_def set_fdata_def)
  from zoom_Ok[of "log_write bp" fl "set_fdata bp d s" "()" t fl_update, OF this] show ?thesis
    using t by (intro exI[of _ "s\<lparr>fl := t\<rparr>"]) (simp add: fs_held_def vw_def same_rest_def blks_def set_fdata_def)
qed

lemma fs_brelse:
  assumes "fs_held k bp n s"
  shows "\<exists>s'. on_fb (brelse bp) s = Ok () s' \<and> fs_ok k s' \<and> same_fs s s'"
proof -
  obtain t where t: "on_lb (brelse bp) (fl s) = Ok () t" "logged_ok k t" "bview (lb t) = bview (lb (fl s))"
    "data_blocks t = data_blocks (fl s)"
    using logged.rel[of k bp n "fl s"] assms by (auto simp: fs_held_def)
  from zoom_Ok[of "on_lb (brelse bp)" fl s "()" t fl_update, OF t(1)] show ?thesis
    using t by (intro exI[of _ "s\<lparr>fl := t\<rparr>"]) (simp add: fs_ok_def vw_def same_fs_def same_rest_def blks_def)
qed

lemma fs_block_length: "fs_ok k s \<Longrightarrow> n \<in> blks s \<Longrightarrow> length (vw s n) = BSIZE"
  using logged.view_length[of k "fl s" n] by (simp add: fs_ok_def blks_def vw_def)

section \<open>The contents of an inode\<close>

text \<open>
  The blocks of an inode: the direct ones, then those the indirect block lists.  They depend on the
  inode and, through the indirect block, on the blocks \<open>v\<close>.
\<close>

definition addr_of :: "(nat \<Rightarrow> bytes) \<Rightarrow> inode \<Rightarrow> nat \<Rightarrow> uint" where
  "addr_of v ip bn =
     (if bn < NDIRECT then iaddrs ip ! bn
      else get32 (4 * (bn - NDIRECT)) (v (unat (iaddrs ip ! NDIRECT))))"

definition mapped :: "(nat \<Rightarrow> bytes) \<Rightarrow> nat set \<Rightarrow> inode \<Rightarrow> nat \<Rightarrow> bool" where
  "mapped v B ip bn \<longleftrightarrow> bn < MAXFILE \<and> addr_of v ip bn \<noteq> 0 \<and> unat (addr_of v ip bn) \<in> B \<and>
     (NDIRECT \<le> bn \<longrightarrow> iaddrs ip ! NDIRECT \<noteq> 0 \<and> unat (iaddrs ip ! NDIRECT) \<in> B)"

definition byte_of :: "(nat \<Rightarrow> bytes) \<Rightarrow> inode \<Rightarrow> nat \<Rightarrow> u8" where
  "byte_of v ip k = v (unat (addr_of v ip (k div BSIZE))) ! (k mod BSIZE)"

definition contents :: "fss \<Rightarrow> nat \<Rightarrow> bytes" where
  "contents s i = map (byte_of (vw s) (inodes s ! i)) [0..<unat (isize (inodes s ! i))]"

text \<open>
  A regular file on disk 1: all the blocks up to its size are allocated, no two are the same, and
  none of them is the indirect block.
\<close>

definition file_ok :: "fss \<Rightarrow> nat \<Rightarrow> bool" where
  "file_ok s i \<longleftrightarrow>
     (let ip = inodes s ! i; v = vw s; nb = (unat (isize ip) + BSIZE - 1) div BSIZE in
      itype ip \<noteq> T_DEV \<and> idev ip = 1 \<and> unat (isize ip) \<le> MAXFILE * BSIZE \<and>
      (\<forall>bn<nb. mapped v (blks s) ip bn) \<and>
      (\<forall>a<nb. \<forall>b<nb. addr_of v ip a = addr_of v ip b \<longrightarrow> a = b) \<and>
      (NDIRECT < nb \<longrightarrow> (\<forall>bn<nb. addr_of v ip bn \<noteq> iaddrs ip ! NDIRECT)))"

lemma bmap_mapped:
  assumes ok: "fs_ok k s" and m: "mapped (vw s) (blks s) (inodes s ! i) bn" and dev: "idev (inodes s ! i) = 1"
  shows "\<exists>s'. bmap i (of_nat bn) s = Ok (addr_of (vw s) (inodes s ! i) bn) s' \<and> fs_ok k s' \<and> same_fs s s'"
proof -
  let ?ip = "inodes s ! i"
  have bn: "unat (of_nat bn :: uint) = bn" using m by (simp add: mapped_def fs_consts unat_of_nat)
  show ?thesis
  proof (cases "bn < NDIRECT")
    case True
    then show ?thesis using m ok bn by (intro exI[of _ s]) (simp add: bmap_def mapped_def addr_of_def Let_def)
  next
    case False
    let ?a = "iaddrs ?ip ! NDIRECT" and ?k = "4 * (bn - NDIRECT)"
    have a: "?a \<noteq> 0" "unat ?a \<in> blks s" and e: "get32 ?k (vw s (unat ?a)) \<noteq> 0" and kb: "bn - NDIRECT < NINDIRECT"
      using m False by (auto simp: mapped_def addr_of_def MAXFILE_def)
    obtain bp s1 where 1: "on_fb (bread 1 (of_nat (unat ?a))) s = Ok bp s1" "fs_held k bp (unat ?a) s1"
      "fdata s1 bp = vw s (unat ?a)" "same_fs s s1"
      using fs_bread[OF ok a(2)] by blast
    obtain s2 where 2: "on_fb (brelse bp) s1 = Ok () s2" "fs_ok k s2" "same_fs s1 s2"
      using fs_brelse[OF 1(2)] by blast
    have "bmap i (of_nat bn) s = Ok (addr_of (vw s) ?ip bn) s2"
      using False a(1) e kb 1(1,3) 2(1) dev bn by (simp add: bmap_def addr_of_def Let_def)
    then show ?thesis using 2 same_fs_trans[OF 1(4) 2(3)] by blast
  qed
qed

section \<open>Reading\<close>

lemma split_block: "r < b \<Longrightarrow> (b * q + r) div b = q \<and> (b * q + r) mod b = r" for b q r :: nat
  by simp

lemma in_block:
  assumes "j < BSIZE - off mod BSIZE"
  shows "(off + j) div BSIZE = off div BSIZE" "(off + j) mod BSIZE = off mod BSIZE + j"
proof -
  have e: "off + j = BSIZE * (off div BSIZE) + (off mod BSIZE + j)" using mult_div_mod_eq[of BSIZE off] by linarith
  have l: "off mod BSIZE + j < BSIZE" using assms by simp
  from split_block[OF l, of "off div BSIZE"]
  show "(off + j) div BSIZE = off div BSIZE" "(off + j) mod BSIZE = off mod BSIZE + j"
    unfolding e[symmetric] by simp_all
qed

lemma block_bytes:
  assumes "length (v (unat (addr_of v ip (off div BSIZE)))) = BSIZE" and "m \<le> BSIZE - off mod BSIZE"
  shows "take m (drop (off mod BSIZE) (v (unat (addr_of v ip (off div BSIZE))))) = map (byte_of v ip) [off..<off + m]"
proof (rule nth_equalityI)
  show "length (take m (drop (off mod BSIZE) (v (unat (addr_of v ip (off div BSIZE)))))) = length (map (byte_of v ip) [off..<off + m])"
    using assms by simp
  fix j assume "j < length (take m (drop (off mod BSIZE) (v (unat (addr_of v ip (off div BSIZE))))))"
  then have j: "j < m" "j < BSIZE - off mod BSIZE" using assms by simp_all
  then show "take m (drop (off mod BSIZE) (v (unat (addr_of v ip (off div BSIZE))))) ! j = map (byte_of v ip) [off..<off + m] ! j"
    using assms(1) in_block[OF j(2)] by (simp add: byte_of_def)
qed

lemma readi_loop_spec:
  assumes "fs_ok k s" "idev (inodes s ! i) = 1"
    and "\<And>bn. off div BSIZE \<le> bn \<Longrightarrow> bn * BSIZE < off + left \<Longrightarrow> mapped (vw s) (blks s) (inodes s ! i) bn"
  shows "\<exists>s'. readi_loop i off left acc s = Ok (acc @ map (byte_of (vw s) (inodes s ! i)) [off..<off + left]) s' \<and>
    fs_ok k s' \<and> same_fs s s'"
  using assms
proof (induction left arbitrary: off acc s rule: less_induct)
  case (less left)
  show ?case
  proof (cases "left = 0")
    case True
    then show ?thesis using less.prems(1) by (intro exI[of _ s]) (simp add: readi_loop.simps)
  next
    case False
    let ?ip = "inodes s ! i" and ?bn = "off div BSIZE"
    let ?a = "addr_of (vw s) ?ip ?bn" and ?m = "min left (BSIZE - off mod BSIZE)"
    have "?bn * BSIZE < off + left" using False by (metis div_times_less_eq_dividend le_neq_implies_less less_add_same_cancel1 neq0_conv order_le_less_trans)
    then have m: "mapped (vw s) (blks s) ?ip ?bn" using less.prems(3) by simp
    obtain s1 where 1: "bmap i (of_nat ?bn) s = Ok ?a s1" "fs_ok k s1" "same_fs s s1"
      using bmap_mapped[OF less.prems(1) m less.prems(2)] by blast
    have an: "unat ?a \<in> blks s" using m by (simp add: mapped_def)
    obtain bp s2 where 2: "on_fb (bread 1 (of_nat (unat ?a))) s1 = Ok bp s2" "fs_held k bp (unat ?a) s2"
      "fdata s2 bp = vw s (unat ?a)" "same_fs s1 s2"
      using fs_bread[OF 1(2), of "unat ?a"] an same_fsD[OF 1(3)] by auto
    obtain s3 where 3: "on_fb (brelse bp) s2 = Ok () s3" "fs_ok k s3" "same_fs s2 s3"
      using fs_brelse[OF 2(2)] by blast
    have same: "same_fs s s3" using 1(3) 2(4) 3(3) same_fs_trans by blast
    let ?acc = "acc @ map (byte_of (vw s) ?ip) [off..<off + ?m]"
    have chunk: "take ?m (drop (off mod BSIZE) (fdata s2 bp)) = map (byte_of (vw s) ?ip) [off..<off + ?m]"
      unfolding 2(3) by (rule block_bytes) (use fs_block_length[OF less.prems(1) an] in simp_all)
    have step: "readi_loop i off left acc s = readi_loop i (off + ?m) (left - ?m) ?acc s3"
      using False 1(1) 2(1) 3(1) less.prems(2) same_fsD(3)[OF 1(3)] chunk
      by (subst readi_loop.simps) (simp add: Let_def)
    have mB: "0 < ?m" using False by (simp add: BSIZE_def)
    have "\<exists>s'. readi_loop i (off + ?m) (left - ?m) ?acc s3 = Ok (?acc @ map (byte_of (vw s3) (inodes s3 ! i)) [off + ?m..<off + ?m + (left - ?m)]) s' \<and>
        fs_ok k s' \<and> same_fs s3 s'"
    proof (rule less.IH)
      show "left - ?m < left" using mB False by simp
      show "mapped (vw s3) (blks s3) (inodes s3 ! i) bn" if "(off + ?m) div BSIZE \<le> bn" "bn * BSIZE < off + ?m + (left - ?m)" for bn
        using that less.prems(3)[of bn] div_le_mono[of off "off + ?m" BSIZE] unfolding same_fsD[OF same] by simp
    qed (use 3(2) less.prems(2) same_fsD[OF same] in simp_all)
    then obtain s' where s': "readi_loop i (off + ?m) (left - ?m) ?acc s3 =
        Ok (?acc @ map (byte_of (vw s) ?ip) [off + ?m..<off + ?m + (left - ?m)]) s'" "fs_ok k s'" "same_fs s3 s'"
      unfolding same_fsD[OF same] by blast
    have "[off..<off + left] = [off..<off + ?m] @ [off + ?m..<off + ?m + (left - ?m)]"
      using upt_add_eq_append[of off "off + ?m" "left - ?m"] by simp
    then show ?thesis unfolding step s'(1) using s'(2) same_fs_trans[OF same s'(3)] by auto
  qed
qed

lemma map_upt_contents:
  assumes "off + n \<le> unat (isize (inodes s ! i))"
  shows "map (byte_of (vw s) (inodes s ! i)) [off..<off + n] = take n (drop off (contents s i))"
  by (rule nth_equalityI) (use assms in \<open>simp_all add: contents_def\<close>)

lemma file_mapped:
  assumes "file_ok s i" "bn * BSIZE < off + n" "off + n \<le> unat (isize (inodes s ! i))"
  shows "mapped (vw s) (blks s) (inodes s ! i) bn"
proof -
  have "bn * BSIZE < unat (isize (inodes s ! i))" using assms(2,3) by linarith
  then have "bn < (unat (isize (inodes s ! i)) + BSIZE - 1) div BSIZE" by (simp add: BSIZE_def)
  then show ?thesis using assms(1) by (simp add: file_ok_def Let_def)
qed

lemma sint_of_nat: "n < 2 ^ 31 \<Longrightarrow> sint (of_nat n :: uint) = int n"
  by (simp add: signed_of_nat signed_take_bit_int_eq_self)

lemma take_drop_contents:
  "off \<le> unat (isize (inodes s ! i)) \<Longrightarrow>
    take (min n (unat (isize (inodes s ! i)) - off)) (drop off (contents s i)) = take n (drop off (contents s i))"
  by (simp add: contents_def min_def)

text \<open>Reading returns the bytes asked for, as far as the file has them.\<close>

lemma readi_contents:
  assumes ok: "fs_ok k s" and f: "file_ok s i" and off: "off \<le> unat (isize (inodes s ! i))" and n: "n < 2 ^ 31"
  shows "\<exists>s'. readi devs i (of_nat off) (of_nat n) s =
      Ok (int (min n (unat (isize (inodes s ! i)) - off)), take n (drop off (contents s i))) s' \<and>
    fs_ok k s' \<and> same_fs s s'"
proof -
  let ?ip = "inodes s ! i" and ?sz = "unat (isize (inodes s ! i))"
  let ?n = "min n (?sz - off)"
  have big: "?sz < 2 ^ 31" using f by (simp add: file_ok_def Let_def fs_consts)
  have u: "unat (of_nat off :: uint) = off" "unat (of_nat n :: uint) = n" "unat (of_nat off + of_nat n :: uint) = off + n"
    using n off big by (simp_all add: unat_of_nat flip: of_nat_add)
  have ty: "itype ?ip \<noteq> T_DEV" "idev ?ip = 1" using f by (simp_all add: file_ok_def Let_def)
  have g: "\<not> (isize ?ip < of_nat off \<or> (of_nat off + of_nat n :: uint) < of_nat off)"
    using off by (simp add: word_less_nat_alt u)
  have d: "unat (isize ?ip - of_nat off) = ?sz - off"
    using off by (simp add: unat_sub word_le_nat_alt u(1))
  have cut: "unat (if isize ?ip < of_nat off + of_nat n then isize ?ip - of_nat off else of_nat n :: uint) = ?n"
    using off by (simp add: word_less_nat_alt u d)
  have un: "unat (of_nat ?n :: uint) = ?n" using n by (simp add: unat_of_nat min_def)
  with cut have cut': "(if isize ?ip < of_nat off + of_nat n then isize ?ip - of_nat off else of_nat n :: uint) = of_nat ?n"
    by (simp only: word_unat_eq_iff)
  have nz: "off + ?n \<le> ?sz" using off by simp
  obtain s' where s': "readi_loop i off ?n [] s = Ok ([] @ map (byte_of (vw s) ?ip) [off..<off + ?n]) s'" "fs_ok k s'" "same_fs s s'"
    using readi_loop_spec[OF ok ty(2), of off ?n "[]"] file_mapped[OF f _ nz] by blast
  have "readi devs i (of_nat off) (of_nat n) s = Ok (int ?n, take ?n (drop off (contents s i))) s'"
    unfolding readi_def Let_def cut' if_not_P[OF ty(1)] if_not_P[OF g]
    using s'(1) map_upt_contents[OF nz] sint_of_nat[of ?n] n by (simp add: u(1) un)
  then show ?thesis using s' take_drop_contents[OF off] by auto
qed

section \<open>Writing\<close>

text \<open>The number of blocks a write touches, each of which \<open>writei\<close> logs once.\<close>

definition rounds :: "nat \<Rightarrow> nat \<Rightarrow> nat" where
  "rounds off left = (off mod BSIZE + left + (BSIZE - 1)) div BSIZE"

lemma rounds_0: "rounds off 0 \<le> 1"
  by (simp add: rounds_def BSIZE_def)

lemma rounds_step:
  assumes "0 < left"
  shows "\<exists>r. rounds off left = Suc r \<and> (left - min left (BSIZE - off mod BSIZE) = 0 \<or>
    rounds (off + min left (BSIZE - off mod BSIZE)) (left - min left (BSIZE - off mod BSIZE)) = r)"
proof -
  let ?x = "off mod BSIZE"
  have x: "?x < BSIZE" by (simp add: BSIZE_def)
  have r1: "1 \<le> rounds off left" using assms x by (simp add: rounds_def BSIZE_def)
  show ?thesis
  proof (cases "left \<le> BSIZE - ?x")
    case True
    then show ?thesis using r1 by (intro exI[of _ "rounds off left - 1"]) simp
  next
    case False
    have "off + (BSIZE - ?x) = BSIZE * (off div BSIZE + 1)"
      using x mult_div_mod_eq[of BSIZE off] unfolding distrib_left mult_1_right by linarith
    then have z: "(off + (BSIZE - ?x)) mod BSIZE = 0" by simp
    have "?x + left + (BSIZE - 1) = (left - (BSIZE - ?x) + (BSIZE - 1)) + BSIZE" using False x by simp
    then have "rounds off left = (left - (BSIZE - ?x) + (BSIZE - 1)) div BSIZE + 1"
      unfolding rounds_def by (simp add: BSIZE_def)
    then show ?thesis using False z by (simp add: rounds_def)
  qed
qed

text \<open>Changing one data block of a file changes the bytes of that block only.\<close>

lemma file_write_block:
  assumes f: "file_ok s i" and bn: "bn * BSIZE < unat (isize (inodes s ! i))" and r: "same_rest s s'"
    and v: "vw s' = (vw s)(unat (addr_of (vw s) (inodes s ! i) bn) := d)"
  shows "file_ok s' i"
    and "k < unat (isize (inodes s ! i)) \<Longrightarrow> byte_of (vw s') (inodes s ! i) k =
      (if k div BSIZE = bn then d ! (k mod BSIZE) else byte_of (vw s) (inodes s ! i) k)"
    and "b * BSIZE < unat (isize (inodes s ! i)) \<Longrightarrow> addr_of (vw s') (inodes s ! i) b = addr_of (vw s) (inodes s ! i) b"
proof -
  let ?ip = "inodes s ! i"
  let ?nb = "(unat (isize ?ip) + BSIZE - 1) div BSIZE" and ?a = "addr_of (vw s) ?ip bn"
  have nb: "b < ?nb \<longleftrightarrow> b * BSIZE < unat (isize ?ip)" for b
    unfolding BSIZE_def less_eq_div_iff_mult_less_eq[OF zero_less_numeral, symmetric] Suc_le_eq[symmetric] by arith
  have F: "itype ?ip \<noteq> T_DEV" "idev ?ip = 1" "unat (isize ?ip) \<le> MAXFILE * BSIZE"
    and mp: "\<And>b. b < ?nb \<Longrightarrow> mapped (vw s) (blks s) ?ip b"
    and inj: "\<And>a b. a < ?nb \<Longrightarrow> b < ?nb \<Longrightarrow> addr_of (vw s) ?ip a = addr_of (vw s) ?ip b \<Longrightarrow> a = b"
    and ind: "\<And>b. NDIRECT < ?nb \<Longrightarrow> b < ?nb \<Longrightarrow> addr_of (vw s) ?ip b \<noteq> iaddrs ?ip ! NDIRECT"
    using f unfolding file_ok_def Let_def by blast+
  have bnb: "bn < ?nb" using bn by (simp only: nb)
  have addr: "addr_of (vw s') ?ip b = addr_of (vw s) ?ip b" if "b < ?nb" for b
  proof (cases "b < NDIRECT")
    case False
    then have "NDIRECT < ?nb" using that by linarith
    then have "?a \<noteq> iaddrs ?ip ! NDIRECT" using ind bnb by blast
    then show ?thesis using False v by (simp add: addr_of_def word_unat_eq_iff)
  qed (simp add: addr_of_def)
  show "addr_of (vw s') ?ip b = addr_of (vw s) ?ip b" if "b * BSIZE < unat (isize ?ip)" for b
    using addr that by (simp only: nb)
  have "mapped (vw s') (blks s') ?ip b" if "b < ?nb" for b
    using mp[OF that] addr[OF that] r unfolding mapped_def same_rest_def by simp
  then show "file_ok s' i"
    using F addr inj ind r unfolding file_ok_def Let_def same_rest_def by simp
  show "byte_of (vw s') ?ip k = (if k div BSIZE = bn then d ! (k mod BSIZE) else byte_of (vw s) ?ip k)"
    if k: "k < unat (isize ?ip)"
  proof -
    have "k div BSIZE * BSIZE < unat (isize ?ip)" using k by (meson div_times_less_eq_dividend le_less_trans)
    then have kb: "k div BSIZE < ?nb" by (simp only: nb)
    have e: "byte_of (vw s') ?ip k = ((vw s)(unat ?a := d)) (unat (addr_of (vw s) ?ip (k div BSIZE))) ! (k mod BSIZE)"
      by (simp only: byte_of_def addr[OF kb]) (simp only: v)
    show ?thesis
    proof (cases "k div BSIZE = bn")
      case False
      then have "unat (addr_of (vw s) ?ip (k div BSIZE)) \<noteq> unat ?a" using inj[OF kb bnb] by (auto simp: word_unat_eq_iff)
      then show ?thesis using False unfolding e by (simp add: byte_of_def)
    qed (unfold e, simp)
  qed
qed

lemma fs_ok_mono: "fs_ok j s \<Longrightarrow> k \<le> j \<Longrightarrow> fs_ok k s"
  by (auto simp: fs_ok_def logged_ok_def in_txn_def)

definition file_blocks :: "fss \<Rightarrow> nat \<Rightarrow> nat set" where
  "file_blocks s i = {unat (addr_of (vw s) (inodes s ! i) bn) |bn. bn * BSIZE < unat (isize (inodes s ! i))}"

lemma file_blocks_I: "bn * BSIZE < unat (isize (inodes s ! i)) \<Longrightarrow> unat (addr_of (vw s) (inodes s ! i) bn) \<in> file_blocks s i"
  by (auto simp: file_blocks_def)

text \<open>
  The bytes \<open>src\<close> have been written to the file \<open>i\<close> at \<open>off\<close>: nothing but those bytes, and no block but
  the file's own, has changed.
\<close>

definition written :: "fss \<Rightarrow> nat \<Rightarrow> nat \<Rightarrow> bytes \<Rightarrow> fss \<Rightarrow> bool" where
  "written s i off src s' \<longleftrightarrow> same_rest s s' \<and> file_ok s' i \<and> file_blocks s' i = file_blocks s i \<and>
     (\<forall>x < unat (isize (inodes s ! i)). byte_of (vw s') (inodes s ! i) x =
        (if off \<le> x \<and> x < off + length src then src ! (x - off) else byte_of (vw s) (inodes s ! i) x)) \<and>
     (\<forall>n. n \<notin> file_blocks s i \<longrightarrow> vw s' n = vw s n)"

lemma written_nothing: "file_ok s i \<Longrightarrow> written s i off [] s"
  by (auto simp: written_def)

lemma same_fs_file:
  assumes "same_fs s s'"
  shows "file_ok s' i = file_ok s i" "file_blocks s' i = file_blocks s i"
  using assms by (simp_all add: file_ok_def file_blocks_def same_fs_def same_rest_def)

lemma written_one:
  assumes f: "file_ok s i" and sz: "off + length src \<le> unat (isize (inodes s ! i))" and src: "src \<noteq> []"
    and fit: "length src \<le> BSIZE - off mod BSIZE" and r: "same_rest s s'"
    and d: "length (vw s (unat (addr_of (vw s) (inodes s ! i) (off div BSIZE)))) = BSIZE"
    and v: "vw s' = (vw s)(unat (addr_of (vw s) (inodes s ! i) (off div BSIZE)) :=
      splice (off mod BSIZE) src (vw s (unat (addr_of (vw s) (inodes s ! i) (off div BSIZE)))))"
  shows "written s i off src s'"
proof -
  let ?ip = "inodes s ! i" and ?bn = "off div BSIZE"
  have "?bn * BSIZE \<le> off" by simp
  moreover have "0 < length src" using src by simp
  ultimately have bn: "?bn * BSIZE < unat (isize ?ip)" using sz by linarith
  note w = file_write_block[OF f bn r v]
  have "byte_of (vw s') ?ip x = (if off \<le> x \<and> x < off + length src then src ! (x - off) else byte_of (vw s) ?ip x)"
    if x: "x < unat (isize ?ip)" for x
  proof -
    let ?d = "vw s (unat (addr_of (vw s) ?ip ?bn))"
    have B: "0 < BSIZE" by (simp add: BSIZE_def)
    have nth: "splice (off mod BSIZE) src ?d ! y = (if off mod BSIZE \<le> y \<and> y < off mod BSIZE + length src then src ! (y - off mod BSIZE) else ?d ! y)"
      if "y < BSIZE" for y
    proof -
      have "off mod BSIZE < BSIZE" using B by simp
      then have "off mod BSIZE + length src \<le> length ?d" using fit d by linarith
      then show ?thesis using that d by (simp add: nth_splice)
    qed
    show ?thesis
    proof (cases "off \<le> x \<and> x < off + length src")
      case True
      then obtain j where j: "x = off + j" "j < length src" by (metis add_less_cancel_left le_iff_add)
      then have b: "x div BSIZE = ?bn" "x mod BSIZE = off mod BSIZE + j" using in_block[of j off] fit by simp_all
      have "x mod BSIZE < BSIZE" using B by simp
      then show ?thesis using True w(2)[OF x] nth[of "x mod BSIZE"] j b by simp
    next
      case False
      have "\<not> (off mod BSIZE \<le> x mod BSIZE \<and> x mod BSIZE < off mod BSIZE + length src)" if "x div BSIZE = ?bn"
      proof
        assume a: "off mod BSIZE \<le> x mod BSIZE \<and> x mod BSIZE < off mod BSIZE + length src"
        have "BSIZE * (off div BSIZE) + x mod BSIZE = x" using mult_div_mod_eq[of BSIZE x] that by simp
        moreover have "BSIZE * (off div BSIZE) + off mod BSIZE = off" by (rule mult_div_mod_eq)
        ultimately show False using a False by linarith
      qed
      then show ?thesis using False w(2)[OF x] nth[of "x mod BSIZE"] B by (auto simp: byte_of_def)
    qed
  qed
  moreover have "file_blocks s' i = file_blocks s i"
  proof -
    have ip: "inodes s' = inodes s" using r by (simp add: same_rest_def)
    show ?thesis unfolding file_blocks_def ip by (rule Collect_cong) (use w(3) in metis)
  qed
  moreover have "vw s' n = vw s n" if "n \<notin> file_blocks s i" for n
    using that file_blocks_I[OF bn] by (auto simp: v)
  ultimately show ?thesis using w(1) r by (simp add: written_def)
qed

lemma written_append:
  assumes a: "written s i off xs t" and b: "written t i (off + length xs) ys u"
  shows "written s i off (xs @ ys) u"
proof -
  have ip: "inodes t = inodes s" using a by (simp add: written_def same_rest_def)
  have "byte_of (vw u) (inodes s ! i) x = (if off \<le> x \<and> x < off + length (xs @ ys) then (xs @ ys) ! (x - off)
      else byte_of (vw s) (inodes s ! i) x)" if x: "x < unat (isize (inodes s ! i))" for x
  proof (cases "off + length xs \<le> x \<and> x < off + length xs + length ys")
    case True
    then have "\<not> x - off < length xs" "x - off - length xs = x - (off + length xs)" by linarith+
    then have "(xs @ ys) ! (x - off) = ys ! (x - (off + length xs))" by (simp add: nth_append)
    then show ?thesis using True b x ip by (simp add: written_def)
  next
    case False
    then show ?thesis using a b x ip by (auto simp: written_def nth_append)
  qed
  then show ?thesis using a b ip by (auto simp: written_def intro: same_rest_trans)
qed

lemma written_fields: "written s i off src s' \<Longrightarrow> inodes s' = inodes s \<and> blks s' = blks s \<and> file_ok s' i"
  by (simp add: written_def same_rest_def)

lemma writei_loop_spec:
  assumes "fs_ok (rounds off left + k) s" "file_ok s i" "off + left \<le> unat (isize (inodes s ! i))" "left \<le> length src"
  shows "\<exists>s'. writei_loop i src off left s = Ok () s' \<and> fs_ok k s' \<and> written s i off (take left src) s'"
  using assms
proof (induction left arbitrary: off src s rule: less_induct)
  case (less left)
  show ?case
  proof (cases "left = 0")
    case True
    then show ?thesis using less.prems(1,2) fs_ok_mono[of "rounds off left + k" s k]
      by (intro exI[of _ s]) (simp add: writei_loop.simps written_nothing)
  next
    case False
    let ?ip = "inodes s ! i" and ?bn = "off div BSIZE"
    let ?a = "addr_of (vw s) ?ip ?bn" and ?m = "min left (BSIZE - off mod BSIZE)"
    have dev: "idev ?ip = 1" using less.prems(2) by (simp add: file_ok_def Let_def)
    have mB: "0 < ?m" using False by (simp add: BSIZE_def)
    obtain r where r: "rounds off left = Suc r" "left - ?m = 0 \<or> rounds (off + ?m) (left - ?m) = r"
      using rounds_step[of left off] False by blast
    have "?bn * BSIZE \<le> off" by simp
    then have "?bn * BSIZE < off + left" using False by linarith
    then have m: "mapped (vw s) (blks s) ?ip ?bn" by (rule file_mapped[OF less.prems(2) _ less.prems(3)])
    have ok: "fs_ok (Suc (r + k)) s" using less.prems(1) r(1) by simp
    obtain s1 where 1: "bmap i (of_nat ?bn) s = Ok ?a s1" "fs_ok (Suc (r + k)) s1" "same_fs s s1"
      using bmap_mapped[OF ok m dev] by blast
    have an: "unat ?a \<in> blks s" using m by (simp add: mapped_def)
    have len: "length (vw s (unat ?a)) = BSIZE" by (rule fs_block_length[OF ok an])
    obtain bp s2 where 2: "on_fb (bread 1 (of_nat (unat ?a))) s1 = Ok bp s2" "fs_held (Suc (r + k)) bp (unat ?a) s2"
      "fdata s2 bp = vw s (unat ?a)" "same_fs s1 s2"
      using fs_bread[OF 1(2), of "unat ?a"] an same_fsD[OF 1(3)] by auto
    have same2: "same_fs s s2" using 1(3) 2(4) same_fs_trans by blast
    let ?d = "splice (off mod BSIZE) (take ?m src) (fdata s2 bp)"
    have sm: "length (take ?m src) = ?m" using less.prems(4) by simp
    have "off mod BSIZE + ?m \<le> BSIZE" by (simp add: BSIZE_def)
    then have "length ?d = BSIZE" using len sm 2(3) by (metis length_splice)
    then obtain s3 where 3: "on_fl (log_write bp) (set_fdata bp ?d s2) = Ok () s3" "fs_held (r + k) bp (unat ?a) s3"
      "vw s3 = (vw s2)(unat ?a := ?d)" "same_rest s2 s3"
      using fs_write[OF 2(2), of ?d] an same_fsD[OF same2] by auto
    obtain s4 where 4: "on_fb (brelse bp) s3 = Ok () s4" "fs_ok (r + k) s4" "same_fs s3 s4"
      using fs_brelse[OF 3(2)] by blast
    have step: "writei_loop i src off left s = writei_loop i (drop ?m src) (off + ?m) (left - ?m) s4"
      using False 1(1) 2(1) 3(1) 4(1) dev same_fsD(3)[OF 1(3)]
      by (subst writei_loop.simps) (simp add: Let_def)
    have w: "written s i off (take ?m src) s4"
    proof (rule written_one[OF less.prems(2)])
      show "off + length (take ?m src) \<le> unat (isize ?ip)" using less.prems(3) sm by simp
      show "take ?m src \<noteq> []" using sm mB by (metis list.size(3) less_irrefl)
      show "length (take ?m src) \<le> BSIZE - off mod BSIZE" using sm by simp
      show "same_rest s s4" using same2 3(4) 4(3) unfolding same_fs_def by (metis same_rest_trans)
      show "vw s4 = (vw s)(unat ?a := splice (off mod BSIZE) (take ?m src) (vw s (unat ?a)))"
        using 3(3) same_fsD(1)[OF 4(3)] same_fsD(1)[OF same2] 2(3) by simp
    qed (rule len)
    note wf = written_fields[OF w]
    have rest: "\<exists>s'. writei_loop i (drop ?m src) (off + ?m) (left - ?m) s4 = Ok () s' \<and> fs_ok k s' \<and>
      written s4 i (off + ?m) (take (left - ?m) (drop ?m src)) s'"
    proof (cases "left - ?m = 0")
      case True
      have "fs_ok k s4" by (rule fs_ok_mono[OF 4(2)]) simp
      then show ?thesis using True wf by (intro exI[of _ s4]) (simp add: writei_loop.simps written_nothing)
    next
      case rest: False
      show ?thesis
        by (rule less.IH) (use rest mB False 4(2) r(2) wf less.prems(3,4) in auto)
    qed
    then obtain s' where s': "writei_loop i (drop ?m src) (off + ?m) (left - ?m) s4 = Ok () s'" "fs_ok k s'"
      "written s4 i (off + ?m) (take (left - ?m) (drop ?m src)) s'" by blast
    have "take left src = take ?m src @ take (left - ?m) (drop ?m src)"
      using take_add[of ?m "left - ?m" src] by simp
    then have "written s i off (take left src) s'"
      using written_append[OF w, of "take (left - ?m) (drop ?m src)" s'] s'(3) sm by simp
    then show ?thesis unfolding step using s'(1,2) by blast
  qed
qed


lemma written_contents:
  assumes w: "written s i off src s'" and n: "off + length src \<le> unat (isize (inodes s ! i))"
  shows "contents s' i = splice off src (contents s i)"
proof (rule nth_equalityI)
  have ip: "inodes s' = inodes s" using w by (simp add: written_def same_rest_def)
  show len: "length (contents s' i) = length (splice off src (contents s i))"
    using ip n by (simp add: contents_def)
  fix x assume "x < length (contents s' i)"
  then have x: "x < unat (isize (inodes s ! i))" using ip by (simp add: contents_def)
  then have "contents s' i ! x = (if off \<le> x \<and> x < off + length src then src ! (x - off) else contents s i ! x)"
    using w ip by (simp add: contents_def written_def)
  then show "contents s' i ! x = splice off src (contents s i) ! x"
    using nth_splice[of off src "contents s i" x] x n by (simp add: contents_def)
qed

lemma written_other:
  assumes w: "written s i off src s'" and f: "file_ok s j" and d: "file_blocks s j \<inter> file_blocks s i = {}"
    and ind: "NDIRECT * BSIZE < unat (isize (inodes s ! j)) \<Longrightarrow> unat (iaddrs (inodes s ! j) ! NDIRECT) \<notin> file_blocks s i"
  shows "contents s' j = contents s j"
proof -
  let ?jp = "inodes s ! j"
  have ip: "inodes s' = inodes s" and same: "\<And>n. n \<notin> file_blocks s i \<Longrightarrow> vw s' n = vw s n"
    using w by (simp_all add: written_def same_rest_def)
  have "byte_of (vw s') ?jp x = byte_of (vw s) ?jp x" if x: "x < unat (isize ?jp)" for x
  proof -
    let ?b = "x div BSIZE"
    have bx: "?b * BSIZE \<le> x" by simp
    then have b: "?b * BSIZE < unat (isize ?jp)" using x by linarith
    have "addr_of (vw s') ?jp ?b = addr_of (vw s) ?jp ?b"
    proof (cases "?b < NDIRECT")
      case False
      then have "NDIRECT * BSIZE \<le> ?b * BSIZE" by simp
      then have "NDIRECT * BSIZE < unat (isize ?jp)" using b by linarith
      then show ?thesis using same ind False by (simp add: addr_of_def)
    qed (simp add: addr_of_def)
    moreover have "unat (addr_of (vw s) ?jp ?b) \<notin> file_blocks s i" using file_blocks_I[OF b] d by blast
    ultimately show ?thesis using same by (simp add: byte_of_def)
  qed
  then show ?thesis using ip by (simp add: contents_def)
qed

lemma writei_contents:
  assumes ok: "fs_ok (rounds off (length src) + k) s" and f: "file_ok s i"
    and n: "off + length src \<le> unat (isize (inodes s ! i))"
  shows "\<exists>s'. writei devs i src (of_nat off) (of_nat (length src)) s = Ok (int (length src)) s' \<and>
    fs_ok k s' \<and> written s i off src s'"
proof -
  let ?ip = "inodes s ! i" and ?n = "length src"
  have mx: "unat (isize ?ip) \<le> MAXFILE * BSIZE" "MAXFILE * BSIZE < 2 ^ 31"
    using f by (simp_all add: file_ok_def Let_def fs_consts)
  have on: "off < 2 ^ 31" "?n < 2 ^ 31" "off + ?n < 2 ^ 31" using n mx by linarith+
  have u: "unat (of_nat off :: uint) = off" "unat (of_nat ?n :: uint) = ?n" "unat (of_nat off + of_nat ?n :: uint) = off + ?n"
    using on by (simp_all add: unat_of_nat flip: of_nat_add)
  have ty: "itype ?ip \<noteq> T_DEV" using f by (simp add: file_ok_def Let_def)
  have g: "\<not> (isize ?ip < of_nat off \<or> (of_nat off + of_nat ?n :: uint) < of_nat off)"
    using n by (simp add: word_less_nat_alt u)
  have "unat (of_nat (MAXFILE * BSIZE) :: uint) = MAXFILE * BSIZE" by (simp add: fs_consts)
  then have g2: "\<not> (of_nat (MAXFILE * BSIZE) < (of_nat off + of_nat ?n :: uint))"
    using n mx unfolding word_less_nat_alt u by linarith
  obtain s' where s': "writei_loop i src off ?n s = Ok () s'" "fs_ok k s'" "written s i off (take ?n src) s'"
    using writei_loop_spec[OF ok f n order_refl] by blast
  have "inodes s' = inodes s" using s'(3) by (simp add: written_def same_rest_def)
  then have g3: "\<not> (0 < (of_nat ?n :: uint) \<and> isize (inodes s' ! i) < of_nat off + of_nat ?n)"
    using n by (simp add: word_less_nat_alt u)
  have "writei devs i src (of_nat off) (of_nat ?n) s = Ok (int ?n) s'"
    unfolding writei_def Let_def if_not_P[OF ty] if_not_P[OF g] if_not_P[OF g2] u s'(1) call.simps if_not_P[OF g3]
    using sint_of_nat[OF on(2)] by simp
  then show ?thesis using s' by simp
qed

text \<open>C9: Reading gives back what was written.  In a transaction with room for the blocks it touches, a
  write of \<open>src\<close> inside a file returns the number of bytes; any read after it, at any offset and
  length, returns the bytes of the old contents with \<open>src\<close> spliced in, as far as the file has
  them; and the contents of a file that shares no block with it do not change.\<close>

theorem readi_after_writei:
  assumes "fs_ok (rounds off (length src) + k) s" and "file_ok s i"
    and "off + length src \<le> unat (isize (inodes s ! i))"
  shows "\<exists>s'. writei devs i src (of_nat off) (of_nat (length src)) s = Ok (int (length src)) s' \<and>
    (\<forall>o2 n. o2 \<le> unat (isize (inodes s ! i)) \<and> n < 2 ^ 31 \<longrightarrow>
      (\<exists>s''. readi devs i (of_nat o2) (of_nat n) s' =
        Ok (int (min n (unat (isize (inodes s ! i)) - o2)), take n (drop o2 (splice off src (contents s i)))) s'')) \<and>
    (\<forall>j. file_ok s j \<and> file_blocks s j \<inter> file_blocks s i = {} \<and>
        (NDIRECT * BSIZE < unat (isize (inodes s ! j)) \<longrightarrow> unat (iaddrs (inodes s ! j) ! NDIRECT) \<notin> file_blocks s i) \<longrightarrow>
      contents s' j = contents s j)"
proof -
  obtain s' where s': "writei devs i src (of_nat off) (of_nat (length src)) s = Ok (int (length src)) s'"
    "fs_ok k s'" "written s i off src s'"
    using writei_contents[OF assms] by blast
  note w = written_fields[OF s'(3)] and c = written_contents[OF s'(3) assms(3)]
  have "\<exists>s''. readi devs i (of_nat o2) (of_nat n) s' =
      Ok (int (min n (unat (isize (inodes s ! i)) - o2)), take n (drop o2 (splice off src (contents s i)))) s''"
    if "o2 \<le> unat (isize (inodes s ! i))" "n < 2 ^ 31" for o2 n
    using readi_contents[of k s' i o2 n devs] s'(2) w that by (auto simp: c)
  moreover have "contents s' j = contents s j" if "file_ok s j \<and> file_blocks s j \<inter> file_blocks s i = {} \<and>
      (NDIRECT * BSIZE < unat (isize (inodes s ! j)) \<longrightarrow> unat (iaddrs (inodes s ! j) ! NDIRECT) \<notin> file_blocks s i)" for j
    by (rule written_other[OF s'(3)]) (use that in auto)
  ultimately show ?thesis using s'(1) by (intro exI[of _ s']) blast
qed


text \<open>A file of ten bytes in the block 6 of the small disk.\<close>

definition small_fs :: fss where
  "small_fs = \<lparr>fl = quiet_log\<lparr>outstanding := 1\<rparr>, sb = sb_decode zero_block,
     inodes = [\<lparr>idev = 1, inum = 1, iref = 1, ivalid = True, itype = T_FILE, imajor = 0, iminor = 0, inlink = 1,
       isize = 10, iaddrs = 6 # replicate 12 0\<rparr>],
     con = \<lparr>con_buf = [], con_r = 0, con_w = 0, con_e = 0, panicked = False, con_locking = True, kbd_shift = 0,
       uart_on = False, uart_out = [], crt_pos = 0, crt = []\<rparr>\<rparr>"

theorem readi_after_writei_witness:
  "\<forall>devs. \<exists>s' s''. writei devs 0 [7, 8, 9] 3 3 small_fs = Ok 3 s' \<and> readi devs 0 2 4 s' = Ok (4, [0, 7, 8, 9]) s''"
proof
  fix devs
  let ?s = "small_fs"
  have q: "lhn quiet_log = 0" "committing quiet_log = False" "lsize quiet_log = 3" "lb quiet_log = boot_bst small_disk"
    by (simp_all add: quiet_log_def)
  have "log_ok (quiet_log\<lparr>outstanding := 1\<rparr>)" using quiet_log_ok by (simp add: log_ok_def logged_def in_log_def)
  then have ok: "fs_ok (rounds 3 (length [7, 8, 9 :: u8]) + 0) ?s"
    using boot_bst_ready q by (auto simp: fs_ok_def small_fs_def logged_ok_def in_txn_def rounds_def BSIZE_def LOGSIZE_def)
  have i: "inodes ?s ! 0 = \<lparr>idev = 1, inum = 1, iref = 1, ivalid = True, itype = T_FILE, imajor = 0, iminor = 0, inlink = 1,
       isize = 10, iaddrs = 6 # replicate 12 0\<rparr>" by (simp add: small_fs_def)
  have b6: "6 \<in> blks ?s" by (simp add: blks_def small_fs_def data_blocks_def quiet_log_def boot_bst_def small_disk_def in_log_def)
  have f: "file_ok ?s 0"
    by (simp add: file_ok_def i T_FILE_def T_DEV_def BSIZE_def mapped_def addr_of_def MAXFILE_def NDIRECT_def b6 NINDIRECT_def)
  have "vw ?s 6 = zero_block"
    using bview_clean[OF boot_bst_binv[OF small_disk_good], of 6] boot_bst_clean[of small_disk 6]
    by (simp add: vw_def small_fs_def quiet_log_def) (simp add: boot_bst_def small_disk_def)
  then have c: "contents ?s 0 = replicate 10 0"
    by (intro nth_equalityI) (simp_all add: contents_def i byte_of_def addr_of_def NDIRECT_def BSIZE_def zero_block_def)
  have n: "3 + length [7, 8, 9 :: u8] \<le> unat (isize (inodes ?s ! 0))" by (simp add: i)
  obtain s' where s': "writei devs 0 [7, 8, 9] (of_nat 3) (of_nat (length [7, 8, 9 :: u8])) ?s = Ok (int (length [7, 8, 9 :: u8])) s'"
    "\<forall>o2 n. o2 \<le> unat (isize (inodes ?s ! 0)) \<and> n < 2 ^ 31 \<longrightarrow>
      (\<exists>s''. readi devs 0 (of_nat o2) (of_nat n) s' =
        Ok (int (min n (unat (isize (inodes ?s ! 0)) - o2)), take n (drop o2 (splice 3 [7, 8, 9] (contents ?s 0)))) s'')"
    using readi_after_writei[OF ok f n, of devs] by blast
  have "splice 3 [7, 8, 9] (contents ?s 0) = [0, 0, 0, 7, 8, 9, 0, 0, 0, 0]"
    by (simp add: c splice_def numeral_eq_Suc)
  moreover obtain s'' where "readi devs 0 (of_nat 2) (of_nat 4) s' =
      Ok (int (min 4 (unat (isize (inodes ?s ! 0)) - 2)), take 4 (drop 2 (splice 3 [7, 8, 9] (contents ?s 0)))) s''"
    using s'(2)[rule_format, of 2 4] by (auto simp: i)
  moreover have "length [7, 8, 9 :: u8] = 3" by simp
  ultimately have "writei devs 0 [7, 8, 9] 3 3 ?s = Ok 3 s'" "readi devs 0 2 4 s' = Ok (4, [0, 7, 8, 9]) s''"
    using s'(1) by (simp_all only: i) simp_all
  then show "\<exists>s' s''. writei devs 0 [7, 8, 9] 3 3 small_fs = Ok 3 s' \<and> readi devs 0 2 4 s' = Ok (4, [0, 7, 8, 9]) s''" by blast
qed

end
