(* ===== verification/Balloc.thy ===== *)
theory Balloc
  imports FileIO
begin

unbundle bit_operations_syntax

text \<open>
  The block allocator: \<open>balloc\<close> and \<open>bfree\<close> of fs.c as operations on the set of free blocks, whose
  bits in the bitmap on disk are clear.
\<close>

section \<open>Bits\<close>

lemma bit_set_bit: "bit_set d bi \<longleftrightarrow> bit (d ! (bi div 8)) (bi mod 8)"
  by (simp add: bit_set_def bit_iff_and_push_bit_not_eq_0)

lemma same_bit: "bi div 8 = bj div 8 \<Longrightarrow> bi mod 8 = bj mod 8 \<Longrightarrow> bi = (bj :: nat)"
  by (metis div_mult_mod_eq)

lemma bit_one_shift: "bit (push_bit m (1 :: u8)) n \<longleftrightarrow> n = m \<and> n < 8"
  by (auto simp: bit_exp_iff)

lemma bit_set_set_bit8: "bi div 8 < length d \<Longrightarrow> bit_set (set_bit8 bi d) bj \<longleftrightarrow> bj = bi \<or> bit_set d bj"
  using same_bit[of bj bi]
  by (cases "bj div 8 = bi div 8")
    (auto simp: bit_set_bit set_bit8_def bit_or_iff bit_one_shift nth_list_update simp del: push_bit_of_1)

lemma bit_set_clear_bit8: "bi div 8 < length d \<Longrightarrow> bit_set (clear_bit8 bi d) bj \<longleftrightarrow> bj \<noteq> bi \<and> bit_set d bj"
  using same_bit[of bj bi]
  by (cases "bj div 8 = bi div 8")
    (auto simp: bit_set_bit clear_bit8_def bit_and_iff bit_not_iff bit_one_shift nth_list_update simp del: push_bit_of_1)

lemma length_bits [simp]: "length (set_bit8 bi d) = length d" "length (clear_bit8 bi d) = length d"
  by (simp_all add: set_bit8_def clear_bit8_def)

section \<open>Free blocks\<close>

definition bitmap_block :: "fss \<Rightarrow> nat \<Rightarrow> nat" where
  "bitmap_block s b = unat (BBLOCK (of_nat b) (sb s))"

definition free_block :: "fss \<Rightarrow> nat \<Rightarrow> bool" where
  "free_block s b \<longleftrightarrow> b < unat (sb_size (sb s)) \<and> \<not> bit_set (vw s (bitmap_block s b)) (b mod BPB)"

text \<open>The bitmap blocks are blocks outside the log, and no free block is one of them.\<close>

definition bitmap_ok :: "fss \<Rightarrow> bool" where
  "bitmap_ok s \<longleftrightarrow> (\<forall>b < unat (sb_size (sb s)). bitmap_block s b \<in> blks s) \<and>
     (\<forall>b x. free_block s b \<longrightarrow> b \<in> blks s \<and> (x < unat (sb_size (sb s)) \<longrightarrow> b \<noteq> bitmap_block s x))"

lemma unat_less: "unat (x :: uint) < 2 ^ 32"
  using unsigned_less[of x] by simp

lemma bitmap_block_eq: "b < 2 ^ 32 \<Longrightarrow> bitmap_block s b = unat (of_nat (b div BPB) + bmapstart (sb s) :: uint)"
proof -
  assume b: "b < 2 ^ 32"
  then have "unat (of_nat b div 4096 :: uint) = b div 4096" by (simp add: unat_div unat_of_nat)
  moreover have "b div 4096 < 2 ^ 32" using b div_le_dividend[of b 4096] by (meson le_less_trans)
  ultimately have "unat (of_nat b div 4096 :: uint) = unat (of_nat (b div 4096) :: uint)" by (simp add: unat_of_nat)
  then have "(of_nat b div 4096 :: uint) = of_nat (b div 4096)"
    by (simp only: word_unat_eq_iff)
  then show ?thesis by (simp add: bitmap_block_def BBLOCK_def fs_consts)
qed

lemma bitmap_block_start:
  assumes "bi < BPB" "j * BPB + bi < 2 ^ 32"
  shows "bitmap_block s (j * BPB + bi) = bitmap_block s (j * BPB)" "(j * BPB + bi) mod BPB = bi"
  using assms bitmap_block_eq[of "j * BPB + bi" s] bitmap_block_eq[of "j * BPB" s] by (simp_all add: fs_consts)

lemma find_upt: "find P [0..<n] = Some i \<Longrightarrow> i < n \<and> P i \<and> (\<forall>j<i. \<not> P j)"
  by (auto simp: find_Some_iff)

lemma bzero_spec:
  assumes "fs_ok (Suc k) s" "n \<in> blks s"
  shows "\<exists>s'. bzero 1 (of_nat n) s = Ok () s' \<and> fs_ok k s' \<and> vw s' = (vw s)(n := replicate BSIZE 0) \<and> same_rest s s'"
proof -
  obtain bp s1 where 1: "on_fb (bread 1 (of_nat n)) s = Ok bp s1" "fs_held (Suc k) bp n s1" "same_fs s s1"
    using fs_bread[OF assms] by blast
  obtain s2 where 2: "on_fl (log_write bp) (set_fdata bp (replicate BSIZE 0) s1) = Ok () s2" "fs_held k bp n s2"
    "vw s2 = (vw s1)(n := replicate BSIZE 0)" "same_rest s1 s2"
    using fs_write[OF 1(2), of "replicate BSIZE 0"] assms(2) same_fsD[OF 1(3)] by auto
  obtain s3 where 3: "on_fb (brelse bp) s2 = Ok () s3" "fs_ok k s3" "same_fs s2 s3"
    using fs_brelse[OF 2(2)] by blast
  show ?thesis using 1 2 3 by (auto simp: bzero_def same_fs_def intro: same_rest_trans)
qed

text \<open>Changing the bit of one block in its bitmap block.\<close>

lemma bitmap_change:
  assumes len: "length (vw s (bitmap_block s b)) = BSIZE" and b: "b < unat (sb_size (sb s))"
    and r: "same_rest s s'" and v: "vw s' (bitmap_block s b) = f (vw s (bitmap_block s b))"
    and other: "\<And>x. x < unat (sb_size (sb s)) \<Longrightarrow> bitmap_block s x \<noteq> bitmap_block s b \<Longrightarrow> vw s' (bitmap_block s x) = vw s (bitmap_block s x)"
    and f: "\<And>d bj. length d = BSIZE \<Longrightarrow> bit_set (f d) bj \<longleftrightarrow> (if bj = b mod BPB then c else bit_set d bj)"
  shows "free_block s' x \<longleftrightarrow> (if x = b then \<not> c else free_block s x)"
proof (cases "x < unat (sb_size (sb s))")
  case False
  then show ?thesis using b r by (auto simp: free_block_def same_rest_def)
next
  case x: True
  have bb: "bitmap_block s' y = bitmap_block s y" for y using r by (simp add: bitmap_block_def same_rest_def)
  have sz: "sb s' = sb s" using r by (simp add: same_rest_def)
  show ?thesis
  proof (cases "bitmap_block s x = bitmap_block s b")
    case False
    then show ?thesis using x other[OF x] by (auto simp: free_block_def bb sz)
  next
    case True
    have "x mod BPB = b mod BPB \<longrightarrow> x = b"
    proof
      assume m: "x mod BPB = b mod BPB"
      have lt: "x < 2 ^ 32" "b < 2 ^ 32" using x b unat_less[of "sb_size (sb s)"] by linarith+
      then have "(of_nat (x div BPB) :: uint) = of_nat (b div BPB)"
        using True bitmap_block_eq[of x s] bitmap_block_eq[of b s] by (simp add: word_unat_eq_iff[symmetric])
      then have "unat (of_nat (x div BPB) :: uint) = unat (of_nat (b div BPB) :: uint)" by simp
      then have "x div BPB = b div BPB" using lt by (simp add: unat_of_nat fs_consts)
      then show "x = b" using m by (metis div_mult_mod_eq)
    qed
    then show ?thesis using x True f[OF len] v by (auto simp: free_block_def bb sz)
  qed
qed

section \<open>balloc\<close>

lemma bitmap_block_fold: "BBLOCK (of_nat b) (sb s) = of_nat (bitmap_block s b)"
  by (simp add: bitmap_block_def)

lemma same_fs_bitmap: "same_fs s s' \<Longrightarrow> bitmap_ok s \<Longrightarrow> bitmap_ok s'"
  "same_fs s s' \<Longrightarrow> free_block s' = free_block s"
  by (auto simp: bitmap_ok_def free_block_def bitmap_block_def same_fs_def same_rest_def fun_eq_iff)

text \<open>What \<open>balloc\<close> has done to the state when it returns block \<open>b\<close>.\<close>

definition taken :: "fss \<Rightarrow> nat \<Rightarrow> fss \<Rightarrow> bool" where
  "taken s b s' \<longleftrightarrow> same_rest s s' \<and> vw s' b = replicate BSIZE 0 \<and>
     (\<forall>x. free_block s' x \<longleftrightarrow> free_block s x \<and> x \<noteq> b) \<and>
     (\<forall>n. n \<noteq> b \<longrightarrow> n \<noteq> bitmap_block s b \<longrightarrow> vw s' n = vw s n)"

lemma take_block:
  assumes ok: "fs_held (Suc (Suc k)) bp (bitmap_block s b) s" "fs_ok j s0" "same_fs s0 s" "bitmap_ok s"
    and b: "free_block s b" and d: "fdata s bp = vw s (bitmap_block s b)"
  shows "\<exists>s'. call (on_fl (log_write bp) (set_fdata bp (set_bit8 (b mod BPB) (fdata s bp)) s)) (\<lambda>_ s.
      call (on_fb (brelse bp) s) (\<lambda>_ s. call (bzero 1 (of_nat b) s) (\<lambda>_ s. Ok (of_nat b :: uint) s))) = Ok (of_nat b) s' \<and>
    fs_ok k s' \<and> taken s b s'"
proof -
  have bl: "b < unat (sb_size (sb s))" "bitmap_block s b \<in> blks s" "b \<in> blks s"
    and nb: "\<And>x. x < unat (sb_size (sb s)) \<Longrightarrow> bitmap_block s x \<noteq> b"
    using b ok(4) by (auto simp: bitmap_ok_def free_block_def)
  have len: "length (vw s (bitmap_block s b)) = BSIZE"
    using fs_block_length[OF ok(2)] bl(2) same_fsD[OF ok(3)] by simp
  obtain s1 where 1: "on_fl (log_write bp) (set_fdata bp (set_bit8 (b mod BPB) (fdata s bp)) s) = Ok () s1"
    "fs_held (Suc k) bp (bitmap_block s b) s1"
    "vw s1 = (vw s)(bitmap_block s b := set_bit8 (b mod BPB) (fdata s bp))" "same_rest s s1"
    using fs_write[OF ok(1) bl(2), of "set_bit8 (b mod BPB) (fdata s bp)"] len d by auto
  obtain s2 where 2: "on_fb (brelse bp) s1 = Ok () s2" "fs_ok (Suc k) s2" "same_fs s1 s2"
    using fs_brelse[OF 1(2)] by blast
  have b2: "b \<in> blks s2" using bl(3) 1(4) same_fsD(2)[OF 2(3)] by (simp add: same_rest_def)
  obtain s3 where 3: "bzero 1 (of_nat b) s2 = Ok () s3" "fs_ok k s3" "vw s3 = (vw s2)(b := replicate BSIZE 0)" "same_rest s2 s3"
    using bzero_spec[OF 2(2) b2] by blast
  have r: "same_rest s s3" using 1(4) 2(3) 3(4) unfolding same_fs_def by (metis same_rest_trans)
  have v: "vw s3 = (vw s)(bitmap_block s b := set_bit8 (b mod BPB) (vw s (bitmap_block s b)), b := replicate BSIZE 0)"
    using 3(3) same_fsD(1)[OF 2(3)] 1(3) d by simp
  have "free_block s3 x \<longleftrightarrow> (if x = b then \<not> True else free_block s x)" for x
  proof (rule bitmap_change[OF len bl(1) r, where f = "set_bit8 (b mod BPB)"])
    show "bit_set (set_bit8 (b mod BPB) d) bj \<longleftrightarrow> (if bj = b mod BPB then True else bit_set d bj)" if "length d = BSIZE" for d bj
      using that by (subst bit_set_set_bit8) (simp_all add: fs_consts)
  qed (use v nb bl in auto)
  then have "taken s b s3" using r v by (auto simp: taken_def)
  then show ?thesis using 1(1) 2(1) 3(1,2) by auto
qed


lemma balloc_from_spec:
  assumes "fs_ok (Suc (Suc k)) s" "bitmap_ok s" "free_block s b0" "\<And>x. free_block s x \<Longrightarrow> j * BPB \<le> x"
    and "J = (unat (sb_size (sb s)) + BPB - 1) div BPB" "j \<le> J"
  shows "\<exists>b s'. balloc_from 1 (map (\<lambda>k. k * BPB) [j..<J]) s = Ok (of_nat b) s' \<and> free_block s b \<and>
    (\<forall>x. free_block s x \<longrightarrow> b \<le> x) \<and> fs_ok k s' \<and> taken s b s'"
  using assms
proof (induction "J - j" arbitrary: j s)
  case 0
  let ?n = "unat (sb_size (sb s))"
  have "b0 < ?n" "J * BPB \<le> b0" using "0.prems"(3) "0.prems"(4)[of b0] 0 by (auto simp: free_block_def)
  moreover have "?n \<le> J * BPB" unfolding "0.prems"(5) by (simp add: fs_consts)
  ultimately show ?case by simp
next
  case (Suc n)
  let ?n = "unat (sb_size (sb s))" and ?b = "j * BPB"
  have jJ: "j < J" using Suc.hyps(2) by simp
  then have bn: "?b < ?n" unfolding Suc.prems(5) by (simp add: fs_consts)
  have n32: "?n < 2 ^ 32" by (rule unat_less)
  have inb: "bitmap_block s (?b + bi) = bitmap_block s ?b" "(?b + bi) mod BPB = bi" if "bi < BPB" "bi < ?n - ?b" for bi
    using bitmap_block_start(1)[OF that(1), of j s] bitmap_block_start(2)[OF that(1), of j] that(2) n32 by auto
  have cov: "bitmap_block s ?b \<in> blks s" using Suc.prems(2) bn by (simp add: bitmap_ok_def)
  obtain bp s1 where 1: "on_fb (bread 1 (of_nat (bitmap_block s ?b))) s = Ok bp s1" "fs_held (Suc (Suc k)) bp (bitmap_block s ?b) s1"
    "fdata s1 bp = vw s (bitmap_block s ?b)" "same_fs s s1"
    using fs_bread[OF Suc.prems(1) cov] by blast
  note f1 = same_fsD[OF 1(4)]
  let ?P = "\<lambda>bi. \<not> bit_set (fdata s1 bp) bi" and ?m = "min BPB (unat (sb_size (sb s1)) - ?b)"
  have list: "map (\<lambda>k. k * BPB) [j..<J] = ?b # map (\<lambda>k. k * BPB) [Suc j..<J]" using jJ by (simp add: upt_conv_Cons)
  show ?case
  proof (cases "find ?P [0..<?m]")
    case (Some bi)
    then have bi: "bi < BPB" "bi < ?n - ?b" "?P bi" "\<And>i. i < bi \<Longrightarrow> \<not> ?P i" using find_upt[OF Some] f1(4) by auto
    have fb: "free_block s (?b + bi)" using bi 1(3) inb[OF bi(1,2)] by (simp add: free_block_def)
    have least: "?b + bi \<le> x" if x: "free_block s x" for x
    proof (rule ccontr)
      assume "\<not> ?b + bi \<le> x"
      then obtain i where i: "x = ?b + i" "i < bi" using Suc.prems(4)[OF x] by (metis add_less_cancel_left le_Suc_ex not_le)
      then have "bit_set (vw s (bitmap_block s ?b)) i" using bi(4)[of i] 1(3) by simp
      then show False using x i inb[of i] bi(1,2) by (simp add: free_block_def)
    qed
    have "bitmap_block s1 x = bitmap_block s x" for x by (simp add: bitmap_block_def f1)
    then have "fs_held (Suc (Suc k)) bp (bitmap_block s1 (?b + bi)) s1" "fdata s1 bp = vw s1 (bitmap_block s1 (?b + bi))"
      using 1(2,3) inb[OF bi(1,2)] f1(1) by simp_all
    moreover have "free_block s1 (?b + bi)" using fb by (simp add: same_fs_bitmap(2)[OF 1(4)])
    ultimately obtain s' where s': "call (on_fl (log_write bp) (set_fdata bp (set_bit8 ((?b + bi) mod BPB) (fdata s1 bp)) s1)) (\<lambda>_ s.
        call (on_fb (brelse bp) s) (\<lambda>_ s. call (bzero 1 (of_nat (?b + bi)) s) (\<lambda>_ s. Ok (of_nat (?b + bi) :: uint) s))) = Ok (of_nat (?b + bi)) s'"
      "fs_ok k s'" "taken s1 (?b + bi) s'"
      using take_block[OF _ Suc.prems(1) 1(4) same_fs_bitmap(1)[OF 1(4) Suc.prems(2)]] by blast
    have "balloc_from 1 (map (\<lambda>k. k * BPB) [j..<J]) s = Ok (of_nat (?b + bi)) s'"
      unfolding list using 1(1) Some s'(1) inb(2)[OF bi(1,2)] by (simp add: bitmap_block_fold del: of_nat_add of_nat_mult)
    moreover have "taken s (?b + bi) s'"
      using s'(3) f1 1(4) unfolding taken_def same_fs_bitmap(2)[OF 1(4)]
      by (auto simp: bitmap_block_def same_fs_def intro: same_rest_trans)
    ultimately show ?thesis using fb least s'(2) by blast
  next
    case None
    obtain s2 where 2: "on_fb (brelse bp) s1 = Ok () s2" "fs_ok (Suc (Suc k)) s2" "same_fs s1 s2"
      using fs_brelse[OF 1(2)] by blast
    have same: "same_fs s s2" using same_fs_trans[OF 1(4) 2(3)] .
    have e: "balloc_from 1 (map (\<lambda>k. k * BPB) [j..<J]) s = balloc_from 1 (map (\<lambda>k. k * BPB) [Suc j..<J]) s2"
      unfolding list using 1(1) None 2(1) by (simp add: bitmap_block_fold del: of_nat_add of_nat_mult)
    have none: "bit_set (vw s (bitmap_block s ?b)) i" if "i < BPB" "i < ?n - ?b" for i
      using None that 1(3) f1(4) by (auto simp: find_None_iff)
    have up: "Suc j * BPB \<le> x" if x: "free_block s x" for x
    proof (rule ccontr)
      assume "\<not> Suc j * BPB \<le> x"
      then obtain i where i: "x = ?b + i" "i < BPB" using Suc.prems(4)[OF x]
        by (metis add.commute add_less_cancel_left le_Suc_ex mult_Suc not_le)
      then have "i < ?n - ?b" using x unfolding free_block_def by linarith
      then show False using x i inb[of i] none[of i] by (simp add: free_block_def)
    qed
    have "\<exists>b s'. balloc_from 1 (map (\<lambda>k. k * BPB) [Suc j..<J]) s2 = Ok (of_nat b) s' \<and> free_block s2 b \<and>
      (\<forall>x. free_block s2 x \<longrightarrow> b \<le> x) \<and> fs_ok k s' \<and> taken s2 b s'"
    proof (rule Suc.hyps(1))
      show "n = J - Suc j" "Suc j \<le> J" using Suc.hyps(2) jJ by simp_all
    qed (use 2(2) same same_fs_bitmap Suc.prems up same_fsD(4)[OF same] in auto)
    then show ?thesis
      unfolding e same_fs_bitmap(2)[OF same] taken_def
      using same by (auto simp: same_fs_bitmap(2)[OF same] bitmap_block_def same_fs_def same_rest_def)
  qed
qed


lemma balloc_spec:
  assumes "fs_ok (Suc (Suc k)) s" "bitmap_ok s" "free_block s b0"
  shows "\<exists>b s'. balloc 1 s = Ok (of_nat b) s' \<and> free_block s b \<and> (\<forall>x. free_block s x \<longrightarrow> b \<le> x) \<and> fs_ok k s' \<and> taken s b s'"
  using balloc_from_spec[OF assms, of 0] by (simp add: balloc_def bitmap_starts_def)

text \<open>When every block is taken, \<open>balloc\<close> panics.\<close>

lemma balloc_from_full:
  assumes "fs_ok k s" "bitmap_ok s" "\<And>b. \<not> free_block s b" "J = (unat (sb_size (sb s)) + BPB - 1) div BPB"
  shows "balloc_from 1 (map (\<lambda>k. k * BPB) [j..<J]) s = Panic ''balloc: out of blocks''"
  using assms
proof (induction "J - j" arbitrary: j s)
  case 0
  then show ?case by simp
next
  case (Suc n)
  let ?n = "unat (sb_size (sb s))" and ?b = "j * BPB"
  have jJ: "j < J" using Suc.hyps(2) by simp
  then have bn: "?b < ?n" unfolding Suc.prems(4) by (simp add: fs_consts)
  have n32: "?n < 2 ^ 32" by (rule unat_less)
  have cov: "bitmap_block s ?b \<in> blks s" using Suc.prems(2) bn by (simp add: bitmap_ok_def)
  obtain bp s1 where 1: "on_fb (bread 1 (of_nat (bitmap_block s ?b))) s = Ok bp s1" "fs_held k bp (bitmap_block s ?b) s1"
    "fdata s1 bp = vw s (bitmap_block s ?b)" "same_fs s s1"
    using fs_bread[OF Suc.prems(1) cov] by blast
  obtain s2 where 2: "on_fb (brelse bp) s1 = Ok () s2" "fs_ok k s2" "same_fs s1 s2"
    using fs_brelse[OF 1(2)] by blast
  have same: "same_fs s s2" using same_fs_trans[OF 1(4) 2(3)] .
  have "bit_set (vw s (bitmap_block s ?b)) i" if "i < BPB" "?b + i < ?n" for i
    using Suc.prems(3)[of "?b + i"] bitmap_block_start(1)[OF that(1), of j s] bitmap_block_start(2)[OF that(1), of j] that(2) n32
    by (auto simp: free_block_def)
  then have "find (\<lambda>bi. \<not> bit_set (fdata s1 bp) bi) [0..<min BPB (unat (sb_size (sb s1)) - ?b)] = None"
    using 1(3) same_fsD(4)[OF 1(4)] by (auto simp: find_None_iff)
  moreover have "map (\<lambda>k. k * BPB) [j..<J] = ?b # map (\<lambda>k. k * BPB) [Suc j..<J]" using jJ by (simp add: upt_conv_Cons)
  moreover have "balloc_from 1 (map (\<lambda>k. k * BPB) [Suc j..<J]) s2 = Panic ''balloc: out of blocks''"
    by (rule Suc.hyps(1)) (use Suc.hyps(2) 2(2) same same_fs_bitmap Suc.prems(2-4) same_fsD(4)[OF same] in auto)
  ultimately show ?case using 1(1) 2(1) by (simp add: bitmap_block_fold del: of_nat_add of_nat_mult)
qed

section \<open>bfree\<close>

lemma bfree_spec:
  assumes ok: "fs_ok (Suc k) s" and bm: "\<And>x. x < unat (sb_size (sb s)) \<Longrightarrow> bitmap_block s x \<in> blks s"
    and b: "b < unat (sb_size (sb s))" "\<not> free_block s b"
  shows "\<exists>s'. bfree 1 (of_nat b) s = Ok () s' \<and> fs_ok k s' \<and> same_rest s s' \<and>
    (\<forall>x. free_block s' x \<longleftrightarrow> free_block s x \<or> x = b) \<and> (\<forall>n. n \<noteq> bitmap_block s b \<longrightarrow> vw s' n = vw s n)"
proof -
  let ?B = "bitmap_block s b" and ?bi = "b mod BPB"
  have u: "unat (of_nat b :: uint) = b" using b(1) unat_less[of "sb_size (sb s)"] by (simp add: unat_of_nat)
  obtain bp s1 where 1: "on_fb (bread 1 (of_nat ?B)) s = Ok bp s1" "fs_held (Suc k) bp ?B s1" "fdata s1 bp = vw s ?B" "same_fs s s1"
    using fs_bread[OF ok bm[OF b(1)]] by blast
  have len: "length (vw s ?B) = BSIZE" by (rule fs_block_length[OF ok bm[OF b(1)]])
  have set: "bit_set (fdata s1 bp) ?bi" using b 1(3) by (simp add: free_block_def)
  obtain s2 where 2: "on_fl (log_write bp) (set_fdata bp (clear_bit8 ?bi (fdata s1 bp)) s1) = Ok () s2" "fs_held k bp ?B s2"
    "vw s2 = (vw s1)(?B := clear_bit8 ?bi (fdata s1 bp))" "same_rest s1 s2"
    using fs_write[OF 1(2), of "clear_bit8 ?bi (fdata s1 bp)"] bm[OF b(1)] same_fsD[OF 1(4)] len 1(3) by auto
  obtain s3 where 3: "on_fb (brelse bp) s2 = Ok () s3" "fs_ok k s3" "same_fs s2 s3"
    using fs_brelse[OF 2(2)] by blast
  have r: "same_rest s s3" using 1(4) 2(4) 3(3) unfolding same_fs_def by (metis same_rest_trans)
  have v: "vw s3 = (vw s)(?B := clear_bit8 ?bi (vw s ?B))"
    using 2(3) 1(3) same_fsD(1)[OF 1(4)] same_fsD(1)[OF 3(3)] by simp
  have run: "bfree 1 (of_nat b) s = Ok () s3"
    using 1(1) set 2(1) 3(1) by (simp add: bfree_def bitmap_block_fold u)
  have "free_block s3 x \<longleftrightarrow> (if x = b then \<not> False else free_block s x)" for x
  proof (rule bitmap_change[OF len b(1) r, where f = "clear_bit8 ?bi"])
    show "bit_set (clear_bit8 ?bi d) bj \<longleftrightarrow> (if bj = ?bi then False else bit_set d bj)" if "length d = BSIZE" for d bj
      using that by (subst bit_set_clear_bit8) (simp_all add: fs_consts)
  qed (use v in auto)
  then show ?thesis using run 3(2) r v by (intro exI[of _ s3]) simp
qed

lemma bfree_free_panics:
  assumes ok: "fs_ok k s" and bm: "bitmap_ok s" and b: "free_block s b"
  shows "bfree 1 (of_nat b) s = Panic ''freeing free block''"
proof -
  have bn: "b < unat (sb_size (sb s))" "\<not> bit_set (vw s (bitmap_block s b)) (b mod BPB)" using b by (simp_all add: free_block_def)
  have u: "unat (of_nat b :: uint) = b" using bn(1) unat_less[of "sb_size (sb s)"] by (simp add: unat_of_nat)
  obtain bp s1 where "on_fb (bread 1 (of_nat (bitmap_block s b))) s = Ok bp s1" "fdata s1 bp = vw s (bitmap_block s b)"
    using fs_bread[OF ok, of "bitmap_block s b"] bm bn(1) by (auto simp: bitmap_ok_def)
  then show ?thesis using bn(2) by (simp add: bfree_def bitmap_block_fold u)
qed

text \<open>C12: The block allocator manages the set of blocks whose bit is clear.  \<open>balloc\<close> returns the least
  free block, filled with zeros, which is then no longer free, and changes no other block but its
  bitmap block; \<open>bfree\<close> of it makes the free set what it was, and freeing it once more panics.  When
  no block is free, \<open>balloc\<close> panics.\<close>

theorem balloc_manages_free_blocks:
  assumes "fs_ok (Suc (Suc (Suc k))) s" and "bitmap_ok s"
  shows "if \<forall>b. \<not> free_block s b then balloc 1 s = Panic ''balloc: out of blocks''
    else \<exists>b s'. balloc 1 s = Ok (of_nat b) s' \<and> free_block s b \<and> (\<forall>x. free_block s x \<longrightarrow> b \<le> x) \<and>
      vw s' b = replicate BSIZE 0 \<and> (\<forall>x. free_block s' x \<longleftrightarrow> free_block s x \<and> x \<noteq> b) \<and>
      (\<forall>n. n \<noteq> b \<longrightarrow> n \<noteq> bitmap_block s b \<longrightarrow> vw s' n = vw s n) \<and>
      (\<exists>s''. bfree 1 (of_nat b) s' = Ok () s'' \<and> (\<forall>x. free_block s'' x \<longleftrightarrow> free_block s x) \<and>
        bfree 1 (of_nat b) s'' = Panic ''freeing free block'')"
proof (cases "\<forall>b. \<not> free_block s b")
  case True
  then show ?thesis
    using balloc_from_full[OF assms, of _ 0] by (simp add: balloc_def bitmap_starts_def)
next
  case False
  then obtain b s' where b: "balloc 1 s = Ok (of_nat b) s'" "free_block s b" "\<forall>x. free_block s x \<longrightarrow> b \<le> x"
    "fs_ok (Suc k) s'" "taken s b s'"
    using balloc_spec[OF assms] by blast
  note t = b(5)[unfolded taken_def]
  have sb: "sb s' = sb s" "blks s' = blks s" "bitmap_block s' x = bitmap_block s x" for x
    using t by (auto simp: same_rest_def bitmap_block_def)
  have bn: "b < unat (sb_size (sb s'))" using b(2) sb by (simp add: free_block_def)
  obtain s'' where s'': "bfree 1 (of_nat b) s' = Ok () s''" "fs_ok k s''" "same_rest s' s''"
    "\<forall>x. free_block s'' x \<longleftrightarrow> free_block s' x \<or> x = b"
    using bfree_spec[OF b(4) _ bn] assms(2) sb t by (auto simp: bitmap_ok_def)
  have fr: "free_block s'' x \<longleftrightarrow> free_block s x" for x using s''(4) t b(2) by auto
  have "bitmap_ok s''"
    using assms(2) fr sb s''(3) by (simp add: bitmap_ok_def same_rest_def bitmap_block_def)
  then have "bfree 1 (of_nat b) s'' = Panic ''freeing free block''"
    by (rule bfree_free_panics[OF s''(2)]) (use fr b(2) in simp)
  then show ?thesis using False b t s''(1) fr by auto
qed

text \<open>A disk of ten blocks: the log in 2 to 6, the bitmap in 7, and only block 9 free.\<close>

definition ten_blocks :: "bytes list" where
  "ten_blocks = (replicate 10 zero_block)[7 := 255 # 1 # replicate 510 0]"

definition ten_log :: lst where
  "ten_log = \<lparr>lb = boot_bst ten_blocks, lstart = 2, lsize = 5, outstanding = 1, committing = False,
     ldev = 1, lhn = 0, lhblock = replicate LOGSIZE 0\<rparr>"

definition ten_fs :: fss where
  "ten_fs = small_fs\<lparr>fl := ten_log, sb := (sb_decode zero_block)\<lparr>sb_size := 10, bmapstart := 7\<rparr>\<rparr>"

lemma ten_good: "good_disk ten_blocks"
  by (simp add: good_disk_def ten_blocks_def list_all_length nth_list_update zero_block_def BSIZE_def)

lemma ten_log_ok: "log_ok ten_log"
  using boot_bst_binv[OF ten_good] boot_bst_clean[of ten_blocks]
  by (simp add: log_ok_def ten_log_def logged_def in_log_def LOGSIZE_def)
    (simp add: boot_bst_def ten_blocks_def get32_zero_block)

lemma ten_vw: "vw ten_fs 7 = 255 # 1 # replicate 510 0"
  using bview_clean[OF boot_bst_binv[OF ten_good], of 7] boot_bst_clean[of ten_blocks 7]
  by (simp add: vw_def ten_fs_def ten_log_def) (simp add: boot_bst_def ten_blocks_def)

lemma ten_bitmap: "b < 10 \<Longrightarrow> bitmap_block ten_fs b = 7"
  using bitmap_block_eq[of b ten_fs] by (simp add: ten_fs_def fs_consts)

lemma ten_size: "unat (sb_size (sb ten_fs)) = 10"
  by (simp add: ten_fs_def)

lemma ten_free: "free_block ten_fs b \<longleftrightarrow> b = 9"
proof (cases "b < 10")
  case True
  then have "b \<in> {0, 1, 2, 3, 4, 5, 6, 7, 8, 9}" by auto
  then show ?thesis
    unfolding free_block_def ten_size ten_bitmap[OF True] ten_vw
    by (elim insertE emptyE) (simp_all add: bit_set_def fs_consts)
qed (simp add: free_block_def ten_size)

theorem balloc_manages_free_blocks_witness:
  "\<exists>s'. balloc 1 ten_fs = Ok 9 s' \<and> \<not> free_block s' 9"
proof -
  have ok: "fs_ok (Suc (Suc (Suc 0))) ten_fs"
    using ten_log_ok boot_bst_ready by (auto simp: fs_ok_def ten_fs_def logged_ok_def in_txn_def ten_log_def LOGSIZE_def)
  have b: "blks ten_fs = {n. n < 10 \<and> \<not> (2 \<le> n \<and> n < 7)}"
    by (auto simp: blks_def ten_fs_def data_blocks_def ten_log_def boot_bst_def ten_blocks_def in_log_def)
  have "bitmap_ok ten_fs" unfolding bitmap_ok_def ten_size b ten_free by (auto simp: ten_bitmap)
  from balloc_manages_free_blocks[OF ok this] show ?thesis unfolding ten_free by auto
qed

end
