(* ===== verification/Grep.thy ===== *)
theory Grep
  imports Prelude
begin

text \<open>
  The user program grep.c.  A C string is the list of its bytes without the final zero.  The
  system call \<open>read\<close> is a parameter: the remaining input and, for the \<open>i\<close>-th call, a bound \<open>cap i\<close> on
  the number of bytes it returns; a read returns 0 only at the end of the input or when asked for 0
  bytes.  The output is the concatenation of what is written.
\<close>

definition nl :: u8 where "nl = 10"
definition caret :: u8 where "caret = 94"
definition dollar :: u8 where "dollar = 36"
definition star :: u8 where "star = 42"
definition dot :: u8 where "dot = 46"

lemmas grep_chars = nl_def caret_def dollar_def star_def dot_def

section \<open>The matcher\<close>

function (sequential) matchhere :: "bytes \<Rightarrow> bytes \<Rightarrow> bool" and matchstar :: "u8 \<Rightarrow> bytes \<Rightarrow> bytes \<Rightarrow> bool" where
  "matchhere [] tx = True"
| "matchhere (c # re) tx =
     (if re \<noteq> [] \<and> hd re = star then matchstar c (tl re) tx
      else if c = dollar \<and> re = [] then tx = []
      else case tx of [] \<Rightarrow> False | t # ts \<Rightarrow> (c = dot \<or> c = t) \<and> matchhere re ts)"
| "matchstar c re tx =
     (matchhere re tx \<or> (case tx of [] \<Rightarrow> False | t # ts \<Rightarrow> (t = c \<or> c = dot) \<and> matchstar c re ts))"
  by pat_completeness auto
termination
  by (relation "measures [\<lambda>x. case x of Inl (re, tx) \<Rightarrow> length re | Inr (c, re, tx) \<Rightarrow> length re,
      \<lambda>x. case x of Inl (re, tx) \<Rightarrow> 0 | Inr (c, re, tx) \<Rightarrow> Suc (length tx)]") auto

declare matchstar.simps [simp del]

fun match_from :: "bytes \<Rightarrow> bytes \<Rightarrow> bool" where
  "match_from re tx = (matchhere re tx \<or> (case tx of [] \<Rightarrow> False | t # ts \<Rightarrow> match_from re ts))"

declare match_from.simps [simp del]

definition match :: "bytes \<Rightarrow> bytes \<Rightarrow> bool" where
  "match re tx =
     (case re of
        [] \<Rightarrow> match_from re tx
      | c # re' \<Rightarrow> if c = caret then matchhere re' tx else match_from re tx)"

section \<open>The main loop\<close>

text \<open>\<open>strchr(p, '\n')\<close> in the buffer, which ends at the first zero byte.\<close>

definition find_nl :: "bytes \<Rightarrow> nat option" where
  "find_nl p =
     (let k = length (takeWhile (\<lambda>c. c \<noteq> nl \<and> c \<noteq> 0) p) in
      if k < length p \<and> p ! k = nl then Some k else None)"

lemma find_nl_less: "find_nl p = Some k \<Longrightarrow> k < length p"
  by (simp add: find_nl_def Let_def split: if_splits)

text \<open>The inner loop: what it writes, and the bytes from \<open>p\<close> on when it ends.\<close>

function print_lines :: "bytes \<Rightarrow> bytes \<Rightarrow> bytes \<times> bytes" where
  "print_lines pattern p =
     (case find_nl p of
        None \<Rightarrow> ([], p)
      | Some k \<Rightarrow>
          let (out, rest) = print_lines pattern (drop (k + 1) p) in
          ((if match pattern (take k p) then take k p @ [nl] else []) @ out, rest))"
  by pat_completeness auto
termination
  by (relation "measure (\<lambda>(_, p). length p)") (auto dest: find_nl_less)

declare print_lines.simps [simp del]

definition BUFSZ :: nat where "BUFSZ = 1024"

function grep_loop :: "bytes \<Rightarrow> (nat \<Rightarrow> nat) \<Rightarrow> nat \<Rightarrow> bytes \<Rightarrow> bytes \<Rightarrow> bytes" where
  "grep_loop pattern cap i buf input =
     (let n = min (BUFSZ - length buf - 1) (min (cap i) (length input)) in
      if n = 0 then []
      else
        let buf = buf @ take n input;
            (out, rest) = print_lines pattern buf in
        out @ grep_loop pattern cap (i + 1) (if length rest = length buf then [] else rest) (drop n input))"
  by pat_completeness auto
termination
  by (relation "measure (\<lambda>(_, _, _, _, input). length input)") auto

declare grep_loop.simps [simp del]

definition grep :: "bytes \<Rightarrow> (nat \<Rightarrow> nat) \<Rightarrow> bytes \<Rightarrow> bytes" where
  "grep pattern cap input = grep_loop pattern cap 0 [] input"

section \<open>The language of a pattern\<close>

text \<open>
  A pattern is a sequence of single characters and starred characters, where the dot stands for any
  character; it may be anchored at the start and at the end.
\<close>

datatype item = One u8 | Star u8

fun items :: "bytes \<Rightarrow> item list \<times> bool" where
  "items [] = ([], False)"
| "items [c] = (if c = dollar then ([], True) else ([One c], False))"
| "items (c # d # re) = (if d = star then apfst ((#) (Star c)) (items re) else apfst ((#) (One c)) (items (d # re)))"

definition fits_char :: "u8 \<Rightarrow> u8 \<Rightarrow> bool" where
  "fits_char c t \<longleftrightarrow> c = dot \<or> c = t"

fun words :: "item list \<Rightarrow> bytes \<Rightarrow> bool" where
  "words [] u = (u = [])"
| "words (One c # its) u = (\<exists>t v. u = t # v \<and> fits_char c t \<and> words its v)"
| "words (Star c # its) u = (\<exists>v w. u = v @ w \<and> list_all (fits_char c) v \<and> words its w)"

definition begins_with :: "bytes \<Rightarrow> bytes \<Rightarrow> bool" where
  "begins_with re tx \<longleftrightarrow> (\<exists>u v. tx = u @ v \<and> words (fst (items re)) u \<and> (snd (items re) \<longrightarrow> v = []))"

lemma starred_step:
  "(\<exists>u v. t # ts = u @ v \<and> list_all P u \<and> Q v) \<longleftrightarrow> Q (t # ts) \<or> (P t \<and> (\<exists>u v. ts = u @ v \<and> list_all P u \<and> Q v))"
  (is "?L \<longleftrightarrow> ?R")
proof
  assume ?L
  then obtain u v where "t # ts = u @ v" "list_all P u" "Q v" by blast
  then show ?R by (cases u) auto
next
  assume ?R
  then show ?L
  proof
    assume "Q (t # ts)"
    then show ?L by (intro exI[of _ "[]"] exI[of _ "t # ts"]) simp
  next
    assume "P t \<and> (\<exists>u v. ts = u @ v \<and> list_all P u \<and> Q v)"
    then obtain u v where "P t" "ts = u @ v" "list_all P u" "Q v" by blast
    then show ?L by (intro exI[of _ "t # u"] exI[of _ v]) simp
  qed
qed

lemma matchstar_iff:
  "matchstar c re tx \<longleftrightarrow> (\<exists>u v. tx = u @ v \<and> list_all (fits_char c) u \<and> matchhere re v)"
proof (induction tx)
  case Nil
  show ?case by (simp add: matchstar.simps[of c re "[]"])
next
  case (Cons t ts)
  show ?case
    unfolding matchstar.simps[of c re "t # ts"] list.case Cons.IH starred_step fits_char_def by auto
qed

lemma begins_with_simps:
  "begins_with [] tx"
  "begins_with [c] tx \<longleftrightarrow> (if c = dollar then tx = [] else \<exists>t ts. tx = t # ts \<and> fits_char c t)"
  "d \<noteq> star \<Longrightarrow> begins_with (c # d # re) tx \<longleftrightarrow> (\<exists>t ts. tx = t # ts \<and> fits_char c t \<and> begins_with (d # re) ts)"
  "begins_with (c # star # re) tx \<longleftrightarrow> (\<exists>u v. tx = u @ v \<and> list_all (fits_char c) u \<and> begins_with re v)"
proof -
  show "begins_with [] tx" by (simp add: begins_with_def)
  show "begins_with [c] tx \<longleftrightarrow> (if c = dollar then tx = [] else \<exists>t ts. tx = t # ts \<and> fits_char c t)"
    unfolding begins_with_def by (cases tx) (auto intro: exI[of _ "[x]" for x])
  show "begins_with (c # d # re) tx \<longleftrightarrow> (\<exists>t ts. tx = t # ts \<and> fits_char c t \<and> begins_with (d # re) ts)" if "d \<noteq> star"
  proof -
    have items: "items (c # d # re) = apfst ((#) (One c)) (items (d # re))" using that by simp
    show ?thesis
      unfolding begins_with_def items fst_apfst snd_apfst words.simps by (metis (no_types, lifting) append_Cons)
  qed
  show "begins_with (c # star # re) tx \<longleftrightarrow> (\<exists>u v. tx = u @ v \<and> list_all (fits_char c) u \<and> begins_with re v)"
  proof
    assume "begins_with (c # star # re) tx"
    then obtain u r where tx: "tx = u @ r" and u: "words (fst (items (c # star # re))) u"
      and r: "snd (items (c # star # re)) \<longrightarrow> r = []"
      unfolding begins_with_def by blast
    from u obtain v w where "u = v @ w" "list_all (fits_char c) v" "words (fst (items re)) w" by auto
    with tx r have "tx = v @ w @ r" "list_all (fits_char c) v" "words (fst (items re)) w" "snd (items re) \<longrightarrow> r = []"
      by simp_all
    then show "\<exists>u v. tx = u @ v \<and> list_all (fits_char c) u \<and> begins_with re v"
      unfolding begins_with_def by (intro exI[of _ v] exI[of _ "w @ r"]) auto
  next
    assume "\<exists>u v. tx = u @ v \<and> list_all (fits_char c) u \<and> begins_with re v"
    then obtain v w r where "tx = v @ w @ r" "list_all (fits_char c) v" "words (fst (items re)) w" "snd (items re) \<longrightarrow> r = []"
      unfolding begins_with_def by blast
    then show "begins_with (c # star # re) tx"
      unfolding begins_with_def by (intro exI[of _ "v @ w"] exI[of _ r]) auto
  qed
qed

lemma matchhere_iff: "matchhere re tx \<longleftrightarrow> begins_with re tx"
proof (induction re arbitrary: tx rule: items.induct)
  case 1
  show ?case by (simp add: begins_with_simps)
next
  case (2 c)
  show ?case by (auto simp: begins_with_simps fits_char_def split: list.splits)
next
  case (3 c d re)
  show ?case
  proof (cases "d = star")
    case True
    then show ?thesis by (simp add: matchstar_iff begins_with_simps 3(1)[OF True])
  next
    case False
    then show ?thesis by (auto simp: begins_with_simps 3(2)[OF False] fits_char_def simp del: matchhere.simps(2)
      simp: matchhere.simps(2)[of c "d # re"] split: list.splits)
  qed
qed

lemma match_from_iff: "match_from re tx \<longleftrightarrow> (\<exists>p q. tx = p @ q \<and> begins_with re q)"
proof (induction tx)
  case Nil
  show ?case by (simp add: match_from.simps[of re "[]"] matchhere_iff)
next
  case (Cons t ts)
  show ?case
    unfolding match_from.simps[of re "t # ts"] matchhere_iff list.case Cons.IH
    by (auto simp: Cons_eq_append_conv)
qed

text \<open>C24: The matcher decides the language of the pattern: a text matches exactly if some part of it, at
  the start after a caret and up to the end before a final dollar, is a word of the sequence of
  characters, dots and starred characters that the pattern denotes.\<close>

theorem match_language:
  "match re tx \<longleftrightarrow>
     (\<exists>p u v. tx = p @ u @ v \<and>
        (let anchored = (re \<noteq> [] \<and> hd re = caret); body = (if anchored then tl re else re) in
         (anchored \<longrightarrow> p = []) \<and> words (fst (items body)) u \<and> (snd (items body) \<longrightarrow> v = [])))"
proof (cases "re \<noteq> [] \<and> hd re = caret")
  case True
  then show ?thesis by (cases re) (auto simp: match_def matchhere_iff begins_with_def)
next
  case False
  then have "match re tx = match_from re tx" by (cases re) (auto simp: match_def)
  then show ?thesis using False by (simp add: match_from_iff begins_with_def) blast
qed

text \<open>The pattern \<open>b*$\<close> and the text abb.\<close>

lemma match_language_witness:
  "match [98, 42, 36] [97, 98, 98] \<and> (\<exists>p u v. [97, 98, 98 :: u8] = p @ u @ v \<and> words [Star 98] u \<and> v = [])"
proof
  show "match [98, 42, 36] [97, 98, 98]"
    by (simp add: match_def match_from.simps matchstar.simps grep_chars)
  then show "\<exists>p u v. [97, 98, 98 :: u8] = p @ u @ v \<and> words [Star 98] u \<and> v = []"
    unfolding match_language[of "[98, 42, 36]" "[97, 98, 98]"]
    by (simp only: Let_def) (simp add: grep_chars del: words.simps)
qed

section \<open>The lines of the input\<close>

definition unlines :: "bytes list \<Rightarrow> bytes" where
  "unlines ls = concat (map (\<lambda>l. l @ [nl]) ls)"

definition clean :: "bytes \<Rightarrow> bool" where
  "clean l \<longleftrightarrow> list_all (\<lambda>c. c \<noteq> nl \<and> c \<noteq> 0) l"

lemma unlines_simps [simp]: "unlines [] = []" "unlines (l # ls) = l @ nl # unlines ls"
  by (simp_all add: unlines_def)

lemma find_nl_clean: "clean l \<Longrightarrow> find_nl l = None"
  by (simp add: clean_def find_nl_def Let_def list_all_iff takeWhile_eq_all_conv[THEN iffD2])

lemma find_nl_line: "clean l \<Longrightarrow> find_nl (l @ nl # p) = Some (length l)"
  by (simp add: clean_def find_nl_def Let_def list_all_iff takeWhile_append2)

lemma clean_take: "clean l \<Longrightarrow> clean (take k l)"
  by (auto simp: clean_def list_all_iff dest: in_set_takeD)

lemma print_lines_unlines:
  assumes "list_all clean ls" "clean rest"
  shows "print_lines pattern (unlines ls @ rest) = (unlines (filter (match pattern) ls), rest)"
  using assms(1)
proof (induction ls)
  case Nil
  show ?case by (simp add: print_lines.simps[of pattern rest] find_nl_clean assms(2))
next
  case (Cons l ls)
  then show ?case
    by (simp add: print_lines.simps[of pattern "l @ nl # (unlines ls @ rest)"] find_nl_line)
qed

text \<open>What a full buffer holds: some complete lines and the start of the next one.\<close>

lemma take_unlines:
  assumes "list_all clean ls"
  shows "\<exists>ls1 ls2 rest. ls = ls1 @ ls2 \<and> take k (unlines ls) = unlines ls1 @ rest \<and> clean rest
    \<and> rest @ drop k (unlines ls) = unlines ls2 \<and> (ls \<noteq> [] \<longrightarrow> length (hd ls) < k \<longrightarrow> ls1 \<noteq> [])"
  using assms
proof (induction ls arbitrary: k)
  case Nil
  show ?case by (simp add: clean_def)
next
  case (Cons l ls)
  show ?case
  proof (cases "length l < k")
    case False
    then have "take k (unlines (l # ls)) = take k l" "take k l @ drop k (unlines (l # ls)) = unlines (l # ls)"
      by simp_all
    moreover have "clean (take k l)" using Cons.prems by (simp add: clean_take)
    ultimately show ?thesis using False
      by (intro exI[of _ "[]"] exI[of _ "l # ls"] exI[of _ "take k l"]) (simp del: take_append drop_append unlines_simps(2) add: unlines_simps(1))
  next
    case True
    then obtain j where k: "k = length l + Suc j" by (metis add_Suc_right less_iff_Suc_add)
    from Cons.prems have "list_all clean ls" by simp
    from Cons.IH[OF this, of j] obtain ls1 ls2 rest where "ls = ls1 @ ls2" "take j (unlines ls) = unlines ls1 @ rest" "clean rest"
      "rest @ drop j (unlines ls) = unlines ls2" by blast
    then show ?thesis unfolding k
      by (intro exI[of _ "l # ls1"] exI[of _ ls2] exI[of _ rest]) simp
  qed
qed

lemma clean_unlines: "clean (unlines ls) \<longleftrightarrow> ls = []"
  by (cases ls) (simp_all add: clean_def)

lemma grep_loop_unlines:
  assumes "list_all clean ls" "list_all (\<lambda>l. length l < 1023) ls" "\<And>i. 1023 \<le> cap i"
    and "clean buf" "length buf < 1023" "buf @ input = unlines ls"
  shows "grep_loop pattern cap i buf input = unlines (filter (match pattern) ls)"
  using assms
proof (induction "length input" arbitrary: i buf input ls rule: less_induct)
  case less
  let ?n = "min (BUFSZ - length buf - 1) (min (cap i) (length input))"
  show ?case
  proof (cases "input = []")
    case True
    with less.prems have "clean (unlines ls)" by simp
    with True show ?thesis by (simp add: grep_loop.simps clean_unlines)
  next
    case False
    then have ls: "ls \<noteq> []" using less.prems(6) by auto
    have n: "?n = min (1023 - length buf) (length input)"
      using less.prems(3)[of i] by (simp add: BUFSZ_def)
    have buf': "buf @ take ?n input = take 1023 (unlines ls)"
      and drop: "drop ?n input = drop 1023 (unlines ls)"
      unfolding less.prems(6)[symmetric] n using less.prems(5) by (auto simp: min_def)
    from ls have "hd ls \<in> set ls" by simp
    with less.prems(2) have "length (hd ls) < 1023" by (simp add: list_all_iff)
    with take_unlines[OF less.prems(1), of 1023] ls obtain ls1 ls2 rest where
      split: "ls = ls1 @ ls2" "take 1023 (unlines ls) = unlines ls1 @ rest" "clean rest"
      "rest @ drop 1023 (unlines ls) = unlines ls2" "ls1 \<noteq> []" by blast
    have ne: "unlines ls1 \<noteq> []" using split(5) by (cases ls1) auto
    have "length (unlines ls1 @ rest) \<le> 1023" unfolding split(2)[symmetric] by simp
    with ne have rest: "length rest < 1023" by (cases "unlines ls1") auto
    have pos: "?n \<noteq> 0" unfolding n using False less.prems(5) by simp
    have "grep_loop pattern cap (i + 1) rest (drop ?n input) = unlines (filter (match pattern) ls2)"
    proof (rule less.hyps)
      show "length (drop ?n input) < length input" using pos False by simp
      show "rest @ drop ?n input = unlines ls2" unfolding drop by (rule split(4))
      show "list_all clean ls2" "list_all (\<lambda>l. length l < 1023) ls2" using less.prems(1,2) split(1) by simp_all
    qed (rule less.prems(3) split(3) rest)+
    moreover have "print_lines pattern (buf @ take ?n input) = (unlines (filter (match pattern) ls1), rest)"
      unfolding buf' split(2) using less.prems(1) split by (intro print_lines_unlines) simp_all
    moreover have "length rest \<noteq> length (buf @ take ?n input)" unfolding buf' split(2) using ne by simp
    ultimately show ?thesis
      by (subst grep_loop.simps) (simp only: Let_def pos if_False split_conv split(1) filter_append, simp add: unlines_def)
  qed
qed



text \<open>
  A read that ends before the first newline of the buffer is forgotten: the loop takes \<open>p == buf\<close> as a
  reason to start the buffer over.  So a line that arrives in two pieces, as from the console or a
  pipe, is not matched as a whole, and a last line without a newline is never written.
\<close>

lemma grep_forgets_short_reads:
  "grep [97] (\<lambda>_. 1) [97, 10] = []" "grep [97] (\<lambda>_. 1023) [97] = []" "match [97] [97]"
  by (simp_all add: grep_def grep_loop.simps print_lines.simps find_nl_def Let_def match_def match_from.simps
      matchstar.simps grep_chars BUFSZ_def)

end
