(* ===== verification/Dirs.thy ===== *)
theory Dirs
  imports FileIO FsFacts
begin

unbundle bit_operations_syntax

text \<open>
  Directories as finite maps: the slots of a directory are the entries in its contents, and
  \<open>dirlookup\<close> and \<open>dirlink\<close> of fs.c look up and add a name among them.
\<close>

section \<open>The slots of a directory\<close>

definition slot :: "fss \<Rightarrow> nat \<Rightarrow> nat \<Rightarrow> dirent" where
  "slot s dp j = dirent_decode (take 16 (drop (16 * j) (contents s dp)))"

definition nslots :: "fss \<Rightarrow> nat \<Rightarrow> nat" where
  "nslots s dp = unat (isize (inodes s ! dp)) div 16"

definition directory_ok :: "fss \<Rightarrow> nat \<Rightarrow> bool" where
  "directory_ok s dp \<longleftrightarrow> file_ok s dp \<and> itype (inodes s ! dp) = T_DIR \<and> 16 dvd unat (isize (inodes s ! dp))"

definition same_name :: "bytes \<Rightarrow> bytes \<Rightarrow> bool" where
  "same_name x y \<longleftrightarrow> take DIRSIZ (cstr x) = take DIRSIZ (cstr y)"

definition entry_of :: "bytes \<Rightarrow> dirent \<Rightarrow> bool" where
  "entry_of nm de \<longleftrightarrow> de_inum de \<noteq> 0 \<and> same_name nm (de_name de)"

text \<open>The abstract lookup: the first slot in use with the name.\<close>

definition find_entry :: "fss \<Rightarrow> nat \<Rightarrow> bytes \<Rightarrow> nat option" where
  "find_entry s dp nm = find (\<lambda>j. entry_of nm (slot s dp j)) [0..<nslots s dp]"

definition find_free :: "fss \<Rightarrow> nat \<Rightarrow> nat option" where
  "find_free s dp = find (\<lambda>j. de_inum (slot s dp j) = 0) [0..<nslots s dp]"

lemma same_fs_contents: "same_fs s t \<Longrightarrow> contents t i = contents s i"
  by (simp add: contents_def same_fsD)

lemma same_fs_slot:
  assumes "same_fs s t"
  shows "slot t dp j = slot s dp j" "nslots t dp = nslots s dp" "directory_ok t dp = directory_ok s dp"
  using assms by (simp_all add: slot_def nslots_def directory_ok_def same_fs_contents same_fs_file same_fsD)

lemma dir_offsets_slots:
  assumes "directory_ok s dp"
  shows "dir_offsets (isize (inodes s ! dp)) = map (\<lambda>j. 16 * j) [0..<nslots s dp]"
proof -
  obtain q where q: "unat (isize (inodes s ! dp)) = 16 * q" using assms by (auto simp: directory_ok_def)
  have "(16 * q + 15) div 16 = q" by simp
  then show ?thesis by (simp add: dir_offsets_def nslots_def q)
qed

lemma slot_fits: "directory_ok s dp \<Longrightarrow> j < nslots s dp \<Longrightarrow> 16 * j + 16 \<le> unat (isize (inodes s ! dp))"
  by (auto simp: directory_ok_def nslots_def)

lemma readi_slot:
  assumes ok: "fs_ok k s" and d: "directory_ok s dp" and j: "j < nslots s dp"
  shows "\<exists>t. readi devs dp (of_nat (16 * j)) 16 s = Ok (16, take 16 (drop (16 * j) (contents s dp))) t \<and> fs_ok k t \<and> same_fs s t"
proof -
  note sf = slot_fits[OF d j]
  have f: "file_ok s dp" using d by (simp add: directory_ok_def)
  have "16 * j \<le> unat (isize (inodes s ! dp))" using sf by linarith
  moreover have "min 16 (unat (isize (inodes s ! dp)) - 16 * j) = 16" using sf by linarith
  ultimately show ?thesis
    using readi_contents[OF ok f, of "16 * j" 16 devs] by simp
qed

lemma dirlookup_from_slots:
  assumes "fs_ok k s" "directory_ok s dp" "\<forall>j\<in>set js. j < nslots s dp"
  shows "\<exists>t. fs_ok k t \<and> same_fs s t \<and> dirlookup_from devs dp nm (map (\<lambda>j. 16 * j) js) s =
    (case find (\<lambda>j. entry_of nm (slot s dp j)) js of
       None \<Rightarrow> Ok None t
     | Some j \<Rightarrow> call (iget 1 (ucast (de_inum (slot s dp j))) t) (\<lambda>i u. Ok (Some (i, of_nat (16 * j))) u))"
  using assms
proof (induction js arbitrary: s)
  case Nil
  then show ?case by (intro exI[of _ s]) simp
next
  case (Cons j js)
  obtain t where t: "readi devs dp (of_nat (16 * j)) 16 s = Ok (16, take 16 (drop (16 * j) (contents s dp))) t"
    "fs_ok k t" "same_fs s t"
    using readi_slot[OF Cons.prems(1,2), of j devs] Cons.prems(3) by auto
  note S = same_fs_slot[OF t(3)]
  have dev: "idev (inodes t ! dp) = 1"
    using Cons.prems(2) same_fsD[OF t(3)] by (simp add: directory_ok_def file_ok_def Let_def)
  have step: "dirlookup_from devs dp nm (map (\<lambda>j. 16 * j) (j # js)) s =
      (if entry_of nm (slot s dp j) then call (iget 1 (ucast (de_inum (slot s dp j))) t) (\<lambda>i u. Ok (Some (i, of_nat (16 * j))) u)
       else dirlookup_from devs dp nm (map (\<lambda>j. 16 * j) js) t)"
    unfolding list.map dirlookup_from.simps t(1)
    by (simp add: Let_def entry_of_def same_name_def namecmp_zero slot_def[symmetric] dev)
  show ?case
  proof (cases "entry_of nm (slot s dp j)")
    case True
    then show ?thesis using t step by (intro exI[of _ t]) simp
  next
    case False
    obtain u where "fs_ok k u" "same_fs t u" "dirlookup_from devs dp nm (map (\<lambda>j. 16 * j) js) t =
      (case find (\<lambda>j. entry_of nm (slot s dp j)) js of
         None \<Rightarrow> Ok None u
       | Some j \<Rightarrow> call (iget 1 (ucast (de_inum (slot s dp j))) u) (\<lambda>i u. Ok (Some (i, of_nat (16 * j))) u))"
      using Cons.IH[OF t(2)] Cons.prems(2,3) unfolding S by (simp only: list.set ball_simps) blast
    then show ?thesis using False step same_fs_trans[OF t(3)] by (intro exI[of _ u]) simp
  qed
qed

lemma empty_dirent_slots:
  assumes "fs_ok k s" "directory_ok s dp" "\<forall>j\<in>set js. j < nslots s dp"
  shows "\<exists>t. fs_ok k t \<and> same_fs s t \<and> empty_dirent devs dp (map (\<lambda>j. 16 * j) js) fin s =
    Ok (case find (\<lambda>j. de_inum (slot s dp j) = 0) js of None \<Rightarrow> fin | Some j \<Rightarrow> 16 * j) t"
  using assms
proof (induction js arbitrary: s)
  case Nil
  then show ?case by (intro exI[of _ s]) simp
next
  case (Cons j js)
  obtain t where t: "readi devs dp (of_nat (16 * j)) 16 s = Ok (16, take 16 (drop (16 * j) (contents s dp))) t"
    "fs_ok k t" "same_fs s t"
    using readi_slot[OF Cons.prems(1,2), of j devs] Cons.prems(3) by auto
  note S = same_fs_slot[OF t(3)]
  have step: "empty_dirent devs dp (map (\<lambda>j. 16 * j) (j # js)) fin s =
      (if de_inum (slot s dp j) = 0 then Ok (16 * j) t else empty_dirent devs dp (map (\<lambda>j. 16 * j) js) fin t)"
    unfolding list.map empty_dirent.simps t(1) by (simp add: slot_def[symmetric])
  show ?case
  proof (cases "de_inum (slot s dp j) = 0")
    case True
    then show ?thesis using t step by (intro exI[of _ t]) simp
  next
    case False
    obtain u where "fs_ok k u" "same_fs t u" "empty_dirent devs dp (map (\<lambda>j. 16 * j) js) fin t =
      Ok (case find (\<lambda>j. de_inum (slot s dp j) = 0) js of None \<Rightarrow> fin | Some j \<Rightarrow> 16 * j) u"
      using Cons.IH[OF t(2)] Cons.prems(2,3) unfolding S by (simp only: list.set ball_simps) blast
    then show ?thesis using False step same_fs_trans[OF t(3)] by (intro exI[of _ u]) simp
  qed
qed

section \<open>Finding an inode\<close>

definition icached :: "uint \<Rightarrow> inode \<Rightarrow> bool" where
  "icached n ip \<longleftrightarrow> 0 < iref ip \<and> idev ip = 1 \<and> inum ip = n"

text \<open>The slot of the inode cache that \<open>iget\<close> takes, and what it makes of it.\<close>

definition iget_slot :: "uint \<Rightarrow> inode list \<Rightarrow> nat option" where
  "iget_slot n ips =
     (case find (\<lambda>i. icached n (ips ! i)) [0..<length ips] of
        Some i \<Rightarrow> Some i
      | None \<Rightarrow> find (\<lambda>i. iref (ips ! i) = 0) [0..<length ips])"

definition iget_inode :: "uint \<Rightarrow> inode \<Rightarrow> inode" where
  "iget_inode n ip =
     (if icached n ip then ip\<lparr>iref := iref ip + 1\<rparr> else ip\<lparr>idev := 1, inum := n, iref := 1, ivalid := False\<rparr>)"

lemma fs_icache_lock:
  assumes ok: "fs_ok k s"
  shows "\<exists>m. on_fm (acquire IcacheLock) s = Ok () m \<and> inodes m = inodes s \<and>
    (\<forall>ips. on_fm (release IcacheLock) (m\<lparr>inodes := ips\<rparr>) = Ok () (s\<lparr>inodes := ips\<rparr>))"
proof -
  obtain c p where r: "bready c p {} (lb (fl s))" using ok by (auto simp: fs_ok_def logged_ok_def)
  then have c: "on_cpu c (bm (lb (fl s)))" "all_free (bm (lb (fl s)))" by (simp_all add: bready_def running_def)
  let ?m = "s\<lparr>fl := (fl s)\<lparr>lb := (lb (fl s))\<lparr>bm := take_lock c IcacheLock (bm (lb (fl s)))\<rparr>\<rparr>\<rparr>"
  have "on_fm (acquire IcacheLock) s = Ok () ?m"
    by (intro zoom_Ok[of "on_lb (on_bm (acquire IcacheLock))" fl] zoom_Ok[of "on_bm (acquire IcacheLock)" lb] bm_acquire c)
  moreover have "on_fm (release IcacheLock) (?m\<lparr>inodes := ips\<rparr>) = Ok () (s\<lparr>inodes := ips\<rparr>)" for ips
  proof -
    have "on_bm (release IcacheLock) (lb (fl (?m\<lparr>inodes := ips\<rparr>))) = Ok () ((lb (fl (?m\<lparr>inodes := ips\<rparr>)))\<lparr>bm := bm (lb (fl s))\<rparr>)"
      by (rule bm_release[OF _ c]) simp
    then show ?thesis by (simp add: zoom_Ok)
  qed
  ultimately show ?thesis by (intro exI[of _ ?m]) simp
qed

lemma iget_spec:
  assumes ok: "fs_ok k s" and i: "iget_slot n (inodes s) = Some i"
  shows "iget 1 n s = Ok i (set_inode i (iget_inode n) s)"
proof -
  obtain m where m: "on_fm (acquire IcacheLock) s = Ok () m" "inodes m = inodes s"
    "\<And>ips. on_fm (release IcacheLock) (m\<lparr>inodes := ips\<rparr>) = Ok () (s\<lparr>inodes := ips\<rparr>)"
    using fs_icache_lock[OF ok] by blast
  show ?thesis
  proof (cases "find (\<lambda>i. icached n (inodes s ! i)) [0..<length (inodes s)]")
    case (Some j)
    then have "j = i" "icached n (inodes s ! j)" using i find_SomeD[OF Some] by (simp_all add: iget_slot_def)
    then show ?thesis using Some m by (simp add: iget_def icached_def set_inode_def iget_inode_def)
  next
    case None
    then have e: "find (\<lambda>i. iref (inodes s ! i) = 0) [0..<length (inodes s)] = Some i" using i by (simp add: iget_slot_def)
    then have "\<not> icached n (inodes s ! i)" using find_SomeD[OF e] by (simp add: icached_def)
    then have "iget_inode n (inodes s ! i) = (inodes s ! i)\<lparr>idev := 1, inum := n, iref := 1, ivalid := False\<rparr>"
      by (simp add: iget_inode_def)
    then show ?thesis using None e m by (simp add: iget_def icached_def[abs_def] set_inode_def)
  qed
qed

lemma iget_slot_room:
  assumes "\<exists>i < length ips. iref (ips ! i) = 0"
  shows "\<exists>i < length ips. iget_slot n ips = Some i"
proof -
  have "find (\<lambda>i. iref (ips ! i) = 0) [0..<length ips] \<noteq> None" using assms by (auto simp: find_None_iff)
  then obtain j where "find (\<lambda>i. iref (ips ! i) = 0) [0..<length ips] = Some j" by blast
  then show ?thesis unfolding iget_slot_def using find_SomeD[of _ "[0..<length ips]"] by (fastforce split: option.splits)
qed

lemma iget_inode_num [simp]: "inum (iget_inode n ip) = n" "idev (iget_inode n ip) = 1"
  by (simp_all add: iget_inode_def icached_def)

section \<open>Looking up and linking\<close>

definition icache_room :: "fss \<Rightarrow> bool" where
  "icache_room s \<longleftrightarrow> (\<exists>i < length (inodes s). iref (inodes s ! i) = 0)"

text \<open>The result of a lookup of the name in the abstract directory: the slot of the inode cache and the offset.\<close>

definition lookup_result :: "fss \<Rightarrow> nat \<Rightarrow> bytes \<Rightarrow> (nat \<times> uint) option" where
  "lookup_result s dp nm = map_option (\<lambda>j.
     (the (iget_slot (ucast (de_inum (slot s dp j))) (inodes s)), of_nat (16 * j))) (find_entry s dp nm)"

lemma dirlookup_spec:
  assumes ok: "fs_ok k s" and d: "directory_ok s dp" and room: "icache_room s"
  shows "\<exists>t. dirlookup devs dp nm s = Ok (lookup_result s dp nm) t \<and> vw t = vw s \<and> blks t = blks s \<and>
    (case find_entry s dp nm of
       None \<Rightarrow> fs_ok k t \<and> same_fs s t
     | Some j \<Rightarrow> \<exists>i < length (inodes s). lookup_result s dp nm = Some (i, of_nat (16 * j)) \<and>
         inodes t = (inodes s)[i := iget_inode (ucast (de_inum (slot s dp j))) (inodes s ! i)])"
proof -
  obtain t where t: "fs_ok k t" "same_fs s t" "dirlookup_from devs dp nm (map (\<lambda>j. 16 * j) [0..<nslots s dp]) s =
    (case find_entry s dp nm of
       None \<Rightarrow> Ok None t
     | Some j \<Rightarrow> call (iget 1 (ucast (de_inum (slot s dp j))) t) (\<lambda>i u. Ok (Some (i, of_nat (16 * j))) u))"
    using dirlookup_from_slots[OF ok d, of "[0..<nslots s dp]" devs nm] unfolding find_entry_def by auto
  note F = same_fsD[OF t(2)]
  have run: "dirlookup devs dp nm s = dirlookup_from devs dp nm (map (\<lambda>j. 16 * j) [0..<nslots s dp]) s"
    using d dir_offsets_slots[OF d] by (simp add: dirlookup_def directory_ok_def)
  show ?thesis
  proof (cases "find_entry s dp nm")
    case None
    then show ?thesis using run t F by (intro exI[of _ t]) (simp add: lookup_result_def)
  next
    case (Some j)
    let ?n = "ucast (de_inum (slot s dp j)) :: uint"
    obtain i where i: "i < length (inodes s)" "iget_slot ?n (inodes s) = Some i"
      using iget_slot_room room unfolding icache_room_def by blast
    then have "iget 1 ?n t = Ok i (set_inode i (iget_inode ?n) t)"
      using iget_spec[OF t(1)] F by simp
    then show ?thesis using run t(3) Some i F
      by (intro exI[of _ "set_inode i (iget_inode ?n) t"]) (simp add: lookup_result_def set_inode_def vw_def blks_def)
  qed
qed

lemma written_same_fs:
  assumes w: "written u i off src s'" and su: "same_fs s u"
  shows "written s i off src s'"
  using w same_fs_file(2)[OF su, of i] same_fsD[OF su] su
  unfolding written_def same_fs_def by (simp add: same_rest_trans[of s u s'])

lemma rounds_slot: "rounds (16 * j) 16 = 1"
proof -
  have "(16 * j) mod BSIZE = 16 * (j mod 32)" using mult_mod_right[of 16 j 32] by (simp add: BSIZE_def)
  moreover have "j mod 32 < 32" by simp
  ultimately show ?thesis unfolding rounds_def by (simp add: BSIZE_def)
qed

lemma take_drop_splice_other:
  assumes "length src = 16" "j \<noteq> j'" "16 * j + 16 \<le> length bs" "16 * j' + 16 \<le> length bs"
  shows "take 16 (drop (16 * j') (splice (16 * j) src bs)) = take 16 (drop (16 * j') bs)"
proof (rule nth_equalityI)
  fix x assume "x < length (take 16 (drop (16 * j') (splice (16 * j) src bs)))"
  then have x: "x < 16" by simp
  then have "16 * j' + x < 16 * j \<or> 16 * j + 16 \<le> 16 * j' + x" using assms(2) by linarith
  then show "take 16 (drop (16 * j') (splice (16 * j) src bs)) ! x = take 16 (drop (16 * j') bs) ! x"
    using assms x by (auto simp: nth_splice)
qed (use assms in simp)

lemma written_slots:
  assumes w: "written s dp (16 * j) (dirent_encode de) s'" and d: "directory_ok s dp" and j: "j < nslots s dp"
    and l: "length (de_name de) = DIRSIZ"
  shows "slot s' dp j = de" "j' < nslots s dp \<Longrightarrow> j' \<noteq> j \<Longrightarrow> slot s' dp j' = slot s dp j'"
    "nslots s' dp = nslots s dp" "directory_ok s' dp"
proof -
  have e: "length (dirent_encode de) = 16" using l by (simp add: dirent_encode_def DIRSIZ_def)
  have len: "length (contents s dp) = unat (isize (inodes s ! dp))" by (simp add: contents_def)
  have fit: "16 * j + length (dirent_encode de) \<le> unat (isize (inodes s ! dp))" using slot_fits[OF d j] e by simp
  have c: "contents s' dp = splice (16 * j) (dirent_encode de) (contents s dp)" by (rule written_contents[OF w fit])
  show "slot s' dp j = de"
    using take_drop_splice[of "16 * j" "dirent_encode de" "contents s dp"] fit
    by (simp add: slot_def c e len dirent_decode_encode[OF l])
  show "slot s' dp j' = slot s dp j'" if "j' < nslots s dp" "j' \<noteq> j"
    using take_drop_splice_other[OF e that(2)[symmetric], of "contents s dp"] slot_fits[OF d j] slot_fits[OF d that(1)] len
    by (simp add: slot_def c)
  note F = written_fields[OF w]
  show "nslots s' dp = nslots s dp" "directory_ok s' dp" using F d by (simp_all add: nslots_def directory_ok_def)
qed

text \<open>\<open>dirlink\<close> of a new name puts the entry in the first free slot.\<close>

lemma dirlink_spec:
  assumes ok: "fs_ok (Suc k) s" and d: "directory_ok s dp" and room: "icache_room s"
    and new: "find_entry s dp nm = None" and free: "find_free s dp = Some j"
  shows "\<exists>s'. dirlink devs dp nm n s = Ok 0 s' \<and> fs_ok k s' \<and>
    written s dp (16 * j) (dirent_encode \<lparr>de_inum = ucast n, de_name = name_field nm\<rparr>) s'"
proof -
  let ?de = "\<lparr>de_inum = ucast n, de_name = name_field nm\<rparr>"
  have e: "length (dirent_encode ?de) = 16" by (simp add: dirent_encode_def DIRSIZ_def)
  obtain t where t: "dirlookup devs dp nm s = Ok None t" "fs_ok (Suc k) t" "same_fs s t"
    using dirlookup_spec[OF ok d room, of devs nm] new by (auto simp: lookup_result_def)
  note S = same_fs_slot[OF t(3)] and F = same_fsD[OF t(3)]
  have j: "j < nslots s dp" using find_SomeD[OF free[unfolded find_free_def]] by simp
  have dt: "directory_ok t dp" using d S by simp
  let ?offs = "dir_offsets (isize (inodes t ! dp))"
  have offs: "?offs = map (\<lambda>j. 16 * j) [0..<nslots t dp]" by (rule dir_offsets_slots[OF dt])
  obtain u where u: "fs_ok (Suc k) u" "same_fs t u" "empty_dirent devs dp ?offs (16 * length ?offs) t = Ok (16 * j) u"
    using empty_dirent_slots[OF t(2) dt, of "[0..<nslots t dp]" devs "16 * length ?offs"] free
    unfolding offs find_free_def S by auto
  have su: "same_fs s u" by (rule same_fs_trans[OF t(3) u(2)])
  have fit: "16 * j + length (dirent_encode ?de) \<le> unat (isize (inodes u ! dp))"
    using slot_fits[OF d j] e same_fsD[OF su] by simp
  have fu: "file_ok u dp" using d same_fs_file[OF su] by (simp add: directory_ok_def)
  have "fs_ok (rounds (16 * j) (length (dirent_encode ?de)) + k) u" using u(1) by (simp add: e rounds_slot)
  then obtain s' where s': "writei devs dp (dirent_encode ?de) (of_nat (16 * j)) (of_nat 16) u = Ok 16 s'"
    "fs_ok k s'" "written u dp (16 * j) (dirent_encode ?de) s'"
    using writei_contents[OF _ fu fit, of k devs] unfolding e by auto
  have "dirlink devs dp nm n s = Ok 0 s'"
    using t(1) u(3) s'(1) by (simp add: dirlink_def Let_def)
  moreover have "written s dp (16 * j) (dirent_encode ?de) s'"
    by (rule written_same_fs[OF s'(3) su])
  ultimately show ?thesis using s'(2) by blast
qed

text \<open>What the entries are after \<open>dirlink\<close>.\<close>

lemma find_entry_linked:
  assumes new: "find_entry s dp nm = None" and free: "find_free s dp = Some j" and n: "(ucast n :: ushort) \<noteq> 0"
    and s': "slot s' dp j = \<lparr>de_inum = ucast n, de_name = name_field nm\<rparr>"
    "\<And>j'. j' < nslots s dp \<Longrightarrow> j' \<noteq> j \<Longrightarrow> slot s' dp j' = slot s dp j'" "nslots s' dp = nslots s dp"
  shows "find_entry s' dp x = (if same_name x nm then Some j else find_entry s dp x)"
    and "find_entry s dp x = Some j' \<Longrightarrow> j' \<noteq> j \<and> j' < nslots s dp"
proof -
  have j: "j < nslots s dp" "de_inum (slot s dp j) = 0" using find_SomeD[OF free[unfolded find_free_def]] by simp_all
  have other: "\<not> entry_of nm (slot s dp j')" if "j' < nslots s dp" for j'
    using new that unfolding find_entry_def find_None_iff by simp
  have self: "entry_of x (slot s' dp j) \<longleftrightarrow> same_name x nm"
    using n by (simp add: s' entry_of_def same_name_def cstr_name_field)
  have old: "\<not> entry_of x (slot s dp j)" using j(2) by (simp add: entry_of_def)
  show "find_entry s' dp x = (if same_name x nm then Some j else find_entry s dp x)"
  proof (cases "same_name x nm")
    case True
    have "entry_of x (slot s' dp j') \<longleftrightarrow> j' = j" if "j' < nslots s dp" for j'
      using True self s'(2)[OF that] other[OF that] by (cases "j' = j") (auto simp: entry_of_def same_name_def)
    then have "find (\<lambda>j'. entry_of x (slot s' dp j')) [0..<nslots s dp] = find (\<lambda>j'. j' = j) [0..<nslots s dp]"
      by (intro find_cong) simp_all
    also have "\<dots> = Some j"
    proof (cases "find (\<lambda>j'. j' = j) [0..<nslots s dp]")
      case None
      then show ?thesis using j(1) by (simp add: find_None_iff)
    next
      case (Some i)
      then show ?thesis using find_SomeD[OF Some] by simp
    qed
    finally show ?thesis using True by (simp add: find_entry_def s'(3))
  next
    case False
    have "entry_of x (slot s' dp j') = entry_of x (slot s dp j')" if "j' < nslots s dp" for j'
      using False self s'(2)[OF that] old by (cases "j' = j") simp_all
    then show ?thesis using False unfolding find_entry_def s'(3) by (auto intro: find_cong)
  qed
  show "j' \<noteq> j \<and> j' < nslots s dp" if "find_entry s dp x = Some j'"
    using find_SomeD[OF that[unfolded find_entry_def]] old by auto
qed


text \<open>The name a in an empty directory of two slots.\<close>

definition dir_fs :: fss where
  "dir_fs = small_fs\<lparr>inodes :=
     [\<lparr>idev = 1, inum = 1, iref = 1, ivalid = True, itype = T_DIR, imajor = 0, iminor = 0, inlink = 1,
       isize = 32, iaddrs = 6 # replicate 12 0\<rparr>,
      \<lparr>idev = 0, inum = 0, iref = 0, ivalid = False, itype = 0, imajor = 0, iminor = 0, inlink = 0,
       isize = 0, iaddrs = replicate 13 0\<rparr>]\<rparr>"

lemma dir_fs_ok: "fs_ok (Suc 0) dir_fs"
  and dir_fs_dir: "directory_ok dir_fs 0"
  and dir_fs_contents: "contents dir_fs 0 = replicate 32 0"
proof -
  have q: "lhn quiet_log = 0" "committing quiet_log = False" "lsize quiet_log = 3" "lb quiet_log = boot_bst small_disk"
    by (simp_all add: quiet_log_def)
  have "log_ok (quiet_log\<lparr>outstanding := 1\<rparr>)" using quiet_log_ok by (simp add: log_ok_def logged_def in_log_def)
  then show "fs_ok (Suc 0) dir_fs"
    using boot_bst_ready q by (auto simp: fs_ok_def dir_fs_def small_fs_def logged_ok_def in_txn_def LOGSIZE_def)
  have b6: "6 \<in> blks dir_fs"
    by (simp add: blks_def dir_fs_def small_fs_def data_blocks_def quiet_log_def boot_bst_def small_disk_def in_log_def)
  have i: "isize (inodes dir_fs ! 0) = 32" "itype (inodes dir_fs ! 0) = T_DIR" "idev (inodes dir_fs ! 0) = 1"
    "iaddrs (inodes dir_fs ! 0) = 6 # replicate 12 0"
    by (simp_all add: dir_fs_def)
  show "directory_ok dir_fs 0"
    by (simp add: directory_ok_def file_ok_def i T_DIR_def T_DEV_def BSIZE_def mapped_def addr_of_def MAXFILE_def NDIRECT_def b6 NINDIRECT_def)
  have "vw dir_fs 6 = zero_block"
    using bview_clean[OF boot_bst_binv[OF small_disk_good], of 6] boot_bst_clean[of small_disk 6]
    by (simp add: vw_def dir_fs_def small_fs_def quiet_log_def) (simp add: boot_bst_def small_disk_def)
  then show "contents dir_fs 0 = replicate 32 0"
    by (intro nth_equalityI) (simp_all add: contents_def i byte_of_def addr_of_def NDIRECT_def BSIZE_def zero_block_def)
qed


end
