(* ===== verification/Forking.thy ===== *)
theory Forking
  imports Procnew CowFork FileFacts
begin

unbundle bit_operations_syntax

text \<open>
  The system call \<open>fork\<close> as a whole: allocproc, copyuvm, the duplication of the open files and of the
  current directory, composed as proc.c composes them.
\<close>

section \<open>A kernel up to its process table and its file table\<close>

definition with_tables :: "proc list \<Rightarrow> kfile list \<Rightarrow> kernel \<Rightarrow> kernel" where
  "with_tables pt ft s = set_kmach ((kmach s)\<lparr>ptable := pt\<rparr>) (s\<lparr>ftable := ft\<rparr>)"

lemma with_tables_fields [simp]:
  "kmach (with_tables pt ft s) = (kmach s)\<lparr>ptable := pt\<rparr>" "procs (with_tables pt ft s) = pt"
  "kproc i (with_tables pt ft s) = pt ! i" "ftable (with_tables pt ft s) = ft"
  "kvm (with_tables pt ft s) = kvm s" "inodes (kfs (with_tables pt ft s)) = inodes (kfs s)"
  "kmem (with_tables pt ft s) = kmem s"
  "with_tables pt ft (with_tables pt' ft' s) = with_tables pt ft s"
  by (simp_all add: with_tables_def procs_def kproc_def kmem_def) (simp_all add: put_mach_def kmach_def)

lemma with_tables_same: "with_tables (procs s) (ftable s) s = s"
  by (simp add: with_tables_def procs_def)

lemma with_tables_updates [simp]:
  "kset_proc i f (with_tables pt ft s) = with_tables (pt[i := f (pt ! i)]) ft s"
  "set_file i g (with_tables pt ft s) = with_tables pt (ft[i := g (ft ! i)]) s"
  by (simp_all add: kset_proc_set set_file_def with_tables_def set_proc_def) (simp_all add: put_mach_def kmach_def)

lemma tables_locks [simp]:
  "on_cpu c (m\<lparr>ptable := pt\<rparr>) = on_cpu c m" "lock_free l (m\<lparr>ptable := pt\<rparr>) = lock_free l m"
  by (simp_all add: on_cpu_def lock_free_def cpu_index_def)

lemma kset_tables: "kset_proc i f s = with_tables ((procs s)[i := f (procs s ! i)]) (ftable s) s"
  using with_tables_updates(1)[of i f "procs s" "ftable s" s] by (simp add: with_tables_same)

section \<open>The open files\<close>

definition dup_ref :: "kfile list \<Rightarrow> nat option \<Rightarrow> kfile list" where
  "dup_ref ft x = (case x of None \<Rightarrow> ft | Some f \<Rightarrow> ft[f := (ft ! f)\<lparr>f_ref := f_ref (ft ! f) + 1\<rparr>])"

definition dup_refs :: "kfile list \<Rightarrow> nat option list \<Rightarrow> kfile list" where
  "dup_refs = foldl dup_ref"

lemma dup_refs_nth:
  "f < length ft \<Longrightarrow> dup_refs ft os ! f = (ft ! f)\<lparr>f_ref := f_ref (ft ! f) + int (count_list os (Some f))\<rparr>"
  "length (dup_refs ft os) = length ft"
proof (induction os arbitrary: ft)
  case (Cons x os)
  {
    case 1
    then show ?case using Cons.IH(1)[of "dup_ref ft x"]
      by (auto simp: dup_refs_def dup_ref_def nth_list_update split: option.splits)
  next
    case 2
    then show ?case using Cons.IH(2)[of "dup_ref ft x"]
      by (auto simp: dup_refs_def dup_ref_def split: option.splits)
  }
qed (simp_all add: dup_refs_def f_ref_back)

text \<open>The loop over the open files: the child's first \<open>n\<close> descriptors and the references so far.\<close>

definition forked_files :: "nat \<Rightarrow> nat \<Rightarrow> nat \<Rightarrow> kernel \<Rightarrow> kernel" where
  "forked_files cur np n s =
     (let fs = take n (ofile (procs s ! cur)) in
      with_tables ((procs s)[np := (procs s ! np)\<lparr>ofile := fs @ drop n (ofile (procs s ! np))\<rparr>])
        (dup_refs (ftable s) fs) s)"

lemma fork_files:
  assumes c: "on_cpu c (kmach s)" "\<And>l. lock_free l (kmach s)" and np: "np \<noteq> cur" "np < length (procs s)"
    and empty: "ofile (procs s ! np) = replicate NOFILE None" and files: "length (ofile (procs s ! cur)) = NOFILE"
    and refs: "\<And>f. Some f \<in> set (ofile (procs s ! cur)) \<Longrightarrow> f < length (ftable s) \<and> 1 \<le> f_ref (ftable s ! f)"
  shows "n \<le> NOFILE \<Longrightarrow> for_each (fork_file cur np) [0..<n] s = Ok () (forked_files cur np n s)"
proof (induction n)
  case 0
  have "(procs s ! np)\<lparr>ofile := ofile (procs s ! np)\<rparr> = procs s ! np" by simp
  then have "(procs s)[np := (procs s ! np)\<lparr>ofile := ofile (procs s ! np)\<rparr>] = procs s" by simp
  then show ?case by (simp add: forked_files_def dup_refs_def with_tables_same)
next
  case (Suc n)
  let ?F = "ofile (procs s ! cur)" and ?t = "forked_files cur np n s"
  have n: "n < length ?F" using Suc.prems files by simp
  have tk: "take (Suc n) ?F = take n ?F @ [?F ! n]" by (rule take_Suc_conv_app_nth[OF n])
  have old: "drop n (ofile (procs s ! np)) = None # drop (Suc n) (ofile (procs s ! np))"
    using Suc.prems replicate_Suc[of "NOFILE - Suc n" "None :: nat option"] by (simp add: empty Suc_diff_Suc del: replicate_Suc)
  have cur: "kproc cur ?t = procs s ! cur" using np by (simp add: forked_files_def Let_def)
  have ft: "ftable ?t = dup_refs (ftable s) (take n ?F)" by (simp add: forked_files_def Let_def)
  have "fork_file cur np n ?t = Ok () (forked_files cur np (Suc n) s)"
  proof (cases "?F ! n")
    case None
    then show ?thesis using cur old
      by (simp add: fork_file_def) (simp add: forked_files_def Let_def tk dup_refs_def dup_ref_def)
  next
    case (Some f)
    then have "Some f \<in> set ?F" using n nth_mem by metis
    then have f: "f < length (ftable s)" "1 \<le> f_ref (ftable s ! f)" using refs by blast+
    then have "1 \<le> f_ref (ftable ?t ! f)" by (simp add: ft dup_refs_nth(1))
    moreover have "on_cpu c (kmach ?t)" "lock_free FtableLock (kmach ?t)" using c by (simp_all add: forked_files_def Let_def)
    ultimately have dup: "filedup f ?t = Ok f (set_file f (\<lambda>x. x\<lparr>f_ref := f_ref x + 1\<rparr>) ?t)" by (intro filedup_eq)
    have "(take n ?F @ None # drop (Suc n) (ofile (procs s ! np)))[n := Some f] = take (Suc n) ?F @ drop (Suc n) (ofile (procs s ! np))"
      using n Some by (simp add: list_update_append tk)
    then show ?thesis using dup cur Some np old
      by (simp add: fork_file_def) (simp add: forked_files_def Let_def tk dup_refs_def dup_ref_def)
  qed
  then show ?case using Suc by (simp add: for_each_append)
qed

section \<open>The current directory\<close>

lemma k_idup:
  assumes c: "on_cpu c (kmach s)" "\<And>l. lock_free l (kmach s)"
  shows "on_fs (idup d) s = Ok d (set_kinode d (\<lambda>x. x\<lparr>iref := iref x + 1\<rparr>) s)"
proof -
  let ?B = "lb (fl (kfs s))"
  let ?m = "(kfs s)\<lparr>fl := (fl (kfs s))\<lparr>lb := ?B\<lparr>bm := take_lock c IcacheLock (bm ?B)\<rparr>\<rparr>\<rparr>"
  have b: "on_cpu c (bm ?B)" "all_free (bm ?B)" using c by (simp_all add: kmach_def all_free_def)
  have acq: "on_fm (acquire IcacheLock) (kfs s) = Ok () ?m"
    by (intro zoom_Ok[of "on_lb (on_bm (acquire IcacheLock))" fl] zoom_Ok[of "on_bm (acquire IcacheLock)" lb] bm_acquire b)
  have rel: "on_fm (release IcacheLock) (set_inode d g ?m) = Ok () (set_inode d g (kfs s))" for g
  proof -
    have "on_bm (release IcacheLock) (lb (fl (set_inode d g ?m))) = Ok () ((lb (fl (set_inode d g ?m)))\<lparr>bm := bm ?B\<rparr>)"
      by (rule bm_release[OF _ b]) (simp add: set_inode_def)
    then show ?thesis by (simp add: zoom_Ok) (simp add: set_inode_def)
  qed
  have "idup d (kfs s) = Ok d (set_inode d (\<lambda>x. x\<lparr>iref := iref x + 1\<rparr>) (kfs s))"
    using acq rel by (simp add: idup_def)
  then show ?thesis by (simp add: zoom_Ok set_kinode_def)
qed

section \<open>The stack page and the address space\<close>

lemma fork_ready_taken:
  assumes r: "fork_ready c pg sz (p # ps) v" and room: "66 + (pages_of sz + 1023) div 1024 \<le> length ps"
    and w: "vmem w = vmem v" "kend (vk w) = kend (vk v)" "kdata w = kdata v"
      "rcount (vk w) = (rcount (vk v))(page_index p := 1)"
    and g: "vgood c ps w"
  shows "fork_ready c pg sz ps w"
proof -
  have U: "user_pages pg (pages_of sz) (p # ps) v" using r by (simp add: fork_ready_def)
  have p0: "rcount (vk v) (page_index p) = 0" using fork_readyD(3)[OF r, of p] by simp
  have ne: "page_index (frame_at (vmem v) pg va) \<noteq> page_index p" if "pageno va < pages_of sz" for va
  proof
    assume "page_index (frame_at (vmem v) pg va) = page_index p"
    moreover have "0 < rcount (vk v) (page_index (frame_at (vmem v) pg va))" using U that by (simp add: user_pages_def)
    ultimately show False using p0 by simp
  qed
  have "user_pages pg (pages_of sz) ps w"
    using U ne unfolding user_pages_def by (simp add: w)
  then show ?thesis using r g room by (simp add: fork_ready_def data_ok_def w)
qed

text \<open>
  When \<open>fork\<close> succeeds: the process \<open>cur\<close> runs and no lock is held, the slot \<open>np\<close> is the first free one and has
  no open files, there are pages for the child's stack, directory and tables, and the parent's open
  files and current directory are referenced.
\<close>

definition can_fork :: "nat \<Rightarrow> nat \<Rightarrow> nat \<Rightarrow> nat \<Rightarrow> uint list \<Rightarrow> kernel \<Rightarrow> bool" where
  "can_fork c cur np d ps s \<longleftrightarrow>
     running c cur (kmach s) \<and> (\<forall>l. lock_free l (kmach s)) \<and>
     (let q = procs s ! cur in
       fork_ready c (p_pgdir q) (p_sz q) ps (get_vm s) \<and> 67 + (pages_of (p_sz q) + 1023) div 1024 \<le> length ps \<and>
       find (\<lambda>i. pstate (procs s ! i) = UNUSED) [0..<length (procs s)] = Some np \<and> np \<noteq> cur \<and>
       ofile (procs s ! np) = replicate NOFILE None \<and> length (ofile q) = NOFILE \<and>
       (\<forall>f. Some f \<in> set (ofile q) \<longrightarrow> f < length (ftable s) \<and> 1 \<le> f_ref (ftable s ! f)) \<and>
       cwd q = Some d \<and> d < length (inodes (kfs s)))"

text \<open>\<open>allocproc\<close> and the copy of the address space.\<close>

lemma fork_space:
  assumes "can_fork c cur np d ps s"
  defines "q \<equiv> procs s ! cur"
  shows "\<exists>pgdir t. allocproc s = Ok (Some np) t \<and> kproc cur t = q \<and>
    fork_ready c (p_pgdir q) (p_sz q) (tl ps) (get_vm t) \<and> page_taken ps s t \<and>
    (\<exists>t' ps'. on_vst (copyuvm (p_pgdir q) (p_sz q)) t = Ok pgdir t' \<and> pgdir \<noteq> 0 \<and>
      running c cur (kmach t') \<and> (\<forall>l. lock_free l (kmach t')) \<and> cpus (kmach t') = cpus (kmach s) \<and> ftable t' = ftable s \<and> inodes (kfs t') = inodes (kfs s) \<and>
      procs t' = (procs s)[np := newborn (hd ps) (nextpid (kmach s)) (procs s ! np)] \<and>
      copied c 1 (copy_slots (pages_of (p_sz q))) pgdir (p_pgdir q) (tl ps) (get_vm t) (pages_of (p_sz q)) ps' (kvm t') \<and>
      (\<forall>va. pageno va < pages_of (p_sz q) \<longrightarrow>
         user_load (kmem t') pgdir va = user_load (kmem s) (p_pgdir q) va \<and>
         user_load (kmem t') (p_pgdir q) va = user_load (kmem s) (p_pgdir q) va))"
proof -
  note D = assms(1)[unfolded can_fork_def Let_def, folded q_def]
  have run: "running c cur (kmach s)" and free: "lock_free l (kmach s)" and fr: "fork_ready c (p_pgdir q) (p_sz q) ps (get_vm s)"
    and room: "67 + (pages_of (p_sz q) + 1023) div 1024 \<le> length ps"
    and slot: "find (\<lambda>i. pstate (procs s ! i) = UNUSED) [0..<length (procs s)] = Some np" "np \<noteq> cur" for l
    using D by blast+
  obtain p qs where ps: "ps = p # qs" using room by (cases ps) auto
  have c: "on_cpu c (kmach s)" using run by (simp add: running_def)
  have "alloc_ready c ps s" using fr c free by (simp add: alloc_ready_def fork_ready_def vgood_def)
  from allocproc_stack[OF this slot(1)] obtain t0 where t0: "allocproc s = (let p = case ps of [] \<Rightarrow> 0 | p # _ \<Rightarrow> p;
        s = kset_proc np (\<lambda>q. q\<lparr>kstack := p\<rparr>) t0 in
      if p = 0 then Ok None (kset_proc np (\<lambda>p. p\<lparr>pstate := UNUSED\<rparr>) s)
      else Ok (Some np) (kset_proc np (\<lambda>p. p\<lparr>p_context := new_context\<rparr>) s))"
    "alloc_ready c qs t0" "page_taken ps s t0"
    "kmach t0 = (set_proc np (\<lambda>p. p\<lparr>pstate := EMBRYO, pid := nextpid (kmach s)\<rparr>) (kmach s))\<lparr>nextpid := nextpid (kmach s) + 1\<rparr>"
    by (auto simp: ps)
  have pool: "page_ok (kend (vk (get_vm s))) r" if "r \<in> set ps" for r using fork_readyD(3)[OF fr that] by simp
  then have nz: "r \<noteq> 0" if "r \<in> set ps" for r using that page_nonzero by blast
  then have p: "p \<noteq> 0" by (simp add: ps)
  define t where "t = kset_proc np (\<lambda>p. p\<lparr>p_context := new_context\<rparr>) (kset_proc np (\<lambda>q. q\<lparr>kstack := p\<rparr>) t0)"
  have al: "allocproc s = Ok (Some np) t" using t0(1) p by (simp add: ps t_def Let_def)
  have taken: "page_taken ps s t" using t0(3) by (simp add: t_def kset_proc_set)
  have m: "kmach t = set_proc np (\<lambda>p. p\<lparr>p_context := new_context\<rparr>) (set_proc np (\<lambda>q. q\<lparr>kstack := p\<rparr>) (kmach t0))"
    by (simp add: t_def kset_proc_set)
  have tab: "procs t = (procs s)[np := newborn p (nextpid (kmach s)) (procs s ! np)]"
    using find_upt_Some[OF slot(1)] by (simp add: procs_def m t0(4) newborn_def)
  have runt: "running c cur (kmach t)" and freet: "lock_free l (kmach t)" for l
    using run free by (simp_all add: running_def m t0(4)) (simp add: set_proc_def)
  have cpt: "cpus (kmach t) = cpus (kmach s)" by (simp add: m t0(4)) (simp add: set_proc_def)
  have "alloc_ready c qs t" unfolding t_def using t0(2) by simp
  then have good: "vgood c qs (get_vm t)" using freet runt by (simp add: alloc_ready_def vgood_def kquiet_def running_def)
  have vm: "vmem (get_vm t) = kmem t" "vmem (get_vm s) = kmem s" "kmem t = kmem s"
    using taken by (simp_all add: page_taken_def vmem_def get_vm_def kmem_def)
  have ready: "fork_ready c (p_pgdir q) (p_sz q) qs (get_vm t)"
    by (rule fork_ready_taken[OF fr[unfolded ps]]) (use taken good room vm in \<open>simp_all add: page_taken_def get_vm_def ps\<close>)
  note F = fork_readyD[OF ready]
  from F(4) obtain d ps' v where v: "copyuvm (p_pgdir q) (p_sz q) (get_vm t) = Ok d v" "d \<in> set qs"
    "copied c 1 (copy_slots (pages_of (p_sz q))) d (p_pgdir q) qs (get_vm t) (pages_of (p_sz q)) ps' v" by blast
  note views = copied_views(6)[OF F(2) v(3) _ F(3)]
  define t' where "t' = put_vm (\<lambda>_. v) t"
  have m': "kmach t' = kmach t" using copiedD(11)[OF v(3)] by (simp add: t'_def)
  have "on_vst (copyuvm (p_pgdir q) (p_sz q)) t = Ok d t'" using v(1) by (simp add: zoom_def t'_def)
  moreover have "d \<noteq> 0" using nz v(2) by (simp add: ps)
  moreover have "ftable t' = ftable s" "inodes (kfs t') = inodes (kfs s)"
    using taken by (simp_all add: t'_def put_vm_def Let_def put_mach_def page_taken_def)
  moreover have "procs t' = (procs s)[np := newborn (hd ps) (nextpid (kmach s)) (procs s ! np)]"
    using tab m' by (simp add: procs_def ps)
  moreover have "kmem t' = vmem v" by (simp add: t'_def kmem_def vmem_def put_vm_def Let_def put_mach_def)
  moreover have "kproc cur t = q" using tab slot(2) by (simp add: kproc_def procs_def q_def)
  moreover have "kvm t' = v" by (simp add: t'_def put_vm_def Let_def put_mach_def)
  ultimately show ?thesis
    using al runt freet m' views vm cpt ready taken v(3)
    by (intro exI[of _ d] exI[of _ t] conjI exI[of _ t'] exI[of _ ps']) (auto simp: ps)
qed

section \<open>fork\<close>

lemma kset_kinode: "kset_proc i f (set_kinode d g s) = set_kinode d g (kset_proc i f s)"
  by (simp add: kset_proc_def set_kinode_def put_mach_def kmach_def set_inode_def)

lemma set_kinode_fields [simp]:
  "kmach (set_kinode d g s) = kmach s" "procs (set_kinode d g s) = procs s" "kproc i (set_kinode d g s) = kproc i s"
  "ftable (set_kinode d g s) = ftable s" "kmem (set_kinode d g s) = kmem s"
  "inodes (kfs (set_kinode d g s)) = (inodes (kfs s))[d := g (inodes (kfs s) ! d)]"
  by (simp_all add: set_kinode_def kmach_def procs_def kproc_def kmem_def set_inode_def)

lemma k_set_state:
  assumes c: "on_cpu c (kmach s)" "\<And>l. lock_free l (kmach s)"
  shows "call (on_mach (acquire PtableLock) s) (\<lambda>_ s. call (on_mach (release PtableLock) (kset_proc i f s)) (\<lambda>_ s. Ok x s)) =
    Ok x (kset_proc i f s)"
proof -
  have "on_mach (release PtableLock) (kset_proc i f (set_kmach (take_lock c PtableLock (kmach s)) s)) =
      Ok () (set_kmach (set_proc i f (kmach s)) s)"
    using k_release[of "kset_proc i f (set_kmach (take_lock c PtableLock (kmach s)) s)" c PtableLock "set_proc i f (kmach s)"] c
    by (simp add: kset_proc_set set_proc_take_lock)
  then show ?thesis using k_acquire[OF c(1) c(2)] by (simp add: kset_proc_set)
qed

definition child :: "nat \<Rightarrow> uint \<Rightarrow> int \<Rightarrow> uint \<Rightarrow> proc \<Rightarrow> proc \<Rightarrow> proc" where
  "child cur stack k pgdir q old = (newborn stack k old)\<lparr>pstate := RUNNABLE, p_pgdir := pgdir, p_sz := p_sz q,
     parent := Some cur, p_tf := (p_tf q)\<lparr>tf_eax := 0\<rparr>, ofile := ofile q, cwd := cwd q, pname := take 15 (pname q)\<rparr>"

text \<open>The state after \<open>fork\<close>: \<open>t\<close> is the state in which the address space was copied.\<close>

lemma fork_result:
  assumes "can_fork c cur np d ps s"
  shows "\<exists>pgdir t t' ps' s'. fork s = Ok (nextpid (kmach s)) s' \<and> pgdir \<noteq> 0 \<and>
    procs s' = (procs s)[np := child cur (hd ps) (nextpid (kmach s)) pgdir (procs s ! cur) (procs s ! np)] \<and>
    ftable s' = dup_refs (ftable s) (ofile (procs s ! cur)) \<and>
    inodes (kfs s') = (inodes (kfs s))[d := (inodes (kfs s) ! d)\<lparr>iref := iref (inodes (kfs s) ! d) + 1\<rparr>] \<and>
    running c cur (kmach s') \<and> (\<forall>l. lock_free l (kmach s')) \<and> cpus (kmach s') = cpus (kmach s) \<and> kvm s' = kvm t' \<and> kmem s' = kmem t' \<and>
    fork_ready c (p_pgdir (procs s ! cur)) (p_sz (procs s ! cur)) (tl ps) (get_vm t) \<and> page_taken ps s t \<and>
    copied c 1 (copy_slots (pages_of (p_sz (procs s ! cur)))) pgdir (p_pgdir (procs s ! cur)) (tl ps) (get_vm t)
      (pages_of (p_sz (procs s ! cur))) ps' (kvm t') \<and>
    (\<forall>va. pageno va < pages_of (p_sz (procs s ! cur)) \<longrightarrow>
       user_load (kmem t') pgdir va = user_load (kmem s) (p_pgdir (procs s ! cur)) va \<and>
       user_load (kmem t') (p_pgdir (procs s ! cur)) va = user_load (kmem s) (p_pgdir (procs s ! cur)) va)"
proof -
  let ?q = "procs s ! cur" and ?old = "procs s ! np"
  note D = assms[unfolded can_fork_def Let_def]
  obtain pgdir t t' ps' where t: "allocproc s = Ok (Some np) t" "kproc cur t = ?q"
    "on_vst (copyuvm (p_pgdir ?q) (p_sz ?q)) t = Ok pgdir t'" "pgdir \<noteq> 0"
    "running c cur (kmach t')" "\<And>l. lock_free l (kmach t')" "ftable t' = ftable s" "inodes (kfs t') = inodes (kfs s)"
    "procs t' = (procs s)[np := newborn (hd ps) (nextpid (kmach s)) ?old]"
    "\<And>va. pageno va < pages_of (p_sz ?q) \<Longrightarrow>
      user_load (kmem t') pgdir va = user_load (kmem s) (p_pgdir ?q) va \<and>
      user_load (kmem t') (p_pgdir ?q) va = user_load (kmem s) (p_pgdir ?q) va"
    and cpus: "cpus (kmach t') = cpus (kmach s)" and cp: "fork_ready c (p_pgdir ?q) (p_sz ?q) (tl ps) (get_vm t)" "page_taken ps s t"
      "copied c 1 (copy_slots (pages_of (p_sz ?q))) pgdir (p_pgdir ?q) (tl ps) (get_vm t) (pages_of (p_sz ?q)) ps' (kvm t')"
    using fork_space[OF assms] by blast
  have np: "np \<noteq> cur" "np < length (procs s)" and d: "cwd ?q = Some d" "d < length (inodes (kfs s))"
    using D find_upt_Some by blast+
  have c: "on_cpu c (kmach t')" using t(5) by (simp add: running_def)
  let ?b = "(newborn (hd ps) (nextpid (kmach s)) ?old)\<lparr>p_pgdir := pgdir, p_sz := p_sz ?q, parent := Some cur,
      p_tf := (p_tf ?q)\<lparr>tf_eax := 0\<rparr>\<rparr>"
  let ?u = "with_tables ((procs s)[np := ?b]) (ftable s) t'"
  let ?ft = "dup_refs (ftable s) (ofile ?q)"
  have u: "kset_proc np (\<lambda>p. p\<lparr>p_sz := p_sz (kproc cur (kset_proc np (\<lambda>p. p\<lparr>p_pgdir := pgdir\<rparr>) t')), parent := Some cur,
      p_tf := (p_tf (kproc cur (kset_proc np (\<lambda>p. p\<lparr>p_pgdir := pgdir\<rparr>) t')))\<lparr>tf_eax := 0\<rparr>\<rparr>)
      (kset_proc np (\<lambda>p. p\<lparr>p_pgdir := pgdir\<rparr>) t') = ?u"
    using np by (simp add: kset_tables[of np _ t'] t(7,9))
  have ub: "ofile ?b = replicate NOFILE None" using D by (simp add: newborn_def)
  have files: "for_each (fork_file cur np) [0..<NOFILE] ?u = Ok () (with_tables ((procs s)[np := ?b\<lparr>ofile := ofile ?q\<rparr>]) ?ft t')"
  proof -
    have "for_each (fork_file cur np) [0..<NOFILE] ?u = Ok () (forked_files cur np NOFILE ?u)"
      by (rule fork_files[where c = c]) (use D np ub c t(6) in \<open>simp_all\<close>)
    also have "forked_files cur np NOFILE ?u = with_tables ((procs s)[np := ?b\<lparr>ofile := ofile ?q\<rparr>]) ?ft t'"
      using D np ub by (simp add: forked_files_def Let_def)
    finally show ?thesis .
  qed
  let ?v = "with_tables ((procs s)[np := ?b\<lparr>ofile := ofile ?q\<rparr>]) ?ft t'"
  let ?w = "set_kinode d (\<lambda>x. x\<lparr>iref := iref x + 1\<rparr>)
      (with_tables ((procs s)[np := ?b\<lparr>ofile := ofile ?q, cwd := Some d, pname := take 15 (pname ?q)\<rparr>]) ?ft t')"
  have idup: "on_fs (idup d) ?v = Ok d (set_kinode d (\<lambda>x. x\<lparr>iref := iref x + 1\<rparr>) ?v)"
    by (rule k_idup[where c = c]) (use c t(6) in simp_all)
  have w: "kset_proc np (\<lambda>p. p\<lparr>cwd := Some d, pname := take 15 (pname (kproc cur (set_kinode d (\<lambda>x. x\<lparr>iref := iref x + 1\<rparr>) ?v)))\<rparr>)
      (set_kinode d (\<lambda>x. x\<lparr>iref := iref x + 1\<rparr>) ?v) = ?w"
    using np by (simp add: kset_kinode)
  have state: "call (on_mach (acquire PtableLock) ?w) (\<lambda>_ s. call (on_mach (release PtableLock) (kset_proc np (\<lambda>p. p\<lparr>pstate := RUNNABLE\<rparr>) s))
      (\<lambda>_ s. Ok x s)) = Ok x (kset_proc np (\<lambda>p. p\<lparr>pstate := RUNNABLE\<rparr>) ?w)" for x
    by (rule k_set_state[where c = c]) (use c t(6) in simp_all)
  let ?s' = "kset_proc np (\<lambda>p. p\<lparr>pstate := RUNNABLE\<rparr>) ?w"
  have pidw: "pid (kproc np ?w) = nextpid (kmach s)" using np by (simp add: newborn_def)
  have cur: "on_mach curproc s = Ok cur s" using D by (intro k_curproc[of c]) simp
  have "fork s = Ok (nextpid (kmach s)) ?s'"
    unfolding fork_def cur call.simps t(1) option.case t(2) t(3) Let_def u files
    using t(4) np d idup state[of "nextpid (kmach s)"] pidw w by (simp add: Let_def)
  moreover have "procs ?s' = (procs s)[np := child cur (hd ps) (nextpid (kmach s)) pgdir ?q ?old]"
  proof -
    have "?b\<lparr>ofile := ofile ?q, cwd := Some d, pname := take 15 (pname ?q), pstate := RUNNABLE\<rparr> =
        child cur (hd ps) (nextpid (kmach s)) pgdir ?q ?old"
      using d(1) by (cases ?old) (simp add: child_def newborn_def)
    then show ?thesis using np by (simp add: kset_kinode)
  qed
  moreover have "ftable ?s' = ?ft" "kmem ?s' = kmem t'" "inodes (kfs ?s') = (inodes (kfs s))[d := (inodes (kfs s) ! d)\<lparr>iref := iref (inodes (kfs s) ! d) + 1\<rparr>]"
    by (simp_all add: kset_kinode t(8))
  moreover have "kvm ?s' = kvm t'" by (simp add: kset_kinode set_kinode_def with_tables_def put_mach_def kset_proc_def)
  moreover have "running c cur (kmach ?s')" "lock_free l (kmach ?s')" "cpus (kmach ?s') = cpus (kmach s)" for l
    using t(5,6) cpus D by (simp_all add: kset_kinode running_def procs_def)
  ultimately show ?thesis
    using t(4,10) cp by (intro exI[of _ pgdir] exI[of _ t] exI[of _ t'] exI[of _ ps'] exI[of _ ?s'] conjI) auto
qed


text \<open>The process of \<open>nursery\<close> with the address space of \<open>parent_state\<close> forks: the child is process 4.\<close>

definition fork_mach :: mach where
  "fork_mach = family_mach\<lparr>ptable := (ptable family_mach)[1 := (ptable family_mach ! 1)\<lparr>p_pgdir := 0x80500000, p_sz := 4096,
     cwd := Some 0, ofile := Some 2 # replicate 15 None\<rparr>] @ [zero_proc]\<rparr>"

definition fork_kernel :: kernel where
  "fork_kernel = set_file 2 (\<lambda>f. f\<lparr>f_ref := 1\<rparr>) ((quiet_kernel fork_mach)\<lparr>kvm := parent_state,
     kfs := (kfs (quiet_kernel fork_mach))\<lparr>inodes := [\<lparr>idev = 1, inum = 1, iref = 1, ivalid = True, itype = T_DIR,
       imajor = 0, iminor = 0, inlink = 1, isize = 32, iaddrs = replicate 13 0\<rparr>]\<rparr>\<rparr>)"

lemma fork_kernel_fields:
  "kmach fork_kernel = fork_mach" "kvm fork_kernel = parent_state" "f_ref (ftable fork_kernel ! 2) = 1"
  "length (ftable fork_kernel) = 100"
  by (simp_all add: fork_kernel_def kmach_def quiet_kernel_def set_file_def NFILE_def)

lemma fork_kernel_ready: "can_fork 0 1 3 0 free_pages fork_kernel"
proof -
  have m: "running 0 1 fork_mach" "lock_free l fork_mach" "km (vk parent_state\<lparr>km := fork_mach\<rparr>) = fork_mach" for l
    using family_running by (simp_all add: fork_mach_def running_def family_table)
  have tab: "procs fork_kernel = ptable fork_mach" by (simp add: procs_def fork_kernel_fields)
  have p1: "p_pgdir (procs fork_kernel ! 1) = 0x80500000" "p_sz (procs fork_kernel ! 1) = 4096"
    "ofile (procs fork_kernel ! 1) = Some 2 # replicate 15 None" "cwd (procs fork_kernel ! 1) = Some 0"
    "procs fork_kernel ! 3 = zero_proc" "length (procs fork_kernel) = 4"
    by (simp_all add: tab fork_mach_def family_table nth_append)
  have "fork_ready 0 0x80500000 4096 free_pages (get_vm fork_kernel)"
    using parent_ready m unfolding fork_ready_def vgood_def kquiet_def user_pages_def data_ok_def pool_inv_def
    by (simp add: get_vm_def fork_kernel_fields vmem_def running_def)
  moreover have "find (\<lambda>i. pstate (procs fork_kernel ! i) = UNUSED) [0..<length (procs fork_kernel)] = Some 3"
  proof -
    have "[0..<4] = [0, 1, 2, 3 :: nat]" by (simp add: upt_rec)
    moreover have "pstate (procs fork_kernel ! 0) = SLEEPING" "pstate (procs fork_kernel ! 1) = RUNNING"
      "pstate (procs fork_kernel ! 2) = ZOMBIE" "pstate (procs fork_kernel ! 3) = UNUSED"
      by (simp_all add: tab fork_mach_def family_table nth_append zero_proc_def)
    ultimately show ?thesis unfolding p1(6) by simp
  qed
  moreover have "0 < length (inodes (kfs fork_kernel))"
    by (simp add: fork_kernel_def quiet_kernel_def set_file_def console_world_def)
  ultimately show ?thesis
    using m p1 free_pages_ok(4) by (simp add: can_fork_def Let_def fork_kernel_fields pages_of_def NOFILE_def zero_proc_def)
qed


end
