(* ===== verification/Append.thy ===== *)
theory Append
  imports Balloc FsFacts
begin

unbundle bit_operations_syntax

text \<open>
  Growing a file: a write at the end of a file of direct blocks allocates the blocks it needs, extends
  the size and stores the inode on disk.  The block allocator is seen as in Balloc.
\<close>

section \<open>Files of direct blocks\<close>

definition inode_block :: "fss \<Rightarrow> nat \<Rightarrow> nat" where
  "inode_block s i = unat (IBLOCK (inum (inodes s ! i)) (sb s))"

text \<open>A block in use, for data: neither free nor a block of the bitmap nor the inode's own.\<close>

definition in_use :: "fss \<Rightarrow> nat \<Rightarrow> bool" where
  "in_use s b \<longleftrightarrow> \<not> free_block s b \<and> (\<forall>x < unat (sb_size (sb s)). bitmap_block s x \<noteq> b)"

definition blocks_for :: "nat \<Rightarrow> nat" where
  "blocks_for n = (n + BSIZE - 1) div BSIZE"

definition data_block :: "fss \<Rightarrow> nat \<Rightarrow> nat \<Rightarrow> nat" where
  "data_block s i b = unat (iaddrs (inodes s ! i) ! b)"

text \<open>The first \<open>nb\<close> direct blocks of the inode \<open>i\<close> are allocated and the rest are not.\<close>

definition has_blocks :: "fss \<Rightarrow> nat \<Rightarrow> nat \<Rightarrow> bool" where
  "has_blocks s i nb \<longleftrightarrow>
     i < length (inodes s) \<and> idev (inodes s ! i) = 1 \<and> itype (inodes s ! i) \<noteq> T_DEV \<and>
     length (iaddrs (inodes s ! i)) = NDIRECT + 1 \<and> nb \<le> NDIRECT \<and>
     (\<forall>b<nb. iaddrs (inodes s ! i) ! b \<noteq> 0 \<and> data_block s i b \<in> blks s \<and> in_use s (data_block s i b) \<and>
        data_block s i b \<noteq> inode_block s i) \<and>
     (\<forall>b. nb \<le> b \<longrightarrow> b < NDIRECT \<longrightarrow> iaddrs (inodes s ! i) ! b = 0) \<and>
     inj_on (data_block s i) {..<nb} \<and> inode_block s i \<in> blks s \<and> in_use s (inode_block s i)"

definition stored :: "fss \<Rightarrow> nat \<Rightarrow> nat \<Rightarrow> bytes" where
  "stored s i n = map (\<lambda>x. vw s (data_block s i (x div BSIZE)) ! (x mod BSIZE)) [0..<n]"

definition nfree :: "fss \<Rightarrow> nat" where
  "nfree s = card {b. free_block s b}"

lemma finite_free: "finite {b. free_block s b}"
  by (rule finite_subset[of _ "{..<unat (sb_size (sb s))}"]) (auto simp: free_block_def)

lemma blocks_for_less: "b < blocks_for n \<longleftrightarrow> b * BSIZE < n"
  unfolding blocks_for_def BSIZE_def less_eq_div_iff_mult_less_eq[OF zero_less_numeral, symmetric] Suc_le_eq[symmetric] by arith

lemma blocks_for_0 [simp]: "blocks_for 0 = 0"
  by (simp add: blocks_for_def BSIZE_def)

lemma blocks_for_mono: "m \<le> n \<Longrightarrow> blocks_for m \<le> blocks_for n"
  unfolding blocks_for_def by (intro div_le_mono) simp

text \<open>What a change of the state keeps while the file \<open>i\<close> grows.\<close>

definition grown :: "fss \<Rightarrow> nat \<Rightarrow> nat \<Rightarrow> fss \<Rightarrow> nat \<Rightarrow> bool" where
  "grown s i nb s' nb' \<longleftrightarrow>
     bitmap_ok s' \<and> has_blocks s' i nb' \<and> nb \<le> nb' \<and> nfree s' + nb' = nfree s + nb \<and>
     sb s' = sb s \<and> blks s' = blks s \<and> (\<forall>x. free_block s' x \<longrightarrow> free_block s x) \<and>
     (\<exists>as. inodes s' = (inodes s)[i := (inodes s ! i)\<lparr>iaddrs := as\<rparr>]) \<and>
     (\<forall>b<nb. data_block s' i b = data_block s i b) \<and>
     (\<forall>b<nb'. nb \<le> b \<longrightarrow> free_block s (data_block s' i b)) \<and>
     (\<forall>n. in_use s n \<longrightarrow> n \<notin> data_block s i ` {..<nb} \<longrightarrow> vw s' n = vw s n)"

lemma has_blocksD:
  assumes "has_blocks s i nb"
  shows "i < length (inodes s)" "idev (inodes s ! i) = 1" "length (iaddrs (inodes s ! i)) = NDIRECT + 1" "nb \<le> NDIRECT"
    "b < nb \<Longrightarrow> iaddrs (inodes s ! i) ! b \<noteq> 0 \<and> data_block s i b \<in> blks s \<and> in_use s (data_block s i b)"
    "nb \<le> b \<Longrightarrow> b < NDIRECT \<Longrightarrow> iaddrs (inodes s ! i) ! b = 0"
    "a < nb \<Longrightarrow> b < nb \<Longrightarrow> data_block s i a = data_block s i b \<Longrightarrow> a = b"
  using assms unfolding has_blocks_def inj_on_def by blast+

section \<open>Allocating a block\<close>

lemma bmap_direct:
  assumes "fs_ok k s" "has_blocks s i nb" "b < nb"
  shows "bmap i (of_nat b) s = Ok (iaddrs (inodes s ! i) ! b) s"
proof -
  note h = has_blocksD[OF assms(2)]
  have "b < NDIRECT" using assms(3) h(4) by simp
  then have "unat (of_nat b :: uint) = b" by (simp add: unat_of_nat NDIRECT_def)
  then show ?thesis using \<open>b < NDIRECT\<close> h(5)[OF assms(3)] by (simp add: bmap_def)
qed

lemma set_inode_fields [simp]:
  "vw (set_inode i f s) = vw s" "blks (set_inode i f s) = blks s" "sb (set_inode i f s) = sb s"
  "fs_ok k (set_inode i f s) = fs_ok k s" "free_block (set_inode i f s) = free_block s"
  "bitmap_block (set_inode i f s) = bitmap_block s" "bitmap_ok (set_inode i f s) = bitmap_ok s"
  "inodes (set_inode i f s) = (inodes s)[i := f (inodes s ! i)]"
  by (simp_all add: set_inode_def vw_def blks_def fs_ok_def free_block_def bitmap_block_def bitmap_ok_def fun_eq_iff)

lemma bmap_new:
  assumes ok: "fs_ok (Suc (Suc k)) s" and bm: "bitmap_ok s" and h: "has_blocks s i nb" "nb < NDIRECT" and room: "0 < nfree s"
    and boot: "\<not> free_block s 0"
  shows "\<exists>s'. bmap i (of_nat nb) s = Ok (iaddrs (inodes s' ! i) ! nb) s' \<and> fs_ok k s' \<and> grown s i nb s' (Suc nb) \<and>
    (\<forall>n. in_use s n \<longrightarrow> vw s' n = vw s n)"
proof -
  note H = has_blocksD[OF h(1)]
  obtain b0 where "free_block s b0" using room card_gt_0_iff[of "{b. free_block s b}"] by (auto simp: nfree_def)
  then obtain b t where b: "balloc 1 s = Ok (of_nat b) t" "free_block s b" "fs_ok k t" "taken s b t"
    using balloc_spec[OF ok bm] by blast
  note T = b(4)[unfolded taken_def same_rest_def]
  let ?ip = "inodes s ! i"
  let ?f = "\<lambda>x. x\<lparr>iaddrs := (iaddrs x)[nb := of_nat b :: uint]\<rparr>"
  let ?s = "set_inode i ?f t"
  have u: "unat (of_nat b :: uint) = b" using b(2) unat_less[of "sb_size (sb s)"] by (simp add: unat_of_nat free_block_def)
  have un: "unat (of_nat nb :: uint) = nb" using h(2) by (simp add: unat_of_nat NDIRECT_def)
  have bb: "bitmap_block t x = bitmap_block s x" for x using T by (simp add: bitmap_block_def)
  have b0: "b \<in> blks s" "\<And>x. x < unat (sb_size (sb s)) \<Longrightarrow> bitmap_block s x \<noteq> b" "b < unat (sb_size (sb s))"
    using b(2) bm by (auto simp: bitmap_ok_def free_block_def)
  have bnz: "b \<noteq> 0" using b(2) boot by metis
  have bu: "\<not> in_use s b" using b(2) by (simp add: in_use_def)
  have ip: "inodes ?s = (inodes s)[i := ?ip\<lparr>iaddrs := (iaddrs ?ip)[nb := of_nat b]\<rparr>]" using T by simp
  have db: "data_block ?s i x = (if x = nb then b else data_block s i x)" for x
    using H(1,3) h(2) by (cases "x = nb") (simp_all add: data_block_def ip u del: set_inode_fields)
  have ib: "inode_block ?s i = inode_block s i" using H(1) T by (simp add: inode_block_def)
  have free: "free_block ?s x \<longleftrightarrow> free_block s x \<and> x \<noteq> b" for x using T by simp
  have use: "in_use s x \<Longrightarrow> in_use ?s x" for x using T by (simp add: in_use_def free bb)
  have useb: "in_use ?s b" using b0 T by (simp add: in_use_def free bb)
  have bms: "bitmap_ok t" using bm T by (auto simp: bitmap_ok_def bb)
  have has: "has_blocks ?s i (Suc nb)"
  proof -
    have addr: "iaddrs (inodes ?s ! i) ! x = (if x = nb then of_nat b else iaddrs ?ip ! x)" for x
      using H(1,3) h(2) by (cases "x = nb") (simp_all add: ip del: set_inode_fields)
    have "(of_nat b :: uint) \<noteq> 0" using bnz u by (metis unat_0)
    moreover have "inj_on (data_block ?s i) {..<Suc nb}"
    proof (rule inj_onI)
      fix x y assume "x \<in> {..<Suc nb}" "y \<in> {..<Suc nb}" "data_block ?s i x = data_block ?s i y"
      then show "x = y" using H(5,7) bu by (auto simp: db less_Suc_eq split: if_splits)
    qed
    ultimately show ?thesis
      using h H(1-3) b0(1) use useb bu unfolding has_blocks_def addr db ib
      by (auto simp: ip T less_Suc_eq simp del: set_inode_fields) (auto simp: T)
  qed
  have "{x. free_block ?s x} = {x. free_block s x} - {b}" using free by auto
  then have "nfree ?s = nfree s - 1" using b(2) finite_free by (simp add: nfree_def del: set_inode_fields)
  then have nf: "nfree ?s + Suc nb = nfree s + nb" using room by simp
  have keep: "vw ?s n = vw s n" if "in_use s n" for n
  proof -
    have "n \<noteq> b" "n \<noteq> bitmap_block s b" using that b(2) b0(3) by (auto simp: in_use_def)
    then show ?thesis using T by simp
  qed
  have "grown s i nb ?s (Suc nb)"
    unfolding grown_def using bms has nf free ip keep b(2) T by (auto simp: db less_Suc_eq simp del: set_inode_fields(8)) 
  moreover have "bmap i (of_nat nb) s = Ok (of_nat b) ?s"
    using h(2) H(2) H(6)[of nb] b(1) un by (simp add: bmap_def)
  moreover have "iaddrs (inodes ?s ! i) ! nb = of_nat b" using H(1,3) h(2) by (simp add: ip del: set_inode_fields)
  ultimately show ?thesis using b(3) keep by (intro exI[of _ ?s]) simp
qed

section \<open>Appending\<close>

definition appended :: "fss \<Rightarrow> nat \<Rightarrow> nat \<Rightarrow> bytes \<Rightarrow> fss \<Rightarrow> bool" where
  "appended s i off xs s' \<longleftrightarrow> grown s i (blocks_for off) s' (blocks_for (off + length xs)) \<and>
     stored s' i (off + length xs) = stored s i off @ xs"

lemma grown_refl: "bitmap_ok s \<Longrightarrow> has_blocks s i nb \<Longrightarrow> grown s i nb s nb"
  unfolding grown_def by (auto intro!: exI[of _ "iaddrs (inodes s ! i)"])

lemma grown_in_use: "grown s i a t b \<Longrightarrow> in_use s n \<Longrightarrow> in_use t n"
  by (auto simp: grown_def in_use_def bitmap_block_def)

lemma grown_trans:
  assumes st: "grown s i a t b" and tu: "grown t i b u c"
  shows "grown s i a u c"
proof -
  have S: "nfree t + b = nfree s + a" "sb t = sb s" "blks t = blks s" "\<And>x. free_block t x \<Longrightarrow> free_block s x"
    "\<exists>as. inodes t = (inodes s)[i := (inodes s ! i)\<lparr>iaddrs := as\<rparr>]" "\<And>x. x < a \<Longrightarrow> data_block t i x = data_block s i x"
    "\<And>x. x < b \<Longrightarrow> a \<le> x \<Longrightarrow> free_block s (data_block t i x)" "a \<le> b" "i < length (inodes t)"
    "\<And>n. in_use s n \<Longrightarrow> n \<notin> data_block s i ` {..<a} \<Longrightarrow> vw t n = vw s n"
    using st unfolding grown_def has_blocks_def by blast+
  have T: "nfree u + c = nfree t + b" "sb u = sb t" "blks u = blks t" "\<And>x. free_block u x \<Longrightarrow> free_block t x"
    "\<exists>as. inodes u = (inodes t)[i := (inodes t ! i)\<lparr>iaddrs := as\<rparr>]" "\<And>x. x < b \<Longrightarrow> data_block u i x = data_block t i x"
    "\<And>x. x < c \<Longrightarrow> b \<le> x \<Longrightarrow> free_block t (data_block u i x)" "b \<le> c" "bitmap_ok u" "has_blocks u i c"
    "\<And>n. in_use t n \<Longrightarrow> n \<notin> data_block t i ` {..<b} \<Longrightarrow> vw u n = vw t n"
    using tu unfolding grown_def by blast+
  have new: "free_block s (data_block u i x)" if "x < c" "a \<le> x" for x
    using that S(4,7) T(6,7) by (cases "x < b") auto
  have keep: "vw u n = vw s n" if n: "in_use s n" "n \<notin> data_block s i ` {..<a}" for n
  proof -
    have "n \<notin> data_block t i ` {..<b}"
    proof
      assume "n \<in> data_block t i ` {..<b}"
      then obtain x where x: "x < b" "n = data_block t i x" by blast
      show False
      proof (cases "x < a")
        case True
        then show False using S(6) x n(2) by auto
      next
        case False
        then show False using S(7)[OF x(1)] x(2) n(1) by (simp add: in_use_def)
      qed
    qed
    then show ?thesis using T(11)[OF grown_in_use[OF st n(1)]] S(10)[OF n] by simp
  qed
  have "\<exists>as. inodes u = (inodes s)[i := (inodes s ! i)\<lparr>iaddrs := as\<rparr>]"
    using S(5,9) T(5) by auto
  moreover have "data_block u i x = data_block s i x" if "x < a" for x using S(6,8) T(6) that by simp
  ultimately show ?thesis unfolding grown_def using S(1-4,8) T(1-4,8-10) new keep by auto
qed

lemma appended_trans:
  "appended s i off xs t \<Longrightarrow> appended t i (off + length xs) ys u \<Longrightarrow> appended s i off (xs @ ys) u"
  unfolding appended_def using grown_trans by (simp add: add.assoc[symmetric]) blast

text \<open>Writing a data block changes no bitmap block.\<close>

lemma write_in_use:
  assumes r: "same_rest s s'" and v: "vw s' = (vw s)(a := d)" and a: "in_use s a"
  shows "free_block s' x = free_block s x" "bitmap_block s' x = bitmap_block s x" "bitmap_ok s \<Longrightarrow> bitmap_ok s'"
    "in_use s' x = in_use s x"
proof -
  have sb: "sb s' = sb s" "blks s' = blks s" using r by (simp_all add: same_rest_def)
  show bb: "bitmap_block s' x = bitmap_block s x" for x by (simp add: bitmap_block_def sb)
  show fr: "free_block s' x = free_block s x" for x
    using a v by (auto simp: free_block_def bb sb in_use_def)
  show "bitmap_ok s \<Longrightarrow> bitmap_ok s'" by (simp add: bitmap_ok_def fr bb sb)
  show "in_use s' x = in_use s x" by (simp add: in_use_def fr bb sb)
qed

lemma grown_write:
  assumes g: "grown s i a t b" and r: "same_rest t u" and v: "vw u = (vw t)(data_block t i j := d)" and j: "j < b"
    and own: "a \<le> j \<or> data_block t i j \<in> data_block s i ` {..<a}"
  shows "grown s i a u b"
proof -
  have h: "has_blocks t i b" and bm: "bitmap_ok t" using g by (simp_all add: grown_def)
  have use: "in_use t (data_block t i j)" using has_blocksD(5)[OF h j] by blast
  note W = write_in_use[OF r v use]
  have same: "data_block u i = data_block t i" "inode_block u i = inode_block t i" "inodes u = inodes t" "sb u = sb t" "blks u = blks t"
    using r by (simp_all add: same_rest_def data_block_def inode_block_def fun_eq_iff)
  have "has_blocks u i b" using h unfolding has_blocks_def W(4) same .
  moreover have "nfree u = nfree t" by (simp add: nfree_def W(1))
  moreover have "vw u n = vw s n" if n: "in_use s n" "n \<notin> data_block s i ` {..<a}" for n
  proof -
    have "n \<noteq> data_block t i j"
    proof
      assume e: "n = data_block t i j"
      with n(2) own have "a \<le> j" by blast
      then have "free_block s n" using g j e by (simp add: grown_def)
      then show False using n(1) by (simp add: in_use_def)
    qed
    then show ?thesis using g n v by (simp add: grown_def)
  qed
  ultimately show ?thesis using g W(3)[OF bm] unfolding grown_def same W(1) by simp
qed

lemma blocks_for_in:
  assumes "0 < m" "m \<le> BSIZE - off mod BSIZE"
  shows "blocks_for (off + m) = Suc (off div BSIZE)" "blocks_for off = (if off mod BSIZE = 0 then off div BSIZE else Suc (off div BSIZE))"
proof -
  have e: "off = BSIZE * (off div BSIZE) + off mod BSIZE" using mult_div_mod_eq[of BSIZE off] by simp
  have B: "0 < BSIZE" "off mod BSIZE < BSIZE" by (simp_all add: BSIZE_def)
  have *: "blocks_for (BSIZE * q + r) = Suc q" if "0 < r" "r \<le> BSIZE" for q r
  proof -
    have "blocks_for (BSIZE * q + r) = (BSIZE * Suc q + (r - 1)) div BSIZE" using that by (simp add: blocks_for_def algebra_simps)
    also have "\<dots> = Suc q" using that B by (subst div_mult_self4) simp_all
    finally show ?thesis .
  qed
  have em: "off + m = BSIZE * (off div BSIZE) + (off mod BSIZE + m)" using e by linarith
  show "blocks_for (off + m) = Suc (off div BSIZE)"
    unfolding em by (rule *) (use assms B in linarith)+
  show "blocks_for off = (if off mod BSIZE = 0 then off div BSIZE else Suc (off div BSIZE))"
  proof (cases "off mod BSIZE = 0")
    case True
    then obtain q where "off = BSIZE * q" by (auto simp: mod_eq_0_iff_dvd)
    then show ?thesis using B by (simp add: blocks_for_def) (simp add: BSIZE_def)
  next
    case False
    then show ?thesis using *[of "off mod BSIZE" "off div BSIZE"] e B by simp
  qed
qed

text \<open>One round of the loop: the block exists or is allocated, and gets its bytes.\<close>

lemma append_chunk:
  assumes ok: "fs_ok (Suc (Suc (Suc k))) s" and bm: "bitmap_ok s" and h: "has_blocks s i (blocks_for off)" and boot: "\<not> free_block s 0"
    and m: "0 < length xs" "length xs \<le> BSIZE - off mod BSIZE" and fit: "off + length xs \<le> NDIRECT * BSIZE"
    and room: "blocks_for (off + length xs) \<le> blocks_for off + nfree s"
  shows "\<exists>a s1 bp s2 s3 s4. bmap i (of_nat (off div BSIZE)) s = Ok a s1 \<and> idev (inodes s1 ! i) = 1 \<and> on_fb (bread 1 a) s1 = Ok bp s2 \<and>
    on_fl (log_write bp) (set_fdata bp (splice (off mod BSIZE) xs (fdata s2 bp)) s2) = Ok () s3 \<and> on_fb (brelse bp) s3 = Ok () s4 \<and>
    fs_ok k s4 \<and> appended s i off xs s4"
proof -
  let ?bn = "off div BSIZE"
  note bf = blocks_for_in[OF m]
  have "?bn * BSIZE \<le> off" by simp
  then have bn: "?bn < NDIRECT"
    using m(1) fit by (metis add_less_cancel_left add.right_neutral less_le_trans le_less_trans mult_less_cancel2)
  have "\<exists>s1. bmap i (of_nat ?bn) s = Ok (iaddrs (inodes s1 ! i) ! ?bn) s1 \<and> fs_ok (Suc k) s1 \<and>
      grown s i (blocks_for off) s1 (Suc ?bn) \<and> (\<forall>n. in_use s n \<longrightarrow> vw s1 n = vw s n)"
  proof (cases "off mod BSIZE = 0")
    case True
    then have "0 < nfree s" using room bf by simp
    then show ?thesis using bmap_new[of "Suc k" s i ?bn] ok bm h boot bn True bf(2) by simp
  next
    case False
    have "fs_ok (Suc k) s" by (rule fs_ok_mono[OF ok]) simp
    then show ?thesis using False bmap_direct[OF ok h, of ?bn] bf(2) grown_refl[OF bm h] by (intro exI[of _ s]) simp
  qed
  then obtain s1 where 1: "bmap i (of_nat ?bn) s = Ok (iaddrs (inodes s1 ! i) ! ?bn) s1" "fs_ok (Suc k) s1"
    "grown s i (blocks_for off) s1 (Suc ?bn)" "\<And>n. in_use s n \<Longrightarrow> vw s1 n = vw s n" by blast
  let ?a = "data_block s1 i ?bn"
  have h1: "has_blocks s1 i (Suc ?bn)" using 1(3) by (simp add: grown_def)
  note H1 = has_blocksD[OF h1]
  have an: "?a \<in> blks s1" using H1(5)[of ?bn] by simp
  have ab: "(of_nat ?a :: uint) = iaddrs (inodes s1 ! i) ! ?bn" by (simp add: data_block_def)
  obtain bp s2 where 2: "on_fb (bread 1 (of_nat ?a)) s1 = Ok bp s2" "fs_held (Suc k) bp ?a s2" "fdata s2 bp = vw s1 ?a" "same_fs s1 s2"
    using fs_bread[OF 1(2) an] by blast
  have len: "length (vw s1 ?a) = BSIZE" by (rule fs_block_length[OF 1(2) an])
  let ?d = "splice (off mod BSIZE) xs (vw s1 ?a)"
  have fitd: "off mod BSIZE + length xs \<le> length (vw s1 ?a)" using m(2) mod_less_divisor[of BSIZE off] unfolding len by (simp add: BSIZE_def)
  then have ld: "length ?d = BSIZE" using len by simp
  obtain s3 where 3: "on_fl (log_write bp) (set_fdata bp ?d s2) = Ok () s3" "fs_held k bp ?a s3" "vw s3 = (vw s2)(?a := ?d)" "same_rest s2 s3"
    using fs_write[OF 2(2), of ?d] an same_fsD[OF 2(4)] ld by auto
  obtain s4 where 4: "on_fb (brelse bp) s3 = Ok () s4" "fs_ok k s4" "same_fs s3 s4"
    using fs_brelse[OF 3(2)] by blast
  have r: "same_rest s1 s4" using 2(4) 3(4) 4(3) unfolding same_fs_def by (metis same_rest_trans)
  have v: "vw s4 = (vw s1)(?a := ?d)" using 3(3) same_fsD(1)[OF 2(4)] same_fsD(1)[OF 4(3)] by simp
  have db4: "data_block s4 i x = data_block s1 i x" for x using r by (simp add: same_rest_def data_block_def)
  have old: "data_block s1 i x = data_block s i x" if "x < blocks_for off" for x using 1(3) that by (simp add: grown_def)
  have g4: "grown s i (blocks_for off) s4 (Suc ?bn)"
  proof (rule grown_write[OF 1(3) r v])
    show "blocks_for off \<le> ?bn \<or> ?a \<in> data_block s i ` {..<blocks_for off}"
      using bf(2) old[of ?bn] by auto
  qed simp
  have "stored s4 i (off + length xs) = stored s i off @ xs"
  proof (rule nth_equalityI)
    fix x assume "x < length (stored s4 i (off + length xs))"
    then have x: "x < off + length xs" by (simp add: stored_def)
    let ?y = "x div BSIZE"
    show "stored s4 i (off + length xs) ! x = (stored s i off @ xs) ! x"
    proof (cases "x < off")
      case True
      have "?y * BSIZE \<le> x" by simp
      then have y: "?y < blocks_for off" unfolding blocks_for_less using True by linarith
      have yb: "?y \<le> ?bn" using True by (simp add: div_le_mono)
      have "vw s4 (data_block s4 i ?y) ! (x mod BSIZE) = vw s (data_block s i ?y) ! (x mod BSIZE)"
      proof (cases "?y = ?bn")
        case False
        then have "data_block s1 i ?y \<noteq> ?a" using H1(7)[of ?y ?bn] yb by auto
        then show ?thesis using 1(4) has_blocksD(5)[OF h y] old[OF y] by (simp add: db4 v)
      next
        case True
        have "x = BSIZE * ?bn + x mod BSIZE" "off = BSIZE * ?bn + off mod BSIZE"
          using mult_div_mod_eq[of BSIZE x] mult_div_mod_eq[of BSIZE off] True by simp_all
        then have "x mod BSIZE < off mod BSIZE" using \<open>x < off\<close> by linarith
        then show ?thesis using True fitd 1(4) has_blocksD(5)[OF h y] old[OF y]
          by (simp add: db4 v nth_splice)
      qed
      then show ?thesis using True x by (simp add: stored_def nth_append)
    next
      case False
      then have j: "x = off + (x - off)" "x - off < length xs" using x by simp_all
      then have b: "?y = ?bn" "x mod BSIZE = off mod BSIZE + (x - off)" using in_block[of "x - off" off] m(2) by simp_all
      have "x mod BSIZE < BSIZE" by (simp add: BSIZE_def)
      then have "splice (off mod BSIZE) xs (vw s1 ?a) ! (x mod BSIZE) = xs ! (x - off)"
        unfolding b(2) using nth_splice[of "off mod BSIZE" xs "vw s1 ?a" "off mod BSIZE + (x - off)"] fitd len j(2) by simp
      then show ?thesis using False x b(1) by (simp add: stored_def nth_append db4 v)
    qed
  qed (simp add: stored_def)
  then have "appended s i off xs s4" using g4 bf(1) by (simp add: appended_def)
  then show ?thesis using 1(1) H1(2) 2(1,3) 3(1) 4(1,2) unfolding ab by (intro exI conjI) (assumption | simp)+
qed

lemma append_loop:
  assumes "fs_ok (3 * rounds off left + k) s" "bitmap_ok s" "has_blocks s i (blocks_for off)" "\<not> free_block s 0"
    and "off + left \<le> NDIRECT * BSIZE" "left \<le> length src" "blocks_for (off + left) \<le> blocks_for off + nfree s"
  shows "\<exists>s'. writei_loop i src off left s = Ok () s' \<and> fs_ok k s' \<and> appended s i off (take left src) s'"
  using assms
proof (induction left arbitrary: off src s rule: less_induct)
  case (less left)
  show ?case
  proof (cases "left = 0")
    case True
    then show ?thesis using less.prems(1) fs_ok_mono[of _ s k] grown_refl[OF less.prems(2,3)]
      by (intro exI[of _ s]) (auto simp: writei_loop.simps appended_def)
  next
    case False
    let ?m = "min left (BSIZE - off mod BSIZE)"
    let ?xs = "take ?m src"
    have B: "off mod BSIZE < BSIZE" by (simp add: BSIZE_def)
    have xs: "length ?xs = ?m" using less.prems(6) by simp
    have mB: "0 < ?m" "?m \<le> left" using False B by simp_all
    obtain r where r: "rounds off left = Suc r" "left - ?m = 0 \<or> rounds (off + ?m) (left - ?m) = r"
      using rounds_step[of left off] False by blast
    have ok: "fs_ok (Suc (Suc (Suc (3 * r + k)))) s" using less.prems(1) r(1) by (simp add: eval_nat_numeral algebra_simps)
    have fit: "off + length ?xs \<le> NDIRECT * BSIZE" using less.prems(5) xs mB(2) by linarith
    have "blocks_for (off + length ?xs) \<le> blocks_for (off + left)" unfolding xs by (rule blocks_for_mono) simp
    then have room: "blocks_for (off + length ?xs) \<le> blocks_for off + nfree s" using less.prems(7) by linarith
    have lm: "0 < length ?xs" "length ?xs \<le> BSIZE - off mod BSIZE" unfolding xs using mB(1) by simp_all
    obtain a s1 bp s2 s3 s4 where c: "bmap i (of_nat (off div BSIZE)) s = Ok a s1" "idev (inodes s1 ! i) = 1"
      "on_fb (bread 1 a) s1 = Ok bp s2"
      "on_fl (log_write bp) (set_fdata bp (splice (off mod BSIZE) ?xs (fdata s2 bp)) s2) = Ok () s3"
      "on_fb (brelse bp) s3 = Ok () s4" "fs_ok (3 * r + k) s4" "appended s i off ?xs s4"
      using append_chunk[OF ok less.prems(2-4) lm fit room] by blast
    have step: "writei_loop i src off left s = writei_loop i (drop ?m src) (off + ?m) (left - ?m) s4"
      using False c(1-5) by (subst writei_loop.simps) (simp add: Let_def)
    have g: "bitmap_ok s4" "has_blocks s4 i (blocks_for (off + ?m))" "\<not> free_block s4 0"
      "nfree s4 + blocks_for (off + ?m) = nfree s + blocks_for off"
      using c(7) less.prems(4) unfolding appended_def grown_def xs by blast+
    have rest: "\<exists>s'. writei_loop i (drop ?m src) (off + ?m) (left - ?m) s4 = Ok () s' \<and> fs_ok k s' \<and>
      appended s4 i (off + ?m) (take (left - ?m) (drop ?m src)) s'"
    proof (cases "left - ?m = 0")
      case True
      have "fs_ok k s4" by (rule fs_ok_mono[OF c(6)]) simp
      then show ?thesis using True grown_refl[OF g(1,2)] by (intro exI[of _ s4]) (simp add: writei_loop.simps appended_def)
    next
      case rest: False
      show ?thesis
        by (rule less.IH) (use rest mB c(6) r(2) g less.prems(5-7) in auto)
    qed
    then obtain s' where s': "writei_loop i (drop ?m src) (off + ?m) (left - ?m) s4 = Ok () s'" "fs_ok k s'"
      "appended s4 i (off + ?m) (take (left - ?m) (drop ?m src)) s'" by blast
    have "take left src = ?xs @ take (left - ?m) (drop ?m src)"
      using take_add[of ?m "left - ?m" src] mB(2) by simp
    then have "appended s i off (take left src) s'"
      using appended_trans[OF c(7), of "take (left - ?m) (drop ?m src)" s'] s'(3) xs by simp
    then show ?thesis unfolding step using s'(1,2) by blast
  qed
qed

text \<open>\<open>iupdate\<close> stores the inode in its block.\<close>

lemma iupdate_spec:
  assumes ok: "fs_ok (Suc k) s" and dev: "idev (inodes s ! i) = 1" and b: "inode_block s i \<in> blks s"
    and l: "length (iaddrs (inodes s ! i)) = NDIRECT + 1"
  shows "\<exists>s'. iupdate i s = Ok () s' \<and> fs_ok k s' \<and> same_rest s s' \<and>
    vw s' = (vw s)(inode_block s i :=
      dinode_encode (64 * (unat (inum (inodes s ! i)) mod IPB)) (dinode_of (inodes s ! i)) (vw s (inode_block s i)))"
proof -
  let ?b = "inode_block s i" and ?ip = "inodes s ! i"
  obtain bp s1 where 1: "on_fb (bread 1 (of_nat ?b)) s = Ok bp s1" "fs_held (Suc k) bp ?b s1" "fdata s1 bp = vw s ?b" "same_fs s s1"
    using fs_bread[OF ok b] by blast
  let ?d = "dinode_encode (64 * (unat (inum ?ip) mod IPB)) (dinode_of ?ip) (vw s ?b)"
  have ib: "(of_nat ?b :: uint) = IBLOCK (inum ?ip) (sb s)" by (simp add: inode_block_def)
  have len: "length (vw s ?b) = BSIZE" by (rule fs_block_length[OF ok b])
  have "unat (inum ?ip) mod IPB < IPB" by (simp add: IPB_def)
  then have "64 * (unat (inum ?ip) mod IPB) + 64 \<le> BSIZE" by (simp add: IPB_def BSIZE_def)
  moreover have "length (dinode_bytes (dinode_of ?ip)) = 64"
    by (rule length_dinode_bytes) (simp add: dinode_ok_def dinode_of_def l)
  ultimately have ld: "length ?d = BSIZE" using len by (simp add: dinode_encode_def)
  obtain s2 where 2: "on_fl (log_write bp) (set_fdata bp ?d s1) = Ok () s2" "fs_held k bp ?b s2" "vw s2 = (vw s1)(?b := ?d)" "same_rest s1 s2"
    using fs_write[OF 1(2), of ?d] b same_fsD[OF 1(4)] ld by auto
  obtain s3 where 3: "on_fb (brelse bp) s2 = Ok () s3" "fs_ok k s3" "same_fs s2 s3"
    using fs_brelse[OF 2(2)] by blast
  have "iupdate i s = Ok () s3"
    using 1(1,3) 2(1) 3(1) dev unfolding ib by (simp add: iupdate_def Let_def)
  moreover have "same_rest s s3" using 1(4) 2(4) 3(3) unfolding same_fs_def by (metis same_rest_trans)
  moreover have "vw s3 = (vw s)(?b := ?d)" using 2(3) same_fsD(1)[OF 1(4)] same_fsD(1)[OF 3(3)] by simp
  ultimately show ?thesis using 3(2) by blast
qed

text \<open>A file whose contents are stored in direct blocks, and its inode on disk.\<close>

definition direct_file :: "fss \<Rightarrow> nat \<Rightarrow> bool" where
  "direct_file s i \<longleftrightarrow> has_blocks s i (blocks_for (unat (isize (inodes s ! i)))) \<and> unat (isize (inodes s ! i)) \<le> NDIRECT * BSIZE"

definition disk_inode :: "fss \<Rightarrow> nat \<Rightarrow> dinode" where
  "disk_inode s i = dinode_decode (64 * (unat (inum (inodes s ! i)) mod IPB)) (vw s (inode_block s i))"

lemma direct_contents:
  assumes "direct_file s i"
  shows "contents s i = stored s i (unat (isize (inodes s ! i)))"
proof -
  have "byte_of (vw s) (inodes s ! i) x = vw s (data_block s i (x div BSIZE)) ! (x mod BSIZE)"
    if "x < unat (isize (inodes s ! i))" for x
  proof -
    have "x < NDIRECT * BSIZE" using that assms by (simp add: direct_file_def)
    then have "x div BSIZE < NDIRECT" by (simp add: BSIZE_def NDIRECT_def)
    then show ?thesis by (simp add: byte_of_def addr_of_def data_block_def)
  qed
  then show ?thesis by (simp add: contents_def stored_def)
qed

lemma direct_file_ok:
  assumes "direct_file s i"
  shows "file_ok s i"
proof -
  let ?ip = "inodes s ! i" and ?nb = "blocks_for (unat (isize (inodes s ! i)))"
  have h: "has_blocks s i ?nb" and sz: "unat (isize ?ip) \<le> NDIRECT * BSIZE" using assms by (simp_all add: direct_file_def)
  note H = has_blocksD[OF h]
  have nb: "(unat (isize ?ip) + BSIZE - 1) div BSIZE = ?nb" by (simp add: blocks_for_def)
  have a: "addr_of (vw s) ?ip b = iaddrs ?ip ! b" if "b < ?nb" for b using that H(4) by (simp add: addr_of_def)
  have "mapped (vw s) (blks s) ?ip b" if "b < ?nb" for b
    using H(4) H(5)[OF that] a[OF that] that by (simp add: mapped_def MAXFILE_def data_block_def)
  moreover have "b = c" if "b < ?nb" "c < ?nb" "addr_of (vw s) ?ip b = addr_of (vw s) ?ip c" for b c
    using H(7)[OF that(1,2)] that a by (simp add: data_block_def)
  moreover have "unat (isize ?ip) \<le> MAXFILE * BSIZE" using sz by (simp add: fs_consts)
  moreover have "\<not> NDIRECT < ?nb" using H(4) by simp
  ultimately show ?thesis
    using h H(2) unfolding file_ok_def Let_def nb has_blocks_def by blast
qed

text \<open>Extending the size and storing the inode leave the blocks as they are.\<close>

lemma extend_inode:
  assumes t: "bitmap_ok t" "has_blocks t i nb" and ok: "fs_ok (Suc k) t" and n: "nb = blocks_for (unat n)" "unat n \<le> NDIRECT * BSIZE"
  shows "\<exists>s'. iupdate i (set_inode i (\<lambda>x. x\<lparr>isize := n\<rparr>) t) = Ok () s' \<and> fs_ok k s' \<and> direct_file s' i \<and>
    contents s' i = stored t i (unat n) \<and> disk_inode s' i = dinode_of (inodes s' ! i) \<and>
    inodes s' = (inodes t)[i := (inodes t ! i)\<lparr>isize := n\<rparr>] \<and> nfree s' = nfree t \<and>
    (\<forall>b. b \<noteq> inode_block t i \<longrightarrow> vw s' b = vw t b)"
proof -
  note H = has_blocksD[OF t(2)]
  let ?u = "set_inode i (\<lambda>x. x\<lparr>isize := n\<rparr>) t" and ?ib = "inode_block t i"
  have use: "in_use t ?ib" "?ib \<in> blks t" using t(2) by (simp_all add: has_blocks_def)
  have ipu: "inodes ?u ! i = (inodes t ! i)\<lparr>isize := n\<rparr>" using H(1) by simp
  have db: "data_block ?u i = data_block t i" "inode_block ?u i = ?ib"
    using H(1) by (simp_all add: data_block_def inode_block_def fun_eq_iff)
  have us: "in_use ?u x = in_use t x" for x by (simp add: in_use_def)
  have hu: "has_blocks ?u i nb" using t(2) unfolding has_blocks_def db us ipu by simp
  have dev: "idev (inodes ?u ! i) = 1" "inode_block ?u i \<in> blks ?u" "length (iaddrs (inodes ?u ! i)) = NDIRECT + 1"
    using H(2,3) use(2) unfolding db ipu by simp_all
  have "fs_ok (Suc k) ?u" using ok by simp
  from iupdate_spec[OF this dev] obtain s' where s': "iupdate i ?u = Ok () s'" "fs_ok k s'" "same_rest ?u s'"
    "vw s' = (vw ?u)(?ib := dinode_encode (64 * (unat (inum (inodes ?u ! i)) mod IPB)) (dinode_of (inodes ?u ! i)) (vw ?u ?ib))"
    unfolding db by blast
  have W: "free_block s' x = free_block ?u x" "in_use s' x = in_use ?u x" for x
    using write_in_use[OF s'(3,4)] use(1) us by blast+
  have same: "data_block s' i = data_block t i" "inode_block s' i = ?ib" "inodes s' = inodes ?u" "blks s' = blks ?u"
    using s'(3) db by (simp_all add: same_rest_def data_block_def inode_block_def fun_eq_iff)
  have h': "has_blocks s' i nb" using hu unfolding has_blocks_def W same db .
  then have dir: "direct_file s' i" using n unfolding direct_file_def same ipu by simp
  have "stored s' i (unat n) = stored t i (unat n)"
  proof (rule nth_equalityI)
    fix x assume "x < length (stored s' i (unat n))"
    then have x: "x < unat n" by (simp add: stored_def)
    have "x div BSIZE * BSIZE \<le> x" by simp
    then have "x div BSIZE < nb" unfolding n(1) blocks_for_less using x by linarith
    then have "data_block t i (x div BSIZE) \<noteq> ?ib" using t(2) by (simp add: has_blocks_def)
    then show "stored s' i (unat n) ! x = stored t i (unat n) ! x"
      using x by (simp add: stored_def same(1) s'(4))
  qed (simp add: stored_def)
  then have c: "contents s' i = stored t i (unat n)" using direct_contents[OF dir] unfolding same ipu by simp
  have d: "disk_inode s' i = dinode_of (inodes s' ! i)"
  proof -
    let ?k = "64 * (unat (inum (inodes ?u ! i)) mod IPB)"
    have "unat (inum (inodes ?u ! i)) mod IPB < IPB" by (simp add: IPB_def)
    then have "?k + 64 \<le> BSIZE" by (simp add: IPB_def BSIZE_def)
    then have "?k + 64 \<le> length (vw ?u ?ib)" using fs_block_length[OF ok use(2)] by simp
    moreover have "dinode_ok (dinode_of (inodes ?u ! i))" using dev(3) by (simp add: dinode_ok_def dinode_of_def)
    ultimately have "dinode_decode ?k (dinode_encode ?k (dinode_of (inodes ?u ! i)) (vw ?u ?ib)) = dinode_of (inodes ?u ! i)"
      by (rule dinode_decode_same)
    then show ?thesis unfolding disk_inode_def same s'(4) by simp
  qed
  have f: "nfree s' = nfree t" by (simp add: nfree_def W(1))
  have "vw s' b = vw t b" if "b \<noteq> ?ib" for b using that by (simp add: s'(4))
  then show ?thesis using s'(1,2) dir c d f same(3) by (intro exI[of _ s']) simp
qed

text \<open>C10: Appending to a file.  In a transaction with room for its writes, and with free blocks for it, a
  write at the end of a file of direct blocks returns the number of bytes; the file is then the old
  contents followed by the bytes written, reading it from the start returns all of them, the inode on
  disk is the one in memory, and exactly the blocks the longer file needs beyond the old ones have
  left the free set.  A file that shares no block with it keeps its contents.\<close>

theorem append_extends_file:
  assumes "fs_ok (3 * rounds (unat (isize (inodes s ! i))) (length src) + Suc k) s" "bitmap_ok s" "\<not> free_block s 0"
    and "direct_file s i" "src \<noteq> []" "unat (isize (inodes s ! i)) + length src \<le> NDIRECT * BSIZE"
    and "blocks_for (unat (isize (inodes s ! i)) + length src) \<le> blocks_for (unat (isize (inodes s ! i))) + nfree s"
  shows "\<exists>s'. writei devs i src (isize (inodes s ! i)) (of_nat (length src)) s = Ok (int (length src)) s' \<and>
    contents s' i = contents s i @ src \<and> direct_file s' i \<and> disk_inode s' i = dinode_of (inodes s' ! i) \<and>
    (\<exists>s''. readi devs i 0 (of_nat (length (contents s i @ src))) s' = Ok (int (length (contents s i @ src)), contents s i @ src) s'') \<and>
    nfree s' + blocks_for (length (contents s i @ src)) = nfree s + blocks_for (length (contents s i)) \<and>
    (\<forall>j. j \<noteq> i \<and> direct_file s j \<and>
       data_block s j ` {..<blocks_for (length (contents s j))} \<inter> insert (inode_block s i) (data_block s i ` {..<blocks_for (length (contents s i))}) = {} \<longrightarrow>
       contents s' j = contents s j)"
proof -
  let ?sz = "unat (isize (inodes s ! i))" and ?n = "length src"
  let ?w = "isize (inodes s ! i) + of_nat ?n"
  have h: "has_blocks s i (blocks_for ?sz)" using assms(4) by (simp add: direct_file_def)
  note H = has_blocksD[OF h]
  have small: "?sz + ?n < 2 ^ 31" using assms(6) by (simp add: fs_consts)
  have un: "unat (of_nat ?n :: uint) = ?n" using small by (simp add: unat_of_nat)
  have uw: "unat ?w = ?sz + ?n" using small un by (subst unat_add_small) simp_all
  have len: "length (contents s j) = unat (isize (inodes s ! j))" for j by (simp add: contents_def)
  have "fs_ok (3 * rounds ?sz ?n + Suc k) s" using assms(1) .
  from append_loop[OF this assms(2) h assms(3,6) order_refl assms(7)]
  obtain t where t: "writei_loop i src ?sz ?n s = Ok () t" "fs_ok (Suc k) t" "appended s i ?sz src t" by auto
  have g: "grown s i (blocks_for ?sz) t (blocks_for (?sz + ?n))" and st: "stored t i (?sz + ?n) = stored s i ?sz @ src"
    using t(3) by (simp_all add: appended_def)
  have T: "bitmap_ok t" "has_blocks t i (blocks_for (?sz + ?n))" "nfree t + blocks_for (?sz + ?n) = nfree s + blocks_for ?sz"
    "\<And>x. in_use s x \<Longrightarrow> x \<notin> data_block s i ` {..<blocks_for ?sz} \<Longrightarrow> vw t x = vw s x" "sb t = sb s"
    using g unfolding grown_def by blast+
  obtain as where as: "inodes t = (inodes s)[i := (inodes s ! i)\<lparr>iaddrs := as\<rparr>]" using g by (auto simp: grown_def)
  have ib: "inode_block t i = inode_block s i" using H(1) T(5) by (simp add: inode_block_def as)
  obtain s' where s': "iupdate i (set_inode i (\<lambda>x. x\<lparr>isize := ?w\<rparr>) t) = Ok () s'" "fs_ok k s'" "direct_file s' i"
    "contents s' i = stored t i (unat ?w)" "disk_inode s' i = dinode_of (inodes s' ! i)"
    "inodes s' = (inodes t)[i := (inodes t ! i)\<lparr>isize := ?w\<rparr>]" "nfree s' = nfree t"
    "\<And>b. b \<noteq> inode_block t i \<Longrightarrow> vw s' b = vw t b"
    using extend_inode[OF T(1,2) t(2), of ?w] uw assms(6) by auto
  have c: "contents s' i = contents s i @ src" using s'(4) st direct_contents[OF assms(4)] by (simp add: uw)
  have w: "writei devs i src (isize (inodes s ! i)) (of_nat ?n) s = Ok (int ?n) s'"
  proof -
    have "isize (inodes t ! i) < ?w \<and> 0 < (of_nat ?n :: uint)"
      using H(1) assms(5) un uw by (simp add: as word_less_nat_alt)
    moreover have "\<not> of_nat (MAXFILE * BSIZE) < ?w" "\<not> ?w < isize (inodes s ! i)" "itype (inodes s ! i) \<noteq> T_DEV"
      using assms(6) uw h by (simp_all add: word_less_nat_alt fs_consts has_blocks_def)
    ultimately show ?thesis using t(1) s'(1) un sint_of_nat[of ?n] small by (simp add: writei_def Let_def)
  qed
  have "\<exists>s''. readi devs i (of_nat 0) (of_nat (?sz + ?n)) s' = Ok (int (?sz + ?n), take (?sz + ?n) (drop 0 (contents s' i))) s''"
  proof -
    have "unat (isize (inodes s' ! i)) = ?sz + ?n" using H(1) by (simp add: s'(6) as uw)
    then show ?thesis using readi_contents[OF s'(2) direct_file_ok[OF s'(3)], of 0 "?sz + ?n" devs] small by auto
  qed
  then have rd: "\<exists>s''. readi devs i 0 (of_nat (length (contents s i @ src))) s' = Ok (int (length (contents s i @ src)), contents s i @ src) s''"
    unfolding c using len[of i] by (simp del: of_nat_add)
  have other: "contents s' j = contents s j" if j: "j \<noteq> i" "direct_file s j"
    "data_block s j ` {..<blocks_for (length (contents s j))} \<inter> insert (inode_block s i) (data_block s i ` {..<blocks_for ?sz}) = {}" for j
  proof -
    have ip: "inodes s' ! j = inodes s ! j" using j(1) by (simp add: s'(6) as)
    have dj: "data_block s' j = data_block s j" by (simp add: data_block_def ip fun_eq_iff)
    have hj: "has_blocks s j (blocks_for (unat (isize (inodes s ! j))))" using j(2) by (simp add: direct_file_def)
    have same: "vw s' (data_block s j b) = vw s (data_block s j b)" if "b < blocks_for (unat (isize (inodes s ! j)))" for b
    proof -
      have "data_block s j b \<in> data_block s j ` {..<blocks_for (length (contents s j))}" using that by (simp add: len)
      then have "data_block s j b \<noteq> inode_block s i" "data_block s j b \<notin> data_block s i ` {..<blocks_for ?sz}" using j(3) by blast+
      then show ?thesis using T(4) s'(8) has_blocksD(5)[OF hj that] by (simp add: ib)
    qed
    have "byte_of (vw s') (inodes s ! j) x = byte_of (vw s) (inodes s ! j) x" if x: "x < unat (isize (inodes s ! j))" for x
    proof -
      have "x div BSIZE * BSIZE \<le> x" by simp
      then have b: "x div BSIZE < blocks_for (unat (isize (inodes s ! j)))" unfolding blocks_for_less using x by linarith
      then have "x div BSIZE < NDIRECT" using has_blocksD(4)[OF hj] by simp
      then show ?thesis using same[OF b] by (simp add: byte_of_def addr_of_def data_block_def)
    qed
    then show ?thesis by (simp add: contents_def ip)
  qed
  have nf: "nfree s' + blocks_for (length (contents s i @ src)) = nfree s + blocks_for (length (contents s i))"
    unfolding length_append len s'(7) by (rule T(3))
  have other': "\<forall>j. j \<noteq> i \<and> direct_file s j \<and>
       data_block s j ` {..<blocks_for (length (contents s j))} \<inter> insert (inode_block s i) (data_block s i ` {..<blocks_for (length (contents s i))}) = {} \<longrightarrow>
       contents s' j = contents s j"
    unfolding len[of i] using other by blast
  show ?thesis by (intro exI[of _ s'] conjI w c s'(3,5) rd nf other')
qed

text \<open>An empty file on the disk of ten blocks, with its inode in block 8.\<close>

definition empty_file_fs :: fss where
  "empty_file_fs = ten_fs\<lparr>sb := (sb ten_fs)\<lparr>inodestart := 8\<rparr>,
     inodes := [\<lparr>idev = 1, inum = 1, iref = 1, ivalid = True, itype = T_FILE, imajor = 0, iminor = 0, inlink = 1,
       isize = 0, iaddrs = replicate 13 0\<rparr>]\<rparr>"

lemma empty_file_fs_as_ten:
  "vw empty_file_fs = vw ten_fs" "blks empty_file_fs = blks ten_fs" "unat (sb_size (sb empty_file_fs)) = 10"
  "bitmap_block empty_file_fs = bitmap_block ten_fs" "free_block empty_file_fs = free_block ten_fs"
proof -
  have sz: "sb_size (sb empty_file_fs) = sb_size (sb ten_fs)" by (simp add: empty_file_fs_def)
  show v: "vw empty_file_fs = vw ten_fs" "blks empty_file_fs = blks ten_fs" "unat (sb_size (sb empty_file_fs)) = 10"
    by (simp_all add: empty_file_fs_def vw_def blks_def ten_size)
  show b: "bitmap_block empty_file_fs = bitmap_block ten_fs"
    by (rule ext) (simp add: bitmap_block_def BBLOCK_def empty_file_fs_def)
  show "free_block empty_file_fs = free_block ten_fs"
    by (rule ext) (simp only: free_block_def b v sz)
qed

theorem append_extends_file_witness:
  "\<forall>devs. \<exists>s' s''. writei devs 0 [7, 8, 9] 0 3 empty_file_fs = Ok 3 s' \<and> readi devs 0 0 3 s' = Ok (3, [7, 8, 9]) s''"
proof
  fix devs
  let ?s = "empty_file_fs"
  have ok: "fs_ok (3 * rounds 0 3 + Suc 0) ?s"
    using ten_log_ok boot_bst_ready
    by (auto simp: fs_ok_def empty_file_fs_def ten_fs_def logged_ok_def in_txn_def ten_log_def LOGSIZE_def rounds_def BSIZE_def)
  have b: "blks ten_fs = {n. n < 10 \<and> \<not> (2 \<le> n \<and> n < 7)}"
    by (auto simp: blks_def ten_fs_def data_blocks_def ten_log_def boot_bst_def ten_blocks_def in_log_def)
  have bm: "bitmap_ok ?s"
    unfolding bitmap_ok_def empty_file_fs_as_ten b ten_free by (auto simp: ten_bitmap)
  have i: "inodes ?s ! 0 = \<lparr>idev = 1, inum = 1, iref = 1, ivalid = True, itype = T_FILE, imajor = 0, iminor = 0, inlink = 1,
       isize = 0, iaddrs = replicate 13 0\<rparr>" "length (inodes ?s) = 1" by (simp_all add: empty_file_fs_def)
  have ib: "inode_block ?s 0 = 8" by (simp add: inode_block_def empty_file_fs_def IBLOCK_def IPB_def ten_fs_def)
  have "in_use ?s 8" unfolding in_use_def empty_file_fs_as_ten ten_free by (auto simp: ten_bitmap)
  then have d: "direct_file ?s 0"
    unfolding direct_file_def has_blocks_def ib empty_file_fs_as_ten(2) b
    by (simp add: i T_FILE_def T_DEV_def NDIRECT_def)
  have f: "nfree ?s = 1" unfolding nfree_def empty_file_fs_as_ten ten_free by simp
  have z: "unat (isize (inodes ?s ! 0)) = 0" "isize (inodes ?s ! 0) = 0" "length [7, 8, 9 :: u8] = 3"
    "(of_nat 3 :: uint) = 3" "int 3 = 3" by (simp_all add: i)
  have c: "contents ?s 0 = []" by (simp add: contents_def z)
  have bf: "blocks_for 3 = 1" by (simp add: blocks_for_def BSIZE_def)
  have "\<not> free_block ?s 0" unfolding empty_file_fs_as_ten ten_free by simp
  from append_extends_file[of ?s 0 "[7, 8, 9]" 0 devs, unfolded z c append_Nil unat_0 add_0, OF ok bm this d]
  show "\<exists>s' s''. writei devs 0 [7, 8, 9] 0 3 empty_file_fs = Ok 3 s' \<and> readi devs 0 0 3 s' = Ok (3, [7, 8, 9]) s''"
    by (auto simp: bf f NDIRECT_def BSIZE_def)
qed

end
