(* ===== verification/Zemaphore.thy ===== *)
theory Zemaphore
  imports Threads
begin

text \<open>
  zemaphore.c: a counting semaphore built from a mutex and a condition variable, used by any number of
  threads.  \<open>zem_down t p z\<close> is the step that thread \<open>t\<close> takes at the program point \<open>p\<close>, \<open>None\<close> where it
  has to wait, and \<open>zem_up w t p z\<close> the same for \<open>zem_up\<close>, where \<open>w\<close> is the waiting thread that
  \<open>pthread_cond_signal\<close> chooses.  A condition variable is the set of the threads that wait on it: a
  thread in \<open>pthread_cond_wait\<close> goes on when it is out of the set and the mutex is free.
\<close>

section \<open>The program\<close>

record zem_t =
  zlock :: "nat option"
  countVal :: int
  signalVar :: "nat set"

datatype zpoint =
    Out | ZD_lock | ZD_dec | ZD_test | ZD_wait | ZD_blocked | ZD_unlock
  | ZU_lock | ZU_inc | ZU_signal | ZU_unlock

definition zem_init :: "int \<Rightarrow> zem_t" where
  "zem_init value = \<lparr>zlock = None, countVal = value, signalVar = {}\<rparr>"

definition zem_down :: "nat \<Rightarrow> zpoint \<Rightarrow> zem_t \<Rightarrow> (zpoint \<times> zem_t) option" where
  "zem_down t p z =
     (case p of
        ZD_lock \<Rightarrow> if zlock z = None then Some (ZD_dec, z\<lparr>zlock := Some t\<rparr>) else None
      | ZD_dec \<Rightarrow> Some (ZD_test, z\<lparr>countVal := countVal z - 1\<rparr>)
      | ZD_test \<Rightarrow> Some (if countVal z < 0 then ZD_wait else ZD_unlock, z)
      | ZD_wait \<Rightarrow> Some (ZD_blocked, z\<lparr>zlock := None, signalVar := insert t (signalVar z)\<rparr>)
      | ZD_blocked \<Rightarrow>
          if t \<notin> signalVar z \<and> zlock z = None then Some (ZD_unlock, z\<lparr>zlock := Some t\<rparr>) else None
      | ZD_unlock \<Rightarrow> Some (Out, z\<lparr>zlock := None\<rparr>)
      | _ \<Rightarrow> None)"

definition zem_up :: "nat \<Rightarrow> nat \<Rightarrow> zpoint \<Rightarrow> zem_t \<Rightarrow> (zpoint \<times> zem_t) option" where
  "zem_up w t p z =
     (case p of
        ZU_lock \<Rightarrow> if zlock z = None then Some (ZU_inc, z\<lparr>zlock := Some t\<rparr>) else None
      | ZU_inc \<Rightarrow> Some (ZU_signal, z\<lparr>countVal := countVal z + 1\<rparr>)
      | ZU_signal \<Rightarrow>
          if signalVar z = {} then Some (ZU_unlock, z)
          else if w \<in> signalVar z then Some (ZU_unlock, z\<lparr>signalVar := signalVar z - {w}\<rparr>) else None
      | ZU_unlock \<Rightarrow> Some (Out, z\<lparr>zlock := None\<rparr>)
      | _ \<Rightarrow> None)"

text \<open>
  The semaphore, the program point of every thread, and how many calls of \<open>zem_down\<close> and of \<open>zem_up\<close>
  have returned.  With \<open>sp\<close> the condition variable may wake a waiting thread without a signal, as the
  POSIX standard allows.
\<close>

record zsys =
  zem :: zem_t
  zpc :: "nat \<Rightarrow> zpoint"
  downs :: nat
  ups :: nat

inductive zrun :: "bool \<Rightarrow> zsys \<Rightarrow> zsys \<Rightarrow> bool" for sp where
  call_down: "zpc s t = Out \<Longrightarrow> zrun sp s (s\<lparr>zpc := (zpc s)(t := ZD_lock)\<rparr>)"
| call_up: "zpc s t = Out \<Longrightarrow> zrun sp s (s\<lparr>zpc := (zpc s)(t := ZU_lock)\<rparr>)"
| down: "zem_down t (zpc s t) (zem s) = Some (p, z) \<Longrightarrow>
    zrun sp s (s\<lparr>zem := z, zpc := (zpc s)(t := p), downs := downs s + (if p = Out then 1 else 0)\<rparr>)"
| up: "zem_up w t (zpc s t) (zem s) = Some (p, z) \<Longrightarrow>
    zrun sp s (s\<lparr>zem := z, zpc := (zpc s)(t := p), ups := ups s + (if p = Out then 1 else 0)\<rparr>)"
| spurious: "sp \<Longrightarrow> t \<in> signalVar (zem s) \<Longrightarrow>
    zrun sp s (s\<lparr>zem := (zem s)\<lparr>signalVar := signalVar (zem s) - {t}\<rparr>\<rparr>)"

definition init_zsys :: "int \<Rightarrow> zsys" where
  "init_zsys v = \<lparr>zem = zem_init v, zpc = (\<lambda>_. Out), downs = 0, ups = 0\<rparr>"

section \<open>The invariant\<close>

definition zholders :: "zpoint set" where
  "zholders = {ZD_dec, ZD_test, ZD_wait, ZD_unlock, ZU_inc, ZU_signal, ZU_unlock}"

text \<open>Threads whose \<open>zem_down\<close> has decremented the counter, and whose \<open>zem_up\<close> has incremented it.\<close>

definition taking :: "zpoint set" where "taking = {ZD_test, ZD_wait, ZD_blocked, ZD_unlock}"
definition giving :: "zpoint set" where "giving = {ZU_signal, ZU_unlock}"

text \<open>
  The counter is the value so far, waiting threads make it negative, and between the change of the
  counter and the wait or signal that follows it the two differ by one.
\<close>

definition zinv :: "int \<Rightarrow> zsys \<Rightarrow> bool" where
  "zinv v s \<longleftrightarrow> finite {t. zpc s t \<noteq> Out} \<and>
     (\<forall>t. zlock (zem s) = Some t \<longleftrightarrow> zpc s t \<in> zholders) \<and>
     (\<forall>t \<in> signalVar (zem s). zpc s t = ZD_blocked) \<and>
     countVal (zem s) = v + int (ups s) + at (zpc s) giving - int (downs s) - at (zpc s) taking \<and>
     int (card (signalVar (zem s))) = max 0 (at (zpc s) {ZU_signal} - at (zpc s) {ZD_test, ZD_wait} - countVal (zem s)) \<and>
     (\<forall>t. zpc s t = ZD_wait \<longrightarrow> countVal (zem s) < 0) \<and>
     int (downs s) \<le> v + int (ups s)"

lemma zinvD:
  assumes "zinv v s"
  shows "finite {t. zpc s t \<noteq> Out}" "\<And>t. zlock (zem s) = Some t \<longleftrightarrow> zpc s t \<in> zholders"
    "\<And>t. t \<in> signalVar (zem s) \<Longrightarrow> zpc s t = ZD_blocked"
    "countVal (zem s) = v + int (ups s) + at (zpc s) giving - int (downs s) - at (zpc s) taking"
    "int (card (signalVar (zem s))) = max 0 (at (zpc s) {ZU_signal} - at (zpc s) {ZD_test, ZD_wait} - countVal (zem s))"
    "\<And>t. zpc s t = ZD_wait \<Longrightarrow> countVal (zem s) < 0" "int (downs s) \<le> v + int (ups s)"
  using assms unfolding zinv_def by blast+

lemmas zpoints = zholders_def taking_def giving_def

lemma waiters_finite: "zinv v s \<Longrightarrow> finite (signalVar (zem s))"
  using zinvD(1,3) by (metis (mono_tags, lifting) finite_subset mem_Collect_eq subsetI zpoint.distinct(9))

text \<open>Only the owner of the mutex is at a point that holds it.\<close>

lemma at_holder:
  assumes "zinv v s" "zpc s t \<in> zholders" "A \<subseteq> zholders"
  shows "at (zpc s) A = (if zpc s t \<in> A then 1 else 0)"
proof -
  have "u = t" if "zpc s u \<in> zholders" for u using zinvD(2)[OF assms(1), of u] zinvD(2)[OF assms(1), of t] assms(2) that by simp
  then have "{u. zpc s u \<in> A} = (if zpc s t \<in> A then {t} else {})" using assms(3) by auto
  then show ?thesis by (simp add: at_def)
qed

lemma at_free: "zinv v s \<Longrightarrow> zlock (zem s) = None \<Longrightarrow> A \<subseteq> zholders \<Longrightarrow> at (zpc s) A = 0"
  using zinvD(2) by (intro at_none) force

lemma zem_steps:
  "zem_down t q z = Some (p, z') \<longleftrightarrow>
     q = ZD_lock \<and> zlock z = None \<and> p = ZD_dec \<and> z' = z\<lparr>zlock := Some t\<rparr> \<or>
     q = ZD_dec \<and> p = ZD_test \<and> z' = z\<lparr>countVal := countVal z - 1\<rparr> \<or>
     q = ZD_test \<and> countVal z < 0 \<and> p = ZD_wait \<and> z' = z \<or>
     q = ZD_test \<and> 0 \<le> countVal z \<and> p = ZD_unlock \<and> z' = z \<or>
     q = ZD_wait \<and> p = ZD_blocked \<and> z' = z\<lparr>zlock := None, signalVar := insert t (signalVar z)\<rparr> \<or>
     q = ZD_blocked \<and> t \<notin> signalVar z \<and> zlock z = None \<and> p = ZD_unlock \<and> z' = z\<lparr>zlock := Some t\<rparr> \<or>
     q = ZD_unlock \<and> p = Out \<and> z' = z\<lparr>zlock := None\<rparr>"
  "zem_up w t q z = Some (p, z') \<longleftrightarrow>
     q = ZU_lock \<and> zlock z = None \<and> p = ZU_inc \<and> z' = z\<lparr>zlock := Some t\<rparr> \<or>
     q = ZU_inc \<and> p = ZU_signal \<and> z' = z\<lparr>countVal := countVal z + 1\<rparr> \<or>
     q = ZU_signal \<and> signalVar z = {} \<and> p = ZU_unlock \<and> z' = z \<or>
     q = ZU_signal \<and> w \<in> signalVar z \<and> p = ZU_unlock \<and> z' = z\<lparr>signalVar := signalVar z - {w}\<rparr> \<or>
     q = ZU_unlock \<and> p = Out \<and> z' = z\<lparr>zlock := None\<rparr>"
  by (cases q; simp add: zem_down_def zem_up_def; auto)+

lemma taking_bound:
  assumes "zinv v s"
  shows "int (card (signalVar (zem s))) + (if zpc s t \<in> taking \<and> t \<notin> signalVar (zem s) then 1 else 0) \<le> at (zpc s) taking"
proof -
  let ?S = "signalVar (zem s)"
  have f: "finite {u. zpc s u \<in> taking}" using zinvD(1)[OF assms] by (rule finite_at) (simp add: taking_def)
  have S: "?S \<subseteq> {u. zpc s u \<in> taking}" using zinvD(3)[OF assms] by (auto simp: taking_def)
  have "(if zpc s t \<in> taking \<and> t \<notin> ?S then insert t ?S else ?S) \<subseteq> {u. zpc s u \<in> taking}" using S by auto
  then have "card (if zpc s t \<in> taking \<and> t \<notin> ?S then insert t ?S else ?S) \<le> card {u. zpc s u \<in> taking}"
    by (rule card_mono[OF f])
  then show ?thesis using finite_subset[OF S f] by (auto simp: at_def split: if_splits)
qed

text \<open>A step of thread \<open>t\<close> to \<open>p\<close> keeps the invariant when it keeps its parts.\<close>

lemma zinv_moved:
  assumes I: "zinv v s" and s': "zpc s' = (zpc s)(t := p)"
    and own: "p \<in> zholders \<Longrightarrow> zlock (zem s') = Some t" "p \<notin> zholders \<Longrightarrow> zpc s t \<in> zholders \<Longrightarrow> zlock (zem s') = None"
      "p \<in> zholders \<Longrightarrow> zpc s t \<in> zholders \<or> zlock (zem s) = None"
      "p \<notin> zholders \<Longrightarrow> zpc s t \<notin> zholders \<Longrightarrow> zlock (zem s') = zlock (zem s)"
    and sig: "\<And>u. u \<in> signalVar (zem s') \<Longrightarrow> u \<noteq> t \<and> u \<in> signalVar (zem s) \<or> u = t \<and> p = ZD_blocked"
    and count: "countVal (zem s') - countVal (zem s) = int (ups s') - int (ups s) - int (downs s') + int (downs s) +
      (if p \<in> giving then 1 else 0) - (if zpc s t \<in> giving then 1 else 0) - (if p \<in> taking then 1 else 0) + (if zpc s t \<in> taking then 1 else 0)"
    and bal: "int (card (signalVar (zem s'))) =
      max 0 (at (zpc s') {ZU_signal} - at (zpc s') {ZD_test, ZD_wait} - countVal (zem s'))"
    and wait: "\<And>u. zpc s' u = ZD_wait \<Longrightarrow> countVal (zem s') < 0"
    and le: "int (downs s') \<le> v + int (ups s')"
  shows "zinv v s'"
proof -
  note D = zinvD[OF I]
  have o: "zlock (zem s') = Some u \<longleftrightarrow> zpc s' u \<in> zholders" for u
    using D(2)[of u] D(2)[of t] own by (cases "u = t"; cases "p \<in> zholders"; cases "zpc s t \<in> zholders") (auto simp: s')
  have c: "countVal (zem s') = v + int (ups s') + at (zpc s') giving - int (downs s') - at (zpc s') taking"
    using D(4) count unfolding s' by (subst (1 2) at_upd[OF D(1)]) (simp_all add: zpoints)
  show ?thesis
    using finite_upd[OF D(1), of t p] o sig D(3) c bal wait le unfolding zinv_def s' by auto
qed

lemma at_upd_out: "zinv v s \<Longrightarrow> Out \<notin> A \<Longrightarrow> at ((zpc s)(t := p)) A = at (zpc s) A + (if p \<in> A then 1 else 0) - (if zpc s t \<in> A then 1 else 0)"
  by (rule at_upd[OF zinvD(1)])

lemma zinv_call:
  assumes "zinv v s" "zpc s t = Out" "q \<in> {ZD_lock, ZU_lock}"
  shows "zinv v (s\<lparr>zpc := (zpc s)(t := q)\<rparr>)"
  by (rule zinv_moved[OF assms(1), of _ t q])
    (use assms zinvD[OF assms(1)] in \<open>auto simp: zpoints at_upd_out split: if_splits\<close>)

lemma zinv_down:
  assumes I: "zinv v s" and st: "zem_down t (zpc s t) (zem s) = Some (p, z)"
  shows "zinv v (s\<lparr>zem := z, zpc := (zpc s)(t := p), downs := downs s + (if p = Out then 1 else 0)\<rparr>)"
proof -
  note D = zinvD[OF I] and up = at_upd_out[OF I]
  have h: "A \<subseteq> zholders \<Longrightarrow> zpc s t \<in> zholders \<Longrightarrow> at (zpc s) A = (if zpc s t \<in> A then 1 else 0)" for A
    using at_holder[OF I] by blast
  have sub: "{ZU_signal} \<subseteq> zholders" "{ZD_test, ZD_wait} \<subseteq> zholders" by (simp_all add: zholders_def)
  have nt: "t \<notin> signalVar (zem s)" if "zpc s t \<noteq> ZD_blocked" using D(3) that by blast
  have others: "zpc s u \<noteq> ZD_wait" if "zpc s t \<in> zholders" "u \<noteq> t" for u
    using D(2)[of u] D(2)[of t] that by (auto simp: zholders_def)
  from st[unfolded zem_steps] show ?thesis
    apply (elim disjE conjE)
    subgoal by (rule zinv_moved[OF I, of _ t p]) (use D nt in \<open>auto simp: zpoints up split: if_splits\<close>)
    subgoal by (rule zinv_moved[OF I, of _ t p]) (use D nt h[OF sub(1)] h[OF sub(2)] others in \<open>auto simp: zpoints up split: if_splits\<close>)
    subgoal by (rule zinv_moved[OF I, of _ t p]) (use D nt others in \<open>auto simp: zpoints up split: if_splits\<close>)
    subgoal by (rule zinv_moved[OF I, of _ t p]) (use D nt h[OF sub(1)] h[OF sub(2)] others in \<open>auto simp: zpoints up split: if_splits\<close>)
    subgoal by (rule zinv_moved[OF I, of _ t p]) (use D(1,4,5,7) D(6)[of t] D(3) nt h[OF sub(1)] h[OF sub(2)] others waiters_finite[OF I] in \<open>auto simp: zpoints up split: if_splits\<close>)
    subgoal by (rule zinv_moved[OF I, of _ t p]) (use D in \<open>auto simp: zpoints up split: if_splits\<close>)
    subgoal by (rule zinv_moved[OF I, of _ t p])
      (use D nt h[OF sub(1)] h[OF sub(2)] h[of giving] others taking_bound[OF I, of t] in \<open>auto simp: zpoints up split: if_splits\<close>)
    done
qed

lemma zinv_up:
  assumes I: "zinv v s" and st: "zem_up w t (zpc s t) (zem s) = Some (p, z)"
  shows "zinv v (s\<lparr>zem := z, zpc := (zpc s)(t := p), ups := ups s + (if p = Out then 1 else 0)\<rparr>)"
proof -
  note D = zinvD[OF I] and up = at_upd_out[OF I]
  have h: "A \<subseteq> zholders \<Longrightarrow> zpc s t \<in> zholders \<Longrightarrow> at (zpc s) A = (if zpc s t \<in> A then 1 else 0)" for A
    using at_holder[OF I] by blast
  have sub: "{ZU_signal} \<subseteq> zholders" "{ZD_test, ZD_wait} \<subseteq> zholders" by (simp_all add: zholders_def)
  have nt: "t \<notin> signalVar (zem s)" if "zpc s t \<noteq> ZD_blocked" using D(3) that by blast
  have others: "zpc s u \<noteq> ZD_wait" if "zpc s t \<in> zholders" "u \<noteq> t" for u
    using D(2)[of u] D(2)[of t] that by (auto simp: zholders_def)
  have pos: "0 < card (signalVar (zem s))" if "w \<in> signalVar (zem s)"
    using that waiters_finite[OF I] by (auto simp: card_gt_0_iff)
  from st[unfolded zem_steps] show ?thesis
    apply (elim disjE conjE)
    subgoal by (rule zinv_moved[OF I, of _ t p]) (use D nt in \<open>auto simp: zpoints up split: if_splits\<close>)
    subgoal by (rule zinv_moved[OF I, of _ t p]) (use D nt h[OF sub(1)] h[OF sub(2)] others in \<open>auto simp: zpoints up split: if_splits\<close>)
    subgoal by (rule zinv_moved[OF I, of _ t p]) (use D nt h[OF sub(1)] h[OF sub(2)] others in \<open>auto simp: zpoints up split: if_splits\<close>)
    subgoal by (rule zinv_moved[OF I, of _ t p])
      (use D nt h[OF sub(1)] h[OF sub(2)] others waiters_finite[OF I] pos in \<open>auto simp: zpoints up of_nat_diff split: if_splits\<close>)
    subgoal by (rule zinv_moved[OF I, of _ t p]) (use D nt h[OF sub(1)] h[OF sub(2)] others in \<open>auto simp: zpoints up split: if_splits\<close>)
    done
qed

lemma zinv_run: "zrun sp s s' \<Longrightarrow> \<not> sp \<Longrightarrow> zinv v s \<Longrightarrow> zinv v s'"
  by (induction rule: zrun.induct) (simp_all add: zinv_call zinv_down zinv_up)

lemma zinv_init: "0 \<le> v \<Longrightarrow> zinv v (init_zsys v)"
  by (simp add: zinv_def init_zsys_def zem_init_def zpoints at_idle[of Out])

lemma zinv_reachable: "(zrun False)\<^sup>*\<^sup>* (init_zsys v) s \<Longrightarrow> 0 \<le> v \<Longrightarrow> zinv v s"
  by (induction rule: rtranclp_induct) (auto intro: zinv_init zinv_run[of False])

text \<open>C15: The semaphore counts.  With a condition variable that wakes only on a signal, at any moment of any
  interleaving of any number of threads at most \<open>v\<close> more calls of \<open>zem_down\<close> than of \<open>zem_up\<close> have
  returned; and no wakeup is lost: when the mutex is free and threads wait, every unit is taken by a
  call that has returned or by a thread that has been signalled and is about to return.\<close>

theorem zemaphore_counts:
  assumes "(zrun False)\<^sup>*\<^sup>* (init_zsys v) s" and "0 \<le> v"
  shows "int (downs s) \<le> v + int (ups s) \<and>
    (zlock (zem s) = None \<and> signalVar (zem s) \<noteq> {} \<longrightarrow>
      int (downs s + card {t. zpc s t = ZD_blocked \<and> t \<notin> signalVar (zem s)}) = v + int (ups s))"
proof
  have I: "zinv v s" by (rule zinv_reachable[OF assms])
  note D = zinvD[OF I]
  show "int (downs s) \<le> v + int (ups s)" by (rule D(7))
  show "zlock (zem s) = None \<and> signalVar (zem s) \<noteq> {} \<longrightarrow>
      int (downs s + card {t. zpc s t = ZD_blocked \<and> t \<notin> signalVar (zem s)}) = v + int (ups s)"
  proof (intro impI, elim conjE)
    let ?S = "signalVar (zem s)"
    assume l: "zlock (zem s) = None" and ne: "?S \<noteq> {}"
    have out: "zpc s t \<notin> zholders" for t using D(2)[of t] l by simp
    have S: "?S \<subseteq> {t. zpc s t = ZD_blocked}" using D(3) by auto
    have B: "finite {t. zpc s t = ZD_blocked}" using finite_at[OF D(1), of "{ZD_blocked}"] by simp
    have "{t. zpc s t \<in> taking} = {t. zpc s t = ZD_blocked}" using out by (auto simp: zpoints)
    then have "at (zpc s) taking = int (card {t. zpc s t = ZD_blocked})" by (simp add: at_def)
    moreover have "{t. zpc s t = ZD_blocked \<and> t \<notin> ?S} = {t. zpc s t = ZD_blocked} - ?S" by auto
    then have "card {t. zpc s t = ZD_blocked \<and> t \<notin> ?S} + card ?S = card {t. zpc s t = ZD_blocked}"
      using card_Diff_subset[OF finite_subset[OF S B] S] card_mono[OF B S] by simp
    moreover have "at (zpc s) giving = 0" "at (zpc s) {ZU_signal} = 0" "at (zpc s) {ZD_test, ZD_wait} = 0"
      by (rule at_none; use out in \<open>auto simp: zpoints\<close>)+
    moreover have "0 < card ?S" using ne finite_subset[OF S B] by (simp add: card_gt_0_iff)
    ultimately show "int (downs s + card {t. zpc s t = ZD_blocked \<and> t \<notin> ?S}) = v + int (ups s)"
      using D(4,5) by simp
  qed
qed

section \<open>A spurious wakeup\<close>

lemma zrun_down:
  "(zrun sp)\<^sup>*\<^sup>* a s \<Longrightarrow> zem_down t (zpc s t) (zem s) = Some (p, z) \<Longrightarrow>
    (zrun sp)\<^sup>*\<^sup>* a (s\<lparr>zem := z, zpc := (zpc s)(t := p), downs := downs s + (if p = Out then 1 else 0)\<rparr>)"
  by (rule rtranclp.rtrancl_into_rtrancl, assumption, rule zrun.down, assumption)

lemma zrun_up:
  "(zrun sp)\<^sup>*\<^sup>* a s \<Longrightarrow> zem_up w t (zpc s t) (zem s) = Some (p, z) \<Longrightarrow>
    (zrun sp)\<^sup>*\<^sup>* a (s\<lparr>zem := z, zpc := (zpc s)(t := p), ups := ups s + (if p = Out then 1 else 0)\<rparr>)"
  by (rule rtranclp.rtrancl_into_rtrancl, assumption, rule zrun.up, assumption)

text \<open>Thread 0 comes to wait on a semaphore of value 0.\<close>

lemma thread_waits:
  "\<exists>s. (zrun sp)\<^sup>*\<^sup>* (init_zsys 0) s \<and> zpc s = (\<lambda>_. Out)(0 := ZD_blocked) \<and> downs s = 0 \<and> ups s = 0 \<and>
    zem s = \<lparr>zlock = None, countVal = -1, signalVar = {0}\<rparr>"
proof -
  let ?s = "\<lambda>p z. init_zsys 0\<lparr>zpc := (\<lambda>_. Out)(0 := p), zem := z\<rparr>"
  have e: "init_zsys 0\<lparr>zem := z, zpc := pc, downs := 0\<rparr> = init_zsys 0\<lparr>zem := z, zpc := pc\<rparr>" for z pc
    by (simp add: init_zsys_def)
  have "(zrun sp)\<^sup>*\<^sup>* (init_zsys 0) (?s ZD_lock (zem_init 0))"
    using zrun.call_down[of "init_zsys 0" 0 sp] by (simp add: init_zsys_def)
  from zrun_down[OF this, of 0 ZD_dec "(zem_init 0)\<lparr>zlock := Some 0\<rparr>"]
  have "(zrun sp)\<^sup>*\<^sup>* (init_zsys 0) (?s ZD_dec ((zem_init 0)\<lparr>zlock := Some 0\<rparr>))"
    by (simp add: init_zsys_def zem_init_def zem_down_def)
  from zrun_down[OF this, of 0 ZD_test "\<lparr>zlock = Some 0, countVal = -1, signalVar = {}\<rparr>"]
  have "(zrun sp)\<^sup>*\<^sup>* (init_zsys 0) (?s ZD_test \<lparr>zlock = Some 0, countVal = -1, signalVar = {}\<rparr>)"
    by (simp add: init_zsys_def zem_init_def zem_down_def)
  from zrun_down[OF this, of 0 ZD_wait "\<lparr>zlock = Some 0, countVal = -1, signalVar = {}\<rparr>"]
  have "(zrun sp)\<^sup>*\<^sup>* (init_zsys 0) (?s ZD_wait \<lparr>zlock = Some 0, countVal = -1, signalVar = {}\<rparr>)"
    by (simp add: init_zsys_def zem_init_def zem_down_def)
  from zrun_down[OF this, of 0 ZD_blocked "\<lparr>zlock = None, countVal = -1, signalVar = {0}\<rparr>"]
  have "(zrun sp)\<^sup>*\<^sup>* (init_zsys 0) (?s ZD_blocked \<lparr>zlock = None, countVal = -1, signalVar = {0}\<rparr>)"
    by (simp add: init_zsys_def zem_init_def zem_down_def)
  then show ?thesis by (intro exI[of _ "?s ZD_blocked \<lparr>zlock = None, countVal = -1, signalVar = {0}\<rparr>"]) (simp add: init_zsys_def)
qed

theorem zemaphore_counts_witness:
  "\<exists>s. (zrun False)\<^sup>*\<^sup>* (init_zsys 0) s \<and> signalVar (zem s) = {0} \<and> int (downs s) \<le> 0 + int (ups s) \<and>
    int (downs s + card {t. zpc s t = ZD_blocked \<and> t \<notin> {0}}) = 0 + int (ups s)"
proof -
  obtain s where s: "(zrun False)\<^sup>*\<^sup>* (init_zsys 0) s" "zem s = \<lparr>zlock = None, countVal = -1, signalVar = {0}\<rparr>"
    using thread_waits by blast
  then show ?thesis using zemaphore_counts[OF s(1)] by (intro exI[of _ s]) simp
qed

text \<open>
  \<open>zem_down\<close> waits under an \<open>if\<close>, so with a condition variable that may wake a thread without a signal
  it returns although there was no \<open>zem_up\<close>.
\<close>

theorem zem_down_trusts_wakeups:
  "\<exists>s. (zrun True)\<^sup>*\<^sup>* (init_zsys 0) s \<and> downs s = 1 \<and> ups s = 0"
proof -
  obtain s where s: "(zrun True)\<^sup>*\<^sup>* (init_zsys 0) s" "zpc s = (\<lambda>_. Out)(0 := ZD_blocked)" "downs s = 0" "ups s = 0"
    "zem s = \<lparr>zlock = None, countVal = -1, signalVar = {0}\<rparr>"
    using thread_waits by blast
  let ?z = "\<lparr>zlock = None, countVal = -1, signalVar = {}\<rparr>"
  have "(zrun True)\<^sup>*\<^sup>* (init_zsys 0) (s\<lparr>zem := ?z\<rparr>)"
    using s(1) zrun.spurious[of True 0 s] by (auto simp: s(5))
  from zrun_down[OF this, of 0 ZD_unlock "?z\<lparr>zlock := Some 0\<rparr>"]
  have "(zrun True)\<^sup>*\<^sup>* (init_zsys 0) (s\<lparr>zem := ?z\<lparr>zlock := Some 0\<rparr>, zpc := (\<lambda>_. Out)(0 := ZD_unlock), downs := 0\<rparr>)"
    by (simp add: s zem_down_def)
  from zrun_down[OF this, of 0 Out ?z] show ?thesis using s(3,4) by (auto simp: zem_down_def)
qed

end
