(* ===== verification/Umalloc.thy ===== *)
theory Umalloc
  imports Cstring "HOL-Library.Monad_Syntax"
begin

text \<open>
  umalloc.c: the storage allocator of the user programs.  Free blocks are linked in a circle through
  the headers in front of them, in the order of their addresses; the static \<open>base\<close> is always part of the
  circle.  Memory is the byte memory of the process, so a header is two words in it.  A walk around
  the circle that does not end is \<open>None\<close>.  The system call \<open>sbrk\<close> extends the process by its argument and
  returns the old end, or \<open>-1\<close>; whether the kernel has the memory is the argument \<open>grant\<close>.
\<close>

section \<open>The program\<close>

record uheap =
  umem :: memory
  freep :: uint
  base :: uint
  brk :: uint

definition HDR :: uint where "HDR = 8"

definition hptr :: "uheap \<Rightarrow> uint \<Rightarrow> uint" where "hptr s p = load32 (umem s) p"
definition hsize :: "uheap \<Rightarrow> uint \<Rightarrow> uint" where "hsize s p = load32 (umem s) (p + 4)"
definition set_hptr :: "uint \<Rightarrow> uint \<Rightarrow> uheap \<Rightarrow> uheap" where "set_hptr p v s = s\<lparr>umem := store32 p v (umem s)\<rparr>"
definition set_hsize :: "uint \<Rightarrow> uint \<Rightarrow> uheap \<Rightarrow> uheap" where "set_hsize p v s = s\<lparr>umem := store32 (p + 4) v (umem s)\<rparr>"

text \<open>The loop of \<open>free\<close>: the block of the circle after which \<open>bp\<close> belongs.\<close>

partial_function (option) free_place :: "uint \<Rightarrow> uint \<Rightarrow> uheap \<Rightarrow> uint option" where
  "free_place bp p s =
     (if p < bp \<and> bp < hptr s p then Some p
      else if hptr s p \<le> p \<and> (p < bp \<or> bp < hptr s p) then Some p
      else free_place bp (hptr s p) s)"

definition free :: "uint \<Rightarrow> uheap \<Rightarrow> uheap option" where
  "free ap s =
     do {
       let bp = ap - HDR;
       p \<leftarrow> free_place bp (freep s) s;
       let s = (if bp + HDR * hsize s bp = hptr s p
                then let s = set_hsize bp (hsize s bp + hsize s (hptr s p)) s in
                     set_hptr bp (hptr s (hptr s p)) s
                else set_hptr bp (hptr s p) s);
       let s = (if p + HDR * hsize s p = bp
                then let s = set_hsize p (hsize s p + hsize s bp) s in
                     set_hptr p (hptr s bp) s
                else set_hptr p bp s);
       Some (s\<lparr>freep := p\<rparr>)
     }"

definition sbrk :: "(uint \<Rightarrow> uint \<Rightarrow> bool) \<Rightarrow> uint \<Rightarrow> uheap \<Rightarrow> uint \<times> uheap" where
  "sbrk grant n s = (if grant (brk s) n then (brk s, s\<lparr>brk := brk s + n\<rparr>) else (-1, s))"

definition morecore :: "(uint \<Rightarrow> uint \<Rightarrow> bool) \<Rightarrow> uint \<Rightarrow> uheap \<Rightarrow> (uint \<times> uheap) option" where
  "morecore grant nu s =
     do {
       let nu = (if nu < 4096 then 4096 else nu);
       let (p, s) = sbrk grant (nu * HDR) s;
       if p = -1 then Some (0, s)
       else do {
         let s = set_hsize p nu s;
         s \<leftarrow> free (p + HDR) s;
         Some (freep s, s)
       }
     }"

text \<open>The loop of \<open>malloc\<close>; the result is 0 or the address of the memory.\<close>

definition carve :: "uint \<Rightarrow> uint \<Rightarrow> uint \<Rightarrow> uheap \<Rightarrow> uint \<times> uheap" where
  "carve nunits prevp p s =
     (let (p, s) = (if hsize s p = nunits then (p, set_hptr prevp (hptr s p) s)
                    else let s = set_hsize p (hsize s p - nunits) s;
                             p = p + HDR * hsize s p in
                         (p, set_hsize p nunits s)) in
      (p + HDR, s\<lparr>freep := prevp\<rparr>))"

partial_function (option) malloc_loop ::
  "(uint \<Rightarrow> uint \<Rightarrow> bool) \<Rightarrow> uint \<Rightarrow> uint \<Rightarrow> uint \<Rightarrow> uheap \<Rightarrow> (uint \<times> uheap) option" where
  "malloc_loop grant nunits prevp p s =
     (if nunits \<le> hsize s p then Some (carve nunits prevp p s)
      else if p = freep s
      then do {
        (p, s) \<leftarrow> morecore grant nunits s;
        if p = 0 then Some (0, s) else malloc_loop grant nunits p (hptr s p) s
      }
      else malloc_loop grant nunits p (hptr s p) s)"

definition malloc :: "(uint \<Rightarrow> uint \<Rightarrow> bool) \<Rightarrow> uint \<Rightarrow> uheap \<Rightarrow> (uint \<times> uheap) option" where
  "malloc grant nbytes s =
     (let nunits = (nbytes + HDR - 1) div HDR + 1;
          s = (if freep s = 0
               then set_hsize (base s) 0 (set_hptr (base s) (base s) (s\<lparr>freep := base s\<rparr>))
               else s) in
      malloc_loop grant nunits (freep s) (hptr s (freep s)) s)"

section \<open>Circles of addresses\<close>

text \<open>In the circle of the addresses \<open>R\<close>, whose least is \<open>z\<close>, the address after \<open>a\<close> is \<open>b\<close>.\<close>

definition is_next :: "uint \<Rightarrow> uint set \<Rightarrow> uint \<Rightarrow> uint \<Rightarrow> bool" where
  "is_next z R a b \<longleftrightarrow> b \<in> R \<and> (a < b \<and> (\<forall>c\<in>R. a < c \<longrightarrow> b \<le> c) \<or> b = z \<and> (\<forall>c\<in>R. c \<le> a))"

lemma is_next_remove:
  assumes "is_next z R a b" "b \<noteq> q"
  shows "is_next z (R - {q}) a b"
  using assms by (auto simp: is_next_def)

lemma is_next_skip:
  assumes "is_next z R p q" "is_next z R q r" "q \<noteq> z" "\<forall>c\<in>R. z \<le> c"
  shows "is_next z (R - {q}) p r"
proof -
  have p: "p < q" "\<And>c. c \<in> R \<Longrightarrow> p < c \<Longrightarrow> q \<le> c" using assms(1,3) by (auto simp: is_next_def)
  from assms(2) consider "r \<in> R" "q < r" "\<And>c. c \<in> R \<Longrightarrow> q < c \<Longrightarrow> r \<le> c" | "r = z" "z \<in> R" "\<And>c. c \<in> R \<Longrightarrow> c \<le> q"
    by (auto simp: is_next_def)
  then show ?thesis
  proof cases
    case 1
    have "r \<le> c" if "c \<in> R" "c \<noteq> q" "p < c" for c using 1(3)[OF that(1)] p(2)[OF that(1,3)] that(2) by auto
    then show ?thesis using 1 p(1) by (auto simp: is_next_def)
  next
    case 2
    have "c \<le> p" if "c \<in> R" "c \<noteq> q" for c using 2(3)[OF that(1)] p(2)[OF that(1)] that(2) by force
    then show ?thesis using 2 assms(3) by (auto simp: is_next_def)
  qed
qed

lemma is_next_insert:
  assumes "is_next z R p q" "p \<in> R" "p < b" "b < q \<or> q \<le> p" "\<forall>c\<in>R. z \<le> c"
  shows "is_next z (insert b R) p b" "is_next z (insert b R) b q" "b \<notin> R"
    "\<And>a r. is_next z R a r \<Longrightarrow> a \<in> R \<Longrightarrow> a \<noteq> p \<Longrightarrow> is_next z (insert b R) a r"
proof -
  have q: "q \<in> R" "p < q \<and> b < q \<and> (\<forall>c\<in>R. p < c \<longrightarrow> q \<le> c) \<or> q = z \<and> (\<forall>c\<in>R. c \<le> p)"
    using assms(1,4,5) by (auto simp: is_next_def)
  have up: "b < c" if "c \<in> R" "p < c" for c using q that by force
  show "is_next z (insert b R) p b" using up assms(3) by (force simp: is_next_def)
  show nb: "b \<notin> R" using up assms(3) by blast
  show "is_next z (insert b R) b q" using q assms(3) by (force simp: is_next_def)
  show "is_next z (insert b R) a r" if "is_next z R a r" "a \<in> R" "a \<noteq> p" for a r
  proof (cases "a < b")
    case True
    then have "a < p" using up that(2,3) by (meson less_linear order.asym)
    then have "r \<le> p" "a < r" using that(1) assms(2) by (auto simp: is_next_def)
    then show ?thesis using that(1) assms(3) by (force simp: is_next_def)
  next
    case False
    then have "b < a" using nb that(2) by (cases a b rule: linorder_cases) auto
    then show ?thesis using that(1) by (force simp: is_next_def)
  qed
qed

text \<open>The part of the circle from \<open>p\<close> to \<open>f\<close>; a walk goes through it.\<close>

definition stretch :: "uint set \<Rightarrow> uint \<Rightarrow> uint \<Rightarrow> uint set" where
  "stretch R f p = {c \<in> R. if p \<le> f then p \<le> c \<and> c \<le> f else p \<le> c \<or> c \<le> f}"

lemma stretch_next:
  assumes "is_next z R p q" "p \<in> R" "f \<in> R" "p \<noteq> f" "\<forall>c\<in>R. z \<le> c"
  shows "stretch R f q = stretch R f p - {p}" "p \<in> stretch R f p"
proof -
  show "p \<in> stretch R f p" using assms(2) by (simp add: stretch_def)
  from assms(1) consider "p < q" "\<And>c. c \<in> R \<Longrightarrow> p < c \<Longrightarrow> q \<le> c" | "q = z" "\<And>c. c \<in> R \<Longrightarrow> c \<le> p"
    by (auto simp: is_next_def)
  then show "stretch R f q = stretch R f p - {p}"
  proof cases
    case 1
    have "p < c \<longleftrightarrow> q \<le> c" if "c \<in> R" for c using 1 that by auto
    then have "c \<in> R \<Longrightarrow> q \<le> c \<longleftrightarrow> p \<le> c \<and> c \<noteq> p" "p \<le> f \<longleftrightarrow> q \<le> f" for c using assms(3,4) by (auto simp: less_le)
    then show ?thesis unfolding stretch_def using 1 assms(3,4) by (auto split: if_splits)
  next
    case 2
    then have "\<not> p \<le> f" "z \<le> f" using assms(3-5) by force+
    then show ?thesis using 2 assms(5) by (force simp: stretch_def)
  qed
qed

lemma stretch_self: "f \<in> R \<Longrightarrow> stretch R f f = {f}"
  by (auto simp: stretch_def)

lemma stretch_all:
  assumes "is_next z R f q" "f \<in> R" "\<forall>c\<in>R. z \<le> c"
  shows "stretch R f q = R"
proof -
  from assms(1) consider "f < q" "\<And>c. c \<in> R \<Longrightarrow> f < c \<Longrightarrow> q \<le> c" | "q = z" "\<And>c. c \<in> R \<Longrightarrow> c \<le> f"
    by (auto simp: is_next_def)
  then show ?thesis
  proof cases
    case 1
    then have "q \<le> c \<or> c \<le> f" if "c \<in> R" for c using that leI by blast
    then show ?thesis using 1(1) by (auto simp: stretch_def)
  next
    case 2
    then show ?thesis using assms(2,3) by (auto simp: stretch_def)
  qed
qed

section \<open>Headers in memory\<close>

lemma aligned4_add4: "aligned4 x \<Longrightarrow> aligned4 (x + 4)"
  using mod_mod_cancel[of 4 "2 ^ 32" "unat x + 4"] by (simp add: aligned4_def unat_word_ariths)

text \<open>Addresses of headers: they do not overlap.\<close>

definition apart :: "uint set \<Rightarrow> bool" where
  "apart S \<longleftrightarrow> (\<forall>x\<in>S. aligned4 x \<and> unat x < 2 ^ 31) \<and> (\<forall>x\<in>S. \<forall>y\<in>S. x < y \<longrightarrow> unat x + 8 \<le> unat y)"

lemma apart_add4:
  assumes "apart S" "x \<in> S" "y \<in> S"
  shows "x + 4 \<noteq> y"
proof
  assume e: "x + 4 = y"
  have u: "unat (x + 4) = unat x + 4" using assms(1,2) by (subst unat_add_small) (auto simp: apart_def)
  then have "x < y" unfolding word_less_nat_alt e[symmetric] by simp
  then show False using assms u e by (force simp: apart_def)
qed

lemma apart_insert:
  assumes "apart S" "aligned4 b" "unat b < 2 ^ 31" "\<And>c. c \<in> S \<Longrightarrow> unat c + 8 \<le> unat b \<or> unat b + 8 \<le> unat c"
  shows "apart (insert b S)"
proof -
  have "unat b + 8 \<le> unat c" if "c \<in> S" "b < c" for c using assms(4)[OF that(1)] that(2) by (auto simp: word_less_nat_alt)
  moreover have "unat c + 8 \<le> unat b" if "c \<in> S" "c < b" for c using assms(4)[OF that(1)] that(2) by (auto simp: word_less_nat_alt)
  ultimately show ?thesis using assms(1-3) unfolding apart_def by auto
qed

lemma header_simps:
  assumes "apart S" "x \<in> S" "y \<in> S"
  shows "hptr (set_hptr x v s) y = (if y = x then v else hptr s y)" "hsize (set_hptr x v s) y = hsize s y"
    "hptr (set_hsize x v s) y = hptr s y" "hsize (set_hsize x v s) y = (if y = x then v else hsize s y)"
proof -
  have a: "aligned4 x" "aligned4 y" "aligned4 (x + 4)" "aligned4 (y + 4)"
    using assms aligned4_add4 by (auto simp: apart_def)
  note ne = apart_add4[OF assms] apart_add4[OF assms(1,3,2)]
  show "hptr (set_hptr x v s) y = (if y = x then v else hptr s y)" "hsize (set_hptr x v s) y = hsize s y"
    "hptr (set_hsize x v s) y = hptr s y" "hsize (set_hsize x v s) y = (if y = x then v else hsize s y)"
    using a ne by (auto simp: hptr_def hsize_def set_hptr_def set_hsize_def load_store32)
qed

lemma header_fields [simp]:
  "freep (set_hptr x v s) = freep s" "base (set_hptr x v s) = base s" "brk (set_hptr x v s) = brk s"
  "freep (set_hsize x v s) = freep s" "base (set_hsize x v s) = base s" "brk (set_hsize x v s) = brk s"
  "hptr (s\<lparr>freep := p\<rparr>) = hptr s" "hsize (s\<lparr>freep := p\<rparr>) = hsize s"
  "hptr (s\<lparr>brk := p\<rparr>) = hptr s" "hsize (s\<lparr>brk := p\<rparr>) = hsize s"
  by (simp_all add: set_hptr_def set_hsize_def hptr_def hsize_def fun_eq_iff)

section \<open>The blocks of the heap\<close>

definition hi :: "uheap \<Rightarrow> uint \<Rightarrow> nat" where
  "hi s a = unat a + 8 * unat (hsize s a)"

definition block :: "uheap \<Rightarrow> uint \<Rightarrow> uint set" where
  "block s a = {x. unat a \<le> unat x \<and> unat x < hi s a}"

text \<open>Blocks are whole headers above \<open>base\<close> and below the end of the process, and do not overlap.\<close>

definition blocks_ok :: "uheap \<Rightarrow> uint set \<Rightarrow> bool" where
  "blocks_ok s B \<longleftrightarrow> finite B \<and> base s \<notin> B \<and> base s \<noteq> 0 \<and> (\<forall>a\<in>insert (base s) B. aligned4 a) \<and>
     (\<forall>a\<in>B. unat (base s) + 8 \<le> unat a \<and> unat a + 8 \<le> hi s a \<and> hi s a \<le> unat (brk s)) \<and>
     (\<forall>a\<in>B. \<forall>b\<in>B. a < b \<longrightarrow> hi s a \<le> unat b) \<and>
     aligned4 (brk s) \<and> unat (brk s) < 2 ^ 31 \<and> unat (base s) + 8 \<le> unat (brk s)"

lemma blocks_okD:
  assumes "blocks_ok s B"
  shows "finite B" "base s \<notin> B" "base s \<noteq> 0" "a \<in> insert (base s) B \<Longrightarrow> aligned4 a"
    "a \<in> B \<Longrightarrow> unat (base s) + 8 \<le> unat a" "a \<in> B \<Longrightarrow> unat a + 8 \<le> hi s a" "a \<in> B \<Longrightarrow> hi s a \<le> unat (brk s)"
    "a \<in> B \<Longrightarrow> b \<in> B \<Longrightarrow> a < b \<Longrightarrow> hi s a \<le> unat b" "aligned4 (brk s)" "unat (brk s) < 2 ^ 31"
    "unat (base s) + 8 \<le> unat (brk s)"
  using assms unfolding blocks_ok_def by blast+

lemma blocks_apart:
  assumes "blocks_ok s B"
  shows "apart (insert (base s) B)"
proof -
  note D = blocks_okD[OF assms]
  have "unat x < 2 ^ 31" if "x \<in> B" for x using D(6,7)[OF that] D(10) by simp
  moreover have "unat x + 8 \<le> unat y" if "x \<in> B" "y \<in> B" "x < y" for x y using D(6)[OF that(1)] D(8)[OF that] by simp
  moreover have "\<not> x < base s" if "x \<in> B" for x using D(5)[OF that] by (simp add: word_less_nat_alt)
  ultimately show ?thesis using D(4,5,10,11) unfolding apart_def by auto
qed

lemma blocks_ok_mono: "blocks_ok s B \<Longrightarrow> C \<subseteq> B \<Longrightarrow> blocks_ok s C"
  unfolding blocks_ok_def using finite_subset by blast

lemma base_less: "blocks_ok s B \<Longrightarrow> a \<in> B \<Longrightarrow> base s < a"
  using blocks_okD(5)[of s B a] by (simp add: word_less_nat_alt)

lemma base_least: "blocks_ok s B \<Longrightarrow> \<forall>c\<in>insert (base s) B. base s \<le> c"
  using base_less by (auto simp: less_imp_le)

lemma hi_cong: "hsize s' a = hsize s a \<Longrightarrow> hi s' a = hi s a"
  by (simp add: hi_def)

lemma blocks_ok_cong:
  assumes "blocks_ok s B" "base s' = base s" "brk s' = brk s" "\<And>a. a \<in> B \<Longrightarrow> hsize s' a = hsize s a"
  shows "blocks_ok s' B"
proof -
  have "hi s' a = hi s a" if "a \<in> B" for a by (rule hi_cong[OF assms(4)[OF that]])
  then show ?thesis using assms(1) unfolding blocks_ok_def assms(2,3) by simp
qed

text \<open>The address after a block.\<close>

lemma unat_HDR_mult: "8 * unat n < 2 ^ 32 \<Longrightarrow> unat (HDR * n) = 8 * unat n"
  by (simp add: HDR_def unat_word_ariths)

lemma block_end:
  assumes "hi s a < 2 ^ 32"
  shows "unat (a + HDR * hsize s a) = hi s a"
proof -
  have "unat (HDR * hsize s a) = 8 * unat (hsize s a)" using assms by (intro unat_HDR_mult) (simp add: hi_def)
  then show ?thesis using assms by (subst unat_add_small) (simp_all add: hi_def)
qed

lemma block_end_eq: "hi s a < 2 ^ 32 \<Longrightarrow> a + HDR * hsize s a = q \<longleftrightarrow> hi s a = unat q"
  using block_end[of s a] by (simp add: word_unat_eq_iff)

text \<open>Two blocks side by side become one, and a block becomes two.\<close>

lemma blocks_merge:
  assumes B: "blocks_ok s B" "a \<in> B" "b \<in> B" "hi s a = unat b"
    and s': "base s' = base s" "brk s' = brk s" "hsize s' a = hsize s a + hsize s b"
      "\<And>c. c \<in> B \<Longrightarrow> c \<noteq> a \<Longrightarrow> hsize s' c = hsize s c"
  shows "blocks_ok s' (B - {b})" "hi s' a = hi s b" "block s' a = block s a \<union> block s b" "a < b"
proof -
  note D = blocks_okD[OF B(1)]
  show ab: "a < b" using D(6)[OF B(2)] B(4) by (simp add: word_less_nat_alt)
  have "8 * unat (hsize s a) + 8 * unat (hsize s b) < 2 ^ 31" using D(7)[OF B(3)] D(10) B(4) by (simp add: hi_def)
  then have "unat (hsize s a + hsize s b) = unat (hsize s a) + unat (hsize s b)" by (intro unat_add_small) simp
  then show h: "hi s' a = hi s b" using B(4) by (simp add: hi_def s'(3))
  show "block s' a = block s a \<union> block s b" using B(4) D(6)[OF B(3)] unfolding block_def h by (auto simp: hi_def)
  have up: "hi s b \<le> unat c" if "c \<in> B" "c \<noteq> b" "a < c" for c
  proof -
    have "\<not> c < b" using D(8)[OF B(2) that(1,3)] B(4) by (simp add: word_less_nat_alt)
    then show ?thesis using D(8)[OF B(3) that(1)] that(2) by (meson less_linear)
  qed
  have sz: "hi s' c = hi s c" if "c \<in> B" "c \<noteq> a" for c using s'(4)[OF that] by (rule hi_cong)
  have "hi s' x \<le> unat y" if "x \<in> B" "y \<in> B" "y \<noteq> b" "x < y" for x y
    using D(8)[OF that(1,2,4)] up[OF that(2,3)] that(4) sz[OF that(1)] h by (cases "x = a") auto
  moreover have "unat (base s) + 8 \<le> unat x \<and> unat x + 8 \<le> hi s' x \<and> hi s' x \<le> unat (brk s)" if "x \<in> B" for x
    using D(5-7)[OF that] D(6,7)[OF B(3)] D(6)[OF B(2)] B(4) h sz[OF that] by (cases "x = a") auto
  ultimately show "blocks_ok s' (B - {b})" using D unfolding blocks_ok_def s'(1,2) by auto
qed

lemma aligned4_add_mult8: "aligned4 a \<Longrightarrow> unat b = unat a + 8 * k \<Longrightarrow> aligned4 b"
  unfolding aligned4_def by presburger

lemma split_point:
  assumes B: "blocks_ok s B" "a \<in> B" and n: "0 < n" "n < hsize s a" and b: "b = a + HDR * (hsize s a - n)"
  shows "unat b = unat a + 8 * (unat (hsize s a) - unat n)" "unat a + 8 \<le> unat b" "unat b + 8 \<le> hi s a"
    "unat b + 8 * unat n = hi s a" "aligned4 b" "b \<notin> insert (base s) B" "apart (insert b (insert (base s) B))"
proof -
  note D = blocks_okD[OF B(1)]
  have un: "unat (hsize s a - n) = unat (hsize s a) - unat n" "unat n < unat (hsize s a)" "0 < unat n"
    using n by (simp_all add: unat_sub word_less_nat_alt less_imp_le unat_gt_0)
  have top: "unat a + 8 * unat (hsize s a) < 2 ^ 31" using D(7)[OF B(2)] D(10) by (simp add: hi_def)
  show ub: "unat b = unat a + 8 * (unat (hsize s a) - unat n)"
    using top un unfolding b by (subst unat_add_small; subst unat_HDR_mult) auto
  show ab: "unat a + 8 \<le> unat b" "unat b + 8 \<le> hi s a" "unat b + 8 * unat n = hi s a" using ub un by (simp_all add: hi_def)
  show al: "aligned4 b" using D(4)[of a] B(2) ub by (auto intro: aligned4_add_mult8)
  have out: "unat c + 8 \<le> unat a \<or> hi s a \<le> unat c" if "c \<in> B" "c \<noteq> a" for c
    using D(8)[OF B(2) that(1)] D(8)[OF that(1) B(2)] D(6)[OF that(1)] that(2) by (cases c a rule: linorder_cases) auto
  have far: "unat c + 8 \<le> unat b \<or> unat b + 8 \<le> unat c" if "c \<in> insert (base s) B" for c
    using out[of c] that ab(1,2) D(5)[OF B(2)] by (cases "c = a") auto
  then show "b \<notin> insert (base s) B" by fastforce
  have "unat b < 2 ^ 31" using ab(2) D(7)[OF B(2)] D(10) by simp
  then show "apart (insert b (insert (base s) B))"
    using apart_insert[OF blocks_apart[OF B(1)] al] far by blast
qed

lemma blocks_split:
  assumes B: "blocks_ok s B" "a \<in> B" and n: "0 < n" "n < hsize s a" and b: "b = a + HDR * (hsize s a - n)"
    and s': "base s' = base s" "brk s' = brk s" "hsize s' a = hsize s a - n" "hsize s' b = n"
      "\<And>c. c \<in> B \<Longrightarrow> c \<noteq> a \<Longrightarrow> hsize s' c = hsize s c"
  shows "blocks_ok s' (insert b B)" "hi s' a = unat b" "hi s' b = hi s a" "b \<notin> insert (base s) B"
    "block s a = block s' a \<union> block s' b"
proof -
  note D = blocks_okD[OF B(1)] and P = split_point[OF B n b]
  have un: "unat (hsize s a - n) = unat (hsize s a) - unat n"
    using n by (simp add: unat_sub less_imp_le)
  show ha: "hi s' a = unat b" using P(1) un by (simp add: hi_def s'(3))
  show hb: "hi s' b = hi s a" using P(4) by (simp add: hi_def s'(4))
  note ab = P(2,3)
  then have less: "a < b" by (simp add: word_less_nat_alt)
  have sz: "hi s' c = hi s c" if "c \<in> B" "c \<noteq> a" for c using s'(5)[OF that] by (rule hi_cong)
  have out: "c < a \<and> hi s c \<le> unat a \<or> hi s a \<le> unat c" if "c \<in> B" "c \<noteq> a" for c
    using D(8)[OF B(2) that(1)] D(8)[OF that(1) B(2)] that(2) by (meson less_linear)
  have nb: "c \<noteq> b" if "c \<in> B" for c using P(6) that by blast
  show "b \<notin> insert (base s) B" by (rule P(6))
  show "block s a = block s' a \<union> block s' b" using ab unfolding block_def ha hb by auto
  have bb: "hi s' x \<le> unat b" if "x \<in> B" "x < b" for x
    using out[OF that(1)] that(2) ab ha sz[OF that(1)] by (cases "x = a") (auto simp: word_less_nat_alt)
  have ba: "hi s a \<le> unat x" if "x \<in> B" "b < x" for x
    using out[OF that(1)] that(2) less by (cases "x = a") auto
  have pair: "hi s' x \<le> unat y" if "x \<in> B" "y \<in> B" "x < y" for x y
    using D(8)[OF that] sz[OF that(1)] ha ab by (cases "x = a") auto
  have "\<forall>x\<in>insert b B. \<forall>y\<in>insert b B. x < y \<longrightarrow> hi s' x \<le> unat y" using pair ba bb by (auto simp: hb)
  moreover have "unat (base s) + 8 \<le> unat x \<and> unat x + 8 \<le> hi s' x \<and> hi s' x \<le> unat (brk s)" if "x \<in> insert b B" for x
    using that D(5-7)[of x] D(5,7)[OF B(2)] ab ha hb sz[of x] nb[OF B(2)] by (cases "x = a"; cases "x = b") auto
  ultimately show "blocks_ok s' (insert b B)"
    using D(1-4,9-11) P(5,6) unfolding blocks_ok_def s'(1,2) by auto
qed

section \<open>The invariant of the heap\<close>

text \<open>
  \<open>F\<close> are the free blocks and \<open>A\<close> the allocated ones, by the addresses of their headers.  The circle goes
  through \<open>base\<close> and \<open>F\<close>, and no two free blocks are side by side.
\<close>

definition circle :: "uheap \<Rightarrow> uint set \<Rightarrow> bool" where
  "circle s R \<longleftrightarrow> (\<forall>a\<in>R. is_next (base s) R a (hptr s a))"

definition heap_inv :: "uheap \<Rightarrow> uint set \<Rightarrow> uint set \<Rightarrow> bool" where
  "heap_inv s F A \<longleftrightarrow> blocks_ok s (F \<union> A) \<and> F \<inter> A = {} \<and> circle s (insert (base s) F) \<and>
     freep s \<in> insert (base s) F \<and> hsize s (base s) = 0 \<and> (\<forall>a\<in>F. \<forall>b\<in>F. hi s a \<noteq> unat b)"

definition free_bytes :: "uheap \<Rightarrow> uint set \<Rightarrow> uint set" where
  "free_bytes s F = (\<Union>a\<in>F. block s a)"

definition base_header :: "uheap \<Rightarrow> uint set" where
  "base_header s = {x. unat (base s) \<le> unat x \<and> unat x < unat (base s) + 8}"

lemma heap_invD:
  assumes "heap_inv s F A"
  shows "blocks_ok s (F \<union> A)" "F \<inter> A = {}" "circle s (insert (base s) F)" "freep s \<in> insert (base s) F"
    "hsize s (base s) = 0" "\<And>a b. a \<in> F \<Longrightarrow> b \<in> F \<Longrightarrow> hi s a \<noteq> unat b"
    "finite (insert (base s) F)" "\<forall>c\<in>insert (base s) F. base s \<le> c"
proof -
  show B: "blocks_ok s (F \<union> A)" using assms by (simp add: heap_inv_def)
  show "F \<inter> A = {}" "circle s (insert (base s) F)" "freep s \<in> insert (base s) F" "hsize s (base s) = 0"
    "\<And>a b. a \<in> F \<Longrightarrow> b \<in> F \<Longrightarrow> hi s a \<noteq> unat b"
    using assms unfolding heap_inv_def by blast+
  show "finite (insert (base s) F)" using blocks_okD(1)[OF B] by simp
  show "\<forall>c\<in>insert (base s) F. base s \<le> c" using base_least[OF B] by blast
qed

text \<open>A walk around the circle: from \<open>p\<close> it reaches every \<open>f\<close> of the circle.\<close>

lemma circle_walk [consumes 5, case_names here step]:
  assumes "circle s R" "finite R" "\<forall>c\<in>R. base s \<le> c" "f \<in> R" "p \<in> R"
    and here: "P f" and nxt: "\<And>p. p \<in> R \<Longrightarrow> p \<noteq> f \<Longrightarrow> hptr s p \<in> R \<Longrightarrow> P (hptr s p) \<Longrightarrow> P p"
  shows "P p"
  using \<open>p \<in> R\<close>
proof (induction "card (stretch R f p)" arbitrary: p rule: less_induct)
  case less
  show ?case
  proof (cases "p = f")
    case True
    then show ?thesis using here by simp
  next
    case False
    have n: "is_next (base s) R p (hptr s p)" using assms(1) less.prems by (simp add: circle_def)
    then have r: "hptr s p \<in> R" by (simp add: is_next_def)
    have "finite (stretch R f p)" using assms(2) by (simp add: stretch_def)
    then have "card (stretch R f (hptr s p)) < card (stretch R f p)"
      unfolding stretch_next(1)[OF n less.prems assms(4) False assms(3)]
      by (rule card_Diff1_less) (rule stretch_next(2)[OF n less.prems assms(4) False assms(3)])
    then show ?thesis using nxt[OF less.prems False r] less.hyps r by blast
  qed
qed

text \<open>The place of \<open>bp\<close> is the last address of the circle before it.\<close>

definition place :: "uint set \<Rightarrow> uint \<Rightarrow> uint" where
  "place R bp = Max {c \<in> R. c < bp}"

lemma place_props:
  assumes "finite R" "z \<in> R" "z < bp"
  shows "place R bp \<in> R" "place R bp < bp" "\<And>c. c \<in> R \<Longrightarrow> c < bp \<Longrightarrow> c \<le> place R bp"
proof -
  have f: "finite {c \<in> R. c < bp}" "{c \<in> R. c < bp} \<noteq> {}" using assms by auto
  show "place R bp \<in> R" "place R bp < bp" using Max_in[OF f] by (simp_all add: place_def)
  show "c \<le> place R bp" if "c \<in> R" "c < bp" for c using Max_ge[OF f(1)] that by (simp add: place_def)
qed

lemma free_place_finds:
  assumes C: "circle s R" "finite R" "\<forall>c\<in>R. base s \<le> c" and z: "base s \<in> R" "base s < bp" and b: "bp \<notin> R" and p: "p \<in> R"
  shows "free_place bp p s = Some (place R bp)"
    and "bp < hptr s (place R bp) \<or> hptr s (place R bp) \<le> place R bp"
proof -
  note P = place_props[OF C(2) z]
  have nx: "is_next (base s) R c (hptr s c)" if "c \<in> R" for c using C(1) that by (simp add: circle_def)
  have stop: "c < bp \<and> bp < hptr s c \<or> hptr s c \<le> c \<and> (c < bp \<or> bp < hptr s c) \<longleftrightarrow> c = place R bp" if c: "c \<in> R" for c
  proof -
    from nx[OF c] consider "c < hptr s c" "\<forall>d\<in>R. c < d \<longrightarrow> hptr s c \<le> d" "hptr s c \<in> R" | "hptr s c = base s" "\<forall>d\<in>R. d \<le> c"
      by (auto simp: is_next_def)
    then show ?thesis
    proof cases
      case 1
      have "c = place R bp" if "c < bp" "bp < hptr s c"
      proof (rule antisym)
        show "c \<le> place R bp" by (rule P(3)[OF c that(1)])
        have "\<not> c < place R bp" using 1(2) P(1,2) that(2) by (meson leD less_trans)
        then show "place R bp \<le> c" by simp
      qed
      moreover have "bp < hptr s c" if "c = place R bp"
      proof -
        have "\<not> hptr s c < bp" using P(3)[OF 1(3)] 1(1) that by auto
        moreover have "hptr s c \<noteq> bp" using 1(3) b by blast
        ultimately show ?thesis by auto
      qed
      moreover have "\<not> hptr s c \<le> c" using 1(1) by simp
      ultimately show ?thesis using P(2) by blast
    next
      case 2
      have "hptr s c \<le> c" using C(3) c 2(1) by simp
      moreover have "\<not> bp < hptr s c" using 2(1) z(2) by auto
      moreover have "c = place R bp" if "c < bp" using P(3)[OF c that] 2(2) P(1) by (simp add: order_antisym)
      ultimately show ?thesis using P(2) by blast
    qed
  qed
  show "bp < hptr s (place R bp) \<or> hptr s (place R bp) \<le> place R bp" using stop[OF P(1)] by auto
  show "free_place bp p s = Some (place R bp)"
    using C P(1) p
  proof (induction rule: circle_walk)
    case here
    show ?case using stop[OF P(1)] by (subst free_place.simps) auto
  next
    case (step p)
    then show ?case using stop[OF step(1)] by (subst free_place.simps) auto
  qed
qed

section \<open>free\<close>

text \<open>The two halves of \<open>free\<close>: the block takes in its upper neighbour, and joins the circle after \<open>p\<close>.\<close>

definition join_upper :: "uint \<Rightarrow> uint \<Rightarrow> uheap \<Rightarrow> uheap" where
  "join_upper bp p s =
     (if bp + HDR * hsize s bp = hptr s p
      then let s = set_hsize bp (hsize s bp + hsize s (hptr s p)) s in
           set_hptr bp (hptr s (hptr s p)) s
      else set_hptr bp (hptr s p) s)"

definition join_lower :: "uint \<Rightarrow> uint \<Rightarrow> uheap \<Rightarrow> uheap" where
  "join_lower bp p s =
     (if p + HDR * hsize s p = bp
      then let s = set_hsize p (hsize s p + hsize s bp) s in
           set_hptr p (hptr s bp) s
      else set_hptr p bp s)"

lemma free_joins:
  "free ap s = (case free_place (ap - HDR) (freep s) s of None \<Rightarrow> None
     | Some p \<Rightarrow> Some ((join_lower (ap - HDR) p (join_upper (ap - HDR) p s))\<lparr>freep := p\<rparr>))"
  unfolding free_def join_upper_def join_lower_def Let_def by (cases "free_place (ap - HDR) (freep s) s") simp_all

lemma join_fields [simp]:
  "base (join_upper bp p s) = base s" "brk (join_upper bp p s) = brk s"
  "base (join_lower bp p s) = base s" "brk (join_lower bp p s) = brk s"
  by (simp_all add: join_upper_def join_lower_def Let_def)

text \<open>A block out of the circle, which goes on after \<open>p\<close> at the block's own pointer.\<close>

definition detached :: "uheap \<Rightarrow> uint \<Rightarrow> uint \<Rightarrow> uint set \<Rightarrow> uint set \<Rightarrow> bool" where
  "detached s bp p F A \<longleftrightarrow> blocks_ok s (insert bp (F \<union> A)) \<and> bp \<notin> F \<union> A \<and> F \<inter> A = {} \<and> p \<in> insert (base s) F \<and> p < bp \<and>
     is_next (base s) (insert (base s) F) p (hptr s bp) \<and> (bp < hptr s bp \<or> hptr s bp \<le> p) \<and>
     (\<forall>a\<in>insert (base s) F - {p}. is_next (base s) (insert (base s) F) a (hptr s a)) \<and> hsize s (base s) = 0 \<and>
     (\<forall>a\<in>F. \<forall>b\<in>F. hi s a \<noteq> unat b) \<and> (\<forall>b\<in>F. hi s bp \<noteq> unat b)"

lemma hi_below: "blocks_ok s B \<Longrightarrow> a \<in> B \<Longrightarrow> hi s a < 2 ^ 32"
  using blocks_okD(7,10)[of s B] by fastforce

lemma join_upper_spec:
  assumes I: "heap_inv s F (insert bp A)" and bA: "bp \<notin> A" and p: "p = place (insert (base s) F) bp"
  defines "s1 \<equiv> join_upper bp p s"
  shows "\<exists>F1. detached s1 bp p F1 A \<and> free_bytes s1 F1 \<union> block s1 bp = free_bytes s F \<union> block s bp \<and>
    block s bp \<subseteq> block s1 bp \<and> F1 \<subseteq> F \<and> (\<forall>a\<in>insert (base s) (F1 \<union> A). hsize s1 a = hsize s a)"
proof -
  let ?R = "insert (base s) F" and ?B = "F \<union> insert bp A"
  note D = heap_invD[OF I]
  note B = blocks_okD[OF D(1)] and ap = blocks_apart[OF D(1)]
  have bF: "bp \<notin> F" "base s < bp" using D(2) base_less[OF D(1)] by auto
  then have bR: "bp \<notin> ?R" by auto
  have "base s \<in> ?R" by simp
  note P = place_props[OF D(7) this bF(2), folded p]
  have dir: "bp < hptr s p \<or> hptr s p \<le> p" using free_place_finds(2)[OF D(3,7,8) _ bF(2) bR P(1)] p by simp
  have nx: "is_next (base s) ?R a (hptr s a)" if "a \<in> ?R" for a using D(3) that unfolding circle_def by blast
  have qR: "hptr s p \<in> ?R" using nx[OF P(1)] by (simp add: is_next_def)
  have mem: "bp \<in> insert (base s) ?B" "\<And>a. a \<in> ?R \<Longrightarrow> a \<in> insert (base s) ?B" by auto
  note upd = header_simps[OF ap mem(1)]
  have ne: "a \<noteq> bp" if "a \<in> insert (base s) (F \<union> A)" for a using that bR bA by auto
  show ?thesis
  proof (cases "hi s bp = unat (hptr s p)")
    case True
    define q where "q = hptr s p"
    have j: "s1 = set_hptr bp (hptr s q) (set_hsize bp (hsize s bp + hsize s q) s)"
      using True block_end_eq[OF hi_below[OF D(1)], of bp q] upd(3)[OF mem(2)[OF qR]] upd(3)[OF mem(2)[OF P(1)]]
      by (simp add: s1_def join_upper_def Let_def q_def)
    have "unat bp < hi s bp" using B(6)[of bp] by simp
    then have bq: "bp < q" using True by (simp add: word_less_nat_alt q_def)
    then have qb: "q \<noteq> base s" "q \<in> F" "p < q" using bF(2) qR P(2) by (auto simp: q_def)
    have hp: "hptr s1 a = (if a = bp then hptr s q else hptr s a)" and hs: "hsize s1 a = (if a = bp then hsize s bp + hsize s q else hsize s a)"
      if "a \<in> insert (base s) ?B" for a
      using header_simps[OF ap mem(1) that] by (simp_all add: j)
    note M = blocks_merge[OF D(1), of bp q s1]
    have m: "blocks_ok s1 (?B - {q})" "hi s1 bp = hi s q" "block s1 bp = block s bp \<union> block s q"
      using M True qb hs by (auto simp: q_def s1_def)
    have hc: "hi s1 a = hi s a" if "a \<in> F \<union> A" for a using hs[of a] ne[of a] that by (intro hi_cong) auto
    have bc: "block s1 a = block s a" if "a \<in> F" for a using hc that by (simp add: block_def)
    have R1: "insert (base s) (F - {q}) = ?R - {q}" using qb(1) by auto
    have sk: "is_next (base s) (?R - {q}) p (hptr s q)"
      using is_next_skip[OF nx[OF P(1), folded q_def] nx qb(1) D(8)] qb(2) by simp
    have rest: "is_next (base s) (?R - {q}) a (hptr s1 a)" if "a \<in> ?R" "a \<noteq> q" "a \<noteq> p" for a
    proof -
      have "hptr s a \<noteq> q"
      proof
        assume e: "hptr s a = q"
        have "a < q" "\<forall>c\<in>?R. a < c \<longrightarrow> q \<le> c" using nx[OF that(1)] qb(1) by (auto simp: is_next_def e)
        moreover have "\<forall>c\<in>?R. p < c \<longrightarrow> q \<le> c" using nx[OF P(1)] qb by (auto simp: is_next_def q_def[symmetric])
        ultimately show False using that P(1) qb(3) by (metis leD linorder_neqE)
      qed
      moreover have "hptr s1 a = hptr s a" using hp[OF mem(2)[OF that(1)]] that(1) bR by (cases "a = bp") simp_all
      ultimately show ?thesis using is_next_remove[OF nx[OF that(1)]] by simp
    qed
    have after: "bp < hptr s q \<or> hptr s q \<le> p"
    proof -
      have "hptr s q \<in> ?R" "q < hptr s q \<or> hptr s q = base s" using nx[of q] qb(2) by (auto simp: is_next_def)
      moreover have "base s \<le> p" using D(8) P(1) by blast
      ultimately show ?thesis using bq by auto
    qed
    have det: "detached s1 bp p (F - {q}) A"
      unfolding detached_def
    proof (intro conjI)
      have "insert bp (F - {q} \<union> A) \<subseteq> ?B - {q}" using qb(2) D(2) bq by blast
      then show "blocks_ok s1 (insert bp (F - {q} \<union> A))" by (rule blocks_ok_mono[OF m(1)])
      show "bp \<notin> F - {q} \<union> A" "(F - {q}) \<inter> A = {}" using bF bA D(2) by auto
      show "p \<in> insert (base s1) (F - {q})" "p < bp" using P(1,2) qb(3) by (auto simp: s1_def)
      show "hsize s1 (base s1) = 0" using hs[of "base s"] ne[of "base s"] D(5) by (simp add: s1_def)
      show "\<forall>a\<in>F - {q}. \<forall>b\<in>F - {q}. hi s1 a \<noteq> unat b" using D(6) hc by auto
      show "\<forall>b\<in>F - {q}. hi s1 bp \<noteq> unat b" using D(6) qb(2) by (simp add: m(2))
    qed (use sk rest after R1 hp[OF mem(1)] in \<open>auto simp: s1_def\<close>)
    have "free_bytes s1 (F - {q}) \<union> block s1 bp = free_bytes s F \<union> block s bp"
      using bc qb(2) by (auto simp: free_bytes_def m(3))
    then show ?thesis using det m(3) hs ne by (intro exI[of _ "F - {q}"]) (auto simp: s1_def)
  next
    case False
    have j: "s1 = set_hptr bp (hptr s p) s"
      using False block_end_eq[OF hi_below[OF D(1)], of bp "hptr s p"] by (simp add: s1_def join_upper_def Let_def)
    have hp: "hptr s1 a = (if a = bp then hptr s p else hptr s a)" and hs: "hsize s1 a = hsize s a"
      if "a \<in> insert (base s) ?B" for a
      using header_simps[OF ap mem(1) that] by (simp_all add: j)
    have hc: "hi s1 a = hi s a" if "a \<in> ?B" for a using hs[of a] that by (intro hi_cong) auto
    have bc: "block s1 a = block s a" if "a \<in> ?B" for a using hc that by (simp add: block_def)
    have far: "hi s bp \<noteq> unat b" if "b \<in> F" for b
    proof
      assume e: "hi s bp = unat b"
      have bb: "bp < b" using B(6)[of bp] e by (simp add: word_less_nat_alt)
      then have pb: "p < b" using P(2) by auto
      have "hptr s p \<noteq> b" using False e by auto
      moreover have "p < hptr s p" "hptr s p \<le> b" using nx[OF P(1)] that pb by (force simp: is_next_def)+
      ultimately have h: "hptr s p < b" "bp < hptr s p" "hptr s p \<in> F" using dir bF qR D(8) P(1) by force+
      then show False using B(8)[of bp "hptr s p"] e by (auto simp: word_less_nat_alt)
    qed
    have det: "detached s1 bp p F A"
      unfolding detached_def
    proof (intro conjI)
      show "blocks_ok s1 (insert bp (F \<union> A))" using blocks_ok_cong[OF D(1), of s1] hs by (simp add: s1_def)
      show "bp \<notin> F \<union> A" "F \<inter> A = {}" using bF bA D(2) by auto
      show "p \<in> insert (base s1) F" "p < bp" using P(1,2) by (auto simp: s1_def)
      show "hsize s1 (base s1) = 0" using hs[of "base s"] D(5) by (simp add: s1_def)
      show "\<forall>a\<in>F. \<forall>b\<in>F. hi s1 a \<noteq> unat b" using D(6) hc by auto
      show "\<forall>b\<in>F. hi s1 bp \<noteq> unat b" using far hc by auto
    qed (use nx P(1) dir hp ne in \<open>auto simp: s1_def\<close>)
    have "free_bytes s1 F \<union> block s1 bp = free_bytes s F \<union> block s bp" using bc by (auto simp: free_bytes_def)
    then show ?thesis using det bc[of bp] hs by (intro exI[of _ F]) auto
  qed
qed

lemma join_lower_spec:
  assumes dt: "detached s bp p F A"
  defines "s2 \<equiv> (join_lower bp p s)\<lparr>freep := p\<rparr>"
  shows "\<exists>F2. heap_inv s2 F2 A \<and> free_bytes s2 F2 = free_bytes s F \<union> block s bp \<and>
    (\<exists>b\<in>F2. block s bp \<subseteq> block s2 b) \<and> (\<forall>a\<in>A. hsize s2 a = hsize s a)"
proof -
  let ?R = "insert (base s) F" and ?B = "insert bp (F \<union> A)"
  have D: "blocks_ok s ?B" "bp \<notin> F \<union> A" "F \<inter> A = {}" "p \<in> ?R" "p < bp"
    "is_next (base s) ?R p (hptr s bp)" "bp < hptr s bp \<or> hptr s bp \<le> p"
    "\<And>a. a \<in> ?R \<Longrightarrow> a \<noteq> p \<Longrightarrow> is_next (base s) ?R a (hptr s a)" "hsize s (base s) = 0"
    "\<And>a b. a \<in> F \<Longrightarrow> b \<in> F \<Longrightarrow> hi s a \<noteq> unat b" "\<And>b. b \<in> F \<Longrightarrow> hi s bp \<noteq> unat b"
    using dt unfolding detached_def by blast+
  note B = blocks_okD[OF D(1)] and ap = blocks_apart[OF D(1)]
  have bb: "base s < bp" using base_less[OF D(1)] by simp
  have least: "\<forall>c\<in>?R. base s \<le> c" using base_least[OF D(1)] by auto
  have mem: "p \<in> insert (base s) ?B" "bp \<in> insert (base s) ?B" "\<And>a. a \<in> ?R \<Longrightarrow> a \<in> insert (base s) ?B" using D(4) by auto
  have pA: "p \<notin> A" using D(3,4) B(2) by auto
  have fld: "base s2 = base s" "brk s2 = brk s" "freep s2 = p" by (simp_all add: s2_def)
  have top: "hi s p < 2 ^ 32"
  proof (cases "p = base s")
    case True
    then show ?thesis using D(9) unsigned_less[of p] by (simp add: hi_def)
  next
    case False
    then show ?thesis using hi_below[OF D(1), of p] D(4) by simp
  qed
  show ?thesis
  proof (cases "hi s p = unat bp")
    case True
    have pF: "p \<in> F" using True D(4,9) bb by (auto simp: hi_def word_less_nat_alt)
    have j: "s2 = (set_hptr p (hptr s bp) (set_hsize p (hsize s p + hsize s bp) s))\<lparr>freep := p\<rparr>"
      using True block_end_eq[OF top, of bp] header_simps(3)[OF ap mem(1,2)] by (simp add: s2_def join_lower_def Let_def)
    have hp: "hptr s2 a = (if a = p then hptr s bp else hptr s a)" and hs: "hsize s2 a = (if a = p then hsize s p + hsize s bp else hsize s a)"
      if "a \<in> insert (base s) ?B" for a
      using header_simps[OF ap mem(1) that] by (simp_all add: j)
    have m: "blocks_ok s2 (?B - {bp})" "hi s2 p = hi s bp" "block s2 p = block s p \<union> block s bp"
      using blocks_merge[OF D(1), of p bp s2] True hs pF fld by auto
    have eB: "?B - {bp} = F \<union> A" using D(2) by auto
    have hc: "hi s2 a = hi s a" if "a \<in> F" "a \<noteq> p" for a using hs[of a] that by (intro hi_cong) auto
    have bc: "block s2 a = block s a" if "a \<in> F" "a \<noteq> p" for a using hc that by (simp add: block_def)
    have adj: "hi s2 a \<noteq> unat b" if "a \<in> F" "b \<in> F" for a b
      using D(10,11) that hc m(2) by (cases "a = p") auto
    have C: "circle s2 ?R"
      unfolding circle_def fld
    proof
      fix a assume a: "a \<in> ?R"
      show "is_next (base s) ?R a (hptr s2 a)" using hp[OF mem(3)[OF a]] D(6) D(8)[OF a] by (cases "a = p") simp_all
    qed
    have "heap_inv s2 F A"
      unfolding heap_inv_def fld
    proof (intro conjI)
      show "blocks_ok s2 (F \<union> A)" using m(1) unfolding eB .
      show "circle s2 ?R" by (rule C)
      show "hsize s2 (base s) = 0" using hs[of "base s"] pF B(2) D(9) by auto
    qed (use D(3,4) adj in auto)
    moreover have "free_bytes s2 F = free_bytes s F \<union> block s bp" using bc pF m(3) by (auto simp: free_bytes_def)
    moreover have "hsize s2 a = hsize s a" if "a \<in> A" for a using hs[of a] that pA by auto
    ultimately show ?thesis using pF m(3) by (intro exI[of _ F]) auto
  next
    case False
    have j: "s2 = (set_hptr p bp s)\<lparr>freep := p\<rparr>"
      using False block_end_eq[OF top, of bp] by (simp add: s2_def join_lower_def Let_def)
    have hp: "hptr s2 a = (if a = p then bp else hptr s a)" and hs: "hsize s2 a = hsize s a"
      if "a \<in> insert (base s) ?B" for a
      using header_simps[OF ap mem(1) that] by (simp_all add: j)
    have hc: "hi s2 a = hi s a" if "a \<in> ?B" for a using hs[of a] that by (intro hi_cong) auto
    have bc: "block s2 a = block s a" if "a \<in> ?B" for a using hc that by (simp add: block_def)
    note ins = is_next_insert[OF D(6,4,5,7) least]
    have ib: "insert (base s) (insert bp F) = insert bp ?R" by auto
    have C: "circle s2 (insert bp ?R)"
      unfolding circle_def fld
    proof
      fix a assume a: "a \<in> insert bp ?R"
      then consider "a = p" | "a = bp" "a \<noteq> p" | "a \<in> ?R" "a \<noteq> p" "a \<noteq> bp" by blast
      then show "is_next (base s) (insert bp ?R) a (hptr s2 a)"
      proof cases
        case 1
        then show ?thesis using ins(1) hp[OF mem(1)] by simp
      next
        case 2
        then show ?thesis using ins(2) hp[OF mem(2)] by simp
      next
        case 3
        then show ?thesis using ins(4)[OF D(8)[OF 3(1,2)] 3(1,2)] hp[OF mem(3)[OF 3(1)]] by simp
      qed
    qed
    have adj: "hi s2 a \<noteq> unat b" if "a \<in> insert bp F" "b \<in> insert bp F" for a b
    proof -
      have "hi s a \<noteq> unat bp" if "a \<in> F"
      proof
        assume e: "hi s a = unat bp"
        have "a < bp" using B(6)[of a] that e by (simp add: word_less_nat_alt)
        have "\<not> p < a"
        proof
          assume pa: "p < a"
          then have "p < hptr s bp \<and> hptr s bp \<le> a" using D(6) that by (force simp: is_next_def)
          then show False using D(7) \<open>a < bp\<close> by auto
        qed
        moreover have "a \<noteq> p" using e False by blast
        ultimately have "a < p" by simp
        then have "p \<in> F" using D(4) base_less[OF D(1), of a] that by auto
        then have "hi s a \<le> unat p" using B(8)[of a p] that \<open>a < p\<close> by simp
        then show False using e D(5) by (simp add: word_less_nat_alt)
      qed
      moreover have "hi s bp \<noteq> unat bp" using B(6)[of bp] by simp
      moreover have "hi s2 a = hi s a" using hc that(1) by blast
      ultimately show ?thesis using that D(10,11) by auto
    qed
    have "heap_inv s2 (insert bp F) A"
      unfolding heap_inv_def fld ib
    proof (intro conjI)
      show "blocks_ok s2 (insert bp F \<union> A)" using blocks_ok_cong[OF D(1) fld(1,2)] hs by simp
      show "circle s2 (insert bp ?R)" by (rule C)
      show "hsize s2 (base s) = 0" using hs[of "base s"] D(9) by simp
    qed (use D(2-4) adj in auto)
    moreover have "free_bytes s2 (insert bp F) = free_bytes s F \<union> block s bp" using bc by (auto simp: free_bytes_def)
    moreover have "hsize s2 a = hsize s a" if "a \<in> A" for a using hs[of a] that by auto
    ultimately show ?thesis using bc by (intro exI[of _ "insert bp F"]) auto
  qed
qed

text \<open>Only headers are written.\<close>

definition header :: "uint \<Rightarrow> uint set" where
  "header p = {x. unat p \<le> unat x \<and> unat x < unat p + 8}"

lemma span_4_header:
  assumes "unat p + 8 < 2 ^ 32" "span p 4 x \<or> span (p + 4) 4 x"
  shows "x \<in> header p"
proof -
  obtain i where i: "x = p + i" "unat i < 8"
  proof (cases "span p 4 x")
    case True
    then show ?thesis using that[of "x - p"] by (simp add: span_def)
  next
    case False
    then have s: "unat (x - (p + 4)) < 4" using assms(2) by (simp add: span_def)
    then have "unat ((x - (p + 4)) + 4) = unat (x - (p + 4)) + 4" by (subst unat_add_small) simp_all
    then show ?thesis using that[of "(x - (p + 4)) + 4"] s by simp
  qed
  then have "unat x = unat p + unat i" using assms(1) by (simp only: i(1)) (subst unat_add_small; simp)
  then show ?thesis using i(2) by (simp add: header_def)
qed

lemma header_writes:
  assumes "unat p + 8 < 2 ^ 32" "x \<notin> header p"
  shows "umem (set_hptr p v s) x = umem s x" "umem (set_hsize p v s) x = umem s x"
proof -
  have "\<not> span p 4 x" "\<not> span (p + 4) 4 x" using span_4_header[OF assms(1), of x] assms(2) by blast+
  then show "umem (set_hptr p v s) x = umem s x" "umem (set_hsize p v s) x = umem s x"
    by (simp_all add: set_hptr_def set_hsize_def store32_outside)
qed

lemma join_memory:
  "unat bp + 8 < 2 ^ 32 \<Longrightarrow> x \<notin> header bp \<Longrightarrow> umem (join_upper bp p s) x = umem s x"
  "unat p + 8 < 2 ^ 32 \<Longrightarrow> x \<notin> header p \<Longrightarrow> umem (join_lower bp p s) x = umem s x"
  by (simp_all add: join_upper_def join_lower_def Let_def header_writes)

lemma header_in_block: "blocks_ok s B \<Longrightarrow> a \<in> B \<Longrightarrow> header a \<subseteq> block s a"
  using blocks_okD(6)[of s B a] by (auto simp: header_def block_def)

lemma base_header_eq: "base_header s = header (base s)"
  by (simp add: base_header_def header_def)

text \<open>What the operations keep: the sizes of the blocks \<open>A\<close>, and the bytes outside \<open>Z\<close>.\<close>

definition keeps :: "uheap \<Rightarrow> uint set \<Rightarrow> uheap \<Rightarrow> uint set \<Rightarrow> bool" where
  "keeps s A s' Z \<longleftrightarrow> base s' = base s \<and> (\<forall>a\<in>A. hsize s' a = hsize s a) \<and>
     (\<forall>x. x \<notin> Z \<union> base_header s \<longrightarrow> umem s' x = umem s x)"

lemma free_spec:
  assumes I: "heap_inv s F (insert bp A)" and bA: "bp \<notin> A"
  shows "\<exists>s' F'. free (bp + HDR) s = Some s' \<and> heap_inv s' F' A \<and> brk s' = brk s \<and> keeps s A s' (free_bytes s' F') \<and>
    free_bytes s' F' = free_bytes s F \<union> block s bp \<and> (\<exists>b\<in>F'. block s bp \<subseteq> block s' b)"
proof -
  let ?R = "insert (base s) F"
  note D = heap_invD[OF I]
  define p where "p = place ?R bp"
  have b: "base s < bp" "bp \<notin> ?R" using base_less[OF D(1), of bp] D(2) by auto
  have "free_place bp (freep s) s = Some p" using free_place_finds(1)[OF D(3,7,8) _ b D(4)] by (simp add: p_def)
  then have fr: "free (bp + HDR) s = Some ((join_lower bp p (join_upper bp p s))\<lparr>freep := p\<rparr>)" by (simp add: free_joins)
  obtain F1 where 1: "detached (join_upper bp p s) bp p F1 A" "free_bytes (join_upper bp p s) F1 \<union> block (join_upper bp p s) bp = free_bytes s F \<union> block s bp"
    "block s bp \<subseteq> block (join_upper bp p s) bp" "\<forall>a\<in>insert (base s) (F1 \<union> A). hsize (join_upper bp p s) a = hsize s a"
    using join_upper_spec[OF I bA p_def] by blast
  let ?s' = "(join_lower bp p (join_upper bp p s))\<lparr>freep := p\<rparr>"
  obtain F2 where 2: "heap_inv ?s' F2 A" "free_bytes ?s' F2 = free_bytes (join_upper bp p s) F1 \<union> block (join_upper bp p s) bp"
    "\<exists>b\<in>F2. block (join_upper bp p s) bp \<subseteq> block ?s' b" "\<forall>a\<in>A. hsize ?s' a = hsize (join_upper bp p s) a"
    using join_lower_spec[OF 1(1)] by blast
  have p: "p \<in> ?R" using place_props(1)[OF D(7), of "base s" bp] b by (simp add: p_def)
  have small: "unat a + 8 < 2 ^ 32" if "a \<in> insert (base s) (F \<union> insert bp A)" for a
    using that blocks_okD(6,7,10,11)[OF D(1)] by fastforce
  have "header p \<subseteq> base_header s \<union> free_bytes s F"
    using p header_in_block[OF D(1), of p] by (auto simp: base_header_eq free_bytes_def)
  moreover have "header bp \<subseteq> block s bp" by (rule header_in_block[OF D(1)]) simp
  ultimately have "umem ?s' x = umem s x" if "x \<notin> free_bytes ?s' F2 \<union> base_header s" for x
  proof -
    have "x \<notin> header p" "x \<notin> header bp" using that \<open>header p \<subseteq> _\<close> \<open>header bp \<subseteq> _\<close> unfolding 2(2) 1(2) by blast+
    moreover have "unat p + 8 < 2 ^ 32" using small p by blast
    ultimately show ?thesis using join_memory(1)[of bp x p s] join_memory(2)[of p x bp] small[of bp] by simp
  qed
  then have "keeps s A ?s' (free_bytes ?s' F2)" using 1(4) 2(4) by (simp add: keeps_def)
  moreover have "\<exists>b\<in>F2. block s bp \<subseteq> block ?s' b" using 2(3) 1(3) by blast
  moreover have "free_bytes ?s' F2 = free_bytes s F \<union> block s bp" by (simp only: 2(2) 1(2))
  ultimately show ?thesis using fr 2(1) by (intro exI[of _ ?s'] exI[of _ F2]) simp
qed

section \<open>malloc\<close>

text \<open>A block of \<open>n\<close> units is carved from the free ones.\<close>

definition carved :: "uheap \<Rightarrow> uint set \<Rightarrow> uint set \<Rightarrow> uint \<Rightarrow> uint \<Rightarrow> uheap \<Rightarrow> uint set \<Rightarrow> bool" where
  "carved s F A n bp s' F' \<longleftrightarrow> heap_inv s' F' (insert bp A) \<and> bp \<notin> A \<and> hsize s' bp = n \<and> block s' bp \<subseteq> free_bytes s F \<and>
     free_bytes s' F' = free_bytes s F - block s' bp \<and> brk s' = brk s \<and> keeps s A s' (free_bytes s F)"

lemma block_disjoint:
  assumes "blocks_ok s B" "a \<in> B" "b \<in> B" "a \<noteq> b"
  shows "block s a \<inter> block s b = {}"
proof -
  have "hi s a \<le> unat b \<or> hi s b \<le> unat a"
    using blocks_okD(8)[OF assms(1,2,3)] blocks_okD(8)[OF assms(1,3,2)] assms(4) by (meson less_linear)
  then show ?thesis by (auto simp: block_def)
qed

lemma hi_neq_self: "blocks_ok s B \<Longrightarrow> a \<in> B \<Longrightarrow> hi s a \<noteq> unat a"
  using blocks_okD(6)[of s B a] by simp

lemma carve_exact:
  assumes I: "heap_inv s F A" and p: "p \<in> F" "hsize s p = n" and v: "v \<in> insert (base s) F" "hptr s v = p"
  shows "fst (carve n v p s) = p + HDR \<and> carved s F A n p (snd (carve n v p s)) (F - {p})"
proof -
  let ?R = "insert (base s) F"
  note D = heap_invD[OF I]
  note ap = blocks_apart[OF D(1)]
  have mem: "v \<in> insert (base s) (F \<union> A)" "p \<in> insert (base s) (F \<union> A)" "\<And>a. a \<in> ?R \<Longrightarrow> a \<in> insert (base s) (F \<union> A)"
    using v(1) p(1) by auto
  have nx: "is_next (base s) ?R a (hptr s a)" if "a \<in> ?R" for a using D(3) that unfolding circle_def by blast
  have pb: "p \<noteq> base s" using base_less[OF D(1), of p] p(1) by auto
  have vp: "v < p" "\<forall>c\<in>?R. v < c \<longrightarrow> p \<le> c" using nx[OF v(1)] pb unfolding v(2) is_next_def by auto
  define s' where "s' = (set_hptr v (hptr s p) s)\<lparr>freep := v\<rparr>"
  have c: "carve n v p s = (p + HDR, s')" using p(2) by (simp add: carve_def Let_def s'_def)
  have hp: "hptr s' a = (if a = v then hptr s p else hptr s a)" and hs: "hsize s' a = hsize s a" if "a \<in> insert (base s) (F \<union> A)" for a
    using header_simps[OF ap mem(1) that] by (simp_all add: s'_def)
  have fld: "base s' = base s" "brk s' = brk s" "freep s' = v" by (simp_all add: s'_def)
  have hc: "hi s' a = hi s a" if "a \<in> F \<union> A" for a using hs[of a] that by (intro hi_cong) auto
  have bc: "block s' a = block s a" if "a \<in> F \<union> A" for a using hc[OF that] by (simp add: block_def)
  have R: "insert (base s) (F - {p}) = ?R - {p}" using pb by auto
  have "is_next (base s) (?R - {p}) a (hptr s' a)" if a: "a \<in> ?R - {p}" for a
  proof (cases "a = v")
    case True
    then show ?thesis using is_next_skip[OF nx[OF v(1), unfolded v(2)] nx pb D(8)] p(1) hp[OF mem(1)] by simp
  next
    case False
    have "hptr s a \<noteq> p"
    proof
      assume e: "hptr s a = p"
      have "a < p" "\<forall>c\<in>?R. a < c \<longrightarrow> p \<le> c" using nx[of a] a pb unfolding e is_next_def by auto
      then show False using vp v(1) a False by (metis Diff_iff leD linorder_neqE)
    qed
    then show ?thesis using is_next_remove[OF nx, of a p] a hp[of a] mem(3)[of a] False by auto
  qed
  then have C: "circle s' (insert (base s') (F - {p}))" unfolding circle_def fld R by blast
  have "heap_inv s' (F - {p}) (insert p A)"
    unfolding heap_inv_def
  proof (intro conjI)
    have e: "F - {p} \<union> insert p A = F \<union> A" using p(1) by auto
    show "blocks_ok s' (F - {p} \<union> insert p A)" unfolding e by (rule blocks_ok_cong[OF D(1) fld(1,2)]) (use hs in auto)
    show "(F - {p}) \<inter> insert p A = {}" using D(2) by auto
    show "freep s' \<in> insert (base s') (F - {p})" using v(1) vp(1) by (auto simp: fld)
    show "hsize s' (base s') = 0" using hs[of "base s"] D(5) by (simp add: fld)
    show "\<forall>a\<in>F - {p}. \<forall>b\<in>F - {p}. hi s' a \<noteq> unat b" using D(6) hc by auto
  qed (rule C)
  moreover have "free_bytes s' (F - {p}) = free_bytes s F - block s' p"
    using block_disjoint[OF D(1)] p(1) bc by (auto simp: free_bytes_def)
  moreover have "keeps s A s' (free_bytes s F)"
  proof -
    have "unat v + 8 < 2 ^ 32" using v(1) blocks_okD(6,7,10,11)[OF D(1)] by fastforce
    moreover have "header v \<subseteq> base_header s \<union> free_bytes s F"
      using v(1) header_in_block[OF D(1), of v] by (auto simp: base_header_eq free_bytes_def)
    ultimately have "umem s' x = umem s x" if "x \<notin> free_bytes s F \<union> base_header s" for x
      using header_writes(1)[of v x "hptr s p" s] that by (auto simp: s'_def)
    then show ?thesis using hs by (simp add: keeps_def fld)
  qed
  ultimately show ?thesis
    using p bc hs[of p] fld D(2) unfolding c carved_def by (auto simp: free_bytes_def)
qed

lemma carve_tail:
  assumes I: "heap_inv s F A" and p: "p \<in> F" "0 < n" "n < hsize s p" and v: "v \<in> insert (base s) F"
  defines "b \<equiv> p + HDR * (hsize s p - n)"
  shows "fst (carve n v p s) = b + HDR \<and> carved s F A n b (snd (carve n v p s)) F"
proof -
  let ?R = "insert (base s) F"
  note D = heap_invD[OF I]
  have pB: "p \<in> F \<union> A" using p(1) by simp
  note P = split_point[OF D(1) pB p(2,3) b_def[THEN meta_eq_to_obj_eq]]
  note ap = P(7)
  have mem: "p \<in> insert b (insert (base s) (F \<union> A))" "b \<in> insert b (insert (base s) (F \<union> A))" using p(1) by auto
  define s' where "s' = (set_hsize b n (set_hsize p (hsize s p - n) s))\<lparr>freep := v\<rparr>"
  have "hsize (set_hsize p (hsize s p - n) s) p = hsize s p - n" using header_simps(4)[OF ap mem(1) mem(1)] by simp
  then have c: "carve n v p s = (b + HDR, s')" using p(3) by (simp add: carve_def Let_def s'_def b_def)
  have pb: "p \<noteq> b" "b \<noteq> base s" "b \<notin> F" "b \<notin> A" using P(6) pB by auto
  have hp: "hptr s' a = hptr s a" and hs: "hsize s' a = (if a = b then n else if a = p then hsize s p - n else hsize s a)"
    if "a \<in> insert b (insert (base s) (F \<union> A))" for a
    using header_simps[OF ap mem(1) that] header_simps[OF ap mem(2) that] by (simp_all add: s'_def)
  have fld: "base s' = base s" "brk s' = brk s" "freep s' = v" by (simp_all add: s'_def)
  have S: "blocks_ok s' (insert b (F \<union> A))" "hi s' p = unat b" "hi s' b = hi s p" "block s p = block s' p \<union> block s' b"
  proof -
    have sz: "hsize s' p = hsize s p - n" "hsize s' b = n" using hs[OF mem(1)] hs[OF mem(2)] pb(1) by simp_all
    have "hsize s' c = hsize s c" if "c \<in> F \<union> A" "c \<noteq> p" for c using hs[of c] that pb by auto
    note X = blocks_split[OF D(1) pB p(2,3) b_def[THEN meta_eq_to_obj_eq] fld(1,2) sz this]
    show "blocks_ok s' (insert b (F \<union> A))" "hi s' p = unat b" "hi s' b = hi s p" "block s p = block s' p \<union> block s' b"
      by (rule X; assumption)+
  qed
  have hc: "hi s' a = hi s a" if "a \<in> F \<union> A" "a \<noteq> p" for a using hs[of a] that pb by (intro hi_cong) auto
  have bc: "block s' a = block s a" if "a \<in> F" "a \<noteq> p" for a using hc that by (simp add: block_def)
  have adj: "hi s' a \<noteq> unat c" if "a \<in> F" "c \<in> F" for a c
  proof (cases "a = p")
    case True
    have "b \<noteq> c" using that(2) pb(3) by blast
    then show ?thesis using S(2) unfolding True word_unat_eq_iff by simp
  next
    case False
    then show ?thesis using hc[of a] D(6) that by simp
  qed
  have pA: "p \<notin> A" using D(2) p(1) by auto
  have "heap_inv s' F (insert b A)"
    unfolding heap_inv_def fld
  proof (intro conjI)
    have e: "F \<union> insert b A = insert b (F \<union> A)" by auto
    show "blocks_ok s' (F \<union> insert b A)" unfolding e by (rule S(1))
    show "F \<inter> insert b A = {}" using D(2) pb by auto
    show "circle s' ?R" using D(3) hp unfolding circle_def fld by auto
    show "hsize s' (base s) = 0" using hs[of "base s"] pb pB blocks_okD(2)[OF D(1)] D(5) by auto
  qed (use v adj in auto)
  moreover have sub: "block s' b \<subseteq> free_bytes s F" using S(4) p(1) by (auto simp: free_bytes_def)
  moreover have "free_bytes s' F = free_bytes s F - block s' b"
  proof -
    have "block s' a \<inter> block s' b = {}" if "a \<in> F" for a using block_disjoint[OF S(1), of a b] that pb by auto
    then have d: "free_bytes s' F \<inter> block s' b = {}" by (auto simp: free_bytes_def)
    have "free_bytes s F = block s p \<union> (\<Union>a\<in>F - {p}. block s a)" "free_bytes s' F = block s' p \<union> (\<Union>a\<in>F - {p}. block s' a)"
      using p(1) by (auto simp: free_bytes_def)
    moreover have "(\<Union>a\<in>F - {p}. block s a) = (\<Union>a\<in>F - {p}. block s' a)" by (rule SUP_cong) (simp_all add: bc)
    ultimately have "free_bytes s F = free_bytes s' F \<union> block s' b" using S(4) by (simp add: Un_ac)
    then show ?thesis using d by blast
  qed
  moreover have "keeps s A s' (free_bytes s F)"
  proof -
    have "unat p + 8 < 2 ^ 32" "unat b + 8 < 2 ^ 32" using P(2,3) hi_below[OF D(1) pB] by simp_all
    moreover have "header p \<subseteq> free_bytes s F" using header_in_block[OF D(1) pB] p(1) by (auto simp: free_bytes_def)
    moreover have "header b \<subseteq> free_bytes s F" using header_in_block[OF S(1), of b] sub by auto
    ultimately have "umem s' x = umem s x" if "x \<notin> free_bytes s F" for x
    proof -
      have "x \<notin> header p" "x \<notin> header b" using that \<open>header p \<subseteq> _\<close> \<open>header b \<subseteq> _\<close> by blast+
      then show ?thesis
        using header_writes(2)[OF \<open>unat p + 8 < _\<close>] header_writes(2)[OF \<open>unat b + 8 < _\<close>] by (simp add: s'_def)
    qed
    moreover have "hsize s' a = hsize s a" if "a \<in> A" for a using hs[of a] that pA pb by auto
    ultimately show ?thesis by (simp add: keeps_def fld)
  qed
  ultimately show ?thesis
    using pb hs[of b] fld unfolding c carved_def by auto
qed

lemma freep_nonzero:
  assumes "heap_inv s F A"
  shows "freep s \<noteq> 0"
proof (cases "freep s = base s")
  case True
  then show ?thesis using blocks_okD(3)[OF heap_invD(1)[OF assms]] by simp
next
  case False
  then have "base s < freep s" using base_less[OF heap_invD(1)[OF assms], of "freep s"] heap_invD(4)[OF assms] by simp
  then show ?thesis by auto
qed

text \<open>The kernel gives no memory beyond \<open>KERNBASE\<close>.\<close>

definition grant_ok :: "(uint \<Rightarrow> uint \<Rightarrow> bool) \<Rightarrow> bool" where
  "grant_ok grant \<longleftrightarrow> (\<forall>b n. grant b n \<longrightarrow> unat b + unat n < 2 ^ 31)"

definition asked :: "uint \<Rightarrow> uint" where
  "asked nu = (if nu < 4096 then 4096 else nu)"

lemma morecore_denied: "\<not> grant (brk s) (asked nu * HDR) \<Longrightarrow> morecore grant nu s = Some (0, s)"
  by (simp add: morecore_def sbrk_def asked_def Let_def)

lemma morecore_spec:
  assumes I: "heap_inv s F A" and g: "grant (brk s) (asked nu * HDR)" "grant_ok grant" and n: "8 * unat nu < 2 ^ 31"
  shows "\<exists>s' F'. morecore grant nu s = Some (freep s', s') \<and> heap_inv s' F' A \<and> freep s' \<noteq> 0 \<and> (\<exists>b\<in>F'. nu \<le> hsize s' b) \<and>
    keeps s A s' (free_bytes s' F')"
proof -
  note D = heap_invD[OF I]
  note B = blocks_okD[OF D(1)]
  let ?g = "asked nu" and ?b = "brk s"
  define s1 where "s1 = set_hsize ?b ?g (s\<lparr>brk := ?b + ?g * HDR\<rparr>)"
  have ng: "nu \<le> ?g" by (simp add: asked_def less_imp_le)
  have gs: "8 * unat ?g < 2 ^ 31" "0 < unat ?g" using n by (auto simp: asked_def word_less_nat_alt)
  have m: "unat (?g * HDR) = 8 * unat ?g" using unat_HDR_mult[of ?g] gs(1) by (simp add: mult.commute)
  have top: "unat ?b + 8 * unat ?g < 2 ^ 31" using g unfolding grant_ok_def m[symmetric] by blast
  have ub: "unat (?b + ?g * HDR) = unat ?b + 8 * unat ?g" using top m by (subst unat_add_small) simp_all
  have "unat (?b + 1) = unat ?b + 1" using B(10) by (subst unat_add_small) simp_all
  then have nb: "?b \<noteq> -1" by (intro notI) simp
  have far: "unat c + 8 \<le> unat ?b" if "c \<in> insert (base s) (F \<union> A)" for c
    using that B(6,7)[of c] B(11) by auto
  have ap: "apart (insert ?b (insert (base s) (F \<union> A)))"
    by (rule apart_insert[OF blocks_apart[OF D(1)] B(9,10)]) (use far in blast)
  have bn: "?b \<notin> insert (base s) (F \<union> A)" using far by fastforce
  have hp: "hptr s1 a = hptr s a" and hs: "hsize s1 a = hsize s a" if "a \<in> insert (base s) (F \<union> A)" for a
    using header_simps(3,4)[OF ap, of ?b a ?g "s\<lparr>brk := ?b + ?g * HDR\<rparr>"] that bn by (auto simp: s1_def)
  have hb: "hsize s1 ?b = ?g" using header_simps(4)[OF ap, of ?b ?b ?g "s\<lparr>brk := ?b + ?g * HDR\<rparr>"] by (simp add: s1_def)
  have fld: "base s1 = base s" "freep s1 = freep s" "brk s1 = ?b + ?g * HDR" by (simp_all add: s1_def)
  have hc: "hi s1 a = hi s a" if "a \<in> F \<union> A" for a using hs[of a] that by (intro hi_cong) auto
  have top1: "hi s1 ?b = unat (brk s1)" by (simp only: hi_def hb fld ub)
  have ok: "blocks_ok s1 (insert ?b (F \<union> A))"
    unfolding blocks_ok_def fld(1)
  proof (intro conjI)
    show "finite (insert ?b (F \<union> A))" "base s \<notin> insert ?b (F \<union> A)" "base s \<noteq> 0" using B(1-3) bn by auto
    show "\<forall>a\<in>insert (base s) (insert ?b (F \<union> A)). aligned4 a" using B(4,9) by auto
    show "aligned4 (brk s1)" by (rule aligned4_add_mult8[OF B(9)]) (simp add: fld ub)
    show "unat (brk s1) < 2 ^ 31" "unat (base s) + 8 \<le> unat (brk s1)" using top B(11) by (simp_all add: fld(3) ub)
    show "\<forall>a\<in>insert ?b (F \<union> A). unat (base s) + 8 \<le> unat a \<and> unat a + 8 \<le> hi s1 a \<and> hi s1 a \<le> unat (brk s1)"
      using B(5-7,11) hc top1 gs(2) by (auto simp: fld(3) ub intro: le_trans trans_le_add1)
    show "\<forall>a\<in>insert ?b (F \<union> A). \<forall>c\<in>insert ?b (F \<union> A). a < c \<longrightarrow> hi s1 a \<le> unat c"
      using B(7,8) hc far by (fastforce simp: word_less_nat_alt)
  qed
  have I1: "heap_inv s1 F (insert ?b A)"
    unfolding heap_inv_def fld(1,2)
  proof (intro conjI)
    show "blocks_ok s1 (F \<union> insert ?b A)" using ok by simp
    show "F \<inter> insert ?b A = {}" using D(2) bn by auto
    show "circle s1 (insert (base s) F)" using D(3) hp unfolding circle_def fld by auto
    show "hsize s1 (base s) = 0" using hs[of "base s"] D(5) by simp
    show "\<forall>a\<in>F. \<forall>b\<in>F. hi s1 a \<noteq> unat b" using D(6) hc by auto
  qed (rule D(4))
  obtain s' F' where f: "free (?b + HDR) s1 = Some s'" "heap_inv s' F' A" "keeps s1 A s' (free_bytes s' F')"
    "free_bytes s' F' = free_bytes s1 F \<union> block s1 ?b" "\<exists>b\<in>F'. block s1 ?b \<subseteq> block s' b"
    using free_spec[OF I1] bn by blast
  have "morecore grant nu s = Some (freep s', s')"
    using g(1) nb f(1) by (simp add: morecore_def sbrk_def asked_def[symmetric] Let_def s1_def)
  moreover have "freep s' \<noteq> 0" by (rule freep_nonzero[OF f(2)])
  moreover have "\<exists>b\<in>F'. nu \<le> hsize s' b"
  proof -
    obtain c where c: "c \<in> F'" "block s1 ?b \<subseteq> block s' c" using f(5) by blast
    have "?b \<in> block s1 ?b" using gs(2) by (simp add: block_def hi_def hb)
    then have l: "unat c \<le> unat ?b" using c(2) by (auto simp: block_def)
    define x where "x = ?b + (?g * HDR - 1)"
    have "unat (?g * HDR - 1) = 8 * unat ?g - 1" using gs(2) m by (subst unat_sub) (auto simp: word_le_nat_alt)
    then have "unat x = unat ?b + 8 * unat ?g - 1" using top gs(2) by (simp add: x_def) (subst unat_add_small; simp)
    then have "x \<in> block s1 ?b" "unat x = unat ?b + 8 * unat ?g - 1" using gs(2) by (simp_all add: block_def hi_def hb)
    then have "x \<in> block s' c" "unat x = unat ?b + 8 * unat ?g - 1" using c(2) by blast+
    then have "unat ?b + 8 * unat ?g - 1 < hi s' c" by (simp add: block_def)
    then have "unat ?g \<le> unat (hsize s' c)" using l by (simp add: hi_def)
    then have "nu \<le> hsize s' c" using ng by (simp add: word_le_nat_alt)
    then show ?thesis using c(1) by blast
  qed
  moreover have "keeps s A s' (free_bytes s' F')"
  proof -
    have "header ?b \<subseteq> block s1 ?b" by (rule header_in_block[OF ok]) simp
    then have "umem s1 x = umem s x" if "x \<notin> free_bytes s' F'" for x
      using header_writes(2)[of ?b x ?g "s\<lparr>brk := ?b + ?g * HDR\<rparr>"] B(10) that by (auto simp: s1_def f(4))
    then show ?thesis using f(3) hs by (simp add: keeps_def fld base_header_def)
  qed
  ultimately show ?thesis using f(2) by blast
qed

text \<open>The search: it takes a block that is large enough, or has seen the whole rest of the circle.\<close>

definition search_more :: "(uint \<Rightarrow> uint \<Rightarrow> bool) \<Rightarrow> uint \<Rightarrow> uheap \<Rightarrow> (uint \<times> uheap) option" where
  "search_more grant n s =
     do { (p, s) \<leftarrow> morecore grant n s; if p = 0 then Some (0, s) else malloc_loop grant n p (hptr s p) s }"

definition finds :: "(uint \<Rightarrow> uint \<Rightarrow> bool) \<Rightarrow> uint \<Rightarrow> uint set \<Rightarrow> uheap \<Rightarrow> (uint \<times> uheap) option \<Rightarrow> bool" where
  "finds grant n F s r \<longleftrightarrow>
     (\<exists>v p. p \<in> F \<and> n \<le> hsize s p \<and> v \<in> insert (base s) F \<and> hptr s v = p \<and> r = Some (carve n v p s))"

lemma search_walk:
  assumes I: "heap_inv s F A" and n: "0 < n" and p: "p \<in> insert (base s) F" "v \<in> insert (base s) F" "hptr s v = p"
  shows "finds grant n F s (malloc_loop grant n v p s) \<or>
    (\<forall>c\<in>stretch (insert (base s) F) (freep s) p. hsize s c < n) \<and> malloc_loop grant n v p s = search_more grant n s"
proof -
  let ?R = "insert (base s) F"
  note D = heap_invD[OF I]
  have got: "finds grant n F s (malloc_loop grant n v q s)" if "q \<in> ?R" "n \<le> hsize s q" "v \<in> ?R" "hptr s v = q" for q v
  proof -
    have "q \<noteq> base s" using that(2) n D(5) by auto
    then show ?thesis using that unfolding finds_def by (subst malloc_loop.simps) auto
  qed
  have "\<forall>v\<in>?R. hptr s v = p \<longrightarrow> finds grant n F s (malloc_loop grant n v p s) \<or>
    (\<forall>c\<in>stretch ?R (freep s) p. hsize s c < n) \<and> malloc_loop grant n v p s = search_more grant n s"
    using D(3,7,8,4) p(1)
  proof (induction rule: circle_walk)
    case here
    show ?case
    proof (intro ballI impI)
      fix v assume v: "v \<in> ?R" "hptr s v = freep s"
      show "finds grant n F s (malloc_loop grant n v (freep s) s) \<or>
        (\<forall>c\<in>stretch ?R (freep s) (freep s). hsize s c < n) \<and> malloc_loop grant n v (freep s) s = search_more grant n s"
      proof (cases "n \<le> hsize s (freep s)")
        case True
        then show ?thesis using got[OF D(4) True v] by simp
      next
        case False
        then have "malloc_loop grant n v (freep s) s = search_more grant n s"
          by (subst malloc_loop.simps) (simp add: search_more_def)
        then show ?thesis using False unfolding stretch_self[OF D(4)] by (simp add: not_le)
      qed
    qed
  next
    case (step p)
    show ?case
    proof (intro ballI impI)
      fix v assume v: "v \<in> ?R" "hptr s v = p"
      show "finds grant n F s (malloc_loop grant n v p s) \<or>
        (\<forall>c\<in>stretch ?R (freep s) p. hsize s c < n) \<and> malloc_loop grant n v p s = search_more grant n s"
      proof (cases "n \<le> hsize s p")
        case True
        then show ?thesis using got[OF step(1) True v] by simp
      next
        case False
        have nx: "is_next (base s) ?R p (hptr s p)" using D(3) step(1) unfolding circle_def by blast
        have "stretch ?R (freep s) p = insert p (stretch ?R (freep s) (hptr s p))"
          using stretch_next[OF nx step(1) D(4) step(2) D(8)] by auto
        moreover have "malloc_loop grant n v p s = malloc_loop grant n p (hptr s p) s"
          using False step(2) by (subst malloc_loop.simps) simp
        ultimately show ?thesis using step(1,4) False by auto
      qed
    qed
  qed
  then show ?thesis using p(2,3) by blast
qed

lemma search_all:
  assumes I: "heap_inv s F A" and n: "0 < n"
  shows "finds grant n F s (malloc_loop grant n (freep s) (hptr s (freep s)) s) \<or>
    (\<forall>c\<in>F. hsize s c < n) \<and> malloc_loop grant n (freep s) (hptr s (freep s)) s = search_more grant n s"
proof -
  note D = heap_invD[OF I]
  have nx: "is_next (base s) (insert (base s) F) (freep s) (hptr s (freep s))" using D(3,4) unfolding circle_def by blast
  then have r: "hptr s (freep s) \<in> insert (base s) F" by (simp add: is_next_def)
  show ?thesis using search_walk[OF I n r D(4) refl, of grant] unfolding stretch_all[OF nx D(4,8)] by auto
qed

lemma finds_taken:
  assumes I: "heap_inv s F A" and n: "0 < n" and f: "finds grant n F s r"
  shows "\<exists>bp s' F'. r = Some (bp + HDR, s') \<and> carved s F A n bp s' F'"
proof -
  obtain v p where p: "p \<in> F" "n \<le> hsize s p" "v \<in> insert (base s) F" "hptr s v = p" "r = Some (carve n v p s)"
    using f by (auto simp: finds_def)
  show ?thesis
  proof (cases "hsize s p = n")
    case True
    then show ?thesis using carve_exact[OF I p(1) True p(3,4)] p(5) by (metis prod.collapse)
  next
    case False
    then have "n < hsize s p" using p(2) by simp
    then show ?thesis using carve_tail[OF I p(1) n _ p(3)] p(5) by (metis prod.collapse)
  qed
qed

text \<open>The units for \<open>nbytes\<close> bytes, with the header.\<close>

definition units :: "uint \<Rightarrow> uint" where
  "units nbytes = (nbytes + HDR - 1) div HDR + 1"

lemma unat_units:
  assumes "unat nbytes < 2 ^ 31 - 16"
  shows "unat (units nbytes) = (unat nbytes + 7) div 8 + 1"
proof -
  have "unat (7 + nbytes) = 7 + unat nbytes" using assms by (subst unat_add_small) simp_all
  moreover have "unat (8 :: uint) = 8" by simp
  ultimately have d: "unat ((7 + nbytes) div 8) = (unat nbytes + 7) div 8" by (simp only: unat_div add.commute)
  have "units nbytes = (7 + nbytes) div 8 + 1" by (simp add: units_def HDR_def)
  then show ?thesis using d assms unat_add_small[of "(7 + nbytes) div 8" 1] by simp
qed

text \<open>A heap before the first \<open>malloc\<close> has no circle yet.\<close>

definition uheap_ok :: "uheap \<Rightarrow> uint set \<Rightarrow> uint set \<Rightarrow> bool" where
  "uheap_ok s F A \<longleftrightarrow> heap_inv s F A \<or> freep s = 0 \<and> F = {} \<and> A = {} \<and> blocks_ok s {}"

definition started :: "uheap \<Rightarrow> uheap" where
  "started s = (if freep s = 0 then set_hsize (base s) 0 (set_hptr (base s) (base s) (s\<lparr>freep := base s\<rparr>)) else s)"

lemma started_inv:
  assumes "uheap_ok s F A"
  shows "heap_inv (started s) F A" "brk (started s) = brk s" "keeps s A (started s) {}" "\<And>a. a \<in> F \<Longrightarrow> hsize (started s) a = hsize s a"
proof -
  consider "heap_inv s F A" | "freep s = 0" "F = {}" "A = {}" "blocks_ok s {}" using assms by (auto simp: uheap_ok_def)
  then have "heap_inv (started s) F A \<and> brk (started s) = brk s \<and> keeps s A (started s) {} \<and> (\<forall>a\<in>F. hsize (started s) a = hsize s a)"
  proof cases
    case 1
    then show ?thesis using freep_nonzero[OF 1] by (simp add: started_def keeps_def)
  next
    case 2
    have ap: "apart {base s}" using blocks_apart[OF 2(4)] by simp
    let ?s = "started s"
    have st: "?s = set_hsize (base s) 0 (set_hptr (base s) (base s) (s\<lparr>freep := base s\<rparr>))" using 2(1) by (simp add: started_def)
    have h: "hptr ?s (base s) = base s" "hsize ?s (base s) = 0"
      using header_simps[OF ap singletonI singletonI] by (simp_all add: st)
    have "heap_inv ?s {} {}"
      using blocks_ok_cong[OF 2(4), of ?s] h by (simp add: heap_inv_def circle_def is_next_def st)
    moreover have "umem ?s x = umem s x" if "x \<notin> base_header s" for x
      using that header_writes[of "base s" x] blocks_okD(10,11)[OF 2(4)] by (simp add: st base_header_eq)
    ultimately show ?thesis using 2 by (simp add: keeps_def st)
  qed
  then show "heap_inv (started s) F A" "brk (started s) = brk s" "keeps s A (started s) {}" "\<And>a. a \<in> F \<Longrightarrow> hsize (started s) a = hsize s a"
    by blast+
qed

lemma keeps_trans:
  assumes "keeps s A t Y" "keeps t A u Z" "Y \<subseteq> Z"
  shows "keeps s A u Z"
  using assms unfolding keeps_def base_header_def by (auto simp: subset_iff)

lemma carved_frame: "carved s F A n bp s' F' \<Longrightarrow> keeps s A s' (free_bytes s' F' \<union> block s' bp)"
  unfolding carved_def by (auto simp: keeps_def)

text \<open>
  The result of a successful call: a block for \<open>nbytes\<close> bytes apart from all others, which leaves every
  other allocated byte as it was, and which \<open>free\<close> can give back.
\<close>

definition fresh_block :: "uheap \<Rightarrow> uint set \<Rightarrow> uint \<Rightarrow> uint \<Rightarrow> uheap \<Rightarrow> bool" where
  "fresh_block s A nbytes r s' \<longleftrightarrow>
     (\<exists>F' bp. r = bp + HDR \<and> heap_inv s' F' (insert bp A) \<and> bp \<notin> A \<and> unat bp + 8 + unat nbytes \<le> hi s' bp \<and>
       keeps s A s' (free_bytes s' F' \<union> block s' bp) \<and>
       (\<exists>s'' F''. free r s' = Some s'' \<and> heap_inv s'' F'' A \<and> keeps s' A s'' (free_bytes s'' F'') \<and>
          free_bytes s'' F'' = free_bytes s' F' \<union> block s' bp))"

lemma carved_fresh_block:
  assumes t: "carved x G A n bp s' F'" and k: "keeps s A x (free_bytes x G)" and n: "8 + unat nbytes \<le> 8 * unat n"
  shows "fresh_block s A nbytes (bp + HDR) s'"
proof -
  have I: "heap_inv s' F' (insert bp A)" "bp \<notin> A" "hsize s' bp = n" "free_bytes s' F' \<union> block s' bp = free_bytes x G"
    using t unfolding carved_def by blast+
  have k': "keeps s A s' (free_bytes s' F' \<union> block s' bp)" using keeps_trans[OF k carved_frame[OF t]] unfolding I(4) by blast
  have h: "unat bp + 8 + unat nbytes \<le> hi s' bp" using n by (simp add: hi_def I(3))
  obtain s'' F'' where f: "free (bp + HDR) s' = Some s''" "heap_inv s'' F'' A" "keeps s' A s'' (free_bytes s'' F'')"
    "free_bytes s'' F'' = free_bytes s' F' \<union> block s' bp"
    using free_spec[OF I(1,2)] by blast
  show ?thesis
    unfolding fresh_block_def by (intro exI[of _ F'] exI[of _ bp] exI[of _ s''] exI[of _ F''] conjI refl I(1,2) h k' f)
qed

text \<open>C16: The allocator of the user programs.  For a request below \<open>2 ^ 31 - 16\<close> bytes, \<open>malloc\<close> returns: either 0,
  only if no free block is large enough and the kernel refuses the memory, and then nothing has
  changed; or a block of the requested size, apart from the free blocks and from every block allocated
  before, whose bytes and sizes are unchanged.  Freeing the block gives back exactly its bytes,
  leaves the other allocated blocks as they were, and ends too; the circle of free blocks is in order
  and has no two blocks side by side after either call.\<close>

theorem malloc_free_blocks:
  assumes "uheap_ok s F A" and "grant_ok grant" and "unat nbytes < 2 ^ 31 - 16"
  shows "\<exists>r s'. malloc grant nbytes s = Some (r, s') \<and>
    (r = 0 \<and> \<not> grant (brk s) (asked (units nbytes) * HDR) \<and> (\<forall>b\<in>F. hi s b < unat b + 8 + unat nbytes) \<and>
       heap_inv s' F A \<and> keeps s A s' {} \<or>
     fresh_block s A nbytes r s')"
proof -
  let ?n = "units nbytes" and ?t = "started s"
  note u = unat_units[OF assms(3)]
  have n: "0 < ?n" "8 * unat ?n < 2 ^ 31" "8 + unat nbytes \<le> 8 * unat ?n" using u assms(3) by (auto simp: word_less_nat_alt)
  note T = started_inv[OF assms(1)]
  have m: "malloc grant nbytes s = malloc_loop grant ?n (freep ?t) (hptr ?t (freep ?t)) ?t"
    by (simp add: malloc_def units_def started_def Let_def)
  have ok: ?thesis if f: "finds grant ?n G x (malloc grant nbytes s)" and I: "heap_inv x G A" and k: "keeps s A x (free_bytes x G)" for x G
  proof -
    obtain bp s' F' where m: "malloc grant nbytes s = Some (bp + HDR, s')" "carved x G A ?n bp s' F'"
      using finds_taken[OF I n(1) f] by blast
    show ?thesis using m(1) carved_fresh_block[OF m(2) k n(3)] by blast
  qed
  have kt: "keeps s A ?t (free_bytes ?t F)" using T(3) by (simp add: keeps_def)
  show ?thesis
  proof (cases "finds grant ?n F ?t (malloc grant nbytes s)")
    case True
    then show ?thesis by (rule ok[OF _ T(1) kt])
  next
    case False
    then have none: "\<forall>c\<in>F. hsize ?t c < ?n" and more: "malloc grant nbytes s = search_more grant ?n ?t"
      using search_all[OF T(1) n(1), of grant] unfolding m by blast+
    show ?thesis
    proof (cases "grant (brk s) (asked ?n * HDR)")
      case False
      then have "malloc grant nbytes s = Some (0, ?t)" by (simp add: more search_more_def morecore_denied T(2))
      moreover have "hi s b < unat b + 8 + unat nbytes" if "b \<in> F" for b
      proof -
        have "unat (hsize s b) < unat ?n" using none[rule_format, OF that] unfolding T(4)[OF that] by (simp add: word_less_nat_alt)
        then show ?thesis using u by (simp add: hi_def)
      qed
      ultimately show ?thesis using T(1,3) False by blast
    next
      case True
      then obtain x G where x: "morecore grant ?n ?t = Some (freep x, x)" "heap_inv x G A" "freep x \<noteq> 0" "\<exists>b\<in>G. ?n \<le> hsize x b"
        "keeps ?t A x (free_bytes x G)"
        using morecore_spec[OF T(1) _ assms(2) n(2)] T(2) by auto
      have "malloc grant nbytes s = malloc_loop grant ?n (freep x) (hptr x (freep x)) x"
        using x(1,3) by (simp add: more search_more_def)
      moreover have "\<not> (\<forall>c\<in>G. hsize x c < ?n)" using x(4) by (auto simp: not_less)
      ultimately have "finds grant ?n G x (malloc grant nbytes s)" using search_all[OF x(2) n(1), of grant] by auto
      moreover have "keeps s A x (free_bytes x G)" using keeps_trans[OF T(3) x(5)] by simp
      ultimately show ?thesis by (rule ok[OF _ x(2)])
    qed
  qed
qed

text \<open>The first \<open>malloc\<close> of a process of two pages.\<close>

definition new_heap :: uheap where
  "new_heap = \<lparr>umem = (\<lambda>_. 0), freep = 0, base = 0x1000, brk = 0x2000\<rparr>"

theorem malloc_free_blocks_witness:
  "\<exists>r s'. malloc (\<lambda>b n. unat b + unat n < 2 ^ 31) 10 new_heap = Some (r, s') \<and>
    fresh_block new_heap {} 10 r s'"
proof -
  let ?g = "\<lambda>b n. unat (b :: uint) + unat (n :: uint) < 2 ^ 31"
  have s: "uheap_ok new_heap {} {}" by (simp add: uheap_ok_def new_heap_def blocks_ok_def aligned4_def)
  have g: "grant_ok ?g" by (simp add: grant_ok_def)
  have u: "units 10 = 3" by (simp add: units_def HDR_def)
  have "?g (brk new_heap) (asked (units 10) * HDR)" unfolding u by (simp add: new_heap_def asked_def HDR_def)
  then show ?thesis using malloc_free_blocks[OF s g, of 10] by auto
qed

end
