(* ===== verification/Freevm.thy ===== *)
theory Freevm
  imports CowFork
begin

unbundle bit_operations_syntax

text \<open>
  Giving up an address space: \<open>deallocuvm\<close> and \<open>freevm\<close> drop one reference to every frame that the
  directory maps for the user, and to its tables and itself; the pages without references go back to
  the pool.  After a fork this undoes what \<open>copyuvm\<close> did to the reference counts.
\<close>

section \<open>Dropping references\<close>

definition gone :: "uint set \<Rightarrow> nat \<Rightarrow> int" where
  "gone V i = (if \<exists>v\<in>V. page_index v = i then 1 else 0)"

text \<open>The pages of \<open>V\<close> that have their last reference in \<open>s\<close>.\<close>

definition last_ref :: "vst \<Rightarrow> uint set \<Rightarrow> uint set" where
  "last_ref s V = {v \<in> V. rcount (vk s) (page_index v) = 1}"

text \<open>
  From \<open>s0\<close> to \<open>s\<close> each page of \<open>V\<close> has lost a reference and those that had one have joined the pool;
  the memory outside these pages and \<open>W\<close> is the same.
\<close>

definition dropped :: "nat \<Rightarrow> uint set \<Rightarrow> uint set \<Rightarrow> uint list \<Rightarrow> vst \<Rightarrow> uint list \<Rightarrow> vst \<Rightarrow> bool" where
  "dropped c W V ps0 s0 ps s \<longleftrightarrow>
     vgood c ps s \<and> kend (vk s) = kend (vk s0) \<and> km (vk s) = km (vk s0) \<and> kdata s = kdata s0 \<and> kpgdir s = kpgdir s0 \<and>
     (\<forall>v\<in>V. page_ok (kend (vk s0)) v) \<and> set ps = set ps0 \<union> last_ref s0 V \<and>
     (\<forall>i. rcount (vk s) i = rcount (vk s0) i - gone V i) \<and>
     (\<forall>x. (\<forall>p \<in> W \<union> last_ref s0 V. \<not> in_page p x) \<longrightarrow> vmem s x = vmem s0 x)"

lemma droppedD:
  assumes "dropped c W V ps0 s0 ps s"
  shows "vgood c ps s" "kend (vk s) = kend (vk s0)" "km (vk s) = km (vk s0)" "kdata s = kdata s0" "kpgdir s = kpgdir s0"
    "\<And>v. v \<in> V \<Longrightarrow> page_ok (kend (vk s0)) v" "set ps = set ps0 \<union> last_ref s0 V"
    "\<And>i. rcount (vk s) i = rcount (vk s0) i - gone V i"
    "\<And>x. (\<And>p. p \<in> W \<union> last_ref s0 V \<Longrightarrow> \<not> in_page p x) \<Longrightarrow> vmem s x = vmem s0 x"
  using assms unfolding dropped_def by blast+

lemma dropped_refl: "vgood c ps s \<Longrightarrow> dropped c W {} ps s ps s"
  by (simp add: dropped_def last_ref_def gone_def)

lemma last_ref_insert:
  "last_ref s (insert v V) = (if rcount (vk s) (page_index v) = 1 then insert v (last_ref s V) else last_ref s V)"
  by (auto simp: last_ref_def)

lemma gone_insert:
  assumes "\<And>w. w \<in> V \<Longrightarrow> page_ok e w" "page_ok e v" "v \<notin> V"
  shows "gone (insert v V) i = gone V i + (if i = page_index v then 1 else 0)" "gone V (page_index v) = 0"
proof -
  have "page_index w \<noteq> page_index v" if "w \<in> V" for w
    using page_index_inj[OF assms(1)[OF that] assms(2)] that assms(3) by auto
  then show g: "gone V (page_index v) = 0" by (auto simp: gone_def)
  show "gone (insert v V) i = gone V i + (if i = page_index v then 1 else 0)"
    using g by (cases "i = page_index v") (auto simp: gone_def)
qed

lemma drop_page:
  assumes D: "dropped c W V ps0 s0 ps s" and v: "page_ok (kend (vk s0)) v" "v \<notin> V" "0 < rcount (vk s0) (page_index v)"
  shows "\<exists>ps' s'. on_vk (kfree v) s = Ok () s' \<and> dropped c W (insert v V) ps0 s0 ps' s' \<and>
    (\<forall>x. \<not> in_page v x \<longrightarrow> vmem s' x = vmem s x)"
proof -
  note d = droppedD[OF D]
  have g: "kquiet c (vk s)" "pool_inv ps (vk s)" "ruse (vk s)" using d(1) by (simp_all add: vgood_def)
  have ok: "page_ok (kend (vk s)) v" using v(1) d(2) by simp
  note gi = gone_insert[OF d(6) v(1,2)]
  have r: "rcount (vk s) (page_index v) = rcount (vk s0) (page_index v)" using d(8) gi(2) by simp
  let ?n = "rcount (vk s0) (page_index v)"
  let ?ps = "if ?n = 1 then v # ps else ps"
  obtain t where t: "kfree v (vk s) = Ok () t" "rcount t = (rcount (vk s))(page_index v := ?n - 1)" "pool_inv ?ps t"
    "km t = km (vk s)" "kend t = kend (vk s)" "ruse t = ruse (vk s)" "\<And>x. in_page v x \<or> mem t x = mem (vk s) x"
    "?n \<noteq> 1 \<Longrightarrow> mem t = mem (vk s)"
  proof -
    have nz: "?n \<noteq> 0" using v(3) by simp
    have ne: "0 \<le> rcount (vk s) i" for i using g(2) by (simp add: pool_inv_def)
    note eq = kfree_eq[OF g(1) ok ne]
    define p where "p = \<lparr>pfree = ?ps, pref = (rcount (vk s))(page_index v := ?n - 1)\<rparr>"
    have p: "pool_free v (pool_of ps (vk s)) = Some p" "pfree p = ?ps" "pref p = (rcount (vk s))(page_index v := ?n - 1)"
      using nz r by (simp_all add: p_def pool_free_def pool_of_def Let_def)
    obtain t where T: "kfree v (vk s) = Ok () t" "pool_of (pfree p) t = p" "pool_inv (pfree p) t" "km t = km (vk s)"
      "kend t = kend (vk s)" "ruse t = ruse (vk s)" "\<forall>x. in_page v x \<or> mem t x = mem (vk s) x"
      using kfree_pool[OF g(1-3) ok] p(1) by auto
    have "rcount t = pref p" using arg_cong[OF T(2), of pref] by (simp add: pool_of_def)
    moreover have "mem t = mem (vk s)" if "?n \<noteq> 1" using T(1) eq that nz r g(3) by auto
    ultimately show thesis using that[of t] T p(2,3) by simp
  qed
  let ?s' = "vk_update (\<lambda>_. t) s"
  have "on_vk (kfree v) s = Ok () ?s'" using t(1) by (simp add: zoom_def)
  moreover have "dropped c W (insert v V) ps0 s0 ?ps ?s'"
    unfolding dropped_def
  proof (intro conjI)
    show "vgood c ?ps ?s'" using t(3,4,6) g(1,3) by (simp add: vgood_def kquiet_def)
    show "\<forall>i. rcount (vk ?s') i = rcount (vk s0) i - gone (insert v V) i" using t(2) d(8) gi by auto
    show "set ?ps = set ps0 \<union> last_ref s0 (insert v V)" using d(7) by (auto simp: last_ref_insert)
    show "\<forall>x. (\<forall>p\<in>W \<union> last_ref s0 (insert v V). \<not> in_page p x) \<longrightarrow> vmem ?s' x = vmem s0 x"
    proof (intro allI impI)
      fix x assume x: "\<forall>p\<in>W \<union> last_ref s0 (insert v V). \<not> in_page p x"
      have "mem t x = mem (vk s) x"
        using t(7)[of x] t(8) x by (cases "?n = 1") (auto simp: last_ref_insert)
      moreover have "vmem s x = vmem s0 x" by (rule d(9)) (use x in \<open>auto simp: last_ref_insert split: if_splits\<close>)
      ultimately show "vmem ?s' x = vmem s0 x" by (simp add: vmem_def)
    qed
  qed (use d v t in auto)
  moreover have "\<forall>x. \<not> in_page v x \<longrightarrow> vmem ?s' x = vmem s x" using t(7) by (auto simp: vmem_def)
  ultimately show ?thesis by blast
qed

lemma drop_write:
  assumes D: "dropped c W V ps0 s0 ps s" and t: "t \<in> W" "t \<notin> set ps" "page_ok e t"
    and f: "\<And>x. \<not> in_page t x \<Longrightarrow> f (vmem s) x = vmem s x"
  shows "dropped c W V ps0 s0 ps (set_mem f s)"
proof -
  note d = droppedD[OF D]
  have "vgood c ps (set_mem f s)"
  proof (rule vgood_mem[OF d(1)])
    fix p x assume p: "p \<in> set ps" "in_page p x"
    have "page_ok (kend (vk s)) p" using d(1) p(1) by (simp add: vgood_def pool_inv_def)
    then have "\<not> in_page t x" using pages_disjoint[OF _ t(3) p(2)] p(1) t(2) by blast
    then show "f (vmem s) x = vmem s x" by (rule f)
  qed
  moreover have "vmem (set_mem f s) x = vmem s0 x" if "\<forall>p\<in>W \<union> last_ref s0 V. \<not> in_page p x" for x
    using d(9)[of x] f[of x] that t(1) by (auto simp: set_mem_def vmem_def)
  ultimately show ?thesis using D unfolding dropped_def by simp
qed

section \<open>deallocuvm\<close>

definition present :: "memory \<Rightarrow> uint \<Rightarrow> uint \<Rightarrow> bool" where
  "present m d va \<longleftrightarrow> pte_has (pte_at m d va) PTE_P"

text \<open>The frames that \<open>d\<close> maps at the first \<open>j\<close> pages.\<close>

definition user_frames :: "memory \<Rightarrow> uint \<Rightarrow> nat \<Rightarrow> uint set" where
  "user_frames m d j = frame_at m d ` {va. pageno va < j \<and> present m d va}"

text \<open>
  An address space that can be given up: its directory and tables are its own, each with one
  reference, and below \<open>KERNBASE\<close> it maps different counted frames at different pages.
\<close>

definition space_ok :: "nat \<Rightarrow> uint \<Rightarrow> uint list \<Rightarrow> vst \<Rightarrow> bool" where
  "space_ok c d ps s \<longleftrightarrow> vgood c ps s \<and> dir_ok (kend (vk s)) (vmem s) d \<and> dir_pages (vmem s) d \<inter> set ps = {} \<and>
     (\<forall>p\<in>dir_pages (vmem s) d. rcount (vk s) (page_index p) = 1) \<and>
     (\<forall>va. pageno va < 0x80000 \<and> present (vmem s) d va \<longrightarrow>
        page_ok (kend (vk s)) (frame_at (vmem s) d va) \<and> PTE_ADDR (pte_at (vmem s) d va) \<noteq> 0 \<and>
        frame_at (vmem s) d va \<notin> dir_pages (vmem s) d \<and> 0 < rcount (vk s) (page_index (frame_at (vmem s) d va))) \<and>
     (\<forall>va va'. pageno va < 0x80000 \<longrightarrow> pageno va' < 0x80000 \<longrightarrow> present (vmem s) d va \<longrightarrow> present (vmem s) d va' \<longrightarrow>
        frame_at (vmem s) d va = frame_at (vmem s) d va' \<longrightarrow> pageno va = pageno va')"

lemma space_okD:
  assumes "space_ok c d ps s"
  shows "vgood c ps s" "dir_ok (kend (vk s)) (vmem s) d" "dir_pages (vmem s) d \<inter> set ps = {}"
    "\<And>p. p \<in> dir_pages (vmem s) d \<Longrightarrow> rcount (vk s) (page_index p) = 1"
    "\<And>va. pageno va < 0x80000 \<Longrightarrow> present (vmem s) d va \<Longrightarrow>
        page_ok (kend (vk s)) (frame_at (vmem s) d va) \<and> PTE_ADDR (pte_at (vmem s) d va) \<noteq> 0 \<and>
        frame_at (vmem s) d va \<notin> dir_pages (vmem s) d \<and> 0 < rcount (vk s) (page_index (frame_at (vmem s) d va))"
    "\<And>va va'. pageno va < 0x80000 \<Longrightarrow> pageno va' < 0x80000 \<Longrightarrow> present (vmem s) d va \<Longrightarrow> present (vmem s) d va' \<Longrightarrow>
        frame_at (vmem s) d va = frame_at (vmem s) d va' \<Longrightarrow> pageno va = pageno va'"
  using assms unfolding space_ok_def by blast+

lemma same_page:
  "pageno va = pageno va' \<Longrightarrow> pte_at m d va = pte_at m d va'"
  using pageno_same by (metis pte_at_def)

lemma user_frames_Suc:
  assumes "pageno va = j"
  shows "user_frames m d (Suc j) = (if present m d va then insert (frame_at m d va) (user_frames m d j) else user_frames m d j)"
proof -
  have e: "pte_at m d x = pte_at m d va" if "pageno x = j" for x by (rule same_page) (simp add: that assms)
  then have p: "present m d x \<longleftrightarrow> present m d va" "frame_at m d x = frame_at m d va" if "pageno x = j" for x
    using that unfolding present_def frame_at_def by metis+
  show ?thesis
  proof (intro equalityI subsetI)
    fix f assume "f \<in> user_frames m d (Suc j)"
    then obtain x where x: "pageno x < Suc j" "present m d x" "f = frame_at m d x" by (auto simp: user_frames_def)
    show "f \<in> (if present m d va then insert (frame_at m d va) (user_frames m d j) else user_frames m d j)"
    proof (cases "pageno x = j")
      case True
      then show ?thesis using p[OF True] x by simp
    next
      case False
      then show ?thesis using x by (auto simp: user_frames_def)
    qed
  next
    fix f assume "f \<in> (if present m d va then insert (frame_at m d va) (user_frames m d j) else user_frames m d j)"
    then consider "present m d va" "f = frame_at m d va" | "f \<in> user_frames m d j" by (auto split: if_splits)
    then show "f \<in> user_frames m d (Suc j)"
      by cases (use assms in \<open>auto simp: user_frames_def intro: less_SucI\<close>)
  qed
qed

lemma user_frames_new:
  assumes "space_ok c d ps s" "pageno va < 0x80000" "present (vmem s) d va"
  shows "frame_at (vmem s) d va \<notin> user_frames (vmem s) d (pageno va)"
proof
  assume "frame_at (vmem s) d va \<in> user_frames (vmem s) d (pageno va)"
  then obtain x where x: "pageno x < pageno va" "present (vmem s) d x" "frame_at (vmem s) d x = frame_at (vmem s) d va"
    by (auto simp: user_frames_def)
  then have "pageno x = pageno va" using space_okD(6)[OF assms(1) _ assms(2) x(2) assms(3) x(3)] assms(2) by simp
  then show False using x(1) by simp
qed

text \<open>After the pages below \<open>j\<close>.\<close>

definition released :: "nat \<Rightarrow> uint \<Rightarrow> uint list \<Rightarrow> vst \<Rightarrow> nat \<Rightarrow> uint list \<Rightarrow> vst \<Rightarrow> bool" where
  "released c d ps0 s0 j ps s \<longleftrightarrow>
     dropped c (dir_pages (vmem s0) d) (user_frames (vmem s0) d j) ps0 s0 ps s \<and>
     dir_ok (kend (vk s0)) (vmem s) d \<and> dir_pages (vmem s) d = dir_pages (vmem s0) d \<and>
     (\<forall>i. unat i < 1024 \<longrightarrow> has_table (vmem s) d i = has_table (vmem s0) d i \<and> table_of (vmem s) d i = table_of (vmem s0) d i) \<and>
     (\<forall>va. pte_at (vmem s) d va = (if pageno va < j \<and> present (vmem s0) d va then 0 else pte_at (vmem s0) d va))"

lemma releasedD:
  assumes "released c d ps0 s0 j ps s"
  shows "dropped c (dir_pages (vmem s0) d) (user_frames (vmem s0) d j) ps0 s0 ps s"
    "dir_ok (kend (vk s0)) (vmem s) d" "dir_pages (vmem s) d = dir_pages (vmem s0) d"
    "\<And>i. unat i < 1024 \<Longrightarrow> has_table (vmem s) d i = has_table (vmem s0) d i"
    "\<And>i. unat i < 1024 \<Longrightarrow> table_of (vmem s) d i = table_of (vmem s0) d i"
    "\<And>va. pte_at (vmem s) d va = (if pageno va < j \<and> present (vmem s0) d va then 0 else pte_at (vmem s0) d va)"
  using assms unfolding released_def by blast+

lemma released_0: "space_ok c d ps s \<Longrightarrow> released c d ps s 0 ps s"
  using dropped_refl[of c ps s "dir_pages (vmem s) d"] by (simp add: released_def space_ok_def user_frames_def)

lemma dir_pages_not_pooled:
  assumes S: "space_ok c d ps0 s0" and R: "released c d ps0 s0 j ps s" and j: "j \<le> 0x80000" and p: "p \<in> dir_pages (vmem s0) d"
  shows "p \<notin> set ps"
proof -
  have "p \<notin> user_frames (vmem s0) d j" using space_okD(5)[OF S] p j by (fastforce simp: user_frames_def)
  then show ?thesis using droppedD(7)[OF releasedD(1)[OF R]] space_okD(3)[OF S] p by (auto simp: last_ref_def)
qed

text \<open>A page that is present: its frame is given up and the entry cleared.\<close>

lemma release_page:
  assumes S: "space_ok c d ps0 s0" and R: "released c d ps0 s0 (pageno va) ps s" and va: "pageno va < 0x80000"
    and pr: "present (vmem s0) d va"
  shows "\<exists>ps' s'. on_vk (kfree (P2V (PTE_ADDR (pte_at (vmem s0) d va)))) s = Ok () s' \<and>
    released c d ps0 s0 (Suc (pageno va)) ps' (wr32 (pte_slot (vmem s) d va) 0 s')"
proof -
  note r = releasedD[OF R]
  let ?v = "frame_at (vmem s0) d va" and ?j = "pageno va"
  have v: "page_ok (kend (vk s0)) ?v" "?v \<notin> dir_pages (vmem s0) d" "0 < rcount (vk s0) (page_index ?v)"
    using space_okD(5)[OF S va pr] by simp_all
  obtain ps' t where t: "on_vk (kfree ?v) s = Ok () t" "dropped c (dir_pages (vmem s0) d) (insert ?v (user_frames (vmem s0) d ?j)) ps0 s0 ps' t"
    "\<And>x. \<not> in_page ?v x \<Longrightarrow> vmem t x = vmem s x"
    using drop_page[OF r(1) v(1) user_frames_new[OF S va pr] v(3)] by blast
  have out: "vmem t x = vmem s x" if "p \<in> dir_pages (vmem s) d" "in_page p x" for p x
    using t(3)[of x] pages_disjoint[OF v(1) dir_okD(2)[OF r(2) that(1)] _ that(2)] v(2) that(1) r(3) by blast
  have cg: "unat i < 1024 \<Longrightarrow> has_table (vmem t) d i \<longleftrightarrow> has_table (vmem s) d i"
    "unat i < 1024 \<Longrightarrow> table_of (vmem t) d i = table_of (vmem s) d i" "dir_pages (vmem t) d = dir_pages (vmem s) d"
    "pte_at (vmem t) d va = pte_at (vmem s) d va" "dir_ok e (vmem t) d \<longleftrightarrow> dir_ok e (vmem s) d" for i va e
    by (rule dir_cong; use out in blast)+
  have tab: "has_table (vmem s) d (PDX va)" using pr r(4)[OF PDX_bound] by (auto simp: present_def pte_at_def split: if_splits)
  have tab': "has_table (vmem t) d (PDX va)" using cg(1)[OF PDX_bound] tab by simp
  have ok: "dir_ok (kend (vk s0)) (vmem t) d" using cg(5) r(2) by simp
  have slot: "pte_slot (vmem s) d va = pte_slot (vmem t) d va" using cg(2)[OF PDX_bound] by (simp add: pte_slot_def)
  note st = store_pte[OF ok tab', where w = 0]
  define u where "u = wr32 (pte_slot (vmem s) d va) 0 t"
  have m: "vmem u = store32 (pte_slot (vmem t) d va) 0 (vmem t)" by (simp add: u_def wr32_def slot)
  let ?tp = "table_of (vmem t) d (PDX va)"
  have tp: "?tp \<in> dir_pages (vmem t) d" by (rule dir_pages_simps(2)[OF PDX_bound tab'])
  then have tp0: "?tp \<in> dir_pages (vmem s0) d" using cg(3) r(3) by simp
  have "?tp \<notin> set ps'"
  proof -
    have "?tp \<notin> insert ?v (user_frames (vmem s0) d ?j)"
      using space_okD(5)[OF S] tp0 va pr by (fastforce simp: user_frames_def)
    then show ?thesis using droppedD(7)[OF t(2)] space_okD(3)[OF S] tp0 by (auto simp: last_ref_def)
  qed
  then have dr: "dropped c (dir_pages (vmem s0) d) (insert ?v (user_frames (vmem s0) d ?j)) ps0 s0 ps' u"
    unfolding u_def wr32_def using st(6)
    by (intro drop_write[OF t(2) tp0 _ dir_okD(2)[OF ok tp]]) (simp_all add: slot)
  have "pte_at (vmem u) d x = (if pageno x < Suc ?j \<and> present (vmem s0) d x then 0 else pte_at (vmem s0) d x)" for x
    using st(5)[of x] cg(4)[of x] r(6)[of x] pr same_page[where m = "vmem s0" and d = d and va = x and va' = va]
    by (auto simp: m less_Suc_eq present_def)
  moreover have "dir_pages (vmem u) d = dir_pages (vmem s0) d" using st(3) cg(3) r(3) by (simp add: m)
  moreover have "has_table (vmem u) d i = has_table (vmem s0) d i \<and> table_of (vmem u) d i = table_of (vmem s0) d i" if "unat i < 1024" for i
    using st(1,2)[OF that] cg(1,2)[OF that] r(4,5)[OF that] by (simp add: m)
  moreover have "dir_ok (kend (vk s0)) (vmem u) d" using st(4) by (simp add: m)
  ultimately have "released c d ps0 s0 (Suc ?j) ps' u"
    using dr pr by (simp add: released_def user_frames_Suc[where va = va, OF refl])
  then show ?thesis using t(1) unfolding frame_at_def u_def by blast
qed

text \<open>Pages that are not present.\<close>

lemma release_absent:
  assumes R: "released c d ps0 s0 j ps s" and n: "\<And>va. j \<le> pageno va \<Longrightarrow> pageno va < k \<Longrightarrow> \<not> present (vmem s0) d va" and jk: "j \<le> k"
  shows "released c d ps0 s0 k ps s"
proof -
  have "{va. pageno va < k \<and> present (vmem s0) d va} = {va. pageno va < j \<and> present (vmem s0) d va}"
    using n jk by (auto simp: not_le) (meson not_le)
  then have "user_frames (vmem s0) d k = user_frames (vmem s0) d j" by (simp add: user_frames_def)
  moreover have "pageno va < k \<and> present (vmem s0) d va \<longleftrightarrow> pageno va < j \<and> present (vmem s0) d va" for va
    using n[of va] jk by (meson not_le order_less_le_trans)
  ultimately show ?thesis using R by (simp add: released_def)
qed

lemma page_addr_le:
  assumes "j \<le> 0x80000"
  shows "unat (of_nat j * PGSIZE) = j * 4096"
proof -
  have "unat (of_nat (j * 4096) :: uint) = j * 4096"
    using assms by (simp add: unsigned_of_nat take_bit_nat_eq_self del: of_nat_mult)
  then show ?thesis by (simp add: PGSIZE_def)
qed

lemma page_addr_next:
  assumes "j < k" "k \<le> 0x80000"
  shows "of_nat (Suc j) * PGSIZE = of_nat j * PGSIZE + PGSIZE" "\<not> of_nat k * PGSIZE \<le> (of_nat j * PGSIZE :: uint)"
  using assms page_addr_le[of j] page_addr_le[of k] by (simp_all add: word_le_nat_alt distrib_right)

text \<open>The jump to the next directory entry.\<close>

lemma next_entry:
  assumes "j < 0x80000"
  shows "PGADDR (PDX (of_nat j * PGSIZE) + 1) 0 0 = of_nat ((j div 1024 + 1) * 1024) * PGSIZE"
proof -
  have p: "pageno (of_nat j * PGSIZE) = j" by (rule page_addr(2)[OF assms])
  have k: "(j div 1024 + 1) * 1024 \<le> 0x80000" using assms by simp
  have d: "unat (PDX (of_nat j * PGSIZE)) = j div 1024" by (simp add: unat_PDX p)
  then have d1: "unat (PDX (of_nat j * PGSIZE) + 1) = j div 1024 + 1"
    using assms by (subst unat_add_small) simp_all
  have P: "unat (PGADDR w 0 0) = n * 2 ^ 22" if "unat w = n" "n \<le> 512" for w :: uint and n
    using that by (simp add: PGADDR_def push_bit_eq_mult unat_mult_lem[THEN iffD1])
  have "unat (PGADDR (PDX (of_nat j * PGSIZE) + 1) 0 0) = (j div 1024 + 1) * 2 ^ 22"
    by (rule P[OF d1]) (use assms in simp)
  then show ?thesis using page_addr_le[OF k] by (simp add: word_unat_eq_iff)
qed

lemma release_loop:
  assumes S: "space_ok c d ps0 s0"
  shows "j \<le> 0x80000 \<Longrightarrow> released c d ps0 s0 j ps s \<Longrightarrow>
    \<exists>ps' s'. deallocuvm_from d (of_nat j * PGSIZE) KERNBASE s = Ok () s' \<and> released c d ps0 s0 0x80000 ps' s'"
proof (induction "0x80000 - j" arbitrary: j ps s rule: less_induct)
  case less
  note R = less.prems(2)
  note r = releasedD[OF R]
  let ?a = "of_nat j * PGSIZE :: uint"
  show ?case
  proof (cases "j = 0x80000")
    case True
    then have "\<not> ?a < KERNBASE" using page_addr_le[of j] by (simp add: word_less_nat_alt KERNBASE_def)
    then show ?thesis using R True by (subst deallocuvm_from.simps) auto
  next
    case False
    then have j: "j < 0x80000" using less.prems(1) by simp
    have p: "pageno ?a = j" by (rule page_addr(2)[OF j])
    have lt: "?a < KERNBASE" using page_addr_le[of j] j by (simp add: word_less_nat_alt KERNBASE_def)
    note nx = page_addr_next[of j "Suc j", OF lessI]
    have go: ?thesis
      if "released c d ps0 s0 k ps' s'" "j < k" "k \<le> 0x80000"
        "deallocuvm_from d ?a KERNBASE s = deallocuvm_from d (of_nat k * PGSIZE) KERNBASE s'" for k ps' s'
      using less.hyps[OF _ that(3,1)] that(2,4) j by simp
    show ?thesis
    proof (cases "has_table (vmem s) d (PDX ?a)")
      case False
      let ?k = "(j div 1024 + 1) * 1024"
      have k: "j < ?k" "?k \<le> 0x80000" using j by simp_all
      have "\<not> present (vmem s0) d va" if "j \<le> pageno va" "pageno va < ?k" for va
      proof -
        have "pageno va div 1024 = j div 1024"
          using div_le_mono[OF that(1), of 1024] that(2) less_mult_imp_div_less[of "pageno va" "j div 1024 + 1" 1024] by simp
        then have "PDX va = PDX ?a" by (simp add: word_unat_eq_iff unat_PDX p)
        then show ?thesis using False r(4)[OF PDX_bound] by (simp add: present_def pte_at_def)
      qed
      from release_absent[OF R this] have n: "released c d ps0 s0 ?k ps s" using k(1) by simp
      have "deallocuvm_from d ?a KERNBASE s = deallocuvm_from d (of_nat ?k * PGSIZE) KERNBASE s"
        using False lt page_addr_next(2)[OF k] next_entry[OF j]
        by (subst deallocuvm_from.simps) (simp add: walkpgdir_def has_table_def rd32_def del: of_nat_mult of_nat_add)
      then show ?thesis by (rule go[OF n k])
    next
      case True
      have ok: "page_ok (kend (vk s0)) (table_of (vmem s) d (PDX ?a))" using dir_okD(3)[OF r(2) PDX_bound True] by simp
      have nz: "pte_slot (vmem s) d ?a \<noteq> 0" using slot_nonzero[OF ok PTX_bound] by (simp add: pte_slot_def)
      note w = walk_present[OF True, of False] rd32_slot[OF True]
      have e: "pte_at (vmem s) d ?a = pte_at (vmem s0) d ?a" using r(6)[of ?a] p by simp
      have sj: "Suc j \<le> 0x80000" using j by simp
      show ?thesis
      proof (cases "present (vmem s0) d ?a")
        case pr: True
        obtain ps' t where t: "on_vk (kfree (P2V (PTE_ADDR (pte_at (vmem s0) d ?a)))) s = Ok () t"
          "released c d ps0 s0 (Suc j) ps' (wr32 (pte_slot (vmem s) d ?a) 0 t)"
          using release_page[OF S _ _ pr, of ps s] R j unfolding p by blast
        have "PTE_ADDR (pte_at (vmem s0) d ?a) \<noteq> 0" using space_okD(5)[OF S _ pr] j p by simp
        then have "deallocuvm_from d ?a KERNBASE s = deallocuvm_from d (of_nat (Suc j) * PGSIZE) KERNBASE (wr32 (pte_slot (vmem s) d ?a) 0 t)"
          using lt nx[OF sj] nz w e t(1) pr
          by (subst deallocuvm_from.simps) (simp add: present_def Let_def del: of_nat_Suc)
        then show ?thesis by (rule go[OF t(2) lessI sj])
      next
        case ab: False
        have "\<not> present (vmem s0) d va" if "j \<le> pageno va" "pageno va < Suc j" for va
          using ab same_page[where va = va and va' = ?a and m = "vmem s0" and d = d] p that by (simp add: present_def)
        from release_absent[OF R this] have n: "released c d ps0 s0 (Suc j) ps s" by simp
        have "deallocuvm_from d ?a KERNBASE s = deallocuvm_from d (of_nat (Suc j) * PGSIZE) KERNBASE s"
          using lt nx[OF sj] nz w e ab
          by (subst deallocuvm_from.simps) (simp add: present_def Let_def del: of_nat_Suc)
        then show ?thesis by (rule go[OF n lessI sj])
      qed
    qed
  qed
qed

section \<open>freevm\<close>

text \<open>Everything a directory holds a reference to: its user frames, its tables and itself.\<close>

definition held :: "memory \<Rightarrow> uint \<Rightarrow> uint set" where
  "held m d = user_frames m d 0x80000 \<union> dir_pages m d"

definition tables_below :: "memory \<Rightarrow> uint \<Rightarrow> nat \<Rightarrow> uint set" where
  "tables_below m d n = table_of m d ` {i. unat i < n \<and> has_table m d i}"

lemma tables_below_Suc:
  assumes "n < 1024"
  shows "tables_below m d (Suc n) =
    (if has_table m d (of_nat n) then insert (table_of m d (of_nat n)) (tables_below m d n) else tables_below m d n)"
proof -
  have "unat i < Suc n \<longleftrightarrow> unat i < n \<or> i = of_nat n" for i :: uint
    using assms by (auto simp: less_Suc_eq word_unat_eq_iff unsigned_of_nat take_bit_nat_eq_self)
  then have "{i. unat i < Suc n \<and> has_table m d i} =
      (if has_table m d (of_nat n) then insert (of_nat n) {i. unat i < n \<and> has_table m d i} else {i. unat i < n \<and> has_table m d i})"
    by auto
  then show ?thesis by (simp add: tables_below_def)
qed

lemma free_tables:
  fixes f :: "nat \<Rightarrow> vst \<Rightarrow> (unit, vst) res"
  assumes S: "space_ok c d ps0 s0" and R: "released c d ps0 s0 0x80000 ps1 s1"
    and f: "\<And>i s. f i s = (let pde = rd32 (d + 4 * of_nat i) s in
                if pte_has pde PTE_P then on_vk (kfree (P2V (PTE_ADDR pde))) s else Ok () s)"
  shows "n \<le> 1024 \<Longrightarrow>
    dropped c (dir_pages (vmem s0) d) (user_frames (vmem s0) d 0x80000 \<union> tables_below (vmem s0) d n) ps0 s0 ps s \<Longrightarrow>
    (\<And>x. in_page d x \<Longrightarrow> vmem s x = vmem s1 x) \<Longrightarrow>
    \<exists>ps' s'. for_each f [n..<1024] s = Ok () s' \<and>
      dropped c (dir_pages (vmem s0) d) (user_frames (vmem s0) d 0x80000 \<union> tables_below (vmem s0) d 1024) ps0 s0 ps' s'"
proof (induction "1024 - n" arbitrary: n ps s)
  case 0
  then show ?case by auto
next
  case (Suc k)
  let ?m = "vmem s0" and ?i = "of_nat n :: uint"
  have n: "n < 1024" "[n..<1024] = n # [Suc n..<1024]" "k = 1024 - Suc n" using Suc.hyps(2) by (simp_all add: upt_conv_Cons)
  have i: "unat ?i = n" "unat ?i < 1024" using n(1) by (simp_all add: unsigned_of_nat take_bit_nat_eq_self)
  note r = releasedD[OF R]
  note ok = space_okD(2)[OF S]
  have ld: "load32 (vmem s) (d + 4 * ?i) = load32 (vmem s1) (d + 4 * ?i)"
    by (rule load32_page_cong[OF i(2)]) (rule Suc.prems(3))
  have h: "pte_has (rd32 (d + 4 * ?i) s) PTE_P \<longleftrightarrow> has_table ?m d ?i"
    using ld r(4)[OF i(2)] by (simp add: rd32_def has_table_def)
  have t: "P2V (PTE_ADDR (rd32 (d + 4 * ?i) s)) = table_of ?m d ?i"
    using ld r(5)[OF i(2)] by (simp add: rd32_def table_of_def)
  note ts = tables_below_Suc[OF n(1), of ?m d]
  show ?case
  proof (cases "has_table ?m d ?i")
    case False
    then have "f n s = Ok () s" using h by (simp add: f Let_def)
    then show ?thesis using Suc.hyps(1)[OF n(3) _ _ Suc.prems(3), of ps] Suc.prems(2) n(1,2) ts False by simp
  next
    case True
    let ?t = "table_of ?m d ?i"
    have tp: "?t \<in> dir_pages ?m d" by (rule dir_pages_simps(2)[OF i(2) True])
    have okt: "page_ok (kend (vk s0)) ?t" "?t \<noteq> d" using dir_okD(3)[OF ok i(2) True] by simp_all
    have "?t \<notin> tables_below ?m d n"
    proof
      assume "?t \<in> tables_below ?m d n"
      then obtain j where j: "unat j < n" "has_table ?m d j" "table_of ?m d j = ?t" by (auto simp: tables_below_def)
      then have "j = ?i" using dir_okD(4)[OF ok _ i(2) j(2) True] n(1) by simp
      then show False using j(1) i(1) by simp
    qed
    moreover have "?t \<notin> user_frames ?m d 0x80000" using space_okD(5)[OF S] tp by (auto simp: user_frames_def)
    moreover have "0 < rcount (vk s0) (page_index ?t)" using space_okD(4)[OF S tp] by simp
    ultimately obtain ps' s' where s': "on_vk (kfree ?t) s = Ok () s'"
      "dropped c (dir_pages ?m d) (insert ?t (user_frames ?m d 0x80000 \<union> tables_below ?m d n)) ps0 s0 ps' s'"
      "\<And>x. \<not> in_page ?t x \<Longrightarrow> vmem s' x = vmem s x"
      using drop_page[OF Suc.prems(2) okt(1)] by blast
    have "f n s = Ok () s'" using h t True s'(1) by (simp add: f Let_def)
    moreover have "dropped c (dir_pages ?m d) (user_frames ?m d 0x80000 \<union> tables_below ?m d (Suc n)) ps0 s0 ps' s'"
      using s'(2) ts True by simp
    moreover have "vmem s' x = vmem s1 x" if "in_page d x" for x
      using s'(3)[of x] Suc.prems(3)[OF that] pages_disjoint[OF okt(1) dir_okD(1)[OF ok] _ that] okt(2) by auto
    ultimately show ?thesis using Suc.hyps(1)[OF n(3), of ps' s'] n(1,2) by simp
  qed
qed

lemma held_pages:
  assumes "space_ok c d ps s" "p \<in> held (vmem s) d"
  shows "page_ok (kend (vk s)) p" "0 < rcount (vk s) (page_index p)"
  using assms(2) space_okD(5)[OF assms(1)] space_okD(4)[OF assms(1)] dir_okD(2)[OF space_okD(2)[OF assms(1)]]
  by (auto simp: held_def user_frames_def)

lemma freevm_dropped:
  assumes S: "space_ok c d ps s"
  shows "\<exists>ps' s'. freevm d s = Ok () s' \<and> dropped c {} (held (vmem s) d) ps s ps' s'"
proof -
  let ?m = "vmem s" and ?W = "dir_pages (vmem s) d" and ?U = "user_frames (vmem s) d 0x80000"
  note ok = space_okD(2)[OF S]
  have okd: "page_ok (kend (vk s)) d" by (rule dir_okD(1)[OF ok])
  obtain ps1 s1 where 1: "deallocuvm_from d (of_nat 0 * PGSIZE) KERNBASE s = Ok () s1" "released c d ps s 0x80000 ps1 s1"
    using release_loop[OF S _ released_0[OF S]] by auto
  have "PGROUNDUP 0 = 0" by (simp add: PGROUNDUP_def PGSIZE_def)
  then have da: "deallocuvm d KERNBASE 0 s = Ok 0 s1" using 1(1) by (simp add: deallocuvm_def KERNBASE_def)
  define f where "f = (\<lambda>i s. let pde = rd32 (d + 4 * of_nat i) s in
                if pte_has pde PTE_P then on_vk (kfree (P2V (PTE_ADDR pde))) s else Ok () s)"
  have e0: "tables_below ?m d 0 = {}" by (simp add: tables_below_def)
  obtain ps2 s2 where 2: "for_each f [0..<1024] s1 = Ok () s2" "dropped c ?W (?U \<union> tables_below ?m d 1024) ps s ps2 s2"
    using free_tables[OF S 1(2), of f 0 ps1 s1] releasedD(1)[OF 1(2)] unfolding e0 by (auto simp: f_def)
  have "d \<notin> ?U" using space_okD(5)[OF S] dir_pages_simps(1) by (fastforce simp: user_frames_def)
  moreover have "d \<notin> tables_below ?m d 1024"
  proof
    assume "d \<in> tables_below ?m d 1024"
    then obtain i where i: "unat i < 1024" "has_table ?m d i" "table_of ?m d i = d" by (auto simp: tables_below_def)
    show False using dir_okD(3)[OF ok i(1,2)] i(3) by simp
  qed
  moreover have "0 < rcount (vk s) (page_index d)" using space_okD(4)[OF S dir_pages_simps(1)] by simp
  ultimately obtain ps3 s3 where 3: "on_vk (kfree d) s2 = Ok () s3" "dropped c ?W (insert d (?U \<union> tables_below ?m d 1024)) ps s ps3 s3"
    using drop_page[OF 2(2) okd] by blast
  have V: "insert d (?U \<union> tables_below ?m d 1024) = held ?m d"
    by (auto simp: held_def dir_pages_def tables_below_def)
  have "?W \<subseteq> last_ref s (held ?m d)" using space_okD(4)[OF S] by (auto simp: last_ref_def held_def)
  then have "dropped c {} (held ?m d) ps s ps3 s3"
    using 3(2) unfolding V dropped_def Un_absorb1[OF \<open>?W \<subseteq> _\<close>] by simp
  moreover have "freevm d s = Ok () s3"
    using da 2(1) 3(1) page_nonzero[OF okd] by (simp add: freevm_def f_def)
  ultimately show ?thesis by blast
qed

section \<open>Fork, then exit\<close>

lemma gone_page:
  assumes "\<And>v. v \<in> V \<Longrightarrow> page_ok e v" "page_ok e p"
  shows "gone V (page_index p) = (if p \<in> V then 1 else 0)"
  using page_index_inj[of e _ e p] assms by (auto simp: gone_def)

lemma parent_end: "KERNBASE < kend (vk parent_state)"
  by (simp add: parent_state_def boot_pool_def KERNBASE_def)

lemma frame_zero:
  assumes "page_ok e (P2V (PTE_ADDR w))" "KERNBASE < e"
  shows "PTE_ADDR w \<noteq> 0"
  using assms by (auto simp: page_ok_def P2V_def)

text \<open>The child of a fork is an address space that can be given up, and what it holds.\<close>

lemma forked_space:
  assumes R: "fork_ready c pg sz ps s" and e: "KERNBASE < kend (vk s)"
    and I: "copied c k S d pg ps s (pages_of sz) ps' s'"
  shows "space_ok c d ps' s'" and "user_frames (vmem s') d 0x80000 = frame_at (vmem s) pg ` {va. pageno va < pages_of sz}"
    and "dir_pages (vmem s') d = set ps - set ps'"
proof -
  let ?n = "pages_of sz"
  note U = fork_readyD(2)[OF R] and pool = fork_readyD(3)[OF R] and cp = copiedD[OF I]
  note view = copied_views[OF U I _ pool]
  have n: "?n \<le> 0x80000" using R unfolding fork_ready_def pages_of_def word_le_nat_alt KERNBASE_def by (elim conjE) simp
  have dat: "0x80100 < pageno (kdata s)" using R data_sizes(2)[of s] by (simp add: fork_ready_def)
  have pr: "present (vmem s') d va \<longleftrightarrow> pageno va < ?n" if "pageno va < 0x80000" for va
  proof (cases "pageno va < ?n")
    case True
    then show ?thesis using cp(8)[of va] U by (simp add: present_def share_simps user_pages_def)
  next
    case False
    then show ?thesis using cp(8)[of va] that dat by (simp add: present_def kernel_pte_user)
  qed
  have fr: "frame_at (vmem s') d va = frame_at (vmem s) pg va" if "pageno va < ?n" for va using view(4)[OF that, of d] by simp
  have user: "page_ok (kend (vk s)) (frame_at (vmem s) pg va)" "0 < rcount (vk s) (page_index (frame_at (vmem s) pg va))"
    if "pageno va < ?n" for va using U that by (simp_all add: user_pages_def)
  have out: "frame_at (vmem s) pg va \<notin> dir_pages (vmem s') d \<union> set ps" if "pageno va < ?n" for va
    using view(5)[OF that, of d] by simp
  show dp: "dir_pages (vmem s') d = set ps - set ps'" using cp(3,12) dirsD(3)[OF cp(1)] by blast
  show "user_frames (vmem s') d 0x80000 = frame_at (vmem s) pg ` {va. pageno va < ?n}"
    unfolding user_frames_def using pr fr n by (fastforce intro!: image_cong)
  have cnt: "0 < rcount (vk s') (page_index (frame_at (vmem s) pg va))" if "pageno va < ?n" for va
    using copied_counts[OF U I pool user(1)[OF that]] out[OF that] user(2)[OF that] by simp
  show "space_ok c d ps' s'"
    unfolding space_ok_def
  proof (intro conjI allI impI ballI)
    show "vgood c ps' s'" "dir_ok (kend (vk s')) (vmem s') d" "dir_pages (vmem s') d \<inter> set ps' = {}"
      using dirsD(1-3)[OF cp(1)] by blast+
    show "rcount (vk s') (page_index p) = 1" if "p \<in> dir_pages (vmem s') d" for p using that cp(12)[of p] dp by blast
    fix va assume a: "pageno va < 0x80000 \<and> present (vmem s') d va"
    then have va: "pageno va < ?n" using pr by blast
    show "page_ok (kend (vk s')) (frame_at (vmem s') d va)" using user(1)[OF va] fr[OF va] cp(6) by simp
    then show "PTE_ADDR (pte_at (vmem s') d va) \<noteq> 0" using frame_zero e cp(6) by (simp add: frame_at_def)
    show "frame_at (vmem s') d va \<notin> dir_pages (vmem s') d" using out[OF va] fr[OF va] by simp
    show "0 < rcount (vk s') (page_index (frame_at (vmem s') d va))" using cnt[OF va] fr[OF va] by simp
  next
    fix va va'
    assume "pageno va < 0x80000" "pageno va' < 0x80000" "present (vmem s') d va" "present (vmem s') d va'"
      and eq: "frame_at (vmem s') d va = frame_at (vmem s') d va'"
    then have v: "pageno va < ?n" "pageno va' < ?n" using pr by blast+
    then have "frame_at (vmem s) pg va = frame_at (vmem s) pg va'" using eq fr by simp
    then show "pageno va = pageno va'" using U v unfolding user_pages_def by blast
  qed
qed

text \<open>The parent's memory, where its pages are left alone.\<close>

lemma parent_kept:
  assumes U: "user_pages pg n ps0 s0" and I: "copied c k S d pg ps0 s0 n ps s"
    and pool: "\<And>p. p \<in> set ps0 \<Longrightarrow> page_ok (kend (vk s0)) p \<and> rcount (vk s0) (page_index p) = 0"
    and same: "\<And>p x. p \<in> dir_pages (vmem s0) pg \<union> frame_at (vmem s0) pg ` {va. pageno va < n} \<Longrightarrow> in_page p x \<Longrightarrow> m x = vmem s x"
  shows "pte_at m pg va = pte_at (vmem s) pg va" and "pageno va < n \<Longrightarrow> user_load m pg va = user_load (vmem s) pg va"
proof -
  note cp = copiedD[OF I]
  have okp: "dir_ok (kend (vk s)) (vmem s) pg" using dirsD(2)[OF cp(2)] .
  have samep: "m x = vmem s x" if "p \<in> dir_pages (vmem s) pg" "in_page p x" for p x
    by (rule same[of p]) (use that cp(5) in simp_all)
  have cong: "pte_at m pg va = pte_at (vmem s) pg va" "dir_ok (kend (vk s)) m pg" for va
    using dir_cong(4,5)[of "vmem s" pg m] samep okp by blast+
  then show "pte_at m pg va = pte_at (vmem s) pg va" by blast
  assume va: "pageno va < n"
  note v = copied_views[OF U I va pool disjI2[OF refl]]
  have fr: "frame_at m pg va = frame_at (vmem s0) pg va" using v(4) cong(1)[of va] by (simp add: frame_at_def)
  have "m (frame_at (vmem s0) pg va + page_off va) = vmem s (frame_at (vmem s0) pg va + page_off va)"
    by (rule same) (use va page_off_in_page in auto)
  then show "user_load m pg va = user_load (vmem s) pg va"
    using user_load_pte[OF okp] user_load_pte[OF cong(2)] v(4) fr cong(1)[of va] by simp
qed

text \<open>C19: Giving up an address space.  When its directory and tables are its own and its pages below
  \<open>KERNBASE\<close> are different counted frames, \<open>freevm\<close> does not panic: every frame it mapped, every table and
  the directory lose exactly one reference; the pages whose last reference that was, and no others,
  join the free pages; and no byte outside the pages so freed changes.\<close>

theorem freevm_drops_references:
  assumes "space_ok c d ps s"
  shows "\<exists>ps' s'. freevm d s = Ok () s' \<and> vgood c ps' s' \<and>
    set ps' = set ps \<union> {p \<in> held (vmem s) d. rcount (vk s) (page_index p) = 1} \<and>
    (\<forall>p. page_ok (kend (vk s)) p \<longrightarrow>
       rcount (vk s') (page_index p) = rcount (vk s) (page_index p) - (if p \<in> held (vmem s) d then 1 else 0)) \<and>
    (\<forall>x. (\<forall>p \<in> set ps'. \<not> in_page p x) \<longrightarrow> vmem s' x = vmem s x)"
proof -
  obtain ps' s' where r: "freevm d s = Ok () s'" "dropped c {} (held (vmem s) d) ps s ps' s'"
    using freevm_dropped[OF assms] by blast
  note dr = droppedD[OF r(2)]
  show ?thesis
  proof (intro exI conjI allI impI)
    show "freevm d s = Ok () s'" "vgood c ps' s'" by (rule r dr)+
    show "set ps' = set ps \<union> {p \<in> held (vmem s) d. rcount (vk s) (page_index p) = 1}" using dr(7) by (simp add: last_ref_def)
    show "rcount (vk s') (page_index p) = rcount (vk s) (page_index p) - (if p \<in> held (vmem s) d then 1 else 0)"
      if "page_ok (kend (vk s)) p" for p using dr(8) gone_page[OF dr(6) that] by simp
    show "vmem s' x = vmem s x" if "\<forall>p \<in> set ps'. \<not> in_page p x" for x
      by (rule dr(9)) (use that dr(7) in blast)
  qed
qed

theorem freevm_drops_references_witness:
  "\<exists>d s' s''. copyuvm 0x80500000 4096 parent_state = Ok d s' \<and> rcount (vk s') (page_index d) = 1 \<and>
    freevm d s' = Ok () s'' \<and> rcount (vk s'') (page_index d) = 0"
proof -
  obtain d ps' s' where r: "copyuvm 0x80500000 4096 parent_state = Ok d s'" "d \<in> set free_pages"
    "copied 0 1 (copy_slots (pages_of 4096)) d 0x80500000 free_pages parent_state (pages_of 4096) ps' s'"
    using fork_readyD(4)[OF parent_ready] by blast
  note sp = forked_space(1)[OF parent_ready parent_end r(3)]
  obtain s'' where s'': "freevm d s' = Ok () s''" "\<forall>p. page_ok (kend (vk s')) p \<longrightarrow>
      rcount (vk s'') (page_index p) = rcount (vk s') (page_index p) - (if p \<in> held (vmem s') d then 1 else 0)"
    using freevm_drops_references[OF sp] by blast
  have d: "d \<in> dir_pages (vmem s') d" "page_ok (kend (vk s')) d"
    using dir_pages_simps(1) dir_okD(1)[OF space_okD(2)[OF sp]] by blast+
  show ?thesis using r(1) s''(1) s''(2)[rule_format, OF d(2)] d(1) space_okD(4)[OF sp d(1)] by (auto simp: held_def)
qed

text \<open>A fork followed by the child's exit leaves no trace in the allocator.  After \<open>copyuvm\<close> and
  \<open>freevm\<close> of the new directory the free pages are the ones there were, every page has the reference
  count it had, and the parent reads at every user address the byte it read before; all that remains
  is that its pages are marked copy on write.\<close>

theorem fork_exit_restores_counts:
  assumes "fork_ready c pg sz ps s" and "KERNBASE < kend (vk s)"
  shows "\<exists>d s1 ps2 s2. copyuvm pg sz s = Ok d s1 \<and> freevm d s1 = Ok () s2 \<and> vgood c ps2 s2 \<and> set ps2 = set ps \<and>
    (\<forall>p. page_ok (kend (vk s)) p \<longrightarrow> rcount (vk s2) (page_index p) = rcount (vk s) (page_index p)) \<and>
    (\<forall>va. if pageno va < pages_of sz
       then pte_at (vmem s2) pg va = share (pte_at (vmem s) pg va) \<and> user_load (vmem s2) pg va = user_load (vmem s) pg va
       else pte_at (vmem s2) pg va = pte_at (vmem s) pg va)"
proof -
  let ?n = "pages_of sz"
  note U = fork_readyD(2)[OF assms(1)] and pool = fork_readyD(3)[OF assms(1)]
  obtain d ps1 s1 where r: "copyuvm pg sz s = Ok d s1" "copied c 1 (copy_slots ?n) d pg ps s ?n ps1 s1"
    using fork_readyD(4)[OF assms(1)] by blast
  note sp = forked_space[OF assms r(2)] and cp = copiedD[OF r(2)]
  obtain ps2 s2 where f: "freevm d s1 = Ok () s2" "dropped c {} (held (vmem s1) d) ps1 s1 ps2 s2"
    using freevm_dropped[OF sp(1)] by blast
  note dr = droppedD[OF f(2)]
  let ?F = "frame_at (vmem s) pg ` {va. pageno va < ?n}"
  have H: "held (vmem s1) d = ?F \<union> (set ps - set ps1)" unfolding held_def sp(2,3) ..
  have F: "p \<notin> set ps" "page_ok (kend (vk s)) p" "rcount (vk s1) (page_index p) = rcount (vk s) (page_index p) + 1"
    "0 < rcount (vk s) (page_index p)" if p: "p \<in> ?F" for p
  proof -
    obtain va where va: "pageno va < ?n" "p = frame_at (vmem s) pg va" using p by blast
    show ok: "page_ok (kend (vk s)) p" "0 < rcount (vk s) (page_index p)" using U va by (simp_all add: user_pages_def)
    then show ni: "p \<notin> set ps" using pool[of p] by auto
    have ex: "\<exists>va. pageno va < ?n \<and> frame_at (vmem s) pg va = p" using va by blast
    show "rcount (vk s1) (page_index p) = rcount (vk s) (page_index p) + 1"
      using copied_counts[OF U r(2) pool ok(1) ni] unfolding if_P[OF ex] .
  qed
  have last: "last_ref s1 (held (vmem s1) d) = set ps - set ps1"
    using F(3,4) cp(12) unfolding H last_ref_def by force
  have counts: "rcount (vk s2) (page_index p) = rcount (vk s) (page_index p)" if ok: "page_ok (kend (vk s)) p" for p
  proof -
    have g: "rcount (vk s2) (page_index p) = rcount (vk s1) (page_index p) - (if p \<in> held (vmem s1) d then 1 else 0)"
      using dr(8) gone_page[of "held (vmem s1) d" "kend (vk s1)" p, OF dr(6)] ok cp(6) by simp
    consider "p \<in> ?F" | "p \<in> set ps1" | "p \<in> set ps" "p \<notin> set ps1" | "p \<notin> ?F" "p \<notin> set ps" by blast
    then show ?thesis
    proof cases
      case 1
      then show ?thesis using g F(3)[OF 1] unfolding H by simp
    next
      case 2
      then have "p \<in> set ps" "p \<notin> ?F" using cp(4) F(1) by blast+
      then show ?thesis using g 2 pool dirsD(4)[OF cp(1) 2] unfolding H by simp
    next
      case 3
      then show ?thesis using g pool cp(12) unfolding H by simp
    next
      case 4
      then have no: "\<not> (\<exists>va. pageno va < ?n \<and> frame_at (vmem s) pg va = p)" by blast
      show ?thesis using g 4 copied_counts[OF U r(2) pool ok 4(2)] unfolding H if_not_P[OF no] by simp
    qed
  qed
  have same: "vmem s2 x = vmem s1 x" if p: "page_ok (kend (vk s)) p" "p \<notin> set ps" "in_page p x" for p x
  proof (rule dr(9))
    show "\<not> in_page q x" if "q \<in> {} \<union> last_ref s1 (held (vmem s1) d)" for q
      using that pages_disjoint[OF _ p(1) _ p(3), of "kend (vk s)" q] pool[of q] p(2) unfolding last by blast
  qed
  have kept: "p \<in> dir_pages (vmem s) pg \<union> ?F \<Longrightarrow> in_page p x \<Longrightarrow> vmem s2 x = vmem s1 x" for p x
    by (rule same) (use U F(1,2) dir_okD(2) in \<open>auto simp: user_pages_def\<close>)
  have cong: "pte_at (vmem s2) pg va = pte_at (vmem s1) pg va" for va by (rule parent_kept(1)[OF U r(2) pool kept])
  have view: "user_load (vmem s2) pg va = user_load (vmem s) pg va" if va: "pageno va < ?n" for va
    using parent_kept(2)[OF U r(2) pool kept va] copied_views(6)[OF U r(2) va pool disjI2[OF refl]] by simp
  have "set ps2 = set ps" using dr(7) cp(4) unfolding last by blast
  moreover have "if pageno va < ?n
       then pte_at (vmem s2) pg va = share (pte_at (vmem s) pg va) \<and> user_load (vmem s2) pg va = user_load (vmem s) pg va
       else pte_at (vmem s2) pg va = pte_at (vmem s) pg va" for va
    using cong[of va] cp(7)[of va] view[of va] by simp
  ultimately show ?thesis using r(1) f(1) dr(1) counts by blast
qed

theorem fork_exit_restores_counts_witness:
  "\<exists>d s1 s2. copyuvm 0x80500000 4096 parent_state = Ok d s1 \<and> freevm d s1 = Ok () s2 \<and>
    rcount (vk s2) 0x504 = 1 \<and> user_load (vmem s2) 0x80500000 8 = user_load parent_mem 0x80500000 8"
proof -
  obtain d s1 ps2 s2 where r: "copyuvm 0x80500000 4096 parent_state = Ok d s1" "freevm d s1 = Ok () s2"
    "\<forall>p. page_ok (kend (vk parent_state)) p \<longrightarrow> rcount (vk s2) (page_index p) = rcount (vk parent_state) (page_index p)"
    "\<forall>va. if pageno va < pages_of 4096
       then pte_at (vmem s2) 0x80500000 va = share (pte_at (vmem parent_state) 0x80500000 va) \<and>
         user_load (vmem s2) 0x80500000 va = user_load (vmem parent_state) 0x80500000 va
       else pte_at (vmem s2) 0x80500000 va = pte_at (vmem parent_state) 0x80500000 va"
    using fork_exit_restores_counts[OF parent_ready parent_end] by blast
  have "page_ok (kend (vk parent_state)) 0x80504000" using parent_pages_ok(3) by (simp add: parent_state_def boot_pool_def)
  then have "rcount (vk s2) 0x504 = 1" using r(3) parent_pages_ok(6) by (auto simp: parent_state_def)
  moreover have "pageno 8 < pages_of 4096" by (simp add: pageno_def pages_of_def)
  ultimately show ?thesis using r(1,2) r(4)[rule_format, of 8] parent_view(2) by auto
qed

end
