(* ===== verification/Waiting.thy ===== *)
theory Waiting
  imports Forking Freevm
begin

text \<open>
  \<open>wait\<close> on every branch: a zombie child is removed from the process table and its kernel stack and
  address space go back to the allocator.  With \<open>fork\<close> before it every page is as it was.
\<close>

section \<open>The memory of a zombie\<close>

abbreviation with_km :: "mach \<Rightarrow> vst \<Rightarrow> vst" where
  "with_km m v \<equiv> v\<lparr>vk := (vk v)\<lparr>km := m\<rparr>\<rparr>"

lemma with_km_fields [simp]:
  "vmem (with_km m v) = vmem v" "last_ref (with_km m v) V = last_ref v V"
  by (auto simp: vmem_def last_ref_def)

lemma space_ok_km:
  assumes "space_ok c d ps v" "on_cpu c m" "\<And>l. lock_free l m \<or> l = PtableLock"
  shows "space_ok c d ps (with_km m v)"
proof -
  have "kquiet c (vk (with_km m v))" using assms(2) assms(3)[of KmemLock] assms(3)[of RefcountLock] by (simp add: kquiet_def)
  then show ?thesis using assms(1) by (simp add: space_ok_def vgood_def)
qed

text \<open>Another page that is given up leaves the address space as it was.\<close>

lemma space_ok_drop:
  assumes S: "space_ok c d ps v" and D: "dropped c {} {st} ps v ps' v'" and st: "st \<notin> held (vmem v) d"
  shows "space_ok c d ps' v'" and "held (vmem v') d = held (vmem v) d"
    and "p \<in> held (vmem v) d \<Longrightarrow> rcount (vk v') (page_index p) = rcount (vk v) (page_index p)"
proof -
  note s = space_okD[OF S] and dr = droppedD[OF D]
  have ok: "page_ok (kend (vk v)) st" by (rule dr(6)) simp
  have same: "vmem v' x = vmem v x" if p: "p \<in> dir_pages (vmem v) d" "in_page p x" for p x
  proof (rule dr(9))
    fix q assume "q \<in> {} \<union> last_ref v {st}"
    then have q: "q = st" by (auto simp: last_ref_def)
    have "p \<noteq> st" using st p(1) by (auto simp: held_def)
    then show "\<not> in_page q x" using pages_disjoint[OF dir_okD(2)[OF s(2) p(1)] ok p(2)] q by blast
  qed
  have dir: "dir_pages (vmem v') d = dir_pages (vmem v) d" "\<And>va. pte_at (vmem v') d va = pte_at (vmem v) d va"
    "\<And>e. dir_ok e (vmem v') d = dir_ok e (vmem v) d"
    using dir_cong(3-5)[of "vmem v" d "vmem v'"] same by blast+
  then have pr: "present (vmem v') d = present (vmem v) d" "frame_at (vmem v') d = frame_at (vmem v) d"
    by (auto simp: present_def frame_at_def)
  then show h: "held (vmem v') d = held (vmem v) d" by (simp add: held_def user_frames_def dir(1))
  show cnt: "rcount (vk v') (page_index p) = rcount (vk v) (page_index p)" if p: "p \<in> held (vmem v) d" for p
  proof -
    have "p \<noteq> st" using st p by blast
    then have "gone {st} (page_index p) = 0" using gone_page[of "{st}" "kend (vk v)" p] ok held_pages(1)[OF S p] by simp
    then show ?thesis using dr(8) by simp
  qed
  have frame: "frame_at (vmem v) d va \<in> held (vmem v) d" if "pageno va < 0x80000" "present (vmem v) d va" for va
    using that by (auto simp: held_def user_frames_def)
  have dp: "p \<in> held (vmem v) d" if "p \<in> dir_pages (vmem v) d" for p using that by (simp add: held_def)
  have "set ps' \<subseteq> set ps \<union> {st}" using dr(7) by (auto simp: last_ref_def)
  then have "dir_pages (vmem v) d \<inter> set ps' = {}" using s(3) st by (auto simp: held_def)
  then show "space_ok c d ps' v'"
    unfolding space_ok_def dir pr
    using dr(1,2) s cnt[OF dp] cnt[OF frame] by auto
qed

section \<open>reap\<close>

definition reaped :: "proc \<Rightarrow> proc" where
  "reaped p = p\<lparr>kstack := 0, pid := 0, parent := None, pname := [], killed := False, pstate := UNUSED\<rparr>"

text \<open>The address space of slot \<open>j\<close> can be given up, and its kernel stack is a page of its own.\<close>

definition dead_space :: "nat \<Rightarrow> nat \<Rightarrow> uint list \<Rightarrow> kernel \<Rightarrow> bool" where
  "dead_space c j ps s \<longleftrightarrow> (let v = get_vm s; q = procs s ! j in
     space_ok c (p_pgdir q) ps v \<and> page_ok (kend (vk v)) (kstack q) \<and>
     rcount (vk v) (page_index (kstack q)) = 1 \<and> kstack q \<notin> held (vmem v) (p_pgdir q))"

text \<open>From \<open>v\<close> to \<open>v'\<close> each page of \<open>V\<close> has lost a reference, and those without one are free.\<close>

definition freed :: "uint set \<Rightarrow> uint list \<Rightarrow> vst \<Rightarrow> uint list \<Rightarrow> vst \<Rightarrow> bool" where
  "freed V ps v ps' v' \<longleftrightarrow> set ps' = set ps \<union> {p \<in> V. rcount (vk v) (page_index p) = 1} \<and>
     (\<forall>p. page_ok (kend (vk v)) p \<longrightarrow>
        rcount (vk v') (page_index p) = rcount (vk v) (page_index p) - (if p \<in> V then 1 else 0)) \<and>
     (\<forall>x. (\<forall>p \<in> set ps'. \<not> in_page p x) \<longrightarrow> vmem v' x = vmem v x)"

lemma reap_eq:
  assumes m: "kmach s = take_lock c PtableLock m" "on_cpu c m" "\<And>l. lock_free l m" and j: "j < length (procs s)"
    and Z: "dead_space c j ps s"
  defines "q \<equiv> procs s ! j"
  shows "\<exists>ps' s'. reap j s = Ok (pid q) s' \<and> kmach s' = set_proc j reaped m \<and>
    vgood c ps' (get_vm s') \<and> freed (insert (kstack q) (held (vmem (get_vm s)) (p_pgdir q))) ps (get_vm s) ps' (get_vm s')"
proof -
  let ?v = "get_vm s" and ?d = "p_pgdir q" and ?st = "kstack q"
  let ?H = "held (vmem ?v) ?d"
  have sp: "space_ok c ?d ps ?v" and ok: "page_ok (kend (vk ?v)) ?st" and one: "rcount (vk ?v) (page_index ?st) = 1"
    and st: "?st \<notin> ?H"
    using Z by (simp_all add: dead_space_def Let_def q_def)
  obtain ps1 v1 where 1: "on_vk (kfree ?st) ?v = Ok () v1" "dropped c {} {?st} ps ?v ps1 v1"
    using drop_page[OF dropped_refl[OF space_okD(1)[OF sp], of "{}"] ok] one by auto
  note d1 = droppedD[OF 1(2)]
  define s1 where "s1 = put_vm (\<lambda>_. v1) s"
  have k1: "on_kst (kfree ?st) s = Ok () s1" using 1(1) by (simp add: zoom_def s1_def)
  have m1: "kmach s1 = take_lock c PtableLock m" using d1(3) m(1) by (simp add: s1_def)
  define m2 where "m2 = set_proc j (\<lambda>p. p\<lparr>kstack := 0\<rparr>) (take_lock c PtableLock m)"
  define s2 where "s2 = kset_proc j (\<lambda>p. p\<lparr>kstack := 0\<rparr>) s1"
  have s2: "s2 = set_kmach m2 s1" by (simp add: s2_def kset_proc_set m1 m2_def)
  have v2: "get_vm s2 = with_km m2 v1" by (simp add: s2 s1_def)
  have c2: "on_cpu c m2" "lock_free l m2 \<or> l = PtableLock" for l
    using m by (simp_all add: m2_def on_cpu_take_lock) (auto simp: lock_free_def)
  note dd = space_ok_drop[OF sp 1(2) st]
  have sp2: "space_ok c ?d ps1 (with_km m2 v1)" by (rule space_ok_km[OF dd(1) c2(1)]) (rule c2(2))
  obtain ps3 v3 where 3: "freevm ?d (with_km m2 v1) = Ok () v3" "dropped c {} (held (vmem (with_km m2 v1)) ?d) ps1 (with_km m2 v1) ps3 v3"
    using freevm_dropped[OF sp2] by blast
  note d3 = droppedD[OF 3(2), unfolded with_km_fields dd(2)]
  define s3 where "s3 = put_vm (\<lambda>_. v3) s2"
  have k3: "on_vst (freevm ?d) s2 = Ok () s3" using 3(1) v2 by (simp add: zoom_def s3_def)
  have m3: "kmach s3 = m2" using d3(3) by (simp add: s3_def)
  have tab: "procs s1 = procs s" using m1 m(1) by (simp add: procs_def)
  have q2: "kproc j s2 = q\<lparr>kstack := 0\<rparr>" using j tab by (simp add: s2_def kproc_def q_def) (simp add: kset_proc_set procs_def)
  let ?f = "\<lambda>p. p\<lparr>pid := 0, parent := None, pname := [], killed := False, pstate := UNUSED\<rparr>"
  have m4: "kmach (kset_proc j ?f s3) = take_lock c PtableLock (set_proc j reaped m)"
    using j m(1) by (simp add: kset_proc_set m3 m2_def set_proc_take_lock)
      (simp add: set_proc_def procs_def reaped_def)
  define s' where "s' = set_kmach (set_proc j reaped m) s3"
  have rel: "on_mach (release PtableLock) (kset_proc j ?f s3) = Ok () s'"
    using k_release[OF m4] m by (simp add: s'_def kset_proc_set)
  have q0: "kproc j s = q" by (simp add: kproc_def procs_def q_def)
  have "reap j s = Ok (pid q) s'"
    using k1 k3 q2 rel by (simp add: reap_def Let_def q0 s2_def[symmetric])
  moreover have "kmach s' = set_proc j reaped m" by (simp add: s'_def)
  moreover have v': "get_vm s' = with_km (set_proc j reaped m) v3" by (simp add: s'_def s3_def)
  moreover have "vgood c ps3 (get_vm s')"
    using d3(1) m unfolding v' by (simp add: vgood_def kquiet_def)
  moreover have "freed (insert ?st ?H) ps ?v ps3 (get_vm s')"
  proof -
    have last: "last_ref v1 ?H = {p \<in> ?H. rcount (vk ?v) (page_index p) = 1}" using dd(3) by (auto simp: last_ref_def)
    have set1: "set ps1 = set ps \<union> {?st}" using d1(7) one by (auto simp: last_ref_def)
    have set3: "set ps3 = set ps \<union> {p \<in> insert ?st ?H. rcount (vk ?v) (page_index p) = 1}"
      using d3(7) one unfolding last set1 by auto
    have okH: "page_ok (kend (vk ?v)) p" if "p \<in> ?H" for p using held_pages(1)[OF sp that] .
    have cnt: "rcount (vk v3) (page_index p) = rcount (vk ?v) (page_index p) - (if p \<in> insert ?st ?H then 1 else 0)"
      if p: "page_ok (kend (vk ?v)) p" for p
    proof -
      have "rcount (vk v3) (page_index p) = rcount (vk v1) (page_index p) - gone ?H (page_index p)" using d3(8) by simp
      also have "gone ?H (page_index p) = (if p \<in> ?H then 1 else 0)" by (rule gone_page[OF okH p])
      also have "rcount (vk v1) (page_index p) = rcount (vk ?v) (page_index p) - (if p = ?st then 1 else 0)"
        using d1(8) gone_page[of "{?st}" "kend (vk ?v)" p] ok p by simp
      finally show ?thesis using st by auto
    qed
    have "vmem v3 x = vmem ?v x" if out: "\<forall>p \<in> set ps3. \<not> in_page p x" for x
    proof -
      have "vmem v3 x = vmem v1 x" by (rule d3(9)) (use out d3(7) in blast)
      also have "vmem v1 x = vmem ?v x" by (rule d1(9)) (use out d3(7) d1(7) in blast)
      finally show ?thesis .
    qed
    then show ?thesis using set3 cnt unfolding freed_def v' by simp
  qed
  ultimately show ?thesis by blast
qed

section \<open>wait\<close>

lemma sleep_on_table:
  fixes ch :: chan
  assumes r: "running c i m" and n: "ncli (cpus m ! c) = 0"
  defines "z \<equiv> take_lock c PtableLock (set_proc i (\<lambda>q. q\<lparr>pchan := Some ch, pstate := SLEEPING\<rparr>) m)"
  shows "sleep ch (Some PtableLock) (take_lock c PtableLock m) = Switch z" and "held_by c PtableLock z"
proof -
  have c: "on_cpu c m" and i: "cproc (cpus m ! c) = Some i" "i < length (ptable m)" using r by (simp_all add: running_def)
  show h: "held_by c PtableLock z" by (simp add: z_def)
  have oc: "on_cpu c z" using c by (simp add: z_def on_cpu_take_lock)
  have nz: "ncli (cpus z ! c) = 1" "cproc (cpus z ! c) = Some i" using c n i by (simp_all add: z_def on_cpuD) (simp_all add: set_proc_def on_cpuD)
  have fl: "\<not> eflags_if z" using oc nz by (auto simp: on_cpu_def split: if_splits)
  have st: "pstate (ptable z ! i) = SLEEPING" using i by (simp add: z_def)
  have "sched z = Switch z"
    using myproc_eq[OF oc] holding_eq[OF oc, of PtableLock] h nz st fl oc
    by (simp add: sched_def held_by_def mycpu_def on_cpuD)
  moreover have "set_proc i (\<lambda>q. q\<lparr>pchan := Some ch, pstate := SLEEPING\<rparr>) (take_lock c PtableLock m) = z"
    by (simp add: z_def set_proc_take_lock)
  ultimately show "sleep ch (Some PtableLock) (take_lock c PtableLock m) = Switch z"
    using myproc_eq[OF on_cpu_take_lock[OF c], of PtableLock] i c by (simp add: sleep_def on_cpuD)
qed

text \<open>The first zombie among the children of \<open>cur\<close>.\<close>

definition first_zombie :: "nat \<Rightarrow> kernel \<Rightarrow> nat option" where
  "first_zombie cur s = find (\<lambda>j. parent (procs s ! j) = Some cur \<and> pstate (procs s ! j) = ZOMBIE) [0..<length (procs s)]"

lemma find_filter: "find P (filter Q xs) = find (\<lambda>x. Q x \<and> P x) xs"
  by (induction xs) auto

lemma wait_eq:
  assumes r: "running c cur (kmach s)" "\<And>l. lock_free l (kmach s)" and n: "ncli (cpus (kmach s) ! c) = 0"
  defines "a \<equiv> set_kmach (take_lock c PtableLock (kmach s)) s"
  shows "wait s = (case first_zombie cur s of
      Some j \<Rightarrow> reap j a
    | None \<Rightarrow>
        if (\<forall>j < length (procs s). parent (procs s ! j) \<noteq> Some cur) \<or> killed (procs s ! cur) then Ok (-1) s
        else Switch (set_kmach (take_lock c PtableLock
          (set_proc cur (\<lambda>q. q\<lparr>pchan := Some (ChProc cur), pstate := SLEEPING\<rparr>) (kmach s))) s))"
proof -
  have c: "on_cpu c (kmach s)" using r(1) by (simp add: running_def)
  have tab: "procs a = procs s" "kproc j a = procs s ! j" for j by (simp_all add: a_def procs_def kproc_def)
  have rel: "on_mach (release PtableLock) a = Ok () s" using k_release[of a c PtableLock "kmach s"] c r(2) by (simp add: a_def)
  have sl: "on_mach (sleep (ChProc cur) (Some PtableLock)) a = Switch (set_kmach (take_lock c PtableLock
      (set_proc cur (\<lambda>q. q\<lparr>pchan := Some (ChProc cur), pstate := SLEEPING\<rparr>) (kmach s))) s)"
    using on_mach_Switch[of "sleep (ChProc cur) (Some PtableLock)" a] sleep_on_table(1)[OF r(1) n, of "ChProc cur"]
    by (simp add: a_def)
  have kids: "filter (\<lambda>j. parent (procs s ! j) = Some cur) [0..<length (procs s)] = [] \<longleftrightarrow>
      (\<forall>j < length (procs s). parent (procs s ! j) \<noteq> Some cur)"
    by (auto simp: filter_empty_conv)
  have "wait s = wait_loop cur a"
    using k_curproc[OF r(1)] k_acquire[OF c r(2)] by (simp add: wait_def a_def)
  also have "\<dots> = (case first_zombie cur s of Some j \<Rightarrow> reap j a
    | None \<Rightarrow> if (\<forall>j < length (procs s). parent (procs s ! j) \<noteq> Some cur) \<or> killed (procs s ! cur) then Ok (-1) s
        else Switch (set_kmach (take_lock c PtableLock
          (set_proc cur (\<lambda>q. q\<lparr>pchan := Some (ChProc cur), pstate := SLEEPING\<rparr>) (kmach s))) s))"
    unfolding wait_loop_def tab Let_def find_filter kids first_zombie_def[symmetric] rel sl
    by (simp split: option.split)
  finally show ?thesis .
qed

lemma dead_space_locked:
  assumes "dead_space c j ps s" "on_cpu c m" "\<And>l. lock_free l m" "ptable m = procs s"
  shows "dead_space c j ps (set_kmach (take_lock c PtableLock m) s)"
proof -
  have "lock_free l (take_lock c PtableLock m) \<or> l = PtableLock" for l using assms(3)[of l] by (auto simp: lock_free_def)
  then have "space_ok c (p_pgdir (procs s ! j)) ps (with_km (take_lock c PtableLock m) (get_vm s))"
    using assms(1,2) by (intro space_ok_km) (simp_all add: dead_space_def Let_def on_cpu_take_lock)
  moreover have "procs (set_kmach (take_lock c PtableLock m) s) = procs s" using assms(4) by (simp add: procs_def)
  ultimately show ?thesis using assms(1) by (simp add: dead_space_def Let_def)
qed

text \<open>The branch that finds a zombie.\<close>

lemma wait_zombie:
  assumes r: "running c cur (kmach s)" "\<And>l. lock_free l (kmach s)" and n: "ncli (cpus (kmach s) ! c) = 0"
    and z: "first_zombie cur s = Some j" and D: "dead_space c j ps s"
  defines "q \<equiv> procs s ! j"
  shows "\<exists>ps' s'. wait s = Ok (pid q) s' \<and> procs s' = (procs s)[j := reaped q] \<and> running c cur (kmach s') \<and>
    (\<forall>l. lock_free l (kmach s')) \<and> vgood c ps' (get_vm s') \<and>
    freed (insert (kstack q) (held (kmem s) (p_pgdir q))) ps (get_vm s) ps' (get_vm s')"
proof -
  let ?a = "set_kmach (take_lock c PtableLock (kmach s)) s"
  have c: "on_cpu c (kmach s)" using r(1) by (simp add: running_def)
  have tab: "procs ?a = procs s" by (simp add: procs_def)
  have j: "j < length (procs s)" using find_upt_Some z unfolding first_zombie_def by blast
  have Da: "dead_space c j ps ?a" by (rule dead_space_locked[OF D c r(2)]) (simp add: procs_def)
  have vm: "vmem (get_vm ?a) = kmem s" by (simp add: kmem_def vmem_def get_vm_def put_mach_def)
  obtain ps' s' where s': "reap j ?a = Ok (pid q) s'" "kmach s' = set_proc j reaped (kmach s)" "vgood c ps' (get_vm s')"
    "freed (insert (kstack q) (held (kmem s) (p_pgdir q))) ps (get_vm ?a) ps' (get_vm s')"
    using reap_eq[OF _ c r(2) _ Da] j unfolding tab vm q_def by auto
  have "freed V ps (get_vm ?a) ps' (get_vm s') = freed V ps (get_vm s) ps' (get_vm s')" for V
    by (simp add: freed_def)
  moreover have "wait s = Ok (pid q) s'" using wait_eq[OF r n] z s'(1) by simp
  moreover have "procs s' = (procs s)[j := reaped q]" by (simp add: procs_def s'(2) q_def)
  moreover have "running c cur (kmach s')" "lock_free l (kmach s')" for l using r by (simp_all add: s'(2) running_def) (simp add: set_proc_def)
  ultimately show ?thesis using s'(3,4) by (intro exI[of _ ps'] exI[of _ s']) auto
qed

text \<open>C18: \<open>wait\<close> on every branch.  If a child is a zombie, the first one in the table is removed: \<open>wait\<close>
  returns its pid, its slot is unused, no other slot changes and all locks are free; every page its
  address space held, and its kernel stack, lose exactly one reference, the pages without one are
  free, and no byte outside the free pages changes.  Without children, or when the caller has been
  killed, the result is \<open>-1\<close> and nothing changes.  Otherwise the caller sleeps on its own address
  until a child exits, and only its slot changes.\<close>

theorem wait_reaps_zombie:
  assumes "running c cur (kmach s)" and "\<forall>l. lock_free l (kmach s)" and "ncli (cpus (kmach s) ! c) = 0"
    and "\<forall>j < length (procs s). parent (procs s ! j) = Some cur \<and> pstate (procs s ! j) = ZOMBIE \<longrightarrow> dead_space c j ps s"
  shows "case first_zombie cur s of
      Some j \<Rightarrow> (\<exists>ps' s'. wait s = Ok (pid (procs s ! j)) s' \<and> procs s' = (procs s)[j := reaped (procs s ! j)] \<and>
        (\<forall>l. lock_free l (kmach s')) \<and> vgood c ps' (get_vm s') \<and>
        freed (insert (kstack (procs s ! j)) (held (kmem s) (p_pgdir (procs s ! j)))) ps (get_vm s) ps' (get_vm s'))
    | None \<Rightarrow> if (\<forall>j < length (procs s). parent (procs s ! j) \<noteq> Some cur) \<or> killed (procs s ! cur) then wait s = Ok (-1) s
        else (\<exists>s'. wait s = Switch s' \<and> held_by c PtableLock (kmach s') \<and> get_vm s' = with_km (kmach s') (get_vm s) \<and>
          procs s' = (procs s)[cur := (procs s ! cur)\<lparr>pchan := Some (ChProc cur), pstate := SLEEPING\<rparr>])"
proof (cases "first_zombie cur s")
  case None
  let ?m = "take_lock c PtableLock (set_proc cur (\<lambda>q. q\<lparr>pchan := Some (ChProc cur), pstate := SLEEPING\<rparr>) (kmach s))"
  have "procs (set_kmach ?m s) = (procs s)[cur := (procs s ! cur)\<lparr>pchan := Some (ChProc cur), pstate := SLEEPING\<rparr>]"
    by (simp add: procs_def)
  moreover have "held_by c PtableLock (kmach (set_kmach ?m s))" by simp
  ultimately show ?thesis using wait_eq[of c cur s] assms(1-3) None by auto
next
  case (Some j)
  then have j: "j < length (procs s)" "parent (procs s ! j) = Some cur" "pstate (procs s ! j) = ZOMBIE"
    using find_upt_Some unfolding first_zombie_def by blast+
  then have "dead_space c j ps s" using assms(4) by blast
  then obtain ps' s' where "wait s = Ok (pid (procs s ! j)) s'" "procs s' = (procs s)[j := reaped (procs s ! j)]"
    "\<forall>l. lock_free l (kmach s')" "vgood c ps' (get_vm s')"
    "freed (insert (kstack (procs s ! j)) (held (kmem s) (p_pgdir (procs s ! j)))) ps (get_vm s) ps' (get_vm s')"
    using wait_zombie[OF assms(1) _ assms(3) Some] assms(2) by blast
  then show ?thesis unfolding Some option.case by blast
qed

section \<open>fork, then wait\<close>

text \<open>The child of a fork is an address space that can be given up, and what its pages are.\<close>

lemma forked_child_dead:
  assumes "can_fork c cur np d ps s" and e: "KERNBASE < kend (vk (get_vm s))"
  defines "q \<equiv> procs s ! cur" and "n \<equiv> pages_of (p_sz (procs s ! cur))"
  defines "F \<equiv> frame_at (kmem s) (p_pgdir q) ` {va. pageno va < n}"
  shows "\<exists>pgdir ps' s'. fork s = Ok (nextpid (kmach s)) s' \<and>
    procs s' = (procs s)[np := child cur (hd ps) (nextpid (kmach s)) pgdir q (procs s ! np)] \<and>
    running c cur (kmach s') \<and> (\<forall>l. lock_free l (kmach s')) \<and> cpus (kmach s') = cpus (kmach s) \<and> kend (vk (get_vm s')) = kend (vk (get_vm s)) \<and>
    held (kmem s') pgdir = F \<union> (set (tl ps) - set ps') \<and> set ps' \<subseteq> set (tl ps) \<and>
    space_ok c pgdir ps' (get_vm s') \<and>
    (\<forall>p. page_ok (kend (vk (get_vm s))) p \<longrightarrow> rcount (vk (get_vm s')) (page_index p) =
       rcount (vk (get_vm s)) (page_index p) + (if p \<in> F \<union> (set ps - set ps') then 1 else 0)) \<and>
    F \<inter> set ps = {} \<and> (\<forall>p\<in>F. page_ok (kend (vk (get_vm s))) p \<and> 0 < rcount (vk (get_vm s)) (page_index p)) \<and>
    (\<forall>m. (\<forall>x. (\<forall>p \<in> set ps. \<not> in_page p x) \<longrightarrow> m x = kmem s' x) \<longrightarrow>
       (\<forall>va. pageno va < n \<longrightarrow> user_load m (p_pgdir q) va = user_load (kmem s) (p_pgdir q) va))"
proof -
  let ?e = "kend (vk (get_vm s))"
  note D = assms(1)[unfolded can_fork_def Let_def, folded q_def]
  have fr: "fork_ready c (p_pgdir q) (p_sz q) ps (get_vm s)" and "ps \<noteq> []" using D by auto
  note U0 = fork_readyD(2)[OF fr] and pool0 = fork_readyD(3)[OF fr]
  obtain p0 qs where ps: "ps = p0 # qs" using \<open>ps \<noteq> []\<close> by (cases ps) auto
  obtain pgdir t t' ps' s' where r: "fork s = Ok (nextpid (kmach s)) s'"
    "procs s' = (procs s)[np := child cur (hd ps) (nextpid (kmach s)) pgdir q (procs s ! np)]"
    "running c cur (kmach s')" "\<And>l. lock_free l (kmach s')" "kvm s' = kvm t'"
    and cpus: "cpus (kmach s') = cpus (kmach s)" and r': "fork_ready c (p_pgdir q) (p_sz q) (tl ps) (get_vm t)" "page_taken ps s t"
    "copied c 1 (copy_slots n) pgdir (p_pgdir q) (tl ps) (get_vm t) n ps' (kvm t')"
    "\<And>va. pageno va < n \<Longrightarrow> user_load (kmem t') (p_pgdir q) va = user_load (kmem s) (p_pgdir q) va"
    using fork_result[OF assms(1)] unfolding q_def n_def by blast
  have tk: "vmem (get_vm t) = kmem s" "kend (vk (get_vm t)) = ?e"
    "rcount (vk (get_vm t)) = (rcount (vk (get_vm s)))(page_index p0 := 1)"
    using r'(2) by (simp_all add: page_taken_def ps get_vm_def vmem_def kmem_def)
  have vs: "vmem (get_vm s) = kmem s" by (simp add: get_vm_def vmem_def kmem_def)
  have vs': "get_vm s' = with_km (kmach s') (kvm t')" "kmem s' = vmem (kvm t')" "kmem t' = vmem (kvm t')"
    by (simp_all add: get_vm_def kmem_def vmem_def r(5))
  have I: "copied c 1 (copy_slots (pages_of (p_sz q))) pgdir (p_pgdir q) qs (get_vm t) (pages_of (p_sz q)) ps' (kvm t')"
    using r'(3) by (simp add: n_def q_def ps)
  have ready: "fork_ready c (p_pgdir q) (p_sz q) qs (get_vm t)" using r'(1) by (simp add: ps)
  note U = fork_readyD(2)[OF ready] and pool = fork_readyD(3)[OF ready] and cp = copiedD[OF I]
  have et: "KERNBASE < kend (vk (get_vm t))" using e tk(2) by simp
  note sp = forked_space[OF ready et I, unfolded tk(1)]
  have nq: "n = pages_of (p_sz q)" by (simp add: n_def q_def)
  have F: "page_ok ?e p" "0 < rcount (vk (get_vm s)) (page_index p)" "p \<notin> set ps" if "p \<in> F" for p
    using that U0 pool0[of p] by (auto simp: user_pages_def F_def vs nq)
  have dist: "p0 \<notin> set qs" using fr by (simp add: fork_ready_def vgood_def pool_inv_def ps)
  have H: "held (kmem s') pgdir = F \<union> (set (tl ps) - set ps')"
    unfolding held_def vs'(2) sp(2,3) by (simp add: F_def nq ps)
  have cnt: "rcount (vk (kvm t')) (page_index p) = rcount (vk (get_vm s)) (page_index p) + (if p \<in> F \<union> (set ps - set ps') then 1 else 0)"
    if ok: "page_ok ?e p" for p
  proof -
    have tp: "rcount (vk (get_vm t)) (page_index p) = (if p = p0 then 1 else rcount (vk (get_vm s)) (page_index p))"
      using page_index_inj[OF ok, of ?e p0] pool0[of p0] by (simp add: tk(3) ps)
    have Ft: "(\<exists>va. pageno va < n \<and> frame_at (kmem s) (p_pgdir q) va = p) \<longleftrightarrow> p \<in> F" by (auto simp: F_def)
    consider "p \<in> set ps'" | "p \<in> set qs" "p \<notin> set ps'" | "p \<notin> set qs" by blast
    then show ?thesis
    proof cases
      case 1
      then have "p \<in> set ps" using cp(4) ps by auto
      then show ?thesis using 1 F(3) dirsD(4)[OF cp(1) 1] pool0 by auto
    next
      case 2
      then have "p \<in> set ps" by (simp add: ps)
      then show ?thesis using 2 cp(12)[of p] pool0 by simp
    next
      case 3
      have "rcount (vk (kvm t')) (page_index p) = rcount (vk (get_vm t)) (page_index p) + (if p \<in> F then 1 else 0)"
        using copied_counts[OF U I pool, of p] ok 3 Ft unfolding tk(1,2) nq[symmetric] by simp
      then show ?thesis using 3 cp(4) F(3)[of p] pool0[of p] by (auto simp: tp ps)
    qed
  qed
  have free: "set ps' \<subseteq> set qs" by (rule cp(4))
  have "space_ok c pgdir ps' (get_vm s')"
    unfolding vs'(1) by (rule space_ok_km[OF sp(1)]) (use r(3,4) in \<open>simp_all add: running_def\<close>)
  moreover have "user_load m (p_pgdir q) va = user_load (kmem s) (p_pgdir q) va"
    if m: "\<forall>x. (\<forall>p \<in> set ps. \<not> in_page p x) \<longrightarrow> m x = kmem s' x" and va: "pageno va < n" for m va
  proof -
    have kept: "m x = vmem (kvm t') x"
      if p: "p \<in> dir_pages (vmem (get_vm t)) (p_pgdir q) \<union> frame_at (vmem (get_vm t)) (p_pgdir q) ` {va. pageno va < pages_of (p_sz q)}"
        "in_page p x" for p x
    proof -
      have "p \<in> dir_pages (kmem s) (p_pgdir q) \<union> F" using p(1) by (simp add: tk(1) F_def nq)
      then have "page_ok ?e p" "p \<notin> set ps" using F(1,3) U0 dir_okD(2) by (auto simp: user_pages_def vs)
      then have "\<forall>r \<in> set ps. \<not> in_page r x" using pages_disjoint[of ?e _ ?e p x] pool0 p(2) by blast
      then show ?thesis using m vs'(2) by simp
    qed
    have "user_load m (p_pgdir q) va = user_load (vmem (kvm t')) (p_pgdir q) va"
      by (rule parent_kept(2)[OF U I pool kept]) (use va nq in simp_all)
    then show ?thesis using r'(4)[OF va] vs'(3) by simp
  qed
  moreover have "F \<inter> set ps = {}" "\<forall>p\<in>F. page_ok ?e p \<and> 0 < rcount (vk (get_vm s)) (page_index p)" using F by blast+
  moreover have "rcount (vk (get_vm s')) = rcount (vk (kvm t'))" "kend (vk (get_vm s')) = ?e" "set ps' \<subseteq> set (tl ps)"
    using cp(6) tk(2) free by (simp_all add: vs'(1) ps)
  ultimately show ?thesis
    using r(1-4) cpus H cnt by (intro exI[of _ pgdir] exI[of _ ps'] exI[of _ s'] conjI) simp_all
qed

text \<open>The child as a zombie.\<close>

lemma forked_zombie:
  assumes "can_fork c cur np d ps s" and "ncli (cpus (kmach s) ! c) = 0"
    and zs: "\<forall>j < length (procs s). parent (procs s ! j) = Some cur \<longrightarrow> pstate (procs s ! j) \<noteq> ZOMBIE"
    and r: "procs s1 = (procs s)[np := child cur (hd ps) (nextpid (kmach s)) pgdir (procs s ! cur) (procs s ! np)]"
      "running c cur (kmach s1)" "\<forall>l. lock_free l (kmach s1)" "cpus (kmach s1) = cpus (kmach s)"
      "kend (vk (get_vm s1)) = kend (vk (get_vm s))"
      "held (kmem s1) pgdir = F \<union> (set (tl ps) - set ps1)" "set ps1 \<subseteq> set (tl ps)" "space_ok c pgdir ps1 (get_vm s1)"
      "\<forall>p. page_ok (kend (vk (get_vm s))) p \<longrightarrow> rcount (vk (get_vm s1)) (page_index p) =
         rcount (vk (get_vm s)) (page_index p) + (if p \<in> F \<union> (set ps - set ps1) then 1 else 0)" "F \<inter> set ps = {}"
  defines "z \<equiv> kset_proc np (\<lambda>p. p\<lparr>pstate := ZOMBIE\<rparr>) s1"
    and "q \<equiv> (child cur (hd ps) (nextpid (kmach s)) pgdir (procs s ! cur) (procs s ! np))\<lparr>pstate := ZOMBIE\<rparr>"
  shows "procs z = (procs s)[np := q]" "running c cur (kmach z)" "lock_free l (kmach z)" "ncli (cpus (kmach z) ! c) = 0"
    "get_vm z = with_km (kmach z) (get_vm s1)" "kmem z = kmem s1" "np < length (procs s)"
    "first_zombie cur z = Some np" "dead_space c np ps1 z"
    "set ps = insert (hd ps) (set (tl ps))" "hd ps \<notin> set (tl ps)"
    "j < length (procs z) \<Longrightarrow> parent (procs z ! j) = Some cur \<Longrightarrow> pstate (procs z ! j) = ZOMBIE \<Longrightarrow> j = np"
proof -
  let ?e = "kend (vk (get_vm s))"
  note D = assms(1)[unfolded can_fork_def Let_def]
  have fr: "fork_ready c (p_pgdir (procs s ! cur)) (p_sz (procs s ! cur)) ps (get_vm s)" and ne: "ps \<noteq> []" using D by auto
  note pool = fork_readyD(3)[OF fr]
  show ps: "set ps = insert (hd ps) (set (tl ps))" "hd ps \<notin> set (tl ps)"
    using ne fr by (cases ps; simp add: fork_ready_def vgood_def pool_inv_def)+
  show np: "np < length (procs s)" using D find_upt_Some by blast
  show z: "procs z = (procs s)[np := q]" "running c cur (kmach z)" "lock_free l (kmach z)" "ncli (cpus (kmach z) ! c) = 0"
    "get_vm z = with_km (kmach z) (get_vm s1)" "kmem z = kmem s1" for l
    using r(1-4) assms(2) np by (simp_all add: kset_proc_set procs_def running_def z_def q_def)
      (simp_all add: set_proc_def kmem_def put_mach_def)
  have "find (\<lambda>j. parent (procs z ! j) = Some cur \<and> pstate (procs z ! j) = ZOMBIE) [0..<length (procs z)] = Some np"
    unfolding find_Some_iff
    by (intro exI[of _ np]) (use zs np in \<open>auto simp: z(1) q_def child_def nth_list_update\<close>)
  then show "first_zombie cur z = Some np" by (simp add: first_zombie_def)
  show "j < length (procs z) \<Longrightarrow> parent (procs z ! j) = Some cur \<Longrightarrow> pstate (procs z ! j) = ZOMBIE \<Longrightarrow> j = np"
    using zs np by (cases "j = np") (auto simp: z(1))
  have slot: "procs z ! np = q" using np z(1) by simp
  show "dead_space c np ps1 z"
  proof -
    have h: "hd ps \<in> set ps - set ps1" "page_ok ?e (hd ps)" "rcount (vk (get_vm s)) (page_index (hd ps)) = 0"
      using ps r(7) pool[of "hd ps"] ne by auto
    have "space_ok c pgdir ps1 (get_vm z)" unfolding z(5)
      by (rule space_ok_km[OF r(8)]) (use z(2,3) in \<open>simp_all add: running_def\<close>)
    moreover have "rcount (vk (get_vm s1)) (page_index (hd ps)) = 1" using r(9) h by simp
    moreover have "hd ps \<notin> held (kmem s1) pgdir" using r(6,10) h(1) ps(2) by auto
    moreover have "vmem (get_vm z) = kmem s1" using z(6) by (simp add: get_vm_def kmem_def vmem_def)
    ultimately show ?thesis
      using h(2) r(5) unfolding dead_space_def Let_def slot by (simp add: z(5) q_def child_def newborn_def)
  qed
qed


text \<open>Process 1 of \<open>fork_kernel\<close>, whose child is not yet a zombie, forks, and the new child exits.\<close>

definition young_family :: kernel where
  "young_family = kset_proc 2 (\<lambda>p. p\<lparr>pstate := RUNNABLE\<rparr>) fork_kernel"

lemma young_family_table:
  "procs young_family = (procs fork_kernel)[2 := (procs fork_kernel ! 2)\<lparr>pstate := RUNNABLE\<rparr>]"
  "length (procs fork_kernel) = 4" "pstate (procs fork_kernel ! 0) = SLEEPING" "pstate (procs fork_kernel ! Suc 0) = RUNNING"
  "pstate (procs fork_kernel ! 2) = ZOMBIE" "pstate (procs fork_kernel ! 3) = UNUSED"
  by (simp_all add: young_family_def kset_proc_set procs_def)
    (simp_all add: fork_kernel_fields fork_mach_def family_table nth_append zero_proc_def)

lemma young_family_ready: "can_fork 0 1 3 0 free_pages young_family"
proof -
  note D = fork_kernel_ready[unfolded can_fork_def Let_def]
  have q: "procs young_family ! 1 = procs fork_kernel ! 1" "procs young_family ! 3 = procs fork_kernel ! 3"
    by (simp_all add: young_family_table(1))
  have km: "running 0 1 (kmach young_family)" "lock_free l (kmach young_family)" for l
    using D by (simp_all add: young_family_def kset_proc_set running_def) (simp add: set_proc_def)
  have vm: "get_vm young_family = with_km (kmach young_family) (get_vm fork_kernel)"
    by (simp add: young_family_def kset_proc_set)
  have "fork_ready 0 (p_pgdir (procs fork_kernel ! 1)) (p_sz (procs fork_kernel ! 1)) free_pages (get_vm young_family)"
    using D km unfolding vm fork_ready_def vgood_def kquiet_def user_pages_def data_ok_def pool_inv_def
    by (simp add: vmem_def running_def)
  moreover have "find (\<lambda>i. pstate (procs young_family ! i) = UNUSED) [0..<length (procs young_family)] = Some 3"
  proof -
    have "[0..<4] = [0, 1, 2, 3 :: nat]" by (simp add: upt_rec)
    then show ?thesis by (simp add: young_family_table)
  qed
  moreover have "ftable young_family = ftable fork_kernel" "inodes (kfs young_family) = inodes (kfs fork_kernel)"
    by (simp_all add: young_family_def kset_proc_set) (simp_all add: put_mach_def)
  ultimately show ?thesis using D km unfolding can_fork_def Let_def q by simp
qed

lemma young_family_facts:
  "KERNBASE < kend (vk (get_vm young_family))" "ncli (cpus (kmach young_family) ! 0) = 0" "nextpid (kmach young_family) = 4"
  "\<forall>j < length (procs young_family). parent (procs young_family ! j) = Some 1 \<longrightarrow> pstate (procs young_family ! j) \<noteq> ZOMBIE"
proof -
  show "KERNBASE < kend (vk (get_vm young_family))"
    using parent_end by (simp add: young_family_def kset_proc_set get_vm_def put_mach_def fork_kernel_fields)
  show "ncli (cpus (kmach young_family) ! 0) = 0" "nextpid (kmach young_family) = 4"
    using family_table(3) by (simp_all add: young_family_def kset_proc_set fork_kernel_fields set_proc_def fork_mach_def)
      (simp add: family_mach_def)
  have "pstate (procs young_family ! j) \<noteq> ZOMBIE" if j: "j < 4" for j
  proof -
    consider "j = 0" | "j = 1" | "j = 2" | "j = 3" using j by linarith
    then show ?thesis by cases (simp_all add: young_family_table)
  qed
  then show "\<forall>j < length (procs young_family). parent (procs young_family ! j) = Some 1 \<longrightarrow> pstate (procs young_family ! j) \<noteq> ZOMBIE"
    by (simp add: young_family_table)
qed


theorem wait_reaps_zombie_witness:
  "\<exists>z s'. running 0 1 (kmach z) \<and> pid (procs z ! 3) = 4 \<and> pstate (procs z ! 3) = ZOMBIE \<and>
    wait z = Ok 4 s' \<and> pstate (procs s' ! 3) = UNUSED"
proof -
  let ?s = "young_family"
  define F where "F = frame_at (kmem ?s) (p_pgdir (procs ?s ! 1)) ` {va. pageno va < pages_of (p_sz (procs ?s ! 1))}"
  let ?e = "kend (vk (get_vm ?s))"
  obtain pgdir ps1 s1 where r: "procs s1 = (procs ?s)[3 := child 1 (hd free_pages) (nextpid (kmach ?s)) pgdir (procs ?s ! 1) (procs ?s ! 3)]"
    "running 0 1 (kmach s1)" "\<forall>l. lock_free l (kmach s1)" "cpus (kmach s1) = cpus (kmach ?s)" "kend (vk (get_vm s1)) = ?e"
    "held (kmem s1) pgdir = F \<union> (set (tl free_pages) - set ps1)" "set ps1 \<subseteq> set (tl free_pages)" "space_ok 0 pgdir ps1 (get_vm s1)"
    "\<forall>p. page_ok ?e p \<longrightarrow> rcount (vk (get_vm s1)) (page_index p) =
       rcount (vk (get_vm ?s)) (page_index p) + (if p \<in> F \<union> (set free_pages - set ps1) then 1 else 0)"
    "F \<inter> set free_pages = {}"
    using forked_child_dead[OF young_family_ready young_family_facts(1)] unfolding F_def[symmetric] by blast
  let ?z = "kset_proc 3 (\<lambda>p. p\<lparr>pstate := ZOMBIE\<rparr>) s1"
  note Z = forked_zombie[OF young_family_ready young_family_facts(2,4) r]
  have slot: "procs ?z ! 3 = (child 1 (hd free_pages) (nextpid (kmach ?s)) pgdir (procs ?s ! 1) (procs ?s ! 3))\<lparr>pstate := ZOMBIE\<rparr>"
    using Z(1,7) by simp
  have free: "\<forall>l. lock_free l (kmach ?z)" using Z(3) by blast
  have dead: "\<forall>j < length (procs ?z). parent (procs ?z ! j) = Some 1 \<and> pstate (procs ?z ! j) = ZOMBIE \<longrightarrow> dead_space 0 j ps1 ?z"
    using Z(9,12) by blast
  have p: "pid (procs ?z ! 3) = 4" "pstate (procs ?z ! 3) = ZOMBIE"
    unfolding slot by (simp_all add: child_def newborn_def young_family_facts(3))
  obtain s' where s': "wait ?z = Ok (pid (procs ?z ! 3)) s'" "procs s' = (procs ?z)[3 := reaped (procs ?z ! 3)]"
    using wait_reaps_zombie[OF Z(2) free Z(4) dead] unfolding Z(8) option.case by blast
  have "pstate (procs s' ! 3) = UNUSED" using Z(1,7) s'(2) by (simp add: reaped_def)
  then show ?thesis using Z(2) p s'(1) by (intro exI[of _ ?z] exI[of _ s']) simp
qed

end
