(* ===== verification/Redblack.thy ===== *)
theory Redblack
  imports Prelude "HOL-Library.Monad_Syntax" "HOL-Library.Multiset"
begin

text \<open>
  rb.cpp: insertion into a red-black tree whose nodes point to their children and to their parent.
  The nodes are cells of a heap and a pointer is an address or null; reading or writing through a null
  pointer is \<open>None\<close>, and so is a loop that does not end.  The file holds a stub of \<open>insert\<close> next to the
  complete function; the complete one is modelled.
\<close>

section \<open>The program\<close>

type_synonym ptr = "nat option"

record rbnode =
  ndata :: int
  ncolor :: int
  nparent :: ptr
  nright :: ptr
  nleft :: ptr

text \<open>\<open>rb_next\<close> is the address of the next \<open>new\<close>.\<close>

record rbtree =
  rb_root :: ptr
  rb_heap :: "nat \<Rightarrow> rbnode option"
  rb_next :: nat

definition new_tree :: rbtree where
  "new_tree = \<lparr>rb_root = None, rb_heap = (\<lambda>_. None), rb_next = 0\<rparr>"

definition new_node :: "int \<Rightarrow> rbnode" where
  "new_node d = \<lparr>ndata = d, ncolor = 1, nparent = None, nright = None, nleft = None\<rparr>"

definition rd :: "ptr \<Rightarrow> rbtree \<Rightarrow> rbnode option" where
  "rd p s = (case p of None \<Rightarrow> None | Some a \<Rightarrow> rb_heap s a)"

definition wr :: "ptr \<Rightarrow> (rbnode \<Rightarrow> rbnode) \<Rightarrow> rbtree \<Rightarrow> rbtree option" where
  "wr p f s = do { n \<leftarrow> rd p s; Some (s\<lparr>rb_heap := (rb_heap s)(the p := Some (f n))\<rparr>) }"

partial_function (option) insert_at :: "ptr \<Rightarrow> ptr \<Rightarrow> rbtree \<Rightarrow> rbtree option" where
  "insert_at start new s =
     do {
       n \<leftarrow> rd new s;
       m \<leftarrow> rd start s;
       if ndata n < ndata m
       then if nleft m = None
         then do { s \<leftarrow> wr start (\<lambda>x. x\<lparr>nleft := new\<rparr>) s; wr new (\<lambda>x. x\<lparr>nparent := start\<rparr>) s }
         else insert_at (nleft m) new s
       else if nright m = None
         then do { s \<leftarrow> wr start (\<lambda>x. x\<lparr>nright := new\<rparr>) s; wr new (\<lambda>x. x\<lparr>nparent := start\<rparr>) s }
         else insert_at (nright m) new s
     }"

definition rb_insert :: "int \<Rightarrow> rbtree \<Rightarrow> (ptr \<times> rbtree) option" where
  "rb_insert d s =
     do {
       let new = Some (rb_next s);
       let s = s\<lparr>rb_heap := (rb_heap s)(rb_next s := Some (new_node d)), rb_next := Suc (rb_next s)\<rparr>;
       if rb_root s = None
       then do { s \<leftarrow> wr new (\<lambda>x. x\<lparr>ncolor := 0\<rparr>) (s\<lparr>rb_root := new\<rparr>); Some (new, s) }
       else do { s \<leftarrow> insert_at (rb_root s) new s; Some (new, s) }
     }"

definition rightrotate :: "ptr \<Rightarrow> rbtree \<Rightarrow> rbtree option" where
  "rightrotate loc s =
     do {
       l \<leftarrow> rd loc s;
       let child = nleft l;
       c \<leftarrow> rd child s;
       s \<leftarrow> wr loc (\<lambda>x. x\<lparr>nleft := nright c\<rparr>) s;
       c \<leftarrow> rd child s;
       s \<leftarrow> (if nright c \<noteq> None then wr (nright c) (\<lambda>x. x\<lparr>nparent := loc\<rparr>) s else Some s);
       l \<leftarrow> rd loc s;
       s \<leftarrow> wr child (\<lambda>x. x\<lparr>nparent := nparent l\<rparr>) s;
       l \<leftarrow> rd loc s;
       s \<leftarrow> (if nparent l = None then Some (s\<lparr>rb_root := child\<rparr>)
             else do {
               p \<leftarrow> rd (nparent l) s;
               if loc = nleft p then wr (nparent l) (\<lambda>x. x\<lparr>nleft := child\<rparr>) s
               else wr (nparent l) (\<lambda>x. x\<lparr>nright := child\<rparr>) s
             });
       s \<leftarrow> wr child (\<lambda>x. x\<lparr>nright := loc\<rparr>) s;
       wr loc (\<lambda>x. x\<lparr>nparent := child\<rparr>) s
     }"

definition leftrotate :: "ptr \<Rightarrow> rbtree \<Rightarrow> rbtree option" where
  "leftrotate loc s =
     do {
       l \<leftarrow> rd loc s;
       let child = nright l;
       c \<leftarrow> rd child s;
       s \<leftarrow> wr loc (\<lambda>x. x\<lparr>nright := nleft c\<rparr>) s;
       c \<leftarrow> rd child s;
       s \<leftarrow> (if nleft c \<noteq> None then wr (nleft c) (\<lambda>x. x\<lparr>nparent := loc\<rparr>) s else Some s);
       l \<leftarrow> rd loc s;
       s \<leftarrow> wr child (\<lambda>x. x\<lparr>nparent := nparent l\<rparr>) s;
       l \<leftarrow> rd loc s;
       s \<leftarrow> (if nparent l = None then Some (s\<lparr>rb_root := child\<rparr>)
             else do {
               p \<leftarrow> rd (nparent l) s;
               if loc = nleft p then wr (nparent l) (\<lambda>x. x\<lparr>nleft := child\<rparr>) s
               else wr (nparent l) (\<lambda>x. x\<lparr>nright := child\<rparr>) s
             });
       s \<leftarrow> wr child (\<lambda>x. x\<lparr>nleft := loc\<rparr>) s;
       wr loc (\<lambda>x. x\<lparr>nparent := child\<rparr>) s
     }"

text \<open>\<open>uncle && uncle->color == 1\<close>\<close>

definition is_red :: "ptr \<Rightarrow> rbtree \<Rightarrow> bool option" where
  "is_red p s = (if p = None then Some False else do { u \<leftarrow> rd p s; Some (ncolor u = 1) })"

text \<open>The two halves of the loop of \<open>fixup\<close>, for a parent that is a left and a right child: the pointer and the
  tree after one round.\<close>

definition set_color :: "ptr \<Rightarrow> int \<Rightarrow> rbtree \<Rightarrow> rbtree option" where
  "set_color p c s = wr p (\<lambda>x. x\<lparr>ncolor := c\<rparr>) s"

definition fix_left :: "ptr \<Rightarrow> rbtree \<Rightarrow> (ptr \<times> rbtree) option" where
  "fix_left loc s =
     do {
       l \<leftarrow> rd loc s; p \<leftarrow> rd (nparent l) s; g \<leftarrow> rd (nparent p) s;
       let uncle = nright g;
       red \<leftarrow> is_red uncle s;
       if red
       then do {
         s \<leftarrow> set_color (nparent l) 0 s;
         s \<leftarrow> set_color uncle 0 s;
         s \<leftarrow> set_color (nparent p) 1 s;
         Some (nparent p, s)
       }
       else do {
         (loc, s) \<leftarrow> (if loc = nright p then do { s \<leftarrow> leftrotate (nparent l) s; Some (nparent l, s) } else Some (loc, s));
         l \<leftarrow> rd loc s;
         s \<leftarrow> set_color (nparent l) 0 s;
         p \<leftarrow> rd (nparent l) s;
         s \<leftarrow> set_color (nparent p) 1 s;
         p \<leftarrow> rd (nparent l) s;
         s \<leftarrow> rightrotate (nparent p) s;
         Some (loc, s)
       }
     }"

definition fix_right :: "ptr \<Rightarrow> rbtree \<Rightarrow> (ptr \<times> rbtree) option" where
  "fix_right loc s =
     do {
       l \<leftarrow> rd loc s; p \<leftarrow> rd (nparent l) s; g \<leftarrow> rd (nparent p) s;
       let uncle = nleft g;
       red \<leftarrow> is_red uncle s;
       if red
       then do {
         s \<leftarrow> set_color (nparent l) 0 s;
         s \<leftarrow> set_color uncle 0 s;
         s \<leftarrow> set_color (nparent p) 1 s;
         Some (nparent p, s)
       }
       else do {
         (loc, s) \<leftarrow> (if loc = nleft p then do { s \<leftarrow> rightrotate (nparent l) s; Some (nparent l, s) } else Some (loc, s));
         l \<leftarrow> rd loc s;
         s \<leftarrow> set_color (nparent l) 0 s;
         p \<leftarrow> rd (nparent l) s;
         s \<leftarrow> set_color (nparent p) 1 s;
         p \<leftarrow> rd (nparent l) s;
         s \<leftarrow> leftrotate (nparent p) s;
         Some (loc, s)
       }
     }"

definition red_parent :: "ptr \<Rightarrow> rbtree \<Rightarrow> bool option" where
  "red_parent loc s =
     (if loc = rb_root s then Some False
      else do { l \<leftarrow> rd loc s; p \<leftarrow> rd (nparent l) s; Some (ncolor p = 1) })"

partial_function (option) fixup :: "ptr \<Rightarrow> rbtree \<Rightarrow> rbtree option" where
  "fixup loc s =
     do {
       go \<leftarrow> red_parent loc s;
       if go
       then do {
         l \<leftarrow> rd loc s; p \<leftarrow> rd (nparent l) s; g \<leftarrow> rd (nparent p) s;
         (loc, s) \<leftarrow> (if nparent l = nleft g then fix_left loc s else fix_right loc s);
         fixup loc s
       }
       else set_color (rb_root s) 0 s
     }"

text \<open>The data in the order \<open>inorder\<close> prints them.\<close>

partial_function (option) inorder :: "ptr \<Rightarrow> rbtree \<Rightarrow> int list option" where
  "inorder start s =
     (if start = None then Some []
      else do {
        n \<leftarrow> rd start s;
        xs \<leftarrow> inorder (nleft n) s;
        ys \<leftarrow> inorder (nright n) s;
        Some (xs @ ndata n # ys)
      })"

text \<open>The loop of \<open>main\<close>.\<close>

fun rb_main :: "int list \<Rightarrow> rbtree \<Rightarrow> rbtree option" where
  "rb_main [] s = Some s"
| "rb_main (x # xs) s = do { (new, s) \<leftarrow> rb_insert x s; s \<leftarrow> fixup new s; rb_main xs s }"

section \<open>Trees in the heap\<close>

datatype shape = Tip | Nd shape nat int int shape

text \<open>A step on the way from a place of the tree to the root: the node above, and its other subtree.\<close>

datatype frame = FL nat int int shape | FR shape nat int int

fun ref :: "shape \<Rightarrow> ptr" where
  "ref Tip = None"
| "ref (Nd _ a _ _ _) = Some a"

fun pref :: "frame list \<Rightarrow> ptr" where
  "pref [] = None"
| "pref (FL a _ _ _ # _) = Some a"
| "pref (FR _ a _ _ # _) = Some a"

fun rep :: "(nat \<Rightarrow> rbnode option) \<Rightarrow> ptr \<Rightarrow> shape \<Rightarrow> bool" where
  "rep h par Tip \<longleftrightarrow> True"
| "rep h par (Nd l a c x r) \<longleftrightarrow>
     h a = Some \<lparr>ndata = x, ncolor = c, nparent = par, nright = ref r, nleft = ref l\<rparr> \<and> rep h (Some a) l \<and> rep h (Some a) r"

fun prep :: "(nat \<Rightarrow> rbnode option) \<Rightarrow> ptr \<Rightarrow> ptr \<Rightarrow> frame list \<Rightarrow> bool" where
  "prep h rt ch [] \<longleftrightarrow> rt = ch"
| "prep h rt ch (FL a c x r # P) \<longleftrightarrow>
     h a = Some \<lparr>ndata = x, ncolor = c, nparent = pref P, nright = ref r, nleft = ch\<rparr> \<and> rep h (Some a) r \<and> prep h rt (Some a) P"
| "prep h rt ch (FR l a c x # P) \<longleftrightarrow>
     h a = Some \<lparr>ndata = x, ncolor = c, nparent = pref P, nright = ch, nleft = ref l\<rparr> \<and> rep h (Some a) l \<and> prep h rt (Some a) P"

fun addrs :: "shape \<Rightarrow> nat set" where
  "addrs Tip = {}"
| "addrs (Nd l a c x r) = insert a (addrs l \<union> addrs r)"

fun apart :: "shape \<Rightarrow> bool" where
  "apart Tip \<longleftrightarrow> True"
| "apart (Nd l a c x r) \<longleftrightarrow> a \<notin> addrs l \<and> a \<notin> addrs r \<and> addrs l \<inter> addrs r = {} \<and> apart l \<and> apart r"

fun paddrs :: "frame list \<Rightarrow> nat set" where
  "paddrs [] = {}"
| "paddrs (FL a c x r # P) = insert a (addrs r \<union> paddrs P)"
| "paddrs (FR l a c x # P) = insert a (addrs l \<union> paddrs P)"

fun papart :: "frame list \<Rightarrow> bool" where
  "papart [] \<longleftrightarrow> True"
| "papart (FL a c x r # P) \<longleftrightarrow> a \<notin> addrs r \<and> a \<notin> paddrs P \<and> addrs r \<inter> paddrs P = {} \<and> apart r \<and> papart P"
| "papart (FR l a c x # P) \<longleftrightarrow> a \<notin> addrs l \<and> a \<notin> paddrs P \<and> addrs l \<inter> paddrs P = {} \<and> apart l \<and> papart P"

text \<open>The heap of \<open>s\<close> holds the tree \<open>t\<close> at the end of the path \<open>P\<close>.\<close>

definition at_path :: "rbtree \<Rightarrow> shape \<Rightarrow> frame list \<Rightarrow> bool" where
  "at_path s t P \<longleftrightarrow> rep (rb_heap s) (pref P) t \<and> prep (rb_heap s) (rb_root s) (ref t) P \<and>
     apart t \<and> papart P \<and> addrs t \<inter> paddrs P = {} \<and> (\<forall>a \<in> addrs t \<union> paddrs P. a < rb_next s)"

lemma at_path_up:
  "at_path s t (FL a c x r # P) \<longleftrightarrow> at_path s (Nd t a c x r) P"
  "at_path s t (FR l a c x # P) \<longleftrightarrow> at_path s (Nd l a c x t) P"
  by (auto simp: at_path_def)

lemma rep_cong:
  "(\<And>a. a \<in> addrs t \<Longrightarrow> h' a = h a) \<Longrightarrow> rep h' par t = rep h par t"
  by (induction t arbitrary: par) auto

lemma prep_cong:
  "(\<And>a. a \<in> paddrs P \<Longrightarrow> h' a = h a) \<Longrightarrow> prep h' rt ch P = prep h rt ch P"
proof (induction h rt ch P rule: prep.induct)
  case (2 h rt ch a c x r P)
  then show ?case using rep_cong[of r h' h] by simp
next
  case (3 h rt ch l a c x P)
  then show ?case using rep_cong[of l h' h] by simp
qed simp

lemma rep_frame: "rep h par t \<Longrightarrow> (\<And>a. a \<in> addrs t \<Longrightarrow> h' a = h a) \<Longrightarrow> rep h' par t"
  using rep_cong[of t h' h] by blast

lemma prep_frame: "prep h rt ch P \<Longrightarrow> (\<And>a. a \<in> paddrs P \<Longrightarrow> h' a = h a) \<Longrightarrow> prep h' rt ch P"
  using prep_cong[of P h' h] by blast

text \<open>A write to a cell outside a tree or path, and a new child under a path.\<close>

lemma rep_upd [simp]: "a \<notin> addrs t \<Longrightarrow> rep (h(a := v)) par t = rep h par t"
  by (rule rep_cong) auto

lemma prep_upd [simp]: "a \<notin> paddrs P \<Longrightarrow> prep (h(a := v)) rt ch P = prep h rt ch P"
  by (rule prep_cong) auto

lemma rep_parent:
  "rep h par (Nd l a c x r) \<Longrightarrow> apart (Nd l a c x r) \<Longrightarrow>
     rep (h(a := Some \<lparr>ndata = x, ncolor = c, nparent = par', nright = ref r, nleft = ref l\<rparr>)) par' (Nd l a c x r)"
  by simp

lemma pref_in: "pref P = Some a \<Longrightarrow> a \<in> paddrs P"
  by (cases P rule: pref.cases) auto

lemma prep_root: "prep h rt ch P \<Longrightarrow> P \<noteq> [] \<Longrightarrow> \<exists>b \<in> paddrs P. rt = Some b"
proof (induction h rt ch P rule: prep.induct)
  case (2 h rt ch a c x r P)
  then show ?case by (cases "P = []") auto
next
  case (3 h rt ch l a c x P)
  then show ?case by (cases "P = []") auto
qed simp

lemma rd_Some [simp]: "rd (Some a) s = rb_heap s a"
  by (simp add: rd_def)

lemma wr_Some [simp]: "rb_heap s a = Some n \<Longrightarrow> wr (Some a) f s = Some (s\<lparr>rb_heap := (rb_heap s)(a := Some (f n))\<rparr>)"
  by (simp add: wr_def)

lemma recolor:
  assumes "at_path s (Nd l a c x r) P"
  shows "\<exists>s'. set_color (Some a) k s = Some s' \<and> at_path s' (Nd l a k x r) P \<and> rb_next s' = rb_next s"
  using assms by (auto simp: set_color_def at_path_def)

section \<open>Rotations\<close>

text \<open>The child pointer above a place of the tree.\<close>

definition graft :: "ptr \<Rightarrow> ptr \<Rightarrow> ptr \<Rightarrow> rbtree \<Rightarrow> rbtree option" where
  "graft loc par child s =
     (if par = None then Some (s\<lparr>rb_root := child\<rparr>)
      else do {
        p \<leftarrow> rd par s;
        if loc = nleft p then wr par (\<lambda>x. x\<lparr>nleft := child\<rparr>) s
        else wr par (\<lambda>x. x\<lparr>nright := child\<rparr>) s
      })"

text \<open>The parent pointer of a child that may be null.\<close>

definition adopt :: "ptr \<Rightarrow> ptr \<Rightarrow> rbtree \<Rightarrow> rbtree option" where
  "adopt child par s = (if child \<noteq> None then wr child (\<lambda>x. x\<lparr>nparent := par\<rparr>) s else Some s)"

lemma ref_in: "ref t = Some a \<Longrightarrow> a \<in> addrs t"
  by (cases t) auto

lemma graft_path:
  assumes "prep (rb_heap s) (rb_root s) (Some a) P" "papart P" "a \<notin> paddrs P"
  shows "\<exists>s'. graft (Some a) (pref P) ch s = Some s' \<and> prep (rb_heap s') (rb_root s') ch P \<and>
    (\<forall>x. x \<notin> paddrs P \<longrightarrow> rb_heap s' x = rb_heap s x) \<and> rb_next s' = rb_next s"
proof (cases P rule: pref.cases)
  case (3 l b c x Q)
  then have "Some a \<noteq> ref l" using assms(3) ref_in[of l a] by auto
  then show ?thesis using assms 3 by (simp add: graft_def)
qed (use assms in \<open>simp_all add: graft_def\<close>)

lemma reparent:
  assumes "rep h (Some b) B" "apart B" "a \<notin> addrs B"
  shows "\<exists>h'. adopt (ref B) (Some a) (s\<lparr>rb_heap := h\<rparr>) = Some (s\<lparr>rb_heap := h'\<rparr>) \<and> rep h' (Some a) B \<and> (\<forall>x. x \<notin> addrs B \<longrightarrow> h' x = h x)"
proof (cases B)
  case (Nd l e k z r)
  then show ?thesis using assms by (intro exI[of _ "h(e := Some \<lparr>ndata = z, ncolor = k, nparent = Some a, nright = ref r, nleft = ref l\<rparr>)"])
    (simp add: adopt_def)
qed (auto simp: adopt_def)

lemma rot_right:
  assumes T: "at_path s (Nd (Nd A b d y B) a c x C) P"
  shows "\<exists>s'. rightrotate (Some a) s = Some s' \<and> at_path s' (Nd A b d y (Nd B a c x C)) P \<and> rb_next s' = rb_next s"
proof -
  let ?h = "rb_heap s"
  have n: "?h a = Some \<lparr>ndata = x, ncolor = c, nparent = pref P, nright = ref C, nleft = Some b\<rparr>"
    "?h b = Some \<lparr>ndata = y, ncolor = d, nparent = Some a, nright = ref B, nleft = ref A\<rparr>"
    and sub: "rep ?h (Some b) A" "rep ?h (Some b) B" "rep ?h (Some a) C" "prep ?h (rb_root s) (Some a) P"
    and ap: "a \<noteq> b" "a \<notin> addrs A" "a \<notin> addrs B" "a \<notin> addrs C" "a \<notin> paddrs P" "b \<notin> addrs A" "b \<notin> addrs B" "b \<notin> addrs C"
      "b \<notin> paddrs P" "addrs A \<inter> addrs B = {}" "addrs A \<inter> addrs C = {}" "addrs B \<inter> addrs C = {}"
      "addrs A \<inter> paddrs P = {}" "addrs B \<inter> paddrs P = {}" "addrs C \<inter> paddrs P = {}" "apart A" "apart B" "apart C" "papart P"
    and lt: "\<forall>e \<in> insert a (insert b (addrs A \<union> addrs B \<union> addrs C \<union> paddrs P)). e < rb_next s"
    using T by (auto simp: at_path_def)
  define h0 where "h0 = ?h(a := Some \<lparr>ndata = x, ncolor = c, nparent = pref P, nright = ref C, nleft = ref B\<rparr>)"
  obtain h1 where h1: "adopt (ref B) (Some a) (s\<lparr>rb_heap := h0\<rparr>) = Some (s\<lparr>rb_heap := h1\<rparr>)" "rep h1 (Some a) B" "\<forall>x. x \<notin> addrs B \<longrightarrow> h1 x = h0 x"
    using reparent[of h0 b B a s] sub(2) ap by (auto simp: h0_def)
  define h2 where "h2 = h1(b := Some \<lparr>ndata = y, ncolor = d, nparent = pref P, nright = ref B, nleft = ref A\<rparr>)"
  have same: "h2 e = ?h e" if "e \<notin> addrs B" "e \<noteq> a" "e \<noteq> b" for e using h1(3) that by (simp add: h2_def h0_def)
  have r2: "rep h2 (Some a) B" using h1(2) ap by (simp add: h2_def)
  have f2: "h2 e = ?h e" if "e \<in> addrs A \<union> addrs C \<union> paddrs P" for e
    by (rule same) (use that ap in blast)+
  have q2: "prep h2 (rb_root s) (Some a) P" "rep h2 (Some b) A" "rep h2 (Some a) C"
    by (rule prep_frame[OF sub(4)] rep_frame[OF sub(1)] rep_frame[OF sub(3)]; simp add: f2)+
  obtain s3 where s3: "graft (Some a) (pref P) (Some b) (s\<lparr>rb_heap := h2\<rparr>) = Some s3" "prep (rb_heap s3) (rb_root s3) (Some b) P"
    "\<forall>e. e \<notin> paddrs P \<longrightarrow> rb_heap s3 e = h2 e" "rb_next s3 = rb_next s"
    using graft_path[of "s\<lparr>rb_heap := h2\<rparr>" a P "Some b"] q2(1) ap by auto
  let ?h3 = "rb_heap s3"
  have n3: "?h3 a = Some \<lparr>ndata = x, ncolor = c, nparent = pref P, nright = ref C, nleft = ref B\<rparr>"
    "?h3 b = Some \<lparr>ndata = y, ncolor = d, nparent = pref P, nright = ref B, nleft = ref A\<rparr>"
    using s3(3) h1(3) ap by (simp_all add: h2_def h0_def)
  have q3: "rep ?h3 (Some b) A" "rep ?h3 (Some a) B" "rep ?h3 (Some a) C"
    by (rule rep_frame[OF q2(2)] rep_frame[OF r2] rep_frame[OF q2(3)]; use s3(3) ap in blast)+
  let ?s' = "s3\<lparr>rb_heap := ?h3(b := Some \<lparr>ndata = y, ncolor = d, nparent = pref P, nright = Some a, nleft = ref A\<rparr>,
    a := Some \<lparr>ndata = x, ncolor = c, nparent = Some b, nright = ref C, nleft = ref B\<rparr>)\<rparr>"
  have "rightrotate (Some a) s = Some ?s'"
  proof -
    have hb: "h1 b = Some \<lparr>ndata = y, ncolor = d, nparent = Some a, nright = ref B, nleft = ref A\<rparr>"
      "h1 a = Some \<lparr>ndata = x, ncolor = c, nparent = pref P, nright = ref C, nleft = ref B\<rparr>"
      using h1(3) ap n by (simp_all add: h0_def)
    have w0: "wr (Some a) (\<lambda>x. x\<lparr>nleft := ref B\<rparr>) s = Some (s\<lparr>rb_heap := h0\<rparr>)" using n(1) by (simp add: h0_def)
    have r0: "rd (Some b) (s\<lparr>rb_heap := h0\<rparr>) = Some \<lparr>ndata = y, ncolor = d, nparent = Some a, nright = ref B, nleft = ref A\<rparr>"
      using n(2) ap by (simp add: h0_def)
    have w1: "wr (Some b) (\<lambda>x. x\<lparr>nparent := pref P\<rparr>) (s\<lparr>rb_heap := h1\<rparr>) = Some (s\<lparr>rb_heap := h2\<rparr>)"
      using hb by (simp add: h2_def)
    show ?thesis
      unfolding rightrotate_def Let_def graft_def[symmetric] adopt_def[symmetric]
      using n w0 r0 h1(1) hb w1 s3(1) n3 ap by (simp add: h2_def)
  qed
  moreover have "at_path ?s' (Nd A b d y (Nd B a c x C)) P"
    using q3 s3(2,4) ap lt by (auto simp: at_path_def)
  ultimately show ?thesis using s3(4) by simp
qed

lemma rot_left:
  assumes T: "at_path s (Nd C a c x (Nd B b d y A)) P"
  shows "\<exists>s'. leftrotate (Some a) s = Some s' \<and> at_path s' (Nd (Nd C a c x B) b d y A) P \<and> rb_next s' = rb_next s"
proof -
  let ?h = "rb_heap s"
  have n: "?h a = Some \<lparr>ndata = x, ncolor = c, nparent = pref P, nright = Some b, nleft = ref C\<rparr>"
    "?h b = Some \<lparr>ndata = y, ncolor = d, nparent = Some a, nright = ref A, nleft = ref B\<rparr>"
    and sub: "rep ?h (Some b) A" "rep ?h (Some b) B" "rep ?h (Some a) C" "prep ?h (rb_root s) (Some a) P"
    and ap: "a \<noteq> b" "a \<notin> addrs A" "a \<notin> addrs B" "a \<notin> addrs C" "a \<notin> paddrs P" "b \<notin> addrs A" "b \<notin> addrs B" "b \<notin> addrs C"
      "b \<notin> paddrs P" "addrs A \<inter> addrs B = {}" "addrs A \<inter> addrs C = {}" "addrs B \<inter> addrs C = {}"
      "addrs A \<inter> paddrs P = {}" "addrs B \<inter> paddrs P = {}" "addrs C \<inter> paddrs P = {}" "apart A" "apart B" "apart C" "papart P"
    and lt: "\<forall>e \<in> insert a (insert b (addrs A \<union> addrs B \<union> addrs C \<union> paddrs P)). e < rb_next s"
    using T by (auto simp: at_path_def)
  define h0 where "h0 = ?h(a := Some \<lparr>ndata = x, ncolor = c, nparent = pref P, nright = ref B, nleft = ref C\<rparr>)"
  obtain h1 where h1: "adopt (ref B) (Some a) (s\<lparr>rb_heap := h0\<rparr>) = Some (s\<lparr>rb_heap := h1\<rparr>)" "rep h1 (Some a) B" "\<forall>x. x \<notin> addrs B \<longrightarrow> h1 x = h0 x"
    using reparent[of h0 b B a s] sub(2) ap by (auto simp: h0_def)
  define h2 where "h2 = h1(b := Some \<lparr>ndata = y, ncolor = d, nparent = pref P, nright = ref A, nleft = ref B\<rparr>)"
  have same: "h2 e = ?h e" if "e \<notin> addrs B" "e \<noteq> a" "e \<noteq> b" for e using h1(3) that by (simp add: h2_def h0_def)
  have r2: "rep h2 (Some a) B" using h1(2) ap by (simp add: h2_def)
  have f2: "h2 e = ?h e" if "e \<in> addrs A \<union> addrs C \<union> paddrs P" for e
    by (rule same) (use that ap in blast)+
  have q2: "prep h2 (rb_root s) (Some a) P" "rep h2 (Some b) A" "rep h2 (Some a) C"
    by (rule prep_frame[OF sub(4)] rep_frame[OF sub(1)] rep_frame[OF sub(3)]; simp add: f2)+
  obtain s3 where s3: "graft (Some a) (pref P) (Some b) (s\<lparr>rb_heap := h2\<rparr>) = Some s3" "prep (rb_heap s3) (rb_root s3) (Some b) P"
    "\<forall>e. e \<notin> paddrs P \<longrightarrow> rb_heap s3 e = h2 e" "rb_next s3 = rb_next s"
    using graft_path[of "s\<lparr>rb_heap := h2\<rparr>" a P "Some b"] q2(1) ap by auto
  let ?h3 = "rb_heap s3"
  have n3: "?h3 a = Some \<lparr>ndata = x, ncolor = c, nparent = pref P, nright = ref B, nleft = ref C\<rparr>"
    "?h3 b = Some \<lparr>ndata = y, ncolor = d, nparent = pref P, nright = ref A, nleft = ref B\<rparr>"
    using s3(3) h1(3) ap by (simp_all add: h2_def h0_def)
  have q3: "rep ?h3 (Some b) A" "rep ?h3 (Some a) B" "rep ?h3 (Some a) C"
    by (rule rep_frame[OF q2(2)] rep_frame[OF r2] rep_frame[OF q2(3)]; use s3(3) ap in blast)+
  let ?s' = "s3\<lparr>rb_heap := ?h3(b := Some \<lparr>ndata = y, ncolor = d, nparent = pref P, nright = ref A, nleft = Some a\<rparr>,
    a := Some \<lparr>ndata = x, ncolor = c, nparent = Some b, nright = ref B, nleft = ref C\<rparr>)\<rparr>"
  have "leftrotate (Some a) s = Some ?s'"
  proof -
    have hb: "h1 b = Some \<lparr>ndata = y, ncolor = d, nparent = Some a, nright = ref A, nleft = ref B\<rparr>"
      "h1 a = Some \<lparr>ndata = x, ncolor = c, nparent = pref P, nright = ref B, nleft = ref C\<rparr>"
      using h1(3) ap n by (simp_all add: h0_def)
    have w0: "wr (Some a) (\<lambda>x. x\<lparr>nright := ref B\<rparr>) s = Some (s\<lparr>rb_heap := h0\<rparr>)" using n(1) by (simp add: h0_def)
    have r0: "rd (Some b) (s\<lparr>rb_heap := h0\<rparr>) = Some \<lparr>ndata = y, ncolor = d, nparent = Some a, nright = ref A, nleft = ref B\<rparr>"
      using n(2) ap by (simp add: h0_def)
    have w1: "wr (Some b) (\<lambda>x. x\<lparr>nparent := pref P\<rparr>) (s\<lparr>rb_heap := h1\<rparr>) = Some (s\<lparr>rb_heap := h2\<rparr>)"
      using hb by (simp add: h2_def)
    show ?thesis
      unfolding leftrotate_def Let_def graft_def[symmetric] adopt_def[symmetric]
      using n w0 r0 h1(1) hb w1 s3(1) n3 ap by (simp add: h2_def)
  qed
  moreover have "at_path ?s' (Nd (Nd C a c x B) b d y A) P"
    using q3 s3(2,4) ap lt by (auto simp: at_path_def)
  ultimately show ?thesis using s3(4) by simp
qed

section \<open>One round of fixup\<close>

lemma at_node:
  "at_path s (Nd l a c x r) P \<Longrightarrow> rb_heap s a = Some \<lparr>ndata = x, ncolor = c, nparent = pref P, nright = ref r, nleft = ref l\<rparr>"
  "at_path s (Nd l a c x r) P \<Longrightarrow> at_path s l (FL a c x r # P)"
  "at_path s (Nd l a c x r) P \<Longrightarrow> at_path s r (FR l a c x # P)"
  by (simp_all add: at_path_up) (simp add: at_path_def)

fun root_color :: "shape \<Rightarrow> int" where
  "root_color Tip = 0"
| "root_color (Nd l a c x r) = c"

lemma is_red_at: "at_path s t P \<Longrightarrow> is_red (ref t) s = Some (root_color t = 1)"
  by (cases t) (simp_all add: is_red_def at_path_def)

text \<open>A red uncle: the grandparent becomes red and both its children black.\<close>

lemma fix_left_red:
  assumes T: "at_path s (Nd p g 0 z (Nd ul u 1 w ur)) P" and p: "p = Nd pl b c y pr" and a: "ref pl = Some a \<or> ref pr = Some a"
    and par: "rb_heap s a = Some n" "nparent n = Some b"
  shows "\<exists>s'. fix_left (Some a) s = Some (Some g, s') \<and> at_path s' (Nd (Nd pl b 0 y pr) g 1 z (Nd ul u 0 w ur)) P \<and>
    rb_next s' = rb_next s"
proof -
  note T' = T[unfolded p]
  have nb: "rb_heap s b = Some \<lparr>ndata = y, ncolor = c, nparent = Some g, nright = ref pr, nleft = ref pl\<rparr>"
    using at_node(1)[OF at_node(2)[OF T']] by simp
  obtain s1 where s1: "set_color (Some b) 0 s = Some s1" "at_path s1 (Nd (Nd pl b 0 y pr) g 0 z (Nd ul u 1 w ur)) P" "rb_next s1 = rb_next s"
    using recolor[OF at_node(2)[OF T']] by (auto simp: at_path_up)
  obtain s2 where s2: "set_color (Some u) 0 s1 = Some s2" "at_path s2 (Nd (Nd pl b 0 y pr) g 0 z (Nd ul u 0 w ur)) P" "rb_next s2 = rb_next s"
    using recolor[OF at_node(3)[OF s1(2)]] s1(3) by (auto simp: at_path_up)
  obtain s3 where s3: "set_color (Some g) 1 s2 = Some s3" "at_path s3 (Nd (Nd pl b 0 y pr) g 1 z (Nd ul u 0 w ur)) P" "rb_next s3 = rb_next s"
    using recolor[OF s2(2)] s2(3) by auto
  have "is_red (Some u) s = Some True" using is_red_at[OF at_node(3)[OF T']] by simp
  then have "fix_left (Some a) s = Some (Some g, s3)"
    using par nb at_node(1)[OF T'] s1(1) s2(1) s3(1) by (simp add: fix_left_def Let_def)
  then show ?thesis using s3 by blast
qed

text \<open>A black uncle and an outer grandchild: one rotation.\<close>

lemma fix_left_outer:
  assumes T: "at_path s (Nd (Nd (Nd l a 1 x r) b 1 y B) g 0 z U) P" and U: "root_color U \<noteq> 1"
  shows "\<exists>s'. fix_left (Some a) s = Some (Some a, s') \<and> at_path s' (Nd (Nd l a 1 x r) b 0 y (Nd B g 1 z U)) P \<and>
    rb_next s' = rb_next s"
proof -
  note na = at_node(1)[OF at_node(2)[OF at_node(2)[OF T]]] and nb = at_node(1)[OF at_node(2)[OF T]] and ng = at_node(1)[OF T]
  obtain s1 where s1: "set_color (Some b) 0 s = Some s1" "at_path s1 (Nd (Nd (Nd l a 1 x r) b 0 y B) g 0 z U) P" "rb_next s1 = rb_next s"
    using recolor[OF at_node(2)[OF T]] by (auto simp: at_path_up)
  obtain s2 where s2: "set_color (Some g) 1 s1 = Some s2" "at_path s2 (Nd (Nd (Nd l a 1 x r) b 0 y B) g 1 z U) P" "rb_next s2 = rb_next s"
    using recolor[OF s1(2)] s1(3) by auto
  obtain s3 where s3: "rightrotate (Some g) s2 = Some s3" "at_path s3 (Nd (Nd l a 1 x r) b 0 y (Nd B g 1 z U)) P" "rb_next s3 = rb_next s"
    using rot_right[OF s2(2)] s2(3) by auto
  have "Some a \<noteq> ref B"
  proof
    assume "Some a = ref B"
    then have "a \<in> addrs B" using ref_in by metis
    then show False using T by (auto simp: at_path_def)
  qed
  moreover have "is_red (ref U) s = Some False" using is_red_at[OF at_node(3)[OF T]] U by simp
  ultimately have "fix_left (Some a) s = Some (Some a, s3)"
    using na nb ng s1(1) s2(1) s3(1) at_node(1)[OF at_node(2)[OF s1(2)]] at_node(1)[OF at_node(2)[OF s2(2)]]
    by (simp add: fix_left_def Let_def)
  then show ?thesis using s3 by blast
qed

text \<open>A black uncle and an inner grandchild: two rotations.\<close>

lemma fix_left_inner:
  assumes T: "at_path s (Nd (Nd B b 1 y (Nd l a 1 x r)) g 0 z U) P" and U: "root_color U \<noteq> 1"
  shows "\<exists>s'. fix_left (Some a) s = Some (Some b, s') \<and> at_path s' (Nd (Nd B b 1 y l) a 0 x (Nd r g 1 z U)) P \<and>
    rb_next s' = rb_next s"
proof -
  note na = at_node(1)[OF at_node(3)[OF at_node(2)[OF T]]] and nb = at_node(1)[OF at_node(2)[OF T]] and ng = at_node(1)[OF T]
  obtain s0 where s0: "leftrotate (Some b) s = Some s0" "at_path s0 (Nd (Nd (Nd B b 1 y l) a 1 x r) g 0 z U) P" "rb_next s0 = rb_next s"
    using rot_left[OF at_node(2)[OF T]] by (auto simp: at_path_up)
  obtain s1 where s1: "set_color (Some a) 0 s0 = Some s1" "at_path s1 (Nd (Nd (Nd B b 1 y l) a 0 x r) g 0 z U) P" "rb_next s1 = rb_next s"
    using recolor[OF at_node(2)[OF s0(2)]] s0(3) by (auto simp: at_path_up)
  obtain s2 where s2: "set_color (Some g) 1 s1 = Some s2" "at_path s2 (Nd (Nd (Nd B b 1 y l) a 0 x r) g 1 z U) P" "rb_next s2 = rb_next s"
    using recolor[OF s1(2)] s1(3) by auto
  obtain s3 where s3: "rightrotate (Some g) s2 = Some s3" "at_path s3 (Nd (Nd B b 1 y l) a 0 x (Nd r g 1 z U)) P" "rb_next s3 = rb_next s"
    using rot_right[OF s2(2)] s2(3) by auto
  have "is_red (ref U) s = Some False" using is_red_at[OF at_node(3)[OF T]] U by simp
  then have "fix_left (Some a) s = Some (Some b, s3)"
    using na nb ng s0(1) s1(1) s2(1) s3(1) at_node(1)[OF at_node(2)[OF at_node(2)[OF s0(2)]]]
      at_node(1)[OF at_node(2)[OF at_node(2)[OF s1(2)]]] at_node(1)[OF at_node(2)[OF s1(2)]]
      at_node(1)[OF at_node(2)[OF at_node(2)[OF s2(2)]]] at_node(1)[OF at_node(2)[OF s2(2)]]
    by (simp add: fix_left_def Let_def)
  then show ?thesis using s3 by blast
qed

text \<open>The same three rounds on the other side.\<close>

lemma fix_right_red:
  assumes T: "at_path s (Nd (Nd ul u 1 w ur) g 0 z p) P" and p: "p = Nd pl b c y pr" and a: "ref pl = Some a \<or> ref pr = Some a"
    and par: "rb_heap s a = Some n" "nparent n = Some b"
  shows "\<exists>s'. fix_right (Some a) s = Some (Some g, s') \<and> at_path s' (Nd (Nd ul u 0 w ur) g 1 z (Nd pl b 0 y pr)) P \<and>
    rb_next s' = rb_next s"
proof -
  note T' = T[unfolded p]
  have nb: "rb_heap s b = Some \<lparr>ndata = y, ncolor = c, nparent = Some g, nright = ref pr, nleft = ref pl\<rparr>"
    using at_node(1)[OF at_node(3)[OF T']] by simp
  obtain s1 where s1: "set_color (Some b) 0 s = Some s1" "at_path s1 (Nd (Nd ul u 1 w ur) g 0 z (Nd pl b 0 y pr)) P" "rb_next s1 = rb_next s"
    using recolor[OF at_node(3)[OF T']] by (auto simp: at_path_up)
  obtain s2 where s2: "set_color (Some u) 0 s1 = Some s2" "at_path s2 (Nd (Nd ul u 0 w ur) g 0 z (Nd pl b 0 y pr)) P" "rb_next s2 = rb_next s"
    using recolor[OF at_node(2)[OF s1(2)]] s1(3) by (auto simp: at_path_up)
  obtain s3 where s3: "set_color (Some g) 1 s2 = Some s3" "at_path s3 (Nd (Nd ul u 0 w ur) g 1 z (Nd pl b 0 y pr)) P" "rb_next s3 = rb_next s"
    using recolor[OF s2(2)] s2(3) by auto
  have "is_red (Some u) s = Some True" using is_red_at[OF at_node(2)[OF T']] by simp
  then have "fix_right (Some a) s = Some (Some g, s3)"
    using par nb at_node(1)[OF T'] s1(1) s2(1) s3(1) by (simp add: fix_right_def Let_def)
  then show ?thesis using s3 by blast
qed

lemma fix_right_outer:
  assumes T: "at_path s (Nd U g 0 z (Nd B b 1 y (Nd l a 1 x r))) P" and U: "root_color U \<noteq> 1"
  shows "\<exists>s'. fix_right (Some a) s = Some (Some a, s') \<and> at_path s' (Nd (Nd U g 1 z B) b 0 y (Nd l a 1 x r)) P \<and>
    rb_next s' = rb_next s"
proof -
  note na = at_node(1)[OF at_node(3)[OF at_node(3)[OF T]]] and nb = at_node(1)[OF at_node(3)[OF T]] and ng = at_node(1)[OF T]
  obtain s1 where s1: "set_color (Some b) 0 s = Some s1" "at_path s1 (Nd U g 0 z (Nd B b 0 y (Nd l a 1 x r))) P" "rb_next s1 = rb_next s"
    using recolor[OF at_node(3)[OF T]] by (auto simp: at_path_up)
  obtain s2 where s2: "set_color (Some g) 1 s1 = Some s2" "at_path s2 (Nd U g 1 z (Nd B b 0 y (Nd l a 1 x r))) P" "rb_next s2 = rb_next s"
    using recolor[OF s1(2)] s1(3) by auto
  obtain s3 where s3: "leftrotate (Some g) s2 = Some s3" "at_path s3 (Nd (Nd U g 1 z B) b 0 y (Nd l a 1 x r)) P" "rb_next s3 = rb_next s"
    using rot_left[OF s2(2)] s2(3) by auto
  have "Some a \<noteq> ref B"
  proof
    assume "Some a = ref B"
    then have "a \<in> addrs B" using ref_in by metis
    then show False using T by (auto simp: at_path_def)
  qed
  moreover have "is_red (ref U) s = Some False" using is_red_at[OF at_node(2)[OF T]] U by simp
  ultimately have "fix_right (Some a) s = Some (Some a, s3)"
    using na nb ng s1(1) s2(1) s3(1) at_node(1)[OF at_node(3)[OF s1(2)]] at_node(1)[OF at_node(3)[OF s2(2)]]
    by (simp add: fix_right_def Let_def)
  then show ?thesis using s3 by blast
qed

lemma fix_right_inner:
  assumes T: "at_path s (Nd U g 0 z (Nd (Nd l a 1 x r) b 1 y B)) P" and U: "root_color U \<noteq> 1"
  shows "\<exists>s'. fix_right (Some a) s = Some (Some b, s') \<and> at_path s' (Nd (Nd U g 1 z l) a 0 x (Nd r b 1 y B)) P \<and>
    rb_next s' = rb_next s"
proof -
  note na = at_node(1)[OF at_node(2)[OF at_node(3)[OF T]]] and nb = at_node(1)[OF at_node(3)[OF T]] and ng = at_node(1)[OF T]
  obtain s0 where s0: "rightrotate (Some b) s = Some s0" "at_path s0 (Nd U g 0 z (Nd l a 1 x (Nd r b 1 y B))) P" "rb_next s0 = rb_next s"
    using rot_right[OF at_node(3)[OF T]] by (auto simp: at_path_up)
  obtain s1 where s1: "set_color (Some a) 0 s0 = Some s1" "at_path s1 (Nd U g 0 z (Nd l a 0 x (Nd r b 1 y B))) P" "rb_next s1 = rb_next s"
    using recolor[OF at_node(3)[OF s0(2)]] s0(3) by (auto simp: at_path_up)
  obtain s2 where s2: "set_color (Some g) 1 s1 = Some s2" "at_path s2 (Nd U g 1 z (Nd l a 0 x (Nd r b 1 y B))) P" "rb_next s2 = rb_next s"
    using recolor[OF s1(2)] s1(3) by auto
  obtain s3 where s3: "leftrotate (Some g) s2 = Some s3" "at_path s3 (Nd (Nd U g 1 z l) a 0 x (Nd r b 1 y B)) P" "rb_next s3 = rb_next s"
    using rot_left[OF s2(2)] s2(3) by auto
  have "is_red (ref U) s = Some False" using is_red_at[OF at_node(2)[OF T]] U by simp
  then have "fix_right (Some a) s = Some (Some b, s3)"
    using na nb ng s0(1) s1(1) s2(1) s3(1) at_node(1)[OF at_node(3)[OF at_node(3)[OF s0(2)]]]
      at_node(1)[OF at_node(3)[OF at_node(3)[OF s1(2)]]] at_node(1)[OF at_node(3)[OF s1(2)]]
      at_node(1)[OF at_node(3)[OF at_node(3)[OF s2(2)]]] at_node(1)[OF at_node(3)[OF s2(2)]]
    by (simp add: fix_right_def Let_def)
  then show ?thesis using s3 by blast
qed

section \<open>The invariant of red-black trees\<close>

text \<open>\<open>rb n t\<close>: the colours of \<open>t\<close> are right and every way down meets \<open>n\<close> black nodes.\<close>

fun rb :: "nat \<Rightarrow> shape \<Rightarrow> bool" where
  "rb n Tip \<longleftrightarrow> n = 0"
| "rb n (Nd l a c x r) \<longleftrightarrow>
     c = 1 \<and> root_color l = 0 \<and> root_color r = 0 \<and> rb n l \<and> rb n r \<or> c = 0 \<and> 0 < n \<and> rb (n - 1) l \<and> rb (n - 1) r"

fun top_color :: "frame list \<Rightarrow> int" where
  "top_color [] = 0"
| "top_color (FL a c x r # P) = c"
| "top_color (FR l a c x # P) = c"

text \<open>A path to a place for a tree with \<open>n\<close> black nodes on every way; the root is black.\<close>

fun prb :: "nat \<Rightarrow> frame list \<Rightarrow> bool" where
  "prb n [] \<longleftrightarrow> True"
| "prb n (FL a c x r # P) \<longleftrightarrow> rb n r \<and>
     (c = 1 \<and> root_color r = 0 \<and> P \<noteq> [] \<and> top_color P = 0 \<and> prb n P \<or> c = 0 \<and> prb (Suc n) P)"
| "prb n (FR l a c x # P) \<longleftrightarrow> rb n l \<and>
     (c = 1 \<and> root_color l = 0 \<and> P \<noteq> [] \<and> top_color P = 0 \<and> prb n P \<or> c = 0 \<and> prb (Suc n) P)"

fun plug :: "shape \<Rightarrow> frame list \<Rightarrow> shape" where
  "plug t [] = t"
| "plug t (FL a c x r # P) = plug (Nd t a c x r) P"
| "plug t (FR l a c x # P) = plug (Nd l a c x t) P"

fun elems :: "shape \<Rightarrow> int list" where
  "elems Tip = []"
| "elems (Nd l a c x r) = elems l @ x # elems r"

fun before :: "frame list \<Rightarrow> int list" where
  "before [] = []"
| "before (FL a c x r # P) = before P"
| "before (FR l a c x # P) = before P @ elems l @ [x]"

fun after :: "frame list \<Rightarrow> int list" where
  "after [] = []"
| "after (FL a c x r # P) = x # elems r @ after P"
| "after (FR l a c x # P) = after P"

lemma elems_plug: "elems (plug t P) = before P @ elems t @ after P"
  by (induction t P rule: plug.induct) simp_all

lemma at_path_plug: "at_path s t P \<longleftrightarrow> at_path s (plug t P) []"
  by (induction t P rule: plug.induct) (simp_all add: at_path_up)

lemma rb_color: "rb n t \<Longrightarrow> root_color t = 0 \<or> root_color t = 1"
  by (cases t) auto

lemma plug_rb:
  "rb n t \<Longrightarrow> prb n P \<Longrightarrow> root_color t = 0 \<Longrightarrow> \<exists>m. rb m (plug t P) \<and> root_color (plug t P) = 0"
  "rb n t \<Longrightarrow> prb n P \<Longrightarrow> top_color P = 0 \<Longrightarrow> P \<noteq> [] \<Longrightarrow> \<exists>m. rb m (plug t P) \<and> root_color (plug t P) = 0"
proof (induction t P arbitrary: n rule: plug.induct)
  case (2 t a c x r P)
  {
    case 1
    then show ?case using 2(1)[of "Suc n"] 2(2)[of n] by auto
  next
    case 2
    then show ?case using "2.IH"(1)[of "Suc n"] by auto
  }
next
  case (3 t l a c x P)
  {
    case 1
    then show ?case using 3(1)[of "Suc n"] 3(2)[of n] by auto
  next
    case 2
    then show ?case using "3.IH"(1)[of "Suc n"] by auto
  }
qed auto

section \<open>fixup\<close>

lemma red_parent_at:
  assumes "at_path s (Nd l a c x r) P"
  shows "red_parent (Some a) s = Some (top_color P = 1)"
proof (cases "P = []")
  case True
  then show ?thesis using assms by (simp add: red_parent_def at_path_def)
next
  case False
  then have "rb_root s \<noteq> Some a" using assms prep_root[of "rb_heap s" "rb_root s" "Some a" P] by (auto simp: at_path_def)
  moreover have "\<exists>b m. pref P = Some b \<and> rb_heap s b = Some m \<and> ncolor m = top_color P"
    using assms False by (cases P rule: top_color.cases) (auto simp: at_path_def)
  ultimately show ?thesis using at_node(1)[OF assms] by (auto simp: red_parent_def)
qed

definition fix_round :: "ptr \<Rightarrow> rbtree \<Rightarrow> (ptr \<times> rbtree) option" where
  "fix_round loc s = do { l \<leftarrow> rd loc s; p \<leftarrow> rd (nparent l) s; g \<leftarrow> rd (nparent p) s;
     if nparent l = nleft g then fix_left loc s else fix_right loc s }"

lemma fixup_round:
  "red_parent loc s = Some True \<Longrightarrow> fix_round loc s = Some (loc', s') \<Longrightarrow> fixup loc s = fixup loc' s'"
  by (subst fixup.simps) (auto simp: fix_round_def bind_eq_Some_conv)

lemma fixup_exit:
  assumes "red_parent loc s = Some False" "at_path s (Nd l a c x r) []"
  shows "\<exists>s'. fixup loc s = Some s' \<and> at_path s' (Nd l a 0 x r) [] \<and> rb_next s' = rb_next s"
proof -
  have "rb_root s = Some a" using assms(2) by (simp add: at_path_def)
  then show ?thesis using recolor[OF assms(2), of 0] assms(1) by (subst fixup.simps) simp
qed

text \<open>A round either moves the red node up to the grandparent or ends with a black one there.\<close>

definition moved :: "nat \<Rightarrow> int list \<Rightarrow> frame list \<Rightarrow> ptr \<Rightarrow> rbtree \<Rightarrow> bool" where
  "moved n E R loc s \<longleftrightarrow>
     (\<exists>l b x r. loc = Some b \<and> at_path s (Nd l b 1 x r) R \<and> rb n (Nd l b 1 x r) \<and> elems (Nd l b 1 x r) = E) \<or>
     (\<exists>t. at_path s t R \<and> rb n t \<and> root_color t = 0 \<and> t \<noteq> Tip \<and> elems t = E \<and> red_parent loc s = Some False)"

lemma round_left:
  assumes T: "at_path s (Nd p g 0 z U) R" and p: "p = Nd X b 1 y B \<or> p = Nd B b 1 y X" and X: "X = Nd l a 1 x r"
    and rb: "rb n X" "rb n B" "root_color B = 0" "rb n U"
  shows "\<exists>loc s'. fix_round (Some a) s = Some (loc, s') \<and> moved (Suc n) (elems (Nd p g 0 z U)) R loc s' \<and> rb_next s' = rb_next s"
proof -
  obtain pl pr where pp: "p = Nd pl b 1 y pr" and a: "ref pl = Some a \<or> ref pr = Some a" using p X by auto
  have na: "\<exists>n. rb_heap s a = Some n \<and> nparent n = Some b"
    using at_node(2)[OF T] p X by (auto simp: at_path_def)
  have nb: "rb_heap s b = Some \<lparr>ndata = y, ncolor = 1, nparent = Some g, nright = ref pr, nleft = ref pl\<rparr>"
    using at_node(1)[OF at_node(2)[OF T[unfolded pp]]] by simp
  have rnd: "fix_round (Some a) s = fix_left (Some a) s"
    using na nb at_node(1)[OF T] pp by (auto simp: fix_round_def)
  show ?thesis
  proof (cases "root_color U = 1")
    case True
    then obtain ul u w ur where U: "U = Nd ul u 1 w ur" by (cases U) auto
    obtain s' where s': "fix_left (Some a) s = Some (Some g, s')"
      "at_path s' (Nd (Nd pl b 0 y pr) g 1 z (Nd ul u 0 w ur)) R" "rb_next s' = rb_next s"
      using fix_left_red[OF T[unfolded U] pp a] na by blast
    have "rb (Suc n) (Nd (Nd pl b 0 y pr) g 1 z (Nd ul u 0 w ur))" using rb p pp U by auto
    then have "moved (Suc n) (elems (Nd p g 0 z U)) R (Some g) s'"
      unfolding moved_def using s'(2) by (intro disjI1 exI conjI) (auto simp: pp U)
    then show ?thesis using s'(1,3) rnd by auto
  next
    case False
    then have U0: "root_color U = 0" using rb_color[OF rb(4)] by blast
    from p show ?thesis
    proof
      assume p: "p = Nd X b 1 y B"
      obtain s' where s': "fix_left (Some a) s = Some (Some a, s')" "at_path s' (Nd (Nd l a 1 x r) b 0 y (Nd B g 1 z U)) R"
        "rb_next s' = rb_next s"
        using fix_left_outer[OF T[unfolded p X] False] by blast
      have "rb (Suc n) (Nd (Nd l a 1 x r) b 0 y (Nd B g 1 z U))" using rb U0 X by simp
      moreover have "red_parent (Some a) s' = Some False" using red_parent_at[OF at_node(2)[OF s'(2)]] by simp
      ultimately have "moved (Suc n) (elems (Nd p g 0 z U)) R (Some a) s'"
        unfolding moved_def using s'(2) by (intro disjI2 exI conjI) (auto simp: p X)
      then show ?thesis using s'(1,3) rnd by auto
    next
      assume p: "p = Nd B b 1 y X"
      obtain s' where s': "fix_left (Some a) s = Some (Some b, s')" "at_path s' (Nd (Nd B b 1 y l) a 0 x (Nd r g 1 z U)) R"
        "rb_next s' = rb_next s"
        using fix_left_inner[OF T[unfolded p X] False] by blast
      have "rb (Suc n) (Nd (Nd B b 1 y l) a 0 x (Nd r g 1 z U))" using rb U0 X by simp
      moreover have "red_parent (Some b) s' = Some False" using red_parent_at[OF at_node(2)[OF s'(2)]] by simp
      ultimately have "moved (Suc n) (elems (Nd p g 0 z U)) R (Some b) s'"
        unfolding moved_def using s'(2) by (intro disjI2 exI conjI) (auto simp: p X)
      then show ?thesis using s'(1,3) rnd by auto
    qed
  qed
qed

lemma round_right:
  assumes T: "at_path s (Nd U g 0 z p) R" and p: "p = Nd B b 1 y X \<or> p = Nd X b 1 y B" and X: "X = Nd l a 1 x r"
    and rb: "rb n X" "rb n B" "root_color B = 0" "rb n U"
  shows "\<exists>loc s'. fix_round (Some a) s = Some (loc, s') \<and> moved (Suc n) (elems (Nd U g 0 z p)) R loc s' \<and> rb_next s' = rb_next s"
proof -
  obtain pl pr where pp: "p = Nd pl b 1 y pr" and a: "ref pl = Some a \<or> ref pr = Some a" using p X by auto
  have na: "\<exists>n. rb_heap s a = Some n \<and> nparent n = Some b"
    using at_node(3)[OF T] p X by (auto simp: at_path_def)
  have nb: "rb_heap s b = Some \<lparr>ndata = y, ncolor = 1, nparent = Some g, nright = ref pr, nleft = ref pl\<rparr>"
    using at_node(1)[OF at_node(3)[OF T[unfolded pp]]] by simp
  have "ref U \<noteq> Some b"
  proof
    assume "ref U = Some b"
    then have "b \<in> addrs U" by (rule ref_in)
    then show False using T pp by (auto simp: at_path_def)
  qed
  then have rnd: "fix_round (Some a) s = fix_right (Some a) s"
    using na nb at_node(1)[OF T] pp by (auto simp: fix_round_def)
  show ?thesis
  proof (cases "root_color U = 1")
    case True
    then obtain ul u w ur where U: "U = Nd ul u 1 w ur" by (cases U) auto
    obtain s' where s': "fix_right (Some a) s = Some (Some g, s')"
      "at_path s' (Nd (Nd ul u 0 w ur) g 1 z (Nd pl b 0 y pr)) R" "rb_next s' = rb_next s"
      using fix_right_red[OF T[unfolded U] pp a] na by blast
    have "rb (Suc n) (Nd (Nd ul u 0 w ur) g 1 z (Nd pl b 0 y pr))" using rb p pp U by auto
    then have "moved (Suc n) (elems (Nd U g 0 z p)) R (Some g) s'"
      unfolding moved_def using s'(2) by (intro disjI1 exI conjI) (auto simp: pp U)
    then show ?thesis using s'(1,3) rnd by auto
  next
    case False
    then have U0: "root_color U = 0" using rb_color[OF rb(4)] by blast
    from p show ?thesis
    proof
      assume p: "p = Nd B b 1 y X"
      obtain s' where s': "fix_right (Some a) s = Some (Some a, s')" "at_path s' (Nd (Nd U g 1 z B) b 0 y (Nd l a 1 x r)) R"
        "rb_next s' = rb_next s"
        using fix_right_outer[OF T[unfolded p X] False] by blast
      have "rb (Suc n) (Nd (Nd U g 1 z B) b 0 y (Nd l a 1 x r))" using rb U0 X by simp
      moreover have "red_parent (Some a) s' = Some False" using red_parent_at[OF at_node(3)[OF s'(2)]] by simp
      ultimately have "moved (Suc n) (elems (Nd U g 0 z p)) R (Some a) s'"
        unfolding moved_def using s'(2) by (intro disjI2 exI conjI) (auto simp: p X)
      then show ?thesis using s'(1,3) rnd by auto
    next
      assume p: "p = Nd X b 1 y B"
      obtain s' where s': "fix_right (Some a) s = Some (Some b, s')" "at_path s' (Nd (Nd U g 1 z l) a 0 x (Nd r b 1 y B)) R"
        "rb_next s' = rb_next s"
        using fix_right_inner[OF T[unfolded p X] False] by blast
      have "rb (Suc n) (Nd (Nd U g 1 z l) a 0 x (Nd r b 1 y B))" using rb U0 X by simp
      moreover have "red_parent (Some b) s' = Some False" using red_parent_at[OF at_node(3)[OF s'(2)]] by simp
      ultimately have "moved (Suc n) (elems (Nd U g 0 z p)) R (Some b) s'"
        unfolding moved_def using s'(2) by (intro disjI2 exI conjI) (auto simp: p X)
      then show ?thesis using s'(1,3) rnd by auto
    qed
  qed
qed

lemma fixup_ok:
  "at_path s (Nd l a 1 x r) P \<Longrightarrow> rb n (Nd l a 1 x r) \<Longrightarrow> prb n P \<Longrightarrow>
    \<exists>s' t m. fixup (Some a) s = Some s' \<and> at_path s' t [] \<and> rb m t \<and> root_color t = 0 \<and> elems t = elems (plug (Nd l a 1 x r) P) \<and>
      rb_next s' = rb_next s"
proof (induction "length P" arbitrary: s l a x r P n rule: less_induct)
  case less
  let ?X = "Nd l a 1 x r"
  note T = less.prems(1) and X = less.prems(2) and P = less.prems(3)
  show ?case
  proof (cases "top_color P = 1")
    case False
    then have stop: "red_parent (Some a) s = Some False" using red_parent_at[OF T] by simp
    show ?thesis
    proof (cases "P = []")
      case True
      then have T0: "at_path s ?X []" using T by simp
      have "rb (Suc n) (Nd l a 0 x r)" using X by simp
      moreover obtain s' where "fixup (Some a) s = Some s'" "at_path s' (Nd l a 0 x r) []" "rb_next s' = rb_next s"
        using fixup_exit[OF stop T0] by blast
      ultimately show ?thesis using True by (intro exI[of _ s'] exI[of _ "Nd l a 0 x r"] exI[of _ "Suc n"]) auto
    next
      case ne: False
      have "top_color P = 0" using P False by (cases P rule: top_color.cases) auto
      then obtain m where m: "rb m (plug ?X P)" "root_color (plug ?X P) = 0" using plug_rb(2)[OF X P _ ne] by blast
      obtain l' b c' x' r' where t: "plug ?X P = Nd l' b c' x' r'"
      proof -
        have "plug t P \<noteq> Tip" if "t \<noteq> Tip" for t using that by (induction t P rule: plug.induct) auto
        then show thesis using that by (cases "plug ?X P") auto
      qed
      have "at_path s (Nd l' b c' x' r') []" using at_path_plug[of s ?X P] T t by simp
      then obtain s' where "fixup (Some a) s = Some s'" "at_path s' (Nd l' b 0 x' r') []" "rb_next s' = rb_next s"
        using fixup_exit[OF stop] by blast
      then show ?thesis using m t by (intro exI[of _ s'] exI[of _ "Nd l' b 0 x' r'"] exI[of _ m]) auto
    qed
  next
    case True
    then have go: "red_parent (Some a) s = Some True" using red_parent_at[OF T] by simp
    obtain F G R where FGR: "P = F # G # R" "top_color (G # R) = 0"
      using True P by (cases P rule: top_color.cases; cases "tl P") auto
    obtain b y B where F: "F = FL b 1 y B \<or> F = FR B b 1 y" "rb n B" "root_color B = 0"
      using True P FGR by (cases F) auto
    define p where "p = (case F of FL _ _ _ _ \<Rightarrow> Nd ?X b 1 y B | FR _ _ _ _ \<Rightarrow> Nd B b 1 y ?X)"
    have p: "p = Nd ?X b 1 y B \<or> p = Nd B b 1 y ?X" using F(1) by (auto simp: p_def)
    have Tp: "at_path s p (G # R)" and pl: "plug ?X P = plug p (G # R)" using T F(1) by (auto simp: FGR(1) at_path_up p_def)
    obtain loc s1 E where s1: "fix_round (Some a) s = Some (loc, s1)" "moved (Suc n) E R loc s1" "rb_next s1 = rb_next s"
      "elems (plug ?X P) = before R @ E @ after R" "prb (Suc n) R"
    proof (cases G)
      case (FL g c z U)
      then have G: "G = FL g 0 z U" "rb n U" "prb (Suc n) R" using P FGR F(1) by auto
      then have "at_path s (Nd p g 0 z U) R" using Tp by (simp add: at_path_up)
      from round_left[OF this p refl X F(2,3) G(2)] show thesis
        using that G pl by (auto simp: elems_plug)
    next
      case (FR U g c z)
      then have G: "G = FR U g 0 z" "rb n U" "prb (Suc n) R" using P FGR F(1) by auto
      then have "at_path s (Nd U g 0 z p) R" using Tp by (simp add: at_path_up)
      moreover have "p = Nd B b 1 y ?X \<or> p = Nd ?X b 1 y B" using p by blast
      ultimately obtain loc s1 where "fix_round (Some a) s = Some (loc, s1)" "moved (Suc n) (elems (Nd U g 0 z p)) R loc s1" "rb_next s1 = rb_next s"
        using round_right[OF _ _ refl X F(2,3) G(2)] by blast
      then show thesis using that G pl by (simp add: elems_plug)
    qed
    have nx: "fixup (Some a) s = fixup loc s1" by (rule fixup_round[OF go s1(1)])
    from s1(2) show ?thesis unfolding moved_def
    proof (elim disjE exE conjE)
      fix l' b x' r'
      assume n1: "loc = Some b" "at_path s1 (Nd l' b 1 x' r') R" "rb (Suc n) (Nd l' b 1 x' r')" "elems (Nd l' b 1 x' r') = E"
      have "length R < length P" by (simp add: FGR(1))
      from less.hyps[OF this n1(2,3) s1(5)] obtain s' t m where f: "fixup (Some b) s1 = Some s'" "at_path s' t []" "rb m t"
        "root_color t = 0" "elems t = elems (plug (Nd l' b 1 x' r') R)" "rb_next s' = rb_next s1" by blast
      moreover have "elems t = elems (plug ?X P)" using f(5) s1(4) n1(4) by (simp add: elems_plug)
      ultimately show ?thesis using nx n1(1) s1(3) by (intro exI[of _ s'] exI[of _ t] exI[of _ m]) simp
    next
      fix t
      assume n1: "at_path s1 t R" "rb (Suc n) t" "root_color t = 0" "t \<noteq> Tip" "elems t = E" "red_parent loc s1 = Some False"
      obtain m where m: "rb m (plug t R)" "root_color (plug t R) = 0" using plug_rb(1)[OF n1(2) s1(5) n1(3)] by blast
      have "plug t R \<noteq> Tip" using n1(4) by (induction t R rule: plug.induct) auto
      then obtain l' b c' x' r' where t: "plug t R = Nd l' b c' x' r'" by (cases "plug t R") auto
      have "at_path s1 (Nd l' b c' x' r') []" using at_path_plug[of s1 t R] n1(1) t by simp
      then obtain s' where "fixup loc s1 = Some s'" "at_path s' (Nd l' b 0 x' r') []" "rb_next s' = rb_next s1"
        using fixup_exit[OF n1(6)] by blast
      moreover have "elems (plug t R) = elems (plug ?X P)" using n1(5) s1(4) by (simp add: elems_plug)
      ultimately show ?thesis using m t nx s1(3) by (intro exI[of _ s'] exI[of _ "Nd l' b 0 x' r'"] exI[of _ m]) auto
    qed
  qed
qed

section \<open>insert\<close>

text \<open>Going down from \<open>t\<close>, the new node ends at a leaf between the smaller and the larger data.\<close>

definition hangs :: "nat \<Rightarrow> int \<Rightarrow> int list \<Rightarrow> rbtree \<Rightarrow> frame list \<Rightarrow> bool" where
  "hangs e d E s P \<longleftrightarrow> at_path s (Nd Tip e 1 d Tip) P \<and> prb 0 P \<and> before P @ after P = E \<and>
     (\<forall>y\<in>set (before P). y \<le> d) \<and> (\<forall>y\<in>set (after P). d < y)"

lemma insert_at_ok:
  assumes "at_path s t P" "t \<noteq> Tip" "rb n t" "prb n P" "root_color t = 1 \<longrightarrow> P \<noteq> [] \<and> top_color P = 0"
    and "rb_heap s e = Some (new_node d)" "e \<notin> addrs t \<union> paddrs P" "e < rb_next s"
    and "\<forall>y\<in>set (before P). y \<le> d" "\<forall>y\<in>set (after P). d < y" "sorted (elems t)"
  shows "\<exists>s' P'. insert_at (ref t) (Some e) s = Some s' \<and> hangs e d (before P @ elems t @ after P) s' P' \<and> rb_next s' = rb_next s"
  using assms
proof (induction t arbitrary: P n)
  case (Nd l a c x r)
  note T = Nd.prems(1) and R = Nd.prems(3,4,5) and new = Nd.prems(6-8)
  have na: "rb_heap s a = Some \<lparr>ndata = x, ncolor = c, nparent = pref P, nright = ref r, nleft = ref l\<rparr>" by (rule at_node(1)[OF T])
  have ne: "e \<noteq> a" using new(2) by auto
  have srt: "sorted (elems l)" "sorted (elems r)" "\<forall>y\<in>set (elems l). y \<le> x" "\<forall>y\<in>set (elems r). x \<le> y"
    using Nd.prems(11) by (auto simp: sorted_append)
  define k where "k = (if c = 1 then n else n - 1)"
  have pk: "prb k (FL a c x r # P)" "prb k (FR l a c x # P)" "rb k l" "rb k r"
    using R by (auto simp: k_def split: if_splits)
  have cl: "root_color l = 1 \<longrightarrow> c = 0" "root_color r = 1 \<longrightarrow> c = 0" using R(1) by auto
  have w: "\<exists>s'. (do { s \<leftarrow> wr (Some a) f s; wr (Some e) (\<lambda>x. x\<lparr>nparent := Some a\<rparr>) s }) = Some s' \<and> rb_root s' = rb_root s \<and>
      rb_next s' = rb_next s \<and> rb_heap s' = (rb_heap s)(a := Some (f \<lparr>ndata = x, ncolor = c, nparent = pref P, nright = ref r, nleft = ref l\<rparr>),
        e := Some \<lparr>ndata = d, ncolor = 1, nparent = Some a, nright = None, nleft = None\<rparr>)" for f
    using na new(1) ne by (simp add: new_node_def)
  show ?case
  proof (cases "d < x")
    case True
    show ?thesis
    proof (cases l)
      case Tip
      obtain s' where s': "(do { s \<leftarrow> wr (Some a) (\<lambda>x. x\<lparr>nleft := Some e\<rparr>) s; wr (Some e) (\<lambda>x. x\<lparr>nparent := Some a\<rparr>) s }) = Some s'"
        "rb_root s' = rb_root s" "rb_next s' = rb_next s"
        "rb_heap s' = (rb_heap s)(a := Some \<lparr>ndata = x, ncolor = c, nparent = pref P, nright = ref r, nleft = Some e\<rparr>,
          e := Some \<lparr>ndata = d, ncolor = 1, nparent = Some a, nright = None, nleft = None\<rparr>)"
        using w[of "\<lambda>x. x\<lparr>nleft := Some e\<rparr>"] by auto
      have "at_path s' (Nd Tip e 1 d Tip) (FL a c x r # P)"
        using T new(2,3) ne Tip by (auto simp: at_path_def s')
      then have "hangs e d (before P @ elems (Nd l a c x r) @ after P) s' (FL a c x r # P)"
        using pk Tip Nd.prems(9,10) True srt(4) by (auto simp: hangs_def)
      moreover have "insert_at (Some a) (Some e) s = Some s'"
        using na new(1) True Tip s'(1) by (subst insert_at.simps) (simp add: new_node_def)
      ultimately show ?thesis using s'(3) by auto
    next
      case (Nd l1 a1 c1 x1 r1)
      have "\<exists>s' P'. insert_at (ref l) (Some e) s = Some s' \<and> hangs e d (before (FL a c x r # P) @ elems l @ after (FL a c x r # P)) s' P' \<and>
          rb_next s' = rb_next s"
      proof (rule Nd.IH(1)[where n = k])
        show "at_path s l (FL a c x r # P)" using T by (simp add: at_path_up)
        show "l \<noteq> Tip" using Nd by simp
        show "rb k l" "prb k (FL a c x r # P)" by (rule pk)+
        show "root_color l = 1 \<longrightarrow> FL a c x r # P \<noteq> [] \<and> top_color (FL a c x r # P) = 0" using cl by simp
        show "rb_heap s e = Some (new_node d)" "e < rb_next s" "sorted (elems l)" by (rule new srt)+
        show "e \<notin> addrs l \<union> paddrs (FL a c x r # P)" using new(2) by simp
        show "\<forall>y\<in>set (before (FL a c x r # P)). y \<le> d" "\<forall>y\<in>set (after (FL a c x r # P)). d < y"
          using Nd.prems(9,10) True srt by auto
      qed
      moreover have "insert_at (Some a) (Some e) s = insert_at (ref l) (Some e) s"
        using na new(1) True Nd by (subst insert_at.simps) (simp add: new_node_def)
      ultimately show ?thesis by simp
    qed
  next
    case False
    show ?thesis
    proof (cases r)
      case Tip
      obtain s' where s': "(do { s \<leftarrow> wr (Some a) (\<lambda>x. x\<lparr>nright := Some e\<rparr>) s; wr (Some e) (\<lambda>x. x\<lparr>nparent := Some a\<rparr>) s }) = Some s'"
        "rb_root s' = rb_root s" "rb_next s' = rb_next s"
        "rb_heap s' = (rb_heap s)(a := Some \<lparr>ndata = x, ncolor = c, nparent = pref P, nright = Some e, nleft = ref l\<rparr>,
          e := Some \<lparr>ndata = d, ncolor = 1, nparent = Some a, nright = None, nleft = None\<rparr>)"
        using w[of "\<lambda>x. x\<lparr>nright := Some e\<rparr>"] by auto
      have "at_path s' (Nd Tip e 1 d Tip) (FR l a c x # P)"
        using T new(2,3) ne Tip by (auto simp: at_path_def s')
      then have "hangs e d (before P @ elems (Nd l a c x r) @ after P) s' (FR l a c x # P)"
        using pk Tip Nd.prems(9,10) False srt(3) by (auto simp: hangs_def)
      moreover have "insert_at (Some a) (Some e) s = Some s'"
        using na new(1) False Tip s'(1) by (subst insert_at.simps) (simp add: new_node_def)
      ultimately show ?thesis using s'(3) by auto
    next
      case (Nd l1 a1 c1 x1 r1)
      have "\<exists>s' P'. insert_at (ref r) (Some e) s = Some s' \<and> hangs e d (before (FR l a c x # P) @ elems r @ after (FR l a c x # P)) s' P' \<and>
          rb_next s' = rb_next s"
      proof (rule Nd.IH(2)[where n = k])
        show "at_path s r (FR l a c x # P)" using T by (simp add: at_path_up)
        show "r \<noteq> Tip" using Nd by simp
        show "rb k r" "prb k (FR l a c x # P)" by (rule pk)+
        show "root_color r = 1 \<longrightarrow> FR l a c x # P \<noteq> [] \<and> top_color (FR l a c x # P) = 0" using cl by simp
        show "rb_heap s e = Some (new_node d)" "e < rb_next s" "sorted (elems r)" by (rule new srt)+
        show "e \<notin> addrs r \<union> paddrs (FR l a c x # P)" using new(2) by simp
        show "\<forall>y\<in>set (before (FR l a c x # P)). y \<le> d" "\<forall>y\<in>set (after (FR l a c x # P)). d < y"
          using Nd.prems(9,10) False srt by auto
      qed
      moreover have "insert_at (Some a) (Some e) s = insert_at (ref r) (Some e) s"
        using na new(1) False Nd by (subst insert_at.simps) (simp add: new_node_def)
      ultimately show ?thesis by simp
    qed
  qed
qed simp

section \<open>Insertions one after the other\<close>

text \<open>A tree that the program can be between two insertions.\<close>

definition good_tree :: "rbtree \<Rightarrow> shape \<Rightarrow> bool" where
  "good_tree s t \<longleftrightarrow> at_path s t [] \<and> (\<exists>n. rb n t) \<and> root_color t = 0 \<and> sorted (elems t)"

lemma at_path_alloc:
  assumes "at_path s t P"
  shows "at_path (s\<lparr>rb_heap := (rb_heap s)(rb_next s := v), rb_next := Suc (rb_next s)\<rparr>) t P"
proof -
  have "rb_next s \<notin> addrs t \<union> paddrs P" using assms by (auto simp: at_path_def)
  then show ?thesis using assms by (auto simp: at_path_def intro: less_SucI)
qed

lemma insert_fixup:
  assumes "good_tree s t"
  shows "\<exists>new s1 s2 t'. rb_insert d s = Some (new, s1) \<and> fixup new s1 = Some s2 \<and> good_tree s2 t' \<and> mset (elems t') = add_mset d (mset (elems t))"
proof -
  let ?e = "rb_next s"
  let ?s0 = "s\<lparr>rb_heap := (rb_heap s)(?e := Some (new_node d)), rb_next := Suc ?e\<rparr>"
  have T: "at_path s t []" and srt: "sorted (elems t)" and col: "root_color t = 0" using assms by (simp_all add: good_tree_def)
  obtain n where n: "rb n t" using assms by (auto simp: good_tree_def)
  have T0: "at_path ?s0 t []" by (rule at_path_alloc[OF T])
  show ?thesis
  proof (cases t)
    case Tip
    then have root: "rb_root s = None" using T by (simp add: at_path_def)
    let ?s1 = "?s0\<lparr>rb_root := Some ?e, rb_heap := (rb_heap s)(?e := Some ((new_node d)\<lparr>ncolor := 0\<rparr>))\<rparr>"
    have i: "rb_insert d s = Some (Some ?e, ?s1)" using root by (simp add: rb_insert_def Let_def)
    have at: "at_path ?s1 (Nd Tip ?e 0 d Tip) []" by (simp add: at_path_def new_node_def)
    have "red_parent (Some ?e) ?s1 = Some False" using red_parent_at[OF at] by simp
    from fixup_exit[OF this at] obtain s2 where s2: "fixup (Some ?e) ?s1 = Some s2" "at_path s2 (Nd Tip ?e 0 d Tip) []" by blast
    have "rb 1 (Nd Tip ?e 0 d Tip)" by simp
    then have "good_tree s2 (Nd Tip ?e 0 d Tip)" using s2(2) unfolding good_tree_def by fastforce
    then show ?thesis using i s2(1) Tip
      by (intro exI[of _ "Some ?e"] exI[of _ ?s1] exI[of _ s2] exI[of _ "Nd Tip ?e 0 d Tip"]) simp
  next
    case (Nd l a c x r)
    then have root: "rb_root s = ref t" "rb_root s \<noteq> None" using T by (auto simp: at_path_def)
    have new: "?e \<notin> addrs t \<union> paddrs []" using T by (auto simp: at_path_def)
    have "\<exists>s' P'. insert_at (ref t) (Some ?e) ?s0 = Some s' \<and> hangs ?e d (before [] @ elems t @ after []) s' P' \<and> rb_next s' = rb_next ?s0"
      by (rule insert_at_ok[OF T0 _ n _ _ _ new]) (use Nd col srt in simp_all)
    then obtain s1 P where s1: "insert_at (ref t) (Some ?e) ?s0 = Some s1" "hangs ?e d (elems t) s1 P" by auto
    then have i: "rb_insert d s = Some (Some ?e, s1)" using root by (auto simp: rb_insert_def Let_def)
    note H = s1(2)[unfolded hangs_def]
    have "rb 0 (Nd Tip ?e 1 d Tip)" by simp
    with H obtain s2 t' m where f: "fixup (Some ?e) s1 = Some s2" "at_path s2 t' []" "rb m t'" "root_color t' = 0"
      "elems t' = elems (plug (Nd Tip ?e 1 d Tip) P)"
      using fixup_ok[of s1 Tip ?e d Tip P 0] by blast
    have e: "elems t' = before P @ d # after P" using f(5) by (simp add: elems_plug)
    have "sorted (before P @ after P)" using H srt by simp
    then have "sorted (before P)" "sorted (after P)" by (simp_all add: sorted_append)
    then have "sorted (elems t')" using H unfolding e by (fastforce simp: sorted_append)
    moreover have "mset (elems t') = add_mset d (mset (elems t))" using H unfolding e by (metis mset_append union_mset_add_mset_right mset.simps(2))
    ultimately show ?thesis using i f by (intro exI[of _ "Some ?e"] exI[of _ s1] exI[of _ s2] exI[of _ t']) (auto simp: good_tree_def)
  qed
qed

lemma rb_main_ok:
  "good_tree s t \<Longrightarrow> \<exists>s' t'. rb_main xs s = Some s' \<and> good_tree s' t' \<and> mset (elems t') = mset (elems t) + mset xs"
proof (induction xs arbitrary: s t)
  case (Cons x xs)
  obtain new s1 s2 t1 where i: "rb_insert x s = Some (new, s1)" "fixup new s1 = Some s2" "good_tree s2 t1"
    "mset (elems t1) = add_mset x (mset (elems t))" using insert_fixup[OF Cons.prems] by blast
  obtain s' t' where "rb_main xs s2 = Some s'" "good_tree s' t'" "mset (elems t') = mset (elems t1) + mset xs"
    using Cons.IH[OF i(3)] by blast
  then show ?case using i by auto
qed auto

lemma inorder_at: "rep (rb_heap s) par t \<Longrightarrow> inorder (ref t) s = Some (elems t)"
proof (induction t arbitrary: par)
  case Tip
  show ?case by (subst inorder.simps) simp
next
  case (Nd l a c x r)
  then have "inorder (ref l) s = Some (elems l)" "inorder (ref r) s = Some (elems r)" by auto
  then show ?case using Nd.prems by (subst inorder.simps) simp
qed

text \<open>The longest way down.\<close>

fun depth :: "shape \<Rightarrow> nat" where
  "depth Tip = 0"
| "depth (Nd l a c x r) = Suc (max (depth l) (depth r))"

lemma depth_rb: "rb n t \<Longrightarrow> depth t \<le> 2 * n + (if root_color t = 1 then 1 else 0) \<and> 2 ^ n \<le> length (elems t) + 1"
proof (induction t arbitrary: n)
  case (Nd l a c x r)
  show ?case
  proof (cases "c = 1")
    case True
    then have "root_color l = 0" "root_color r = 0" "rb n l" "rb n r" using Nd.prems by auto
    then show ?thesis using Nd.IH[of n] True by simp
  next
    case False
    then obtain m where m: "n = Suc m" "rb m l" "rb m r" using Nd.prems by (cases n) auto
    have "depth l \<le> 2 * m + 1" "depth r \<le> 2 * m + 1" "2 ^ m \<le> length (elems l) + 1" "2 ^ m \<le> length (elems r) + 1"
      using Nd.IH(1)[OF m(2)] Nd.IH(2)[OF m(3)] by (auto split: if_splits)
    then show ?thesis using m(1) False by simp
  qed
qed simp

text \<open>C31: The red-black tree program is correct.  For any input \<open>main\<close> inserts all of it without
  following a null pointer and without looping; the member \<open>inorder\<close> then prints the input in ascending order; and
  the heap holds a red-black tree whose parent pointers are right and whose longest way down has at
  most \<open>2 * log2 (n + 1)\<close> of the \<open>n\<close> nodes.\<close>

theorem rb_main_sorts_balanced:
  "\<exists>s t. rb_main xs new_tree = Some s \<and> inorder (rb_root s) s = Some (sort xs) \<and>
     at_path s t [] \<and> (\<exists>n. rb n t) \<and> root_color t = 0 \<and> 2 ^ depth t \<le> (length xs + 1) ^ 2"
proof -
  have "good_tree new_tree Tip" by (simp add: good_tree_def at_path_def new_tree_def)
  then obtain s t where s: "rb_main xs new_tree = Some s" "good_tree s t" "mset (elems t) = mset xs"
    using rb_main_ok[of new_tree Tip xs] by auto
  obtain n where t: "at_path s t []" "rb n t" "root_color t = 0" "sorted (elems t)" using s(2) by (auto simp: good_tree_def)
  have e: "elems t = sort xs" by (rule properties_for_sort[symmetric]) (use s(3) t(4) in simp_all)
  have r: "rb_root s = ref t" "rep (rb_heap s) None t" using t(1) by (simp_all add: at_path_def)
  have "depth t \<le> 2 * n" "2 ^ n \<le> length xs + 1" using depth_rb[OF t(2)] t(3) e by simp_all
  then have "(2 :: nat) ^ depth t \<le> (2 ^ n) ^ 2" by (simp add: power_mult[symmetric] mult.commute)
  also have "\<dots> \<le> (length xs + 1) ^ 2" using \<open>2 ^ n \<le> length xs + 1\<close> by (rule power_mono) simp
  finally show ?thesis using s(1) t r inorder_at[OF r(2)] e by auto
qed

end
