(* ===== verification/Spec2Isabelle.thy ===== *)
theory Spec2Isabelle
  imports Prelude Cstring Machine Kalloc Vm Bytes Bio Log LogCrash BlockStore Fs Dir Ring Pipe Printf Console Kernel File Proc Exec Sysarg Sysfile Trap ProcFacts Post ProcInv Scheduling Procnew FsFacts SysFacts FileFacts Kbd Shell AddrSpace CowFork Rwlock Heap Posters Search Queues BestFit FileIO Balloc Grep Dirs Forking Append Zemaphore Umalloc Freevm Waiting Redblack
begin

text \<open>
  A verification library for the C and C++ programs of this repository.  Its main part is the xv6
  kernel with copy-on-write fork under \<open>src/os/memory-assignment\<close>, from the page allocator to the trap
  handler, with the shell and other user programs that run on it.  The rest are the author's smaller
  programs: reader-writer locks, a page-sized allocator, and the data structures of \<open>src/dsa\<close> and
  \<open>src/DAA\<close>.

  \<^bold>\<open>The kernel and how its parts interact.\<close>  A kernel function is a HOL function from its arguments and
  the kernel state to an outcome (theory Prelude): \<open>Ok a s\<close> is a return, \<open>Panic\<close> a call of
  \<open>panic\<close>, \<open>Switch s\<close> the \<open>swtch\<close> into the scheduler, \<open>Spin\<close> a spin lock that the one
  processor would wait for forever, \<open>Fault\<close> an access through a null pointer.  \<open>call\<close> sequences two
  outcomes, \<open>for_each\<close> is a C \<open>for\<close> loop with early exits, and \<open>zoom\<close> runs a function of a component on
  its part of a larger state.  The states nest as the components call each other:
  \<open>mach\<close> (processors, locks, process table; spinlock.c, sleeplock.c, proc.h) is part of \<open>kst\<close> (memory,
  free list, reference counts; kalloc.c), which is part of \<open>vst\<close> (page tables; vm.c).  \<open>mach\<close> is also
  part of \<open>bst\<close> (disk and buffers; bio.c), then \<open>lst\<close> (log; log.c), then \<open>fss\<close> (superblock
  and inode cache; fs.c).  The record \<open>kernel\<close> holds them all with files, pipes, console and ticks;
  memory is one map from addresses to bytes, so page tables, the free list and user pages
  share the frames as they do in the machine.  A disk request is synchronous (memide.c), a context
  switch ends a function, and what runs after it is a definition with the suffix \<open>_resume\<close>.

  \<^bold>\<open>Theories.\<close>
  \<^item> Prelude: outcomes, loops, words and shared automation.  Bytes and Cstring: byte blocks, byte
    memory, string.c and ulib.c.  Ring: circular buffers with wrapping counters, as a locale that
    Pipe and Console interpret.
  \<^item> Machine: locks, \<open>sleep\<close>, \<open>wakeup\<close>.  Kalloc: the free list threaded through the free pages refines a
    pool of counted pages.  Vm: page walks, mapping, \<open>copyuvm\<close>, \<open>handle_pgflt_helper\<close> and the
    isolation of a fault.  AddrSpace and CowFork: what a page directory says for every address, and
    fork followed by faults on both sides.  Freevm: giving up an address space.  Forking: the whole of
    \<open>fork\<close>.  Waiting: \<open>wait\<close>, and that a fork, the exit of the child and a \<open>wait\<close> restore the allocator.
  \<^item> Bio, Log, LogCrash, BlockStore: buffers and write-ahead log; recovery after a crash at any
    disk write of \<open>commit\<close>; the locale \<open>block_store\<close>, the interface the file system uses, interpreted on
    writing through and on logging.
  \<^item> Fs, Dir, FsFacts, FileIO, Balloc, Append, Dirs: inodes, block maps, directories, paths; formats
    on disk; reading and writing the contents of files; the block allocator over its bitmap; growing a
    file; directories as finite maps from names to inodes.
  \<^item> Kernel, Pipe, File, FileFacts, Printf, Console, Kbd: the whole state, pipes, open files, formatted
    output, line editing and scan codes.
  \<^item> Proc, Exec, Sysarg, Sysfile, Trap: processes, program loading, every system call and the
    trap handler.  ProcFacts, Post, ProcInv, Scheduling, Procnew, SysFacts: their properties.  Post has
    rules for what any program built from the kernel's operations keeps (locale \<open>lock_inv\<close>); ProcInv
    extends it to the process table and interprets it for unique pids, through every system call.
  \<^item> Shell, Grep, Umalloc: user programs.  Shell parses what it prints; Grep decides the language of
    a pattern; Umalloc has \<open>malloc\<close> and \<open>free\<close> on the circle of free blocks in byte memory.
  \<^item> Threads, Rwlock, Zemaphore: two reader-writer locks and the counting semaphore of zemaphore.c as
    step relations of any number of threads; Threads counts threads at program points.  BestFit:
    alloc.cpp.  Heap, Redblack, Queues, Search, Posters: the data structures; Redblack has the tree of
    rb.cpp as nodes in a heap, with parent pointers; Queues states the first-in first-out contract as a
    locale and interprets it on both implementations.

  \<^bold>\<open>Bounds and fuel.\<close>  Machine integers have their C width.  Loops are bounded \<open>for_each\<close>
  loops, structural recursions or functions with a measure; the loops that may run forever end in
  \<open>Switch\<close> at their \<open>sleep\<close>.  Only the walks of \<open>malloc\<close> and \<open>free\<close> along the circle of free blocks and of
  Redblack along the pointers of the tree, which end because these are in order, are
  \<open>partial_function\<close>s, and that they return is part of their theorem.  No fuel is used.

  \<^bold>\<open>What is assumed.\<close>  One processor runs at a time and an interrupt arrives between kernel functions,
  as the kernel keeps interrupts off while it holds a spin lock (\<open>interrupts_off_while_locked\<close>).
  Device registers, user memory and the input of a program are state or arguments.  Properties about
  memory take hypotheses that say which frames hold page tables and how often each is referenced; each
  has a witness on a small concrete kernel.

  \<^bold>\<open>Not modelled.\<close>  Start-up and hardware registers (main.c, bootmain.c, lapic.c, ioapic.c, mp.c,
  picirq.c, ide.c, uart and console initialisation); the test programs; \<open>procdump\<close> and other debug
  output; user programs that only loop over system calls; host programs that are sequences of
  POSIX calls; float and double computations (the area of the posters, the dictionary's hash); the
  third-party simulator ChampSim; the variants of the kernel files outside memory-assignment.
\<close>

end
